(* ===== verification/Prelude.thy ===== *)
theory Prelude
  imports "HOL-Library.Word" "HOL-Library.Finite_Map" "HOL-Library.Char_ord"
    "HOL-Library.List_Lexorder" "HOL-Library.Sublist"
begin

text \<open>
  Shared vocabulary of the development: the byte, string and digest types of the
  Go program, the fixed-width integer encodings of \<^verbatim>\<open>encoding/binary\<close>, the
  hexadecimal codec of \<^verbatim>\<open>encoding/hex\<close>, the UTF-8 rules of
  \<^verbatim>\<open>unicode/utf8\<close>, a few string helpers of \<^verbatim>\<open>strings\<close>, and the generic
  facts on lists and results that the component theories use.

  A Go \<^verbatim>\<open>string\<close> is a byte sequence and so is an Isabelle \<open>string\<close> (a
  \<open>char\<close> has eight bits); Go orders strings bytewise, which is the
  lexicographic order of \<^verbatim>\<open>List_Lexorder\<close> on \<^verbatim>\<open>Char_ord\<close>. A Go
  \<^verbatim>\<open>[32]byte\<close> digest is a 256-bit word, read most significant byte first.
\<close>

unbundle bit_operations_syntax

named_theorems codec_simps \<open>length and round-trip facts of the binary codecs\<close>
named_theorems frame_simps \<open>what an operation leaves unchanged\<close>

type_synonym byte = "8 word"
type_synonym bytes = "8 word list"
type_synonym u16 = "16 word"
type_synonym u32 = "32 word"
type_synonym u64 = "64 word"
type_synonym digest = "256 word"
type_synonym time = int

section \<open>Results\<close>

text \<open>A fallible call returns \<open>Inl\<close> of its error or \<open>Inr\<close> of its value.\<close>

abbreviation is_ok :: "'e + 'a \<Rightarrow> bool" where
  "is_ok r \<equiv> (\<exists>x. r = Inr x)"

fun bind_result :: "'e + 'a \<Rightarrow> ('a \<Rightarrow> 'e + 'b) \<Rightarrow> 'e + 'b" where
  "bind_result (Inl e) f = Inl e"
| "bind_result (Inr x) f = f x"

lemma bind_result_Inr [simp]:
  "(bind_result r f = Inr y) \<longleftrightarrow> (\<exists>x. r = Inr x \<and> f x = Inr y)"
  by (cases r) auto

text \<open>Folding a fallible step over a list, stopping at the first error.\<close>

fun fold_result :: "('a \<Rightarrow> 's \<Rightarrow> 'e + 's) \<Rightarrow> 'a list \<Rightarrow> 's \<Rightarrow> 'e + 's" where
  "fold_result f [] s = Inr s"
| "fold_result f (x # xs) s = bind_result (f x s) (fold_result f xs)"

lemma fold_result_append:
  "fold_result f (xs @ ys) s = bind_result (fold_result f xs s) (fold_result f ys)"
proof (induction xs arbitrary: s)
  case (Cons x xs)
  then show ?case by (cases "f x s") auto
qed simp

section \<open>Fixed-width integers as bytes\<close>

text \<open>
  \<open>be_nat k n\<close> is the \<open>k\<close>-byte big-endian encoding of \<open>n\<close> modulo \<open>256 ^ k\<close>,
  \<open>be_val\<close> its decoding; the little-endian forms are their reversals.
\<close>

fun be_nat :: "nat \<Rightarrow> nat \<Rightarrow> bytes" where
  "be_nat 0 n = []"
| "be_nat (Suc k) n = be_nat k (n div 256) @ [word_of_nat n]"

definition be_val :: "bytes \<Rightarrow> nat" where
  "be_val bs = foldl (\<lambda>a b. a * 256 + unat b) 0 bs"

definition le_nat :: "nat \<Rightarrow> nat \<Rightarrow> bytes" where
  "le_nat k n = rev (be_nat k n)"

definition le_val :: "bytes \<Rightarrow> nat" where
  "le_val bs = be_val (rev bs)"

lemma be_val_Nil [simp]: "be_val [] = 0"
  by (simp add: be_val_def)

lemma be_val_snoc [simp]: "be_val (bs @ [b]) = be_val bs * 256 + unat b"
  by (simp add: be_val_def)

lemma length_be_nat [simp, codec_simps]: "length (be_nat k n) = k"
  by (induction k n rule: be_nat.induct) auto

lemma length_le_nat [simp, codec_simps]: "length (le_nat k n) = k"
  by (simp add: le_nat_def)

lemma unat_byte_of_nat: "unat (word_of_nat n :: byte) = n mod 256"
  by (simp add: unat_of_nat take_bit_eq_mod)

lemma unat_byte_less [simp]: "unat (b :: byte) < 256"
proof -
  have "unat b < 2 ^ LENGTH(8)" by (rule unsigned_less)
  then show ?thesis by simp
qed

lemma be_val_be_nat [codec_simps]: "be_val (be_nat k n) = n mod 256 ^ k"
proof (induction k n rule: be_nat.induct)
  case (2 k n)
  have "be_val (be_nat (Suc k) n) = (n div 256 mod 256 ^ k) * 256 + n mod 256"
    by (simp add: 2 unat_byte_of_nat)
  also have "\<dots> = n mod (256 * 256 ^ k)"
    by (simp add: mod_mult2_eq)
  finally show ?case by simp
qed simp

lemma le_val_le_nat [codec_simps]: "le_val (le_nat k n) = n mod 256 ^ k"
  by (simp add: le_val_def le_nat_def be_val_be_nat)

lemma be_val_less: "be_val bs < 256 ^ length bs"
proof (induction bs rule: rev_induct)
  case (snoc b bs)
  have "unat b < 256" by simp
  with snoc have "be_val bs * 256 + unat b < (be_val bs + 1) * 256" by simp
  also have "\<dots> \<le> 256 ^ length bs * 256" using snoc by simp
  finally show ?case by (simp add: mult.commute)
qed simp

lemma be_nat_be_val [codec_simps]: "be_nat (length bs) (be_val bs) = bs"
proof (induction bs rule: rev_induct)
  case (snoc b bs)
  have b: "unat b < 256" by simp
  have "(be_val bs * 256 + unat b) div 256 = be_val bs" using b by simp
  moreover have "word_of_nat (be_val bs * 256 + unat b) = b"
  proof (rule word_unat_eq_iff [THEN iffD2])
    show "unat (word_of_nat (be_val bs * 256 + unat b) :: byte) = unat b"
      using b by (simp only: unat_byte_of_nat) simp
  qed
  ultimately show ?case using snoc by simp
qed simp

text \<open>The \<^verbatim>\<open>PutUint\<close> and \<^verbatim>\<open>Uint\<close> accessors of both byte orders.\<close>

definition put_be :: "nat \<Rightarrow> 'a::len word \<Rightarrow> bytes" where
  "put_be k w = be_nat k (unat w)"

definition get_be :: "bytes \<Rightarrow> 'a::len word" where
  "get_be bs = word_of_nat (be_val bs)"

definition put_le :: "nat \<Rightarrow> 'a::len word \<Rightarrow> bytes" where
  "put_le k w = le_nat k (unat w)"

definition get_le :: "bytes \<Rightarrow> 'a::len word" where
  "get_le bs = word_of_nat (le_val bs)"

lemma length_put_be [simp, codec_simps]: "length (put_be k w) = k"
  by (simp add: put_be_def)

lemma length_put_le [simp, codec_simps]: "length (put_le k w) = k"
  by (simp add: put_le_def)

lemma get_put_be:
  assumes "LENGTH('a) = 8 * k"
  shows "get_be (put_be k (w :: 'a::len word)) = w"
proof -
  have "unat w < 2 ^ (8 * k)" using unsigned_less [of w] assms by simp
  then have "unat w < 256 ^ k" by (simp add: power_mult)
  then show ?thesis by (simp add: get_be_def put_be_def be_val_be_nat)
qed

lemma get_put_le:
  assumes "LENGTH('a) = 8 * k"
  shows "get_le (put_le k (w :: 'a::len word)) = w"
proof -
  have "unat w < 2 ^ (8 * k)" using unsigned_less [of w] assms by simp
  then have "unat w < 256 ^ k" by (simp add: power_mult)
  then show ?thesis by (simp add: get_le_def put_le_def le_val_le_nat)
qed

lemma put_get_be:
  assumes "LENGTH('a) = 8 * length bs"
  shows "put_be (length bs) (get_be bs :: 'a::len word) = bs"
proof -
  have "be_val bs < 2 ^ LENGTH('a)"
    using be_val_less [of bs] assms by (simp add: power_mult)
  then have "unat (word_of_nat (be_val bs) :: 'a word) = be_val bs"
    by (simp add: unat_of_nat take_bit_nat_eq_self)
  then show ?thesis by (simp add: put_be_def get_be_def be_nat_be_val)
qed

lemma get_put_be16 [simp]: "get_be (put_be 2 w) = (w :: u16)"
  by (rule get_put_be) simp
lemma get_put_be32 [simp]: "get_be (put_be 4 w) = (w :: u32)"
  by (rule get_put_be) simp
lemma get_put_be64 [simp]: "get_be (put_be 8 w) = (w :: u64)"
  by (rule get_put_be) simp
lemma get_put_le16 [simp]: "get_le (put_le 2 w) = (w :: u16)"
  by (rule get_put_le) simp
lemma get_put_le32 [simp]: "get_le (put_le 4 w) = (w :: u32)"
  by (rule get_put_le) simp
lemma get_put_le64 [simp]: "get_le (put_le 8 w) = (w :: u64)"
  by (rule get_put_le) simp

text \<open>A digest as its 32 bytes.\<close>

definition digest_bytes :: "digest \<Rightarrow> bytes" where
  "digest_bytes d = put_be 32 d"

definition digest_of_bytes :: "bytes \<Rightarrow> digest" where
  "digest_of_bytes bs = get_be bs"

lemma length_digest_bytes [simp, codec_simps]: "length (digest_bytes d) = 32"
  by (simp add: digest_bytes_def)

lemma digest_of_digest_bytes [simp]: "digest_of_bytes (digest_bytes d) = d"
  unfolding digest_of_bytes_def digest_bytes_def by (rule get_put_be) simp

lemma digest_bytes_of_bytes: "length bs = 32 \<Longrightarrow> digest_bytes (digest_of_bytes bs) = bs"
  unfolding digest_of_bytes_def digest_bytes_def
  using put_get_be [of bs, where 'a = 256] by simp

section \<open>Strings\<close>

definition bytes_of_string :: "string \<Rightarrow> bytes" where
  "bytes_of_string s = map (\<lambda>c. word_of_nat (of_char c)) s"

definition string_of_bytes :: "bytes \<Rightarrow> string" where
  "string_of_bytes bs = map (\<lambda>b. char_of (unat b)) bs"

lemma length_bytes_of_string [simp]: "length (bytes_of_string s) = length s"
  by (simp add: bytes_of_string_def)

lemma length_string_of_bytes [simp]: "length (string_of_bytes s) = length s"
  by (simp add: string_of_bytes_def)

lemma string_of_bytes_of_string [simp]: "string_of_bytes (bytes_of_string s) = s"
proof -
  have "char_of (unat (word_of_nat (of_char c) :: byte)) = c" for c
    by (simp add: unat_byte_of_nat)
  then show ?thesis
    by (simp add: string_of_bytes_def bytes_of_string_def comp_def)
qed

lemma bytes_of_string_of_bytes [simp]: "bytes_of_string (string_of_bytes bs) = bs"
proof -
  have "word_of_nat (of_char (char_of (unat b) :: char)) = b" for b :: byte
    by (simp add: mod_less [OF unat_byte_less])
  then show ?thesis
    by (simp add: string_of_bytes_def bytes_of_string_def comp_def)
qed

lemma bytes_of_string_inj: "bytes_of_string s = bytes_of_string t \<longleftrightarrow> s = t"
  by (metis string_of_bytes_of_string)

subsection \<open>Hexadecimal\<close>

definition hex_digit :: "nat \<Rightarrow> char" where
  "hex_digit n = (if n < 10 then char_of (48 + n) else char_of (87 + n))"

definition hex_value :: "char \<Rightarrow> nat option" where
  "hex_value c = (let k = of_char c :: nat in
     if 48 \<le> k \<and> k \<le> 57 then Some (k - 48)
     else if 97 \<le> k \<and> k \<le> 102 then Some (k - 87)
     else if 65 \<le> k \<and> k \<le> 70 then Some (k - 55)
     else None)"

fun hex_encode :: "bytes \<Rightarrow> string" where
  "hex_encode [] = []"
| "hex_encode (b # bs) = hex_digit (unat b div 16) # hex_digit (unat b mod 16) # hex_encode bs"

fun hex_decode :: "string \<Rightarrow> bytes option" where
  "hex_decode [] = Some []"
| "hex_decode [_] = None"
| "hex_decode (c # d # s) =
     (case (hex_value c, hex_value d, hex_decode s) of
        (Some h, Some l, Some bs) \<Rightarrow> Some (word_of_nat (16 * h + l) # bs)
      | _ \<Rightarrow> None)"

lemma hex_value_digit: "n < 16 \<Longrightarrow> hex_value (hex_digit n) = Some n"
  by (auto simp: hex_digit_def hex_value_def Let_def)

lemma length_hex_encode [simp]: "length (hex_encode bs) = 2 * length bs"
  by (induction bs) auto

lemma hex_decode_encode [simp]: "hex_decode (hex_encode bs) = Some bs"
proof (induction bs)
  case (Cons b bs)
  have "unat b < 256" by simp
  then have "unat b div 16 < 16" "unat b mod 16 < 16" by linarith+
  with Cons show ?case by (simp add: hex_value_digit)
qed simp

lemma hex_decode_length: "hex_decode s = Some bs \<Longrightarrow> length s = 2 * length bs"
  by (induction s arbitrary: bs rule: hex_decode.induct) (auto split: option.splits)

subsection \<open>UTF-8\<close>

text \<open>
  The byte ranges \<^verbatim>\<open>unicode/utf8\<close> accepts. \<open>utf8_rune s\<close> is the length of the valid
  encoding that \<open>s\<close> begins with, or 0 when its first byte starts none (the case
  \<^verbatim>\<open>DecodeRuneInString\<close> reports as \<^verbatim>\<open>RuneError\<close> of width 1).
\<close>

definition cont_byte :: "char \<Rightarrow> bool" where
  "cont_byte c \<longleftrightarrow> 128 \<le> (of_char c :: nat) \<and> (of_char c :: nat) \<le> 191"

fun utf8_rune :: "string \<Rightarrow> nat" where
  "utf8_rune [] = 0"
| "utf8_rune (a # s) = (let x = of_char a :: nat in
     if x < 128 then 1
     else if 194 \<le> x \<and> x \<le> 223 then
       (case s of b # _ \<Rightarrow> if cont_byte b then 2 else 0 | _ \<Rightarrow> 0)
     else if 224 \<le> x \<and> x \<le> 239 then
       (case s of b # c # _ \<Rightarrow>
          if cont_byte b \<and> cont_byte c
             \<and> (x = 224 \<longrightarrow> 160 \<le> (of_char b :: nat)) \<and> (x = 237 \<longrightarrow> (of_char b :: nat) \<le> 159)
          then 3 else 0 | _ \<Rightarrow> 0)
     else if 240 \<le> x \<and> x \<le> 244 then
       (case s of b # c # d # _ \<Rightarrow>
          if cont_byte b \<and> cont_byte c \<and> cont_byte d
             \<and> (x = 240 \<longrightarrow> 144 \<le> (of_char b :: nat)) \<and> (x = 244 \<longrightarrow> (of_char b :: nat) \<le> 143)
          then 4 else 0 | _ \<Rightarrow> 0)
     else 0)"

text \<open>
  \<^verbatim>\<open>strings.ToValidUTF8\<close>-style coercion as \<^verbatim>\<open>encoding/json\<close> does it when it
  writes a string: each byte that starts no valid encoding becomes U+FFFD.
\<close>

definition replacement_rune :: string where
  "replacement_rune = [char_of (239::nat), char_of (191::nat), char_of (189::nat)]"

function utf8_coerce :: "string \<Rightarrow> string" where
  "utf8_coerce [] = []"
| "utf8_coerce (a # s) =
     (let n = utf8_rune (a # s) in
      if n = 0 then replacement_rune @ utf8_coerce s
      else take n (a # s) @ utf8_coerce (drop n (a # s)))"
  by pat_completeness auto
termination
  by (relation "measure length") auto

declare utf8_coerce.simps(2) [simp del]

definition utf8_valid :: "string \<Rightarrow> bool" where
  "utf8_valid s \<longleftrightarrow> utf8_coerce s = s"

subsection \<open>Helpers of the strings package\<close>

definition has_prefix :: "string \<Rightarrow> string \<Rightarrow> bool" where
  "has_prefix s p \<longleftrightarrow> take (length p) s = p"

lemma has_prefix_iff: "has_prefix s p \<longleftrightarrow> (\<exists>t. s = p @ t)"
  by (metis append_eq_conv_conj append_take_drop_id has_prefix_def)

text \<open>\<^verbatim>\<open>strings.Index\<close>: the first position at which \<open>t\<close> occurs in \<open>s\<close>.\<close>

fun str_index :: "string \<Rightarrow> string \<Rightarrow> nat option" where
  "str_index [] t = (if t = [] then Some 0 else None)"
| "str_index (c # s) t =
     (if has_prefix (c # s) t then Some 0 else map_option Suc (str_index s t))"

text \<open>ASCII case folding, which is what \<^verbatim>\<open>strings.EqualFold\<close> does on ASCII strings.\<close>

definition ascii_lower :: "char \<Rightarrow> char" where
  "ascii_lower c = (let k = of_char c :: nat in
     if 65 \<le> k \<and> k \<le> 90 then char_of (k + 32) else c)"

definition equal_fold :: "string \<Rightarrow> string \<Rightarrow> bool" where
  "equal_fold s t \<longleftrightarrow> map ascii_lower s = map ascii_lower t"

text \<open>\<^verbatim>\<open>strings.Trim\<close> with a set of characters, and \<^verbatim>\<open>strconv.Itoa\<close> on naturals.\<close>

definition str_trim :: "char list \<Rightarrow> string \<Rightarrow> string" where
  "str_trim cs s = rev (dropWhile (\<lambda>c. c \<in> set cs) (rev (dropWhile (\<lambda>c. c \<in> set cs) s)))"

function itoa :: "nat \<Rightarrow> string" where
  "itoa n = (if n < 10 then [char_of (48 + n)] else itoa (n div 10) @ [char_of (48 + n mod 10)])"
  by pat_completeness auto
termination
  by (relation "measure id") auto

declare itoa.simps [simp del]

section \<open>Sorted keys of a finite map\<close>

definition sorted_keys :: "('k::linorder, 'v) fmap \<Rightarrow> 'k list" where
  "sorted_keys m = sorted_list_of_fset (fmdom m)"

lemma set_sorted_keys [simp]: "set (sorted_keys m) = fset (fmdom m)"
  by (simp add: sorted_keys_def)

lemma sorted_sorted_keys [simp]: "sorted (sorted_keys m)"
  by (simp add: sorted_keys_def sorted_list_of_fset.rep_eq)

lemma distinct_sorted_keys [simp]: "distinct (sorted_keys m)"
  by (simp add: sorted_keys_def sorted_list_of_fset.rep_eq)

end
