(* ===== verification/Crypto.thy ===== *)
theory Crypto
  imports Prelude
begin

text \<open>
  The standard-library primitives the store's identities and checksums rest on:
  SHA-256 (\<^verbatim>\<open>crypto/sha256\<close>), HMAC-SHA256 (\<^verbatim>\<open>crypto/hmac\<close>), MD5 (\<^verbatim>\<open>crypto/md5\<close>) and the reflected
  CRC-32 family (\<^verbatim>\<open>hash/crc32\<close>, Castagnoli and IEEE polynomials), written out from
  their published definitions. The component theories treat SHA-256 as a function
  about which nothing but its definition is known: no collision-freeness is assumed
  anywhere unless a statement names it as a hypothesis. For the CRC the single-byte
  error-detection theorem, on which the journal's corruption check rests, is proved.
\<close>

section \<open>SHA-256\<close>

definition sha256_K :: "u32 list" where
  "sha256_K = [
    1116352408, 1899447441, 3049323471, 3921009573, 961987163, 1508970993,
    2453635748, 2870763221, 3624381080, 310598401, 607225278, 1426881987,
    1925078388, 2162078206, 2614888103, 3248222580, 3835390401, 4022224774,
    264347078, 604807628, 770255983, 1249150122, 1555081692, 1996064986,
    2554220882, 2821834349, 2952996808, 3210313671, 3336571891, 3584528711,
    113926993, 338241895, 666307205, 773529912, 1294757372, 1396182291,
    1695183700, 1986661051, 2177026350, 2456956037, 2730485921, 2820302411,
    3259730800, 3345764771, 3516065817, 3600352804, 4094571909, 275423344,
    430227734, 506948616, 659060556, 883997877, 958139571, 1322822218,
    1537002063, 1747873779, 1955562222, 2024104815, 2227730452, 2361852424,
    2428436474, 2756734187, 3204031479, 3329325298]"

definition rotr32 :: "nat \<Rightarrow> u32 \<Rightarrow> u32" where
  "rotr32 n x = drop_bit n x OR push_bit (32 - n) x"

definition ch :: "u32 \<Rightarrow> u32 \<Rightarrow> u32 \<Rightarrow> u32" where
  "ch x y z = (x AND y) XOR (NOT x AND z)"

definition maj :: "u32 \<Rightarrow> u32 \<Rightarrow> u32 \<Rightarrow> u32" where
  "maj x y z = (x AND y) XOR (x AND z) XOR (y AND z)"

definition big_sigma0 :: "u32 \<Rightarrow> u32" where
  "big_sigma0 x = rotr32 2 x XOR rotr32 13 x XOR rotr32 22 x"

definition big_sigma1 :: "u32 \<Rightarrow> u32" where
  "big_sigma1 x = rotr32 6 x XOR rotr32 11 x XOR rotr32 25 x"

definition small_sigma0 :: "u32 \<Rightarrow> u32" where
  "small_sigma0 x = rotr32 7 x XOR rotr32 18 x XOR drop_bit 3 x"

definition small_sigma1 :: "u32 \<Rightarrow> u32" where
  "small_sigma1 x = rotr32 17 x XOR rotr32 19 x XOR drop_bit 10 x"

definition sha256_pad :: "bytes \<Rightarrow> bytes" where
  "sha256_pad m = m @ [0x80] @ replicate ((119 - length m mod 64) mod 64) 0
     @ be_nat 8 (8 * length m)"

text \<open>Splitting a list into groups of \<open>k\<close> (the blocks, and the words of a block).\<close>

function groups_of :: "nat \<Rightarrow> 'a list \<Rightarrow> 'a list list" where
  "groups_of k xs = (if xs = [] \<or> k = 0 then [] else take k xs # groups_of k (drop k xs))"
  by pat_completeness auto
termination
  by (relation "measure (\<lambda>(k, xs). length xs)") auto

declare groups_of.simps [simp del]

fun sha256_extend :: "nat \<Rightarrow> u32 list \<Rightarrow> u32 list" where
  "sha256_extend 0 ws = ws"
| "sha256_extend (Suc n) ws =
     (let t = length ws in
      sha256_extend n (ws @ [small_sigma1 (ws ! (t - 2)) + ws ! (t - 7)
        + small_sigma0 (ws ! (t - 15)) + ws ! (t - 16)]))"

definition sha256_schedule :: "bytes \<Rightarrow> u32 list" where
  "sha256_schedule blk = sha256_extend 48 (map get_be (groups_of 4 blk))"

fun sha256_round :: "u32 \<times> u32 \<Rightarrow> u32 list \<Rightarrow> u32 list" where
  "sha256_round (k, w) [a, b, c, d, e, f, g, h] =
     (let t1 = h + big_sigma1 e + ch e f g + k + w;
          t2 = big_sigma0 a + maj a b c
      in [t1 + t2, a, b, c, d + t1, e, f, g])"
| "sha256_round _ s = s"

definition sha256_block :: "bytes \<Rightarrow> u32 list \<Rightarrow> u32 list" where
  "sha256_block blk st =
     map2 (+) st (fold sha256_round (zip sha256_K (sha256_schedule blk)) st)"

definition sha256_init :: "u32 list" where
  "sha256_init = [
    1779033703, 3144134277, 1013904242, 2773480762, 1359893119, 2600822924,
    528734635, 1541459225]"

definition sha256 :: "bytes \<Rightarrow> digest" where
  "sha256 m = digest_of_bytes
     (concat (map (put_be 4) (fold sha256_block (groups_of 64 (sha256_pad m)) sha256_init)))"

definition hmac_sha256 :: "bytes \<Rightarrow> bytes \<Rightarrow> bytes" where
  "hmac_sha256 key msg =
     (let k = (if length key > 64 then digest_bytes (sha256 key) else key);
          k' = k @ replicate (64 - length k) 0
      in digest_bytes (sha256 (map (\<lambda>b. b XOR 0x5c) k'
           @ digest_bytes (sha256 (map (\<lambda>b. b XOR 0x36) k' @ msg)))))"

section \<open>MD5\<close>

text \<open>\<^verbatim>\<open>crypto/md5\<close> (RFC 1321), used only for S3 entity tags.\<close>

definition md5_T :: "u32 list" where
  "md5_T = [
    0xd76aa478, 0xe8c7b756, 0x242070db, 0xc1bdceee, 0xf57c0faf, 0x4787c62a,
    0xa8304613, 0xfd469501, 0x698098d8, 0x8b44f7af, 0xffff5bb1, 0x895cd7be,
    0x6b901122, 0xfd987193, 0xa679438e, 0x49b40821, 0xf61e2562, 0xc040b340,
    0x265e5a51, 0xe9b6c7aa, 0xd62f105d, 0x02441453, 0xd8a1e681, 0xe7d3fbc8,
    0x21e1cde6, 0xc33707d6, 0xf4d50d87, 0x455a14ed, 0xa9e3e905, 0xfcefa3f8,
    0x676f02d9, 0x8d2a4c8a, 0xfffa3942, 0x8771f681, 0x6d9d6122, 0xfde5380c,
    0xa4beea44, 0x4bdecfa9, 0xf6bb4b60, 0xbebfbc70, 0x289b7ec6, 0xeaa127fa,
    0xd4ef3085, 0x04881d05, 0xd9d4d039, 0xe6db99e5, 0x1fa27cf8, 0xc4ac5665,
    0xf4292244, 0x432aff97, 0xab9423a7, 0xfc93a039, 0x655b59c3, 0x8f0ccc92,
    0xffeff47d, 0x85845dd1, 0x6fa87e4f, 0xfe2ce6e0, 0xa3014314, 0x4e0811a1,
    0xf7537e82, 0xbd3af235, 0x2ad7d2bb, 0xeb86d391
  ]"

definition md5_shift :: "nat \<Rightarrow> nat" where
  "md5_shift i =
     (if i < 16 then [7, 12, 17, 22] ! (i mod 4)
      else if i < 32 then [5, 9, 14, 20] ! (i mod 4)
      else if i < 48 then [4, 11, 16, 23] ! (i mod 4)
      else [6, 10, 15, 21] ! (i mod 4))"

fun md5_round :: "u32 list \<Rightarrow> nat \<Rightarrow> u32 list \<Rightarrow> u32 list" where
  "md5_round ws i [a, b, c, d] =
     (let (f, g) =
            (if i < 16 then ((b AND c) OR (NOT b AND d), i)
             else if i < 32 then ((d AND b) OR (NOT d AND c), (5 * i + 1) mod 16)
             else if i < 48 then (b XOR c XOR d, (3 * i + 5) mod 16)
             else (c XOR (b OR NOT d), (7 * i) mod 16));
          x = a + f + md5_T ! i + ws ! g
      in [d, b + rotr32 (32 - md5_shift i) x, b, c])"
| "md5_round ws i st = st"

definition md5_block :: "bytes \<Rightarrow> u32 list \<Rightarrow> u32 list" where
  "md5_block blk st = map2 (+) st (fold (md5_round (map get_le (groups_of 4 blk))) [0..<64] st)"

definition md5_pad :: "bytes \<Rightarrow> bytes" where
  "md5_pad m = m @ [0x80] @ replicate ((119 - length m mod 64) mod 64) 0
     @ le_nat 8 (8 * length m)"

definition md5 :: "bytes \<Rightarrow> bytes" where
  "md5 m = concat (map (put_le 4) (fold md5_block (groups_of 64 (md5_pad m))
     [0x67452301, 0xefcdab89, 0x98badcfe, 0x10325476]))"

section \<open>CRC-32\<close>

definition crc_castagnoli :: u32 where
  "crc_castagnoli = 0x82f63b78"

definition crc_ieee :: u32 where
  "crc_ieee = 0xedb88320"

definition crc_bit :: "u32 \<Rightarrow> u32 \<Rightarrow> u32" where
  "crc_bit poly s = (if bit s 0 then drop_bit 1 s XOR poly else drop_bit 1 s)"

definition crc_byte :: "u32 \<Rightarrow> byte \<Rightarrow> u32 \<Rightarrow> u32" where
  "crc_byte poly b s = (crc_bit poly ^^ 8) (s XOR ucast b)"

definition crc32 :: "u32 \<Rightarrow> bytes \<Rightarrow> u32" where
  "crc32 poly bs = NOT (fold (crc_byte poly) bs (NOT 0))"

definition crc32c :: "bytes \<Rightarrow> u32" where
  "crc32c bs = crc32 crc_castagnoli bs"

text \<open>
  A polynomial whose reflected form has its top bit set makes every bit step of the
  register reversible: the bit that leaves at the bottom reappears at the top.
\<close>

lemma crc_bit_top: "bit poly 31 \<Longrightarrow> bit (crc_bit poly s) 31 = bit s 0"
  by (auto simp: crc_bit_def bit_simps dest: bit_imp_le_length)

lemma xor_cancel_right: "(a XOR p = b XOR p) \<longleftrightarrow> a = (b :: u32)"
proof
  assume "a XOR p = b XOR p"
  then have "(a XOR p) XOR p = (b XOR p) XOR p" by (rule arg_cong)
  then show "a = b" by (simp add: xor.assoc)
qed simp

lemma xor_cancel_left: "(p XOR a = p XOR b) \<longleftrightarrow> a = (b :: u32)"
  using xor_cancel_right [of a p b] by (simp add: xor.commute)

lemma crc_bit_inj:
  assumes "bit poly 31" and eq: "crc_bit poly s = crc_bit poly t"
  shows "s = t"
proof -
  have low: "bit s 0 = bit t 0"
    using crc_bit_top [OF assms(1)] eq by metis
  have high: "drop_bit 1 s = drop_bit 1 t"
    using eq low by (simp add: crc_bit_def xor_cancel_right split: if_splits)
  show ?thesis
  proof (rule bit_eqI)
    fix n
    show "bit s n \<longleftrightarrow> bit t n"
    proof (cases n)
      case 0
      with low show ?thesis by simp
    next
      case (Suc m)
      have "bit (drop_bit 1 s) m = bit (drop_bit 1 t) m" using high by simp
      with Suc show ?thesis by (simp add: bit_simps)
    qed
  qed
qed

lemma crc_bits_inj: "bit poly 31 \<Longrightarrow> (crc_bit poly ^^ n) s = (crc_bit poly ^^ n) t \<Longrightarrow> s = t"
  by (induction n arbitrary: s t) (auto dest: crc_bit_inj)

lemma crc_byte_inj_state:
  assumes "bit poly 31" "crc_byte poly b s = crc_byte poly b t"
  shows "s = t"
proof -
  have "s XOR ucast b = t XOR ucast b"
    using assms unfolding crc_byte_def by (rule crc_bits_inj)
  then show ?thesis by (simp only: xor_cancel_right)
qed

lemma crc_byte_inj_byte:
  assumes "bit poly 31" "crc_byte poly b s = crc_byte poly c s"
  shows "b = c"
proof -
  have "s XOR ucast b = s XOR ucast c"
    using assms unfolding crc_byte_def by (rule crc_bits_inj)
  then have "(ucast b :: u32) = ucast c"
    by (simp only: xor_cancel_left)
  then have "unat (ucast b :: u32) = unat (ucast c :: u32)" by simp
  then show ?thesis by (simp add: unsigned_ucast_eq take_bit_nat_eq_self
      less_trans [OF unat_byte_less] word_unat_eq_iff)
qed

lemma crc_fold_inj_state:
  "bit poly 31 \<Longrightarrow> fold (crc_byte poly) bs s = fold (crc_byte poly) bs t \<Longrightarrow> s = t"
  by (induction bs arbitrary: s t) (auto dest: crc_byte_inj_state)

lemma crc32_single_byte:
  assumes "bit poly 31" and eq: "crc32 poly (xs @ b # ys) = crc32 poly (xs @ c # ys)"
  shows "b = c"
proof -
  let ?s = "fold (crc_byte poly) xs (NOT 0)"
  have "fold (crc_byte poly) ys (crc_byte poly b ?s) = fold (crc_byte poly) ys (crc_byte poly c ?s)"
    using eq by (simp add: crc32_def)
  then have "crc_byte poly b ?s = crc_byte poly c ?s"
    by (rule crc_fold_inj_state [OF assms(1)])
  then show ?thesis by (rule crc_byte_inj_byte [OF assms(1)])
qed

lemma crc32c_single_byte: "crc32c (xs @ b # ys) = crc32c (xs @ c # ys) \<longleftrightarrow> b = c"
  unfolding crc32c_def
  by (auto dest: crc32_single_byte [rotated] simp: crc_castagnoli_def)

lemma crc32c_update:
  assumes "i < length xs" "c \<noteq> xs ! i"
  shows "crc32c (xs[i := c]) \<noteq> crc32c xs"
proof -
  have "xs = take i xs @ xs ! i # drop (Suc i) xs"
    using assms(1) by (rule id_take_nth_drop)
  moreover have "xs[i := c] = take i xs @ c # drop (Suc i) xs"
    using assms(1) by (rule upd_conv_take_nth_drop)
  ultimately show ?thesis
    using crc32c_single_byte [of "take i xs" c "drop (Suc i) xs" "xs ! i"] assms(2) by metis
qed

lemma get_be32_inj:
  "length xs = 4 \<Longrightarrow> length ys = 4 \<Longrightarrow> (get_be xs :: u32) = get_be ys \<Longrightarrow> xs = ys"
  using put_get_be [of xs, where 'a = 32] put_get_be [of ys, where 'a = 32] by simp

lemma get_le32_inj:
  "length xs = 4 \<Longrightarrow> length ys = 4 \<Longrightarrow> (get_le xs :: u32) = get_le ys \<Longrightarrow> xs = ys"
  using get_be32_inj [of "rev xs" "rev ys"] by (simp add: get_le_def get_be_def le_val_def)

end
