(* ===== verification/Journal.thy ===== *)
theory Journal
  imports Crypto
begin

text \<open>
  The visibility journal (\<^verbatim>\<open>zeros3.go\<close>, section 6): the append-only binary log that
  is the only authority on which buckets, objects, uploads and history rows exist.
  The file is a byte list, \<open>appendFrame\<close> writes one CRC-framed record at the append
  cursor and \<open>replayJournal\<close> reads the records back. What the operating system does
  with a write or a sync is an argument of \<open>appendFrame\<close> (\<open>append_io\<close>): success, a
  write that stores only the first \<open>k\<close> bytes of the frame, or a sync that fails after
  the bytes were written. Reads that fail with an I/O error are the argument \<open>rf\<close> of
  the replay (the offsets at which \<^verbatim>\<open>ReadAt\<close> fails).

  Shown here: replaying what was appended gives exactly the appended records in order;
  a torn tail is discarded and nothing else is; an append that fails leaves a file that
  replays to the acknowledged records with or without the one record in flight, never to
  anything else, and poisons the journal; a frame with any single byte changed is never
  accepted as different content. The interface \<open>journal_spec\<close> is what the namespace
  component relies on; \<open>interpretation log\<close> discharges it for the definitions here.
\<close>

section \<open>Constants and record types\<close>

definition journalMagic :: bytes where
  "journalMagic = bytes_of_string ''ZSJ1''"

definition journalFrameVersion :: u16 where
  "journalFrameVersion = 1"

definition journalHeaderSize :: nat where
  "journalHeaderSize = 4 + 2 + 1 + 1 + 8 + 4"

definition maxJournalPayload :: nat where
  "maxJournalPayload = 8 * 1024 * 1024"

definition recordTypeCreateBucket :: byte where "recordTypeCreateBucket = 1"
definition recordTypePutObjectRoot :: byte where "recordTypePutObjectRoot = 2"
definition recordTypeDeleteObjectRoot :: byte where "recordTypeDeleteObjectRoot = 3"
definition recordTypeDeleteBucket :: byte where "recordTypeDeleteBucket = 4"
definition recordTypeCreateMultipartUpload :: byte where "recordTypeCreateMultipartUpload = 5"
definition recordTypeUploadPart :: byte where "recordTypeUploadPart = 6"
definition recordTypeAbortMultipartUpload :: byte where "recordTypeAbortMultipartUpload = 7"
definition recordTypeCompleteMultipartUpload :: byte where "recordTypeCompleteMultipartUpload = 8"
definition recordTypePutObjectRootV2 :: byte where "recordTypePutObjectRootV2 = 9"
definition recordTypeCompleteMultipartUploadV2 :: byte where "recordTypeCompleteMultipartUploadV2 = 10"
definition recordTypeDeleteObjectRootV2 :: byte where "recordTypeDeleteObjectRootV2 = 11"
definition recordTypePruneHistory :: byte where "recordTypePruneHistory = 12"

lemmas record_type_defs =
  recordTypeCreateBucket_def recordTypePutObjectRoot_def recordTypeDeleteObjectRoot_def
  recordTypeDeleteBucket_def recordTypeCreateMultipartUpload_def recordTypeUploadPart_def
  recordTypeAbortMultipartUpload_def recordTypeCompleteMultipartUpload_def
  recordTypePutObjectRootV2_def recordTypeCompleteMultipartUploadV2_def
  recordTypeDeleteObjectRootV2_def recordTypePruneHistory_def

definition known_record_type :: "byte \<Rightarrow> bool" where
  "known_record_type t \<longleftrightarrow> t \<in> set
     [recordTypeCreateBucket, recordTypePutObjectRoot, recordTypeDeleteObjectRoot, recordTypeDeleteBucket,
      recordTypeCreateMultipartUpload, recordTypeUploadPart, recordTypeAbortMultipartUpload,
      recordTypeCompleteMultipartUpload, recordTypePutObjectRootV2,
      recordTypeCompleteMultipartUploadV2, recordTypeDeleteObjectRootV2, recordTypePruneHistory]"

record journalRecord =
  jr_seq :: u64
  jr_type :: byte
  jr_payload :: bytes

section \<open>Appending\<close>

datatype journal_error = JPayloadTooLarge | JPoisoned | JWriteFailed | JSyncFailed

datatype append_io = AppendOk | WriteFails nat | SyncFails

record journal =
  j_f :: bytes
  j_writeOffset :: nat
  j_nextSeq :: u64
  j_poisoned :: "journal_error option"

text \<open>\<^verbatim>\<open>os.File.WriteAt\<close>: a gap before the offset reads as zeros.\<close>

definition write_at :: "bytes \<Rightarrow> nat \<Rightarrow> bytes \<Rightarrow> bytes" where
  "write_at f off data =
     take off f @ replicate (off - length f) 0 @ data @ drop (off + length data) f"

definition frame_header :: "byte \<Rightarrow> u64 \<Rightarrow> nat \<Rightarrow> bytes" where
  "frame_header recType seq plen =
     journalMagic @ put_be 2 journalFrameVersion @ [recType, 0] @ put_be 8 seq
     @ put_be 4 (word_of_nat plen :: u32)"

definition encode_frame :: "byte \<Rightarrow> u64 \<Rightarrow> bytes \<Rightarrow> bytes" where
  "encode_frame recType seq payload =
     (let frame = frame_header recType seq (length payload) @ payload
      in frame @ put_be 4 (crc32c frame))"

definition appendFrame ::
  "journal \<Rightarrow> byte \<Rightarrow> bytes \<Rightarrow> append_io \<Rightarrow> (journal_error + u64) \<times> journal" where
  "appendFrame j recType payload io =
     (if length payload > maxJournalPayload then (Inl JPayloadTooLarge, j)
      else if j_poisoned j \<noteq> None then (Inl JPoisoned, j)
      else
        let seq = j_nextSeq j;
            frame = encode_frame recType seq payload
        in case io of
             WriteFails k \<Rightarrow>
               (Inl JWriteFailed,
                j\<lparr>j_f := write_at (j_f j) (j_writeOffset j) (take k frame),
                  j_poisoned := Some JWriteFailed\<rparr>)
           | SyncFails \<Rightarrow>
               (Inl JSyncFailed,
                j\<lparr>j_f := write_at (j_f j) (j_writeOffset j) frame,
                  j_poisoned := Some JSyncFailed\<rparr>)
           | AppendOk \<Rightarrow>
               (Inr seq,
                j\<lparr>j_f := write_at (j_f j) (j_writeOffset j) frame,
                  j_writeOffset := j_writeOffset j + length frame,
                  j_nextSeq := seq + 1\<rparr>))"

section \<open>Replaying\<close>

datatype replay_error =
    ReadFailed nat | BadMagic nat | UnsupportedFrameVersion nat | UnknownRecordType nat byte
  | PayloadLengthExceedsMax nat | CrcMismatch nat u64 | SequenceGap u64 u64

datatype read_result = ReadData bytes | ReadEOF | ReadError

definition read_at :: "(nat \<Rightarrow> bool) \<Rightarrow> bytes \<Rightarrow> nat \<Rightarrow> nat \<Rightarrow> read_result" where
  "read_at rf f off n =
     (if rf off then ReadError
      else if off + n \<le> length f then ReadData (take n (drop off f))
      else ReadEOF)"

function replayLoop ::
  "(nat \<Rightarrow> bool) \<Rightarrow> bytes \<Rightarrow> nat \<Rightarrow> u64 \<Rightarrow> journalRecord list
    \<Rightarrow> replay_error + (nat \<times> u64 \<times> journalRecord list)" where
  "replayLoop rf f offset lastSeq records =
     (case read_at rf f offset journalHeaderSize of
        ReadError \<Rightarrow> Inl (ReadFailed offset)
      | ReadEOF \<Rightarrow> Inr (offset, lastSeq, records)
      | ReadData header \<Rightarrow>
          if take 4 header \<noteq> journalMagic then Inl (BadMagic offset)
          else if (get_be (take 2 (drop 4 header)) :: u16) \<noteq> journalFrameVersion
            then Inl (UnsupportedFrameVersion offset)
          else let recType = header ! 6 in
            if \<not> known_record_type recType then Inl (UnknownRecordType offset recType)
            else let seq = (get_be (take 8 (drop 8 header)) :: u64);
                     plen = unat (get_be (take 4 (drop 16 header)) :: u32) in
              if plen > maxJournalPayload then Inl (PayloadLengthExceedsMax offset)
              else (case read_at rf f (offset + journalHeaderSize) (plen + 4) of
                  ReadError \<Rightarrow> Inl (ReadFailed (offset + journalHeaderSize))
                | ReadEOF \<Rightarrow> Inr (offset, lastSeq, records)
                | ReadData rest \<Rightarrow>
                    let payload = take plen rest;
                        storedCRC = (get_be (drop plen rest) :: u32) in
                    if crc32c (header @ payload) \<noteq> storedCRC then Inl (CrcMismatch offset seq)
                    else if seq \<noteq> lastSeq + 1 then Inl (SequenceGap (lastSeq + 1) seq)
                    else replayLoop rf f (offset + journalHeaderSize + plen + 4) seq
                           (records @ [\<lparr>jr_seq = seq, jr_type = recType, jr_payload = payload\<rparr>])))"
  by pat_completeness auto
termination
  by (relation "measure (\<lambda>(rf, f, offset, lastSeq, records). length f - offset)")
     (auto simp: read_at_def journalHeaderSize_def split: if_splits)

declare replayLoop.simps [simp del]

definition replayJournal ::
  "(nat \<Rightarrow> bool) \<Rightarrow> bytes \<Rightarrow> replay_error + (nat \<times> u64 \<times> journalRecord list)" where
  "replayJournal rf f = replayLoop rf f 0 0 []"

datatype open_error = OpenReplay replay_error | OpenTruncateFailed

text \<open>\<^verbatim>\<open>openJournal\<close>: replay, then truncate the torn tail away (\<open>tf\<close>: the truncate fails).\<close>

definition openJournal ::
  "(nat \<Rightarrow> bool) \<Rightarrow> bool \<Rightarrow> bytes \<Rightarrow> open_error + (journal \<times> journalRecord list)" where
  "openJournal rf tf f =
     (case replayJournal rf f of
        Inl e \<Rightarrow> Inl (OpenReplay e)
      | Inr (validEnd, lastSeq, records) \<Rightarrow>
          if tf then Inl OpenTruncateFailed
          else Inr (\<lparr>j_f = take validEnd f, j_writeOffset = validEnd, j_nextSeq = lastSeq + 1,
                     j_poisoned = None\<rparr>, records))"

section \<open>One frame\<close>

lemma length_journalMagic [simp]: "length journalMagic = 4"
  by (simp add: journalMagic_def)

lemma length_frame_header [simp]: "length (frame_header t s n) = 20"
  by (simp add: frame_header_def)

lemma length_encode_frame [simp]: "length (encode_frame t s p) = length p + 24"
  by (simp add: encode_frame_def Let_def)

lemma header_fields:
  shows "take 4 (frame_header t s n) = journalMagic"
    and "take 2 (drop 4 (frame_header t s n)) = put_be 2 journalFrameVersion"
    and "frame_header t s n ! 6 = t"
    and "take 8 (drop 8 (frame_header t s n)) = put_be 8 s"
    and "take 4 (drop 16 (frame_header t s n)) = put_be 4 (word_of_nat n :: u32)"
  by (simp_all add: frame_header_def nth_append)

lemma payload_length_fits: "n \<le> maxJournalPayload \<Longrightarrow> unat (word_of_nat n :: u32) = n"
  by (simp add: maxJournalPayload_def unat_of_nat take_bit_nat_eq_self)

abbreviation no_read_errors :: "nat \<Rightarrow> bool" where
  "no_read_errors \<equiv> \<lambda>_. False"

lemma read_at_append [simp]:
  "length xs = off \<Longrightarrow> length ys = n
    \<Longrightarrow> read_at no_read_errors (xs @ ys @ zs) off n = ReadData ys"
  by (simp add: read_at_def)

lemma read_at_short [simp]:
  "length f < off + n \<Longrightarrow> read_at no_read_errors f off n = ReadEOF"
  by (simp add: read_at_def)

definition valid_entry :: "byte \<times> bytes \<Rightarrow> bool" where
  "valid_entry e \<longleftrightarrow> known_record_type (fst e) \<and> length (snd e) \<le> maxJournalPayload"

text \<open>Replay accepts a well-formed frame with the next sequence number and moves past it.\<close>

lemma replay_frame:
  assumes "valid_entry (t, p)"
  shows "replayLoop no_read_errors (pre @ encode_frame t (ls + 1) p @ rest) (length pre) ls recs
       = replayLoop no_read_errors (pre @ encode_frame t (ls + 1) p @ rest)
           (length pre + length p + 24) (ls + 1)
           (recs @ [\<lparr>jr_seq = ls + 1, jr_type = t, jr_payload = p\<rparr>])"
proof -
  let ?h = "frame_header t (ls + 1) (length p)"
  let ?crc = "put_be 4 (crc32c (?h @ p))"
  let ?f = "pre @ encode_frame t (ls + 1) p @ rest"
  have f1: "?f = pre @ ?h @ (p @ ?crc @ rest)"
    and f2: "?f = (pre @ ?h) @ (p @ ?crc) @ rest"
    by (simp_all add: encode_frame_def Let_def)
  have n: "unat (word_of_nat (length p) :: u32) = length p" and k: "known_record_type t"
    and m: "\<not> maxJournalPayload < length p"
    using assms by (auto simp: valid_entry_def payload_length_fits)
  have r1: "read_at no_read_errors ?f (length pre) journalHeaderSize = ReadData ?h"
    unfolding f1 by (rule read_at_append) (simp_all add: journalHeaderSize_def)
  have r2: "read_at no_read_errors ?f (length pre + journalHeaderSize) (length p + 4)
      = ReadData (p @ ?crc)"
    unfolding f2 by (rule read_at_append) (simp_all add: journalHeaderSize_def)
  have off: "length pre + journalHeaderSize + length p + 4 = length pre + length p + 24"
    by (simp add: journalHeaderSize_def)
  show ?thesis
    by (subst replayLoop.simps)
       (simp add: r1 r2 n k m header_fields Let_def off)
qed

text \<open>A frame cut short anywhere ends the replay before it.\<close>

lemma replay_torn:
  assumes "valid_entry (t, p)" and k: "k < length (encode_frame t s p)"
  shows "replayLoop no_read_errors (pre @ take k (encode_frame t s p)) (length pre) ls recs
       = Inr (length pre, ls, recs)"
proof (cases "k < 20")
  case True
  then show ?thesis
    by (subst replayLoop.simps) (simp add: journalHeaderSize_def)
next
  case False
  let ?h = "frame_header t s (length p)"
  let ?f = "pre @ take k (encode_frame t s p)"
  have f1: "?f = pre @ ?h @ take (k - 20) (p @ put_be 4 (crc32c (?h @ p)))"
    using False by (simp add: encode_frame_def Let_def take_append)
  have r1: "read_at no_read_errors ?f (length pre) journalHeaderSize = ReadData ?h"
    unfolding f1 by (rule read_at_append) (simp_all add: journalHeaderSize_def)
  have n: "unat (word_of_nat (length p) :: u32) = length p" and kt: "known_record_type t"
    and m: "\<not> maxJournalPayload < length p"
    using assms(1) by (auto simp: valid_entry_def payload_length_fits)
  have r2: "read_at no_read_errors ?f (length pre + journalHeaderSize) (length p + 4) = ReadEOF"
    using k by (simp add: journalHeaderSize_def)
  show ?thesis
    by (subst replayLoop.simps)
       (simp add: r1 r2 n kt m header_fields Let_def)
qed

section \<open>Sequences of frames\<close>

fun encode_frames :: "u64 \<Rightarrow> (byte \<times> bytes) list \<Rightarrow> bytes" where
  "encode_frames ls [] = []"
| "encode_frames ls ((t, p) # es) = encode_frame t (ls + 1) p @ encode_frames (ls + 1) es"

fun records_of :: "u64 \<Rightarrow> (byte \<times> bytes) list \<Rightarrow> journalRecord list" where
  "records_of ls [] = []"
| "records_of ls ((t, p) # es) =
     \<lparr>jr_seq = ls + 1, jr_type = t, jr_payload = p\<rparr> # records_of (ls + 1) es"

lemma length_records_of [simp]: "length (records_of s es) = length es"
  by (induction s es rule: records_of.induct) auto

lemma encode_frames_snoc:
  "encode_frames s (es @ [(t, p)]) = encode_frames s es @ encode_frame t (s + word_of_nat (length es) + 1) p"
  by (induction s es rule: encode_frames.induct) (auto simp: algebra_simps)

lemma records_of_snoc:
  "records_of s (es @ [(t, p)]) = records_of s es
     @ [\<lparr>jr_seq = s + word_of_nat (length es) + 1, jr_type = t, jr_payload = p\<rparr>]"
  by (induction s es rule: records_of.induct) (auto simp: algebra_simps)

lemma replay_frames:
  assumes "\<forall>e \<in> set es. valid_entry e"
  shows "replayLoop no_read_errors (pre @ encode_frames ls es @ rest) (length pre) ls recs
       = replayLoop no_read_errors (pre @ encode_frames ls es @ rest)
           (length pre + length (encode_frames ls es)) (ls + word_of_nat (length es))
           (recs @ records_of ls es)"
  using assms
proof (induction ls es arbitrary: pre recs rule: encode_frames.induct)
  case (1 ls)
  then show ?case by simp
next
  case (2 ls t p es)
  let ?fr = "encode_frame t (ls + 1) p"
  have v: "valid_entry (t, p)" and vs: "\<forall>e \<in> set es. valid_entry e"
    using 2 by auto
  have "replayLoop no_read_errors (pre @ encode_frames ls ((t, p) # es) @ rest) (length pre) ls recs
      = replayLoop no_read_errors ((pre @ ?fr) @ encode_frames (ls + 1) es @ rest)
          (length (pre @ ?fr)) (ls + 1)
          (recs @ [\<lparr>jr_seq = ls + 1, jr_type = t, jr_payload = p\<rparr>])"
    using replay_frame [OF v, of pre ls "encode_frames (ls + 1) es @ rest" recs]
    by (simp add: add.assoc)
  also have "\<dots> = replayLoop no_read_errors ((pre @ ?fr) @ encode_frames (ls + 1) es @ rest)
          (length (pre @ ?fr) + length (encode_frames (ls + 1) es))
          (ls + 1 + word_of_nat (length es))
          ((recs @ [\<lparr>jr_seq = ls + 1, jr_type = t, jr_payload = p\<rparr>]) @ records_of (ls + 1) es)"
    by (rule 2) (rule vs)
  finally show ?case
    by (simp only: encode_frames.simps records_of.simps append_assoc append_Cons append_Nil
        length_append length_Cons of_nat_Suc add.assoc)
qed

lemma replayLoop_end:
  "length f < off + 20 \<Longrightarrow> replayLoop no_read_errors f off ls recs = Inr (off, ls, recs)"
  by (subst replayLoop.simps) (simp add: journalHeaderSize_def)

lemma replayJournal_encode:
  assumes "\<forall>e \<in> set es. valid_entry e"
  shows "replayJournal no_read_errors (encode_frames 0 es)
       = Inr (length (encode_frames 0 es), word_of_nat (length es), records_of 0 es)"
  using replay_frames [OF assms, of "[]" 0 "[]" "[]"]
  by (simp add: replayJournal_def replayLoop_end)

lemma replayJournal_torn:
  assumes "\<forall>e \<in> set es. valid_entry e" "valid_entry (t, p)" "k < length (encode_frame t s p)"
  shows "replayJournal no_read_errors (encode_frames 0 es @ take k (encode_frame t s p))
       = Inr (length (encode_frames 0 es), word_of_nat (length es), records_of 0 es)"
  using replay_frames [OF assms(1), of "[]" 0 "take k (encode_frame t s p)" "[]"]
    replay_torn [OF assms(2,3), of "encode_frames 0 es" "word_of_nat (length es)" "records_of 0 es"]
  by (simp add: replayJournal_def)

section \<open>Corruption\<close>

text \<open>The checksum test of replay fails on a frame with one byte changed.\<close>

lemma corrupt_frame_crc:
  assumes i: "i < length p + 24" and c: "c \<noteq> encode_frame t s p ! i"
  defines "fr \<equiv> (encode_frame t s p)[i := c]"
  shows "crc32c (take 20 fr @ take (length p) (drop 20 fr))
      \<noteq> (get_be (drop (length p) (drop 20 fr)) :: u32)"
proof -
  let ?n = "length p + 20"
  let ?fr0 = "encode_frame t s p"
  let ?body = "frame_header t s (length p) @ p"
  have lenb: "length ?body = ?n" by simp
  have fr0: "take ?n ?fr0 = ?body" "drop ?n ?fr0 = put_be 4 (crc32c ?body)"
    by (simp_all add: encode_frame_def Let_def)
  have body: "take 20 fr @ take (length p) (drop 20 fr) = take ?n fr"
    by (metis add.commute take_add)
  have tail: "drop (length p) (drop 20 fr) = drop ?n fr" by (simp add: add.commute)
  show ?thesis
  proof (cases "i < ?n")
    case True
    have t: "take ?n fr = ?body[i := c]"
      unfolding fr_def take_update_swap by (simp add: fr0)
    have d: "drop ?n fr = put_be 4 (crc32c ?body)"
      unfolding fr_def using True by (simp add: fr0)
    have "?fr0 ! i = ?body ! i"
      using True by (metis fr0(1) nth_take)
    with c have "crc32c (?body[i := c]) \<noteq> crc32c ?body"
      using True lenb by (intro crc32c_update) (simp_all del: append_assoc)
    then show ?thesis unfolding body tail t d by simp
  next
    case False
    have t: "take ?n fr = ?body"
      unfolding fr_def using False by (simp add: fr0)
    have d: "drop ?n fr = (put_be 4 (crc32c ?body))[i - ?n := c]"
      unfolding fr_def using False by (simp add: drop_update_swap fr0)
    let ?crc = "put_be 4 (crc32c ?body)"
    have k: "i - ?n < length ?crc" using False i by simp
    have "drop ?n ?fr0 ! (i - ?n) = ?fr0 ! i" using False by simp
    then have "c \<noteq> ?crc ! (i - ?n)" using c fr0(2) by simp
    then have "?crc[i - ?n := c] \<noteq> ?crc"
      using nth_list_update_eq [OF k, of c] by auto
    then have "(get_be ((put_be 4 (crc32c ?body))[i - ?n := c]) :: u32) \<noteq> crc32c ?body"
      using get_be32_inj [of "(put_be 4 (crc32c ?body))[i - ?n := c]" "put_be 4 (crc32c ?body)"]
      by auto
    then show ?thesis unfolding body tail t d by simp
  qed
qed

lemma replay_corrupt_frame:
  assumes v: "valid_entry (t, p)" and i: "i < length p + 24" and len: "i < 16 \<or> 20 \<le> i"
    and c: "c \<noteq> encode_frame t s p ! i"
  shows "\<exists>e. replayLoop no_read_errors (pre @ (encode_frame t s p)[i := c] @ rest) (length pre) ls recs
    = Inl e"
proof -
  define fr where "fr = (encode_frame t s p)[i := c]"
  let ?h = "take 20 fr" and ?b = "drop 20 fr"
  have lenfr: "length fr = length p + 24" by (simp add: fr_def)
  have f1: "pre @ fr @ rest = pre @ ?h @ (?b @ rest)"
    and f2: "pre @ fr @ rest = (pre @ ?h) @ ?b @ rest"
    by (metis append_assoc append_take_drop_id)+
  have r1: "read_at no_read_errors (pre @ fr @ rest) (length pre) journalHeaderSize = ReadData ?h"
    unfolding f1 by (rule read_at_append) (simp_all add: journalHeaderSize_def lenfr)
  have r2: "read_at no_read_errors (pre @ fr @ rest) (length pre + journalHeaderSize) (length p + 4)
      = ReadData ?b"
    unfolding f2 by (rule read_at_append) (simp_all add: journalHeaderSize_def lenfr)
  have "take 4 (drop 16 ?h) = take 4 (drop 16 (take 20 (encode_frame t s p)))"
    using len i by (intro nth_equalityI) (auto simp: fr_def nth_list_update)
  also have "\<dots> = put_be 4 (word_of_nat (length p) :: u32)"
    using header_fields(5) [of t s "length p"] by (simp add: encode_frame_def Let_def)
  finally have n: "unat (get_be (take 4 (drop 16 ?h)) :: u32) = length p"
    using v by (simp add: valid_entry_def payload_length_fits)
  have crc: "crc32c (?h @ take (length p) ?b) \<noteq> (get_be (drop (length p) ?b) :: u32)"
    unfolding fr_def by (rule corrupt_frame_crc [OF i c])
  show ?thesis
    unfolding fr_def [symmetric]
    by (subst replayLoop.simps) (simp only: r1 r2 n crc Let_def read_result.case
        split: if_split, blast)
qed

section \<open>What a client of the journal relies on\<close>

text \<open>
  \<open>recovered\<close> is what a reopen would replay, \<open>acked\<close> the records whose append was
  acknowledged, \<open>nextseq\<close> the sequence number the next record gets and \<open>healthy\<close> that
  no append has failed.
\<close>

locale journal_spec =
  fixes append :: "'j \<Rightarrow> byte \<Rightarrow> bytes \<Rightarrow> append_io \<Rightarrow> (journal_error + u64) \<times> 'j"
    and recovered :: "'j \<Rightarrow> journalRecord list option"
    and acked :: "'j \<Rightarrow> journalRecord list"
    and nextseq :: "'j \<Rightarrow> u64"
    and healthy :: "'j \<Rightarrow> bool"
    and inv :: "'j \<Rightarrow> bool"
  assumes recovered_healthy: "inv j \<Longrightarrow> healthy j \<Longrightarrow> recovered j = Some (acked j)"
    and append_ok:
      "inv j \<Longrightarrow> known_record_type t \<Longrightarrow> append j t p io = (Inr seq, j') \<Longrightarrow>
         inv j' \<and> healthy j' \<and> seq = nextseq j
         \<and> acked j' = acked j @ [\<lparr>jr_seq = seq, jr_type = t, jr_payload = p\<rparr>]"
    and append_err:
      "inv j \<Longrightarrow> known_record_type t \<Longrightarrow> append j t p io = (Inl e, j') \<Longrightarrow>
         inv j' \<and> acked j' = acked j
         \<and> (j' = j \<or> \<not> healthy j' \<and>
              recovered j' \<in> {Some (acked j),
                Some (acked j @ [\<lparr>jr_seq = nextseq j, jr_type = t, jr_payload = p\<rparr>])})"

text \<open>A journal that can be reopened: what it recovers becomes what it acknowledges.\<close>

locale reopenable_journal = journal_spec append recovered acked nextseq healthy inv
  for append :: "'j \<Rightarrow> byte \<Rightarrow> bytes \<Rightarrow> append_io \<Rightarrow> (journal_error + u64) \<times> 'j"
    and recovered acked nextseq healthy inv +
  fixes reopen :: "'j \<Rightarrow> open_error + ('j \<times> journalRecord list)"
  assumes reopened: "inv j \<Longrightarrow> \<exists>j' rs. reopen j = Inr (j', rs) \<and> recovered j = Some rs
      \<and> inv j' \<and> healthy j' \<and> acked j' = rs \<and> (healthy j \<longrightarrow> j' = j)"

text \<open>
  A client that keeps a state equal to the fold of the acknowledged records, each of them
  \<open>good\<close>: whatever happens to its appends, a reopen reconstructs either that state or that
  state with the one record in flight applied.
\<close>

locale journalled_state = reopenable_journal append recovered acked nextseq healthy inv reopen
  for append :: "'j \<Rightarrow> byte \<Rightarrow> bytes \<Rightarrow> append_io \<Rightarrow> (journal_error + u64) \<times> 'j"
    and recovered acked nextseq healthy inv reopen +
  fixes apply_rec :: "journalRecord \<Rightarrow> 's \<Rightarrow> 'e + 's"
    and init_state :: 's
    and good :: "journalRecord \<Rightarrow> bool"
begin

definition consistent :: "'j \<Rightarrow> 's \<Rightarrow> bool" where
  "consistent j s \<longleftrightarrow> inv j \<and> fold_result apply_rec (acked j) init_state = Inr s
     \<and> (\<forall>r \<in> set (acked j). good r)
     \<and> (recovered j = Some (acked j)
        \<or> \<not> healthy j \<and> (\<exists>r s'. recovered j = Some (acked j @ [r]) \<and> good r \<and> apply_rec r s = Inr s'))"

lemma commit_ok:
  assumes "consistent j s" "known_record_type t" "append j t p io = (Inr seq, j')"
    and "good \<lparr>jr_seq = seq, jr_type = t, jr_payload = p\<rparr>"
    and "apply_rec \<lparr>jr_seq = seq, jr_type = t, jr_payload = p\<rparr> s = Inr s'"
  shows "consistent j' s'"
proof -
  have inv: "inv j" and st: "fold_result apply_rec (acked j) init_state = Inr s"
    and g: "\<forall>r \<in> set (acked j). good r"
    using assms(1) by (auto simp: consistent_def)
  note ok = append_ok [OF inv assms(2,3)]
  then have "recovered j' = Some (acked j')"
    using recovered_healthy by blast
  with ok st g assms(4,5) show ?thesis
    by (simp add: consistent_def fold_result_append)
qed

lemma commit_err:
  assumes "consistent j s" "known_record_type t" "append j t p io = (Inl e, j')"
    and "good \<lparr>jr_seq = nextseq j, jr_type = t, jr_payload = p\<rparr>"
    and "\<exists>s'. apply_rec \<lparr>jr_seq = nextseq j, jr_type = t, jr_payload = p\<rparr> s = Inr s'"
  shows "consistent j' s"
  using append_err [OF _ assms(2,3)] assms(1,4,5) by (auto simp: consistent_def)

lemma recovery:
  assumes "consistent j s"
  shows "\<exists>j' rs s'. reopen j = Inr (j', rs) \<and> fold_result apply_rec rs init_state = Inr s'
     \<and> consistent j' s' \<and> healthy j'
     \<and> (s' = s \<or> \<not> healthy j \<and> (\<exists>r. apply_rec r s = Inr s' \<and> rs = acked j @ [r]))"
proof -
  obtain j' rs where j': "reopen j = Inr (j', rs)" "recovered j = Some rs" "inv j'" "healthy j'" "acked j' = rs"
    using assms reopened [of j] by (auto simp: consistent_def)
  have "\<exists>s'. fold_result apply_rec rs init_state = Inr s' \<and> (\<forall>r \<in> set rs. good r)
     \<and> (s' = s \<or> \<not> healthy j \<and> (\<exists>r. apply_rec r s = Inr s' \<and> rs = acked j @ [r]))"
    using assms j'(2) by (auto simp: consistent_def fold_result_append)
  then show ?thesis
    using j' recovered_healthy [of j'] by (auto simp: consistent_def)
qed

lemma healthy_reopen:
  "consistent j s \<Longrightarrow> healthy j \<Longrightarrow> \<exists>rs. reopen j = Inr (j, rs) \<and> fold_result apply_rec rs init_state = Inr s"
  using reopened [of j] by (auto simp: consistent_def)

text \<open>A property of the state that every good record preserves holds of every consistent state.\<close>

lemma consistent_invariant:
  assumes "consistent j s" and "P init_state"
    and step: "\<And>r s s'. good r \<Longrightarrow> P s \<Longrightarrow> apply_rec r s = Inr s' \<Longrightarrow> P s'"
  shows "P s"
proof -
  have "\<forall>r \<in> set rs. good r \<Longrightarrow> P s0 \<Longrightarrow> fold_result apply_rec rs s0 = Inr s \<Longrightarrow> P s" for rs s0
    by (induction rs arbitrary: s0) (auto split: sum.splits dest: step)
  with assms show ?thesis by (auto simp: consistent_def)
qed

end

section \<open>The journal meets its interface\<close>

definition journal_healthy :: "journal \<Rightarrow> bool" where
  "journal_healthy j \<longleftrightarrow> j_poisoned j = None"

definition journal_inv :: "journal \<Rightarrow> bool" where
  "journal_inv j \<longleftrightarrow> (\<exists>es. (\<forall>e \<in> set es. valid_entry e)
     \<and> j_writeOffset j = length (encode_frames 0 es)
     \<and> j_nextSeq j = word_of_nat (length es) + 1
     \<and> (if journal_healthy j then j_f j = encode_frames 0 es
        else \<exists>t p k. valid_entry (t, p)
               \<and> j_f j = encode_frames 0 es @ take k (encode_frame t (j_nextSeq j) p)))"

definition journal_recovered :: "journal \<Rightarrow> journalRecord list option" where
  "journal_recovered j =
     (case replayJournal no_read_errors (j_f j) of
        Inl e \<Rightarrow> None | Inr (validEnd, lastSeq, records) \<Rightarrow> Some records)"

definition journal_acked :: "journal \<Rightarrow> journalRecord list" where
  "journal_acked j =
     (case replayJournal no_read_errors (take (j_writeOffset j) (j_f j)) of
        Inl e \<Rightarrow> [] | Inr (validEnd, lastSeq, records) \<Rightarrow> records)"

text \<open>The same invariant with the records it stands for named.\<close>

definition journal_holds :: "(byte \<times> bytes) list \<Rightarrow> journal \<Rightarrow> bool" where
  "journal_holds es j \<longleftrightarrow> (\<forall>e \<in> set es. valid_entry e)
     \<and> j_writeOffset j = length (encode_frames 0 es)
     \<and> j_nextSeq j = word_of_nat (length es) + 1
     \<and> (if journal_healthy j then j_f j = encode_frames 0 es
        else \<exists>t p k. valid_entry (t, p)
               \<and> j_f j = encode_frames 0 es @ take k (encode_frame t (j_nextSeq j) p))"

lemma journal_inv_holds: "journal_inv j \<longleftrightarrow> (\<exists>es. journal_holds es j)"
  by (simp add: journal_inv_def journal_holds_def)

lemma journal_acked_holds:
  assumes "journal_holds es j"
  shows "journal_acked j = records_of 0 es"
proof -
  have v: "\<forall>e \<in> set es. valid_entry e"
    and "take (j_writeOffset j) (j_f j) = encode_frames 0 es"
    using assms by (auto simp: journal_holds_def split: if_splits)
  then show ?thesis by (simp add: journal_acked_def replayJournal_encode)
qed

lemma journal_recovered_healthy:
  "journal_holds es j \<Longrightarrow> journal_healthy j \<Longrightarrow> journal_recovered j = Some (records_of 0 es)"
  by (simp add: journal_holds_def journal_recovered_def replayJournal_encode)

lemma write_at_end [simp]: "off = length f \<Longrightarrow> write_at f off d = f @ d"
  by (simp add: write_at_def)

lemma appendFrame_ok_holds:
  assumes h: "journal_holds es j" and t: "known_record_type t"
    and a: "appendFrame j t p io = (Inr seq, j')"
  shows "journal_holds (es @ [(t, p)]) j' \<and> journal_healthy j' \<and> seq = j_nextSeq j"
proof -
  have len: "length p \<le> maxJournalPayload" and pz: "j_poisoned j = None" and "io = AppendOk"
    using a by (auto simp: appendFrame_def Let_def split: if_splits append_io.splits)
  then have j': "j' = j\<lparr>j_f := write_at (j_f j) (j_writeOffset j) (encode_frame t (j_nextSeq j) p),
        j_writeOffset := j_writeOffset j + length (encode_frame t (j_nextSeq j) p),
        j_nextSeq := j_nextSeq j + 1\<rparr>" and seq: "seq = j_nextSeq j"
    using a by (auto simp: appendFrame_def Let_def not_less)
  have f: "j_f j = encode_frames 0 es" and off: "j_writeOffset j = length (encode_frames 0 es)"
    and nx: "j_nextSeq j = word_of_nat (length es) + 1" and v: "\<forall>e \<in> set es. valid_entry e"
    using h pz by (auto simp: journal_holds_def journal_healthy_def)
  have snoc: "encode_frames 0 (es @ [(t, p)]) = encode_frames 0 es @ encode_frame t (j_nextSeq j) p"
    by (simp add: encode_frames_snoc nx)
  show ?thesis
    using v t len pz
    by (simp add: j' seq journal_holds_def journal_healthy_def snoc f off nx valid_entry_def)
qed

lemma appendFrame_err_holds:
  assumes h: "journal_holds es j" and t: "known_record_type t"
    and a: "appendFrame j t p io = (Inl e, j')"
  shows "journal_holds es j' \<and> (j' = j \<or> \<not> journal_healthy j'
     \<and> valid_entry (t, p) \<and> (\<exists>k. j_f j' = encode_frames 0 es @ take k (encode_frame t (j_nextSeq j) p)))"
proof (cases "j' = j")
  case True
  with h show ?thesis by simp
next
  case False
  then have len: "length p \<le> maxJournalPayload" and pz: "j_poisoned j = None"
    using a by (auto simp: appendFrame_def Let_def split: if_splits)
  then have f: "j_f j = encode_frames 0 es" and off: "j_writeOffset j = length (encode_frames 0 es)"
    using h by (auto simp: journal_holds_def journal_healthy_def)
  obtain k where k: "j_f j' = encode_frames 0 es @ take k (encode_frame t (j_nextSeq j) p)"
    and rest: "j_writeOffset j' = j_writeOffset j" "j_nextSeq j' = j_nextSeq j" "j_poisoned j' \<noteq> None"
  proof (cases io)
    case AppendOk
    then show ?thesis using a len pz by (auto simp: appendFrame_def Let_def not_less)
  next
    case (WriteFails k)
    then show ?thesis
      using a len pz f off that [of k] by (auto simp: appendFrame_def Let_def not_less)
  next
    case SyncFails
    then show ?thesis
      using a len pz f off that [of "length (encode_frame t (j_nextSeq j) p)"]
      by (auto simp: appendFrame_def Let_def not_less)
  qed
  have v: "valid_entry (t, p)" using t len by (simp add: valid_entry_def)
  have "journal_holds es j'"
    using h v k rest by (auto simp: journal_holds_def journal_healthy_def)
  then show ?thesis using v k rest by (auto simp: journal_healthy_def)
qed

lemma journal_recovered_in_flight:
  assumes "journal_holds es j" "valid_entry (t, p)"
    and "j_f j' = encode_frames 0 es @ take k (encode_frame t (j_nextSeq j) p)"
  shows "journal_recovered j' \<in> {Some (records_of 0 es),
     Some (records_of 0 es @ [\<lparr>jr_seq = j_nextSeq j, jr_type = t, jr_payload = p\<rparr>])}"
proof -
  have v: "\<forall>e \<in> set es. valid_entry e" and nx: "j_nextSeq j = word_of_nat (length es) + 1"
    using assms(1) by (auto simp: journal_holds_def)
  show ?thesis
  proof (cases "k < length (encode_frame t (j_nextSeq j) p)")
    case True
    then show ?thesis
      by (simp add: journal_recovered_def assms(3) replayJournal_torn [OF v assms(2) True])
  next
    case False
    then have "j_f j' = encode_frames 0 (es @ [(t, p)])"
      using assms(3) by (simp add: encode_frames_snoc nx)
    then show ?thesis
      using v assms(2) replayJournal_encode [of "es @ [(t, p)]"]
      by (simp add: journal_recovered_def records_of_snoc nx)
  qed
qed

interpretation log: journal_spec appendFrame journal_recovered journal_acked j_nextSeq
  journal_healthy journal_inv
proof
  fix j
  assume "journal_inv j" "journal_healthy j"
  then show "journal_recovered j = Some (journal_acked j)"
    by (metis journal_acked_holds journal_inv_holds journal_recovered_healthy)
next
  fix j t p io seq j'
  assume "journal_inv j" and t: "known_record_type t" and a: "appendFrame j t p io = (Inr seq, j')"
  then obtain es where h: "journal_holds es j" by (auto simp: journal_inv_holds)
  note ok = appendFrame_ok_holds [OF h t a]
  moreover have "j_nextSeq j = word_of_nat (length es) + 1"
    using h by (simp add: journal_holds_def)
  ultimately show "journal_inv j' \<and> journal_healthy j' \<and> seq = j_nextSeq j
      \<and> journal_acked j' = journal_acked j @ [\<lparr>jr_seq = seq, jr_type = t, jr_payload = p\<rparr>]"
    using journal_acked_holds [OF h] journal_acked_holds [of "es @ [(t, p)]" j']
    by (auto simp: journal_inv_holds records_of_snoc)
next
  fix j t p io e j'
  assume "journal_inv j" and t: "known_record_type t" and a: "appendFrame j t p io = (Inl e, j')"
  then obtain es where h: "journal_holds es j" by (auto simp: journal_inv_holds)
  note err = appendFrame_err_holds [OF h t a]
  have "journal_acked j' = journal_acked j"
    using err journal_acked_holds h by metis
  moreover have "journal_inv j'" using err by (auto simp: journal_inv_holds)
  moreover have "j' = j \<or> \<not> journal_healthy j' \<and> journal_recovered j' \<in> {Some (journal_acked j),
       Some (journal_acked j @ [\<lparr>jr_seq = j_nextSeq j, jr_type = t, jr_payload = p\<rparr>])}"
    using err journal_recovered_in_flight [OF h] journal_acked_holds [OF h] by auto
  ultimately show "journal_inv j' \<and> journal_acked j' = journal_acked j
      \<and> (j' = j \<or> \<not> journal_healthy j' \<and> journal_recovered j' \<in> {Some (journal_acked j),
       Some (journal_acked j @ [\<lparr>jr_seq = j_nextSeq j, jr_type = t, jr_payload = p\<rparr>])})"
    by blast
qed

text \<open>Reopening the file of a journal.\<close>

definition journal_reopen :: "journal \<Rightarrow> open_error + (journal \<times> journalRecord list)" where
  "journal_reopen j = openJournal no_read_errors False (j_f j)"

lemma journal_reopen_encode:
  assumes "\<forall>e \<in> set es. valid_entry e"
    and "replayJournal no_read_errors (j_f j)
      = Inr (length (encode_frames 0 es), word_of_nat (length es), records_of 0 es)"
    and "take (length (encode_frames 0 es)) (j_f j) = encode_frames 0 es"
  shows "\<exists>j'. journal_reopen j = Inr (j', records_of 0 es) \<and> journal_holds es j' \<and> journal_healthy j'
    \<and> j_f j' = encode_frames 0 es"
  using assms by (simp add: journal_reopen_def openJournal_def journal_holds_def journal_healthy_def)

lemma journal_reopen_holds:
  assumes "journal_holds es j"
  shows "\<exists>j' es'. journal_reopen j = Inr (j', records_of 0 es') \<and> journal_holds es' j' \<and> journal_healthy j'
    \<and> journal_recovered j = Some (records_of 0 es') \<and> (journal_healthy j \<longrightarrow> j' = j)"
proof (cases "journal_healthy j")
  case True
  with assms have v: "\<forall>e \<in> set es. valid_entry e" and f: "j_f j = encode_frames 0 es"
    by (auto simp: journal_holds_def)
  have "journal_reopen j = Inr (j, records_of 0 es)"
    using assms True replayJournal_encode [OF v]
    by (cases j) (simp add: journal_reopen_def openJournal_def journal_holds_def journal_healthy_def)
  then show ?thesis
    using assms True replayJournal_encode [OF v] f by (auto simp: journal_recovered_def)
next
  case False
  with assms obtain t p k where v: "\<forall>e \<in> set es. valid_entry e" and tp: "valid_entry (t, p)"
    and f: "j_f j = encode_frames 0 es @ take k (encode_frame t (j_nextSeq j) p)"
    and n: "j_nextSeq j = word_of_nat (length es) + 1"
    by (auto simp: journal_holds_def)
  show ?thesis
  proof (cases "k < length (encode_frame t (j_nextSeq j) p)")
    case True
    from replayJournal_torn [OF v tp True] False f show ?thesis
      using journal_reopen_encode [OF v, of j] by (auto simp: journal_recovered_def)
  next
    case whole: False
    let ?es = "es @ [(t, p)]"
    have f': "j_f j = encode_frames 0 ?es"
      using f whole n by (simp add: encode_frames_snoc)
    have v': "\<forall>e \<in> set ?es. valid_entry e" using v tp by auto
    show ?thesis
      using journal_reopen_encode [OF v', of j] replayJournal_encode [OF v'] f' False
      by (auto simp: journal_recovered_def)
  qed
qed

interpretation rlog: reopenable_journal appendFrame journal_recovered journal_acked j_nextSeq
  journal_healthy journal_inv journal_reopen
proof
  fix j
  assume "journal_inv j"
  then show "\<exists>j' rs. journal_reopen j = Inr (j', rs) \<and> journal_recovered j = Some rs
      \<and> journal_inv j' \<and> journal_healthy j' \<and> journal_acked j' = rs \<and> (journal_healthy j \<longrightarrow> j' = j)"
    using journal_reopen_holds journal_acked_holds unfolding journal_inv_holds by metis
qed

text \<open>An empty file opens to a journal that holds nothing.\<close>

definition empty_journal :: journal where
  "empty_journal = \<lparr>j_f = [], j_writeOffset = 0, j_nextSeq = 1, j_poisoned = None\<rparr>"

lemma empty_journal_holds: "journal_holds [] empty_journal"
  by (simp add: journal_holds_def empty_journal_def journal_healthy_def)

lemma journal_inv_empty [simp]: "journal_inv empty_journal"
  using empty_journal_holds by (auto simp: journal_inv_holds)

section \<open>Properties\<close>

text \<open>Appending a list of records, all of them acknowledged.\<close>

fun append_all :: "journal \<Rightarrow> (byte \<times> bytes) list \<Rightarrow> journal_error + journal" where
  "append_all j [] = Inr j"
| "append_all j ((t, p) # es) =
     (case appendFrame j t p AppendOk of
        (Inl e, _) \<Rightarrow> Inl e
      | (Inr _, j') \<Rightarrow> append_all j' es)"

lemma append_all_holds:
  assumes "journal_holds es0 j" "journal_healthy j" "\<forall>e \<in> set es. valid_entry e"
  shows "\<exists>j'. append_all j es = Inr j' \<and> journal_holds (es0 @ es) j' \<and> journal_healthy j'"
  using assms
proof (induction j es arbitrary: es0 rule: append_all.induct)
  case (2 j t p es)
  then have t: "known_record_type t" and len: "length p \<le> maxJournalPayload"
    by (auto simp: valid_entry_def)
  then obtain seq j' where a: "appendFrame j t p AppendOk = (Inr seq, j')"
    using 2 by (auto simp: appendFrame_def Let_def journal_healthy_def not_less)
  then show ?case
    using appendFrame_ok_holds [OF \<open>journal_holds es0 j\<close> t a] 2 by fastforce
qed simp

text \<open>
  C3: Round trip of the journal. Any list of records with known types and payloads
  within the size limit can be appended to a fresh journal, and reopening the resulting
  file replays exactly those records, in order, with the sequence numbers 1, 2, ...,
  leaves the file unchanged and resumes at the next sequence number.
\<close>

theorem journal_roundtrip:
  assumes "\<forall>e \<in> set es. valid_entry e"
  shows "\<exists>j. append_all empty_journal es = Inr j \<and>
    openJournal no_read_errors False (j_f j) =
      Inr (\<lparr>j_f = j_f j, j_writeOffset = j_writeOffset j, j_nextSeq = j_nextSeq j, j_poisoned = None\<rparr>,
           records_of 0 es)"
proof -
  obtain j where j: "append_all empty_journal es = Inr j" "journal_holds es j" "journal_healthy j"
    using append_all_holds [OF empty_journal_holds _ assms]
    by (auto simp: empty_journal_def journal_healthy_def)
  then have "j_f j = encode_frames 0 es" "j_writeOffset j = length (encode_frames 0 es)"
    "j_nextSeq j = word_of_nat (length es) + 1"
    by (simp_all add: journal_holds_def)
  with j(1) show ?thesis
    by (simp add: openJournal_def replayJournal_encode [OF assms])
qed

theorem journal_roundtrip_witness:
  "\<exists>j. append_all empty_journal [(1, [7]), (9, [])] = Inr j \<and>
    openJournal no_read_errors False (j_f j) =
      Inr (\<lparr>j_f = j_f j, j_writeOffset = j_writeOffset j, j_nextSeq = j_nextSeq j, j_poisoned = None\<rparr>,
           records_of 0 [(1, [7]), (9, [])])"
  by (rule journal_roundtrip)
     (simp add: valid_entry_def known_record_type_def record_type_defs maxJournalPayload_def)

text \<open>
  Torn tails. A journal file whose last frame was cut short at any byte reopens to
  exactly the complete records before it, with the torn bytes truncated away, so that
  the next append lands right after the last complete frame.
\<close>

theorem journal_torn_tail:
  assumes "\<forall>e \<in> set es. valid_entry e" and "valid_entry (t, p)"
    and "k < length (encode_frame t s p)"
  shows "openJournal no_read_errors False (encode_frames 0 es @ take k (encode_frame t s p))
    = Inr (\<lparr>j_f = encode_frames 0 es, j_writeOffset = length (encode_frames 0 es),
            j_nextSeq = word_of_nat (length es) + 1, j_poisoned = None\<rparr>, records_of 0 es)"
  by (simp add: openJournal_def replayJournal_torn [OF assms])

theorem journal_torn_tail_witness:
  "openJournal no_read_errors False (encode_frames 0 [(1, [5])] @ take 21 (encode_frame 9 2 [6]))
    = Inr (\<lparr>j_f = encode_frames 0 [(1, [5])], j_writeOffset = length (encode_frames 0 [(1, [5])]),
            j_nextSeq = word_of_nat (length [(1 :: byte, [5 :: byte])]) + 1, j_poisoned = None\<rparr>,
           records_of 0 [(1, [5])])"
  by (rule journal_torn_tail)
     (simp_all add: valid_entry_def known_record_type_def record_type_defs maxJournalPayload_def)

text \<open>
  C4: The durability contract of a single append. If it is acknowledged, the record
  follows all earlier acknowledged ones on reopen. If it fails, either nothing was
  touched or the journal is poisoned, every later append is refused without touching
  the file, and a reopen sees the acknowledged records either without or with the whole
  record in flight - never a mixture.
\<close>

theorem journal_append_contract:
  assumes "journal_inv j" and "known_record_type t" and "appendFrame j t p io = (r, j')"
  shows "case r of
      Inr seq \<Rightarrow> seq = j_nextSeq j \<and> journal_recovered j'
        = Some (journal_acked j @ [\<lparr>jr_seq = seq, jr_type = t, jr_payload = p\<rparr>])
    | Inl e \<Rightarrow> j' = j \<or>
        (\<forall>t2 p2 io2. \<exists>e2. appendFrame j' t2 p2 io2 = (Inl e2, j')) \<and>
        journal_recovered j' \<in> {Some (journal_acked j),
          Some (journal_acked j @ [\<lparr>jr_seq = j_nextSeq j, jr_type = t, jr_payload = p\<rparr>])}"
proof (cases r)
  case (Inr seq)
  with assms have "appendFrame j t p io = (Inr seq, j')" by simp
  note ok = log.append_ok [OF assms(1,2) this]
  then have "journal_recovered j' = Some (journal_acked j')"
    using log.recovered_healthy by blast
  with ok Inr show ?thesis by simp
next
  case (Inl e)
  with assms have "appendFrame j t p io = (Inl e, j')" by simp
  note err = log.append_err [OF assms(1,2) this]
  have "\<not> journal_healthy j' \<Longrightarrow> \<exists>e2. appendFrame j' t2 p2 io2 = (Inl e2, j')" for t2 p2 io2
    by (simp add: appendFrame_def journal_healthy_def)
  with err Inl show ?thesis by auto
qed

theorem journal_append_contract_witness:
  "case fst (appendFrame empty_journal 1 [7] (WriteFails 3)) of
      Inr seq \<Rightarrow> False
    | Inl e \<Rightarrow> snd (appendFrame empty_journal 1 [7] (WriteFails 3)) = empty_journal \<or>
        journal_recovered (snd (appendFrame empty_journal 1 [7] (WriteFails 3)))
          \<in> {Some (journal_acked empty_journal),
             Some (journal_acked empty_journal @ [\<lparr>jr_seq = 1, jr_type = 1, jr_payload = [7]\<rparr>])}"
proof -
  have t: "known_record_type 1"
    by (simp add: known_record_type_def record_type_defs)
  have a: "appendFrame empty_journal 1 [7] (WriteFails 3)
      = (Inl JWriteFailed, snd (appendFrame empty_journal 1 [7] (WriteFails 3)))"
    by (simp add: appendFrame_def empty_journal_def maxJournalPayload_def Let_def)
  have n: "j_nextSeq empty_journal = 1" by (simp add: empty_journal_def)
  have f: "fst (appendFrame empty_journal 1 [7] (WriteFails 3)) = Inl JWriteFailed"
    by (subst a) simp
  show ?thesis
    using journal_append_contract [OF journal_inv_empty t a] n unfolding f by auto
qed

text \<open>
  C5: Corruption is loud. In a journal file of any complete frames, changing any single
  byte of any frame outside its four-byte length field - magic, version, type, flags,
  sequence number, payload or checksum - makes replay fail with an error instead of
  returning records.
\<close>

theorem journal_corruption_detected:
  assumes "\<forall>e \<in> set es. valid_entry e" and "valid_entry (t, p)"
    and "i < length (encode_frame t s p)" and "i < 16 \<or> 20 \<le> i"
    and "c \<noteq> encode_frame t s p ! i"
  shows "\<exists>e. replayJournal no_read_errors
    (encode_frames 0 es @ (encode_frame t s p)[i := c] @ rest) = Inl e"
proof -
  let ?bad = "(encode_frame t s p)[i := c]"
  have i: "i < length p + 24" using assms(3) by simp
  show ?thesis
    using replay_frames [OF assms(1), of "[]" 0 "?bad @ rest" "[]"]
      replay_corrupt_frame [OF assms(2) i assms(4,5), of "encode_frames 0 es" rest
        "word_of_nat (length es)" "records_of 0 es"]
    by (simp add: replayJournal_def)
qed

theorem journal_corruption_detected_witness:
  "\<exists>e. replayJournal no_read_errors
    (encode_frames 0 [(1, [5])] @ (encode_frame 9 2 [6])[20 := 8] @ []) = Inl e"
  by (rule journal_corruption_detected)
     (simp_all add: valid_entry_def known_record_type_def record_type_defs maxJournalPayload_def
       encode_frame_def Let_def nth_append)

text \<open>A frame whose length field has been overwritten with \<open>m\<close>.\<close>

definition relength :: "nat \<Rightarrow> bytes \<Rightarrow> bytes" where
  "relength m fr = take 16 fr @ put_be 4 (word_of_nat m :: u32) @ drop 20 fr"

lemma relength_frame:
  "relength m (encode_frame t s p)
    = frame_header t s m @ p @ put_be 4 (crc32c (frame_header t s (length p) @ p))"
proof -
  let ?pre = "journalMagic @ put_be 2 journalFrameVersion @ [t, 0] @ put_be 8 s"
  let ?crc = "put_be 4 (crc32c (frame_header t s (length p) @ p))"
  have h: "frame_header t s n = ?pre @ put_be 4 (word_of_nat n :: u32)" for n
    by (simp add: frame_header_def)
  have e: "encode_frame t s p = ?pre @ put_be 4 (word_of_nat (length p) :: u32) @ p @ ?crc"
    by (simp add: encode_frame_def frame_header_def Let_def)
  have "length ?pre = 16" by simp
  then have "take 16 (encode_frame t s p) = ?pre" "drop 20 (encode_frame t s p) = p @ ?crc"
    unfolding e by simp_all
  then show ?thesis by (simp add: relength_def h)
qed

text \<open>Replay at a header whose declared payload reaches beyond the end of the file.\<close>

lemma replay_overlong:
  assumes "known_record_type t" and "m < 2 ^ 32" and "length body < m + 4"
  shows "replayLoop no_read_errors (pre @ frame_header t s m @ body) (length pre) ls recs
    = (if m \<le> maxJournalPayload then Inr (length pre, ls, recs)
       else Inl (PayloadLengthExceedsMax (length pre)))"
proof -
  let ?f = "pre @ frame_header t s m @ body"
  have n: "unat (word_of_nat m :: u32) = m"
    using assms(2) by (simp add: unat_of_nat take_bit_nat_eq_self)
  have r1: "read_at no_read_errors ?f (length pre) journalHeaderSize = ReadData (frame_header t s m)"
    by (rule read_at_append) (simp_all add: journalHeaderSize_def)
  have r2: "read_at no_read_errors ?f (length pre + journalHeaderSize) (m + 4) = ReadEOF"
    using assms(3) by (intro read_at_short) (simp add: journalHeaderSize_def)
  show ?thesis
    by (subst replayLoop.simps)
       (simp only: r1 r2 header_fields n assms(1) get_put_be16 get_put_be32 Let_def read_result.case
         simp_thms if_True if_False not_le [symmetric] split: if_split, blast)
qed

text \<open>
  C6: The exception is the length field. Take a journal of any complete frames, then a
  frame whose four length bytes have been overwritten with any value \<open>m\<close>, then any bytes,
  such as the frames acknowledged later. If the declared payload reaches beyond the end of
  the file, the damage is caught only when \<open>m\<close> exceeds \<open>maxJournalPayload\<close>; otherwise the
  frame is indistinguishable from a torn tail: opening the journal succeeds, replays only
  the records before the damaged frame, and truncates that record and every acknowledged
  record after it away. (A damaged length that ends inside the file moves the checksum
  that is tested and is not covered here.)
\<close>

theorem journal_length_damage_drops_records:
  assumes "\<forall>e \<in> set es. valid_entry e" and "known_record_type t" and "m < 2 ^ 32"
    and "length (p @ rest) < m"
  shows "openJournal no_read_errors False (encode_frames 0 es @ relength m (encode_frame t s p) @ rest)
    = (if m \<le> maxJournalPayload
       then Inr (\<lparr>j_f = encode_frames 0 es, j_writeOffset = length (encode_frames 0 es),
                  j_nextSeq = word_of_nat (length es) + 1, j_poisoned = None\<rparr>, records_of 0 es)
       else Inl (OpenReplay (PayloadLengthExceedsMax (length (encode_frames 0 es)))))"
proof -
  let ?rest = "relength m (encode_frame t s p) @ rest"
  have "replayJournal no_read_errors (encode_frames 0 es @ ?rest)
      = replayLoop no_read_errors (encode_frames 0 es @ ?rest) (length (encode_frames 0 es))
          (word_of_nat (length es)) (records_of 0 es)"
    using replay_frames [OF assms(1), of "[]" 0 ?rest "[]"] by (simp add: replayJournal_def)
  then show ?thesis
    using replay_overlong [OF assms(2,3), of "p @ put_be 4 (crc32c (frame_header t s (length p) @ p)) @ rest"]
      assms(4)
    by (simp add: openJournal_def relength_frame)
qed

theorem journal_length_damage_drops_records_witness:
  "openJournal no_read_errors False
      (encode_frames 0 [(1, [5])] @ relength 65537 (encode_frame 9 2 [6]) @ encode_frames 2 [(1, [7])])
    = Inr (\<lparr>j_f = encode_frames 0 [(1, [5])], j_writeOffset = length (encode_frames 0 [(1, [5])]),
            j_nextSeq = word_of_nat (length [(1 :: byte, [5 :: byte])]) + 1, j_poisoned = None\<rparr>,
           records_of 0 [(1, [5])])"
proof -
  let ?es = "[(1, [5])] :: (byte \<times> bytes) list"
  have v: "\<forall>e \<in> set ?es. valid_entry e" and t: "known_record_type 9"
    by (simp_all add: valid_entry_def known_record_type_def record_type_defs maxJournalPayload_def)
  have l: "length ([6] @ encode_frames 2 [(1, [7])]) < 65537" and m: "(65537 :: nat) < 2 ^ 32"
    by simp_all
  from journal_length_damage_drops_records [OF v t m l, of 2] show ?thesis
    by (simp add: maxJournalPayload_def)
qed

end
