(* ===== verification/Namespace.thy ===== *)
theory Namespace
  imports Journal
begin

text \<open>
  The mutable namespace (\<^verbatim>\<open>zeros3.go\<close>, sections 5 to 7c and 11b): the payload of every
  journal record, the in-memory maps of buckets, multipart uploads and retained history,
  and \<open>applyRecord\<close>, which folds one record into them during replay. The Go maps are
  finite maps, a pointer to a bucket or an upload is the entry of its map, and the three
  maps that \<^verbatim>\<open>Store.mu\<close> guards are the record \<open>namespace\<close>.

  \<^verbatim>\<open>encoding/json\<close> is an argument (\<open>json_codec\<close>): \<open>json_marshal\<close> may fail, and
  \<open>json_unmarshal t\<close> decodes into the payload struct of record type \<open>t\<close>. What the code
  relies on is stated as \<open>json_ok\<close>: decoding an encoded payload gives it back with every
  string coerced to valid UTF-8, as the package documents.
\<close>

section \<open>Journal payloads\<close>

record chunkRef =
  cr_SHA256 :: string
  cr_Length :: int

record metadataKV =
  kv_Key :: string
  kv_Value :: string

record journalCreateBucketPayload =
  cb_Bucket :: string
  cb_CreatedAt :: time

record journalPutPayload =
  pp_Bucket :: string
  pp_Key :: string
  pp_ManifestUUID :: string
  pp_ManifestSHA256 :: string
  pp_Size :: int
  pp_ETag :: string
  pp_ContentType :: string
  pp_VersionID :: string

record journalDeleteObjectPayload =
  do_Bucket :: string
  do_Key :: string

record journalDeleteBucketPayload =
  db_Bucket :: string

record journalCreateMultipartPayload =
  cm_UploadID :: string
  cm_Bucket :: string
  cm_Key :: string
  cm_ContentType :: string
  cm_Metadata :: "metadataKV list"
  cm_CreatedAt :: time

record journalUploadPartPayload =
  up_UploadID :: string
  up_PartNumber :: int
  up_Size :: int
  up_ETag :: string
  up_Chunks :: "chunkRef list"
  up_UploadedAt :: time

record journalAbortMultipartPayload =
  am_UploadID :: string

record journalCompleteMultipartPayload = journalPutPayload +
  co_UploadID :: string

record journalArchivedVersionPayload =
  av_VersionID :: string
  av_ManifestUUID :: string
  av_ManifestSHA256 :: string
  av_Size :: int
  av_ETag :: string
  av_ContentType :: string
  av_ArchivedAt :: time
  av_Reason :: string

record journalPruneHistoryEntry =
  ph_Bucket :: string
  ph_Key :: string
  ph_VersionIDs :: "string list"

record journalPruneHistoryPayload =
  ph_Entries :: "journalPruneHistoryEntry list"

record journalPutPayloadV2 = journalPutPayload +
  p2_Previous :: "journalArchivedVersionPayload option"

record journalCompleteMultipartPayloadV2 = journalCompleteMultipartPayload +
  c2_Previous :: "journalArchivedVersionPayload option"

record journalDeleteObjectPayloadV2 = journalDeleteObjectPayload +
  d2_Archived :: journalArchivedVersionPayload

datatype payload =
    CreateBucketP journalCreateBucketPayload
  | PutP journalPutPayload
  | DeleteObjectP journalDeleteObjectPayload
  | DeleteBucketP journalDeleteBucketPayload
  | CreateMultipartP journalCreateMultipartPayload
  | UploadPartP journalUploadPartPayload
  | AbortMultipartP journalAbortMultipartPayload
  | CompleteMultipartP journalCompleteMultipartPayload
  | PutV2P journalPutPayloadV2
  | CompleteMultipartV2P journalCompleteMultipartPayloadV2
  | DeleteObjectV2P journalDeleteObjectPayloadV2
  | PruneHistoryP journalPruneHistoryPayload

fun record_type_of :: "payload \<Rightarrow> byte" where
  "record_type_of (CreateBucketP _) = recordTypeCreateBucket"
| "record_type_of (PutP _) = recordTypePutObjectRoot"
| "record_type_of (DeleteObjectP _) = recordTypeDeleteObjectRoot"
| "record_type_of (DeleteBucketP _) = recordTypeDeleteBucket"
| "record_type_of (CreateMultipartP _) = recordTypeCreateMultipartUpload"
| "record_type_of (UploadPartP _) = recordTypeUploadPart"
| "record_type_of (AbortMultipartP _) = recordTypeAbortMultipartUpload"
| "record_type_of (CompleteMultipartP _) = recordTypeCompleteMultipartUpload"
| "record_type_of (PutV2P _) = recordTypePutObjectRootV2"
| "record_type_of (CompleteMultipartV2P _) = recordTypeCompleteMultipartUploadV2"
| "record_type_of (DeleteObjectV2P _) = recordTypeDeleteObjectRootV2"
| "record_type_of (PruneHistoryP _) = recordTypePruneHistory"

lemma known_record_type_of [simp]: "known_record_type (record_type_of p)"
  by (cases p) (simp_all add: known_record_type_def)

definition historyReasonOverwritten :: string where
  "historyReasonOverwritten = ''overwritten''"

definition historyReasonDeleted :: string where
  "historyReasonDeleted = ''deleted''"

subsection \<open>JSON as an interface\<close>

record json_codec =
  json_marshal :: "payload \<Rightarrow> bytes option"
  json_unmarshal :: "byte \<Rightarrow> bytes \<Rightarrow> payload option"

text \<open>What writing a payload as JSON and reading it back does to its strings.\<close>

definition coerce_put :: "'a journalPutPayload_scheme \<Rightarrow> 'a journalPutPayload_scheme" where
  "coerce_put p = p\<lparr>pp_Bucket := utf8_coerce (pp_Bucket p), pp_Key := utf8_coerce (pp_Key p),
     pp_ManifestUUID := utf8_coerce (pp_ManifestUUID p),
     pp_ManifestSHA256 := utf8_coerce (pp_ManifestSHA256 p),
     pp_ETag := utf8_coerce (pp_ETag p), pp_ContentType := utf8_coerce (pp_ContentType p),
     pp_VersionID := utf8_coerce (pp_VersionID p)\<rparr>"

definition coerce_archived :: "journalArchivedVersionPayload \<Rightarrow> journalArchivedVersionPayload" where
  "coerce_archived p = p\<lparr>av_VersionID := utf8_coerce (av_VersionID p),
     av_ManifestUUID := utf8_coerce (av_ManifestUUID p),
     av_ManifestSHA256 := utf8_coerce (av_ManifestSHA256 p),
     av_ETag := utf8_coerce (av_ETag p), av_ContentType := utf8_coerce (av_ContentType p),
     av_Reason := utf8_coerce (av_Reason p)\<rparr>"

definition coerce_kv :: "metadataKV \<Rightarrow> metadataKV" where
  "coerce_kv kv = \<lparr>kv_Key = utf8_coerce (kv_Key kv), kv_Value = utf8_coerce (kv_Value kv)\<rparr>"

definition coerce_ref :: "chunkRef \<Rightarrow> chunkRef" where
  "coerce_ref c = c\<lparr>cr_SHA256 := utf8_coerce (cr_SHA256 c)\<rparr>"

definition coerce_prune :: "journalPruneHistoryEntry \<Rightarrow> journalPruneHistoryEntry" where
  "coerce_prune e = \<lparr>ph_Bucket = utf8_coerce (ph_Bucket e), ph_Key = utf8_coerce (ph_Key e),
     ph_VersionIDs = map utf8_coerce (ph_VersionIDs e)\<rparr>"

fun coerce_payload :: "payload \<Rightarrow> payload" where
  "coerce_payload (CreateBucketP p) = CreateBucketP (p\<lparr>cb_Bucket := utf8_coerce (cb_Bucket p)\<rparr>)"
| "coerce_payload (PutP p) = PutP (coerce_put p)"
| "coerce_payload (DeleteObjectP p) =
     DeleteObjectP (p\<lparr>do_Bucket := utf8_coerce (do_Bucket p), do_Key := utf8_coerce (do_Key p)\<rparr>)"
| "coerce_payload (DeleteBucketP p) = DeleteBucketP (p\<lparr>db_Bucket := utf8_coerce (db_Bucket p)\<rparr>)"
| "coerce_payload (CreateMultipartP p) =
     CreateMultipartP (p\<lparr>cm_UploadID := utf8_coerce (cm_UploadID p),
       cm_Bucket := utf8_coerce (cm_Bucket p), cm_Key := utf8_coerce (cm_Key p),
       cm_ContentType := utf8_coerce (cm_ContentType p),
       cm_Metadata := map coerce_kv (cm_Metadata p)\<rparr>)"
| "coerce_payload (UploadPartP p) =
     UploadPartP (p\<lparr>up_UploadID := utf8_coerce (up_UploadID p), up_ETag := utf8_coerce (up_ETag p),
       up_Chunks := map coerce_ref (up_Chunks p)\<rparr>)"
| "coerce_payload (AbortMultipartP p) =
     AbortMultipartP (p\<lparr>am_UploadID := utf8_coerce (am_UploadID p)\<rparr>)"
| "coerce_payload (CompleteMultipartP p) =
     CompleteMultipartP (coerce_put (p\<lparr>co_UploadID := utf8_coerce (co_UploadID p)\<rparr>))"
| "coerce_payload (PutV2P p) =
     PutV2P (coerce_put (p\<lparr>p2_Previous := map_option coerce_archived (p2_Previous p)\<rparr>))"
| "coerce_payload (CompleteMultipartV2P p) =
     CompleteMultipartV2P (coerce_put (p\<lparr>co_UploadID := utf8_coerce (co_UploadID p),
       c2_Previous := map_option coerce_archived (c2_Previous p)\<rparr>))"
| "coerce_payload (DeleteObjectV2P p) =
     DeleteObjectV2P (p\<lparr>do_Bucket := utf8_coerce (do_Bucket p), do_Key := utf8_coerce (do_Key p),
       d2_Archived := coerce_archived (d2_Archived p)\<rparr>)"
| "coerce_payload (PruneHistoryP p) =
     PruneHistoryP (p\<lparr>ph_Entries := map coerce_prune (ph_Entries p)\<rparr>)"

definition json_ok :: "json_codec \<Rightarrow> bool" where
  "json_ok J \<longleftrightarrow> (\<forall>p b. json_marshal J p = Some b
     \<longrightarrow> json_unmarshal J (record_type_of p) b = Some (coerce_payload p))"

text \<open>A payload all of whose strings are valid UTF-8 survives unchanged.\<close>

definition payload_utf8 :: "payload \<Rightarrow> bool" where
  "payload_utf8 p \<longleftrightarrow> coerce_payload p = p"

lemma json_okD:
  "json_ok J \<Longrightarrow> payload_utf8 p \<Longrightarrow> json_marshal J p = Some b
    \<Longrightarrow> json_unmarshal J (record_type_of p) b = Some p"
  by (simp add: json_ok_def payload_utf8_def)

section \<open>Namespace state\<close>

record objectEntry =
  oe_manifestUUID :: string
  oe_manifestSHA256 :: digest
  oe_size :: int
  oe_etag :: string
  oe_contentType :: string
  oe_seq :: u64

record bucketEntry =
  be_name :: string
  be_createdAt :: time
  be_objects :: "(string, objectEntry) fmap"

record historyVersionEntry =
  hv_versionID :: string
  hv_manifestUUID :: string
  hv_manifestSHA256 :: digest
  hv_size :: int
  hv_etag :: string
  hv_contentType :: string
  hv_archivedAt :: time
  hv_reason :: string
  hv_seq :: u64

record multipartPart =
  mp_partNumber :: int
  mp_size :: int
  mp_etag :: string
  mp_chunks :: "chunkRef list"
  mp_uploadedAt :: time

record multipartUpload =
  mu_uploadID :: string
  mu_bucket :: string
  mu_key :: string
  mu_contentType :: string
  mu_metadata :: "(string, string) fmap"
  mu_createdAt :: time
  mu_parts :: "(int, multipartPart) fmap"

type_synonym history_map = "(string, (string, historyVersionEntry list) fmap) fmap"

record namespace =
  ns_buckets :: "(string, bucketEntry) fmap"
  ns_uploads :: "(string, multipartUpload) fmap"
  ns_history :: history_map

definition empty_namespace :: namespace where
  "empty_namespace = \<lparr>ns_buckets = fmempty, ns_uploads = fmempty, ns_history = fmempty\<rparr>"

datatype err =
    ErrInvalidBucketName | ErrNoSuchBucket | ErrNoSuchKey | ErrBucketNotEmpty
  | ErrNoSuchUpload | ErrNoSuchVersion | ErrPreconditionFailed
  | ErrConditionUnsupported | ErrConditionMalformed
  | ErrEmptyCompletionPartList | ErrPartsNotAscending | ErrInvalidPart int | ErrEntityTooSmall int
  | ErrMalformedStoredETag int | ErrManifestUnavailable | ErrChunkUnavailable | ErrMalformedChunkRef
  | ErrChunkCorrupt | ErrMarshal | ErrJournal journal_error | ErrOpen open_error
  | ErrBadDigest | ErrMalformedPrune | ErrPlan string
  | ErrReplayPayload u64 | ErrReplayUnknownBucket u64 | ErrReplayUnknownUpload u64
  | ErrReplayRecordType u64 byte | ErrFormat string | ErrIO | ErrSyncConflict

definition decodeHexSHA256 :: "string \<Rightarrow> digest option" where
  "decodeHexSHA256 s =
     (case hex_decode s of
        None \<Rightarrow> None
      | Some b \<Rightarrow> if length b \<noteq> 32 then None else Some (digest_of_bytes b))"

lemma decodeHexSHA256_encode [simp]: "decodeHexSHA256 (hex_encode (digest_bytes d)) = Some d"
  by (simp add: decodeHexSHA256_def)

subsection \<open>History\<close>

definition history_of :: "namespace \<Rightarrow> string \<Rightarrow> string \<Rightarrow> historyVersionEntry list" where
  "history_of ns bucket key =
     (case fmlookup (ns_history ns) bucket of
        None \<Rightarrow> []
      | Some keys \<Rightarrow> (case fmlookup keys key of None \<Rightarrow> [] | Some es \<Rightarrow> es))"

definition history_keys :: "namespace \<Rightarrow> string \<Rightarrow> (string, historyVersionEntry list) fmap" where
  "history_keys ns bucket =
     (case fmlookup (ns_history ns) bucket of None \<Rightarrow> fmempty | Some keys \<Rightarrow> keys)"

definition archivedEntry :: "digest \<Rightarrow> u64 \<Rightarrow> journalArchivedVersionPayload \<Rightarrow> historyVersionEntry" where
  "archivedEntry dg seq p =
     \<lparr>hv_versionID = av_VersionID p, hv_manifestUUID = av_ManifestUUID p, hv_manifestSHA256 = dg,
      hv_size = av_Size p, hv_etag = av_ETag p, hv_contentType = av_ContentType p,
      hv_archivedAt = av_ArchivedAt p, hv_reason = av_Reason p, hv_seq = seq\<rparr>"

definition archiveVersionLocked ::
  "string \<Rightarrow> string \<Rightarrow> u64 \<Rightarrow> journalArchivedVersionPayload \<Rightarrow> namespace \<Rightarrow> err + namespace" where
  "archiveVersionLocked bucket key seq p ns =
     (case decodeHexSHA256 (av_ManifestSHA256 p) of
        None \<Rightarrow> Inl ErrBadDigest
      | Some dg \<Rightarrow>
          Inr (ns\<lparr>ns_history := fmupd bucket
                 (fmupd key (history_of ns bucket key @ [archivedEntry dg seq p]) (history_keys ns bucket))
                 (ns_history ns)\<rparr>))"

text \<open>One entry of a prune frame: the number of rows it removes and the new history.\<close>

definition removeHistoryEntry :: "journalPruneHistoryEntry \<Rightarrow> namespace \<Rightarrow> nat \<times> namespace" where
  "removeHistoryEntry e ns =
     (let old = history_of ns (ph_Bucket e) (ph_Key e);
          kept = filter (\<lambda>h. hv_versionID h \<notin> set (ph_VersionIDs e)) old;
          removed = length old - length kept
      in if length kept = length old then (removed, ns)
         else if kept \<noteq> [] then
           (removed, ns\<lparr>ns_history :=
              fmupd (ph_Bucket e) (fmupd (ph_Key e) kept (history_keys ns (ph_Bucket e))) (ns_history ns)\<rparr>)
         else
           let rest = fmdrop (ph_Key e) (history_keys ns (ph_Bucket e))
           in (removed, ns\<lparr>ns_history :=
                 (if rest = fmempty then fmdrop (ph_Bucket e) (ns_history ns)
                  else fmupd (ph_Bucket e) rest (ns_history ns))\<rparr>))"

fun removeHistoryEntries :: "journalPruneHistoryEntry list \<Rightarrow> namespace \<Rightarrow> nat \<times> namespace" where
  "removeHistoryEntries [] ns = (0, ns)"
| "removeHistoryEntries (e # es) ns =
     (let (n, ns1) = removeHistoryEntry e ns; (m, ns2) = removeHistoryEntries es ns1 in (n + m, ns2))"

definition removeHistoryLocked :: "journalPruneHistoryPayload \<Rightarrow> namespace \<Rightarrow> nat \<times> namespace" where
  "removeHistoryLocked p ns = removeHistoryEntries (ph_Entries p) ns"

text \<open>
  \<^verbatim>\<open>uuid.Parse\<close> followed by the comparison with the canonical form accepts exactly the
  lower-case 8-4-4-4-12 spelling.
\<close>

definition lower_hex :: "char \<Rightarrow> bool" where
  "lower_hex c \<longleftrightarrow> (let k = of_char c :: nat in 48 \<le> k \<and> k \<le> 57 \<or> 97 \<le> k \<and> k \<le> 102)"

definition canonical_uuid :: "string \<Rightarrow> bool" where
  "canonical_uuid s \<longleftrightarrow> length s = 36
     \<and> list_all (\<lambda>i. if i \<in> {8, 13, 18, 23} then s ! i = CHR ''-'' else lower_hex (s ! i)) [0..<36]"

definition valid_prune_entry :: "journalPruneHistoryEntry \<Rightarrow> bool" where
  "valid_prune_entry e \<longleftrightarrow> ph_Bucket e \<noteq> [] \<and> ph_Key e \<noteq> []
     \<and> utf8_valid (ph_Bucket e) \<and> utf8_valid (ph_Key e) \<and> ph_VersionIDs e \<noteq> []
     \<and> list_all canonical_uuid (ph_VersionIDs e)"

definition parsePruneHistoryPayload :: "journalPruneHistoryPayload \<Rightarrow> err + journalPruneHistoryPayload" where
  "parsePruneHistoryPayload p =
     (if ph_Entries p = [] \<or> \<not> list_all valid_prune_entry (ph_Entries p) then Inl ErrMalformedPrune
      else Inr p)"

section \<open>Replay of one record\<close>

definition putEntry :: "'a journalPutPayload_scheme \<Rightarrow> digest \<Rightarrow> u64 \<Rightarrow> objectEntry" where
  "putEntry p dg seq =
     \<lparr>oe_manifestUUID = pp_ManifestUUID p, oe_manifestSHA256 = dg, oe_size = pp_Size p,
      oe_etag = pp_ETag p, oe_contentType = pp_ContentType p, oe_seq = seq\<rparr>"

definition setObject :: "string \<Rightarrow> bucketEntry \<Rightarrow> string \<Rightarrow> objectEntry \<Rightarrow> namespace \<Rightarrow> namespace" where
  "setObject bucket b key e ns =
     ns\<lparr>ns_buckets := fmupd bucket (b\<lparr>be_objects := fmupd key e (be_objects b)\<rparr>) (ns_buckets ns)\<rparr>"

definition dropObject :: "string \<Rightarrow> bucketEntry \<Rightarrow> string \<Rightarrow> namespace \<Rightarrow> namespace" where
  "dropObject bucket b key ns =
     ns\<lparr>ns_buckets := fmupd bucket (b\<lparr>be_objects := fmdrop key (be_objects b)\<rparr>) (ns_buckets ns)\<rparr>"

definition newBucket :: "string \<Rightarrow> time \<Rightarrow> bucketEntry" where
  "newBucket name at = \<lparr>be_name = name, be_createdAt = at, be_objects = fmempty\<rparr>"

definition applyCreateBucket :: "journalCreateBucketPayload \<Rightarrow> namespace \<Rightarrow> err + namespace" where
  "applyCreateBucket p ns =
     Inr (case fmlookup (ns_buckets ns) (cb_Bucket p) of
            Some _ \<Rightarrow> ns
          | None \<Rightarrow> ns\<lparr>ns_buckets := fmupd (cb_Bucket p)
                      (newBucket (cb_Bucket p) (cb_CreatedAt p)) (ns_buckets ns)\<rparr>)"

definition applyPutObjectRoot :: "u64 \<Rightarrow> journalPutPayload \<Rightarrow> namespace \<Rightarrow> err + namespace" where
  "applyPutObjectRoot seq p ns =
     (case fmlookup (ns_buckets ns) (pp_Bucket p) of
        None \<Rightarrow> Inl (ErrReplayUnknownBucket seq)
      | Some b \<Rightarrow>
          (case decodeHexSHA256 (pp_ManifestSHA256 p) of
             None \<Rightarrow> Inl ErrBadDigest
           | Some dg \<Rightarrow> Inr (setObject (pp_Bucket p) b (pp_Key p) (putEntry p dg seq) ns)))"

definition applyDeleteObjectRoot :: "u64 \<Rightarrow> journalDeleteObjectPayload \<Rightarrow> namespace \<Rightarrow> err + namespace" where
  "applyDeleteObjectRoot seq p ns =
     (case fmlookup (ns_buckets ns) (do_Bucket p) of
        None \<Rightarrow> Inl (ErrReplayUnknownBucket seq)
      | Some b \<Rightarrow> Inr (dropObject (do_Bucket p) b (do_Key p) ns))"

definition applyDeleteBucket :: "u64 \<Rightarrow> journalDeleteBucketPayload \<Rightarrow> namespace \<Rightarrow> err + namespace" where
  "applyDeleteBucket seq p ns =
     (case fmlookup (ns_buckets ns) (db_Bucket p) of
        None \<Rightarrow> Inl (ErrReplayUnknownBucket seq)
      | Some _ \<Rightarrow> Inr (ns\<lparr>ns_buckets := fmdrop (db_Bucket p) (ns_buckets ns)\<rparr>))"

text \<open>A metadata list read into a map: a later pair replaces an earlier one with its key.\<close>

definition flattenMetadata :: "metadataKV list \<Rightarrow> (string, string) fmap" where
  "flattenMetadata md = fold (\<lambda>kv m. fmupd (kv_Key kv) (kv_Value kv) m) md fmempty"

definition newUpload :: "journalCreateMultipartPayload \<Rightarrow> multipartUpload" where
  "newUpload p =
     \<lparr>mu_uploadID = cm_UploadID p, mu_bucket = cm_Bucket p, mu_key = cm_Key p,
      mu_contentType = cm_ContentType p, mu_metadata = flattenMetadata (cm_Metadata p),
      mu_createdAt = cm_CreatedAt p, mu_parts = fmempty\<rparr>"

definition applyCreateMultipart :: "journalCreateMultipartPayload \<Rightarrow> namespace \<Rightarrow> err + namespace" where
  "applyCreateMultipart p ns =
     Inr (ns\<lparr>ns_uploads := fmupd (cm_UploadID p) (newUpload p) (ns_uploads ns)\<rparr>)"

definition newPart :: "journalUploadPartPayload \<Rightarrow> multipartPart" where
  "newPart p =
     \<lparr>mp_partNumber = up_PartNumber p, mp_size = up_Size p, mp_etag = up_ETag p,
      mp_chunks = up_Chunks p, mp_uploadedAt = up_UploadedAt p\<rparr>"

definition applyUploadPart :: "u64 \<Rightarrow> journalUploadPartPayload \<Rightarrow> namespace \<Rightarrow> err + namespace" where
  "applyUploadPart seq p ns =
     (case fmlookup (ns_uploads ns) (up_UploadID p) of
        None \<Rightarrow> Inl (ErrReplayUnknownUpload seq)
      | Some up \<Rightarrow>
          Inr (ns\<lparr>ns_uploads := fmupd (up_UploadID p)
                 (up\<lparr>mu_parts := fmupd (up_PartNumber p) (newPart p) (mu_parts up)\<rparr>) (ns_uploads ns)\<rparr>))"

definition applyAbortMultipart :: "u64 \<Rightarrow> journalAbortMultipartPayload \<Rightarrow> namespace \<Rightarrow> err + namespace" where
  "applyAbortMultipart seq p ns =
     (case fmlookup (ns_uploads ns) (am_UploadID p) of
        None \<Rightarrow> Inl (ErrReplayUnknownUpload seq)
      | Some _ \<Rightarrow> Inr (ns\<lparr>ns_uploads := fmdrop (am_UploadID p) (ns_uploads ns)\<rparr>))"

definition applyCompleteMultipart ::
  "u64 \<Rightarrow> journalCompleteMultipartPayload \<Rightarrow> namespace \<Rightarrow> err + namespace" where
  "applyCompleteMultipart seq p ns =
     (case fmlookup (ns_buckets ns) (pp_Bucket p) of
        None \<Rightarrow> Inl (ErrReplayUnknownBucket seq)
      | Some b \<Rightarrow>
          if fmlookup (ns_uploads ns) (co_UploadID p) = None then Inl (ErrReplayUnknownUpload seq)
          else (case decodeHexSHA256 (pp_ManifestSHA256 p) of
             None \<Rightarrow> Inl ErrBadDigest
           | Some dg \<Rightarrow>
               let ns1 = setObject (pp_Bucket p) b (pp_Key p) (putEntry p dg seq) ns
               in Inr (ns1\<lparr>ns_uploads := fmdrop (co_UploadID p) (ns_uploads ns1)\<rparr>)))"

definition archivePrevious ::
  "string \<Rightarrow> string \<Rightarrow> u64 \<Rightarrow> journalArchivedVersionPayload option \<Rightarrow> namespace \<Rightarrow> err + namespace" where
  "archivePrevious bucket key seq prev ns =
     (case prev of None \<Rightarrow> Inr ns | Some p \<Rightarrow> archiveVersionLocked bucket key seq p ns)"

definition applyPutObjectRootV2 :: "u64 \<Rightarrow> journalPutPayloadV2 \<Rightarrow> namespace \<Rightarrow> err + namespace" where
  "applyPutObjectRootV2 seq p ns =
     (case fmlookup (ns_buckets ns) (pp_Bucket p) of
        None \<Rightarrow> Inl (ErrReplayUnknownBucket seq)
      | Some b \<Rightarrow>
          (case decodeHexSHA256 (pp_ManifestSHA256 p) of
             None \<Rightarrow> Inl ErrBadDigest
           | Some dg \<Rightarrow>
               bind_result (archivePrevious (pp_Bucket p) (pp_Key p) seq (p2_Previous p) ns)
                 (\<lambda>ns1. Inr (setObject (pp_Bucket p) b (pp_Key p) (putEntry p dg seq) ns1))))"

definition applyCompleteMultipartV2 ::
  "u64 \<Rightarrow> journalCompleteMultipartPayloadV2 \<Rightarrow> namespace \<Rightarrow> err + namespace" where
  "applyCompleteMultipartV2 seq p ns =
     (case fmlookup (ns_buckets ns) (pp_Bucket p) of
        None \<Rightarrow> Inl (ErrReplayUnknownBucket seq)
      | Some b \<Rightarrow>
          if fmlookup (ns_uploads ns) (co_UploadID p) = None then Inl (ErrReplayUnknownUpload seq)
          else (case decodeHexSHA256 (pp_ManifestSHA256 p) of
             None \<Rightarrow> Inl ErrBadDigest
           | Some dg \<Rightarrow>
               bind_result (archivePrevious (pp_Bucket p) (pp_Key p) seq (c2_Previous p) ns)
                 (\<lambda>ns1. let ns2 = setObject (pp_Bucket p) b (pp_Key p) (putEntry p dg seq) ns1
                   in Inr (ns2\<lparr>ns_uploads := fmdrop (co_UploadID p) (ns_uploads ns2)\<rparr>))))"

definition applyDeleteObjectRootV2 ::
  "u64 \<Rightarrow> journalDeleteObjectPayloadV2 \<Rightarrow> namespace \<Rightarrow> err + namespace" where
  "applyDeleteObjectRootV2 seq p ns =
     (case fmlookup (ns_buckets ns) (do_Bucket p) of
        None \<Rightarrow> Inl (ErrReplayUnknownBucket seq)
      | Some b \<Rightarrow>
          bind_result (archiveVersionLocked (do_Bucket p) (do_Key p) seq (d2_Archived p) ns)
            (\<lambda>ns1. Inr (dropObject (do_Bucket p) b (do_Key p) ns1)))"

definition applyPruneHistory :: "journalPruneHistoryPayload \<Rightarrow> namespace \<Rightarrow> err + namespace" where
  "applyPruneHistory p ns =
     bind_result (parsePruneHistoryPayload p) (\<lambda>q. Inr (snd (removeHistoryLocked q ns)))"

fun applyPayload :: "u64 \<Rightarrow> payload \<Rightarrow> namespace \<Rightarrow> err + namespace" where
  "applyPayload seq (CreateBucketP p) ns = applyCreateBucket p ns"
| "applyPayload seq (PutP p) ns = applyPutObjectRoot seq p ns"
| "applyPayload seq (DeleteObjectP p) ns = applyDeleteObjectRoot seq p ns"
| "applyPayload seq (DeleteBucketP p) ns = applyDeleteBucket seq p ns"
| "applyPayload seq (CreateMultipartP p) ns = applyCreateMultipart p ns"
| "applyPayload seq (UploadPartP p) ns = applyUploadPart seq p ns"
| "applyPayload seq (AbortMultipartP p) ns = applyAbortMultipart seq p ns"
| "applyPayload seq (CompleteMultipartP p) ns = applyCompleteMultipart seq p ns"
| "applyPayload seq (PutV2P p) ns = applyPutObjectRootV2 seq p ns"
| "applyPayload seq (CompleteMultipartV2P p) ns = applyCompleteMultipartV2 seq p ns"
| "applyPayload seq (DeleteObjectV2P p) ns = applyDeleteObjectRootV2 seq p ns"
| "applyPayload seq (PruneHistoryP p) ns = applyPruneHistory p ns"

definition applyRecord :: "json_codec \<Rightarrow> journalRecord \<Rightarrow> namespace \<Rightarrow> err + namespace" where
  "applyRecord J r ns =
     (if \<not> known_record_type (jr_type r) then Inl (ErrReplayRecordType (jr_seq r) (jr_type r))
      else case json_unmarshal J (jr_type r) (jr_payload r) of
        None \<Rightarrow> Inl (ErrReplayPayload (jr_seq r))
      | Some p \<Rightarrow> applyPayload (jr_seq r) p ns)"

lemma applyRecord_marshalled:
  assumes "json_ok J" "payload_utf8 p" "json_marshal J p = Some b"
  shows "applyRecord J \<lparr>jr_seq = seq, jr_type = record_type_of p, jr_payload = b\<rparr> ns
    = applyPayload seq p ns"
  using json_okD [OF assms] by (simp add: applyRecord_def)

section \<open>A concrete codec\<close>

text \<open>
  A finite codec that meets \<open>json_ok\<close>: it encodes the payloads of a table by their
  position and refuses (as a failing \<^verbatim>\<open>json.Marshal\<close> does) everything else.
\<close>

fun payload_index :: "payload list \<Rightarrow> payload \<Rightarrow> nat option" where
  "payload_index [] p = None"
| "payload_index (q # qs) p = (if q = p then Some 0 else map_option Suc (payload_index qs p))"

definition table_codec :: "payload list \<Rightarrow> json_codec" where
  "table_codec ps =
     \<lparr>json_marshal = (\<lambda>p. case payload_index (take 256 ps) (coerce_payload p) of
          None \<Rightarrow> None | Some i \<Rightarrow> Some [word_of_nat i]),
      json_unmarshal = (\<lambda>t b. case b of
          [i] \<Rightarrow> if unat i < length ps \<and> record_type_of (ps ! unat i) = t then Some (ps ! unat i) else None
        | _ \<Rightarrow> None)\<rparr>"

lemma payload_index_Some: "payload_index ps p = Some i \<Longrightarrow> i < length ps \<and> ps ! i = p"
  by (induction ps arbitrary: i) (auto split: if_splits)

lemma record_type_coerce [simp]: "record_type_of (coerce_payload p) = record_type_of p"
  by (cases p) simp_all

lemma json_ok_table [simp]: "json_ok (table_codec ps)"
  unfolding json_ok_def
proof (intro allI impI)
  fix p b
  assume "json_marshal (table_codec ps) p = Some b"
  then obtain i where i: "payload_index (take 256 ps) (coerce_payload p) = Some i"
    and b: "b = [word_of_nat i]"
    by (auto simp: table_codec_def split: option.splits)
  from payload_index_Some [OF i] have lt: "i < 256" "i < length ps" and p: "ps ! i = coerce_payload p"
    by auto
  have "unat (word_of_nat i :: byte) = i"
    using lt by (simp only: unat_byte_of_nat) simp
  then show "json_unmarshal (table_codec ps) (record_type_of p) b = Some (coerce_payload p)"
    using lt p by (simp add: table_codec_def b)
qed

end
