(* ===== verification/Store.thy ===== *)
theory Store
  imports Namespace
begin

text \<open>
  The store's bucket and object operations (\<^verbatim>\<open>zeros3.go\<close>, section 7): each validates
  against the in-memory namespace, appends one journal record and only then updates the
  namespace. An operation runs under \<^verbatim>\<open>Store.mu\<close>, so it is one atomic step here; it
  takes the environment \<open>env\<close> (the clock, the fresh UUID and what the disk does to the
  append) and returns its result and the new store. \<open>store_consistent\<close> says that the
  journal on disk reconstructs the namespace in memory, and every operation keeps it.
\<close>

section \<open>State\<close>

record storeFormat =
  sf_StoreFormatVersion :: int
  sf_CDCFormatVersion :: int
  sf_HashAlgorithm :: string
  sf_StoreID :: string

record store =
  s_format :: storeFormat
  s_journal :: journal
  s_ns :: namespace

record env =
  e_now :: time
  e_uuid :: string
  e_io :: append_io

record manifestV1 =
  man_ManifestFormatVersion :: int
  man_CDCFormatVersion :: int
  man_HashAlgorithm :: string
  man_ManifestUUID :: string
  man_TotalLength :: int
  man_Chunks :: "chunkRef list"
  man_ObjectSHA256 :: string
  man_ETag :: string
  man_ContentType :: string
  man_Metadata :: "metadataKV list"
  man_CreatedAt :: time
  man_VersionID :: string

text \<open>\<^verbatim>\<open>json.Marshal\<close> of a payload followed by \<^verbatim>\<open>journal.appendFrame\<close>, as every operation does it.\<close>

definition appendRecord ::
  "json_codec \<Rightarrow> append_io \<Rightarrow> payload \<Rightarrow> store \<Rightarrow> (err + u64) \<times> store" where
  "appendRecord J io p s =
     (case json_marshal J p of
        None \<Rightarrow> (Inl ErrMarshal, s)
      | Some b \<Rightarrow>
          (case appendFrame (s_journal s) (record_type_of p) b io of
             (Inl e, j) \<Rightarrow> (Inl (ErrJournal e), s\<lparr>s_journal := j\<rparr>)
           | (Inr seq, j) \<Rightarrow> (Inr seq, s\<lparr>s_journal := j\<rparr>)))"

section \<open>Buckets\<close>

definition CreateBucket :: "json_codec \<Rightarrow> env \<Rightarrow> string \<Rightarrow> store \<Rightarrow> (err + unit) \<times> store" where
  "CreateBucket J ev name s =
     (if name = [] then (Inl ErrInvalidBucketName, s)
      else case fmlookup (ns_buckets (s_ns s)) name of
        Some _ \<Rightarrow> (Inr (), s)
      | None \<Rightarrow>
          (case appendRecord J (e_io ev)
                  (CreateBucketP \<lparr>cb_Bucket = name, cb_CreatedAt = e_now ev\<rparr>) s of
             (Inl e, s1) \<Rightarrow> (Inl e, s1)
           | (Inr seq, s1) \<Rightarrow>
               (Inr (), s1\<lparr>s_ns := (s_ns s1)\<lparr>ns_buckets :=
                  fmupd name (newBucket name (e_now ev)) (ns_buckets (s_ns s1))\<rparr>\<rparr>)))"

definition ListBuckets :: "store \<Rightarrow> (string \<times> time) list" where
  "ListBuckets s =
     map (\<lambda>n. (n, case fmlookup (ns_buckets (s_ns s)) n of Some b \<Rightarrow> be_createdAt b | None \<Rightarrow> 0))
       (sorted_keys (ns_buckets (s_ns s)))"

definition HeadBucket :: "string \<Rightarrow> store \<Rightarrow> err + unit" where
  "HeadBucket name s =
     (case fmlookup (ns_buckets (s_ns s)) name of None \<Rightarrow> Inl ErrNoSuchBucket | Some _ \<Rightarrow> Inr ())"

definition bucketHasUpload :: "string \<Rightarrow> namespace \<Rightarrow> bool" where
  "bucketHasUpload name ns \<longleftrightarrow>
     list_ex (\<lambda>u. case fmlookup (ns_uploads ns) u of Some up \<Rightarrow> mu_bucket up = name | None \<Rightarrow> False)
       (sorted_keys (ns_uploads ns))"

definition DeleteBucket :: "json_codec \<Rightarrow> env \<Rightarrow> string \<Rightarrow> store \<Rightarrow> (err + unit) \<times> store" where
  "DeleteBucket J ev name s =
     (case fmlookup (ns_buckets (s_ns s)) name of
        None \<Rightarrow> (Inl ErrNoSuchBucket, s)
      | Some b \<Rightarrow>
          if be_objects b \<noteq> fmempty then (Inl ErrBucketNotEmpty, s)
          else if bucketHasUpload name (s_ns s) then (Inl ErrBucketNotEmpty, s)
          else (case appendRecord J (e_io ev) (DeleteBucketP \<lparr>db_Bucket = name\<rparr>) s of
             (Inl e, s1) \<Rightarrow> (Inl e, s1)
           | (Inr seq, s1) \<Rightarrow>
               (Inr (), s1\<lparr>s_ns := (s_ns s1)\<lparr>ns_buckets := fmdrop name (ns_buckets (s_ns s1))\<rparr>\<rparr>)))"

section \<open>Objects\<close>

definition archivedVersionPayload :: "env \<Rightarrow> objectEntry \<Rightarrow> string \<Rightarrow> journalArchivedVersionPayload" where
  "archivedVersionPayload ev cur reason =
     \<lparr>av_VersionID = e_uuid ev, av_ManifestUUID = oe_manifestUUID cur,
      av_ManifestSHA256 = hex_encode (digest_bytes (oe_manifestSHA256 cur)),
      av_Size = oe_size cur, av_ETag = oe_etag cur, av_ContentType = oe_contentType cur,
      av_ArchivedAt = e_now ev, av_Reason = reason\<rparr>"

definition DeleteObject :: "json_codec \<Rightarrow> env \<Rightarrow> string \<Rightarrow> string \<Rightarrow> store \<Rightarrow> (err + unit) \<times> store" where
  "DeleteObject J ev bucket key s =
     (case fmlookup (ns_buckets (s_ns s)) bucket of
        None \<Rightarrow> (Inl ErrNoSuchBucket, s)
      | Some b \<Rightarrow>
          (case fmlookup (be_objects b) key of
             None \<Rightarrow> (Inr (), s)
           | Some cur \<Rightarrow>
               let archived = archivedVersionPayload ev cur historyReasonDeleted in
               (case appendRecord J (e_io ev)
                       (DeleteObjectV2P \<lparr>do_Bucket = bucket, do_Key = key, d2_Archived = archived\<rparr>) s of
                  (Inl e, s1) \<Rightarrow> (Inl e, s1)
                | (Inr seq, s1) \<Rightarrow>
                    let ns1 = dropObject bucket b key (s_ns s1) in
                    (case archiveVersionLocked bucket key seq archived ns1 of
                       Inl e \<Rightarrow> (Inl e, s1\<lparr>s_ns := ns1\<rparr>)
                     | Inr ns2 \<Rightarrow> (Inr (), s1\<lparr>s_ns := ns2\<rparr>)))))"

definition commitObjectRootChecked ::
  "json_codec \<Rightarrow> env \<Rightarrow> string \<Rightarrow> string \<Rightarrow> string \<Rightarrow> digest \<Rightarrow> manifestV1
    \<Rightarrow> (objectEntry option \<Rightarrow> err + unit) option \<Rightarrow> store \<Rightarrow> (err + objectEntry) \<times> store" where
  "commitObjectRootChecked J ev bucket key manUUID manSHA man check s =
     (case fmlookup (ns_buckets (s_ns s)) bucket of
        None \<Rightarrow> (Inl ErrNoSuchBucket, s)
      | Some b \<Rightarrow>
          let cur = fmlookup (be_objects b) key in
          (case (case check of None \<Rightarrow> Inr () | Some c \<Rightarrow> c cur) of
             Inl e \<Rightarrow> (Inl e, s)
           | Inr _ \<Rightarrow>
               let prev = map_option (\<lambda>c. archivedVersionPayload ev c historyReasonOverwritten) cur in
               (case appendRecord J (e_io ev)
                       (PutV2P \<lparr>pp_Bucket = bucket, pp_Key = key, pp_ManifestUUID = manUUID,
                          pp_ManifestSHA256 = hex_encode (digest_bytes manSHA),
                          pp_Size = man_TotalLength man, pp_ETag = man_ETag man,
                          pp_ContentType = man_ContentType man, pp_VersionID = man_VersionID man,
                          p2_Previous = prev\<rparr>) s of
                  (Inl e, s1) \<Rightarrow> (Inl e, s1)
                | (Inr seq, s1) \<Rightarrow>
                    let entry = \<lparr>oe_manifestUUID = manUUID, oe_manifestSHA256 = manSHA,
                                 oe_size = man_TotalLength man, oe_etag = man_ETag man,
                                 oe_contentType = man_ContentType man, oe_seq = seq\<rparr>;
                        ns1 = setObject bucket b key entry (s_ns s1) in
                    (case archivePrevious bucket key seq prev ns1 of
                       Inl e \<Rightarrow> (Inl e, s1\<lparr>s_ns := ns1\<rparr>)
                     | Inr ns2 \<Rightarrow> (Inr entry, s1\<lparr>s_ns := ns2\<rparr>)))))"

definition commitObjectRoot ::
  "json_codec \<Rightarrow> env \<Rightarrow> string \<Rightarrow> string \<Rightarrow> string \<Rightarrow> digest \<Rightarrow> manifestV1 \<Rightarrow> store
    \<Rightarrow> (err + objectEntry) \<times> store" where
  "commitObjectRoot J ev bucket key manUUID manSHA man s =
     commitObjectRootChecked J ev bucket key manUUID manSHA man None s"

definition lookupObject :: "string \<Rightarrow> string \<Rightarrow> store \<Rightarrow> err + objectEntry" where
  "lookupObject bucket key s =
     (case fmlookup (ns_buckets (s_ns s)) bucket of
        None \<Rightarrow> Inl ErrNoSuchBucket
      | Some b \<Rightarrow> (case fmlookup (be_objects b) key of None \<Rightarrow> Inl ErrNoSuchKey | Some e \<Rightarrow> Inr e))"

section \<open>Valid UTF-8\<close>

lemma utf8_rune_ascii: "of_char a < (128::nat) \<Longrightarrow> utf8_rune (a # s) = 1"
  by (simp add: Let_def)

lemma utf8_valid_ascii: "list_all (\<lambda>c. of_char c < (128::nat)) s \<Longrightarrow> utf8_valid s"
  unfolding utf8_valid_def
  by (induction s) (simp_all add: utf8_coerce.simps(2) utf8_rune_ascii Let_def)

lemma hex_digit_ascii: "n < 16 \<Longrightarrow> of_char (hex_digit n) < (128::nat)"
  by (simp add: hex_digit_def)

lemma utf8_valid_hex [simp]: "utf8_valid (hex_encode bs)"
proof (rule utf8_valid_ascii)
  show "list_all (\<lambda>c. of_char c < (128::nat)) (hex_encode bs)"
  proof (induction bs)
    case (Cons b bs)
    have "unat b < 256" by simp
    then have "unat b div 16 < 16" "unat b mod 16 < 16" by linarith+
    with Cons show ?case by (simp add: hex_digit_ascii)
  qed simp
qed

lemma utf8_valid_reasons [simp]:
  "utf8_valid historyReasonOverwritten" "utf8_valid historyReasonDeleted"
  by (rule utf8_valid_ascii; simp add: historyReasonOverwritten_def historyReasonDeleted_def)+

lemma payload_utf8_CreateBucket [simp]:
  "payload_utf8 (CreateBucketP p) \<longleftrightarrow> utf8_valid (cb_Bucket p)"
  by (cases p) (simp add: payload_utf8_def utf8_valid_def)

lemma payload_utf8_DeleteBucket [simp]:
  "payload_utf8 (DeleteBucketP p) \<longleftrightarrow> utf8_valid (db_Bucket p)"
  by (cases p) (simp add: payload_utf8_def utf8_valid_def)

definition archived_utf8 :: "journalArchivedVersionPayload \<Rightarrow> bool" where
  "archived_utf8 a \<longleftrightarrow> coerce_archived a = a"

definition entry_utf8 :: "objectEntry \<Rightarrow> bool" where
  "entry_utf8 e \<longleftrightarrow> utf8_valid (oe_manifestUUID e) \<and> utf8_valid (oe_etag e) \<and> utf8_valid (oe_contentType e)"

lemma archived_utf8_payload:
  "entry_utf8 cur \<Longrightarrow> utf8_valid (e_uuid ev) \<Longrightarrow> utf8_valid reason
    \<Longrightarrow> archived_utf8 (archivedVersionPayload ev cur reason)"
  by (simp add: archived_utf8_def archivedVersionPayload_def coerce_archived_def entry_utf8_def
      utf8_valid_def [symmetric])

lemma payload_utf8_DeleteObjectV2:
  "utf8_valid b \<Longrightarrow> utf8_valid k \<Longrightarrow> archived_utf8 a
    \<Longrightarrow> payload_utf8 (DeleteObjectV2P \<lparr>do_Bucket = b, do_Key = k, d2_Archived = a\<rparr>)"
  by (simp add: payload_utf8_def utf8_valid_def archived_utf8_def)

lemma payload_utf8_PutV2:
  assumes "utf8_valid b" "utf8_valid k" "utf8_valid u" "utf8_valid et" "utf8_valid ct" "utf8_valid v"
    and "case prev of None \<Rightarrow> True | Some a \<Rightarrow> archived_utf8 a"
  shows "payload_utf8 (PutV2P \<lparr>pp_Bucket = b, pp_Key = k, pp_ManifestUUID = u,
     pp_ManifestSHA256 = hex_encode d, pp_Size = n, pp_ETag = et, pp_ContentType = ct,
     pp_VersionID = v, p2_Previous = prev\<rparr>)"
  using assms utf8_valid_hex [of d]
  by (auto simp: payload_utf8_def utf8_valid_def archived_utf8_def coerce_put_def split: option.splits)

section \<open>The journal reconstructs the namespace\<close>

text \<open>The records the store writes: a payload of valid strings, marshalled under its type.\<close>

definition marshalled :: "json_codec \<Rightarrow> journalRecord \<Rightarrow> bool" where
  "marshalled J r \<longleftrightarrow> (\<exists>p. payload_utf8 p \<and> json_marshal J p = Some (jr_payload r)
     \<and> jr_type r = record_type_of p)"

lemma marshalledI:
  "payload_utf8 p \<Longrightarrow> json_marshal J p = Some b
    \<Longrightarrow> marshalled J \<lparr>jr_seq = seq, jr_type = record_type_of p, jr_payload = b\<rparr>"
  by (auto simp: marshalled_def)

interpretation nsj: journalled_state appendFrame journal_recovered journal_acked j_nextSeq
  journal_healthy journal_inv journal_reopen "applyRecord J" empty_namespace "marshalled J" for J
  by unfold_locales

definition store_consistent :: "json_codec \<Rightarrow> store \<Rightarrow> bool" where
  "store_consistent J s \<longleftrightarrow> nsj.consistent J (s_journal s) (s_ns s)"

definition namespace_utf8 :: "namespace \<Rightarrow> bool" where
  "namespace_utf8 ns \<longleftrightarrow> (\<forall>b be k e. fmlookup (ns_buckets ns) b = Some be
     \<longrightarrow> fmlookup (be_objects be) k = Some e \<longrightarrow> entry_utf8 e)"

lemma namespace_utf8D:
  "namespace_utf8 ns \<Longrightarrow> fmlookup (ns_buckets ns) b = Some be \<Longrightarrow> fmlookup (be_objects be) k = Some e
    \<Longrightarrow> entry_utf8 e"
  by (auto simp: namespace_utf8_def)

text \<open>
  The one lemma every operation goes through: an append of a record that replay would
  accept keeps the journal and the namespace in step, whether it succeeds or fails.
\<close>

lemma appendRecord_frame:
  "appendRecord J io p s = (r, s1) \<Longrightarrow> s_ns s1 = s_ns s \<and> s_format s1 = s_format s"
  by (auto simp: appendRecord_def split: option.splits prod.splits sum.splits)

lemma appendRecord_err:
  assumes "json_ok J" "payload_utf8 p" "store_consistent J s"
    and "\<And>seq. \<exists>ns'. applyPayload seq p (s_ns s) = Inr ns'"
    and "appendRecord J io p s = (Inl e, s1)"
  shows "store_consistent J s1"
proof (cases "json_marshal J p")
  case None
  with assms(3,5) show ?thesis by (simp add: appendRecord_def)
next
  case (Some b)
  with assms(5) obtain e' j where a: "appendFrame (s_journal s) (record_type_of p) b io = (Inl e', j)"
    and s1: "s1 = s\<lparr>s_journal := j\<rparr>"
    by (auto simp: appendRecord_def split: prod.splits sum.splits)
  have "\<exists>ns'. applyRecord J \<lparr>jr_seq = j_nextSeq (s_journal s), jr_type = record_type_of p, jr_payload = b\<rparr>
      (s_ns s) = Inr ns'"
    using assms(4) by (simp add: applyRecord_marshalled [OF assms(1,2) Some])
  then have "nsj.consistent J j (s_ns s)"
    by (rule nsj.commit_err [OF assms(3) [unfolded store_consistent_def] known_record_type_of a
        marshalledI [OF assms(2) Some]])
  then show ?thesis by (simp add: s1 store_consistent_def)
qed

lemma appendRecord_ok:
  assumes "json_ok J" "payload_utf8 p" "store_consistent J s"
    and "appendRecord J io p s = (Inr seq, s1)" and "applyPayload seq p (s_ns s) = Inr ns'"
  shows "store_consistent J (s1\<lparr>s_ns := ns'\<rparr>)"
proof -
  obtain b j where m: "json_marshal J p = Some b"
    and a: "appendFrame (s_journal s) (record_type_of p) b io = (Inr seq, j)"
    and s1: "s1 = s\<lparr>s_journal := j\<rparr>"
    using assms(4) by (auto simp: appendRecord_def split: option.splits prod.splits sum.splits)
  have "applyRecord J \<lparr>jr_seq = seq, jr_type = record_type_of p, jr_payload = b\<rparr> (s_ns s) = Inr ns'"
    using assms(5) by (simp add: applyRecord_marshalled [OF assms(1,2) m])
  then have "nsj.consistent J j ns'"
    by (rule nsj.commit_ok [OF assms(3) [unfolded store_consistent_def] known_record_type_of a
        marshalledI [OF assms(2) m]])
  then show ?thesis by (simp add: s1 store_consistent_def)
qed

text \<open>
  What every operation is to the journal, as a function of the behaviour of the disk under
  its append: either it appends nothing and changes nothing, or it appends one record that
  replay accepts, leaves the store alone if the append fails, and makes the change of that
  record if it succeeds.
\<close>

definition journals :: "json_codec \<Rightarrow> store \<Rightarrow> (append_io \<Rightarrow> store) \<Rightarrow> bool" where
  "journals J s run \<longleftrightarrow> (\<forall>io. run io = s)
     \<or> (\<exists>p f. payload_utf8 p \<and> (\<forall>seq. applyPayload seq p (s_ns s) = Inr (f seq))
          \<and> (\<forall>io. run io = (case appendRecord J io p s of
               (Inl e, s1) \<Rightarrow> s1 | (Inr seq, s1) \<Rightarrow> s1\<lparr>s_ns := f seq\<rparr>)))"

lemma journals_idle: "(\<And>io. run io = s) \<Longrightarrow> journals J s run"
  by (simp add: journals_def)

lemma journalsI:
  assumes "payload_utf8 p" and ok: "\<And>seq. \<exists>ns'. applyPayload seq p (s_ns s) = Inr ns'"
    and err: "\<And>io e s1. appendRecord J io p s = (Inl e, s1) \<Longrightarrow> run io = s1"
    and post: "\<And>io seq s1 ns'. appendRecord J io p s = (Inr seq, s1) \<Longrightarrow> s_ns s1 = s_ns s
        \<Longrightarrow> applyPayload seq p (s_ns s) = Inr ns' \<Longrightarrow> run io = s1\<lparr>s_ns := ns'\<rparr>"
  shows "journals J s run"
proof -
  obtain f where f: "\<forall>seq. applyPayload seq p (s_ns s) = Inr (f seq)" using ok by metis
  moreover have "run io = (case appendRecord J io p s of
      (Inl e, s1) \<Rightarrow> s1 | (Inr seq, s1) \<Rightarrow> s1\<lparr>s_ns := f seq\<rparr>)" for io
  proof (cases "appendRecord J io p s")
    case (Pair q s1)
    with f err post show ?thesis by (cases q) (simp_all add: appendRecord_frame)
  qed
  ultimately show ?thesis using assms(1) unfolding journals_def by blast
qed

lemma journals_consistent:
  assumes "journals J s run" "json_ok J" "store_consistent J s"
  shows "store_consistent J (run io)"
  using assms(1) unfolding journals_def
proof (elim disjE exE conjE)
  fix p f
  assume u: "payload_utf8 p" and f: "\<forall>seq. applyPayload seq p (s_ns s) = Inr (f seq)"
    and run: "\<forall>io. run io = (case appendRecord J io p s of
      (Inl e, s1) \<Rightarrow> s1 | (Inr seq, s1) \<Rightarrow> s1\<lparr>s_ns := f seq\<rparr>)"
  obtain q s1 where ar: "appendRecord J io p s = (q, s1)" by fastforce
  then show ?thesis
    using appendRecord_err [OF assms(2) u assms(3)] appendRecord_ok [OF assms(2) u assms(3)] f run
    by (cases q) auto
qed (use assms(3) in simp)

lemma env_io [simp]: "ev\<lparr>e_io := e_io ev\<rparr> = ev"
  by simp

lemma archivedVersionPayload_io [simp]:
  "archivedVersionPayload (ev\<lparr>e_io := io\<rparr>) cur reason = archivedVersionPayload ev cur reason"
  by (simp add: archivedVersionPayload_def)

subsection \<open>Each operation keeps it\<close>

lemma CreateBucket_journals:
  assumes "utf8_valid name"
  shows "journals J s (\<lambda>io. snd (CreateBucket J (ev\<lparr>e_io := io\<rparr>) name s))"
proof (cases "name = [] \<or> fmlookup (ns_buckets (s_ns s)) name \<noteq> None")
  case True
  then show ?thesis by (intro journals_idle) (auto simp: CreateBucket_def)
next
  case False
  let ?p = "CreateBucketP \<lparr>cb_Bucket = name, cb_CreatedAt = e_now ev\<rparr>"
  have ap: "applyPayload seq ?p (s_ns s)
      = Inr ((s_ns s)\<lparr>ns_buckets := fmupd name (newBucket name (e_now ev)) (ns_buckets (s_ns s))\<rparr>)" for seq
    using False by (simp add: applyCreateBucket_def)
  show ?thesis
    using assms False ap by (intro journalsI [of ?p]) (auto simp: CreateBucket_def)
qed

lemma CreateBucket_consistent:
  assumes "json_ok J" "store_consistent J s" "utf8_valid name" "CreateBucket J ev name s = (r, s')"
  shows "store_consistent J s'"
  using journals_consistent [OF CreateBucket_journals [OF assms(3), of J s ev] assms(1,2), of "e_io ev"] assms(4)
  by simp

lemma DeleteBucket_journals:
  assumes "utf8_valid name"
  shows "journals J s (\<lambda>io. snd (DeleteBucket J (ev\<lparr>e_io := io\<rparr>) name s))"
proof (cases "\<exists>b. fmlookup (ns_buckets (s_ns s)) name = Some b \<and> be_objects b = fmempty
    \<and> \<not> bucketHasUpload name (s_ns s)")
  case False
  then show ?thesis by (intro journals_idle) (auto simp: DeleteBucket_def split: option.splits if_splits)
next
  case True
  let ?p = "DeleteBucketP \<lparr>db_Bucket = name\<rparr>"
  have ap: "applyPayload seq ?p (s_ns s)
      = Inr ((s_ns s)\<lparr>ns_buckets := fmdrop name (ns_buckets (s_ns s))\<rparr>)" for seq
    using True by (auto simp: applyDeleteBucket_def)
  show ?thesis
    using assms True ap by (intro journalsI [of ?p]) (auto simp: DeleteBucket_def)
qed

lemma DeleteBucket_consistent:
  assumes "json_ok J" "store_consistent J s" "utf8_valid name" "DeleteBucket J ev name s = (r, s')"
  shows "store_consistent J s'"
  using journals_consistent [OF DeleteBucket_journals [OF assms(3), of J s ev] assms(1,2), of "e_io ev"] assms(4)
  by simp

lemma history_of_setObject [simp, frame_simps]:
  "history_of (setObject bk b k e ns) = history_of ns"
  "history_keys (setObject bk b k e ns) = history_keys ns"
  "history_of (dropObject bk b k ns) = history_of ns"
  "history_keys (dropObject bk b k ns) = history_keys ns"
  by (auto simp: history_of_def history_keys_def setObject_def dropObject_def fun_eq_iff)

lemma archive_setObject:
  "archiveVersionLocked bk k seq p (setObject bk' b k' e ns)
    = map_sum id (setObject bk' b k' e) (archiveVersionLocked bk k seq p ns)"
  by (auto simp: archiveVersionLocked_def setObject_def history_of_def history_keys_def
      split: option.splits)

lemma archive_dropObject:
  "archiveVersionLocked bk k seq p (dropObject bk' b k' ns)
    = map_sum id (dropObject bk' b k') (archiveVersionLocked bk k seq p ns)"
  by (auto simp: archiveVersionLocked_def dropObject_def history_of_def history_keys_def
      split: option.splits)

lemma archivePrevious_setObject:
  "archivePrevious bk k seq prev (setObject bk' b k' e ns)
    = map_sum id (setObject bk' b k' e) (archivePrevious bk k seq prev ns)"
  by (cases prev) (simp_all add: archivePrevious_def archive_setObject)

text \<open>Archiving an entry of the namespace never fails: its digest is well formed.\<close>

lemma archive_payload_ok:
  "\<exists>ns'. archiveVersionLocked bk k seq (archivedVersionPayload ev cur reason) ns = Inr ns'"
  by (simp add: archiveVersionLocked_def archivedVersionPayload_def)

lemma archivePrevious_ok:
  "\<exists>ns'. archivePrevious bk k seq (map_option (\<lambda>c. archivedVersionPayload ev c reason) cur) ns = Inr ns'"
  using archive_payload_ok by (cases cur) (auto simp: archivePrevious_def)

lemma archive_buckets [frame_simps]:
  "archiveVersionLocked bk k seq p ns = Inr ns' \<Longrightarrow> ns_buckets ns' = ns_buckets ns \<and> ns_uploads ns' = ns_uploads ns"
  by (auto simp: archiveVersionLocked_def split: option.splits)

lemma archivePrevious_buckets [frame_simps]:
  "archivePrevious bk k seq prev ns = Inr ns' \<Longrightarrow> ns_buckets ns' = ns_buckets ns \<and> ns_uploads ns' = ns_uploads ns"
  by (auto simp: archivePrevious_def split: option.splits dest: archive_buckets)

lemma DeleteObject_journals:
  assumes "namespace_utf8 (s_ns s)" "utf8_valid bucket" "utf8_valid key" "utf8_valid (e_uuid ev)"
  shows "journals J s (\<lambda>io. snd (DeleteObject J (ev\<lparr>e_io := io\<rparr>) bucket key s))"
proof (cases "\<exists>b cur. fmlookup (ns_buckets (s_ns s)) bucket = Some b \<and> fmlookup (be_objects b) key = Some cur")
  case False
  then show ?thesis by (intro journals_idle) (auto simp: DeleteObject_def split: option.splits)
next
  case True
  then obtain b cur where b: "fmlookup (ns_buckets (s_ns s)) bucket = Some b"
    and cur: "fmlookup (be_objects b) key = Some cur" by blast
  let ?a = "archivedVersionPayload ev cur historyReasonDeleted"
  let ?p = "DeleteObjectV2P \<lparr>do_Bucket = bucket, do_Key = key, d2_Archived = ?a\<rparr>"
  have u: "payload_utf8 ?p"
    using assms namespace_utf8D [OF assms(1) b cur]
    by (intro payload_utf8_DeleteObjectV2 archived_utf8_payload) auto
  have ap: "applyPayload seq ?p (s_ns s)
      = archiveVersionLocked bucket key seq ?a (dropObject bucket b key (s_ns s))" for seq
    using b archive_payload_ok [of bucket key seq ev cur historyReasonDeleted "s_ns s"]
    by (auto simp: applyDeleteObjectRootV2_def archive_dropObject)
  show ?thesis
  proof (rule journalsI [OF u], unfold ap)
    show "\<exists>ns'. archiveVersionLocked bucket key seq ?a (dropObject bucket b key (s_ns s)) = Inr ns'" for seq
      by (rule archive_payload_ok)
  qed (use b cur in \<open>simp_all add: DeleteObject_def Let_def\<close>)
qed

lemma DeleteObject_consistent:
  assumes "json_ok J" "store_consistent J s" "namespace_utf8 (s_ns s)"
    and "utf8_valid bucket" "utf8_valid key" "utf8_valid (e_uuid ev)"
    and "DeleteObject J ev bucket key s = (r, s')"
  shows "store_consistent J s'"
  using journals_consistent [OF DeleteObject_journals [OF assms(3-6), of J] assms(1,2), of "e_io ev"] assms(7)
  by simp

text \<open>What a commit writes to the journal and what it makes of the namespace.\<close>

definition commit_payload ::
  "env \<Rightarrow> string \<Rightarrow> string \<Rightarrow> string \<Rightarrow> digest \<Rightarrow> manifestV1 \<Rightarrow> objectEntry option \<Rightarrow> journalPutPayloadV2" where
  "commit_payload ev bucket key manUUID manSHA man cur =
     \<lparr>pp_Bucket = bucket, pp_Key = key, pp_ManifestUUID = manUUID,
      pp_ManifestSHA256 = hex_encode (digest_bytes manSHA),
      pp_Size = man_TotalLength man, pp_ETag = man_ETag man,
      pp_ContentType = man_ContentType man, pp_VersionID = man_VersionID man,
      p2_Previous = map_option (\<lambda>c. archivedVersionPayload ev c historyReasonOverwritten) cur\<rparr>"

definition manifest_utf8 :: "manifestV1 \<Rightarrow> bool" where
  "manifest_utf8 man \<longleftrightarrow> utf8_valid (man_ETag man) \<and> utf8_valid (man_ContentType man)
     \<and> utf8_valid (man_VersionID man)"

lemma commit_payload_utf8:
  assumes "namespace_utf8 (s_ns s)" "fmlookup (ns_buckets (s_ns s)) bucket = Some b"
    and "utf8_valid bucket" "utf8_valid key" "utf8_valid manUUID" "manifest_utf8 man" "utf8_valid (e_uuid ev)"
  shows "payload_utf8 (PutV2P (commit_payload ev bucket key manUUID manSHA man (fmlookup (be_objects b) key)))"
  unfolding commit_payload_def
  using assms namespace_utf8D [OF assms(1,2)]
  by (intro payload_utf8_PutV2)
     (auto simp: manifest_utf8_def split: option.splits intro!: archived_utf8_payload)

lemma commit_applies:
  assumes "fmlookup (ns_buckets ns) bucket = Some b"
  shows "applyPayload seq (PutV2P (commit_payload ev bucket key manUUID manSHA man cur)) ns
    = archivePrevious bucket key seq (map_option (\<lambda>c. archivedVersionPayload ev c historyReasonOverwritten) cur)
        (setObject bucket b key \<lparr>oe_manifestUUID = manUUID, oe_manifestSHA256 = manSHA,
           oe_size = man_TotalLength man, oe_etag = man_ETag man,
           oe_contentType = man_ContentType man, oe_seq = seq\<rparr> ns)"
  using archivePrevious_ok [of bucket key seq ev historyReasonOverwritten cur ns] assms(1)
  by (auto simp: commit_payload_def applyPutObjectRootV2_def archivePrevious_setObject putEntry_def)

lemma commitObjectRootChecked_journals:
  assumes "namespace_utf8 (s_ns s)"
    and "utf8_valid bucket" "utf8_valid key" "utf8_valid manUUID" "manifest_utf8 man" "utf8_valid (e_uuid ev)"
  shows "journals J s (\<lambda>io. snd (commitObjectRootChecked J (ev\<lparr>e_io := io\<rparr>) bucket key manUUID manSHA man check s))"
proof (cases "fmlookup (ns_buckets (s_ns s)) bucket")
  case None
  then show ?thesis by (intro journals_idle) (simp add: commitObjectRootChecked_def)
next
  case b: (Some b)
  let ?cur = "fmlookup (be_objects b) key"
  let ?p = "PutV2P (commit_payload ev bucket key manUUID manSHA man ?cur)"
  have u: "payload_utf8 ?p" by (rule commit_payload_utf8 [OF assms(1) b assms(2-6)])
  have ok: "\<exists>ns'. applyPayload seq ?p (s_ns s) = Inr ns'" for seq
    unfolding commit_applies [OF b] by (rule archivePrevious_ok)
  show ?thesis
  proof (cases "case check of None \<Rightarrow> Inr () | Some c \<Rightarrow> c ?cur")
    case (Inl e)
    with b show ?thesis by (intro journals_idle) (simp add: commitObjectRootChecked_def)
  next
    case chk: (Inr x)
    show ?thesis
    proof (rule journalsI [OF u ok], unfold commit_applies [OF b])
    qed (use b chk in \<open>simp_all add: commitObjectRootChecked_def Let_def commit_payload_def\<close>)
  qed
qed

lemma commitObjectRootChecked_consistent:
  assumes "json_ok J" "store_consistent J s" "namespace_utf8 (s_ns s)"
    and "utf8_valid bucket" "utf8_valid key" "utf8_valid manUUID" "manifest_utf8 man" "utf8_valid (e_uuid ev)"
    and "commitObjectRootChecked J ev bucket key manUUID manSHA man check s = (r, s')"
  shows "store_consistent J s'"
  using journals_consistent [OF commitObjectRootChecked_journals [OF assms(3-8), of J manSHA check] assms(1,2),
      of "e_io ev"] assms(9)
  by simp

end
