(* ===== verification/Multipart.thy ===== *)
theory Multipart
  imports Store
begin

text \<open>
  Multipart uploads (\<^verbatim>\<open>zeros3.go\<close>, section 11b): the session operations that go through
  the journal, the validation of a completion request and its commit. The code runs a
  completion in two critical sections with the (unlocked) re-chunking of the parts in
  between; \<open>completeValidate\<close> is the first and \<open>completeCommit\<close> the second, so that other
  operations may run between them.
\<close>

section \<open>Metadata\<close>

definition sortedMetadataKV :: "(string, string) fmap \<Rightarrow> metadataKV list" where
  "sortedMetadataKV md =
     map (\<lambda>k. \<lparr>kv_Key = k, kv_Value = (case fmlookup md k of Some v \<Rightarrow> v | None \<Rightarrow> [])\<rparr>) (sorted_keys md)"

lemma fold_fmupd_lookup:
  "fmlookup (fold (\<lambda>kv m. fmupd (kv_Key kv) (kv_Value kv) m)
      (map (\<lambda>k. \<lparr>kv_Key = k, kv_Value = f k\<rparr>) ks) m0) k
    = (if k \<in> set ks then Some (f k) else fmlookup m0 k)"
  by (induction ks arbitrary: m0) auto

lemma flatten_sortedMetadata: "flattenMetadata (sortedMetadataKV md) = md"
proof (rule fmap_ext)
  fix k
  show "fmlookup (flattenMetadata (sortedMetadataKV md)) k = fmlookup md k"
    unfolding flattenMetadata_def sortedMetadataKV_def fold_fmupd_lookup
    by (auto split: option.splits simp: fmlookup_dom_iff)
qed

section \<open>Sessions\<close>

record ingestResult =
  ing_chunks :: "chunkRef list"
  ing_size :: int
  ing_objSHA256 :: digest
  ing_etagMD5 :: bytes

definition CreateMultipartUpload ::
  "json_codec \<Rightarrow> env \<Rightarrow> string \<Rightarrow> string \<Rightarrow> string \<Rightarrow> (string, string) fmap \<Rightarrow> store
    \<Rightarrow> (err + string) \<times> store" where
  "CreateMultipartUpload J ev bucket key contentType metadata s =
     (case fmlookup (ns_buckets (s_ns s)) bucket of
        None \<Rightarrow> (Inl ErrNoSuchBucket, s)
      | Some _ \<Rightarrow>
          let uploadID = e_uuid ev;
              md = sortedMetadataKV metadata in
          (case appendRecord J (e_io ev)
                  (CreateMultipartP \<lparr>cm_UploadID = uploadID, cm_Bucket = bucket, cm_Key = key,
                     cm_ContentType = contentType, cm_Metadata = md, cm_CreatedAt = e_now ev\<rparr>) s of
             (Inl e, s1) \<Rightarrow> (Inl e, s1)
           | (Inr seq, s1) \<Rightarrow>
               (Inr uploadID, s1\<lparr>s_ns := (s_ns s1)\<lparr>ns_uploads := fmupd uploadID
                  \<lparr>mu_uploadID = uploadID, mu_bucket = bucket, mu_key = key,
                   mu_contentType = contentType, mu_metadata = flattenMetadata md,
                   mu_createdAt = e_now ev, mu_parts = fmempty\<rparr> (ns_uploads (s_ns s1))\<rparr>\<rparr>)))"

definition lookupUploadLocked :: "string \<Rightarrow> string \<Rightarrow> string \<Rightarrow> namespace \<Rightarrow> err + multipartUpload" where
  "lookupUploadLocked bucket key uploadID ns =
     (case fmlookup (ns_uploads ns) uploadID of
        None \<Rightarrow> Inl ErrNoSuchUpload
      | Some up \<Rightarrow> if mu_bucket up \<noteq> bucket \<or> mu_key up \<noteq> key then Inl ErrNoSuchUpload else Inr up)"

definition requireUpload :: "string \<Rightarrow> string \<Rightarrow> string \<Rightarrow> store \<Rightarrow> err + unit" where
  "requireUpload bucket key uploadID s =
     bind_result (lookupUploadLocked bucket key uploadID (s_ns s)) (\<lambda>_. Inr ())"

definition partPayload :: "env \<Rightarrow> string \<Rightarrow> int \<Rightarrow> ingestResult \<Rightarrow> journalUploadPartPayload" where
  "partPayload ev uploadID partNumber ing =
     \<lparr>up_UploadID = uploadID, up_PartNumber = partNumber, up_Size = ing_size ing,
      up_ETag = hex_encode (ing_etagMD5 ing), up_Chunks = ing_chunks ing, up_UploadedAt = e_now ev\<rparr>"

definition commitPart ::
  "json_codec \<Rightarrow> env \<Rightarrow> string \<Rightarrow> string \<Rightarrow> string \<Rightarrow> int \<Rightarrow> ingestResult \<Rightarrow> store
    \<Rightarrow> (err + string) \<times> store" where
  "commitPart J ev bucket key uploadID partNumber ing s =
     (if json_marshal J (UploadPartP (partPayload ev uploadID partNumber ing)) = None then (Inl ErrMarshal, s)
      else case lookupUploadLocked bucket key uploadID (s_ns s) of
        Inl e \<Rightarrow> (Inl e, s)
      | Inr up \<Rightarrow>
          (case appendRecord J (e_io ev) (UploadPartP (partPayload ev uploadID partNumber ing)) s of
             (Inl e, s1) \<Rightarrow> (Inl e, s1)
           | (Inr seq, s1) \<Rightarrow>
               (Inr (hex_encode (ing_etagMD5 ing)),
                s1\<lparr>s_ns := (s_ns s1)\<lparr>ns_uploads := fmupd uploadID
                  (up\<lparr>mu_parts := fmupd partNumber
                     \<lparr>mp_partNumber = partNumber, mp_size = ing_size ing,
                      mp_etag = hex_encode (ing_etagMD5 ing), mp_chunks = ing_chunks ing,
                      mp_uploadedAt = e_now ev\<rparr> (mu_parts up)\<rparr>) (ns_uploads (s_ns s1))\<rparr>\<rparr>)))"

definition AbortMultipartUpload ::
  "json_codec \<Rightarrow> env \<Rightarrow> string \<Rightarrow> string \<Rightarrow> string \<Rightarrow> store \<Rightarrow> (err + unit) \<times> store" where
  "AbortMultipartUpload J ev bucket key uploadID s =
     (case lookupUploadLocked bucket key uploadID (s_ns s) of
        Inl e \<Rightarrow> (Inl e, s)
      | Inr _ \<Rightarrow>
          (case appendRecord J (e_io ev) (AbortMultipartP \<lparr>am_UploadID = uploadID\<rparr>) s of
             (Inl e, s1) \<Rightarrow> (Inl e, s1)
           | (Inr seq, s1) \<Rightarrow>
               (Inr (), s1\<lparr>s_ns := (s_ns s1)\<lparr>ns_uploads := fmdrop uploadID (ns_uploads (s_ns s1))\<rparr>\<rparr>)))"

section \<open>Listing parts\<close>

definition ListParts :: "string \<Rightarrow> string \<Rightarrow> string \<Rightarrow> store \<Rightarrow> err + multipartPart list" where
  "ListParts bucket key uploadID s =
     bind_result (lookupUploadLocked bucket key uploadID (s_ns s))
       (\<lambda>up. Inr (List.map_filter (fmlookup (mu_parts up)) (sorted_keys (mu_parts up))))"

record listPartsPage =
  lp_parts :: "multipartPart list"
  lp_truncated :: bool
  lp_nextPartNumberMarker :: int

definition empty_parts_page :: listPartsPage where
  "empty_parts_page = \<lparr>lp_parts = [], lp_truncated = False, lp_nextPartNumberMarker = 0\<rparr>"

definition ListPartsPage ::
  "string \<Rightarrow> string \<Rightarrow> string \<Rightarrow> int \<Rightarrow> int \<Rightarrow> store \<Rightarrow> err + listPartsPage" where
  "ListPartsPage bucket key uploadID partNumberMarker maxParts s =
     bind_result (lookupUploadLocked bucket key uploadID (s_ns s))
       (\<lambda>up. if maxParts \<le> 0 then Inr empty_parts_page
        else
          let nums0 = filter (\<lambda>n. partNumberMarker < n) (sorted_keys (mu_parts up));
              truncated = int (length nums0) > maxParts;
              nums = (if truncated then take (nat maxParts) nums0 else nums0)
          in Inr \<lparr>lp_parts = List.map_filter (fmlookup (mu_parts up)) nums,
                  lp_truncated = truncated,
                  lp_nextPartNumberMarker = (if truncated then last nums else 0)\<rparr>)"

section \<open>Completion\<close>

record completedPart =
  cp_PartNumber :: int
  cp_ETag :: string

definition minMultipartPartSize :: int where
  "minMultipartPartSize = 5 * 1024 * 1024"

fun ascendingParts :: "completedPart list \<Rightarrow> bool" where
  "ascendingParts (a # b # ps) \<longleftrightarrow> cp_PartNumber a < cp_PartNumber b \<and> ascendingParts (b # ps)"
| "ascendingParts _ \<longleftrightarrow> True"

fun collectParts :: "(int, multipartPart) fmap \<Rightarrow> completedPart list \<Rightarrow> err + multipartPart list" where
  "collectParts parts [] = Inr []"
| "collectParts parts (rp # rps) =
     (case fmlookup parts (cp_PartNumber rp) of
        None \<Rightarrow> Inl (ErrInvalidPart (cp_PartNumber rp))
      | Some mp \<Rightarrow>
          let wantETag = str_trim [CHR 0x22] (cp_ETag rp) in
          if wantETag = [] \<or> \<not> equal_fold wantETag (mp_etag mp)
          then Inl (ErrInvalidPart (cp_PartNumber rp))
          else bind_result (collectParts parts rps) (\<lambda>ms. Inr (mp # ms)))"

fun checkPartSizes :: "multipartPart list \<Rightarrow> err + unit" where
  "checkPartSizes (p # q # ps) =
     (if mp_size p < minMultipartPartSize then Inl (ErrEntityTooSmall (mp_partNumber p))
      else checkPartSizes (q # ps))"
| "checkPartSizes _ = Inr ()"

definition completeValidate ::
  "string \<Rightarrow> string \<Rightarrow> string \<Rightarrow> completedPart list \<Rightarrow> store
    \<Rightarrow> err + (multipartPart list \<times> string \<times> (string, string) fmap)" where
  "completeValidate bucket key uploadID requested s =
     (if requested = [] then Inl ErrEmptyCompletionPartList
      else if \<not> ascendingParts requested then Inl ErrPartsNotAscending
      else bind_result (lookupUploadLocked bucket key uploadID (s_ns s))
        (\<lambda>up. bind_result (collectParts (mu_parts up) requested)
          (\<lambda>parts. bind_result (checkPartSizes parts)
            (\<lambda>_. Inr (parts, mu_contentType up, mu_metadata up)))))"

fun multipartDigests :: "multipartPart list \<Rightarrow> err + bytes" where
  "multipartDigests [] = Inr []"
| "multipartDigests (p # ps) =
     (case hex_decode (mp_etag p) of
        None \<Rightarrow> Inl (ErrMalformedStoredETag (mp_partNumber p))
      | Some raw \<Rightarrow>
          if length raw \<noteq> 16 then Inl (ErrMalformedStoredETag (mp_partNumber p))
          else bind_result (multipartDigests ps) (\<lambda>rest. Inr (raw @ rest)))"

definition multipartETag :: "multipartPart list \<Rightarrow> err + string" where
  "multipartETag parts =
     bind_result (multipartDigests parts)
       (\<lambda>raw. Inr (hex_encode (md5 raw) @ ''-'' @ itoa (length parts)))"

definition buildManifestV1FromRefs ::
  "env \<Rightarrow> chunkRef list \<Rightarrow> int \<Rightarrow> digest \<Rightarrow> string \<Rightarrow> string \<Rightarrow> (string, string) fmap \<Rightarrow> manifestV1" where
  "buildManifestV1FromRefs ev refs totalLen objSHA etag contentType metadata =
     \<lparr>man_ManifestFormatVersion = 1, man_CDCFormatVersion = 1, man_HashAlgorithm = ''sha256'',
      man_ManifestUUID = e_uuid ev, man_TotalLength = totalLen, man_Chunks = refs,
      man_ObjectSHA256 = hex_encode (digest_bytes objSHA), man_ETag = etag,
      man_ContentType = contentType, man_Metadata = sortedMetadataKV metadata,
      man_CreatedAt = e_now ev, man_VersionID = e_uuid ev\<rparr>"

definition completePayload ::
  "env \<Rightarrow> string \<Rightarrow> string \<Rightarrow> string \<Rightarrow> string \<Rightarrow> digest \<Rightarrow> manifestV1 \<Rightarrow> objectEntry option
    \<Rightarrow> journalCompleteMultipartPayloadV2" where
  "completePayload ev bucket key uploadID manUUID manSHA man cur =
     \<lparr>pp_Bucket = bucket, pp_Key = key, pp_ManifestUUID = manUUID,
      pp_ManifestSHA256 = hex_encode (digest_bytes manSHA),
      pp_Size = man_TotalLength man, pp_ETag = man_ETag man,
      pp_ContentType = man_ContentType man, pp_VersionID = man_VersionID man,
      co_UploadID = uploadID,
      c2_Previous = map_option (\<lambda>c. archivedVersionPayload ev c historyReasonOverwritten) cur\<rparr>"

definition completeCommit ::
  "json_codec \<Rightarrow> env \<Rightarrow> string \<Rightarrow> string \<Rightarrow> string \<Rightarrow> string \<Rightarrow> digest \<Rightarrow> manifestV1 \<Rightarrow> store
    \<Rightarrow> (err + objectEntry) \<times> store" where
  "completeCommit J ev bucket key uploadID manUUID manSHA man s =
     (case lookupUploadLocked bucket key uploadID (s_ns s) of
        Inl e \<Rightarrow> (Inl e, s)
      | Inr _ \<Rightarrow>
          (case fmlookup (ns_buckets (s_ns s)) bucket of
             None \<Rightarrow> (Inl ErrNoSuchBucket, s)
           | Some b \<Rightarrow>
               let cur = fmlookup (be_objects b) key;
                   p = completePayload ev bucket key uploadID manUUID manSHA man cur in
               (case appendRecord J (e_io ev) (CompleteMultipartV2P p) s of
                  (Inl e, s1) \<Rightarrow> (Inl e, s1)
                | (Inr seq, s1) \<Rightarrow>
                    let entry = \<lparr>oe_manifestUUID = manUUID, oe_manifestSHA256 = manSHA,
                                 oe_size = man_TotalLength man, oe_etag = man_ETag man,
                                 oe_contentType = man_ContentType man, oe_seq = seq\<rparr>;
                        ns1 = setObject bucket b key entry (s_ns s1);
                        ns2 = ns1\<lparr>ns_uploads := fmdrop uploadID (ns_uploads ns1)\<rparr> in
                    (case archivePrevious bucket key seq (c2_Previous p) ns2 of
                       Inl e \<Rightarrow> (Inl e, s1\<lparr>s_ns := ns2\<rparr>)
                     | Inr ns3 \<Rightarrow> (Inr entry, s1\<lparr>s_ns := ns3\<rparr>)))))"

section \<open>The session operations keep the journal and the namespace in step\<close>

lemma lookupUploadLocked_Inr:
  "lookupUploadLocked bucket key uploadID ns = Inr up \<longleftrightarrow>
     fmlookup (ns_uploads ns) uploadID = Some up \<and> mu_bucket up = bucket \<and> mu_key up = key"
  by (auto simp: lookupUploadLocked_def split: option.splits)

definition metadata_utf8 :: "(string, string) fmap \<Rightarrow> bool" where
  "metadata_utf8 md \<longleftrightarrow> map coerce_kv (sortedMetadataKV md) = sortedMetadataKV md"

lemma CreateMultipartUpload_journals:
  assumes "utf8_valid bucket" "utf8_valid key"
    and "utf8_valid contentType" "metadata_utf8 metadata" "utf8_valid (e_uuid ev)"
  shows "journals J s (\<lambda>io. snd (CreateMultipartUpload J (ev\<lparr>e_io := io\<rparr>) bucket key contentType metadata s))"
proof (cases "fmlookup (ns_buckets (s_ns s)) bucket")
  case None
  then show ?thesis by (intro journals_idle) (simp add: CreateMultipartUpload_def)
next
  case (Some b)
  let ?p = "\<lparr>cm_UploadID = e_uuid ev, cm_Bucket = bucket, cm_Key = key, cm_ContentType = contentType,
     cm_Metadata = sortedMetadataKV metadata, cm_CreatedAt = e_now ev\<rparr>"
  have u: "payload_utf8 (CreateMultipartP ?p)"
    using assms by (simp add: payload_utf8_def utf8_valid_def metadata_utf8_def)
  show ?thesis
    using Some
    by (intro journalsI [OF u]) (auto simp: CreateMultipartUpload_def Let_def applyCreateMultipart_def newUpload_def)
qed

lemma CreateMultipartUpload_consistent:
  assumes "json_ok J" "store_consistent J s" "utf8_valid bucket" "utf8_valid key"
    and "utf8_valid contentType" "metadata_utf8 metadata" "utf8_valid (e_uuid ev)"
    and "CreateMultipartUpload J ev bucket key contentType metadata s = (r, s')"
  shows "store_consistent J s'"
  using journals_consistent [OF CreateMultipartUpload_journals [OF assms(3-7), of J s] assms(1,2), of "e_io ev"]
    assms(8) by simp

definition ingest_utf8 :: "ingestResult \<Rightarrow> bool" where
  "ingest_utf8 ing \<longleftrightarrow> map coerce_ref (ing_chunks ing) = ing_chunks ing"

lemma partPayload_io [simp]: "partPayload (ev\<lparr>e_io := io\<rparr>) = partPayload ev"
  by (simp add: partPayload_def fun_eq_iff)

lemma commitPart_journals:
  assumes "utf8_valid uploadID" "ingest_utf8 ing"
  shows "journals J s (\<lambda>io. snd (commitPart J (ev\<lparr>e_io := io\<rparr>) bucket key uploadID partNumber ing s))"
proof (cases "json_marshal J (UploadPartP (partPayload ev uploadID partNumber ing)) \<noteq> None
    \<and> (\<exists>up. lookupUploadLocked bucket key uploadID (s_ns s) = Inr up)")
  case False
  then show ?thesis by (intro journals_idle) (auto simp: commitPart_def split: if_splits sum.splits)
next
  case True
  let ?p = "UploadPartP (partPayload ev uploadID partNumber ing)"
  from True obtain up where up: "lookupUploadLocked bucket key uploadID (s_ns s) = Inr up" by blast
  have u: "payload_utf8 ?p"
    using assms utf8_valid_hex [of "ing_etagMD5 ing"]
    by (simp add: payload_utf8_def utf8_valid_def ingest_utf8_def partPayload_def)
  have up': "fmlookup (ns_uploads (s_ns s)) uploadID = Some up"
    using up by (simp add: lookupUploadLocked_Inr)
  show ?thesis
    using True up up'
    by (intro journalsI [OF u]) (auto simp: commitPart_def applyUploadPart_def newPart_def partPayload_def)
qed

lemma commitPart_consistent:
  assumes "json_ok J" "store_consistent J s" "utf8_valid uploadID" "ingest_utf8 ing"
    and "commitPart J ev bucket key uploadID partNumber ing s = (r, s')"
  shows "store_consistent J s'"
  using journals_consistent [OF commitPart_journals [OF assms(3,4), of J s ev bucket key partNumber] assms(1,2),
      of "e_io ev"] assms(5) by simp

lemma AbortMultipartUpload_journals:
  assumes "utf8_valid uploadID"
  shows "journals J s (\<lambda>io. snd (AbortMultipartUpload J (ev\<lparr>e_io := io\<rparr>) bucket key uploadID s))"
proof (cases "lookupUploadLocked bucket key uploadID (s_ns s)")
  case (Inl e)
  then show ?thesis by (intro journals_idle) (simp add: AbortMultipartUpload_def)
next
  case (Inr up)
  let ?p = "AbortMultipartP \<lparr>am_UploadID = uploadID\<rparr>"
  have u: "payload_utf8 ?p" using assms by (simp add: payload_utf8_def utf8_valid_def)
  have up': "fmlookup (ns_uploads (s_ns s)) uploadID = Some up"
    using Inr by (simp add: lookupUploadLocked_Inr)
  show ?thesis
    using Inr up'
    by (intro journalsI [OF u]) (auto simp: AbortMultipartUpload_def applyAbortMultipart_def)
qed

lemma AbortMultipartUpload_consistent:
  assumes "json_ok J" "store_consistent J s" "utf8_valid uploadID"
    and "AbortMultipartUpload J ev bucket key uploadID s = (r, s')"
  shows "store_consistent J s'"
  using journals_consistent [OF AbortMultipartUpload_journals [OF assms(3), of J s ev bucket key] assms(1,2),
      of "e_io ev"] assms(4) by simp

lemma archivePrevious_uploads:
  "archivePrevious bk k seq prev (ns\<lparr>ns_uploads := m\<rparr>)
    = map_sum id (\<lambda>ns'. ns'\<lparr>ns_uploads := m\<rparr>) (archivePrevious bk k seq prev ns)"
  by (auto simp: archivePrevious_def archiveVersionLocked_def history_of_def history_keys_def
      split: option.splits)

lemma setObject_uploads [simp, frame_simps]: "ns_uploads (setObject bk b k e ns) = ns_uploads ns"
  by (simp add: setObject_def)

lemma complete_applies:
  assumes "fmlookup (ns_buckets ns) bucket = Some b" "fmlookup (ns_uploads ns) uploadID = Some up"
  shows "applyPayload seq (CompleteMultipartV2P (completePayload ev bucket key uploadID manUUID manSHA man cur)) ns
    = archivePrevious bucket key seq (map_option (\<lambda>c. archivedVersionPayload ev c historyReasonOverwritten) cur)
        ((setObject bucket b key \<lparr>oe_manifestUUID = manUUID, oe_manifestSHA256 = manSHA,
           oe_size = man_TotalLength man, oe_etag = man_ETag man,
           oe_contentType = man_ContentType man, oe_seq = seq\<rparr> ns)
         \<lparr>ns_uploads := fmdrop uploadID (ns_uploads ns)\<rparr>)"
proof -
  let ?prev = "map_option (\<lambda>c. archivedVersionPayload ev c historyReasonOverwritten) cur"
  obtain ns' where ns': "archivePrevious bucket key seq ?prev ns = Inr ns'"
    using archivePrevious_ok by blast
  then have "ns_uploads ns' = ns_uploads ns" by (simp add: archivePrevious_buckets)
  then show ?thesis
    using assms ns'
    by (simp add: completePayload_def applyCompleteMultipartV2_def archivePrevious_setObject
        archivePrevious_uploads putEntry_def)
qed

lemma completePayload_utf8:
  assumes "namespace_utf8 ns" "fmlookup (ns_buckets ns) bucket = Some b"
    and "utf8_valid bucket" "utf8_valid key" "utf8_valid uploadID" "utf8_valid manUUID"
    and "manifest_utf8 man" "utf8_valid (e_uuid ev)"
  shows "payload_utf8 (CompleteMultipartV2P
    (completePayload ev bucket key uploadID manUUID manSHA man (fmlookup (be_objects b) key)))"
proof -
  have "archived_utf8 (archivedVersionPayload ev c historyReasonOverwritten)"
    if "fmlookup (be_objects b) key = Some c" for c
    using namespace_utf8D [OF assms(1,2) that] assms(8) by (intro archived_utf8_payload) auto
  then show ?thesis
    using assms(3-8) utf8_valid_hex [of "digest_bytes manSHA"]
    by (cases "fmlookup (be_objects b) key")
       (auto simp: payload_utf8_def completePayload_def coerce_put_def manifest_utf8_def utf8_valid_def
         archived_utf8_def)
qed

lemma completePayload_io [simp]:
  "completePayload (ev\<lparr>e_io := io\<rparr>) bucket key uploadID manUUID manSHA man cur
    = completePayload ev bucket key uploadID manUUID manSHA man cur"
  by (simp add: completePayload_def)

lemma completeCommit_journals:
  assumes "namespace_utf8 (s_ns s)"
    and "utf8_valid bucket" "utf8_valid key" "utf8_valid uploadID" "utf8_valid manUUID"
    and "manifest_utf8 man" "utf8_valid (e_uuid ev)"
  shows "journals J s (\<lambda>io. snd (completeCommit J (ev\<lparr>e_io := io\<rparr>) bucket key uploadID manUUID manSHA man s))"
proof (cases "\<exists>up b. lookupUploadLocked bucket key uploadID (s_ns s) = Inr up
    \<and> fmlookup (ns_buckets (s_ns s)) bucket = Some b")
  case False
  then show ?thesis
    by (intro journals_idle) (auto simp: completeCommit_def split: sum.splits option.splits)
next
  case True
  then obtain up b where up: "lookupUploadLocked bucket key uploadID (s_ns s) = Inr up"
    and b: "fmlookup (ns_buckets (s_ns s)) bucket = Some b" by blast
  let ?cur = "fmlookup (be_objects b) key"
  let ?p = "CompleteMultipartV2P (completePayload ev bucket key uploadID manUUID manSHA man ?cur)"
  have up': "fmlookup (ns_uploads (s_ns s)) uploadID = Some up"
    using up by (simp add: lookupUploadLocked_Inr)
  have u: "payload_utf8 ?p" by (rule completePayload_utf8 [OF assms(1) b assms(2-7)])
  have ok: "\<exists>ns'. applyPayload seq ?p (s_ns s) = Inr ns'" for seq
    unfolding complete_applies [OF b up'] by (rule archivePrevious_ok)
  have prev: "c2_Previous (completePayload ev bucket key uploadID manUUID manSHA man ?cur)
      = map_option (\<lambda>c. archivedVersionPayload ev c historyReasonOverwritten) ?cur"
    by (simp add: completePayload_def)
  show ?thesis
  proof (rule journalsI [OF u ok], unfold complete_applies [OF b up'])
  qed (use b up in \<open>simp_all add: completeCommit_def Let_def prev\<close>)
qed

lemma completeCommit_consistent:
  assumes "json_ok J" "store_consistent J s" "namespace_utf8 (s_ns s)"
    and "utf8_valid bucket" "utf8_valid key" "utf8_valid uploadID" "utf8_valid manUUID"
    and "manifest_utf8 man" "utf8_valid (e_uuid ev)"
    and "completeCommit J ev bucket key uploadID manUUID manSHA man s = (r, s')"
  shows "store_consistent J s'"
  using journals_consistent [OF completeCommit_journals [OF assms(3-9), of J manSHA] assms(1,2), of "e_io ev"]
    assms(10) by simp

end
