(* ===== verification/History.thy ===== *)
theory History
  imports Multipart
begin

text \<open>
  Retained history and its explicit retention (\<^verbatim>\<open>zeros3.go\<close>, sections 7c and 7d):
  listing the versions of a key, selecting and planning what a prune retires, cutting the
  plan into journal frames and applying them one durable frame at a time. Shown here: the
  selection never takes one of the newest \<open>keepLast\<close> rows nor a row at or after the
  cutoff and takes every other row; the frames carry exactly the planned version IDs; a
  prune touches nothing but history; and an interrupted prune leaves a consistent store.
\<close>

section \<open>Listing and selecting\<close>

definition ListVersions ::
  "string \<Rightarrow> string \<Rightarrow> store \<Rightarrow> historyVersionEntry list \<times> objectEntry option" where
  "ListVersions bucket key s =
     (sort_key hv_seq (history_of (s_ns s) bucket key),
      case fmlookup (ns_buckets (s_ns s)) bucket of
        None \<Rightarrow> None | Some b \<Rightarrow> fmlookup (be_objects b) key)"

definition selectPruneVersions ::
  "historyVersionEntry list \<Rightarrow> int option \<Rightarrow> time option \<Rightarrow> historyVersionEntry list" where
  "selectPruneVersions entries keepLast cutoff =
     (let sorted_rows = sort_key hv_seq entries;
          eligible = (case keepLast of None \<Rightarrow> length sorted_rows
                      | Some k \<Rightarrow> nat (max 0 (int (length sorted_rows) - k)))
      in filter (\<lambda>e. case cutoff of None \<Rightarrow> True | Some c \<Rightarrow> hv_archivedAt e < c)
           (take eligible sorted_rows))"

record historyPruneOptions =
  po_Bucket :: string
  po_Prefix :: string
  po_Key :: string
  po_KeepLast :: "int option"
  po_OlderThan :: int
  po_Now :: time

record historyPruneVersion =
  pv_Bucket :: string
  pv_Key :: string
  pv_VersionID :: string
  pv_Size :: int
  pv_ArchivedAt :: time
  pv_Reason :: string
  pv_seq :: u64

record HistoryPruneResult =
  pr_Applied :: bool
  pr_KeysMatched :: nat
  pr_HistoricalExamined :: nat
  pr_HistoricalRetained :: nat
  pr_HistoricalSelected :: nat
  pr_SelectedLogicalBytes :: int
  pr_JournalFrames :: nat
  pr_VersionsPruned :: nat
  pr_Versions :: "historyPruneVersion list"

definition pruneVersion :: "string \<Rightarrow> string \<Rightarrow> historyVersionEntry \<Rightarrow> historyPruneVersion" where
  "pruneVersion bucket key e =
     \<lparr>pv_Bucket = bucket, pv_Key = key, pv_VersionID = hv_versionID e, pv_Size = hv_size e,
      pv_ArchivedAt = hv_archivedAt e, pv_Reason = hv_reason e, pv_seq = hv_seq e\<rparr>"

definition pruneKeys :: "historyPruneOptions \<Rightarrow> store \<Rightarrow> string list" where
  "pruneKeys opt s =
     filter (\<lambda>key. \<not> (po_Key opt \<noteq> [] \<and> key \<noteq> po_Key opt) \<and> has_prefix key (po_Prefix opt))
       (sorted_keys (history_keys (s_ns s) (po_Bucket opt)))"

definition PlanHistoryPrune :: "historyPruneOptions \<Rightarrow> store \<Rightarrow> err + HistoryPruneResult" where
  "PlanHistoryPrune opt s =
     (if po_Bucket opt = [] then Inl (ErrPlan ''a bucket is required'')
      else if po_Key opt \<noteq> [] \<and> po_Prefix opt \<noteq> [] then Inl (ErrPlan ''-key and -prefix are mutually exclusive'')
      else if po_KeepLast opt = None \<and> po_OlderThan opt = 0 then Inl (ErrPlan ''a retention criterion is required'')
      else if (case po_KeepLast opt of Some k \<Rightarrow> k < 0 | None \<Rightarrow> False) then Inl (ErrPlan ''-keep-last must not be negative'')
      else if po_OlderThan opt < 0 then Inl (ErrPlan ''-older-than must be positive'')
      else
        let cutoff = (if po_OlderThan opt > 0 then Some (po_Now opt - po_OlderThan opt) else None);
            keys = pruneKeys opt s;
            rows = (\<lambda>key. history_of (s_ns s) (po_Bucket opt) key);
            selected = concat (map (\<lambda>key. map (pruneVersion (po_Bucket opt) key)
                         (selectPruneVersions (rows key) (po_KeepLast opt) cutoff)) keys);
            examined = sum_list (map (\<lambda>key. length (rows key)) keys)
        in Inr \<lparr>pr_Applied = False, pr_KeysMatched = length keys, pr_HistoricalExamined = examined,
                pr_HistoricalRetained = examined - length selected,
                pr_HistoricalSelected = length selected,
                pr_SelectedLogicalBytes = sum_list (map pv_Size selected),
                pr_JournalFrames = 0, pr_VersionsPruned = 0, pr_Versions = selected\<rparr>)"

section \<open>Frames\<close>

text \<open>
  \<open>addPruneVersion\<close> is the body of the loop of \<open>buildPruneFrames\<close>: it extends the last
  entry of the frame under construction or opens a new one, and accounts the frame's sz.
\<close>

definition addPruneVersion ::
  "journalPruneHistoryEntry list \<Rightarrow> nat \<Rightarrow> historyPruneVersion \<Rightarrow> journalPruneHistoryEntry list \<times> nat" where
  "addPruneVersion cur sz v =
     (let new = (cur = [] \<or> ph_Bucket (last cur) \<noteq> pv_Bucket v \<or> ph_Key (last cur) \<noteq> pv_Key v);
          cur1 = (if new then cur @ [\<lparr>ph_Bucket = pv_Bucket v, ph_Key = pv_Key v, ph_VersionIDs = []\<rparr>]
                  else cur);
          size1 = (if new then sz + length (pv_Bucket v) + length (pv_Key v) + 64 else sz);
          l = last cur1
      in (butlast cur1 @ [l\<lparr>ph_VersionIDs := ph_VersionIDs l @ [pv_VersionID v]\<rparr>],
          size1 + length (pv_VersionID v) + 4))"

fun pruneFrameEntries ::
  "nat \<Rightarrow> journalPruneHistoryEntry list \<Rightarrow> nat \<Rightarrow> historyPruneVersion list \<Rightarrow> journalPruneHistoryEntry list list" where
  "pruneFrameEntries target cur sz [] = (if cur = [] then [] else [cur])"
| "pruneFrameEntries target cur sz (v # vs) =
     (let (cur1, size1) = addPruneVersion cur sz v
      in if size1 \<ge> target then cur1 # pruneFrameEntries target [] 0 vs
         else pruneFrameEntries target cur1 size1 vs)"

fun marshalFrames :: "json_codec \<Rightarrow> journalPruneHistoryEntry list list \<Rightarrow> err + bytes list" where
  "marshalFrames J [] = Inr []"
| "marshalFrames J (es # ess) =
     (case json_marshal J (PruneHistoryP \<lparr>ph_Entries = es\<rparr>) of
        None \<Rightarrow> Inl ErrMarshal
      | Some b \<Rightarrow> bind_result (marshalFrames J ess) (\<lambda>bs. Inr (b # bs)))"

definition buildPruneFrames :: "json_codec \<Rightarrow> historyPruneVersion list \<Rightarrow> nat \<Rightarrow> err + bytes list" where
  "buildPruneFrames J vs target = marshalFrames J (pruneFrameEntries target [] 0 vs)"

section \<open>Applying a prune\<close>

definition storeFormatVersionHistoryPrune :: int where
  "storeFormatVersionHistoryPrune = 4"

text \<open>\<open>ff\<close>: writing or syncing \<^verbatim>\<open>FORMAT.json\<close> fails.\<close>

definition ensureStoreFormat :: "bool \<Rightarrow> int \<Rightarrow> store \<Rightarrow> (err + unit) \<times> store" where
  "ensureStoreFormat ff v s =
     (if sf_StoreFormatVersion (s_format s) \<ge> v then (Inr (), s)
      else if ff then (Inl ErrIO, s)
      else (Inr (), s\<lparr>s_format := (s_format s)\<lparr>sf_StoreFormatVersion := v\<rparr>\<rparr>))"

definition decodePruneFrame :: "json_codec \<Rightarrow> bytes \<Rightarrow> err + journalPruneHistoryPayload" where
  "decodePruneFrame J b =
     (case json_unmarshal J recordTypePruneHistory b of
        Some (PruneHistoryP p) \<Rightarrow> parsePruneHistoryPayload p
      | _ \<Rightarrow> Inl ErrMalformedPrune)"

text \<open>One frame: validate it, append it, then remove its rows; the append's fate is \<open>io\<close>.\<close>

definition applyPruneFrame :: "json_codec \<Rightarrow> append_io \<Rightarrow> bytes \<Rightarrow> store \<Rightarrow> (err + nat) \<times> store" where
  "applyPruneFrame J io b s =
     (case decodePruneFrame J b of
        Inl e \<Rightarrow> (Inl e, s)
      | Inr p \<Rightarrow>
          (case appendFrame (s_journal s) recordTypePruneHistory b io of
             (Inl e, j) \<Rightarrow> (Inl (ErrJournal e), s\<lparr>s_journal := j\<rparr>)
           | (Inr seq, j) \<Rightarrow>
               (let (n, ns) = removeHistoryLocked p (s_ns s)
                in (Inr n, s\<lparr>s_journal := j, s_ns := ns\<rparr>))))"

fun applyPruneFrames ::
  "json_codec \<Rightarrow> (nat \<Rightarrow> append_io) \<Rightarrow> bytes list \<Rightarrow> HistoryPruneResult \<Rightarrow> store
    \<Rightarrow> (err option \<times> HistoryPruneResult) \<times> store" where
  "applyPruneFrames J io [] res s = ((None, res\<lparr>pr_Applied := True\<rparr>), s)"
| "applyPruneFrames J io (b # bs) res s =
     (case applyPruneFrame J (io 0) b s of
        (Inl e, s1) \<Rightarrow> ((Some e, res), s1)
      | (Inr n, s1) \<Rightarrow>
          applyPruneFrames J (\<lambda>i. io (Suc i)) bs
            (res\<lparr>pr_VersionsPruned := pr_VersionsPruned res + n,
                 pr_JournalFrames := pr_JournalFrames res + 1\<rparr>) s1)"

definition applyHistoryPrune ::
  "json_codec \<Rightarrow> bool \<Rightarrow> (nat \<Rightarrow> append_io) \<Rightarrow> nat \<Rightarrow> HistoryPruneResult \<Rightarrow> store
    \<Rightarrow> (err option \<times> HistoryPruneResult) \<times> store" where
  "applyHistoryPrune J ff io frameTarget res s =
     (if pr_Versions res = [] then ((None, res\<lparr>pr_Applied := True\<rparr>), s)
      else case buildPruneFrames J (pr_Versions res) frameTarget of
        Inl e \<Rightarrow> ((Some e, res), s)
      | Inr frames \<Rightarrow>
          (case ensureStoreFormat ff storeFormatVersionHistoryPrune s of
             (Inl e, s1) \<Rightarrow> ((Some e, res), s1)
           | (Inr _, s1) \<Rightarrow> applyPruneFrames J io frames res s1))"

definition pruneFrameTargetBytes :: nat where
  "pruneFrameTargetBytes = 256 * 1024"

definition ApplyHistoryPrune ::
  "json_codec \<Rightarrow> bool \<Rightarrow> (nat \<Rightarrow> append_io) \<Rightarrow> HistoryPruneResult \<Rightarrow> store
    \<Rightarrow> (err option \<times> HistoryPruneResult) \<times> store" where
  "ApplyHistoryPrune J ff io res s = applyHistoryPrune J ff io pruneFrameTargetBytes res s"

section \<open>Selection\<close>

lemma set_selectPrune:
  "set (selectPruneVersions es k c) \<subseteq> set es"
  by (auto simp: selectPruneVersions_def Let_def dest: in_set_takeD)

text \<open>The rows protected by \<open>keepLast\<close>: the newest ones by sequence number.\<close>

definition newestRows :: "nat \<Rightarrow> historyVersionEntry list \<Rightarrow> historyVersionEntry list" where
  "newestRows n es = drop (length es - n) (sort_key hv_seq es)"

lemma selectPrune_split:
  assumes "0 \<le> k"
  shows "selectPruneVersions es (Some k) c
    = filter (\<lambda>e. case c of None \<Rightarrow> True | Some t \<Rightarrow> hv_archivedAt e < t)
        (take (length es - nat k) (sort_key hv_seq es))"
proof -
  have "nat (max 0 (int (length es) - k)) = length es - nat k" using assms by auto
  then show ?thesis by (simp add: selectPruneVersions_def Let_def)
qed

section \<open>Frames carry the plan\<close>

definition entry_rows :: "journalPruneHistoryEntry \<Rightarrow> (string \<times> string \<times> string) list" where
  "entry_rows e = map (\<lambda>v. (ph_Bucket e, ph_Key e, v)) (ph_VersionIDs e)"

definition frame_rows :: "journalPruneHistoryEntry list \<Rightarrow> (string \<times> string \<times> string) list" where
  "frame_rows es = concat (map entry_rows es)"

definition version_row :: "historyPruneVersion \<Rightarrow> string \<times> string \<times> string" where
  "version_row v = (pv_Bucket v, pv_Key v, pv_VersionID v)"

lemma frame_rows_Nil [simp]: "frame_rows [] = []"
  by (simp add: frame_rows_def)

lemma addPruneVersion_rows:
  assumes "addPruneVersion cur sz v = (cur', sz')"
  shows "frame_rows cur' = frame_rows cur @ [version_row v] \<and> cur' \<noteq> []"
proof (cases cur rule: rev_cases)
  case Nil
  with assms show ?thesis
    by (auto simp: addPruneVersion_def frame_rows_def entry_rows_def version_row_def Let_def)
next
  case (snoc cs l)
  with assms show ?thesis
    by (auto simp: addPruneVersion_def frame_rows_def entry_rows_def version_row_def Let_def
        butlast_append split: if_splits)
qed

lemma pruneFrameEntries_rows:
  "concat (map frame_rows (pruneFrameEntries target cur sz vs)) = frame_rows cur @ map version_row vs"
proof (induction target cur sz vs rule: pruneFrameEntries.induct)
  case (1 target cur sz)
  then show ?case by (simp add: frame_rows_def)
next
  case (2 target cur sz v vs)
  obtain cur1 size1 where a: "addPruneVersion cur sz v = (cur1, size1)" by fastforce
  note rows = addPruneVersion_rows [OF a]
  show ?case
  proof (cases "size1 \<ge> target")
    case True
    have "concat (map frame_rows (pruneFrameEntries target [] 0 vs)) = map version_row vs"
      using 2(1) [OF a [symmetric] refl True] by simp
    with True a rows show ?thesis by (simp add: Let_def)
  next
    case False
    with 2(2) [OF a [symmetric] refl False] a rows show ?thesis by (simp add: Let_def)
  qed
qed

section \<open>What a prune changes\<close>

lemma removeHistoryEntry_frame [frame_simps]:
  "removeHistoryEntry e ns = (n, ns') \<Longrightarrow> ns_buckets ns' = ns_buckets ns \<and> ns_uploads ns' = ns_uploads ns"
  by (auto simp: removeHistoryEntry_def Let_def split: if_splits)

lemma removeHistoryEntries_frame [frame_simps]:
  "removeHistoryEntries es ns = (n, ns') \<Longrightarrow> ns_buckets ns' = ns_buckets ns \<and> ns_uploads ns' = ns_uploads ns"
  by (induction es arbitrary: ns n) (auto split: prod.splits dest!: removeHistoryEntry_frame)

lemma removeHistoryLocked_frame:
  "ns_buckets (snd (removeHistoryLocked p ns)) = ns_buckets ns"
  "ns_uploads (snd (removeHistoryLocked p ns)) = ns_uploads ns"
  using removeHistoryEntries_frame [OF prod.collapse [symmetric]] by (auto simp: removeHistoryLocked_def)

lemma history_of_upd:
  "history_of (ns\<lparr>ns_history := fmupd b m h\<rparr>) bk k
    = (if bk = b then (case fmlookup m k of None \<Rightarrow> [] | Some es \<Rightarrow> es)
       else history_of (ns\<lparr>ns_history := h\<rparr>) bk k)"
  by (simp add: history_of_def)

lemma history_of_drop:
  "history_of (ns\<lparr>ns_history := fmdrop b (ns_history ns)\<rparr>) bk k = (if bk = b then [] else history_of ns bk k)"
  by (simp add: history_of_def)

lemma history_of_same [simp]: "history_of (ns\<lparr>ns_history := ns_history ns\<rparr>) = history_of ns"
  by (simp add: history_of_def fun_eq_iff)

lemma history_of_keys: "history_of ns b k = (case fmlookup (history_keys ns b) k of None \<Rightarrow> [] | Some es \<Rightarrow> es)"
  by (simp add: history_of_def history_keys_def split: option.split)

lemma removeHistoryEntry_history:
  assumes "removeHistoryEntry e ns = (n, ns')"
  shows "history_of ns' bk k =
    (if bk = ph_Bucket e \<and> k = ph_Key e
     then filter (\<lambda>h. hv_versionID h \<notin> set (ph_VersionIDs e)) (history_of ns bk k)
     else history_of ns bk k)"
proof -
  let ?old = "history_of ns (ph_Bucket e) (ph_Key e)"
  let ?kept = "filter (\<lambda>h. hv_versionID h \<notin> set (ph_VersionIDs e)) ?old"
  let ?rest = "fmdrop (ph_Key e) (history_keys ns (ph_Bucket e))"
  show ?thesis
  proof (cases "length ?kept = length ?old")
    case True
    then have "ns' = ns" using assms by (simp add: removeHistoryEntry_def Let_def)
    moreover have "?kept = ?old" using True by (metis length_filter_less filter_id_conv nat_neq_iff)
    ultimately show ?thesis by auto
  next
    case False
    show ?thesis
    proof (cases "?kept = []")
      case True
      with False have ns': "ns' = ns\<lparr>ns_history := (if ?rest = fmempty
          then fmdrop (ph_Bucket e) (ns_history ns) else fmupd (ph_Bucket e) ?rest (ns_history ns))\<rparr>"
        using assms by (simp add: removeHistoryEntry_def Let_def)
      have keys: "fmlookup (history_keys ns (ph_Bucket e)) k = None"
        if "?rest = fmempty" "k \<noteq> ph_Key e" for k
        using that by (metis fmempty_lookup fmlookup_drop)
      show ?thesis
        unfolding ns' using True keys
        by (auto simp: history_of_upd history_of_drop history_of_keys [of ns "ph_Bucket e"]
            split: if_splits)
    next
      case kept: False
      with False have ns': "ns' = ns\<lparr>ns_history := fmupd (ph_Bucket e)
          (fmupd (ph_Key e) ?kept (history_keys ns (ph_Bucket e))) (ns_history ns)\<rparr>"
        using assms by (simp add: removeHistoryEntry_def Let_def)
      show ?thesis
        unfolding ns' by (auto simp: history_of_upd history_of_keys [of ns "ph_Bucket e"])
    qed
  qed
qed

lemma removeHistoryEntries_history:
  assumes "removeHistoryEntries es ns = (n, ns')"
  shows "history_of ns' bk k
    = filter (\<lambda>h. (bk, k, hv_versionID h) \<notin> set (frame_rows es)) (history_of ns bk k)"
  using assms
proof (induction es arbitrary: ns n)
  case (Cons e es)
  obtain m ns1 where a: "removeHistoryEntry e ns = (m, ns1)" by fastforce
  with Cons.prems obtain m' where b: "removeHistoryEntries es ns1 = (m', ns')"
    by (auto simp: Let_def split: prod.splits)
  show ?case
    unfolding Cons.IH [OF b] removeHistoryEntry_history [OF a]
    by (auto simp: frame_rows_def entry_rows_def intro!: filter_cong)
qed (simp add: frame_rows_def)

section \<open>Applying frames\<close>

lemma applyPruneFrame_consistent:
  assumes "store_consistent J s" "applyPruneFrame J io b s = (r, s')"
    and m: "\<And>seq. marshalled J \<lparr>jr_seq = seq, jr_type = recordTypePruneHistory, jr_payload = b\<rparr>"
  shows "store_consistent J s'"
proof (cases "decodePruneFrame J b")
  case (Inl e)
  with assms show ?thesis by (simp add: applyPruneFrame_def)
next
  case (Inr p)
  have ap: "applyRecord J \<lparr>jr_seq = seq, jr_type = recordTypePruneHistory, jr_payload = b\<rparr> (s_ns s)
      = Inr (snd (removeHistoryLocked p (s_ns s)))" for seq
    using Inr known_record_type_of [of "PruneHistoryP undefined"]
    by (auto simp: decodePruneFrame_def applyRecord_def applyPruneHistory_def
        split: option.splits payload.splits)
  have known: "known_record_type recordTypePruneHistory"
    using known_record_type_of [of "PruneHistoryP undefined"] by simp
  note st = assms(1) [unfolded store_consistent_def]
  obtain q j where a: "appendFrame (s_journal s) recordTypePruneHistory b io = (q, j)" by fastforce
  show ?thesis
  proof (cases q)
    case (Inl e)
    have "nsj.consistent J j (s_ns s)"
      using ap a Inl m by (intro nsj.commit_err [OF st known]) auto
    moreover have "s' = s\<lparr>s_journal := j\<rparr>" using assms(2) Inr a Inl by (simp add: applyPruneFrame_def)
    ultimately show ?thesis by (simp add: store_consistent_def)
  next
    case seq: (Inr seq)
    have "nsj.consistent J j (snd (removeHistoryLocked p (s_ns s)))"
      using a seq by (intro nsj.commit_ok [OF st known _ m ap]) auto
    moreover have "s' = s\<lparr>s_journal := j, s_ns := snd (removeHistoryLocked p (s_ns s))\<rparr>"
      using assms(2) Inr a seq by (simp add: applyPruneFrame_def split: prod.splits)
    ultimately show ?thesis by (simp add: store_consistent_def)
  qed
qed

lemma applyPruneFrame_frame:
  "applyPruneFrame J io b s = (r, s') \<Longrightarrow>
     ns_buckets (s_ns s') = ns_buckets (s_ns s) \<and> ns_uploads (s_ns s') = ns_uploads (s_ns s)"
  by (auto simp: applyPruneFrame_def removeHistoryLocked_def split: sum.splits prod.splits
      dest: removeHistoryEntries_frame)

text \<open>Frames whose entries are valid strings, marshalled one by one.\<close>

lemma marshalFrames_marshalled:
  "marshalFrames J ess = Inr bs \<Longrightarrow> \<forall>es \<in> set ess. map coerce_prune es = es \<Longrightarrow> b \<in> set bs
    \<Longrightarrow> marshalled J \<lparr>jr_seq = seq, jr_type = recordTypePruneHistory, jr_payload = b\<rparr>"
proof (induction ess arbitrary: bs)
  case (Cons es ess)
  then obtain b0 bs' where bs: "bs = b0 # bs'" "json_marshal J (PruneHistoryP \<lparr>ph_Entries = es\<rparr>) = Some b0"
    "marshalFrames J ess = Inr bs'"
    by (auto split: option.splits)
  have "payload_utf8 (PruneHistoryP \<lparr>ph_Entries = es\<rparr>)"
    using Cons.prems(2) by (simp add: payload_utf8_def)
  from marshalledI [OF this bs(2)] Cons bs show ?case by auto
qed simp

lemma applyPruneFrames_consistent:
  assumes "store_consistent J s" "applyPruneFrames J io bs res s = ((r, res'), s')"
    and "\<And>b seq. b \<in> set bs \<Longrightarrow> marshalled J \<lparr>jr_seq = seq, jr_type = recordTypePruneHistory, jr_payload = b\<rparr>"
  shows "store_consistent J s'"
  using assms
proof (induction bs arbitrary: io res s)
  case (Cons b bs)
  obtain q s1 where a: "applyPruneFrame J (io 0) b s = (q, s1)" by fastforce
  have keep: "store_consistent J s1"
    by (rule applyPruneFrame_consistent [OF Cons.prems(1) a]) (simp add: Cons.prems(3))
  show ?case
  proof (cases q)
    case (Inl e)
    with Cons.prems(2) a keep show ?thesis by simp
  next
    case (Inr n)
    then have run: "applyPruneFrames J (\<lambda>i. io (Suc i)) bs
        (res\<lparr>pr_VersionsPruned := pr_VersionsPruned res + n, pr_JournalFrames := pr_JournalFrames res + 1\<rparr>) s1
      = ((r, res'), s')"
      using Cons.prems(2) a by simp
    show ?thesis by (rule Cons.IH [OF keep run]) (simp add: Cons.prems(3))
  qed
qed simp

lemma applyPruneFrames_frame:
  "applyPruneFrames J io bs res s = ((r, res'), s') \<Longrightarrow>
     ns_buckets (s_ns s') = ns_buckets (s_ns s) \<and> ns_uploads (s_ns s') = ns_uploads (s_ns s)"
  by (induction J io bs res s rule: applyPruneFrames.induct)
     (auto split: prod.splits sum.splits dest!: applyPruneFrame_frame)

lemma store_consistent_format [simp]: "store_consistent J (s\<lparr>s_format := f\<rparr>) = store_consistent J s"
  by (simp add: store_consistent_def)

lemma ensureStoreFormat_frame:
  "ensureStoreFormat ff v s = (r, s') \<Longrightarrow>
     s_ns s' = s_ns s \<and> s_journal s' = s_journal s \<and> store_consistent J s' = store_consistent J s"
  by (auto simp: ensureStoreFormat_def split: if_splits)

lemma applyPruneFrame_history:
  assumes "json_ok J" "json_marshal J (PruneHistoryP \<lparr>ph_Entries = es\<rparr>) = Some b"
    and "map coerce_prune es = es" and "applyPruneFrame J io b s = (Inr n, s')"
  shows "history_of (s_ns s') bk k
    = filter (\<lambda>h. (bk, k, hv_versionID h) \<notin> set (frame_rows es)) (history_of (s_ns s) bk k)"
proof -
  have "json_unmarshal J recordTypePruneHistory b = Some (PruneHistoryP \<lparr>ph_Entries = es\<rparr>)"
    using json_okD [OF assms(1) _ assms(2)] assms(3) by (simp add: payload_utf8_def)
  with assms(4) obtain j where s': "s' = s\<lparr>s_journal := j, s_ns := snd (removeHistoryEntries es (s_ns s))\<rparr>"
    by (auto simp: applyPruneFrame_def decodePruneFrame_def parsePruneHistoryPayload_def
        removeHistoryLocked_def split: sum.splits prod.splits if_splits)
  show ?thesis
    using removeHistoryEntries_history [of es "s_ns s"] by (simp add: s') (metis prod.collapse)
qed

lemma applyPruneFrames_history:
  assumes "json_ok J" "marshalFrames J ess = Inr bs" "\<forall>es \<in> set ess. map coerce_prune es = es"
    and "applyPruneFrames J io bs res s = ((None, res'), s')"
  shows "history_of (s_ns s') bk k
    = filter (\<lambda>h. (bk, k, hv_versionID h) \<notin> set (concat (map frame_rows ess))) (history_of (s_ns s) bk k)"
  using assms(2-4)
proof (induction ess arbitrary: bs io res s)
  case (Cons es ess)
  then obtain b bs' where bs: "bs = b # bs'" "json_marshal J (PruneHistoryP \<lparr>ph_Entries = es\<rparr>) = Some b"
    "marshalFrames J ess = Inr bs'"
    by (auto split: option.splits)
  then obtain n s1 where a: "applyPruneFrame J (io 0) b s = (Inr n, s1)"
    using Cons.prems(3) by (auto split: prod.splits sum.splits)
  with Cons.prems(3) bs have run: "applyPruneFrames J (\<lambda>i. io (Suc i)) bs'
      (res\<lparr>pr_VersionsPruned := pr_VersionsPruned res + n, pr_JournalFrames := pr_JournalFrames res + 1\<rparr>) s1
      = ((None, res'), s')"
    by simp
  have cs: "map coerce_prune es = es" "\<forall>es \<in> set ess. map coerce_prune es = es"
    using Cons.prems(2) by auto
  show ?case
    unfolding Cons.IH [OF bs(3) cs(2) run] applyPruneFrame_history [OF assms(1) bs(2) cs(1) a]
    by (auto intro!: filter_cong)
qed simp

text \<open>Frames built from valid strings hold valid strings.\<close>

definition row_utf8 :: "historyPruneVersion \<Rightarrow> bool" where
  "row_utf8 v \<longleftrightarrow> utf8_valid (pv_Bucket v) \<and> utf8_valid (pv_Key v) \<and> utf8_valid (pv_VersionID v)"

lemma addPruneVersion_utf8:
  assumes "row_utf8 v" "map coerce_prune cur = cur" "addPruneVersion cur sz v = (cur', sz')"
  shows "map coerce_prune cur' = cur'"
proof (cases cur rule: rev_cases)
  case Nil
  with assms show ?thesis
    by (auto simp: addPruneVersion_def coerce_prune_def row_utf8_def utf8_valid_def Let_def)
next
  case (snoc cs l)
  with assms have "map coerce_prune cs = cs" "coerce_prune l = l" by auto
  with assms snoc show ?thesis
    by (cases l)
       (auto simp: addPruneVersion_def coerce_prune_def row_utf8_def utf8_valid_def Let_def
         butlast_append split: if_splits)
qed

lemma pruneFrameEntries_utf8:
  "\<forall>v \<in> set vs. row_utf8 v \<Longrightarrow> map coerce_prune cur = cur
    \<Longrightarrow> es \<in> set (pruneFrameEntries target cur sz vs) \<Longrightarrow> map coerce_prune es = es"
proof (induction target cur sz vs rule: pruneFrameEntries.induct)
  case (2 target cur sz v vs)
  obtain cur1 sz1 where a: "addPruneVersion cur sz v = (cur1, sz1)" by fastforce
  have u: "map coerce_prune cur1 = cur1"
    using addPruneVersion_utf8 [OF _ 2(4) a] 2(3) by simp
  show ?case
  proof (cases "sz1 \<ge> target")
    case True
    with 2 a u show ?thesis by auto
  next
    case False
    with 2 a u show ?thesis by auto
  qed
qed (simp split: if_splits)

lemma applyHistoryPrune_consistent:
  assumes "store_consistent J s" "\<forall>v \<in> set (pr_Versions res). row_utf8 v"
    and "applyHistoryPrune J ff io target res s = ((r, res'), s')"
  shows "store_consistent J s'"
proof (cases "pr_Versions res = [] \<or> (\<exists>e. buildPruneFrames J (pr_Versions res) target = Inl e)")
  case True
  with assms show ?thesis by (auto simp: applyHistoryPrune_def split: if_splits)
next
  case False
  then obtain frames where f: "buildPruneFrames J (pr_Versions res) target = Inr frames"
    by (metis sum.exhaust_sel)
  obtain q s1 where e: "ensureStoreFormat ff storeFormatVersionHistoryPrune s = (q, s1)" by fastforce
  note fr = ensureStoreFormat_frame [OF e, of J]
  show ?thesis
  proof (cases q)
    case (Inl err)
    with assms False f e fr show ?thesis by (simp add: applyHistoryPrune_def)
  next
    case (Inr u)
    with assms(3) False f e have run: "applyPruneFrames J io frames res s1 = ((r, res'), s')"
      by (simp add: applyHistoryPrune_def)
    have "\<forall>es \<in> set (pruneFrameEntries target [] 0 (pr_Versions res)). map coerce_prune es = es"
      using pruneFrameEntries_utf8 [OF assms(2), of "[]"] by auto
    with f have "marshalled J \<lparr>jr_seq = seq, jr_type = recordTypePruneHistory, jr_payload = b\<rparr>"
      if "b \<in> set frames" for b seq
      using marshalFrames_marshalled [OF _ _ that] by (simp add: buildPruneFrames_def)
    with fr assms(1) show ?thesis by (intro applyPruneFrames_consistent [OF _ run]) simp_all
  qed
qed

section \<open>Properties\<close>

text \<open>A store with two retained versions of one key, and the plan that retires the older one.\<close>

definition sample_uuid :: "char \<Rightarrow> string" where
  "sample_uuid c = c # ''0000000-0000-4000-8000-000000000000''"

definition sample_row :: "char \<Rightarrow> u64 \<Rightarrow> historyVersionEntry" where
  "sample_row c seq =
     \<lparr>hv_versionID = sample_uuid c, hv_manifestUUID = [], hv_manifestSHA256 = 0, hv_size = 3,
      hv_etag = [], hv_contentType = [], hv_archivedAt = 10 * uint seq, hv_reason = historyReasonDeleted,
      hv_seq = seq\<rparr>"

definition sample_store :: store where
  "sample_store =
     \<lparr>s_format = \<lparr>sf_StoreFormatVersion = 3, sf_CDCFormatVersion = 1, sf_HashAlgorithm = ''sha256'',
                  sf_StoreID = []\<rparr>,
      s_journal = empty_journal,
      s_ns = empty_namespace\<lparr>ns_history := fmupd ''b'' (fmupd ''k''
        [sample_row CHR ''1'' 4, sample_row CHR ''2'' 7] fmempty) fmempty\<rparr>\<rparr>"

definition sample_plan :: HistoryPruneResult where
  "sample_plan =
     \<lparr>pr_Applied = False, pr_KeysMatched = 1, pr_HistoricalExamined = 2, pr_HistoricalRetained = 1,
      pr_HistoricalSelected = 1, pr_SelectedLogicalBytes = 3, pr_JournalFrames = 0, pr_VersionsPruned = 0,
      pr_Versions = [pruneVersion ''b'' ''k'' (sample_row CHR ''1'' 4)]\<rparr>"

definition sample_codec :: json_codec where
  "sample_codec = table_codec [PruneHistoryP \<lparr>ph_Entries =
     [\<lparr>ph_Bucket = ''b'', ph_Key = ''k'', ph_VersionIDs = [sample_uuid CHR ''1'']\<rparr>]\<rparr>]"

lemma canonical_sample: "canonical_uuid (sample_uuid CHR ''1'')"
  by code_simp

lemma utf8_sample: "utf8_valid (sample_uuid CHR ''1'')" "utf8_valid ''b''" "utf8_valid ''k''"
  by (rule utf8_valid_ascii; simp add: sample_uuid_def)+

text \<open>
  C8: What retention protects. With \<open>keepLast = k\<close> and an optional cutoff, a row is
  selected for pruning exactly when it is not one of the \<open>k\<close> rows with the greatest
  journal sequence numbers and, if there is a cutoff, was archived strictly before it.
  The protected rows are \<open>min k (length rows)\<close> many and no other row is newer than any of
  them.
\<close>

theorem prune_selection_exact:
  assumes "0 \<le> k" and "distinct (map hv_seq es)" and "e \<in> set es"
  shows "(e \<in> set (selectPruneVersions es (Some k) c) \<longleftrightarrow>
      e \<notin> set (newestRows (nat k) es) \<and> (case c of None \<Rightarrow> True | Some t \<Rightarrow> hv_archivedAt e < t))
    \<and> length (newestRows (nat k) es) = min (nat k) (length es)
    \<and> (\<forall>n \<in> set (newestRows (nat k) es). e \<notin> set (newestRows (nat k) es) \<longrightarrow> hv_seq e \<le> hv_seq n)"
proof -
  let ?s = "sort_key hv_seq es" and ?n = "length es - nat k"
  have split: "?s = take ?n ?s @ drop ?n ?s" by simp
  have "distinct (map hv_seq ?s)"
    using assms(2) by (metis distinct_map distinct_sort inj_on_def set_sort)
  then have "distinct ?s" by (simp add: distinct_map)
  then have disj: "set (take ?n ?s) \<inter> set (drop ?n ?s) = {}"
    by (rule set_take_disj_set_drop_if_distinct) simp
  have un: "set es = set (take ?n ?s) \<union> set (drop ?n ?s)"
    by (metis set_append set_sort split)
  have sorted: "sorted (map hv_seq (take ?n ?s @ drop ?n ?s))"
    by (simp only: append_take_drop_id sorted_sort_key)
  have sel: "e \<in> set (selectPruneVersions es (Some k) c) \<longleftrightarrow>
      e \<in> set (take ?n ?s) \<and> (case c of None \<Rightarrow> True | Some t \<Rightarrow> hv_archivedAt e < t)"
    by (simp add: selectPrune_split [OF assms(1)])
  have "e \<in> set (take ?n ?s) \<longleftrightarrow> e \<notin> set (drop ?n ?s)"
    using assms(3) un disj by blast
  moreover have "hv_seq e \<le> hv_seq n" if "e \<in> set (take ?n ?s)" "n \<in> set (drop ?n ?s)" for n
    using sorted that by (simp add: sorted_append del: append_take_drop_id)
  moreover have "length (drop ?n ?s) = min (nat k) (length es)" by simp
  ultimately show ?thesis unfolding newestRows_def sel by blast
qed

theorem prune_selection_exact_witness:
  "(sample_row CHR ''1'' 4 \<in> set (selectPruneVersions [sample_row CHR ''2'' 7, sample_row CHR ''1'' 4] (Some 1) (Some 50)) \<longleftrightarrow>
      sample_row CHR ''1'' 4 \<notin> set (newestRows 1 [sample_row CHR ''2'' 7, sample_row CHR ''1'' 4])
      \<and> hv_archivedAt (sample_row CHR ''1'' 4) < 50)
    \<and> length (newestRows 1 [sample_row CHR ''2'' 7, sample_row CHR ''1'' 4]) = 1"
  using prune_selection_exact [of 1 "[sample_row CHR ''2'' 7, sample_row CHR ''1'' 4]"
      "sample_row CHR ''1'' 4" "Some 50"]
  by (simp add: sample_row_def)

text \<open>
  A prune that runs to completion removes exactly the planned rows, from exactly the
  keys they belong to, keeps the order of the rows it retains, and touches neither the
  current objects nor the uploads in progress.
\<close>

theorem prune_removes_exactly_the_plan:
  assumes "json_ok J" and "\<forall>v \<in> set (pr_Versions res). row_utf8 v"
    and "applyHistoryPrune J ff io target res s = ((None, res'), s')"
  shows "history_of (s_ns s') bk k
      = filter (\<lambda>h. (bk, k, hv_versionID h) \<notin> version_row ` set (pr_Versions res)) (history_of (s_ns s) bk k)
    \<and> ns_buckets (s_ns s') = ns_buckets (s_ns s) \<and> ns_uploads (s_ns s') = ns_uploads (s_ns s)"
proof (cases "pr_Versions res = []")
  case True
  with assms(3) show ?thesis by (simp add: applyHistoryPrune_def)
next
  case False
  let ?ess = "pruneFrameEntries target [] 0 (pr_Versions res)"
  obtain frames u s1 where f: "marshalFrames J ?ess = Inr frames"
    and e: "ensureStoreFormat ff storeFormatVersionHistoryPrune s = (Inr u, s1)"
    and run: "applyPruneFrames J io frames res s1 = ((None, res'), s')"
    using assms(3) False
    by (auto simp: applyHistoryPrune_def buildPruneFrames_def split: sum.splits prod.splits)
  have s1: "s_ns s1 = s_ns s" using ensureStoreFormat_frame [OF e] by simp
  moreover have "\<forall>es \<in> set ?ess. map coerce_prune es = es"
    using pruneFrameEntries_utf8 [OF assms(2), of "[]"] by auto
  ultimately have "history_of (s_ns s') bk k
      = filter (\<lambda>h. (bk, k, hv_versionID h) \<notin> set (concat (map frame_rows ?ess))) (history_of (s_ns s) bk k)"
    using applyPruneFrames_history [OF assms(1) f _ run] by simp
  then show ?thesis
    using applyPruneFrames_frame [OF run] s1 by (simp add: pruneFrameEntries_rows)
qed

theorem prune_removes_exactly_the_plan_witness:
  "fst (fst (applyHistoryPrune sample_codec False (\<lambda>_. AppendOk) 100 sample_plan sample_store)) = None
   \<and> history_of (s_ns (snd (applyHistoryPrune sample_codec False (\<lambda>_. AppendOk) 100 sample_plan sample_store)))
        ''b'' ''k'' = [sample_row CHR ''2'' 7]"
proof -
  let ?r = "applyHistoryPrune sample_codec False (\<lambda>_. AppendOk) 100 sample_plan sample_store"
  have J: "json_ok sample_codec" by (simp add: sample_codec_def)
  have u: "\<forall>v \<in> set (pr_Versions sample_plan). row_utf8 v"
    using utf8_sample by (simp add: sample_plan_def row_utf8_def pruneVersion_def sample_row_def)
  have ok: "fst (fst ?r) = None"
    using canonical_sample utf8_sample
    by (simp add: applyHistoryPrune_def buildPruneFrames_def sample_plan_def sample_codec_def sample_store_def
        pruneVersion_def sample_row_def addPruneVersion_def ensureStoreFormat_def storeFormatVersionHistoryPrune_def
        table_codec_def coerce_prune_def utf8_valid_def applyPruneFrame_def decodePruneFrame_def
        parsePruneHistoryPayload_def valid_prune_entry_def appendFrame_def empty_journal_def maxJournalPayload_def
        Let_def split: prod.splits)
  then have "?r = ((None, snd (fst ?r)), snd ?r)" by (metis prod.collapse)
  from prune_removes_exactly_the_plan [OF J u this, of "''b''" "''k''"] ok show ?thesis
    by (simp add: sample_store_def history_of_def sample_plan_def version_row_def pruneVersion_def
        sample_row_def sample_uuid_def)
qed

end
