(* ===== verification/Durability.thy ===== *)
theory Durability
  imports History
begin

text \<open>
  Opening a store and surviving crashes (\<^verbatim>\<open>zeros3.go\<close>, section 6): \<open>OpenStore\<close> reads
  \<^verbatim>\<open>FORMAT.json\<close>, opens the journal and folds its records into an empty namespace.
  \<open>store_step\<close> is one operation of a running store, or a restart, with every behaviour of
  the disk under an append; \<open>operation\<close> and \<open>perform\<close> give the same steps as functions, so that a history
  of the server is a list of operations. The theorems say what a restart finds after any such history.
\<close>

section \<open>Opening a store\<close>

definition storeFormatVersion :: int where
  "storeFormatVersion = 1"

definition storeFormatVersionSupported :: int where
  "storeFormatVersionSupported = 9"

definition cdcFormatVersion :: int where
  "cdcFormatVersion = 1"

definition supportedStoreFormat :: "int \<Rightarrow> bool" where
  "supportedStoreFormat v \<longleftrightarrow> storeFormatVersion \<le> v \<and> v \<le> storeFormatVersionSupported"

text \<open>What reading \<^verbatim>\<open>FORMAT.json\<close> and decoding it gives.\<close>

datatype format_read = FormatFile storeFormat | FormatCorrupt | FormatMissing | FormatUnreadable

text \<open>\<open>write_fails\<close>: writing a new \<^verbatim>\<open>FORMAT.json\<close> fails.\<close>

definition loadOrInitFormat :: "string \<Rightarrow> bool \<Rightarrow> format_read \<Rightarrow> err + storeFormat" where
  "loadOrInitFormat uuid write_fails r =
     (case r of
        FormatFile f \<Rightarrow>
          if \<not> supportedStoreFormat (sf_StoreFormatVersion f) then Inl (ErrFormat ''unsupported store format version'')
          else if sf_CDCFormatVersion f \<noteq> cdcFormatVersion then Inl (ErrFormat ''unsupported CDC format version'')
          else if sf_HashAlgorithm f \<noteq> ''sha256'' then Inl (ErrFormat ''unsupported hash algorithm'')
          else Inr f
      | FormatCorrupt \<Rightarrow> Inl (ErrFormat ''FORMAT.json is corrupt'')
      | FormatUnreadable \<Rightarrow> Inl ErrIO
      | FormatMissing \<Rightarrow>
          if write_fails then Inl ErrIO
          else Inr \<lparr>sf_StoreFormatVersion = storeFormatVersion, sf_CDCFormatVersion = cdcFormatVersion,
                    sf_HashAlgorithm = ''sha256'', sf_StoreID = uuid\<rparr>)"

text \<open>
  \<open>OpenStore\<close> up to the end of the replay; the checks of the tier roots and of the pack
  directory that follow read other files and change neither the journal nor the namespace.
\<close>

definition OpenStore ::
  "json_codec \<Rightarrow> string \<Rightarrow> bool \<Rightarrow> format_read \<Rightarrow> (nat \<Rightarrow> bool) \<Rightarrow> bool \<Rightarrow> bytes \<Rightarrow> err + store" where
  "OpenStore J uuid write_fails fmt read_fails trunc_fails file =
     bind_result (loadOrInitFormat uuid write_fails fmt)
       (\<lambda>format. case openJournal read_fails trunc_fails file of
          Inl e \<Rightarrow> Inl (ErrOpen e)
        | Inr (j, records) \<Rightarrow>
            bind_result (fold_result (applyRecord J) records empty_namespace)
              (\<lambda>ns. Inr \<lparr>s_format = format, s_journal = j, s_ns = ns\<rparr>))"

section \<open>Valid strings\<close>

lemma namespace_utf8_setObject:
  "namespace_utf8 ns \<Longrightarrow> fmlookup (ns_buckets ns) b = Some be \<Longrightarrow> entry_utf8 e
    \<Longrightarrow> namespace_utf8 (setObject b be k e ns)"
  unfolding namespace_utf8_def setObject_def by (auto split: if_splits)

lemma namespace_utf8_dropObject:
  "namespace_utf8 ns \<Longrightarrow> fmlookup (ns_buckets ns) b = Some be
    \<Longrightarrow> namespace_utf8 (dropObject b be k ns)"
  unfolding namespace_utf8_def dropObject_def by (auto split: if_splits)

lemma namespace_utf8_cong:
  "ns_buckets ns' = ns_buckets ns \<Longrightarrow> namespace_utf8 ns' = namespace_utf8 ns"
  by (simp add: namespace_utf8_def)

lemma namespace_utf8_newBucket:
  "namespace_utf8 ns \<Longrightarrow> namespace_utf8 (ns\<lparr>ns_buckets := fmupd b (newBucket b at) (ns_buckets ns)\<rparr>)"
  by (auto simp: namespace_utf8_def newBucket_def)

lemma namespace_utf8_dropBucket:
  "namespace_utf8 ns \<Longrightarrow> namespace_utf8 (ns\<lparr>ns_buckets := fmdrop b (ns_buckets ns)\<rparr>)"
  by (auto simp: namespace_utf8_def)

lemma putEntry_utf8:
  "coerce_put p = p \<Longrightarrow> entry_utf8 (putEntry p dg seq)"
  by (cases p) (auto simp: coerce_put_def putEntry_def entry_utf8_def utf8_valid_def)

lemma payload_utf8_put:
  "payload_utf8 (PutP p) \<Longrightarrow> coerce_put p = p"
  "payload_utf8 (PutV2P q) \<Longrightarrow> entry_utf8 (putEntry q dg seq)"
  "payload_utf8 (CompleteMultipartP r) \<Longrightarrow> entry_utf8 (putEntry r dg seq)"
  "payload_utf8 (CompleteMultipartV2P u) \<Longrightarrow> entry_utf8 (putEntry u dg seq)"
  by (cases p; cases q; cases r; cases u;
      auto simp: payload_utf8_def coerce_put_def putEntry_def entry_utf8_def utf8_valid_def)+

text \<open>Applying a record of valid strings leaves only valid strings in the entries.\<close>

lemma applyPayload_utf8:
  assumes "payload_utf8 p" "namespace_utf8 ns" "applyPayload seq p ns = Inr ns'"
  shows "namespace_utf8 ns'"
proof (cases p)
  case (CreateBucketP x)
  with assms show ?thesis
    by (auto simp: applyCreateBucket_def namespace_utf8_newBucket split: option.splits)
next
  case (PutP x)
  with assms show ?thesis
    by (auto simp: applyPutObjectRoot_def split: option.splits
        intro!: namespace_utf8_setObject putEntry_utf8 payload_utf8_put)
next
  case (DeleteObjectP x)
  with assms show ?thesis
    by (auto simp: applyDeleteObjectRoot_def split: option.splits intro!: namespace_utf8_dropObject)
next
  case (DeleteBucketP x)
  with assms show ?thesis
    by (auto simp: applyDeleteBucket_def namespace_utf8_dropBucket split: option.splits)
next
  case (CreateMultipartP x)
  with assms show ?thesis by (auto simp: applyCreateMultipart_def namespace_utf8_def)
next
  case (UploadPartP x)
  with assms show ?thesis
    by (auto simp: applyUploadPart_def namespace_utf8_def split: option.splits)
next
  case (AbortMultipartP x)
  with assms show ?thesis
    by (auto simp: applyAbortMultipart_def namespace_utf8_def split: option.splits)
next
  case (CompleteMultipartP x)
  then obtain b dg where "fmlookup (ns_buckets ns) (pp_Bucket x) = Some b"
    and "ns_buckets ns' = ns_buckets (setObject (pp_Bucket x) b (pp_Key x) (putEntry x dg seq) ns)"
    using assms(3) by (auto simp: applyCompleteMultipart_def Let_def split: option.splits if_splits)
  with assms(1,2) CompleteMultipartP show ?thesis
    using namespace_utf8_setObject payload_utf8_put(3) namespace_utf8_cong by metis
next
  case (PutV2P x)
  then obtain b dg ns1 where b: "fmlookup (ns_buckets ns) (pp_Bucket x) = Some b"
    and a: "archivePrevious (pp_Bucket x) (pp_Key x) seq (p2_Previous x) ns = Inr ns1"
    and ns': "ns' = setObject (pp_Bucket x) b (pp_Key x) (putEntry x dg seq) ns1"
    using assms(3) by (auto simp: applyPutObjectRootV2_def split: option.splits sum.splits)
  from archivePrevious_buckets [OF a] have e: "ns_buckets ns1 = ns_buckets ns" by simp
  with assms(1,2) PutV2P b namespace_utf8_cong [OF e] show ?thesis
    unfolding ns' by (intro namespace_utf8_setObject) (simp_all add: payload_utf8_put)
next
  case (CompleteMultipartV2P x)
  then obtain b dg ns1 where b: "fmlookup (ns_buckets ns) (pp_Bucket x) = Some b"
    and a: "archivePrevious (pp_Bucket x) (pp_Key x) seq (c2_Previous x) ns = Inr ns1"
    and ns': "ns_buckets ns' = ns_buckets (setObject (pp_Bucket x) b (pp_Key x) (putEntry x dg seq) ns1)"
    using assms(3)
    by (auto simp: applyCompleteMultipartV2_def Let_def split: option.splits sum.splits if_splits)
  from archivePrevious_buckets [OF a] have e: "ns_buckets ns1 = ns_buckets ns" by simp
  with assms(1,2) CompleteMultipartV2P b namespace_utf8_cong [OF e] show ?thesis
    unfolding namespace_utf8_cong [OF ns']
    by (intro namespace_utf8_setObject) (simp_all add: payload_utf8_put)
next
  case (DeleteObjectV2P x)
  then obtain b ns1 where b: "fmlookup (ns_buckets ns) (do_Bucket x) = Some b"
    and a: "archiveVersionLocked (do_Bucket x) (do_Key x) seq (d2_Archived x) ns = Inr ns1"
    and ns': "ns' = dropObject (do_Bucket x) b (do_Key x) ns1"
    using assms(3) by (auto simp: applyDeleteObjectRootV2_def split: option.splits sum.splits)
  from archive_buckets [OF a] have e: "ns_buckets ns1 = ns_buckets ns" by simp
  with assms(2) b namespace_utf8_cong [OF e] show ?thesis
    unfolding ns' by (intro namespace_utf8_dropObject) simp_all
next
  case (PruneHistoryP x)
  then obtain q where "ns' = snd (removeHistoryLocked q ns)"
    using assms(3) by (auto simp: applyPruneHistory_def)
  then have e: "ns_buckets ns' = ns_buckets ns" by (simp add: removeHistoryLocked_frame)
  from assms(2) show ?thesis by (simp only: namespace_utf8_cong [OF e])
qed

lemma store_consistent_utf8:
  assumes "json_ok J" "store_consistent J s"
  shows "namespace_utf8 (s_ns s)"
proof (rule nsj.consistent_invariant [OF assms(2) [unfolded store_consistent_def]])
  show "namespace_utf8 empty_namespace" by (simp add: namespace_utf8_def empty_namespace_def)
next
  fix r ns ns'
  assume "marshalled J r" and u: "namespace_utf8 ns" and a: "applyRecord J r ns = Inr ns'"
  then obtain p where p: "payload_utf8 p" "json_marshal J p = Some (jr_payload r)" "jr_type r = record_type_of p"
    by (auto simp: marshalled_def)
  then have "applyPayload (jr_seq r) p ns = Inr ns'"
    using a applyRecord_marshalled [OF assms(1) p(1,2), of "jr_seq r" ns] by (cases r) simp
  then show "namespace_utf8 ns'" by (rule applyPayload_utf8 [OF p(1) u])
qed

section \<open>Histories of a store\<close>

text \<open>
  One step: an operation with any outcome of its append, or a restart on the files left
  behind. The strings that clients choose are valid UTF-8 here (see \<open>invalid_key_is_renamed\<close>
  for what happens otherwise); the identifiers the store itself generates are UUIDs.
\<close>

inductive store_step :: "json_codec \<Rightarrow> store \<Rightarrow> store \<Rightarrow> bool" for J where
  step_create_bucket:
    "utf8_valid name \<Longrightarrow> CreateBucket J ev name s = (r1, s') \<Longrightarrow> store_step J s s'"
| step_delete_bucket:
    "utf8_valid name \<Longrightarrow> DeleteBucket J ev name s = (r1, s') \<Longrightarrow> store_step J s s'"
| step_delete_object:
    "utf8_valid bucket \<Longrightarrow> utf8_valid key \<Longrightarrow> utf8_valid (e_uuid ev)
      \<Longrightarrow> DeleteObject J ev bucket key s = (r1, s') \<Longrightarrow> store_step J s s'"
| step_commit:
    "utf8_valid bucket \<Longrightarrow> utf8_valid key \<Longrightarrow> utf8_valid manUUID \<Longrightarrow> manifest_utf8 man
      \<Longrightarrow> utf8_valid (e_uuid ev)
      \<Longrightarrow> commitObjectRootChecked J ev bucket key manUUID manSHA man check s = (r2, s')
      \<Longrightarrow> store_step J s s'"
| step_create_upload:
    "utf8_valid bucket \<Longrightarrow> utf8_valid key \<Longrightarrow> utf8_valid contentType \<Longrightarrow> metadata_utf8 md
      \<Longrightarrow> utf8_valid (e_uuid ev)
      \<Longrightarrow> CreateMultipartUpload J ev bucket key contentType md s = (r3, s') \<Longrightarrow> store_step J s s'"
| step_part:
    "utf8_valid uploadID \<Longrightarrow> ingest_utf8 ing
      \<Longrightarrow> commitPart J ev bucket key uploadID n ing s = (r3, s') \<Longrightarrow> store_step J s s'"
| step_abort:
    "utf8_valid uploadID \<Longrightarrow> AbortMultipartUpload J ev bucket key uploadID s = (r1, s')
      \<Longrightarrow> store_step J s s'"
| step_complete:
    "utf8_valid bucket \<Longrightarrow> utf8_valid key \<Longrightarrow> utf8_valid uploadID \<Longrightarrow> utf8_valid manUUID
      \<Longrightarrow> manifest_utf8 man \<Longrightarrow> utf8_valid (e_uuid ev)
      \<Longrightarrow> completeCommit J ev bucket key uploadID manUUID manSHA man s = (r2, s')
      \<Longrightarrow> store_step J s s'"
| step_prune:
    "\<forall>v \<in> set (pr_Versions res). row_utf8 v
      \<Longrightarrow> applyHistoryPrune J ff io target res s = ((r4, res'), s') \<Longrightarrow> store_step J s s'"
| step_restart:
    "OpenStore J uuid write_fails (FormatFile (s_format s)) no_read_errors False (j_f (s_journal s)) = Inr s'
      \<Longrightarrow> store_step J s s'"

inductive reachable :: "json_codec \<Rightarrow> store \<Rightarrow> bool" for J where
  fresh: "OpenStore J uuid False FormatMissing no_read_errors False [] = Inr s \<Longrightarrow> reachable J s"
| step: "reachable J s \<Longrightarrow> store_step J s s' \<Longrightarrow> reachable J s'"

section \<open>The invariant\<close>

definition format_ok :: "storeFormat \<Rightarrow> bool" where
  "format_ok f \<longleftrightarrow> supportedStoreFormat (sf_StoreFormatVersion f)
     \<and> sf_CDCFormatVersion f = cdcFormatVersion \<and> sf_HashAlgorithm f = ''sha256''"

definition store_inv :: "json_codec \<Rightarrow> store \<Rightarrow> bool" where
  "store_inv J s \<longleftrightarrow> store_consistent J s \<and> format_ok (s_format s)"

lemma loadOrInitFormat_file [simp]:
  "loadOrInitFormat uuid ff (FormatFile f) = Inr f' \<longleftrightarrow> format_ok f \<and> f' = f"
  by (auto simp: loadOrInitFormat_def format_ok_def)

lemma OpenStore_consistent:
  assumes "store_inv J s"
  shows "\<exists>s'. OpenStore J uuid ff (FormatFile (s_format s)) no_read_errors False (j_f (s_journal s)) = Inr s'
    \<and> store_inv J s' \<and> s_format s' = s_format s \<and> journal_healthy (s_journal s')
    \<and> (s_ns s' = s_ns s \<or> \<not> journal_healthy (s_journal s)
         \<and> (\<exists>r. applyRecord J r (s_ns s) = Inr (s_ns s')))"
proof -
  from assms have c: "nsj.consistent J (s_journal s) (s_ns s)" and f: "format_ok (s_format s)"
    by (simp_all add: store_inv_def store_consistent_def)
  obtain j rs ns where "openJournal no_read_errors False (j_f (s_journal s)) = Inr (j, rs)"
    and "fold_result (applyRecord J) rs empty_namespace = Inr ns" and "nsj.consistent J j ns" "journal_healthy j"
    and "ns = s_ns s \<or> \<not> journal_healthy (s_journal s) \<and> (\<exists>r. applyRecord J r (s_ns s) = Inr ns)"
    using nsj.recovery [OF c] by (auto simp: journal_reopen_def)
  moreover from f have "loadOrInitFormat uuid ff (FormatFile (s_format s)) = Inr (s_format s)" by simp
  ultimately show ?thesis
    using f by (auto simp: OpenStore_def store_inv_def store_consistent_def)
qed

lemma OpenStore_healthy:
  assumes "store_inv J s" "journal_healthy (s_journal s)"
  shows "OpenStore J uuid ff (FormatFile (s_format s)) no_read_errors False (j_f (s_journal s)) = Inr s"
proof -
  from assms have c: "nsj.consistent J (s_journal s) (s_ns s)" and f: "format_ok (s_format s)"
    by (simp_all add: store_inv_def store_consistent_def)
  obtain rs where "openJournal no_read_errors False (j_f (s_journal s)) = Inr (s_journal s, rs)"
    and "fold_result (applyRecord J) rs empty_namespace = Inr (s_ns s)"
    using nsj.healthy_reopen [OF c assms(2)] by (auto simp: journal_reopen_def)
  moreover from f have "loadOrInitFormat uuid ff (FormatFile (s_format s)) = Inr (s_format s)" by simp
  ultimately show ?thesis by (simp add: OpenStore_def)
qed

lemma OpenStore_fresh:
  "OpenStore J uuid False FormatMissing no_read_errors False [] =
     Inr \<lparr>s_format = \<lparr>sf_StoreFormatVersion = 1, sf_CDCFormatVersion = 1, sf_HashAlgorithm = ''sha256'',
                      sf_StoreID = uuid\<rparr>, s_journal = empty_journal, s_ns = empty_namespace\<rparr>"
  using replayJournal_encode [of "[]"]
  by (simp add: OpenStore_def loadOrInitFormat_def openJournal_def empty_journal_def storeFormatVersion_def
      cdcFormatVersion_def)

lemma journal_empty [simp]: "journal_acked empty_journal = []" "journal_recovered empty_journal = Some []"
  using journal_acked_holds [OF empty_journal_holds] log.recovered_healthy [OF journal_inv_empty]
  by (simp_all add: journal_healthy_def empty_journal_def)

lemma store_inv_fresh:
  "OpenStore J uuid False FormatMissing no_read_errors False [] = Inr s \<Longrightarrow> store_inv J s"
  unfolding OpenStore_fresh
  by (auto simp: store_inv_def store_consistent_def nsj.consistent_def format_ok_def supportedStoreFormat_def
      storeFormatVersion_def storeFormatVersionSupported_def cdcFormatVersion_def)

lemma appendRecord_format [simp]: "appendRecord J io p s = (q, s1) \<Longrightarrow> s_format s1 = s_format s"
  by (simp add: appendRecord_frame)

lemmas operation_defs = CreateBucket_def DeleteBucket_def DeleteObject_def commitObjectRootChecked_def
  CreateMultipartUpload_def commitPart_def AbortMultipartUpload_def completeCommit_def

lemma operation_format:
  "CreateBucket J ev name s = (r1, s') \<Longrightarrow> s_format s' = s_format s"
  "DeleteBucket J ev name s = (r1, s') \<Longrightarrow> s_format s' = s_format s"
  "DeleteObject J ev bucket key s = (r1, s') \<Longrightarrow> s_format s' = s_format s"
  "commitObjectRootChecked J ev bucket key manUUID manSHA man check s = (r2, s') \<Longrightarrow> s_format s' = s_format s"
  "CreateMultipartUpload J ev bucket key contentType md s = (r3, s') \<Longrightarrow> s_format s' = s_format s"
  "commitPart J ev bucket key uploadID n ing s = (r3, s') \<Longrightarrow> s_format s' = s_format s"
  "AbortMultipartUpload J ev bucket key uploadID s = (r1, s') \<Longrightarrow> s_format s' = s_format s"
  "completeCommit J ev bucket key uploadID manUUID manSHA man s = (r2, s') \<Longrightarrow> s_format s' = s_format s"
  by (auto simp: operation_defs Let_def split: if_splits option.splits prod.splits sum.splits)

lemma applyPruneFrames_format:
  "applyPruneFrames J io bs res s = ((r, res'), s') \<Longrightarrow> s_format s' = s_format s"
  by (induction J io bs res s rule: applyPruneFrames.induct)
     (auto simp: applyPruneFrame_def split: prod.splits sum.splits)

lemma applyHistoryPrune_format:
  "applyHistoryPrune J ff io target res s = ((r, res'), s') \<Longrightarrow> format_ok (s_format s) \<Longrightarrow> format_ok (s_format s')"
  by (auto simp: applyHistoryPrune_def ensureStoreFormat_def format_ok_def supportedStoreFormat_def
      storeFormatVersionHistoryPrune_def storeFormatVersion_def storeFormatVersionSupported_def
      split: if_splits sum.splits prod.splits dest!: applyPruneFrames_format)

lemma store_step_inv:
  assumes "json_ok J" "store_inv J s" "store_step J s s'"
  shows "store_inv J s'"
proof -
  from assms(2) have c: "store_consistent J s" and f: "format_ok (s_format s)"
    by (simp_all add: store_inv_def)
  note u = store_consistent_utf8 [OF assms(1) c]
  from assms(3) show ?thesis
  proof cases
    case (step_create_bucket name ev r1)
    with f show ?thesis
      using CreateBucket_consistent [OF assms(1) c] operation_format(1) by (simp add: store_inv_def)
  next
    case (step_delete_bucket name ev r1)
    with f show ?thesis
      using DeleteBucket_consistent [OF assms(1) c] operation_format(2) by (simp add: store_inv_def)
  next
    case (step_delete_object bucket key ev r1)
    with f show ?thesis
      using DeleteObject_consistent [OF assms(1) c u] operation_format(3) by (simp add: store_inv_def)
  next
    case (step_commit bucket key manUUID man ev manSHA check r2)
    with f show ?thesis
      using commitObjectRootChecked_consistent [OF assms(1) c u] operation_format(4) by (simp add: store_inv_def)
  next
    case (step_create_upload bucket key contentType md ev r3)
    with f show ?thesis
      using CreateMultipartUpload_consistent [OF assms(1) c] operation_format(5) by (simp add: store_inv_def)
  next
    case (step_part uploadID ing ev bucket key n r3)
    with f show ?thesis
      using commitPart_consistent [OF assms(1) c] operation_format(6) by (simp add: store_inv_def)
  next
    case (step_abort uploadID ev bucket key r1)
    with f show ?thesis
      using AbortMultipartUpload_consistent [OF assms(1) c] operation_format(7) by (simp add: store_inv_def)
  next
    case (step_complete bucket key uploadID manUUID man ev manSHA r2)
    with f show ?thesis
      using completeCommit_consistent [OF assms(1) c u] operation_format(8) by (simp add: store_inv_def)
  next
    case (step_prune res ff io target r4 res')
    with f show ?thesis
      using applyHistoryPrune_consistent [OF c] applyHistoryPrune_format by (simp add: store_inv_def)
  next
    case (step_restart uuid ff)
    with OpenStore_consistent [OF assms(2), of uuid ff] show ?thesis by auto
  qed
qed

lemma reachable_inv: "reachable J s \<Longrightarrow> json_ok J \<Longrightarrow> store_inv J s"
  by (induction rule: reachable.induct) (auto intro: store_inv_fresh store_step_inv)

section \<open>Histories as lists of operations\<close>

text \<open>
  The same histories as data: the operations a client asks for with all they are given, the
  behaviour of the disk under their appends included, and the restarts.
\<close>

datatype operation =
    DoCreateBucket env string
  | DoDeleteBucket env string
  | DoDeleteObject env string string
  | DoCommit env string string string digest manifestV1 "(objectEntry option \<Rightarrow> err + unit) option"
  | DoCreateUpload env string string string "(string, string) fmap"
  | DoPart env string string string int ingestResult
  | DoAbort env string string string
  | DoComplete env string string string string digest manifestV1
  | DoPrune bool "nat \<Rightarrow> append_io" nat HistoryPruneResult
  | DoRestart string bool

fun perform :: "json_codec \<Rightarrow> operation \<Rightarrow> store \<Rightarrow> store" where
  "perform J (DoCreateBucket ev name) s = snd (CreateBucket J ev name s)"
| "perform J (DoDeleteBucket ev name) s = snd (DeleteBucket J ev name s)"
| "perform J (DoDeleteObject ev bucket key) s = snd (DeleteObject J ev bucket key s)"
| "perform J (DoCommit ev bucket key manUUID manSHA man check) s =
     snd (commitObjectRootChecked J ev bucket key manUUID manSHA man check s)"
| "perform J (DoCreateUpload ev bucket key contentType md) s =
     snd (CreateMultipartUpload J ev bucket key contentType md s)"
| "perform J (DoPart ev bucket key uploadID n ing) s = snd (commitPart J ev bucket key uploadID n ing s)"
| "perform J (DoAbort ev bucket key uploadID) s = snd (AbortMultipartUpload J ev bucket key uploadID s)"
| "perform J (DoComplete ev bucket key uploadID manUUID manSHA man) s =
     snd (completeCommit J ev bucket key uploadID manUUID manSHA man s)"
| "perform J (DoPrune ff io target res) s = snd (applyHistoryPrune J ff io target res s)"
| "perform J (DoRestart uuid ff) s =
     (case OpenStore J uuid ff (FormatFile (s_format s)) no_read_errors False (j_f (s_journal s)) of
        Inl e \<Rightarrow> s | Inr s' \<Rightarrow> s')"

text \<open>
  The restriction of the theorems below: every string a client chooses (bucket, key, upload
  identifier, content type, metadata, ETag) and every generated identifier is valid UTF-8.
\<close>

fun utf8_operation :: "operation \<Rightarrow> bool" where
  "utf8_operation (DoCreateBucket ev name) \<longleftrightarrow> utf8_valid name"
| "utf8_operation (DoDeleteBucket ev name) \<longleftrightarrow> utf8_valid name"
| "utf8_operation (DoDeleteObject ev bucket key) \<longleftrightarrow> utf8_valid bucket \<and> utf8_valid key \<and> utf8_valid (e_uuid ev)"
| "utf8_operation (DoCommit ev bucket key manUUID manSHA man check) \<longleftrightarrow> utf8_valid bucket \<and> utf8_valid key
     \<and> utf8_valid manUUID \<and> manifest_utf8 man \<and> utf8_valid (e_uuid ev)"
| "utf8_operation (DoCreateUpload ev bucket key contentType md) \<longleftrightarrow> utf8_valid bucket \<and> utf8_valid key
     \<and> utf8_valid contentType \<and> metadata_utf8 md \<and> utf8_valid (e_uuid ev)"
| "utf8_operation (DoPart ev bucket key uploadID n ing) \<longleftrightarrow> utf8_valid uploadID \<and> ingest_utf8 ing"
| "utf8_operation (DoAbort ev bucket key uploadID) \<longleftrightarrow> utf8_valid uploadID"
| "utf8_operation (DoComplete ev bucket key uploadID manUUID manSHA man) \<longleftrightarrow> utf8_valid bucket \<and> utf8_valid key
     \<and> utf8_valid uploadID \<and> utf8_valid manUUID \<and> manifest_utf8 man \<and> utf8_valid (e_uuid ev)"
| "utf8_operation (DoPrune ff io target res) \<longleftrightarrow> list_all row_utf8 (pr_Versions res)"
| "utf8_operation (DoRestart uuid ff) \<longleftrightarrow> True"

text \<open>
  The operation as it would have gone had its append been acknowledged. A prune appends one
  record per frame: it is taken up to and including the frame at which it stopped.
\<close>

definition pruned_frames :: "json_codec \<Rightarrow> bool \<Rightarrow> (nat \<Rightarrow> append_io) \<Rightarrow> nat \<Rightarrow> HistoryPruneResult \<Rightarrow> store \<Rightarrow> nat" where
  "pruned_frames J ff io target res s =
     pr_JournalFrames (snd (fst (applyHistoryPrune J ff io target res s))) - pr_JournalFrames res"

definition up_to :: "nat \<Rightarrow> nat \<Rightarrow> append_io" where
  "up_to n i = (if i \<le> n then AppendOk else WriteFails 0)"

fun acknowledged :: "json_codec \<Rightarrow> operation \<Rightarrow> store \<Rightarrow> operation" where
  "acknowledged J (DoCreateBucket ev name) s = DoCreateBucket (ev\<lparr>e_io := AppendOk\<rparr>) name"
| "acknowledged J (DoDeleteBucket ev name) s = DoDeleteBucket (ev\<lparr>e_io := AppendOk\<rparr>) name"
| "acknowledged J (DoDeleteObject ev bucket key) s = DoDeleteObject (ev\<lparr>e_io := AppendOk\<rparr>) bucket key"
| "acknowledged J (DoCommit ev bucket key manUUID manSHA man check) s =
     DoCommit (ev\<lparr>e_io := AppendOk\<rparr>) bucket key manUUID manSHA man check"
| "acknowledged J (DoCreateUpload ev bucket key contentType md) s =
     DoCreateUpload (ev\<lparr>e_io := AppendOk\<rparr>) bucket key contentType md"
| "acknowledged J (DoPart ev bucket key uploadID n ing) s = DoPart (ev\<lparr>e_io := AppendOk\<rparr>) bucket key uploadID n ing"
| "acknowledged J (DoAbort ev bucket key uploadID) s = DoAbort (ev\<lparr>e_io := AppendOk\<rparr>) bucket key uploadID"
| "acknowledged J (DoComplete ev bucket key uploadID manUUID manSHA man) s =
     DoComplete (ev\<lparr>e_io := AppendOk\<rparr>) bucket key uploadID manUUID manSHA man"
| "acknowledged J (DoPrune ff io target res) s = DoPrune ff (up_to (pruned_frames J ff io target res s)) target res"
| "acknowledged J (DoRestart uuid ff) s = DoRestart uuid ff"

text \<open>
  One step that also remembers what is in flight: when an operation poisons the journal, the
  namespace it would have left behind had that append been acknowledged.
\<close>

definition track :: "json_codec \<Rightarrow> operation \<Rightarrow> store \<times> namespace option \<Rightarrow> store \<times> namespace option" where
  "track J op sw =
     (case sw of (s, w) \<Rightarrow>
        let s' = perform J op s
        in (s', if journal_healthy (s_journal s') then None
                else if journal_healthy (s_journal s) then Some (s_ns (perform J (acknowledged J op s) s))
                else w))"

lemma perform_step:
  assumes "utf8_operation op"
  shows "perform J op s = s \<or> store_step J s (perform J op s)"
proof (cases op)
  case (DoCreateBucket ev name)
  with assms show ?thesis
    by (intro disjI2) (simp, rule step_create_bucket [OF _ prod.collapse [symmetric]], simp_all)
next
  case (DoDeleteBucket ev name)
  with assms show ?thesis
    by (intro disjI2) (simp, rule step_delete_bucket [OF _ prod.collapse [symmetric]], simp_all)
next
  case (DoDeleteObject ev bucket key)
  with assms show ?thesis
    by (intro disjI2) (simp, rule step_delete_object [OF _ _ _ prod.collapse [symmetric]], simp_all)
next
  case (DoCommit ev bucket key manUUID manSHA man check)
  with assms show ?thesis
    by (intro disjI2) (simp, rule step_commit [OF _ _ _ _ _ prod.collapse [symmetric]], simp_all)
next
  case (DoCreateUpload ev bucket key contentType md)
  with assms show ?thesis
    by (intro disjI2) (simp, rule step_create_upload [OF _ _ _ _ _ prod.collapse [symmetric]], simp_all)
next
  case (DoPart ev bucket key uploadID n ing)
  with assms show ?thesis
    by (intro disjI2) (simp, rule step_part [OF _ _ prod.collapse [symmetric]], simp_all)
next
  case (DoAbort ev bucket key uploadID)
  with assms show ?thesis
    by (intro disjI2) (simp, rule step_abort [OF _ prod.collapse [symmetric]], simp_all)
next
  case (DoComplete ev bucket key uploadID manUUID manSHA man)
  with assms show ?thesis
    by (intro disjI2) (simp, rule step_complete [OF _ _ _ _ _ _ prod.collapse [symmetric]], simp_all)
next
  case (DoPrune ff io target res)
  obtain r4 res' s' where a: "applyHistoryPrune J ff io target res s = ((r4, res'), s')" by (metis prod.exhaust)
  have "store_step J s s'"
    using assms DoPrune by (intro step_prune [OF _ a]) (simp add: list_all_iff)
  with DoPrune a show ?thesis by simp
next
  case (DoRestart uuid ff)
  then show ?thesis by (auto intro: step_restart split: sum.split)
qed

section \<open>The record in flight\<close>

text \<open>An append that poisons a good journal: what replay then finds.\<close>

lemma frame_in_flight:
  assumes c: "nsj.consistent J j ns" and "journal_healthy j" and t: "known_record_type t"
    and a: "appendFrame j t b io = (Inl e, j1)" and bad: "\<not> journal_healthy j1"
    and ap: "applyRecord J \<lparr>jr_seq = j_nextSeq j, jr_type = t, jr_payload = b\<rparr> ns = Inr ns1"
  shows "\<exists>j2. appendFrame j t b AppendOk = (Inr (j_nextSeq j), j2) \<and> journal_healthy j2"
    and "journal_recovered j1 = Some rs \<Longrightarrow> fold_result (applyRecord J) rs empty_namespace = Inr ns'
      \<Longrightarrow> ns' = ns \<or> ns' = ns1"
proof -
  have inv: "journal_inv j" and st: "fold_result (applyRecord J) (journal_acked j) empty_namespace = Inr ns"
    using c by (auto simp: nsj.consistent_def)
  have "j1 \<noteq> j" using assms(2) bad by auto
  then have "length b \<le> maxJournalPayload" using a by (auto simp: appendFrame_def split: if_splits)
  then show "\<exists>j2. appendFrame j t b AppendOk = (Inr (j_nextSeq j), j2) \<and> journal_healthy j2"
    using assms(2) by (simp add: appendFrame_def journal_healthy_def Let_def not_less)
  assume "journal_recovered j1 = Some rs" "fold_result (applyRecord J) rs empty_namespace = Inr ns'"
  then show "ns' = ns \<or> ns' = ns1"
    using log.append_err [OF inv t a] \<open>j1 \<noteq> j\<close> st ap by (auto simp: fold_result_append)
qed

text \<open>What a reopen of \<open>s\<close> can find, given that \<open>w\<close> is in flight.\<close>

definition finds :: "json_codec \<Rightarrow> store \<Rightarrow> namespace option \<Rightarrow> bool" where
  "finds J s w \<longleftrightarrow> (\<forall>rs ns. journal_recovered (s_journal s) = Some rs
     \<longrightarrow> fold_result (applyRecord J) rs empty_namespace = Inr ns \<longrightarrow> ns = s_ns s \<or> w = Some ns)"

lemma finds_healthy: "store_consistent J s \<Longrightarrow> journal_healthy (s_journal s) \<Longrightarrow> finds J s w"
  by (auto simp: finds_def store_consistent_def nsj.consistent_def)

lemma poisoned_append:
  "\<not> journal_healthy (s_journal s) \<Longrightarrow> appendRecord J io p s = (q, s1) \<Longrightarrow> (\<exists>e. q = Inl e) \<and> s1 = s"
proof (cases "json_marshal J p")
  case (Some b)
  assume "\<not> journal_healthy (s_journal s)" and a: "appendRecord J io p s = (q, s1)"
  then have "\<exists>e. appendFrame (s_journal s) (record_type_of p) b io = (Inl e, s_journal s)"
    by (simp add: appendFrame_def journal_healthy_def)
  then obtain e where "appendFrame (s_journal s) (record_type_of p) b io = (Inl e, s_journal s)" ..
  with Some a have "(q, s1) = (Inl (ErrJournal e), s)" by (simp add: appendRecord_def)
  then show ?thesis by simp
qed (auto simp: appendRecord_def)

lemma journals_poisoned:
  assumes "journals J s run" "\<not> journal_healthy (s_journal s)"
  shows "run io = s"
  using assms(1) unfolding journals_def
proof (elim disjE exE conjE)
  fix p f
  assume run: "\<forall>io. run io = (case appendRecord J io p s of
      (Inl e, s1) \<Rightarrow> s1 | (Inr seq, s1) \<Rightarrow> s1\<lparr>s_ns := f seq\<rparr>)"
  obtain q s1 where ar: "appendRecord J io p s = (q, s1)" by fastforce
  obtain e where q: "q = Inl e" and s1: "s1 = s" using poisoned_append [OF assms(2) ar] by blast
  show ?thesis unfolding spec [OF run, of io] ar q s1 by simp
qed simp

text \<open>
  An operation that poisons the journal leaves the namespace alone, and a reopen finds
  either that namespace or the one of the acknowledged operation.
\<close>

lemma journals_in_flight:
  assumes "journals J s run" "json_ok J" "store_consistent J s"
    and "journal_healthy (s_journal s)" "\<not> journal_healthy (s_journal (run io))"
  shows "finds J (run io) (Some (s_ns (run AppendOk)))"
  using assms(1) unfolding journals_def
proof (elim disjE exE conjE)
  fix p f
  assume u: "payload_utf8 p" and f: "\<forall>seq. applyPayload seq p (s_ns s) = Inr (f seq)"
    and run: "\<forall>io. run io = (case appendRecord J io p s of
      (Inl e, s1) \<Rightarrow> s1 | (Inr seq, s1) \<Rightarrow> s1\<lparr>s_ns := f seq\<rparr>)"
  note c = assms(3) [unfolded store_consistent_def]
  obtain b where m: "json_marshal J p = Some b"
    using assms(4,5) run by (cases "json_marshal J p") (auto simp: appendRecord_def)
  obtain q j1 where a: "appendFrame (s_journal s) (record_type_of p) b io = (q, j1)" by fastforce
  have "\<not> (\<exists>seq. q = Inr seq)"
  proof
    assume "\<exists>seq. q = Inr seq"
    then obtain seq where "q = Inr seq" ..
    with a have "appendFrame (s_journal s) (record_type_of p) b io = (Inr seq, j1)" by simp
    from log.append_ok [OF _ known_record_type_of this] c have "journal_healthy j1"
      by (simp add: nsj.consistent_def)
    with assms(5) run a m \<open>q = Inr seq\<close> show False by (simp add: appendRecord_def)
  qed
  then obtain e where q: "q = Inl e" by (cases q) auto
  have r: "run io = s\<lparr>s_journal := j1\<rparr>" using run a m q by (simp add: appendRecord_def)
  have bad: "\<not> journal_healthy j1" using assms(5) r by simp
  have ap: "applyRecord J \<lparr>jr_seq = j_nextSeq (s_journal s), jr_type = record_type_of p, jr_payload = b\<rparr> (s_ns s)
      = Inr (f (j_nextSeq (s_journal s)))"
    using f by (simp add: applyRecord_marshalled [OF assms(2) u m])
  note fl = frame_in_flight [OF c assms(4) known_record_type_of a [unfolded q] bad ap]
  obtain j2 where "appendFrame (s_journal s) (record_type_of p) b AppendOk = (Inr (j_nextSeq (s_journal s)), j2)"
    using fl(1) by blast
  then have "run AppendOk = s\<lparr>s_journal := j2, s_ns := f (j_nextSeq (s_journal s))\<rparr>"
    using run m by (simp add: appendRecord_def)
  with fl(2) r show ?thesis by (auto simp: finds_def)
qed (use assms(4,5) in simp)

section \<open>Properties\<close>

definition fresh_store :: store where
  "fresh_store =
     \<lparr>s_format = \<lparr>sf_StoreFormatVersion = 1, sf_CDCFormatVersion = 1, sf_HashAlgorithm = ''sha256'',
                  sf_StoreID = ''id''\<rparr>, s_journal = empty_journal, s_ns = empty_namespace\<rparr>"

definition bucket_codec :: json_codec where
  "bucket_codec = table_codec [CreateBucketP \<lparr>cb_Bucket = ''b'', cb_CreatedAt = 7\<rparr>]"

definition store_env :: "append_io \<Rightarrow> env" where
  "store_env io = \<lparr>e_now = 7, e_uuid = ''u'', e_io = io\<rparr>"

lemma bucket_codec_ok: "json_ok bucket_codec"
  by (simp add: bucket_codec_def)

lemma utf8_b: "utf8_valid ''b''"
  by (rule utf8_valid_ascii) simp

lemma reachable_fresh: "reachable J fresh_store"
  by (rule reachable.fresh [where uuid = "''id''"]) (simp add: OpenStore_fresh fresh_store_def)

lemma reachable_created: "reachable J (snd (CreateBucket J ev ''b'' fresh_store))"
  by (rule reachable.step [OF reachable_fresh])
     (rule store_step.step_create_bucket [OF utf8_b prod.collapse [symmetric]])

lemmas create_sample_defs = CreateBucket_def fresh_store_def bucket_codec_def store_env_def appendRecord_def
  appendFrame_def empty_journal_def empty_namespace_def table_codec_def journal_healthy_def
  maxJournalPayload_def utf8_b [unfolded utf8_valid_def] Let_def

section \<open>Prunes in flight\<close>

lemma applyPruneFrame_poisoned:
  assumes "\<not> journal_healthy (s_journal s)"
  shows "\<exists>e. applyPruneFrame J io b s = (Inl e, s)"
proof (cases "decodePruneFrame J b")
  case (Inr p)
  have "\<exists>e. appendFrame (s_journal s) recordTypePruneHistory b io = (Inl e, s_journal s)"
    using assms by (simp add: appendFrame_def journal_healthy_def)
  then obtain e where "appendFrame (s_journal s) recordTypePruneHistory b io = (Inl e, s_journal s)" ..
  with Inr show ?thesis by (simp add: applyPruneFrame_def)
qed (simp add: applyPruneFrame_def)

lemma applyPruneFrames_poisoned:
  assumes "\<not> journal_healthy (s_journal s)"
  shows "\<exists>e res'. applyPruneFrames J io bs res s = ((e, res'), s)"
proof (cases bs)
  case (Cons b bs')
  obtain e where "applyPruneFrame J (io 0) b s = (Inl e, s)"
    using applyPruneFrame_poisoned [OF assms] by blast
  with Cons show ?thesis by simp
qed simp

text \<open>A frame whose append fails for certain changes nothing but the journal.\<close>

lemma applyPruneFrames_refused:
  "s_ns (snd (applyPruneFrames J (\<lambda>i. WriteFails 0) bs res s)) = s_ns s"
proof (cases bs)
  case (Cons b bs')
  have "\<exists>e j. appendFrame (s_journal s) recordTypePruneHistory b (WriteFails 0) = (Inl e, j)"
    by (simp add: appendFrame_def Let_def)
  then obtain e j where "appendFrame (s_journal s) recordTypePruneHistory b (WriteFails 0) = (Inl e, j)" by blast
  then have "\<exists>e' s1. applyPruneFrame J (WriteFails 0) b s = (Inl e', s1) \<and> s_ns s1 = s_ns s"
    by (cases "decodePruneFrame J b") (simp_all add: applyPruneFrame_def)
  then obtain e' s1 where "applyPruneFrame J (WriteFails 0) b s = (Inl e', s1)" "s_ns s1 = s_ns s" by blast
  with Cons show ?thesis by simp
qed simp

text \<open>The frame at which a prune poisons the journal, and the same frame acknowledged.\<close>

lemma applyPruneFrame_in_flight:
  assumes "store_consistent J s" and "journal_healthy (s_journal s)"
    and "applyPruneFrame J io b s = (Inl e, s1)" and "\<not> journal_healthy (s_journal s1)"
  shows "\<exists>n s2. applyPruneFrame J AppendOk b s = (Inr n, s2) \<and> finds J s1 (Some (s_ns s2))"
proof (cases "decodePruneFrame J b")
  case (Inl e')
  with assms show ?thesis by (simp add: applyPruneFrame_def)
next
  case (Inr p)
  obtain n ns1 where rm: "removeHistoryLocked p (s_ns s) = (n, ns1)" by fastforce
  have ap: "applyRecord J \<lparr>jr_seq = seq, jr_type = recordTypePruneHistory, jr_payload = b\<rparr> (s_ns s) = Inr ns1" for seq
    using Inr rm known_record_type_of [of "PruneHistoryP undefined"]
    by (auto simp: decodePruneFrame_def applyRecord_def applyPruneHistory_def
        split: option.splits payload.splits)
  have known: "known_record_type recordTypePruneHistory"
    using known_record_type_of [of "PruneHistoryP undefined"] by simp
  obtain q j1 where a: "appendFrame (s_journal s) recordTypePruneHistory b io = (q, j1)" by fastforce
  obtain e' where q: "q = Inl e'" using assms(3) Inr a rm by (cases q) (simp_all add: applyPruneFrame_def)
  have s1: "s1 = s\<lparr>s_journal := j1\<rparr>" using assms(3) Inr a q by (simp add: applyPruneFrame_def)
  then have bad: "\<not> journal_healthy j1" using assms(4) by simp
  note fl = frame_in_flight [OF assms(1) [unfolded store_consistent_def] assms(2) known a [unfolded q] bad ap]
  obtain j2 where "appendFrame (s_journal s) recordTypePruneHistory b AppendOk = (Inr (j_nextSeq (s_journal s)), j2)"
    using fl(1) by blast
  then have ok: "applyPruneFrame J AppendOk b s = (Inr n, s\<lparr>s_journal := j2, s_ns := ns1\<rparr>)"
    using Inr rm by (simp add: applyPruneFrame_def)
  have "finds J s1 (Some (s_ns (s\<lparr>s_journal := j2, s_ns := ns1\<rparr>)))"
    using fl(2) unfolding s1 finds_def by auto
  with ok show ?thesis by blast
qed

lemma applyPruneFrame_acked:
  assumes "applyPruneFrame J io b s = (Inr n, s1)"
  shows "applyPruneFrame J AppendOk b s = (Inr n, s1)"
proof (cases io)
  case AppendOk
  with assms show ?thesis by simp
qed (use assms in \<open>auto simp: applyPruneFrame_def appendFrame_def Let_def split: sum.splits if_splits\<close>)

lemma applyPruneFrame_healthy:
  assumes "journal_healthy (s_journal s)" "applyPruneFrame J AppendOk b s = (Inr n, s1)"
  shows "journal_healthy (s_journal s1)"
  using assms
  by (auto simp: applyPruneFrame_def appendFrame_def journal_healthy_def Let_def split: sum.splits prod.splits if_splits)

lemma up_to_Suc [simp]: "(\<lambda>i. up_to (Suc n) (Suc i)) = up_to n" "(\<lambda>i. up_to 0 (Suc i)) = (\<lambda>i. WriteFails 0)"
    "up_to n 0 = AppendOk"
  by (simp_all add: up_to_def fun_eq_iff)

lemma applyPruneFrames_counts:
  "applyPruneFrames J io bs res s = ((r, res'), s') \<Longrightarrow> pr_JournalFrames res \<le> pr_JournalFrames res'"
  by (induction J io bs res s rule: applyPruneFrames.induct) (fastforce split: prod.splits sum.splits)+

lemma applyPruneFrames_in_flight:
  assumes "store_consistent J s" "journal_healthy (s_journal s)"
    and "applyPruneFrames J io bs res s = ((r, res'), s')" "\<not> journal_healthy (s_journal s')"
    and "\<And>b seq. b \<in> set bs \<Longrightarrow> marshalled J \<lparr>jr_seq = seq, jr_type = recordTypePruneHistory, jr_payload = b\<rparr>"
  shows "finds J s' (Some (s_ns (snd (applyPruneFrames J (up_to (pr_JournalFrames res' - pr_JournalFrames res)) bs
    res0 s))))"
  using assms
proof (induction bs arbitrary: io res res0 s)
  case (Cons b bs)
  obtain q s1 where a: "applyPruneFrame J (io 0) b s = (q, s1)" by fastforce
  show ?case
  proof (cases q)
    case (Inl e)
    then have "s' = s1" "res' = res" using Cons.prems(3) a by simp_all
    then obtain n s2 where ok: "applyPruneFrame J AppendOk b s = (Inr n, s2)" and f: "finds J s' (Some (s_ns s2))"
      using applyPruneFrame_in_flight [OF Cons.prems(1,2)] a Inl Cons.prems(4) by blast
    then show ?thesis using \<open>res' = res\<close> by (simp add: applyPruneFrames_refused)
  next
    case (Inr n)
    let ?res = "res\<lparr>pr_VersionsPruned := pr_VersionsPruned res + n, pr_JournalFrames := pr_JournalFrames res + 1\<rparr>"
    have run: "applyPruneFrames J (\<lambda>i. io (Suc i)) bs ?res s1 = ((r, res'), s')"
      using Cons.prems(3) a Inr by simp
    have keep: "store_consistent J s1"
      by (rule applyPruneFrame_consistent [OF Cons.prems(1) a]) (simp add: Cons.prems(5))
    have ok: "applyPruneFrame J AppendOk b s = (Inr n, s1)" using applyPruneFrame_acked a Inr by simp
    have "journal_healthy (s_journal s1)" by (rule applyPruneFrame_healthy [OF Cons.prems(2) ok])
    have le: "pr_JournalFrames res + 1 \<le> pr_JournalFrames res'" using applyPruneFrames_counts [OF run] by simp
    then have d: "pr_JournalFrames res' - pr_JournalFrames res = Suc (pr_JournalFrames res' - pr_JournalFrames ?res)"
      by simp
    show ?thesis
      unfolding d using Cons.IH [OF keep \<open>journal_healthy (s_journal s1)\<close> run Cons.prems(4)] Cons.prems(5) ok by simp
  qed
qed simp

lemma applyHistoryPrune_in_flight:
  assumes "store_consistent J s" "journal_healthy (s_journal s)" "\<forall>v \<in> set (pr_Versions res). row_utf8 v"
    and "\<not> journal_healthy (s_journal (perform J (DoPrune ff io target res) s))"
  shows "finds J (perform J (DoPrune ff io target res) s)
    (Some (s_ns (perform J (acknowledged J (DoPrune ff io target res) s) s)))"
proof -
  obtain r res' s' where a: "applyHistoryPrune J ff io target res s = ((r, res'), s')" by (metis prod.exhaust)
  then have bad: "\<not> journal_healthy (s_journal s')" using assms(4) by simp
  obtain q s1 where e: "ensureStoreFormat ff storeFormatVersionHistoryPrune s = (q, s1)" by fastforce
  note fr = ensureStoreFormat_frame [OF e, of J]
  obtain frames u where ne: "pr_Versions res \<noteq> []" and f: "buildPruneFrames J (pr_Versions res) target = Inr frames"
    and q: "q = Inr u" and run: "applyPruneFrames J io frames res s1 = ((r, res'), s')"
    using a bad assms(2) fr e by (auto simp: applyHistoryPrune_def split: if_splits sum.splits prod.splits)
  have "\<forall>es \<in> set (pruneFrameEntries target [] 0 (pr_Versions res)). map coerce_prune es = es"
    using pruneFrameEntries_utf8 [OF assms(3), of "[]"] by auto
  with f have m: "marshalled J \<lparr>jr_seq = seq, jr_type = recordTypePruneHistory, jr_payload = b\<rparr>"
    if "b \<in> set frames" for b seq
    using marshalFrames_marshalled [OF _ _ that] by (simp add: buildPruneFrames_def)
  have "finds J s' (Some (s_ns (snd (applyPruneFrames J (up_to (pr_JournalFrames res' - pr_JournalFrames res)) frames
      res s1))))"
    by (rule applyPruneFrames_in_flight [OF _ _ run bad m]) (use fr assms(1,2) in simp_all)
  then show ?thesis using a ne f e q by (simp add: pruned_frames_def applyHistoryPrune_def)
qed

section \<open>Every history settles on restart\<close>

lemma perform_journals:
  assumes "utf8_operation op" "namespace_utf8 (s_ns s)"
    and "\<And>ff io target res. op \<noteq> DoPrune ff io target res" "\<And>uuid ff. op \<noteq> DoRestart uuid ff"
  shows "\<exists>run io. journals J s run \<and> perform J op s = run io \<and> perform J (acknowledged J op s) s = run AppendOk"
proof (cases op)
  case (DoCreateBucket ev name)
  with assms(1) show ?thesis
    using CreateBucket_journals [of name J s ev] by (intro exI [of _ "e_io ev"] exI conjI) simp_all
next
  case (DoDeleteBucket ev name)
  with assms(1) show ?thesis
    using DeleteBucket_journals [of name J s ev] by (intro exI [of _ "e_io ev"] exI conjI) simp_all
next
  case (DoDeleteObject ev bucket key)
  with assms(1,2) show ?thesis
    using DeleteObject_journals [of s bucket key ev J] by (intro exI [of _ "e_io ev"] exI conjI) simp_all
next
  case (DoCommit ev bucket key manUUID manSHA man check)
  with assms(1,2) show ?thesis
    using commitObjectRootChecked_journals [of s bucket key manUUID man ev J manSHA check]
    by (intro exI [of _ "e_io ev"] exI conjI) simp_all
next
  case (DoCreateUpload ev bucket key contentType md)
  with assms(1) show ?thesis
    using CreateMultipartUpload_journals [of bucket key contentType md ev J s]
    by (intro exI [of _ "e_io ev"] exI conjI) simp_all
next
  case (DoPart ev bucket key uploadID n ing)
  with assms(1) show ?thesis
    using commitPart_journals [of uploadID ing J s ev bucket key n] by (intro exI [of _ "e_io ev"] exI conjI) simp_all
next
  case (DoAbort ev bucket key uploadID)
  with assms(1) show ?thesis
    using AbortMultipartUpload_journals [of uploadID J s ev bucket key]
    by (intro exI [of _ "e_io ev"] exI conjI) simp_all
next
  case (DoComplete ev bucket key uploadID manUUID manSHA man)
  with assms(1,2) show ?thesis
    using completeCommit_journals [of s bucket key uploadID manUUID man ev J manSHA]
    by (intro exI [of _ "e_io ev"] exI conjI) simp_all
qed (use assms(3,4) in simp_all)

lemma applyHistoryPrune_poisoned:
  assumes "\<not> journal_healthy (s_journal s)"
  shows "s_journal (perform J (DoPrune ff io target res) s) = s_journal s
    \<and> s_ns (perform J (DoPrune ff io target res) s) = s_ns s"
proof -
  obtain q s1 where e: "ensureStoreFormat ff storeFormatVersionHistoryPrune s = (q, s1)" by fastforce
  have s1: "s_ns s1 = s_ns s" "s_journal s1 = s_journal s" using ensureStoreFormat_frame [OF e] by simp_all
  have run: "snd (applyPruneFrames J io frames res s1) = s1" for frames
    using applyPruneFrames_poisoned [of s1 J io frames res] assms s1 by auto
  show ?thesis
    by (cases "buildPruneFrames J (pr_Versions res) target"; cases q) (simp_all add: applyHistoryPrune_def e s1 run)
qed

lemma finds_cong:
  "s_journal s' = s_journal s \<Longrightarrow> s_ns s' = s_ns s \<Longrightarrow> finds J s' w = finds J s w"
  by (simp add: finds_def)

text \<open>The two cases of a step that leaves a poisoned journal.\<close>

lemma perform_in_flight:
  assumes "json_ok J" "store_inv J s" "utf8_operation op" and bad: "\<not> journal_healthy (s_journal (perform J op s))"
  shows "journal_healthy (s_journal s) \<Longrightarrow> finds J (perform J op s) (Some (s_ns (perform J (acknowledged J op s) s)))"
    and "\<not> journal_healthy (s_journal s) \<Longrightarrow> finds J (perform J op s) w = finds J s w"
proof -
  have c: "store_consistent J s" using assms(2) by (simp add: store_inv_def)
  consider (prune) ff io target res where "op = DoPrune ff io target res"
    | (restart) uuid ff where "op = DoRestart uuid ff"
    | (other) run io where "journals J s run" "perform J op s = run io" "perform J (acknowledged J op s) s = run AppendOk"
  proof (cases "(\<exists>ff io target res. op = DoPrune ff io target res) \<or> (\<exists>uuid ff. op = DoRestart uuid ff)")
    case False
    then have "\<And>ff io target res. op \<noteq> DoPrune ff io target res" "\<And>uuid ff. op \<noteq> DoRestart uuid ff" by simp_all
    from perform_journals [OF assms(3) store_consistent_utf8 [OF assms(1) c] this, of J]
    obtain run io where "journals J s run" "perform J op s = run io"
      "perform J (acknowledged J op s) s = run AppendOk" by (elim exE conjE)
    then show ?thesis by (rule other)
  qed (use prune restart in blast)
  then have "(journal_healthy (s_journal s) \<longrightarrow> finds J (perform J op s) (Some (s_ns (perform J (acknowledged J op s) s))))
    \<and> (\<not> journal_healthy (s_journal s) \<longrightarrow> finds J (perform J op s) w = finds J s w)"
  proof cases
    case prune
    with assms(3) have "\<forall>v \<in> set (pr_Versions res). row_utf8 v" by (simp add: list_all_iff)
    then show ?thesis
      using applyHistoryPrune_in_flight [OF c] applyHistoryPrune_poisoned bad finds_cong
      unfolding prune by metis
  next
    case restart
    with bad OpenStore_consistent [OF assms(2), of uuid ff] show ?thesis by auto
  next
    case other
    show ?thesis
      using journals_in_flight [OF other(1) assms(1) c, of io] journals_poisoned [OF other(1), of io] bad
      unfolding other(2,3) by simp
  qed
  then show "journal_healthy (s_journal s) \<Longrightarrow> finds J (perform J op s) (Some (s_ns (perform J (acknowledged J op s) s)))"
    and "\<not> journal_healthy (s_journal s) \<Longrightarrow> finds J (perform J op s) w = finds J s w" by blast+
qed

lemma fold_track_perform: "fst (fold (track J) ops (s, w)) = fold (perform J) ops s"
proof (induction ops arbitrary: s w)
  case (Cons op ops)
  then show ?case by (cases "track J op (s, w)") (simp add: track_def Let_def)
qed simp

text \<open>Opening folds what the journal recovers.\<close>

lemma OpenStore_finds:
  assumes "store_inv J s" "finds J s w"
    and "OpenStore J uuid ff (FormatFile (s_format s)) no_read_errors False (j_f (s_journal s)) = Inr s'"
  shows "s_ns s' = s_ns s \<or> w = Some (s_ns s')"
proof -
  have inv: "journal_inv (s_journal s)" and fm: "format_ok (s_format s)"
    using assms(1) by (auto simp: store_inv_def store_consistent_def nsj.consistent_def)
  obtain j rs where j: "openJournal no_read_errors False (j_f (s_journal s)) = Inr (j, rs)"
    and rs: "journal_recovered (s_journal s) = Some rs"
    using rlog.reopened [OF inv] by (auto simp: journal_reopen_def)
  then have "fold_result (applyRecord J) rs empty_namespace = Inr (s_ns s')"
    using assms(3) fm by (auto simp: OpenStore_def split: sum.splits)
  with assms(2) rs show ?thesis by (simp add: finds_def)
qed

definition tracked :: "json_codec \<Rightarrow> store \<times> namespace option \<Rightarrow> bool" where
  "tracked J sw \<longleftrightarrow> reachable J (fst sw) \<and> finds J (fst sw) (snd sw)
     \<and> (journal_healthy (s_journal (fst sw)) \<longrightarrow> snd sw = None)"

lemma track_tracked:
  assumes "json_ok J" "tracked J (s, w)" "utf8_operation op"
  shows "tracked J (track J op (s, w))"
proof -
  have r: "reachable J s" and f: "finds J s w" using assms(2) by (simp_all add: tracked_def)
  note inv = reachable_inv [OF r assms(1)]
  have r': "reachable J (perform J op s)" using perform_step [OF assms(3), of J s] r reachable.step by metis
  then have c': "store_consistent J (perform J op s)"
    using reachable_inv [OF r' assms(1)] by (simp add: store_inv_def)
  show ?thesis
    using r' f finds_healthy [OF c'] perform_in_flight [OF assms(1) inv assms(3)]
    by (simp add: tracked_def track_def Let_def)
qed

lemma fold_track:
  assumes "json_ok J" "\<forall>op \<in> set ops. utf8_operation op" "tracked J sw"
  shows "tracked J (fold (track J) ops sw)"
  using assms(2,3)
proof (induction ops arbitrary: sw)
  case (Cons op ops)
  then show ?case using track_tracked [OF assms(1), of "fst sw" "snd sw" op] by simp
qed simp

text \<open>Every history of valid names that starts from a fresh store.\<close>

lemma history_tracked:
  assumes "json_ok J" and "OpenStore J uuid0 False FormatMissing no_read_errors False [] = Inr s0"
    and "\<forall>op \<in> set ops. utf8_operation op"
    and "fold (track J) ops (s0, None) = (s, w)"
  shows "reachable J s \<and> finds J s w \<and> (journal_healthy (s_journal s) \<longrightarrow> w = None)"
proof -
  have r: "reachable J s0" by (rule reachable.fresh [OF assms(2)])
  have "journal_healthy (s_journal s0)"
    using assms(2) unfolding OpenStore_fresh by (auto simp: empty_journal_def journal_healthy_def)
  then have "tracked J (s0, None)"
    using r reachable_inv [OF r assms(1)] by (simp add: tracked_def store_inv_def finds_healthy)
  from fold_track [OF assms(1,3) this] show ?thesis unfolding assms(4) by (simp add: tracked_def)
qed

text \<open>
  C1: A restart loses nothing and invents nothing, provided every name is valid UTF-8. Take
  any list of bucket, object, multipart and prune operations and restarts, run from a fresh
  store, in which every bucket, key, upload identifier, content type, metadata entry and
  generated identifier is valid UTF-8 (\<open>utf8_operation\<close>; without it the store does lose a key,
  see C7). If no append has failed since the last start, reopening the files succeeds and
  gives exactly the running store: the same buckets, objects, uploads, retained versions,
  journal and next sequence number.
\<close>

theorem restart_is_lossless:
  assumes "json_ok J" and "OpenStore J uuid0 False FormatMissing no_read_errors False [] = Inr s0"
    and "\<forall>op \<in> set ops. utf8_operation op"
    and "s = fold (perform J) ops s0" and "journal_healthy (s_journal s)"
  shows "OpenStore J uuid ff (FormatFile (s_format s)) no_read_errors False (j_f (s_journal s)) = Inr s"
proof -
  obtain s1 w where t: "fold (track J) ops (s0, None) = (s1, w)" by fastforce
  then have "s1 = s" using fold_track_perform [of J ops s0 None] assms(4) by simp
  with history_tracked [OF assms(1-3) t] have "reachable J s" by simp
  from OpenStore_healthy [OF reachable_inv [OF this assms(1)] assms(5)] show ?thesis .
qed

text \<open>A fresh store and one operation of it, acknowledged or broken off after nine bytes.\<close>

definition create_with :: "append_io \<Rightarrow> store" where
  "create_with io = snd (CreateBucket bucket_codec (store_env io) ''b'' fresh_store)"

lemma fresh_opened: "OpenStore J ''id'' False FormatMissing no_read_errors False [] = Inr fresh_store"
  by (simp add: OpenStore_fresh fresh_store_def)

theorem restart_is_lossless_witness:
  "OpenStore bucket_codec ''x'' False (FormatFile (s_format (create_with AppendOk))) no_read_errors False
     (j_f (s_journal (create_with AppendOk))) = Inr (create_with AppendOk)"
proof -
  have h: "journal_healthy (s_journal (create_with AppendOk))" by (simp add: create_with_def create_sample_defs)
  show ?thesis
    using restart_is_lossless [OF bucket_codec_ok fresh_opened, of "[DoCreateBucket (store_env AppendOk) ''b'']"
      "create_with AppendOk"] h utf8_b by (simp add: create_with_def)
qed

text \<open>
  C2: A restart after a failure is all or nothing. In any history of valid names as in C1,
  including ones in which an append failed part way through its write or in its sync,
  reopening succeeds, the journal accepts appends again, and the namespace found is the
  running one, left behind by the acknowledged operations, or the one that the operation
  whose append failed would have left behind had it been acknowledged (for a prune, which
  appends a record per frame, with its frames up to the failing one). Nothing else can be
  found, and the second only if an append has failed since the last start.
\<close>

theorem restart_after_failed_append:
  assumes "json_ok J" and "OpenStore J uuid0 False FormatMissing no_read_errors False [] = Inr s0"
    and "\<forall>op \<in> set ops. utf8_operation op"
    and "fold (track J) ops (s0, None) = (s, w)"
  shows "s = fold (perform J) ops s0
    \<and> (\<exists>s'. OpenStore J uuid ff (FormatFile (s_format s)) no_read_errors False (j_f (s_journal s)) = Inr s'
        \<and> reachable J s' \<and> journal_healthy (s_journal s')
        \<and> (s_ns s' = s_ns s \<or> w = Some (s_ns s') \<and> \<not> journal_healthy (s_journal s)))"
proof -
  note h = history_tracked [OF assms]
  then have inv: "store_inv J s" using reachable_inv [OF _ assms(1)] by blast
  obtain s' where s': "OpenStore J uuid ff (FormatFile (s_format s)) no_read_errors False (j_f (s_journal s)) = Inr s'"
      "journal_healthy (s_journal s')"
    using OpenStore_consistent [OF inv, of uuid ff] by blast
  then have "reachable J s'" using h reachable.step step_restart by blast
  moreover have "s_ns s' = s_ns s \<or> w = Some (s_ns s') \<and> \<not> journal_healthy (s_journal s)"
    using OpenStore_finds [OF inv _ s'(1), of w] h by auto
  moreover have "s = fold (perform J) ops s0" using fold_track_perform [of J ops s0 None] assms(4) by simp
  ultimately show ?thesis using s' by blast
qed

theorem restart_after_failed_append_witness:
  "\<not> journal_healthy (s_journal (create_with (WriteFails 9)))
   \<and> (\<exists>s'. OpenStore bucket_codec ''x'' False (FormatFile (s_format (create_with (WriteFails 9))))
        no_read_errors False (j_f (s_journal (create_with (WriteFails 9)))) = Inr s'
      \<and> journal_healthy (s_journal s')
      \<and> (s_ns s' = empty_namespace \<or> s_ns s' = s_ns (create_with AppendOk)))"
proof -
  let ?s = "create_with (WriteFails 9)"
  have bad: "\<not> journal_healthy (s_journal ?s)" and ns: "s_ns ?s = empty_namespace"
    and ok: "journal_healthy (s_journal fresh_store)"
    by (simp_all add: create_with_def create_sample_defs)
  have "fold (track bucket_codec) [DoCreateBucket (store_env (WriteFails 9)) ''b''] (fresh_store, None)
      = (?s, Some (s_ns (create_with AppendOk)))"
    using bad ok by (simp add: track_def create_with_def store_env_def)
  from restart_after_failed_append [OF bucket_codec_ok fresh_opened _ this, of "''x''" False] utf8_b bad ns
  show ?thesis by auto
qed

text \<open>What a restart finds after one more acknowledged record, whatever its strings.\<close>

lemma OpenStore_after_append:
  assumes "store_inv J s" "json_ok J" "json_marshal J p = Some b"
    and "appendRecord J io p s = (Inr seq, s1)"
    and "applyPayload seq (coerce_payload p) (s_ns s) = Inr ns'"
  shows "\<exists>j. OpenStore J uuid ff (FormatFile (s_format s)) no_read_errors False (j_f (s_journal s1))
    = Inr \<lparr>s_format = s_format s, s_journal = j, s_ns = ns'\<rparr>"
proof -
  from assms(1) have c: "nsj.consistent J (s_journal s) (s_ns s)" and f: "format_ok (s_format s)"
    by (simp_all add: store_inv_def store_consistent_def)
  then have inv: "journal_inv (s_journal s)"
    and st: "fold_result (applyRecord J) (journal_acked (s_journal s)) empty_namespace = Inr (s_ns s)"
    by (auto simp: nsj.consistent_def)
  have "appendFrame (s_journal s) (record_type_of p) b io = (Inr seq, s_journal s1)"
    using assms(3,4) by (auto simp: appendRecord_def split: prod.splits sum.splits)
  note ok = log.append_ok [OF inv known_record_type_of this]
  let ?r = "\<lparr>jr_seq = seq, jr_type = record_type_of p, jr_payload = b\<rparr>"
  have "applyRecord J ?r (s_ns s) = Inr ns'"
    using assms(2,3,5) by (simp add: applyRecord_def json_ok_def)
  then have fold: "fold_result (applyRecord J) (journal_acked (s_journal s1)) empty_namespace = Inr ns'"
    using ok st by (simp add: fold_result_append)
  obtain j rs where "openJournal no_read_errors False (j_f (s_journal s1)) = Inr (j, rs)"
    and "journal_recovered (s_journal s1) = Some rs"
    using rlog.reopened [of "s_journal s1"] ok by (auto simp: journal_reopen_def)
  moreover then have "rs = journal_acked (s_journal s1)"
    using ok log.recovered_healthy [of "s_journal s1"] by simp
  moreover have "loadOrInitFormat uuid ff (FormatFile (s_format s)) = Inr (s_format s)" using f by simp
  ultimately show ?thesis using fold by (simp add: OpenStore_def)
qed

lemma appendRecord_marshals:
  "appendRecord J io p s = (Inr seq, s1) \<Longrightarrow> \<exists>m. json_marshal J p = Some m"
  by (cases "json_marshal J p") (simp_all add: appendRecord_def)

lemma coerce_commit_payload:
  assumes "utf8_valid bucket" "utf8_valid manUUID" "manifest_utf8 man"
  shows "coerce_payload (PutV2P (commit_payload ev bucket key manUUID manSHA man None))
    = PutV2P (commit_payload ev bucket (utf8_coerce key) manUUID manSHA man None)"
  using assms utf8_valid_hex [of "digest_bytes manSHA"]
  by (simp add: commit_payload_def coerce_put_def utf8_valid_def manifest_utf8_def)

lemma commit_new_key:
  assumes "fmlookup (ns_buckets (s_ns s)) bucket = Some b" "fmlookup (be_objects b) key = None"
    and "commitObjectRoot J ev bucket key manUUID manSHA man s = (Inr entry, s')"
  shows "\<exists>seq s1 m. appendRecord J (e_io ev) (PutV2P (commit_payload ev bucket key manUUID manSHA man None)) s
      = (Inr seq, s1) \<and> json_marshal J (PutV2P (commit_payload ev bucket key manUUID manSHA man None)) = Some m
      \<and> entry = \<lparr>oe_manifestUUID = manUUID, oe_manifestSHA256 = manSHA, oe_size = man_TotalLength man,
                oe_etag = man_ETag man, oe_contentType = man_ContentType man, oe_seq = seq\<rparr>
      \<and> s' = s1\<lparr>s_ns := setObject bucket b key entry (s_ns s)\<rparr>"
proof -
  let ?p = "PutV2P (commit_payload ev bucket key manUUID manSHA man None)"
  obtain q s1 where a: "appendRecord J (e_io ev) ?p s = (q, s1)" by fastforce
  then have "s_ns s1 = s_ns s" by (simp add: appendRecord_frame)
  moreover have "commitObjectRoot J ev bucket key manUUID manSHA man s
      = (case (q, s1) of (Inl e, s1) \<Rightarrow> (Inl e, s1) | (Inr seq, s1) \<Rightarrow>
           let entry = \<lparr>oe_manifestUUID = manUUID, oe_manifestSHA256 = manSHA, oe_size = man_TotalLength man,
                oe_etag = man_ETag man, oe_contentType = man_ContentType man, oe_seq = seq\<rparr>
           in (Inr entry, s1\<lparr>s_ns := setObject bucket b key entry (s_ns s1)\<rparr>))"
    unfolding a [symmetric] using assms(1,2)
    by (simp add: commitObjectRoot_def commitObjectRootChecked_def commit_payload_def Let_def archivePrevious_def
        split: prod.split sum.split)
  ultimately show ?thesis
    using assms(3) a appendRecord_marshals [of J "e_io ev" ?p s] by (cases q) (auto simp: Let_def)
qed

definition sample_manifest :: manifestV1 where
  "sample_manifest =
     \<lparr>man_ManifestFormatVersion = 1, man_CDCFormatVersion = 1, man_HashAlgorithm = ''sha256'',
      man_ManifestUUID = ''m'', man_TotalLength = 0, man_Chunks = [], man_ObjectSHA256 = [], man_ETag = ''e'',
      man_ContentType = ''t'', man_Metadata = [], man_CreatedAt = 7, man_VersionID = ''v''\<rparr>"

definition rename_codec :: json_codec where
  "rename_codec = table_codec [CreateBucketP \<lparr>cb_Bucket = ''b'', cb_CreatedAt = 7\<rparr>,
     coerce_payload (PutV2P (commit_payload (store_env AppendOk) ''b'' [CHR 0xFF] ''m'' 0 sample_manifest None))]"

definition rename_store :: store where
  "rename_store = snd (CreateBucket rename_codec (store_env AppendOk) ''b'' fresh_store)"

lemma utf8_samples: "utf8_valid ''m''" "utf8_valid ''e''" "utf8_valid ''t''" "utf8_valid ''v''"
  by (rule utf8_valid_ascii; simp)+

lemma invalid_sample: "\<not> utf8_valid [CHR 0xFF]"
  by (simp add: utf8_valid_def utf8_coerce.simps(2) replacement_rune_def)

lemma rename_store_eq:
  "s_ns rename_store = empty_namespace\<lparr>ns_buckets := fmupd ''b'' (newBucket ''b'' 7) fmempty\<rparr>"
  "j_poisoned (s_journal rename_store) = None"
  by (simp_all add: rename_store_def rename_codec_def create_sample_defs)

lemma rename_commit_ok:
  "\<exists>entry s'. commitObjectRoot rename_codec (store_env AppendOk) ''b'' [CHR 0xFF] ''m'' 0 sample_manifest rename_store
     = (Inr entry, s')"
proof -
  let ?p = "PutV2P (commit_payload (store_env AppendOk) ''b'' [CHR 0xFF] ''m'' 0 sample_manifest None)"
  have "json_marshal rename_codec ?p = Some [1]"
    by (simp add: rename_codec_def table_codec_def)
  then show ?thesis
    by (simp add: commitObjectRoot_def commitObjectRootChecked_def rename_store_eq newBucket_def
        commit_payload_def store_env_def appendRecord_def appendFrame_def maxJournalPayload_def
        archivePrevious_def Let_def)
qed

text \<open>
  C7: A key that is not valid UTF-8 does not survive a restart. The store accepts it and
  serves it, but the journal record goes through \<^verbatim>\<open>encoding/json\<close>, which replaces the
  offending bytes: after a restart the object is gone under its own key and has appeared
  under the replaced one.
\<close>

theorem invalid_key_is_renamed:
  assumes "json_ok J" and "reachable J s" and "\<not> utf8_valid key"
    and "utf8_valid bucket" and "utf8_valid manUUID" and "manifest_utf8 man"
    and "lookupObject bucket key s = Inl ErrNoSuchKey"
    and "commitObjectRoot J ev bucket key manUUID manSHA man s = (Inr entry, s')"
  shows "lookupObject bucket key s' = Inr entry
    \<and> (\<exists>s''. OpenStore J uuid ff (FormatFile (s_format s)) no_read_errors False (j_f (s_journal s')) = Inr s''
        \<and> lookupObject bucket key s'' = Inl ErrNoSuchKey
        \<and> lookupObject bucket (utf8_coerce key) s'' = Inr entry)"
proof -
  let ?p = "PutV2P (commit_payload ev bucket key manUUID manSHA man None)"
  obtain b where b: "fmlookup (ns_buckets (s_ns s)) bucket = Some b" "fmlookup (be_objects b) key = None"
    using assms(7) by (auto simp: lookupObject_def split: option.splits)
  obtain seq s1 m where a: "appendRecord J (e_io ev) ?p s = (Inr seq, s1)" and m: "json_marshal J ?p = Some m"
    and entry: "entry = \<lparr>oe_manifestUUID = manUUID, oe_manifestSHA256 = manSHA, oe_size = man_TotalLength man,
                oe_etag = man_ETag man, oe_contentType = man_ContentType man, oe_seq = seq\<rparr>"
    and s': "s' = s1\<lparr>s_ns := setObject bucket b key entry (s_ns s)\<rparr>"
    using commit_new_key [OF b assms(8)] by blast
  have ap: "applyPayload seq (coerce_payload ?p) (s_ns s)
      = Inr (setObject bucket b (utf8_coerce key) entry (s_ns s))"
    unfolding coerce_commit_payload [OF assms(4-6)] commit_applies [OF b(1)]
    by (simp add: archivePrevious_def entry)
  obtain j where "OpenStore J uuid ff (FormatFile (s_format s)) no_read_errors False (j_f (s_journal s1))
      = Inr \<lparr>s_format = s_format s, s_journal = j, s_ns = setObject bucket b (utf8_coerce key) entry (s_ns s)\<rparr>"
    using OpenStore_after_append [OF reachable_inv [OF assms(2,1)] assms(1) m a ap] by blast
  moreover have "utf8_coerce key \<noteq> key" using assms(3) by (simp add: utf8_valid_def)
  ultimately show ?thesis
    using b by (simp add: s' lookupObject_def setObject_def)
qed

theorem invalid_key_is_renamed_witness:
  "\<exists>entry s' s''. lookupObject ''b'' [CHR 0xFF] s' = Inr entry
     \<and> OpenStore rename_codec ''x'' False (FormatFile (s_format rename_store)) no_read_errors False
          (j_f (s_journal s')) = Inr s''
     \<and> lookupObject ''b'' [CHR 0xFF] s'' = Inl ErrNoSuchKey
     \<and> lookupObject ''b'' (utf8_coerce [CHR 0xFF]) s'' = Inr entry"
proof -
  obtain entry s' where c: "commitObjectRoot rename_codec (store_env AppendOk) ''b'' [CHR 0xFF] ''m'' 0
      sample_manifest rename_store = (Inr entry, s')"
    using rename_commit_ok by blast
  have j: "json_ok rename_codec" by (simp add: rename_codec_def)
  have r: "reachable rename_codec rename_store" unfolding rename_store_def by (rule reachable_created)
  have m: "manifest_utf8 sample_manifest"
    using utf8_samples by (simp add: manifest_utf8_def sample_manifest_def)
  have l: "lookupObject ''b'' [CHR 0xFF] rename_store = Inl ErrNoSuchKey"
    by (simp add: lookupObject_def rename_store_eq newBucket_def)
  show ?thesis
    using invalid_key_is_renamed [OF j r invalid_sample utf8_b utf8_samples(1) m l c] by blast
qed

end
