(* ===== verification/Paging.thy ===== *)
theory Paging
  imports Prelude
begin

text \<open>
  Paged listings. A listing answers one page at a time with a cursor for the next; a client
  follows the cursors until there is none. The locale states what a page must promise, and
  the walk over the pages is shown once to end and to return exactly what the cursor stands
  for. The theory also holds the grouping of keys under common prefixes, which the listings
  of objects and of uploads share, and the tokens that carry a cursor.
\<close>

section \<open>Walking the pages\<close>

partial_function (option) walk ::
  "('c \<Rightarrow> 'e + ('a list \<times> 'b list \<times> 'c option)) \<Rightarrow> 'c \<Rightarrow> ('e + ('a list \<times> 'b list)) option" where
  "walk page c =
     (case page c of
        Inl e \<Rightarrow> Some (Inl e)
      | Inr (xs, ys, nxt) \<Rightarrow>
          (case nxt of
             None \<Rightarrow> Some (Inr (xs, ys))
           | Some c' \<Rightarrow>
               Option.bind (walk page c') (\<lambda>r. Some (case r of Inl e \<Rightarrow> Inl e | Inr (us, vs) \<Rightarrow> Inr (xs @ us, ys @ vs)))))"

locale paged =
  fixes page :: "'c \<Rightarrow> 'e + ('a list \<times> 'b list \<times> 'c option)"
    and ok :: "'c \<Rightarrow> bool" and rest_a :: "'c \<Rightarrow> 'a list" and rest_b :: "'c \<Rightarrow> 'b list"
  assumes answers: "ok c \<Longrightarrow> \<exists>xs ys nxt. page c = Inr (xs, ys, nxt)"
    and final: "ok c \<Longrightarrow> page c = Inr (xs, ys, None) \<Longrightarrow> rest_a c = xs \<and> rest_b c = ys"
    and more: "ok c \<Longrightarrow> page c = Inr (xs, ys, Some c') \<Longrightarrow>
      ok c' \<and> rest_a c = xs @ rest_a c' \<and> rest_b c = ys @ rest_b c' \<and> (xs \<noteq> [] \<or> ys \<noteq> [])"
begin

lemma walk_all: "ok c \<Longrightarrow> walk page c = Some (Inr (rest_a c, rest_b c))"
proof (induction "length (rest_a c) + length (rest_b c)" arbitrary: c rule: less_induct)
  case less
  obtain xs ys nxt where p: "page c = Inr (xs, ys, nxt)" using answers [OF less.prems] by blast
  show ?case
  proof (cases nxt)
    case None
    then show ?thesis using p final [OF less.prems, of xs ys] by (simp add: walk.simps)
  next
    case (Some c')
    note m = more [OF less.prems p [unfolded Some]]
    have "length (rest_a c') + length (rest_b c') < length (rest_a c) + length (rest_b c)"
      using m by (auto simp: length_greater_0_conv [symmetric] simp del: length_greater_0_conv)
    then have "walk page c' = Some (Inr (rest_a c', rest_b c'))" using less.hyps m by blast
    then show ?thesis using p Some m by (simp add: walk.simps [of page c])
  qed
qed

end

section \<open>Common prefixes\<close>

text \<open>The common prefix a key folds into, if the delimiter occurs after the listed prefix.\<close>

definition groupOf :: "string \<Rightarrow> string \<Rightarrow> string \<Rightarrow> string option" where
  "groupOf pre delimiter k =
     (if delimiter = [] then None
      else case str_index (drop (length pre) k) delimiter of
        None \<Rightarrow> None
      | Some idx \<Rightarrow> Some (pre @ take (idx + length delimiter) (drop (length pre) k)))"

lemma str_index_bound: "str_index s t = Some i \<Longrightarrow> i + length t \<le> length s"
proof (induction s t arbitrary: i rule: str_index.induct)
  case (2 c s t)
  have "has_prefix (c # s) t \<Longrightarrow> length t \<le> length (c # s)" unfolding has_prefix_def by (metis length_take min.cobounded1)
  then show ?case using 2 by (auto split: if_splits)
qed (simp split: if_splits)

lemma str_index_same:
  "str_index s t = Some i \<Longrightarrow> take (i + length t) s' = take (i + length t) s \<Longrightarrow> str_index s' t = Some i"
proof (induction s t arbitrary: i s' rule: str_index.induct)
  case (1 t)
  then have "t = []" "i = 0" by (auto split: if_splits)
  then show ?case by (cases s') (simp_all add: has_prefix_def)
next
  case (2 c s t)
  have len: "i + length t \<le> length (c # s)" using 2(2) by (rule str_index_bound)
  have tk: "take n s' = take n (c # s)" if "n \<le> i + length t" for n
    using 2(3) that by (metis min.absorb1 take_take)
  show ?case
  proof (cases "has_prefix (c # s) t")
    case True
    then have "i = 0" "has_prefix s' t" using 2(2) tk [of "length t"] by (simp_all add: has_prefix_def)
    then show ?thesis by (cases s') (simp_all add: has_prefix_def)
  next
    case False
    then obtain j where j: "str_index s t = Some j" "i = Suc j" using 2(2) by auto
    obtain s'' where s': "s' = c # s''" using 2(3) j(2) by (cases s') auto
    have "str_index s'' t = Some j" using 2(1) [OF False j(1)] 2(3) j(2) s' by simp
    moreover have "\<not> has_prefix s' t" using False tk [of "length t"] by (simp add: has_prefix_def)
    ultimately show ?thesis using s' j(2) by simp
  qed
qed

lemma groupOf_prefix:
  assumes "groupOf p d k = Some cp" "has_prefix k p"
  shows "prefix cp k" "has_prefix k' p \<Longrightarrow> prefix cp k' \<Longrightarrow> groupOf p d k' = Some cp"
proof -
  obtain r where k: "k = p @ r" using assms(2) by (auto simp: has_prefix_iff)
  obtain i where i: "d \<noteq> []" "str_index r d = Some i" "cp = p @ take (i + length d) r"
    using assms(1) k by (auto simp: groupOf_def split: if_splits option.splits)
  show "prefix cp k" using i(3) k by (simp add: take_is_prefix)
  show "groupOf p d k' = Some cp" if hp: "has_prefix k' p" and pr: "prefix cp k'"
  proof -
    obtain r' where k': "k' = p @ r'" using hp unfolding has_prefix_iff ..
    then have "prefix (take (i + length d) r) r'" using pr i(3) by simp
    then have t: "take (i + length d) r' = take (i + length d) r"
      using str_index_bound [OF i(2)] by (auto simp: prefix_def)
    then show ?thesis using str_index_same [OF i(2) t] i k' by (simp add: groupOf_def)
  qed
qed

lemma prefix_le: "prefix (xs :: 'a::linorder list) ys \<Longrightarrow> xs \<le> ys"
  by (induction xs ys rule: list_induct2') auto

lemma prefix_between: "xs \<le> ys \<Longrightarrow> ys \<le> zs \<Longrightarrow> prefix xs zs \<Longrightarrow> prefix (xs :: 'a::linorder list) ys"
proof (induction xs arbitrary: ys zs)
  case (Cons x xs)
  obtain y ys' where y: "ys = y # ys'" using Cons.prems(1) by (cases ys) auto
  obtain zs' where z: "zs = x # zs'" "prefix xs zs'" using Cons.prems(3) by (cases zs) auto
  have "y = x" "xs \<le> ys'" "ys' \<le> zs'" using Cons.prems(1,2) y z by auto
  then show ?case using Cons.IH z(2) y by simp
qed simp

text \<open>The keys of a group are a block of the sorted keys.\<close>

lemma groupOf_block:
  assumes "groupOf p d k1 = Some cp" "groupOf p d k2 = Some cp" "k1 \<le> k" "k \<le> k2"
    and "has_prefix k1 p" "has_prefix k2 p" "has_prefix k p"
  shows "groupOf p d k = Some cp"
proof -
  have "cp \<le> k" using prefix_le [OF groupOf_prefix(1) [OF assms(1,5)]] assms(3) by (rule order_trans)
  then have "prefix cp k" using prefix_between assms(4) groupOf_prefix(1) [OF assms(2,6)] by blast
  then show ?thesis using groupOf_prefix(2) [OF assms(1,5,7)] by blast
qed

text \<open>The groups of a list of keys in order, where \<open>g\<close> was the last one before it.\<close>

fun newGroups :: "('k \<Rightarrow> string option) \<Rightarrow> string option \<Rightarrow> 'k list \<Rightarrow> string list" where
  "newGroups f g [] = []"
| "newGroups f g (k # ks) =
     (case f k of
        None \<Rightarrow> newGroups f g ks
      | Some cp \<Rightarrow> if g = Some cp then newGroups f g ks else cp # newGroups f (Some cp) ks)"

fun lastGroup :: "('k \<Rightarrow> string option) \<Rightarrow> string option \<Rightarrow> 'k list \<Rightarrow> string option" where
  "lastGroup f g [] = g"
| "lastGroup f g (k # ks) = lastGroup f (case f k of None \<Rightarrow> g | Some cp \<Rightarrow> Some cp) ks"

lemma newGroups_append: "newGroups f g (xs @ ys) = newGroups f g xs @ newGroups f (lastGroup f g xs) ys"
  by (induction f g xs rule: newGroups.induct) (auto split: option.splits)

lemma newGroups_fresh: "g \<notin> f ` set ks \<Longrightarrow> newGroups f g ks = newGroups f None ks"
  by (induction ks) (auto split: option.splits)

lemma lastGroup_in: "lastGroup f g ks \<noteq> g \<Longrightarrow> lastGroup f g ks \<in> f ` set ks"
  by (induction f g ks rule: lastGroup.induct) (auto split: option.splits)

lemma set_newGroups: "cp \<in> set (newGroups f g ks) \<Longrightarrow> Some cp \<in> f ` set ks"
proof (induction f g ks rule: newGroups.induct)
  case (2 f g k ks)
  then show ?case by (cases "f k"; cases "g = f k") force+
qed simp

lemma newGroups_complete: "k \<in> set ks \<Longrightarrow> f k = Some cp \<Longrightarrow> cp \<in> set (newGroups f g ks) \<or> g = Some cp"
  by (induction ks arbitrary: g) (auto split: option.splits)

text \<open>On keys whose groups are blocks, every group is listed once.\<close>

fun blocks :: "('k \<Rightarrow> string option) \<Rightarrow> 'k list \<Rightarrow> bool" where
  "blocks f [] \<longleftrightarrow> True"
| "blocks f (k # ks) \<longleftrightarrow> (f k = None \<or> f k \<notin> f ` set (dropWhile (\<lambda>x. f x = f k) ks)) \<and> blocks f ks"

lemma blocks_sorted:
  "sorted_wrt (\<lambda>a b. key a \<le> key b) ks \<Longrightarrow> \<forall>k \<in> set ks. has_prefix (key k) p \<Longrightarrow> blocks (\<lambda>k. groupOf p d (key k)) ks"
proof (induction ks)
  case (Cons k ks)
  let ?f = "\<lambda>k. groupOf p d (key k)"
  have "?f k \<notin> ?f ` set (dropWhile (\<lambda>x. ?f x = ?f k) ks)" if ne: "?f k \<noteq> None"
  proof
    assume "?f k \<in> ?f ` set (dropWhile (\<lambda>x. ?f x = ?f k) ks)"
    define P where "P = (\<lambda>x. ?f x = ?f k)"
    obtain x where xk: "x \<in> set (dropWhile P ks)" "?f x = ?f k"
      using \<open>?f k \<in> ?f ` set (dropWhile (\<lambda>x. ?f x = ?f k) ks)\<close> unfolding P_def [symmetric] by (metis imageE)
    then have "dropWhile P ks \<noteq> []" by (metis list.set(1) empty_iff)
    then obtain y zs where yz: "dropWhile P ks = y # zs" by (meson neq_Nil_conv)
    then have x: "x \<in> set (y # zs)" "\<not> P y" using xk(1) hd_dropWhile [of P ks] by simp_all
    have in_ks: "set (y # zs) \<subseteq> set ks" unfolding yz [symmetric] using set_dropWhileD by fast
    have "sorted_wrt (\<lambda>a b. key a \<le> key b) (dropWhile P ks)"
      using Cons.prems(1) by (metis sorted_wrt.simps(2) sorted_wrt_append takeWhile_dropWhile_id)
    then have "sorted_wrt (\<lambda>a b. key a \<le> key b) (y # zs)" unfolding yz .
    then have "key y \<le> key x" using x(1) by auto
    moreover have "key k \<le> key y" using Cons.prems(1) in_ks by auto
    moreover obtain cp where cp: "?f k = Some cp" using ne by blast
    moreover have "y \<in> set (k # ks)" "x \<in> set (k # ks)" using in_ks x(1) by auto
    ultimately have "?f y = Some cp"
      using groupOf_block [of p d "key k" cp "key x" "key y"] xk(2) Cons.prems(2) by simp
    then show False using x(2) cp by (simp add: P_def)
  qed
  then show ?case using Cons by auto
qed simp

lemma blocks_passed:
  "blocks f (xs @ k # ys) \<Longrightarrow> Some cp \<in> f ` set xs \<Longrightarrow> f k \<noteq> Some cp \<Longrightarrow> Some cp \<notin> f ` set (k # ys)"
proof (induction xs)
  case (Cons x xs)
  show ?case
  proof (cases "f x = Some cp")
    case True
    have "set (k # ys) \<subseteq> set (dropWhile (\<lambda>y. f y = f x) (xs @ k # ys))"
      using Cons.prems(3) True by (auto simp: dropWhile_append)
    then show ?thesis using Cons.prems(1) True by auto
  next
    case False
    then show ?thesis using Cons by auto
  qed
qed simp

lemma blocks_after:
  assumes "blocks f (xs @ k # ys)" "f k = None \<or> f k \<noteq> lastGroup f None xs"
  shows "newGroups f (lastGroup f None xs) (k # ys) = newGroups f None (k # ys)"
proof (cases "lastGroup f None xs")
  case (Some cp)
  then have "Some cp \<in> f ` set xs" using lastGroup_in [of f None xs] by simp
  moreover have "f k \<noteq> Some cp" using assms(2) Some by auto
  ultimately have "lastGroup f None xs \<notin> f ` set (k # ys)"
    using blocks_passed [OF assms(1)] Some by metis
  then show ?thesis by (rule newGroups_fresh)
qed simp

lemma blocks_dropWhile: "blocks f ks \<Longrightarrow> blocks f (dropWhile P ks)"
  by (induction ks) auto

lemma newGroups_dropWhile: "newGroups f (Some cp) ks = newGroups f (Some cp) (dropWhile (\<lambda>x. f x = Some cp) ks)"
  by (induction ks) auto

lemma distinct_newGroups: "blocks f ks \<Longrightarrow> distinct (newGroups f None ks)"
proof (induction "length ks" arbitrary: ks rule: less_induct)
  case less
  show ?case
  proof (cases ks)
    case (Cons k as)
    show ?thesis
    proof (cases "f k")
      case None
      then show ?thesis using less Cons by simp
    next
      case (Some cp)
      let ?r = "dropWhile (\<lambda>x. f x = Some cp) as"
      have fr: "Some cp \<notin> f ` set ?r" using less.prems Cons Some by simp
      have n: "newGroups f (Some cp) as = newGroups f None ?r"
        using newGroups_dropWhile [of f cp as] newGroups_fresh [OF fr] by simp
      have "distinct (newGroups f None ?r)"
        using less Cons by (auto intro!: less.hyps blocks_dropWhile simp: length_dropWhile_le less_Suc_eq_le)
      moreover have "cp \<notin> set (newGroups f None ?r)" using set_newGroups [of cp f None ?r] fr by blast
      ultimately show ?thesis using Cons Some n by simp
    qed
  qed simp
qed

section \<open>Continuation tokens\<close>

text \<open>\<^verbatim>\<open>base64.RawURLEncoding\<close>: no padding; line breaks are skipped when decoding.\<close>

definition b64_alphabet :: string where
  "b64_alphabet = ''ABCDEFGHIJKLMNOPQRSTUVWXYZabcdefghijklmnopqrstuvwxyz0123456789-_''"

definition b64_char :: "nat \<Rightarrow> char" where
  "b64_char n = b64_alphabet ! n"

fun index_of :: "'a \<Rightarrow> 'a list \<Rightarrow> nat option" where
  "index_of x [] = None"
| "index_of x (y # ys) = (if x = y then Some 0 else map_option Suc (index_of x ys))"

definition b64_val :: "char \<Rightarrow> nat option" where
  "b64_val c = index_of c b64_alphabet"

fun b64_encode :: "nat list \<Rightarrow> string" where
  "b64_encode [] = []"
| "b64_encode [a] = [b64_char (a div 4), b64_char (a mod 4 * 16)]"
| "b64_encode [a, b] = [b64_char (a div 4), b64_char (a mod 4 * 16 + b div 16), b64_char (b mod 16 * 4)]"
| "b64_encode (a # b # c # r) =
     [b64_char (a div 4), b64_char (a mod 4 * 16 + b div 16), b64_char (b mod 16 * 4 + c div 64), b64_char (c mod 64)]
       @ b64_encode r"

fun b64_groups :: "nat list \<Rightarrow> nat list option" where
  "b64_groups [] = Some []"
| "b64_groups [a] = None"
| "b64_groups [a, b] = Some [a * 4 + b div 16]"
| "b64_groups [a, b, c] = Some [a * 4 + b div 16, b mod 16 * 16 + c div 4]"
| "b64_groups (a # b # c # d # r) =
     map_option (\<lambda>xs. [a * 4 + b div 16, b mod 16 * 16 + c div 4, c mod 4 * 64 + d] @ xs) (b64_groups r)"

definition b64_decode :: "string \<Rightarrow> nat list option" where
  "b64_decode s =
     (let vs = map b64_val (filter (\<lambda>c. c \<noteq> char_of (10 :: nat) \<and> c \<noteq> char_of (13 :: nat)) s)
      in if None \<in> set vs then None else b64_groups (map the vs))"

definition continuationTokenVersion :: string where
  "continuationTokenVersion = ''zs3ct1:''"

definition encodeContinuationToken :: "string \<Rightarrow> string" where
  "encodeContinuationToken lastKey = b64_encode (map of_char (continuationTokenVersion @ lastKey))"

definition decodeContinuationToken :: "string \<Rightarrow> string option" where
  "decodeContinuationToken tok =
     (case b64_decode tok of
        None \<Rightarrow> None
      | Some raw \<Rightarrow>
          let s = map char_of raw in
          if has_prefix s continuationTokenVersion then Some (drop (length continuationTokenVersion) s) else None)"

lemma b64_val_char: "n < 64 \<Longrightarrow> b64_val (b64_char n) = Some n"
proof -
  assume "n < 64"
  moreover have "list_all (\<lambda>n. b64_val (b64_char n) = Some n) [0..<64]" by code_simp
  ultimately show ?thesis by (simp add: list_all_iff)
qed

lemma b64_char_plain: "n < 64 \<Longrightarrow> b64_char n \<noteq> char_of (10 :: nat) \<and> b64_char n \<noteq> char_of (13 :: nat)"
proof -
  assume "n < 64"
  moreover have "list_all (\<lambda>n. b64_char n \<noteq> char_of (10 :: nat) \<and> b64_char n \<noteq> char_of (13 :: nat)) [0..<64]" by code_simp
  ultimately show ?thesis by (simp add: list_all_iff)
qed

fun b64_digits :: "nat list \<Rightarrow> nat list" where
  "b64_digits [] = []"
| "b64_digits [a] = [a div 4, a mod 4 * 16]"
| "b64_digits [a, b] = [a div 4, a mod 4 * 16 + b div 16, b mod 16 * 4]"
| "b64_digits (a # b # c # r) =
     [a div 4, a mod 4 * 16 + b div 16, b mod 16 * 4 + c div 64, c mod 64] @ b64_digits r"

lemma b64_encode_digits: "b64_encode xs = map b64_char (b64_digits xs)"
  by (induction xs rule: b64_encode.induct) simp_all

lemma b64_digits_less: "list_all (\<lambda>x. x < 256) xs \<Longrightarrow> x \<in> set (b64_digits xs) \<Longrightarrow> x < 64"
  by (induction xs rule: b64_digits.induct) auto

lemma b64_groups_digits: "list_all (\<lambda>x. x < 256) xs \<Longrightarrow> b64_groups (b64_digits xs) = Some xs"
proof (induction xs rule: b64_digits.induct)
  case (4 a b c r)
  have "a div 4 * 4 + (a mod 4 * 16 + b div 16) div 16 = a" "(a mod 4 * 16 + b div 16) mod 16 * 16 + (b mod 16 * 4 + c div 64) div 4 = b"
    "(b mod 16 * 4 + c div 64) mod 4 * 64 + c mod 64 = c"
    using 4(2) by auto
  then show ?case using 4 by simp
qed auto

lemma b64_decode_encode:
  assumes "list_all (\<lambda>x. x < 256) xs"
  shows "b64_decode (b64_encode xs) = Some xs"
proof -
  note l = b64_digits_less [OF assms]
  have "filter (\<lambda>c. c \<noteq> char_of (10 :: nat) \<and> c \<noteq> char_of (13 :: nat)) (map b64_char (b64_digits xs)) = map b64_char (b64_digits xs)"
    using l b64_char_plain by (auto simp: filter_id_conv)
  moreover have "map b64_val (map b64_char (b64_digits xs)) = map Some (b64_digits xs)" using l b64_val_char by simp
  ultimately show ?thesis
    using b64_groups_digits [OF assms] unfolding b64_decode_def b64_encode_digits Let_def by (simp only:) (auto simp: comp_def)
qed

lemma token_roundtrip [simp]: "decodeContinuationToken (encodeContinuationToken k) = Some k"
proof -
  have "list_all (\<lambda>x. x < 256) (map of_char s :: nat list)" for s :: string by (simp add: list_all_iff)
  then show ?thesis
    by (simp add: decodeContinuationToken_def encodeContinuationToken_def b64_decode_encode has_prefix_def comp_def del: map_append)
qed

lemma token_not_empty [simp]: "encodeContinuationToken k \<noteq> []"
  by (simp add: encodeContinuationToken_def continuationTokenVersion_def)

section \<open>The page loop\<close>

text \<open>
  The loop of the listings of objects and of uploads: entries at or before the cursor are
  skipped, an entry of a group that is hidden or was just emitted only moves the cursor, and
  a new result ends the page when it is full.
\<close>

record 'k page =
  pg_items :: "'k list"
  pg_prefixes :: "string list"
  pg_truncated :: bool
  pg_last :: "'k option"

definition empty_page :: "'k page" where
  "empty_page = \<lparr>pg_items = [], pg_prefixes = [], pg_truncated = False, pg_last = None\<rparr>"

definition units :: "'k page \<Rightarrow> nat" where
  "units pg = length (pg_items pg) + length (pg_prefixes pg)"

fun pageLoop ::
  "('k \<Rightarrow> bool) \<Rightarrow> ('k \<Rightarrow> string option) \<Rightarrow> (string \<Rightarrow> bool) \<Rightarrow> nat \<Rightarrow> 'k list \<Rightarrow> string option \<Rightarrow> 'k page \<Rightarrow> 'k page" where
  "pageLoop skip f hidden mx [] g pg = pg"
| "pageLoop skip f hidden mx (k # ks) g pg =
     (if skip k then pageLoop skip f hidden mx ks g pg
      else case f k of
        Some cp \<Rightarrow>
          if hidden cp \<or> g = Some cp then pageLoop skip f hidden mx ks g (pg\<lparr>pg_last := Some k\<rparr>)
          else if units pg \<ge> mx then pg\<lparr>pg_truncated := True\<rparr>
          else pageLoop skip f hidden mx ks (Some cp) (pg\<lparr>pg_prefixes := pg_prefixes pg @ [cp], pg_last := Some k\<rparr>)
      | None \<Rightarrow>
          if units pg \<ge> mx then pg\<lparr>pg_truncated := True\<rparr>
          else pageLoop skip f hidden mx ks g (pg\<lparr>pg_items := pg_items pg @ [k], pg_last := Some k\<rparr>))"

definition shown :: "('k \<Rightarrow> string option) \<Rightarrow> (string \<Rightarrow> bool) \<Rightarrow> 'k \<Rightarrow> string option" where
  "shown f hidden k = (case f k of Some cp \<Rightarrow> if hidden cp then None else Some cp | None \<Rightarrow> None)"

text \<open>What a page of the entries \<open>pre @ suf\<close> after the cursor is: it accounts for \<open>pre\<close>.\<close>

definition page_of ::
  "('k \<Rightarrow> string option) \<Rightarrow> (string \<Rightarrow> bool) \<Rightarrow> nat \<Rightarrow> string option \<Rightarrow> 'k page \<Rightarrow> 'k list \<Rightarrow> 'k list \<Rightarrow> 'k page \<Rightarrow> bool" where
  "page_of f hidden mx g pg pre suf pg' \<longleftrightarrow>
     pg_items pg' = pg_items pg @ filter (\<lambda>k. f k = None) pre
     \<and> pg_prefixes pg' = pg_prefixes pg @ newGroups (shown f hidden) g pre
     \<and> pg_truncated pg' = (suf \<noteq> []) \<and> pg_last pg' = (if pre = [] then pg_last pg else Some (last pre))
     \<and> (suf \<noteq> [] \<longrightarrow> units pg' \<ge> mx \<and> (f (hd suf) = None
          \<or> shown f hidden (hd suf) \<noteq> None \<and> shown f hidden (hd suf) \<noteq> lastGroup (shown f hidden) g pre))
     \<and> units pg' \<le> max (units pg) mx"

lemma page_of_step:
  assumes "page_of f hidden mx g' pg1 pre suf pg'" "pg_last pg1 = Some k"
    and "pg_items pg1 = pg_items pg @ filter (\<lambda>k. f k = None) [k]"
    and "pg_prefixes pg1 = pg_prefixes pg @ newGroups (shown f hidden) g [k]"
    and "g' = lastGroup (shown f hidden) g [k]" "units pg1 \<le> max (units pg) mx"
  shows "page_of f hidden mx g pg (k # pre) suf pg'"
  using assms newGroups_append [of "shown f hidden" g "[k]" pre]
  by (auto simp: page_of_def split: option.splits)

lemma pageLoop_spec:
  "\<not> pg_truncated pg \<Longrightarrow> \<exists>pre suf. filter (\<lambda>k. \<not> skip k) ks = pre @ suf
     \<and> page_of f hidden mx g pg pre suf (pageLoop skip f hidden mx ks g pg)"
proof (induction skip f hidden mx ks g pg rule: pageLoop.induct)
  case (1 skip f hidden mx g pg)
  then show ?case by (auto simp: page_of_def)
next
  case (2 skip f hidden mx k ks g pg)
  let ?r = "pageLoop skip f hidden mx (k # ks) g pg"
  have full: ?case if "\<not> skip k" "units pg \<ge> mx" "?r = pg\<lparr>pg_truncated := True\<rparr>"
    "f k = None \<or> shown f hidden k \<noteq> None \<and> shown f hidden k \<noteq> g"
    using that by (intro exI [of _ "[]"] exI [of _ "k # filter (\<lambda>k. \<not> skip k) ks"])
      (auto simp: page_of_def units_def)
  have step: ?case if s: "\<not> skip k" "?r = pageLoop skip f hidden mx ks g' pg1" "pg_last pg1 = Some k"
      "pg_items pg1 = pg_items pg @ filter (\<lambda>k. f k = None) [k]"
      "pg_prefixes pg1 = pg_prefixes pg @ newGroups (shown f hidden) g [k]"
      "g' = lastGroup (shown f hidden) g [k]" "units pg1 \<le> max (units pg) mx"
    and ih: "\<exists>pre suf. filter (\<lambda>k. \<not> skip k) ks = pre @ suf
      \<and> page_of f hidden mx g' pg1 pre suf (pageLoop skip f hidden mx ks g' pg1)" for g' pg1
  proof -
    obtain pre suf where "filter (\<lambda>k. \<not> skip k) ks = pre @ suf" "page_of f hidden mx g' pg1 pre suf ?r"
      using ih s(2) by auto
    then show ?thesis using page_of_step [OF _ s(3-7)] s(1) by (intro exI [of _ "k # pre"] exI [of _ suf]) auto
  qed
  show ?case
  proof (cases "skip k")
    case True
    then show ?thesis using 2(1) 2(5) by simp
  next
    case ns: False
    show ?thesis
    proof (cases "f k")
      case None
      show ?thesis
      proof (cases "units pg \<ge> mx")
        case True
        then show ?thesis using full ns None by simp
      next
        case False
        show ?thesis
          by (rule step [OF ns _ _ _ _ _ _ 2(2) [OF ns None False]])
             (use ns None False 2(5) in \<open>auto simp: shown_def units_def\<close>)
      qed
    next
      case (Some cp)
      show ?thesis
      proof (cases "hidden cp \<or> g = Some cp")
        case True
        show ?thesis
          by (rule step [OF ns _ _ _ _ _ _ 2(3) [OF ns Some True]])
             (use ns Some True 2(5) in \<open>auto simp: shown_def units_def\<close>)
      next
        case nh: False
        show ?thesis
        proof (cases "units pg \<ge> mx")
          case True
          then show ?thesis using full ns Some nh by (auto simp: shown_def)
        next
          case False
          show ?thesis
            by (rule step [OF ns _ _ _ _ _ _ 2(4) [OF ns Some nh False]])
               (use ns Some nh False 2(5) in \<open>auto simp: shown_def units_def\<close>)
        qed
      qed
    qed
  qed
qed

text \<open>Resuming after the last entry a page accounts for.\<close>

lemma filter_after_last:
  assumes "sorted_wrt lt (pre @ suf)" "pre \<noteq> []" "\<And>a b. lt a b \<Longrightarrow> \<not> lt b a"
  shows "filter (lt (last pre)) (pre @ suf) = suf"
proof -
  have l: "pre = butlast pre @ [last pre]" using assms(2) by simp
  have "\<not> lt (last pre) x" if "x \<in> set pre" for x
  proof (cases "x = last pre")
    case False
    then have "x \<in> set (butlast pre)" using that l by (metis Un_iff empty_iff insert_iff list.set set_append)
    moreover have "sorted_wrt lt (butlast pre @ [last pre])" using assms(1) l by (simp add: sorted_wrt_append)
    ultimately show ?thesis using assms(3) by (auto simp: sorted_wrt_append)
  qed (use assms(3) in blast)
  moreover have "lt (last pre) x" if "x \<in> set suf" for x using assms(1,2) that by (auto simp: sorted_wrt_append)
  ultimately show ?thesis by (simp add: filter_True filter_False)
qed

lemma newGroups_cong: "(\<And>k. k \<in> set ks \<Longrightarrow> f k = f' k) \<Longrightarrow> newGroups f g ks = newGroups f' g ks"
  by (induction ks arbitrary: g) (auto split: option.splits)

lemma shown_none [simp]: "shown f (\<lambda>_. False) = f"
  by (auto simp: shown_def split: option.splits)

text \<open>The first page of a listing: the results of the rest come after those of the page.\<close>

lemma pageLoop_page:
  assumes "pg = pageLoop skip f hidden mx ks None empty_page" "0 < mx"
    and "blocks (shown f hidden) (filter (\<lambda>k. \<not> skip k) ks)"
  obtains pre suf where "filter (\<lambda>k. \<not> skip k) ks = pre @ suf" "pg_truncated pg = (suf \<noteq> [])"
    "pg_items pg = filter (\<lambda>k. f k = None) pre" "pg_prefixes pg = newGroups (shown f hidden) None pre" "units pg \<le> mx"
    "pg_last pg = (if pre = [] then None else Some (last pre))"
    "suf \<noteq> [] \<Longrightarrow> pre \<noteq> [] \<and> (pg_items pg \<noteq> [] \<or> pg_prefixes pg \<noteq> [])
      \<and> (f (hd suf) = None \<or> shown f hidden (hd suf) \<noteq> None \<and> shown f hidden (hd suf) \<noteq> lastGroup (shown f hidden) None pre)
      \<and> newGroups (shown f hidden) None (pre @ suf) = pg_prefixes pg @ newGroups (shown f hidden) None suf"
proof -
  obtain pre suf where ps: "filter (\<lambda>k. \<not> skip k) ks = pre @ suf" and p: "page_of f hidden mx None empty_page pre suf pg"
    using pageLoop_spec [of empty_page skip ks f hidden mx None] assms(1) by (auto simp: empty_page_def)
  have "pre \<noteq> [] \<and> (pg_items pg \<noteq> [] \<or> pg_prefixes pg \<noteq> [])
      \<and> (f (hd suf) = None \<or> shown f hidden (hd suf) \<noteq> None \<and> shown f hidden (hd suf) \<noteq> lastGroup (shown f hidden) None pre)
      \<and> newGroups (shown f hidden) None (pre @ suf) = pg_prefixes pg @ newGroups (shown f hidden) None suf"
    if ne: "suf \<noteq> []"
  proof -
    have u: "units pg \<ge> mx" "f (hd suf) = None \<or> shown f hidden (hd suf) \<noteq> None \<and> shown f hidden (hd suf) \<noteq> lastGroup (shown f hidden) None pre"
      "pg_items pg = filter (\<lambda>k. f k = None) pre" "pg_prefixes pg = newGroups (shown f hidden) None pre"
      using p ne by (auto simp: page_of_def empty_page_def)
    then have i: "pg_items pg \<noteq> [] \<or> pg_prefixes pg \<noteq> []" using assms(2) by (auto simp: units_def)
    then have "pre \<noteq> []" using u by auto
    obtain k ys where s: "suf = k # ys" using ne by (cases suf) auto
    have "shown f hidden k = None \<or> shown f hidden k \<noteq> lastGroup (shown f hidden) None pre"
      using u(2) s by (auto simp: shown_def)
    then have "newGroups (shown f hidden) (lastGroup (shown f hidden) None pre) suf = newGroups (shown f hidden) None suf"
      using blocks_after [of "shown f hidden" pre k ys] assms(3) ps s by simp
    then show ?thesis using u i \<open>pre \<noteq> []\<close> newGroups_append by metis
  qed
  moreover have "pg_truncated pg = (suf \<noteq> [])" "pg_items pg = filter (\<lambda>k. f k = None) pre"
    "pg_prefixes pg = newGroups (shown f hidden) None pre" "units pg \<le> mx" "pg_last pg = (if pre = [] then None else Some (last pre))"
    using p by (auto simp: page_of_def empty_page_def units_def)
  ultimately show thesis using that ps by blast
qed

end
