(* ===== verification/Listing.thy ===== *)
theory Listing
  imports Paging Multipart "HOL-Library.Product_Lexorder"
begin

text \<open>
  The three paged listings (\<^verbatim>\<open>zeros3.go\<close>, sections 7b, 9b and 11b): objects with continuation
  tokens, multipart uploads with a pair of markers, and the parts of an upload. Each provides
  the interface of \<open>Paging\<close>, so a client that follows the cursors on an unchanged store gets
  every matching entry and every common prefix exactly once, in order.
\<close>

section \<open>Objects\<close>

definition listCandidates :: "string \<Rightarrow> bucketEntry \<Rightarrow> (string \<times> objectEntry) list" where
  "listCandidates pre b =
     map (\<lambda>k. (k, the (fmlookup (be_objects b) k))) (filter (\<lambda>k. has_prefix k pre) (sorted_keys (be_objects b)))"

definition ListObjectsV2 ::
  "string \<Rightarrow> string \<Rightarrow> string \<Rightarrow> string \<Rightarrow> int \<Rightarrow> store \<Rightarrow> err + (string \<times> objectEntry) page" where
  "ListObjectsV2 bucket pre delimiter startAfterKey maxKeys s =
     (case fmlookup (ns_buckets (s_ns s)) bucket of
        None \<Rightarrow> Inl ErrNoSuchBucket
      | Some b \<Rightarrow>
          if maxKeys \<le> 0 then Inr empty_page
          else Inr (pageLoop (\<lambda>(k, _). startAfterKey \<noteq> [] \<and> k \<le> startAfterKey) (\<lambda>(k, _). groupOf pre delimiter k)
                     (\<lambda>_. False) (nat maxKeys) (listCandidates pre b) None empty_page))"

datatype list_error = ListBadToken | ListStore err

text \<open>The paging part of \<^verbatim>\<open>handleListObjectsV2\<close>: contents, common prefixes and the next token.\<close>

definition objectsPage ::
  "string \<Rightarrow> string \<Rightarrow> string \<Rightarrow> int \<Rightarrow> store \<Rightarrow> string
    \<Rightarrow> list_error + ((string \<times> objectEntry) list \<times> string list \<times> string option)" where
  "objectsPage bucket pre delimiter maxKeys s continuationToken =
     (case (if continuationToken \<noteq> [] then decodeContinuationToken continuationToken else Some []) of
        None \<Rightarrow> Inl ListBadToken
      | Some startAfterKey \<Rightarrow>
          (case ListObjectsV2 bucket pre delimiter startAfterKey maxKeys s of
             Inl e \<Rightarrow> Inl (ListStore e)
           | Inr page \<Rightarrow>
               Inr (pg_items page, pg_prefixes page,
                    if pg_truncated page
                    then Some (encodeContinuationToken (case pg_last page of None \<Rightarrow> [] | Some (k, _) \<Rightarrow> k)) else None)))"

section \<open>Multipart uploads\<close>

definition afterMultipartMarker :: "string \<Rightarrow> string \<Rightarrow> string \<Rightarrow> string \<Rightarrow> bool" where
  "afterMultipartMarker key uploadID keyMarker uploadIDMarker =
     (if uploadIDMarker = [] then key > keyMarker
      else if key \<noteq> keyMarker then key > keyMarker
      else uploadID > uploadIDMarker)"

definition uploadCandidates :: "string \<Rightarrow> string \<Rightarrow> namespace \<Rightarrow> multipartUpload list" where
  "uploadCandidates bucket pre ns =
     sort_key (\<lambda>up. (mu_key up, mu_uploadID up))
       (filter (\<lambda>up. mu_bucket up = bucket \<and> has_prefix (mu_key up) pre)
         (map (\<lambda>i. the (fmlookup (ns_uploads ns) i)) (sorted_keys (ns_uploads ns))))"

definition ListMultipartUploads ::
  "string \<Rightarrow> string \<Rightarrow> string \<Rightarrow> string \<Rightarrow> string \<Rightarrow> int \<Rightarrow> store \<Rightarrow> err + (multipartUpload page \<times> string \<times> string)" where
  "ListMultipartUploads bucket pre delimiter keyMarker uploadIDMarker0 maxUploads s =
     (if fmlookup (ns_buckets (s_ns s)) bucket = None then Inl ErrNoSuchBucket
      else if maxUploads \<le> 0 then Inr (empty_page, [], [])
      else
        let uploadIDMarker = (if keyMarker = [] then [] else uploadIDMarker0);
            page = pageLoop (\<lambda>up. \<not> afterMultipartMarker (mu_key up) (mu_uploadID up) keyMarker uploadIDMarker)
                     (\<lambda>up. groupOf pre delimiter (mu_key up)) (\<lambda>cp. cp \<le> keyMarker) (nat maxUploads)
                     (uploadCandidates bucket pre (s_ns s)) None empty_page
        in Inr (case (pg_truncated page, pg_last page) of
                  (True, Some up) \<Rightarrow> (page, mu_key up, mu_uploadID up)
                | _ \<Rightarrow> (page, [], [])))"

section \<open>Objects: the pages are exact\<close>

definition startKey :: "string \<Rightarrow> string" where
  "startKey tok = (if tok \<noteq> [] then (case decodeContinuationToken tok of None \<Rightarrow> [] | Some k \<Rightarrow> k) else [])"

definition listFrom :: "string \<Rightarrow> bucketEntry \<Rightarrow> string \<Rightarrow> (string \<times> objectEntry) list" where
  "listFrom pre b startAfterKey = filter (\<lambda>(k, _). \<not> (startAfterKey \<noteq> [] \<and> k \<le> startAfterKey)) (listCandidates pre b)"

definition bucket_of :: "string \<Rightarrow> store \<Rightarrow> bucketEntry" where
  "bucket_of bucket s = the (fmlookup (ns_buckets (s_ns s)) bucket)"

definition objects_ok :: "string \<Rightarrow> int \<Rightarrow> store \<Rightarrow> string \<Rightarrow> bool" where
  "objects_ok bucket maxKeys s tok \<longleftrightarrow> fmlookup (ns_buckets (s_ns s)) bucket \<noteq> None \<and> 0 < maxKeys
     \<and> [] \<notin> fmdom' (be_objects (bucket_of bucket s)) \<and> (tok = [] \<or> (\<exists>k. tok = encodeContinuationToken k))"

definition objects_left :: "string \<Rightarrow> string \<Rightarrow> string \<Rightarrow> store \<Rightarrow> string \<Rightarrow> (string \<times> objectEntry) list" where
  "objects_left bucket pre delimiter s tok =
     filter (\<lambda>(k, _). groupOf pre delimiter k = None) (listFrom pre (bucket_of bucket s) (startKey tok))"

definition prefixes_left :: "string \<Rightarrow> string \<Rightarrow> string \<Rightarrow> store \<Rightarrow> string \<Rightarrow> string list" where
  "prefixes_left bucket pre delimiter s tok =
     newGroups (\<lambda>(k, _). groupOf pre delimiter k) None (listFrom pre (bucket_of bucket s) (startKey tok))"

lemma listCandidates_sorted:
  "sorted_wrt (\<lambda>a b. fst a < fst b) (listCandidates pre b)" "x \<in> set (listCandidates pre b) \<Longrightarrow> has_prefix (fst x) pre"
  "x \<in> set (listCandidates pre b) \<Longrightarrow> fst x \<in> fmdom' (be_objects b)"
proof -
  have "sorted_wrt (<) (filter (\<lambda>k. has_prefix k pre) (sorted_keys (be_objects b)))"
    by (rule sorted_wrt_filter) (simp add: strict_sorted_iff)
  then show "sorted_wrt (\<lambda>a b. fst a < fst b) (listCandidates pre b)" by (simp add: listCandidates_def sorted_wrt_map)
qed (auto simp: listCandidates_def fmdom'_alt_def)

lemma listFrom_sorted: "sorted_wrt (\<lambda>a b. fst a < fst b) (listFrom pre b st)"
  unfolding listFrom_def by (rule sorted_wrt_filter) (rule listCandidates_sorted)

lemma listFrom_blocks: "blocks (\<lambda>(k, _). groupOf pre d k) (listFrom pre b st)"
proof -
  have "sorted_wrt (\<lambda>a b. fst a \<le> fst b) (listFrom pre b st)"
    by (rule sorted_wrt_mono_rel [OF _ listFrom_sorted]) simp
  moreover have "\<forall>x \<in> set (listFrom pre b st). has_prefix (fst x) pre"
    using listCandidates_sorted(2) by (auto simp: listFrom_def)
  ultimately have "blocks (\<lambda>x. groupOf pre d (fst x)) (listFrom pre b st)" by (rule blocks_sorted)
  then show ?thesis by (simp add: case_prod_unfold)
qed

lemma listFrom_resume:
  assumes "listFrom pre b st = xs @ ys" "xs \<noteq> []" "fst (last xs) \<noteq> []"
  shows "listFrom pre b (fst (last xs)) = ys"
proof -
  have l: "st = [] \<or> st < fst (last xs)"
  proof -
    have "last xs \<in> set (listFrom pre b st)" using assms(1,2) by simp
    then show ?thesis by (auto simp: listFrom_def)
  qed
  have "listFrom pre b (fst (last xs)) = filter (\<lambda>x. fst (last xs) < fst x) (listCandidates pre b)"
    using assms(3) by (simp add: listFrom_def case_prod_unfold not_le)
  also have "\<dots> = filter (\<lambda>x. fst (last xs) < fst x) (listFrom pre b st)"
    using l by (auto simp: listFrom_def case_prod_unfold intro!: filter_cong)
  also have "\<dots> = ys"
    using filter_after_last [of "\<lambda>a b. fst a < fst b" xs ys] assms(1,2) listFrom_sorted [of pre b st] by simp
  finally show ?thesis .
qed

lemma objectsPage_page:
  assumes "objects_ok bucket maxKeys s tok" "objectsPage bucket pre delimiter maxKeys s tok = Inr (xs, ys, nxt)"
  obtains p q where "listFrom pre (bucket_of bucket s) (startKey tok) = p @ q"
    "xs = filter (\<lambda>(k, _). groupOf pre delimiter k = None) p" "ys = newGroups (\<lambda>(k, _). groupOf pre delimiter k) None p"
    "length xs + length ys \<le> nat maxKeys"
    "nxt = (if q = [] then None else Some (encodeContinuationToken (fst (last p))))"
    "q \<noteq> [] \<Longrightarrow> p \<noteq> [] \<and> (xs \<noteq> [] \<or> ys \<noteq> [])
      \<and> newGroups (\<lambda>(k, _). groupOf pre delimiter k) None (p @ q) = ys @ newGroups (\<lambda>(k, _). groupOf pre delimiter k) None q"
proof -
  let ?f = "\<lambda>(k, _). groupOf pre delimiter k" and ?b = "bucket_of bucket s" and ?st = "startKey tok"
  let ?skip = "\<lambda>(k, _). ?st \<noteq> [] \<and> k \<le> ?st"
  let ?pg = "pageLoop ?skip ?f (\<lambda>_. False) (nat maxKeys) (listCandidates pre ?b) None empty_page"
  have ok: "fmlookup (ns_buckets (s_ns s)) bucket = Some ?b" "0 < maxKeys"
    "(if tok \<noteq> [] then decodeContinuationToken tok else Some []) = Some ?st"
    using assms(1) by (auto simp: objects_ok_def bucket_of_def startKey_def)
  have pg: "xs = pg_items ?pg" "ys = pg_prefixes ?pg"
    "nxt = (if pg_truncated ?pg then Some (encodeContinuationToken (case pg_last ?pg of None \<Rightarrow> [] | Some (k, _) \<Rightarrow> k)) else None)"
    using assms(2) ok by (auto simp: objectsPage_def ListObjectsV2_def)
  have R: "filter (\<lambda>k. \<not> ?skip k) (listCandidates pre ?b) = listFrom pre ?b ?st"
    by (simp add: listFrom_def case_prod_unfold)
  have b: "blocks (shown ?f (\<lambda>_. False)) (filter (\<lambda>k. \<not> ?skip k) (listCandidates pre ?b))"
    unfolding R using listFrom_blocks by simp
  obtain p q where pq: "filter (\<lambda>k. \<not> ?skip k) (listCandidates pre ?b) = p @ q" "pg_truncated ?pg = (q \<noteq> [])"
    "pg_items ?pg = filter (\<lambda>k. ?f k = None) p" "pg_prefixes ?pg = newGroups (shown ?f (\<lambda>_. False)) None p" "units ?pg \<le> nat maxKeys"
    "pg_last ?pg = (if p = [] then None else Some (last p))"
    "q \<noteq> [] \<Longrightarrow> p \<noteq> [] \<and> (pg_items ?pg \<noteq> [] \<or> pg_prefixes ?pg \<noteq> [])
      \<and> (?f (hd q) = None \<or> shown ?f (\<lambda>_. False) (hd q) \<noteq> None \<and> shown ?f (\<lambda>_. False) (hd q) \<noteq> lastGroup (shown ?f (\<lambda>_. False)) None p)
      \<and> newGroups (shown ?f (\<lambda>_. False)) None (p @ q) = pg_prefixes ?pg @ newGroups (shown ?f (\<lambda>_. False)) None q"
    using pageLoop_page [OF refl _ b, of "nat maxKeys"] ok(2) by auto
  show thesis
  proof (rule that)
    show "listFrom pre ?b ?st = p @ q" using pq(1) R by simp
    show "xs = filter (\<lambda>(k, _). groupOf pre delimiter k = None) p" using pg(1) pq(3) by (simp add: case_prod_unfold)
    show "ys = newGroups ?f None p" using pg(2) pq(4) by simp
    show "length xs + length ys \<le> nat maxKeys" using pq(5) unfolding pg units_def .
    show "nxt = (if q = [] then None else Some (encodeContinuationToken (fst (last p))))"
      using pg(3) pq(2,6,7) by (simp add: case_prod_unfold)
    show "p \<noteq> [] \<and> (xs \<noteq> [] \<or> ys \<noteq> []) \<and> newGroups ?f None (p @ q) = ys @ newGroups ?f None q" if "q \<noteq> []"
      using pq(7) [OF that] unfolding pg by simp
  qed
qed

interpretation objects: paged "objectsPage bucket pre delimiter maxKeys s" "objects_ok bucket maxKeys s"
  "objects_left bucket pre delimiter s" "prefixes_left bucket pre delimiter s" for bucket pre delimiter maxKeys s
proof (unfold_locales, goal_cases)
  case (1 tok)
  then show ?case
    by (auto simp: objects_ok_def objectsPage_def ListObjectsV2_def startKey_def split: option.splits)
next
  case (2 tok xs ys)
  show ?case
  proof (rule objectsPage_page [OF 2])
    fix p q
    assume "listFrom pre (bucket_of bucket s) (startKey tok) = p @ q" "xs = filter (\<lambda>(k, _). groupOf pre delimiter k = None) p"
      "ys = newGroups (\<lambda>(k, _). groupOf pre delimiter k) None p"
      "None = (if q = [] then None else Some (encodeContinuationToken (fst (last p))))"
    then show ?thesis by (simp add: objects_left_def prefixes_left_def split: if_splits)
  qed
next
  case (3 tok xs ys tok')
  obtain p q where pq: "listFrom pre (bucket_of bucket s) (startKey tok) = p @ q"
    "xs = filter (\<lambda>(k, _). groupOf pre delimiter k = None) p" "q \<noteq> []"
    "tok' = encodeContinuationToken (fst (last p))" "p \<noteq> []" "xs \<noteq> [] \<or> ys \<noteq> []"
    "newGroups (\<lambda>(k, _). groupOf pre delimiter k) None (p @ q) = ys @ newGroups (\<lambda>(k, _). groupOf pre delimiter k) None q"
  proof (rule objectsPage_page [OF 3])
    fix p q
    assume "listFrom pre (bucket_of bucket s) (startKey tok) = p @ q" "xs = filter (\<lambda>(k, _). groupOf pre delimiter k = None) p"
      "Some tok' = (if q = [] then None else Some (encodeContinuationToken (fst (last p))))"
      "q \<noteq> [] \<Longrightarrow> p \<noteq> [] \<and> (xs \<noteq> [] \<or> ys \<noteq> [])
        \<and> newGroups (\<lambda>(k, _). groupOf pre delimiter k) None (p @ q) = ys @ newGroups (\<lambda>(k, _). groupOf pre delimiter k) None q"
    then show thesis using that [of p q] by (cases "q = []") simp_all
  qed
  have "last p \<in> set (listFrom pre (bucket_of bucket s) (startKey tok))" using pq(1,5) by simp
  then have "fst (last p) \<noteq> []"
    using listCandidates_sorted(3) 3(1) unfolding objects_ok_def listFrom_def by fastforce
  then have "listFrom pre (bucket_of bucket s) (startKey tok') = q"
    using listFrom_resume [OF pq(1,5)] pq(4) by (simp add: startKey_def)
  moreover have "objects_ok bucket maxKeys s tok'" using 3(1) pq(4) by (auto simp: objects_ok_def)
  ultimately show ?case using pq by (simp add: objects_left_def prefixes_left_def)
qed

section \<open>Uploads: the pages are exact\<close>

definition uploadsPage ::
  "string \<Rightarrow> string \<Rightarrow> string \<Rightarrow> int \<Rightarrow> store \<Rightarrow> string \<times> string
    \<Rightarrow> err + (multipartUpload list \<times> string list \<times> (string \<times> string) option)" where
  "uploadsPage bucket pre delimiter maxUploads s = (\<lambda>(keyMarker, uploadIDMarker).
     case ListMultipartUploads bucket pre delimiter keyMarker uploadIDMarker maxUploads s of
       Inl e \<Rightarrow> Inl e
     | Inr (page, nextKeyMarker, nextUploadIDMarker) \<Rightarrow>
         Inr (pg_items page, pg_prefixes page,
              if pg_truncated page then Some (nextKeyMarker, nextUploadIDMarker) else None))"

text \<open>Uploads are stored under their own, non-empty id and belong to a non-empty key.\<close>

definition uploads_keyed :: "namespace \<Rightarrow> bool" where
  "uploads_keyed ns \<longleftrightarrow> (\<forall>i up. fmlookup (ns_uploads ns) i = Some up \<longrightarrow> mu_uploadID up = i \<and> i \<noteq> [] \<and> mu_key up \<noteq> [])"

definition uploads_ok :: "string \<Rightarrow> int \<Rightarrow> store \<Rightarrow> string \<times> string \<Rightarrow> bool" where
  "uploads_ok bucket maxUploads s c \<longleftrightarrow> fmlookup (ns_buckets (s_ns s)) bucket \<noteq> None \<and> 0 < maxUploads \<and> uploads_keyed (s_ns s)"

definition uploadsFrom :: "string \<Rightarrow> string \<Rightarrow> namespace \<Rightarrow> string \<times> string \<Rightarrow> multipartUpload list" where
  "uploadsFrom bucket pre ns = (\<lambda>(keyMarker, uploadIDMarker).
     filter (\<lambda>up. afterMultipartMarker (mu_key up) (mu_uploadID up) keyMarker (if keyMarker = [] then [] else uploadIDMarker))
       (uploadCandidates bucket pre ns))"

definition uploads_left :: "string \<Rightarrow> string \<Rightarrow> string \<Rightarrow> store \<Rightarrow> string \<times> string \<Rightarrow> multipartUpload list" where
  "uploads_left bucket pre delimiter s c =
     filter (\<lambda>up. groupOf pre delimiter (mu_key up) = None) (uploadsFrom bucket pre (s_ns s) c)"

definition upload_prefixes_left :: "string \<Rightarrow> string \<Rightarrow> string \<Rightarrow> store \<Rightarrow> string \<times> string \<Rightarrow> string list" where
  "upload_prefixes_left bucket pre delimiter s c =
     newGroups (shown (\<lambda>up. groupOf pre delimiter (mu_key up)) (\<lambda>cp. cp \<le> fst c)) None (uploadsFrom bucket pre (s_ns s) c)"

definition upload_lt :: "multipartUpload \<Rightarrow> multipartUpload \<Rightarrow> bool" where
  "upload_lt a b \<longleftrightarrow> (mu_key a, mu_uploadID a) < (mu_key b, mu_uploadID b)"

lemma uploadCandidates_sorted:
  assumes "uploads_keyed ns"
  shows "sorted_wrt upload_lt (uploadCandidates bucket pre ns)"
    and "x \<in> set (uploadCandidates bucket pre ns) \<Longrightarrow> has_prefix (mu_key x) pre \<and> mu_key x \<noteq> [] \<and> mu_uploadID x \<noteq> []"
proof -
  let ?ups = "map (\<lambda>i. the (fmlookup (ns_uploads ns) i)) (sorted_keys (ns_uploads ns))"
  have id: "mu_uploadID (the (fmlookup (ns_uploads ns) i)) = i \<and> mu_key (the (fmlookup (ns_uploads ns) i)) \<noteq> [] \<and> i \<noteq> []"
    if "i \<in> set (sorted_keys (ns_uploads ns))" for i
  proof -
    obtain up where "fmlookup (ns_uploads ns) i = Some up" using \<open>i \<in> _\<close> by (auto elim: fmdomE)
    then show ?thesis using assms by (simp add: uploads_keyed_def)
  qed
  let ?key = "\<lambda>up. (mu_key up, mu_uploadID up)"
  have "map mu_uploadID ?ups = sorted_keys (ns_uploads ns)" using id by (simp only: map_map) (rule map_idI, simp)
  then have "distinct (map mu_uploadID ?ups)" by (simp only: distinct_sorted_keys)
  then have "distinct (map mu_uploadID (filter P ?ups))" for P by (rule distinct_map_filter)
  then have "distinct (map ?key (filter P ?ups))" for P
    by (metis (no_types, lifting) distinct_map inj_on_def snd_conv)
  then have d: "distinct (map ?key (uploadCandidates bucket pre ns))"
    unfolding uploadCandidates_def by (simp only: distinct_map distinct_sort set_sort)
  have "sorted (map ?key (uploadCandidates bucket pre ns))" unfolding uploadCandidates_def by (rule sorted_sort_key)
  with d have "sorted_wrt (<) (map ?key (uploadCandidates bucket pre ns))" by (simp add: strict_sorted_iff)
  then show "sorted_wrt upload_lt (uploadCandidates bucket pre ns)" unfolding sorted_wrt_map upload_lt_def .
  show "has_prefix (mu_key x) pre \<and> mu_key x \<noteq> [] \<and> mu_uploadID x \<noteq> []" if "x \<in> set (uploadCandidates bucket pre ns)"
    using that id by (auto simp: uploadCandidates_def)
qed

lemma upload_lt_key: "upload_lt a b \<Longrightarrow> mu_key a \<le> mu_key b"
  by (auto simp: upload_lt_def less_prod_def)

lemma after_mono:
  "afterMultipartMarker (mu_key a) (mu_uploadID a) k i \<Longrightarrow> upload_lt a b \<Longrightarrow> afterMultipartMarker (mu_key b) (mu_uploadID b) k i"
  by (auto simp: afterMultipartMarker_def upload_lt_def less_prod_def split: if_splits)

lemma after_self: "mu_uploadID a \<noteq> [] \<Longrightarrow> afterMultipartMarker (mu_key b) (mu_uploadID b) (mu_key a) (mu_uploadID a) \<longleftrightarrow> upload_lt a b"
  by (auto simp: afterMultipartMarker_def upload_lt_def less_prod_def)

lemma after_le: "afterMultipartMarker k' i' k i \<Longrightarrow> k \<le> k'"
  by (auto simp: afterMultipartMarker_def split: if_splits)

lemma uploadsFrom_sorted:
  assumes "uploads_keyed ns"
  shows "sorted_wrt upload_lt (uploadsFrom bucket pre ns c)" "blocks (\<lambda>up. groupOf pre d (mu_key up)) (uploadsFrom bucket pre ns c)"
proof -
  show s: "sorted_wrt upload_lt (uploadsFrom bucket pre ns c)"
    unfolding uploadsFrom_def case_prod_unfold by (rule sorted_wrt_filter) (rule uploadCandidates_sorted [OF assms])
  then have "sorted_wrt (\<lambda>a b. mu_key a \<le> mu_key b) (uploadsFrom bucket pre ns c)"
    by (rule sorted_wrt_mono_rel [rotated]) (rule upload_lt_key)
  then show "blocks (\<lambda>up. groupOf pre d (mu_key up)) (uploadsFrom bucket pre ns c)"
    using uploadCandidates_sorted(2) [OF assms] by (intro blocks_sorted) (auto simp: uploadsFrom_def)
qed

lemma uploadsFrom_resume:
  assumes "uploads_keyed ns" "uploadsFrom bucket pre ns c = xs @ ys" "xs \<noteq> []"
  shows "uploadsFrom bucket pre ns (mu_key (last xs), mu_uploadID (last xs)) = ys"
proof -
  have l: "last xs \<in> set (uploadsFrom bucket pre ns c)" using assms(2,3) by simp
  then have ne: "mu_key (last xs) \<noteq> []" "mu_uploadID (last xs) \<noteq> []"
    using uploadCandidates_sorted(2) [OF assms(1)] by (auto simp: uploadsFrom_def)
  have "uploadsFrom bucket pre ns (mu_key (last xs), mu_uploadID (last xs)) = filter (upload_lt (last xs)) (uploadCandidates bucket pre ns)"
    using ne after_self by (simp add: uploadsFrom_def)
  also have "\<dots> = filter (upload_lt (last xs)) (uploadsFrom bucket pre ns c)"
    using l after_mono by (auto simp: uploadsFrom_def case_prod_unfold intro!: filter_cong)
  also have "\<dots> = ys"
    using uploadsFrom_sorted(1) [OF assms(1), of bucket pre c] unfolding assms(2)
    by (rule filter_after_last [OF _ assms(3)]) (auto simp: upload_lt_def)
  finally show ?thesis .
qed

lemma lastGroup_snoc: "f k = Some cp \<Longrightarrow> lastGroup f g (xs @ [k]) = Some cp"
  by (induction xs arbitrary: g) simp_all

lemma dropWhile_cong_all: "(\<And>x. P x = Q x) \<Longrightarrow> dropWhile P xs = dropWhile Q xs"
  by (induction xs) simp_all

lemma blocks_shown: "blocks f ks \<Longrightarrow> blocks (shown f hidden) ks"
proof (induction ks)
  case (Cons k ks)
  have "shown f hidden k = None \<or> shown f hidden k \<notin> shown f hidden ` set (dropWhile (\<lambda>x. shown f hidden x = shown f hidden k) ks)"
  proof (cases "shown f hidden k")
    case (Some cp)
    then have k: "f k = Some cp" "\<not> hidden cp" by (auto simp: shown_def split: option.splits if_splits)
    then have "shown f hidden x = Some cp \<longleftrightarrow> f x = Some cp" for x by (auto simp: shown_def split: option.splits)
    then have "dropWhile (\<lambda>x. shown f hidden x = Some cp) ks = dropWhile (\<lambda>x. f x = Some cp) ks"
      and i: "Some cp \<in> shown f hidden ` A \<longleftrightarrow> Some cp \<in> f ` A" for A
      by (auto intro: dropWhile_cong_all simp: image_iff) metis+
    then show ?thesis using Cons.prems k Some by simp
  qed simp
  then show ?case using Cons by simp
qed simp

text \<open>
  A group whose prefix is not after the marker and not before the page is one the page itself
  emitted, so the marker of the next page hides no new group.
\<close>

lemma upload_groups_resume:
  assumes keyed: "uploads_keyed ns" and frm: "uploadsFrom bucket pre ns (km, um) = p @ q" and ne: "p \<noteq> []" "q \<noteq> []"
    and stop: "groupOf pre d (mu_key (hd q)) = None
      \<or> shown (\<lambda>up. groupOf pre d (mu_key up)) (\<lambda>cp. cp \<le> km) (hd q) \<noteq> None
        \<and> shown (\<lambda>up. groupOf pre d (mu_key up)) (\<lambda>cp. cp \<le> km) (hd q)
            \<noteq> lastGroup (shown (\<lambda>up. groupOf pre d (mu_key up)) (\<lambda>cp. cp \<le> km)) None p"
    and u: "u \<in> set q"
  shows "shown (\<lambda>up. groupOf pre d (mu_key up)) (\<lambda>cp. cp \<le> km) u
    = shown (\<lambda>up. groupOf pre d (mu_key up)) (\<lambda>cp. cp \<le> mu_key (last p)) u"
proof (cases "groupOf pre d (mu_key u)")
  case (Some cp)
  let ?f = "\<lambda>up. groupOf pre d (mu_key up)" and ?l = "last p"
  have in_R: "x \<in> set (uploadsFrom bucket pre ns (km, um))" if "x \<in> set p \<union> set q" for x using frm that by simp
  have hp: "has_prefix (mu_key x) pre" if "x \<in> set p \<union> set q" for x
    using in_R [OF that] uploadCandidates_sorted(2) [OF keyed] by (auto simp: uploadsFrom_def)
  have lp: "?l \<in> set p \<union> set q" "hd q \<in> set p \<union> set q" "u \<in> set p \<union> set q" using ne u by simp_all
  have km: "km \<le> mu_key ?l" using in_R [OF lp(1)] after_le by (auto simp: uploadsFrom_def)
  have so: "sorted_wrt upload_lt (p @ q)" using uploadsFrom_sorted(1) [OF keyed, of bucket pre "(km, um)"] frm by simp
  have lh: "mu_key ?l \<le> mu_key (hd q)" using so ne by (intro upload_lt_key) (simp add: sorted_wrt_append)
  have hu: "mu_key (hd q) \<le> mu_key u"
  proof (cases "u = hd q")
    case False
    then have "upload_lt (hd q) u" using so u ne(2) by (cases q) (auto simp: sorted_wrt_append)
    then show ?thesis by (rule upload_lt_key)
  qed simp
  have "cp \<le> km" if cl: "cp \<le> mu_key ?l"
  proof (rule ccontr)
    assume n: "\<not> cp \<le> km"
    have pu: "prefix cp (mu_key u)" using groupOf_prefix(1) [OF Some hp [OF lp(3)]] .
    have "prefix cp (mu_key ?l)" using prefix_between [OF cl order_trans [OF lh hu] pu] .
    then have fl: "?f ?l = Some cp" using groupOf_prefix(2) [OF Some hp [OF lp(3)] hp [OF lp(1)]] by blast
    have fh: "?f (hd q) = Some cp"
      using groupOf_block [OF fl Some lh hu hp [OF lp(1)] hp [OF lp(3)] hp [OF lp(2)]] .
    have "lastGroup (shown ?f (\<lambda>cp. cp \<le> km)) None (butlast p @ [?l]) = Some cp"
      by (rule lastGroup_snoc) (simp add: shown_def fl n)
    then have "lastGroup (shown ?f (\<lambda>cp. cp \<le> km)) None p = Some cp" using ne(1) by simp
    then show False using stop fh n by (simp add: shown_def)
  qed
  then have "cp \<le> km \<longleftrightarrow> cp \<le> mu_key ?l" using km by (auto intro: order_trans)
  then show ?thesis using Some by (simp add: shown_def)
qed (simp add: shown_def)

lemma uploadsPage_page:
  assumes "uploads_ok bucket maxUploads s (km, um)" "uploadsPage bucket pre d maxUploads s (km, um) = Inr (xs, ys, nxt)"
  obtains p q where "uploadsFrom bucket pre (s_ns s) (km, um) = p @ q"
    "xs = filter (\<lambda>up. groupOf pre d (mu_key up) = None) p"
    "ys = newGroups (shown (\<lambda>up. groupOf pre d (mu_key up)) (\<lambda>cp. cp \<le> km)) None p"
    "length xs + length ys \<le> nat maxUploads"
    "nxt = (if q = [] then None else Some (mu_key (last p), mu_uploadID (last p)))"
    "q \<noteq> [] \<Longrightarrow> p \<noteq> [] \<and> (xs \<noteq> [] \<or> ys \<noteq> [])
      \<and> newGroups (shown (\<lambda>up. groupOf pre d (mu_key up)) (\<lambda>cp. cp \<le> km)) None (p @ q)
        = ys @ newGroups (shown (\<lambda>up. groupOf pre d (mu_key up)) (\<lambda>cp. cp \<le> mu_key (last p))) None q"
proof -
  let ?f = "\<lambda>up. groupOf pre d (mu_key up)" and ?h = "\<lambda>cp. cp \<le> km" and ?u = "if km = [] then [] else um"
  let ?skip = "\<lambda>up. \<not> afterMultipartMarker (mu_key up) (mu_uploadID up) km ?u"
  let ?pg = "pageLoop ?skip ?f ?h (nat maxUploads) (uploadCandidates bucket pre (s_ns s)) None empty_page"
  have ok: "fmlookup (ns_buckets (s_ns s)) bucket \<noteq> None" "0 < maxUploads" "uploads_keyed (s_ns s)"
    using assms(1) by (simp_all add: uploads_ok_def)
  have L: "ListMultipartUploads bucket pre d km um maxUploads s = Inr (case (pg_truncated ?pg, pg_last ?pg) of
        (True, Some up) \<Rightarrow> (?pg, mu_key up, mu_uploadID up) | _ \<Rightarrow> (?pg, [], []))"
    using ok by (simp add: ListMultipartUploads_def Let_def)
  have R: "filter (\<lambda>k. \<not> ?skip k) (uploadCandidates bucket pre (s_ns s)) = uploadsFrom bucket pre (s_ns s) (km, um)"
    by (simp add: uploadsFrom_def)
  have b: "blocks (shown ?f ?h) (filter (\<lambda>k. \<not> ?skip k) (uploadCandidates bucket pre (s_ns s)))"
    unfolding R by (intro blocks_shown uploadsFrom_sorted(2) ok(3))
  obtain p q where pq: "filter (\<lambda>k. \<not> ?skip k) (uploadCandidates bucket pre (s_ns s)) = p @ q" "pg_truncated ?pg = (q \<noteq> [])"
    "pg_items ?pg = filter (\<lambda>k. ?f k = None) p" "pg_prefixes ?pg = newGroups (shown ?f ?h) None p" "units ?pg \<le> nat maxUploads"
    "pg_last ?pg = (if p = [] then None else Some (last p))"
    "q \<noteq> [] \<Longrightarrow> p \<noteq> [] \<and> (pg_items ?pg \<noteq> [] \<or> pg_prefixes ?pg \<noteq> [])
      \<and> (?f (hd q) = None \<or> shown ?f ?h (hd q) \<noteq> None \<and> shown ?f ?h (hd q) \<noteq> lastGroup (shown ?f ?h) None p)
      \<and> newGroups (shown ?f ?h) None (p @ q) = pg_prefixes ?pg @ newGroups (shown ?f ?h) None q"
    using pageLoop_page [OF refl _ b, of "nat maxUploads"] ok(2) by auto
  have pg: "xs = pg_items ?pg" "ys = pg_prefixes ?pg" "nxt = (if q = [] then None else Some (mu_key (last p), mu_uploadID (last p)))"
    using assms(2) L pq(2,6,7) by (auto simp: uploadsPage_def split: if_splits)
  show thesis
  proof (rule that)
    show frm: "uploadsFrom bucket pre (s_ns s) (km, um) = p @ q" using pq(1) R by simp
    show "xs = filter (\<lambda>up. ?f up = None) p" "ys = newGroups (shown ?f ?h) None p" using pg pq(3,4) by simp_all
    show "length xs + length ys \<le> nat maxUploads" using pq(5) unfolding pg units_def .
    show "nxt = (if q = [] then None else Some (mu_key (last p), mu_uploadID (last p)))" by (rule pg(3))
    show "p \<noteq> [] \<and> (xs \<noteq> [] \<or> ys \<noteq> []) \<and> newGroups (shown ?f ?h) None (p @ q)
        = ys @ newGroups (shown ?f (\<lambda>cp. cp \<le> mu_key (last p))) None q" if q: "q \<noteq> []"
      using pq(7) [OF q] newGroups_cong [OF upload_groups_resume [OF ok(3) frm _ q, of d]] unfolding pg by simp
  qed
qed

interpretation uploads: paged "uploadsPage bucket pre delimiter maxUploads s" "uploads_ok bucket maxUploads s"
  "uploads_left bucket pre delimiter s" "upload_prefixes_left bucket pre delimiter s" for bucket pre delimiter maxUploads s
proof (unfold_locales, goal_cases)
  case (1 c)
  then show ?case
    by (cases c) (auto simp: uploads_ok_def uploadsPage_def ListMultipartUploads_def Let_def split: option.splits bool.splits)
next
  case (2 c xs ys)
  obtain km um where c: "c = (km, um)" by fastforce
  show ?case
  proof (rule uploadsPage_page [OF 2 [unfolded c]])
    fix p q
    assume "uploadsFrom bucket pre (s_ns s) (km, um) = p @ q" "xs = filter (\<lambda>up. groupOf pre delimiter (mu_key up) = None) p"
      "ys = newGroups (shown (\<lambda>up. groupOf pre delimiter (mu_key up)) (\<lambda>cp. cp \<le> km)) None p"
      "None = (if q = [] then None else Some (mu_key (last p), mu_uploadID (last p)))"
    then show ?thesis by (simp add: uploads_left_def upload_prefixes_left_def c split: if_splits)
  qed
next
  case (3 c xs ys c')
  obtain km um where c: "c = (km, um)" by fastforce
  show ?case
  proof (rule uploadsPage_page [OF 3 [unfolded c]])
    fix p q
    assume a: "uploadsFrom bucket pre (s_ns s) (km, um) = p @ q" "xs = filter (\<lambda>up. groupOf pre delimiter (mu_key up) = None) p"
      "Some c' = (if q = [] then None else Some (mu_key (last p), mu_uploadID (last p)))"
      "q \<noteq> [] \<Longrightarrow> p \<noteq> [] \<and> (xs \<noteq> [] \<or> ys \<noteq> [])
        \<and> newGroups (shown (\<lambda>up. groupOf pre delimiter (mu_key up)) (\<lambda>cp. cp \<le> km)) None (p @ q)
          = ys @ newGroups (shown (\<lambda>up. groupOf pre delimiter (mu_key up)) (\<lambda>cp. cp \<le> mu_key (last p))) None q"
    then have q: "q \<noteq> []" "c' = (mu_key (last p), mu_uploadID (last p))" by (auto split: if_splits)
    have "uploads_keyed (s_ns s)" using 3(1) by (simp add: uploads_ok_def)
    then have "uploadsFrom bucket pre (s_ns s) c' = q" using uploadsFrom_resume a(1,4) q by metis
    moreover have "uploads_ok bucket maxUploads s c'" using 3(1) by (simp add: uploads_ok_def)
    ultimately show ?thesis using a(1,2) a(4) [OF q(1)] q(2) by (simp add: uploads_left_def upload_prefixes_left_def c)
  qed
qed

section \<open>Parts: the pages are exact\<close>

definition partsPage ::
  "string \<Rightarrow> string \<Rightarrow> string \<Rightarrow> int \<Rightarrow> store \<Rightarrow> int \<Rightarrow> err + (multipartPart list \<times> unit list \<times> int option)" where
  "partsPage bucket key uploadID maxParts s partNumberMarker =
     (case ListPartsPage bucket key uploadID partNumberMarker maxParts s of
        Inl e \<Rightarrow> Inl e
      | Inr page \<Rightarrow> Inr (lp_parts page, [], if lp_truncated page then Some (lp_nextPartNumberMarker page) else None))"

definition parts_ok :: "string \<Rightarrow> string \<Rightarrow> string \<Rightarrow> int \<Rightarrow> store \<Rightarrow> int \<Rightarrow> bool" where
  "parts_ok bucket key uploadID maxParts s marker \<longleftrightarrow> is_ok (lookupUploadLocked bucket key uploadID (s_ns s)) \<and> 0 < maxParts"

definition parts_left :: "string \<Rightarrow> string \<Rightarrow> string \<Rightarrow> store \<Rightarrow> int \<Rightarrow> multipartPart list" where
  "parts_left bucket key uploadID s marker =
     (case lookupUploadLocked bucket key uploadID (s_ns s) of
        Inl _ \<Rightarrow> []
      | Inr up \<Rightarrow> List.map_filter (fmlookup (mu_parts up)) (filter (\<lambda>n. marker < n) (sorted_keys (mu_parts up))))"

lemma map_filter_append: "List.map_filter f (xs @ ys) = List.map_filter f xs @ List.map_filter f ys"
  by (simp add: List.map_filter_def)

interpretation parts: paged "partsPage bucket key uploadID maxParts s" "parts_ok bucket key uploadID maxParts s"
  "parts_left bucket key uploadID s" "\<lambda>_. []" for bucket key uploadID maxParts s
proof (unfold_locales, goal_cases)
  case (1 m)
  then show ?case by (auto simp: parts_ok_def partsPage_def ListPartsPage_def Let_def)
next
  case (2 m xs ys)
  then show ?case by (auto simp: parts_ok_def partsPage_def ListPartsPage_def parts_left_def Let_def split: if_splits)
next
  case (3 m xs ys m')
  obtain up where up: "lookupUploadLocked bucket key uploadID (s_ns s) = Inr up" "0 < maxParts" using 3(1) by (auto simp: parts_ok_def)
  define ns where "ns = filter (\<lambda>n. m < n) (sorted_keys (mu_parts up))"
  define p where "p = take (nat maxParts) ns"
  define q where "q = drop (nat maxParts) ns"
  have t: "int (length ns) > maxParts" "xs = List.map_filter (fmlookup (mu_parts up)) p" "ys = []" "m' = last p"
    using 3(2) up by (auto simp: partsPage_def ListPartsPage_def Let_def ns_def [symmetric] p_def split: if_splits)
  have pq: "ns = p @ q" "p \<noteq> []" using t(1) up(2) by (auto simp: p_def q_def)
  have so: "sorted_wrt (<) (sorted_keys (mu_parts up))" by (simp add: strict_sorted_iff)
  then have "sorted_wrt (<) (p @ q)" unfolding pq(1) [symmetric] ns_def by (rule sorted_wrt_filter)
  then have q: "filter (\<lambda>n. m' < n) ns = q" unfolding t(4) pq(1) by (rule filter_after_last [OF _ pq(2)]) simp
  have lp: "last p \<in> set ns" using pq by simp
  then have "m < m'" unfolding t(4) ns_def by simp
  then have "filter (\<lambda>n. m' < n) (sorted_keys (mu_parts up)) = q"
    unfolding q [symmetric] ns_def by (auto intro!: filter_cong)
  moreover have "xs \<noteq> []"
  proof -
    have "last p |\<in>| fmdom (mu_parts up)" using lp by (simp add: ns_def)
    then obtain x where "fmlookup (mu_parts up) (last p) = Some x" by (auto elim: fmdomE)
    then show ?thesis unfolding t(2) using last_in_set [OF pq(2)] by (force simp: List.map_filter_def filter_empty_conv)
  qed
  ultimately show ?case
    using 3(1) up pq(1) t(2,3) by (simp add: parts_left_def parts_ok_def ns_def [symmetric] map_filter_append)
qed

lemma parts_pages_all:
  assumes "ListParts bucket key uploadID s = Inr ps" "0 < maxParts"
    and "\<And>up. lookupUploadLocked bucket key uploadID (s_ns s) = Inr up \<Longrightarrow> \<forall>n \<in> fmdom' (mu_parts up). 0 < n"
  shows "walk (partsPage bucket key uploadID maxParts s) 0 = Some (Inr (ps, []))"
proof -
  obtain up where up: "lookupUploadLocked bucket key uploadID (s_ns s) = Inr up"
    and ps: "ps = List.map_filter (fmlookup (mu_parts up)) (sorted_keys (mu_parts up))"
    using assms(1) by (auto simp: ListParts_def)
  have "filter (\<lambda>n. 0 < n) (sorted_keys (mu_parts up)) = sorted_keys (mu_parts up)"
    using assms(3) [OF up] by (intro filter_True) (auto simp: fmdom'_alt_def)
  then have "parts_left bucket key uploadID s 0 = ps" using up ps by (simp add: parts_left_def)
  moreover have "parts_ok bucket key uploadID maxParts s 0" using up assms(2) by (simp add: parts_ok_def)
  ultimately show ?thesis using parts.walk_all by metis
qed

section \<open>Properties\<close>

lemma set_newGroups_blocks: "set (newGroups f None ks) = {cp. \<exists>k \<in> set ks. f k = Some cp}"
proof (intro set_eqI iffI)
  fix cp assume "cp \<in> set (newGroups f None ks)"
  from set_newGroups [OF this] show "cp \<in> {cp. \<exists>k \<in> set ks. f k = Some cp}" by auto
next
  fix cp assume "cp \<in> {cp. \<exists>k \<in> set ks. f k = Some cp}"
  then obtain k where "k \<in> set ks" "f k = Some cp" by auto
  from newGroups_complete [of k ks f cp None] this show "cp \<in> set (newGroups f None ks)" by simp
qed

text \<open>
  C23: Paging through \<open>ListObjectsV2\<close> is exact. For every prefix, delimiter and page size, a
  client that starts without a token and follows the continuation tokens reaches the end, and
  gets every key with the prefix that folds into no group, once and in byte order, with the
  entry the bucket has for it, and every common prefix exactly once.
\<close>

theorem object_pages_are_exact:
  assumes "fmlookup (ns_buckets (s_ns s)) bucket = Some b" and "0 < maxKeys" and "[] \<notin> fmdom' (be_objects b)"
  shows "\<exists>xs ys. walk (objectsPage bucket pre delimiter maxKeys s) [] = Some (Inr (xs, ys))
    \<and> map fst xs = filter (\<lambda>k. has_prefix k pre \<and> groupOf pre delimiter k = None) (sorted_keys (be_objects b))
    \<and> (\<forall>(k, e) \<in> set xs. fmlookup (be_objects b) k = Some e)
    \<and> distinct ys \<and> set ys = {cp. \<exists>k \<in> fmdom' (be_objects b). has_prefix k pre \<and> groupOf pre delimiter k = Some cp}"
proof -
  have b: "bucket_of bucket s = b" using assms(1) by (simp add: bucket_of_def)
  have "objects_ok bucket maxKeys s []" using assms b by (simp add: objects_ok_def)
  note w = objects.walk_all [OF this, of pre delimiter]
  have L: "listFrom pre b (startKey []) = listCandidates pre b" by (simp add: listFrom_def startKey_def case_prod_unfold)
  have xs: "objects_left bucket pre delimiter s [] = filter (\<lambda>(k, _). groupOf pre delimiter k = None) (listCandidates pre b)"
    by (simp add: objects_left_def b L)
  have ys: "prefixes_left bucket pre delimiter s [] = newGroups (\<lambda>(k, _). groupOf pre delimiter k) None (listCandidates pre b)"
    by (simp add: prefixes_left_def b L)
  have "map fst (objects_left bucket pre delimiter s [])
      = filter (\<lambda>k. has_prefix k pre \<and> groupOf pre delimiter k = None) (sorted_keys (be_objects b))"
    unfolding xs listCandidates_def by (simp add: filter_map comp_def conj_commute)
  moreover have "\<forall>(k, e) \<in> set (objects_left bucket pre delimiter s []). fmlookup (be_objects b) k = Some e"
    unfolding xs listCandidates_def by (auto elim!: fmdomE)
  moreover have "distinct (prefixes_left bucket pre delimiter s [])"
    unfolding ys L [symmetric] by (intro distinct_newGroups listFrom_blocks)
  moreover have "set (prefixes_left bucket pre delimiter s [])
      = {cp. \<exists>k \<in> fmdom' (be_objects b). has_prefix k pre \<and> groupOf pre delimiter k = Some cp}"
    unfolding ys set_newGroups_blocks by (auto simp: listCandidates_def fmdom'_alt_def)
  ultimately show ?thesis using w by blast
qed

definition listing_sample :: store where
  "listing_sample = \<lparr>s_format = \<lparr>sf_StoreFormatVersion = 1, sf_CDCFormatVersion = 1, sf_HashAlgorithm = ''sha256'',
       sf_StoreID = ''id''\<rparr>, s_journal = empty_journal, s_ns = empty_namespace\<lparr>ns_buckets := fmupd ''b'' \<lparr>be_name = ''b'', be_createdAt = 0,
     be_objects = fmap_of_list (map (\<lambda>k. (k, \<lparr>oe_manifestUUID = k, oe_manifestSHA256 = 0, oe_size = 0, oe_etag = [], oe_contentType = [], oe_seq = 1\<rparr>))
       [''a/1'', ''a/2'', ''b'', ''c/1''])\<rparr> fmempty\<rparr>\<rparr>"

theorem object_pages_are_exact_witness:
  "\<exists>xs ys. walk (objectsPage ''b'' [] ''/'' 1 listing_sample) [] = Some (Inr (xs, ys))
     \<and> map fst xs = [''b''] \<and> set ys = {''a/'', ''c/''} \<and> distinct ys"
proof -
  let ?b = "the (fmlookup (ns_buckets (s_ns listing_sample)) ''b'')"
  have b: "fmlookup (ns_buckets (s_ns listing_sample)) ''b'' = Some ?b" by (simp add: listing_sample_def)
  have d: "fmdom' (be_objects ?b) = {''a/1'', ''a/2'', ''b'', ''c/1''}" by (auto simp: listing_sample_def)
  have k: "sorted_keys (be_objects ?b) = [''a/1'', ''a/2'', ''b'', ''c/1'']"
  proof (rule sorted_distinct_set_unique)
    show "sorted [''a/1'', ''a/2'', ''b'', ''c/1'']" by code_simp
    show "set (sorted_keys (be_objects ?b)) = set [''a/1'', ''a/2'', ''b'', ''c/1'']"
      using d by (simp add: fmdom'_alt_def)
  qed simp_all
  have g: "groupOf [] ''/'' ''a/1'' = Some ''a/''" "groupOf [] ''/'' ''a/2'' = Some ''a/''" "groupOf [] ''/'' ''b'' = None"
    "groupOf [] ''/'' ''c/1'' = Some ''c/''"
    by code_simp+
  from object_pages_are_exact [OF b, of 1 "[]" "''/''"] show ?thesis
    unfolding d k by (auto simp: g has_prefix_def)
qed

text \<open>
  Paging through \<open>ListMultipartUploads\<close> is exact. Uploads are ordered by key and then by
  id, several may share a key, and the cursor is a pair of markers; still a client that starts
  without markers and follows them reaches the end and gets every upload in progress of the
  bucket with the prefix that folds into no group, once and in order, and every common prefix
  exactly once, also when a page ends inside a group.
\<close>

theorem upload_pages_are_exact:
  assumes "fmlookup (ns_buckets (s_ns s)) bucket \<noteq> None" and "0 < maxUploads" and "uploads_keyed (s_ns s)"
  shows "\<exists>xs ys. walk (uploadsPage bucket pre delimiter maxUploads s) ([], []) = Some (Inr (xs, ys))
    \<and> sorted_wrt upload_lt xs
    \<and> set xs = {up. fmlookup (ns_uploads (s_ns s)) (mu_uploadID up) = Some up \<and> mu_bucket up = bucket
         \<and> has_prefix (mu_key up) pre \<and> groupOf pre delimiter (mu_key up) = None}
    \<and> distinct ys
    \<and> set ys = {cp. \<exists>i up. fmlookup (ns_uploads (s_ns s)) i = Some up \<and> mu_bucket up = bucket
         \<and> has_prefix (mu_key up) pre \<and> groupOf pre delimiter (mu_key up) = Some cp}"
proof -
  let ?f = "\<lambda>up. groupOf pre delimiter (mu_key up)"
  let ?C = "uploadCandidates bucket pre (s_ns s)"
  have "uploads_ok bucket maxUploads s ([], [])" using assms by (simp add: uploads_ok_def)
  note w = uploads.walk_all [OF this, of pre delimiter]
  have C: "set ?C = {up. fmlookup (ns_uploads (s_ns s)) (mu_uploadID up) = Some up \<and> mu_bucket up = bucket \<and> has_prefix (mu_key up) pre}"
  proof (intro set_eqI iffI)
    fix up assume "up \<in> set ?C"
    then obtain i where i: "i |\<in>| fmdom (ns_uploads (s_ns s))" "up = the (fmlookup (ns_uploads (s_ns s)) i)"
      and u: "mu_bucket up = bucket" "has_prefix (mu_key up) pre" by (auto simp: uploadCandidates_def)
    from i have "fmlookup (ns_uploads (s_ns s)) i = Some up" by (auto elim: fmdomE)
    then show "up \<in> {up. fmlookup (ns_uploads (s_ns s)) (mu_uploadID up) = Some up \<and> mu_bucket up = bucket \<and> has_prefix (mu_key up) pre}"
      using assms(3) u by (auto simp: uploads_keyed_def)
  next
    fix up
    assume "up \<in> {up. fmlookup (ns_uploads (s_ns s)) (mu_uploadID up) = Some up \<and> mu_bucket up = bucket \<and> has_prefix (mu_key up) pre}"
    then have "fmlookup (ns_uploads (s_ns s)) (mu_uploadID up) = Some up" "mu_bucket up = bucket" "has_prefix (mu_key up) pre" by auto
    then show "up \<in> set ?C" by (auto simp: uploadCandidates_def image_iff intro!: bexI [of _ "mu_uploadID up"] fmdomI)
  qed
  have "afterMultipartMarker (mu_key up) (mu_uploadID up) [] []" if "up \<in> set ?C" for up
    using uploadCandidates_sorted(2) [OF assms(3) that] by (cases "mu_key up") (simp_all add: afterMultipartMarker_def)
  then have L: "uploadsFrom bucket pre (s_ns s) ([], []) = ?C" by (simp add: uploadsFrom_def filter_id_conv)
  have "\<not> cp \<le> []" if "?f up = Some cp" for up cp
    using that by (cases cp) (auto simp: groupOf_def split: if_splits option.splits)
  then have sh: "shown ?f (\<lambda>cp. cp \<le> []) = ?f" by (intro ext) (auto simp: shown_def split: option.splits)
  have xs: "uploads_left bucket pre delimiter s ([], []) = filter (\<lambda>up. ?f up = None) ?C" by (simp add: uploads_left_def L)
  have ys: "upload_prefixes_left bucket pre delimiter s ([], []) = newGroups ?f None ?C" unfolding upload_prefixes_left_def L fst_conv sh ..
  have "sorted_wrt upload_lt (uploads_left bucket pre delimiter s ([], []))"
    unfolding xs by (intro sorted_wrt_filter uploadCandidates_sorted(1) assms(3))
  moreover have "set (uploads_left bucket pre delimiter s ([], [])) = {up. fmlookup (ns_uploads (s_ns s)) (mu_uploadID up) = Some up
      \<and> mu_bucket up = bucket \<and> has_prefix (mu_key up) pre \<and> ?f up = None}"
    unfolding xs using C by auto
  moreover have "distinct (upload_prefixes_left bucket pre delimiter s ([], []))"
    unfolding ys L [symmetric] by (intro distinct_newGroups uploadsFrom_sorted(2) assms(3))
  moreover have "set (upload_prefixes_left bucket pre delimiter s ([], [])) = {cp. \<exists>i up. fmlookup (ns_uploads (s_ns s)) i = Some up
      \<and> mu_bucket up = bucket \<and> has_prefix (mu_key up) pre \<and> ?f up = Some cp}"
    unfolding ys set_newGroups_blocks C using assms(3) by (fastforce simp: uploads_keyed_def)
  ultimately show ?thesis using w by blast
qed

definition upload_sample :: "string \<Rightarrow> string \<Rightarrow> multipartUpload" where
  "upload_sample i k = \<lparr>mu_uploadID = i, mu_bucket = ''b'', mu_key = k, mu_contentType = [], mu_metadata = fmempty,
     mu_createdAt = 0, mu_parts = fmempty\<rparr>"

theorem upload_pages_are_exact_witness:
  "\<exists>xs ys. walk (uploadsPage ''b'' [] ''/'' 1 (listing_sample\<lparr>s_ns := (s_ns listing_sample)
        \<lparr>ns_uploads := fmap_of_list [(''u1'', upload_sample ''u1'' ''k''), (''u2'', upload_sample ''u2'' ''k'')]\<rparr>\<rparr>)) ([], []) = Some (Inr (xs, ys))
     \<and> set xs = {upload_sample ''u1'' ''k'', upload_sample ''u2'' ''k''}"
proof -
  let ?s = "listing_sample\<lparr>s_ns := (s_ns listing_sample)
        \<lparr>ns_uploads := fmap_of_list [(''u1'', upload_sample ''u1'' ''k''), (''u2'', upload_sample ''u2'' ''k'')]\<rparr>\<rparr>"
  have b: "fmlookup (ns_buckets (s_ns ?s)) ''b'' \<noteq> None" by (simp add: listing_sample_def)
  have u: "uploads_keyed (s_ns ?s)" by (auto simp: uploads_keyed_def upload_sample_def split: if_splits)
  have g: "groupOf [] ''/'' ''k'' = None" by code_simp
  from upload_pages_are_exact [OF b _ u, of 1 "[]" "''/''"]
  have "\<exists>xs ys. walk (uploadsPage ''b'' [] ''/'' 1 ?s) ([], []) = Some (Inr (xs, ys))
    \<and> set xs = {up. fmlookup (ns_uploads (s_ns ?s)) (mu_uploadID up) = Some up \<and> mu_bucket up = ''b''
         \<and> has_prefix (mu_key up) [] \<and> groupOf [] ''/'' (mu_key up) = None}" by auto
  moreover have "{up. fmlookup (ns_uploads (s_ns ?s)) (mu_uploadID up) = Some up \<and> mu_bucket up = ''b''
         \<and> has_prefix (mu_key up) [] \<and> groupOf [] ''/'' (mu_key up) = None}
      = {upload_sample ''u1'' ''k'', upload_sample ''u2'' ''k''}"
    by (auto simp: upload_sample_def has_prefix_def g split: if_splits)
  ultimately show ?thesis by auto
qed

end
