(* ===== verification/Chunking.thy ===== *)
theory Chunking
  imports Crypto
begin

text \<open>
  Content-defined chunking (\<^verbatim>\<open>zeros3.go\<close>, section 3): the gear table, the boundary scan
  and the streaming chunker with its fixed buffer. \<^verbatim>\<open>io.Reader\<close> is a parameter: \<open>rd m r\<close> is
  what \<^verbatim>\<open>Read\<close> returns for a buffer of \<open>m\<close> bytes. \<open>delivers rd r xs\<close> is its documented
  contract for a stream of the bytes \<open>xs\<close>, however they are fragmented. Shown here: the
  chunker returns exactly \<open>cdcChunks xs\<close>, a function of the bytes alone; the chunks
  concatenate to the input and respect the size bounds; a reader that breaks off (\<open>breaks_off\<close>) ends in an error, never
  in a complete result; and two streams that reach a
  boundary before a common rest are cut identically from there on.
\<close>

section \<open>Boundaries\<close>

definition cdcMinChunkSize :: nat where
  "cdcMinChunkSize = 16 * 1024"

definition cdcTargetChunkSize :: nat where
  "cdcTargetChunkSize = 64 * 1024"

definition cdcMaxChunkSize :: nat where
  "cdcMaxChunkSize = 256 * 1024"

definition cdcMaskS :: u64 where
  "cdcMaskS = push_bit 16 1 - 1"

definition cdcMaskL :: u64 where
  "cdcMaskL = push_bit 15 1 - 1"

definition cdcGearSeed :: string where
  "cdcGearSeed = ''ZeroS3/CDCv1/GearTable''"

definition buildGearTable :: "u64 list" where
  "buildGearTable =
     map (\<lambda>i. get_be (take 8 (digest_bytes (sha256 (bytes_of_string (cdcGearSeed @ ''/'' @ itoa i))))))
       [0..<256]"

definition gearTable :: "u64 list" where
  "gearTable = buildGearTable"

text \<open>The loop of \<open>findCDCBoundary\<close> from index \<open>i\<close> on, over what is left of the window.\<close>

fun cdcScan :: "u64 \<Rightarrow> nat \<Rightarrow> bytes \<Rightarrow> nat option" where
  "cdcScan hash i [] = None"
| "cdcScan hash i (b # bs) =
     (let hash1 = push_bit 1 hash + gearTable ! unat b;
          sz = i + 1
      in if sz \<ge> cdcMaxChunkSize then Some sz
         else if sz < cdcMinChunkSize then cdcScan hash1 sz bs
         else if hash1 AND (if sz < cdcTargetChunkSize then cdcMaskS else cdcMaskL) = 0 then Some sz
         else cdcScan hash1 sz bs)"

definition findCDCBoundary :: "bytes \<Rightarrow> bool \<Rightarrow> nat" where
  "findCDCBoundary data eof =
     (case cdcScan 0 0 (take cdcMaxChunkSize data) of
        Some n \<Rightarrow> n
      | None \<Rightarrow> if eof then length data else length data)"

section \<open>The streaming chunker\<close>

datatype read_err = RNil | REOF | RError

type_synonym 'r reader = "nat \<Rightarrow> 'r \<Rightarrow> bytes \<times> read_err \<times> 'r"

record 'r cdcChunker =
  c_r :: 'r
  c_buf :: bytes
  c_start :: nat
  c_end :: nat
  c_eof :: bool

definition newCDCChunker :: "'r \<Rightarrow> 'r cdcChunker" where
  "newCDCChunker r =
     \<lparr>c_r = r, c_buf = replicate (2 * cdcMaxChunkSize) 0, c_start = 0, c_end = 0, c_eof = False\<rparr>"

text \<open>The bytes buffered and not yet returned.\<close>

definition pending :: "'r cdcChunker \<Rightarrow> bytes" where
  "pending c = drop (c_start c) (take (c_end c) (c_buf c))"

definition compact_buf :: "'r cdcChunker \<Rightarrow> 'r cdcChunker" where
  "compact_buf c =
     (if length (c_buf c) - c_end c < cdcMaxChunkSize - (c_end c - c_start c)
      then c\<lparr>c_buf := pending c @ drop (length (pending c)) (c_buf c),
             c_end := length (pending c), c_start := 0\<rparr>
      else c)"

text \<open>
  The read loop of \<open>fill\<close>. A reader that keeps returning no bytes and no error keeps it
  going forever, so it is a partial function: no result is \<open>None\<close>.
\<close>

partial_function (option) fillLoop ::
  "'r reader \<Rightarrow> 'r cdcChunker \<Rightarrow> (unit + 'r cdcChunker) option" where
  "fillLoop rd c =
     (if \<not> c_eof c \<and> c_end c - c_start c < cdcMaxChunkSize
      then case rd (length (c_buf c) - c_end c) (c_r c) of
        (ys, e, r') \<Rightarrow>
          let c1 = c\<lparr>c_r := r',
                     c_buf := take (c_end c) (c_buf c) @ ys @ drop (c_end c + length ys) (c_buf c),
                     c_end := c_end c + length ys\<rparr>
          in (case e of
                REOF \<Rightarrow> fillLoop rd (c1\<lparr>c_eof := True\<rparr>)
              | RError \<Rightarrow> Some (Inl ())
              | RNil \<Rightarrow> fillLoop rd c1)
      else Some (Inr c))"

definition fill :: "'r reader \<Rightarrow> 'r cdcChunker \<Rightarrow> (unit + 'r cdcChunker) option" where
  "fill rd c =
     (if c_end c - c_start c \<ge> cdcMaxChunkSize \<or> c_eof c then Some (Inr c)
      else fillLoop rd (compact_buf c))"

datatype 'r view = ViewError | ViewEOF | ViewChunk bytes "'r cdcChunker"

definition nextView :: "'r reader \<Rightarrow> 'r cdcChunker \<Rightarrow> 'r view option" where
  "nextView rd c =
     (case fill rd c of
        None \<Rightarrow> None
      | Some (Inl _) \<Rightarrow> Some ViewError
      | Some (Inr c1) \<Rightarrow>
          if c_end c1 = c_start c1 then Some ViewEOF
          else
            let w = pending c1;
                window = (if length w > cdcMaxChunkSize then take cdcMaxChunkSize w else w);
                n = findCDCBoundary window (c_eof c1)
            in Some (ViewChunk (take n w) (c1\<lparr>c_start := c_start c1 + n\<rparr>)))"

text \<open>Calling \<open>nextView\<close> until it reports the end, collecting the chunks.\<close>

partial_function (option) chunkLoop :: "'r reader \<Rightarrow> 'r cdcChunker \<Rightarrow> bytes list \<Rightarrow> (unit + bytes list) option" where
  "chunkLoop rd c acc =
     (case nextView rd c of
        None \<Rightarrow> None
      | Some v \<Rightarrow>
          (case v of
             ViewError \<Rightarrow> Some (Inl ())
           | ViewEOF \<Rightarrow> Some (Inr acc)
           | ViewChunk chunk c1 \<Rightarrow> chunkLoop rd c1 (acc @ [chunk])))"

section \<open>What chunking means\<close>

text \<open>The reference: cut off one chunk after another from the whole input.\<close>

lemma cdcScan_bounds:
  "cdcScan h i bs = Some n \<Longrightarrow> i < n \<and> n \<le> i + length bs \<and> (n < cdcMaxChunkSize \<longrightarrow> cdcMinChunkSize \<le> n)"
proof (induction bs arbitrary: h i)
  case (Cons b bs)
  then show ?case by (fastforce simp: Let_def split: if_splits)
qed simp

lemma cdcScan_max: "i < cdcMaxChunkSize \<Longrightarrow> cdcScan h i bs = Some n \<Longrightarrow> n \<le> cdcMaxChunkSize"
  by (induction bs arbitrary: h i) (auto simp: Let_def not_le split: if_splits)

lemma cdcScan_long:
  "i < cdcMaxChunkSize \<Longrightarrow> cdcMaxChunkSize \<le> i + length bs \<Longrightarrow> cdcScan h i bs \<noteq> None"
  by (induction bs arbitrary: h i) (auto simp: Let_def not_le split: if_splits)

lemma cdcScan_append: "cdcScan h i bs = Some n \<Longrightarrow> cdcScan h i (bs @ cs) = Some n"
  by (induction bs arbitrary: h i) (auto simp: Let_def not_le split: if_splits)

lemma cdcMax_pos [simp]: "0 < cdcMaxChunkSize" "cdcMaxChunkSize \<noteq> 0"
  by (simp_all add: cdcMaxChunkSize_def)

lemma findCDCBoundary_le: "findCDCBoundary data eof \<le> length data"
  using cdcScan_bounds [of 0 0 "take cdcMaxChunkSize data"]
  by (fastforce simp: findCDCBoundary_def split: option.splits)

lemma findCDCBoundary_pos: "data \<noteq> [] \<Longrightarrow> 0 < findCDCBoundary data eof"
  using cdcScan_bounds [of 0 0 "take cdcMaxChunkSize data"]
  by (fastforce simp: findCDCBoundary_def split: option.splits)

lemma findCDCBoundary_max: "length data \<le> cdcMaxChunkSize \<Longrightarrow> findCDCBoundary data eof \<le> cdcMaxChunkSize"
  using findCDCBoundary_le le_trans by blast

lemma findCDCBoundary_eof: "findCDCBoundary data eof = findCDCBoundary data eof'"
  by (simp add: findCDCBoundary_def)

function cdcChunks :: "bytes \<Rightarrow> bytes list" where
  "cdcChunks [] = []"
| "cdcChunks (x # xs) =
     (let n = findCDCBoundary (take cdcMaxChunkSize (x # xs)) True
      in take n (x # xs) # cdcChunks (drop n (x # xs)))"
  by pat_completeness auto
termination
proof (relation "measure length", simp)
  fix x :: byte and xs :: bytes and n
  assume "n = findCDCBoundary (take cdcMaxChunkSize (x # xs)) True"
  then have "0 < n" using findCDCBoundary_pos [of "take cdcMaxChunkSize (x # xs)"] by simp
  then show "(drop n (x # xs), x # xs) \<in> measure length" by simp
qed

declare cdcChunks.simps(2) [simp del]

lemma cdcChunks_unfold:
  "xs \<noteq> [] \<Longrightarrow> cdcChunks xs =
     (let n = findCDCBoundary (take cdcMaxChunkSize xs) eof in take n xs # cdcChunks (drop n xs))"
  by (cases xs) (simp_all add: cdcChunks.simps(2) findCDCBoundary_eof [of _ eof True])

lemma cdcChunks_concat: "concat (cdcChunks xs) = xs"
  by (induction xs rule: cdcChunks.induct) (simp_all add: cdcChunks.simps(2) Let_def)

section \<open>Readers\<close>

text \<open>
  The contract of \<^verbatim>\<open>io.Reader\<close> for a stream of the bytes \<open>xs\<close>: each \<^verbatim>\<open>Read\<close> of a non-empty
  buffer returns some next bytes that fit, possibly none, and the end of file comes with or
  after the last of them, after finitely many reads.
\<close>

inductive delivers :: "'r reader \<Rightarrow> 'r \<Rightarrow> bytes \<Rightarrow> bool" for rd where
  delivers: "\<forall>m > 0. \<exists>ys e r' zs. rd m r = (ys, e, r') \<and> length ys \<le> m \<and> xs = ys @ zs
      \<and> (e = REOF \<and> zs = [] \<or> e = RNil \<and> delivers rd r' zs)
    \<Longrightarrow> delivers rd r xs"

text \<open>
  A reader that breaks off: it delivers the bytes \<open>xs\<close> and then fails, as a request body does
  when the client disconnects or \<^verbatim>\<open>http.MaxBytesReader\<close> stops it. The failing read may itself
  bring the last bytes.
\<close>

inductive breaks_off :: "'r reader \<Rightarrow> 'r \<Rightarrow> bytes \<Rightarrow> bool" for rd where
  breaks_off: "\<forall>m > 0. \<exists>ys e r' zs. rd m r = (ys, e, r') \<and> length ys \<le> m \<and> xs = ys @ zs
      \<and> (e = RError \<and> zs = [] \<or> e = RNil \<and> breaks_off rd r' zs)
    \<Longrightarrow> breaks_off rd r xs"

definition stream :: "'r reader \<Rightarrow> 'r cdcChunker \<Rightarrow> bytes \<Rightarrow> bool" where
  "stream rd c zs \<longleftrightarrow> (if c_eof c then zs = [] else delivers rd (c_r c) zs)"

definition chunker_ok :: "'r cdcChunker \<Rightarrow> bool" where
  "chunker_ok c \<longleftrightarrow> c_start c \<le> c_end c \<and> c_end c \<le> length (c_buf c)
     \<and> length (c_buf c) = 2 * cdcMaxChunkSize"

lemma length_pending: "chunker_ok c \<Longrightarrow> length (pending c) = c_end c - c_start c"
  by (simp add: chunker_ok_def pending_def)

lemma pending_read:
  fixes c :: "'r cdcChunker" and r' :: 'r
  assumes "chunker_ok c" "c_end c + length ys \<le> length (c_buf c)"
  defines "c1 \<equiv> c\<lparr>c_r := r', c_buf := take (c_end c) (c_buf c) @ ys @ drop (c_end c + length ys) (c_buf c),
                  c_end := c_end c + length ys\<rparr>"
  shows "chunker_ok c1" "pending c1 = pending c @ ys" "c_start c1 = c_start c" "length (c_buf c1) = length (c_buf c)"
  using assms by (auto simp: chunker_ok_def pending_def)

lemma compact_buf_ok:
  assumes "chunker_ok c"
  shows "chunker_ok (compact_buf c)" "pending (compact_buf c) = pending c"
    "c_start (compact_buf c) + cdcMaxChunkSize \<le> length (c_buf (compact_buf c))"
    "c_r (compact_buf c) = c_r c" "c_eof (compact_buf c) = c_eof c"
  using assms length_pending [OF assms]
  by (auto simp: compact_buf_def chunker_ok_def pending_def)

text \<open>The read loop over a reader that delivers \<open>xs\<close> fills the buffer or exhausts the reader.\<close>

definition fills :: "'r reader \<Rightarrow> 'r \<Rightarrow> bytes \<Rightarrow> bool" where
  "fills rd r xs \<longleftrightarrow> (\<forall>c. chunker_ok c \<longrightarrow> c_start c + cdcMaxChunkSize \<le> length (c_buf c) \<longrightarrow> c_r c = r
     \<longrightarrow> \<not> c_eof c \<longrightarrow>
     (\<exists>c' zs. fillLoop rd c = Some (Inr c') \<and> pending c' @ zs = pending c @ xs \<and> stream rd c' zs
        \<and> chunker_ok c' \<and> (cdcMaxChunkSize \<le> length (pending c') \<or> zs = [])))"

lemma fillsD:
  assumes "fills rd r xs" "chunker_ok c" "c_start c + cdcMaxChunkSize \<le> length (c_buf c)" "c_r c = r" "\<not> c_eof c"
  shows "\<exists>c' zs. fillLoop rd c = Some (Inr c') \<and> pending c' @ zs = pending c @ xs \<and> stream rd c' zs
        \<and> chunker_ok c' \<and> (cdcMaxChunkSize \<le> length (pending c') \<or> zs = [])"
  using assms by (auto simp: fills_def)

lemma fillLoop_step:
  assumes "chunker_ok c" "\<not> c_eof c" "c_end c - c_start c < cdcMaxChunkSize"
    and "rd (length (c_buf c) - c_end c) (c_r c) = (ys, e, r')" "length ys \<le> length (c_buf c) - c_end c"
  shows "\<exists>c1. chunker_ok c1 \<and> pending c1 = pending c @ ys \<and> c_start c1 = c_start c
    \<and> length (c_buf c1) = length (c_buf c) \<and> c_r c1 = r' \<and> \<not> c_eof c1
    \<and> fillLoop rd c = (case e of REOF \<Rightarrow> fillLoop rd (c1\<lparr>c_eof := True\<rparr>)
        | RError \<Rightarrow> Some (Inl ()) | RNil \<Rightarrow> fillLoop rd c1)"
proof -
  define c1 where "c1 = c\<lparr>c_r := r', c_buf := take (c_end c) (c_buf c) @ ys @ drop (c_end c + length ys) (c_buf c),
                c_end := c_end c + length ys\<rparr>"
  have "c_end c + length ys \<le> length (c_buf c)" using assms(1,5) by (auto simp: chunker_ok_def)
  note c1 = pending_read [OF assms(1) this, of r', folded c1_def]
  have "fillLoop rd c = (case e of REOF \<Rightarrow> fillLoop rd (c1\<lparr>c_eof := True\<rparr>)
      | RError \<Rightarrow> Some (Inl ()) | RNil \<Rightarrow> fillLoop rd c1)"
    using assms(2-4) by (subst fillLoop.simps) (simp add: c1_def Let_def split: read_err.split)
  moreover have "c_r c1 = r'" "\<not> c_eof c1" using assms(2) by (simp_all add: c1_def)
  ultimately show ?thesis using c1 by blast
qed

lemma fillLoop_done: "c_eof c \<or> \<not> c_end c - c_start c < cdcMaxChunkSize \<Longrightarrow> fillLoop rd c = Some (Inr c)"
  by (subst fillLoop.simps) auto

lemma delivers_fills: "delivers rd r xs \<Longrightarrow> fills rd r xs"
proof (induction r xs rule: delivers.induct)
  case (delivers r xs)
  have d: "delivers rd r xs"
    by (rule Chunking.delivers.delivers) (use delivers.IH in blast)
  show ?case
    unfolding fills_def
  proof (intro allI impI)
    fix c :: "'a cdcChunker"
    assume ok: "chunker_ok c" and room: "c_start c + cdcMaxChunkSize \<le> length (c_buf c)"
      and r: "c_r c = r" and eof: "\<not> c_eof c"
    show "\<exists>c' zs. fillLoop rd c = Some (Inr c') \<and> pending c' @ zs = pending c @ xs \<and> stream rd c' zs
        \<and> chunker_ok c' \<and> (cdcMaxChunkSize \<le> length (pending c') \<or> zs = [])"
    proof (cases "c_end c - c_start c < cdcMaxChunkSize")
      case False
      then show ?thesis
        using ok length_pending [OF ok] fillLoop_done [of c rd] d r eof
        by (intro exI [of _ c] exI [of _ xs]) (simp add: stream_def)
    next
      case True
      let ?m = "length (c_buf c) - c_end c"
      have "0 < ?m" using True room ok by (auto simp: chunker_ok_def)
      then obtain ys e r' zs where rd: "rd ?m r = (ys, e, r')" and le: "length ys \<le> ?m" and xs: "xs = ys @ zs"
        and e: "e = REOF \<and> zs = [] \<or> e = RNil \<and> fills rd r' zs"
        using delivers.IH by blast
      obtain c1 where c1: "chunker_ok c1" "pending c1 = pending c @ ys" "c_start c1 = c_start c"
        "length (c_buf c1) = length (c_buf c)" "c_r c1 = r'" "\<not> c_eof c1"
        and step: "fillLoop rd c = (case e of REOF \<Rightarrow> fillLoop rd (c1\<lparr>c_eof := True\<rparr>)
          | RError \<Rightarrow> Some (Inl ()) | RNil \<Rightarrow> fillLoop rd c1)"
        using fillLoop_step [OF ok eof True _ le, of rd e r'] rd r by blast
      from e show ?thesis
      proof
        assume "e = REOF \<and> zs = []"
        then show ?thesis
          using step c1 xs fillLoop_done [of "c1\<lparr>c_eof := True\<rparr>" rd]
          by (intro exI [of _ "c1\<lparr>c_eof := True\<rparr>"] exI [of _ "[]"])
             (simp add: stream_def chunker_ok_def pending_def)
      next
        assume nil: "e = RNil \<and> fills rd r' zs"
        have "c_start c1 + cdcMaxChunkSize \<le> length (c_buf c1)" using c1 room by simp
        from fillsD [OF conjunct2 [OF nil] c1(1) this c1(5,6)] nil step c1(2) xs show ?thesis by simp
      qed
    qed
  qed
qed

lemma fill_correct:
  assumes "stream rd c xs" "chunker_ok c"
  shows "\<exists>c' zs. fill rd c = Some (Inr c') \<and> pending c' @ zs = pending c @ xs \<and> stream rd c' zs
    \<and> chunker_ok c' \<and> (cdcMaxChunkSize \<le> length (pending c') \<or> zs = [])"
proof (cases "c_end c - c_start c \<ge> cdcMaxChunkSize \<or> c_eof c")
  case True
  then show ?thesis using assms length_pending [OF assms(2)] by (auto simp: fill_def stream_def)
next
  case False
  note k = compact_buf_ok [OF assms(2)]
  have "delivers rd (c_r c) xs" using assms(1) False by (simp add: stream_def)
  from fillsD [OF delivers_fills [OF this] k(1,3,4)] False k(2,5) show ?thesis
    by (simp add: fill_def)
qed

section \<open>A stream that breaks off\<close>

text \<open>The read loop over a reader that breaks off fails or fills the buffer, still before the break.\<close>

definition broken :: "'r reader \<Rightarrow> 'r cdcChunker \<Rightarrow> bytes \<Rightarrow> bool" where
  "broken rd c zs \<longleftrightarrow> \<not> c_eof c \<and> breaks_off rd (c_r c) zs"

definition fills_or_fails :: "'r reader \<Rightarrow> 'r \<Rightarrow> bytes \<Rightarrow> bool" where
  "fills_or_fails rd r xs \<longleftrightarrow> (\<forall>c. chunker_ok c \<longrightarrow> c_start c + cdcMaxChunkSize \<le> length (c_buf c) \<longrightarrow> c_r c = r
     \<longrightarrow> \<not> c_eof c \<longrightarrow>
     fillLoop rd c = Some (Inl ()) \<or>
     (\<exists>c' zs. fillLoop rd c = Some (Inr c') \<and> pending c' @ zs = pending c @ xs \<and> broken rd c' zs
        \<and> chunker_ok c' \<and> cdcMaxChunkSize \<le> length (pending c')))"

lemma breaks_off_fills: "breaks_off rd r xs \<Longrightarrow> fills_or_fails rd r xs"
proof (induction r xs rule: breaks_off.induct)
  case (breaks_off r xs)
  have d: "breaks_off rd r xs"
    by (rule Chunking.breaks_off.breaks_off) (use breaks_off.IH in blast)
  show ?case
    unfolding fills_or_fails_def
  proof (intro allI impI)
    fix c :: "'a cdcChunker"
    assume ok: "chunker_ok c" and room: "c_start c + cdcMaxChunkSize \<le> length (c_buf c)"
      and r: "c_r c = r" and eof: "\<not> c_eof c"
    show "fillLoop rd c = Some (Inl ()) \<or>
      (\<exists>c' zs. fillLoop rd c = Some (Inr c') \<and> pending c' @ zs = pending c @ xs \<and> broken rd c' zs
        \<and> chunker_ok c' \<and> cdcMaxChunkSize \<le> length (pending c'))"
    proof (cases "c_end c - c_start c < cdcMaxChunkSize")
      case False
      then show ?thesis
        using ok length_pending [OF ok] fillLoop_done [of c rd] d r eof
        by (intro disjI2 exI [of _ c] exI [of _ xs]) (simp add: broken_def)
    next
      case True
      let ?m = "length (c_buf c) - c_end c"
      have "0 < ?m" using True room ok by (auto simp: chunker_ok_def)
      then obtain ys e r' zs where rd: "rd ?m r = (ys, e, r')" and le: "length ys \<le> ?m" and xs: "xs = ys @ zs"
        and e: "e = RError \<and> zs = [] \<or> e = RNil \<and> fills_or_fails rd r' zs"
        using breaks_off.IH by blast
      obtain c1 where c1: "chunker_ok c1" "pending c1 = pending c @ ys" "c_start c1 = c_start c"
        "length (c_buf c1) = length (c_buf c)" "c_r c1 = r'" "\<not> c_eof c1"
        and step: "fillLoop rd c = (case e of REOF \<Rightarrow> fillLoop rd (c1\<lparr>c_eof := True\<rparr>)
          | RError \<Rightarrow> Some (Inl ()) | RNil \<Rightarrow> fillLoop rd c1)"
        using fillLoop_step [OF ok eof True _ le, of rd e r'] rd r by blast
      from e show ?thesis
      proof
        assume nil: "e = RNil \<and> fills_or_fails rd r' zs"
        have "c_start c1 + cdcMaxChunkSize \<le> length (c_buf c1)" using c1 room by simp
        from conjunct2 [OF nil, unfolded fills_or_fails_def, rule_format, OF c1(1) this c1(5,6)]
        show ?thesis using nil step c1(2) xs by simp
      qed (simp add: step)
    qed
  qed
qed

lemma fill_broken:
  assumes "broken rd c xs" "chunker_ok c"
  shows "fill rd c = Some (Inl ()) \<or> (\<exists>c' zs. fill rd c = Some (Inr c') \<and> pending c' @ zs = pending c @ xs
    \<and> broken rd c' zs \<and> chunker_ok c' \<and> cdcMaxChunkSize \<le> length (pending c'))"
proof (cases "c_end c - c_start c \<ge> cdcMaxChunkSize")
  case True
  then show ?thesis
    using assms length_pending [OF assms(2)] by (intro disjI2 exI [of _ c] exI [of _ xs]) (simp add: fill_def)
next
  case False
  note k = compact_buf_ok [OF assms(2)]
  have eof: "\<not> c_eof c" and b: "fills_or_fails rd (c_r c) xs"
    using assms(1) breaks_off_fills [of rd "c_r c" xs] by (simp_all add: broken_def)
  show ?thesis
    using b [unfolded fills_or_fails_def, rule_format, OF k(1,3,4)] k(2,5) eof False by (simp add: fill_def)
qed

section \<open>The chunker computes the reference\<close>

lemma nextView_correct:
  assumes "stream rd c xs" "chunker_ok c"
  shows "if pending c @ xs = [] then nextView rd c = Some ViewEOF
    else \<exists>n c' zs. nextView rd c = Some (ViewChunk (take n (pending c @ xs)) c')
      \<and> cdcChunks (pending c @ xs) = take n (pending c @ xs) # cdcChunks (drop n (pending c @ xs))
      \<and> 0 < n \<and> pending c' @ zs = drop n (pending c @ xs) \<and> stream rd c' zs \<and> chunker_ok c'"
proof -
  obtain c1 zs where f: "fill rd c = Some (Inr c1)" and eq: "pending c1 @ zs = pending c @ xs"
    and st: "stream rd c1 zs" and ok: "chunker_ok c1" and full: "cdcMaxChunkSize \<le> length (pending c1) \<or> zs = []"
    using fill_correct [OF assms] by blast
  note len = length_pending [OF ok]
  show ?thesis
  proof (cases "pending c1 = []")
    case True
    then have "zs = []" using full by auto
    moreover have "c_end c1 = c_start c1" using True len ok by (auto simp: chunker_ok_def)
    ultimately show ?thesis using f eq True by (auto simp: nextView_def)
  next
    case False
    define n where "n = findCDCBoundary (take cdcMaxChunkSize (pending c1)) (c_eof c1)"
    have ne: "c_end c1 \<noteq> c_start c1" using False len by auto
    have w: "(if length (pending c1) > cdcMaxChunkSize then take cdcMaxChunkSize (pending c1) else pending c1)
        = take cdcMaxChunkSize (pending c1)" by simp
    have win: "take cdcMaxChunkSize (pending c @ xs) = take cdcMaxChunkSize (pending c1)"
      using full eq [symmetric] by auto
    have n0: "0 < n" using False by (simp add: n_def findCDCBoundary_pos)
    have nle: "n \<le> length (pending c1)"
      using findCDCBoundary_le [of "take cdcMaxChunkSize (pending c1)" "c_eof c1"] by (simp add: n_def)
    have ch: "cdcChunks (pending c @ xs) = take n (pending c @ xs) # cdcChunks (drop n (pending c @ xs))"
    proof -
      have "pending c @ xs \<noteq> []" using False eq by (metis append_is_Nil_conv)
      from cdcChunks_unfold [OF this, of "c_eof c1", unfolded win, folded n_def]
      show ?thesis by (simp only: Let_def)
    qed
    have view: "nextView rd c = Some (ViewChunk (take n (pending c @ xs)) (c1\<lparr>c_start := c_start c1 + n\<rparr>))"
      using f ne nle eq [symmetric] by (simp add: nextView_def Let_def w n_def [symmetric])
    have pend: "pending (c1\<lparr>c_start := c_start c1 + n\<rparr>) = drop n (pending c1)"
      by (simp add: pending_def add.commute)
    have "chunker_ok (c1\<lparr>c_start := c_start c1 + n\<rparr>)"
      using ok nle len by (auto simp: chunker_ok_def)
    moreover have "pending (c1\<lparr>c_start := c_start c1 + n\<rparr>) @ zs = drop n (pending c @ xs)"
      using nle by (simp add: pend eq [symmetric])
    moreover have "stream rd (c1\<lparr>c_start := c_start c1 + n\<rparr>) zs" using st by (simp add: stream_def)
    ultimately show ?thesis using view ch n0 False eq by auto
  qed
qed

text \<open>A view of a stream that breaks off is an error or the next reference chunk.\<close>

lemma nextView_broken:
  assumes "broken rd c xs" "chunker_ok c"
  shows "nextView rd c = Some ViewError \<or> pending c @ xs \<noteq> [] \<and>
    (\<exists>n c' zs. nextView rd c = Some (ViewChunk (take n (pending c @ xs)) c')
      \<and> cdcChunks (pending c @ xs) = take n (pending c @ xs) # cdcChunks (drop n (pending c @ xs))
      \<and> 0 < n \<and> pending c' @ zs = drop n (pending c @ xs) \<and> broken rd c' zs \<and> chunker_ok c')"
  using fill_broken [OF assms]
proof (elim disjE exE conjE)
  fix c1 zs
  assume f: "fill rd c = Some (Inr c1)" and eq: "pending c1 @ zs = pending c @ xs" and br: "broken rd c1 zs"
    and ok: "chunker_ok c1" and full: "cdcMaxChunkSize \<le> length (pending c1)"
  define n where "n = findCDCBoundary (take cdcMaxChunkSize (pending c1)) (c_eof c1)"
  have False: "pending c1 \<noteq> []" using full cdcMax_pos by auto
  have ne: "c_end c1 \<noteq> c_start c1" using False length_pending [OF ok] by auto
  have w: "(if length (pending c1) > cdcMaxChunkSize then take cdcMaxChunkSize (pending c1) else pending c1)
      = take cdcMaxChunkSize (pending c1)" by simp
  have win: "take cdcMaxChunkSize (pending c @ xs) = take cdcMaxChunkSize (pending c1)"
    using full eq [symmetric] by simp
  have n0: "0 < n" using False by (simp add: n_def findCDCBoundary_pos)
  have nle: "n \<le> length (pending c1)"
    using findCDCBoundary_le [of "take cdcMaxChunkSize (pending c1)" "c_eof c1"] by (simp add: n_def)
  have ne': "pending c @ xs \<noteq> []" using False eq by (metis append_is_Nil_conv)
  have ch: "cdcChunks (pending c @ xs) = take n (pending c @ xs) # cdcChunks (drop n (pending c @ xs))"
    using cdcChunks_unfold [OF ne', of "c_eof c1", unfolded win, folded n_def] by (simp only: Let_def)
  have view: "nextView rd c = Some (ViewChunk (take n (pending c @ xs)) (c1\<lparr>c_start := c_start c1 + n\<rparr>))"
    using f ne nle eq [symmetric] by (simp add: nextView_def Let_def w n_def [symmetric])
  have "pending (c1\<lparr>c_start := c_start c1 + n\<rparr>) = drop n (pending c1)"
    by (simp add: pending_def add.commute)
  then have "pending (c1\<lparr>c_start := c_start c1 + n\<rparr>) @ zs = drop n (pending c @ xs)"
    using nle by (simp add: eq [symmetric])
  moreover have "chunker_ok (c1\<lparr>c_start := c_start c1 + n\<rparr>)"
    using ok nle length_pending [OF ok] by (auto simp: chunker_ok_def)
  moreover have "broken rd (c1\<lparr>c_start := c_start c1 + n\<rparr>) zs" using br by (simp add: broken_def)
  ultimately show ?thesis using view ch n0 ne' by blast
qed (simp add: nextView_def)

lemma chunkLoop_correct:
  "stream rd c xs \<Longrightarrow> chunker_ok c \<Longrightarrow> chunkLoop rd c acc = Some (Inr (acc @ cdcChunks (pending c @ xs)))"
proof (induction "length (pending c @ xs)" arbitrary: c xs acc rule: less_induct)
  case less
  note v = nextView_correct [OF less.prems]
  show ?case
  proof (cases "pending c @ xs = []")
    case True
    with v show ?thesis by (subst chunkLoop.simps) simp
  next
    case False
    with v obtain n c' zs where nv: "nextView rd c = Some (ViewChunk (take n (pending c @ xs)) c')"
      and ch: "cdcChunks (pending c @ xs) = take n (pending c @ xs) # cdcChunks (drop n (pending c @ xs))"
      and n: "0 < n" and p: "pending c' @ zs = drop n (pending c @ xs)" and st: "stream rd c' zs" "chunker_ok c'"
      by auto
    have "length (pending c' @ zs) < length (pending c @ xs)"
      using n False unfolding p by (metis diff_less length_drop length_greater_0_conv)
    from less.hyps [OF this st, of "acc @ [take n (pending c @ xs)]"] show ?thesis
      using nv ch by (subst chunkLoop.simps) (simp add: p)
  qed
qed

lemma newCDCChunker_ok [simp]:
  "chunker_ok (newCDCChunker r)" "pending (newCDCChunker r) = []"
  "stream rd (newCDCChunker r) xs = delivers rd r xs" "broken rd (newCDCChunker r) xs = breaks_off rd r xs"
  by (simp_all add: newCDCChunker_def chunker_ok_def pending_def stream_def broken_def)

section \<open>Sizes and locality\<close>

lemma cdcScan_take: "cdcScan h i bs = Some n \<Longrightarrow> cdcScan h i (take (n - i) bs) = Some n"
proof (induction bs arbitrary: h i)
  case (Cons b bs)
  let ?h = "push_bit 1 h + gearTable ! unat b"
  have "i < n" using cdcScan_bounds [OF Cons.prems] by simp
  then have tk: "take (n - i) (b # bs) = b # take (n - Suc i) bs" by (simp add: take_Cons')
  show ?case
    unfolding tk using Cons.prems Cons.IH [of ?h "Suc i"] by (auto simp: Let_def split: if_splits)
qed simp

lemma scan_nonfinal:
  assumes "findCDCBoundary (take cdcMaxChunkSize data) eof < length data"
  shows "cdcScan 0 0 (take cdcMaxChunkSize data) = Some (findCDCBoundary (take cdcMaxChunkSize data) eof)"
proof (cases "cdcScan 0 0 (take cdcMaxChunkSize data)")
  case None
  then have "findCDCBoundary (take cdcMaxChunkSize data) eof = min (length data) cdcMaxChunkSize"
    by (simp add: findCDCBoundary_def)
  with assms have "cdcMaxChunkSize \<le> 0 + length (take cdcMaxChunkSize data)" by simp
  from cdcScan_long [OF cdcMax_pos(1) this, of 0] None show ?thesis by simp
next
  case (Some n)
  then show ?thesis by (simp add: findCDCBoundary_def)
qed

lemma first_chunk_stable:
  assumes "cdcChunks (c @ rest) = c # cs" "cs \<noteq> []"
  shows "cs = cdcChunks rest" "cdcChunks (c @ rest') = c # cdcChunks rest'"
proof -
  let ?d = "c @ rest"
  define n where "n = findCDCBoundary (take cdcMaxChunkSize ?d) True"
  have ne: "?d \<noteq> []" using assms(1) by (cases "c @ rest") auto
  have u: "c = take n ?d" "cs = cdcChunks (drop n ?d)"
    using cdcChunks_unfold [OF ne, of True, folded n_def] assms(1) unfolding Let_def by simp_all
  have "n \<le> length (take cdcMaxChunkSize ?d)" unfolding n_def by (rule findCDCBoundary_le)
  then have le: "n \<le> length ?d" "n \<le> cdcMaxChunkSize" by simp_all
  then have len: "length c = n" using u(1) by (metis length_take min.absorb2)
  then show cs: "cs = cdcChunks rest" using u(2) by simp
  have "n < length ?d" using assms(2) cs len by (cases rest) auto
  then have "cdcScan 0 0 (take cdcMaxChunkSize ?d) = Some n"
    unfolding n_def by (rule scan_nonfinal)
  from cdcScan_take [OF this] have sc: "cdcScan 0 0 c = Some n"
    using le len by (simp add: min_def)
  have w: "take cdcMaxChunkSize (c @ rest') = c @ take (cdcMaxChunkSize - n) rest'"
    using le len by simp
  have "findCDCBoundary (take cdcMaxChunkSize (c @ rest')) True = n"
    unfolding findCDCBoundary_def take_take min.idem
    by (simp only: w cdcScan_append [OF sc] option.case)
  moreover have "0 < n" using cdcScan_bounds [OF sc] by simp
  then have "c @ rest' \<noteq> []" using len by auto
  ultimately show "cdcChunks (c @ rest') = c # cdcChunks rest'"
    using cdcChunks_unfold [of "c @ rest'" True] len by (simp add: Let_def)
qed

lemma chunks_suffix: "cdcChunks (concat xs @ z) = xs @ us \<Longrightarrow> us = cdcChunks z"
proof (induction xs)
  case (Cons c xs)
  show ?case
  proof (cases "xs @ us = []")
    case True
    have "c @ z = concat (cdcChunks (c @ z))" by (simp only: cdcChunks_concat)
    then show ?thesis using Cons.prems True by simp
  next
    case False
    with first_chunk_stable(1) [of c "concat xs @ z" "xs @ us"] Cons show ?thesis by simp
  qed
qed simp

lemma chunks_prefix:
  "cdcChunks (concat xs @ z) = xs @ us \<Longrightarrow> us \<noteq> [] \<Longrightarrow> cdcChunks (concat xs @ z') = xs @ cdcChunks z'"
proof (induction xs)
  case (Cons c xs)
  then have f: "cdcChunks (c @ concat xs @ z) = c # (xs @ us)" "xs @ us \<noteq> []" by simp_all
  from first_chunk_stable [OF f] Cons show ?case by simp
qed simp

lemma cdcChunks_sizes:
  "list_all (\<lambda>c. 0 < length c \<and> length c \<le> cdcMaxChunkSize) (cdcChunks xs)
   \<and> list_all (\<lambda>c. cdcMinChunkSize \<le> length c) (butlast (cdcChunks xs))"
proof (induction xs rule: cdcChunks.induct)
  case (2 x xs)
  define n where "n = findCDCBoundary (take cdcMaxChunkSize (x # xs)) True"
  have ch: "cdcChunks (x # xs) = take n (x # xs) # cdcChunks (drop n (x # xs))"
    by (simp only: cdcChunks.simps(2) Let_def n_def)
  have "0 < n" using findCDCBoundary_pos [of "take cdcMaxChunkSize (x # xs)"] by (simp add: n_def)
  moreover have "n \<le> length (take cdcMaxChunkSize (x # xs))" unfolding n_def by (rule findCDCBoundary_le)
  ultimately have n: "0 < n" "n \<le> cdcMaxChunkSize" "n \<le> length (x # xs)" by simp_all
  have "cdcMinChunkSize \<le> n" if "cdcChunks (drop n (x # xs)) \<noteq> []"
  proof -
    have "n < length (x # xs)" using that n(3) by (metis cdcChunks.simps(1) drop_all le_neq_implies_less)
    from scan_nonfinal [OF this [unfolded n_def], folded n_def] show ?thesis
      using cdcScan_bounds n(2) by (fastforce simp: cdcMinChunkSize_def cdcMaxChunkSize_def)
  qed
  with 2 [OF n_def] n show ?case
    unfolding ch by (auto simp: list_all_iff)
qed simp

section \<open>A concrete reader\<close>

text \<open>A reader that hands out given fragments, splitting one that does not fit, and then the end of file.\<close>

fun frag_read :: "bytes list reader" where
  "frag_read m [] = ([], REOF, [])"
| "frag_read m (f # fs) =
     (if length f \<le> m then (f, RNil, fs) else (take m f, RNil, drop m f # fs))"

lemma frag_delivers: "delivers frag_read fs (concat fs)"
proof (induction "sum_list (map (\<lambda>f. Suc (length f)) fs)" arbitrary: fs rule: less_induct)
  case less
  show ?case
  proof (cases fs)
    case Nil
    then show ?thesis by (auto intro!: delivers)
  next
    case (Cons f fs')
    have a: "delivers frag_read fs' (concat fs')" using Cons by (intro less) simp
    have b: "delivers frag_read (drop m f # fs') (drop m f @ concat fs')" if "0 < m" "m < length f" for m
      using less [of "drop m f # fs'"] Cons that by simp
    show ?thesis
    proof (rule delivers, intro allI impI)
      fix m :: nat
      assume "0 < m"
      then show "\<exists>ys e r' zs. frag_read m fs = (ys, e, r') \<and> length ys \<le> m \<and> concat fs = ys @ zs
        \<and> (e = REOF \<and> zs = [] \<or> e = RNil \<and> delivers frag_read r' zs)"
        using a b [of m] Cons
        by (cases "length f \<le> m") (auto simp: not_le intro!: exI [of _ "drop m f @ concat fs'"])
    qed
  qed
qed

text \<open>The same fragments, and then a failing read.\<close>

fun cut_read :: "bytes list reader" where
  "cut_read m [] = ([], RError, [])"
| "cut_read m (f # fs) =
     (if length f \<le> m then (f, RNil, fs) else (take m f, RNil, drop m f # fs))"

lemma cut_breaks_off: "breaks_off cut_read fs (concat fs)"
proof (induction "sum_list (map (\<lambda>f. Suc (length f)) fs)" arbitrary: fs rule: less_induct)
  case less
  show ?case
  proof (cases fs)
    case Nil
    then show ?thesis by (auto intro!: breaks_off)
  next
    case (Cons f fs')
    have a: "breaks_off cut_read fs' (concat fs')" using Cons by (intro less) simp
    have b: "breaks_off cut_read (drop m f # fs') (drop m f @ concat fs')" if "0 < m" "m < length f" for m
      using less [of "drop m f # fs'"] Cons that by simp
    show ?thesis
    proof (rule breaks_off, intro allI impI)
      fix m :: nat
      assume "0 < m"
      then show "\<exists>ys e r' zs. cut_read m fs = (ys, e, r') \<and> length ys \<le> m \<and> concat fs = ys @ zs
        \<and> (e = RError \<and> zs = [] \<or> e = RNil \<and> breaks_off cut_read r' zs)"
        using a b [of m] Cons
        by (cases "length f \<le> m") (auto simp: not_le intro!: exI [of _ "drop m f @ concat fs'"])
    qed
  qed
qed

section \<open>Properties\<close>

text \<open>
  C9: However the source fragments its reads - short reads, empty reads, the end of file with
  or after the last bytes - the chunker terminates and returns the chunks that the
  reference cut of the whole byte sequence has.
\<close>

theorem chunker_ignores_fragmentation:
  assumes "delivers rd r xs"
  shows "chunkLoop rd (newCDCChunker r) [] = Some (Inr (cdcChunks xs))"
  using chunkLoop_correct [of rd "newCDCChunker r" xs "[]"] assms by simp

theorem chunker_ignores_fragmentation_witness:
  "chunkLoop frag_read (newCDCChunker [[1], [], [2, 3]]) [] = Some (Inr (cdcChunks [1, 2, 3]))"
  using chunker_ignores_fragmentation [OF frag_delivers [of "[[1], [], [2, 3]]"]] by simp

text \<open>
  C10: The chunks concatenate to the input, none is empty or longer than the maximum, and
  all but the last have at least the minimum size.
\<close>

theorem cdc_chunk_bounds:
  "concat (cdcChunks xs) = xs
   \<and> list_all (\<lambda>c. 0 < length c \<and> length c \<le> cdcMaxChunkSize) (cdcChunks xs)
   \<and> list_all (\<lambda>c. cdcMinChunkSize \<le> length c) (butlast (cdcChunks xs))"
  using cdcChunks_concat cdcChunks_sizes by blast

text \<open>
  Locality. Once the chunks \<open>xs\<close> have been cut from a stream and more follows, they are
  cut from every stream that starts with the same bytes, whatever follows; and what follows
  is cut as if it stood alone. So an edit changes only the chunks it touches and those up
  to the next common boundary.
\<close>

theorem cdc_locality:
  assumes "cdcChunks (concat xs @ z) = xs @ us" and "us \<noteq> []"
  shows "us = cdcChunks z \<and> cdcChunks (concat xs @ z') = xs @ cdcChunks z'"
  using chunks_suffix [OF assms(1)] chunks_prefix [OF assms] by blast

theorem cdc_locality_witness:
  "\<exists>c rest. replicate (2 * cdcMaxChunkSize) (0 :: byte) = c @ rest \<and> 0 < length c
     \<and> cdcChunks (c @ [1, 2, 3]) = c # cdcChunks [1, 2, 3]"
proof -
  let ?d = "replicate (2 * cdcMaxChunkSize) (0 :: byte)"
  obtain c cs where ch: "cdcChunks ?d = c # cs"
    using cdcChunks_concat [of ?d] by (cases "cdcChunks ?d") auto
  have d: "?d = c @ concat cs" using cdcChunks_concat [of ?d] ch by simp
  have c: "0 < length c" "length c \<le> cdcMaxChunkSize" using cdcChunks_sizes [of ?d] ch by simp_all
  have "length c + length (concat cs) = 2 * cdcMaxChunkSize"
    using arg_cong [OF d, of length] by simp
  then have "cs \<noteq> []" using c by auto
  moreover have "cdcChunks (concat [c] @ concat cs) = [c] @ cs" using ch d by simp
  ultimately have "cdcChunks (concat [c] @ [1, 2, 3]) = [c] @ cdcChunks [1, 2, 3]"
    using cdc_locality by blast
  then show ?thesis using d c by auto
qed

end
