(* ===== verification/Pack.thy ===== *)
theory Pack
  imports Chunking
begin

text \<open>
  The pack file format (\<^verbatim>\<open>zeros3.go\<close>, sections 4b and 13c): record headers, index and footer,
  the structural validation of an untrusted file, the payload codecs, the one writer
  \<open>packBuilder\<close> and the readers that re-check what they return. A file is its bytes.
  \<^verbatim>\<open>compress/flate\<close> is an argument (\<open>flate_codec\<close>); what the code relies on is \<open>flate_ok\<close>:
  inflating a deflated stream gives the data back and consumes the stream, and an empty
  input is no stream. Shown here:
  whatever the builder writes is accepted by the layout check, passes full verification
  and reads back record by record; no reader ever returns bytes with the wrong digest; and
  damage to the footer is detected.
\<close>

section \<open>Format\<close>

definition packMagic :: bytes where
  "packMagic = bytes_of_string ''ZSPK''"

definition packFooterMagic :: bytes where
  "packFooterMagic = bytes_of_string ''ZSPF''"

definition packFormatVersion :: u16 where
  "packFormatVersion = 1"

definition packHeaderSize :: nat where
  "packHeaderSize = 16"

definition packRecordHeaderSize :: nat where
  "packRecordHeaderSize = 44"

definition packIndexEntrySize :: nat where
  "packIndexEntrySize = 52"

definition packFooterSize :: nat where
  "packFooterSize = 64"

definition packCodecRaw :: byte where
  "packCodecRaw = 0"

definition packCodecDeflate :: byte where
  "packCodecDeflate = 1"

definition maxPackedChunkBytes :: nat where
  "maxPackedChunkBytes = cdcMaxChunkSize"

lemmas pack_size_defs = packHeaderSize_def packRecordHeaderSize_def packIndexEntrySize_def packFooterSize_def

record packEntry =
  pe_sha :: digest
  pe_off :: u64
  pe_stored :: u32
  pe_logical :: u32
  pe_codec :: byte

datatype pack_error =
    PackTooSmall | PackHeaderMagic | PackVersion | PackHeaderReserved | PackFooterMagic | PackFooterChecksum
  | PackFooterVersion | PackFooterFlags | PackIndexOffset | PackRecordCount | PackIndexReserved nat
  | PackLengths byte u32 u32 | PackCodec byte | PackNotContiguous nat | PackRunsPast nat | PackRepeats nat
  | PackRecordsEnd | PackIndexChecksum | PackRecordHeader nat | PackTruncated | PackBodyChecksum
  | PackFileName | PackInflate | PackLength | PackChunkCorrupt | PackStaleLocator | PackOpen | PackShortRead

definition checkPackLengths :: "byte \<Rightarrow> u32 \<Rightarrow> u32 \<Rightarrow> pack_error + unit" where
  "checkPackLengths codec stored logical =
     (if codec \<noteq> packCodecRaw \<and> codec \<noteq> packCodecDeflate then Inl (PackCodec codec)
      else
        let ok = (if codec = packCodecRaw then stored = logical else stored > 0 \<and> stored < logical)
        in if \<not> ok \<or> logical = 0 \<or> unat logical > maxPackedChunkBytes
           then Inl (PackLengths codec logical stored) else Inr ())"

definition putPackRecordHeader :: "packEntry \<Rightarrow> bytes" where
  "putPackRecordHeader e =
     digest_bytes (pe_sha e) @ put_le 4 (pe_logical e) @ put_le 4 (pe_stored e) @ [pe_codec e, 0, 0, 0]"

definition putPackIndexEntry :: "packEntry \<Rightarrow> bytes" where
  "putPackIndexEntry e =
     digest_bytes (pe_sha e) @ put_le 8 (pe_off e) @ put_le 4 (pe_stored e) @ put_le 4 (pe_logical e)
       @ [pe_codec e, 0, 0, 0]"

definition putPackHeader :: bytes where
  "putPackHeader = packMagic @ put_le 2 packFormatVersion @ replicate 10 0"

definition putPackFooter :: "u64 \<Rightarrow> u64 \<Rightarrow> digest \<Rightarrow> u32 \<Rightarrow> bytes" where
  "putPackFooter cnt indexOff bodySHA indexCRC =
     (let b = packFooterMagic @ put_le 2 packFormatVersion @ put_le 2 (0 :: u16) @ put_le 8 cnt
                @ put_le 8 indexOff @ digest_bytes bodySHA @ put_le 4 indexCRC
      in b @ put_le 4 (crc32c b))"

definition allZero :: "bytes \<Rightarrow> bool" where
  "allZero b \<longleftrightarrow> list_all (\<lambda>c. c = 0) b"

definition getPackIndexEntry :: "bytes \<Rightarrow> packEntry" where
  "getPackIndexEntry buf =
     \<lparr>pe_sha = digest_of_bytes (take 32 buf), pe_off = get_le (take 8 (drop 32 buf)),
      pe_stored = get_le (take 4 (drop 40 buf)), pe_logical = get_le (take 4 (drop 44 buf)),
      pe_codec = buf ! 48\<rparr>"

section \<open>Validating a pack file\<close>

text \<open>The index loop: \<open>i\<close> counts the entries read, \<open>next\<close> is where the next record must start.\<close>

fun readIndex ::
  "nat \<Rightarrow> nat \<Rightarrow> u64 \<Rightarrow> u64 \<Rightarrow> packEntry list \<Rightarrow> bytes \<Rightarrow> pack_error + (packEntry list \<times> u64)" where
  "readIndex i 0 indexOff next entries idx = Inr (entries, next)"
| "readIndex i (Suc n) indexOff next entries idx =
     (let buf = take packIndexEntrySize idx;
          e = getPackIndexEntry buf in
      if \<not> allZero (drop 49 buf) then Inl (PackIndexReserved i)
      else case checkPackLengths (pe_codec e) (pe_stored e) (pe_logical e) of
        Inl err \<Rightarrow> Inl err
      | Inr _ \<Rightarrow>
          if pe_off e \<noteq> next + word_of_nat packRecordHeaderSize then Inl (PackNotContiguous i)
          else
            let next1 = pe_off e + ucast (pe_stored e) in
            if next1 > indexOff then Inl (PackRunsPast i)
            else if pe_sha e \<in> pe_sha ` set entries then Inl (PackRepeats i)
            else readIndex (Suc i) n indexOff next1 (entries @ [e]) (drop packIndexEntrySize idx))"

definition readPackLayout :: "bytes \<Rightarrow> pack_error + (packEntry list \<times> digest)" where
  "readPackLayout f =
     (let sz = length f in
      if sz < packHeaderSize + packFooterSize then Inl PackTooSmall
      else
        let hdr = take packHeaderSize f;
            ft = take packFooterSize (drop (sz - packFooterSize) f) in
        if take 4 hdr \<noteq> packMagic then Inl PackHeaderMagic
        else if get_le (take 2 (drop 4 hdr)) \<noteq> packFormatVersion then Inl PackVersion
        else if \<not> allZero (drop 6 hdr) then Inl PackHeaderReserved
        else if take 4 ft \<noteq> packFooterMagic then Inl PackFooterMagic
        else if crc32c (take 60 ft) \<noteq> get_le (drop 60 ft) then Inl PackFooterChecksum
        else if get_le (take 2 (drop 4 ft)) \<noteq> packFormatVersion then Inl PackFooterVersion
        else if (get_le (take 2 (drop 6 ft)) :: u16) \<noteq> 0 then Inl PackFooterFlags
        else
          let cnt = (get_le (take 8 (drop 8 ft)) :: u64);
              indexOff = (get_le (take 8 (drop 16 ft)) :: u64);
              bodySHA = digest_of_bytes (take 32 (drop 24 ft));
              indexCRC = (get_le (take 4 (drop 56 ft)) :: u32);
              indexEnd = (word_of_nat sz - word_of_nat packFooterSize :: u64) in
          if indexOff < word_of_nat packHeaderSize \<or> indexOff > indexEnd then Inl PackIndexOffset
          else
            let indexLen = unat (indexEnd - indexOff) in
            if indexLen mod packIndexEntrySize \<noteq> 0 \<or> unat cnt \<noteq> indexLen div packIndexEntrySize
            then Inl PackRecordCount
            else
              let index = take indexLen (drop (unat indexOff) f) in
              (case readIndex 0 (unat cnt) indexOff (word_of_nat packHeaderSize) [] index of
                 Inl e \<Rightarrow> Inl e
               | Inr (entries, next) \<Rightarrow>
                   if next \<noteq> indexOff then Inl PackRecordsEnd
                   else if crc32c index \<noteq> indexCRC then Inl PackIndexChecksum
                   else Inr (entries, bodySHA)))"

definition packFileSuffix :: string where
  "packFileSuffix = ''.pack''"

definition isPackFileName :: "string \<Rightarrow> bool" where
  "isPackFileName name \<longleftrightarrow>
     (let id = take (length name - length packFileSuffix) name in
      length packFileSuffix \<le> length name
      \<and> drop (length name - length packFileSuffix) name = packFileSuffix
      \<and> length id = 64
      \<and> list_all (\<lambda>c. let k = of_char c :: nat in 48 \<le> k \<and> k \<le> 57 \<or> 97 \<le> k \<and> k \<le> 102) id)"

datatype tier = TierHot | TierWarm | TierCold

record packInfo =
  pi_id :: string
  pi_tier :: tier
  pi_path :: string
  pi_size :: nat
  pi_records :: nat
  pi_deflated :: nat
  pi_logical :: nat
  pi_stored :: nat

definition newPackInfo :: "string \<Rightarrow> string \<Rightarrow> nat \<Rightarrow> packEntry list \<Rightarrow> packInfo" where
  "newPackInfo pid path sz entries =
     \<lparr>pi_id = pid, pi_tier = TierHot, pi_path = path, pi_size = sz, pi_records = length entries,
      pi_deflated = length (filter (\<lambda>e. pe_codec e \<noteq> packCodecRaw) entries),
      pi_logical = sum_list (map (\<lambda>e. unat (pe_logical e)) entries),
      pi_stored = sum_list (map (\<lambda>e. unat (pe_stored e)) entries)\<rparr>"

definition statPackFile :: "string \<Rightarrow> bytes \<Rightarrow> pack_error + (packInfo \<times> packEntry list)" where
  "statPackFile path f =
     bind_result (readPackLayout f)
       (\<lambda>(entries, bodySHA).
          Inr (newPackInfo (hex_encode (digest_bytes bodySHA)) path (length f) entries, entries))"

text \<open>\<open>base\<close> is \<^verbatim>\<open>filepath.Base\<close> of the path.\<close>

definition loadPackFile :: "string \<Rightarrow> string \<Rightarrow> bytes \<Rightarrow> pack_error + (packInfo \<times> packEntry list)" where
  "loadPackFile path base f =
     bind_result (statPackFile path f)
       (\<lambda>(info, entries). if base \<noteq> pi_id info @ packFileSuffix then Inl PackFileName else Inr (info, entries))"

section \<open>Payloads\<close>

text \<open>\<open>inflate\<close> gives the decoded bytes and the unread rest of the input.\<close>

record flate_codec =
  z_deflate :: "bytes \<Rightarrow> bytes"
  z_inflate :: "bytes \<Rightarrow> (bytes \<times> bytes) option"

definition flate_ok :: "flate_codec \<Rightarrow> bool" where
  "flate_ok Z \<longleftrightarrow> z_inflate Z [] = None \<and> (\<forall>d. z_inflate Z (z_deflate Z d) = Some (d, []))"

definition decodePackPayload :: "flate_codec \<Rightarrow> byte \<Rightarrow> bytes \<Rightarrow> u32 \<Rightarrow> digest \<Rightarrow> pack_error + bytes" where
  "decodePackPayload Z codec stored logical dg =
     (case checkPackLengths codec (word_of_nat (length stored)) logical of
        Inl e \<Rightarrow> Inl e
      | Inr _ \<Rightarrow>
          (case (if codec = packCodecDeflate
                 then (case z_inflate Z stored of
                         None \<Rightarrow> Inl PackInflate
                       | Some (out, rest) \<Rightarrow>
                           if length out < unat logical then Inl PackInflate
                           else if length out \<noteq> unat logical \<or> rest \<noteq> [] then Inl PackLength else Inr out)
                 else Inr stored) of
             Inl e \<Rightarrow> Inl e
           | Inr data \<Rightarrow> if sha256 data \<noteq> dg then Inl PackChunkCorrupt else Inr data))"

text \<open>The compressor: \<open>None\<close> stores every record raw.\<close>

definition packEncode :: "flate_codec option \<Rightarrow> bytes \<Rightarrow> bytes \<times> byte" where
  "packEncode cmp data =
     (case cmp of
        None \<Rightarrow> (data, packCodecRaw)
      | Some Z \<Rightarrow>
          if int (length (z_deflate Z data)) > int (length data) - max 1 (int (length data div 16))
          then (data, packCodecRaw) else (z_deflate Z data, packCodecDeflate))"

section \<open>Reading one record\<close>

text \<open>\<open>ReadAt\<close> of \<open>n\<close> bytes at \<open>off\<close>: short is an error.\<close>

definition pack_read_at :: "bytes \<Rightarrow> nat \<Rightarrow> nat \<Rightarrow> bytes option" where
  "pack_read_at f off n = (if off + n \<le> length f then Some (take n (drop off f)) else None)"

definition readPackRecord :: "flate_codec \<Rightarrow> bytes \<Rightarrow> packEntry \<Rightarrow> pack_error + bytes" where
  "readPackRecord Z f e =
     (case pack_read_at f (unat (pe_off e) - packRecordHeaderSize) (packRecordHeaderSize + unat (pe_stored e)) of
        None \<Rightarrow> Inl PackShortRead
      | Some buf \<Rightarrow>
          if take packRecordHeaderSize buf \<noteq> putPackRecordHeader e then Inl (PackRecordHeader 0)
          else decodePackPayload Z (pe_codec e) (drop packRecordHeaderSize buf) (pe_logical e) (pe_sha e))"

fun verifyRecords :: "flate_codec \<Rightarrow> nat \<Rightarrow> packEntry list \<Rightarrow> bytes \<Rightarrow> pack_error + bytes" where
  "verifyRecords Z i [] r = Inr r"
| "verifyRecords Z i (e # es) r =
     (if length r < packRecordHeaderSize then Inl PackTruncated
      else if take packRecordHeaderSize r \<noteq> putPackRecordHeader e then Inl (PackRecordHeader i)
      else
        let r1 = drop packRecordHeaderSize r;
            buf = take (unat (pe_stored e)) r1 in
        if length r1 < unat (pe_stored e) then Inl PackTruncated
        else case decodePackPayload Z (pe_codec e) buf (pe_logical e) (pe_sha e) of
          Inl err \<Rightarrow> Inl err
        | Inr _ \<Rightarrow> verifyRecords Z (Suc i) es (drop (unat (pe_stored e)) r1))"

definition verifyPackFile :: "flate_codec \<Rightarrow> string \<Rightarrow> bytes \<Rightarrow> pack_error + (packInfo \<times> packEntry list)" where
  "verifyPackFile Z path f =
     bind_result (statPackFile path f)
       (\<lambda>(info, entries).
          let body = take (length f - packFooterSize) f in
          bind_result (verifyRecords Z 0 entries (drop packHeaderSize body))
            (\<lambda>_. if hex_encode (digest_bytes (sha256 body)) \<noteq> pi_id info then Inl PackBodyChecksum
                 else Inr (info, entries)))"

fun checkRecordHeaders :: "nat \<Rightarrow> bytes \<Rightarrow> packEntry list \<Rightarrow> pack_error + unit" where
  "checkRecordHeaders i f [] = Inr ()"
| "checkRecordHeaders i f (e # es) =
     (case pack_read_at f (unat (pe_off e) - packRecordHeaderSize) packRecordHeaderSize of
        None \<Rightarrow> Inl PackShortRead
      | Some got \<Rightarrow>
          if got \<noteq> putPackRecordHeader e then Inl (PackRecordHeader i) else checkRecordHeaders (Suc i) f es)"

definition checkPackRecords :: "string \<Rightarrow> string \<Rightarrow> bytes \<Rightarrow> pack_error + unit" where
  "checkPackRecords path base f =
     bind_result (loadPackFile path base f) (\<lambda>(info, entries). checkRecordHeaders 0 f entries)"

section \<open>Writing a pack\<close>

record packBuilder =
  pb_w :: bytes
  pb_comp :: "flate_codec option"
  pb_entries :: "packEntry list"
  pb_off :: u64
  pb_logical :: nat

definition newPackBuilder :: "flate_codec option \<Rightarrow> packBuilder" where
  "newPackBuilder cmp =
     \<lparr>pb_w = putPackHeader, pb_comp = cmp, pb_entries = [], pb_off = word_of_nat packHeaderSize, pb_logical = 0\<rparr>"

definition packBuilder_Add :: "digest \<Rightarrow> bytes \<Rightarrow> packBuilder \<Rightarrow> packBuilder" where
  "packBuilder_Add dg data b =
     (let (payload, codec) = packEncode (pb_comp b) data;
          e = \<lparr>pe_sha = dg, pe_off = pb_off b + word_of_nat packRecordHeaderSize,
               pe_stored = word_of_nat (length payload), pe_logical = word_of_nat (length data),
               pe_codec = codec\<rparr>
      in b\<lparr>pb_w := pb_w b @ putPackRecordHeader e @ payload, pb_entries := pb_entries b @ [e],
           pb_off := pe_off e + ucast (pe_stored e), pb_logical := pb_logical b + length data\<rparr>)"

definition packBuilder_LogicalBytes :: "packBuilder \<Rightarrow> nat" where
  "packBuilder_LogicalBytes b = pb_logical b + length (pb_entries b) * packRecordHeaderSize"

text \<open>The finished file; \<open>None\<close>: a write or the sync failed and the staging file is removed.\<close>

definition packBuilder_Finish :: "bool \<Rightarrow> packBuilder \<Rightarrow> (bytes \<times> packEntry list) option" where
  "packBuilder_Finish io_fails b =
     (if io_fails then None
      else
        let index = concat (map putPackIndexEntry (pb_entries b));
            body = pb_w b @ index
        in Some (body @ putPackFooter (word_of_nat (length (pb_entries b))) (pb_off b) (sha256 body) (crc32c index),
                 pb_entries b))"

definition packBuilder_readRecord :: "flate_codec \<Rightarrow> packBuilder \<Rightarrow> nat \<Rightarrow> pack_error + bytes" where
  "packBuilder_readRecord Z b i = readPackRecord Z (pb_w b) (pb_entries b ! i)"

section \<open>What the builder writes is accepted\<close>

lemma length_pack_parts [simp]:
  "length packMagic = 4" "length packFooterMagic = 4" "length putPackHeader = 16"
  "length (putPackRecordHeader e) = 44" "length (putPackIndexEntry e) = 52"
  "length (putPackFooter c o' s r) = 64"
  by (simp_all add: packMagic_def packFooterMagic_def putPackHeader_def putPackRecordHeader_def
      putPackIndexEntry_def putPackFooter_def Let_def)

lemma getPackIndexEntry_put [simp]: "getPackIndexEntry (putPackIndexEntry e) = e"
  by (cases e) (simp add: getPackIndexEntry_def putPackIndexEntry_def nth_append)

lemma reserved_put [simp]: "allZero (drop 49 (putPackIndexEntry e))"
  by (simp add: putPackIndexEntry_def allZero_def)

text \<open>Entries that tile the record area from offset \<open>k\<close> on, and the extent they cover.\<close>

fun tiled :: "nat \<Rightarrow> packEntry list \<Rightarrow> bool" where
  "tiled k [] \<longleftrightarrow> True"
| "tiled k (e # es) \<longleftrightarrow>
     pe_off e = word_of_nat (k + packRecordHeaderSize) \<and> tiled (k + packRecordHeaderSize + unat (pe_stored e)) es"

definition extent :: "packEntry list \<Rightarrow> nat" where
  "extent es = sum_list (map (\<lambda>e. packRecordHeaderSize + unat (pe_stored e)) es)"

lemma extent_simps [simp]:
  "extent [] = 0" "extent (e # es) = packRecordHeaderSize + unat (pe_stored e) + extent es"
  "extent (es @ fs) = extent es + extent fs"
  by (simp_all add: extent_def)

lemma tiled_append: "tiled k (es @ fs) \<longleftrightarrow> tiled k es \<and> tiled (k + extent es) fs"
  by (induction k es rule: tiled.induct) (auto simp: add.assoc)

lemma of_nat_add_ucast: "word_of_nat k + ucast (w :: u32) = (word_of_nat (k + unat w) :: u64)"
  by simp

lemma u64_le: "a \<le> b \<Longrightarrow> b < 2 ^ 64 \<Longrightarrow> (word_of_nat a :: u64) \<le> word_of_nat b"
  by (simp add: word_le_nat_alt unat_of_nat take_bit_nat_eq_self)

lemma unat_u64: "a < 2 ^ 64 \<Longrightarrow> unat (word_of_nat a :: u64) = a"
  by (simp add: unat_of_nat take_bit_nat_eq_self)

definition entry_ok :: "packEntry \<Rightarrow> bool" where
  "entry_ok e \<longleftrightarrow> checkPackLengths (pe_codec e) (pe_stored e) (pe_logical e) = Inr ()"

lemma readIndex_put:
  assumes "tiled k es" "list_all entry_ok es" "distinct (map pe_sha (acc @ es))" "k + extent es \<le> m" "m < 2 ^ 64"
  shows "readIndex i (length es) (word_of_nat m) (word_of_nat k) acc (concat (map putPackIndexEntry es))
    = Inr (acc @ es, word_of_nat (k + extent es))"
  using assms
proof (induction es arbitrary: i k acc)
  case (Cons e es)
  let ?k = "k + packRecordHeaderSize + unat (pe_stored e)"
  have off: "pe_off e = word_of_nat k + word_of_nat packRecordHeaderSize" using Cons.prems(1) by simp
  have nx: "pe_off e + ucast (pe_stored e) = word_of_nat ?k"
    using Cons.prems(1) by (simp only: tiled.simps of_nat_add_ucast)
  have le: "\<not> (word_of_nat m :: u64) < word_of_nat ?k"
    unfolding not_less using Cons.prems(4,5) by (intro u64_le) auto
  have IH: "readIndex (Suc i) (length es) (word_of_nat m) (word_of_nat ?k) (acc @ [e])
      (concat (map putPackIndexEntry es)) = Inr ((acc @ [e]) @ es, word_of_nat (?k + extent es))"
    using Cons.prems by (intro Cons.IH) (auto simp: add.assoc)
  have "pe_sha e \<notin> pe_sha ` set acc" using Cons.prems(3) by auto
  with IH le nx off Cons.prems(2) show ?case
    by (simp add: packIndexEntrySize_def Let_def entry_ok_def add.assoc)
qed simp

text \<open>The state of a builder: header, then the records of its entries, tiling the file.\<close>

fun records_match :: "flate_codec \<Rightarrow> packEntry list \<Rightarrow> bytes list \<Rightarrow> bytes \<Rightarrow> bool" where
  "records_match Z [] [] r \<longleftrightarrow> r = []"
| "records_match Z (e # es) (d # ds) r \<longleftrightarrow> (\<exists>pl rest. r = putPackRecordHeader e @ pl @ rest
     \<and> length pl = unat (pe_stored e)
     \<and> decodePackPayload Z (pe_codec e) pl (pe_logical e) (pe_sha e) = Inr d \<and> records_match Z es ds rest)"
| "records_match Z _ _ r \<longleftrightarrow> False"

definition builder_ok :: "flate_codec \<Rightarrow> bytes list \<Rightarrow> packBuilder \<Rightarrow> bool" where
  "builder_ok Z ds b \<longleftrightarrow> (pb_comp b = None \<or> pb_comp b = Some Z)
     \<and> (\<exists>r. pb_w b = putPackHeader @ r \<and> records_match Z (pb_entries b) ds r)
     \<and> tiled packHeaderSize (pb_entries b) \<and> list_all entry_ok (pb_entries b)
     \<and> pb_off b = word_of_nat (packHeaderSize + extent (pb_entries b))"

lemma records_match_append:
  "records_match Z es ds r \<Longrightarrow> records_match Z fs gs q \<Longrightarrow> records_match Z (es @ fs) (ds @ gs) (r @ q)"
proof (induction Z es ds r rule: records_match.induct)
  case (2 Z e es d ds r)
  then obtain pl rest where r: "r = putPackRecordHeader e @ pl @ rest" "length pl = unat (pe_stored e)"
    "decodePackPayload Z (pe_codec e) pl (pe_logical e) (pe_sha e) = Inr d" "records_match Z es ds rest"
    by auto
  then have "records_match Z (es @ fs) (ds @ gs) (rest @ q)" using 2 by blast
  then show ?case using r by auto
qed auto

lemma records_match_length: "records_match Z es ds r \<Longrightarrow> length r = extent es"
  by (induction Z es ds r rule: records_match.induct) (auto simp: packRecordHeaderSize_def)

lemma unat_u32: "n \<le> maxPackedChunkBytes \<Longrightarrow> unat (word_of_nat n :: u32) = n"
  by (simp add: unat_of_nat take_bit_nat_eq_self maxPackedChunkBytes_def cdcMaxChunkSize_def)

lemma packEncode_decode:
  assumes "flate_ok Z" "cmp = None \<or> cmp = Some Z" "packEncode cmp data = (payload, codec)"
    and "0 < length data" "length data \<le> maxPackedChunkBytes" "dg = sha256 data"
  shows "decodePackPayload Z codec payload (word_of_nat (length data)) dg = Inr data
    \<and> length payload \<le> maxPackedChunkBytes
    \<and> checkPackLengths codec (word_of_nat (length payload)) (word_of_nat (length data)) = Inr ()"
proof -
  note u = unat_u32 [OF assms(5)]
  have nz: "(word_of_nat (length data) :: u32) \<noteq> 0" using u assms(4) by (metis less_irrefl unat_0)
  show ?thesis
  proof (cases "codec = packCodecRaw")
    case True
    then have "payload = data"
      using assms(3) by (auto simp: packEncode_def packCodecRaw_def packCodecDeflate_def split: option.splits if_splits)
    with True show ?thesis
      using nz u assms(5,6)
      by (simp add: checkPackLengths_def decodePackPayload_def packCodecRaw_def packCodecDeflate_def)
  next
    case False
    then have c: "cmp = Some Z" "codec = packCodecDeflate" "payload = z_deflate Z data"
      and le: "int (length payload) \<le> int (length data) - max 1 (int (length data div 16))"
      using assms(2,3) by (auto simp: packEncode_def split: option.splits if_splits)
    have inf: "z_inflate Z payload = Some (data, [])" using assms(1) c(3) by (simp add: flate_ok_def)
    have lt: "length payload < length data" using le by linarith
    have "payload \<noteq> []" using assms(1) inf by (auto simp: flate_ok_def)
    then have "0 < length payload" by simp
    moreover have lp: "length payload \<le> maxPackedChunkBytes" using lt assms(5) by simp
    note unat_u32 [OF lp]
    ultimately have "checkPackLengths codec (word_of_nat (length payload)) (word_of_nat (length data)) = Inr ()"
      using nz u lt assms(5) c(2)
      by (simp add: checkPackLengths_def packCodecRaw_def packCodecDeflate_def word_less_nat_alt)
    with inf c(2) u assms(6) lp show ?thesis by (simp add: decodePackPayload_def)
  qed
qed

lemma builder_new: "cmp = None \<or> cmp = Some Z \<Longrightarrow> builder_ok Z [] (newPackBuilder cmp)"
  by (simp add: builder_ok_def newPackBuilder_def)

lemma builder_Add:
  assumes "builder_ok Z ds b" "flate_ok Z" "0 < length data" "length data \<le> maxPackedChunkBytes"
  shows "builder_ok Z (ds @ [data]) (packBuilder_Add (sha256 data) data b)"
    and "map pe_sha (pb_entries (packBuilder_Add (sha256 data) data b))
      = map pe_sha (pb_entries b) @ [sha256 data]"
proof -
  obtain payload codec where pc: "packEncode (pb_comp b) data = (payload, codec)" by fastforce
  from assms(1) have comp: "pb_comp b = None \<or> pb_comp b = Some Z" by (simp add: builder_ok_def)
  note enc = packEncode_decode [OF assms(2) comp pc assms(3,4) refl]
  then have up: "unat (word_of_nat (length payload) :: u32) = length payload" by (simp add: unat_u32)
  define e where "e = \<lparr>pe_sha = sha256 data, pe_off = pb_off b + word_of_nat packRecordHeaderSize,
    pe_stored = word_of_nat (length payload), pe_logical = word_of_nat (length data), pe_codec = codec\<rparr>"
  have add: "packBuilder_Add (sha256 data) data b
      = b\<lparr>pb_w := pb_w b @ putPackRecordHeader e @ payload, pb_entries := pb_entries b @ [e],
          pb_off := pe_off e + ucast (pe_stored e), pb_logical := pb_logical b + length data\<rparr>"
    by (simp add: packBuilder_Add_def pc e_def Let_def)
  show "map pe_sha (pb_entries (packBuilder_Add (sha256 data) data b))
      = map pe_sha (pb_entries b) @ [sha256 data]"
    by (simp add: add e_def)
  have off: "pe_off e = word_of_nat (packHeaderSize + extent (pb_entries b) + packRecordHeaderSize)"
    using assms(1) by (simp add: e_def builder_ok_def)
  obtain r where r: "pb_w b = putPackHeader @ r" "records_match Z (pb_entries b) ds r"
    using assms(1) by (auto simp: builder_ok_def)
  have "records_match Z [e] [data] (putPackRecordHeader e @ payload)"
    using enc up by (auto simp: e_def)
  from records_match_append [OF r(2) this]
  have m: "records_match Z (pb_entries b @ [e]) (ds @ [data]) (r @ putPackRecordHeader e @ payload)" .
  have "entry_ok e" using enc by (simp add: entry_ok_def e_def)
  moreover have "pe_off e + ucast (pe_stored e) = word_of_nat (packHeaderSize + extent (pb_entries b @ [e]))"
    unfolding off of_nat_add_ucast by (simp add: add.assoc)
  ultimately show "builder_ok Z (ds @ [data]) (packBuilder_Add (sha256 data) data b)"
    using assms(1) m r(1) off by (simp add: builder_ok_def add tiled_append)
qed

text \<open>Adding a list of chunks under their own digests.\<close>

definition packBuild :: "flate_codec option \<Rightarrow> bytes list \<Rightarrow> packBuilder" where
  "packBuild cmp ds = foldl (\<lambda>b d. packBuilder_Add (sha256 d) d b) (newPackBuilder cmp) ds"

definition packable :: "bytes \<Rightarrow> bool" where
  "packable d \<longleftrightarrow> 0 < length d \<and> length d \<le> maxPackedChunkBytes"

lemma packBuild_ok:
  assumes "flate_ok Z" "cmp = None \<or> cmp = Some Z" "list_all packable ds"
  shows "builder_ok Z ds (packBuild cmp ds) \<and> map pe_sha (pb_entries (packBuild cmp ds)) = map sha256 ds"
  using assms(3)
proof (induction ds rule: rev_induct)
  case Nil
  then show ?case using builder_new [OF assms(2)] by (simp add: packBuild_def newPackBuilder_def)
next
  case (snoc d ds)
  then have IH: "builder_ok Z ds (packBuild cmp ds)" "map pe_sha (pb_entries (packBuild cmp ds)) = map sha256 ds"
    and d: "0 < length d" "length d \<le> maxPackedChunkBytes"
    by (simp_all add: packable_def)
  have s: "packBuild cmp (ds @ [d]) = packBuilder_Add (sha256 d) d (packBuild cmp ds)"
    by (simp add: packBuild_def)
  show ?case unfolding s using builder_Add [OF IH(1) assms(1) d] IH(2) by simp
qed

lemma length_index: "length (concat (map putPackIndexEntry es)) = packIndexEntrySize * length es"
  by (induction es) (simp_all add: packIndexEntrySize_def)

lemma footer_fields:
  "take 4 (putPackFooter c io s r) = packFooterMagic"
  "crc32c (take 60 (putPackFooter c io s r)) = get_le (drop 60 (putPackFooter c io s r))"
  "get_le (take 2 (drop 4 (putPackFooter c io s r))) = packFormatVersion"
  "get_le (take 2 (drop 6 (putPackFooter c io s r))) = (0 :: u16)"
  "get_le (take 8 (drop 8 (putPackFooter c io s r))) = c"
  "get_le (take 8 (drop 16 (putPackFooter c io s r))) = io"
  "digest_of_bytes (take 32 (drop 24 (putPackFooter c io s r))) = s"
  "get_le (take 4 (drop 56 (putPackFooter c io s r))) = r"
  by (simp_all add: putPackFooter_def Let_def)

lemma header_ok:
  "take 4 putPackHeader = packMagic" "get_le (take 2 (drop 4 putPackHeader)) = packFormatVersion"
  "allZero (drop 6 putPackHeader)"
  by (simp_all add: putPackHeader_def allZero_def list_all_iff)

lemma readPackLayout_finish:
  assumes "builder_ok Z ds b" "distinct (map pe_sha (pb_entries b))" "packBuilder_Finish False b = Some (f, es)"
    and "length f < 2 ^ 63"
  shows "readPackLayout f = Inr (es, sha256 (take (length f - packFooterSize) f))"
proof -
  let ?index = "concat (map putPackIndexEntry (pb_entries b))"
  let ?body = "pb_w b @ ?index"
  let ?ft = "putPackFooter (word_of_nat (length (pb_entries b))) (pb_off b) (sha256 ?body) (crc32c ?index)"
  obtain r where r: "pb_w b = putPackHeader @ r" "records_match Z (pb_entries b) ds r"
    using assms(1) by (auto simp: builder_ok_def)
  define m where "m = packHeaderSize + extent (pb_entries b)"
  have lw: "length (pb_w b) = m" using r records_match_length [OF r(2)] by (simp add: m_def packHeaderSize_def)
  have "Some (?body @ ?ft, pb_entries b) = Some (f, es)"
    using assms(3) unfolding packBuilder_Finish_def Let_def by (simp only: if_False)
  then have f: "f = ?body @ ?ft" and es: "es = pb_entries b"
    unfolding option.inject prod.inject by blast+
  have lf: "length f = m + packIndexEntrySize * length es + packFooterSize"
    unfolding f es by (simp add: lw length_index packFooterSize_def)
  then have m64: "m < 2 ^ 64" "length es < 2 ^ 64" "m + packIndexEntrySize * length es < 2 ^ 64"
    using assms(4) by (simp_all add: packIndexEntrySize_def)
  have off: "pb_off b = word_of_nat m" using assms(1) by (simp add: builder_ok_def m_def)
  have hdr: "take packHeaderSize f = putPackHeader" by (simp add: f r packHeaderSize_def)
  have ft: "take packFooterSize (drop (length f - packFooterSize) f) = ?ft"
    unfolding lf by (simp add: f lw length_index es packFooterSize_def)
  have ie: "(word_of_nat (length f) - word_of_nat packFooterSize :: u64) = word_of_nat (m + packIndexEntrySize * length es)"
    unfolding lf by simp
  have il: "unat (word_of_nat (m + packIndexEntrySize * length es) - word_of_nat m :: u64) = packIndexEntrySize * length es"
  proof -
    have "(word_of_nat (m + packIndexEntrySize * length es) - word_of_nat m :: u64)
        = word_of_nat (packIndexEntrySize * length es)" by simp
    then show ?thesis using m64(3) by (simp only:) (rule unat_u64, simp)
  qed
  have idx: "take (packIndexEntrySize * length es) (drop (unat (word_of_nat m :: u64)) f) = ?index"
    unfolding unat_u64 [OF m64(1)] using length_index [of "pb_entries b"] by (simp add: f lw es)
  have ri: "readIndex 0 (length es) (word_of_nat m) (word_of_nat packHeaderSize) [] ?index = Inr ([] @ es, word_of_nat m)"
    unfolding es m_def using assms(1,2) m64(1)
    by (intro readIndex_put) (simp_all add: builder_ok_def m_def)
  have lo: "\<not> (word_of_nat m :: u64) < word_of_nat packHeaderSize"
    unfolding not_less using m64(1) by (intro u64_le) (simp_all add: m_def)
  have hi: "\<not> (word_of_nat (m + packIndexEntrySize * length es) :: u64) < word_of_nat m"
    unfolding not_less using m64(3) by (intro u64_le) simp_all
  have big: "\<not> length f < packHeaderSize + packFooterSize"
    unfolding lf by (simp add: m_def)
  have body: "take (length f - packFooterSize) f = ?body"
    unfolding lf by (simp add: f lw length_index es)
  show ?thesis
    unfolding readPackLayout_def Let_def body
    using big lo hi ri
    by (simp only: hdr ft header_ok footer_fields ie off il idx unat_u64 [OF m64(2)] es [symmetric]
        simp_thms if_False if_True sum.case prod.case append_Nil)
       (simp add: packIndexEntrySize_def)
qed

lemma readPackRecord_at:
  assumes "records_match Z es ds r" "tiled k es" "length pre = k" "k + extent es < 2 ^ 64" "i < length ds"
  shows "readPackRecord Z (pre @ r @ post) (es ! i) = Inr (ds ! i)"
  using assms
proof (induction Z es ds r arbitrary: pre k i rule: records_match.induct)
  case (2 Z e es d ds r)
  obtain pl rest where r: "r = putPackRecordHeader e @ pl @ rest" "length pl = unat (pe_stored e)"
    "decodePackPayload Z (pe_codec e) pl (pe_logical e) (pe_sha e) = Inr d" "records_match Z es ds rest"
    using 2(2) by auto
  show ?case
  proof (cases i)
    case 0
    have "unat (pe_off e) = k + packRecordHeaderSize"
      using 2(3,5) by (simp only: tiled.simps) (rule unat_u64, simp)
    then show ?thesis
      using 0 r 2(4) by (simp add: readPackRecord_def pack_read_at_def packRecordHeaderSize_def)
  next
    case (Suc j)
    have "readPackRecord Z ((pre @ putPackRecordHeader e @ pl) @ rest @ post) (es ! j) = Inr (ds ! j)"
      by (rule 2(1) [where k = "k + packRecordHeaderSize + unat (pe_stored e)"])
         (use 2(3-6) r Suc in \<open>simp_all add: packRecordHeaderSize_def\<close>)
    then show ?thesis using Suc r(1) by simp
  qed
qed simp_all

lemma verifyRecords_match:
  "records_match Z es ds r \<Longrightarrow> verifyRecords Z i es (r @ post) = Inr post"
  by (induction Z es ds r arbitrary: i rule: records_match.induct)
     (auto simp: packRecordHeaderSize_def Let_def)

lemma packBuild_valid:
  assumes "flate_ok Z" and "cmp = None \<or> cmp = Some Z" and "list_all packable ds"
    and "distinct (map sha256 ds)" and "packBuilder_Finish False (packBuild cmp ds) = Some (f, es)"
    and "length f < 2 ^ 63"
  shows "readPackLayout f = Inr (es, sha256 (take (length f - packFooterSize) f))
    \<and> is_ok (verifyPackFile Z path f)
    \<and> map (readPackRecord Z f) es = map Inr ds"
proof -
  let ?b = "packBuild cmp ds"
  have ok: "builder_ok Z ds ?b" and sh: "map pe_sha (pb_entries ?b) = map sha256 ds"
    using packBuild_ok [OF assms(1-3)] by simp_all
  have lay: "readPackLayout f = Inr (es, sha256 (take (length f - packFooterSize) f))"
    using readPackLayout_finish [OF ok _ assms(5,6)] assms(4) sh by simp
  obtain r where r: "pb_w ?b = putPackHeader @ r" "records_match Z (pb_entries ?b) ds r"
    using ok by (auto simp: builder_ok_def)
  have es: "es = pb_entries ?b" using assms(5) by (simp add: packBuilder_Finish_def Let_def)
  have le: "length es = length ds" using arg_cong [OF sh, of length] by (simp add: es)
  obtain q where f: "f = putPackHeader @ r @ concat (map putPackIndexEntry es) @ q" and q: "length q = packFooterSize"
    using assms(5) by (auto simp: packBuilder_Finish_def Let_def r es packFooterSize_def)
  have body: "drop packHeaderSize (take (length f - packFooterSize) f) = r @ concat (map putPackIndexEntry es)"
    using q by (simp add: f packHeaderSize_def)
  have "is_ok (verifyPackFile Z path f)"
    using verifyRecords_match [OF r(2)]
    by (simp add: verifyPackFile_def statPackFile_def lay newPackInfo_def Let_def body es)
  moreover have "readPackRecord Z f (es ! i) = Inr (ds ! i)" if "i < length ds" for i
  proof -
    have "packHeaderSize + extent es < 2 ^ 64"
      using assms(6) records_match_length [OF r(2)] by (simp add: f es packHeaderSize_def)
    from readPackRecord_at [OF r(2), of packHeaderSize putPackHeader i "concat (map putPackIndexEntry es) @ q"] ok this that
    show ?thesis by (simp add: f es builder_ok_def packHeaderSize_def)
  qed
  then have "map (readPackRecord Z f) es = map Inr ds"
    using le by (intro nth_equalityI) simp_all
  ultimately show ?thesis using lay by blast
qed

lemma decodePackPayload_sound:
  assumes "decodePackPayload Z codec stored logical dg = Inr data" "length stored < 2 ^ 32"
  shows "sha256 data = dg \<and> length data = unat logical \<and> 0 < length data \<and> length data \<le> maxPackedChunkBytes"
proof -
  have chk: "checkPackLengths codec (word_of_nat (length stored)) logical = Inr ()"
    using assms(1) by (auto simp: decodePackPayload_def split: sum.splits)
  then have lim: "logical \<noteq> 0" "unat logical \<le> maxPackedChunkBytes"
    and raw: "codec \<noteq> packCodecDeflate \<Longrightarrow> logical = word_of_nat (length stored)"
    by (auto simp: checkPackLengths_def Let_def split: if_splits)
  have pos: "0 < unat logical" using lim(1) by (simp add: unat_gt_0)
  have us: "unat (word_of_nat (length stored) :: u32) = length stored"
    using assms(2) by (simp add: unat_of_nat take_bit_nat_eq_self)
  show ?thesis
  proof (cases "codec = packCodecDeflate")
    case True
    with assms(1) chk have "sha256 data = dg" "length data = unat logical"
      by (auto simp: decodePackPayload_def split: option.splits if_splits prod.splits)
    then show ?thesis using lim pos by simp
  next
    case False
    with assms(1) chk have "sha256 data = dg" "data = stored"
      by (auto simp: decodePackPayload_def split: if_splits)
    then show ?thesis using raw [OF False] us lim pos by simp
  qed
qed

lemma readPackRecord_sound:
  assumes "readPackRecord Z f e = Inr data"
  shows "sha256 data = pe_sha e \<and> length data = unat (pe_logical e)
    \<and> 0 < length data \<and> length data \<le> maxPackedChunkBytes"
proof -
  obtain buf where b: "pack_read_at f (unat (pe_off e) - packRecordHeaderSize)
      (packRecordHeaderSize + unat (pe_stored e)) = Some buf"
    and d: "decodePackPayload Z (pe_codec e) (drop packRecordHeaderSize buf) (pe_logical e) (pe_sha e) = Inr data"
    using assms by (auto simp: readPackRecord_def split: option.splits if_splits)
  have "length (drop packRecordHeaderSize buf) = unat (pe_stored e)"
    using b by (auto simp: pack_read_at_def packRecordHeaderSize_def split: if_splits)
  moreover have "unat (pe_stored e) < 2 ^ LENGTH(32)" by (rule unsigned_less)
  ultimately have "length (drop packRecordHeaderSize buf) < 2 ^ 32" by simp
  from decodePackPayload_sound [OF d this] show ?thesis .
qed

section \<open>Properties\<close>

text \<open>
  C11: Everything the one pack writer produces is valid and readable. For any chunks of
  packable size with pairwise different digests, raw or compressed, the finished file
  passes the layout check, which returns exactly the written entries and the true body
  digest; it passes full verification; and every record reads back to the chunk added.
\<close>

theorem pack_roundtrip:
  assumes "flate_ok Z" and "cmp = None \<or> cmp = Some Z" and "list_all packable ds"
    and "distinct (map sha256 ds)" and "packBuilder_Finish False (packBuild cmp ds) = Some (f, es)"
    and "length f < 2 ^ 63"
  shows "readPackLayout f = Inr (es, sha256 (take (length f - packFooterSize) f))
    \<and> is_ok (verifyPackFile Z path f)
    \<and> map (readPackRecord Z f) es = map Inr ds"
  using packBuild_valid [OF assms] .

text \<open>
  Packed reads are never trusted. Whatever bytes a pack file holds and whatever a
  locator entry claims, a read that succeeds returns bytes whose SHA-256 is the requested
  digest and whose length is the recorded logical length, at most one CDC chunk.
\<close>

theorem packed_reads_are_verified:
  assumes "readPackRecord Z f e = Inr data"
  shows "sha256 data = pe_sha e \<and> length data = unat (pe_logical e)
    \<and> 0 < length data \<and> length data \<le> maxPackedChunkBytes"
  using readPackRecord_sound [OF assms] .

text \<open>A codec for concrete runs: a stored block is a marker byte followed by the data.\<close>

definition stored_flate :: flate_codec where
  "stored_flate = \<lparr>z_deflate = (\<lambda>d. 1 # d),
     z_inflate = (\<lambda>b. case b of [] \<Rightarrow> None | x # d \<Rightarrow> if x = 1 then Some (d, []) else None)\<rparr>"

lemma stored_flate_ok: "flate_ok stored_flate"
  by (simp add: flate_ok_def stored_flate_def)

theorem pack_roundtrip_witness:
  "\<exists>f es. packBuilder_Finish False (packBuild (Some stored_flate) [[7, 8, 9]]) = Some (f, es)
     \<and> map (readPackRecord stored_flate f) es = [Inr [7, 8, 9]]"
proof -
  obtain f es where f: "packBuilder_Finish False (packBuild (Some stored_flate) [[7, 8, 9]]) = Some (f, es)"
    by (auto simp: packBuilder_Finish_def Let_def)
  then have "length f < 2 ^ 63"
    by (auto simp: packBuilder_Finish_def packBuild_def packBuilder_Add_def newPackBuilder_def
        packEncode_def stored_flate_def Let_def)
  then have "map (readPackRecord stored_flate f) es = map Inr [[7, 8, 9]]"
    using pack_roundtrip [OF stored_flate_ok _ _ _ f, of "''p''"]
    by (simp add: packable_def maxPackedChunkBytes_def cdcMaxChunkSize_def)
  with f show ?thesis by auto
qed

theorem packed_reads_are_verified_witness:
  "\<exists>f e data. readPackRecord stored_flate f e = Inr data \<and> sha256 data = pe_sha e \<and> length data = 3"
proof -
  let ?b = "packBuild None [[7, 8, 9]]"
  have ok: "builder_ok stored_flate [[7, 8, 9]] ?b"
    using packBuild_ok [OF stored_flate_ok, of None "[[7, 8, 9]]"]
    by (simp add: packable_def maxPackedChunkBytes_def cdcMaxChunkSize_def)
  then obtain r where r: "pb_w ?b = putPackHeader @ r" "records_match stored_flate (pb_entries ?b) [[7, 8, 9]] r"
    and tl: "tiled packHeaderSize (pb_entries ?b)"
    by (auto simp: builder_ok_def)
  have "extent (pb_entries ?b) = 47"
    by (simp add: packBuild_def packBuilder_Add_def newPackBuilder_def packEncode_def packRecordHeaderSize_def Let_def)
  then have rd: "readPackRecord stored_flate (putPackHeader @ r @ []) (pb_entries ?b ! 0) = Inr [7, 8, 9]"
    using readPackRecord_at [OF r(2) tl, of putPackHeader 0 "[]"] by (simp add: packHeaderSize_def)
  have "length [7 :: byte, 8, 9] = 3" by simp
  with packed_reads_are_verified [OF rd] rd show ?thesis by blast
qed

lemma readPackLayout_footer:
  assumes "is_ok (readPackLayout f)"
  shows "packHeaderSize + packFooterSize \<le> length f"
    and "crc32c (take 60 (take packFooterSize (drop (length f - packFooterSize) f)))
      = get_le (drop 60 (take packFooterSize (drop (length f - packFooterSize) f)))"
  using assms unfolding readPackLayout_def Let_def
  by (auto simp only: not_less simp_thms sum.distinct split: if_split_asm)

text \<open>
  Damage to the footer is detected. If a file passes the layout check, then changing
  any single byte of its 64-byte footer makes the check fail.
\<close>

theorem pack_footer_damage_detected:
  assumes "is_ok (readPackLayout f)" and "i < packFooterSize"
    and "c \<noteq> f ! (length f - packFooterSize + i)"
  shows "\<not> is_ok (readPackLayout (f[length f - packFooterSize + i := c]))"
proof -
  let ?n = "length f - packFooterSize"
  let ?g = "f[?n + i := c]"
  define ft where "ft = drop ?n f"
  note big = readPackLayout_footer(1) [OF assms(1)]
  have len: "length ft = 64" using big by (simp add: ft_def packFooterSize_def)
  have ftg: "drop ?n ?g = ft[i := c]" by (simp add: ft_def drop_update_swap)
  have ci: "c \<noteq> ft ! i" using assms(3) big by (simp add: ft_def)
  have crc: "crc32c (take 60 ft) = get_le (drop 60 ft)"
    using readPackLayout_footer(2) [OF assms(1)] len by (simp add: ft_def packFooterSize_def)
  have bad: "crc32c (take 60 (ft[i := c])) \<noteq> get_le (drop 60 (ft[i := c]))"
  proof (cases "i < 60")
    case True
    then have "crc32c ((take 60 ft)[i := c]) \<noteq> crc32c (take 60 ft)"
      using ci len by (intro crc32c_update) simp_all
    with True crc show ?thesis by (simp add: take_update_swap)
  next
    case False
    have "drop 60 (ft[i := c]) \<noteq> drop 60 ft"
    proof
      assume "drop 60 (ft[i := c]) = drop 60 ft"
      then have "drop 60 (ft[i := c]) ! (i - 60) = drop 60 ft ! (i - 60)" by simp
      with False len assms(2) ci show False by (simp add: packFooterSize_def)
    qed
    then have "(get_le (drop 60 (ft[i := c])) :: u32) \<noteq> get_le (drop 60 ft)"
      using get_le32_inj [of "drop 60 (ft[i := c])" "drop 60 ft"] len by auto
    with False crc show ?thesis by simp
  qed
  have "take packFooterSize (drop (length ?g - packFooterSize) ?g) = ft[i := c]"
    unfolding length_list_update ftg using len by (simp add: packFooterSize_def)
  with bad readPackLayout_footer(2) [of ?g] show ?thesis by metis
qed

theorem pack_footer_damage_detected_witness:
  "\<exists>f es. packBuilder_Finish False (packBuild None [[7, 8, 9]]) = Some (f, es)
     \<and> \<not> is_ok (readPackLayout (f[length f - packFooterSize + 5 := f ! (length f - packFooterSize + 5) + 1]))"
proof -
  obtain f es where f: "packBuilder_Finish False (packBuild None [[7, 8, 9]]) = Some (f, es)"
    by (auto simp: packBuilder_Finish_def Let_def)
  then have "length f < 2 ^ 63"
    by (auto simp: packBuilder_Finish_def packBuild_def packBuilder_Add_def newPackBuilder_def
        packEncode_def Let_def)
  moreover have "builder_ok stored_flate [[7, 8, 9]] (packBuild None [[7, 8, 9]])"
    "distinct (map pe_sha (pb_entries (packBuild None [[7, 8, 9]])))"
    using packBuild_ok [OF stored_flate_ok, of None "[[7, 8, 9]]"]
    by (simp_all add: packable_def maxPackedChunkBytes_def cdcMaxChunkSize_def)
  ultimately have "is_ok (readPackLayout f)" using readPackLayout_finish f by blast
  then have "\<not> is_ok (readPackLayout (f[length f - packFooterSize + 5 := f ! (length f - packFooterSize + 5) + 1]))"
    by (rule pack_footer_damage_detected) (simp_all add: packFooterSize_def)
  with f show ?thesis by blast
qed

end
