(* ===== verification/Locator.thy ===== *)
theory Locator
  imports Pack "HOL-Library.Multiset" "HOL-Library.Product_Lexorder"
begin

text \<open>
  The in-memory chunk locator (\<^verbatim>\<open>zeros3.go\<close>, section 4b): the packed 52-byte records, their
  order, the in-place grouping sort, the index with its bucket table and binary search, and
  the snapshot of levels that lookups probe. Shown here: the bit packing loses nothing; the
  in-place permutation sorts; a lookup in an index finds the preferred copy of a digest
  exactly when the index holds one.
\<close>

section \<open>Records\<close>

definition tier_num :: "tier \<Rightarrow> nat" where
  "tier_num t = (case t of TierHot \<Rightarrow> 0 | TierWarm \<Rightarrow> 1 | TierCold \<Rightarrow> 2)"

definition packIdxBits :: nat where
  "packIdxBits = 30"

definition packIdxMask :: u32 where
  "packIdxMask = push_bit packIdxBits 1 - 1"

record locRec =
  lr_sum :: digest
  lr_pack :: u32
  lr_stored :: u32
  lr_lc :: u32
  lr_offLo :: u32
  lr_offHi :: u32

definition mkLocRec :: "packEntry \<Rightarrow> u32 \<Rightarrow> tier \<Rightarrow> locRec" where
  "mkLocRec e pk t =
     \<lparr>lr_sum = pe_sha e, lr_pack = push_bit packIdxBits (word_of_nat (tier_num t)) OR pk,
      lr_stored = pe_stored e, lr_lc = pe_logical e OR push_bit 24 (ucast (pe_codec e)),
      lr_offLo = ucast (pe_off e), lr_offHi = ucast (drop_bit 32 (pe_off e))\<rparr>"

definition lr_logical :: "locRec \<Rightarrow> u32" where
  "lr_logical r = lr_lc r AND (push_bit 24 1 - 1)"

definition lr_off :: "locRec \<Rightarrow> u64" where
  "lr_off r = push_bit 32 (ucast (lr_offHi r)) OR ucast (lr_offLo r)"

definition lr_tier :: "locRec \<Rightarrow> nat" where
  "lr_tier r = unat (drop_bit packIdxBits (lr_pack r))"

definition lr_packIdx :: "locRec \<Rightarrow> u32" where
  "lr_packIdx r = lr_pack r AND packIdxMask"

record packLoc =
  pl_pack :: nat
  pl_tier :: nat
  pl_codec :: byte
  pl_stored :: u32
  pl_logical :: u32
  pl_off :: u64

definition lr_loc :: "locRec \<Rightarrow> packLoc" where
  "lr_loc r =
     \<lparr>pl_pack = unat (lr_packIdx r), pl_tier = lr_tier r, pl_codec = ucast (drop_bit 24 (lr_lc r)),
      pl_stored = lr_stored r, pl_logical = lr_logical r, pl_off = lr_off r\<rparr>"

text \<open>\<^verbatim>\<open>bytes.Compare\<close> and \<^verbatim>\<open>cmp.Compare\<close>.\<close>

fun bytes_compare :: "bytes \<Rightarrow> bytes \<Rightarrow> int" where
  "bytes_compare [] [] = 0"
| "bytes_compare [] (_ # _) = -1"
| "bytes_compare (_ # _) [] = 1"
| "bytes_compare (x # xs) (y # ys) = (if x < y then -1 else if y < x then 1 else bytes_compare xs ys)"

definition cmp_compare :: "'a::linorder \<Rightarrow> 'a \<Rightarrow> int" where
  "cmp_compare x y = (if x < y then -1 else if y < x then 1 else 0)"

definition cmpLocRec :: "locRec \<Rightarrow> locRec \<Rightarrow> int" where
  "cmpLocRec a b =
     (let da = digest_bytes (lr_sum a); db = digest_bytes (lr_sum b);
          x = (get_be (take 8 da) :: u64); y = (get_be (take 8 db) :: u64) in
      if x \<noteq> y then cmp_compare x y
      else
        let c = bytes_compare (drop 8 da) (drop 8 db) in
        if c \<noteq> 0 then c
        else
          let c = cmp_compare (lr_pack a) (lr_pack b) in
          if c \<noteq> 0 then c else cmp_compare (lr_off a) (lr_off b))"

text \<open>The key the order compares: digest, then pack (with its tier on top), then offset.\<close>

definition locKey :: "locRec \<Rightarrow> digest \<times> u32 \<times> u64" where
  "locKey r = (lr_sum r, lr_pack r, lr_off r)"

section \<open>Grouping in place\<close>

text \<open>
  \<open>groupLocRecs\<close> counts the records of every group, turns the counts into group ends, and
  permutes the records in place: a record found in the wrong group is swapped to the next
  free place of its own. An index out of range would panic: \<open>None\<close>.
\<close>

definition topBits :: "nat \<Rightarrow> locRec \<Rightarrow> nat" where
  "topBits nb r = unat (drop_bit (32 - nb) (get_be (take 4 (digest_bytes (lr_sum r))) :: u32))"

definition countGroups :: "('a \<Rightarrow> nat) \<Rightarrow> nat \<Rightarrow> 'a list \<Rightarrow> nat list" where
  "countGroups tp k recs = foldl (\<lambda>e r. e[tp r + 1 := e ! (tp r + 1) + 1]) (replicate (k + 1) 0) recs"

fun prefixSums :: "nat \<Rightarrow> nat list \<Rightarrow> nat list" where
  "prefixSums acc [] = []"
| "prefixSums acc (x # xs) = (acc + x) # prefixSums (acc + x) xs"

definition groupEnds :: "('a \<Rightarrow> nat) \<Rightarrow> nat \<Rightarrow> 'a list \<Rightarrow> nat list" where
  "groupEnds tp k recs = prefixSums 0 (countGroups tp k recs)"

lemma next_decreases:
  assumes "d < length next" "next ! d < n"
  shows "sum_list (map ((-) n) (next[d := Suc (next ! d)])) < sum_list (map ((-) n) next)"
proof -
  have "next = take d next @ next ! d # drop (Suc d) next" using assms(1) by (rule id_take_nth_drop)
  then have "sum_list (map (\<lambda>x. n - x) next)
      = sum_list (map (\<lambda>x. n - x) (take d next)) + (n - next ! d) + sum_list (map (\<lambda>x. n - x) (drop (Suc d) next))"
    by (metis (no_types, lifting) add.assoc list.simps(9) map_append sum_list.Cons sum_list.append)
  moreover have "sum_list (map (\<lambda>x. n - x) (next[d := Suc (next ! d)]))
      = sum_list (map (\<lambda>x. n - x) (take d next)) + (n - Suc (next ! d)) + sum_list (map (\<lambda>x. n - x) (drop (Suc d) next))"
    using assms(1) by (simp add: upd_conv_take_nth_drop add.assoc)
  ultimately show ?thesis using assms(2) by linarith
qed

function permuteBucket ::
  "('a \<Rightarrow> nat) \<Rightarrow> nat \<Rightarrow> nat \<Rightarrow> 'a list \<Rightarrow> nat list \<Rightarrow> ('a list \<times> nat list) option" where
  "permuteBucket tp b fin recs next =
     (if \<not> b < length next then None
      else
        let i = next ! b in
        if \<not> i < fin then Some (recs, next)
        else if \<not> i < length recs then None
        else
          let d = tp (recs ! i) in
          if \<not> d < length next then None
          else if d \<noteq> b then
            let j = next ! d in
            if \<not> j < length recs then None
            else permuteBucket tp b fin (recs[i := recs ! j, j := recs ! i]) (next[d := j + 1])
          else permuteBucket tp b fin recs (next[b := i + 1]))"
  by pat_completeness auto
termination
  by (relation "measure (\<lambda>(tp, b, fin, recs, next). sum_list (map (\<lambda>x. length recs - x) next))")
     (auto intro!: next_decreases simp del: sum_list_update map_update)

declare permuteBucket.simps [simp del]

definition sortRange :: "nat \<Rightarrow> nat \<Rightarrow> locRec list \<Rightarrow> locRec list" where
  "sortRange lo hi recs = take lo recs @ sort_key locKey (take (hi - lo) (drop lo recs)) @ drop (max lo hi) recs"

fun groupBuckets ::
  "(locRec \<Rightarrow> nat) \<Rightarrow> nat list \<Rightarrow> nat list \<Rightarrow> locRec list \<Rightarrow> nat list \<Rightarrow> locRec list option" where
  "groupBuckets tp ends [] recs next = Some recs"
| "groupBuckets tp ends (b # bs) recs next =
     (case permuteBucket tp b (ends ! (b + 1)) recs next of
        None \<Rightarrow> None
      | Some (recs1, next1) \<Rightarrow>
          groupBuckets tp ends bs (sortRange (ends ! b) (ends ! (b + 1)) recs1) next1)"

definition groupLocRecs :: "locRec list \<Rightarrow> nat \<Rightarrow> locRec list option" where
  "groupLocRecs recs nb =
     (let ends = groupEnds (topBits nb) (2 ^ nb) recs
      in groupBuckets (topBits nb) ends [0..<2 ^ nb] recs (take (2 ^ nb) ends))"

subsection \<open>Group ends\<close>

lemma length_countGroups [simp]: "length (countGroups tp k recs) = k + 1"
  by (induction recs rule: rev_induct) (simp_all add: countGroups_def)

lemma countGroups_nth:
  "\<forall>r \<in> set recs. tp r < k \<Longrightarrow> c \<le> k
    \<Longrightarrow> countGroups tp k recs ! c = length (filter (\<lambda>r. tp r + 1 = c) recs)"
proof (induction recs rule: rev_induct)
  case Nil
  then show ?case by (cases c) (simp_all add: countGroups_def)
next
  case (snoc r recs)
  have s: "countGroups tp k (recs @ [r])
      = (countGroups tp k recs)[tp r + 1 := countGroups tp k recs ! (tp r + 1) + 1]"
    by (simp add: countGroups_def)
  show ?case unfolding s using snoc by (simp add: nth_list_update)
qed

lemma prefixSums_nth:
  "i < length xs \<Longrightarrow> prefixSums acc xs ! i = acc + sum_list (take (Suc i) xs)"
  by (induction acc xs arbitrary: i rule: prefixSums.induct) (auto simp: nth_Cons split: nat.splits)

lemma length_prefixSums [simp]: "length (prefixSums acc xs) = length xs"
  by (induction acc xs rule: prefixSums.induct) auto

definition below :: "('a \<Rightarrow> nat) \<Rightarrow> 'a list \<Rightarrow> nat \<Rightarrow> nat" where
  "below tp recs b = length (filter (\<lambda>r. tp r < b) recs)"

lemma below_Suc: "below tp recs (Suc b) = below tp recs b + length (filter (\<lambda>r. tp r = b) recs)"
  by (induction recs) (auto simp: below_def less_Suc_eq)

lemma below_0 [simp]: "below tp recs 0 = 0"
  by (simp add: below_def)

lemma below_mono: "a \<le> b \<Longrightarrow> below tp recs a \<le> below tp recs b"
  by (induction b) (auto simp: le_Suc_eq below_Suc)

lemma below_le: "below tp recs b \<le> length recs"
  by (simp add: below_def)

lemma groupEnds_nth:
  assumes "\<forall>r \<in> set recs. tp r < k" "b \<le> k"
  shows "groupEnds tp k recs ! b = below tp recs b"
proof -
  have "sum_list (take (Suc b) (countGroups tp k recs)) = below tp recs b"
    using assms(2)
  proof (induction b)
    case 0
    then show ?case
      using countGroups_nth [OF assms(1), of 0] by (cases "countGroups tp k recs") auto
  next
    case (Suc b)
    have "take (Suc (Suc b)) (countGroups tp k recs)
        = take (Suc b) (countGroups tp k recs) @ [countGroups tp k recs ! Suc b]"
      using Suc.prems by (intro take_Suc_conv_app_nth) simp
    then show ?case
      using Suc countGroups_nth [OF assms(1) Suc.prems] by (simp add: below_Suc)
  qed
  then show ?thesis using assms(2) by (simp add: groupEnds_def prefixSums_nth)
qed

lemma length_groupEnds [simp]: "length (groupEnds tp k recs) = k + 1"
  by (simp add: groupEnds_def)

subsection \<open>The permutation\<close>

text \<open>
  The invariant of the permutation, with \<open>E\<close> the group boundaries: the records are a
  permutation, and the part of every group up to its \<open>next\<close> already holds its own records.
\<close>

definition perm_inv :: "('a \<Rightarrow> nat) \<Rightarrow> nat \<Rightarrow> 'a list \<Rightarrow> 'a list \<Rightarrow> nat list \<Rightarrow> bool" where
  "perm_inv tp k recs0 recs next \<longleftrightarrow> mset recs = mset recs0 \<and> length next = k
     \<and> (\<forall>d < k. below tp recs0 d \<le> next ! d \<and> next ! d \<le> below tp recs0 (Suc d)
          \<and> (\<forall>i. below tp recs0 d \<le> i \<longrightarrow> i < next ! d \<longrightarrow> tp (recs ! i) = d))"

lemma card_nth_filter: "length (filter P xs) = card {i. i < length xs \<and> P (xs ! i)}"
  by (rule length_filter_conv_card)

lemma group_size:
  assumes "mset recs = mset recs0"
  shows "card {i. i < length recs \<and> tp (recs ! i) = d} = below tp recs0 (Suc d) - below tp recs0 d"
proof -
  have "length (filter (\<lambda>r. tp r = d) recs) = length (filter (\<lambda>r. tp r = d) recs0)"
    using assms by (metis mset_filter size_mset)
  then show ?thesis by (simp add: below_Suc length_filter_conv_card)
qed

text \<open>A record of group \<open>d\<close> outside the settled part of \<open>d\<close> means \<open>d\<close> is not full.\<close>

lemma room_left:
  assumes inv: "perm_inv tp k recs0 recs next" and "d < k" "i < length recs" "tp (recs ! i) = d"
    and out: "\<not> (below tp recs0 d \<le> i \<and> i < next ! d)"
  shows "next ! d < below tp recs0 (Suc d)"
proof -
  let ?S = "{i. i < length recs \<and> tp (recs ! i) = d}"
  have m: "mset recs = mset recs0"
    and d: "below tp recs0 d \<le> next ! d" "next ! d \<le> below tp recs0 (Suc d)"
    and own: "\<And>i. below tp recs0 d \<le> i \<Longrightarrow> i < next ! d \<Longrightarrow> tp (recs ! i) = d"
    using inv assms(2) by (auto simp: perm_inv_def)
  have len: "length recs = length recs0" using m by (metis size_mset)
  have "next ! d \<le> length recs" using d(2) below_le [of tp recs0 "Suc d"] len by simp
  then have "insert i {below tp recs0 d..<next ! d} \<subseteq> ?S"
    using own assms(3,4) by auto
  then have "card (insert i {below tp recs0 d..<next ! d}) \<le> card ?S"
    by (intro card_mono) auto
  moreover have "card (insert i {below tp recs0 d..<next ! d}) = Suc (next ! d - below tp recs0 d)"
    using out by (subst card_insert_disjoint) auto
  ultimately show ?thesis using group_size [OF m, of tp d] d by simp
qed

lemma mset_swap2:
  assumes "i < length xs" "j < length xs"
  shows "mset (xs[i := xs ! j, j := xs ! i]) = mset xs"
  by (rule mset_swap [OF assms(2,1)])

lemma groups_disjoint:
  assumes "below tp recs0 c \<le> i" "i < below tp recs0 (Suc c)" "below tp recs0 d \<le> i" "i < below tp recs0 (Suc d)"
  shows "c = d"
proof (rule ccontr)
  assume "c \<noteq> d"
  then consider "Suc c \<le> d" | "Suc d \<le> c" by linarith
  then show False
    using below_mono [of "Suc c" d tp recs0] below_mono [of "Suc d" c tp recs0] assms by cases auto
qed

text \<open>The settled places of all groups hold the same records in both lists.\<close>

definition settled :: "('a \<Rightarrow> nat) \<Rightarrow> nat \<Rightarrow> 'a list \<Rightarrow> nat list \<Rightarrow> 'a list \<Rightarrow> 'a list \<Rightarrow> bool" where
  "settled tp k recs0 next recs recs' \<longleftrightarrow>
     (\<forall>c < k. \<forall>p. below tp recs0 c \<le> p \<longrightarrow> p < next ! c \<longrightarrow> recs' ! p = recs ! p)"

lemma settled_refl [simp]: "settled tp k recs0 next recs recs"
  by (simp add: settled_def)

lemma settled_trans:
  assumes "settled tp k recs0 next recs recs1" "settled tp k recs0 next1 recs1 recs2"
    and "\<And>c. c < k \<Longrightarrow> next ! c \<le> next1 ! c"
  shows "settled tp k recs0 next recs recs2"
  using assms unfolding settled_def by (metis order_less_le_trans)

lemma perm_inv_advance:
  assumes inv: "perm_inv tp k recs0 recs next" and b: "b < k" "next ! b < below tp recs0 (Suc b)"
    and own: "tp (recs ! (next ! b)) = b"
  shows "perm_inv tp k recs0 recs (next[b := Suc (next ! b)])"
  using inv b own by (auto simp: perm_inv_def nth_list_update less_Suc_eq)

lemma perm_inv_swap:
  assumes inv: "perm_inv tp k recs0 recs next" and b: "b < k" "next ! b < below tp recs0 (Suc b)"
    and d: "d < k" "tp (recs ! (next ! b)) = d" "d \<noteq> b"
  shows "next ! d < length recs
    \<and> perm_inv tp k recs0 (recs[next ! b := recs ! (next ! d), next ! d := recs ! (next ! b)]) (next[d := Suc (next ! d)])
    \<and> settled tp k recs0 next recs (recs[next ! b := recs ! (next ! d), next ! d := recs ! (next ! b)])"
proof -
  let ?i = "next ! b" and ?j = "next ! d"
  let ?recs = "recs[?i := recs ! ?j, ?j := recs ! ?i]"
  have m: "mset recs = mset recs0" and len: "length next = k"
    and own: "\<And>c i. c < k \<Longrightarrow> below tp recs0 c \<le> i \<Longrightarrow> i < next ! c \<Longrightarrow> tp (recs ! i) = c"
    and rng: "\<And>c. c < k \<Longrightarrow> below tp recs0 c \<le> next ! c \<and> next ! c \<le> below tp recs0 (Suc c)"
    using inv by (auto simp: perm_inv_def)
  have lr: "length recs = length recs0" using m by (metis size_mset)
  have il: "?i < length recs" using b(2) below_le [of tp recs0 "Suc b"] lr by simp
  have out: "\<not> (below tp recs0 d \<le> ?i \<and> ?i < ?j)"
  proof
    assume a: "below tp recs0 d \<le> ?i \<and> ?i < ?j"
    then have "?i < below tp recs0 (Suc d)" using rng [OF d(1)] by simp
    with a groups_disjoint [of tp recs0 b ?i d] rng [OF b(1)] b(2) d(3) show False by simp
  qed
  have room: "?j < below tp recs0 (Suc d)" by (rule room_left [OF inv d(1) il d(2) out])
  then have jl: "?j < length recs" using below_le [of tp recs0 "Suc d"] lr by simp
  have same: "p \<noteq> ?i \<and> p \<noteq> ?j" if c: "c < k" "below tp recs0 c \<le> p" "p < next ! c" for c p
  proof -
    have pc: "p < below tp recs0 (Suc c)" using c(3) rng [OF c(1)] by simp
    have "p \<noteq> ?i"
    proof
      assume "p = ?i"
      with groups_disjoint [of tp recs0 c p b] c(2) pc rng [OF b(1)] b(2) have "c = b" by simp
      with c(3) \<open>p = ?i\<close> show False by simp
    qed
    moreover have "p \<noteq> ?j"
    proof
      assume "p = ?j"
      with groups_disjoint [of tp recs0 c p d] c(2) pc rng [OF d(1)] room have "c = d" by simp
      with c(3) \<open>p = ?j\<close> show False by simp
    qed
    ultimately show ?thesis ..
  qed
  have keep: "tp (?recs ! p) = c"
    if c: "c < k" "below tp recs0 c \<le> p" "p < next[d := Suc ?j] ! c" for c p
  proof (cases "p = ?j")
    case True
    then have "tp (?recs ! p) = d" using jl d(2) by simp
    moreover have "c = d"
    proof (rule ccontr)
      assume "c \<noteq> d"
      with c have "p < next ! c" by simp
      with rng [OF c(1)] have "p < below tp recs0 (Suc c)" by simp
      with groups_disjoint [of tp recs0 c p d] c(2) rng [OF d(1)] room True \<open>c \<noteq> d\<close> show False by simp
    qed
    ultimately show ?thesis by simp
  next
    case False
    then have p: "p < next ! c" using c len d(1) by (auto simp: nth_list_update split: if_splits)
    with same [OF c(1,2) p] have "?recs ! p = recs ! p" by simp
    with own [OF c(1,2) p] show ?thesis by simp
  qed
  have "mset ?recs = mset recs0" using mset_swap2 [OF il jl] m by simp
  moreover have "below tp recs0 c \<le> next[d := Suc ?j] ! c \<and> next[d := Suc ?j] ! c \<le> below tp recs0 (Suc c)"
    if "c < k" for c
    using rng [OF that] rng [OF d(1)] room len d(1) by (auto simp: nth_list_update)
  moreover have "settled tp k recs0 next recs ?recs"
    unfolding settled_def using same by (metis nth_list_update_neq)
  ultimately show ?thesis using keep jl len by (simp add: perm_inv_def)
qed

lemma permuteBucket_correct:
  assumes "perm_inv tp k recs0 recs next" "b < k" "\<forall>r \<in> set recs0. tp r < k"
  shows "\<exists>recs' next'. permuteBucket tp b (below tp recs0 (Suc b)) recs next = Some (recs', next')
    \<and> perm_inv tp k recs0 recs' next' \<and> next' ! b = below tp recs0 (Suc b)
    \<and> (\<forall>c < k. next ! c \<le> next' ! c) \<and> settled tp k recs0 next recs recs'"
  using assms
proof (induction tp b "below tp recs0 (Suc b)" recs "next" rule: permuteBucket.induct)
  case (1 tp b recs "next")
  let ?i = "next ! b" and ?fin = "below tp recs0 (Suc b)"
  note inv = 1(3) and b = 1(4) and lt = 1(5)
  have len: "length next = k" and m: "mset recs = mset recs0" and le: "?i \<le> ?fin"
    using inv b by (auto simp: perm_inv_def)
  have lr: "length recs = length recs0" using m by (metis size_mset)
  have bl: "\<not> \<not> b < length next" using len b by simp
  show ?case
  proof (cases "?i < ?fin")
    case False
    then show ?thesis
      using inv b len le by (subst permuteBucket.simps) (auto simp: Let_def)
  next
    case True
    then have il: "?i < length recs" using below_le [of tp recs0 "Suc b"] lr by simp
    define d where "d = tp (recs ! ?i)"
    have "recs ! ?i \<in> set recs0" using il m by (metis nth_mem set_mset_mset)
    then have dk: "d < k" using lt by (simp add: d_def)
    then have dl: "d < length next" using len by simp
    show ?thesis
    proof (cases "d = b")
      case own: True
      have inv': "perm_inv tp k recs0 recs (next[b := Suc ?i])"
        using perm_inv_advance [OF inv b True] own by (simp add: d_def)
      have IH: "\<exists>recs' next'. permuteBucket tp b ?fin recs (next[b := ?i + 1]) = Some (recs', next')
          \<and> perm_inv tp k recs0 recs' next' \<and> next' ! b = ?fin \<and> (\<forall>c < k. next[b := ?i + 1] ! c \<le> next' ! c)
          \<and> settled tp k recs0 (next[b := ?i + 1]) recs recs'"
        by (rule 1(2) [OF bl refl]) (use True il dl own inv' b lt in \<open>simp_all add: d_def\<close>)
      have eq: "permuteBucket tp b ?fin recs next = permuteBucket tp b ?fin recs (next[b := ?i + 1])"
        using True il dl own len b by (subst permuteBucket.simps) (simp add: Let_def d_def)
      have up: "next ! c \<le> next[b := ?i + 1] ! c" if "c < k" for c
        using that len b by (simp add: nth_list_update)
      have "settled tp k recs0 next recs recs" by (simp add: settled_def)
      note tr = settled_trans [OF this _ up]
      show ?thesis using IH up tr unfolding eq by (meson order_trans)
    next
      case False
      let ?j = "next ! d"
      let ?recs = "recs[?i := recs ! ?j, ?j := recs ! ?i]"
      have sw: "?j < length recs" "perm_inv tp k recs0 ?recs (next[d := Suc ?j])" "settled tp k recs0 next recs ?recs"
        using perm_inv_swap [OF inv b True dk] False by (simp_all add: d_def)
      have IH: "\<exists>recs' next'. permuteBucket tp b ?fin ?recs (next[d := ?j + 1]) = Some (recs', next')
          \<and> perm_inv tp k recs0 recs' next' \<and> next' ! b = ?fin \<and> (\<forall>c < k. next[d := ?j + 1] ! c \<le> next' ! c)
          \<and> settled tp k recs0 (next[d := ?j + 1]) ?recs recs'"
        by (rule 1(1) [OF bl refl]) (use True il dl False sw b lt in \<open>simp_all add: d_def\<close>)
      have eq: "permuteBucket tp b ?fin recs next = permuteBucket tp b ?fin ?recs (next[d := ?j + 1])"
        using True il dl False len b sw(1) by (subst permuteBucket.simps) (simp add: Let_def d_def)
      have up: "next ! c \<le> next[d := ?j + 1] ! c" if "c < k" for c
        using that dl by (simp add: nth_list_update)
      note tr = settled_trans [OF sw(3) _ up]
      show ?thesis using IH up tr unfolding eq by (meson order_trans)
    qed
  qed
qed

subsection \<open>Sorting the groups\<close>

lemma length_perm: "perm_inv tp k recs0 recs next \<Longrightarrow> length recs = length recs0"
  unfolding perm_inv_def by (metis size_mset)

lemma mset_sortRange: "lo \<le> hi \<Longrightarrow> mset (sortRange lo hi recs) = mset recs"
proof -
  assume "lo \<le> hi"
  then have "drop hi recs = drop (hi - lo) (drop lo recs)" by simp
  then have "mset (sortRange lo hi recs)
      = mset (take lo recs) + (mset (take (hi - lo) (drop lo recs)) + mset (drop (hi - lo) (drop lo recs)))"
    using \<open>lo \<le> hi\<close> by (simp add: sortRange_def max_def)
  also have "\<dots> = mset recs" by (metis append_take_drop_id mset_append)
  finally show ?thesis .
qed

lemma sortRange_outside:
  assumes "lo \<le> hi" "hi \<le> length recs" "p < lo \<or> hi \<le> p"
  shows "sortRange lo hi recs ! p = recs ! p"
proof -
  let ?pre = "take lo recs @ sort_key locKey (take (hi - lo) (drop lo recs))"
  have s: "sortRange lo hi recs = ?pre @ drop hi recs" using assms(1) by (simp add: sortRange_def max_def)
  have l: "length ?pre = hi" using assms(1,2) by simp
  from assms(3) show ?thesis
  proof
    assume "p < lo"
    then have "sortRange lo hi recs ! p = take lo recs ! p"
      using assms(1,2) unfolding s by (simp add: nth_append)
    then show ?thesis using \<open>p < lo\<close> by simp
  next
    assume "hi \<le> p"
    have "sortRange lo hi recs ! p = drop hi recs ! (p - hi)"
      unfolding s nth_append l using \<open>hi \<le> p\<close> by simp
    then show ?thesis using \<open>hi \<le> p\<close> assms(2) by simp
  qed
qed

lemma sortRange_slice:
  assumes "lo \<le> hi" "hi \<le> length recs"
  shows "take (hi - lo) (drop lo (sortRange lo hi recs)) = sort_key locKey (take (hi - lo) (drop lo recs))"
  using assms by (simp add: sortRange_def min_def)

lemma sortRange_inside:
  assumes "lo \<le> hi" "hi \<le> length recs" "lo \<le> p" "p < hi"
  shows "\<exists>q. lo \<le> q \<and> q < hi \<and> sortRange lo hi recs ! p = recs ! q"
proof -
  have l: "length (sortRange lo hi recs) = length recs"
    using mset_sortRange [OF assms(1)] by (metis size_mset)
  have "sortRange lo hi recs ! p = take (hi - lo) (drop lo (sortRange lo hi recs)) ! (p - lo)"
    using assms l by simp
  also have "\<dots> = sort_key locKey (take (hi - lo) (drop lo recs)) ! (p - lo)"
    by (simp only: sortRange_slice [OF assms(1,2)])
  also have "\<dots> \<in> set (take (hi - lo) (drop lo recs))"
    using assms by (metis diff_less_mono length_drop length_sort length_take min.absorb2 nth_mem set_sort
        diff_le_mono)
  finally obtain j where "j < hi - lo" "sortRange lo hi recs ! p = recs ! (lo + j)"
    using assms by (auto simp: in_set_conv_nth)
  then show ?thesis by (intro exI [of _ "lo + j"]) auto
qed

definition group_sorted :: "(locRec \<Rightarrow> nat) \<Rightarrow> locRec list \<Rightarrow> locRec list \<Rightarrow> nat \<Rightarrow> bool" where
  "group_sorted tp recs0 recs c \<longleftrightarrow>
     sorted (map locKey (take (below tp recs0 (Suc c) - below tp recs0 c) (drop (below tp recs0 c) recs)))"

lemma slice_cong:
  assumes "length xs = length ys" "\<And>p. lo \<le> p \<Longrightarrow> p < hi \<Longrightarrow> xs ! p = ys ! p"
  shows "take (hi - lo) (drop lo xs) = take (hi - lo) (drop lo ys)"
  using assms by (intro nth_equalityI) auto

lemma groupBuckets_correct:
  assumes "perm_inv tp k recs0 recs next" "\<forall>r \<in> set recs0. tp r < k" "a \<le> k"
    and "\<And>c. c < a \<Longrightarrow> next ! c = below tp recs0 (Suc c) \<and> group_sorted tp recs0 recs c"
    and "\<And>b. b \<le> k \<Longrightarrow> ends ! b = below tp recs0 b"
  shows "\<exists>recs' next'. groupBuckets tp ends [a..<k] recs next = Some recs' \<and> perm_inv tp k recs0 recs' next'
    \<and> (\<forall>c < k. next' ! c = below tp recs0 (Suc c) \<and> group_sorted tp recs0 recs' c)"
  using assms
proof (induction "k - a" arbitrary: a recs "next")
  case 0
  then show ?case by auto
next
  case (Suc n)
  then have ak: "a < k" by simp
  let ?lo = "below tp recs0 a" and ?hi = "below tp recs0 (Suc a)"
  obtain recs1 next1 where p: "permuteBucket tp a ?hi recs next = Some (recs1, next1)"
    and inv1: "perm_inv tp k recs0 recs1 next1" and fin: "next1 ! a = ?hi"
    and up: "\<And>c. c < k \<Longrightarrow> next ! c \<le> next1 ! c" and st: "settled tp k recs0 next recs recs1"
    using permuteBucket_correct [OF Suc.prems(1) ak Suc.prems(2)] by blast
  let ?recs2 = "sortRange ?lo ?hi recs1"
  have lh: "?lo \<le> ?hi" by (simp add: below_mono)
  have l1: "length recs1 = length recs0" "length recs = length recs0"
    using length_perm [OF inv1] length_perm [OF Suc.prems(1)] .
  then have hl: "?hi \<le> length recs1" using below_le [of tp recs0 "Suc a"] by simp
  have m2: "mset ?recs2 = mset recs1" by (rule mset_sortRange [OF lh])
  have full: "next1 ! c = below tp recs0 (Suc c)" if "c < a" for c
  proof -
    have "next1 ! c \<le> below tp recs0 (Suc c)" using inv1 that ak by (simp add: perm_inv_def)
    then show ?thesis using Suc.prems(4) [OF that] up [of c] that ak by simp
  qed
  have other: "?recs2 ! q = recs1 ! q" if "c < k" "c \<noteq> a" "below tp recs0 c \<le> q" "q < below tp recs0 (Suc c)" for c q
  proof (rule sortRange_outside [OF lh hl])
    show "q < ?lo \<or> ?hi \<le> q" using groups_disjoint [of tp recs0 c q a] that by linarith
  qed
  have tp2: "tp (?recs2 ! q) = c" if q: "c < k" "below tp recs0 c \<le> q" "q < next1 ! c" for c q
  proof -
    have own: "\<And>c q. c < k \<Longrightarrow> below tp recs0 c \<le> q \<Longrightarrow> q < next1 ! c \<Longrightarrow> tp (recs1 ! q) = c"
      and le: "next1 ! c \<le> below tp recs0 (Suc c)"
      using inv1 q(1) by (auto simp: perm_inv_def)
    show ?thesis
    proof (cases "c = a")
      case True
      then obtain q' where "?lo \<le> q'" "q' < ?hi" "?recs2 ! q = recs1 ! q'"
        using sortRange_inside [OF lh hl, of q] q fin by auto
      then show ?thesis using own [of a q'] ak fin True by simp
    next
      case False
      then show ?thesis using other [of c q] own [OF q] q le by simp
    qed
  qed
  have inv2: "perm_inv tp k recs0 ?recs2 next1" using inv1 m2 tp2 by (simp add: perm_inv_def)
  have gs: "next1 ! c = below tp recs0 (Suc c) \<and> group_sorted tp recs0 ?recs2 c" if c: "c < Suc a" for c
  proof (cases "c = a")
    case True
    then show ?thesis
      using fin sortRange_slice [OF lh hl] by (simp add: group_sorted_def sorted_sort_key)
  next
    case False
    then have ca: "c < a" using c by simp
    have "?recs2 ! q = recs ! q" if "below tp recs0 c \<le> q" "q < below tp recs0 (Suc c)" for q
      using other [of c q] st [unfolded settled_def, rule_format, of c q] ca ak that Suc.prems(4) [OF ca] by simp
    moreover have "length ?recs2 = length recs" using m2 l1 by (metis size_mset)
    ultimately have "take (below tp recs0 (Suc c) - below tp recs0 c) (drop (below tp recs0 c) ?recs2)
        = take (below tp recs0 (Suc c) - below tp recs0 c) (drop (below tp recs0 c) recs)"
      by (intro slice_cong) auto
    then show ?thesis using full [OF ca] Suc.prems(4) [OF ca] by (simp add: group_sorted_def)
  qed
  have IH: "\<exists>recs' next'. groupBuckets tp ends [Suc a..<k] ?recs2 next1 = Some recs' \<and> perm_inv tp k recs0 recs' next'
    \<and> (\<forall>c < k. next' ! c = below tp recs0 (Suc c) \<and> group_sorted tp recs0 recs' c)"
    using Suc.hyps(2) ak by (intro Suc.hyps(1) inv2 Suc.prems(2,5) gs) simp_all
  have "[a..<k] = a # [Suc a..<k]" using ak by (rule upt_conv_Cons)
  then show ?case using IH p Suc.prems(5) [of a] Suc.prems(5) [of "Suc a"] ak by simp
qed

subsection \<open>The result is sorted\<close>

lemma be_val_append: "be_val (xs @ ys) = be_val xs * 256 ^ length ys + be_val ys"
proof (induction ys rule: rev_induct)
  case (snoc y ys)
  have "be_val (xs @ ys @ [y]) = be_val ((xs @ ys) @ [y])" by simp
  also have "\<dots> = (be_val xs * 256 ^ length ys + be_val ys) * 256 + unat y" by (simp only: be_val_snoc snoc)
  finally show ?case by (simp add: algebra_simps)
qed simp

lemma be_val_take: "n \<le> length bs \<Longrightarrow> be_val (take n bs) = be_val bs div 256 ^ (length bs - n)"
proof -
  assume "n \<le> length bs"
  have "be_val bs = be_val (take n bs) * 256 ^ length (drop n bs) + be_val (drop n bs)"
    by (metis append_take_drop_id be_val_append)
  moreover have "be_val (drop n bs) < 256 ^ length (drop n bs)" by (rule be_val_less)
  ultimately show ?thesis by simp
qed

lemma digest_val: "be_val (digest_bytes d) = unat d"
proof -
  have "unat d < 2 ^ LENGTH(256)" by (rule unsigned_less)
  then have "unat d mod 256 ^ 32 = unat d" by simp
  then show ?thesis by (simp only: digest_bytes_def put_be_def be_val_be_nat)
qed

lemma topBits_val:
  assumes "nb \<le> 32"
  shows "topBits nb r = unat (lr_sum r) div 256 ^ 28 div 2 ^ (32 - nb)"
proof -
  have "be_val (take 4 (digest_bytes (lr_sum r))) = unat (lr_sum r) div 256 ^ 28"
    using be_val_take [of 4 "digest_bytes (lr_sum r)"] digest_val [of "lr_sum r"] by simp
  moreover have "be_val (take 4 (digest_bytes (lr_sum r))) < 256 ^ 4"
    using be_val_less [of "take 4 (digest_bytes (lr_sum r))"] by simp
  ultimately have "unat (get_be (take 4 (digest_bytes (lr_sum r))) :: u32) = unat (lr_sum r) div 256 ^ 28"
    by (simp add: get_be_def unat_of_nat take_bit_nat_eq_self)
  then show ?thesis unfolding topBits_def unat_drop_bit_eq by (simp only: drop_bit_eq_div)
qed

lemma topBits_less: "nb \<le> 32 \<Longrightarrow> topBits nb r < 2 ^ nb"
proof -
  assume nb: "nb \<le> 32"
  have "unat (get_be (take 4 (digest_bytes (lr_sum r))) :: u32) < 2 ^ LENGTH(32)" by (rule unsigned_less)
  moreover have "(2 :: nat) ^ LENGTH(32) = 2 ^ (32 - nb) * 2 ^ nb" using nb by (simp flip: power_add)
  ultimately have "unat (get_be (take 4 (digest_bytes (lr_sum r))) :: u32) < 2 ^ nb * 2 ^ (32 - nb)"
    by (simp add: mult.commute)
  then show ?thesis
    unfolding topBits_def unat_drop_bit_eq by (simp add: drop_bit_eq_div less_mult_imp_div_less)
qed

lemma topBits_mono:
  assumes "nb \<le> 32" "topBits nb r < topBits nb r'"
  shows "locKey r < locKey r'"
proof -
  have "lr_sum r < lr_sum r'"
  proof (rule ccontr)
    assume "\<not> lr_sum r < lr_sum r'"
    then have "unat (lr_sum r') \<le> unat (lr_sum r)" by (simp add: not_less word_le_nat_alt)
    then have "topBits nb r' \<le> topBits nb r"
      unfolding topBits_val [OF assms(1)] by (intro div_le_mono)
    with assms(2) show False by simp
  qed
  then show ?thesis by (simp add: locKey_def less_prod_def')
qed

text \<open>The group a position belongs to.\<close>

lemma find_group:
  assumes "p < below tp recs0 k"
  shows "\<exists>c < k. below tp recs0 c \<le> p \<and> p < below tp recs0 (Suc c)"
  using assms
proof (induction k)
  case (Suc k)
  show ?case
  proof (cases "p < below tp recs0 k")
    case True
    with Suc show ?thesis using less_SucI by blast
  next
    case False
    with Suc.prems show ?thesis by (intro exI [of _ k]) simp
  qed
qed simp

lemma groups_sorted:
  assumes inv: "perm_inv tp k recs0 recs next" and lt: "\<forall>r \<in> set recs0. tp r < k"
    and gs: "\<And>c. c < k \<Longrightarrow> next ! c = below tp recs0 (Suc c) \<and> group_sorted tp recs0 recs c"
    and mono: "\<And>r r'. tp r < tp r' \<Longrightarrow> locKey r < locKey r'"
  shows "sorted (map locKey recs)"
proof -
  have len: "length recs = length recs0" by (rule length_perm [OF inv])
  have all: "below tp recs0 k = length recs0" using lt by (simp add: below_def)
  have own: "tp (recs ! p) = c" if "c < k" "below tp recs0 c \<le> p" "p < below tp recs0 (Suc c)" for c p
    using inv gs [OF that(1)] that by (simp add: perm_inv_def)
  have "locKey (recs ! p) \<le> locKey (recs ! q)" if pq: "p \<le> q" "q < length recs" for p q
  proof -
    obtain c where c: "c < k" "below tp recs0 c \<le> p" "p < below tp recs0 (Suc c)"
      using find_group [of p tp recs0 k] pq len all by auto
    obtain d where d: "d < k" "below tp recs0 d \<le> q" "q < below tp recs0 (Suc d)"
      using find_group [of q tp recs0 k] pq len all by auto
    show ?thesis
    proof (cases "c = d")
      case True
      let ?s = "take (below tp recs0 (Suc c) - below tp recs0 c) (drop (below tp recs0 c) recs)"
      have "sorted (map locKey ?s)" using gs [OF c(1)] by (simp add: group_sorted_def)
      then have "map locKey ?s ! (p - below tp recs0 c) \<le> map locKey ?s ! (q - below tp recs0 c)"
        using pq d True by (intro sorted_nth_mono) auto
      moreover have "map locKey ?s ! (x - below tp recs0 c) = locKey (recs ! x)"
        if "below tp recs0 c \<le> x" "x < below tp recs0 (Suc c)" "x < length recs" for x
        using that by (subst nth_map) (auto simp: less_diff_conv2)
      ultimately show ?thesis using c d True pq by auto
    next
      case False
      have "c < d"
      proof (rule ccontr)
        assume "\<not> c < d"
        with False have "Suc d \<le> c" by simp
        from below_mono [OF this, of tp recs0] c(2) d(3) pq(1) show False by simp
      qed
      with own [OF c] own [OF d] show ?thesis using mono [of "recs ! p" "recs ! q"] by simp
    qed
  qed
  then show ?thesis by (simp add: sorted_iff_nth_mono)
qed

lemma groupLocRecs_sorts:
  assumes "nb \<le> 32"
  shows "\<exists>recs'. groupLocRecs recs nb = Some recs' \<and> mset recs' = mset recs \<and> sorted (map locKey recs')"
proof -
  let ?tp = "topBits nb" and ?k = "2 ^ nb :: nat"
  have lt: "\<forall>r \<in> set recs. ?tp r < ?k" using topBits_less [OF assms] by simp
  have ends: "groupEnds ?tp ?k recs ! b = below ?tp recs b" if "b \<le> ?k" for b
    by (rule groupEnds_nth [OF lt that])
  have inv: "perm_inv ?tp ?k recs recs (take ?k (groupEnds ?tp ?k recs))"
    using ends by (simp add: perm_inv_def below_mono)
  obtain recs' next' where "groupLocRecs recs nb = Some recs'" and inv': "perm_inv ?tp ?k recs recs' next'"
    and "\<And>c. c < ?k \<Longrightarrow> next' ! c = below ?tp recs (Suc c) \<and> group_sorted ?tp recs recs' c"
    using groupBuckets_correct [OF inv lt, of 0 "groupEnds ?tp ?k recs"] ends
    by (auto simp: groupLocRecs_def Let_def)
  moreover from this have "sorted (map locKey recs')"
    using groups_sorted [OF inv' lt] topBits_mono [OF assms] by blast
  ultimately show ?thesis using inv' by (auto simp: perm_inv_def)
qed

section \<open>The index\<close>

record locIndex =
  ix_recs :: "locRec list"
  ix_dups :: "locRec list"
  ix_tbl :: "nat list"
  ix_shift :: nat

definition ix_size :: "locIndex \<Rightarrow> nat" where
  "ix_size ix = length (ix_recs ix) + length (ix_dups ix)"

text \<open>\<^verbatim>\<open>bits.Len\<close>.\<close>

fun bits_Len :: "nat \<Rightarrow> nat" where
  "bits_Len n = (if n = 0 then 0 else Suc (bits_Len (n div 2)))"

declare bits_Len.simps [simp del]

definition locGroupBits :: nat where
  "locGroupBits = 12"

text \<open>
  The compaction loop: the first record of a digest stays, a repeat of the same length goes
  to the duplicates and one that contradicts it is reported to \<open>onClash\<close>.
\<close>

fun splitPrimaries ::
  "locRec list \<Rightarrow> locRec list \<Rightarrow> (locRec \<times> locRec) list \<Rightarrow> locRec list
    \<Rightarrow> locRec list \<times> locRec list \<times> (locRec \<times> locRec) list" where
  "splitPrimaries prim dups clash [] = (prim, dups, clash)"
| "splitPrimaries prim dups clash (r # rs) =
     (if prim \<noteq> [] \<and> lr_sum (last prim) = lr_sum r then
        if lr_logical (last prim) \<noteq> lr_logical r
        then splitPrimaries prim dups (clash @ [(last prim, r)]) rs
        else splitPrimaries prim (dups @ [r]) clash rs
      else splitPrimaries (prim @ [r]) dups clash rs)"

fun tableLoop :: "(locRec \<Rightarrow> nat) \<Rightarrow> locRec list \<Rightarrow> nat \<Rightarrow> nat list \<Rightarrow> nat list" where
  "tableLoop tp recs j [] = []"
| "tableLoop tp recs j (b # bs) =
     j # tableLoop tp recs (j + length (takeWhile (\<lambda>r. tp r = b) (drop j recs))) bs"

definition buildLocIndex :: "locRec list \<Rightarrow> (locIndex \<times> (locRec \<times> locRec) list) option" where
  "buildLocIndex recs =
     (let nb = min (bits_Len (length recs div 4)) 24 in
      case groupLocRecs recs (min nb locGroupBits) of
        None \<Rightarrow> None
      | Some sorted_recs \<Rightarrow>
          let (prim, dups, clash) = splitPrimaries [] [] [] sorted_recs in
          Some (\<lparr>ix_recs = prim, ix_dups = dups,
                 ix_tbl = tableLoop (topBits nb) prim 0 [0..<2 ^ nb] @ [length prim],
                 ix_shift = 32 - nb\<rparr>, clash))"

definition mergeLocIndex :: "locIndex \<Rightarrow> locIndex \<Rightarrow> (locIndex \<times> (locRec \<times> locRec) list) option" where
  "mergeLocIndex a b = buildLocIndex (ix_recs a @ ix_dups a @ ix_recs b @ ix_dups b)"

function locSearch :: "locRec list \<Rightarrow> digest \<Rightarrow> nat \<Rightarrow> nat \<Rightarrow> locRec option" where
  "locSearch recs dg lo hi =
     (if lo < hi then
        let m = (lo + hi) div 2;
            c = bytes_compare (digest_bytes (lr_sum (recs ! m))) (digest_bytes dg)
        in if c < 0 then locSearch recs dg (m + 1) hi
           else if c > 0 then locSearch recs dg lo m
           else Some (recs ! m)
      else None)"
  by pat_completeness auto
termination
  by (relation "measure (\<lambda>(recs, dg, lo, hi). hi - lo)") auto

declare locSearch.simps [simp del]

definition locFind :: "locIndex \<Rightarrow> digest \<Rightarrow> locRec option" where
  "locFind ix dg =
     (let b = unat (drop_bit (ix_shift ix) (get_be (take 4 (digest_bytes dg)) :: u32))
      in locSearch (ix_recs ix) dg (ix_tbl ix ! b) (ix_tbl ix ! (b + 1)))"

definition dupsOf :: "locIndex \<Rightarrow> digest \<Rightarrow> locRec list" where
  "dupsOf ix dg =
     takeWhile (\<lambda>r. lr_sum r = dg) (dropWhile (\<lambda>r. bytes_compare (digest_bytes (lr_sum r)) (digest_bytes dg) < 0) (ix_dups ix))"

section \<open>Lookup\<close>

lemma digit_less: "a < b \<Longrightarrow> v < n \<Longrightarrow> a * n + v < b * n + (w :: nat)"
proof -
  assume "a < b" "v < n"
  then have "a * n + v < Suc a * n" by simp
  also have "\<dots> \<le> b * n" using \<open>a < b\<close> by (intro mult_le_mono1) simp
  finally show ?thesis by simp
qed

lemma bytes_compare_val:
  "length xs = length ys \<Longrightarrow> bytes_compare xs ys
    = (if be_val xs < be_val ys then -1 else if be_val ys < be_val xs then 1 else 0)"
proof (induction xs ys rule: bytes_compare.induct)
  case (4 x xs y ys)
  have l: "length xs = length ys" using 4 by simp
  have c: "be_val (z # zs) = unat z * 256 ^ length zs + be_val zs" for z zs
    using be_val_append [of "[z]" zs] by (simp add: be_val_def)
  have v: "be_val xs < 256 ^ length ys" "be_val ys < 256 ^ length ys"
    using be_val_less [of xs] be_val_less [of ys] l by simp_all
  consider "unat x < unat y" | "unat y < unat x" | "x = y" by (metis nat_neq_iff word_unat_eq_iff)
  then show ?case
  proof cases
    case 1
    with digit_less [OF 1 v(1)] show ?thesis by (simp add: c l word_less_nat_alt)
  next
    case 2
    have "be_val (y # ys) < be_val (x # xs)" unfolding c l by (rule digit_less [OF 2 v(2)])
    with 2 show ?thesis by (simp add: word_less_nat_alt)
  next
    case 3
    with 4 l show ?thesis by (simp add: c)
  qed
qed simp_all

lemma digest_compare:
  "bytes_compare (digest_bytes a) (digest_bytes b) = (if a < b then -1 else if b < a then 1 else 0)"
  by (simp add: bytes_compare_val digest_val word_less_nat_alt)

lemma locSearch_unfold:
  "locSearch recs dg lo hi =
     (if lo < hi then
        let m = (lo + hi) div 2
        in if lr_sum (recs ! m) < dg then locSearch recs dg (m + 1) hi
           else if dg < lr_sum (recs ! m) then locSearch recs dg lo m
           else Some (recs ! m)
      else None)"
  by (subst locSearch.simps) (simp add: Let_def digest_compare)

lemma locSearch_sound: "locSearch recs dg lo hi = Some r \<Longrightarrow> hi \<le> length recs \<Longrightarrow> r \<in> set recs \<and> lr_sum r = dg"
proof (induction "hi - lo" arbitrary: lo hi rule: less_induct)
  case less
  let ?m = "(lo + hi) div 2"
  note u = locSearch_unfold [of recs dg lo hi]
  have lh: "lo < hi" using less.prems(1) unfolding u by (simp split: if_splits)
  consider "lr_sum (recs ! ?m) < dg" | "dg < lr_sum (recs ! ?m)" "\<not> lr_sum (recs ! ?m) < dg"
    | "lr_sum (recs ! ?m) = dg" by fastforce
  then show ?case
  proof cases
    case 1
    then have "locSearch recs dg (?m + 1) hi = Some r"
      using less.prems(1) lh unfolding u by (simp only: Let_def if_True)
    then show ?thesis by (rule less.hyps [rotated]) (use lh less.prems(2) in auto)
  next
    case 2
    then have "locSearch recs dg lo ?m = Some r"
      using less.prems(1) lh unfolding u by (simp only: Let_def if_True if_False)
    then show ?thesis by (rule less.hyps [rotated]) (use lh less.prems(2) in auto)
  next
    case 3
    then have "Some (recs ! ?m) = Some r"
      using less.prems(1) lh unfolding u by (simp only: Let_def if_True if_False less_irrefl)
    then show ?thesis using 3 lh less.prems(2) by auto
  qed
qed

lemma locSearch_complete:
  assumes "sorted_wrt (<) (map lr_sum recs)"
  shows "hi \<le> length recs \<Longrightarrow> lo \<le> p \<Longrightarrow> p < hi \<Longrightarrow> locSearch recs (lr_sum (recs ! p)) lo hi = Some (recs ! p)"
proof (induction "hi - lo" arbitrary: lo hi rule: less_induct)
  case less
  let ?m = "(lo + hi) div 2" and ?dg = "lr_sum (recs ! p)"
  have ord: "lr_sum (recs ! i) < lr_sum (recs ! j)" if "i < j" "j < length recs" for i j
    using assms that by (simp add: sorted_wrt_iff_nth_less)
  have m: "lo < hi" "?m < hi" "lo \<le> ?m" using less.prems by auto
  consider "p < ?m" | "p = ?m" | "?m < p" by linarith
  then show ?case
  proof cases
    case 1
    then have "?dg < lr_sum (recs ! ?m)" using ord [of p ?m] m less.prems by simp
    moreover from this have "\<not> lr_sum (recs ! ?m) < ?dg" by simp
    moreover have "locSearch recs ?dg lo ?m = Some (recs ! p)"
      by (rule less.hyps) (use m less.prems 1 in auto)
    ultimately show ?thesis using m(1) by (subst locSearch_unfold) (simp only: Let_def if_True if_False)
  next
    case 2
    then show ?thesis using m by (subst locSearch_unfold) (simp add: Let_def)
  next
    case 3
    then have "lr_sum (recs ! ?m) < ?dg" using ord [of ?m p] less.prems by simp
    moreover have "locSearch recs ?dg (?m + 1) hi = Some (recs ! p)"
      by (rule less.hyps) (use m less.prems 3 in auto)
    ultimately show ?thesis using m(1) by (subst locSearch_unfold) (simp only: Let_def if_True if_False)
  qed
qed

text \<open>The bucket table gives the bounds of every group of leading bits.\<close>

lemma takeWhile_none:
  "\<forall>x \<in> set recs. c \<le> tp x \<Longrightarrow> takeWhile (\<lambda>r. tp r < (c :: nat)) recs = [] \<and> dropWhile (\<lambda>r. tp r < c) recs = recs"
  by (cases recs) auto

lemma below_takeWhile:
  "sorted (map tp recs) \<Longrightarrow> below tp recs b = length (takeWhile (\<lambda>r. tp r < b) recs)"
proof (induction recs)
  case (Cons r recs)
  have "takeWhile (\<lambda>r. tp r < b) recs = []" "filter (\<lambda>r. tp r < b) recs = []" if "\<not> tp r < b"
    using Cons.prems that by (cases recs; force simp: filter_empty_conv)+
  with Cons show ?case by (auto simp: below_def)
qed (simp add: below_def)

lemma takeWhile_below:
  assumes "sorted (map tp recs)"
  shows "below tp recs b + length (takeWhile (\<lambda>r. tp r = b) (drop (below tp recs b) recs)) = below tp recs (Suc b)"
proof -
  note pre = below_takeWhile [OF assms]
  have "drop (below tp recs b) recs = dropWhile (\<lambda>r. tp r < b) recs"
    unfolding pre by (metis dropWhile_eq_drop)
  moreover have "takeWhile (\<lambda>r. tp r < Suc b) recs
      = takeWhile (\<lambda>r. tp r < b) recs @ takeWhile (\<lambda>r. tp r = b) (dropWhile (\<lambda>r. tp r < b) recs)"
    using assms
  proof (induction recs)
    case (Cons r recs)
    with takeWhile_none [of recs "tp r" tp] show ?case by (auto simp: less_Suc_eq cong: takeWhile_cong)
  qed simp
  ultimately show ?thesis unfolding pre by simp
qed

lemma tableLoop_below:
  assumes "sorted (map tp recs)"
  shows "a \<le> k \<Longrightarrow> tableLoop tp recs (below tp recs a) [a..<k] = map (below tp recs) [a..<k]"
proof (induction "k - a" arbitrary: a)
  case (Suc n)
  then have "[a..<k] = a # [Suc a..<k]" by (intro upt_conv_Cons) simp
  then show ?case using Suc takeWhile_below [OF assms, of a] by simp
qed simp

lemma below_iff:
  assumes "sorted (map tp recs)" "p < length recs"
  shows "p < below tp recs b \<longleftrightarrow> tp (recs ! p) < b"
proof -
  note pre = below_takeWhile [OF assms(1)]
  show ?thesis
  proof
    assume "p < below tp recs b"
    then have "p < length (takeWhile (\<lambda>r. tp r < b) recs)" by (simp add: pre)
    then show "tp (recs ! p) < b" by (metis nth_mem set_takeWhileD takeWhile_nth)
  next
    assume lt: "tp (recs ! p) < b"
    show "p < below tp recs b"
    proof (rule ccontr)
      assume "\<not> p < below tp recs b"
      then have le: "length (takeWhile (\<lambda>r. tp r < b) recs) \<le> p" by (simp add: pre)
      then have "\<not> tp (recs ! length (takeWhile (\<lambda>r. tp r < b) recs)) < b"
        using assms(2) by (intro nth_length_takeWhile) simp
      moreover have "tp (recs ! length (takeWhile (\<lambda>r. tp r < b) recs)) \<le> tp (recs ! p)"
        using sorted_nth_mono [OF assms(1) le] assms(2) le by simp
      ultimately show False using lt by simp
    qed
  qed
qed

subsection \<open>Primaries\<close>

lemma splitPrimaries_mset:
  "splitPrimaries prim dups clash rs = (P, D, C) \<Longrightarrow>
     mset P + mset D + mset (map snd C) = mset prim + mset dups + mset (map snd clash) + mset rs"
  by (induction prim dups clash rs rule: splitPrimaries.induct) (auto split: if_splits)

lemma splitPrimaries_sums:
  "splitPrimaries prim dups clash rs = (P, D, C) \<Longrightarrow> lr_sum ` set P = lr_sum ` set prim \<union> lr_sum ` set rs"
proof (induction prim dups clash rs rule: splitPrimaries.induct)
  case (2 prim dups clash r rs)
  show ?case
  proof (cases "prim \<noteq> [] \<and> lr_sum (last prim) = lr_sum r")
    case True
    then have "lr_sum r \<in> lr_sum ` set prim" by (metis imageI last_in_set)
    with 2 True show ?thesis by (auto split: if_splits)
  next
    case False
    with 2 show ?thesis by auto
  qed
qed simp

lemma splitPrimaries_least:
  assumes "splitPrimaries prim dups clash rs = (P, D, C)"
    and "sorted (map locKey (prim @ rs))" "sorted_wrt (<) (map lr_sum prim)"
  shows "sorted_wrt (<) (map lr_sum P)
    \<and> (\<forall>p \<in> set P. \<forall>r \<in> set (prim @ rs). lr_sum r = lr_sum p \<longrightarrow> locKey p \<le> locKey r)"
  using assms
proof (induction prim dups clash rs rule: splitPrimaries.induct)
  case (1 prim dups clash)
  have "inj_on lr_sum (set prim)"
    using 1(3) by (metis distinct_map strict_sorted_iff)
  with 1 show ?case by (auto dest: inj_onD)
next
  case (2 prim dups clash r rs)
  show ?case
  proof (cases "prim \<noteq> [] \<and> lr_sum (last prim) = lr_sum r")
    case True
    then have l: "last prim \<in> set prim" by simp
    have le: "locKey (last prim) \<le> locKey r" using 2(5) l by (auto simp: sorted_append)
    have s: "sorted (map locKey (prim @ rs))" using 2(5) by (auto simp: sorted_append)
    have IH: "sorted_wrt (<) (map lr_sum P)
        \<and> (\<forall>p \<in> set P. \<forall>r \<in> set (prim @ rs). lr_sum r = lr_sum p \<longrightarrow> locKey p \<le> locKey r)"
      using 2(1,2) 2(4) True s 2(6) by (auto split: if_splits)
    have "locKey p \<le> locKey r" if "p \<in> set P" "lr_sum r = lr_sum p" for p
    proof -
      have "locKey p \<le> locKey (last prim)" using IH that l True by auto
      with le show ?thesis by simp
    qed
    with IH show ?thesis by auto
  next
    case False
    have "lr_sum q < lr_sum r" if q: "q \<in> set prim" for q
    proof -
      have "last prim \<in> set prim" using q by (metis empty_iff empty_set last_in_set)
      then have "locKey (last prim) \<le> locKey r" using 2(5) by (auto simp: sorted_append)
      then have "lr_sum (last prim) \<le> lr_sum r" by (auto simp: locKey_def less_eq_prod_def)
      then have lt: "lr_sum (last prim) < lr_sum r" using False q by (auto simp: order_less_le)
      have "lr_sum q \<le> lr_sum (last prim)"
      proof -
        obtain xs where "prim = xs @ [last prim]" using q by (metis append_butlast_last_id empty_iff empty_set)
        then have "sorted_wrt (<) (map lr_sum (xs @ [last prim]))" "q \<in> set (xs @ [last prim])"
          using 2(6) q by simp_all
        then show ?thesis by (auto simp: sorted_wrt_append)
      qed
      with lt show ?thesis by simp
    qed
    then have "sorted_wrt (<) (map lr_sum (prim @ [r]))" using 2(6) by (auto simp: sorted_wrt_append)
    with 2(3) [OF False] 2(4,5) False show ?thesis by auto
  qed
qed

lemma topBits_sorted:
  assumes "nb \<le> 32" "sorted_wrt (<) (map lr_sum recs)"
  shows "sorted (map (topBits nb) recs)"
proof -
  have "topBits nb a \<le> topBits nb b" if "lr_sum a < lr_sum b" for a b
  proof -
    have "unat (lr_sum a) \<le> unat (lr_sum b)" using that by (simp add: word_less_nat_alt)
    then show ?thesis unfolding topBits_val [OF assms(1)] by (intro div_le_mono)
  qed
  then show ?thesis using assms(2) by (auto simp: sorted_wrt_map elim: sorted_wrt_mono_rel [rotated])
qed

lemma locFind_table:
  assumes nb: "nb \<le> 32" and srtd: "sorted_wrt (<) (map lr_sum P)"
    and ix: "ix_recs ix = P" "ix_shift ix = 32 - nb" "\<And>b. b \<le> 2 ^ nb \<Longrightarrow> ix_tbl ix ! b = below (topBits nb) P b"
  shows "locFind ix dg = Some r \<longleftrightarrow> r \<in> set P \<and> lr_sum r = dg"
proof -
  let ?tp = "topBits nb"
  define b where "b = unat (drop_bit (32 - nb) (get_be (take 4 (digest_bytes dg)) :: u32))"
  have top_eq: "?tp r = b" if "lr_sum r = dg" for r using that by (simp add: topBits_def b_def)
  have "b < 2 ^ nb" using topBits_less [OF nb, of "\<lparr>lr_sum = dg, lr_pack = 0, lr_stored = 0, lr_lc = 0,
      lr_offLo = 0, lr_offHi = 0\<rparr>"] top_eq by simp
  then have f: "locFind ix dg = locSearch P dg (below ?tp P b) (below ?tp P (Suc b))"
    using ix(3) [of b] ix(3) [of "Suc b"] by (simp add: locFind_def Let_def ix(1,2) b_def)
  show ?thesis
  proof
    assume "locFind ix dg = Some r"
    then show "r \<in> set P \<and> lr_sum r = dg" unfolding f using locSearch_sound below_le by blast
  next
    assume r: "r \<in> set P \<and> lr_sum r = dg"
    then obtain p where p: "p < length P" "P ! p = r" by (auto simp: in_set_conv_nth)
    note iff = below_iff [OF topBits_sorted [OF nb srtd] p(1)]
    have "p < below ?tp P (Suc b)" "\<not> p < below ?tp P b" using iff p(2) top_eq r by simp_all
    then have "locSearch P (lr_sum (P ! p)) (below ?tp P b) (below ?tp P (Suc b)) = Some (P ! p)"
      by (intro locSearch_complete [OF srtd] below_le) simp_all
    then show "locFind ix dg = Some r" using f p(2) r by simp
  qed
qed

lemma buildLocIndex_correct:
  "\<exists>ix clash. buildLocIndex recs = Some (ix, clash)
     \<and> lr_sum ` set (ix_recs ix) = lr_sum ` set recs
     \<and> (\<forall>dg r. locFind ix dg = Some r \<longleftrightarrow> r \<in> set (ix_recs ix) \<and> lr_sum r = dg)
     \<and> mset recs = mset (ix_recs ix) + mset (ix_dups ix) + mset (map snd clash)
     \<and> (\<forall>dg. case locFind ix dg of
            None \<Rightarrow> dg \<notin> lr_sum ` set recs
          | Some r \<Rightarrow> r \<in> set recs \<and> lr_sum r = dg
              \<and> (\<forall>r' \<in> set recs. lr_sum r' = dg \<longrightarrow> locKey r \<le> locKey r'))"
proof -
  define nb where "nb = min (bits_Len (length recs div 4)) 24"
  have nb: "nb \<le> 32" "min nb locGroupBits \<le> 32" by (simp_all add: nb_def locGroupBits_def)
  obtain srt where g: "groupLocRecs recs (min nb locGroupBits) = Some srt" "mset srt = mset recs"
    "sorted (map locKey srt)" using groupLocRecs_sorts [OF nb(2)] by blast
  obtain P D C where sp: "splitPrimaries [] [] [] srt = (P, D, C)" by (metis prod_cases3)
  have ms: "mset recs = mset P + mset D + mset (map snd C)" using splitPrimaries_mset [OF sp] g(2) by simp
  have set_eq: "set srt = set recs" using g(2) by (rule mset_eq_setD)
  have sums: "lr_sum ` set P = lr_sum ` set recs" using splitPrimaries_sums [OF sp] set_eq by simp
  have srtd: "sorted_wrt (<) (map lr_sum P)"
    and least: "\<forall>p \<in> set P. \<forall>r \<in> set recs. lr_sum r = lr_sum p \<longrightarrow> locKey p \<le> locKey r"
    using splitPrimaries_least [OF sp] g(3) set_eq by auto
  have PR: "p \<in> set recs" if "p \<in> set P" for p
  proof -
    have "p \<in># mset recs" unfolding ms using that by simp
    then show ?thesis by simp
  qed
  let ?tp = "topBits nb" and ?k = "2 ^ nb :: nat"
  let ?ix = "\<lparr>ix_recs = P, ix_dups = D, ix_tbl = tableLoop ?tp P 0 [0..<?k] @ [length P], ix_shift = 32 - nb\<rparr>"
  have all: "below ?tp P ?k = length P" using topBits_less [OF nb(1)] by (simp add: below_def)
  have "tableLoop ?tp P 0 [0..<?k] = map (below ?tp P) [0..<?k]"
    using tableLoop_below [OF topBits_sorted [OF nb(1) srtd], of 0 ?k] by simp
  then have tbl: "ix_tbl ?ix ! b = below ?tp P b" if "b \<le> ?k" for b
    using that all by (auto simp: nth_append order_le_less)
  have find: "locFind ?ix dg = Some r \<longleftrightarrow> r \<in> set P \<and> lr_sum r = dg" for dg r
    by (rule locFind_table [OF nb(1) srtd]) (simp_all add: tbl [simplified])
  have "buildLocIndex recs = Some (?ix, C)"
    using g(1) sp by (simp add: buildLocIndex_def Let_def nb_def [symmetric])
  moreover have "case locFind ?ix dg of
            None \<Rightarrow> dg \<notin> lr_sum ` set recs
          | Some r \<Rightarrow> r \<in> set recs \<and> lr_sum r = dg
              \<and> (\<forall>r' \<in> set recs. lr_sum r' = dg \<longrightarrow> locKey r \<le> locKey r')" for dg
  proof (cases "locFind ?ix dg")
    case None
    have "dg \<notin> lr_sum ` set P" using find [of dg] None by auto
    then show ?thesis using None sums by simp
  next
    case (Some r)
    with find [of dg r] show ?thesis using PR least by auto
  qed
  ultimately show ?thesis using ms sums find by fastforce
qed

section \<open>The order and the packing\<close>

lemma be_val_drop: "n \<le> length bs \<Longrightarrow> be_val (drop n bs) = be_val bs mod 256 ^ (length bs - n)"
proof -
  assume "n \<le> length bs"
  have "be_val bs = be_val (take n bs) * 256 ^ length (drop n bs) + be_val (drop n bs)"
    by (metis append_take_drop_id be_val_append)
  moreover have "be_val (drop n bs) < 256 ^ length (drop n bs)" by (rule be_val_less)
  ultimately show ?thesis by simp
qed

lemma digest_head: "unat (get_be (take 8 (digest_bytes d)) :: u64) = unat d div 256 ^ 24"
proof -
  have "be_val (take 8 (digest_bytes d)) = unat d div 256 ^ 24"
    using be_val_take [of 8 "digest_bytes d"] digest_val [of d] by simp
  moreover have "be_val (take 8 (digest_bytes d)) < 256 ^ 8"
    using be_val_less [of "take 8 (digest_bytes d)"] by simp
  ultimately show ?thesis by (simp add: get_be_def unat_of_nat take_bit_nat_eq_self)
qed

lemma less_div_mod:
  fixes a b n :: nat
  assumes "0 < n"
  shows "a < b \<longleftrightarrow> a div n < b div n \<or> a div n = b div n \<and> a mod n < b mod n"
proof -
  have le: "a div n \<le> b div n" if "a < b" for a b using that by (simp add: div_le_mono)
  have "a < b \<longleftrightarrow> a mod n < b mod n" if "a div n = b div n"
    using that by (metis add_less_cancel_left div_mult_mod_eq)
  then show ?thesis using le [of a b] le [of b a] 
    by (metis linorder_neqE_nat nat_less_le not_less)
qed

lemma small_bits: "unat (w :: u32) < 2 ^ n \<Longrightarrow> bit w m \<Longrightarrow> m < n"
  by (metis bit_take_bit_iff take_bit_nat_eq_self take_bit_of_nat unsigned_take_bit_eq word_unat_eq_iff)

lemma pack_logical: "unat (l :: u32) < 2 ^ 24 \<Longrightarrow> (l OR push_bit 24 (ucast (c :: byte))) AND (push_bit 24 1 - 1) = l"
proof -
  assume "unat l < 2 ^ 24"
  then have b: "bit l m \<Longrightarrow> m < 24" for m by (rule small_bits)
  have m: "push_bit 24 1 - 1 = (mask 24 :: u32)" by (simp add: mask_eq_exp_minus_1)
  show ?thesis unfolding m by (rule bit_word_eqI) (use b in \<open>auto simp: bit_simps\<close>)
qed

lemma pack_codec: "unat (l :: u32) < 2 ^ 24 \<Longrightarrow> ucast (drop_bit 24 (l OR push_bit 24 (ucast (c :: byte)))) = c"
proof -
  assume "unat l < 2 ^ 24"
  then have b: "bit l m \<Longrightarrow> m < 24" for m by (rule small_bits)
  show ?thesis by (rule bit_word_eqI) (use b in \<open>fastforce simp: bit_simps\<close>)
qed

lemma pack_off: "push_bit 32 (ucast (ucast (drop_bit 32 x) :: u32)) OR ucast (ucast x :: u32) = (x :: u64)"
  by (rule bit_word_eqI) (auto simp: bit_simps)

lemma pack_tier: assumes "unat (pk :: u32) < 2 ^ 30" "t < 4"
  shows "(push_bit 30 (word_of_nat t) OR pk) AND (push_bit 30 1 - 1) = pk"
   "unat (drop_bit 30 (push_bit 30 (word_of_nat t) OR pk)) = t"
proof -
  have b: "bit pk m \<Longrightarrow> m < 30" for m using assms(1) by (rule small_bits)
  have m: "push_bit 30 1 - 1 = (mask 30 :: u32)" by (simp add: mask_eq_exp_minus_1)
  show "(push_bit 30 (word_of_nat t) OR pk) AND (push_bit 30 1 - 1) = pk"
    unfolding m by (rule bit_word_eqI) (use b in \<open>auto simp: bit_simps\<close>)
  have "drop_bit 30 (push_bit 30 (word_of_nat t) OR pk) = drop_bit 30 (push_bit 30 (word_of_nat t) :: u32)"
    by (rule bit_word_eqI) (use b in \<open>fastforce simp: bit_simps\<close>)
  moreover consider "t = 0" | "t = 1" | "t = 2" | "t = 3" using assms(2) by linarith
  then have "unat (drop_bit 30 (push_bit 30 (word_of_nat t) :: u32)) = t" by cases simp_all
  ultimately show "unat (drop_bit 30 (push_bit 30 (word_of_nat t) OR pk)) = t" by simp
qed
lemma compare_div_mod:
  fixes a b n :: nat
  assumes "0 < n"
  shows "cmp_compare a b
    = (if a div n \<noteq> b div n then cmp_compare (a div n) (b div n) else cmp_compare (a mod n) (b mod n))"
  unfolding cmp_compare_def less_div_mod [OF assms, of a b] less_div_mod [OF assms, of b a] by auto

text \<open>The comparison the code computes is the order of the keys.\<close>

lemma cmpLocRec_key: "cmpLocRec a b = cmp_compare (locKey a) (locKey b)"
proof -
  let ?a = "unat (lr_sum a)" and ?b = "unat (lr_sum b)" and ?n = "256 ^ 24 :: nat"
  have tl: "bytes_compare (drop 8 (digest_bytes (lr_sum a))) (drop 8 (digest_bytes (lr_sum b)))
      = cmp_compare (?a mod ?n) (?b mod ?n)"
    using be_val_drop [of 8 "digest_bytes (lr_sum a)"] be_val_drop [of 8 "digest_bytes (lr_sum b)"]
    by (simp add: bytes_compare_val digest_val cmp_compare_def)
  have hd: "cmp_compare (get_be (take 8 (digest_bytes (lr_sum a))) :: u64) (get_be (take 8 (digest_bytes (lr_sum b))))
      = cmp_compare (?a div ?n) (?b div ?n)"
    "(get_be (take 8 (digest_bytes (lr_sum a))) :: u64) = get_be (take 8 (digest_bytes (lr_sum b)))
      \<longleftrightarrow> ?a div ?n = ?b div ?n"
    by (simp_all only: cmp_compare_def word_less_nat_alt word_unat_eq_iff digest_head)
  have n: "0 < ?n" by simp
  have eq: "lr_sum a = lr_sum b \<longleftrightarrow> ?a div ?n = ?b div ?n \<and> ?a mod ?n = ?b mod ?n"
    unfolding word_unat_eq_iff by (metis div_mult_mod_eq)
  have key: "cmp_compare (locKey a) (locKey b) =
      (if lr_sum a \<noteq> lr_sum b then cmp_compare (lr_sum a) (lr_sum b)
       else if lr_pack a \<noteq> lr_pack b then cmp_compare (lr_pack a) (lr_pack b)
       else cmp_compare (lr_off a) (lr_off b))"
    by (auto simp: cmp_compare_def locKey_def less_prod_def')
  have sm: "cmp_compare (lr_sum a) (lr_sum b)
      = (if ?a div ?n \<noteq> ?b div ?n then cmp_compare (?a div ?n) (?b div ?n) else cmp_compare (?a mod ?n) (?b mod ?n))"
    unfolding compare_div_mod [OF n, symmetric] by (simp only: cmp_compare_def word_less_nat_alt)
  have z: "cmp_compare x y = 0 \<longleftrightarrow> x = y" for x y :: "'x::linorder" by (auto simp: cmp_compare_def)
  show ?thesis
    unfolding cmpLocRec_def Let_def tl hd key sm eq by (auto simp: z)
qed

lemma mkLocRec_loc:
  assumes "unat (pe_logical e) < 2 ^ 24" "unat pk < 2 ^ 30"
  shows "lr_loc (mkLocRec e pk t) =
    \<lparr>pl_pack = unat pk, pl_tier = tier_num t, pl_codec = pe_codec e, pl_stored = pe_stored e,
     pl_logical = pe_logical e, pl_off = pe_off e\<rparr>"
proof -
  have t: "tier_num t < 4" by (simp add: tier_num_def split: tier.split)
  show ?thesis
    unfolding lr_loc_def lr_packIdx_def lr_tier_def lr_logical_def lr_off_def mkLocRec_def packIdxMask_def
      packIdxBits_def locRec.simps
    by (simp only: pack_logical [OF assms(1)] pack_codec [OF assms(1)] pack_off pack_tier [OF assms(2) t])
qed

section \<open>Snapshots of levels\<close>

record packState =
  ps_packs :: "packInfo list"
  ps_levels :: "locIndex list"
  ps_bad :: "(string \<times> pack_error) list"
  ps_clash :: "(locRec \<times> locRec) list"

datatype locator_error = LocatorTooManyPacks | LocatorTooManyRecords | LocatorPanic

fun bestLevels :: "locIndex list \<Rightarrow> digest \<Rightarrow> locRec option \<Rightarrow> locRec option" where
  "bestLevels [] dg best = best"
| "bestLevels (ix # ixs) dg best =
     (case locFind ix dg of
        None \<Rightarrow> bestLevels ixs dg best
      | Some r \<Rightarrow>
          if (case best of None \<Rightarrow> True | Some q \<Rightarrow> lr_tier r < lr_tier q)
          then (if lr_tier r = tier_num TierHot then Some r else bestLevels ixs dg (Some r))
          else bestLevels ixs dg best)"

definition ps_best :: "packState \<Rightarrow> digest \<Rightarrow> locRec option" where
  "ps_best st dg = bestLevels (ps_levels st) dg None"

definition ps_lookup :: "packState \<Rightarrow> digest \<Rightarrow> packLoc option" where
  "ps_lookup st dg = map_option lr_loc (ps_best st dg)"

definition appendLocs :: "packState \<Rightarrow> digest \<Rightarrow> packLoc list" where
  "appendLocs st dg =
     (let locs = concat (map (\<lambda>ix. case locFind ix dg of
                     None \<Rightarrow> []
                   | Some r \<Rightarrow> lr_loc r # map lr_loc (dupsOf ix dg)) (ps_levels st))
      in if length (ps_levels st) > 1 then sort_key pl_tier locs else locs)"

text \<open>The level merge of \<open>withPack\<close>, over the levels newest first.\<close>

fun mergeLevels ::
  "locIndex list \<Rightarrow> (locRec \<times> locRec) list \<Rightarrow> (locIndex list \<times> (locRec \<times> locRec) list) option" where
  "mergeLevels (x # y # zs) clash =
     (if 2 * ix_size x \<ge> ix_size y then
        (case mergeLocIndex y x of
           None \<Rightarrow> None
         | Some (m, c) \<Rightarrow> mergeLevels (m # zs) (clash @ c))
      else Some (x # y # zs, clash))"
| "mergeLevels xs clash = Some (xs, clash)"

fun newRecs :: "packState \<Rightarrow> u32 \<Rightarrow> tier \<Rightarrow> packEntry list \<Rightarrow> locRec list \<times> (locRec \<times> locRec) list" where
  "newRecs st idx t [] = ([], [])"
| "newRecs st idx t (e # es) =
     (let r = mkLocRec e idx t; (recs, clash) = newRecs st idx t es in
      case ps_best st (lr_sum r) of
        Some prev \<Rightarrow>
          if lr_logical prev \<noteq> lr_logical r then (recs, (prev, r) # clash) else (r # recs, clash)
      | None \<Rightarrow> (r # recs, clash))"

definition withPack :: "packInfo \<Rightarrow> packEntry list \<Rightarrow> packState \<Rightarrow> locator_error + packState" where
  "withPack info entries st =
     (if \<exists>p \<in> set (ps_packs st). pi_id p = pi_id info \<and> pi_tier p = pi_tier info then Inr st
      else if length (ps_packs st) \<ge> unat packIdxMask then Inl LocatorTooManyPacks
      else if length entries + sum_list (map ix_size (ps_levels st)) \<ge> 4294967295 then Inl LocatorTooManyRecords
      else
        let (recs, clash) = newRecs st (word_of_nat (length (ps_packs st))) (pi_tier info) entries;
            st1 = st\<lparr>ps_packs := ps_packs st @ [info], ps_clash := ps_clash st @ clash\<rparr> in
        if recs = [] then Inr st1
        else case buildLocIndex recs of
          None \<Rightarrow> Inl LocatorPanic
        | Some (ix, c) \<Rightarrow>
            (case mergeLevels (ix # rev (ps_levels st)) (ps_clash st1 @ c) of
               None \<Rightarrow> Inl LocatorPanic
             | Some (levels, clash1) \<Rightarrow> Inr (st1\<lparr>ps_levels := rev levels, ps_clash := clash1\<rparr>)))"

subsection \<open>Publishing never loses a digest\<close>

definition level_ok :: "locIndex \<Rightarrow> bool" where
  "level_ok ix \<longleftrightarrow> (\<forall>dg r. locFind ix dg = Some r \<longleftrightarrow> r \<in> set (ix_recs ix) \<and> lr_sum r = dg)
     \<and> lr_sum ` set (ix_dups ix) \<subseteq> lr_sum ` set (ix_recs ix)"

definition level_sums :: "locIndex \<Rightarrow> digest set" where
  "level_sums ix = lr_sum ` set (ix_recs ix)"

definition indexed :: "packState \<Rightarrow> digest set" where
  "indexed st = (\<Union>ix \<in> set (ps_levels st). level_sums ix)"

definition state_ok :: "packState \<Rightarrow> bool" where
  "state_ok st \<longleftrightarrow> list_all level_ok (ps_levels st)"

lemma buildLocIndex_level:
  "\<exists>ix c. buildLocIndex recs = Some (ix, c) \<and> level_ok ix \<and> level_sums ix = lr_sum ` set recs"
proof -
  obtain ix c where b: "buildLocIndex recs = Some (ix, c)"
    and sums: "lr_sum ` set (ix_recs ix) = lr_sum ` set recs"
    and find: "\<forall>dg r. locFind ix dg = Some r \<longleftrightarrow> r \<in> set (ix_recs ix) \<and> lr_sum r = dg"
    and ms: "mset recs = mset (ix_recs ix) + mset (ix_dups ix) + mset (map snd c)"
    using buildLocIndex_correct [of recs] by blast
  have "set (ix_dups ix) \<subseteq> set recs"
  proof
    fix r
    assume "r \<in> set (ix_dups ix)"
    then have "r \<in># mset recs" unfolding ms by simp
    then show "r \<in> set recs" by simp
  qed
  with b sums find show ?thesis by (auto simp: level_ok_def level_sums_def)
qed

lemma locFind_level: "level_ok ix \<Longrightarrow> locFind ix dg = None \<longleftrightarrow> dg \<notin> level_sums ix"
proof -
  assume "level_ok ix"
  then have iff: "locFind ix dg = Some r \<longleftrightarrow> r \<in> set (ix_recs ix) \<and> lr_sum r = dg" for r
    by (simp add: level_ok_def)
  show ?thesis
  proof (cases "locFind ix dg")
    case None
    with iff have "\<not> (r \<in> set (ix_recs ix) \<and> lr_sum r = dg)" for r by simp
    then show ?thesis using None by (auto simp: level_sums_def)
  next
    case (Some r)
    then show ?thesis using iff [of r] by (auto simp: level_sums_def)
  qed
qed

lemma bestLevels_found:
  "list_all level_ok ixs \<Longrightarrow> bestLevels ixs dg best = None \<longleftrightarrow> best = None \<and> (\<forall>ix \<in> set ixs. dg \<notin> level_sums ix)"
proof (induction ixs dg best rule: bestLevels.induct)
  case (2 ix ixs dg best)
  then show ?case
    using locFind_level [of ix dg] by (auto split: option.splits if_splits)
qed simp

lemma mergeLevels_ok:
  "list_all level_ok xs \<Longrightarrow> \<exists>ys c. mergeLevels xs clash = Some (ys, c) \<and> list_all level_ok ys
     \<and> (\<Union>ix \<in> set ys. level_sums ix) = (\<Union>ix \<in> set xs. level_sums ix)"
proof (induction xs clash rule: mergeLevels.induct)
  case (1 x y zs clash)
  show ?case
  proof (cases "2 * ix_size x \<ge> ix_size y")
    case True
    obtain m c where m: "mergeLocIndex y x = Some (m, c)" "level_ok m"
      and s: "level_sums m = lr_sum ` set (ix_recs y @ ix_dups y @ ix_recs x @ ix_dups x)"
      using buildLocIndex_level [of "ix_recs y @ ix_dups y @ ix_recs x @ ix_dups x"]
      by (auto simp: mergeLocIndex_def)
    have "level_sums m = level_sums x \<union> level_sums y"
      using 1(2) unfolding s by (auto simp: level_sums_def level_ok_def)
    moreover have "\<exists>ys c'. mergeLevels (m # zs) (clash @ c) = Some (ys, c') \<and> list_all level_ok ys
        \<and> (\<Union>ix \<in> set ys. level_sums ix) = (\<Union>ix \<in> set (m # zs). level_sums ix)"
      using 1(2) m by (intro 1(1) [OF True _ refl]) auto
    ultimately show ?thesis using True m(1) by (auto simp: Un_assoc)
  next
    case False
    with 1(2) show ?thesis by simp
  qed
qed auto

lemma newRecs_sums:
  "state_ok st \<Longrightarrow> newRecs st idx t es = (recs, clash)
    \<Longrightarrow> lr_sum ` set recs \<subseteq> pe_sha ` set es \<and> pe_sha ` set es \<subseteq> lr_sum ` set recs \<union> indexed st"
proof (induction es arbitrary: recs clash)
  case (Cons e es)
  obtain rs cl where n: "newRecs st idx t es = (rs, cl)" by fastforce
  have s: "lr_sum (mkLocRec e idx t) = pe_sha e" by (simp add: mkLocRec_def)
  have "ps_best st (pe_sha e) = Some q \<Longrightarrow> pe_sha e \<in> indexed st" for q
    using bestLevels_found [of "ps_levels st" "pe_sha e" None] Cons.prems(1)
    by (auto simp: ps_best_def indexed_def state_ok_def)
  then have "recs = rs \<and> pe_sha e \<in> indexed st \<or> recs = mkLocRec e idx t # rs"
    using Cons.prems(2) n s by (auto simp: Let_def split: option.splits if_splits)
  with Cons.IH [OF Cons.prems(1) n] s show ?case by (elim disjE) (simp_all, blast+)
qed simp

lemma withPack_indexed:
  assumes "state_ok st" "\<not> (\<exists>p \<in> set (ps_packs st). pi_id p = pi_id info \<and> pi_tier p = pi_tier info)"
    and "length (ps_packs st) < unat packIdxMask"
    and "length entries + sum_list (map ix_size (ps_levels st)) < 4294967295"
  shows "\<exists>st'. withPack info entries st = Inr st' \<and> state_ok st' \<and> ps_packs st' = ps_packs st @ [info]
    \<and> indexed st' = indexed st \<union> pe_sha ` set entries"
proof -
  obtain recs clash where n: "newRecs st (word_of_nat (length (ps_packs st))) (pi_tier info) entries = (recs, clash)"
    by fastforce
  note ns = newRecs_sums [OF assms(1) n]
  have lim: "\<not> unat packIdxMask \<le> length (ps_packs st)"
    "\<not> 4294967295 \<le> length entries + sum_list (map ix_size (ps_levels st))"
    using assms(3,4) by simp_all
  show ?thesis
  proof (cases "recs = []")
    case True
    then have "withPack info entries st
        = Inr (st\<lparr>ps_packs := ps_packs st @ [info], ps_clash := ps_clash st @ clash\<rparr>)"
      unfolding withPack_def if_not_P [OF assms(2)] using n lim by simp
    moreover have "indexed st \<union> pe_sha ` set entries = indexed st" using ns True by auto
    ultimately show ?thesis using assms(1) by (simp add: indexed_def state_ok_def)
  next
    case False
    obtain ix c where b: "buildLocIndex recs = Some (ix, c)" "level_ok ix" "level_sums ix = lr_sum ` set recs"
      using buildLocIndex_level by blast
    have "list_all level_ok (ix # rev (ps_levels st))" using b(2) assms(1) by (simp add: state_ok_def)
    then obtain ys cl where m: "mergeLevels (ix # rev (ps_levels st)) (ps_clash st @ clash @ c) = Some (ys, cl)"
      "list_all level_ok ys" "(\<Union>ix \<in> set ys. level_sums ix) = level_sums ix \<union> indexed st"
      using mergeLevels_ok [of "ix # rev (ps_levels st)" "ps_clash st @ clash @ c"] by (auto simp: indexed_def)
    have "withPack info entries st = Inr (st\<lparr>ps_packs := ps_packs st @ [info], ps_clash := cl, ps_levels := rev ys\<rparr>)"
      unfolding withPack_def if_not_P [OF assms(2)] using lim n False b(1) m(1) by (simp add: Let_def)
    moreover have "indexed st \<union> pe_sha ` set entries = level_sums ix \<union> indexed st" using ns b(3) by auto
    ultimately show ?thesis using m(2,3) by (auto simp: indexed_def state_ok_def)
  qed
qed

lemma ps_lookup_indexed: "state_ok st \<Longrightarrow> ps_lookup st dg \<noteq> None \<longleftrightarrow> dg \<in> indexed st"
  using bestLevels_found [of "ps_levels st" dg None]
  by (auto simp: ps_lookup_def ps_best_def indexed_def state_ok_def)

section \<open>Properties\<close>

text \<open>
  C12: The in-place grouping sort is a sort. For any records and any number of leading bits
  up to 32, the counting pass, the swap loop and the per-group sorts never index out of
  range, and leave a permutation of the records in the order of \<open>cmpLocRec\<close>.
\<close>

theorem group_sort_sorts:
  assumes "nb \<le> 32"
  shows "\<exists>recs'. groupLocRecs recs nb = Some recs' \<and> mset recs' = mset recs
    \<and> sorted_wrt (\<lambda>a b. cmpLocRec a b \<le> 0) recs'"
proof -
  obtain recs' where r: "groupLocRecs recs nb = Some recs'" "mset recs' = mset recs" "sorted (map locKey recs')"
    using groupLocRecs_sorts [OF assms] by blast
  have "cmpLocRec a b \<le> 0" if "locKey a \<le> locKey b" for a b
    using that by (auto simp: cmpLocRec_key cmp_compare_def)
  then have "sorted_wrt (\<lambda>a b. cmpLocRec a b \<le> 0) recs'"
    using r(3) by (auto simp: sorted_wrt_map elim: sorted_wrt_mono_rel [rotated])
  with r show ?thesis by blast
qed

definition sample_rec :: "digest \<Rightarrow> u32 \<Rightarrow> locRec" where
  "sample_rec d pk = \<lparr>lr_sum = d, lr_pack = pk, lr_stored = 1, lr_lc = 1, lr_offLo = 60, lr_offHi = 0\<rparr>"

theorem group_sort_sorts_witness:
  "\<exists>recs'. groupLocRecs [sample_rec 9 0, sample_rec 3 1, sample_rec 3 0] 2 = Some recs'
    \<and> mset recs' = mset [sample_rec 9 0, sample_rec 3 1, sample_rec 3 0]
    \<and> sorted_wrt (\<lambda>a b. cmpLocRec a b \<le> 0) recs'"
  by (rule group_sort_sorts) simp

text \<open>
  An index answers lookups exactly. Building an index over any records accounts for each
  record exactly once, as a primary, a duplicate or a reported contradiction; looking a
  digest up finds nothing exactly when no record has it, and otherwise finds the record of
  that digest that comes first in the order: the hottest tier, then the lowest pack and
  offset.
\<close>

theorem locator_lookup_exact:
  "\<exists>ix clash. buildLocIndex recs = Some (ix, clash)
     \<and> mset recs = mset (ix_recs ix) + mset (ix_dups ix) + mset (map snd clash)
     \<and> (\<forall>dg. case locFind ix dg of
            None \<Rightarrow> dg \<notin> lr_sum ` set recs
          | Some r \<Rightarrow> r \<in> set recs \<and> lr_sum r = dg
              \<and> (\<forall>r' \<in> set recs. lr_sum r' = dg \<longrightarrow> locKey r \<le> locKey r'))"
  using buildLocIndex_correct [of recs] by blast

theorem locator_lookup_exact_witness:
  "\<exists>ix clash. buildLocIndex [sample_rec 3 1, sample_rec 3 0] = Some (ix, clash)
     \<and> locFind ix 3 = Some (sample_rec 3 0) \<and> locFind ix 4 = None"
proof -
  let ?recs = "[sample_rec 3 1, sample_rec 3 0]"
  obtain ix clash where b: "buildLocIndex ?recs = Some (ix, clash)"
    and f: "\<And>dg. case locFind ix dg of
            None \<Rightarrow> dg \<notin> lr_sum ` set ?recs
          | Some r \<Rightarrow> r \<in> set ?recs \<and> lr_sum r = dg
              \<and> (\<forall>r' \<in> set ?recs. lr_sum r' = dg \<longrightarrow> locKey r \<le> locKey r')"
    using locator_lookup_exact [of ?recs] by blast
  have "locFind ix 4 = None"
    using f [of 4] by (auto simp: sample_rec_def split: option.splits)
  moreover have "locFind ix 3 = Some (sample_rec 3 0)"
    using f [of 3] by (auto simp: sample_rec_def locKey_def lr_off_def less_eq_prod_def split: option.splits)
  ultimately show ?thesis using b by blast
qed

text \<open>
  Publishing a pack never hides a chunk. Adding a new pack to a locator snapshot
  succeeds below the size limits, keeps the snapshot well formed through every level merge,
  and afterwards exactly the digests indexed before and those of the new pack are found.
\<close>

theorem publishing_keeps_lookups:
  assumes "state_ok st" and "\<not> (\<exists>p \<in> set (ps_packs st). pi_id p = pi_id info \<and> pi_tier p = pi_tier info)"
    and "length (ps_packs st) < unat packIdxMask"
    and "length entries + sum_list (map ix_size (ps_levels st)) < 4294967295"
  shows "\<exists>st'. withPack info entries st = Inr st' \<and> state_ok st'
    \<and> (\<forall>dg. ps_lookup st' dg \<noteq> None \<longleftrightarrow> ps_lookup st dg \<noteq> None \<or> dg \<in> pe_sha ` set entries)"
proof -
  obtain st' where w: "withPack info entries st = Inr st'" "state_ok st'"
    and ix: "indexed st' = indexed st \<union> pe_sha ` set entries"
    using withPack_indexed [OF assms] by (elim exE conjE)
  have "ps_lookup st' dg \<noteq> None \<longleftrightarrow> ps_lookup st dg \<noteq> None \<or> dg \<in> pe_sha ` set entries" for dg
    by (simp only: ps_lookup_indexed [OF w(2)] ps_lookup_indexed [OF assms(1)] ix Un_iff)
  with w show ?thesis by (intro exI [of _ st'] conjI allI) simp_all
qed

theorem publishing_keeps_lookups_witness:
  "\<exists>st'. withPack (newPackInfo ''a'' ''p'' 1 []) [\<lparr>pe_sha = 5, pe_off = 60, pe_stored = 1, pe_logical = 1, pe_codec = 0\<rparr>]
        \<lparr>ps_packs = [], ps_levels = [], ps_bad = [], ps_clash = []\<rparr> = Inr st'
     \<and> ps_lookup st' 5 \<noteq> None \<and> ps_lookup st' 6 = None"
proof -
  let ?st = "\<lparr>ps_packs = [], ps_levels = [], ps_bad = [], ps_clash = []\<rparr> :: packState"
  let ?e = "\<lparr>pe_sha = 5, pe_off = 60, pe_stored = 1, pe_logical = 1, pe_codec = 0\<rparr> :: packEntry"
  obtain st' where w: "withPack (newPackInfo ''a'' ''p'' 1 []) [?e] ?st = Inr st'"
    and l: "\<forall>dg. ps_lookup st' dg \<noteq> None \<longleftrightarrow> ps_lookup ?st dg \<noteq> None \<or> dg \<in> pe_sha ` set [?e]"
    using publishing_keeps_lookups [of ?st "newPackInfo ''a'' ''p'' 1 []" "[?e]"]
    by (auto simp: state_ok_def packIdxMask_def packIdxBits_def)
  have "ps_lookup st' 5 \<noteq> None" using l [rule_format, of 5] by simp
  moreover have "ps_lookup st' 6 = None" using l [rule_format, of 6] by (simp add: ps_lookup_def ps_best_def)
  ultimately show ?thesis using w by blast
qed

text \<open>
  The 52-byte record loses nothing: every field of an index entry with a length within
  the chunk limit, together with its pack number below \<open>2 ^ 30\<close> and its tier, comes back.
\<close>

theorem locator_record_packing:
  assumes "unat (pe_logical e) \<le> maxPackedChunkBytes" and "unat pk < 2 ^ 30"
  shows "lr_loc (mkLocRec e pk t) =
    \<lparr>pl_pack = unat pk, pl_tier = tier_num t, pl_codec = pe_codec e, pl_stored = pe_stored e,
     pl_logical = pe_logical e, pl_off = pe_off e\<rparr>"
proof -
  have "unat (pe_logical e) < 2 ^ 24" using assms(1) by (simp add: maxPackedChunkBytes_def cdcMaxChunkSize_def)
  then show ?thesis by (rule mkLocRec_loc [OF _ assms(2)])
qed

theorem locator_record_packing_witness:
  "lr_loc (mkLocRec \<lparr>pe_sha = 5, pe_off = 0x123456789A, pe_stored = 7, pe_logical = 9, pe_codec = 1\<rparr> 3 TierCold)
    = \<lparr>pl_pack = 3, pl_tier = 2, pl_codec = 1, pl_stored = 7, pl_logical = 9, pl_off = 0x123456789A\<rparr>"
  using locator_record_packing [of "\<lparr>pe_sha = 5, pe_off = 0x123456789A, pe_stored = 7, pe_logical = 9, pe_codec = 1\<rparr>" 3 TierCold]
  by (simp add: maxPackedChunkBytes_def cdcMaxChunkSize_def tier_num_def)

end
