(* ===== verification/Copies.thy ===== *)
theory Copies
  imports Locator
begin

text \<open>
  The copies a locator snapshot knows of a chunk (\<^verbatim>\<open>zeros3.go\<close>, section 4b, \<open>appendLocs\<close>,
  \<open>withPack\<close>, \<open>primaries\<close> and \<open>distinct\<close>). The levels of a snapshot are abstracted to one set
  of records; a snapshot is uniform when no two records of a digest contradict each other in
  length. Shown here: on uniform snapshots no merge ever drops a record, the fallback list
  of a digest is exactly its set of records, and publishing a pack adds exactly the pack's
  records.
\<close>

section \<open>The records of a snapshot\<close>

definition level_recs :: "locIndex \<Rightarrow> locRec set" where
  "level_recs ix = set (ix_recs ix) \<union> set (ix_dups ix)"

definition all_recs :: "packState \<Rightarrow> locRec set" where
  "all_recs st = (\<Union>ix \<in> set (ps_levels st). level_recs ix)"

definition uniform :: "locRec set \<Rightarrow> bool" where
  "uniform R \<longleftrightarrow> (\<forall>r \<in> R. \<forall>q \<in> R. lr_sum r = lr_sum q \<longrightarrow> lr_logical r = lr_logical q)"

definition level_sorted :: "locIndex \<Rightarrow> bool" where
  "level_sorted ix \<longleftrightarrow> level_ok ix \<and> sorted (map lr_sum (ix_dups ix)) \<and> distinct (map lr_sum (ix_recs ix))"

definition snapshot_ok :: "packState \<Rightarrow> bool" where
  "snapshot_ok st \<longleftrightarrow> list_all level_sorted (ps_levels st) \<and> uniform (all_recs st)"

lemma snapshot_state_ok: "snapshot_ok st \<Longrightarrow> state_ok st"
  by (auto simp: snapshot_ok_def state_ok_def level_sorted_def list_all_iff)

lemma uniformD: "uniform R \<Longrightarrow> r \<in> R \<Longrightarrow> q \<in> R \<Longrightarrow> lr_sum r = lr_sum q \<Longrightarrow> lr_logical r = lr_logical q"
  unfolding uniform_def by blast

lemma uniform_mono: "uniform R \<Longrightarrow> Q \<subseteq> R \<Longrightarrow> uniform Q"
  by (auto simp: uniform_def)

section \<open>Building a level\<close>

lemma splitPrimaries_dups_sorted:
  "splitPrimaries prim dups clash rs = (P, D, C) \<Longrightarrow> sorted (map lr_sum (dups @ rs)) \<Longrightarrow> sorted (map lr_sum D)"
  by (induction prim dups clash rs rule: splitPrimaries.induct)
    (auto simp: sorted_append split: if_splits)

lemma splitPrimaries_clash:
  "splitPrimaries prim dups clash rs = (P, D, C) \<Longrightarrow> uniform (set prim \<union> set rs) \<Longrightarrow> C = clash"
proof (induction prim dups clash rs rule: splitPrimaries.induct)
  case (2 prim dups clash r rs)
  show ?case
  proof (cases "prim \<noteq> [] \<and> lr_sum (last prim) = lr_sum r")
    case True
    then have "last prim \<in> set prim" by simp
    with True 2(5) have "lr_logical (last prim) = lr_logical r" by (auto simp: uniform_def)
    moreover have "uniform (set prim \<union> set rs)" using 2(5) by (rule uniform_mono) auto
    ultimately show ?thesis using 2(2) 2(4) True by simp
  next
    case False
    have "splitPrimaries (prim @ [r]) dups clash rs = (P, D, C)"
      using 2(4) unfolding splitPrimaries.simps if_not_P [OF False] .
    then show ?thesis using 2(3) [OF False] 2(5) by simp
  qed
qed simp

lemma buildLocIndex_uniform:
  assumes "uniform (set recs)"
  shows "\<exists>ix. buildLocIndex recs = Some (ix, []) \<and> level_sorted ix \<and> level_recs ix = set recs"
proof -
  obtain ix c where b: "buildLocIndex recs = Some (ix, c)" "level_ok ix" using buildLocIndex_level by blast
  define nb where "nb = min (bits_Len (length recs div 4)) 24"
  have nb: "min nb locGroupBits \<le> 32" by (simp add: nb_def locGroupBits_def)
  obtain srt where g: "groupLocRecs recs (min nb locGroupBits) = Some srt" "mset srt = mset recs"
    "sorted (map locKey srt)" using groupLocRecs_sorts [OF nb] by blast
  obtain P D C where sp: "splitPrimaries [] [] [] srt = (P, D, C)" by (metis prod_cases3)
  have ix: "ix_recs ix = P" "ix_dups ix = D" "c = C"
    using b(1) g(1) sp by (auto simp: buildLocIndex_def Let_def nb_def [symmetric])
  have "sorted (map lr_sum srt)"
    using g(3) by (auto simp: sorted_map locKey_def less_eq_prod_def elim!: sorted_wrt_mono_rel [rotated])
  then have "sorted (map lr_sum D)" using splitPrimaries_dups_sorted [OF sp] by simp
  moreover have "distinct (map lr_sum P)"
    using splitPrimaries_least [OF sp] g(3) by (auto simp: strict_sorted_iff)
  moreover have "C = []"
    using splitPrimaries_clash [OF sp] assms mset_eq_setD [OF g(2)] by simp
  moreover have "mset P + mset D = mset recs"
    using splitPrimaries_mset [OF sp] g(2) \<open>C = []\<close> by simp
  then have "set P \<union> set D = set recs" by (metis set_mset_mset set_mset_union)
  ultimately show ?thesis using b ix by (simp add: level_sorted_def level_recs_def)
qed

section \<open>The fallback list\<close>

lemma dropWhile_less_sorted:
  "sorted (map f xs) \<Longrightarrow> takeWhile (\<lambda>x. f x = y) (dropWhile (\<lambda>x. f x < (y :: 'b :: linorder)) xs) = filter (\<lambda>x. f x = y) xs"
proof (induction xs)
  case (Cons a xs)
  consider "f a < y" | "f a = y" | "y < f a" using less_linear by blast
  then show ?case
  proof cases
    case 2
    have "dropWhile (\<lambda>x. f x < y) xs = xs" using Cons.prems 2 by (cases xs) auto
    then show ?thesis using Cons 2 by simp
  next
    case 3
    with Cons.prems have "filter (\<lambda>x. f x = y) xs = []" by (auto simp: filter_empty_conv)
    with 3 show ?thesis by (auto simp: not_less)
  qed (use Cons in simp)
qed simp

lemma dupsOf_filter: "level_sorted ix \<Longrightarrow> dupsOf ix dg = filter (\<lambda>r. lr_sum r = dg) (ix_dups ix)"
  unfolding dupsOf_def level_sorted_def using dropWhile_less_sorted [of lr_sum "ix_dups ix" dg]
  by (simp add: digest_compare if_distrib [of "\<lambda>x. x < 0"] cong: if_cong)

lemma level_locs:
  assumes "level_sorted ix"
  shows "set (case locFind ix dg of None \<Rightarrow> [] | Some r \<Rightarrow> lr_loc r # map lr_loc (dupsOf ix dg))
    = lr_loc ` {r \<in> level_recs ix. lr_sum r = dg}"
proof -
  have iff: "locFind ix dg = Some r \<longleftrightarrow> r \<in> set (ix_recs ix) \<and> lr_sum r = dg" for r
    using assms by (simp add: level_sorted_def level_ok_def)
  have sub: "lr_sum ` set (ix_dups ix) \<subseteq> lr_sum ` set (ix_recs ix)"
    using assms by (simp add: level_sorted_def level_ok_def)
  show ?thesis
  proof (cases "locFind ix dg")
    case None
    then have no: "r \<in> set (ix_recs ix) \<Longrightarrow> lr_sum r \<noteq> dg" for r using iff by auto
    then have "r \<in> set (ix_dups ix) \<Longrightarrow> lr_sum r \<noteq> dg" for r using sub by (metis imageE image_subset_iff)
    with no None show ?thesis by (auto simp: level_recs_def)
  next
    case (Some q)
    have "r = q" if "r \<in> set (ix_recs ix)" "lr_sum r = dg" for r using iff [of r] Some that by simp
    then have "{r \<in> level_recs ix. lr_sum r = dg} = insert q {r \<in> set (ix_dups ix). lr_sum r = dg}"
      using iff [of q] Some by (auto simp: level_recs_def)
    with Some show ?thesis by (simp add: dupsOf_filter [OF assms])
  qed
qed

lemma appendLocs_set:
  assumes "snapshot_ok st"
  shows "set (appendLocs st dg) = lr_loc ` {r \<in> all_recs st. lr_sum r = dg}"
proof -
  have l: "level_sorted ix" if "ix \<in> set (ps_levels st)" for ix
    using assms that by (simp add: snapshot_ok_def list_all_iff)
  have "set (appendLocs st dg) = (\<Union>ix \<in> set (ps_levels st). lr_loc ` {r \<in> level_recs ix. lr_sum r = dg})"
  proof -
    let ?f = "\<lambda>ix. case locFind ix dg of None \<Rightarrow> [] | Some r \<Rightarrow> lr_loc r # map lr_loc (dupsOf ix dg)"
    have "set (appendLocs st dg) = (\<Union>ix \<in> set (ps_levels st). set (?f ix))"
      by (simp only: appendLocs_def Let_def if_distrib [of set] set_sort set_concat set_map image_image if_cancel)
    also have "\<dots> = (\<Union>ix \<in> set (ps_levels st). lr_loc ` {r \<in> level_recs ix. lr_sum r = dg})"
      by (rule SUP_cong [OF refl]) (rule level_locs [OF l])
    finally show ?thesis .
  qed
  then show ?thesis by (auto simp: all_recs_def)
qed

lemma ps_best_all_recs:
  assumes "snapshot_ok st"
  shows "ps_best st dg = Some r \<Longrightarrow> r \<in> all_recs st \<and> lr_sum r = dg"
    and "ps_best st dg = None \<longleftrightarrow> (\<forall>r \<in> all_recs st. lr_sum r \<noteq> dg)"
proof -
  have "bestLevels ixs dg b = Some r \<Longrightarrow> list_all level_sorted ixs \<Longrightarrow>
      b = Some r \<or> (\<exists>ix \<in> set ixs. r \<in> level_recs ix \<and> lr_sum r = dg)" for ixs b
    by (induction ixs dg b rule: bestLevels.induct)
      (auto simp: level_sorted_def level_ok_def level_recs_def split: option.splits if_splits)
  from this [of "ps_levels st" None] assms
  show "ps_best st dg = Some r \<Longrightarrow> r \<in> all_recs st \<and> lr_sum r = dg"
    by (auto simp: ps_best_def snapshot_ok_def all_recs_def)
next
  have sub: "lr_sum ` level_recs ix = level_sums ix" if "ix \<in> set (ps_levels st)" for ix
    using assms that
    by (auto simp: snapshot_ok_def list_all_iff level_sorted_def level_ok_def level_recs_def level_sums_def)
  then have eq: "lr_sum ` all_recs st = indexed st" by (simp add: all_recs_def indexed_def image_UN)
  have "ps_best st dg = None \<longleftrightarrow> dg \<notin> indexed st"
    using ps_lookup_indexed [OF snapshot_state_ok [OF assms], of dg] by (cases "ps_best st dg") (simp_all add: ps_lookup_def)
  also have "\<dots> \<longleftrightarrow> (\<forall>r \<in> all_recs st. lr_sum r \<noteq> dg)" unfolding eq [symmetric] by auto
  finally show "ps_best st dg = None \<longleftrightarrow> (\<forall>r \<in> all_recs st. lr_sum r \<noteq> dg)" .
qed

section \<open>Publishing a pack\<close>

lemma mergeLevels_recs:
  "list_all level_sorted xs \<Longrightarrow> uniform (\<Union>ix \<in> set xs. level_recs ix) \<Longrightarrow>
     \<exists>ys. mergeLevels xs clash = Some (ys, clash) \<and> list_all level_sorted ys
       \<and> (\<Union>ix \<in> set ys. level_recs ix) = (\<Union>ix \<in> set xs. level_recs ix)"
proof (induction xs clash rule: mergeLevels.induct)
  case (1 x y zs clash)
  show ?case
  proof (cases "2 * ix_size x \<ge> ix_size y")
    case True
    let ?recs = "ix_recs y @ ix_dups y @ ix_recs x @ ix_dups x"
    have rs: "set ?recs = level_recs y \<union> level_recs x" by (auto simp: level_recs_def)
    have "uniform (set ?recs)" unfolding rs using 1(3) by (rule uniform_mono) auto
    then obtain m where m: "mergeLocIndex y x = Some (m, [])" "level_sorted m" "level_recs m = level_recs y \<union> level_recs x"
      using buildLocIndex_uniform [of ?recs] unfolding rs mergeLocIndex_def by blast
    have u: "(\<Union>ix \<in> set (m # zs). level_recs ix) = (\<Union>ix \<in> set (x # y # zs). level_recs ix)"
      using m(3) by auto
    have "\<exists>ys. mergeLevels (m # zs) (clash @ []) = Some (ys, clash @ []) \<and> list_all level_sorted ys
        \<and> (\<Union>ix \<in> set ys. level_recs ix) = (\<Union>ix \<in> set (m # zs). level_recs ix)"
    proof (rule 1(1) [OF True m(1) refl])
      show "list_all level_sorted (m # zs)" using 1(2) m(2) by simp
      show "uniform (\<Union>ix \<in> set (m # zs). level_recs ix)" unfolding u by (rule 1(3))
    qed
    then show ?thesis using True m(1) unfolding u by simp
  next
    case False
    with 1(2) show ?thesis by simp
  qed
qed auto

text \<open>The records of a pack's entries that agree with the snapshot.\<close>

definition fresh_recs :: "packState \<Rightarrow> u32 \<Rightarrow> tier \<Rightarrow> packEntry list \<Rightarrow> locRec set" where
  "fresh_recs st idx t es =
     {mkLocRec e idx t | e. e \<in> set es
        \<and> (\<forall>q \<in> all_recs st. lr_sum q = pe_sha e \<longrightarrow> lr_logical q = lr_logical (mkLocRec e idx t))}"

lemma newRecs_fresh:
  assumes "snapshot_ok st"
  shows "set (fst (newRecs st idx t es)) = fresh_recs st idx t es"
proof (induction es)
  case (Cons e es)
  let ?r = "mkLocRec e idx t"
  have s: "lr_sum ?r = pe_sha e" by (simp add: mkLocRec_def)
  have "(case ps_best st (pe_sha e) of Some prev \<Rightarrow> lr_logical prev = lr_logical ?r | None \<Rightarrow> True)
      \<longleftrightarrow> (\<forall>q \<in> all_recs st. lr_sum q = pe_sha e \<longrightarrow> lr_logical q = lr_logical ?r)"
  proof (cases "ps_best st (pe_sha e)")
    case None
    with ps_best_all_recs(2) [OF assms, of "pe_sha e"] show ?thesis by simp
  next
    case (Some p)
    note p = ps_best_all_recs(1) [OF assms Some]
    then have "lr_logical q = lr_logical p" if "q \<in> all_recs st" "lr_sum q = pe_sha e" for q
    proof -
      have u: "uniform (all_recs st)" using assms by (simp add: snapshot_ok_def)
      show ?thesis by (rule uniformD [OF u]) (use that p in simp_all)
    qed
    then have "(\<forall>q \<in> all_recs st. lr_sum q = pe_sha e \<longrightarrow> lr_logical q = lr_logical ?r)
        \<longleftrightarrow> lr_logical p = lr_logical ?r"
      using p by metis
    with Some show ?thesis by simp
  qed
  moreover have "set (fst (newRecs st idx t (e # es))) = set (fst (newRecs st idx t es)) \<union>
      (if case ps_best st (pe_sha e) of Some prev \<Rightarrow> lr_logical prev = lr_logical ?r | None \<Rightarrow> True then {?r} else {})"
    by (simp add: s Let_def split: option.splits prod.splits)
  moreover have "fresh_recs st idx t (e # es) = fresh_recs st idx t es \<union>
      (if \<forall>q \<in> all_recs st. lr_sum q = pe_sha e \<longrightarrow> lr_logical q = lr_logical ?r then {?r} else {})"
    unfolding fresh_recs_def by (simp del: de_Morgan_conj) blast
  ultimately show ?case using Cons by simp
qed (simp add: fresh_recs_def)

lemma withPack_recs:
  assumes "snapshot_ok st" "\<not> (\<exists>p \<in> set (ps_packs st). pi_id p = pi_id info \<and> pi_tier p = pi_tier info)"
    and "length (ps_packs st) < unat packIdxMask"
    and "length entries + sum_list (map ix_size (ps_levels st)) < 4294967295"
    and "distinct (map pe_sha entries)"
  shows "\<exists>st'. withPack info entries st = Inr st' \<and> snapshot_ok st' \<and> ps_packs st' = ps_packs st @ [info]
    \<and> all_recs st' = all_recs st \<union> fresh_recs st (word_of_nat (length (ps_packs st))) (pi_tier info) entries"
proof -
  let ?idx = "word_of_nat (length (ps_packs st)) :: u32" and ?t = "pi_tier info"
  obtain recs clash where n: "newRecs st ?idx ?t entries = (recs, clash)" by fastforce
  have rs: "set recs = fresh_recs st ?idx ?t entries" using newRecs_fresh [OF assms(1), of ?idx ?t entries] n by simp
  have lim: "\<not> unat packIdxMask \<le> length (ps_packs st)"
    "\<not> 4294967295 \<le> length entries + sum_list (map ix_size (ps_levels st))"
    using assms(3,4) by simp_all
  have inj: "pe_sha e = pe_sha e' \<Longrightarrow> e = e'" if "e \<in> set entries" "e' \<in> set entries" for e e'
    using assms(5) that by (auto simp: distinct_map dest: inj_onD)
  have sm: "lr_sum (mkLocRec e ?idx ?t) = pe_sha e" for e by (simp add: mkLocRec_def)
  have u0: "uniform (all_recs st)" using assms(1) by (simp add: snapshot_ok_def)
  have mixed: "lr_logical q = lr_logical r" if "q \<in> all_recs st" "r \<in> set recs" "lr_sum q = lr_sum r" for q r
    using that unfolding rs fresh_recs_def by (auto simp: sm)
  have new: "lr_logical q = lr_logical r" if q: "q \<in> set recs" and r: "r \<in> set recs" and eq: "lr_sum q = lr_sum r" for q r
  proof -
    obtain e e' where "e \<in> set entries" "e' \<in> set entries" "q = mkLocRec e ?idx ?t" "r = mkLocRec e' ?idx ?t"
      using q r unfolding rs fresh_recs_def by blast
    moreover from this have "e = e'" using inj [of e e'] eq by (simp add: sm)
    ultimately show ?thesis by simp
  qed
  have u: "uniform (all_recs st \<union> set recs)"
    unfolding uniform_def
  proof (intro ballI impI)
    fix q r assume "q \<in> all_recs st \<union> set recs" "r \<in> all_recs st \<union> set recs" "lr_sum q = lr_sum r"
    then show "lr_logical q = lr_logical r"
      using uniformD [OF u0, of q r] mixed [of q r] mixed [of r q, symmetric] new [of q r] by (elim UnE) metis+
  qed
  show ?thesis
  proof (cases "recs = []")
    case True
    then have "withPack info entries st
        = Inr (st\<lparr>ps_packs := ps_packs st @ [info], ps_clash := ps_clash st @ clash\<rparr>)"
      unfolding withPack_def if_not_P [OF assms(2)] using n lim by simp
    then show ?thesis using assms(1) rs True by (simp add: snapshot_ok_def all_recs_def)
  next
    case False
    obtain ix where b: "buildLocIndex recs = Some (ix, [])" "level_sorted ix" "level_recs ix = set recs"
      using buildLocIndex_uniform [of recs] uniform_mono [OF u] by blast
    have un: "(\<Union>ix \<in> set (ix # rev (ps_levels st)). level_recs ix) = all_recs st \<union> set recs"
      using b(3) by (auto simp: all_recs_def)
    have "list_all level_sorted (ix # rev (ps_levels st))" using b(2) assms(1) by (simp add: snapshot_ok_def)
    from mergeLevels_recs [OF this, unfolded un, OF u, of "ps_clash st @ clash"]
    obtain ys where m: "mergeLevels (ix # rev (ps_levels st)) (ps_clash st @ clash) = Some (ys, ps_clash st @ clash)"
      "list_all level_sorted ys" "(\<Union>ix \<in> set ys. level_recs ix) = all_recs st \<union> set recs"
      by blast
    have "withPack info entries st
        = Inr (st\<lparr>ps_packs := ps_packs st @ [info], ps_clash := ps_clash st @ clash, ps_levels := rev ys\<rparr>)"
      unfolding withPack_def if_not_P [OF assms(2)] using lim n False b(1) m(1) by (simp add: Let_def)
    moreover have "uniform (\<Union>ix \<in> set ys. level_recs ix)" unfolding m(3) by (rule u)
    ultimately show ?thesis using m(2,3) rs by (simp add: snapshot_ok_def all_recs_def)
  qed
qed

text \<open>The location of an entry of the pack with number \<open>n\<close>.\<close>

definition entry_loc :: "nat \<Rightarrow> tier \<Rightarrow> packEntry \<Rightarrow> packLoc" where
  "entry_loc n t e =
     \<lparr>pl_pack = n, pl_tier = tier_num t, pl_codec = pe_codec e, pl_stored = pe_stored e,
      pl_logical = pe_logical e, pl_off = pe_off e\<rparr>"

definition agrees :: "packState \<Rightarrow> packEntry \<Rightarrow> bool" where
  "agrees st e \<longleftrightarrow> (\<forall>l \<in> set (appendLocs st (pe_sha e)). pl_logical l = pe_logical e)"

lemma unat_packIdxMask: "unat packIdxMask = 2 ^ 30 - 1"
  by (simp add: packIdxMask_def packIdxBits_def)

lemma mkLocRec_entry_loc:
  assumes "unat (pe_logical e) \<le> maxPackedChunkBytes" "n < unat packIdxMask"
  shows "lr_loc (mkLocRec e (word_of_nat n) t) = entry_loc n t e"
proof -
  have "n < 2 ^ 30" using assms(2) unfolding unat_packIdxMask by simp
  then have n: "unat (word_of_nat n :: u32) = n" by (simp add: unat_of_nat take_bit_nat_eq_self)
  have l: "unat (pe_logical e) < 2 ^ 24" using assms(1) by (simp add: maxPackedChunkBytes_def cdcMaxChunkSize_def)
  have "unat (word_of_nat n :: u32) < 2 ^ 30" unfolding n by (rule \<open>n < 2 ^ 30\<close>)
  from mkLocRec_loc [OF l this, of t] show ?thesis unfolding n entry_loc_def .
qed

lemma withPack_locs:
  assumes "snapshot_ok st" "\<not> (\<exists>p \<in> set (ps_packs st). pi_id p = pi_id info \<and> pi_tier p = pi_tier info)"
    and "length (ps_packs st) < unat packIdxMask"
    and "length entries + sum_list (map ix_size (ps_levels st)) < 4294967295"
    and "distinct (map pe_sha entries)" "\<forall>e \<in> set entries. unat (pe_logical e) \<le> maxPackedChunkBytes"
  shows "\<exists>st'. withPack info entries st = Inr st' \<and> snapshot_ok st' \<and> ps_packs st' = ps_packs st @ [info]
    \<and> (\<forall>dg. set (appendLocs st' dg) = set (appendLocs st dg)
         \<union> {entry_loc (length (ps_packs st)) (pi_tier info) e | e. e \<in> set entries \<and> pe_sha e = dg \<and> agrees st e})"
proof -
  let ?n = "length (ps_packs st)" and ?t = "pi_tier info"
  let ?r = "\<lambda>e. mkLocRec e (word_of_nat ?n) ?t"
  obtain st' where w: "withPack info entries st = Inr st'" "snapshot_ok st'" "ps_packs st' = ps_packs st @ [info]"
    and recs: "all_recs st' = all_recs st \<union> fresh_recs st (word_of_nat ?n) ?t entries"
    using withPack_recs [OF assms(1-5)] by blast
  have loc: "lr_loc (?r e) = entry_loc ?n ?t e" if "e \<in> set entries" for e
    using assms(3,6) that by (intro mkLocRec_entry_loc) simp_all
  have sm: "lr_sum (?r e) = pe_sha e" for e by (simp add: mkLocRec_def)
  have lg: "lr_logical r = pl_logical (lr_loc r)" for r by (simp add: lr_loc_def)
  have ag: "agrees st e \<longleftrightarrow> (\<forall>q \<in> all_recs st. lr_sum q = pe_sha e \<longrightarrow> lr_logical q = lr_logical (?r e))"
    if "e \<in> set entries" for e
    unfolding agrees_def appendLocs_set [OF assms(1)] lg loc [OF that] by (auto simp: entry_loc_def)
  have "{r \<in> fresh_recs st (word_of_nat ?n) ?t entries. lr_sum r = dg}
      = ?r ` {e \<in> set entries. pe_sha e = dg \<and> agrees st e}" for dg
    unfolding fresh_recs_def using ag by (auto simp: sm)
  then have "lr_loc ` {r \<in> fresh_recs st (word_of_nat ?n) ?t entries. lr_sum r = dg}
      = {entry_loc ?n ?t e | e. e \<in> set entries \<and> pe_sha e = dg \<and> agrees st e}" for dg
    using loc by (auto simp: image_iff)
  then have "set (appendLocs st' dg) = set (appendLocs st dg)
      \<union> {entry_loc ?n ?t e | e. e \<in> set entries \<and> pe_sha e = dg \<and> agrees st e}" for dg
    unfolding appendLocs_set [OF w(2)] appendLocs_set [OF assms(1)] recs
    by (auto simp: Collect_disj_eq conj_disj_distribR image_Un)
  with w show ?thesis by blast
qed

section \<open>One location per digest\<close>

text \<open>
  \<open>best\<close> with the level it found the record in: the code compares the addresses of records,
  and within a level a digest has one record, so an address is a level and a record.
\<close>

fun bestAt :: "nat \<Rightarrow> locIndex list \<Rightarrow> digest \<Rightarrow> (nat \<times> locRec) option \<Rightarrow> (nat \<times> locRec) option" where
  "bestAt n [] dg b = b"
| "bestAt n (ix # ixs) dg b =
     (case locFind ix dg of
        None \<Rightarrow> bestAt (Suc n) ixs dg b
      | Some r \<Rightarrow>
          if (case b of None \<Rightarrow> True | Some q \<Rightarrow> lr_tier r < lr_tier (snd q))
          then (if lr_tier r = tier_num TierHot then Some (n, r) else bestAt (Suc n) ixs dg (Some (n, r)))
          else bestAt (Suc n) ixs dg b)"

fun primariesFrom :: "packState \<Rightarrow> nat \<Rightarrow> locIndex list \<Rightarrow> locRec list" where
  "primariesFrom st n [] = []"
| "primariesFrom st n (ix # ixs) =
     filter (\<lambda>r. \<not> (length (ps_levels st) > 1 \<and> bestAt 0 (ps_levels st) (lr_sum r) None \<noteq> Some (n, r))) (ix_recs ix)
       @ primariesFrom st (Suc n) ixs"

definition primaries :: "packState \<Rightarrow> (digest \<times> packLoc) list" where
  "primaries st = map (\<lambda>r. (lr_sum r, lr_loc r)) (primariesFrom st 0 (ps_levels st))"

definition distinct_digests :: "packState \<Rightarrow> nat" where
  "distinct_digests st =
     (if length (ps_levels st) = 1 then length (ix_recs (hd (ps_levels st))) else length (primaries st))"

lemma bestAt_bestLevels: "map_option snd (bestAt n ixs dg b) = bestLevels ixs dg (map_option snd b)"
  by (induction n ixs dg b rule: bestAt.induct) (auto split: option.splits)

fun at_level :: "nat \<Rightarrow> locIndex list \<Rightarrow> nat \<Rightarrow> locRec \<Rightarrow> bool" where
  "at_level n [] m r = False"
| "at_level n (ix # ixs) m r = ((m = n \<and> r \<in> set (ix_recs ix)) \<or> at_level (Suc n) ixs m r)"

lemma locFind_in: "level_ok ix \<Longrightarrow> locFind ix dg = Some r \<Longrightarrow> r \<in> set (ix_recs ix) \<and> lr_sum r = dg"
  by (simp add: level_ok_def)

lemma bestAt_level:
  "bestAt n ixs dg b = Some (m, r) \<Longrightarrow> list_all level_ok ixs \<Longrightarrow>
     b = Some (m, r) \<or> at_level n ixs m r \<and> lr_sum r = dg"
proof (induction n ixs dg b rule: bestAt.induct)
  case (2 n ix ixs dg b)
  then show ?case
    using locFind_in [of ix dg] by (auto split: option.splits if_splits)
qed simp

lemma at_level_ge: "at_level n ixs m r \<Longrightarrow> n \<le> m"
  by (induction n ixs m r rule: at_level.induct) auto

lemma at_level_unique:
  "at_level n ixs m r \<Longrightarrow> at_level n ixs m q \<Longrightarrow> list_all level_sorted ixs \<Longrightarrow> lr_sum r = lr_sum q \<Longrightarrow> r = q"
proof (induction n ixs m r rule: at_level.induct)
  case (2 n ix ixs m r)
  show ?case
  proof (cases "m = n")
    case True
    then have "r \<in> set (ix_recs ix)" "q \<in> set (ix_recs ix)" using 2(2,3) by (auto dest: at_level_ge)
    moreover have "level_sorted ix" using 2(4) by simp
    ultimately show ?thesis using 2(5) by (auto simp: level_sorted_def distinct_map dest: inj_onD)
  qed (use 2 in auto)
qed simp

lemma primariesFrom_at:
  "r \<in> set (primariesFrom st n ixs) \<longleftrightarrow>
     (if length (ps_levels st) > 1
      then \<exists>m. at_level n ixs m r \<and> bestAt 0 (ps_levels st) (lr_sum r) None = Some (m, r)
      else \<exists>m. at_level n ixs m r)"
  by (induction st n ixs rule: primariesFrom.induct) auto

lemma primariesFrom_distinct:
  assumes "length (ps_levels st) > 1" and "list_all level_sorted ixs"
  shows "distinct (map lr_sum (primariesFrom st n ixs))"
  using assms
proof (induction st n ixs rule: primariesFrom.induct)
  case (2 st n ix ixs)
  have "distinct (map lr_sum (ix_recs ix))" using 2(3) by (simp add: level_sorted_def)
  then have "distinct (map lr_sum (filter P (ix_recs ix)))" for P by (rule distinct_map_filter)
  moreover have "lr_sum r \<noteq> lr_sum q"
    if "r \<in> set (primariesFrom st (Suc n) ixs)" "bestAt 0 (ps_levels st) (lr_sum q) None = Some (n, q)" for r q
    using that 2(2) by (auto simp: primariesFrom_at dest: at_level_ge)
  ultimately show ?case using 2 by (auto simp del: bestAt.simps) (metis lessI)+
qed simp

lemma primariesFrom_best:
  assumes "snapshot_ok st"
  shows "set (primariesFrom st 0 (ps_levels st)) = {r. ps_best st (lr_sum r) = Some r}"
    and "distinct (map lr_sum (primariesFrom st 0 (ps_levels st)))"
proof -
  have lv: "list_all level_sorted (ps_levels st)" using assms by (simp add: snapshot_ok_def)
  then have lo: "list_all level_ok (ps_levels st)" by (simp add: level_sorted_def list_all_iff)
  consider "ps_levels st = []" | ix where "ps_levels st = [ix]" | "length (ps_levels st) > 1"
    by (cases "ps_levels st" rule: remdups_adj.cases) auto
  then have "set (primariesFrom st 0 (ps_levels st)) = {r. ps_best st (lr_sum r) = Some r}
      \<and> distinct (map lr_sum (primariesFrom st 0 (ps_levels st)))"
  proof cases
    case 1
    then show ?thesis by (simp add: ps_best_def)
  next
    case 2
    then have "locFind ix (lr_sum r) = Some r \<longleftrightarrow> r \<in> set (ix_recs ix)" for r using lo by (simp add: level_ok_def)
    moreover have "ps_best st dg = locFind ix dg" for dg using 2 by (auto simp: ps_best_def split: option.splits)
    ultimately show ?thesis using 2 lv by (auto simp: level_sorted_def)
  next
    case 3
    have "(\<exists>m. at_level 0 (ps_levels st) m r \<and> bestAt 0 (ps_levels st) (lr_sum r) None = Some (m, r))
        \<longleftrightarrow> ps_best st (lr_sum r) = Some r" for r
    proof -
      have "ps_best st (lr_sum r) = map_option snd (bestAt 0 (ps_levels st) (lr_sum r) None)"
        by (simp add: ps_best_def bestAt_bestLevels)
      moreover have "at_level 0 (ps_levels st) m r" if "bestAt 0 (ps_levels st) (lr_sum r) None = Some (m, r)" for m
        using bestAt_level [OF that lo] by simp
      ultimately show ?thesis by auto
    qed
    then show ?thesis using 3 primariesFrom_distinct [OF 3 lv] by (auto simp: primariesFrom_at)
  qed
  then show "set (primariesFrom st 0 (ps_levels st)) = {r. ps_best st (lr_sum r) = Some r}"
    "distinct (map lr_sum (primariesFrom st 0 (ps_levels st)))" by auto
qed

lemma primaries_spec:
  assumes "snapshot_ok st"
  shows "distinct (map fst (primaries st))" "map_of (primaries st) = ps_lookup st"
    "distinct_digests st = card (dom (ps_lookup st))"
proof -
  note p = primariesFrom_best [OF assms]
  have f: "map fst (primaries st) = map lr_sum (primariesFrom st 0 (ps_levels st))"
    by (simp add: primaries_def comp_def)
  show d: "distinct (map fst (primaries st))" unfolding f by (rule p(2))
  show m: "map_of (primaries st) = ps_lookup st"
  proof (rule ext)
    fix dg
    show "map_of (primaries st) dg = ps_lookup st dg"
    proof (cases "ps_best st dg")
      case None
      have "dg \<notin> fst ` set (primaries st)"
      proof
        assume "dg \<in> fst ` set (primaries st)"
        then obtain r where "ps_best st (lr_sum r) = Some r" "dg = lr_sum r" using p(1) by (auto simp: primaries_def)
        with None show False by simp
      qed
      then show ?thesis using None by (simp add: ps_lookup_def map_of_eq_None_iff)
    next
      case (Some r)
      then have "lr_sum r = dg" using ps_best_all_recs(1) [OF assms] by blast
      with Some have "(dg, lr_loc r) \<in> set (primaries st)" using p(1) by (auto simp: primaries_def)
      with d have "map_of (primaries st) dg = Some (lr_loc r)" by simp
      with Some show ?thesis by (simp add: ps_lookup_def)
    qed
  qed
  have "length (primaries st) = card (dom (ps_lookup st))"
    unfolding m [symmetric] dom_map_of_conv_image_fst using d
    by (metis distinct_card image_set length_map)
  moreover have "length (ix_recs (hd (ps_levels st))) = length (primaries st)" if "length (ps_levels st) = 1"
    using that by (cases "ps_levels st") (auto simp: primaries_def)
  ultimately show "distinct_digests st = card (dom (ps_lookup st))" by (auto simp: distinct_digests_def)
qed

section \<open>Properties\<close>

text \<open>
  C13: Publishing a pack adds exactly its copies. On a snapshot without contradicting copies
  a new pack with distinct digests is indexed whatever level merges follow; afterwards the
  copies of every digest are the copies known before plus the new pack's entry for it,
  unless that entry contradicts the length already indexed. No merge drops a copy, so a
  fallback that existed before can still be read.
\<close>

theorem publishing_adds_exactly_its_copies:
  assumes "snapshot_ok st" and "\<not> (\<exists>p \<in> set (ps_packs st). pi_id p = pi_id info \<and> pi_tier p = pi_tier info)"
    and "length (ps_packs st) < unat packIdxMask"
    and "length entries + sum_list (map ix_size (ps_levels st)) < 4294967295"
    and "distinct (map pe_sha entries)" and "\<forall>e \<in> set entries. unat (pe_logical e) \<le> maxPackedChunkBytes"
  shows "\<exists>st'. withPack info entries st = Inr st' \<and> snapshot_ok st'
    \<and> (\<forall>dg. set (appendLocs st' dg) = set (appendLocs st dg)
         \<union> {entry_loc (length (ps_packs st)) (pi_tier info) e | e. e \<in> set entries \<and> pe_sha e = dg \<and> agrees st e})"
  using withPack_locs [OF assms] by blast

theorem publishing_adds_exactly_its_copies_witness:
  "\<exists>st'. withPack (newPackInfo ''a'' ''p'' 1 []) [\<lparr>pe_sha = 5, pe_off = 60, pe_stored = 1, pe_logical = 1, pe_codec = 0\<rparr>]
        \<lparr>ps_packs = [], ps_levels = [], ps_bad = [], ps_clash = []\<rparr> = Inr st'
     \<and> set (appendLocs st' 5)
        = {\<lparr>pl_pack = 0, pl_tier = 0, pl_codec = 0, pl_stored = 1, pl_logical = 1, pl_off = 60\<rparr>}"
proof -
  let ?st = "\<lparr>ps_packs = [], ps_levels = [], ps_bad = [], ps_clash = []\<rparr> :: packState"
  let ?e = "\<lparr>pe_sha = 5, pe_off = 60, pe_stored = 1, pe_logical = 1, pe_codec = 0\<rparr> :: packEntry"
  let ?info = "newPackInfo ''a'' ''p'' 1 []"
  have none: "appendLocs ?st dg = []" for dg by (simp add: appendLocs_def)
  have ok: "snapshot_ok ?st" by (simp add: snapshot_ok_def all_recs_def uniform_def)
  have t: "pi_tier ?info = TierHot" by (simp add: newPackInfo_def)
  obtain st' where w: "withPack ?info [?e] ?st = Inr st'"
    and l: "\<forall>dg. set (appendLocs st' dg) = set (appendLocs ?st dg)
         \<union> {entry_loc (length (ps_packs ?st)) (pi_tier ?info) e | e. e \<in> set [?e] \<and> pe_sha e = dg \<and> agrees ?st e}"
    using publishing_adds_exactly_its_copies [of ?st ?info "[?e]", OF ok]
    by (auto simp: unat_packIdxMask maxPackedChunkBytes_def cdcMaxChunkSize_def)
  have "set (appendLocs st' 5) = {entry_loc 0 TierHot ?e}"
    using l [rule_format, of 5] by (simp add: none agrees_def newPackInfo_def)
  then show ?thesis using w by (auto simp: entry_loc_def tier_num_def)
qed

text \<open>
  The iteration over primary locations refines the lookup map: every digest that can be
  looked up is visited once, with the location a lookup returns, and \<open>distinct\<close> is the
  number of digests.
\<close>

theorem primaries_refine_lookup:
  assumes "snapshot_ok st"
  shows "distinct (map fst (primaries st)) \<and> map_of (primaries st) = ps_lookup st
    \<and> distinct_digests st = card (dom (ps_lookup st))"
  using primaries_spec [OF assms] by blast

theorem primaries_refine_lookup_witness:
  "\<exists>st'. withPack (newPackInfo ''a'' ''p'' 1 []) [\<lparr>pe_sha = 5, pe_off = 60, pe_stored = 1, pe_logical = 1, pe_codec = 0\<rparr>]
        \<lparr>ps_packs = [], ps_levels = [], ps_bad = [], ps_clash = []\<rparr> = Inr st' \<and> distinct_digests st' = 1"
proof -
  let ?st = "\<lparr>ps_packs = [], ps_levels = [], ps_bad = [], ps_clash = []\<rparr> :: packState"
  let ?e = "\<lparr>pe_sha = 5, pe_off = 60, pe_stored = 1, pe_logical = 1, pe_codec = 0\<rparr> :: packEntry"
  let ?info = "newPackInfo ''a'' ''p'' 1 []"
  have ok: "snapshot_ok ?st" by (simp add: snapshot_ok_def all_recs_def uniform_def)
  obtain st' where w: "withPack ?info [?e] ?st = Inr st'" "snapshot_ok st'"
    using withPack_recs [OF ok, of ?info "[?e]"] by (auto simp: unat_packIdxMask)
  have "indexed st' = {5}"
    using withPack_indexed [OF snapshot_state_ok [OF ok], of ?info "[?e]"] w(1)
    by (auto simp: unat_packIdxMask indexed_def)
  then have "dom (ps_lookup st') = {5}"
    using ps_lookup_indexed [OF snapshot_state_ok [OF w(2)]] by (simp only: dom_def) simp
  then show ?thesis using w primaries_refine_lookup [OF w(2)] by (intro exI [of _ st']) simp
qed

end
