(* ===== verification/PackVerify.thy ===== *)
theory PackVerify
  imports Pack
begin

text \<open>
  What full verification of a pack guarantees (\<^verbatim>\<open>zeros3.go\<close>, section 4b, \<open>readPackLayout\<close> and
  \<open>verifyPackFile\<close>). Every pack is verified once, before it is renamed into place; from then
  on chunks are read from it record by record through the locator. Shown here: nothing about
  the writer has to be trusted for this, since any file that passes verification, whoever
  wrote it, serves every record of its index with the right bytes.
\<close>

lemma checkPackLengths_stored:
  "checkPackLengths c st lg = Inr () \<Longrightarrow> unat st \<le> maxPackedChunkBytes"
  by (auto simp: checkPackLengths_def Let_def word_less_nat_alt split: if_splits)

lemma readIndex_sound:
  assumes "readIndex i n m k acc idx = Inr (es, nx)" "unat k \<le> unat m" "unat m < 2 ^ 63"
  shows "\<exists>new. es = acc @ new \<and> tiled (unat k) new \<and> list_all entry_ok new
    \<and> (distinct (map pe_sha acc) \<longrightarrow> distinct (map pe_sha es)) \<and> unat nx = unat k + extent new \<and> unat nx \<le> unat m"
  using assms
proof (induction n arbitrary: i k acc idx)
  case (Suc n)
  let ?e = "getPackIndexEntry (take packIndexEntrySize idx)"
  let ?k = "pe_off ?e + ucast (pe_stored ?e)"
  have ok: "entry_ok ?e" and off: "pe_off ?e = k + word_of_nat packRecordHeaderSize" and le: "?k \<le> m"
    and fresh: "pe_sha ?e \<notin> pe_sha ` set acc"
    and rec: "readIndex (Suc i) n m ?k (acc @ [?e]) (drop packIndexEntrySize idx) = Inr (es, nx)"
    using Suc.prems(1) by (auto simp: Let_def entry_ok_def not_less split: sum.splits if_splits)
  have small: "unat (pe_stored ?e) \<le> maxPackedChunkBytes"
    using ok unfolding entry_ok_def by (rule checkPackLengths_stored)
  have o1: "pe_off ?e = word_of_nat (unat k + packRecordHeaderSize)" by (simp add: off)
  have o2: "?k = word_of_nat (unat k + packRecordHeaderSize + unat (pe_stored ?e))"
    unfolding o1 of_nat_add_ucast ..
  have k: "unat ?k = unat k + packRecordHeaderSize + unat (pe_stored ?e)"
    unfolding o2 using Suc.prems(2,3) small
    by (intro unat_u64) (simp add: maxPackedChunkBytes_def cdcMaxChunkSize_def packRecordHeaderSize_def)
  have "unat ?k \<le> unat m" using le by (simp add: word_le_nat_alt)
  from Suc.IH [OF rec this Suc.prems(3)] obtain new where new: "es = (acc @ [?e]) @ new" "tiled (unat ?k) new" "list_all entry_ok new"
    "distinct (map pe_sha (acc @ [?e])) \<longrightarrow> distinct (map pe_sha es)" "unat nx = unat ?k + extent new" "unat nx \<le> unat m"
    by blast
  have "tiled (unat k) (?e # new)" using new(2) o1 unfolding k tiled.simps by blast
  moreover have "distinct (map pe_sha acc) \<longrightarrow> distinct (map pe_sha es)" using new(4) fresh by auto
  ultimately show ?case using new ok k by (intro exI [of _ "?e # new"]) simp
qed auto

lemma readPackLayout_sound:
  assumes "readPackLayout f = Inr (es, body)" "length f < 2 ^ 63"
  shows "tiled packHeaderSize es \<and> list_all entry_ok es \<and> distinct (map pe_sha es)
    \<and> packHeaderSize + extent es \<le> length f - packFooterSize \<and> packHeaderSize + packFooterSize \<le> length f"
proof -
  let ?ft = "take packFooterSize (drop (length f - packFooterSize) f)"
  let ?io = "get_le (take 8 (drop 16 ?ft)) :: u64"
  let ?foot = "word_of_nat (length f) - word_of_nat packFooterSize :: u64"
  have sz: "packHeaderSize + packFooterSize \<le> length f"
    using assms(1) by (intro readPackLayout_footer(1)) simp
  obtain n idx nx where ri: "readIndex 0 n ?io (word_of_nat packHeaderSize) [] idx = Inr (es, nx)"
    and io: "word_of_nat packHeaderSize \<le> ?io" "?io \<le> ?foot"
    using assms(1) unfolding readPackLayout_def Let_def
    by (auto simp only: not_less simp_thms de_Morgan_disj sum.distinct sum.inject prod.inject intro: that
        split: if_split_asm sum.splits prod.splits)
  have en: "unat ?foot = length f - packFooterSize"
    using sz assms(2) by (simp add: unat_sub_if_size unat_u64 packFooterSize_def packHeaderSize_def word_size)
  have h: "unat (word_of_nat packHeaderSize :: u64) = packHeaderSize" by (simp add: packHeaderSize_def)
  have "unat (word_of_nat packHeaderSize :: u64) \<le> unat ?io" "unat ?io < 2 ^ 63"
    using io en assms(2) by (auto simp: word_le_nat_alt)
  from readIndex_sound [OF ri this] have "tiled packHeaderSize es" "list_all entry_ok es" "distinct (map pe_sha es)"
    "packHeaderSize + extent es \<le> unat ?io" unfolding h by auto
  then show ?thesis using io(2) en sz by (auto simp: word_le_nat_alt)
qed

lemma verifyRecords_sound:
  "verifyRecords Z i es r = Inr post \<Longrightarrow> \<exists>ds r0. r = r0 @ post \<and> length ds = length es \<and> records_match Z es ds r0"
proof (induction Z i es r rule: verifyRecords.induct)
  case (1 Z i r)
  then show ?case by (intro exI [of _ "[]"]) simp
next
  case (2 Z i e es r)
  let ?r1 = "drop packRecordHeaderSize r"
  let ?buf = "take (unat (pe_stored e)) ?r1"
  have a: "\<not> length r < packRecordHeaderSize" "take packRecordHeaderSize r = putPackRecordHeader e"
    "\<not> length ?r1 < unat (pe_stored e)"
    using 2(2) by (auto simp: Let_def split: if_splits)
  obtain d where d: "decodePackPayload Z (pe_codec e) ?buf (pe_logical e) (pe_sha e) = Inr d"
    and v: "verifyRecords Z (Suc i) es (drop (unat (pe_stored e)) ?r1) = Inr post"
    using 2(2) a by (auto simp: Let_def split: if_splits sum.splits)
  obtain ds r0 where IH: "drop (unat (pe_stored e)) ?r1 = r0 @ post" "length ds = length es" "records_match Z es ds r0"
    using 2(1) [OF a(1) _ refl refl a(3) d v] a(2) by auto
  obtain pl where pl: "pl = ?buf" by simp
  have "r = (putPackRecordHeader e @ pl @ r0) @ post"
    using a(2) IH(1) unfolding pl append_assoc by (metis append_take_drop_id)
  moreover have "length pl = unat (pe_stored e)" using a(3) pl by simp
  then have "records_match Z (e # es) (d # ds) (putPackRecordHeader e @ pl @ r0)"
    using d IH(3) unfolding pl [symmetric] records_match.simps by blast
  moreover have "length (d # ds) = length (e # es)" using IH(2) by simp
  ultimately show ?case by blast
qed

lemma verified_pack:
  assumes "verifyPackFile Z path f = Inr (info, es)" "length f < 2 ^ 63"
  shows "statPackFile path f = Inr (info, es)" "distinct (map pe_sha es)"
    "e \<in> set es \<Longrightarrow> unat (pe_logical e) \<le> maxPackedChunkBytes"
    "e \<in> set es \<Longrightarrow> \<exists>data. readPackRecord Z f e = Inr data"
proof -
  let ?body = "take (length f - packFooterSize) f"
  obtain post where st: "statPackFile path f = Inr (info, es)"
    and v: "verifyRecords Z 0 es (drop packHeaderSize ?body) = Inr post"
    using assms(1) by (auto simp: verifyPackFile_def bind_result.simps Let_def split: sum.splits if_splits prod.splits)
  then obtain bs where lay: "readPackLayout f = Inr (es, bs)"
    by (auto simp: statPackFile_def bind_result.simps split: sum.splits prod.splits)
  note l = readPackLayout_sound [OF lay assms(2)]
  show "statPackFile path f = Inr (info, es)" by (rule st)
  show "distinct (map pe_sha es)" using l by blast
  show "e \<in> set es \<Longrightarrow> unat (pe_logical e) \<le> maxPackedChunkBytes"
    using l by (auto simp: list_all_iff entry_ok_def checkPackLengths_def Let_def split: if_splits)
  obtain ds r0 where r: "drop packHeaderSize ?body = r0 @ post" "length ds = length es" "records_match Z es ds r0"
    using verifyRecords_sound [OF v] by blast
  have f: "f = take packHeaderSize f @ r0 @ (post @ drop (length f - packFooterSize) f)"
  proof -
    have "f = ?body @ drop (length f - packFooterSize) f" by simp
    also have "?body = take packHeaderSize f @ r0 @ post"
      using r(1) l append_take_drop_id [of packHeaderSize ?body] by (simp add: min_def)
    finally show ?thesis by simp
  qed
  show "\<exists>data. readPackRecord Z f e = Inr data" if "e \<in> set es"
  proof -
    obtain i where i: "i < length es" "e = es ! i" using \<open>e \<in> set es\<close> by (auto simp: in_set_conv_nth)
    have "readPackRecord Z (take packHeaderSize f @ r0 @ (post @ drop (length f - packFooterSize) f)) (es ! i) = Inr (ds ! i)"
      using l assms(2) i r(2) by (intro readPackRecord_at [OF r(3)]) auto
    then show ?thesis using i f by metis
  qed
qed

section \<open>Property\<close>

text \<open>
  C14: Verification is sufficient. Any file that passes full verification, with records of
  either codec and whoever wrote it, has pairwise different digests in its index and serves
  every index entry: the record at the entry's offset reads back to bytes with the entry's
  digest and logical length.
\<close>

theorem verified_pack_serves_every_record:
  assumes "verifyPackFile Z path f = Inr (info, es)" and "length f < 2 ^ 63"
  shows "distinct (map pe_sha es) \<and> pi_records info = length es
    \<and> (\<forall>e \<in> set es. \<exists>data. readPackRecord Z f e = Inr data
         \<and> sha256 data = pe_sha e \<and> length data = unat (pe_logical e))"
proof -
  note v = verified_pack [OF assms]
  have "pi_records info = length es"
    using v(1) by (auto simp: statPackFile_def newPackInfo_def)
  moreover have "\<exists>data. readPackRecord Z f e = Inr data \<and> sha256 data = pe_sha e \<and> length data = unat (pe_logical e)"
    if "e \<in> set es" for e
    using v(4) [OF that] readPackRecord_sound by blast
  ultimately show ?thesis using v(2) by blast
qed

theorem verified_pack_serves_every_record_witness:
  "\<exists>f info es data. packBuilder_Finish False (packBuild (Some stored_flate) [[7, 8, 9]]) = Some (f, es)
     \<and> verifyPackFile stored_flate ''p'' f = Inr (info, es)
     \<and> readPackRecord stored_flate f (hd es) = Inr data \<and> sha256 data = sha256 [7, 8, 9]"
proof -
  let ?b = "packBuild (Some stored_flate) [[7, 8, 9]]"
  obtain f es where f: "packBuilder_Finish False ?b = Some (f, es)" "pb_entries ?b = es"
    by (auto simp: packBuilder_Finish_def Let_def)
  have sh: "map pe_sha es = map sha256 [[7, 8, 9]]"
    using packBuild_ok [OF stored_flate_ok, of "Some stored_flate" "[[7, 8, 9]]"] f(2)
    by (simp add: packable_def maxPackedChunkBytes_def cdcMaxChunkSize_def)
  then have le: "length es = 1" by (metis length_map length_Cons list.size(3) One_nat_def)
  have sm: "length f < 2 ^ 63"
    using f(1) by (auto simp: packBuilder_Finish_def packBuild_def packBuilder_Add_def newPackBuilder_def
        packEncode_def stored_flate_def Let_def)
  have "is_ok (verifyPackFile stored_flate ''p'' f)" "readPackLayout f = Inr (es, sha256 (take (length f - packFooterSize) f))"
    using packBuild_valid [OF stored_flate_ok _ _ _ f(1) sm, of "''p''"]
    by (simp_all add: packable_def maxPackedChunkBytes_def cdcMaxChunkSize_def)
  then obtain info where v: "verifyPackFile stored_flate ''p'' f = Inr (info, es)"
    by (auto simp: verifyPackFile_def statPackFile_def Let_def split: if_splits sum.splits)
  have "hd es \<in> set es" using le by (cases es) auto
  then obtain data where "readPackRecord stored_flate f (hd es) = Inr data" "sha256 data = pe_sha (hd es)"
    using verified_pack_serves_every_record [OF v sm] by blast
  moreover have "pe_sha (hd es) = sha256 [7, 8, 9]" using sh by (cases es) auto
  ultimately show ?thesis using f v by auto
qed

end
