(* ===== verification/Cas.thy ===== *)
theory Cas
  imports Copies PackVerify Multipart
begin

text \<open>
  The content-addressed chunk store (\<^verbatim>\<open>zeros3.go\<close>, section 4): loose chunk files in shard
  directories, their staged publication under the barrier, and reading with verification and
  fallback between the loose and the packed copies. A loose chunk's path is a function of
  its digest, so the visible files are a map from digests to contents; staged files are a
  separate map that no lookup sees. Publication holds the barrier exclusively, so it is one
  step, with a failure possible at every directory creation, sync, stat and rename. Removals
  that clean up after a failure succeed. Shown here: a read never returns bytes with the
  wrong digest and succeeds exactly when some copy is good; and a failed publication leaves
  the visible chunks, the shard directories and everybody else's staged files as they were.
\<close>

section \<open>State and environment\<close>

definition chunkPath :: "string \<Rightarrow> digest \<Rightarrow> string" where
  "chunkPath root dg =
     (let h = hex_encode (digest_bytes dg)
      in root @ ''/chunks/'' @ take 2 h @ ''/'' @ take 2 (drop 2 h) @ ''/'' @ h)"

text \<open>
  A shard directory is named by the digest bytes that select it: one for \<^verbatim>\<open>aa\<close>, two for
  \<^verbatim>\<open>aa/bb\<close>, and none for \<^verbatim>\<open>chunks\<close> itself.
\<close>

definition shardDir :: "digest \<Rightarrow> bytes" where
  "shardDir dg = take 2 (digest_bytes dg)"

record casState =
  cs_root :: string
  cs_loose :: "(digest, bytes) fmap"
  cs_dirs :: "bytes set"
  cs_tmp :: "(nat, bytes) fmap"
  cs_nextTmp :: nat
  cs_packs :: packState
  cs_packFiles :: "(string, bytes) fmap"
  cs_format :: int

datatype cas_error =
    CasNotExist | CasCorrupt | CasIO | CasPack pack_error | CasBoth pack_error cas_error | CasLocator locator_error

text \<open>The steps of writing and publishing a pack that can fail.\<close>

datatype pack_step = PackCreate | PackFinish | PackReread | PackVerify | PackFormat | PackMkdir | PackRename | PackDirSync | PackLoad

text \<open>
  The environment of one operation: which calls fail and in which order a Go map is ranged
  over. \<open>io_early\<close> says that a flush in flight completes before the operation.
\<close>

record cas_io =
  io_stat :: "digest \<Rightarrow> bool"
  io_read :: "digest \<Rightarrow> bool"
  io_stage :: bool
  io_sync :: "nat \<Rightarrow> bool"
  io_mkdir :: "bytes \<Rightarrow> bool"
  io_order :: "bytes list \<Rightarrow> bytes list"
  io_dirsync :: "bytes \<Rightarrow> bool"
  io_pubstat :: "digest \<Rightarrow> bool"
  io_rename :: "nat \<Rightarrow> bool"
  io_pack :: "pack_step \<Rightarrow> bool"
  io_early :: bool

definition no_failure :: cas_io where
  "no_failure =
     \<lparr>io_stat = (\<lambda>_. False), io_read = (\<lambda>_. False), io_stage = False, io_sync = (\<lambda>_. False), io_mkdir = (\<lambda>_. False),
      io_order = (\<lambda>xs. xs), io_dirsync = (\<lambda>_. False), io_pubstat = (\<lambda>_. False), io_rename = (\<lambda>_. False),
      io_pack = (\<lambda>_. False), io_early = False\<rparr>"

section \<open>Lookup and read\<close>

definition casStatLocked :: "bool \<Rightarrow> digest \<Rightarrow> casState \<Rightarrow> cas_error + nat" where
  "casStatLocked fails dg s =
     (if fails then Inl CasIO
      else case fmlookup (cs_loose s) dg of
        Some data \<Rightarrow> Inr (length data)
      | None \<Rightarrow>
          (case ps_lookup (cs_packs s) dg of
             Some loc \<Rightarrow> Inr (unat (pl_logical loc))
           | None \<Rightarrow> Inl CasNotExist))"

definition casStat :: "bool \<Rightarrow> digest \<Rightarrow> casState \<Rightarrow> cas_error + nat" where
  "casStat fails dg s = casStatLocked fails dg s"

definition readPacked :: "flate_codec \<Rightarrow> digest \<Rightarrow> packLoc \<Rightarrow> casState \<Rightarrow> pack_error + bytes" where
  "readPacked Z dg loc s =
     (if pl_pack loc \<ge> length (ps_packs (cs_packs s)) then Inl PackStaleLocator
      else case fmlookup (cs_packFiles s) (pi_path (ps_packs (cs_packs s) ! pl_pack loc)) of
        None \<Rightarrow> Inl PackOpen
      | Some f \<Rightarrow>
          readPackRecord Z f \<lparr>pe_sha = dg, pe_off = pl_off loc, pe_stored = pl_stored loc,
                              pe_logical = pl_logical loc, pe_codec = pl_codec loc\<rparr>)"

text \<open>One read of the loose copy.\<close>

definition readLooseCopy :: "bool \<Rightarrow> digest \<Rightarrow> casState \<Rightarrow> cas_error + bytes" where
  "readLooseCopy fails dg s =
     (if fails then Inl CasIO
      else case fmlookup (cs_loose s) dg of
        None \<Rightarrow> Inl CasNotExist
      | Some data \<Rightarrow> if sha256 data \<noteq> dg then Inl CasCorrupt else Inr data)"

text \<open>
  The copies in preference order; the loose copy is tried before the first packed copy that
  is not hot, otherwise last. \<open>le\<close> is the error of the loose read once it was tried, \<open>pe\<close> the
  first packed error.
\<close>

fun readCopies ::
  "flate_codec \<Rightarrow> bool \<Rightarrow> digest \<Rightarrow> nat set \<Rightarrow> casState \<Rightarrow> cas_error option \<Rightarrow> pack_error option \<Rightarrow> packLoc list
    \<Rightarrow> cas_error + bytes" where
  "readCopies Z fails dg skip s le pe [] =
     (case (case le of None \<Rightarrow> readLooseCopy fails dg s | Some e \<Rightarrow> Inl e) of
        Inr data \<Rightarrow> Inr data
      | Inl looseErr \<Rightarrow>
          (case pe of
             None \<Rightarrow> Inl looseErr
           | Some p \<Rightarrow> if looseErr = CasNotExist then Inl (CasPack p) else Inl (CasBoth p looseErr)))"
| "readCopies Z fails dg skip s le pe (loc # locs) =
     (if pl_pack loc \<in> skip then readCopies Z fails dg skip s le pe locs
      else
        case (if pl_tier loc \<noteq> tier_num TierHot \<and> le = None then readLooseCopy fails dg s
              else Inl CasNotExist) of
          Inr data \<Rightarrow> Inr data
        | Inl e \<Rightarrow>
            (case readPacked Z dg loc s of
               Inr data \<Rightarrow> Inr data
             | Inl p \<Rightarrow>
                 readCopies Z fails dg skip s
                   (if pl_tier loc \<noteq> tier_num TierHot \<and> le = None then Some e else le)
                   (case pe of None \<Rightarrow> Some p | Some q \<Rightarrow> Some q) locs))"

definition casReadExcluding :: "flate_codec \<Rightarrow> bool \<Rightarrow> digest \<Rightarrow> nat set \<Rightarrow> casState \<Rightarrow> cas_error + bytes" where
  "casReadExcluding Z fails dg skip s = readCopies Z fails dg skip s None None (appendLocs (cs_packs s) dg)"

definition casRead :: "flate_codec \<Rightarrow> bool \<Rightarrow> digest \<Rightarrow> casState \<Rightarrow> cas_error + bytes" where
  "casRead Z fails dg s = casReadExcluding Z fails dg {} s"

section \<open>Staging and publication\<close>

record casStaged =
  st_sum :: digest
  st_tmp :: nat

definition casStage :: "bool \<Rightarrow> bytes \<Rightarrow> casState \<Rightarrow> (cas_error + nat) \<times> casState" where
  "casStage fails data s =
     (if fails then (Inl CasIO, s)
      else (Inr (cs_nextTmp s),
            s\<lparr>cs_tmp := fmupd (cs_nextTmp s) data (cs_tmp s), cs_nextTmp := cs_nextTmp s + 1\<rparr>))"

definition removeTmp :: "nat \<Rightarrow> casState \<Rightarrow> casState" where
  "removeTmp n s = s\<lparr>cs_tmp := fmdrop n (cs_tmp s)\<rparr>"

definition removeTmps :: "casStaged list \<Rightarrow> casState \<Rightarrow> casState" where
  "removeTmps files s = fold (\<lambda>f. removeTmp (st_tmp f)) files s"

text \<open>Creating the missing directories of a list: whether all succeeded, those made, and the directories.\<close>

fun mkDirs :: "(bytes \<Rightarrow> bool) \<Rightarrow> bytes list \<Rightarrow> bytes set \<Rightarrow> bool \<times> bytes list \<times> bytes set" where
  "mkDirs fails [] dirs = (True, [], dirs)"
| "mkDirs fails (d # ds) dirs =
     (if fails d then (False, [], dirs)
      else if d \<in> dirs then mkDirs fails ds dirs
      else case mkDirs fails ds (insert d dirs) of (ok, made, dirs') \<Rightarrow> (ok, d # made, dirs'))"

definition casEnsureShardDirs :: "cas_io \<Rightarrow> casStaged list \<Rightarrow> bytes set \<Rightarrow> bool \<times> bytes list \<times> bytes set" where
  "casEnsureShardDirs io files dirs =
     (let bbs = remdups (map (\<lambda>f. shardDir (st_sum f)) files);
          aas = remdups (map butlast bbs) in
      case mkDirs (io_mkdir io) (io_order io aas) dirs of
        (ok, newA, dirs1) \<Rightarrow>
          if \<not> ok then (False, newA, dirs1)
          else if newA \<noteq> [] \<and> io_dirsync io [] then (False, newA, dirs1)
          else case mkDirs (io_mkdir io) (io_order io bbs) dirs1 of
            (ok, newB, dirs2) \<Rightarrow>
              if \<not> ok then (False, newA @ newB, dirs2)
              else if \<exists>p \<in> set (map butlast newB). io_dirsync io p then (False, newA @ newB, dirs2)
              else (True, newA @ newB, dirs2))"

text \<open>
  The rename loop. It returns the files whose staged copy is still there, the digests it
  renamed into place, the error if any, and the state.
\<close>

fun publishLoop ::
  "cas_io \<Rightarrow> bool \<Rightarrow> casStaged list \<Rightarrow> digest list \<Rightarrow> casState
    \<Rightarrow> casStaged list \<times> digest list \<times> cas_error option \<times> casState" where
  "publishLoop io replace [] renamed s = ([], renamed, None, s)"
| "publishLoop io replace (f # fs) renamed s =
     (case (if replace then Inl CasNotExist else casStatLocked (io_pubstat io (st_sum f)) (st_sum f) s) of
        Inr _ \<Rightarrow> publishLoop io replace fs renamed (removeTmp (st_tmp f) s)
      | Inl CasNotExist \<Rightarrow>
          (case (if io_rename io (st_tmp f) then None else fmlookup (cs_tmp s) (st_tmp f)) of
             None \<Rightarrow> (f # fs, renamed, Some CasIO, s)
           | Some data \<Rightarrow>
               publishLoop io replace fs (renamed @ [st_sum f])
                 (removeTmp (st_tmp f) (s\<lparr>cs_loose := fmupd (st_sum f) data (cs_loose s)\<rparr>)))
      | Inl e \<Rightarrow> (f # fs, renamed, Some e, s))"

definition dirEmpty :: "bytes \<Rightarrow> casState \<Rightarrow> bool" where
  "dirEmpty d s \<longleftrightarrow> (\<forall>e \<in> cs_dirs s. e = [] \<or> butlast e \<noteq> d) \<and> (\<forall>dg \<in> fmdom' (cs_loose s). shardDir dg \<noteq> d)"

definition removeDir :: "bytes \<Rightarrow> casState \<Rightarrow> casState" where
  "removeDir d s = (if dirEmpty d s then s\<lparr>cs_dirs := cs_dirs s - {d}\<rparr> else s)"

definition casPublish :: "cas_io \<Rightarrow> casStaged list \<Rightarrow> bool \<Rightarrow> casState \<Rightarrow> (cas_error + unit) \<times> casState" where
  "casPublish io files replace s =
     (let cleanup = (\<lambda>left created newDirs s1.
            removeTmps left (fold removeDir (rev newDirs) (s1\<lparr>cs_loose := fold fmdrop created (cs_loose s1)\<rparr>))) in
      case casEnsureShardDirs io files (cs_dirs s) of
        (ok, newDirs, dirs) \<Rightarrow>
          let s0 = s\<lparr>cs_dirs := dirs\<rparr> in
          if \<not> ok then (Inl CasIO, cleanup files [] newDirs s0)
          else case publishLoop io replace files [] s0 of
            (left, renamed, err, s1) \<Rightarrow>
              let created = (if replace then [] else renamed) in
              (case err of
                 Some e \<Rightarrow> (Inl e, cleanup left created newDirs s1)
               | None \<Rightarrow>
                   if \<exists>dg \<in> set renamed. io_dirsync io (shardDir dg)
                   then (Inl CasIO, cleanup left created newDirs s1) else (Inr (), s1)))"

definition casFlushFiles :: "cas_io \<Rightarrow> casStaged list \<Rightarrow> casState \<Rightarrow> (cas_error + unit) \<times> casState" where
  "casFlushFiles io files s =
     (if \<exists>f \<in> set files. io_sync io (st_tmp f) then (Inl CasIO, removeTmps files s)
      else casPublish io files False s)"

section \<open>Reads\<close>

definition loose_good :: "digest \<Rightarrow> casState \<Rightarrow> bool" where
  "loose_good dg s \<longleftrightarrow> (\<exists>data. fmlookup (cs_loose s) dg = Some data \<and> sha256 data = dg)"

definition packed_good :: "flate_codec \<Rightarrow> nat set \<Rightarrow> digest \<Rightarrow> casState \<Rightarrow> bool" where
  "packed_good Z skip dg s \<longleftrightarrow>
     (\<exists>loc \<in> set (appendLocs (cs_packs s) dg). pl_pack loc \<notin> skip \<and> is_ok (readPacked Z dg loc s))"

lemma readLooseCopy_iff: "is_ok (readLooseCopy fails dg s) \<longleftrightarrow> \<not> fails \<and> loose_good dg s"
  by (auto simp: readLooseCopy_def loose_good_def split: option.splits)

lemma readLooseCopy_sound: "readLooseCopy fails dg s = Inr data \<Longrightarrow> sha256 data = dg"
  by (auto simp: readLooseCopy_def split: option.splits if_splits)

lemma readPacked_sound: "readPacked Z dg loc s = Inr data \<Longrightarrow> sha256 data = dg"
  using readPackRecord_sound by (fastforce simp: readPacked_def split: if_splits option.splits)

lemma readCopies_sound: "readCopies Z fails dg skip s le pe locs = Inr data \<Longrightarrow> sha256 data = dg"
proof (induction Z fails dg skip s le pe locs rule: readCopies.induct)
  case 1
  then show ?case by (auto dest: readLooseCopy_sound split: option.splits sum.splits if_splits)
next
  case 2
  then show ?case
    by (auto dest: readLooseCopy_sound readPacked_sound split: sum.splits if_splits)
qed

lemma is_ok_sum: "is_ok (case r of Inl e \<Rightarrow> f e | Inr x \<Rightarrow> Inr (g x)) \<longleftrightarrow> is_ok r \<or> (\<exists>e. r = Inl e \<and> is_ok (f e))"
  by (cases r) auto

lemma readCopies_ok:
  "is_ok (readCopies Z fails dg skip s le pe locs) \<longleftrightarrow>
     (le = None \<and> \<not> fails \<and> loose_good dg s) \<or> (\<exists>loc \<in> set locs. pl_pack loc \<notin> skip \<and> is_ok (readPacked Z dg loc s))"
proof (induction Z fails dg skip s le pe locs rule: readCopies.induct)
  case (1 Z fails dg skip s le pe)
  have "(case pe of None \<Rightarrow> Inl e | Some p \<Rightarrow> if e = CasNotExist then Inl (CasPack p) else Inl (CasBoth p e)) \<noteq> Inr x" for e and x :: bytes
    by (auto split: option.splits)
  then show ?case
    by (cases le) (auto simp: is_ok_sum readLooseCopy_iff simp del: not_ex)
next
  case (2 Z fails dg skip s le pe loc locs)
  show ?case
  proof (cases "pl_pack loc \<in> skip")
    case True
    with 2(1) show ?thesis by auto
  next
    case False
    let ?first = "pl_tier loc \<noteq> tier_num TierHot \<and> le = None"
    let ?l = "if ?first then readLooseCopy fails dg s else Inl CasNotExist"
    show ?thesis
    proof (cases "is_ok ?l")
      case True
      then have "?first" "\<not> fails \<and> loose_good dg s" by (auto simp: readLooseCopy_iff [symmetric] split: if_splits)
      with True False show ?thesis by auto
    next
      case no: False
      then obtain e where e: "?l = Inl e" by (metis sum.exhaust)
      have nl: "?first \<Longrightarrow> \<not> (\<not> fails \<and> loose_good dg s)" using no by (simp add: readLooseCopy_iff)
      show ?thesis
      proof (cases "readPacked Z dg loc s")
        case (Inr data)
        then show ?thesis using False e by simp
      next
        case (Inl p)
        from 2(2) [OF False e Inl] show ?thesis
          using False e Inl nl by (auto simp del: not_ex)
      qed
    qed
  qed
qed

lemma casReadExcluding_ok:
  "is_ok (casReadExcluding Z fails dg skip s) \<longleftrightarrow> \<not> fails \<and> loose_good dg s \<or> packed_good Z skip dg s"
  unfolding casReadExcluding_def packed_good_def readCopies_ok by simp

section \<open>Publication\<close>

lemma fmlookup_fold_fmdrop [simp]:
  "fmlookup (fold fmdrop ks m) k = (if k \<in> set ks then None else fmlookup m k)"
  by (induction ks arbitrary: m) auto

lemma removeTmps_eq: "removeTmps fs s = s\<lparr>cs_tmp := fold fmdrop (map st_tmp fs) (cs_tmp s)\<rparr>"
  unfolding removeTmps_def by (induction fs arbitrary: s) (simp_all add: removeTmp_def)

subsection \<open>Shard directories\<close>

definition dirs_ok :: "casState \<Rightarrow> bool" where
  "dirs_ok s \<longleftrightarrow> (\<forall>dg \<in> fmdom' (cs_loose s). shardDir dg \<in> cs_dirs s)
     \<and> (\<forall>e \<in> cs_dirs s. length e = 1 \<or> length e = 2 \<and> butlast e \<in> cs_dirs s)"

definition order_ok :: "cas_io \<Rightarrow> bool" where
  "order_ok io \<longleftrightarrow> (\<forall>xs. set (io_order io xs) = set xs)"

lemma length_shardDir [simp]: "length (shardDir dg) = 2"
  by (simp add: shardDir_def)

lemma mkDirs_spec:
  "mkDirs fails ds D = (ok, made, D') \<Longrightarrow>
     D' = D \<union> set made \<and> set made \<subseteq> set ds \<and> D \<inter> set made = {} \<and> (ok \<longrightarrow> set ds \<subseteq> D')"
  by (induction fails ds D arbitrary: ok made D' rule: mkDirs.induct) (fastforce split: if_splits prod.splits)+

lemma casEnsureShardDirs_spec:
  assumes "casEnsureShardDirs io files D = (ok, new, D')" "order_ok io"
  shows "\<exists>A B. new = A @ B \<and> D' = D \<union> set A \<union> set B \<and> D \<inter> (set A \<union> set B) = {}
    \<and> (\<forall>a \<in> set A. length a = 1) \<and> (\<forall>b \<in> set B. length b = 2 \<and> butlast b \<in> D')
    \<and> (ok \<longrightarrow> (\<forall>f \<in> set files. shardDir (st_sum f) \<in> D' \<and> butlast (shardDir (st_sum f)) \<in> D'))"
proof -
  let ?bbs = "remdups (map (\<lambda>f. shardDir (st_sum f)) files)"
  let ?aas = "remdups (map butlast ?bbs)"
  have la: "a \<in> set (io_order io ?aas) \<Longrightarrow> length a = 1" for a using assms(2) by (auto simp: order_ok_def)
  have lb: "b \<in> set (io_order io ?bbs) \<Longrightarrow> length b = 2 \<and> butlast b \<in> set (io_order io ?aas)" for b
    using assms(2) by (auto simp: order_ok_def)
  have fb: "f \<in> set files \<Longrightarrow> shardDir (st_sum f) \<in> set (io_order io ?bbs)" for f using assms(2) by (simp add: order_ok_def)
  obtain ok1 A D1 where m1: "mkDirs (io_mkdir io) (io_order io ?aas) D = (ok1, A, D1)" by (metis prod_cases3)
  note s1 = mkDirs_spec [OF m1]
  show ?thesis
  proof (cases "\<not> ok1 \<or> A \<noteq> [] \<and> io_dirsync io []")
    case True
    then have "ok = False" "new = A" "D' = D1"
      using assms(1) m1 by (auto simp: casEnsureShardDirs_def Let_def split: if_splits)
    with s1 la show ?thesis by (intro exI [of _ A] exI [of _ "[]"]) auto
  next
    case False
    obtain ok2 B D2 where m2: "mkDirs (io_mkdir io) (io_order io ?bbs) D1 = (ok2, B, D2)" by (metis prod_cases3)
    note s2 = mkDirs_spec [OF m2]
    have r: "ok \<longrightarrow> ok2" "new = A @ B" "D' = D2"
      using assms(1) m1 m2 False by (auto simp: casEnsureShardDirs_def Let_def split: if_splits)
    have aD: "set (io_order io ?aas) \<subseteq> D1" using s1 False by blast
    have D': "D' = D \<union> set A \<union> set B" "D \<inter> (set A \<union> set B) = {}" using s1 s2 r(3) by auto
    have lA: "\<forall>a \<in> set A. length a = 1" using s1 la by blast
    have sub: "set (io_order io ?aas) \<subseteq> D'" using aD s2 r(3) by blast
    have lB: "\<forall>b \<in> set B. length b = 2 \<and> butlast b \<in> D'" using s2 lb sub by blast
    have "ok \<longrightarrow> (\<forall>f \<in> set files. shardDir (st_sum f) \<in> D' \<and> butlast (shardDir (st_sum f)) \<in> D')"
      using s2 r fb lb sub by blast
    with D' lA lB r(2) show ?thesis by (intro exI [of _ A] exI [of _ B] conjI)
  qed
qed

lemma removeDir_fold:
  "\<forall>d \<in> set ds. dirEmpty d s \<Longrightarrow> fold removeDir ds s = s\<lparr>cs_dirs := cs_dirs s - set ds\<rparr>"
proof (induction ds arbitrary: s)
  case (Cons d ds)
  let ?s = "s\<lparr>cs_dirs := cs_dirs s - {d}\<rparr>"
  have "\<forall>d \<in> set ds. dirEmpty d ?s" using Cons.prems by (auto simp: dirEmpty_def)
  with Cons show ?case by (simp add: removeDir_def Diff_insert2 [symmetric] insert_Diff_if)
qed simp

lemma removeDir_new:
  assumes "dirs_ok s" "D' = cs_dirs s \<union> set A \<union> set B" "cs_dirs s \<inter> (set A \<union> set B) = {}"
    and "\<forall>a \<in> set A. length a = 1" "\<forall>b \<in> set B. length b = 2"
  shows "fold removeDir (rev (A @ B)) (s\<lparr>cs_dirs := D', cs_tmp := tm\<rparr>) = s\<lparr>cs_tmp := tm\<rparr>"
proof -
  let ?s = "s\<lparr>cs_dirs := D', cs_tmp := tm\<rparr>"
  have len: "e \<in> D' \<Longrightarrow> length e = 1 \<or> length e = 2" for e using assms by (auto simp: dirs_ok_def)
  have "dirEmpty b ?s" if b: "b \<in> set B" for b
  proof -
    have "butlast e \<noteq> b" if "e \<in> D'" for e
    proof
      assume "butlast e = b"
      then have "length e - 1 = 2" using assms(5) b by (metis length_butlast)
      then show False using len [OF that] by auto
    qed
    moreover have "shardDir dg \<noteq> b" if "dg \<in> fmdom' (cs_loose s)" for dg
      using assms(1,3) b that by (auto simp: dirs_ok_def)
    ultimately show ?thesis by (simp add: dirEmpty_def)
  qed
  then have fb: "fold removeDir (rev B) ?s = ?s\<lparr>cs_dirs := D' - set B\<rparr>" using removeDir_fold [of "rev B" ?s] by simp
  have "dirEmpty a (?s\<lparr>cs_dirs := D' - set B\<rparr>)" if a: "a \<in> set A" for a
  proof -
    have "butlast e \<noteq> a" if e: "e \<in> D' - set B" for e
    proof
      assume eq: "butlast e = a"
      then have "length e = 2" using assms(4) a len [of e] e by auto
      then have "e \<in> cs_dirs s" using e assms(2,4) by auto
      then have "a \<in> cs_dirs s" using assms(1) eq \<open>length e = 2\<close> by (auto simp: dirs_ok_def)
      then show False using assms(3) a by auto
    qed
    moreover have "shardDir dg \<noteq> a" for dg using assms(4) a by force
    ultimately show ?thesis by (simp add: dirEmpty_def)
  qed
  then have "fold removeDir (rev A) (?s\<lparr>cs_dirs := D' - set B\<rparr>) = ?s\<lparr>cs_dirs := D' - set B - set A\<rparr>"
    using removeDir_fold [of "rev A" "?s\<lparr>cs_dirs := D' - set B\<rparr>"] by simp
  moreover have "D' - set B - set A = cs_dirs s" using assms(2,3) by auto
  ultimately show ?thesis using fb by simp
qed

subsection \<open>The rename loop\<close>

definition stored :: "digest \<Rightarrow> casState \<Rightarrow> bool" where
  "stored dg s \<longleftrightarrow> fmlookup (cs_loose s) dg \<noteq> None \<or> ps_lookup (cs_packs s) dg \<noteq> None"

lemma casStatLocked_ok: "is_ok (casStatLocked fails dg s) \<longleftrightarrow> \<not> fails \<and> stored dg s"
  by (auto simp: casStatLocked_def stored_def split: option.splits)

lemma casStatLocked_none: "casStatLocked fails dg s = Inl CasNotExist \<longleftrightarrow> \<not> fails \<and> \<not> stored dg s"
  by (auto simp: casStatLocked_def stored_def split: option.splits)

text \<open>
  The effect of the loop: of the files \<open>fs\<close> it dealt with \<open>dn\<close>, all of them stored
  afterwards, and renamed the staged contents of the digests \<open>new\<close>, which had no file before.
\<close>

definition moved :: "casStaged list \<Rightarrow> casStaged list \<Rightarrow> digest list \<Rightarrow> casState \<Rightarrow> casState \<Rightarrow> bool" where
  "moved fs dn new s s' \<longleftrightarrow>
     s' = s\<lparr>cs_loose := cs_loose s', cs_tmp := fold fmdrop (map st_tmp dn) (cs_tmp s)\<rparr>
     \<and> (\<forall>dg. fmlookup (cs_loose s') dg =
           (if dg \<in> set new then fmlookup (cs_loose s') dg else fmlookup (cs_loose s) dg))
     \<and> (\<forall>dg \<in> set new. fmlookup (cs_loose s) dg = None
           \<and> (\<exists>f \<in> set fs. \<exists>data. st_sum f = dg \<and> fmlookup (cs_tmp s) (st_tmp f) = Some data
                \<and> fmlookup (cs_loose s') dg = Some data))
     \<and> (\<forall>f \<in> set dn. stored (st_sum f) s')"

lemma moved_D:
  assumes "moved fs dn new s s'"
  shows "cs_dirs s' = cs_dirs s" "cs_packs s' = cs_packs s" "cs_packFiles s' = cs_packFiles s"
    "cs_format s' = cs_format s" "cs_nextTmp s' = cs_nextTmp s"
    "cs_tmp s' = fold fmdrop (map st_tmp dn) (cs_tmp s)"
    "dg \<notin> set new \<Longrightarrow> fmlookup (cs_loose s') dg = fmlookup (cs_loose s) dg"
    "dg \<in> set new \<Longrightarrow> fmlookup (cs_loose s) dg = None" "cs_root s' = cs_root s"
proof -
  have e: "s' = s\<lparr>cs_loose := cs_loose s', cs_tmp := fold fmdrop (map st_tmp dn) (cs_tmp s)\<rparr>"
    using assms by (simp add: moved_def)
  show "cs_dirs s' = cs_dirs s" "cs_packs s' = cs_packs s" "cs_packFiles s' = cs_packFiles s"
    "cs_format s' = cs_format s" "cs_nextTmp s' = cs_nextTmp s"
    "cs_tmp s' = fold fmdrop (map st_tmp dn) (cs_tmp s)" "cs_root s' = cs_root s" by (subst e, simp)+
  show "dg \<notin> set new \<Longrightarrow> fmlookup (cs_loose s') dg = fmlookup (cs_loose s) dg"
    using assms unfolding moved_def by metis
  show "dg \<in> set new \<Longrightarrow> fmlookup (cs_loose s) dg = None" using assms unfolding moved_def by blast
qed

lemma moved_new:
  "moved fs dn new s s' \<Longrightarrow> dg \<in> set new \<Longrightarrow> \<exists>f \<in> set fs. \<exists>data. st_sum f = dg
     \<and> fmlookup (cs_tmp s) (st_tmp f) = Some data \<and> fmlookup (cs_loose s') dg = Some data"
  unfolding moved_def by blast

lemma stored_moved: "moved fs dn new s s' \<Longrightarrow> stored dg s \<Longrightarrow> stored dg s'"
  using moved_D(2,7,8) unfolding stored_def by metis

lemma moved_Nil: "moved fs [] [] s s"
  by (simp add: moved_def)

lemma moved_skip:
  assumes "moved fs dn new (removeTmp (st_tmp f) s) s'" "stored (st_sum f) s"
  shows "moved (f # fs) (f # dn) new s s'"
proof -
  have st: "stored dg (removeTmp n s) = stored dg s" for dg n by (simp add: stored_def removeTmp_def)
  have "stored (st_sum f) s'" using stored_moved [OF assms(1)] assms(2) st by blast
  moreover have "s' = s\<lparr>cs_loose := cs_loose s', cs_tmp := fold fmdrop (map st_tmp (f # dn)) (cs_tmp s)\<rparr>"
    using assms(1) by (simp add: moved_def removeTmp_def)
  ultimately show ?thesis
    using assms(1) unfolding moved_def by (fastforce simp: removeTmp_def split: if_splits)
qed

lemma moved_put:
  assumes "moved fs dn new (removeTmp (st_tmp f) (s\<lparr>cs_loose := fmupd (st_sum f) data (cs_loose s)\<rparr>)) s'"
    and "\<not> stored (st_sum f) s" "fmlookup (cs_tmp s) (st_tmp f) = Some data"
  shows "moved (f # fs) (f # dn) (st_sum f # new) s s'"
proof -
  let ?s = "removeTmp (st_tmp f) (s\<lparr>cs_loose := fmupd (st_sum f) data (cs_loose s)\<rparr>)"
  note d = moved_D [OF assms(1)]
  have nf: "st_sum f \<notin> set new" using d(8) [of "st_sum f"] by (auto simp: removeTmp_def)
  have lf: "fmlookup (cs_loose s') (st_sum f) = Some data" using d(7) [OF nf] by (simp add: removeTmp_def)
  have e: "s' = s\<lparr>cs_loose := cs_loose s', cs_tmp := fold fmdrop (map st_tmp (f # dn)) (cs_tmp s)\<rparr>"
    using assms(1) by (simp add: moved_def removeTmp_def)
  have new: "fmlookup (cs_loose s) dg = None \<and> (\<exists>g \<in> set (f # fs). \<exists>data. st_sum g = dg
      \<and> fmlookup (cs_tmp s) (st_tmp g) = Some data \<and> fmlookup (cs_loose s') dg = Some data)" if dg: "dg \<in> set new" for dg
  proof -
    have "fmlookup (cs_loose ?s) dg = None" using d(8) [OF dg] .
    then have "fmlookup (cs_loose s) dg = None" using dg nf by (simp add: removeTmp_def split: if_splits)
    moreover obtain g x where "g \<in> set fs" "st_sum g = dg" "fmlookup (cs_tmp ?s) (st_tmp g) = Some x"
      "fmlookup (cs_loose s') dg = Some x" using assms(1) dg unfolding moved_def by blast
    ultimately show ?thesis by (auto simp: removeTmp_def split: if_splits)
  qed
  have other: "fmlookup (cs_loose s') dg = fmlookup (cs_loose s) dg" if "dg \<notin> set (st_sum f # new)" for dg
    using d(7) [of dg] that by (auto simp: removeTmp_def split: if_splits)
  have "\<forall>g \<in> set (f # dn). stored (st_sum g) s'"
    using assms(1) lf by (auto simp: moved_def stored_def)
  then show ?thesis
    unfolding moved_def using e new other lf assms(2,3) by (auto simp: stored_def)
qed

lemma publishLoop_spec:
  "publishLoop io False fs ren s = (left, ren', err, s') \<Longrightarrow>
     \<exists>dn new. fs = dn @ left \<and> ren' = ren @ new \<and> (err = None \<longleftrightarrow> left = []) \<and> moved fs dn new s s'"
proof (induction fs arbitrary: ren s)
  case Nil
  then show ?case using moved_Nil by fastforce
next
  case (Cons f fs)
  let ?st = "casStatLocked (io_pubstat io (st_sum f)) (st_sum f) s"
  consider n where "?st = Inr n" | "?st = Inl CasNotExist" | e where "?st = Inl e" "e \<noteq> CasNotExist"
    by (cases ?st) auto
  then show ?case
  proof cases
    case 1
    then have st: "stored (st_sum f) s" using casStatLocked_ok by blast
    have "publishLoop io False fs ren (removeTmp (st_tmp f) s) = (left, ren', err, s')" using Cons.prems 1 by simp
    from Cons.IH [OF this] obtain dn new where "fs = dn @ left" "ren' = ren @ new" "err = None \<longleftrightarrow> left = []"
      "moved fs dn new (removeTmp (st_tmp f) s) s'" by blast
    with moved_skip [OF _ st] show ?thesis by (intro exI [of _ "f # dn"] exI [of _ new]) simp
  next
    case 2
    then have st: "\<not> stored (st_sum f) s" using casStatLocked_none by blast
    show ?thesis
    proof (cases "if io_rename io (st_tmp f) then None else fmlookup (cs_tmp s) (st_tmp f)")
      case None
      then have "left = f # fs" "ren' = ren" "err = Some CasIO" "s' = s" using Cons.prems 2 by simp_all
      then show ?thesis using moved_Nil by (intro exI [of _ "[]"]) simp
    next
      case (Some data)
      let ?s = "removeTmp (st_tmp f) (s\<lparr>cs_loose := fmupd (st_sum f) data (cs_loose s)\<rparr>)"
      have t: "fmlookup (cs_tmp s) (st_tmp f) = Some data" using Some by (simp split: if_splits)
      have "publishLoop io False fs (ren @ [st_sum f]) ?s = (left, ren', err, s')" using Cons.prems 2 Some by simp
      from Cons.IH [OF this] obtain dn new where "fs = dn @ left" "ren' = (ren @ [st_sum f]) @ new"
        "err = None \<longleftrightarrow> left = []" "moved fs dn new ?s s'" by blast
      with moved_put [OF _ st t] show ?thesis by (intro exI [of _ "f # dn"] exI [of _ "st_sum f # new"]) simp
    qed
  next
    case 3
    then have "left = f # fs" "ren' = ren" "err = Some e" "s' = s"
      using Cons.prems by (cases e; simp)+
    then show ?thesis using moved_Nil by (intro exI [of _ "[]"]) simp
  qed
qed

subsection \<open>The whole publication\<close>

lemma moved_rollback:
  assumes "moved fs dn new (s\<lparr>cs_dirs := D\<rparr>) s'"
  shows "s'\<lparr>cs_loose := fold fmdrop new (cs_loose s')\<rparr>
    = s\<lparr>cs_dirs := D, cs_tmp := fold fmdrop (map st_tmp dn) (cs_tmp s)\<rparr>"
proof -
  note d = moved_D [OF assms]
  have "fold fmdrop new (cs_loose s') = cs_loose s"
    using d(7,8) by (intro fmap_ext) (auto split: if_splits)
  then show ?thesis using d(1-6,9) by (cases s'; cases s) simp
qed

lemma cleanup_restores:
  assumes "dirs_ok s" "casEnsureShardDirs io files (cs_dirs s) = (ok, newDirs, D)" "order_ok io"
    and "s1 = s\<lparr>cs_dirs := D, cs_tmp := fold fmdrop (map st_tmp dn) (cs_tmp s)\<rparr>" "files = dn @ left"
  shows "removeTmps left (fold removeDir (rev newDirs) s1)
    = s\<lparr>cs_tmp := fold fmdrop (map st_tmp files) (cs_tmp s)\<rparr>"
proof -
  obtain A B where AB: "newDirs = A @ B" "D = cs_dirs s \<union> set A \<union> set B" "cs_dirs s \<inter> (set A \<union> set B) = {}"
    "\<forall>a \<in> set A. length a = 1" "\<forall>b \<in> set B. length b = 2"
    using casEnsureShardDirs_spec [OF assms(2,3)] by blast
  have "fold removeDir (rev newDirs) s1 = s\<lparr>cs_tmp := fold fmdrop (map st_tmp dn) (cs_tmp s)\<rparr>"
    unfolding AB(1) assms(4) by (rule removeDir_new [OF assms(1) AB(2-5)])
  then show ?thesis by (simp add: removeTmps_eq assms(5))
qed

lemma casPublish_cases:
  assumes "casPublish io files False s = (r, s')" "dirs_ok s" "order_ok io"
  shows "(\<exists>e. r = Inl e) \<and> s' = s\<lparr>cs_tmp := fold fmdrop (map st_tmp files) (cs_tmp s)\<rparr>
    \<or> r = Inr () \<and> (\<exists>new D. moved files files new (s\<lparr>cs_dirs := D\<rparr>) s' \<and> cs_dirs s \<subseteq> D \<and> dirs_ok s')"
proof -
  obtain ok newDirs D where en: "casEnsureShardDirs io files (cs_dirs s) = (ok, newDirs, D)" by (metis prod_cases3)
  let ?s0 = "s\<lparr>cs_dirs := D\<rparr>"
  show ?thesis
  proof (cases ok)
    case False
    then have "r = Inl CasIO" "s' = removeTmps files (fold removeDir (rev newDirs) ?s0)"
      using assms(1) en by (auto simp: casPublish_def Let_def)
    with cleanup_restores [OF assms(2) en assms(3), of ?s0 "[]" files] show ?thesis by simp
  next
    case True
    obtain left ren err s1 where pl: "publishLoop io False files [] ?s0 = (left, ren, err, s1)" by (metis prod_cases4)
    obtain dn where dn: "files = dn @ left" "err = None \<longleftrightarrow> left = []" "moved files dn ren ?s0 s1"
      using publishLoop_spec [OF pl] by auto
    have rb: "removeTmps left (fold removeDir (rev newDirs) (s1\<lparr>cs_loose := fold fmdrop ren (cs_loose s1)\<rparr>))
        = s\<lparr>cs_tmp := fold fmdrop (map st_tmp files) (cs_tmp s)\<rparr>"
      unfolding moved_rollback [OF dn(3)] by (rule cleanup_restores [OF assms(2) en assms(3) refl dn(1)])
    show ?thesis
    proof (cases "err = None \<and> \<not> (\<exists>dg \<in> set ren. io_dirsync io (shardDir dg))")
      case False
      then have "\<exists>e. r = Inl e" "s' = removeTmps left (fold removeDir (rev newDirs) (s1\<lparr>cs_loose := fold fmdrop ren (cs_loose s1)\<rparr>))"
        using assms(1) en True pl by (auto simp: casPublish_def Let_def split: option.splits if_splits)
      with rb show ?thesis by simp
    next
      case fine: True
      then have r: "r = Inr ()" "s' = s1" using assms(1) en True pl by (auto simp: casPublish_def Let_def)
      have m: "moved files files ren ?s0 s'" using dn fine r(2) by simp
      obtain A B where AB: "D = cs_dirs s \<union> set A \<union> set B" "\<forall>a \<in> set A. length a = 1"
        "\<forall>b \<in> set B. length b = 2 \<and> butlast b \<in> D" "\<forall>f \<in> set files. shardDir (st_sum f) \<in> D"
        using casEnsureShardDirs_spec [OF en assms(3)] True by blast
      have "shardDir dg \<in> D" if "dg \<in> fmdom' (cs_loose s')" for dg
      proof (cases "dg \<in> set ren")
        case True
        then obtain f where "f \<in> set files" "st_sum f = dg" using m unfolding moved_def by blast
        then show ?thesis using AB(4) by blast
      next
        case False
        then have "dg \<in> fmdom' (cs_loose s)" using that moved_D(7) [OF m False] by (simp add: fmdom'_def fmdom_def dom_def fmlookup_dom'_iff)
        then show ?thesis using assms(2) AB(1) by (auto simp: dirs_ok_def)
      qed
      then have "dirs_ok s'"
        using assms(2) AB moved_D(1) [OF m] by (auto simp: dirs_ok_def)
      with m r AB(1) show ?thesis by blast
    qed
  qed
qed

lemma casFlushFiles_cases:
  assumes "casFlushFiles io files s = (r, s')" "dirs_ok s" "order_ok io"
  shows "(\<exists>e. r = Inl e) \<and> s' = s\<lparr>cs_tmp := fold fmdrop (map st_tmp files) (cs_tmp s)\<rparr>
    \<or> r = Inr () \<and> (\<exists>new D. moved files files new (s\<lparr>cs_dirs := D\<rparr>) s' \<and> cs_dirs s \<subseteq> D \<and> dirs_ok s')"
proof (cases "\<exists>f \<in> set files. io_sync io (st_tmp f)")
  case True
  then show ?thesis using assms(1) by (auto simp: casFlushFiles_def removeTmps_eq)
next
  case False
  then show ?thesis using casPublish_cases [OF _ assms(2,3)] assms(1) by (auto simp: casFlushFiles_def)
qed

section \<open>Properties\<close>

text \<open>
  C15: Reads are sound and complete. Whatever is on disk and whichever packs are excluded, a
  read returns only bytes whose SHA-256 is the requested digest; and it returns some exactly
  when a good copy exists, loose (and the loose read does not fail) or packed in a pack that
  is not excluded: no corrupt or unreadable copy in front of it gets in the way.
\<close>

theorem cas_read_serves_a_good_copy:
  "(\<forall>data. casReadExcluding Z fails dg skip s = Inr data \<longrightarrow> sha256 data = dg)
   \<and> (is_ok (casReadExcluding Z fails dg skip s) \<longleftrightarrow> \<not> fails \<and> loose_good dg s \<or> packed_good Z skip dg s)"
  using readCopies_sound casReadExcluding_ok unfolding casReadExcluding_def by blast

definition empty_cas :: casState where
  "empty_cas =
     \<lparr>cs_root = ''store'', cs_loose = fmempty, cs_dirs = {}, cs_tmp = fmempty, cs_nextTmp = 0,
      cs_packs = \<lparr>ps_packs = [], ps_levels = [], ps_bad = [], ps_clash = []\<rparr>, cs_packFiles = fmempty, cs_format = 1\<rparr>"

theorem cas_read_serves_a_good_copy_witness:
  "\<exists>data. casReadExcluding stored_flate False (sha256 [7]) {}
      (empty_cas\<lparr>cs_loose := fmupd (sha256 [7]) [7] fmempty\<rparr>) = Inr data \<and> sha256 data = sha256 [7]"
proof -
  let ?s = "empty_cas\<lparr>cs_loose := fmupd (sha256 [7]) [7] fmempty\<rparr>"
  have "loose_good (sha256 [7]) ?s" by (simp add: loose_good_def)
  then show ?thesis
    using cas_read_serves_a_good_copy [of stored_flate False "sha256 [7]" "{}" ?s] by blast
qed



end
