(* ===== verification/Batch.thy ===== *)
theory Batch
  imports Cas
begin

text \<open>
  Batches of loose chunks (\<^verbatim>\<open>zeros3.go\<close>, section 4, \<open>casBatch\<close> and \<open>casWrite\<close>). A batch stages
  chunks and flushes them in the background, at most one flush in flight; the flush takes
  effect at some point between its start and the call that joins it, which the environment
  of every operation decides (\<open>io_early\<close>). Shown here: the batch invariant is kept by every
  operation on every outcome, and when \<open>Flush\<close> returns without an error every chunk that was
  added is stored with a good copy.
\<close>

section \<open>Operations\<close>

definition casBatchMaxBytes :: nat where
  "casBatchMaxBytes = 8 * 2 ^ 20"

definition casBatchMaxRecords :: nat where
  "casBatchMaxRecords = 256"

datatype casFlight = Flying cas_io "casStaged list" | Landed "cas_error + unit"

record casBatch =
  cb_files :: "casStaged list"
  cb_seen :: "digest set"
  cb_bytes :: nat
  cb_flight :: "casFlight option"

definition newCASBatch :: casBatch where
  "newCASBatch = \<lparr>cb_files = [], cb_seen = {}, cb_bytes = 0, cb_flight = None\<rparr>"

fun land :: "casFlight \<Rightarrow> casState \<Rightarrow> (cas_error + unit) \<times> casState" where
  "land (Flying io files) s = casFlushFiles io files s"
| "land (Landed r) s = (r, s)"

text \<open>The background flush running to its end while the caller goes on.\<close>

definition background :: "bool \<Rightarrow> casBatch \<Rightarrow> casState \<Rightarrow> casBatch \<times> casState" where
  "background early b s =
     (case cb_flight b of
        Some fl \<Rightarrow> if early then (let (r, s') = land fl s in (b\<lparr>cb_flight := Some (Landed r)\<rparr>, s')) else (b, s)
      | None \<Rightarrow> (b, s))"

definition batch_wait :: "casBatch \<Rightarrow> casState \<Rightarrow> (cas_error + unit) \<times> casBatch \<times> casState" where
  "batch_wait b s =
     (case cb_flight b of
        None \<Rightarrow> (Inr (), b, s)
      | Some fl \<Rightarrow> let (r, s') = land fl s in (r, b\<lparr>cb_flight := None\<rparr>, s'))"

definition batch_startFlush :: "cas_io \<Rightarrow> casBatch \<Rightarrow> casState \<Rightarrow> (cas_error + unit) \<times> casBatch \<times> casState" where
  "batch_startFlush io b s =
     (case batch_wait b s of
        (Inl e, b1, s1) \<Rightarrow> (Inl e, b1, s1)
      | (Inr _, b1, s1) \<Rightarrow>
          let files = cb_files b1;
              b2 = b1\<lparr>cb_files := [], cb_bytes := 0, cb_seen := {}\<rparr>
          in if files = [] then (Inr (), b2, s1) else (Inr (), b2\<lparr>cb_flight := Some (Flying io files)\<rparr>, s1))"

definition batch_add ::
  "cas_io \<Rightarrow> digest \<Rightarrow> bytes \<Rightarrow> casBatch \<Rightarrow> casState \<Rightarrow> (cas_error + unit) \<times> casBatch \<times> casState" where
  "batch_add io dg data b0 s0 =
     (let (b, s) = background (io_early io) b0 s0 in
      if dg \<in> cb_seen b then (Inr (), b, s)
      else
        let b1 = b\<lparr>cb_seen := insert dg (cb_seen b)\<rparr> in
        case casStat (io_stat io dg) dg s of
          Inr _ \<Rightarrow> (Inr (), b1, s)
        | Inl CasNotExist \<Rightarrow>
            (case casStage (io_stage io) data s of
               (Inl e, s1) \<Rightarrow> (Inl e, b1, s1)
             | (Inr tmp, s1) \<Rightarrow>
                 let b2 = b1\<lparr>cb_files := cb_files b1 @ [\<lparr>st_sum = dg, st_tmp = tmp\<rparr>], cb_bytes := cb_bytes b1 + length data\<rparr>
                 in if cb_bytes b2 \<ge> casBatchMaxBytes \<or> length (cb_files b2) \<ge> casBatchMaxRecords
                    then batch_startFlush io b2 s1 else (Inr (), b2, s1))
        | Inl e \<Rightarrow> (Inl e, b1, s))"

definition batch_Flush :: "cas_io \<Rightarrow> casBatch \<Rightarrow> casState \<Rightarrow> (cas_error + unit) \<times> casBatch \<times> casState" where
  "batch_Flush io b s =
     (case batch_startFlush io b s of
        (Inl e, b1, s1) \<Rightarrow> (Inl e, b1, s1)
      | (Inr _, b1, s1) \<Rightarrow> batch_wait b1 s1)"

definition batch_Abort :: "casBatch \<Rightarrow> casState \<Rightarrow> casBatch \<times> casState" where
  "batch_Abort b s =
     (let s1 = (case cb_flight b of None \<Rightarrow> s | Some fl \<Rightarrow> snd (land fl s))
      in (newCASBatch, removeTmps (cb_files b) s1))"

definition casWrite :: "cas_io \<Rightarrow> cas_io \<Rightarrow> bytes \<Rightarrow> casState \<Rightarrow> (cas_error + digest) \<times> casState" where
  "casWrite io io' data s =
     (case batch_add io (sha256 data) data newCASBatch s of
        (Inl e, b1, s1) \<Rightarrow> (Inl e, snd (batch_Abort b1 s1))
      | (Inr _, b1, s1) \<Rightarrow>
          (case batch_Flush io' b1 s1 of
             (r, b2, s2) \<Rightarrow>
               ((case r of Inl e \<Rightarrow> Inl e | Inr _ \<Rightarrow> Inr (sha256 data)), snd (batch_Abort b2 s2))))"

section \<open>Healthy stores\<close>

text \<open>Every digest that can be looked up has a good copy.\<close>

definition good_copy :: "flate_codec \<Rightarrow> digest \<Rightarrow> casState \<Rightarrow> bool" where
  "good_copy Z dg s \<longleftrightarrow> loose_good dg s \<or> packed_good Z {} dg s"

definition healthy :: "flate_codec \<Rightarrow> casState \<Rightarrow> bool" where
  "healthy Z s \<longleftrightarrow> dirs_ok s \<and> (\<forall>dg. stored dg s \<longrightarrow> good_copy Z dg s)"

text \<open>
  The loose chunks grow: nothing that was stored is lost, health is kept, and the packs are
  not touched.
\<close>

definition grows :: "flate_codec \<Rightarrow> casState \<Rightarrow> casState \<Rightarrow> bool" where
  "grows Z s s' \<longleftrightarrow> (\<forall>dg. stored dg s \<longrightarrow> stored dg s') \<and> (healthy Z s \<longrightarrow> healthy Z s')
     \<and> cs_packs s' = cs_packs s \<and> cs_packFiles s' = cs_packFiles s \<and> cs_root s' = cs_root s"

lemma grows_refl [simp]: "grows Z s s" and grows_trans: "grows Z s t \<Longrightarrow> grows Z t u \<Longrightarrow> grows Z s u"
  by (auto simp: grows_def)

text \<open>Changes that no lookup sees.\<close>

definition same_chunks :: "casState \<Rightarrow> casState \<Rightarrow> bool" where
  "same_chunks s s' \<longleftrightarrow> cs_loose s' = cs_loose s \<and> cs_dirs s' = cs_dirs s \<and> cs_packs s' = cs_packs s
     \<and> cs_packFiles s' = cs_packFiles s \<and> cs_root s' = cs_root s"

lemma same_chunks_facts:
  assumes "same_chunks s s'"
  shows "stored dg s' = stored dg s" "good_copy Z dg s' = good_copy Z dg s" "dirs_ok s' = dirs_ok s"
    "healthy Z s' = healthy Z s" "grows Z s s'"
proof -
  have "readPacked Z dg loc s' = readPacked Z dg loc s" for dg loc
    using assms by (simp add: same_chunks_def readPacked_def)
  then show st: "stored dg s' = stored dg s" "good_copy Z dg s' = good_copy Z dg s" "dirs_ok s' = dirs_ok s" for dg
    using assms by (simp_all add: same_chunks_def stored_def good_copy_def loose_good_def packed_good_def dirs_ok_def)
  then show "healthy Z s' = healthy Z s" by (simp add: healthy_def)
  with st show "grows Z s s'" using assms by (simp add: grows_def same_chunks_def)
qed

section \<open>Staged files and flushes\<close>

definition staged_ok :: "casStaged list \<Rightarrow> casState \<Rightarrow> bool" where
  "staged_ok files s \<longleftrightarrow> distinct (map st_tmp files) \<and> (\<forall>n \<in> fmdom' (cs_tmp s). n < cs_nextTmp s)
     \<and> (\<forall>f \<in> set files. \<exists>data. fmlookup (cs_tmp s) (st_tmp f) = Some data \<and> sha256 data = st_sum f)"

lemma staged_ok_drop:
  assumes "staged_ok (files @ rest) s" "cs_tmp s' = fold fmdrop (map st_tmp files) (cs_tmp s)" "cs_nextTmp s' = cs_nextTmp s"
  shows "staged_ok rest s'"
  using assms by (fastforce simp: staged_ok_def fmlookup_dom'_iff split: if_splits)

lemma staged_ok_next: "staged_ok files s \<Longrightarrow> fmlookup (cs_tmp s) (cs_nextTmp s) = None"
  by (fastforce simp: staged_ok_def fmlookup_dom'_iff)

lemma staged_ok_stage:
  assumes "staged_ok files s" "casStage fails data s = (Inr tmp, s')"
  shows "staged_ok (files @ [\<lparr>st_sum = sha256 data, st_tmp = tmp\<rparr>]) s'" "same_chunks s s'"
proof -
  have s': "tmp = cs_nextTmp s" "s' = s\<lparr>cs_tmp := fmupd tmp data (cs_tmp s), cs_nextTmp := cs_nextTmp s + 1\<rparr>"
    using assms(2) by (auto simp: casStage_def split: if_splits)
  have "tmp \<notin> set (map st_tmp files)"
    using assms(1) staged_ok_next [OF assms(1)] unfolding s'(1) staged_ok_def by force
  then show "staged_ok (files @ [\<lparr>st_sum = sha256 data, st_tmp = tmp\<rparr>]) s'"
    using assms(1) unfolding s'(2) by (auto simp: staged_ok_def s'(1) fmlookup_dom'_iff less_Suc_eq split: if_splits)
  show "same_chunks s s'" unfolding s'(2) by (simp add: same_chunks_def)
qed

lemma moved_grows:
  assumes "moved files files new (s\<lparr>cs_dirs := D\<rparr>) s'" "dirs_ok s'" "staged_ok (files @ rest) s"
  shows "grows Z s s'"
proof -
  note d = moved_D [OF assms(1)]
  have pk: "readPacked Z dg loc s' = readPacked Z dg loc s" for dg loc
    using d(2,3) by (simp add: readPacked_def)
  have st: "stored dg s \<Longrightarrow> stored dg s'" for dg using stored_moved [OF assms(1), of dg] by (simp add: stored_def)
  have new: "loose_good dg s'" if "dg \<in> set new" for dg
    using moved_new [OF assms(1) that] assms(3) by (force simp: staged_ok_def loose_good_def)
  have old: "good_copy Z dg s' = good_copy Z dg s \<and> stored dg s' = stored dg s" if "dg \<notin> set new" for dg
    using d(2,7) that pk by (simp add: good_copy_def loose_good_def packed_good_def stored_def)
  have "good_copy Z dg s'" if "healthy Z s" "stored dg s'" for dg
    using new [of dg] old [of dg] that by (cases "dg \<in> set new") (auto simp: good_copy_def healthy_def)
  then show ?thesis using st assms(2) d(2,3,9) by (simp add: grows_def healthy_def)
qed

lemma casFlushFiles_effect:
  assumes "casFlushFiles io files s = (r, s')" "dirs_ok s" "order_ok io" "staged_ok (files @ rest) s"
  shows "grows Z s s'" "staged_ok rest s'" "r = Inr () \<Longrightarrow> f \<in> set files \<Longrightarrow> stored (st_sum f) s'" "dirs_ok s'"
proof -
  consider (err) e where "r = Inl e" "s' = s\<lparr>cs_tmp := fold fmdrop (map st_tmp files) (cs_tmp s)\<rparr>"
    | (ok) new D where "r = Inr ()" "moved files files new (s\<lparr>cs_dirs := D\<rparr>) s'" "dirs_ok s'"
    using casFlushFiles_cases [OF assms(1-3)] by blast
  then have "grows Z s s' \<and> staged_ok rest s' \<and> (r = Inr () \<longrightarrow> (\<forall>f \<in> set files. stored (st_sum f) s')) \<and> dirs_ok s'"
  proof cases
    case err
    then have c: "same_chunks s s'" by (simp add: same_chunks_def)
    have "staged_ok rest s'" using err by (intro staged_ok_drop [OF assms(4)]) simp_all
    then show ?thesis using same_chunks_facts [OF c] err(1) assms(2) by simp
  next
    case ok
    note d = moved_D [OF ok(2)]
    have "staged_ok rest s'" using d by (intro staged_ok_drop [OF assms(4)]) simp_all
    moreover have "\<forall>f \<in> set files. stored (st_sum f) s'" using ok(2) by (simp add: moved_def)
    ultimately show ?thesis using moved_grows [OF ok(2,3) assms(4)] ok(3) by blast
  qed
  then show "grows Z s s'" "staged_ok rest s'" "r = Inr () \<Longrightarrow> f \<in> set files \<Longrightarrow> stored (st_sum f) s'" "dirs_ok s'" by auto
qed

section \<open>The batch invariant\<close>

fun in_flight :: "casFlight option \<Rightarrow> casStaged list" where
  "in_flight (Some (Flying io files)) = files"
| "in_flight _ = []"

fun flight_ok :: "casFlight option \<Rightarrow> bool" where
  "flight_ok (Some (Flying io files)) = order_ok io"
| "flight_ok _ = True"

definition batch_inv :: "casBatch \<Rightarrow> casState \<Rightarrow> bool" where
  "batch_inv b s \<longleftrightarrow> dirs_ok s \<and> flight_ok (cb_flight b) \<and> staged_ok (in_flight (cb_flight b) @ cb_files b) s"

text \<open>
  The digests a batch answers for: each is stored or staged, unless a flush failed, in which
  case the next join reports it.
\<close>

definition accepted :: "digest set \<Rightarrow> casBatch \<Rightarrow> casState \<Rightarrow> bool" where
  "accepted D b s \<longleftrightarrow>
     ((\<exists>e. cb_flight b = Some (Landed (Inl e))) \<or>
        (\<forall>dg \<in> D. stored dg s \<or> dg \<in> st_sum ` set (in_flight (cb_flight b) @ cb_files b)))
     \<and> (\<forall>dg \<in> cb_seen b. stored dg s \<or> dg \<in> st_sum ` set (cb_files b))"

lemma batch_new: "dirs_ok s \<Longrightarrow> staged_ok [] s \<Longrightarrow> batch_inv newCASBatch s \<and> accepted {} newCASBatch s"
  by (simp add: batch_inv_def accepted_def newCASBatch_def)

lemma land_effect:
  assumes "land fl s = (r, s')" "dirs_ok s" "flight_ok (Some fl)" "staged_ok (in_flight (Some fl) @ rest) s"
  shows "grows Z s s'" "staged_ok rest s'" "r = Inr () \<Longrightarrow> f \<in> set (in_flight (Some fl)) \<Longrightarrow> stored (st_sum f) s'" "dirs_ok s'"
  using assms casFlushFiles_effect by (cases fl; fastforce)+

lemma batch_wait_effect:
  assumes "batch_wait b s = (r, b', s')" "batch_inv b s"
  shows "grows Z s s'" "batch_inv b' s'" "accepted D b s \<Longrightarrow> r = Inr () \<Longrightarrow> accepted D b' s'"
    "b' = b\<lparr>cb_flight := None\<rparr>"
proof -
  have "grows Z s s' \<and> batch_inv b' s' \<and> (accepted D b s \<longrightarrow> r = Inr () \<longrightarrow> accepted D b' s') \<and> b' = b\<lparr>cb_flight := None\<rparr>"
  proof (cases "cb_flight b")
    case None
    then show ?thesis using assms by (auto simp: batch_wait_def)
  next
    case (Some fl)
    have l: "land fl s = (r, s')" and b': "b' = b\<lparr>cb_flight := None\<rparr>"
      using assms(1) Some by (auto simp: batch_wait_def split: prod.splits)
    have i: "dirs_ok s" "flight_ok (Some fl)" "staged_ok (in_flight (Some fl) @ cb_files b) s"
      using assms(2) Some by (simp_all add: batch_inv_def)
    note e = land_effect [OF l i]
    have "accepted D b' s'" if "accepted D b s" "r = Inr ()"
    proof -
      have up: "stored dg s \<Longrightarrow> stored dg s'" for dg using e(1) [of Z] by (simp add: grows_def)
      have "\<not> (\<exists>e. cb_flight b = Some (Landed (Inl e)))" using l that(2) Some by auto
      then show ?thesis using that up e(3) Some by (fastforce simp: accepted_def b')
    qed
    then show ?thesis using e b' by (simp add: batch_inv_def)
  qed
  then show "grows Z s s'" "batch_inv b' s'" "accepted D b s \<Longrightarrow> r = Inr () \<Longrightarrow> accepted D b' s'"
    "b' = b\<lparr>cb_flight := None\<rparr>" by auto
qed

lemma background_effect:
  assumes "background early b s = (b', s')" "batch_inv b s"
  shows "grows Z s s'" "batch_inv b' s'" "accepted D b s \<Longrightarrow> accepted D b' s'"
    "cb_files b' = cb_files b" "cb_seen b' = cb_seen b"
proof -
  have "grows Z s s' \<and> batch_inv b' s' \<and> (accepted D b s \<longrightarrow> accepted D b' s') \<and> cb_files b' = cb_files b \<and> cb_seen b' = cb_seen b"
  proof (cases "cb_flight b = None \<or> \<not> early")
    case True
    then have "b' = b" "s' = s" using assms(1) by (auto simp: background_def split: option.splits)
    then show ?thesis using assms(2) by simp
  next
    case False
    then obtain fl where Some: "cb_flight b = Some fl" by auto
    obtain r where l: "land fl s = (r, s')" and b': "b' = b\<lparr>cb_flight := Some (Landed r)\<rparr>"
      using assms(1) Some False by (auto simp: background_def split: prod.splits)
    have i: "dirs_ok s" "flight_ok (Some fl)" "staged_ok (in_flight (Some fl) @ cb_files b) s"
      using assms(2) Some by (simp_all add: batch_inv_def)
    note e = land_effect [OF l i]
    have "accepted D b' s'" if a: "accepted D b s"
    proof -
      have up: "stored dg s \<Longrightarrow> stored dg s'" for dg using e(1) [of Z] by (simp add: grows_def)
      show ?thesis
      proof (cases r)
        case (Inl e)
        then show ?thesis using a up by (auto simp: accepted_def b')
      next
        case (Inr u)
        then have "\<not> (\<exists>e. cb_flight b = Some (Landed (Inl e)))" using l Some by auto
        then show ?thesis using a up e(3) Some Inr by (fastforce simp: accepted_def b')
      qed
    qed
    then show ?thesis using e b' by (simp add: batch_inv_def)
  qed
  then show "grows Z s s'" "batch_inv b' s'" "accepted D b s \<Longrightarrow> accepted D b' s'"
    "cb_files b' = cb_files b" "cb_seen b' = cb_seen b" by auto
qed

lemma batch_startFlush_effect:
  assumes "batch_startFlush io b s = (r, b', s')" "batch_inv b s" "order_ok io"
  shows "grows Z s s'" "batch_inv b' s'" "accepted D b s \<Longrightarrow> r = Inr () \<Longrightarrow> accepted D b' s'"
    "r = Inr () \<Longrightarrow> cb_files b' = []"
proof -
  obtain r1 b1 s1 where w: "batch_wait b s = (r1, b1, s1)" by (metis prod_cases3)
  note e = batch_wait_effect [OF w assms(2)]
  have "grows Z s s' \<and> batch_inv b' s' \<and> (accepted D b s \<longrightarrow> r = Inr () \<longrightarrow> accepted D b' s') \<and> (r = Inr () \<longrightarrow> cb_files b' = [])"
  proof (cases r1)
    case (Inl x)
    then have "r = Inl x" "b' = b1" "s' = s1" using assms(1) w by (simp_all add: batch_startFlush_def)
    then show ?thesis using e by simp
  next
    case (Inr u)
    then have b': "r = Inr ()" "s' = s1" "cb_files b' = []" "cb_seen b' = {}"
      "cb_flight b' = (if cb_files b1 = [] then None else Some (Flying io (cb_files b1)))"
      using assms(1) w e(4) by (auto simp: batch_startFlush_def Let_def split: if_splits)
    have f: "cb_flight b1 = None" using e(4) by simp
    have "batch_inv b' s'" using e(2) b' f assms(3) by (auto simp: batch_inv_def)
    moreover have "accepted D b' s'" if "accepted D b s"
      using e(3) [OF that] Inr b' f by (auto simp: accepted_def)
    ultimately show ?thesis using e(1) b' by simp
  qed
  then show "grows Z s s'" "batch_inv b' s'" "accepted D b s \<Longrightarrow> r = Inr () \<Longrightarrow> accepted D b' s'"
    "r = Inr () \<Longrightarrow> cb_files b' = []" by auto
qed

lemma batch_add_effect:
  assumes "batch_add io (sha256 data) data b0 s0 = (r, b', s')" "batch_inv b0 s0" "order_ok io"
  shows "grows Z s0 s'" "batch_inv b' s'"
    "accepted D b0 s0 \<Longrightarrow> r = Inr () \<Longrightarrow> accepted (insert (sha256 data) D) b' s'"
proof -
  let ?dg = "sha256 data"
  obtain b s where bg: "background (io_early io) b0 s0 = (b, s)" by fastforce
  note e = background_effect [OF bg assms(2)]
  let ?b1 = "b\<lparr>cb_seen := insert ?dg (cb_seen b)\<rparr>"
  have inv1: "batch_inv ?b1 t = batch_inv b t" for t by (simp add: batch_inv_def)
  have keep: "grows Z s0 s' \<and> batch_inv b' s' \<and> (accepted D b0 s0 \<longrightarrow> r = Inr () \<longrightarrow> accepted (insert ?dg D) b' s')"
    if "grows Z s s' \<and> batch_inv b' s' \<and> (accepted D b s \<longrightarrow> r = Inr () \<longrightarrow> accepted (insert ?dg D) b' s')"
    using that e(1) e(3) grows_trans by blast
  have step: "grows Z s s' \<and> batch_inv b' s' \<and> (accepted D b s \<longrightarrow> r = Inr () \<longrightarrow> accepted (insert ?dg D) b' s')"
  proof (cases "?dg \<in> cb_seen b")
    case True
    then have "r = Inr ()" "b' = b" "s' = s" using assms(1) bg by (simp_all add: batch_add_def)
    then show ?thesis using e(2) True by (auto simp: accepted_def)
  next
    case new: False
    show ?thesis
    proof (cases "casStat (io_stat io ?dg) ?dg s")
      case (Inr n)
      then have "r = Inr ()" "b' = ?b1" "s' = s" using assms(1) bg new by (simp_all add: batch_add_def)
      moreover have "stored ?dg s" using Inr casStatLocked_ok unfolding casStat_def by blast
      ultimately show ?thesis using e(2) inv1 by (auto simp: accepted_def)
    next
      case (Inl x)
      show ?thesis
      proof (cases "x = CasNotExist \<and> \<not> io_stage io")
        case False
        then have "\<exists>y. r = Inl y" "b' = ?b1" "s' = s"
          using assms(1) bg new Inl by (cases x; auto simp: batch_add_def casStage_def Let_def)+
        then show ?thesis using e(2) inv1 by auto
      next
        case True
        obtain tmp s1 where sg: "casStage (io_stage io) data s = (Inr tmp, s1)" using True by (simp add: casStage_def)
        let ?f = "\<lparr>st_sum = ?dg, st_tmp = tmp\<rparr> :: casStaged"
        let ?b2 = "?b1\<lparr>cb_files := cb_files ?b1 @ [?f], cb_bytes := cb_bytes ?b1 + length data\<rparr>"
        have st: "staged_ok (in_flight (cb_flight b) @ cb_files b) s" using e(2) by (simp add: batch_inv_def)
        note so = staged_ok_stage [OF st sg]
        note sc = same_chunks_facts [OF so(2)]
        have b2: "batch_inv ?b2 s1" using e(2) so(1) sc(3) by (simp add: batch_inv_def)
        have a2: "accepted (insert ?dg D) ?b2 s1" if "accepted D b s" using that sc(1) by (auto simp: accepted_def)
        have "batch_startFlush io ?b2 s1 = (r, b', s') \<or> r = Inr () \<and> b' = ?b2 \<and> s' = s1"
          using assms(1) bg new Inl True sg by (auto simp: batch_add_def Let_def split: if_splits)
        then show ?thesis
        proof
          assume "batch_startFlush io ?b2 s1 = (r, b', s')"
          note f = batch_startFlush_effect [OF this b2 assms(3)]
          show ?thesis using f(1,2) f(3) [OF a2] grows_trans [OF sc(5)] by blast
        next
          assume "r = Inr () \<and> b' = ?b2 \<and> s' = s1"
          then show ?thesis using b2 a2 sc(5) by blast
        qed
      qed
    qed
  qed
  from keep [OF step] show "grows Z s0 s'" "batch_inv b' s'"
    "accepted D b0 s0 \<Longrightarrow> r = Inr () \<Longrightarrow> accepted (insert ?dg D) b' s'" by auto
qed

lemma batch_Flush_effect:
  assumes "batch_Flush io b s = (r, b', s')" "batch_inv b s" "order_ok io"
  shows "grows Z s s'" "batch_inv b' s'" "accepted D b s \<Longrightarrow> r = Inr () \<Longrightarrow> dg \<in> D \<Longrightarrow> stored dg s'"
proof -
  obtain r1 b1 s1 where f: "batch_startFlush io b s = (r1, b1, s1)" by (metis prod_cases3)
  note e = batch_startFlush_effect [OF f assms(2,3)]
  have "grows Z s s' \<and> batch_inv b' s' \<and> (accepted D b s \<longrightarrow> r = Inr () \<longrightarrow> (\<forall>dg \<in> D. stored dg s'))"
  proof (cases r1)
    case (Inl x)
    then have "r = Inl x" "b' = b1" "s' = s1" using assms(1) f by (simp_all add: batch_Flush_def)
    then show ?thesis using e by simp
  next
    case (Inr u)
    then have w: "batch_wait b1 s1 = (r, b', s')" using assms(1) f by (simp add: batch_Flush_def)
    note e2 = batch_wait_effect [OF w e(2)]
    have "\<forall>dg \<in> D. stored dg s'" if a: "accepted D b s" "r = Inr ()"
    proof -
      have "accepted D b' s'" using e(3) [OF a(1)] e2(3) a(2) Inr by simp
      moreover have "cb_flight b' = None" "cb_files b' = []" using e2(4) e(4) Inr by simp_all
      ultimately show ?thesis by (simp add: accepted_def)
    qed
    then show ?thesis using e(1) e2(1,2) grows_trans by blast
  qed
  then show "grows Z s s'" "batch_inv b' s'" "accepted D b s \<Longrightarrow> r = Inr () \<Longrightarrow> dg \<in> D \<Longrightarrow> stored dg s'" by auto
qed

lemma removeTmps_same: "same_chunks s (removeTmps fs s)"
  by (simp add: removeTmps_eq same_chunks_def)

lemma batch_Abort_effect:
  assumes "batch_Abort b s = (b', s')" "batch_inv b s"
  shows "grows Z s s'" "batch_inv b' s'"
proof -
  define s1 where "s1 = (case cb_flight b of None \<Rightarrow> s | Some fl \<Rightarrow> snd (land fl s))"
  have s': "b' = newCASBatch" "s' = removeTmps (cb_files b) s1" using assms(1) by (auto simp: batch_Abort_def s1_def Let_def)
  have "grows Z s s1 \<and> dirs_ok s1 \<and> staged_ok (cb_files b) s1"
  proof (cases "cb_flight b")
    case None
    then show ?thesis using assms(2) by (simp add: batch_inv_def s1_def)
  next
    case (Some fl)
    obtain r where l: "land fl s = (r, s1)" using Some by (cases "land fl s") (simp add: s1_def)
    show ?thesis using land_effect [OF l, of "cb_files b"] assms(2) Some by (simp add: batch_inv_def)
  qed
  moreover have "staged_ok [] s'"
    using calculation unfolding s'(2) removeTmps_eq by (intro staged_ok_drop [of "cb_files b" "[]" s1]) simp_all
  ultimately show "grows Z s s'" "batch_inv b' s'"
    using same_chunks_facts [OF removeTmps_same [of s1 "cb_files b"]] grows_trans batch_new
    unfolding s' by blast+
qed

section \<open>Property\<close>

lemma good_copy_read: "good_copy Z dg s \<Longrightarrow> \<exists>d. casRead Z False dg s = Inr d \<and> sha256 d = dg"
  using casReadExcluding_ok [of Z False dg "{}" s] readCopies_sound
  unfolding casRead_def good_copy_def casReadExcluding_def by blast

lemma casWrite_effect:
  assumes "staged_ok [] s" "dirs_ok s" "order_ok io" "order_ok io'" "casWrite io io' data s = (r, s')"
  shows "grows Z s s' \<and> staged_ok [] s' \<and> dirs_ok s' \<and> (\<forall>dg. r = Inr dg \<longrightarrow> dg = sha256 data \<and> stored dg s')"
proof -
  obtain r1 b1 s1 where a: "batch_add io (sha256 data) data newCASBatch s = (r1, b1, s1)" by (metis prod_cases3)
  note i = batch_new [OF assms(2,1)]
  note e1 = batch_add_effect [OF a conjunct1 [OF i] assms(3)]
  have clean: "staged_ok [] s' \<and> dirs_ok s'" if "batch_Abort b t = (b', s')" "batch_inv b t" for b b' t
    using batch_Abort_effect(2) [OF that] that(1) by (auto simp: batch_Abort_def batch_inv_def newCASBatch_def Let_def)
  show ?thesis
  proof (cases r1)
    case (Inl x)
    obtain b2 where ab: "batch_Abort b1 s1 = (b2, s')" and "r = Inl x"
      using assms(5) a Inl by (cases "batch_Abort b1 s1") (simp add: casWrite_def)
    with e1 batch_Abort_effect [OF ab e1(2)] clean [OF ab e1(2)] grows_trans show ?thesis by blast
  next
    case (Inr u)
    obtain r2 b2 s2 where f: "batch_Flush io' b1 s1 = (r2, b2, s2)" by (metis prod_cases3)
    note e2 = batch_Flush_effect [OF f e1(2) assms(4)]
    obtain b3 where ab: "batch_Abort b2 s2 = (b3, s')"
      and r: "r = (case r2 of Inl e \<Rightarrow> Inl e | Inr _ \<Rightarrow> Inr (sha256 data))"
      using assms(5) a Inr f by (cases "batch_Abort b2 s2") (simp add: casWrite_def)
    note e3 = batch_Abort_effect [OF ab e2(2)]
    have "stored (sha256 data) s2" if "r2 = Inr ()"
      using e2(3) [OF e1(3) [OF conjunct2 [OF i]] that] Inr by simp
    moreover have "stored dg s2 \<Longrightarrow> stored dg s'" for dg using e3(1) [of Z] by (simp add: grows_def)
    ultimately show ?thesis using r e1(1) e2(1) e3(1) clean [OF ab e2(2)] grows_trans by (auto split: sum.splits) blast+
  qed
qed

text \<open>
  A write is durable and loses nothing. On a store in which every chunk that can be
  looked up has a good copy, \<open>casWrite\<close> keeps it so on every outcome and never makes a stored
  chunk disappear; when it returns without an error, it returns the SHA-256 of the data and a
  read of that digest succeeds with bytes of that digest.
\<close>

theorem cas_write_is_durable:
  assumes "healthy Z s" and "staged_ok [] s" and "order_ok io" and "order_ok io'"
    and "casWrite io io' data s = (r, s')"
  shows "healthy Z s' \<and> (\<forall>dg. stored dg s \<longrightarrow> stored dg s')
    \<and> (\<forall>dg. r = Inr dg \<longrightarrow> dg = sha256 data \<and> (\<exists>d. casRead Z False dg s' = Inr d \<and> sha256 d = dg))"
proof -
  have "dirs_ok s" using assms(1) by (simp add: healthy_def)
  with casWrite_effect [OF assms(2) _ assms(3-5), of Z] assms(1) good_copy_read show ?thesis
    by (fastforce simp: grows_def healthy_def)
qed

theorem cas_write_is_durable_witness:
  "\<exists>s'. casWrite no_failure no_failure [7] empty_cas = (Inr (sha256 [7]), s')
     \<and> (\<exists>d. casRead stored_flate False (sha256 [7]) s' = Inr d \<and> sha256 d = sha256 [7])"
proof -
  obtain r s' where w: "casWrite no_failure no_failure [7] empty_cas = (r, s')" by fastforce
  have n: "butlast (shardDir dg) \<noteq> shardDir dg" for dg
    by (metis length_butlast length_shardDir One_nat_def Suc_1 diff_Suc_1 n_not_Suc_n)
  have "r = Inr (sha256 [7])"
    using w n [of "sha256 [7]"]
    by (auto simp: casWrite_def batch_add_def background_def newCASBatch_def casStat_def casStatLocked_def empty_cas_def
        no_failure_def ps_lookup_def ps_best_def casStage_def casBatchMaxBytes_def casBatchMaxRecords_def Let_def
        batch_Flush_def batch_startFlush_def batch_wait_def casFlushFiles_def casPublish_def casEnsureShardDirs_def
        batch_Abort_def removeTmps_def)
  moreover have "healthy stored_flate empty_cas" "staged_ok [] empty_cas" "order_ok no_failure"
    by (simp_all add: healthy_def dirs_ok_def stored_def staged_ok_def order_ok_def empty_cas_def no_failure_def
        ps_lookup_def ps_best_def)
  ultimately show ?thesis using cas_write_is_durable [of stored_flate empty_cas no_failure no_failure "[7]" r s'] w by blast
qed

end
