(* ===== verification/Ingest.thy ===== *)
theory Ingest
  imports Batch
begin

text \<open>
  Publishing packs and streaming ingest (\<^verbatim>\<open>zeros3.go\<close>, sections 4 and 13c): \<open>publishPack\<close>, the
  two chunk sinks behind the \<open>chunkSink\<close> interface and \<open>ingestStream\<close>. The interface is the
  locale \<open>chunk_sink\<close>; the loop over the chunker is proved once against it and then used
  through the interpretations for loose files and for direct packs. Shown here: whatever
  sink is chosen and whatever fails, no stored chunk is lost, and a successful ingest returns
  exactly the CDC chunks, the size and the hashes of the stream, with every chunk readable; a
  stream that breaks off is never ingested.
\<close>

section \<open>Publishing a pack\<close>

definition tierRoot :: "string \<Rightarrow> tier \<Rightarrow> string" where
  "tierRoot root t = (case t of TierHot \<Rightarrow> root | TierWarm \<Rightarrow> root @ ''/tiers/warm'' | TierCold \<Rightarrow> root @ ''/tiers/cold'')"

definition tierPackDir :: "string \<Rightarrow> tier \<Rightarrow> string" where
  "tierPackDir root t = tierRoot root t @ ''/packs''"

definition packPath :: "string \<Rightarrow> tier \<Rightarrow> string \<Rightarrow> string" where
  "packPath root t pid = tierPackDir root t @ ''/'' @ pid @ packFileSuffix"

definition storeFormatVersionPacked :: int where
  "storeFormatVersionPacked = 2"

definition storeFormatVersionCompressed :: int where
  "storeFormatVersionCompressed = 3"

definition storeFormatVersionTiers :: int where
  "storeFormatVersionTiers = 5"

definition addPack :: "packInfo \<Rightarrow> packEntry list \<Rightarrow> casState \<Rightarrow> (cas_error + unit) \<times> casState" where
  "addPack info entries s =
     (case withPack info entries (cs_packs s) of
        Inl e \<Rightarrow> (Inl (CasLocator e), s)
      | Inr st \<Rightarrow> (Inr (), s\<lparr>cs_packs := st\<rparr>))"

definition packFormatNeeded :: "tier \<Rightarrow> packEntry list \<Rightarrow> int" where
  "packFormatNeeded t entries =
     (let need = (if \<exists>e \<in> set entries. pe_codec e \<noteq> packCodecRaw then storeFormatVersionCompressed
                  else storeFormatVersionPacked)
      in if t \<noteq> TierHot then max need storeFormatVersionTiers else need)"

text \<open>The staged file is given by its contents; it is gone on every failure before the rename.\<close>

definition publishPack ::
  "flate_codec \<Rightarrow> cas_io \<Rightarrow> tier \<Rightarrow> bytes \<Rightarrow> packEntry list \<Rightarrow> casState \<Rightarrow> (cas_error + packInfo) \<times> casState" where
  "publishPack Z io t staged entries s =
     (if io_pack io PackVerify then (Inl CasIO, s)
      else case verifyPackFile Z ''staged'' staged of
        Inl e \<Rightarrow> (Inl (CasPack e), s)
      | Inr (info, got) \<Rightarrow>
          if got \<noteq> entries then (Inl CasIO, s)
          else
            let need = packFormatNeeded t entries in
            if cs_format s < need \<and> io_pack io PackFormat then (Inl CasIO, s)
            else
              let s1 = (if cs_format s \<ge> need then s else s\<lparr>cs_format := need\<rparr>);
                  final = packPath (cs_root s) t (pi_id info) in
              if io_pack io PackMkdir then (Inl CasIO, s1)
              else if io_pack io PackRename then (Inl CasIO, s1)
              else
                let s2 = s1\<lparr>cs_packFiles := fmupd final staged (cs_packFiles s1)\<rparr> in
                if io_pack io PackDirSync \<or> io_pack io PackLoad then (Inl CasIO, s2)
                else case loadPackFile final (pi_id info @ packFileSuffix) staged of
                  Inl e \<Rightarrow> (Inl (CasPack e), s2)
                | Inr (pub, pubEntries) \<Rightarrow>
                    if length pubEntries \<noteq> length entries then (Inl CasIO, s2)
                    else let p = pub\<lparr>pi_tier := t\<rparr> in
                      (case addPack p pubEntries s2 of
                         (Inl e, s3) \<Rightarrow> (Inl e, s3)
                       | (Inr _, s3) \<Rightarrow> (Inr p, s3)))"

section \<open>Sinks\<close>

text \<open>Loose files: the batch.\<close>

definition looseSink_Put ::
  "cas_io \<Rightarrow> digest \<Rightarrow> bytes \<Rightarrow> casBatch \<Rightarrow> casState \<Rightarrow> (cas_error + unit) \<times> casBatch \<times> casState" where
  "looseSink_Put io dg chunk b s = batch_add io dg chunk b s"

definition looseSink_Flush :: "cas_io \<Rightarrow> casBatch \<Rightarrow> casState \<Rightarrow> (cas_error + unit) \<times> casBatch \<times> casState" where
  "looseSink_Flush io b s = batch_Flush io b s"

definition looseSink_Abort :: "casBatch \<Rightarrow> casState \<Rightarrow> casBatch \<times> casState" where
  "looseSink_Abort b s = batch_Abort b s"

text \<open>Direct packs.\<close>

definition directPackTarget :: nat where
  "directPackTarget = 64 * 2 ^ 20"

definition packMinFraction :: nat where
  "packMinFraction = 8"

record packSink =
  sk_comp :: "flate_codec option"
  sk_cur :: "packBuilder option"
  sk_pending :: "digest set"

definition newPackSink :: "flate_codec option \<Rightarrow> packSink" where
  "newPackSink cmp = \<lparr>sk_comp = cmp, sk_cur = None, sk_pending = {}\<rparr>"

definition packSink_publish ::
  "flate_codec \<Rightarrow> cas_io \<Rightarrow> packBuilder \<Rightarrow> packSink \<Rightarrow> casState \<Rightarrow> (cas_error + unit) \<times> packSink \<times> casState" where
  "packSink_publish Z io b k s =
     (let k1 = k\<lparr>sk_cur := None, sk_pending := {}\<rparr> in
      case packBuilder_Finish (io_pack io PackFinish) b of
        None \<Rightarrow> (Inl CasIO, k1, s)
      | Some (staged, entries) \<Rightarrow>
          (case publishPack Z io TierHot staged entries s of
             (Inl e, s1) \<Rightarrow> (Inl e, k1, s1)
           | (Inr _, s1) \<Rightarrow> (Inr (), k1, s1)))"

definition packSink_Put ::
  "flate_codec \<Rightarrow> cas_io \<Rightarrow> digest \<Rightarrow> bytes \<Rightarrow> packSink \<Rightarrow> casState \<Rightarrow> (cas_error + unit) \<times> packSink \<times> casState" where
  "packSink_Put Z io dg chunk k s =
     (if dg \<in> sk_pending k then (Inr (), k, s)
      else case casStat (io_stat io dg) dg s of
        Inr _ \<Rightarrow> (Inr (), k, s)
      | Inl CasNotExist \<Rightarrow>
          (case (case sk_cur k of
                   Some b \<Rightarrow> Some b
                 | None \<Rightarrow> if io_pack io PackCreate then None else Some (newPackBuilder (sk_comp k))) of
             None \<Rightarrow> (Inl CasIO, k, s)
           | Some b0 \<Rightarrow>
               let b = packBuilder_Add dg chunk b0;
                   k1 = k\<lparr>sk_cur := Some b, sk_pending := insert dg (sk_pending k)\<rparr>
               in if packBuilder_LogicalBytes b \<ge> directPackTarget
                  then packSink_publish Z io b k1 s else (Inr (), k1, s))
      | Inl e \<Rightarrow> (Inl e, k, s))"

definition packSink_Abort :: "packSink \<Rightarrow> casState \<Rightarrow> packSink \<times> casState" where
  "packSink_Abort k s = (k\<lparr>sk_cur := None, sk_pending := {}\<rparr>, s)"

text \<open>The remainder of a builder too small for a pack, moved into a loose batch.\<close>

fun looseRemainder ::
  "flate_codec \<Rightarrow> cas_io \<Rightarrow> packBuilder \<Rightarrow> nat list \<Rightarrow> casBatch \<Rightarrow> casState \<Rightarrow> (cas_error + unit) \<times> casBatch \<times> casState" where
  "looseRemainder Z io b [] lb s = (Inr (), lb, s)"
| "looseRemainder Z io b (i # is) lb s =
     (if io_pack io PackReread then (Inl CasIO, lb, s)
      else case packBuilder_readRecord Z b i of
        Inl e \<Rightarrow> (Inl (CasPack e), lb, s)
      | Inr data \<Rightarrow>
          (case batch_add io (pe_sha (pb_entries b ! i)) data lb s of
             (Inl e, lb1, s1) \<Rightarrow> (Inl e, lb1, s1)
           | (Inr _, lb1, s1) \<Rightarrow> looseRemainder Z io b is lb1 s1))"

definition packSink_Flush ::
  "flate_codec \<Rightarrow> cas_io \<Rightarrow> packSink \<Rightarrow> casState \<Rightarrow> (cas_error + unit) \<times> packSink \<times> casState" where
  "packSink_Flush Z io k s =
     (case sk_cur k of
        None \<Rightarrow> (Inr (), k, s)
      | Some b \<Rightarrow>
          if packBuilder_LogicalBytes b \<ge> directPackTarget div packMinFraction then packSink_publish Z io b k s
          else
            case looseRemainder Z io b [0..<length (pb_entries b)] newCASBatch s of
              (Inl e, lb, s1) \<Rightarrow> (Inl e, k, snd (batch_Abort lb s1))
            | (Inr _, lb, s1) \<Rightarrow>
                (case batch_Flush io lb s1 of
                   (Inl e, lb2, s2) \<Rightarrow> (Inl e, k, snd (batch_Abort lb2 s2))
                 | (Inr _, lb2, s2) \<Rightarrow>
                     (case packSink_Abort k (snd (batch_Abort lb2 s2)) of (k1, s3) \<Rightarrow> (Inr (), k1, s3))))"

section \<open>The ingest loop\<close>

datatype ingest_error = IngestChunking | IngestCas cas_error

text \<open>
  The state of the loop is the number of chunks so far (which selects the environment of
  the next \<open>Put\<close>), the chunk references, the bytes hashed, the sink and the store.
\<close>

partial_function (option) ingestLoop ::
  "(cas_io \<Rightarrow> digest \<Rightarrow> bytes \<Rightarrow> 'k \<Rightarrow> casState \<Rightarrow> (cas_error + unit) \<times> 'k \<times> casState) \<Rightarrow> (nat \<Rightarrow> cas_io)
    \<Rightarrow> 'r reader \<Rightarrow> 'r cdcChunker \<Rightarrow> nat \<Rightarrow> chunkRef list \<Rightarrow> bytes \<Rightarrow> 'k \<Rightarrow> casState
    \<Rightarrow> ((ingest_error + (chunkRef list \<times> bytes)) \<times> 'k \<times> casState) option" where
  "ingestLoop put ios rd c n refs hashed k s =
     (case nextView rd c of
        None \<Rightarrow> None
      | Some v \<Rightarrow>
          (case v of
             ViewError \<Rightarrow> Some (Inl IngestChunking, k, s)
           | ViewEOF \<Rightarrow> Some (Inr (refs, hashed), k, s)
           | ViewChunk chunk c1 \<Rightarrow>
               (case put (ios n) (sha256 chunk) chunk k s of
                  (Inl e, k1, s1) \<Rightarrow> Some (Inl (IngestCas e), k1, s1)
                | (Inr _, k1, s1) \<Rightarrow>
                    ingestLoop put ios rd c1 (Suc n)
                      (refs @ [\<lparr>cr_SHA256 = hex_encode (digest_bytes (sha256 chunk)), cr_Length = int (length chunk)\<rparr>])
                      (hashed @ chunk) k1 s1)))"

definition ingestWith ::
  "(cas_io \<Rightarrow> digest \<Rightarrow> bytes \<Rightarrow> 'k \<Rightarrow> casState \<Rightarrow> (cas_error + unit) \<times> 'k \<times> casState)
    \<Rightarrow> (cas_io \<Rightarrow> 'k \<Rightarrow> casState \<Rightarrow> (cas_error + unit) \<times> 'k \<times> casState) \<Rightarrow> ('k \<Rightarrow> casState \<Rightarrow> 'k \<times> casState)
    \<Rightarrow> (nat \<Rightarrow> cas_io) \<Rightarrow> cas_io \<Rightarrow> 'r reader \<Rightarrow> 'r \<Rightarrow> bool \<Rightarrow> 'k \<Rightarrow> casState
    \<Rightarrow> ((ingest_error + ingestResult) \<times> casState) option" where
  "ingestWith put flush abort ios iof rd r withMD5 k s =
     (case ingestLoop put ios rd (newCDCChunker r) 0 [] [] k s of
        None \<Rightarrow> None
      | Some (Inl e, k1, s1) \<Rightarrow> Some (Inl e, snd (abort k1 s1))
      | Some (Inr (refs, hashed), k1, s1) \<Rightarrow>
          (case flush iof k1 s1 of
             (Inl e, k2, s2) \<Rightarrow> Some (Inl (IngestCas e), snd (abort k2 s2))
           | (Inr _, k2, s2) \<Rightarrow>
               Some (Inr \<lparr>ing_chunks = refs, ing_size = (\<Sum>c \<leftarrow> refs. cr_Length c), ing_objSHA256 = sha256 hashed,
                          ing_etagMD5 = (if withMD5 then md5 hashed else replicate 16 0)\<rparr>,
                     snd (abort k2 s2))))"

definition directPackMinBytes :: int where
  "directPackMinBytes = 64 * 2 ^ 20"

definition directPack :: "int \<Rightarrow> bool" where
  "directPack sz \<longleftrightarrow> sz \<ge> directPackMinBytes"

definition ingestStream ::
  "flate_codec \<Rightarrow> flate_codec option \<Rightarrow> (nat \<Rightarrow> cas_io) \<Rightarrow> cas_io \<Rightarrow> 'r reader \<Rightarrow> 'r \<Rightarrow> bool \<Rightarrow> int \<Rightarrow> casState
    \<Rightarrow> ((ingest_error + ingestResult) \<times> casState) option" where
  "ingestStream Z cmp ios iof rd r withMD5 sz s =
     (if directPack sz
      then ingestWith (packSink_Put Z) (packSink_Flush Z) packSink_Abort ios iof rd r withMD5 (newPackSink cmp) s
      else ingestWith looseSink_Put looseSink_Flush looseSink_Abort ios iof rd r withMD5 newCASBatch s)"

section \<open>The sink interface\<close>

definition keeps :: "flate_codec \<Rightarrow> casState \<Rightarrow> casState \<Rightarrow> bool" where
  "keeps Z s s' \<longleftrightarrow> (\<forall>dg. stored dg s \<longrightarrow> stored dg s') \<and> (healthy Z s \<longrightarrow> healthy Z s')"

lemma keeps_refl [simp]: "keeps Z s s" and keeps_trans: "keeps Z s t \<Longrightarrow> keeps Z t u \<Longrightarrow> keeps Z s u"
  and grows_keeps: "grows Z s s' \<Longrightarrow> keeps Z s s'"
  by (auto simp: keeps_def grows_def)

definition chunk_ref :: "bytes \<Rightarrow> chunkRef" where
  "chunk_ref c = \<lparr>cr_SHA256 = hex_encode (digest_bytes (sha256 c)), cr_Length = int (length c)\<rparr>"

text \<open>
  What \<open>chunkSink\<close> promises: every operation keeps the invariant and loses no stored chunk,
  whatever its outcome; a sink that accepted chunks and flushes without error has stored
  them. \<open>acc D\<close> says that the sink answers for the digests \<open>D\<close>.
\<close>

locale chunk_sink =
  fixes Z :: flate_codec
    and put :: "cas_io \<Rightarrow> digest \<Rightarrow> bytes \<Rightarrow> 'k \<Rightarrow> casState \<Rightarrow> (cas_error + unit) \<times> 'k \<times> casState"
    and flush :: "cas_io \<Rightarrow> 'k \<Rightarrow> casState \<Rightarrow> (cas_error + unit) \<times> 'k \<times> casState"
    and abort :: "'k \<Rightarrow> casState \<Rightarrow> 'k \<times> casState"
    and chunk_ok :: "bytes \<Rightarrow> bool"
    and inv :: "'k \<Rightarrow> casState \<Rightarrow> bool"
    and acc :: "digest set \<Rightarrow> 'k \<Rightarrow> casState \<Rightarrow> bool"
  assumes put_keeps: "put io (sha256 c) c k s = (r, k', s') \<Longrightarrow> inv k s \<Longrightarrow> order_ok io \<Longrightarrow> chunk_ok c
      \<Longrightarrow> inv k' s' \<and> keeps Z s s'"
    and put_acc: "put io (sha256 c) c k s = (r, k', s') \<Longrightarrow> inv k s \<Longrightarrow> order_ok io \<Longrightarrow> chunk_ok c
      \<Longrightarrow> acc D k s \<Longrightarrow> r = Inr () \<Longrightarrow> acc (insert (sha256 c) D) k' s'"
    and flush_keeps: "flush io k s = (r, k', s') \<Longrightarrow> inv k s \<Longrightarrow> order_ok io \<Longrightarrow> inv k' s' \<and> keeps Z s s'"
    and flush_stores: "flush io k s = (r, k', s') \<Longrightarrow> inv k s \<Longrightarrow> order_ok io \<Longrightarrow> acc D k s \<Longrightarrow> r = Inr ()
      \<Longrightarrow> dg \<in> D \<Longrightarrow> stored dg s'"
    and abort_keeps: "abort k s = (k', s') \<Longrightarrow> inv k s \<Longrightarrow> keeps Z s s'"
begin

lemma ingestLoop_correct:
  assumes "\<And>n. order_ok (ios n)"
  shows "stream rd c xs \<Longrightarrow> chunker_ok c \<Longrightarrow> inv k s \<Longrightarrow> acc D k s
    \<Longrightarrow> \<forall>ch \<in> set (cdcChunks (pending c @ xs)). chunk_ok ch
    \<Longrightarrow> \<exists>out k' s'. ingestLoop put ios rd c n refs hashed k s = Some (out, k', s') \<and> inv k' s' \<and> keeps Z s s'
      \<and> (\<forall>refs' h. out = Inr (refs', h) \<longrightarrow> refs' = refs @ map chunk_ref (cdcChunks (pending c @ xs))
           \<and> h = hashed @ pending c @ xs \<and> acc (D \<union> sha256 ` set (cdcChunks (pending c @ xs))) k' s')"
proof (induction "length (pending c @ xs)" arbitrary: c xs n refs hashed k s D rule: less_induct)
  case less
  note v = nextView_correct [OF less.prems(1,2)]
  note u = ingestLoop.simps [of put ios rd c n refs hashed k s]
  show ?case
  proof (cases "pending c @ xs = []")
    case True
    with v have "nextView rd c = Some ViewEOF" by simp
    then have "ingestLoop put ios rd c n refs hashed k s = Some (Inr (refs, hashed), k, s)" unfolding u by simp
    then show ?thesis using True less.prems(3,4) by auto
  next
    case False
    let ?d = "pending c @ xs"
    obtain m c' zs where nv: "nextView rd c = Some (ViewChunk (take m ?d) c')"
      and ch: "cdcChunks ?d = take m ?d # cdcChunks (drop m ?d)" and m: "0 < m"
      and rest: "pending c' @ zs = drop m ?d" "stream rd c' zs" "chunker_ok c'"
      using v False by auto
    let ?c = "take m ?d"
    obtain r k1 s1 where p: "put (ios n) (sha256 ?c) ?c k s = (r, k1, s1)" by (metis prod_cases3)
    have ok: "chunk_ok ?c" using less.prems(5) ch by simp
    note pk = put_keeps [OF p less.prems(3) assms ok]
    show ?thesis
    proof (cases r)
      case (Inl e)
      then have "ingestLoop put ios rd c n refs hashed k s = Some (Inl (IngestCas e), k1, s1)"
        unfolding u using nv p by simp
      with pk show ?thesis by simp
    next
      case (Inr un)
      have a: "acc (insert (sha256 ?c) D) k1 s1" using put_acc [OF p less.prems(3) assms ok less.prems(4)] Inr by simp
      have lt: "length (pending c' @ zs) < length ?d" unfolding rest(1) using m False by (simp add: length_greater_0_conv [symmetric] del: length_greater_0_conv) linarith
      have okr: "\<forall>ch \<in> set (cdcChunks (pending c' @ zs)). chunk_ok ch" unfolding rest(1) using less.prems(5) ch by simp
      obtain out k' s' where IH: "ingestLoop put ios rd c' (Suc n) (refs @ [chunk_ref ?c]) (hashed @ ?c) k1 s1 = Some (out, k', s')"
        "inv k' s'" "keeps Z s1 s'"
        "\<forall>refs' h. out = Inr (refs', h) \<longrightarrow> refs' = (refs @ [chunk_ref ?c]) @ map chunk_ref (cdcChunks (drop m ?d))
           \<and> h = (hashed @ ?c) @ drop m ?d \<and> acc (insert (sha256 ?c) D \<union> sha256 ` set (cdcChunks (drop m ?d))) k' s'"
        using less.hyps [OF lt rest(2,3) conjunct1 [OF pk] a okr, of "Suc n" "refs @ [chunk_ref ?c]" "hashed @ ?c"]
        unfolding rest(1) by blast
      have l: "ingestLoop put ios rd c n refs hashed k s = Some (out, k', s')"
        unfolding u using nv p Inr IH(1) by (simp add: chunk_ref_def)
      have "refs' = refs @ map chunk_ref (cdcChunks ?d) \<and> h = hashed @ ?d
          \<and> acc (D \<union> sha256 ` set (cdcChunks ?d)) k' s'" if "out = Inr (refs', h)" for refs' h
        using IH(4) that append_take_drop_id [of m ?d] unfolding ch
        by (simp del: take_append drop_append append_take_drop_id)
      with l IH(2,3) pk keeps_trans show ?thesis by blast
    qed
  qed
qed

lemma ingestWith_correct:
  assumes "\<And>n. order_ok (ios n)" "order_ok iof" "delivers rd r xs" "inv k s" "acc {} k s"
    and "\<forall>ch \<in> set (cdcChunks xs). chunk_ok ch"
  shows "\<exists>out s'. ingestWith put flush abort ios iof rd r withMD5 k s = Some (out, s') \<and> keeps Z s s'
    \<and> (\<forall>res. out = Inr res \<longrightarrow> ing_chunks res = map chunk_ref (cdcChunks xs) \<and> ing_size res = int (length xs)
         \<and> ing_objSHA256 res = sha256 xs \<and> (withMD5 \<longrightarrow> ing_etagMD5 res = md5 xs)
         \<and> (\<forall>ch \<in> set (cdcChunks xs). stored (sha256 ch) s'))"
proof -
  obtain out k1 s1 where l: "ingestLoop put ios rd (newCDCChunker r) 0 [] [] k s = Some (out, k1, s1)"
    and i: "inv k1 s1" "keeps Z s s1"
    and o: "\<forall>refs' h. out = Inr (refs', h) \<longrightarrow> refs' = map chunk_ref (cdcChunks xs) \<and> h = xs
        \<and> acc (sha256 ` set (cdcChunks xs)) k1 s1"
    using ingestLoop_correct [of ios, where c = "newCDCChunker r" and xs = xs and k = k and s = s and D = "{}"
        and n = 0 and refs = "[]" and hashed = "[]" and rd = rd] assms(1,3-6) by auto
  have ab: "keeps Z t (snd (abort k t))" if "inv k t" for k t
    using abort_keeps [OF surjective_pairing that] .
  show ?thesis
  proof (cases out)
    case (Inl e)
    then have "ingestWith put flush abort ios iof rd r withMD5 k s = Some (Inl e, snd (abort k1 s1))"
      using l by (simp add: ingestWith_def)
    then show ?thesis using i ab keeps_trans by blast
  next
    case (Inr p)
    obtain refs h where p: "p = (refs, h)" by fastforce
    have rf: "refs = map chunk_ref (cdcChunks xs)" "h = xs" "acc (sha256 ` set (cdcChunks xs)) k1 s1"
      using o Inr p by auto
    obtain f k2 s2 where fl: "flush iof k1 s1 = (f, k2, s2)" by (metis prod_cases3)
    note fk = flush_keeps [OF fl i(1) assms(2)]
    have kp: "keeps Z s (snd (abort k2 s2))" using i(2) fk ab keeps_trans by blast
    show ?thesis
    proof (cases f)
      case (Inl e)
      then have "ingestWith put flush abort ios iof rd r withMD5 k s = Some (Inl (IngestCas e), snd (abort k2 s2))"
        using l Inr p fl by (simp add: ingestWith_def)
      then show ?thesis using kp by simp
    next
      case ok: (Inr un)
      let ?res = "\<lparr>ing_chunks = refs, ing_size = (\<Sum>c \<leftarrow> refs. cr_Length c), ing_objSHA256 = sha256 h,
                   ing_etagMD5 = (if withMD5 then md5 h else replicate 16 0)\<rparr>"
      have "ingestWith put flush abort ios iof rd r withMD5 k s = Some (Inr ?res, snd (abort k2 s2))"
        using l Inr p fl ok by (simp add: ingestWith_def)
      moreover have "(\<Sum>c \<leftarrow> refs. cr_Length c) = int (length xs)"
      proof -
        have "(\<Sum>c \<leftarrow> refs. cr_Length c) = int (length (concat (cdcChunks xs)))"
          unfolding rf(1) by (simp add: length_concat chunk_ref_def comp_def sum_list_of_nat [symmetric])
        then show ?thesis by (simp only: cdcChunks_concat)
      qed
      moreover have "stored (sha256 ch) (snd (abort k2 s2))" if "ch \<in> set (cdcChunks xs)" for ch
        using flush_stores [OF fl i(1) assms(2) rf(3)] ok that ab [of k2 s2] fk by (simp add: keeps_def)
      ultimately show ?thesis using kp rf by simp
    qed
  qed
qed

text \<open>A source that breaks off: the loop ends with an error and nothing is lost.\<close>

lemma ingestLoop_broken:
  assumes "\<And>n. order_ok (ios n)"
  shows "broken rd c xs \<Longrightarrow> chunker_ok c \<Longrightarrow> inv k s \<Longrightarrow> \<forall>ch \<in> set (cdcChunks (pending c @ xs)). chunk_ok ch
    \<Longrightarrow> \<exists>e k' s'. ingestLoop put ios rd c n refs hashed k s = Some (Inl e, k', s') \<and> inv k' s' \<and> keeps Z s s'"
proof (induction "length (pending c @ xs)" arbitrary: c xs n refs hashed k s rule: less_induct)
  case less
  note u = ingestLoop.simps [of put ios rd c n refs hashed k s]
  let ?d = "pending c @ xs"
  from nextView_broken [OF less.prems(1,2)] show ?case
  proof (elim disjE exE conjE)
    assume "nextView rd c = Some ViewError"
    then show ?thesis unfolding u using less.prems(3) by simp
  next
    fix m c' zs
    assume ne: "?d \<noteq> []" and nv: "nextView rd c = Some (ViewChunk (take m ?d) c')"
      and ch: "cdcChunks ?d = take m ?d # cdcChunks (drop m ?d)" and m: "0 < m"
      and rest: "pending c' @ zs = drop m ?d" "broken rd c' zs" "chunker_ok c'"
    let ?c = "take m ?d"
    obtain r k1 s1 where p: "put (ios n) (sha256 ?c) ?c k s = (r, k1, s1)" by (metis prod_cases3)
    have ok: "chunk_ok ?c" using less.prems(4) ch by simp
    note pk = put_keeps [OF p less.prems(3) assms ok]
    have "length (drop m ?d) < length ?d" using m ne by (cases ?d) auto
    then have lt: "length (pending c' @ zs) < length ?d" unfolding rest(1) .
    have okr: "\<forall>ch \<in> set (cdcChunks (pending c' @ zs)). chunk_ok ch" unfolding rest(1) using less.prems(4) ch by simp
    note IH = less.hyps [OF lt rest(2,3) conjunct1 [OF pk] okr]
    show ?thesis
    proof (cases r)
      case (Inl e)
      then show ?thesis unfolding u using nv p pk by simp
    next
      case (Inr un)
      then show ?thesis unfolding u using nv p IH pk keeps_trans by fastforce
    qed
  qed
qed

lemma ingestWith_broken:
  assumes "\<And>n. order_ok (ios n)" "breaks_off rd r xs" "inv k s" "\<forall>ch \<in> set (cdcChunks xs). chunk_ok ch"
  shows "\<exists>e s'. ingestWith put flush abort ios iof rd r withMD5 k s = Some (Inl e, s') \<and> keeps Z s s'"
proof -
  obtain e k1 s1 where l: "ingestLoop put ios rd (newCDCChunker r) 0 [] [] k s = Some (Inl e, k1, s1)"
    and i: "inv k1 s1" "keeps Z s s1"
    using ingestLoop_broken [of ios, where c = "newCDCChunker r" and xs = xs and k = k and s = s
        and n = 0 and refs = "[]" and hashed = "[]" and rd = rd] assms by auto
  moreover have "keeps Z s1 (snd (abort k1 s1))" by (rule abort_keeps [OF surjective_pairing i(1)])
  ultimately show ?thesis using keeps_trans by (auto simp: ingestWith_def)
qed

end

interpretation loose: chunk_sink Z looseSink_Put looseSink_Flush looseSink_Abort "\<lambda>_. True" batch_inv accepted
  unfolding looseSink_Put_def looseSink_Flush_def looseSink_Abort_def
proof (unfold_locales, goal_cases)
  case (1 io c k s r k' s')
  then show ?case using batch_add_effect(1,2) [OF 1(1-3)] grows_keeps by blast
next
  case (2 io c k s r k' s' D)
  then show ?case using batch_add_effect(3) [OF 2(1-3)] by blast
next
  case (3 io k s r k' s')
  then show ?case using batch_Flush_effect(1,2) [OF 3] grows_keeps by blast
next
  case (4 io k s r k' s' D dg)
  then show ?case using batch_Flush_effect(3) [OF 4(1-3)] by blast
next
  case (5 k s k' s')
  then show ?case using batch_Abort_effect(1) [OF 5] grows_keeps by blast
qed

section \<open>Ingest without failures\<close>

text \<open>An environment in which nothing fails; the order of ranges and the timing of flushes stay free.\<close>

definition quiet :: "cas_io \<Rightarrow> bool" where
  "quiet io \<longleftrightarrow> order_ok io \<and> (\<forall>dg. \<not> io_stat io dg \<and> \<not> io_pubstat io dg) \<and> \<not> io_stage io
     \<and> (\<forall>n. \<not> io_sync io n \<and> \<not> io_rename io n) \<and> (\<forall>d. \<not> io_mkdir io d \<and> \<not> io_dirsync io d)"

fun quiet_flight :: "casFlight option \<Rightarrow> bool" where
  "quiet_flight None = True"
| "quiet_flight (Some (Flying io files)) = quiet io"
| "quiet_flight (Some (Landed r)) = (r = Inr ())"

lemma mkDirs_quiet: "(\<forall>d. \<not> fails d) \<Longrightarrow> fst (mkDirs fails ds D)"
  by (induction ds arbitrary: D) (simp_all add: case_prod_beta)

lemma casEnsureShardDirs_quiet: "quiet io \<Longrightarrow> fst (casEnsureShardDirs io files D)"
  using mkDirs_quiet [of "io_mkdir io"]
  by (auto simp: casEnsureShardDirs_def quiet_def Let_def split: prod.splits) (metis fst_conv)+

lemma publishLoop_quiet:
  "quiet io \<Longrightarrow> staged_ok (files @ rest) s \<Longrightarrow> fst (snd (snd (publishLoop io False files ren s))) = None"
proof (induction files arbitrary: ren s)
  case (Cons f files)
  have st: "staged_ok (files @ rest) (removeTmp (st_tmp f) t)" if "cs_tmp t = cs_tmp s" "cs_nextTmp t = cs_nextTmp s" for t
    using staged_ok_drop [of "[f]" "files @ rest" s "removeTmp (st_tmp f) t"] Cons.prems(2) that by (simp add: removeTmp_def)
  obtain data where d: "fmlookup (cs_tmp s) (st_tmp f) = Some data" using Cons.prems(2) by (auto simp: staged_ok_def)
  show ?case
  proof (cases "stored (st_sum f) s")
    case True
    then obtain n where "casStatLocked (io_pubstat io (st_sum f)) (st_sum f) s = Inr n"
      using casStatLocked_ok Cons.prems(1) unfolding quiet_def by blast
    then show ?thesis using Cons.IH [OF Cons.prems(1) st] by simp
  next
    case False
    then have "casStatLocked (io_pubstat io (st_sum f)) (st_sum f) s = Inl CasNotExist"
      using casStatLocked_none Cons.prems(1) unfolding quiet_def by blast
    then show ?thesis using Cons.IH [OF Cons.prems(1) st] Cons.prems(1) d by (simp add: quiet_def)
  qed
qed simp

lemma casFlushFiles_quiet:
  assumes "quiet io" "staged_ok (files @ rest) s"
  shows "fst (casFlushFiles io files s) = Inr ()"
proof -
  obtain newDirs D where en: "casEnsureShardDirs io files (cs_dirs s) = (True, newDirs, D)"
    using casEnsureShardDirs_quiet [OF assms(1), of files "cs_dirs s"] by (cases "casEnsureShardDirs io files (cs_dirs s)") auto
  have "staged_ok (files @ rest) (s\<lparr>cs_dirs := D\<rparr>)" using assms(2) by (simp add: staged_ok_def)
  from publishLoop_quiet [OF assms(1) this, of "[]"] obtain left ren s1
    where "publishLoop io False files [] (s\<lparr>cs_dirs := D\<rparr>) = (left, ren, None, s1)"
    by (cases "publishLoop io False files [] (s\<lparr>cs_dirs := D\<rparr>)") auto
  with en assms(1) show ?thesis by (simp add: casFlushFiles_def casPublish_def quiet_def)
qed

lemma land_quiet:
  "land fl s = (r, s') \<Longrightarrow> quiet_flight (Some fl) \<Longrightarrow> staged_ok (in_flight (Some fl) @ rest) s \<Longrightarrow> r = Inr ()"
proof (cases fl)
  case (Flying io files)
  moreover assume "land fl s = (r, s')" "quiet_flight (Some fl)" "staged_ok (in_flight (Some fl) @ rest) s"
  ultimately show ?thesis using casFlushFiles_quiet [of io files rest s] by simp
qed auto

lemma batch_wait_quiet:
  assumes "batch_wait b s = (r, b', s')" "batch_inv b s" "quiet_flight (cb_flight b)"
  shows "r = Inr ()"
  using assms land_quiet [where rest = "cb_files b"]
  by (auto simp: batch_wait_def batch_inv_def split: option.splits prod.splits)

lemma batch_startFlush_quiet:
  assumes "batch_startFlush io b s = (r, b', s')" "batch_inv b s" "quiet_flight (cb_flight b)" "quiet io"
  shows "r = Inr () \<and> quiet_flight (cb_flight b')"
proof -
  obtain r1 b1 s1 where w: "batch_wait b s = (r1, b1, s1)" by (metis prod_cases3)
  have "r1 = Inr ()" by (rule batch_wait_quiet [OF w assms(2,3)])
  then show ?thesis
    using assms(1,4) w batch_wait_effect(4) [OF w assms(2)] by (auto simp: batch_startFlush_def Let_def split: if_splits)
qed

lemma batch_add_quiet:
  assumes "batch_add io (sha256 data) data b0 s0 = (r, b', s')" "batch_inv b0 s0" "quiet_flight (cb_flight b0)" "quiet io"
  shows "r = Inr () \<and> quiet_flight (cb_flight b')"
proof -
  let ?dg = "sha256 data"
  obtain b s where bg: "background (io_early io) b0 s0 = (b, s)" by fastforce
  note e = background_effect [OF bg assms(2)]
  have q: "quiet_flight (cb_flight b)"
    using bg assms(2,3) land_quiet [where rest = "cb_files b0"]
    by (auto simp: background_def batch_inv_def split: option.splits prod.splits if_splits)
  have ns: "casStat (io_stat io ?dg) ?dg s = Inl x \<Longrightarrow> x = CasNotExist" for x
    using assms(4) by (auto simp: casStat_def casStatLocked_def quiet_def split: option.splits)
  show ?thesis
  proof (cases "?dg \<in> cb_seen b \<or> is_ok (casStat (io_stat io ?dg) ?dg s)")
    case True
    then have "r = Inr ()" "cb_flight b' = cb_flight b" using assms(1) bg by (auto simp: batch_add_def Let_def split: if_splits)
    then show ?thesis using q by simp
  next
    case False
    then have st: "casStat (io_stat io ?dg) ?dg s = Inl CasNotExist" "?dg \<notin> cb_seen b"
      using ns by (cases "casStat (io_stat io ?dg) ?dg s"; blast)+
    obtain tmp s1 where sg: "casStage (io_stage io) data s = (Inr tmp, s1)" using assms(4) by (simp add: casStage_def quiet_def)
    let ?b2 = "b\<lparr>cb_seen := insert ?dg (cb_seen b), cb_files := cb_files b @ [\<lparr>st_sum = ?dg, st_tmp = tmp\<rparr>],
                 cb_bytes := cb_bytes b + length data\<rparr>"
    have i: "staged_ok (in_flight (cb_flight b) @ cb_files b) s" using e(2) by (simp add: batch_inv_def)
    note so = staged_ok_stage [OF i sg]
    have b2: "batch_inv ?b2 s1" using e(2) so(1) same_chunks_facts(3) [OF so(2)] by (simp add: batch_inv_def)
    have "batch_startFlush io ?b2 s1 = (r, b', s') \<or> r = Inr () \<and> b' = ?b2"
      using assms(1) bg st sg by (auto simp: batch_add_def Let_def split: if_splits)
    then show ?thesis using batch_startFlush_quiet [OF _ b2 _ assms(4)] q by auto
  qed
qed

lemma batch_Flush_quiet:
  assumes "batch_Flush io b s = (r, b', s')" "batch_inv b s" "quiet_flight (cb_flight b)" "quiet io"
  shows "r = Inr ()"
proof -
  obtain r1 b1 s1 where f: "batch_startFlush io b s = (r1, b1, s1)" by (metis prod_cases3)
  note q = batch_startFlush_quiet [OF f assms(2-4)]
  have "order_ok io" using assms(4) by (simp add: quiet_def)
  then have "batch_inv b1 s1" using batch_startFlush_effect(2) [OF f assms(2)] by simp
  then show ?thesis using batch_wait_quiet [OF _ _ conjunct2 [OF q]] assms(1) f q by (simp add: batch_Flush_def)
qed

text \<open>A sink that also accepts everything when nothing fails.\<close>

locale live_sink = chunk_sink Z put flush abort chunk_ok inv acc
  for Z put flush abort chunk_ok inv and acc :: "digest set \<Rightarrow> 'k \<Rightarrow> casState \<Rightarrow> bool" +
  fixes live :: "'k \<Rightarrow> bool"
  assumes put_live: "put io (sha256 c) c k s = (r, k', s') \<Longrightarrow> inv k s \<Longrightarrow> live k \<Longrightarrow> quiet io \<Longrightarrow> chunk_ok c
      \<Longrightarrow> r = Inr () \<and> live k'"
    and flush_live: "flush io k s = (r, k', s') \<Longrightarrow> inv k s \<Longrightarrow> live k \<Longrightarrow> quiet io \<Longrightarrow> r = Inr ()"
begin

lemma ingestLoop_live:
  assumes "\<And>n. quiet (ios n)"
  shows "stream rd c xs \<Longrightarrow> chunker_ok c \<Longrightarrow> inv k s \<Longrightarrow> live k
    \<Longrightarrow> \<forall>ch \<in> set (cdcChunks (pending c @ xs)). chunk_ok ch
    \<Longrightarrow> \<exists>p k' s'. ingestLoop put ios rd c n refs hashed k s = Some (Inr p, k', s') \<and> inv k' s' \<and> live k'"
proof (induction "length (pending c @ xs)" arbitrary: c xs n refs hashed k s rule: less_induct)
  case less
  note v = nextView_correct [OF less.prems(1,2)]
  note u = ingestLoop.simps [of put ios rd c n refs hashed k s]
  show ?case
  proof (cases "pending c @ xs = []")
    case True
    with v have "nextView rd c = Some ViewEOF" by simp
    then show ?thesis unfolding u using less.prems(3,4) by simp
  next
    case False
    let ?d = "pending c @ xs"
    obtain m c' zs where nv: "nextView rd c = Some (ViewChunk (take m ?d) c')"
      and ch: "cdcChunks ?d = take m ?d # cdcChunks (drop m ?d)" and m: "0 < m"
      and rest: "pending c' @ zs = drop m ?d" "stream rd c' zs" "chunker_ok c'"
      using v False by auto
    let ?c = "take m ?d"
    obtain r k1 s1 where p: "put (ios n) (sha256 ?c) ?c k s = (r, k1, s1)" by (metis prod_cases3)
    have ok: "chunk_ok ?c" using less.prems(5) ch by simp
    have or: "order_ok (ios n)" using assms by (simp add: quiet_def)
    note pl = put_live [OF p less.prems(3,4) assms ok]
    have "drop m ?d = [] \<or> length (drop m ?d) < length ?d" using m False by (cases ?d) auto
    then have lt: "length (pending c' @ zs) < length ?d" unfolding rest(1) using False by auto
    have okr: "\<forall>ch \<in> set (cdcChunks (pending c' @ zs)). chunk_ok ch" unfolding rest(1) using less.prems(5) ch by simp
    note IH = less.hyps [OF lt rest(2,3) conjunct1 [OF put_keeps [OF p less.prems(3) or ok]] conjunct2 [OF pl] okr]
    show ?thesis unfolding u using nv p pl IH by simp
  qed
qed

lemma ingestWith_live:
  assumes "\<And>n. quiet (ios n)" "quiet iof" "delivers rd r xs" "inv k s" "live k"
    and "\<forall>ch \<in> set (cdcChunks xs). chunk_ok ch"
  shows "\<exists>res s'. ingestWith put flush abort ios iof rd r withMD5 k s = Some (Inr res, s')"
proof -
  obtain p k1 s1 where l: "ingestLoop put ios rd (newCDCChunker r) 0 [] [] k s = Some (Inr p, k1, s1)" "inv k1 s1" "live k1"
    using ingestLoop_live [of ios, where c = "newCDCChunker r" and xs = xs and k = k and s = s
        and n = 0 and refs = "[]" and hashed = "[]" and rd = rd] assms(1,3-6) by auto
  obtain f k2 s2 where fl: "flush iof k1 s1 = (f, k2, s2)" by (metis prod_cases3)
  have "f = Inr ()" by (rule flush_live [OF fl l(2,3) assms(2)])
  then show ?thesis using l(1) fl by (cases p) (simp add: ingestWith_def)
qed

end

interpretation loose: live_sink Z looseSink_Put looseSink_Flush looseSink_Abort "\<lambda>_. True" batch_inv accepted
  "\<lambda>b. quiet_flight (cb_flight b)"
proof (unfold_locales, goal_cases)
  case (1 io c k s r k' s')
  then show ?case using batch_add_quiet [OF _ 1(2,3,4)] by (simp add: looseSink_Put_def)
next
  case (2 io k s r k' s')
  then show ?case using batch_Flush_quiet [OF _ 2(2,3,4)] by (simp add: looseSink_Flush_def)
qed

section \<open>Publishing keeps every packed chunk\<close>

text \<open>
  A pack file is named by the digest of its body. \<open>B\<close> is a set of pack files, those on disk
  and those about to be written, on which that name is unique: no two different files among
  them have the same body digest.
\<close>

definition packFileID :: "bytes \<Rightarrow> string" where
  "packFileID f = hex_encode (digest_bytes (sha256 (take (length f - packFooterSize) f)))"

definition pack_names :: "bytes set \<Rightarrow> bool" where
  "pack_names B \<longleftrightarrow> inj_on packFileID B \<and> (\<forall>f \<in> B. length f < 2 ^ 63)"

definition pack_ok :: "bytes set \<Rightarrow> casState \<Rightarrow> packInfo \<Rightarrow> bool" where
  "pack_ok B s p \<longleftrightarrow> pi_path p = packPath (cs_root s) (pi_tier p) (pi_id p)
     \<and> (\<exists>f \<in> B. \<exists>es bs. fmlookup (cs_packFiles s) (pi_path p) = Some f \<and> pi_id p = packFileID f
          \<and> readPackLayout f = Inr (es, bs) \<and> pe_sha ` set es \<subseteq> indexed (cs_packs s))"

definition packs_ok :: "bytes set \<Rightarrow> casState \<Rightarrow> bool" where
  "packs_ok B s \<longleftrightarrow> snapshot_ok (cs_packs s) \<and> (\<forall>p \<in> set (ps_packs (cs_packs s)). pack_ok B s p)"

lemma pack_ok_mono:
  assumes "pack_ok B s p" "cs_root s' = cs_root s" "indexed (cs_packs s) \<subseteq> indexed (cs_packs s')"
    and "fmlookup (cs_packFiles s') (pi_path p) = fmlookup (cs_packFiles s) (pi_path p)"
  shows "pack_ok B s' p"
  unfolding pack_ok_def assms(2,4) using assms(1,3) unfolding pack_ok_def by blast

lemma pack_ok_obtain:
  assumes "packs_ok B s" "p \<in> set (ps_packs (cs_packs s))"
  obtains f es bs where "f \<in> B" "fmlookup (cs_packFiles s) (pi_path p) = Some f" "pi_id p = packFileID f"
    "readPackLayout f = Inr (es, bs)" "pe_sha ` set es \<subseteq> indexed (cs_packs s)"
    "pi_path p = packPath (cs_root s) (pi_tier p) (pi_id p)"
  using assms unfolding packs_ok_def pack_ok_def by blast

lemma packPath_inj: "packPath root t i = packPath root t' i' \<longleftrightarrow> t = t' \<and> i = i'"
  by (cases t; cases t') (simp_all add: packPath_def tierPackDir_def tierRoot_def)

lemma verified_info:
  assumes "verifyPackFile Z path f = Inr (info, es)"
  shows "pi_id info = packFileID f" "\<exists>bs. readPackLayout f = Inr (es, bs)"
    "loadPackFile path' (pi_id info @ packFileSuffix) f = Inr (info\<lparr>pi_path := path'\<rparr>, es)"
proof -
  obtain bs where lay: "readPackLayout f = Inr (es, bs)"
    and info: "info = newPackInfo (hex_encode (digest_bytes bs)) path (length f) es"
    and "hex_encode (digest_bytes (sha256 (take (length f - packFooterSize) f))) = pi_id info"
    using assms by (auto simp: verifyPackFile_def statPackFile_def Let_def split: if_splits)
  then show "pi_id info = packFileID f" "\<exists>bs. readPackLayout f = Inr (es, bs)" by (simp_all add: packFileID_def)
  show "loadPackFile path' (pi_id info @ packFileSuffix) f = Inr (info\<lparr>pi_path := path'\<rparr>, es)"
    by (simp add: loadPackFile_def statPackFile_def lay info newPackInfo_def)
qed

lemma packed_good_mono:
  assumes "packed_good Z skip dg s" "set (appendLocs (cs_packs s) dg) \<subseteq> set (appendLocs (cs_packs s') dg)"
    and "ps_packs (cs_packs s') = ps_packs (cs_packs s) @ ext"
    and "\<forall>p \<in> set (ps_packs (cs_packs s)). fmlookup (cs_packFiles s') (pi_path p) = fmlookup (cs_packFiles s) (pi_path p)"
  shows "packed_good Z skip dg s'"
proof -
  obtain loc where l: "loc \<in> set (appendLocs (cs_packs s) dg)" "pl_pack loc \<notin> skip" "is_ok (readPacked Z dg loc s)"
    using assms(1) by (auto simp: packed_good_def)
  then have n: "pl_pack loc < length (ps_packs (cs_packs s))" by (auto simp: readPacked_def split: if_splits)
  then have "readPacked Z dg loc s' = readPacked Z dg loc s"
    using assms(3,4) by (simp add: readPacked_def nth_append)
  with l assms(2) show ?thesis by (auto simp: packed_good_def)
qed

text \<open>Writing a pack file under its name changes no pack that is already indexed.\<close>

lemma pack_file_same:
  assumes "packs_ok B s" "pack_names B" "f \<in> B" "final = packPath (cs_root s) t (packFileID f)"
    and "p \<in> set (ps_packs (cs_packs s))"
  shows "fmlookup (fmupd final f (cs_packFiles s)) (pi_path p) = fmlookup (cs_packFiles s) (pi_path p)"
proof (cases "final = pi_path p")
  case True
  obtain f0 where f0: "f0 \<in> B" "fmlookup (cs_packFiles s) (pi_path p) = Some f0" "pi_id p = packFileID f0"
    "pi_path p = packPath (cs_root s) (pi_tier p) (pi_id p)"
    by (rule pack_ok_obtain [OF assms(1,5)])
  then have "packFileID f0 = packFileID f" using True assms(4) by (simp add: packPath_inj)
  then have "f0 = f" using assms(2,3) f0(1) by (auto simp: pack_names_def dest: inj_onD)
  with f0 True show ?thesis by simp
qed simp

lemma withPack_Inr:
  assumes "withPack info entries st = Inr st'"
  shows "(\<exists>p \<in> set (ps_packs st). pi_id p = pi_id info \<and> pi_tier p = pi_tier info) \<and> st' = st \<or>
    \<not> (\<exists>p \<in> set (ps_packs st). pi_id p = pi_id info \<and> pi_tier p = pi_tier info)
      \<and> length (ps_packs st) < unat packIdxMask
      \<and> length entries + sum_list (map ix_size (ps_levels st)) < 4294967295"
  using assms unfolding withPack_def
  by (simp only: not_less not_le not_le_imp_less sum.distinct sum.inject split: if_split_asm) (auto simp: not_le)

lemma good_copy_loose: "cs_loose s' = cs_loose s \<Longrightarrow> loose_good dg s' = loose_good dg s"
  by (simp add: loose_good_def)

lemma good_copy_packs:
  assumes "good_copy Z dg s" "cs_loose s' = cs_loose s"
    and "set (appendLocs (cs_packs s) dg) \<subseteq> set (appendLocs (cs_packs s') dg)"
    and "ps_packs (cs_packs s') = ps_packs (cs_packs s) @ ext"
    and "\<forall>p \<in> set (ps_packs (cs_packs s)). fmlookup (cs_packFiles s') (pi_path p) = fmlookup (cs_packFiles s) (pi_path p)"
  shows "good_copy Z dg s'"
  using assms(1) packed_good_mono [OF _ assms(3-5)] good_copy_loose [OF assms(2)] by (auto simp: good_copy_def)

lemma stored_indexed: "snapshot_ok (cs_packs s) \<Longrightarrow> stored dg s \<longleftrightarrow> fmlookup (cs_loose s) dg \<noteq> None \<or> dg \<in> indexed (cs_packs s)"
  using ps_lookup_indexed [OF snapshot_state_ok] by (simp add: stored_def)

lemma appendLocs_empty: "snapshot_ok st \<Longrightarrow> dg \<notin> indexed st \<Longrightarrow> set (appendLocs st dg) = {}"
  using ps_best_all_recs(2) [of st dg] ps_lookup_indexed [OF snapshot_state_ok, of st dg]
  by (auto simp: appendLocs_set ps_lookup_def)

lemma write_pack_file:
  assumes "packs_ok B s" "pack_names B" "f \<in> B" "final = packPath (cs_root s) t (packFileID f)"
    and "s2 = s\<lparr>cs_format := v, cs_packFiles := fmupd final f (cs_packFiles s)\<rparr>"
  shows "packs_ok B s2" "keeps Z s s2"
proof -
  have same: "\<forall>p \<in> set (ps_packs (cs_packs s)). fmlookup (cs_packFiles s2) (pi_path p) = fmlookup (cs_packFiles s) (pi_path p)"
    using pack_file_same [OF assms(1-4)] assms(5) by simp
  then show "packs_ok B s2" using assms(1,5) pack_ok_mono [of B s _ s2] by (simp add: packs_ok_def)
  have "good_copy Z dg s2" if "good_copy Z dg s" for dg
    using that same assms(5) by (intro good_copy_packs [of Z dg s s2 "[]"]) simp_all
  then show "keeps Z s s2" using assms(5) by (auto simp: keeps_def healthy_def stored_def dirs_ok_def)
qed

lemma addPack_effect:
  assumes ok: "packs_ok B s" "pack_names B" "f \<in> B" and v: "verifyPackFile Z path f = Inr (info, es)"
    and p: "p = info\<lparr>pi_path := final, pi_tier := t\<rparr>" "final = packPath (cs_root s) t (pi_id info)"
    and fl: "fmlookup (cs_packFiles s) final = Some f" and ad: "addPack p es s = (r, s')"
  shows "packs_ok B s' \<and> keeps Z s s' \<and> s' = s\<lparr>cs_packs := cs_packs s'\<rparr>
    \<and> (r = Inr () \<longrightarrow> (\<forall>e \<in> set es. stored (pe_sha e) s'))"
proof (cases "withPack p es (cs_packs s)")
  case (Inl e)
  then have "r = Inl (CasLocator e)" "s' = s" using ad by (simp_all add: addPack_def)
  with ok(1) show ?thesis by simp
next
  case (Inr st)
  then have s': "r = Inr ()" "s' = s\<lparr>cs_packs := st\<rparr>" using ad by (simp_all add: addPack_def)
  have len: "length f < 2 ^ 63" using ok(2,3) by (simp add: pack_names_def)
  note vp = verified_pack [OF v len] and vi = verified_info [OF v]
  have sn: "snapshot_ok (cs_packs s)" using ok(1) by (simp add: packs_ok_def)
  consider (old) q where "q \<in> set (ps_packs (cs_packs s))" "pi_id q = pi_id p" "pi_tier q = pi_tier p" "st = cs_packs s"
    | (new) "\<not> (\<exists>q \<in> set (ps_packs (cs_packs s)). pi_id q = pi_id p \<and> pi_tier q = pi_tier p)"
      "length (ps_packs (cs_packs s)) < unat packIdxMask"
      "length es + sum_list (map ix_size (ps_levels (cs_packs s))) < 4294967295"
    using withPack_Inr [OF Inr] by blast
  then show ?thesis
  proof cases
    case old
    obtain f0 es0 bs0 where q: "f0 \<in> B" "pi_id q = packFileID f0" "readPackLayout f0 = Inr (es0, bs0)"
      "pe_sha ` set es0 \<subseteq> indexed (cs_packs s)" by (rule pack_ok_obtain [OF ok(1) old(1)])
    have "f0 = f" using ok(2,3) q(1,2) old(2) vi(1) p(1) by (auto simp: pack_names_def dest: inj_onD)
    then have "es0 = es" using q(3) vi(2) by auto
    then have "\<forall>e \<in> set es. stored (pe_sha e) s" using q(4) stored_indexed [OF sn] by auto
    moreover have "s' = s" using s'(2) old(4) by simp
    ultimately show ?thesis using ok(1) by simp
  next
    case new
    note lim = new(2,3) vp(2)
    obtain st' where w: "withPack p es (cs_packs s) = Inr st'" "snapshot_ok st'" "ps_packs st' = ps_packs (cs_packs s) @ [p]"
      and locs: "\<forall>dg. set (appendLocs st' dg) = set (appendLocs (cs_packs s) dg)
         \<union> {entry_loc (length (ps_packs (cs_packs s))) (pi_tier p) e | e. e \<in> set es \<and> pe_sha e = dg \<and> agrees (cs_packs s) e}"
      using withPack_locs [OF sn new(1) lim] vp(3) by blast
    have st: "st = st'" using w(1) Inr by simp
    have ix: "indexed st = indexed (cs_packs s) \<union> pe_sha ` set es"
      using withPack_indexed [OF snapshot_state_ok [OF sn] new(1) lim(1,2)] Inr by auto
    have files: "cs_packFiles s' = cs_packFiles s" "cs_loose s' = cs_loose s" "cs_packs s' = st" "cs_root s' = cs_root s"
      "cs_dirs s' = cs_dirs s" using s'(2) by simp_all
    have po: "packs_ok B s'"
    proof -
      obtain bs where lay: "readPackLayout f = Inr (es, bs)" using vi(2) by blast
      have "pack_ok B s' p"
        unfolding pack_ok_def using ok(3) fl vi(1) lay ix p files by (intro conjI bexI [of _ f] exI [of _ es] exI [of _ bs]) auto
      moreover have "pack_ok B s' q" if "q \<in> set (ps_packs (cs_packs s))" for q
        using ok(1) that ix files by (intro pack_ok_mono [of B s q s']) (auto simp: packs_ok_def)
      ultimately show ?thesis using w(2,3) files st by (simp add: packs_ok_def)
    qed
    have good: "good_copy Z dg s'" if h: "healthy Z s" and d: "stored dg s'" for dg
    proof (cases "stored dg s")
      case True
      then have "good_copy Z dg s" using h by (simp add: healthy_def)
      then show ?thesis using locs w(3) files st by (intro good_copy_packs [of Z dg s s' "[p]"]) auto
    next
      case False
      then have dg: "dg \<in> pe_sha ` set es" "dg \<notin> indexed (cs_packs s)"
        using d stored_indexed [OF sn] stored_indexed [of s'] w(2) st files ix by auto
      then obtain e where e: "e \<in> set es" "pe_sha e = dg" by auto
      have "agrees (cs_packs s) e" using appendLocs_empty [OF sn dg(2)] e by (simp add: agrees_def)
      then have "entry_loc (length (ps_packs (cs_packs s))) (pi_tier p) e \<in> set (appendLocs st dg)"
        using locs e st by blast
      moreover have "readPacked Z dg (entry_loc (length (ps_packs (cs_packs s))) (pi_tier p) e) s' = readPackRecord Z f e"
        using files st w(3) p fl e(2) by (cases e) (simp add: readPacked_def entry_loc_def)
      ultimately show ?thesis using vp(4) [OF e(1)] files by (auto simp: good_copy_def packed_good_def)
    qed
    have mono: "stored dg s \<Longrightarrow> stored dg s'" for dg
      using stored_indexed [OF sn] stored_indexed [of s'] w(2) st files ix by auto
    have "\<forall>e \<in> set es. stored (pe_sha e) s'" using stored_indexed [of s'] w(2) st files ix by auto
    moreover have "keeps Z s s'" using good mono files by (auto simp: keeps_def healthy_def dirs_ok_def)
    ultimately show ?thesis using po s' by simp
  qed
qed

lemma publishPack_effect:
  assumes "publishPack Z io t f entries s = (r, s')" "packs_ok B s" "pack_names B" "f \<in> B"
  shows "packs_ok B s' \<and> keeps Z s s' \<and> cs_dirs s' = cs_dirs s \<and> cs_loose s' = cs_loose s \<and> cs_tmp s' = cs_tmp s
    \<and> cs_nextTmp s' = cs_nextTmp s \<and> (is_ok r \<longrightarrow> (\<forall>e \<in> set entries. stored (pe_sha e) s'))"
proof (cases "\<not> io_pack io PackVerify \<and> (\<exists>info. verifyPackFile Z ''staged'' f = Inr (info, entries))
    \<and> \<not> (cs_format s < packFormatNeeded t entries \<and> io_pack io PackFormat)")
  case False
  then have "\<not> is_ok r \<and> s' = s"
    using assms(1) by (auto simp: publishPack_def Let_def split: if_splits sum.splits prod.splits)
  with assms(2) show ?thesis by simp
next
  case True
  then obtain info where v: "verifyPackFile Z ''staged'' f = Inr (info, entries)" by blast
  note vi = verified_info [OF v]
  let ?need = "packFormatNeeded t entries"
  define v1 where "v1 = (if cs_format s \<ge> ?need then cs_format s else ?need)"
  have s1: "(if cs_format s \<ge> ?need then s else s\<lparr>cs_format := ?need\<rparr>) = s\<lparr>cs_format := v1\<rparr>" by (simp add: v1_def)
  let ?final = "packPath (cs_root s) t (pi_id info)"
  define s2 where "s2 = s\<lparr>cs_format := v1, cs_packFiles := fmupd ?final f (cs_packFiles s)\<rparr>"
  define p where "p = info\<lparr>pi_path := ?final, pi_tier := t\<rparr>"
  have w: "packs_ok B s2" "keeps Z s s2"
    using write_pack_file(1) [OF assms(2-4) _ s2_def, of t] write_pack_file(2) [OF assms(2-4) _ s2_def, of t Z] vi(1) by simp_all
  have fmt: "packs_ok B (s\<lparr>cs_format := v1\<rparr>)" "keeps Z s (s\<lparr>cs_format := v1\<rparr>)"
  proof -
    have "same_chunks s (s\<lparr>cs_format := v1\<rparr>)" by (simp add: same_chunks_def)
    then show "keeps Z s (s\<lparr>cs_format := v1\<rparr>)" using same_chunks_facts(5) grows_keeps by blast
    show "packs_ok B (s\<lparr>cs_format := v1\<rparr>)"
      using assms(2) pack_ok_mono [of B s _ "s\<lparr>cs_format := v1\<rparr>"] by (simp add: packs_ok_def)
  qed
  consider (early) "\<not> is_ok r" "s' = s\<lparr>cs_format := v1\<rparr>" | (written) "\<not> is_ok r" "s' = s2"
    | (added) "(case addPack p entries s2 of (Inl e, s3) \<Rightarrow> (Inl e, s3) | (Inr _, s3) \<Rightarrow> (Inr p, s3)) = (r, s')"
    using assms(1) True v vi(3) [of ?final]
    by (auto simp: publishPack_def Let_def s1 s2_def [symmetric] p_def [symmetric] split: if_splits)
  then show ?thesis
  proof cases
    case early
    then show ?thesis using fmt by simp
  next
    case written
    then show ?thesis using w by (simp add: s2_def)
  next
    case added
    obtain r2 where ad: "addPack p entries s2 = (r2, s')" and rr: "is_ok r \<longleftrightarrow> is_ok r2"
      using added by (cases "addPack p entries s2") (auto split: sum.splits)
    have "packs_ok B s' \<and> keeps Z s2 s' \<and> s' = s2\<lparr>cs_packs := cs_packs s'\<rparr>
        \<and> (r2 = Inr () \<longrightarrow> (\<forall>e \<in> set entries. stored (pe_sha e) s'))"
      by (rule addPack_effect [OF w(1) assms(3,4) v p_def _ _ ad]) (simp_all add: s2_def)
    moreover from this have "s' = s2\<lparr>cs_packs := cs_packs s'\<rparr>" by blast
    then have "cs_dirs s' = cs_dirs s" "cs_loose s' = cs_loose s" "cs_tmp s' = cs_tmp s" "cs_nextTmp s' = cs_nextTmp s"
      by (metis (no_types, lifting) casState.select_convs casState.surjective casState.update_convs s2_def)+
    ultimately show ?thesis using rr w(2) keeps_trans by auto
  qed
qed

section \<open>The pack sink\<close>

definition built :: "flate_codec option \<Rightarrow> bytes list \<Rightarrow> bytes" where
  "built cmp ds = fst (the (packBuilder_Finish False (packBuild cmp ds)))"

text \<open>
  \<open>packs_of cmp C\<close>: the packs that can be built from chunks in \<open>C\<close> without repeating a digest. They
  are finitely many. \<open>C\<close> is the set of chunks of the stream; the packs it can form are in \<open>B\<close>.
\<close>

definition packs_of :: "flate_codec option \<Rightarrow> bytes set \<Rightarrow> bytes set" where
  "packs_of cmp C = {built cmp ds | ds. set ds \<subseteq> C \<and> distinct (map sha256 ds)}"

lemma built_in_packs_of: "set ds \<subseteq> C \<Longrightarrow> distinct (map sha256 ds) \<Longrightarrow> packs_of cmp C \<subseteq> B \<Longrightarrow> built cmp ds \<in> B"
  by (auto simp: packs_of_def)

lemma finite_packs_of: "finite C \<Longrightarrow> finite (packs_of cmp C)"
proof -
  assume "finite C"
  then have "finite {ds. set ds \<subseteq> C \<and> distinct ds}" by (rule finite_subset_distinct)
  then have "finite (built cmp ` {ds. set ds \<subseteq> C \<and> distinct ds})" by (rule finite_imageI)
  then show ?thesis by (rule finite_subset [rotated]) (auto simp: packs_of_def distinct_map)
qed

definition pack_inv :: "bytes set \<Rightarrow> bytes set \<Rightarrow> flate_codec option \<Rightarrow> packSink \<Rightarrow> casState \<Rightarrow> bool" where
  "pack_inv B C cmp k s \<longleftrightarrow> pack_names B \<and> packs_of cmp C \<subseteq> B
     \<and> packs_ok B s \<and> dirs_ok s \<and> staged_ok [] s \<and> sk_comp k = cmp
     \<and> (case sk_cur k of
          None \<Rightarrow> sk_pending k = {}
        | Some b \<Rightarrow> \<exists>ds. set ds \<subseteq> C \<and> distinct (map sha256 ds) \<and> b = packBuild cmp ds \<and> sk_pending k = sha256 ` set ds)"

definition pack_acc :: "digest set \<Rightarrow> packSink \<Rightarrow> casState \<Rightarrow> bool" where
  "pack_acc D k s \<longleftrightarrow> (\<forall>dg \<in> D. stored dg s \<or> dg \<in> sk_pending k)"

lemma packBuild_shas: "map pe_sha (pb_entries (packBuild cmp ds)) = map sha256 ds"
proof (induction ds rule: rev_induct)
  case (snoc d ds)
  then show ?case by (simp add: packBuild_def packBuilder_Add_def Let_def split: prod.splits)
qed (simp add: packBuild_def newPackBuilder_def)

lemma packBuild_snoc: "packBuilder_Add (sha256 d) d (packBuild cmp ds) = packBuild cmp (ds @ [d])"
  by (simp add: packBuild_def)

lemma packSink_publish_effect:
  assumes "packSink_publish Z io b k s = (r, k', s')" "b = packBuild cmp ds" "set ds \<subseteq> C"
    and "pack_names B" "packs_of cmp C \<subseteq> B" "packs_ok B s" "dirs_ok s" "staged_ok [] s" "sk_comp k = cmp"
    and "distinct (map sha256 ds)"
  shows "pack_inv B C cmp k' s' \<and> keeps Z s s' \<and> (r = Inr () \<longrightarrow> (\<forall>d \<in> set ds. stored (sha256 d) s'))"
proof -
  let ?k = "k\<lparr>sk_cur := None, sk_pending := {}\<rparr>"
  have inv: "pack_inv B C cmp ?k t" if "packs_ok B t" "dirs_ok t" "staged_ok [] t" for t
    using assms(4,5,9) that by (simp add: pack_inv_def)
  show ?thesis
  proof (cases "io_pack io PackFinish")
    case True
    then have "r = Inl CasIO" "k' = ?k" "s' = s"
      using assms(1) by (simp_all add: packSink_publish_def packBuilder_Finish_def)
    then show ?thesis using inv assms by simp
  next
    case False
    obtain f es where f: "packBuilder_Finish False b = Some (f, es)" "es = pb_entries b"
      by (auto simp: packBuilder_Finish_def Let_def)
    have fB: "f \<in> B" using built_in_packs_of [OF assms(3,10,5)] assms(2) f(1) by (simp add: built_def)
    obtain r1 s1 where pb: "publishPack Z io TierHot f es s = (r1, s1)" by fastforce
    have k': "k' = ?k" "s' = s1" "r = Inr () \<longrightarrow> is_ok r1"
      using assms(1) False f(1) pb by (auto simp: packSink_publish_def Let_def split: sum.splits)
    note e = publishPack_effect [OF pb assms(6,4) fB]
    have "dirs_ok s1" "staged_ok [] s1" using e assms(7,8) by (simp_all add: dirs_ok_def staged_ok_def)
    then have "pack_inv B C cmp k' s'" using inv e k' by simp
    moreover have "\<forall>d \<in> set ds. stored (sha256 d) s'" if "r = Inr ()"
    proof -
      have "pe_sha ` set es = sha256 ` set ds"
        using packBuild_shas [of cmp ds] f(2) assms(2) by (metis image_set)
      then show ?thesis using e k' that by (metis (no_types, lifting) image_iff)
    qed
    ultimately show ?thesis using e k' by blast
  qed
qed

lemma packSink_Put_effect:
  assumes "packSink_Put Z io (sha256 c) c k s = (r, k', s')" "pack_inv B C cmp k s" "c \<in> C"
  shows "pack_inv B C cmp k' s' \<and> keeps Z s s' \<and> (pack_acc D k s \<longrightarrow> r = Inr () \<longrightarrow> pack_acc (insert (sha256 c) D) k' s')"
proof (cases "sha256 c \<in> sk_pending k")
  case True
  then have "r = Inr ()" "k' = k" "s' = s" using assms(1) by (simp_all add: packSink_Put_def)
  then show ?thesis using assms(2) True by (simp add: pack_acc_def)
next
  case new: False
  let ?st = "casStat (io_stat io (sha256 c)) (sha256 c) s"
  consider (known) n where "?st = Inr n"
    | (err) x where "?st = Inl x" "x \<noteq> CasNotExist \<or> sk_cur k = None \<and> io_pack io PackCreate"
    | (add) "?st = Inl CasNotExist" "sk_cur k = None \<longrightarrow> \<not> io_pack io PackCreate"
    by (cases ?st) auto
  then show ?thesis
  proof cases
    case known
    then have "r = Inr ()" "k' = k" "s' = s" using assms(1) new by (simp_all add: packSink_Put_def)
    moreover have "stored (sha256 c) s" using known casStatLocked_ok unfolding casStat_def by blast
    ultimately show ?thesis using assms(2) by (simp add: pack_acc_def)
  next
    case err
    then have "\<exists>e. r = Inl e" "k' = k" "s' = s"
      using assms(1) new by (cases x; auto simp: packSink_Put_def)+
    then show ?thesis using assms(2) by auto
  next
    case add
    obtain ds where ds: "set ds \<subseteq> C" "sk_pending k = sha256 ` set ds" "distinct (map sha256 ds)"
      "(case sk_cur k of None \<Rightarrow> newPackBuilder (sk_comp k) | Some b \<Rightarrow> b) = packBuild cmp ds"
    proof (cases "sk_cur k")
      case None
      then show ?thesis using assms(2) that [of "[]"] by (simp add: pack_inv_def packBuild_def)
    next
      case (Some b)
      then show ?thesis using assms(2) that by (auto simp: pack_inv_def)
    qed
    let ?b = "packBuild cmp (ds @ [c])"
    let ?k = "k\<lparr>sk_cur := Some ?b, sk_pending := insert (sha256 c) (sk_pending k)\<rparr>"
    have dsC: "set (ds @ [c]) \<subseteq> C" using ds(1) assms(3) by simp
    have dst: "distinct (map sha256 (ds @ [c]))" using ds(2,3) new by simp
    have res: "packSink_publish Z io ?b ?k s = (r, k', s') \<or> r = Inr () \<and> k' = ?k \<and> s' = s"
      using assms(1) new add ds(4) packBuild_snoc [of c cmp ds]
      by (cases "sk_cur k") (auto simp: packSink_Put_def Let_def split: if_splits)
    have i: "pack_names B" "packs_of cmp C \<subseteq> B" "packs_ok B s" "dirs_ok s" "staged_ok [] s" "sk_comp ?k = cmp"
      using assms(2) by (simp_all add: pack_inv_def)
    from res show ?thesis
    proof
      assume p: "packSink_publish Z io ?b ?k s = (r, k', s')"
      note e = packSink_publish_effect [OF p refl dsC i dst]
      have "pack_acc (insert (sha256 c) D) k' s'" if "pack_acc D k s" "r = Inr ()"
        using e that ds(2) unfolding pack_acc_def keeps_def by auto
      with e show ?thesis by blast
    next
      assume p: "r = Inr () \<and> k' = ?k \<and> s' = s"
      have "sk_pending ?k = sha256 ` set (ds @ [c])" using ds(2) by simp
      then have "pack_inv B C cmp ?k s" using assms(2) dsC dst unfolding pack_inv_def by (auto intro!: exI [of _ "ds @ [c]"])
      with p show ?thesis by (auto simp: pack_acc_def)
    qed
  qed
qed

lemma looseRemainder_effect:
  "looseRemainder Z io b is lb s = (r, lb', s') \<Longrightarrow> batch_inv lb s \<Longrightarrow> order_ok io
    \<Longrightarrow> grows Z s s' \<and> batch_inv lb' s'
      \<and> (accepted D lb s \<longrightarrow> r = Inr () \<longrightarrow> accepted (D \<union> (\<lambda>i. pe_sha (pb_entries b ! i)) ` set is) lb' s')"
proof (induction "is" arbitrary: lb s D)
  case (Cons i "is")
  let ?dg = "pe_sha (pb_entries b ! i)"
  show ?case
  proof (cases "io_pack io PackReread \<or> \<not> is_ok (packBuilder_readRecord Z b i)")
    case True
    then have "\<exists>e. r = Inl e" "lb' = lb" "s' = s"
      using Cons.prems(1) by (auto split: sum.splits if_splits)
    then show ?thesis using Cons.prems(2) by auto
  next
    case False
    then obtain data where d: "packBuilder_readRecord Z b i = Inr data" by auto
    then have sh: "?dg = sha256 data" using readPackRecord_sound unfolding packBuilder_readRecord_def by metis
    obtain r1 lb1 s1 where a: "batch_add io (sha256 data) data lb s = (r1, lb1, s1)" by (metis prod_cases3)
    note e = batch_add_effect [OF a Cons.prems(2,3)]
    show ?thesis
    proof (cases r1)
      case (Inl x)
      then have "r = Inl x" "lb' = lb1" "s' = s1" using Cons.prems(1) False d a sh by auto
      then show ?thesis using e by simp
    next
      case (Inr u)
      then have l: "looseRemainder Z io b is lb1 s1 = (r, lb', s')" using Cons.prems(1) False d a sh by simp
      note IH = Cons.IH [OF l e(2) Cons.prems(3), of "insert ?dg D"]
      have "accepted (D \<union> (\<lambda>i. pe_sha (pb_entries b ! i)) ` set (i # is)) lb' s'" if "accepted D lb s" "r = Inr ()"
        using IH that e(3) [OF that(1)] Inr sh by simp
      then show ?thesis using IH e(1) grows_trans by blast
    qed
  qed
qed auto

lemma pack_inv_grows:
  assumes "pack_inv B C cmp k s" "grows Z s s'" "batch_inv newCASBatch s'"
  shows "pack_inv B C cmp k s'"
proof -
  have f: "cs_packs s' = cs_packs s" "cs_packFiles s' = cs_packFiles s" "cs_root s' = cs_root s"
    using assms(2) by (simp_all add: grows_def)
  have "packs_ok B s'"
    using assms(1) pack_ok_mono [of B s _ s'] f by (simp add: pack_inv_def packs_ok_def)
  moreover have "dirs_ok s'" "staged_ok [] s'" using assms(3) by (simp_all add: batch_inv_def newCASBatch_def)
  ultimately show ?thesis using assms(1) by (simp add: pack_inv_def)
qed

lemma packSink_Flush_effect:
  assumes "packSink_Flush Z io k s = (r, k', s')" "pack_inv B C cmp k s" "order_ok io"
  shows "pack_inv B C cmp k' s' \<and> keeps Z s s' \<and> (pack_acc D k s \<longrightarrow> r = Inr () \<longrightarrow> (\<forall>dg \<in> D. stored dg s'))"
proof (cases "sk_cur k")
  case None
  then have "k' = k" "s' = s" "sk_pending k = {}" using assms by (auto simp: packSink_Flush_def pack_inv_def)
  then show ?thesis using assms(2) by (simp add: pack_acc_def)
next
  case (Some b)
  then obtain ds where ds: "set ds \<subseteq> C" "b = packBuild cmp ds" "sk_pending k = sha256 ` set ds" "distinct (map sha256 ds)"
    using assms(2) by (auto simp: pack_inv_def)
  have i: "pack_names B" "packs_of cmp C \<subseteq> B" "packs_ok B s" "dirs_ok s" "staged_ok [] s" "sk_comp k = cmp"
    using assms(2) by (simp_all add: pack_inv_def)
  have fin: "\<forall>dg \<in> D. stored dg s'" if "pack_acc D k s" "keeps Z s s'" "\<forall>d \<in> set ds. stored (sha256 d) s'"
    using that ds(3) by (auto simp: pack_acc_def keeps_def)
  show ?thesis
  proof (cases "packBuilder_LogicalBytes b \<ge> directPackTarget div packMinFraction")
    case True
    then have p: "packSink_publish Z io b k s = (r, k', s')" using assms(1) Some by (simp add: packSink_Flush_def)
    show ?thesis using packSink_publish_effect [OF p ds(2,1) i ds(4)] fin by blast
  next
    case small: False
    obtain r1 lb1 s1 where lr: "looseRemainder Z io b [0..<length (pb_entries b)] newCASBatch s = (r1, lb1, s1)"
      by (metis prod_cases3)
    note nb = batch_new [OF i(4,5)]
    let ?sh = "(\<lambda>i. pe_sha (pb_entries b ! i)) ` set [0..<length (pb_entries b)]"
    have shas: "?sh = sha256 ` set ds"
    proof -
      have "?sh = set (map (\<lambda>i. pe_sha (pb_entries b ! i)) [0..<length (pb_entries b)])" by simp
      also have "map (\<lambda>i. pe_sha (pb_entries b ! i)) [0..<length (pb_entries b)] = map pe_sha (pb_entries b)"
        by (intro nth_equalityI) simp_all
      finally have "?sh = set (map pe_sha (pb_entries b))" .
      then show ?thesis using packBuild_shas [of cmp ds] ds(2) by (metis image_set)
    qed
    have e1: "grows Z s s1" "batch_inv lb1 s1" "r1 = Inr () \<Longrightarrow> accepted (sha256 ` set ds) lb1 s1"
      using looseRemainder_effect [OF lr conjunct1 [OF nb] assms(3), of "{}"] nb shas by simp_all
    have fin2: "pack_inv B C cmp k (snd (batch_Abort lb t)) \<and> grows Z s (snd (batch_Abort lb t))"
      if g: "grows Z s t" "batch_inv lb t" for lb t
    proof -
      obtain nb' t' where ab: "batch_Abort lb t = (nb', t')" by fastforce
      note e = batch_Abort_effect [OF ab g(2)]
      have "nb' = newCASBatch" using ab by (auto simp: batch_Abort_def Let_def)
      moreover have "grows Z s t'" using g(1) e(1) grows_trans by blast
      ultimately show ?thesis using pack_inv_grows [OF assms(2)] e(2) ab by auto
    qed
    show ?thesis
    proof (cases r1)
      case (Inl x)
      then have "r = Inl x" "k' = k" "s' = snd (batch_Abort lb1 s1)"
        using assms(1) Some small lr by (simp_all add: packSink_Flush_def)
      then show ?thesis using fin2 [OF e1(1,2)] grows_keeps by auto
    next
      case (Inr u)
      obtain r2 lb2 s2 where fl: "batch_Flush io lb1 s1 = (r2, lb2, s2)" by (metis prod_cases3)
      note e2 = batch_Flush_effect [OF fl e1(2) assms(3)]
      have g2: "grows Z s s2" using e1(1) e2(1) grows_trans by blast
      have ab: "pack_inv B C cmp k (snd (batch_Abort lb2 s2))" "grows Z s (snd (batch_Abort lb2 s2))"
        using fin2 [OF g2 e2(2)] by auto
      show ?thesis
      proof (cases r2)
        case (Inl x)
        then have "r = Inl x" "k' = k" "s' = snd (batch_Abort lb2 s2)"
          using assms(1) Some small lr Inr fl by (simp_all add: packSink_Flush_def)
        then show ?thesis using ab grows_keeps by auto
      next
        case ok: (Inr u2)
        then have r: "r = Inr ()" "k' = k\<lparr>sk_cur := None, sk_pending := {}\<rparr>" "s' = snd (batch_Abort lb2 s2)"
          using assms(1) Some small lr Inr fl by (simp_all add: packSink_Flush_def packSink_Abort_def)
        have "stored (sha256 d) s2" if "d \<in> set ds" for d
          using e2(3) [OF e1(3)] Inr ok that by simp
        moreover have "grows Z s2 s'" using batch_Abort_effect(1) [OF surjective_pairing e2(2)] r(3) by simp
        ultimately have "\<forall>d \<in> set ds. stored (sha256 d) s'" by (simp add: grows_def)
        moreover have "pack_inv B C cmp k' s'" using ab(1) r by (simp add: pack_inv_def)
        ultimately show ?thesis using fin grows_keeps [OF ab(2)] r by auto
      qed
    qed
  qed
qed

interpretation packed: chunk_sink Z "packSink_Put Z" "packSink_Flush Z" packSink_Abort "\<lambda>c. c \<in> C" "pack_inv B C cmp" pack_acc
proof (unfold_locales, goal_cases)
  case (1 io c k s r k' s')
  then show ?case using packSink_Put_effect [OF 1(1,2,4)] by blast
next
  case (2 io c k s r k' s' D)
  then show ?case using packSink_Put_effect [OF 2(1,2,4), of D] by blast
next
  case (3 io k s r k' s')
  then show ?case using packSink_Flush_effect [OF 3] by blast
next
  case (4 io k s r k' s' D dg)
  then show ?case using packSink_Flush_effect [OF 4(1-3), of D] by blast
next
  case (5 k s k' s')
  then show ?case by (simp add: packSink_Abort_def)
qed

section \<open>Properties\<close>

text \<open>
  Publishing a pack loses nothing. Whatever step fails, the chunks stored before are
  stored afterwards, with a good copy if they had one, and the loose chunks are untouched;
  and when it succeeds every entry of the pack can be looked up and read. The store format
  is raised before the pack appears under its name. The names of the pack files on disk and
  of the new one are unique (\<open>pack_names\<close>), which is what naming by SHA-256 relies on.
\<close>

theorem publish_pack_is_safe:
  assumes "packs_ok B s" and "pack_names B" and "f \<in> B" and "healthy Z s"
    and "publishPack Z io t f entries s = (r, s')"
  shows "healthy Z s' \<and> packs_ok B s' \<and> cs_loose s' = cs_loose s \<and> (\<forall>dg. stored dg s \<longrightarrow> stored dg s')
    \<and> (is_ok r \<longrightarrow> (\<forall>e \<in> set entries. \<exists>d. casRead Z False (pe_sha e) s' = Inr d \<and> sha256 d = pe_sha e))"
proof -
  note e = publishPack_effect [OF assms(5) assms(1-3)]
  have h: "healthy Z s'" using e assms(4) by (simp add: keeps_def)
  then have "\<exists>d. casRead Z False (pe_sha x) s' = Inr d \<and> sha256 d = pe_sha x" if "is_ok r" "x \<in> set entries" for x
    using e that good_copy_read by (simp add: healthy_def)
  then show ?thesis using e h by (auto simp: keeps_def)
qed

lemma empty_cas_ok [simp]:
  "healthy Z empty_cas" "staged_ok [] empty_cas" "packs_ok B empty_cas" "dirs_ok empty_cas" "order_ok no_failure"
  by (simp_all add: healthy_def dirs_ok_def stored_def staged_ok_def order_ok_def empty_cas_def no_failure_def
      ps_lookup_def ps_best_def packs_ok_def snapshot_ok_def all_recs_def uniform_def)

theorem publish_pack_is_safe_witness:
  "\<exists>f es r s'. packBuilder_Finish False (packBuild None [[7, 8, 9]]) = Some (f, es)
     \<and> publishPack stored_flate no_failure TierHot f es empty_cas = (r, s') \<and> healthy stored_flate s'
     \<and> (is_ok r \<longrightarrow> (\<exists>d. casRead stored_flate False (sha256 [7, 8, 9]) s' = Inr d \<and> sha256 d = sha256 [7, 8, 9]))"
proof -
  let ?b = "packBuild None [[7, 8, 9]]"
  obtain f es where f: "packBuilder_Finish False ?b = Some (f, es)" "es = pb_entries ?b"
    by (auto simp: packBuilder_Finish_def Let_def)
  have "length f < 2 ^ 63"
    using f(1) by (auto simp: packBuilder_Finish_def packBuild_def packBuilder_Add_def newPackBuilder_def
        packEncode_def Let_def)
  then have n: "pack_names {f}" by (simp add: pack_names_def)
  obtain r s' where p: "publishPack stored_flate no_failure TierHot f es empty_cas = (r, s')" by fastforce
  have "sha256 [7, 8, 9] \<in> set (map pe_sha es)" unfolding f(2) packBuild_shas by simp
  then obtain e where "e \<in> set es" "pe_sha e = sha256 [7, 8, 9]" by auto
  then show ?thesis using publish_pack_is_safe [OF _ n _ _ p] f(1) p by auto
qed

lemma ingestStream_spec:
  assumes "delivers rd r xs" and "\<And>n. order_ok (ios n)" and "order_ok iof" and "healthy Z s" and "staged_ok [] s"
    and "directPack sz \<Longrightarrow> packs_ok B s \<and> pack_names B \<and> packs_of cmp (set (cdcChunks xs)) \<subseteq> B"
  shows "\<exists>out s'. ingestStream Z cmp ios iof rd r withMD5 sz s = Some (out, s')
    \<and> healthy Z s' \<and> (\<forall>dg. stored dg s \<longrightarrow> stored dg s')
    \<and> (\<forall>res. out = Inr res \<longrightarrow> ing_chunks res = map chunk_ref (cdcChunks xs) \<and> ing_size res = int (length xs)
         \<and> ing_objSHA256 res = sha256 xs \<and> (withMD5 \<longrightarrow> ing_etagMD5 res = md5 xs)
         \<and> (\<forall>ch \<in> set (cdcChunks xs). \<exists>d. casRead Z False (sha256 ch) s' = Inr d \<and> sha256 d = sha256 ch))"
proof -
  have d: "dirs_ok s" using assms(4) by (simp add: healthy_def)
  let ?P = "\<lambda>out s'. keeps Z s s' \<and> (\<forall>res. out = Inr res \<longrightarrow> ing_chunks res = map chunk_ref (cdcChunks xs)
         \<and> ing_size res = int (length xs) \<and> ing_objSHA256 res = sha256 xs \<and> (withMD5 \<longrightarrow> ing_etagMD5 res = md5 xs)
         \<and> (\<forall>ch \<in> set (cdcChunks xs). stored (sha256 ch) s'))"
  have "\<exists>out s'. ingestStream Z cmp ios iof rd r withMD5 sz s = Some (out, s') \<and> ?P out s'"
  proof (cases "directPack sz")
    case True
    have "pack_inv B (set (cdcChunks xs)) cmp (newPackSink cmp) s"
      using assms(6) [OF True] d assms(5) by (simp add: pack_inv_def newPackSink_def)
    then show ?thesis
      using packed.ingestWith_correct [where ios = ios and iof = iof and rd = rd and r = r and xs = xs and B = B and Z = Z
          and C = "set (cdcChunks xs)" and cmp = cmp and k = "newPackSink cmp" and s = s and ?withMD5.0 = withMD5]
        assms(1-3) True by (simp add: ingestStream_def pack_acc_def)
  next
    case False
    then show ?thesis
      using loose.ingestWith_correct [where ios = ios and iof = iof and rd = rd and r = r and xs = xs and Z = Z
          and k = newCASBatch and s = s and ?withMD5.0 = withMD5] assms(1-3) batch_new [OF d assms(5)]
      by (simp add: ingestStream_def)
  qed
  then obtain out s' where o: "ingestStream Z cmp ios iof rd r withMD5 sz s = Some (out, s')" "?P out s'" by blast
  then have h: "healthy Z s'" using assms(4) by (simp add: keeps_def)
  then have "stored dg s' \<Longrightarrow> \<exists>d. casRead Z False dg s' = Inr d \<and> sha256 d = dg" for dg
    using good_copy_read by (simp add: healthy_def)
  with o h show ?thesis by (auto simp: keeps_def)
qed

lemma ingestStream_broken:
  assumes "breaks_off rd r xs" and "\<And>n. order_ok (ios n)" and "healthy Z s" and "staged_ok [] s"
    and "directPack sz \<Longrightarrow> packs_ok B s \<and> pack_names B \<and> packs_of cmp (set (cdcChunks xs)) \<subseteq> B"
  shows "\<exists>e s'. ingestStream Z cmp ios iof rd r withMD5 sz s = Some (Inl e, s')
    \<and> healthy Z s' \<and> (\<forall>dg. stored dg s \<longrightarrow> stored dg s')"
proof -
  have d: "dirs_ok s" using assms(3) by (simp add: healthy_def)
  have "\<exists>e s'. ingestStream Z cmp ios iof rd r withMD5 sz s = Some (Inl e, s') \<and> keeps Z s s'"
  proof (cases "directPack sz")
    case True
    have "pack_inv B (set (cdcChunks xs)) cmp (newPackSink cmp) s"
      using assms(5) [OF True] d assms(4) by (simp add: pack_inv_def newPackSink_def)
    then show ?thesis
      using packed.ingestWith_broken [where ios = ios and iof = iof and rd = rd and r = r and xs = xs and B = B and Z = Z
          and C = "set (cdcChunks xs)" and cmp = cmp and k = "newPackSink cmp" and s = s and ?withMD5.0 = withMD5]
        assms(1,2) True by (simp add: ingestStream_def)
  next
    case False
    then show ?thesis
      using loose.ingestWith_broken [where ios = ios and iof = iof and rd = rd and r = r and xs = xs and Z = Z
          and k = newCASBatch and s = s and ?withMD5.0 = withMD5] assms(1,2) batch_new [OF d assms(4)]
      by (simp add: ingestStream_def)
  qed
  then show ?thesis using assms(3) by (auto simp: keeps_def)
qed

text \<open>
  C17: Streaming ingest is correct. For every reader that delivers the bytes \<open>xs\<close>, however
  fragmented, and every failure pattern of the file system, \<open>ingestStream\<close> returns; no chunk
  stored before is lost and the store stays healthy. If it returns a result, the chunk
  references are exactly those of the CDC chunks of \<open>xs\<close>, the size and the hashes are those
  of \<open>xs\<close>, and every chunk reads back. This holds for loose files and for direct packs, in
  which case the pack files on disk and those the chunks can form have unique names.
\<close>

theorem ingest_stream_correct:
  assumes "delivers rd r xs" and "\<And>n. order_ok (ios n)" and "order_ok iof" and "healthy Z s" and "staged_ok [] s"
    and "directPack sz \<Longrightarrow> packs_ok B s \<and> pack_names B \<and> packs_of cmp (set (cdcChunks xs)) \<subseteq> B"
  shows "\<exists>out s'. ingestStream Z cmp ios iof rd r withMD5 sz s = Some (out, s')
    \<and> healthy Z s' \<and> (\<forall>dg. stored dg s \<longrightarrow> stored dg s')
    \<and> (\<forall>res. out = Inr res \<longrightarrow> ing_chunks res = map chunk_ref (cdcChunks xs) \<and> ing_size res = int (length xs)
         \<and> ing_objSHA256 res = sha256 xs \<and> (withMD5 \<longrightarrow> ing_etagMD5 res = md5 xs)
         \<and> (\<forall>ch \<in> set (cdcChunks xs). \<exists>d. casRead Z False (sha256 ch) s' = Inr d \<and> sha256 d = sha256 ch))"
  using assms by (rule ingestStream_spec)

theorem ingest_stream_correct_witness:
  "\<exists>out s'. ingestStream stored_flate None (\<lambda>_. no_failure) no_failure frag_read [[1], [], [2, 3]] True 3 empty_cas = Some (out, s')
     \<and> healthy stored_flate s' \<and> (\<forall>res. out = Inr res \<longrightarrow> ing_size res = 3 \<and> ing_objSHA256 res = sha256 [1, 2, 3])"
proof -
  have np: "\<not> directPack 3" by (simp add: directPack_def directPackMinBytes_def)
  have dl: "delivers frag_read [[1], [], [2, 3]] [1, 2, 3]" using frag_delivers [of "[[1], [], [2, 3]]"] by simp
  from ingest_stream_correct [OF dl, of "\<lambda>_. no_failure" no_failure stored_flate empty_cas 3 "{}" None True] np
  show ?thesis by auto
qed

text \<open>
  Ingest makes progress. If nothing fails, an object below the direct-pack threshold is
  ingested: \<open>ingestStream\<close> terminates with a result, whatever the fragmentation of the
  reader, the ranges over Go maps and the timing of the background flushes.
\<close>

theorem ingest_succeeds_without_failures:
  assumes "delivers rd r xs" and "\<And>n. quiet (ios n)" and "quiet iof" and "dirs_ok s" and "staged_ok [] s"
    and "\<not> directPack sz"
  shows "\<exists>res s'. ingestStream Z cmp ios iof rd r withMD5 sz s = Some (Inr res, s')"
  using loose.ingestWith_live [where ios = ios and iof = iof and rd = rd and r = r and xs = xs and k = newCASBatch and s = s
      and ?withMD5.0 = withMD5] assms batch_new [OF assms(4,5)]
  by (simp add: ingestStream_def newCASBatch_def)

theorem ingest_succeeds_without_failures_witness:
  "\<exists>res s'. ingestStream stored_flate None (\<lambda>_. no_failure) no_failure frag_read [[1], [], [2, 3]] True 3 empty_cas
     = Some (Inr res, s')"
proof -
  have np: "\<not> directPack 3" by (simp add: directPack_def directPackMinBytes_def)
  have dl: "delivers frag_read [[1], [], [2, 3]] [1, 2, 3]" using frag_delivers [of "[[1], [], [2, 3]]"] by simp
  have "quiet no_failure" by (simp add: quiet_def no_failure_def order_ok_def)
  then show ?thesis
    using ingest_succeeds_without_failures [OF dl, of "\<lambda>_. no_failure" no_failure empty_cas 3] np by simp
qed

end
