(* ===== verification/Read.thy ===== *)
theory Read
  imports Ingest
begin

text \<open>
  Streaming object reads (\<^verbatim>\<open>zeros3.go\<close>, sections 4c and 14): the \<^verbatim>\<open>Range\<close> header, contiguous
  runs of packed records fetched with one read, and the manifest reader that walks the chunk
  list. Shown here: a run delivers exactly what reading its records one by one delivers; a
  parsed range always lies inside the object; and on a store that holds good copies the
  reader returns exactly the requested slice of the object, whatever runs it plans and
  whichever of them fail.
\<close>

section \<open>Ranges\<close>

record byteRange =
  br_start :: int
  br_end :: int

text \<open>\<^verbatim>\<open>strconv.ParseInt(s, 10, 64)\<close>: an optional sign, then at least one digit, within 64 bits.\<close>

definition is_digit :: "char \<Rightarrow> bool" where
  "is_digit c \<longleftrightarrow> 48 \<le> (of_char c :: nat) \<and> (of_char c :: nat) \<le> 57"

definition digits_val :: "string \<Rightarrow> nat" where
  "digits_val s = foldl (\<lambda>n c. 10 * n + (of_char c - 48)) 0 s"

definition parseInt64 :: "string \<Rightarrow> int option" where
  "parseInt64 s =
     (let neg = (s \<noteq> [] \<and> hd s = CHR ''-'');
          ds = (if s \<noteq> [] \<and> (hd s = CHR ''-'' \<or> hd s = CHR ''+'') then tl s else s);
          n = int (digits_val ds)
      in if ds = [] \<or> \<not> list_all is_digit ds then None
         else if neg then (if n \<le> 2 ^ 63 then Some (- n) else None)
         else (if n < 2 ^ 63 then Some n else None))"

text \<open>
  The result is \<open>None\<close> for a header to be ignored (\<^verbatim>\<open>ok\<close> is false), \<open>Some None\<close> for a range that
  cannot be satisfied and \<open>Some (Some r)\<close> otherwise.
\<close>

definition parseRangeSpec :: "string \<Rightarrow> int \<Rightarrow> byteRange option option" where
  "parseRangeSpec header sz =
     (if take 6 header \<noteq> ''bytes='' then None
      else
        let spec = drop 6 header in
        if CHR '','' \<in> set spec then None
        else if CHR ''-'' \<notin> set spec then None
        else
          let startStr = takeWhile (\<lambda>c. c \<noteq> CHR ''-'') spec;
              endStr = tl (dropWhile (\<lambda>c. c \<noteq> CHR ''-'') spec) in
          if startStr = [] then
            (case parseInt64 endStr of
               None \<Rightarrow> None
             | Some n \<Rightarrow>
                 if n < 0 then None
                 else if n = 0 \<or> sz = 0 then Some None
                 else Some (Some \<lparr>br_start = (if sz - n < 0 then 0 else sz - n), br_end = sz - 1\<rparr>))
          else
            (case parseInt64 startStr of
               None \<Rightarrow> None
             | Some st \<Rightarrow>
                 if st < 0 then None
                 else if sz = 0 \<or> st \<ge> sz then Some None
                 else if endStr = [] then Some (Some \<lparr>br_start = st, br_end = sz - 1\<rparr>)
                 else
                   (case parseInt64 endStr of
                      None \<Rightarrow> None
                    | Some en \<Rightarrow>
                        if en < st then None
                        else Some (Some \<lparr>br_start = st, br_end = (if en \<ge> sz then sz - 1 else en)\<rparr>))))"

section \<open>Runs of packed records\<close>

definition packRunMaxStored :: nat where
  "packRunMaxStored = 4 * 2 ^ 20"

definition packRunMaxRecords :: nat where
  "packRunMaxRecords = 64"

definition packRunMaxLogical :: nat where
  "packRunMaxLogical = 8 * 2 ^ 20"

text \<open>
  The environment of a read: failing \<^verbatim>\<open>Lstat\<close> and \<^verbatim>\<open>ReadFile\<close> calls on loose copies, failing
  opens of packs, and the number of bytes a \<^verbatim>\<open>ReadAt\<close> of a run delivers at most.
\<close>

record read_io =
  ri_lstat :: "digest \<Rightarrow> bool"
  ri_loose :: "digest \<Rightarrow> bool"
  ri_open :: "nat \<Rightarrow> bool"
  ri_got :: "nat \<Rightarrow> nat"

definition loc_entry :: "digest \<Rightarrow> packLoc \<Rightarrow> packEntry" where
  "loc_entry dg l = \<lparr>pe_sha = dg, pe_off = pl_off l, pe_stored = pl_stored l, pe_logical = pl_logical l, pe_codec = pl_codec l\<rparr>"

fun contiguous :: "packLoc list \<Rightarrow> bool" where
  "contiguous (a # b # ls) \<longleftrightarrow> pl_pack b = pl_pack a
     \<and> int (unat (pl_off b)) - int packRecordHeaderSize = int (unat (pl_off a)) + int (unat (pl_stored a)) \<and> contiguous (b # ls)"
| "contiguous ls \<longleftrightarrow> True"

definition packRun_file :: "read_io \<Rightarrow> nat \<Rightarrow> casState \<Rightarrow> pack_error + bytes" where
  "packRun_file io pk s =
     (if pk \<ge> length (ps_packs (cs_packs s)) then Inl PackStaleLocator
      else if ri_open io pk then Inl PackOpen
      else case fmlookup (cs_packFiles s) (pi_path (ps_packs (cs_packs s) ! pk)) of
        None \<Rightarrow> Inl PackOpen
      | Some f \<Rightarrow> Inr f)"

text \<open>One record of a run, from the bytes \<open>buf\<close> delivered from offset \<open>start\<close> on.\<close>

definition runRecord :: "flate_codec \<Rightarrow> bytes \<Rightarrow> int \<Rightarrow> digest \<Rightarrow> packLoc \<Rightarrow> pack_error + bytes" where
  "runRecord Z buf start dg l =
     (let rec = nat (int (unat (pl_off l)) - int packRecordHeaderSize - start);
          en = rec + packRecordHeaderSize + unat (pl_stored l) in
      if en > length buf then Inl PackShortRead
      else if take packRecordHeaderSize (drop rec buf) \<noteq> putPackRecordHeader (loc_entry dg l) then Inl (PackRecordHeader 0)
      else decodePackPayload Z (pl_codec l)
             (take (unat (pl_stored l)) (drop (rec + packRecordHeaderSize) buf)) (pl_logical l) dg)"

definition packRun_read ::
  "flate_codec \<Rightarrow> read_io \<Rightarrow> casState \<Rightarrow> digest list \<Rightarrow> packLoc list \<Rightarrow> (pack_error + bytes) list" where
  "packRun_read Z io s sums locs =
     (if locs = [] then []
      else if \<not> contiguous locs then map (\<lambda>_. Inl (PackNotContiguous 0)) locs
      else
        let start = int (unat (pl_off (hd locs))) - int packRecordHeaderSize;
            sz = nat (int (unat (pl_off (last locs))) + int (unat (pl_stored (last locs))) - start) in
        case packRun_file io (pl_pack (hd locs)) s of
          Inl e \<Rightarrow> map (\<lambda>_. Inl e) locs
        | Inr f \<Rightarrow>
            let got = (if start < 0 then 0 else min (ri_got io (nat start)) sz);
                buf = take got (drop (nat start) f)
            in map2 (runRecord Z buf start) sums locs)"

section \<open>The manifest reader\<close>

definition packPrimary :: "read_io \<Rightarrow> nat set \<Rightarrow> digest \<Rightarrow> int \<Rightarrow> casState \<Rightarrow> packLoc option" where
  "packPrimary io bad dg len s =
     (case appendLocs (cs_packs s) dg of
        [] \<Rightarrow> None
      | l # _ \<Rightarrow>
          if (len \<ge> 0 \<and> int (unat (pl_logical l)) \<noteq> len) \<or> pl_pack l \<in> bad then None
          else if pl_tier l \<noteq> tier_num TierHot \<and> (ri_lstat io dg \<or> fmlookup (cs_loose s) dg \<noteq> None) then None
          else Some l)"

record runChunk =
  rc_idx :: nat
  rc_data :: "pack_error + bytes"

record manifestReader =
  mr_chunks :: "chunkRef list"
  mr_idx :: nat
  mr_offset :: int
  mr_rng :: byteRange
  mr_bad :: "nat set"
  mr_q :: "runChunk list"
  mr_qh :: nat

definition newManifestReader :: "chunkRef list \<Rightarrow> byteRange \<Rightarrow> manifestReader" where
  "newManifestReader chunks rng =
     \<lparr>mr_chunks = chunks, mr_idx = 0, mr_offset = 0, mr_rng = rng, mr_bad = {}, mr_q = [], mr_qh = 0\<rparr>"

text \<open>The loop of \<open>planRun\<close> over the chunks that follow.\<close>

fun planMore ::
  "read_io \<Rightarrow> manifestReader \<Rightarrow> casState \<Rightarrow> packLoc \<Rightarrow> chunkRef list \<Rightarrow> int \<Rightarrow> nat \<Rightarrow> nat \<Rightarrow> digest list \<Rightarrow> packLoc list
    \<Rightarrow> digest list \<times> packLoc list" where
  "planMore io m s fst_loc [] nxt st lg sums locs = (sums, locs)"
| "planMore io m s fst_loc (c # cs) nxt st lg sums locs =
     (if \<not> (nxt \<le> br_end (mr_rng m) \<and> length locs < packRunMaxRecords) then (sums, locs)
      else case decodeHexSHA256 (cr_SHA256 c) of
        None \<Rightarrow> (sums, locs)
      | Some sj \<Rightarrow>
          (case packPrimary io (mr_bad m) sj (cr_Length c) s of
             None \<Rightarrow> (sums, locs)
           | Some l \<Rightarrow>
               if pl_pack l \<noteq> pl_pack fst_loc
                  \<or> int (unat (pl_off l)) - int packRecordHeaderSize \<noteq> int (unat (pl_off (last locs))) + int (unat (pl_stored (last locs)))
                  \<or> st + packRecordHeaderSize + unat (pl_stored l) > packRunMaxStored
                  \<or> lg + unat (pl_logical l) > packRunMaxLogical
               then (sums, locs)
               else planMore io m s fst_loc cs (nxt + cr_Length c) (st + packRecordHeaderSize + unat (pl_stored l))
                      (lg + unat (pl_logical l)) (sums @ [sj]) (locs @ [l])))"

definition planRun :: "read_io \<Rightarrow> manifestReader \<Rightarrow> casState \<Rightarrow> nat \<Rightarrow> digest \<Rightarrow> int \<Rightarrow> (digest list \<times> packLoc list) option" where
  "planRun io m s i dg chunkStart =
     (if ps_packs (cs_packs s) = [] then None
      else case packPrimary io (mr_bad m) dg (cr_Length (mr_chunks m ! i)) s of
        None \<Rightarrow> None
      | Some l \<Rightarrow>
          Some (planMore io m s l (drop (i + 1) (mr_chunks m)) (chunkStart + cr_Length (mr_chunks m ! i))
                  (packRecordHeaderSize + unat (pl_stored l)) (unat (pl_logical l)) [dg] [l]))"

definition fetchRun :: "flate_codec \<Rightarrow> read_io \<Rightarrow> casState \<Rightarrow> nat \<Rightarrow> digest list \<Rightarrow> packLoc list \<Rightarrow> manifestReader \<Rightarrow> manifestReader" where
  "fetchRun Z io s i sums locs m =
     (let out = packRun_read Z io s sums locs in
      m\<lparr>mr_q := map2 (\<lambda>k d. \<lparr>rc_idx = i + k, rc_data = d\<rparr>) [0..<length out] out, mr_qh := 0,
        mr_bad := (if \<exists>d \<in> set out. \<not> is_ok d then insert (pl_pack (hd locs)) (mr_bad m) else mr_bad m)\<rparr>)"

definition mr_chunk ::
  "flate_codec \<Rightarrow> read_io \<Rightarrow> casState \<Rightarrow> nat \<Rightarrow> digest \<Rightarrow> int \<Rightarrow> manifestReader \<Rightarrow> (cas_error + bytes) \<times> manifestReader" where
  "mr_chunk Z io s i dg chunkStart m0 =
     (let m1 = (if mr_qh m0 < length (mr_q m0) \<and> rc_idx (mr_q m0 ! mr_qh m0) \<noteq> i then m0\<lparr>mr_q := [], mr_qh := 0\<rparr> else m0);
          m2 = (if mr_qh m1 \<ge> length (mr_q m1)
                then (case planRun io m1 s i dg chunkStart of
                        None \<Rightarrow> m1
                      | Some (sums, locs) \<Rightarrow> fetchRun Z io s i sums locs m1)
                else m1) in
      if mr_qh m2 < length (mr_q m2)
      then case rc_data (mr_q m2 ! mr_qh m2) of
          Inr data \<Rightarrow> (Inr data, m2\<lparr>mr_qh := mr_qh m2 + 1\<rparr>)
        | Inl _ \<Rightarrow> (casRead Z (ri_loose io dg) dg s, m2\<lparr>mr_qh := mr_qh m2 + 1\<rparr>)
      else (casRead Z (ri_loose io dg) dg s, m2))"

datatype read_error = ReadBadDigest | ReadChunk cas_error | ReadLength | ReadShortManifest

datatype next_result = NextEOF | NextData bytes | NextErr read_error

definition slice :: "nat \<Rightarrow> nat \<Rightarrow> 'a list \<Rightarrow> 'a list" where
  "slice lo hi xs = take (hi - lo) (drop lo xs)"

function mr_next :: "flate_codec \<Rightarrow> read_io \<Rightarrow> casState \<Rightarrow> manifestReader \<Rightarrow> next_result \<times> manifestReader" where
  "mr_next Z io s m =
     (if mr_idx m < length (mr_chunks m) \<and> mr_offset m \<le> br_end (mr_rng m) then
        let c = mr_chunks m ! mr_idx m;
            i = mr_idx m; chunkStart = mr_offset m;
            m1 = m\<lparr>mr_idx := mr_idx m + 1, mr_offset := mr_offset m + cr_Length c\<rparr> in
        if mr_offset m1 \<le> br_start (mr_rng m) then mr_next Z io s m1
        else case decodeHexSHA256 (cr_SHA256 c) of
          None \<Rightarrow> (NextErr ReadBadDigest, m1)
        | Some dg \<Rightarrow>
            (case mr_chunk Z io s i dg chunkStart m1 of
               (Inl e, m2) \<Rightarrow> (NextErr (ReadChunk e), m2)
             | (Inr data, m2) \<Rightarrow>
                 if int (length data) \<noteq> cr_Length c then (NextErr ReadLength, m2)
                 else
                   let lo = (if br_start (mr_rng m) > chunkStart then br_start (mr_rng m) - chunkStart else 0);
                       hi = (if br_end (mr_rng m) < mr_offset m1 - 1 then br_end (mr_rng m) - chunkStart + 1 else cr_Length c)
                   in (NextData (slice (nat lo) (nat hi) data), m2))
      else if mr_offset m \<le> br_end (mr_rng m) then (NextErr ReadShortManifest, m)
      else (NextEOF, m))"
  by pat_completeness auto
termination
  by (relation "measure (\<lambda>(Z, io, s, m). length (mr_chunks m) - mr_idx m)") auto

declare mr_next.simps [simp del]

section \<open>Runs are reads of single records\<close>

lemma contiguous_span:
  assumes "contiguous (a # ls)" "l \<in> set (a # ls)" "packRecordHeaderSize \<le> unat (pl_off a)"
  shows "pl_pack l = pl_pack a" "unat (pl_off a) \<le> unat (pl_off l)"
    "unat (pl_off l) + unat (pl_stored l) \<le> unat (pl_off (last (a # ls))) + unat (pl_stored (last (a # ls)))"
proof -
  have "pl_pack l = pl_pack a \<and> unat (pl_off a) \<le> unat (pl_off l)
    \<and> unat (pl_off l) + unat (pl_stored l) \<le> unat (pl_off (last (a # ls))) + unat (pl_stored (last (a # ls)))"
    using assms
  proof (induction ls arbitrary: a l)
    case (Cons b ls)
    have "int (unat (pl_off b)) - int packRecordHeaderSize = int (unat (pl_off a)) + int (unat (pl_stored a))"
      using Cons.prems(1) by (simp only: contiguous.simps)
    then have b: "pl_pack b = pl_pack a" "unat (pl_off b) = unat (pl_off a) + unat (pl_stored a) + packRecordHeaderSize" "contiguous (b # ls)"
      using Cons.prems(1) by (linarith | simp)+
    then have h: "packRecordHeaderSize \<le> unat (pl_off b)" by simp
    have B: "pl_pack x = pl_pack b \<and> unat (pl_off b) \<le> unat (pl_off x)
      \<and> unat (pl_off x) + unat (pl_stored x) \<le> unat (pl_off (last (b # ls))) + unat (pl_stored (last (b # ls)))"
      if "x \<in> set (b # ls)" for x
      using Cons.IH [OF b(3) that h] .
    show ?case
    proof (cases "l = a")
      case True
      then show ?thesis using B [of b] b by simp
    next
      case False
      then show ?thesis using B [of l] Cons.prems(2) b by simp
    qed
  qed simp
  then show "pl_pack l = pl_pack a" "unat (pl_off a) \<le> unat (pl_off l)"
    "unat (pl_off l) + unat (pl_stored l) \<le> unat (pl_off (last (a # ls))) + unat (pl_stored (last (a # ls)))" by auto
qed

text \<open>A record that the delivered bytes cover is read as if it had been read alone.\<close>

lemma runRecord_eq:
  assumes "packRecordHeaderSize \<le> a" "a \<le> unat (pl_off l)"
    and "unat (pl_off l) + unat (pl_stored l) \<le> a - packRecordHeaderSize + got"
  shows "runRecord Z (take got (drop (a - packRecordHeaderSize) f)) (int a - int packRecordHeaderSize) dg l
    = readPackRecord Z f (loc_entry dg l)"
proof -
  define h where "h = packRecordHeaderSize"
  define rec where "rec = unat (pl_off l) - a"
  define st where "st = unat (pl_stored l)"
  have o: "unat (pl_off l) = a + rec" using assms(2) by (simp add: rec_def)
  have rec: "nat (int (unat (pl_off l)) - int h - (int a - int h)) = rec" by (simp add: o)
  have g: "rec + h + st \<le> got" using assms(1,3) unfolding o h_def [symmetric] st_def [symmetric] by linarith
  have len: "rec + h + st > length (take got (drop (a - h) f)) \<longleftrightarrow> \<not> a + rec - h + (h + st) \<le> length f"
    using g assms(1) unfolding h_def [symmetric] length_take length_drop min_less_iff_disj
    by (auto simp: h_def packRecordHeaderSize_def)
  have e: "rec + (a - h) = a + rec - h" using assms(1) unfolding h_def [symmetric] by simp
  have t: "take h (drop rec (take got (drop (a - h) f))) = take h (take (h + st) (drop (a + rec - h) f))"
    using g by (simp add: drop_take e)
  have "take st (drop (rec + h) (take got (drop (a - h) f))) = drop h (take (st + h) (drop (a + rec - h) f))"
  proof -
    have "h + (a + rec - h) = rec + h + (a - h)" using e by simp
    with g show ?thesis unfolding take_drop [of st] take_take by (simp add: min_def drop_take add_ac)
  qed
  then have t': "take st (drop (rec + h) (take got (drop (a - h) f))) = drop h (take (h + st) (drop (a + rec - h) f))"
    by (simp only: add.commute)
  show ?thesis
    unfolding runRecord_def readPackRecord_def h_def [symmetric] Let_def rec st_def [symmetric] len pack_read_at_def
    by (simp add: loc_entry_def o st_def [symmetric] t t')
qed

lemma runRecord_ok:
  assumes "packRecordHeaderSize \<le> a" "a \<le> unat (pl_off l)"
    and "runRecord Z (take got (drop (a - packRecordHeaderSize) f)) (int a - int packRecordHeaderSize) dg l = Inr d"
  shows "readPackRecord Z f (loc_entry dg l) = Inr d"
proof -
  have "nat (int (unat (pl_off l)) - int packRecordHeaderSize - (int a - int packRecordHeaderSize)) = unat (pl_off l) - a"
    by linarith
  then have "unat (pl_off l) - a + packRecordHeaderSize + unat (pl_stored l) \<le> got"
    using assms(3) by (auto simp: runRecord_def Let_def split: if_splits)
  then have "unat (pl_off l) + unat (pl_stored l) \<le> a - packRecordHeaderSize + got"
    using assms(1,2) by linarith
  from runRecord_eq [OF assms(1,2) this] assms(3) show ?thesis by simp
qed

text \<open>What a store can serve for a digest.\<close>

definition served :: "flate_codec \<Rightarrow> digest \<Rightarrow> bytes \<Rightarrow> casState \<Rightarrow> bool" where
  "served Z dg d s \<longleftrightarrow> fmlookup (cs_loose s) dg = Some d \<and> sha256 d = dg
     \<or> (\<exists>loc \<in> set (appendLocs (cs_packs s) dg). readPacked Z dg loc s = Inr d)"

lemma served_sound: "served Z dg d s \<Longrightarrow> sha256 d = dg"
  using readPacked_sound by (auto simp: served_def)

lemma readLooseCopy_served: "readLooseCopy fails dg s = Inr d \<Longrightarrow> served Z dg d s"
  by (auto simp: readLooseCopy_def served_def split: option.splits if_splits)

lemma readCopies_served:
  "readCopies Z fails dg skip s le pe locs = Inr d \<Longrightarrow> set locs \<subseteq> set (appendLocs (cs_packs s) dg) \<Longrightarrow> served Z dg d s"
proof (induction Z fails dg skip s le pe locs rule: readCopies.induct)
  case 1
  then show ?case by (auto dest: readLooseCopy_served split: option.splits sum.splits if_splits)
next
  case (2 Z fails dg skip s le pe loc locs)
  have "readPacked Z dg loc s = Inr d \<Longrightarrow> served Z dg d s" using 2(4) by (auto simp: served_def)
  with 2 show ?case by (auto dest: readLooseCopy_served split: sum.splits if_splits)
qed

lemma casRead_served: "casRead Z fails dg s = Inr d \<Longrightarrow> served Z dg d s"
  unfolding casRead_def casReadExcluding_def by (rule readCopies_served) auto

lemma packRun_file_read:
  "packRun_file io (pl_pack l) s = Inr f \<Longrightarrow> readPacked Z dg l s = readPackRecord Z f (loc_entry dg l)"
  by (auto simp: packRun_file_def readPacked_def loc_entry_def split: if_splits option.splits)

lemma packRun_read_nth:
  assumes "contiguous locs" "k < length locs" "length sums = length locs" "packRun_file io (pl_pack (hd locs)) s = Inr f"
    and "start = int (unat (pl_off (hd locs))) - int packRecordHeaderSize"
    and "sz = nat (int (unat (pl_off (last locs))) + int (unat (pl_stored (last locs))) - start)"
  shows "packRun_read Z io s sums locs ! k
    = runRecord Z (take (if start < 0 then 0 else min (ri_got io (nat start)) sz) (drop (nat start) f)) start (sums ! k) (locs ! k)"
proof -
  have "locs \<noteq> []" using assms(2) by auto
  then show ?thesis unfolding packRun_read_def using assms(1-4) by (simp add: Let_def assms(5,6) del: of_nat_unat)
qed

lemma packRun_read_ok:
  assumes "k < length locs" "length sums = length locs" "packRun_read Z io s sums locs ! k = Inr d"
  shows "readPacked Z (sums ! k) (locs ! k) s = Inr d"
proof -
  obtain a ls where l: "locs = a # ls" using assms(1) by (cases locs) auto
  have n: "locs \<noteq> []" using l by simp
  have c: "contiguous locs"
  proof (rule ccontr)
    assume "\<not> contiguous locs"
    then have "packRun_read Z io s sums locs = map (\<lambda>_. Inl (PackNotContiguous 0)) locs" using n by (simp add: packRun_read_def)
    then show False using assms(1,3) by simp
  qed
  obtain f where f: "packRun_file io (pl_pack a) s = Inr f"
  proof (cases "packRun_file io (pl_pack a) s")
    case (Inl e)
    then have "packRun_read Z io s sums locs = map (\<lambda>_. Inl e) locs" using c l by (simp add: packRun_read_def Let_def)
    then show ?thesis using assms(1,3) by simp
  qed
  note sp = contiguous_span [of a ls "locs ! k"]
  have k: "locs ! k \<in> set (a # ls)" using nth_mem [OF assms(1)] unfolding l .
  define start where "start = int (unat (pl_off a)) - int packRecordHeaderSize"
  obtain got where r: "runRecord Z (take got (drop (nat start) f)) start (sums ! k) (locs ! k) = Inr d" and g: "start < 0 \<Longrightarrow> got = 0"
  proof
    let ?sz = "nat (int (unat (pl_off (last locs))) + int (unat (pl_stored (last locs))) - start)"
    show "runRecord Z (take (if start < 0 then 0 else min (ri_got io (nat start)) ?sz) (drop (nat start) f)) start
        (sums ! k) (locs ! k) = Inr d"
      using packRun_read_nth [OF c assms(1,2), of io s f start ?sz Z] assms(3) f by (simp add: start_def l del: of_nat_unat)
  qed simp
  have h: "packRecordHeaderSize \<le> unat (pl_off a)"
  proof (rule ccontr)
    assume "\<not> ?thesis"
    then have "start < 0" unfolding start_def by linarith
    then have "got = 0" by (rule g)
    then show False using r by (simp add: runRecord_def packRecordHeaderSize_def)
  qed
  have "nat start = unat (pl_off a) - packRecordHeaderSize" using h unfolding start_def by linarith
  with r have "runRecord Z (take got (drop (unat (pl_off a) - packRecordHeaderSize) f))
      (int (unat (pl_off a)) - int packRecordHeaderSize) (sums ! k) (locs ! k) = Inr d"
    by (simp only: start_def)
  then have "readPackRecord Z f (loc_entry (sums ! k) (locs ! k)) = Inr d"
    using runRecord_ok [OF h] sp(2) c k h l by metis
  moreover have "packRun_file io (pl_pack (locs ! k)) s = Inr f" using sp(1) c k h l f by metis
  ultimately show ?thesis using packRun_file_read by metis
qed

lemma packPrimary_loc: "packPrimary io bad dg len s = Some l \<Longrightarrow> l \<in> set (appendLocs (cs_packs s) dg)"
  by (auto simp: packPrimary_def split: list.splits if_splits)

section \<open>Planned runs\<close>

text \<open>A plan for the chunk references \<open>cs\<close>: the primaries of a prefix of them.\<close>

definition run_for :: "read_io \<Rightarrow> manifestReader \<Rightarrow> casState \<Rightarrow> chunkRef list \<Rightarrow> digest list \<Rightarrow> packLoc list \<Rightarrow> bool" where
  "run_for io m s cs sums locs \<longleftrightarrow> length sums = length locs \<and> length locs \<le> length cs
     \<and> (\<forall>k < length locs. decodeHexSHA256 (cr_SHA256 (cs ! k)) = Some (sums ! k)
          \<and> packPrimary io (mr_bad m) (sums ! k) (cr_Length (cs ! k)) s = Some (locs ! k))"

lemma run_for_snoc:
  assumes "run_for io m s pre sums locs" "length pre = length locs" "decodeHexSHA256 (cr_SHA256 c) = Some dg"
    and "packPrimary io (mr_bad m) dg (cr_Length c) s = Some l"
  shows "run_for io m s (pre @ [c]) (sums @ [dg]) (locs @ [l])"
  using assms by (auto simp: run_for_def nth_append less_Suc_eq)

lemma run_for_more: "run_for io m s pre sums locs \<Longrightarrow> run_for io m s (pre @ cs) sums locs"
  by (auto simp: run_for_def nth_append)

text \<open>The bounds of a run and its contiguity, which the loop keeps.\<close>

definition run_bytes :: "packLoc list \<Rightarrow> nat" where
  "run_bytes locs = sum_list (map (\<lambda>l. packRecordHeaderSize + unat (pl_stored l)) locs)"

definition run_logical :: "packLoc list \<Rightarrow> nat" where
  "run_logical locs = sum_list (map (\<lambda>l. unat (pl_logical l)) locs)"

definition run_bounded :: "packLoc list \<Rightarrow> bool" where
  "run_bounded locs \<longleftrightarrow> locs \<noteq> [] \<and> contiguous locs \<and> length locs \<le> packRunMaxRecords
     \<and> (length locs = 1 \<or> run_bytes locs \<le> packRunMaxStored \<and> run_logical locs \<le> packRunMaxLogical)"

lemma contiguous_snoc:
  "contiguous (ls @ [a]) \<Longrightarrow> pl_pack b = pl_pack a
    \<Longrightarrow> int (unat (pl_off b)) - int packRecordHeaderSize = int (unat (pl_off a)) + int (unat (pl_stored a))
    \<Longrightarrow> contiguous (ls @ [a, b])"
  by (induction ls rule: contiguous.induct) (auto simp del: of_nat_unat)

lemma contiguous_pack: "contiguous ls \<Longrightarrow> l \<in> set ls \<Longrightarrow> pl_pack l = pl_pack (hd ls)"
  by (induction ls rule: contiguous.induct) auto

lemma planMore_plan:
  assumes "planMore io m s fst_loc cs nxt (run_bytes locs) (run_logical locs) sums locs = (sums', locs')"
    and "run_for io m s pre sums locs" "length pre = length locs" "run_bounded locs" "fst_loc = hd locs"
  shows "run_for io m s (pre @ cs) sums' locs' \<and> run_bounded locs' \<and> hd locs' = hd locs"
  using assms
proof (induction cs arbitrary: pre nxt sums locs)
  case Nil
  then show ?case by simp
next
  case (Cons c cs)
  show ?case
  proof (cases "planMore io m s fst_loc (c # cs) nxt (run_bytes locs) (run_logical locs) sums locs = (sums, locs)")
    case True
    then show ?thesis using Cons.prems run_for_more [OF Cons.prems(2)] by simp
  next
    case False
    then obtain dg l where l: "decodeHexSHA256 (cr_SHA256 c) = Some dg"
        "packPrimary io (mr_bad m) dg (cr_Length c) s = Some l" "length locs < packRunMaxRecords"
        "pl_pack l = pl_pack fst_loc"
        "int (unat (pl_off l)) - int packRecordHeaderSize = int (unat (pl_off (last locs))) + int (unat (pl_stored (last locs)))"
        "run_bytes locs + packRecordHeaderSize + unat (pl_stored l) \<le> packRunMaxStored"
        "run_logical locs + unat (pl_logical l) \<le> packRunMaxLogical"
      by (auto simp del: of_nat_unat split: option.splits if_splits)
    have b: "run_bytes (locs @ [l]) = run_bytes locs + packRecordHeaderSize + unat (pl_stored l)"
      "run_logical (locs @ [l]) = run_logical locs + unat (pl_logical l)"
      by (simp_all add: run_bytes_def run_logical_def)
    have ne: "locs \<noteq> []" "contiguous locs" using Cons.prems(4) by (simp_all add: run_bounded_def)
    have "contiguous (butlast locs @ [last locs, l])"
      using ne l(4,5) Cons.prems(5) contiguous_pack [OF ne(2) last_in_set [OF ne(1)]]
      by (intro contiguous_snoc) simp_all
    then have "contiguous (locs @ [l])" using append_butlast_last_id [OF ne(1)] by (metis append.assoc append_Cons append_Nil)
    then have rb: "run_bounded (locs @ [l])" using l(3,6,7) b by (simp add: run_bounded_def)
    have "planMore io m s fst_loc cs (nxt + cr_Length c) (run_bytes (locs @ [l])) (run_logical (locs @ [l])) (sums @ [dg]) (locs @ [l])
        = (sums', locs')"
      using Cons.prems(1) False l unfolding b by (auto simp del: of_nat_unat split: if_splits)
    from Cons.IH [OF this run_for_snoc [OF Cons.prems(2,3) l(1,2)] _ rb] Cons.prems(3,5) ne
    show ?thesis by simp
  qed
qed

lemma planRun_plan:
  assumes "planRun io m s i dg cst = Some (sums, locs)" "i < length (mr_chunks m)"
    and "decodeHexSHA256 (cr_SHA256 (mr_chunks m ! i)) = Some dg"
  shows "run_for io m s (drop i (mr_chunks m)) sums locs" "run_bounded locs"
proof -
  let ?c = "mr_chunks m ! i"
  obtain l where l: "packPrimary io (mr_bad m) dg (cr_Length ?c) s = Some l"
    and p: "planMore io m s l (drop (i + 1) (mr_chunks m)) (cst + cr_Length ?c) (run_bytes [l]) (run_logical [l]) [dg] [l] = (sums, locs)"
    using assms(1) by (auto simp: planRun_def run_bytes_def run_logical_def split: if_splits option.splits)
  have "run_for io m s [?c] [dg] [l]" using l assms(3) by (simp add: run_for_def)
  moreover have "run_bounded [l]" by (simp add: run_bounded_def packRunMaxRecords_def)
  ultimately have "run_for io m s ([?c] @ drop (i + 1) (mr_chunks m)) sums locs \<and> run_bounded locs"
    using planMore_plan [OF p, of "[?c]"] by simp
  then show "run_for io m s (drop i (mr_chunks m)) sums locs" "run_bounded locs"
    using assms(2) by (simp_all add: Cons_nth_drop_Suc)
qed

section \<open>The reader hands out only what the store serves\<close>

definition queue_ok :: "flate_codec \<Rightarrow> casState \<Rightarrow> manifestReader \<Rightarrow> bool" where
  "queue_ok Z s m \<longleftrightarrow> (\<forall>e \<in> set (mr_q m). \<forall>d. rc_data e = Inr d \<longrightarrow>
     (\<exists>dg. decodeHexSHA256 (cr_SHA256 (mr_chunks m ! rc_idx e)) = Some dg \<and> served Z dg d s))"

lemma queue_ok_new [simp]: "queue_ok Z s (newManifestReader cs rng)"
  by (simp add: queue_ok_def newManifestReader_def)

lemma length_packRun_read: "length sums = length locs \<Longrightarrow> length (packRun_read Z io s sums locs) = length locs"
  by (auto simp: packRun_read_def Let_def split: sum.splits)

lemma fetchRun_queue:
  assumes "run_for io m s (drop i (mr_chunks m)) sums locs" "i \<le> length (mr_chunks m)"
  shows "queue_ok Z s (fetchRun Z io s i sums locs m)"
proof -
  have "\<exists>dg. decodeHexSHA256 (cr_SHA256 (mr_chunks m ! (i + k))) = Some dg \<and> served Z dg d s"
    if "k < length locs" "packRun_read Z io s sums locs ! k = Inr d" for k d
  proof -
    have r: "length sums = length locs" "length locs \<le> length (mr_chunks m) - i"
      "decodeHexSHA256 (cr_SHA256 (drop i (mr_chunks m) ! k)) = Some (sums ! k)"
      "packPrimary io (mr_bad m) (sums ! k) (cr_Length (drop i (mr_chunks m) ! k)) s = Some (locs ! k)"
      using assms(1) that(1) by (auto simp: run_for_def)
    have "served Z (sums ! k) d s"
      using packRun_read_ok [OF that(1) r(1) that(2)] packPrimary_loc [OF r(4)] by (auto simp: served_def)
    then show ?thesis using r(3) assms(2) by simp
  qed
  moreover have "length (packRun_read Z io s sums locs) = length locs"
    using assms(1) by (intro length_packRun_read) (simp add: run_for_def)
  ultimately show ?thesis by (auto simp: queue_ok_def fetchRun_def Let_def set_zip)
qed

text \<open>The fields of the reader that a chunk read leaves alone.\<close>

definition same_place :: "manifestReader \<Rightarrow> manifestReader \<Rightarrow> bool" where
  "same_place m m' \<longleftrightarrow> mr_chunks m' = mr_chunks m \<and> mr_idx m' = mr_idx m \<and> mr_offset m' = mr_offset m \<and> mr_rng m' = mr_rng m"

lemma mr_chunk_effect:
  assumes "mr_chunk Z io s i dg cst m0 = (r, m')" "queue_ok Z s m0" "i < length (mr_chunks m0)"
    and "decodeHexSHA256 (cr_SHA256 (mr_chunks m0 ! i)) = Some dg"
  shows "queue_ok Z s m'" "same_place m0 m'" "r = Inr d \<Longrightarrow> served Z dg d s"
    "good_copy Z dg s \<Longrightarrow> \<not> ri_loose io dg \<Longrightarrow> is_ok r"
proof -
  define m1 where "m1 = (if mr_qh m0 < length (mr_q m0) \<and> rc_idx (mr_q m0 ! mr_qh m0) \<noteq> i then m0\<lparr>mr_q := [], mr_qh := 0\<rparr> else m0)"
  have m1: "queue_ok Z s m1" "same_place m0 m1" "mr_qh m1 < length (mr_q m1) \<Longrightarrow> rc_idx (mr_q m1 ! mr_qh m1) = i"
    using assms(2) by (auto simp: m1_def queue_ok_def same_place_def)
  define m2 where "m2 = (if mr_qh m1 \<ge> length (mr_q m1)
                then (case planRun io m1 s i dg cst of None \<Rightarrow> m1 | Some (sums, locs) \<Rightarrow> fetchRun Z io s i sums locs m1)
                else m1)"
  have m2: "queue_ok Z s m2 \<and> same_place m0 m2 \<and> (mr_qh m2 < length (mr_q m2) \<longrightarrow> rc_idx (mr_q m2 ! mr_qh m2) = i)"
  proof (cases "mr_qh m1 \<ge> length (mr_q m1) \<and> planRun io m1 s i dg cst \<noteq> None")
    case True
    then obtain sums locs where p: "planRun io m1 s i dg cst = Some (sums, locs)" by auto
    have c: "mr_chunks m1 = mr_chunks m0" using m1(2) by (simp add: same_place_def)
    note pl = planRun_plan [OF p, unfolded c, OF assms(3,4)]
    have m2: "m2 = fetchRun Z io s i sums locs m1" using True p by (simp add: m2_def)
    have "queue_ok Z s m2" unfolding m2 using fetchRun_queue [of io m1 s i sums locs Z] pl(1) c assms(3) by simp
    then show ?thesis using m1(2) unfolding m2 by (auto simp: fetchRun_def Let_def same_place_def)
  next
    case False
    then have "m2 = m1" by (auto simp: m2_def split: option.splits)
    then show ?thesis using m1 by simp
  qed
  have c2: "mr_chunks m2 = mr_chunks m0" using m2 by (simp add: same_place_def)
  have res: "(r, m') = (if mr_qh m2 < length (mr_q m2)
      then case rc_data (mr_q m2 ! mr_qh m2) of
          Inr data \<Rightarrow> (Inr data, m2\<lparr>mr_qh := mr_qh m2 + 1\<rparr>)
        | Inl _ \<Rightarrow> (casRead Z (ri_loose io dg) dg s, m2\<lparr>mr_qh := mr_qh m2 + 1\<rparr>)
      else (casRead Z (ri_loose io dg) dg s, m2))"
    using assms(1) unfolding mr_chunk_def Let_def m1_def [symmetric] m2_def [symmetric] by simp
  have m': "m' = m2 \<or> m' = m2\<lparr>mr_qh := mr_qh m2 + 1\<rparr>" using res by (auto split: if_splits sum.splits)
  then show "queue_ok Z s m'" "same_place m0 m'" using m2 by (auto simp: queue_ok_def same_place_def)
  have r: "r = casRead Z (ri_loose io dg) dg s \<or> (\<exists>d. r = Inr d \<and> served Z dg d s)"
  proof (cases "mr_qh m2 < length (mr_q m2)")
    case True
    let ?e = "mr_q m2 ! mr_qh m2"
    have "rc_data ?e = Inr d \<Longrightarrow> served Z dg d s" for d
      using m2 True assms(4) nth_mem [OF True] unfolding queue_ok_def c2 by (metis option.inject)
    then show ?thesis using res True by (auto split: sum.splits)
  qed (use res in simp)
  then show "r = Inr d \<Longrightarrow> served Z dg d s" using casRead_served by auto
  show "is_ok r" if "good_copy Z dg s" "\<not> ri_loose io dg"
    using r good_copy_read [OF that(1)] that(2) by auto
qed

section \<open>Answering a GET\<close>

lemma mr_chunk_place: "mr_chunk Z io s i dg cst m = (r, m') \<Longrightarrow> same_place m m'"
  by (auto simp: mr_chunk_def Let_def fetchRun_def same_place_def split: if_splits option.splits sum.splits)

lemma mr_next_progress:
  "mr_next Z io s m = (NextData d, m') \<Longrightarrow> mr_chunks m' = mr_chunks m \<and> mr_idx m < mr_idx m' \<and> mr_idx m' \<le> length (mr_chunks m)"
proof (induction Z io s m rule: mr_next.induct)
  case (1 Z io s m)
  let ?c = "mr_chunks m ! mr_idx m"
  let ?m1 = "m\<lparr>mr_idx := mr_idx m + 1, mr_offset := mr_offset m + cr_Length ?c\<rparr>"
  have g: "mr_idx m < length (mr_chunks m) \<and> mr_offset m \<le> br_end (mr_rng m)"
    using 1(2) by (subst (asm) mr_next.simps) (auto split: if_splits)
  show ?case
  proof (cases "mr_offset ?m1 \<le> br_start (mr_rng m)")
    case True
    then have "mr_next Z io s ?m1 = (NextData d, m')" using 1(2) g by (subst (asm) mr_next.simps) (simp add: Let_def)
    with 1(1) [OF g refl refl refl refl True] show ?thesis by simp
  next
    case False
    then obtain dg r where "mr_chunk Z io s (mr_idx m) dg (mr_offset m) ?m1 = (r, m')"
      using 1(2) g by (subst (asm) mr_next.simps) (auto simp: Let_def split: option.splits prod.splits sum.splits if_splits)
    from mr_chunk_place [OF this] g show ?thesis by (simp add: same_place_def)
  qed
qed

text \<open>
  The loop of \<^verbatim>\<open>streamObject\<close>. \<open>wr k\<close> says how much of the \<open>k\<close>-th write reaches a client that
  goes away during it. The result is the body sent and whether the reader reached its end.
\<close>

function streamLoop ::
  "flate_codec \<Rightarrow> read_io \<Rightarrow> (nat \<Rightarrow> nat option) \<Rightarrow> casState \<Rightarrow> nat \<Rightarrow> next_result \<Rightarrow> manifestReader \<Rightarrow> bytes \<Rightarrow> bytes \<times> bool" where
  "streamLoop Z io wr s k NextEOF m body = (body, True)"
| "streamLoop Z io wr s k (NextErr e) m body = (body, False)"
| "streamLoop Z io wr s k (NextData d) m body =
     (case wr k of
        Some n \<Rightarrow> (body @ take n d, False)
      | None \<Rightarrow> (case mr_next Z io s m of (r, m') \<Rightarrow> streamLoop Z io wr s (k + 1) r m' (body @ d)))"
  by pat_completeness auto
termination
proof (relation "measure (\<lambda>(Z, io, wr, s, k, r, m, body). case r of NextData _ \<Rightarrow> Suc (length (mr_chunks m) - mr_idx m) | _ \<Rightarrow> 0)",
    goal_cases)
  case (2 Z io wr s k d m body r m')
  then have "mr_next Z io s m = (r, m')" by simp
  then show ?case using mr_next_progress [of Z io s m _ m'] by (cases r) fastforce+
qed simp

record getResponse =
  gr_status :: nat
  gr_contentRange :: "(int \<times> int \<times> int) option"
  gr_contentLength :: int
  gr_body :: bytes
  gr_complete :: bool

definition streamObject ::
  "flate_codec \<Rightarrow> read_io \<Rightarrow> (nat \<Rightarrow> nat option) \<Rightarrow> casState \<Rightarrow> chunkRef list \<Rightarrow> int \<Rightarrow> byteRange \<Rightarrow> bool \<Rightarrow> read_error + getResponse" where
  "streamObject Z io wr s chunks sz rng partial =
     (case mr_next Z io s (newManifestReader chunks rng) of
        (NextErr e, _) \<Rightarrow> Inl e
      | (r, m) \<Rightarrow>
          (case streamLoop Z io wr s 0 r m [] of
             (body, complete) \<Rightarrow>
               Inr \<lparr>gr_status = (if partial then 206 else 200),
                    gr_contentRange = (if partial then Some (br_start rng, br_end rng, sz) else None),
                    gr_contentLength = br_end rng - br_start rng + 1, gr_body = body, gr_complete = complete\<rparr>))"

datatype get_error = GetInvalidRange int | GetRead read_error

text \<open>The range part of \<^verbatim>\<open>handleGetObject\<close>, after the object was found and its conditions hold.\<close>

definition getObjectRange ::
  "flate_codec \<Rightarrow> read_io \<Rightarrow> (nat \<Rightarrow> nat option) \<Rightarrow> casState \<Rightarrow> chunkRef list \<Rightarrow> int \<Rightarrow> string \<Rightarrow> get_error + getResponse" where
  "getObjectRange Z io wr s chunks sz header =
     (let full = \<lparr>br_start = 0, br_end = sz - 1\<rparr>;
          serve = (\<lambda>rng partial. case streamObject Z io wr s chunks sz rng partial of Inl e \<Rightarrow> Inl (GetRead e) | Inr g \<Rightarrow> Inr g) in
      if header = [] then serve full False
      else case parseRangeSpec header sz of
        None \<Rightarrow> serve full False
      | Some None \<Rightarrow> Inl (GetInvalidRange sz)
      | Some (Some rng) \<Rightarrow> serve rng True)"

lemma slice_append: "lo \<le> mid \<Longrightarrow> mid \<le> hi \<Longrightarrow> slice lo mid xs @ slice mid hi xs = slice lo hi xs"
proof -
  assume "lo \<le> mid" "mid \<le> hi"
  then have "hi - lo = (mid - lo) + (hi - mid)" "drop mid xs = drop (mid - lo) (drop lo xs)" by simp_all
  then show ?thesis by (simp add: slice_def take_add)
qed

lemma slice_inner:
  "lo \<le> hi \<Longrightarrow> hi \<le> length p \<Longrightarrow> slice (length A + lo) (length A + hi) (A @ p @ B) = slice lo hi p"
  by (simp add: slice_def)

text \<open>
  The object is the concatenation of \<open>parts\<close>, and \<open>a \<le> e\<close> delimit the range to be served. The
  reader stands at a chunk boundary; \<open>pos\<close> is the first byte of the range not handed out yet.
\<close>

definition reader_at :: "flate_codec \<Rightarrow> casState \<Rightarrow> bytes list \<Rightarrow> nat \<Rightarrow> nat \<Rightarrow> manifestReader \<Rightarrow> bool" where
  "reader_at Z s parts a e m \<longleftrightarrow> mr_chunks m = map chunk_ref parts \<and> mr_idx m \<le> length parts
     \<and> mr_offset m = int (length (concat (take (mr_idx m) parts)))
     \<and> mr_rng m = \<lparr>br_start = int a, br_end = int e - 1\<rparr> \<and> queue_ok Z s m"

definition pos :: "nat \<Rightarrow> nat \<Rightarrow> manifestReader \<Rightarrow> nat" where
  "pos a e m = max a (min (nat (mr_offset m)) e)"

text \<open>What the store serves for the digest of a part is that part.\<close>

definition faithful :: "flate_codec \<Rightarrow> casState \<Rightarrow> bytes list \<Rightarrow> bool" where
  "faithful Z s parts \<longleftrightarrow> (\<forall>p \<in> set parts. \<forall>d. served Z (sha256 p) d s \<longrightarrow> d = p)"

definition readable :: "flate_codec \<Rightarrow> read_io \<Rightarrow> casState \<Rightarrow> bytes list \<Rightarrow> bool" where
  "readable Z io s parts \<longleftrightarrow> (\<forall>p \<in> set parts. good_copy Z (sha256 p) s \<and> \<not> ri_loose io (sha256 p))"

lemma decode_chunk_ref [simp]: "decodeHexSHA256 (cr_SHA256 (chunk_ref p)) = Some (sha256 p)"
  and length_chunk_ref [simp]: "cr_Length (chunk_ref p) = int (length p)"
  by (simp_all add: chunk_ref_def)

lemma reader_at_advance:
  assumes "reader_at Z s parts a e m" "mr_idx m < length parts"
  shows "reader_at Z s parts a e (m\<lparr>mr_idx := mr_idx m + 1, mr_offset := mr_offset m + cr_Length (mr_chunks m ! mr_idx m)\<rparr>)"
proof -
  have "queue_ok Z s (m\<lparr>mr_idx := i, mr_offset := j\<rparr>) = queue_ok Z s m" for i j by (simp add: queue_ok_def)
  then show ?thesis using assms by (simp add: reader_at_def take_Suc_conv_app_nth)
qed

lemma reader_at_place: "reader_at Z s parts a e m \<Longrightarrow> same_place m m' \<Longrightarrow> queue_ok Z s m' \<Longrightarrow> reader_at Z s parts a e m'"
  by (simp add: reader_at_def same_place_def)

lemma piece_slice:
  assumes "i < length parts" "a \<le> e" "cs = length (concat (take i parts))" "cs < e" "a < cs + length (parts ! i)"
    and "lo = (if int a > int cs then int a - int cs else 0)"
    and "hi = (if int e - 1 < int (cs + length (parts ! i)) - 1 then int e - 1 - int cs + 1 else int (length (parts ! i)))"
  shows "slice (nat lo) (nat hi) (parts ! i) = slice (max a (min cs e)) (max a (min (cs + length (parts ! i)) e)) (concat parts)"
proof -
  let ?p = "parts ! i"
  have x: "concat parts = concat (take i parts) @ ?p @ concat (drop (Suc i) parts)"
    by (metis assms(1) concat.simps(2) concat_append id_take_nth_drop)
  have "max a (min cs e) = cs + nat lo" "max a (min (cs + length ?p) e) = cs + nat hi" "nat lo \<le> nat hi" "nat hi \<le> length ?p"
    using assms(2,4-7) by (auto split: if_splits)
  then show ?thesis unfolding x using slice_inner [of "nat lo" "nat hi" ?p "concat (take i parts)"] assms(3) by simp
qed

definition next_spec :: "flate_codec \<Rightarrow> read_io \<Rightarrow> casState \<Rightarrow> bytes list \<Rightarrow> nat \<Rightarrow> nat \<Rightarrow> manifestReader \<Rightarrow> next_result \<Rightarrow> manifestReader \<Rightarrow> bool" where
  "next_spec Z io s parts a e m r m' \<longleftrightarrow> reader_at Z s parts a e m' \<and>
     (case r of
        NextEOF \<Rightarrow> pos a e m = e
      | NextErr _ \<Rightarrow> \<not> readable Z io s parts
      | NextData d \<Rightarrow> d = slice (pos a e m) (pos a e m') (concat parts) \<and> pos a e m \<le> pos a e m')"

lemma mr_next_effect:
  assumes "mr_next Z io s m = (r, m')" "reader_at Z s parts a e m" "a \<le> e" "e \<le> length (concat parts)" "faithful Z s parts"
  shows "next_spec Z io s parts a e m r m'"
  using assms
proof (induction Z io s m rule: mr_next.induct)
  case (1 Z io s m)
  let ?i = "mr_idx m" and ?p = "parts ! mr_idx m"
  let ?m1 = "m\<lparr>mr_idx := ?i + 1, mr_offset := mr_offset m + cr_Length (mr_chunks m ! ?i)\<rparr>"
  define cs where "cs = length (concat (take ?i parts))"
  have m: "mr_chunks m = map chunk_ref parts" "mr_offset m = int cs" "br_start (mr_rng m) = int a" "br_end (mr_rng m) = int e - 1"
    "?i \<le> length parts"
    using 1(3) by (simp_all add: reader_at_def cs_def)
  show ?case
  proof (cases "?i < length parts \<and> cs < e")
    case False
    then have "cs \<ge> e" using 1(5) m(5) by (auto simp: cs_def)
    then have "r = NextEOF" "m' = m" using 1(2) m by (subst (asm) mr_next.simps; simp)+
    then show ?thesis using 1(3,4) m(2) \<open>cs \<ge> e\<close> by (simp add: next_spec_def pos_def)
  next
    case g: True
    then have g': "?i < length (mr_chunks m) \<and> mr_offset m \<le> br_end (mr_rng m)" using m by simp
    have adv: "reader_at Z s parts a e ?m1" using reader_at_advance [OF 1(3)] g by simp
    have off1: "mr_offset ?m1 = int (cs + length ?p)" using g m by simp
    show ?thesis
    proof (cases "cs + length ?p \<le> a")
      case True
      then have sk: "mr_offset ?m1 \<le> br_start (mr_rng m)" using off1 m by simp
      then have "mr_next Z io s ?m1 = (r, m')" using 1(2) g' by (subst (asm) mr_next.simps) (simp add: Let_def)
      from 1(1) [OF g' refl refl refl refl sk this adv 1(4-6)]
      have "next_spec Z io s parts a e ?m1 r m'" .
      moreover have "pos a e ?m1 = pos a e m" using True 1(4) off1 m by (simp add: pos_def)
      ultimately show ?thesis by (simp only: next_spec_def)
    next
      case False
      obtain q m2 where c: "mr_chunk Z io s ?i (sha256 ?p) (int cs) ?m1 = (q, m2)" by fastforce
      have q1: "queue_ok Z s ?m1" using adv unfolding reader_at_def by blast
      have i1: "?i < length (mr_chunks ?m1)" "decodeHexSHA256 (cr_SHA256 (mr_chunks ?m1 ! ?i)) = Some (sha256 ?p)"
        using g m by simp_all
      note e = mr_chunk_effect [OF c q1 i1]
      have m2: "reader_at Z s parts a e m2" using reader_at_place [OF adv e(2,1)] .
      have off2: "mr_offset m2 = int (cs + length ?p)" using e(2) off1 by (simp add: same_place_def)
      let ?lo = "if int a > int cs then int a - int cs else 0"
      let ?hi = "if int e - 1 < int (cs + length ?p) - 1 then int e - 1 - int cs + 1 else int (length ?p)"
      have n: "(r, m') = (case q of Inl x \<Rightarrow> (NextErr (ReadChunk x), m2)
          | Inr d \<Rightarrow> if int (length d) \<noteq> int (length ?p) then (NextErr ReadLength, m2)
              else (NextData (slice (nat ?lo) (nat ?hi) d), m2))"
        using 1(2) g g' False c m by (subst (asm) mr_next.simps) (cases q; auto simp: Let_def)
      have p: "?p \<in> set parts" using g by simp
      show ?thesis
      proof (cases q)
        case (Inl x)
        then have "\<not> readable Z io s parts" using e(4) p by (auto simp: readable_def)
        then show ?thesis using n Inl m2 by (simp add: next_spec_def)
      next
        case (Inr d)
        then have "d = ?p" using e(3) 1(6) p by (simp add: faithful_def)
        then have "r = NextData (slice (nat ?lo) (nat ?hi) ?p)" "m' = m2" using n Inr by simp_all
        moreover have "slice (nat ?lo) (nat ?hi) ?p = slice (pos a e m) (pos a e m2) (concat parts)"
          using piece_slice [OF _ 1(4) cs_def, of ?lo ?hi] g False by (simp add: pos_def m(2) off2 nat_int_add)
        moreover have "pos a e m \<le> pos a e m2" by (simp add: pos_def m(2) off2)
        ultimately show ?thesis using m2 by (simp add: next_spec_def)
      qed
    qed
  qed
qed

lemma pos_le: "a \<le> e \<Longrightarrow> pos a e m \<le> e" and le_pos: "a \<le> pos a e m"
  by (simp_all add: pos_def)

lemma streamLoop_effect:
  assumes "streamLoop Z io wr s k r m body = (b, ok)" "next_spec Z io s parts a e m0 r m"
    and "body = slice a (pos a e m0) (concat parts)" "a \<le> e" "e \<le> length (concat parts)" "faithful Z s parts"
  shows "(\<exists>t. b @ t = slice a e (concat parts)) \<and> (ok \<longrightarrow> b = slice a e (concat parts))
    \<and> (readable Z io s parts \<and> (\<forall>k. wr k = None) \<longrightarrow> ok)"
  using assms
proof (induction Z io wr s k r m body arbitrary: m0 rule: streamLoop.induct)
  case (1 Z io wr s k m body)
  then show ?case by (auto simp: next_spec_def)
next
  case (2 Z io wr s k x m body)
  then show ?case
    using slice_append [OF le_pos pos_le [OF 2(4)], of m0 "concat parts"] by (auto simp: next_spec_def)
next
  case (3 Z io wr s k d m body)
  let ?X = "concat parts"
  have d: "d = slice (pos a e m0) (pos a e m) ?X" "pos a e m0 \<le> pos a e m" "reader_at Z s parts a e m"
    using 3(3) by (simp_all add: next_spec_def)
  have bd: "body @ d = slice a (pos a e m) ?X" using slice_append [OF le_pos d(2)] 3(4) d(1) by simp
  have x: "slice a e ?X = (body @ d) @ slice (pos a e m) e ?X"
    using slice_append [OF le_pos pos_le [OF 3(5)], of m ?X] bd by simp
  show ?case
  proof (cases "wr k")
    case (Some n)
    then have "b = body @ take n d" "\<not> ok" using 3(2) by auto
    moreover have "\<not> (\<forall>k. wr k = None)" using Some by (metis option.distinct(1))
    ultimately show ?thesis using x by (auto intro!: exI [of _ "drop n d @ slice (pos a e m) e ?X"])
  next
    case None
    obtain r1 m1 where n: "mr_next Z io s m = (r1, m1)" by fastforce
    from 3(2) None n have l: "streamLoop Z io wr s (k + 1) r1 m1 (body @ d) = (b, ok)" by simp
    show ?thesis
      by (rule 3(1) [OF None n [symmetric] l mr_next_effect [OF n d(3) 3(5-7)] bd 3(5-7)])
  qed
qed

lemma streamObject_effect:
  assumes "streamObject Z io wr s (map chunk_ref parts) sz \<lparr>br_start = int a, br_end = int e - 1\<rparr> partial = out"
    and "a \<le> e" "e \<le> length (concat parts)" "faithful Z s parts"
  shows "out = Inr g \<Longrightarrow> gr_contentLength g = int (length (slice a e (concat parts)))
      \<and> (\<exists>t. gr_body g @ t = slice a e (concat parts)) \<and> (gr_complete g \<longrightarrow> gr_body g = slice a e (concat parts))"
    and "readable Z io s parts \<Longrightarrow> \<forall>k. wr k = None \<Longrightarrow> \<exists>g. out = Inr g \<and> gr_complete g"
proof -
  let ?m = "newManifestReader (map chunk_ref parts) \<lparr>br_start = int a, br_end = int e - 1\<rparr>"
  obtain r m1 where n: "mr_next Z io s ?m = (r, m1)" by fastforce
  have at: "reader_at Z s parts a e ?m" using queue_ok_new [of Z s "map chunk_ref parts"] by (simp add: reader_at_def newManifestReader_def)
  note sp = mr_next_effect [OF n at assms(2-4)]
  obtain b ok where l: "streamLoop Z io wr s 0 r m1 [] = (b, ok)" by fastforce
  have "[] = slice a (pos a e ?m) (concat parts)" using assms(2) by (simp add: slice_def pos_def newManifestReader_def)
  note E = streamLoop_effect [OF l sp this assms(2-4)]
  have len: "int e - 1 - int a + 1 = int (length (slice a e (concat parts)))" using assms(2,3) by (simp add: slice_def)
  show "gr_contentLength g = int (length (slice a e (concat parts)))
      \<and> (\<exists>t. gr_body g @ t = slice a e (concat parts)) \<and> (gr_complete g \<longrightarrow> gr_body g = slice a e (concat parts))" if "out = Inr g"
    using that assms(1) n l E len by (cases r) (auto simp: streamObject_def)
  show "\<exists>g. out = Inr g \<and> gr_complete g" if "readable Z io s parts" "\<forall>k. wr k = None"
    using that assms(1) n l E sp by (cases r) (auto simp: streamObject_def next_spec_def)
qed

lemma parseRangeSpec_bounds:
  assumes "parseRangeSpec header sz = Some (Some r)" "0 \<le> sz"
  shows "0 \<le> br_start r \<and> br_start r \<le> br_end r \<and> br_end r < sz"
  using assms by (auto simp: parseRangeSpec_def Let_def split: if_splits option.splits)

text \<open>The readers a request can have, with an environment that changes from call to call.\<close>

inductive reading :: "flate_codec \<Rightarrow> casState \<Rightarrow> chunkRef list \<Rightarrow> manifestReader \<Rightarrow> bool" for Z s chunks where
  opened: "reading Z s chunks (newManifestReader chunks rng)"
| nexted: "reading Z s chunks m \<Longrightarrow> mr_next Z io s m = (r, m') \<Longrightarrow> reading Z s chunks m'"

definition piece_of :: "chunkRef list \<Rightarrow> bytes \<Rightarrow> bool" where
  "piece_of chunks d \<longleftrightarrow> (\<exists>i < length chunks. \<exists>p lo hi. decodeHexSHA256 (cr_SHA256 (chunks ! i)) = Some (sha256 p)
     \<and> cr_Length (chunks ! i) = int (length p) \<and> d = slice lo hi p)"

lemma mr_next_pieces:
  assumes "mr_next Z io s m = (r, m')" "queue_ok Z s m"
  shows "queue_ok Z s m' \<and> mr_chunks m' = mr_chunks m \<and> (\<forall>d. r = NextData d \<longrightarrow> piece_of (mr_chunks m) d)"
  using assms
proof (induction Z io s m rule: mr_next.induct)
  case (1 Z io s m)
  let ?c = "mr_chunks m ! mr_idx m"
  let ?m1 = "m\<lparr>mr_idx := mr_idx m + 1, mr_offset := mr_offset m + cr_Length ?c\<rparr>"
  have q1: "queue_ok Z s ?m1" using 1(3) by (simp add: queue_ok_def)
  show ?case
  proof (cases "mr_idx m < length (mr_chunks m) \<and> mr_offset m \<le> br_end (mr_rng m)")
    case False
    then show ?thesis using 1(2,3) by (subst (asm) mr_next.simps) (auto split: if_splits)
  next
    case g: True
    show ?thesis
    proof (cases "mr_offset ?m1 \<le> br_start (mr_rng m)")
      case True
      then have "mr_next Z io s ?m1 = (r, m')" using 1(2) g by (subst (asm) mr_next.simps) (simp add: Let_def)
      from 1(1) [OF g refl refl refl refl True this q1] show ?thesis by simp
    next
      case False
      show ?thesis
      proof (cases "decodeHexSHA256 (cr_SHA256 ?c)")
        case None
        then have "r = NextErr ReadBadDigest" "m' = ?m1"
          using 1(2) g False by (subst (asm) mr_next.simps; simp add: Let_def)+
        then show ?thesis using q1 by simp
      next
        case (Some dg)
        obtain q m2 where c: "mr_chunk Z io s (mr_idx m) dg (mr_offset m) ?m1 = (q, m2)" by fastforce
        note e = mr_chunk_effect [OF c q1]
        have n: "m' = m2" "\<And>d. r = NextData d \<Longrightarrow> \<exists>p lo hi. q = Inr p \<and> int (length p) = cr_Length ?c \<and> d = slice lo hi p"
          using 1(2) g False Some c by (subst (asm) mr_next.simps; cases q; auto simp: Let_def split: if_splits)+
        have "piece_of (mr_chunks m) d" if "r = NextData d" for d
          using n(2) [OF that] e(3) served_sound g Some unfolding piece_of_def by fastforce
        then show ?thesis using e(1,2) g Some n(1) by (simp add: same_place_def)
      qed
    qed
  qed
qed

lemma reading_queue: "reading Z s chunks m \<Longrightarrow> queue_ok Z s m \<and> mr_chunks m = chunks"
proof (induction rule: reading.induct)
  case (opened rng)
  then show ?case by (simp add: newManifestReader_def queue_ok_def)
next
  case (nexted m io r m')
  then show ?case using mr_next_pieces [OF nexted(2)] by simp
qed

text \<open>The bytes a \<^verbatim>\<open>Range\<close> header asks for; an absent or ignored header asks for all.\<close>

definition requested :: "string \<Rightarrow> bytes \<Rightarrow> bytes" where
  "requested header xs =
     (case parseRangeSpec header (int (length xs)) of
        Some (Some r) \<Rightarrow> slice (nat (br_start r)) (nat (br_end r) + 1) xs
      | _ \<Rightarrow> xs)"

lemma run_bytes_span:
  "contiguous (a # ls) \<Longrightarrow> packRecordHeaderSize \<le> unat (pl_off a)
    \<Longrightarrow> run_bytes (a # ls) = unat (pl_off (last (a # ls))) + unat (pl_stored (last (a # ls))) - (unat (pl_off a) - packRecordHeaderSize)"
proof (induction ls arbitrary: a)
  case (Cons b ls)
  have "int (unat (pl_off b)) - int packRecordHeaderSize = int (unat (pl_off a)) + int (unat (pl_stored a))"
    using Cons.prems(1) by (simp only: contiguous.simps)
  then have b: "unat (pl_off b) = unat (pl_off a) + unat (pl_stored a) + packRecordHeaderSize" "contiguous (b # ls)"
    using Cons.prems(1) by (linarith | simp)+
  note sp = contiguous_span(2,3) [OF b(2), of b]
  have "run_bytes (a # b # ls) = packRecordHeaderSize + unat (pl_stored a) + run_bytes (b # ls)" by (simp add: run_bytes_def)
  then show ?case using Cons.IH [OF b(2)] b(1) sp Cons.prems(2) by simp
qed (simp add: run_bytes_def)

lemma packRun_read_single:
  assumes "contiguous locs" "k < length locs" "length sums = length locs" "packRecordHeaderSize \<le> unat (pl_off (hd locs))"
    and "\<not> ri_open io (pl_pack (hd locs))" "run_bytes locs \<le> ri_got io (unat (pl_off (hd locs)) - packRecordHeaderSize)"
  shows "packRun_read Z io s sums locs ! k = readPacked Z (sums ! k) (locs ! k) s"
proof -
  obtain a ls where l: "locs = a # ls" using assms(2) by (cases locs) auto
  note c = assms(1) [unfolded l] and h = assms(4) [unfolded l list.sel]
  have k: "locs ! k \<in> set (a # ls)" using nth_mem [OF assms(2)] unfolding l .
  note sp = contiguous_span [OF c k h]
  show ?thesis
  proof (cases "packRun_file io (pl_pack a) s")
    case (Inl e)
    then have "readPacked Z dg (locs ! k) s = Inl e" for dg
      using sp(1) assms(5) l by (auto simp: packRun_file_def readPacked_def split: if_splits option.splits)
    moreover have "packRun_read Z io s sums locs = map (\<lambda>_. Inl e) locs"
      using Inl assms(1) l by (simp add: packRun_read_def Let_def)
    ultimately show ?thesis using assms(2) by simp
  next
    case (Inr f)
    define start where "start = int (unat (pl_off a)) - int packRecordHeaderSize"
    define sz where "sz = nat (int (unat (pl_off (last locs))) + int (unat (pl_stored (last locs))) - start)"
    have st: "\<not> start < 0" "nat start = unat (pl_off a) - packRecordHeaderSize" using h unfolding start_def by linarith+
    have "sz = run_bytes locs" using run_bytes_span [OF c h] st h unfolding sz_def l start_def by linarith
    then have got: "min (ri_got io (nat start)) sz = sz" using assms(6) st(2) l by simp
    have le: "unat (pl_off (locs ! k)) + unat (pl_stored (locs ! k)) \<le> unat (pl_off a) - packRecordHeaderSize + sz"
      using sp(3) st unfolding l [symmetric] sz_def by linarith
    have "packRun_read Z io s sums locs ! k
        = runRecord Z (take sz (drop (unat (pl_off a) - packRecordHeaderSize) f)) start (sums ! k) (locs ! k)"
      using packRun_read_nth [OF assms(1-3), of io s f start sz Z] Inr l st got by (simp add: start_def sz_def del: of_nat_unat)
    also have "\<dots> = readPackRecord Z f (loc_entry (sums ! k) (locs ! k))"
      unfolding start_def by (rule runRecord_eq [OF h sp(2) le])
    also have "\<dots> = readPacked Z (sums ! k) (locs ! k) s" using packRun_file_read Inr sp(1) by metis
    finally show ?thesis .
  qed
qed

text \<open>An environment in which nothing fails and every read delivers what the file has.\<close>

definition whole_reads :: read_io where
  "whole_reads = \<lparr>ri_lstat = (\<lambda>_. False), ri_loose = (\<lambda>_. False), ri_open = (\<lambda>_. False), ri_got = (\<lambda>_. packRunMaxStored)\<rparr>"

text \<open>The three shapes of a \<^verbatim>\<open>Range\<close> header: refused, a range, and the whole object.\<close>

lemma getObjectRange_spec:
  assumes "faithful Z s parts"
    and "getObjectRange Z io wr s (map chunk_ref parts) (int (length (concat parts))) header = out"
  shows "(\<forall>g. out = Inr g \<longrightarrow> gr_contentLength g = int (length (requested header (concat parts)))
      \<and> (\<exists>t. gr_body g @ t = requested header (concat parts)) \<and> (gr_complete g \<longrightarrow> gr_body g = requested header (concat parts)))
    \<and> (readable Z io s parts \<and> (\<forall>k. wr k = None) \<longrightarrow>
        (\<exists>g. out = Inr g \<and> gr_complete g) \<or> parseRangeSpec header (int (length (concat parts))) = Some None)"
proof -
  let ?X = "concat parts"
  let ?n = "int (length ?X)"
  consider (bad) "parseRangeSpec header ?n = Some None" "header \<noteq> []"
    | (rng) r where "parseRangeSpec header ?n = Some (Some r)" "header \<noteq> []"
    | (all) "header = [] \<or> parseRangeSpec header ?n = None"
    by (metis option.exhaust)
  then show ?thesis
  proof cases
    case bad
    then show ?thesis using assms(2) by (auto simp: getObjectRange_def)
  next
    case rng
    note b = parseRangeSpec_bounds [OF rng(1)]
    let ?a = "nat (br_start r)" and ?e = "nat (br_end r) + 1"
    have r: "r = \<lparr>br_start = int ?a, br_end = int ?e - 1\<rparr>" using b by simp
    obtain o' where o: "streamObject Z io wr s (map chunk_ref parts) ?n r True = o'" by simp
    have out: "out = (case o' of Inl e \<Rightarrow> Inl (GetRead e) | Inr g \<Rightarrow> Inr g)"
      using assms(2) rng o by (simp add: getObjectRange_def)
    have ae: "?a \<le> ?e" "?e \<le> length ?X" using b by linarith+
    have "streamObject Z io wr s (map chunk_ref parts) ?n \<lparr>br_start = int ?a, br_end = int ?e - 1\<rparr> True = o'"
      unfolding r [symmetric] by (rule o)
    note E = streamObject_effect [OF this ae assms(1)]
    have "requested header ?X = slice ?a ?e ?X" using rng by (simp add: requested_def)
    then show ?thesis using E out by (auto split: sum.splits)
  next
    case all
    obtain o' where o: "streamObject Z io wr s (map chunk_ref parts) ?n \<lparr>br_start = int 0, br_end = int (length ?X) - 1\<rparr> False = o'" by simp
    have out: "out = (case o' of Inl e \<Rightarrow> Inl (GetRead e) | Inr g \<Rightarrow> Inr g)"
      using assms(2) all o by (auto simp: getObjectRange_def Let_def)
    note E = streamObject_effect [OF o _ _ assms(1)]
    have "requested header ?X = slice 0 (length ?X) ?X"
      using all by (auto simp: requested_def slice_def parseRangeSpec_def)
    then show ?thesis using E out by (auto split: sum.splits)
  qed
qed

section \<open>Properties\<close>

text \<open>
  A parsed \<^verbatim>\<open>Range\<close> header always lies inside the object: for an object of non-negative
  size, an accepted range is non-empty, starts at or after byte 0 and ends before the object's
  end, however large the numbers of the header are.
\<close>

theorem parsed_range_is_inside:
  assumes "parseRangeSpec header sz = Some (Some r)" and "0 \<le> sz"
  shows "0 \<le> br_start r \<and> br_start r \<le> br_end r \<and> br_end r < sz"
  using assms by (rule parseRangeSpec_bounds)

theorem parsed_range_is_inside_witness:
  "parseRangeSpec ''bytes=2-99'' 5 = Some (Some \<lparr>br_start = 2, br_end = 4\<rparr>) \<and> (2 :: int) \<le> 4 \<and> (4 :: int) < 5"
proof -
  have p: "parseRangeSpec ''bytes=2-99'' 5 = Some (Some \<lparr>br_start = 2, br_end = 4\<rparr>)" by code_simp
  from parsed_range_is_inside [OF p] p show ?thesis by simp
qed

text \<open>
  Batched pack reads are equivalent to single ones. A planned run is contiguous in one
  pack, holds at most \<open>packRunMaxRecords\<close> records and, beyond a single record, stays within
  the stored and decoded byte limits. If the pack opens and the one \<^verbatim>\<open>ReadAt\<close> delivers what the
  file has, the run returns for every record, errors included, exactly what reading that
  record alone through \<open>readPacked\<close> returns.
\<close>

theorem packed_run_equals_single_reads:
  assumes "planRun io m s i dg cst = Some (sums, locs)" and "i < length (mr_chunks m)"
    and "decodeHexSHA256 (cr_SHA256 (mr_chunks m ! i)) = Some dg"
    and "packRecordHeaderSize \<le> unat (pl_off (hd locs))" and "\<not> ri_open io (pl_pack (hd locs))"
    and "run_bytes locs \<le> ri_got io (unat (pl_off (hd locs)) - packRecordHeaderSize)"
  shows "packRun_read Z io s sums locs = map2 (\<lambda>d l. readPacked Z d l s) sums locs \<and> run_bounded locs"
proof -
  note pl = planRun_plan [OF assms(1-3)]
  have c: "locs \<noteq> []" "contiguous locs" "length sums = length locs"
    using pl by (simp_all add: run_bounded_def run_for_def)
  show ?thesis
  proof (intro conjI pl(2) nth_equalityI)
    show len: "length (packRun_read Z io s sums locs) = length (map2 (\<lambda>d l. readPacked Z d l s) sums locs)"
      using length_packRun_read [OF c(3)] c(3) by simp
    fix k assume "k < length (packRun_read Z io s sums locs)"
    then have k: "k < length locs" using length_packRun_read [OF c(3)] by simp
    have "packRun_read Z io s sums locs ! k = readPacked Z (sums ! k) (locs ! k) s"
      using packRun_read_single [OF c(2) k c(3) assms(4,5)] assms(6) by simp
    then show "packRun_read Z io s sums locs ! k = map2 (\<lambda>d l. readPacked Z d l s) sums locs ! k" using k c(3) by simp
  qed
qed

theorem packed_run_equals_single_reads_witness:
  "\<exists>st' l. withPack (newPackInfo ''a'' ''p'' 1 []) [\<lparr>pe_sha = 5, pe_off = 60, pe_stored = 1, pe_logical = 1, pe_codec = 0\<rparr>]
        (cs_packs empty_cas) = Inr st'
     \<and> packRun_read stored_flate whole_reads (empty_cas\<lparr>cs_packs := st'\<rparr>) [5] [l]
       = [readPacked stored_flate 5 l (empty_cas\<lparr>cs_packs := st'\<rparr>)]"
proof -
  let ?e = "\<lparr>pe_sha = 5, pe_off = 60, pe_stored = 1, pe_logical = 1, pe_codec = 0\<rparr> :: packEntry"
  let ?info = "newPackInfo ''a'' ''p'' 1 []" and ?st = "cs_packs empty_cas"
  let ?m = "newManifestReader [\<lparr>cr_SHA256 = hex_encode (digest_bytes 5), cr_Length = 1\<rparr>] \<lparr>br_start = 0, br_end = 0\<rparr>"
  let ?l = "entry_loc 0 (pi_tier ?info) ?e"
  have "snapshot_ok ?st" "ps_packs ?st = []" "ps_levels ?st = []"
    by (simp_all add: snapshot_ok_def all_recs_def uniform_def empty_cas_def)
  then obtain st' where w: "withPack ?info [?e] ?st = Inr st'" "ps_packs st' = [?info]" "set (appendLocs st' 5) = {?l}"
    using withPack_locs [of ?st ?info "[?e]"] by (auto simp: unat_packIdxMask maxPackedChunkBytes_def cdcMaxChunkSize_def
        agrees_def appendLocs_def)
  then obtain ls where ls: "appendLocs st' 5 = ?l # ls" by (cases "appendLocs st' 5") auto
  have p: "planRun whole_reads ?m (empty_cas\<lparr>cs_packs := st'\<rparr>) 0 5 0 = Some ([5], [?l])"
    using w(2) ls by (simp add: planRun_def newManifestReader_def packPrimary_def entry_loc_def newPackInfo_def)
  have "packRun_read stored_flate whole_reads (empty_cas\<lparr>cs_packs := st'\<rparr>) [5] [?l]
      = [readPacked stored_flate 5 ?l (empty_cas\<lparr>cs_packs := st'\<rparr>)]"
    by (rule trans [OF conjunct1 [OF packed_run_equals_single_reads [OF p]]])
       (simp_all add: newManifestReader_def entry_loc_def whole_reads_def packRecordHeaderSize_def run_bytes_def
         packRunMaxStored_def)
  with w(1) show ?thesis by blast
qed

text \<open>
  C19: A reader hands out verified bytes only. On every store, damaged or not, whatever calls
  failed before, each piece a reader returns is part of a chunk whose SHA-256 and length are
  those the manifest records for one of its chunks.
\<close>

theorem reader_serves_verified_pieces:
  assumes "reading Z s chunks m" and "mr_next Z io s m = (NextData d, m')"
  shows "\<exists>i < length chunks. \<exists>p lo hi. decodeHexSHA256 (cr_SHA256 (chunks ! i)) = Some (sha256 p)
    \<and> cr_Length (chunks ! i) = int (length p) \<and> d = slice lo hi p"
  using mr_next_pieces [OF assms(2)] reading_queue [OF assms(1)] by (simp add: piece_of_def)

theorem reader_serves_verified_pieces_witness:
  "\<exists>d m' p. mr_next stored_flate whole_reads (empty_cas\<lparr>cs_loose := fmupd (sha256 [7, 8]) [7, 8] fmempty\<rparr>)
       (newManifestReader [chunk_ref [7, 8]] \<lparr>br_start = 0, br_end = 1\<rparr>) = (NextData d, m')
     \<and> sha256 p = sha256 [7, 8] \<and> (\<exists>lo hi. d = slice lo hi p)"
proof -
  let ?s = "empty_cas\<lparr>cs_loose := fmupd (sha256 [7, 8]) [7, 8] fmempty\<rparr>"
  let ?m = "newManifestReader [chunk_ref [7, 8]] \<lparr>br_start = 0, br_end = 1\<rparr>"
  obtain d m' where n: "mr_next stored_flate whole_reads ?s ?m = (NextData d, m')"
    by (subst (asm) mr_next.simps) (auto simp: newManifestReader_def chunk_ref_def mr_chunk_def Let_def planRun_def empty_cas_def
        casRead_def casReadExcluding_def appendLocs_def readLooseCopy_def whole_reads_def)
  from reader_serves_verified_pieces [OF opened n] n show ?thesis by auto (metis)
qed

text \<open>
  C18: A GET serves the requested bytes. The object is the concatenation of \<open>parts\<close>, its
  manifest lists them, and what the store serves for their digests is them. Then, for every
  \<^verbatim>\<open>Range\<close> header and every pattern of failing opens, short reads, bad records and lost clients,
  a response announces the length of the requested bytes and its body is a prefix of them, and
  all of them when it is complete. If every part has a good copy whose loose file can be read
  and the client stays, the response is complete unless the range cannot be satisfied.
\<close>

theorem get_serves_the_requested_bytes:
  assumes "faithful Z s parts"
    and "getObjectRange Z io wr s (map chunk_ref parts) (int (length (concat parts))) header = out"
  shows "(\<forall>g. out = Inr g \<longrightarrow> gr_contentLength g = int (length (requested header (concat parts)))
      \<and> (\<exists>t. gr_body g @ t = requested header (concat parts)) \<and> (gr_complete g \<longrightarrow> gr_body g = requested header (concat parts)))
    \<and> (readable Z io s parts \<and> (\<forall>k. wr k = None) \<longrightarrow>
        (\<exists>g. out = Inr g \<and> gr_complete g) \<or> parseRangeSpec header (int (length (concat parts))) = Some None)"
  using assms by (rule getObjectRange_spec)

theorem get_serves_the_requested_bytes_witness:
  "\<exists>g. getObjectRange stored_flate whole_reads (\<lambda>_. None) (empty_cas\<lparr>cs_loose := fmupd (sha256 [7, 8, 9]) [7, 8, 9] fmempty\<rparr>)
        [chunk_ref [7, 8, 9]] 3 ''bytes=1-1'' = Inr g \<and> gr_body g = [8] \<and> gr_contentLength g = 1"
proof -
  let ?s = "empty_cas\<lparr>cs_loose := fmupd (sha256 [7, 8, 9]) [7, 8, 9] fmempty\<rparr>"
  have n: "appendLocs (cs_packs ?s) dg = []" for dg by (simp add: empty_cas_def appendLocs_def)
  have f: "faithful stored_flate ?s [[7, 8, 9]]" using n by (auto simp: faithful_def served_def)
  have r: "readable stored_flate whole_reads ?s [[7, 8, 9]]"
    by (auto simp: readable_def good_copy_def loose_good_def whole_reads_def)
  have p: "parseRangeSpec ''bytes=1-1'' 3 = Some (Some \<lparr>br_start = 1, br_end = 1\<rparr>)" by code_simp
  then have q: "requested ''bytes=1-1'' [7, 8, 9] = [8]" by (simp add: requested_def slice_def)
  from get_serves_the_requested_bytes [OF f refl, of whole_reads "\<lambda>_. None" "''bytes=1-1''"] r p q show ?thesis by auto
qed

end
