(* ===== verification/Objects.thy ===== *)
theory Objects
  imports Read
begin

text \<open>
  Objects end to end (\<^verbatim>\<open>zeros3.go\<close>, sections 5, 7, 7c, 9, 10, 10a, 10b and 11): manifest files,
  conditional requests, payload checksums, and the operations that put the namespace, the
  manifests and the chunk store together. Shown here: what a PUT leaves behind on every
  outcome, also if the body breaks off, that a GET returns the bytes a PUT stored, and that a copy shares the payload of
  its source.
\<close>

section \<open>Manifests\<close>

record man_codec =
  mc_marshal :: "manifestV1 \<Rightarrow> bytes option"
  mc_unmarshal :: "bytes \<Rightarrow> manifestV1 option"

text \<open>As for journal payloads, JSON replaces invalid UTF-8 in strings and keeps everything else.\<close>

definition coerce_manifest :: "manifestV1 \<Rightarrow> manifestV1" where
  "coerce_manifest m =
     m\<lparr>man_HashAlgorithm := utf8_coerce (man_HashAlgorithm m), man_ManifestUUID := utf8_coerce (man_ManifestUUID m),
       man_Chunks := map coerce_ref (man_Chunks m), man_ObjectSHA256 := utf8_coerce (man_ObjectSHA256 m),
       man_ETag := utf8_coerce (man_ETag m), man_ContentType := utf8_coerce (man_ContentType m),
       man_Metadata := map coerce_kv (man_Metadata m), man_VersionID := utf8_coerce (man_VersionID m)\<rparr>"

definition man_ok :: "man_codec \<Rightarrow> bool" where
  "man_ok M \<longleftrightarrow> (\<forall>m b. mc_marshal M m = Some b \<longrightarrow> mc_unmarshal M b = Some (coerce_manifest m))"

text \<open>
  The state of a server: the namespace with its journal, the chunk store, and the manifest
  files by id. \<^verbatim>\<open>writeFileDurable\<close> either leaves no file or the whole file; the sync of the
  directory can fail after the file is visible.
\<close>

record system =
  sy_store :: store
  sy_cas :: casState
  sy_manifests :: "(string, bytes) fmap"

datatype man_io = ManWriteFails | ManDirSyncFails | ManOk

definition writeFileDurable :: "bool \<Rightarrow> string \<Rightarrow> 'a \<Rightarrow> (string, 'a) fmap \<Rightarrow> (err + unit) \<times> (string, 'a) fmap" where
  "writeFileDurable fails path data files = (if fails then (Inl ErrIO, files) else (Inr (), fmupd path data files))"

definition publishManifest :: "man_codec \<Rightarrow> man_io \<Rightarrow> manifestV1 \<Rightarrow> system \<Rightarrow> (err + string \<times> digest) \<times> system" where
  "publishManifest M io m sy =
     (case mc_marshal M m of
        None \<Rightarrow> (Inl ErrMarshal, sy)
      | Some data \<Rightarrow>
          (case writeFileDurable (io = ManWriteFails) (man_ManifestUUID m) data (sy_manifests sy) of
             (Inl e, files) \<Rightarrow> (Inl e, sy\<lparr>sy_manifests := files\<rparr>)
           | (Inr _, files) \<Rightarrow>
               if io = ManDirSyncFails then (Inl ErrIO, sy\<lparr>sy_manifests := files\<rparr>)
               else (Inr (man_ManifestUUID m, sha256 data), sy\<lparr>sy_manifests := files\<rparr>)))"

definition readManifest :: "man_codec \<Rightarrow> (string \<Rightarrow> bool) \<Rightarrow> string \<Rightarrow> system \<Rightarrow> err + manifestV1 \<times> bytes" where
  "readManifest M fails i sy =
     (if fails i then Inl ErrIO
      else case fmlookup (sy_manifests sy) i of
        None \<Rightarrow> Inl ErrIO
      | Some data \<Rightarrow> (case mc_unmarshal M data of None \<Rightarrow> Inl ErrMarshal | Some m \<Rightarrow> Inr (m, data)))"

definition readVerifiedManifest :: "man_codec \<Rightarrow> (string \<Rightarrow> bool) \<Rightarrow> string \<Rightarrow> digest \<Rightarrow> system \<Rightarrow> err + manifestV1" where
  "readVerifiedManifest M fails i wantSHA sy =
     (case readManifest M fails i sy of
        Inl _ \<Rightarrow> Inl ErrManifestUnavailable
      | Inr (man, manBytes) \<Rightarrow> if sha256 manBytes \<noteq> wantSHA then Inl ErrManifestUnavailable else Inr man)"

definition HeadObject :: "man_codec \<Rightarrow> (string \<Rightarrow> bool) \<Rightarrow> string \<Rightarrow> string \<Rightarrow> system \<Rightarrow> err + objectEntry \<times> manifestV1" where
  "HeadObject M fails bucket key sy =
     bind_result (lookupObject bucket key (sy_store sy)) (\<lambda>obj.
       bind_result (readVerifiedManifest M fails (oe_manifestUUID obj) (oe_manifestSHA256 obj) sy) (\<lambda>man. Inr (obj, man)))"

section \<open>Conditional requests\<close>

record putCondition =
  pc_ifNoneMatchStar :: bool
  pc_ifMatchETag :: string

definition putCondition_isZero :: "putCondition \<Rightarrow> bool" where
  "putCondition_isZero cond \<longleftrightarrow> \<not> pc_ifNoneMatchStar cond \<and> pc_ifMatchETag cond = []"

definition putCondition_check :: "putCondition \<Rightarrow> objectEntry option \<Rightarrow> err + unit" where
  "putCondition_check cond cur =
     (if pc_ifNoneMatchStar cond then (if cur \<noteq> None then Inl ErrPreconditionFailed else Inr ())
      else if pc_ifMatchETag cond \<noteq> [] then
        (case cur of
           None \<Rightarrow> Inl ErrPreconditionFailed
         | Some e \<Rightarrow> if \<not> equal_fold (oe_etag e) (pc_ifMatchETag cond) then Inl ErrPreconditionFailed else Inr ())
      else Inr ())"

definition parseSingleETag :: "string \<Rightarrow> err + string" where
  "parseSingleETag raw =
     (if raw = ''*'' then Inl ErrConditionUnsupported
      else if CHR '','' \<in> set raw then Inl ErrConditionUnsupported
      else if has_prefix raw ''W/'' then Inl ErrConditionUnsupported
      else if length raw \<ge> 2 \<and> hd raw = CHR 0x22 \<and> last raw = CHR 0x22 then
        (let r = butlast (tl raw) in if r = [] then Inl ErrConditionMalformed else Inr r)
      else if CHR 0x22 \<in> set raw then Inl ErrConditionMalformed
      else if raw = [] then Inl ErrConditionMalformed else Inr raw)"

text \<open>The header values \<open>inm\<close> (\<^verbatim>\<open>If-None-Match\<close>) and \<open>im\<close> (\<^verbatim>\<open>If-Match\<close>) are already trimmed.\<close>

definition parsePutCondition :: "string \<Rightarrow> string \<Rightarrow> err + putCondition" where
  "parsePutCondition inm im =
     (if inm \<noteq> [] \<and> im \<noteq> [] then Inl ErrConditionUnsupported
      else if inm \<noteq> [] then
        (if inm \<noteq> ''*'' then Inl ErrConditionUnsupported else Inr \<lparr>pc_ifNoneMatchStar = True, pc_ifMatchETag = []\<rparr>)
      else if im \<noteq> [] then
        bind_result (parseSingleETag im) (\<lambda>etag. Inr \<lparr>pc_ifNoneMatchStar = False, pc_ifMatchETag = etag\<rparr>)
      else Inr \<lparr>pc_ifNoneMatchStar = False, pc_ifMatchETag = []\<rparr>)"

record getCondition =
  gc_ifMatchETag :: string
  gc_ifNoneMatchETag :: string

datatype getConditionOutcome = GetConditionProceed | GetConditionPreconditionFailed | GetConditionNotModified

definition evaluateGetCondition :: "getCondition \<Rightarrow> string \<Rightarrow> getConditionOutcome" where
  "evaluateGetCondition cond etag =
     (if gc_ifMatchETag cond \<noteq> [] \<and> \<not> equal_fold etag (gc_ifMatchETag cond) then GetConditionPreconditionFailed
      else if gc_ifNoneMatchETag cond \<noteq> [] \<and> equal_fold etag (gc_ifNoneMatchETag cond) then GetConditionNotModified
      else GetConditionProceed)"

definition parseGetCondition :: "string \<Rightarrow> string \<Rightarrow> err + getCondition" where
  "parseGetCondition im inm =
     bind_result (if im \<noteq> [] then parseSingleETag im else Inr []) (\<lambda>a.
       bind_result (if inm \<noteq> [] then parseSingleETag inm else Inr []) (\<lambda>b.
         Inr \<lparr>gc_ifMatchETag = a, gc_ifNoneMatchETag = b\<rparr>))"

section \<open>Payload checksums\<close>

record payloadCheck =
  ck_sha256 :: string
  ck_crc32 :: u32
  ck_hasCRC32 :: bool
  ck_md5 :: "bytes option"

datatype check_error = XAmzContentSHA256Mismatch | BadDigestCRC32 | BadDigestMD5

definition payloadCheck_verify :: "payloadCheck \<Rightarrow> digest \<Rightarrow> bytes \<Rightarrow> u32 \<Rightarrow> check_error + unit" where
  "payloadCheck_verify c bodySHA256 bodyMD5 bodyCRC32 =
     (if ck_sha256 c \<noteq> [] \<and> hex_encode (digest_bytes bodySHA256) \<noteq> ck_sha256 c then Inl XAmzContentSHA256Mismatch
      else if ck_hasCRC32 c \<and> bodyCRC32 \<noteq> ck_crc32 c then Inl BadDigestCRC32
      else if ck_md5 c \<noteq> None \<and> Some bodyMD5 \<noteq> ck_md5 c then Inl BadDigestMD5
      else Inr ())"

section \<open>PUT\<close>

text \<open>
  What the outside world decides during a PUT. \<open>pe_build\<close> is the clock and the fresh UUID when
  the manifest is built, \<open>pe_env\<close> those of the commit, which mints an id of its own for the
  version it archives.
\<close>

record put_env =
  pe_build :: env
  pe_env :: env
  pe_ios :: "nat \<Rightarrow> cas_io"
  pe_iof :: cas_io
  pe_man :: man_io

datatype put_error =
    PutStore err | PutManifest err | PutIngest ingest_error | PutCheck check_error | PutTooLarge

definition maxStreamedBodySize :: int where
  "maxStreamedBodySize = 5 * 2 ^ 30"

text \<open>
  The body reader is what \<^verbatim>\<open>http.MaxBytesReader\<close> delivers; \<open>body\<close> are the bytes that have passed
  the CRC tee when the ingest has read it to its end.
\<close>

definition ingestRequestBody ::
  "flate_codec \<Rightarrow> flate_codec option \<Rightarrow> put_env \<Rightarrow> 'r reader \<Rightarrow> 'r \<Rightarrow> bytes \<Rightarrow> int \<Rightarrow> payloadCheck \<Rightarrow> casState
    \<Rightarrow> ((put_error + ingestResult) \<times> casState) option" where
  "ingestRequestBody Z cmp pe rd r body contentLength check cas =
     (if contentLength > maxStreamedBodySize then Some (Inl PutTooLarge, cas)
      else case ingestStream Z cmp (pe_ios pe) (pe_iof pe) rd r True contentLength cas of
        None \<Rightarrow> None
      | Some (Inl e, cas1) \<Rightarrow> Some (Inl (PutIngest e), cas1)
      | Some (Inr ing, cas1) \<Rightarrow>
          let crc = (if ck_hasCRC32 check then crc32 crc_ieee body else 0) in
          (case payloadCheck_verify check (ing_objSHA256 ing) (ing_etagMD5 ing) crc of
             Inl e \<Rightarrow> Some (Inl (PutCheck e), cas1)
           | Inr _ \<Rightarrow> Some (Inr ing, cas1)))"

definition commitIngested ::
  "json_codec \<Rightarrow> man_codec \<Rightarrow> put_env \<Rightarrow> string \<Rightarrow> string \<Rightarrow> ingestResult \<Rightarrow> string \<Rightarrow> (string, string) fmap
    \<Rightarrow> putCondition \<Rightarrow> system \<Rightarrow> (put_error + objectEntry) \<times> system" where
  "commitIngested J M pe bucket key ing contentType metadata cond sy =
     (let man = buildManifestV1FromRefs (pe_build pe) (ing_chunks ing) (ing_size ing) (ing_objSHA256 ing)
                  (hex_encode (ing_etagMD5 ing)) contentType metadata in
      case publishManifest M (pe_man pe) man sy of
        (Inl e, sy1) \<Rightarrow> (Inl (PutManifest e), sy1)
      | (Inr (manUUID, manSHA), sy1) \<Rightarrow>
          (case (if putCondition_isZero cond
                 then commitObjectRoot J (pe_env pe) bucket key manUUID manSHA man (sy_store sy1)
                 else commitObjectRootChecked J (pe_env pe) bucket key manUUID manSHA man
                        (Some (putCondition_check cond)) (sy_store sy1)) of
             (Inl e, st) \<Rightarrow> (Inl (PutStore e), sy1\<lparr>sy_store := st\<rparr>)
           | (Inr entry, st) \<Rightarrow> (Inr entry, sy1\<lparr>sy_store := st\<rparr>)))"

text \<open>\<^verbatim>\<open>handlePutObject\<close> for a request that is not a copy, from the parsed headers on.\<close>

definition putObject ::
  "json_codec \<Rightarrow> man_codec \<Rightarrow> flate_codec \<Rightarrow> flate_codec option \<Rightarrow> put_env \<Rightarrow> 'r reader \<Rightarrow> 'r \<Rightarrow> bytes \<Rightarrow> int
    \<Rightarrow> payloadCheck \<Rightarrow> putCondition \<Rightarrow> string \<Rightarrow> string \<Rightarrow> string \<Rightarrow> (string, string) fmap \<Rightarrow> system
    \<Rightarrow> ((put_error + objectEntry) \<times> system) option" where
  "putObject J M Z cmp pe rd r body contentLength check cond bucket key contentType0 metadata sy =
     (let contentType = (if contentType0 = [] then ''application/octet-stream'' else contentType0) in
      case HeadBucket bucket (sy_store sy) of
        Inl e \<Rightarrow> Some (Inl (PutStore e), sy)
      | Inr _ \<Rightarrow>
          (case ingestRequestBody Z cmp pe rd r body contentLength check (sy_cas sy) of
             None \<Rightarrow> None
           | Some (Inl e, cas1) \<Rightarrow> Some (Inl e, sy\<lparr>sy_cas := cas1\<rparr>)
           | Some (Inr ing, cas1) \<Rightarrow>
               Some (commitIngested J M pe bucket key ing contentType metadata cond (sy\<lparr>sy_cas := cas1\<rparr>))))"

section \<open>GET and HEAD\<close>

datatype get_outcome =
    GetObjectErr err | GetPreconditionFailed | GetNotModified | GetRange "get_error + getResponse"

definition getObject ::
  "man_codec \<Rightarrow> flate_codec \<Rightarrow> read_io \<Rightarrow> (string \<Rightarrow> bool) \<Rightarrow> (nat \<Rightarrow> nat option) \<Rightarrow> getCondition \<Rightarrow> string \<Rightarrow> string \<Rightarrow> string
    \<Rightarrow> system \<Rightarrow> get_outcome" where
  "getObject M Z io fails wr cond rangeHeader bucket key sy =
     (case HeadObject M fails bucket key sy of
        Inl e \<Rightarrow> GetObjectErr e
      | Inr (entry, man) \<Rightarrow>
          (case evaluateGetCondition cond (oe_etag entry) of
             GetConditionPreconditionFailed \<Rightarrow> GetPreconditionFailed
           | GetConditionNotModified \<Rightarrow> GetNotModified
           | GetConditionProceed \<Rightarrow>
               GetRange (getObjectRange Z io wr (sy_cas sy) (man_Chunks man) (oe_size entry) rangeHeader)))"

section \<open>Copies and restores\<close>

datatype metadataDirective = MetadataDirectiveCopy | MetadataDirectiveReplace

record CopyObjectRequest =
  cq_SrcBucket :: string
  cq_SrcKey :: string
  cq_DstBucket :: string
  cq_DstKey :: string
  cq_Directive :: metadataDirective
  cq_ContentType :: string
  cq_Metadata :: "(string, string) fmap"
  cq_SrcIfMatchETag :: string
  cq_SrcIfNoneMatchETag :: string

text \<open>The loop that confirms that every chunk of a manifest is present, without reading any.\<close>

fun checkChunks :: "(digest \<Rightarrow> bool) \<Rightarrow> chunkRef list \<Rightarrow> casState \<Rightarrow> err + unit" where
  "checkChunks fails [] cas = Inr ()"
| "checkChunks fails (c # cs) cas =
     (case decodeHexSHA256 (cr_SHA256 c) of
        None \<Rightarrow> Inl ErrMalformedChunkRef
      | Some dg \<Rightarrow> (case casStat (fails dg) dg cas of Inl _ \<Rightarrow> Inl ErrChunkUnavailable | Inr _ \<Rightarrow> checkChunks fails cs cas))"

datatype copy_error = CopyErr err | CopyNoSuchDestinationBucket | CopyManifest err

definition CopyObject ::
  "json_codec \<Rightarrow> man_codec \<Rightarrow> put_env \<Rightarrow> (string \<Rightarrow> bool) \<Rightarrow> (digest \<Rightarrow> bool) \<Rightarrow> CopyObjectRequest \<Rightarrow> system
    \<Rightarrow> (copy_error + objectEntry \<times> manifestV1) \<times> system" where
  "CopyObject J M pe fails statFails req sy =
     (case lookupObject (cq_SrcBucket req) (cq_SrcKey req) (sy_store sy) of
        Inl e \<Rightarrow> (Inl (CopyErr e), sy)
      | Inr srcObj \<Rightarrow>
          if cq_SrcIfMatchETag req \<noteq> [] \<and> \<not> equal_fold (oe_etag srcObj) (cq_SrcIfMatchETag req) then (Inl (CopyErr ErrPreconditionFailed), sy)
          else if cq_SrcIfNoneMatchETag req \<noteq> [] \<and> equal_fold (oe_etag srcObj) (cq_SrcIfNoneMatchETag req)
            then (Inl (CopyErr ErrPreconditionFailed), sy)
          else (case readVerifiedManifest M fails (oe_manifestUUID srcObj) (oe_manifestSHA256 srcObj) sy of
              Inl e \<Rightarrow> (Inl (CopyErr e), sy)
            | Inr srcMan \<Rightarrow>
                (case checkChunks statFails (man_Chunks srcMan) (sy_cas sy) of
                   Inl e \<Rightarrow> (Inl (CopyErr e), sy)
                 | Inr _ \<Rightarrow>
                     if fmlookup (ns_buckets (s_ns (sy_store sy))) (cq_DstBucket req) = None then (Inl CopyNoSuchDestinationBucket, sy)
                     else
                       let ev = pe_env pe;
                           dst0 = srcMan\<lparr>man_ManifestUUID := e_uuid (pe_build pe), man_VersionID := e_uuid (pe_build pe),
                                        man_CreatedAt := e_now (pe_build pe)\<rparr>;
                           dstMan = (if cq_Directive req = MetadataDirectiveReplace
                                     then dst0\<lparr>man_ContentType := cq_ContentType req, man_Metadata := sortedMetadataKV (cq_Metadata req)\<rparr>
                                     else dst0) in
                       (case publishManifest M (pe_man pe) dstMan sy of
                          (Inl e, sy1) \<Rightarrow> (Inl (CopyManifest e), sy1)
                        | (Inr (manUUID, manSHA), sy1) \<Rightarrow>
                            (case commitObjectRoot J ev (cq_DstBucket req) (cq_DstKey req) manUUID manSHA dstMan (sy_store sy1) of
                               (Inl e, st) \<Rightarrow> (Inl (CopyErr e), sy1\<lparr>sy_store := st\<rparr>)
                             | (Inr entry, st) \<Rightarrow> (Inr (entry, dstMan), sy1\<lparr>sy_store := st\<rparr>))))))"

definition RestoreObjectVersion ::
  "json_codec \<Rightarrow> man_codec \<Rightarrow> env \<Rightarrow> (string \<Rightarrow> bool) \<Rightarrow> (digest \<Rightarrow> bool) \<Rightarrow> string \<Rightarrow> string \<Rightarrow> string \<Rightarrow> system
    \<Rightarrow> (err + objectEntry \<times> manifestV1) \<times> system" where
  "RestoreObjectVersion J M ev fails statFails bucket key versionID sy =
     (if fmlookup (ns_buckets (s_ns (sy_store sy))) bucket = None then (Inl ErrNoSuchBucket, sy)
      else case find (\<lambda>h. hv_versionID h = versionID) (history_of (s_ns (sy_store sy)) bucket key) of
        None \<Rightarrow> (Inl ErrNoSuchVersion, sy)
      | Some found \<Rightarrow>
          (case readVerifiedManifest M fails (hv_manifestUUID found) (hv_manifestSHA256 found) sy of
             Inl _ \<Rightarrow> (Inl ErrManifestUnavailable, sy)
           | Inr man \<Rightarrow>
               (case checkChunks statFails (man_Chunks man) (sy_cas sy) of
                  Inl e \<Rightarrow> (Inl e, sy)
                | Inr _ \<Rightarrow>
                    (case commitObjectRoot J ev bucket key (hv_manifestUUID found) (hv_manifestSHA256 found) man (sy_store sy) of
                       (Inl e, st) \<Rightarrow> (Inl e, sy\<lparr>sy_store := st\<rparr>)
                     | (Inr entry, st) \<Rightarrow> (Inr (entry, man), sy\<lparr>sy_store := st\<rparr>)))))"

section \<open>What the steps leave behind\<close>

text \<open>Manifest files are only added: every manifest that could be read still reads the same.\<close>

definition manifests_kept :: "system \<Rightarrow> system \<Rightarrow> bool" where
  "manifests_kept sy sy' \<longleftrightarrow> (\<forall>i data. fmlookup (sy_manifests sy) i = Some data \<longrightarrow> fmlookup (sy_manifests sy') i = Some data)"

lemma manifests_kept_refl [simp]: "sy_manifests sy' = sy_manifests sy \<Longrightarrow> manifests_kept sy sy'"
  by (simp add: manifests_kept_def)

lemma readVerifiedManifest_kept:
  "manifests_kept sy sy' \<Longrightarrow> readVerifiedManifest M fails i sha sy = Inr man \<Longrightarrow> readVerifiedManifest M fails i sha sy' = Inr man"
  by (auto simp: readVerifiedManifest_def readManifest_def manifests_kept_def split: if_splits option.splits)

lemma HeadObject_kept:
  assumes "manifests_kept sy sy'" "lookupObject bucket key (sy_store sy') = lookupObject bucket key (sy_store sy)"
    and "HeadObject M fails bucket key sy = Inr x"
  shows "HeadObject M fails bucket key sy' = Inr x"
  using assms(2,3) readVerifiedManifest_kept [OF assms(1)] by (auto simp: HeadObject_def)

lemma publishManifest_effect:
  assumes "publishManifest M io m sy = (r, sy')" "fmlookup (sy_manifests sy) (man_ManifestUUID m) = None"
  shows "manifests_kept sy sy'" "sy_store sy' = sy_store sy" "sy_cas sy' = sy_cas sy"
    "r = Inr (i, sha) \<Longrightarrow> man_ok M \<Longrightarrow> i = man_ManifestUUID m
      \<and> (\<not> fails i \<longrightarrow> readVerifiedManifest M fails i sha sy' = Inr (coerce_manifest m))"
proof -
  have "manifests_kept sy sy' \<and> sy_store sy' = sy_store sy \<and> sy_cas sy' = sy_cas sy \<and> (r = Inr (i, sha) \<longrightarrow> man_ok M
      \<longrightarrow> i = man_ManifestUUID m \<and> (\<not> fails i \<longrightarrow> readVerifiedManifest M fails i sha sy' = Inr (coerce_manifest m)))"
    using assms by (auto simp: publishManifest_def writeFileDurable_def manifests_kept_def readVerifiedManifest_def readManifest_def
        man_ok_def split: option.splits if_splits)
  then show "manifests_kept sy sy'" "sy_store sy' = sy_store sy" "sy_cas sy' = sy_cas sy"
    "r = Inr (i, sha) \<Longrightarrow> man_ok M \<Longrightarrow> i = man_ManifestUUID m
      \<and> (\<not> fails i \<longrightarrow> readVerifiedManifest M fails i sha sy' = Inr (coerce_manifest m))" by auto
qed

text \<open>A commit replaces one key when it succeeds and nothing otherwise.\<close>

lemma commitObjectRootChecked_effect:
  assumes "commitObjectRootChecked J ev bucket key i sha man check s = (r, s')"
  shows "r = Inl e \<Longrightarrow> s_ns s' = s_ns s"
    and "r = Inr entry \<Longrightarrow> (\<forall>bk k. lookupObject bk k s' = (if (bk, k) = (bucket, key) then Inr entry else lookupObject bk k s))
      \<and> oe_manifestUUID entry = i \<and> oe_manifestSHA256 entry = sha \<and> oe_size entry = man_TotalLength man \<and> oe_etag entry = man_ETag man
      \<and> (\<forall>c. check = Some c \<longrightarrow> is_ok (c (case lookupObject bucket key s of Inl _ \<Rightarrow> None | Inr e \<Rightarrow> Some e)))
      \<and> (\<exists>b. fmlookup (ns_buckets (s_ns s)) bucket = Some b)"
proof -
  have "(r = Inl e \<longrightarrow> s_ns s' = s_ns s) \<and> (r = Inr entry \<longrightarrow>
      (\<forall>bk k. lookupObject bk k s' = (if (bk, k) = (bucket, key) then Inr entry else lookupObject bk k s))
      \<and> oe_manifestUUID entry = i \<and> oe_manifestSHA256 entry = sha \<and> oe_size entry = man_TotalLength man \<and> oe_etag entry = man_ETag man
      \<and> (\<forall>c. check = Some c \<longrightarrow> is_ok (c (case lookupObject bucket key s of Inl _ \<Rightarrow> None | Inr e \<Rightarrow> Some e)))
      \<and> (\<exists>b. fmlookup (ns_buckets (s_ns s)) bucket = Some b))"
  proof (cases "fmlookup (ns_buckets (s_ns s)) bucket")
    case None
    then show ?thesis using assms by (auto simp: commitObjectRootChecked_def)
  next
    case (Some b)
    let ?cur = "fmlookup (be_objects b) key"
    have cur: "(case lookupObject bucket key s of Inl _ \<Rightarrow> None | Inr e \<Rightarrow> Some e) = ?cur"
      using Some by (auto simp: lookupObject_def split: option.splits)
    show ?thesis
    proof (cases "case check of None \<Rightarrow> Inr () | Some c \<Rightarrow> c ?cur")
      case (Inl x)
      then show ?thesis using assms Some by (auto simp: commitObjectRootChecked_def split: option.splits)
    next
      case (Inr u)
      let ?p = "PutV2P (commit_payload ev bucket key i sha man ?cur)"
      obtain q s1 where a: "appendRecord J (e_io ev) ?p s = (q, s1)" by fastforce
      note f = appendRecord_frame [OF a]
      have chk: "\<forall>c. check = Some c \<longrightarrow> is_ok (c ?cur)" using Inr by auto
      show ?thesis
      proof (cases q)
        case (Inl x)
        then show ?thesis using assms Some Inr a f by (auto simp: commitObjectRootChecked_def commit_payload_def Let_def)
      next
        case (Inr seq)
        let ?e = "\<lparr>oe_manifestUUID = i, oe_manifestSHA256 = sha, oe_size = man_TotalLength man, oe_etag = man_ETag man,
          oe_contentType = man_ContentType man, oe_seq = seq\<rparr>"
        let ?prev = "map_option (\<lambda>c. archivedVersionPayload ev c historyReasonOverwritten) ?cur"
        let ?ns1 = "setObject bucket b key ?e (s_ns s1)"
        obtain ns2 where ar: "archivePrevious bucket key seq ?prev ?ns1 = Inr ns2" using archivePrevious_ok by blast
        have res: "r = Inr ?e" "s' = s1\<lparr>s_ns := ns2\<rparr>"
          using assms Some \<open>(case check of None \<Rightarrow> Inr () | Some c \<Rightarrow> c ?cur) = Inr u\<close> a Inr ar
          by (simp_all add: commitObjectRootChecked_def commit_payload_def Let_def)
        have "ns_buckets ns2 = fmupd bucket (b\<lparr>be_objects := fmupd key ?e (be_objects b)\<rparr>) (ns_buckets (s_ns s))"
          using archivePrevious_buckets [OF ar] f by (simp add: setObject_def)
        then have "lookupObject bk k s' = (if (bk, k) = (bucket, key) then Inr ?e else lookupObject bk k s)" for bk k
          using Some by (auto simp: res(2) lookupObject_def split: option.splits)
        then show ?thesis using res(1) chk cur Some by auto
      qed
    qed
  qed
  then show "r = Inl e \<Longrightarrow> s_ns s' = s_ns s"
    and "r = Inr entry \<Longrightarrow> (\<forall>bk k. lookupObject bk k s' = (if (bk, k) = (bucket, key) then Inr entry else lookupObject bk k s))
      \<and> oe_manifestUUID entry = i \<and> oe_manifestSHA256 entry = sha \<and> oe_size entry = man_TotalLength man \<and> oe_etag entry = man_ETag man
      \<and> (\<forall>c. check = Some c \<longrightarrow> is_ok (c (case lookupObject bucket key s of Inl _ \<Rightarrow> None | Inr e \<Rightarrow> Some e)))
      \<and> (\<exists>b. fmlookup (ns_buckets (s_ns s)) bucket = Some b)" by auto
qed

text \<open>A manifest that is published and then committed as the root of a key, under any precondition.\<close>

lemma publish_commit_effect:
  assumes p: "publishManifest M io man sy = (Inr (i, sha), sy1)" and fresh: "fmlookup (sy_manifests sy) (man_ManifestUUID man) = None"
    and "man_ok M" and c: "commitObjectRootChecked J ev bucket key i sha man check (sy_store sy1) = (r, st)"
    and sy': "sy' = sy1\<lparr>sy_store := st\<rparr>"
  shows "manifests_kept sy sy'" "sy_cas sy' = sy_cas sy"
    "r = Inl e \<Longrightarrow> s_ns (sy_store sy') = s_ns (sy_store sy)"
    "r = Inr entry \<Longrightarrow> (\<forall>bk k. lookupObject bk k (sy_store sy') = (if (bk, k) = (bucket, key) then Inr entry else lookupObject bk k (sy_store sy)))
      \<and> (\<forall>ck. check = Some ck \<longrightarrow> is_ok (ck (case lookupObject bucket key (sy_store sy) of Inl _ \<Rightarrow> None | Inr e \<Rightarrow> Some e)))
      \<and> oe_size entry = man_TotalLength man \<and> oe_etag entry = man_ETag man
      \<and> (\<forall>fails. \<not> fails (man_ManifestUUID man) \<longrightarrow> HeadObject M fails bucket key sy' = Inr (entry, coerce_manifest man))"
proof -
  note P = publishManifest_effect [OF p fresh]
  note R = P(4) [OF refl assms(3)]
  have mk: "manifests_kept sy sy'" "manifests_kept sy1 sy'" using P(1) by (simp_all add: sy' manifests_kept_def)
  have st: "sy_store sy' = st" "sy_cas sy' = sy_cas sy" using P(3) by (simp_all add: sy')
  show "manifests_kept sy sy'" "sy_cas sy' = sy_cas sy" using mk st by simp_all
  show "s_ns (sy_store sy') = s_ns (sy_store sy)" if "r = Inl e"
    using P(2) commitObjectRootChecked_effect(1) [OF c that] by (simp add: st)
  show "(\<forall>bk k. lookupObject bk k (sy_store sy') = (if (bk, k) = (bucket, key) then Inr entry else lookupObject bk k (sy_store sy)))
      \<and> (\<forall>ck. check = Some ck \<longrightarrow> is_ok (ck (case lookupObject bucket key (sy_store sy) of Inl _ \<Rightarrow> None | Inr e \<Rightarrow> Some e)))
      \<and> oe_size entry = man_TotalLength man \<and> oe_etag entry = man_ETag man
      \<and> (\<forall>fails. \<not> fails (man_ManifestUUID man) \<longrightarrow> HeadObject M fails bucket key sy' = Inr (entry, coerce_manifest man))"
    if r: "r = Inr entry"
  proof -
    note C = commitObjectRootChecked_effect(2) [OF c r, unfolded P(2)]
    have rv: "readVerifiedManifest M fails (oe_manifestUUID entry) sha sy' = Inr (coerce_manifest man)"
      if "\<not> fails (man_ManifestUUID man)" for fails
      using readVerifiedManifest_kept [OF mk(2)] R [of fails] C that by metis
    have "HeadObject M fails bucket key sy' = Inr (entry, coerce_manifest man)" if "\<not> fails (man_ManifestUUID man)" for fails
      using C rv [of fails, OF that] by (simp add: HeadObject_def st)
    then show ?thesis using C by (simp add: st)
  qed
qed

lemma commitIngested_effect:
  assumes "commitIngested J M pe bucket key ing ct md cond sy = (r, sy')" "fmlookup (sy_manifests sy) (e_uuid (pe_build pe)) = None"
    and "man_ok M"
  shows "manifests_kept sy sy'" "sy_cas sy' = sy_cas sy"
    "r = Inl e \<Longrightarrow> s_ns (sy_store sy') = s_ns (sy_store sy)"
    "r = Inr entry \<Longrightarrow> (\<forall>bk k. lookupObject bk k (sy_store sy') = (if (bk, k) = (bucket, key) then Inr entry else lookupObject bk k (sy_store sy)))
      \<and> is_ok (putCondition_check cond (case lookupObject bucket key (sy_store sy) of Inl _ \<Rightarrow> None | Inr e \<Rightarrow> Some e))
      \<and> oe_size entry = ing_size ing \<and> oe_etag entry = hex_encode (ing_etagMD5 ing)
      \<and> (\<forall>fails. \<not> fails (e_uuid (pe_build pe)) \<longrightarrow> HeadObject M fails bucket key sy' = Inr (entry, coerce_manifest
          (buildManifestV1FromRefs (pe_build pe) (ing_chunks ing) (ing_size ing) (ing_objSHA256 ing) (hex_encode (ing_etagMD5 ing)) ct md)))"
proof -
  let ?man = "buildManifestV1FromRefs (pe_build pe) (ing_chunks ing) (ing_size ing) (ing_objSHA256 ing) (hex_encode (ing_etagMD5 ing)) ct md"
  have id: "man_ManifestUUID ?man = e_uuid (pe_build pe)" "man_TotalLength ?man = ing_size ing" "man_ETag ?man = hex_encode (ing_etagMD5 ing)"
    by (simp_all add: buildManifestV1FromRefs_def)
  obtain q sy1 where p: "publishManifest M (pe_man pe) ?man sy = (q, sy1)" by fastforce
  note P = publishManifest_effect [OF p assms(2) [folded id(1)]]
  have "manifests_kept sy sy' \<and> sy_cas sy' = sy_cas sy \<and> (r = Inl e \<longrightarrow> s_ns (sy_store sy') = s_ns (sy_store sy))
    \<and> (r = Inr entry \<longrightarrow> (\<forall>bk k. lookupObject bk k (sy_store sy') = (if (bk, k) = (bucket, key) then Inr entry else lookupObject bk k (sy_store sy)))
      \<and> is_ok (putCondition_check cond (case lookupObject bucket key (sy_store sy) of Inl _ \<Rightarrow> None | Inr e \<Rightarrow> Some e))
      \<and> oe_size entry = ing_size ing \<and> oe_etag entry = hex_encode (ing_etagMD5 ing)
      \<and> (\<forall>fails. \<not> fails (e_uuid (pe_build pe)) \<longrightarrow> HeadObject M fails bucket key sy' = Inr (entry, coerce_manifest ?man)))"
  proof (cases q)
    case (Inl x)
    then have "r = Inl (PutManifest x)" "sy' = sy1" using assms(1) p by (simp_all add: commitIngested_def Let_def)
    then show ?thesis using P(1-3) by simp
  next
    case (Inr isp)
    obtain i sha where isp: "isp = (i, sha)" by fastforce
    define check where "check = (if putCondition_isZero cond then None else Some (putCondition_check cond))"
    obtain r2 st where c: "commitObjectRootChecked J (pe_env pe) bucket key i sha ?man check (sy_store sy1) = (r2, st)" by fastforce
    have res: "(r, sy') = (case r2 of Inl e \<Rightarrow> (Inl (PutStore e), sy1\<lparr>sy_store := st\<rparr>) | Inr entry \<Rightarrow> (Inr entry, sy1\<lparr>sy_store := st\<rparr>))"
      using assms(1) p Inr isp c by (auto simp: commitIngested_def Let_def commitObjectRoot_def check_def split: sum.splits if_splits)
    then have sy': "sy' = sy1\<lparr>sy_store := st\<rparr>" by (auto split: sum.splits)
    note E = publish_commit_effect [OF p [unfolded Inr isp] assms(2) [folded id(1)] assms(3) c sy']
    have z: "is_ok (putCondition_check cond cur)" if "check = None" for cur
      using that by (auto simp: check_def putCondition_isZero_def putCondition_check_def split: if_splits)
    show ?thesis
    proof (cases r2)
      case (Inl x)
      then show ?thesis using res E(1,2) E(3) [OF Inl] by simp
    next
      case (Inr en)
      then have "r = Inr en" using res by simp
      with E(1,2) E(4) [OF Inr] z show ?thesis by (cases "check = None") (auto simp: id check_def split: if_splits)
    qed
  qed
  then show "manifests_kept sy sy'" "sy_cas sy' = sy_cas sy" "r = Inl e \<Longrightarrow> s_ns (sy_store sy') = s_ns (sy_store sy)"
    "r = Inr entry \<Longrightarrow> (\<forall>bk k. lookupObject bk k (sy_store sy') = (if (bk, k) = (bucket, key) then Inr entry else lookupObject bk k (sy_store sy)))
      \<and> is_ok (putCondition_check cond (case lookupObject bucket key (sy_store sy) of Inl _ \<Rightarrow> None | Inr e \<Rightarrow> Some e))
      \<and> oe_size entry = ing_size ing \<and> oe_etag entry = hex_encode (ing_etagMD5 ing)
      \<and> (\<forall>fails. \<not> fails (e_uuid (pe_build pe)) \<longrightarrow> HeadObject M fails bucket key sy' = Inr (entry, coerce_manifest ?man))" by auto
qed

lemma coerce_chunk_refs [simp]: "map coerce_ref (map chunk_ref cs) = map chunk_ref cs"
  by (simp add: coerce_ref_def chunk_ref_def utf8_valid_hex [unfolded utf8_valid_def])

text \<open>The body is what the payload checks of the request declare it to be.\<close>

definition body_declared :: "payloadCheck \<Rightarrow> bytes \<Rightarrow> bool" where
  "body_declared check xs \<longleftrightarrow> (ck_sha256 check \<noteq> [] \<longrightarrow> ck_sha256 check = hex_encode (digest_bytes (sha256 xs)))
     \<and> (ck_hasCRC32 check \<longrightarrow> ck_crc32 check = crc32 crc_ieee xs)
     \<and> (\<forall>m. ck_md5 check = Some m \<longrightarrow> m = md5 xs)"

lemma payloadCheck_verify_ok:
  "payloadCheck_verify check (sha256 xs) (md5 xs) (if ck_hasCRC32 check then crc32 crc_ieee xs else 0) = Inr () \<longleftrightarrow> body_declared check xs"
  by (cases "ck_md5 check") (auto simp: payloadCheck_verify_def body_declared_def)

definition current :: "string \<Rightarrow> string \<Rightarrow> system \<Rightarrow> objectEntry option" where
  "current bucket key sy = (case lookupObject bucket key (sy_store sy) of Inl _ \<Rightarrow> None | Inr e \<Rightarrow> Some e)"

text \<open>A precondition held on the entry a key shows.\<close>

definition condition_held :: "putCondition \<Rightarrow> objectEntry option \<Rightarrow> bool" where
  "condition_held cond cur \<longleftrightarrow> (pc_ifNoneMatchStar cond \<longrightarrow> cur = None)
     \<and> (\<not> pc_ifNoneMatchStar cond \<and> pc_ifMatchETag cond \<noteq> [] \<longrightarrow> (\<exists>e. cur = Some e \<and> equal_fold (oe_etag e) (pc_ifMatchETag cond)))"

lemma putCondition_check_ok: "is_ok (putCondition_check cond cur) \<longleftrightarrow> condition_held cond cur"
  by (cases cur) (auto simp: putCondition_check_def condition_held_def)

text \<open>What a request body leaves in the chunk store.\<close>

definition body_stored :: "flate_codec \<Rightarrow> bytes \<Rightarrow> casState \<Rightarrow> bool" where
  "body_stored Z xs s \<longleftrightarrow> (\<forall>ch \<in> set (cdcChunks xs). \<exists>d. casRead Z False (sha256 ch) s = Inr d \<and> sha256 d = sha256 ch)"

text \<open>
  What the outside of a PUT promises: the reader delivers the body, the file system commits in
  the order it is told to, and the UUID of the manifest is fresh. For a direct pack, the packs
  on disk and those the body can form have unique names.
\<close>

definition put_outside :: "flate_codec option \<Rightarrow> bytes set \<Rightarrow> put_env \<Rightarrow> 'r reader \<Rightarrow> 'r \<Rightarrow> bytes \<Rightarrow> int \<Rightarrow> system \<Rightarrow> bool" where
  "put_outside cmp B pe rd r xs n sy \<longleftrightarrow> delivers rd r xs \<and> (\<forall>k. order_ok (pe_ios pe k)) \<and> order_ok (pe_iof pe)
     \<and> fmlookup (sy_manifests sy) (e_uuid (pe_build pe)) = None
     \<and> (directPack n \<longrightarrow> packs_ok B (sy_cas sy) \<and> pack_names B
          \<and> packs_of cmp (set (cdcChunks xs)) \<subseteq> B)"

lemma ingestRequestBody_spec:
  assumes "put_outside cmp B pe rd r xs n sy" "healthy Z (sy_cas sy)" "staged_ok [] (sy_cas sy)"
  shows "\<exists>out s'. ingestRequestBody Z cmp pe rd r xs n check (sy_cas sy) = Some (out, s')
    \<and> healthy Z s' \<and> (\<forall>dg. stored dg (sy_cas sy) \<longrightarrow> stored dg s')
    \<and> (\<forall>ing. out = Inr ing \<longrightarrow> ing_chunks ing = map chunk_ref (cdcChunks xs) \<and> ing_size ing = int (length xs)
         \<and> ing_objSHA256 ing = sha256 xs \<and> ing_etagMD5 ing = md5 xs \<and> body_stored Z xs s' \<and> body_declared check xs)"
proof (cases "n > maxStreamedBodySize")
  case True
  then show ?thesis using assms(2) by (auto simp: ingestRequestBody_def)
next
  case False
  have del: "delivers rd r xs" "\<And>k. order_ok (pe_ios pe k)" "order_ok (pe_iof pe)"
    and dp: "directPack n \<Longrightarrow> packs_ok B (sy_cas sy) \<and> pack_names B \<and> packs_of cmp (set (cdcChunks xs)) \<subseteq> B"
    using assms(1) by (simp_all add: put_outside_def)
  have "\<exists>out s'. ingestStream Z cmp (pe_ios pe) (pe_iof pe) rd r True n (sy_cas sy) = Some (out, s')
    \<and> healthy Z s' \<and> (\<forall>dg. stored dg (sy_cas sy) \<longrightarrow> stored dg s')
    \<and> (\<forall>res. out = Inr res \<longrightarrow> ing_chunks res = map chunk_ref (cdcChunks xs) \<and> ing_size res = int (length xs)
      \<and> ing_objSHA256 res = sha256 xs \<and> (True \<longrightarrow> ing_etagMD5 res = md5 xs)
      \<and> (\<forall>ch \<in> set (cdcChunks xs). \<exists>d. casRead Z False (sha256 ch) s' = Inr d \<and> sha256 d = sha256 ch))"
    using del assms(2,3) dp by (rule ingestStream_spec)
  then obtain out s' where o: "ingestStream Z cmp (pe_ios pe) (pe_iof pe) rd r True n (sy_cas sy) = Some (out, s')"
    and h: "healthy Z s'" "\<forall>dg. stored dg (sy_cas sy) \<longrightarrow> stored dg s'"
    and res: "\<forall>res. out = Inr res \<longrightarrow> ing_chunks res = map chunk_ref (cdcChunks xs) \<and> ing_size res = int (length xs)
      \<and> ing_objSHA256 res = sha256 xs \<and> (True \<longrightarrow> ing_etagMD5 res = md5 xs)
      \<and> (\<forall>ch \<in> set (cdcChunks xs). \<exists>d. casRead Z False (sha256 ch) s' = Inr d \<and> sha256 d = sha256 ch)"
    by blast
  show ?thesis
  proof (cases out)
    case (Inl e)
    then show ?thesis using False o h by (simp add: ingestRequestBody_def)
  next
    case (Inr ing)
    then show ?thesis using False o h res payloadCheck_verify_ok [of check xs]
      by (cases "payloadCheck_verify check (sha256 xs) (md5 xs) (if ck_hasCRC32 check then crc32 crc_ieee xs else 0)")
         (simp_all add: ingestRequestBody_def body_stored_def Let_def)
  qed
qed

text \<open>
  The same promise without the reader: either it delivers the body, or it breaks off after the
  bytes \<open>xs\<close>, as when the client disconnects or \<^verbatim>\<open>http.MaxBytesReader\<close> stops an overlong body.
\<close>

definition put_request :: "flate_codec option \<Rightarrow> bytes set \<Rightarrow> put_env \<Rightarrow> 'r reader \<Rightarrow> 'r \<Rightarrow> bytes \<Rightarrow> bool \<Rightarrow> int \<Rightarrow> system \<Rightarrow> bool" where
  "put_request cmp B pe rd r xs whole n sy \<longleftrightarrow> (if whole then delivers rd r xs else breaks_off rd r xs)
     \<and> (\<forall>k. order_ok (pe_ios pe k)) \<and> order_ok (pe_iof pe)
     \<and> fmlookup (sy_manifests sy) (e_uuid (pe_build pe)) = None
     \<and> (directPack n \<longrightarrow> packs_ok B (sy_cas sy) \<and> pack_names B
          \<and> packs_of cmp (set (cdcChunks xs)) \<subseteq> B)"

lemma put_request_whole [simp]: "put_request cmp B pe rd r xs True n sy = put_outside cmp B pe rd r xs n sy"
  by (simp add: put_request_def put_outside_def)

lemma ingestRequestBody_broken:
  assumes "put_request cmp B pe rd r xs False n sy" "healthy Z (sy_cas sy)" "staged_ok [] (sy_cas sy)"
  shows "\<exists>e s'. ingestRequestBody Z cmp pe rd r body n check (sy_cas sy) = Some (Inl e, s')
    \<and> healthy Z s' \<and> (\<forall>dg. stored dg (sy_cas sy) \<longrightarrow> stored dg s')"
proof (cases "n > maxStreamedBodySize")
  case True
  then show ?thesis using assms(2) by (auto simp: ingestRequestBody_def)
next
  case False
  have br: "breaks_off rd r xs" and ord: "\<And>k. order_ok (pe_ios pe k)"
    and dp: "directPack n \<Longrightarrow> packs_ok B (sy_cas sy) \<and> pack_names B \<and> packs_of cmp (set (cdcChunks xs)) \<subseteq> B"
    using assms(1) by (simp_all add: put_request_def)
  obtain e s' where "ingestStream Z cmp (pe_ios pe) (pe_iof pe) rd r True n (sy_cas sy) = Some (Inl e, s')"
    "healthy Z s'" "\<forall>dg. stored dg (sy_cas sy) \<longrightarrow> stored dg s'"
    using ingestStream_broken [where ios = "pe_ios pe" and iof = "pe_iof pe" and sz = n and ?withMD5.0 = True and cmp = cmp
        and B = B, OF br ord assms(2,3) dp] by blast
  then show ?thesis using False by (simp add: ingestRequestBody_def)
qed

text \<open>What a PUT leaves behind, on every outcome.\<close>

definition put_effect ::
  "man_codec \<Rightarrow> flate_codec \<Rightarrow> put_env \<Rightarrow> bytes \<Rightarrow> payloadCheck \<Rightarrow> putCondition \<Rightarrow> string \<Rightarrow> string \<Rightarrow> system
    \<Rightarrow> put_error + objectEntry \<Rightarrow> system \<Rightarrow> bool" where
  "put_effect M Z pe xs check cond bucket key sy out sy' \<longleftrightarrow>
     manifests_kept sy sy' \<and> healthy Z (sy_cas sy') \<and> (\<forall>dg. stored dg (sy_cas sy) \<longrightarrow> stored dg (sy_cas sy'))
     \<and> (\<forall>e. out = Inl e \<longrightarrow> s_ns (sy_store sy') = s_ns (sy_store sy))
     \<and> (\<forall>entry. out = Inr entry \<longrightarrow>
          (\<forall>bk k. lookupObject bk k (sy_store sy') = (if (bk, k) = (bucket, key) then Inr entry else lookupObject bk k (sy_store sy)))
          \<and> condition_held cond (current bucket key sy) \<and> body_declared check xs \<and> body_stored Z xs (sy_cas sy')
          \<and> oe_size entry = int (length xs) \<and> oe_etag entry = hex_encode (md5 xs)
          \<and> (\<forall>fails. \<not> fails (e_uuid (pe_build pe)) \<longrightarrow> (\<exists>man. HeadObject M fails bucket key sy' = Inr (entry, man)
                \<and> man_Chunks man = map chunk_ref (cdcChunks xs) \<and> man_TotalLength man = int (length xs))))"

lemma putObject_spec:
  assumes "put_outside cmp B pe rd r xs n sy" "healthy Z (sy_cas sy)" "staged_ok [] (sy_cas sy)" "man_ok M"
  shows "\<exists>out sy'. putObject J M Z cmp pe rd r xs n check cond bucket key ct md sy = Some (out, sy')
    \<and> put_effect M Z pe xs check cond bucket key sy out sy'"
proof (cases "HeadBucket bucket (sy_store sy)")
  case (Inl e)
  then show ?thesis using assms(2) by (simp add: putObject_def put_effect_def Let_def)
next
  case (Inr u)
  from ingestRequestBody_spec [OF assms(1-3), of check]
  obtain q s' where i: "ingestRequestBody Z cmp pe rd r xs n check (sy_cas sy) = Some (q, s')"
    and h: "healthy Z s'" "\<forall>dg. stored dg (sy_cas sy) \<longrightarrow> stored dg s'"
    and res: "\<forall>ing. q = Inr ing \<longrightarrow> ing_chunks ing = map chunk_ref (cdcChunks xs) \<and> ing_size ing = int (length xs)
         \<and> ing_objSHA256 ing = sha256 xs \<and> ing_etagMD5 ing = md5 xs \<and> body_stored Z xs s' \<and> body_declared check xs"
    by blast
  show ?thesis
  proof (cases q)
    case (Inl e)
    then show ?thesis using Inr i h by (simp add: putObject_def put_effect_def Let_def)
  next
    case (Inr ing)
    let ?ct = "if ct = [] then ''application/octet-stream'' else ct"
    let ?sy1 = "sy\<lparr>sy_cas := s'\<rparr>"
    obtain out sy' where c: "commitIngested J M pe bucket key ing ?ct md cond ?sy1 = (out, sy')" by fastforce
    have fresh: "fmlookup (sy_manifests ?sy1) (e_uuid (pe_build pe)) = None" using assms(1) by (simp add: put_outside_def)
    note E = commitIngested_effect [OF c fresh assms(4)]
    have mk: "manifests_kept sy sy'" using E(1) by (simp add: manifests_kept_def)
    have p: "putObject J M Z cmp pe rd r xs n check cond bucket key ct md sy = Some (out, sy')"
      using \<open>HeadBucket bucket (sy_store sy) = Inr u\<close> i Inr c by (simp add: putObject_def Let_def)
    have cas: "sy_cas sy' = s'" using E(2) by simp
    note I = res [rule_format, OF Inr]
    have "put_effect M Z pe xs check cond bucket key sy out sy'"
    proof (cases out)
      case (Inl e)
      then show ?thesis using E(3) [OF Inl] mk cas h by (simp add: put_effect_def)
    next
      case (Inr entry)
      note F = E(4) [OF Inr]
      let ?man = "coerce_manifest (buildManifestV1FromRefs (pe_build pe) (ing_chunks ing) (ing_size ing) (ing_objSHA256 ing)
        (hex_encode (ing_etagMD5 ing)) ?ct md)"
      have m: "man_Chunks ?man = map chunk_ref (cdcChunks xs)" "man_TotalLength ?man = int (length xs)"
        using I coerce_chunk_refs [of "cdcChunks xs"] by (simp_all add: coerce_manifest_def buildManifestV1FromRefs_def del: map_map)
      have head: "\<forall>fails. \<not> fails (e_uuid (pe_build pe)) \<longrightarrow> (\<exists>man. HeadObject M fails bucket key sy' = Inr (entry, man)
          \<and> man_Chunks man = map chunk_ref (cdcChunks xs) \<and> man_TotalLength man = int (length xs))"
        using F m by blast
      from F I have "oe_size entry = int (length xs)" "oe_etag entry = hex_encode (md5 xs)"
        "condition_held cond (current bucket key sy)"
        "\<forall>bk k. lookupObject bk k (sy_store sy') = (if (bk, k) = (bucket, key) then Inr entry else lookupObject bk k (sy_store sy))"
        by (simp_all add: current_def putCondition_check_ok [symmetric])
      with I head mk cas h Inr show ?thesis unfolding put_effect_def by simp
    qed
    with p show ?thesis by blast
  qed
qed

lemma putObject_broken:
  assumes "put_request cmp B pe rd r xs False n sy" "healthy Z (sy_cas sy)" "staged_ok [] (sy_cas sy)"
  shows "\<exists>e sy'. putObject J M Z cmp pe rd r body n check cond bucket key ct md sy = Some (Inl e, sy')
    \<and> put_effect M Z pe xs check cond bucket key sy (Inl e) sy'"
proof (cases "HeadBucket bucket (sy_store sy)")
  case (Inl e)
  then show ?thesis using assms(2) by (simp add: putObject_def put_effect_def Let_def)
next
  case (Inr u)
  from ingestRequestBody_broken [OF assms, of body check]
  obtain e s' where "ingestRequestBody Z cmp pe rd r body n check (sy_cas sy) = Some (Inl e, s')"
    "healthy Z s'" "\<forall>dg. stored dg (sy_cas sy) \<longrightarrow> stored dg s'" by blast
  then show ?thesis using Inr by (simp add: putObject_def put_effect_def Let_def)
qed

text \<open>Both kinds of reader, for a PUT that has returned.\<close>

lemma putObject_request:
  assumes "put_request cmp B pe rd r xs whole n sy" "healthy Z (sy_cas sy)" "staged_ok [] (sy_cas sy)" "man_ok M"
    and "putObject J M Z cmp pe rd r xs n check cond bucket key ct md sy = Some (out, sy')"
  shows "put_effect M Z pe xs check cond bucket key sy out sy' \<and> (whole \<or> (\<exists>e. out = Inl e))"
proof (cases whole)
  case True
  have "put_outside cmp B pe rd r xs n sy" using assms(1) True by simp
  from putObject_spec [OF this assms(2-4), of J check cond bucket key ct md] assms(5) True show ?thesis by simp
next
  case False
  then have "put_request cmp B pe rd r xs False n sy" using assms(1) by simp
  from putObject_broken [OF this assms(2,3), of J M xs check cond bucket key ct md] assms(5) show ?thesis by auto
qed

section \<open>Copies share the payload of their source\<close>

lemma hex_value_ascii: "hex_value c = Some n \<Longrightarrow> of_char c < (128::nat)"
  by (auto simp: hex_value_def Let_def split: if_splits)

lemma hex_decode_ascii: "hex_decode s = Some b \<Longrightarrow> list_all (\<lambda>c. of_char c < (128::nat)) s"
  by (induction s arbitrary: b rule: hex_decode.induct) (auto split: option.splits dest: hex_value_ascii)

lemma decodeHexSHA256_utf8: "decodeHexSHA256 s = Some dg \<Longrightarrow> utf8_coerce s = s"
  using utf8_valid_ascii [OF hex_decode_ascii] by (auto simp: decodeHexSHA256_def utf8_valid_def split: option.splits)

text \<open>Every chunk of a checked manifest is present, and JSON does not change its references.\<close>

lemma checkChunks_ok:
  "checkChunks fails cs cas = Inr u \<Longrightarrow> c \<in> set cs \<Longrightarrow> \<exists>dg. decodeHexSHA256 (cr_SHA256 c) = Some dg \<and> stored dg cas"
proof (induction cs)
  case (Cons a cs)
  show ?case
  proof (cases "c = a")
    case True
    obtain dg y where "decodeHexSHA256 (cr_SHA256 a) = Some dg" "casStatLocked (fails dg) dg cas = Inr y"
      using Cons.prems(1) by (auto simp: casStat_def split: option.splits sum.splits)
    then show ?thesis using casStatLocked_ok [of "fails dg" dg cas] True by auto
  next
    case False
    then show ?thesis using Cons by (auto split: option.splits sum.splits)
  qed
qed simp

lemma checkChunks_coerce: "checkChunks fails cs cas = Inr u \<Longrightarrow> map coerce_ref cs = cs"
  by (rule map_idI) (auto simp: coerce_ref_def dest!: checkChunks_ok decodeHexSHA256_utf8)

definition copy_effect ::
  "man_codec \<Rightarrow> put_env \<Rightarrow> (string \<Rightarrow> bool) \<Rightarrow> CopyObjectRequest \<Rightarrow> system \<Rightarrow> copy_error + objectEntry \<times> manifestV1 \<Rightarrow> system \<Rightarrow> bool" where
  "copy_effect M pe fails req sy out sy' \<longleftrightarrow>
     manifests_kept sy sy' \<and> sy_cas sy' = sy_cas sy
     \<and> (\<forall>e. out = Inl e \<longrightarrow> s_ns (sy_store sy') = s_ns (sy_store sy))
     \<and> (\<forall>entry man. out = Inr (entry, man) \<longrightarrow>
          (\<forall>bk k. lookupObject bk k (sy_store sy')
             = (if (bk, k) = (cq_DstBucket req, cq_DstKey req) then Inr entry else lookupObject bk k (sy_store sy)))
          \<and> (\<exists>srcObj srcMan. HeadObject M fails (cq_SrcBucket req) (cq_SrcKey req) sy = Inr (srcObj, srcMan)
             \<and> (cq_SrcIfMatchETag req \<noteq> [] \<longrightarrow> equal_fold (oe_etag srcObj) (cq_SrcIfMatchETag req))
             \<and> (cq_SrcIfNoneMatchETag req \<noteq> [] \<longrightarrow> \<not> equal_fold (oe_etag srcObj) (cq_SrcIfNoneMatchETag req))
             \<and> oe_size entry = man_TotalLength srcMan \<and> oe_etag entry = man_ETag srcMan
             \<and> (\<forall>c \<in> set (man_Chunks srcMan). \<exists>dg. decodeHexSHA256 (cr_SHA256 c) = Some dg \<and> stored dg (sy_cas sy))
             \<and> (\<forall>fails'. \<not> fails' (e_uuid (pe_build pe)) \<longrightarrow>
                  (\<exists>dm. HeadObject M fails' (cq_DstBucket req) (cq_DstKey req) sy' = Inr (entry, dm)
                     \<and> man_Chunks dm = man_Chunks srcMan))))"


lemma CopyObject_spec:
  assumes "CopyObject J M pe fails statFails req sy = (out, sy')"
    and "fmlookup (sy_manifests sy) (e_uuid (pe_build pe)) = None" and "man_ok M"
  shows "copy_effect M pe fails req sy out sy'"
proof (cases "(out = Inl (CopyErr ErrPreconditionFailed) \<or> out = Inl CopyNoSuchDestinationBucket \<or> (\<exists>e. out = Inl (CopyErr e))) \<and> sy' = sy")
  case True
  then show ?thesis by (auto simp: copy_effect_def)
next
  case False
  let ?src = "cq_SrcBucket req" and ?sk = "cq_SrcKey req" and ?dst = "cq_DstBucket req" and ?dk = "cq_DstKey req"
  from False assms(1) obtain srcObj where lk: "lookupObject ?src ?sk (sy_store sy) = Inr srcObj"
    by (auto simp: CopyObject_def split: sum.splits)
  have cd: "cq_SrcIfMatchETag req \<noteq> [] \<longrightarrow> equal_fold (oe_etag srcObj) (cq_SrcIfMatchETag req)"
    "cq_SrcIfNoneMatchETag req \<noteq> [] \<longrightarrow> \<not> equal_fold (oe_etag srcObj) (cq_SrcIfNoneMatchETag req)"
    using False assms(1) lk by (auto simp: CopyObject_def split: if_splits)
  obtain srcMan where rv: "readVerifiedManifest M fails (oe_manifestUUID srcObj) (oe_manifestSHA256 srcObj) sy = Inr srcMan"
    using False assms(1) lk cd by (auto simp: CopyObject_def split: sum.splits if_splits)
  obtain u where ck: "checkChunks statFails (man_Chunks srcMan) (sy_cas sy) = Inr u"
    using False assms(1) lk cd rv by (auto simp: CopyObject_def split: sum.splits if_splits)
  define man where "man = (let dst0 = srcMan\<lparr>man_ManifestUUID := e_uuid (pe_build pe), man_VersionID := e_uuid (pe_build pe),
                                        man_CreatedAt := e_now (pe_build pe)\<rparr> in
      if cq_Directive req = MetadataDirectiveReplace
      then dst0\<lparr>man_ContentType := cq_ContentType req, man_Metadata := sortedMetadataKV (cq_Metadata req)\<rparr> else dst0)"
  have man: "man_ManifestUUID man = e_uuid (pe_build pe)" "man_TotalLength man = man_TotalLength srcMan"
    "man_ETag man = man_ETag srcMan" "man_Chunks (coerce_manifest man) = man_Chunks srcMan"
    using checkChunks_coerce [OF ck] by (simp_all add: man_def Let_def coerce_manifest_def)
  obtain q sy1 where p: "publishManifest M (pe_man pe) man sy = (q, sy1)" by fastforce
  have fresh: "fmlookup (sy_manifests sy) (man_ManifestUUID man) = None" using assms(2) man(1) by simp
  note P = publishManifest_effect [OF p fresh]
  have cd': "(cq_SrcIfMatchETag req \<noteq> [] \<and> \<not> equal_fold (oe_etag srcObj) (cq_SrcIfMatchETag req)) = False"
    "(cq_SrcIfNoneMatchETag req \<noteq> [] \<and> equal_fold (oe_etag srcObj) (cq_SrcIfNoneMatchETag req)) = False"
    using cd by blast+
  have dst: "(fmlookup (ns_buckets (s_ns (sy_store sy))) ?dst = None) = False"
  proof (rule ccontr)
    assume "(fmlookup (ns_buckets (s_ns (sy_store sy))) ?dst = None) \<noteq> False"
    then have "CopyObject J M pe fails statFails req sy = (Inl CopyNoSuchDestinationBucket, sy)"
      by (simp only: CopyObject_def lk cd' rv ck sum.case if_False) simp
    then show False using False assms(1) by simp
  qed
  have "CopyObject J M pe fails statFails req sy = (case publishManifest M (pe_man pe) man sy of (Inl e, sy1) \<Rightarrow> (Inl (CopyManifest e), sy1)
      | (Inr (i, sha), sy1) \<Rightarrow> (case commitObjectRoot J (pe_env pe) ?dst ?dk i sha man (sy_store sy1) of
           (Inl e, st) \<Rightarrow> (Inl (CopyErr e), sy1\<lparr>sy_store := st\<rparr>)
         | (Inr entry, st) \<Rightarrow> (Inr (entry, man), sy1\<lparr>sy_store := st\<rparr>)))"
    by (simp only: CopyObject_def lk cd' rv ck dst sum.case if_False Let_def man_def)
  then have run: "(out, sy') = (case q of Inl e \<Rightarrow> (Inl (CopyManifest e), sy1)
      | Inr (i, sha) \<Rightarrow> (case commitObjectRoot J (pe_env pe) ?dst ?dk i sha man (sy_store sy1) of
           (Inl e, st) \<Rightarrow> (Inl (CopyErr e), sy1\<lparr>sy_store := st\<rparr>)
         | (Inr entry, st) \<Rightarrow> (Inr (entry, man), sy1\<lparr>sy_store := st\<rparr>)))"
    by (simp only: assms(1) p prod.case)
  show ?thesis
  proof (cases q)
    case (Inl e)
    then show ?thesis using run P(1-3) by (simp add: copy_effect_def)
  next
    case (Inr isp)
    obtain i sha where isp: "isp = (i, sha)" by fastforce
    note R = P(4) [OF Inr [unfolded isp] assms(3)]
    obtain r2 st where c: "commitObjectRootChecked J (pe_env pe) ?dst ?dk i sha man None (sy_store sy1) = (r2, st)" by fastforce
    have res: "(out, sy') = (case r2 of Inl e \<Rightarrow> (Inl (CopyErr e), sy1\<lparr>sy_store := st\<rparr>) | Inr entry \<Rightarrow> (Inr (entry, man), sy1\<lparr>sy_store := st\<rparr>))"
      using run Inr isp c by (simp add: commitObjectRoot_def)
    then have sy': "sy' = sy1\<lparr>sy_store := st\<rparr>" by (auto split: sum.splits)
    have mk: "manifests_kept sy sy'" "manifests_kept sy1 sy'" using P(1) by (simp_all add: sy' manifests_kept_def)
    show ?thesis
    proof (cases r2)
      case (Inl x)
      then show ?thesis using res mk P(2,3) commitObjectRootChecked_effect(1) [OF c Inl] by (simp add: copy_effect_def)
    next
      case (Inr en)
      note C = commitObjectRootChecked_effect(2) [OF c Inr, unfolded P(2)]
      have st: "sy_store sy' = st" "sy_cas sy' = sy_cas sy" using P(3) by (simp_all add: sy')
      have rv': "readVerifiedManifest M f (oe_manifestUUID en) sha sy' = Inr (coerce_manifest man)"
        if "\<not> f (e_uuid (pe_build pe))" for f
        using readVerifiedManifest_kept [OF mk(2)] R [of f] C man(1) that by metis
      have hd: "\<exists>dm. HeadObject M f ?dst ?dk sy' = Inr (en, dm) \<and> man_Chunks dm = man_Chunks srcMan"
        if "\<not> f (e_uuid (pe_build pe))" for f
        using C rv' [of f, OF that] man(4) by (simp add: HeadObject_def st)
      have src: "HeadObject M fails ?src ?sk sy = Inr (srcObj, srcMan)" using lk rv by (simp add: HeadObject_def)
      have chunks: "\<forall>c \<in> set (man_Chunks srcMan). \<exists>dg. decodeHexSHA256 (cr_SHA256 c) = Some dg \<and> stored dg (sy_cas sy)"
        using checkChunks_ok [OF ck] by blast
      have "out = Inr (en, man)" using res Inr by simp
      moreover have "oe_size en = man_TotalLength srcMan" "oe_etag en = man_ETag srcMan"
        "\<forall>bk k. lookupObject bk k (sy_store sy') = (if (bk, k) = (?dst, ?dk) then Inr en else lookupObject bk k (sy_store sy))"
        using C man st by simp_all
      ultimately show ?thesis unfolding copy_effect_def using src cd chunks hd mk(1) st(2) by simp
    qed
  qed
qed

section \<open>Properties\<close>

text \<open>A server with one empty bucket, and codecs for the two documents a PUT of \<open>xs\<close> writes.\<close>

definition sample_env :: env where
  "sample_env = \<lparr>e_now = 7, e_uuid = ''u'', e_io = AppendOk\<rparr>"

definition sample_pe :: put_env where
  "sample_pe = \<lparr>pe_build = sample_env, pe_env = sample_env, pe_ios = (\<lambda>_. no_failure), pe_iof = no_failure, pe_man = ManOk\<rparr>"

definition sample_man :: "bytes \<Rightarrow> manifestV1" where
  "sample_man xs = buildManifestV1FromRefs sample_env (map chunk_ref (cdcChunks xs)) (int (length xs)) (sha256 xs)
     (hex_encode (md5 xs)) ''application/octet-stream'' fmempty"

definition sample_codec :: "manifestV1 \<Rightarrow> man_codec" where
  "sample_codec m = \<lparr>mc_marshal = (\<lambda>x. if x = m then Some [1] else None),
                     mc_unmarshal = (\<lambda>b. if b = [1] then Some (coerce_manifest m) else None)\<rparr>"

definition sample_json :: "string \<Rightarrow> manifestV1 \<Rightarrow> json_codec" where
  "sample_json key m = table_codec [coerce_payload (PutV2P (commit_payload sample_env ''b'' key ''u'' (sha256 [1]) m None))]"

definition sample_sys :: system where
  "sample_sys = \<lparr>sy_store = \<lparr>s_format = \<lparr>sf_StoreFormatVersion = 1, sf_CDCFormatVersion = 1, sf_HashAlgorithm = ''sha256'',
       sf_StoreID = ''id''\<rparr>, s_journal = empty_journal, s_ns = empty_namespace\<lparr>ns_buckets :=
       fmupd ''b'' \<lparr>be_name = ''b'', be_createdAt = 7, be_objects = fmempty\<rparr> fmempty\<rparr>\<rparr>, sy_cas = empty_cas, sy_manifests = fmempty\<rparr>"

definition no_check :: payloadCheck where
  "no_check = \<lparr>ck_sha256 = [], ck_crc32 = 0, ck_hasCRC32 = False, ck_md5 = None\<rparr>"

definition no_condition :: putCondition where
  "no_condition = \<lparr>pc_ifNoneMatchStar = False, pc_ifMatchETag = []\<rparr>"

definition always :: getCondition where
  "always = \<lparr>gc_ifMatchETag = [], gc_ifNoneMatchETag = []\<rparr>"

lemma sample_codec_ok [simp]: "man_ok (sample_codec m)"
  by (simp add: man_ok_def sample_codec_def)

lemma sample_cas: "healthy Z (sy_cas sample_sys)" "staged_ok [] (sy_cas sample_sys)"
  by (simp_all add: sample_sys_def)

lemma sample_outside:
  assumes "length xs < 1000"
  shows "put_outside None {} sample_pe frag_read [xs] xs (int (length xs)) sample_sys"
proof -
  have "\<not> directPack (int (length xs))" using assms by (simp add: directPack_def directPackMinBytes_def)
  then show "put_outside None {} sample_pe frag_read [xs] xs (int (length xs)) sample_sys"
    using frag_delivers [of "[xs]"] by (simp add: put_outside_def sample_pe_def sample_sys_def)
qed

lemma sample_commit:
  assumes "ing_chunks ing = map chunk_ref (cdcChunks xs)" "ing_size ing = int (length xs)" "ing_objSHA256 ing = sha256 xs"
    "ing_etagMD5 ing = md5 xs"
  shows "\<exists>entry sy'. commitIngested (sample_json ''k'' (sample_man xs)) (sample_codec (sample_man xs)) sample_pe ''b'' ''k'' ing
      ''application/octet-stream'' fmempty no_condition (sample_sys\<lparr>sy_cas := s'\<rparr>) = (Inr entry, sy')"
proof -
  have m: "buildManifestV1FromRefs (pe_build sample_pe) (ing_chunks ing) (ing_size ing) (ing_objSHA256 ing)
      (hex_encode (ing_etagMD5 ing)) ''application/octet-stream'' fmempty = sample_man xs"
    using assms by (simp add: sample_man_def sample_pe_def)
  have u: "man_ManifestUUID (sample_man xs) = ''u''" by (simp add: sample_man_def buildManifestV1FromRefs_def sample_env_def)
  show ?thesis
    unfolding commitIngested_def m Let_def
    by (simp add: publishManifest_def writeFileDurable_def sample_codec_def u no_condition_def putCondition_isZero_def
        commitObjectRoot_def commitObjectRootChecked_def sample_sys_def appendRecord_def appendFrame_def empty_journal_def
        sample_json_def table_codec_def commit_payload_def sample_pe_def sample_env_def maxJournalPayload_def Let_def
        archivePrevious_def)
qed

lemma sample_put_checked:
  assumes "length xs < 1000" and check: "\<And>m c. payloadCheck_verify check (sha256 xs) m c = Inr ()"
    and ct: "ct = [] \<or> ct = ''application/octet-stream''"
  shows "\<exists>entry sy'. putObject (sample_json ''k'' (sample_man xs)) (sample_codec (sample_man xs)) stored_flate None sample_pe frag_read
      [xs] xs (int (length xs)) check no_condition ''b'' ''k'' ct fmempty sample_sys = Some (Inr entry, sy')"
proof -
  have np: "\<not> directPack (int (length xs))" using assms by (simp add: directPack_def directPackMinBytes_def)
  have q: "quiet no_failure" by (simp add: quiet_def no_failure_def order_ok_def)
  have "delivers frag_read [xs] xs" using frag_delivers [of "[xs]"] by simp
  then obtain res s' where r: "ingestStream stored_flate None (pe_ios sample_pe) (pe_iof sample_pe) frag_read [xs] True
      (int (length xs)) empty_cas = Some (Inr res, s')"
    using loose.ingestWith_live [where ios = "\<lambda>_. no_failure" and iof = no_failure and rd = frag_read and r = "[xs]" and xs = xs
        and k = newCASBatch and s = empty_cas and ?withMD5.0 = True] q batch_new [of empty_cas] np
    by (auto simp: ingestStream_def newCASBatch_def sample_pe_def)
  have cl: "int (length xs) \<le> maxStreamedBodySize" using assms by (simp add: maxStreamedBodySize_def)
  have spec: "is_ok out \<longrightarrow> out = Inr res \<and> ing_chunks res = map chunk_ref (cdcChunks xs) \<and> ing_size res = int (length xs)
         \<and> ing_objSHA256 res = sha256 xs \<and> ing_etagMD5 res = md5 xs \<and> t = s'"
    if "ingestRequestBody stored_flate None sample_pe frag_read [xs] xs (int (length xs)) k (sy_cas sample_sys) = Some (out, t)" for k out t
    using that r cl ingestRequestBody_spec [OF sample_outside [OF assms(1)] sample_cas, of stored_flate k]
    by (auto simp: ingestRequestBody_def sample_sys_def Let_def split: sum.splits)
  have "ingestRequestBody stored_flate None sample_pe frag_read [xs] xs (int (length xs)) no_check (sy_cas sample_sys) = Some (Inr res, s')"
    using r cl by (simp add: ingestRequestBody_def sample_sys_def no_check_def payloadCheck_verify_def Let_def)
  with spec have c: "ing_chunks res = map chunk_ref (cdcChunks xs)" "ing_size res = int (length xs)"
    "ing_objSHA256 res = sha256 xs" "ing_etagMD5 res = md5 xs" by blast+
  have "ingestRequestBody stored_flate None sample_pe frag_read [xs] xs (int (length xs)) check (sy_cas sample_sys) = Some (Inr res, s')"
    using r cl check c(3) by (simp add: ingestRequestBody_def sample_sys_def Let_def)
  with sample_commit [OF c] ct show ?thesis
    by (auto simp: putObject_def HeadBucket_def sample_sys_def Let_def)
qed

lemma sample_put:
  assumes "length xs < 1000"
  shows "\<exists>entry sy'. putObject (sample_json ''k'' (sample_man xs)) (sample_codec (sample_man xs)) stored_flate None sample_pe frag_read
      [xs] xs (int (length xs)) no_check no_condition ''b'' ''k'' [] fmempty sample_sys = Some (Inr entry, sy')"
  using assms by (rule sample_put_checked) (simp_all add: no_check_def payloadCheck_verify_def)

text \<open>
  C20: A PUT is all or nothing, and exact. For every body, fragmentation of the stream, failure
  of the file system, of the manifest write or of the journal, declared checksum and
  precondition, whether the stream delivers the whole body (\<open>whole\<close>) or breaks off after the
  bytes \<open>xs\<close>, \<open>putObject\<close> returns; no chunk and no manifest that could be read is lost and
  the store stays healthy. A stream that breaks off always makes it fail. If it fails, the
  namespace is the one before. If it succeeds, the precondition held on the entry it replaced,
  the body is what its checksums declare, only that key changed, its entry has the size and the
  MD5 ETag of the body, and its manifest reads back verified and lists exactly the CDC chunks
  of the body, each of which reads back.
\<close>

theorem put_object_contract:
  assumes "put_request cmp B pe rd r xs whole n sy" and "healthy Z (sy_cas sy)" and "staged_ok [] (sy_cas sy)" and "man_ok M"
  shows "\<exists>out sy'. putObject J M Z cmp pe rd r xs n check cond bucket key ct md sy = Some (out, sy')
    \<and> put_effect M Z pe xs check cond bucket key sy out sy' \<and> (whole \<or> (\<exists>e. out = Inl e))"
proof (cases whole)
  case True
  with putObject_spec [of cmp B pe rd r xs n sy, OF _ assms(2-4)] assms(1) show ?thesis by simp
next
  case False
  with putObject_broken [of cmp B pe rd r xs n sy, OF _ assms(2,3)] assms(1) show ?thesis by simp blast
qed

theorem put_object_contract_witness:
  "(\<exists>entry sy'. putObject (sample_json ''k'' (sample_man [7, 8, 9])) (sample_codec (sample_man [7, 8, 9])) stored_flate None sample_pe
      frag_read [[7, 8, 9]] [7, 8, 9] 3 no_check no_condition ''b'' ''k'' [] fmempty sample_sys = Some (Inr entry, sy')
    \<and> lookupObject ''b'' ''k'' (sy_store sy') = Inr entry \<and> oe_size entry = 3 \<and> oe_etag entry = hex_encode (md5 [7, 8, 9]))
   \<and> (\<exists>e sy'. putObject (sample_json ''k'' (sample_man [7, 8, 9])) (sample_codec (sample_man [7, 8, 9])) stored_flate None sample_pe
      cut_read [[7, 8, 9]] [7, 8, 9] 3 no_check no_condition ''b'' ''k'' [] fmempty sample_sys = Some (Inl e, sy')
    \<and> s_ns (sy_store sy') = s_ns (sy_store sample_sys))"
proof -
  let ?J = "sample_json ''k'' (sample_man [7, 8, 9])" and ?m = "sample_man [7, 8, 9]"
  obtain entry sy' where p: "putObject ?J (sample_codec ?m) stored_flate None sample_pe frag_read [[7, 8, 9]] [7, 8, 9] 3
      no_check no_condition ''b'' ''k'' [] fmempty sample_sys = Some (Inr entry, sy')"
    using sample_put [of "[7, 8, 9]"] by auto
  have w: "put_request None {} sample_pe frag_read [[7, 8, 9]] [7, 8, 9] True 3 sample_sys"
    using sample_outside [of "[7, 8, 9]"] by simp
  have c: "put_request None {} sample_pe cut_read [[7, 8, 9]] [7, 8, 9] False 3 sample_sys"
    using cut_breaks_off [of "[[7, 8, 9]]"] w by (simp add: put_request_def put_outside_def)
  note whole = put_object_contract [where J = ?J and Z = stored_flate and check = no_check and cond = no_condition
      and bucket = "''b''" and key = "''k''" and ct = "[]" and md = fmempty, OF w sample_cas sample_codec_ok [of ?m]]
  note broken = put_object_contract [where J = ?J and Z = stored_flate and check = no_check and cond = no_condition
      and bucket = "''b''" and key = "''k''" and ct = "[]" and md = fmempty, OF c sample_cas sample_codec_ok [of ?m]]
  show ?thesis
  proof
    show "\<exists>entry sy'. putObject ?J (sample_codec ?m) stored_flate None sample_pe frag_read [[7, 8, 9]] [7, 8, 9] 3 no_check
        no_condition ''b'' ''k'' [] fmempty sample_sys = Some (Inr entry, sy')
      \<and> lookupObject ''b'' ''k'' (sy_store sy') = Inr entry \<and> oe_size entry = 3 \<and> oe_etag entry = hex_encode (md5 [7, 8, 9])"
      using whole p by (auto simp: put_effect_def)
    show "\<exists>e sy'. putObject ?J (sample_codec ?m) stored_flate None sample_pe cut_read [[7, 8, 9]] [7, 8, 9] 3 no_check
        no_condition ''b'' ''k'' [] fmempty sample_sys = Some (Inl e, sy')
      \<and> s_ns (sy_store sy') = s_ns (sy_store sample_sys)"
      using broken unfolding put_effect_def by (metis (no_types, lifting))
  qed
qed

text \<open>
  C21: What a PUT stored is what a GET serves. After a successful PUT of \<open>xs\<close>, a GET of the key
  with any \<^verbatim>\<open>Range\<close> header, under any failures of the reads and of the client, announces the length
  of the requested part of \<open>xs\<close> and sends a prefix of it, all of it if it completes; if the
  loose files can be read and the client stays, it completes unless the range cannot be
  satisfied. The store must not serve other bytes for the SHA-256 of a chunk of \<open>xs\<close>.
\<close>

theorem get_after_put:
  assumes "put_outside cmp B pe rd r xs n sy" and "healthy Z (sy_cas sy)" and "staged_ok [] (sy_cas sy)" and "man_ok M"
    and "putObject J M Z cmp pe rd r xs n check cond bucket key ct md sy = Some (Inr entry, sy')"
    and "faithful Z (sy_cas sy') (cdcChunks xs)" and "\<not> fails (e_uuid (pe_build pe))"
  shows "\<exists>out. getObject M Z io fails wr always header bucket key sy' = GetRange out
    \<and> (\<forall>g. out = Inr g \<longrightarrow> gr_contentLength g = int (length (requested header xs))
         \<and> (\<exists>t. gr_body g @ t = requested header xs) \<and> (gr_complete g \<longrightarrow> gr_body g = requested header xs))
    \<and> ((\<forall>ch \<in> set (cdcChunks xs). \<not> ri_loose io (sha256 ch)) \<and> (\<forall>k. wr k = None) \<longrightarrow>
         (\<exists>g. out = Inr g \<and> gr_complete g) \<or> parseRangeSpec header (int (length xs)) = Some None)"
proof -
  have E: "put_effect M Z pe xs check cond bucket key sy (Inr entry) sy'"
    using putObject_spec [OF assms(1-4), of J check cond bucket key ct md] assms(5) by auto
  then obtain man where h: "HeadObject M fails bucket key sy' = Inr (entry, man)" "man_Chunks man = map chunk_ref (cdcChunks xs)"
    "oe_size entry = int (length (concat (cdcChunks xs)))"
    using assms(7) by (auto simp: put_effect_def cdcChunks_concat)
  define out where "out = getObjectRange Z io wr (sy_cas sy') (map chunk_ref (cdcChunks xs))
    (int (length (concat (cdcChunks xs)))) header"
  have g: "getObject M Z io fails wr always header bucket key sy' = GetRange out"
    using h by (simp add: getObject_def evaluateGetCondition_def always_def out_def)
  have "good_copy Z (sha256 ch) (sy_cas sy')" if "ch \<in> set (cdcChunks xs)" for ch
    using E that casReadExcluding_ok [of Z False "sha256 ch" "{}" "sy_cas sy'"]
    by (fastforce simp: put_effect_def body_stored_def casRead_def good_copy_def)
  then have "(\<forall>ch \<in> set (cdcChunks xs). \<not> ri_loose io (sha256 ch)) \<longrightarrow> readable Z io (sy_cas sy') (cdcChunks xs)"
    by (simp add: readable_def)
  with getObjectRange_spec [OF assms(6) out_def [symmetric]] g show ?thesis
    unfolding cdcChunks_concat by blast
qed

theorem get_after_put_witness:
  "\<exists>entry sy' g. putObject (sample_json ''k'' (sample_man [])) (sample_codec (sample_man [])) stored_flate None sample_pe
      frag_read [[]] [] 0 no_check no_condition ''b'' ''k'' [] fmempty sample_sys = Some (Inr entry, sy')
    \<and> getObject (sample_codec (sample_man [])) stored_flate whole_reads (\<lambda>_. False) (\<lambda>_. None) always [] ''b'' ''k'' sy'
        = GetRange (Inr g) \<and> gr_complete g \<and> gr_body g = []"
proof -
  obtain entry sy' where p: "putObject (sample_json ''k'' (sample_man [])) (sample_codec (sample_man [])) stored_flate
      None sample_pe frag_read [[]] [] 0 no_check no_condition ''b'' ''k'' [] fmempty sample_sys = Some (Inr entry, sy')"
    using sample_put [of "[]"] by auto
  have n: "cdcChunks [] = []" by simp
  have "parseRangeSpec [] 0 = None" by code_simp
  then have "requested [] [] = []" by (simp add: requested_def)
  with get_after_put [OF sample_outside [of "[]", simplified] sample_cas sample_codec_ok p, of "\<lambda>_. False" whole_reads "\<lambda>_. None" "[]"]
    n \<open>parseRangeSpec [] 0 = None\<close>
  show ?thesis using p by (auto simp: faithful_def)
qed

text \<open>
  C22: A copy shares the payload of its source. For every request and every failure,
  \<open>CopyObject\<close> writes no chunk and loses no manifest; if it fails the namespace is the one
  before. If it succeeds, the source conditions held, every chunk of the source manifest is
  stored, only the destination key changed, its size and ETag are those of the source manifest,
  and the destination's manifest reads back verified with exactly the chunk list of the source.
\<close>

theorem copy_object_shares_payload:
  assumes "CopyObject J M pe fails statFails req sy = (out, sy')"
    and "fmlookup (sy_manifests sy) (e_uuid (pe_build pe)) = None" and "man_ok M"
  shows "copy_effect M pe fails req sy out sy'"
  using assms by (rule CopyObject_spec)

definition source_man :: manifestV1 where
  "source_man = buildManifestV1FromRefs sample_env [chunk_ref [7]] 1 (sha256 [7]) (hex_encode (md5 [7])) ''text/plain'' fmempty"

definition copy_sys :: system where
  "copy_sys = \<lparr>sy_store = (sy_store sample_sys)\<lparr>s_ns := empty_namespace\<lparr>ns_buckets := fmupd ''b'' \<lparr>be_name = ''b'', be_createdAt = 7,
       be_objects = fmupd ''k'' \<lparr>oe_manifestUUID = ''s'', oe_manifestSHA256 = sha256 [1], oe_size = 1, oe_etag = hex_encode (md5 [7]),
         oe_contentType = ''text/plain'', oe_seq = 1\<rparr> fmempty\<rparr> fmempty\<rparr>\<rparr>,
     sy_cas = empty_cas\<lparr>cs_loose := fmupd (sha256 [7]) [7] fmempty\<rparr>, sy_manifests = fmupd ''s'' [1] fmempty\<rparr>"

definition sample_copy :: CopyObjectRequest where
  "sample_copy = \<lparr>cq_SrcBucket = ''b'', cq_SrcKey = ''k'', cq_DstBucket = ''b'', cq_DstKey = ''c'', cq_Directive = MetadataDirectiveCopy,
     cq_ContentType = [], cq_Metadata = fmempty, cq_SrcIfMatchETag = [], cq_SrcIfNoneMatchETag = []\<rparr>"

lemma coerce_source: "coerce_manifest source_man = source_man"
proof -
  have "utf8_coerce ''sha256'' = ''sha256''" "utf8_coerce ''u'' = ''u''" "utf8_coerce ''text/plain'' = ''text/plain''"
    by (rule utf8_valid_ascii [unfolded utf8_valid_def]; simp)+
  moreover have "sortedMetadataKV fmempty = []" by (simp add: sortedMetadataKV_def sorted_keys_def sorted_list_of_fset.rep_eq)
  ultimately show ?thesis using coerce_chunk_refs [of "[[7]]"]
    by (simp add: source_man_def coerce_manifest_def buildManifestV1FromRefs_def sample_env_def utf8_valid_hex [unfolded utf8_valid_def])
qed

lemma sample_copy_succeeds:
  "\<exists>entry sy'. CopyObject (sample_json ''c'' source_man) (sample_codec source_man) sample_pe (\<lambda>_. False) (\<lambda>_. False) sample_copy copy_sys
     = (Inr (entry, source_man), sy')"
proof -
  have m: "source_man\<lparr>man_ManifestUUID := ''u'', man_VersionID := ''u'', man_CreatedAt := 7\<rparr> = source_man"
    "man_Chunks source_man = [chunk_ref [7]]" "man_ManifestUUID source_man = ''u''"
    by (simp_all add: source_man_def buildManifestV1FromRefs_def sample_env_def)
  show ?thesis
    by (simp add: CopyObject_def sample_copy_def copy_sys_def sample_sys_def lookupObject_def readVerifiedManifest_def readManifest_def
        sample_codec_def coerce_source m casStat_def casStatLocked_def empty_cas_def publishManifest_def writeFileDurable_def
        commitObjectRoot_def commitObjectRootChecked_def appendRecord_def appendFrame_def empty_journal_def sample_json_def
        table_codec_def commit_payload_def sample_pe_def sample_env_def maxJournalPayload_def Let_def archivePrevious_def ps_lookup_def
        ps_best_def)
qed

theorem copy_object_shares_payload_witness:
  "\<exists>entry sy' dm. CopyObject (sample_json ''c'' source_man) (sample_codec source_man) sample_pe (\<lambda>_. False) (\<lambda>_. False) sample_copy
      copy_sys = (Inr (entry, source_man), sy')
    \<and> HeadObject (sample_codec source_man) (\<lambda>_. False) ''b'' ''c'' sy' = Inr (entry, dm) \<and> man_Chunks dm = [chunk_ref [7]]"
proof -
  obtain entry sy' where c: "CopyObject (sample_json ''c'' source_man) (sample_codec source_man) sample_pe (\<lambda>_. False) (\<lambda>_. False)
      sample_copy copy_sys = (Inr (entry, source_man), sy')" using sample_copy_succeeds by blast
  have f: "fmlookup (sy_manifests copy_sys) (e_uuid (pe_build sample_pe)) = None"
    by (simp add: copy_sys_def sample_pe_def sample_env_def)
  have h: "HeadObject (sample_codec source_man) (\<lambda>_. False) ''b'' ''k'' copy_sys = Inr (o', m') \<Longrightarrow> man_Chunks m' = [chunk_ref [7]]" for o' m'
    by (auto simp: HeadObject_def lookupObject_def copy_sys_def sample_sys_def readVerifiedManifest_def readManifest_def
        sample_codec_def coerce_source) (simp add: source_man_def buildManifestV1FromRefs_def)
  from copy_object_shares_payload [OF c f sample_codec_ok] c h show ?thesis
    by (fastforce simp: copy_effect_def sample_copy_def)
qed

end
