(* ===== verification/Sync.thy ===== *)
theory Sync
  imports Objects
begin

text \<open>
  The delta-sync protocol (\<^verbatim>\<open>zeros3.go\<close>, sections 15, 15b and 15b-bis): the handlers of the server
  (describe, negotiate, chunk upload and download, commit) on the \<open>system\<close> state of the object
  operations. JSON bodies enter decoded; the client in \<open>SyncClient\<close> has the codec as a parameter. The optional representations that \<^verbatim>\<open>tryBuildRep\<close> derives from a
  committed object (section 16d) are outside the state.
\<close>

section \<open>The wire types\<close>

definition zeros3SyncProtocolVersion :: int where
  "zeros3SyncProtocolVersion = 1"

definition zeros3SyncCDCFormat :: string where
  "zeros3SyncCDCFormat = ''gear-v1''"

definition zeros3SyncHashAlgorithm :: string where
  "zeros3SyncHashAlgorithm = ''sha256''"

definition maxSyncBatchDescriptors :: nat where
  "maxSyncBatchDescriptors = 1024"

definition maxSyncBatchBytes :: nat where
  "maxSyncBatchBytes = 256 * 1024"

definition maxSyncChunkBytes :: int where
  "maxSyncChunkBytes = int cdcMaxChunkSize"

record syncDiscoveryResponse =
  di_Protocol :: int
  di_CDC :: string
  di_Hash :: string
  di_DeltaSync :: bool
  di_MaxHashesPerBatch :: int
  di_MaxBatchBytes :: int
  di_MaxChunkBytes :: int
  di_BulkProtocol :: int
  di_MaxBulkChunks :: int
  di_MaxBulkBytes :: int

record syncChunkDescriptor =
  cd_SHA256 :: string
  cd_Length :: int

record syncNegotiateRequest =
  nq_Protocol :: int
  nq_CDC :: string
  nq_Hash :: string
  nq_Chunks :: "syncChunkDescriptor list"

record syncChunkUploadResponse =
  ur_SHA256 :: string
  ur_Length :: int

record syncObjectDescriptor =
  so_Protocol :: int
  so_CDC :: string
  so_Hash :: string
  so_Bucket :: string
  so_Key :: string
  so_VersionID :: string
  so_Size :: int
  so_ETag :: string
  so_ContentType :: string
  so_Metadata :: "(string, string) fmap"
  so_Chunks :: "syncChunkDescriptor list"

record syncCommitRequest =
  yc_Protocol :: int
  yc_CDC :: string
  yc_Hash :: string
  yc_Bucket :: string
  yc_Key :: string
  yc_ContentType :: string
  yc_Metadata :: "(string, string) fmap"
  yc_Chunks :: "syncChunkDescriptor list"
  yc_ExpectAbsent :: bool
  yc_ExpectedETag :: string

record syncCommitResponse =
  rs_Bucket :: string
  rs_Key :: string
  rs_VersionID :: string
  rs_ETag :: string
  rs_Size :: int

text \<open>The codes of \<^verbatim>\<open>writeSyncError\<close>, and the status each is sent with.\<close>

datatype sync_error =
    RequestTooLarge | MalformedRequest | UnsupportedProtocol | BatchTooLarge | InvalidArgument | DigestMismatch
  | InternalError | NoSuchChunk | MissingChunk | ChunkLengthMismatch | LengthMismatch | SyncNoSuchBucket
  | SyncNoSuchKey | SyncPreconditionFailed | RequestCheckFailed check_error

section \<open>Request checks\<close>

definition validateSyncProtocolFields :: "int \<Rightarrow> string \<Rightarrow> string \<Rightarrow> bool" where
  "validateSyncProtocolFields protocol cdc hash \<longleftrightarrow>
     protocol = zeros3SyncProtocolVersion \<and> cdc = zeros3SyncCDCFormat \<and> hash = zeros3SyncHashAlgorithm"

definition normalizedSyncDigest :: "string \<Rightarrow> int \<Rightarrow> (digest \<times> string) option" where
  "normalizedSyncDigest hexDigest len =
     (case decodeHexSHA256 hexDigest of
        None \<Rightarrow> None
      | Some dg \<Rightarrow> if len \<le> 0 \<or> len > maxSyncChunkBytes then None else Some (dg, hex_encode (digest_bytes dg)))"

section \<open>The server\<close>

definition handleSyncDescribeObject ::
  "man_codec \<Rightarrow> (string \<Rightarrow> bool) \<Rightarrow> string \<Rightarrow> string \<Rightarrow> system \<Rightarrow> sync_error + syncObjectDescriptor" where
  "handleSyncDescribeObject M fails bucket key sy =
     (if bucket = [] \<or> key = [] then Inl InvalidArgument
      else case HeadObject M fails bucket key sy of
        Inl e \<Rightarrow> Inl (if e = ErrNoSuchBucket then SyncNoSuchBucket else if e = ErrNoSuchKey then SyncNoSuchKey else InternalError)
      | Inr (entry, man) \<Rightarrow>
          Inr \<lparr>so_Protocol = zeros3SyncProtocolVersion, so_CDC = zeros3SyncCDCFormat, so_Hash = zeros3SyncHashAlgorithm,
               so_Bucket = bucket, so_Key = key, so_VersionID = oe_manifestUUID entry, so_Size = oe_size entry,
               so_ETag = oe_etag entry, so_ContentType = oe_contentType entry,
               so_Metadata = fold (\<lambda>kv m. fmupd (kv_Key kv) (kv_Value kv) m) (man_Metadata man) fmempty,
               so_Chunks = map (\<lambda>c. \<lparr>cd_SHA256 = cr_SHA256 c, cd_Length = cr_Length c\<rparr>) (man_Chunks man)\<rparr>)"

definition handleSyncChunkDownload :: "flate_codec \<Rightarrow> (digest \<Rightarrow> bool) \<Rightarrow> string \<Rightarrow> casState \<Rightarrow> sync_error + bytes" where
  "handleSyncChunkDownload Z fails hexDigest s =
     (case decodeHexSHA256 hexDigest of
        None \<Rightarrow> Inl InvalidArgument
      | Some dg \<Rightarrow> (case casRead Z (fails dg) dg s of Inl _ \<Rightarrow> Inl NoSuchChunk | Inr data \<Rightarrow> Inr data))"

fun negotiateLoop ::
  "(digest \<Rightarrow> bool) \<Rightarrow> casState \<Rightarrow> syncChunkDescriptor list \<Rightarrow> string set \<Rightarrow> string list \<Rightarrow> sync_error + string list" where
  "negotiateLoop fails s [] seen missing = Inr missing"
| "negotiateLoop fails s (d # ds) seen missing =
     (case normalizedSyncDigest (cd_SHA256 d) (cd_Length d) of
        None \<Rightarrow> Inl InvalidArgument
      | Some (dg, norm) \<Rightarrow>
          if norm \<in> seen then negotiateLoop fails s ds seen missing
          else negotiateLoop fails s ds (insert norm seen)
                 (case casStat (fails dg) dg s of Inl _ \<Rightarrow> missing @ [norm] | Inr _ \<Rightarrow> missing))"

definition handleSyncNegotiate ::
  "(bytes \<Rightarrow> syncNegotiateRequest option) \<Rightarrow> (digest \<Rightarrow> bool) \<Rightarrow> bytes \<Rightarrow> casState \<Rightarrow> sync_error + string list" where
  "handleSyncNegotiate unmarshal fails body s =
     (if length body > maxSyncBatchBytes then Inl RequestTooLarge
      else case unmarshal body of
        None \<Rightarrow> Inl MalformedRequest
      | Some req \<Rightarrow>
          if \<not> validateSyncProtocolFields (nq_Protocol req) (nq_CDC req) (nq_Hash req) then Inl UnsupportedProtocol
          else if length (nq_Chunks req) > maxSyncBatchDescriptors then Inl BatchTooLarge
          else negotiateLoop fails s (nq_Chunks req) {} [])"

definition handleSyncChunkUpload ::
  "cas_io \<Rightarrow> cas_io \<Rightarrow> string \<Rightarrow> bytes \<Rightarrow> casState \<Rightarrow> (sync_error + syncChunkUploadResponse) \<times> casState" where
  "handleSyncChunkUpload io io' hexDigest body s =
     (case normalizedSyncDigest hexDigest (int (length body)) of
        None \<Rightarrow> (Inl InvalidArgument, s)
      | Some (dg, norm) \<Rightarrow>
          if sha256 body \<noteq> dg then (Inl DigestMismatch, s)
          else (case casWrite io io' body s of
              (Inl _, s') \<Rightarrow> (Inl InternalError, s')
            | (Inr _, s') \<Rightarrow> (Inr \<lparr>ur_SHA256 = norm, ur_Length = int (length body)\<rparr>, s')))"

text \<open>
  The loop of a commit over the descriptors: each chunk is read back and verified, and its bytes pass
  through the two running hashes. \<open>acc\<close> are the bytes written to both.
\<close>

fun commitChunks ::
  "flate_codec \<Rightarrow> (digest \<Rightarrow> bool) \<Rightarrow> casState \<Rightarrow> syncChunkDescriptor list \<Rightarrow> bytes \<Rightarrow> int \<Rightarrow> chunkRef list
    \<Rightarrow> sync_error + bytes \<times> int \<times> chunkRef list" where
  "commitChunks Z fails s [] acc tot refs = Inr (acc, tot, refs)"
| "commitChunks Z fails s (d # ds) acc tot refs =
     (case normalizedSyncDigest (cd_SHA256 d) (cd_Length d) of
        None \<Rightarrow> Inl InvalidArgument
      | Some (dg, norm) \<Rightarrow>
          (case casRead Z (fails dg) dg s of
             Inl _ \<Rightarrow> Inl MissingChunk
           | Inr data \<Rightarrow>
               if int (length data) \<noteq> cd_Length d then Inl ChunkLengthMismatch
               else commitChunks Z fails s ds (acc @ data) (tot + cd_Length d)
                      (refs @ [\<lparr>cr_SHA256 = norm, cr_Length = cd_Length d\<rparr>])))"

definition syncPrecondition_check :: "bool \<Rightarrow> string \<Rightarrow> objectEntry option \<Rightarrow> err + unit" where
  "syncPrecondition_check expectAbsent expectedETag cur =
     (if expectAbsent then (if cur \<noteq> None then Inl ErrSyncConflict else Inr ())
      else if expectedETag \<noteq> [] \<and> (case cur of None \<Rightarrow> True | Some e \<Rightarrow> oe_etag e \<noteq> expectedETag) then Inl ErrSyncConflict
      else Inr ())"

definition handleSyncCommit ::
  "json_codec \<Rightarrow> man_codec \<Rightarrow> flate_codec \<Rightarrow> (bytes \<Rightarrow> syncCommitRequest option) \<Rightarrow> (digest \<Rightarrow> bool) \<Rightarrow> put_env \<Rightarrow> bytes
    \<Rightarrow> system \<Rightarrow> (sync_error + syncCommitResponse) \<times> system" where
  "handleSyncCommit J M Z unmarshal fails pe body sy =
     (case unmarshal body of
        None \<Rightarrow> (Inl MalformedRequest, sy)
      | Some req \<Rightarrow>
          if \<not> validateSyncProtocolFields (yc_Protocol req) (yc_CDC req) (yc_Hash req) then (Inl UnsupportedProtocol, sy)
          else if yc_Bucket req = [] \<or> yc_Key req = [] then (Inl InvalidArgument, sy)
          else (case commitChunks Z fails (sy_cas sy) (yc_Chunks req) [] 0 [] of
              Inl e \<Rightarrow> (Inl e, sy)
            | Inr (acc, tot, refs) \<Rightarrow>
                let contentType = (if yc_ContentType req = [] then ''application/octet-stream'' else yc_ContentType req);
                    man = buildManifestV1FromRefs (pe_build pe) refs tot (sha256 acc) (hex_encode (md5 acc)) contentType (yc_Metadata req) in
                (case publishManifest M (pe_man pe) man sy of
                   (Inl _, sy1) \<Rightarrow> (Inl InternalError, sy1)
                 | (Inr (manUUID, manSHA), sy1) \<Rightarrow>
                     (case commitObjectRootChecked J (pe_env pe) (yc_Bucket req) (yc_Key req) manUUID manSHA man
                             (Some (syncPrecondition_check (yc_ExpectAbsent req) (yc_ExpectedETag req))) (sy_store sy1) of
                        (Inl e, st) \<Rightarrow>
                          (Inl (if e = ErrNoSuchBucket then SyncNoSuchBucket
                                else if e = ErrSyncConflict then SyncPreconditionFailed else InternalError), sy1\<lparr>sy_store := st\<rparr>)
                      | (Inr entry, st) \<Rightarrow>
                          (Inr \<lparr>rs_Bucket = yc_Bucket req, rs_Key = yc_Key req, rs_VersionID = oe_manifestUUID entry,
                                rs_ETag = oe_etag entry, rs_Size = oe_size entry\<rparr>, sy1\<lparr>sy_store := st\<rparr>)))))"


section \<open>Negotiation\<close>

definition desc_norm :: "syncChunkDescriptor \<Rightarrow> string" where
  "desc_norm d = (case normalizedSyncDigest (cd_SHA256 d) (cd_Length d) of None \<Rightarrow> [] | Some (_, norm) \<Rightarrow> norm)"

definition desc_ok :: "syncChunkDescriptor \<Rightarrow> bool" where
  "desc_ok d \<longleftrightarrow> normalizedSyncDigest (cd_SHA256 d) (cd_Length d) \<noteq> None"

lemma normalizedSyncDigest_Some:
  "normalizedSyncDigest h n = Some (dg, norm) \<longleftrightarrow>
     decodeHexSHA256 h = Some dg \<and> 0 < n \<and> n \<le> maxSyncChunkBytes \<and> norm = hex_encode (digest_bytes dg)"
  by (auto simp: normalizedSyncDigest_def split: option.splits)

text \<open>The first occurrences of a list, in order, without those already seen.\<close>

fun first_seen :: "'a set \<Rightarrow> 'a list \<Rightarrow> 'a list" where
  "first_seen seen [] = []"
| "first_seen seen (x # xs) = (if x \<in> seen then first_seen seen xs else x # first_seen (insert x seen) xs)"

lemma set_first_seen: "set (first_seen seen xs) = set xs - seen"
  by (induction xs arbitrary: seen) auto

lemma distinct_first_seen: "distinct (first_seen seen xs)"
  by (induction xs arbitrary: seen) (auto simp: set_first_seen)

lemma negotiateLoop_eq:
  "negotiateLoop fails s ds seen missing =
     (if \<exists>d \<in> set ds. \<not> desc_ok d then Inl InvalidArgument
      else Inr (missing @ filter (\<lambda>h. \<exists>dg. h = hex_encode (digest_bytes dg) \<and> (fails dg \<or> \<not> stored dg s)) (first_seen seen (map desc_norm ds))))"
proof (induction ds arbitrary: seen missing)
  case (Cons d ds)
  show ?case
  proof (cases "normalizedSyncDigest (cd_SHA256 d) (cd_Length d)")
    case (Some p)
    obtain sm norm where p: "p = (sm, norm)" by fastforce
    have n: "norm = hex_encode (digest_bytes sm)" using Some p by (simp add: normalizedSyncDigest_Some)
    then have dn: "desc_norm d = hex_encode (digest_bytes sm)" "desc_ok d" using Some p by (simp_all add: desc_norm_def desc_ok_def)
    have inj: "hex_encode (digest_bytes sm) = hex_encode (digest_bytes dg) \<longleftrightarrow> dg = sm" for dg
      by (metis decodeHexSHA256_encode option.inject)
    show ?thesis
    proof (cases "is_ok (casStat (fails sm) sm s)")
      case True
      then have "stored sm s \<and> \<not> fails sm" using casStatLocked_ok [of "fails sm" sm s] by (simp add: casStat_def)
      then show ?thesis using True Cons.IH Some p n inj dn by auto
    next
      case False
      then obtain e where e: "casStat (fails sm) sm s = Inl e" by (cases "casStat (fails sm) sm s") auto
      have "fails sm \<or> \<not> stored sm s" using False casStatLocked_ok [of "fails sm" sm s] by (auto simp: casStat_def)
      then show ?thesis using e Cons.IH Some p n inj dn by auto
    qed
  qed (simp add: desc_ok_def)
qed simp

section \<open>Uploads and commits\<close>

text \<open>A store between two requests.\<close>

definition store_ready :: "flate_codec \<Rightarrow> casState \<Rightarrow> bool" where
  "store_ready Z s \<longleftrightarrow> healthy Z s \<and> staged_ok [] s"

lemma handleSyncChunkUpload_effect:
  assumes "handleSyncChunkUpload io io' h body s = (r, s')" "store_ready Z s" "order_ok io" "order_ok io'"
  shows "store_ready Z s'" "\<forall>dg. stored dg s \<longrightarrow> stored dg s'"
    "r = Inr u \<Longrightarrow> decodeHexSHA256 h = Some (sha256 body) \<and> stored (sha256 body) s'"
proof -
  have d: "dirs_ok s" "staged_ok [] s" "healthy Z s" using assms(2) by (simp_all add: store_ready_def healthy_def)
  have "store_ready Z s' \<and> (\<forall>dg. stored dg s \<longrightarrow> stored dg s')
    \<and> (r = Inr u \<longrightarrow> decodeHexSHA256 h = Some (sha256 body) \<and> stored (sha256 body) s')"
  proof (cases "\<exists>dg norm. normalizedSyncDigest h (int (length body)) = Some (dg, norm) \<and> sha256 body = dg")
    case False
    then have "s' = s" "\<not> is_ok r" using assms(1) by (auto simp: handleSyncChunkUpload_def split: option.splits if_splits)
    then show ?thesis using assms(2) by auto
  next
    case True
    then obtain norm where n: "normalizedSyncDigest h (int (length body)) = Some (sha256 body, norm)" by blast
    obtain w s1 where w: "casWrite io io' body s = (w, s1)" by fastforce
    note e = casWrite_effect [OF d(2,1) assms(3,4) w, of Z]
    have "s' = s1" "is_ok r \<Longrightarrow> is_ok w"
      using assms(1) n w by (auto simp: handleSyncChunkUpload_def split: sum.splits)
    with e d(3) n show ?thesis by (auto simp: store_ready_def grows_def normalizedSyncDigest_Some)
  qed
  then show "store_ready Z s'" "\<forall>dg. stored dg s \<longrightarrow> stored dg s'"
    "r = Inr u \<Longrightarrow> decodeHexSHA256 h = Some (sha256 body) \<and> stored (sha256 body) s'" by auto
qed

text \<open>What a commit has read for a descriptor.\<close>

definition desc_read :: "flate_codec \<Rightarrow> (digest \<Rightarrow> bool) \<Rightarrow> casState \<Rightarrow> syncChunkDescriptor \<Rightarrow> bytes \<Rightarrow> bool" where
  "desc_read Z fails s d p \<longleftrightarrow> decodeHexSHA256 (cd_SHA256 d) = Some (sha256 p) \<and> cd_Length d = int (length p)
     \<and> 0 < length p \<and> int (length p) \<le> maxSyncChunkBytes \<and> casRead Z (fails (sha256 p)) (sha256 p) s = Inr p"

lemma commitChunks_read:
  "commitChunks Z fails s ds acc tot refs = Inr (acc', tot', refs') \<Longrightarrow>
     \<exists>parts. list_all2 (desc_read Z fails s) ds parts \<and> acc' = acc @ concat parts \<and> tot' = tot + int (length (concat parts))
       \<and> refs' = refs @ map chunk_ref parts"
proof (induction ds arbitrary: acc tot refs)
  case (Cons d ds)
  then obtain dg norm data where n: "normalizedSyncDigest (cd_SHA256 d) (cd_Length d) = Some (dg, norm)"
    and r: "casRead Z (fails dg) dg s = Inr data" "int (length data) = cd_Length d"
    and k: "commitChunks Z fails s ds (acc @ data) (tot + cd_Length d) (refs @ [\<lparr>cr_SHA256 = norm, cr_Length = cd_Length d\<rparr>])
      = Inr (acc', tot', refs')"
    by (auto split: option.splits sum.splits if_splits)
  have s: "sha256 data = dg" using served_sound [OF casRead_served [OF r(1)]] .
  from n have "decodeHexSHA256 (cd_SHA256 d) = Some dg" "0 < cd_Length d" "cd_Length d \<le> maxSyncChunkBytes"
    and nm: "norm = hex_encode (digest_bytes dg)" by (simp_all add: normalizedSyncDigest_Some)
  with s r have "desc_read Z fails s d data" by (auto simp: desc_read_def)
  moreover have "\<lparr>cr_SHA256 = norm, cr_Length = cd_Length d\<rparr> = chunk_ref data" using s nm r by (simp add: chunk_ref_def)
  moreover from Cons.IH [OF k] obtain parts where "list_all2 (desc_read Z fails s) ds parts"
    "acc' = (acc @ data) @ concat parts" "tot' = tot + cd_Length d + int (length (concat parts))"
    "refs' = (refs @ [\<lparr>cr_SHA256 = norm, cr_Length = cd_Length d\<rparr>]) @ map chunk_ref parts" by blast
  ultimately show ?case using r by (intro exI [of _ "data # parts"]) simp
qed simp

lemma commitChunks_succeeds:
  "list_all2 (desc_read Z fails s) ds parts \<Longrightarrow>
     commitChunks Z fails s ds acc tot refs = Inr (acc @ concat parts, tot + int (length (concat parts)), refs @ map chunk_ref parts)"
  by (induction ds parts arbitrary: acc tot refs rule: list_all2_induct)
     (auto simp: desc_read_def normalizedSyncDigest_def chunk_ref_def)


text \<open>
  The outcome of a commit: nothing is written to the chunk store and no manifest is lost; a commit that
  fails leaves the namespace as it was; one that succeeds replaces one key, under its precondition, by an
  object whose manifest lists exactly the chunks of the request, each read back and verified.
\<close>

definition sync_condition_held :: "syncCommitRequest \<Rightarrow> objectEntry option \<Rightarrow> bool" where
  "sync_condition_held req cur \<longleftrightarrow> (yc_ExpectAbsent req \<longrightarrow> cur = None)
     \<and> (\<not> yc_ExpectAbsent req \<and> yc_ExpectedETag req \<noteq> [] \<longrightarrow> (\<exists>e. cur = Some e \<and> oe_etag e = yc_ExpectedETag req))"

lemma syncPrecondition_check_ok:
  "is_ok (syncPrecondition_check (yc_ExpectAbsent req) (yc_ExpectedETag req) cur) \<longleftrightarrow> sync_condition_held req cur"
  by (cases cur) (auto simp: syncPrecondition_check_def sync_condition_held_def)

definition commit_effect ::
  "man_codec \<Rightarrow> flate_codec \<Rightarrow> (digest \<Rightarrow> bool) \<Rightarrow> put_env \<Rightarrow> syncCommitRequest option \<Rightarrow> system \<Rightarrow> sync_error + syncCommitResponse
    \<Rightarrow> system \<Rightarrow> bool" where
  "commit_effect M Z fails pe reqo sy out sy' \<longleftrightarrow>
     manifests_kept sy sy' \<and> sy_cas sy' = sy_cas sy
     \<and> (\<forall>e. out = Inl e \<longrightarrow> s_ns (sy_store sy') = s_ns (sy_store sy))
     \<and> (\<forall>rs. out = Inr rs \<longrightarrow> (\<exists>req parts entry. reqo = Some req
          \<and> list_all2 (desc_read Z fails (sy_cas sy)) (yc_Chunks req) parts
          \<and> sync_condition_held req (current (yc_Bucket req) (yc_Key req) sy)
          \<and> (\<forall>bk k. lookupObject bk k (sy_store sy')
               = (if (bk, k) = (yc_Bucket req, yc_Key req) then Inr entry else lookupObject bk k (sy_store sy)))
          \<and> oe_size entry = int (length (concat parts)) \<and> oe_etag entry = hex_encode (md5 (concat parts))
          \<and> rs = \<lparr>rs_Bucket = yc_Bucket req, rs_Key = yc_Key req, rs_VersionID = oe_manifestUUID entry, rs_ETag = oe_etag entry,
                 rs_Size = oe_size entry\<rparr>
          \<and> (\<forall>mf. \<not> mf (e_uuid (pe_build pe)) \<longrightarrow> (\<exists>man. HeadObject M mf (yc_Bucket req) (yc_Key req) sy' = Inr (entry, man)
                \<and> man_Chunks man = map chunk_ref parts \<and> man_TotalLength man = int (length (concat parts))
                \<and> man_ObjectSHA256 man = hex_encode (digest_bytes (sha256 (concat parts)))))))"

lemma handleSyncCommit_spec:
  assumes "handleSyncCommit J M Z unmarshal fails pe body sy = (out, sy')" "fmlookup (sy_manifests sy) (e_uuid (pe_build pe)) = None"
    and "man_ok M"
  shows "commit_effect M Z fails pe (unmarshal body) sy out sy'"
proof (cases "sy' = sy \<and> \<not> is_ok out")
  case True
  then show ?thesis by (auto simp: commit_effect_def)
next
  case False
  then obtain req acc tot refs where u: "unmarshal body = Some req"
    and v: "validateSyncProtocolFields (yc_Protocol req) (yc_CDC req) (yc_Hash req)" "yc_Bucket req \<noteq> []" "yc_Key req \<noteq> []"
    and k: "commitChunks Z fails (sy_cas sy) (yc_Chunks req) [] 0 [] = Inr (acc, tot, refs)"
    using assms(1) by (auto simp: handleSyncCommit_def split: option.splits if_splits sum.splits)
  from commitChunks_read [OF k] obtain parts where parts: "list_all2 (desc_read Z fails (sy_cas sy)) (yc_Chunks req) parts"
    and acc: "acc = concat parts" "tot = int (length (concat parts))" "refs = map chunk_ref parts" by auto
  define man where "man = buildManifestV1FromRefs (pe_build pe) refs tot (sha256 acc) (hex_encode (md5 acc))
    (if yc_ContentType req = [] then ''application/octet-stream'' else yc_ContentType req) (yc_Metadata req)"
  have id: "man_ManifestUUID man = e_uuid (pe_build pe)" "man_TotalLength man = int (length (concat parts))"
    "man_ETag man = hex_encode (md5 (concat parts))" by (simp_all add: man_def acc buildManifestV1FromRefs_def)
  have cm: "man_Chunks (coerce_manifest man) = map chunk_ref parts" "man_TotalLength (coerce_manifest man) = int (length (concat parts))"
    "man_ObjectSHA256 (coerce_manifest man) = hex_encode (digest_bytes (sha256 (concat parts)))"
    using coerce_chunk_refs [of parts]
    by (simp_all add: man_def acc coerce_manifest_def buildManifestV1FromRefs_def utf8_valid_hex [unfolded utf8_valid_def] del: map_map)
  obtain q sy1 where p: "publishManifest M (pe_man pe) man sy = (q, sy1)" by fastforce
  note P = publishManifest_effect [OF p assms(2) [folded id(1)]]
  show ?thesis
  proof (cases q)
    case (Inl x)
    then have "out = Inl InternalError" "sy' = sy1"
      using assms(1) u v k p by (simp_all add: handleSyncCommit_def Let_def man_def)
    then show ?thesis using P(1-3) by (simp add: commit_effect_def)
  next
    case (Inr isp)
    obtain i sha where isp: "isp = (i, sha)" by fastforce
    let ?check = "Some (syncPrecondition_check (yc_ExpectAbsent req) (yc_ExpectedETag req))"
    obtain r st where c: "commitObjectRootChecked J (pe_env pe) (yc_Bucket req) (yc_Key req) i sha man ?check (sy_store sy1) = (r, st)"
      by fastforce
    have sy': "sy' = sy1\<lparr>sy_store := st\<rparr>" and out: "r = Inl e \<Longrightarrow> \<not> is_ok out"
      "r = Inr entry \<Longrightarrow> out = Inr \<lparr>rs_Bucket = yc_Bucket req, rs_Key = yc_Key req, rs_VersionID = oe_manifestUUID entry,
          rs_ETag = oe_etag entry, rs_Size = oe_size entry\<rparr>" for e entry
      using assms(1) u v k p Inr isp c by (auto simp: handleSyncCommit_def Let_def man_def split: sum.splits)
    note E = publish_commit_effect [OF p [unfolded Inr isp] assms(2) [folded id(1)] assms(3) c sy']
    show ?thesis
    proof (cases r)
      case (Inl x)
      then show ?thesis using out(1) E(1,2) E(3) [OF Inl] by (auto simp: commit_effect_def)
    next
      case (Inr entry)
      note F = E(4) [OF Inr, unfolded id]
      have held: "sync_condition_held req (current (yc_Bucket req) (yc_Key req) sy)"
        using F syncPrecondition_check_ok [of req] by (auto simp: current_def)
      have "\<forall>mf. \<not> mf (e_uuid (pe_build pe)) \<longrightarrow> (\<exists>man. HeadObject M mf (yc_Bucket req) (yc_Key req) sy' = Inr (entry, man)
                \<and> man_Chunks man = map chunk_ref parts \<and> man_TotalLength man = int (length (concat parts))
                \<and> man_ObjectSHA256 man = hex_encode (digest_bytes (sha256 (concat parts))))"
        using F cm by blast
      moreover have "\<forall>bk k. lookupObject bk k (sy_store sy')
          = (if (bk, k) = (yc_Bucket req, yc_Key req) then Inr entry else lookupObject bk k (sy_store sy))"
        "oe_size entry = int (length (concat parts))" "oe_etag entry = hex_encode (md5 (concat parts))"
        using F by simp_all
      ultimately show ?thesis
        using E(1,2) u parts held out(2) [OF Inr] unfolding commit_effect_def by blast
    qed
  qed
qed


section \<open>Properties\<close>

text \<open>
  A negotiation reports exactly what is missing. When \<open>handleSyncNegotiate\<close> answers, every requested digest is
  well formed, and the answer lists, once each, in the order in which the request first names them and in
  lower case, the requested digests that are not stored (or whose lookup failed), and no others.
\<close>

theorem negotiation_is_exact:
  assumes "handleSyncNegotiate unmarshal fails body s = Inr missing"
  shows "\<exists>req. unmarshal body = Some req \<and> distinct missing
    \<and> missing = filter (\<lambda>h. h \<in> set missing) (first_seen {} (map desc_norm (nq_Chunks req)))
    \<and> (\<forall>d \<in> set (nq_Chunks req). \<exists>dg. decodeHexSHA256 (cd_SHA256 d) = Some dg
         \<and> (hex_encode (digest_bytes dg) \<in> set missing \<longleftrightarrow> fails dg \<or> \<not> stored dg s))
    \<and> (\<forall>h \<in> set missing. \<exists>d \<in> set (nq_Chunks req). h = desc_norm d)"
proof -
  obtain req where u: "unmarshal body = Some req" and nl: "negotiateLoop fails s (nq_Chunks req) {} [] = Inr missing"
    using assms by (auto simp: handleSyncNegotiate_def split: option.splits if_splits)
  let ?gone = "\<lambda>h. \<exists>dg. h = hex_encode (digest_bytes dg) \<and> (fails dg \<or> \<not> stored dg s)"
  let ?ds = "nq_Chunks req"
  have ok: "\<forall>d \<in> set ?ds. desc_ok d" and m: "missing = filter ?gone (first_seen {} (map desc_norm ?ds))"
    using nl by (auto simp: negotiateLoop_eq split: if_splits)
  have norm: "\<exists>dg. decodeHexSHA256 (cd_SHA256 d) = Some dg \<and> desc_norm d = hex_encode (digest_bytes dg)" if "d \<in> set ?ds" for d
    using ok that by (auto simp: desc_ok_def desc_norm_def normalizedSyncDigest_def split: option.splits if_splits)
  have gone: "?gone (hex_encode (digest_bytes dg)) \<longleftrightarrow> fails dg \<or> \<not> stored dg s" for dg
    by (metis decodeHexSHA256_encode option.inject)
  have set: "set missing = {h \<in> desc_norm ` set ?ds. ?gone h}" by (auto simp: m set_first_seen)
  have "hex_encode (digest_bytes dg) \<in> set missing \<longleftrightarrow> fails dg \<or> \<not> stored dg s"
    if "d \<in> set ?ds" "decodeHexSHA256 (cd_SHA256 d) = Some dg" for d dg
  proof -
    have "hex_encode (digest_bytes dg) \<in> desc_norm ` set ?ds" using norm [OF that(1)] that by force
    then show ?thesis unfolding set using gone by simp
  qed
  moreover have "missing = filter (\<lambda>h. h \<in> set missing) (first_seen {} (map desc_norm ?ds))"
    unfolding set by (subst m, rule filter_cong) (auto simp: set_first_seen)
  moreover have "distinct missing" by (simp add: m distinct_first_seen)
  ultimately show ?thesis using u norm set by fastforce
qed

definition sample_negotiate :: syncNegotiateRequest where
  "sample_negotiate = \<lparr>nq_Protocol = 1, nq_CDC = ''gear-v1'', nq_Hash = ''sha256'',
     nq_Chunks = [\<lparr>cd_SHA256 = hex_encode (digest_bytes (sha256 [7])), cd_Length = 1\<rparr>,
                  \<lparr>cd_SHA256 = hex_encode (digest_bytes (sha256 [7])), cd_Length = 1\<rparr>]\<rparr>"

lemma sample_negotiate_answer:
  "handleSyncNegotiate (\<lambda>_. Some sample_negotiate) (\<lambda>_. False) [] empty_cas = Inr [hex_encode (digest_bytes (sha256 [7]))]"
  by (simp add: handleSyncNegotiate_def sample_negotiate_def validateSyncProtocolFields_def zeros3SyncProtocolVersion_def
      zeros3SyncCDCFormat_def zeros3SyncHashAlgorithm_def maxSyncBatchDescriptors_def normalizedSyncDigest_def
      maxSyncChunkBytes_def cdcMaxChunkSize_def casStat_def casStatLocked_def empty_cas_def ps_lookup_def ps_best_def)

theorem negotiation_is_exact_witness:
  "distinct [hex_encode (digest_bytes (sha256 [7]))] \<and> \<not> stored (sha256 [7]) empty_cas"
proof -
  let ?d = "\<lparr>cd_SHA256 = hex_encode (digest_bytes (sha256 [7])), cd_Length = 1\<rparr>"
  have d: "?d \<in> set (nq_Chunks sample_negotiate)" "decodeHexSHA256 (cd_SHA256 ?d) = Some (sha256 [7])"
    by (simp_all add: sample_negotiate_def)
  from negotiation_is_exact [OF sample_negotiate_answer] have "distinct [hex_encode (digest_bytes (sha256 [7]))]"
    "\<exists>dg. decodeHexSHA256 (cd_SHA256 ?d) = Some dg
       \<and> (hex_encode (digest_bytes dg) \<in> set [hex_encode (digest_bytes (sha256 [7]))] \<longleftrightarrow> False \<or> \<not> stored dg empty_cas)"
    using d(1) by blast+
  with d(2) show ?thesis by simp
qed

text \<open>
  C33: A commit is all or nothing, and verified. On every outcome \<open>handleSyncCommit\<close> writes no chunk and loses no
  manifest. If it fails, the namespace is the one before. If it succeeds, the precondition held on the
  entry it replaced at that moment, every descriptor of the request was read back with its digest and
  its length, only that key changed, and its verified manifest lists exactly those chunks, with the length,
  the MD5 ETag and the SHA-256 of their concatenation.
\<close>

theorem sync_commit_contract:
  assumes "handleSyncCommit J M Z unmarshal fails pe body sy = (out, sy')"
    and "fmlookup (sy_manifests sy) (e_uuid (pe_build pe)) = None" and "man_ok M"
  shows "commit_effect M Z fails pe (unmarshal body) sy out sy'"
  using assms by (rule handleSyncCommit_spec)

definition sample_commit_request :: syncCommitRequest where
  "sample_commit_request = \<lparr>yc_Protocol = 1, yc_CDC = ''gear-v1'', yc_Hash = ''sha256'', yc_Bucket = ''b'', yc_Key = ''c'',
     yc_ContentType = ''text/plain'', yc_Metadata = fmempty,
     yc_Chunks = [\<lparr>cd_SHA256 = hex_encode (digest_bytes (sha256 [7])), cd_Length = 1\<rparr>], yc_ExpectAbsent = True, yc_ExpectedETag = []\<rparr>"

lemma copy_sys_read: "casRead stored_flate False (sha256 [7]) (sy_cas copy_sys) = Inr [7]"
  by (simp add: copy_sys_def casRead_def casReadExcluding_def empty_cas_def readLooseCopy_def appendLocs_def)

lemma sample_commit_succeeds:
  "\<exists>rs sy'. handleSyncCommit (sample_json ''c'' source_man) (sample_codec source_man) stored_flate (\<lambda>_. Some sample_commit_request)
     (\<lambda>_. False) sample_pe [] copy_sys = (Inr rs, sy')"
proof -
  have ck: "commitChunks stored_flate (\<lambda>_. False) (sy_cas copy_sys) (yc_Chunks sample_commit_request) [] 0 [] = Inr ([7], 1, [chunk_ref [7]])"
    by (simp add: sample_commit_request_def normalizedSyncDigest_def maxSyncChunkBytes_def cdcMaxChunkSize_def copy_sys_read chunk_ref_def)
  have man: "buildManifestV1FromRefs (pe_build sample_pe) [chunk_ref [7]] 1 (sha256 [7]) (hex_encode (md5 [7])) ''text/plain'' fmempty = source_man"
    by (simp add: source_man_def sample_pe_def)
  have m: "man_ManifestUUID source_man = ''u''" by (simp add: source_man_def buildManifestV1FromRefs_def sample_env_def)
  have v: "validateSyncProtocolFields (yc_Protocol sample_commit_request) (yc_CDC sample_commit_request) (yc_Hash sample_commit_request)"
    by (simp add: sample_commit_request_def validateSyncProtocolFields_def zeros3SyncProtocolVersion_def
        zeros3SyncCDCFormat_def zeros3SyncHashAlgorithm_def)
  obtain sy1 where pub: "publishManifest (sample_codec source_man) (pe_man sample_pe) source_man copy_sys = (Inr (''u'', sha256 [1]), sy1)"
    and st: "sy_store sy1 = sy_store copy_sys"
    by (simp add: publishManifest_def writeFileDurable_def sample_codec_def m sample_pe_def)
  have "\<exists>entry st. commitObjectRootChecked (sample_json ''c'' source_man) (pe_env sample_pe) ''b'' ''c'' ''u'' (sha256 [1]) source_man
      (Some (syncPrecondition_check True [])) (sy_store copy_sys) = (Inr entry, st)"
    by (simp add: commitObjectRootChecked_def copy_sys_def sample_sys_def syncPrecondition_check_def appendRecord_def appendFrame_def
        empty_journal_def sample_json_def table_codec_def commit_payload_def sample_pe_def sample_env_def maxJournalPayload_def Let_def
        archivePrevious_def)
  then obtain entry st where c: "commitObjectRootChecked (sample_json ''c'' source_man) (pe_env sample_pe) ''b'' ''c'' ''u'' (sha256 [1])
      source_man (Some (syncPrecondition_check True [])) (sy_store copy_sys) = (Inr entry, st)" by blast
  have f: "yc_Bucket sample_commit_request = ''b''" "yc_Key sample_commit_request = ''c''" "yc_ContentType sample_commit_request = ''text/plain''"
    "yc_Metadata sample_commit_request = fmempty" "yc_ExpectAbsent sample_commit_request" "yc_ExpectedETag sample_commit_request = []"
    by (simp_all add: sample_commit_request_def)
  show ?thesis by (simp add: handleSyncCommit_def v ck Let_def f man pub st c)
qed

theorem sync_commit_contract_witness:
  "\<exists>rs sy' man. handleSyncCommit (sample_json ''c'' source_man) (sample_codec source_man) stored_flate (\<lambda>_. Some sample_commit_request)
       (\<lambda>_. False) sample_pe [] copy_sys = (Inr rs, sy') \<and> rs_Size rs = 1
     \<and> HeadObject (sample_codec source_man) (\<lambda>_. False) ''b'' ''c'' sy' = Inr man"
proof -
  obtain rs sy' where c: "handleSyncCommit (sample_json ''c'' source_man) (sample_codec source_man) stored_flate
      (\<lambda>_. Some sample_commit_request) (\<lambda>_. False) sample_pe [] copy_sys = (Inr rs, sy')"
    using sample_commit_succeeds by blast
  have f: "fmlookup (sy_manifests copy_sys) (e_uuid (pe_build sample_pe)) = None" by (simp add: copy_sys_def sample_pe_def sample_env_def)
  have ce: "commit_effect (sample_codec source_man) stored_flate (\<lambda>_. False) sample_pe (Some sample_commit_request) copy_sys (Inr rs) sy'"
    by (rule sync_commit_contract [OF c f sample_codec_ok])
  from this [unfolded commit_effect_def, THEN conjunct2, THEN conjunct2, THEN conjunct2, THEN spec, THEN mp, OF refl]
  obtain parts entry where p: "list_all2 (desc_read stored_flate (\<lambda>_. False) (sy_cas copy_sys)) (yc_Chunks sample_commit_request) parts"
    and r: "rs_Size rs = oe_size entry" "oe_size entry = int (length (concat parts))"
    and h: "\<forall>mf. \<not> mf (e_uuid (pe_build sample_pe)) \<longrightarrow> (\<exists>man. HeadObject (sample_codec source_man) mf
      (yc_Bucket sample_commit_request) (yc_Key sample_commit_request) sy' = Inr (entry, man))"
    by (elim exE conjE) (simp only: option.inject syncCommitResponse.select_convs, blast)
  have y: "yc_Chunks sample_commit_request = [chunk]" if "chunk = \<lparr>cd_SHA256 = hex_encode (digest_bytes (sha256 [7])), cd_Length = 1\<rparr>" for chunk
    by (simp add: sample_commit_request_def that)
  from p [unfolded y [OF refl]] obtain q where q: "parts = [q]" "1 = int (length q)"
    unfolding list_all2_Cons1 by (auto simp only: desc_read_def list_all2_Nil syncChunkDescriptor.select_convs)
  have "yc_Bucket sample_commit_request = ''b''" "yc_Key sample_commit_request = ''c''" by (simp_all add: sample_commit_request_def)
  with h obtain man where "HeadObject (sample_codec source_man) (\<lambda>_. False) ''b'' ''c'' sy' = Inr (entry, man)" by fastforce
  moreover have "rs_Size rs = 1" using q r by simp
  ultimately show ?thesis using c by blast
qed

end
