(* ===== verification/SyncClient.thy ===== *)
theory SyncClient
  imports Sync
begin

text \<open>
  The parts of the sync client (\<^verbatim>\<open>zeros3.go\<close>, section 15b) that do not depend on the transport version, and the transport of
  version 1: the local scan, the plan of unique chunks, batched negotiation, uploads by concurrent workers,
  the observation of the destination and the commit. \<open>SyncFile\<close> puts them together.
\<close>

section \<open>The local file\<close>

record syncLocalChunk =
  lc_SHA256 :: string
  lc_Length :: int
  lc_Offset :: int

partial_function (option) scanLoop ::
  "'r reader \<Rightarrow> 'r cdcChunker \<Rightarrow> syncLocalChunk list \<Rightarrow> int \<Rightarrow> (unit + syncLocalChunk list \<times> int) option" where
  "scanLoop rd c chunks offset =
     (case nextView rd c of
        None \<Rightarrow> None
      | Some v \<Rightarrow>
          (case v of
             ViewError \<Rightarrow> Some (Inl ())
           | ViewEOF \<Rightarrow> Some (Inr (chunks, offset))
           | ViewChunk chunk c1 \<Rightarrow>
               scanLoop rd c1
                 (chunks @ [\<lparr>lc_SHA256 = hex_encode (digest_bytes (sha256 chunk)), lc_Length = int (length chunk), lc_Offset = offset\<rparr>])
                 (offset + int (length chunk))))"

definition scanLocalFileForSync :: "'r reader \<Rightarrow> 'r \<Rightarrow> (unit + syncLocalChunk list \<times> int) option" where
  "scanLocalFileForSync rd r = scanLoop rd (newCDCChunker r) [] 0"

text \<open>Reading a range of a file whose contents are \<open>file\<close> at that moment; \<open>None\<close> when it cannot be opened.\<close>

definition readSyncFileRange :: "bytes option \<Rightarrow> int \<Rightarrow> int \<Rightarrow> bytes option" where
  "readSyncFileRange file offset len =
     (case file of
        None \<Rightarrow> None
      | Some content \<Rightarrow>
          let buf = take (nat len) (drop (nat offset) content) in if int (length buf) < len then None else Some buf)"

section \<open>The plan\<close>

record syncPlan =
  yp_ordered :: "syncLocalChunk list"
  yp_unique :: "syncChunkDescriptor list"
  yp_offsetBySHA :: "(string, int) fmap"
  yp_logicalBytes :: int

fun syncPlanLoop :: "syncLocalChunk list \<Rightarrow> string set \<Rightarrow> syncPlan \<Rightarrow> syncPlan" where
  "syncPlanLoop [] seen plan = plan"
| "syncPlanLoop (c # cs) seen plan =
     (if lc_SHA256 c \<in> seen then syncPlanLoop cs seen plan
      else syncPlanLoop cs (insert (lc_SHA256 c) seen)
             (plan\<lparr>yp_unique := yp_unique plan @ [\<lparr>cd_SHA256 = lc_SHA256 c, cd_Length = lc_Length c\<rparr>],
                   yp_offsetBySHA := fmupd (lc_SHA256 c) (lc_Offset c) (yp_offsetBySHA plan)\<rparr>))"

definition buildSyncPlan :: "syncLocalChunk list \<Rightarrow> int \<Rightarrow> syncPlan" where
  "buildSyncPlan chunks total' =
     syncPlanLoop chunks {} \<lparr>yp_ordered = chunks, yp_unique = [], yp_offsetBySHA = fmempty, yp_logicalBytes = total'\<rparr>"

section \<open>Requests\<close>

text \<open>A request can be lost on its way, or its response can, after the server has acted on it.\<close>

datatype net = NetOk | NetRequestLost | NetResponseLost

definition exchange :: "net \<Rightarrow> ('s \<Rightarrow> 'a \<times> 's) \<Rightarrow> 's \<Rightarrow> 'a option \<times> 's" where
  "exchange n handler s =
     (case n of
        NetRequestLost \<Rightarrow> (None, s)
      | NetOk \<Rightarrow> (case handler s of (a, s') \<Rightarrow> (Some a, s'))
      | NetResponseLost \<Rightarrow> (None, snd (handler s)))"

datatype sync_failure = SyncTransport | SyncStatus sync_error | SyncResponse | SyncHead | SyncScan | SyncMarshal
  | SyncLocalMutation | SyncRemoteConflict | SyncCanceled | SyncStat | SyncReadFile | SyncPut put_error
  | SyncDiscoveryStatus | SyncNoDelta | SyncIncompatible

record sync_codec =
  sc_marshalNegotiate :: "syncNegotiateRequest \<Rightarrow> bytes option"
  sc_unmarshalNegotiate :: "bytes \<Rightarrow> syncNegotiateRequest option"
  sc_marshalCommit :: "syncCommitRequest \<Rightarrow> bytes option"
  sc_unmarshalCommit :: "bytes \<Rightarrow> syncCommitRequest option"

section \<open>Negotiation\<close>

function negotiateBatches ::
  "(nat \<Rightarrow> syncChunkDescriptor list \<Rightarrow> sync_failure + string list) \<Rightarrow> nat \<Rightarrow> nat \<Rightarrow> syncChunkDescriptor list \<Rightarrow> string set
    \<Rightarrow> sync_failure + string set" where
  "negotiateBatches ask batchSize n unique missing =
     (if unique = [] \<or> batchSize = 0 then Inr missing
      else case ask n (take batchSize unique) of
        Inl e \<Rightarrow> Inl e
      | Inr m \<Rightarrow> negotiateBatches ask batchSize (Suc n) (drop batchSize unique) (missing \<union> set m))"
  by pat_completeness auto
termination by (relation "measure (\<lambda>(_, _, _, unique, _). length unique)") auto

definition negotiateBatchSize :: "syncDiscoveryResponse \<Rightarrow> nat" where
  "negotiateBatchSize discovery =
     (if di_MaxHashesPerBatch discovery \<le> 0 \<or> di_MaxHashesPerBatch discovery > int maxSyncBatchDescriptors
      then maxSyncBatchDescriptors else nat (di_MaxHashesPerBatch discovery))"

definition askMissing ::
  "sync_codec \<Rightarrow> net \<Rightarrow> (digest \<Rightarrow> bool) \<Rightarrow> casState \<Rightarrow> syncChunkDescriptor list \<Rightarrow> sync_failure + string list" where
  "askMissing C n fails s chunks =
     (case sc_marshalNegotiate C \<lparr>nq_Protocol = zeros3SyncProtocolVersion, nq_CDC = zeros3SyncCDCFormat,
              nq_Hash = zeros3SyncHashAlgorithm, nq_Chunks = chunks\<rparr> of
        None \<Rightarrow> Inl SyncMarshal
      | Some body \<Rightarrow>
          (case fst (exchange n (\<lambda>s. (handleSyncNegotiate (sc_unmarshalNegotiate C) fails body s, s)) s) of
             None \<Rightarrow> Inl SyncTransport
           | Some (Inl e) \<Rightarrow> Inl (SyncStatus e)
           | Some (Inr m) \<Rightarrow> Inr m))"

definition negotiateV1 ::
  "sync_codec \<Rightarrow> (nat \<Rightarrow> net) \<Rightarrow> (digest \<Rightarrow> bool) \<Rightarrow> syncDiscoveryResponse \<Rightarrow> syncChunkDescriptor list \<Rightarrow> casState
    \<Rightarrow> sync_failure + string set" where
  "negotiateV1 C nets fails discovery unique s =
     negotiateBatches (\<lambda>n. askMissing C (nets n) fails s) (negotiateBatchSize discovery) 0 unique {}"

section \<open>Workers\<close>

text \<open>
  \<^verbatim>\<open>runTransferWorkers\<close> starts items concurrently and stops starting them after an error. A schedule lists the
  items that ran, in the order in which they took effect; every other item is recorded as cancelled.
  Entries of a schedule that are no item, or repeat one, mean nothing.
\<close>

fun runStarted :: "(nat \<Rightarrow> 's \<Rightarrow> (sync_failure + unit) \<times> 's) \<Rightarrow> nat list \<Rightarrow> 's \<Rightarrow> (nat \<times> (sync_failure + unit)) list \<times> 's" where
  "runStarted work [] s = ([], s)"
| "runStarted work (i # is') s =
     (case work i s of (r, s1) \<Rightarrow> (case runStarted work is' s1 of (outs, s2) \<Rightarrow> ((i, r) # outs, s2)))"

definition runTransferWorkers ::
  "(nat \<Rightarrow> 's \<Rightarrow> (sync_failure + unit) \<times> 's) \<Rightarrow> nat \<Rightarrow> nat list \<Rightarrow> 's \<Rightarrow> (sync_failure + unit) list \<times> 's" where
  "runTransferWorkers work n sched s =
     (case runStarted work (remdups (filter (\<lambda>i. i < n) sched)) s of
        (outs, s') \<Rightarrow> (map (\<lambda>i. case map_of outs i of None \<Rightarrow> Inl SyncCanceled | Some r \<Rightarrow> r) [0..<n], s'))"

fun firstGenuine :: "(sync_failure + unit) list \<Rightarrow> sync_failure option \<Rightarrow> sync_failure option" where
  "firstGenuine [] fallback = fallback"
| "firstGenuine (Inr _ # rs) fallback = firstGenuine rs fallback"
| "firstGenuine (Inl e # rs) fallback =
     (if e \<noteq> SyncCanceled then Some e else firstGenuine rs (if fallback = None then Some e else fallback))"

definition firstTransferError :: "(sync_failure + unit) list \<Rightarrow> sync_failure option" where
  "firstTransferError results = firstGenuine results None"

section \<open>Uploads\<close>

definition putSyncChunk ::
  "net \<Rightarrow> cas_io \<Rightarrow> cas_io \<Rightarrow> string \<Rightarrow> bytes \<Rightarrow> casState \<Rightarrow> (sync_failure + unit) \<times> casState" where
  "putSyncChunk n io io' hexDigest data s =
     (case exchange n (handleSyncChunkUpload io io' hexDigest data) s of
        (None, s') \<Rightarrow> (Inl SyncTransport, s')
      | (Some (Inl e), s') \<Rightarrow> (Inl (SyncStatus e), s')
      | (Some (Inr _), s') \<Rightarrow> (Inr (), s'))"

definition uploadItem ::
  "net \<Rightarrow> cas_io \<Rightarrow> cas_io \<Rightarrow> bytes option \<Rightarrow> syncPlan \<Rightarrow> syncChunkDescriptor \<Rightarrow> casState \<Rightarrow> (sync_failure + unit) \<times> casState" where
  "uploadItem n io io' file plan d s =
     (case readSyncFileRange file (case fmlookup (yp_offsetBySHA plan) (cd_SHA256 d) of None \<Rightarrow> 0 | Some x \<Rightarrow> x) (cd_Length d) of
        None \<Rightarrow> (Inl SyncLocalMutation, s)
      | Some data \<Rightarrow>
          if hex_encode (digest_bytes (sha256 data)) \<noteq> cd_SHA256 d then (Inl SyncLocalMutation, s)
          else putSyncChunk n io io' (cd_SHA256 d) data s)"

definition uploadMissingSyncChunks ::
  "(nat \<Rightarrow> net) \<Rightarrow> (nat \<Rightarrow> cas_io) \<Rightarrow> (nat \<Rightarrow> cas_io) \<Rightarrow> (nat \<Rightarrow> bytes option) \<Rightarrow> nat list \<Rightarrow> syncPlan \<Rightarrow> string set \<Rightarrow> casState
    \<Rightarrow> (sync_failure + int) \<times> casState" where
  "uploadMissingSyncChunks nets ios ios' files sched plan missing s =
     (let items = filter (\<lambda>d. cd_SHA256 d \<in> missing) (yp_unique plan) in
      case runTransferWorkers (\<lambda>i. uploadItem (nets i) (ios i) (ios' i) (files i) plan (items ! i)) (length items) sched s of
        (results, s') \<Rightarrow>
          (case firstTransferError results of
             Some e \<Rightarrow> (Inl e, s')
           | None \<Rightarrow> (Inr (\<Sum>d \<leftarrow> items. cd_Length d), s')))"


section \<open>The destination and the commit\<close>

text \<open>
  \<^verbatim>\<open>headSyncDestination\<close>: the S3 HEAD of the destination; its \<^verbatim>\<open>ETag\<close> header is quoted, and the quotes are trimmed
  again.
\<close>

definition headSyncDestination ::
  "net \<Rightarrow> man_codec \<Rightarrow> (string \<Rightarrow> bool) \<Rightarrow> string \<Rightarrow> string \<Rightarrow> system \<Rightarrow> sync_failure + bool \<times> string" where
  "headSyncDestination n M fails bucket key sy =
     (case fst (exchange n (\<lambda>s. (HeadObject M fails bucket key s, s)) sy) of
        None \<Rightarrow> Inl SyncTransport
      | Some (Inr (entry, _)) \<Rightarrow> Inr (True, str_trim [CHR 0x22] ([CHR 0x22] @ oe_etag entry @ [CHR 0x22]))
      | Some (Inl e) \<Rightarrow> if e = ErrNoSuchBucket \<or> e = ErrNoSuchKey then Inr (False, []) else Inl SyncHead)"

record syncPrecondition =
  yq_expectAbsent :: bool
  yq_expectedETag :: string

definition orderedChunks :: "syncPlan \<Rightarrow> syncChunkDescriptor list" where
  "orderedChunks plan = map (\<lambda>c. \<lparr>cd_SHA256 = lc_SHA256 c, cd_Length = lc_Length c\<rparr>) (yp_ordered plan)"

definition commitSyncObject ::
  "sync_codec \<Rightarrow> json_codec \<Rightarrow> man_codec \<Rightarrow> flate_codec \<Rightarrow> (digest \<Rightarrow> bool) \<Rightarrow> put_env \<Rightarrow> net \<Rightarrow> string \<Rightarrow> string \<Rightarrow> string
    \<Rightarrow> (string, string) fmap \<Rightarrow> syncPlan \<Rightarrow> syncPrecondition \<Rightarrow> system \<Rightarrow> (sync_failure + syncCommitResponse) \<times> system" where
  "commitSyncObject C J M Z fails pe n bucket key ct md plan pre sy =
     (case sc_marshalCommit C
             \<lparr>yc_Protocol = zeros3SyncProtocolVersion, yc_CDC = zeros3SyncCDCFormat, yc_Hash = zeros3SyncHashAlgorithm,
              yc_Bucket = bucket, yc_Key = key, yc_ContentType = (if ct = [] then ''application/octet-stream'' else ct),
              yc_Metadata = md, yc_Chunks = orderedChunks plan, yc_ExpectAbsent = yq_expectAbsent pre,
              yc_ExpectedETag = yq_expectedETag pre\<rparr> of
        None \<Rightarrow> (Inl SyncMarshal, sy)
      | Some body \<Rightarrow>
          (case exchange n (handleSyncCommit J M Z (sc_unmarshalCommit C) fails pe body) sy of
             (None, sy') \<Rightarrow> (Inl SyncTransport, sy')
           | (Some (Inr rs), sy') \<Rightarrow> (Inr rs, sy')
           | (Some (Inl e), sy') \<Rightarrow> (Inl (if e = SyncPreconditionFailed then SyncRemoteConflict else SyncStatus e), sy')))"

section \<open>Scan and plan\<close>

fun local_chunks :: "int \<Rightarrow> bytes list \<Rightarrow> syncLocalChunk list" where
  "local_chunks off [] = []"
| "local_chunks off (p # ps) =
     \<lparr>lc_SHA256 = hex_encode (digest_bytes (sha256 p)), lc_Length = int (length p), lc_Offset = off\<rparr> # local_chunks (off + int (length p)) ps"

lemma scanLoop_correct:
  "stream rd c xs \<Longrightarrow> chunker_ok c \<Longrightarrow> scanLoop rd c acc off
     = Some (Inr (acc @ local_chunks off (cdcChunks (pending c @ xs)), off + int (length (pending c @ xs))))"
proof (induction "length (pending c @ xs)" arbitrary: c xs acc off rule: less_induct)
  case less
  note v = nextView_correct [OF less.prems]
  show ?case
  proof (cases "pending c @ xs = []")
    case True
    with v show ?thesis by (subst scanLoop.simps) simp
  next
    case False
    with v obtain n c' zs where nv: "nextView rd c = Some (ViewChunk (take n (pending c @ xs)) c')"
      and ch: "cdcChunks (pending c @ xs) = take n (pending c @ xs) # cdcChunks (drop n (pending c @ xs))"
      and n: "0 < n" and p: "pending c' @ zs = drop n (pending c @ xs)" and st: "stream rd c' zs" "chunker_ok c'"
      by auto
    have "length (pending c' @ zs) < length (pending c @ xs)"
      using n False unfolding p by (metis diff_less length_drop length_greater_0_conv)
    from less.hyps [OF this st, unfolded p] show ?thesis
      using nv ch by (subst scanLoop.simps) (simp add: min_def)
  qed
qed

lemma scanLocalFileForSync_correct:
  "delivers rd r xs \<Longrightarrow> scanLocalFileForSync rd r = Some (Inr (local_chunks 0 (cdcChunks xs), int (length xs)))"
  using scanLoop_correct [of rd "newCDCChunker r" xs "[]" 0]
  by (simp add: scanLocalFileForSync_def)

definition chunk_desc :: "bytes \<Rightarrow> syncChunkDescriptor" where
  "chunk_desc p = \<lparr>cd_SHA256 = hex_encode (digest_bytes (sha256 p)), cd_Length = int (length p)\<rparr>"

lemma orderedChunks_plan: "yp_ordered plan = local_chunks off ps \<Longrightarrow> orderedChunks plan = map chunk_desc ps"
proof -
  have "map (\<lambda>c. \<lparr>cd_SHA256 = lc_SHA256 c, cd_Length = lc_Length c\<rparr>) (local_chunks off ps) = map chunk_desc ps"
    by (induction ps arbitrary: off) (simp_all add: chunk_desc_def)
  then show "yp_ordered plan = local_chunks off ps \<Longrightarrow> orderedChunks plan = map chunk_desc ps" by (simp add: orderedChunks_def)
qed

lemma syncPlanLoop_fixed [simp]:
  "yp_ordered (syncPlanLoop cs seen plan) = yp_ordered plan" "yp_logicalBytes (syncPlanLoop cs seen plan) = yp_logicalBytes plan"
  by (induction cs seen plan rule: syncPlanLoop.induct) simp_all

text \<open>A plan names every chunk once, and where it is in the file.\<close>

definition plan_ok :: "bytes list \<Rightarrow> syncPlan \<Rightarrow> bool" where
  "plan_ok ps plan \<longleftrightarrow> distinct (map cd_SHA256 (yp_unique plan))
     \<and> (\<forall>d \<in> set (yp_unique plan). \<exists>a p b. ps = a @ p # b \<and> d = chunk_desc p
          \<and> fmlookup (yp_offsetBySHA plan) (cd_SHA256 d) = Some (int (length (concat a))))"

lemma plan_ok_append: "plan_ok ps plan \<Longrightarrow> plan_ok (ps @ qs) plan"
  unfolding plan_ok_def by (metis append.assoc append_Cons)

lemma syncPlanLoop_ok:
  "plan_ok a plan \<Longrightarrow> seen = cd_SHA256 ` set (yp_unique plan) \<Longrightarrow>
     plan_ok (a @ ps) (syncPlanLoop (local_chunks (int (length (concat a))) ps) seen plan)
     \<and> cd_SHA256 ` set (yp_unique (syncPlanLoop (local_chunks (int (length (concat a))) ps) seen plan))
         = seen \<union> (\<lambda>p. hex_encode (digest_bytes (sha256 p))) ` set ps"
proof (induction ps arbitrary: a seen plan)
  case (Cons p ps)
  let ?h = "hex_encode (digest_bytes (sha256 p))"
  have off: "int (length (concat a)) + int (length p) = int (length (concat (a @ [p])))" by simp
  show ?case
  proof (cases "?h \<in> seen")
    case True
    with Cons.IH [OF plan_ok_append [OF Cons.prems(1), of "[p]"] Cons.prems(2)] show ?thesis
      by (auto simp: off simp del: concat_append)
  next
    case False
    let ?plan = "plan\<lparr>yp_unique := yp_unique plan @ [\<lparr>cd_SHA256 = ?h, cd_Length = int (length p)\<rparr>],
      yp_offsetBySHA := fmupd ?h (int (length (concat a))) (yp_offsetBySHA plan)\<rparr>"
    have "plan_ok (a @ [p]) ?plan"
      unfolding plan_ok_def
    proof (intro conjI ballI)
      show "distinct (map cd_SHA256 (yp_unique ?plan))"
        using Cons.prems False by (auto simp: plan_ok_def)
      fix d assume "d \<in> set (yp_unique ?plan)"
      then consider "d = chunk_desc p" | "d \<in> set (yp_unique plan)" by (auto simp: chunk_desc_def)
      then show "\<exists>a' q b. a @ [p] = a' @ q # b \<and> d = chunk_desc q
          \<and> fmlookup (yp_offsetBySHA ?plan) (cd_SHA256 d) = Some (int (length (concat a')))"
      proof cases
        case 1
        then show ?thesis by (intro exI [of _ a] exI [of _ p] exI [of _ "[]"]) (simp add: chunk_desc_def)
      next
        case 2
        then have "cd_SHA256 d \<noteq> ?h" using False Cons.prems(2) by force
        with 2 plan_ok_append [OF Cons.prems(1), of "[p]"] show ?thesis by (simp add: plan_ok_def)
      qed
    qed
    from Cons.IH [OF this, of "insert ?h seen"] Cons.prems(2) False show ?thesis
      by (auto simp: off simp del: concat_append)
  qed
qed simp

lemma buildSyncPlan_ok:
  "plan_ok (cdcChunks xs) (buildSyncPlan (local_chunks 0 (cdcChunks xs)) n)"
  "cd_SHA256 ` set (yp_unique (buildSyncPlan (local_chunks 0 (cdcChunks xs)) n))
     = (\<lambda>p. hex_encode (digest_bytes (sha256 p))) ` set (cdcChunks xs)"
  "orderedChunks (buildSyncPlan (local_chunks 0 (cdcChunks xs)) n) = map chunk_desc (cdcChunks xs)"
proof -
  let ?p = "\<lparr>yp_ordered = local_chunks 0 (cdcChunks xs), yp_unique = [], yp_offsetBySHA = fmempty, yp_logicalBytes = n\<rparr>"
  have "plan_ok [] ?p" by (simp add: plan_ok_def)
  from syncPlanLoop_ok [OF this, of "{}" "cdcChunks xs"]
  show "plan_ok (cdcChunks xs) (buildSyncPlan (local_chunks 0 (cdcChunks xs)) n)"
    "cd_SHA256 ` set (yp_unique (buildSyncPlan (local_chunks 0 (cdcChunks xs)) n))
     = (\<lambda>p. hex_encode (digest_bytes (sha256 p))) ` set (cdcChunks xs)"
    by (simp_all add: buildSyncPlan_def)
  show "orderedChunks (buildSyncPlan (local_chunks 0 (cdcChunks xs)) n) = map chunk_desc (cdcChunks xs)"
    by (rule orderedChunks_plan) (simp add: buildSyncPlan_def)
qed

section \<open>Workers and uploads\<close>

lemma firstGenuine_None: "firstGenuine rs fb = None \<longleftrightarrow> fb = None \<and> (\<forall>r \<in> set rs. is_ok r)"
  by (induction rs fb rule: firstGenuine.induct) auto

lemma firstTransferError_None: "firstTransferError rs = None \<longleftrightarrow> (\<forall>r \<in> set rs. is_ok r)"
  by (simp add: firstTransferError_def firstGenuine_None)

text \<open>An invariant of the items and what each of them achieves for good hold after any schedule.\<close>

lemma runStarted_inv:
  assumes "runStarted work sched s = (outs, s')" "I s"
    and "\<And>i t r t'. i \<in> set sched \<Longrightarrow> I t \<Longrightarrow> work i t = (r, t') \<Longrightarrow> I t' \<and> (\<forall>x. Q x t \<longrightarrow> Q x t') \<and> (is_ok r \<longrightarrow> Q (f i) t')"
  shows "I s' \<and> (\<forall>x. Q x s \<longrightarrow> Q x s') \<and> map fst outs = sched \<and> (\<forall>(i, r) \<in> set outs. is_ok r \<longrightarrow> Q (f i) s')"
  using assms
proof (induction sched arbitrary: s outs s')
  case (Cons i sched)
  obtain r s1 where w: "work i s = (r, s1)" by fastforce
  obtain outs1 s2 where rs: "runStarted work sched s1 = (outs1, s2)" by fastforce
  have o: "outs = (i, r) # outs1" "s' = s2" using Cons.prems(1) w rs by auto
  have st: "I s1 \<and> (\<forall>x. Q x s \<longrightarrow> Q x s1) \<and> (is_ok r \<longrightarrow> Q (f i) s1)" by (rule Cons.prems(3) [OF _ Cons.prems(2) w]) simp
  have "I s2 \<and> (\<forall>x. Q x s1 \<longrightarrow> Q x s2) \<and> map fst outs1 = sched \<and> (\<forall>(i, r) \<in> set outs1. is_ok r \<longrightarrow> Q (f i) s2)"
    by (rule Cons.IH [OF rs conjunct1 [OF st]], rule Cons.prems(3)) simp_all
  with st show ?case by (auto simp: o)
qed simp

lemma runTransferWorkers_inv:
  assumes "runTransferWorkers work n sched s = (results, s')" "I s"
    and "\<And>i t r t'. i < n \<Longrightarrow> I t \<Longrightarrow> work i t = (r, t') \<Longrightarrow> I t' \<and> (\<forall>x. Q x t \<longrightarrow> Q x t') \<and> (is_ok r \<longrightarrow> Q (f i) t')"
  shows "I s' \<and> (\<forall>x. Q x s \<longrightarrow> Q x s') \<and> ((\<forall>r \<in> set results. is_ok r) \<longrightarrow> (\<forall>i < n. Q (f i) s'))"
proof -
  let ?sched = "remdups (filter (\<lambda>i. i < n) sched)"
  obtain outs where r: "runStarted work ?sched s = (outs, s')"
    and res: "results = map (\<lambda>i. case map_of outs i of None \<Rightarrow> Inl SyncCanceled | Some r \<Rightarrow> r) [0..<n]"
    using assms(1) by (auto simp: runTransferWorkers_def split: prod.splits)
  have inv: "I s' \<and> (\<forall>x. Q x s \<longrightarrow> Q x s') \<and> map fst outs = ?sched \<and> (\<forall>(i, r) \<in> set outs. is_ok r \<longrightarrow> Q (f i) s')"
    by (rule runStarted_inv [where work = work, OF r, where I = I and Q = Q and f = f, OF assms(2)]) (rule assms(3); simp)
  have "Q (f i) s'" if "\<forall>r \<in> set results. is_ok r" "i < n" for i
  proof -
    have "(case map_of outs i of None \<Rightarrow> Inl SyncCanceled | Some r \<Rightarrow> r) \<in> set results" using that(2) by (simp add: res)
    with that(1) obtain u where "map_of outs i = Some (Inr u)" by (cases "map_of outs i") fastforce+
    with map_of_SomeD [OF this] inv show ?thesis by auto
  qed
  with inv show ?thesis by blast
qed

lemma uploadItem_effect:
  assumes "uploadItem n io io' file plan d s = (r, s')" "store_ready Z s" "order_ok io" "order_ok io'"
  shows "store_ready Z s' \<and> (\<forall>dg. stored dg s \<longrightarrow> stored dg s')
    \<and> (is_ok r \<longrightarrow> (\<exists>dg. cd_SHA256 d = hex_encode (digest_bytes dg) \<and> stored dg s'))"
proof -
  have "s' = s \<and> \<not> is_ok r \<or> (\<exists>data. hex_encode (digest_bytes (sha256 data)) = cd_SHA256 d
      \<and> putSyncChunk n io io' (cd_SHA256 d) data s = (r, s'))"
    using assms(1) by (auto simp: uploadItem_def split: option.splits if_splits)
  then consider "s' = s" "\<not> is_ok r" | data where "hex_encode (digest_bytes (sha256 data)) = cd_SHA256 d"
    "putSyncChunk n io io' (cd_SHA256 d) data s = (r, s')" by blast
  then show ?thesis
  proof cases
    case 1
    then show ?thesis using assms(2) by auto
  next
    case 2
    obtain u s1 where h: "handleSyncChunkUpload io io' (cd_SHA256 d) data s = (u, s1)" by fastforce
    note e = handleSyncChunkUpload_effect [OF h assms(2-4)]
    have "s' = s \<and> \<not> is_ok r \<or> s' = s1 \<and> (is_ok r \<longrightarrow> is_ok u)"
      using 2(2) h by (auto simp: putSyncChunk_def exchange_def split: net.splits sum.splits)
    then show ?thesis using assms(2) e 2(1) [symmetric] by auto
  qed
qed


lemma uploadMissing_effect:
  assumes "uploadMissingSyncChunks nets ios ios' files sched plan missing s = (r, s')" "store_ready Z s"
    and "\<And>i. order_ok (ios i)" "\<And>i. order_ok (ios' i)"
  shows "store_ready Z s' \<and> (\<forall>dg. stored dg s \<longrightarrow> stored dg s')
    \<and> (is_ok r \<longrightarrow> (\<forall>d \<in> set (yp_unique plan). cd_SHA256 d \<in> missing \<longrightarrow>
         (\<exists>dg. cd_SHA256 d = hex_encode (digest_bytes dg) \<and> stored dg s')))"
proof -
  define items where "items = filter (\<lambda>d. cd_SHA256 d \<in> missing) (yp_unique plan)"
  define Q where "Q h t \<longleftrightarrow> (\<exists>dg. h = hex_encode (digest_bytes dg) \<and> stored dg t)" for h t
  obtain results where w: "runTransferWorkers (\<lambda>i. uploadItem (nets i) (ios i) (ios' i) (files i) plan (items ! i)) (length items) sched s
      = (results, s')" and ok: "is_ok r \<longleftrightarrow> firstTransferError results = None"
    using assms(1) by (auto simp: uploadMissingSyncChunks_def items_def Let_def split: prod.splits option.splits)
  have "store_ready Z s' \<and> (\<forall>h. Q h s \<longrightarrow> Q h s') \<and> ((\<forall>r \<in> set results. is_ok r) \<longrightarrow> (\<forall>i < length items. Q (cd_SHA256 (items ! i)) s'))"
  proof (rule runTransferWorkers_inv [where work = "\<lambda>i. uploadItem (nets i) (ios i) (ios' i) (files i) plan (items ! i)"
        and I = "store_ready Z" and Q = Q and f = "\<lambda>i. cd_SHA256 (items ! i)", OF w assms(2)])
    fix i t r t'
    assume "store_ready Z t" "uploadItem (nets i) (ios i) (ios' i) (files i) plan (items ! i) t = (r, t')"
    from uploadItem_effect [OF this(2,1) assms(3,4)]
    show "store_ready Z t' \<and> (\<forall>x. Q x t \<longrightarrow> Q x t') \<and> (is_ok r \<longrightarrow> Q (cd_SHA256 (items ! i)) t')"
      unfolding Q_def by blast
  qed
  note inv = this
  have st: "stored dg t \<longleftrightarrow> Q (hex_encode (digest_bytes dg)) t" for dg t
    unfolding Q_def by (metis decodeHexSHA256_encode option.inject)
  have "\<exists>dg. cd_SHA256 d = hex_encode (digest_bytes dg) \<and> stored dg s'"
    if r: "is_ok r" and d: "d \<in> set (yp_unique plan)" "cd_SHA256 d \<in> missing" for d
  proof -
    have "d \<in> set items" using d by (simp add: items_def)
    then obtain i where "i < length items" "items ! i = d" by (metis in_set_conv_nth)
    moreover have "\<forall>r \<in> set results. is_ok r" using r ok by (simp add: firstTransferError_None)
    ultimately have "Q (cd_SHA256 d) s'" using inv by blast
    then show ?thesis by (simp add: Q_def)
  qed
  with inv show ?thesis by (simp add: st)
qed

section \<open>Negotiation\<close>

definition coerce_desc :: "syncChunkDescriptor \<Rightarrow> syncChunkDescriptor" where
  "coerce_desc d = d\<lparr>cd_SHA256 := utf8_coerce (cd_SHA256 d)\<rparr>"

definition coerce_negotiate :: "syncNegotiateRequest \<Rightarrow> syncNegotiateRequest" where
  "coerce_negotiate q = q\<lparr>nq_CDC := utf8_coerce (nq_CDC q), nq_Hash := utf8_coerce (nq_Hash q), nq_Chunks := map coerce_desc (nq_Chunks q)\<rparr>"

definition coerce_commit :: "syncCommitRequest \<Rightarrow> syncCommitRequest" where
  "coerce_commit q = q\<lparr>yc_CDC := utf8_coerce (yc_CDC q), yc_Hash := utf8_coerce (yc_Hash q), yc_Bucket := utf8_coerce (yc_Bucket q),
     yc_Key := utf8_coerce (yc_Key q), yc_ContentType := utf8_coerce (yc_ContentType q),
     yc_Chunks := map coerce_desc (yc_Chunks q), yc_ExpectedETag := utf8_coerce (yc_ExpectedETag q)\<rparr>"

text \<open>JSON gives back what was encoded, with invalid UTF-8 replaced.\<close>

definition sync_codec_ok :: "sync_codec \<Rightarrow> bool" where
  "sync_codec_ok C \<longleftrightarrow> (\<forall>q b. sc_marshalNegotiate C q = Some b \<longrightarrow> sc_unmarshalNegotiate C b = Some (coerce_negotiate q))
     \<and> (\<forall>q b. sc_marshalCommit C q = Some b \<longrightarrow>
          (\<exists>md. sc_unmarshalCommit C b = Some ((coerce_commit q)\<lparr>yc_Metadata := md\<rparr>)))"

lemma coerce_chunk_desc [simp]: "coerce_desc (chunk_desc p) = chunk_desc p"
  by (simp add: coerce_desc_def chunk_desc_def utf8_valid_hex [unfolded utf8_valid_def])

lemma coerce_chunk_descs: "\<forall>d \<in> set ds. \<exists>p. d = chunk_desc p \<Longrightarrow> map coerce_desc ds = ds"
  by (induction ds) auto

lemma askMissing_sound:
  assumes "askMissing C n fails s ds = Inr m" "sync_codec_ok C" "\<forall>d \<in> set ds. \<exists>p. d = chunk_desc p" "chunk_desc p \<in> set ds"
  shows "stored (sha256 p) s \<or> cd_SHA256 (chunk_desc p) \<in> set m"
proof -
  let ?q = "\<lparr>nq_Protocol = zeros3SyncProtocolVersion, nq_CDC = zeros3SyncCDCFormat, nq_Hash = zeros3SyncHashAlgorithm, nq_Chunks = ds\<rparr>"
  obtain body where "sc_marshalNegotiate C ?q = Some body" and h: "handleSyncNegotiate (sc_unmarshalNegotiate C) fails body s = Inr m"
    using assms(1) by (auto simp: askMissing_def exchange_def split: option.splits net.splits sum.splits)
  then have "sc_unmarshalNegotiate C body = Some (coerce_negotiate ?q)" using assms(2) by (simp add: sync_codec_ok_def)
  then have nl: "negotiateLoop fails s ds {} [] = Inr m"
    using h coerce_chunk_descs [OF assms(3)] by (auto simp: handleSyncNegotiate_def coerce_negotiate_def split: if_splits)
  have "desc_ok (chunk_desc p)" using nl assms(4) by (auto simp: negotiateLoop_eq split: if_splits)
  then have "desc_norm (chunk_desc p) = hex_encode (digest_bytes (sha256 p))"
    by (auto simp: desc_ok_def desc_norm_def normalizedSyncDigest_def chunk_desc_def split: if_splits)
  with nl assms(4) show ?thesis
    by (force simp: negotiateLoop_eq set_first_seen chunk_desc_def split: if_splits)
qed

lemma negotiateBatches_sound:
  assumes "\<And>n ds m d. ask n ds = Inr m \<Longrightarrow> set ds \<subseteq> D \<Longrightarrow> d \<in> set ds \<Longrightarrow> P d \<or> cd_SHA256 d \<in> set m"
  shows "negotiateBatches ask b n unique missing = Inr M \<Longrightarrow> 0 < b \<Longrightarrow> set unique \<subseteq> D \<Longrightarrow>
    missing \<subseteq> M \<and> (\<forall>d \<in> set unique. P d \<or> cd_SHA256 d \<in> M)"
proof (induction "length unique" arbitrary: n unique missing rule: less_induct)
  case less
  show ?case
  proof (cases "unique = []")
    case True
    then show ?thesis using less.prems by (subst (asm) negotiateBatches.simps) simp
  next
    case False
    with less.prems obtain m where a: "ask n (take b unique) = Inr m"
      and k: "negotiateBatches ask b (Suc n) (drop b unique) (missing \<union> set m) = Inr M"
      by (subst (asm) negotiateBatches.simps) (auto split: sum.splits)
    have "set (drop b unique) \<subseteq> D" "set (take b unique) \<subseteq> D" "length (drop b unique) < length unique"
      using less.prems False by (auto dest: in_set_dropD in_set_takeD)
    then have m: "missing \<union> set m \<subseteq> M" "\<forall>d \<in> set (drop b unique). P d \<or> cd_SHA256 d \<in> M"
      using less.hyps [OF _ k less.prems(2)] by blast+
    have t: "\<forall>d \<in> set (take b unique). P d \<or> cd_SHA256 d \<in> M"
      using assms [OF a \<open>set (take b unique) \<subseteq> D\<close>] m(1) by blast
    have "set unique = set (take b unique) \<union> set (drop b unique)" by (metis append_take_drop_id set_append)
    with m t show ?thesis by blast
  qed
qed

lemma negotiateV1_sound:
  assumes "negotiateV1 C nets fails discovery unique s = Inr missing" "sync_codec_ok C"
    and "\<forall>d \<in> set unique. \<exists>p. d = chunk_desc p" "chunk_desc p \<in> set unique"
  shows "stored (sha256 p) s \<or> cd_SHA256 (chunk_desc p) \<in> missing"
proof -
  have b: "0 < negotiateBatchSize discovery" by (auto simp: negotiateBatchSize_def maxSyncBatchDescriptors_def)
  have "\<forall>d \<in> set unique. (\<forall>q. d = chunk_desc q \<longrightarrow> stored (sha256 q) s) \<or> cd_SHA256 d \<in> missing"
  proof (rule conjunct2 [OF negotiateBatches_sound [OF _ assms(1) [unfolded negotiateV1_def] b order_refl]])
    fix n ds m d
    assume "askMissing C (nets n) fails s ds = Inr m" "set ds \<subseteq> set unique" "d \<in> set ds"
    then show "(\<forall>q. d = chunk_desc q \<longrightarrow> stored (sha256 q) s) \<or> cd_SHA256 d \<in> set m"
      using askMissing_sound [OF _ assms(2), of "nets n" fails s ds m] assms(3) by blast
  qed
  then show ?thesis using assms(4) by blast
qed


section \<open>What was observed of the destination\<close>

lemma str_trim_quotes: "CHR 0x22 \<notin> set e \<Longrightarrow> str_trim [CHR 0x22] ([CHR 0x22] @ e @ [CHR 0x22]) = e"
proof -
  assume a: "CHR 0x22 \<notin> set e"
  have d: "dropWhile (\<lambda>c. c \<in> set [CHR 0x22]) ys = ys" if "CHR 0x22 \<notin> set ys" for ys
    using that by (cases ys) auto
  have "dropWhile (\<lambda>c. c \<in> set [CHR 0x22]) (e @ [CHR 0x22]) = (if e = [] then [] else e @ [CHR 0x22])"
    using a by (cases e) auto
  then show ?thesis using a d [of "rev e"] by (simp add: str_trim_def)
qed

text \<open>What a sync observed of the destination still holds: it shows the same version, or still none.\<close>

definition etag_plain :: "string \<Rightarrow> bool" where
  "etag_plain e \<longleftrightarrow> e \<noteq> [] \<and> utf8_valid e \<and> CHR 0x22 \<notin> set e"

definition unchanged_since :: "objectEntry option \<Rightarrow> objectEntry option \<Rightarrow> bool" where
  "unchanged_since seen now \<longleftrightarrow> (seen = None \<longrightarrow> now = None)
     \<and> (\<forall>e. seen = Some e \<longrightarrow> etag_plain (oe_etag e) \<longrightarrow> (\<exists>e'. now = Some e' \<and> oe_etag e' = oe_etag e))"

lemma headSyncDestination_current:
  assumes "headSyncDestination n M fails bucket key sy = Inr (present, etag)"
  shows "current bucket key sy = None \<longleftrightarrow> \<not> present"
    "current bucket key sy = Some e \<Longrightarrow> CHR 0x22 \<notin> set (oe_etag e) \<Longrightarrow> etag = oe_etag e"
proof -
  have rv: "readVerifiedManifest M fails i sha sy = Inl x \<Longrightarrow> x = ErrManifestUnavailable" for i sha x
    by (auto simp: readVerifiedManifest_def split: sum.splits if_splits)
  have "(current bucket key sy = None \<longleftrightarrow> \<not> present)
    \<and> (\<forall>e. current bucket key sy = Some e \<longrightarrow> CHR 0x22 \<notin> set (oe_etag e) \<longrightarrow> etag = oe_etag e)"
  proof (cases "lookupObject bucket key (sy_store sy)")
    case (Inl x)
    then show ?thesis using assms
      by (auto simp: headSyncDestination_def HeadObject_def exchange_def current_def split: net.splits if_splits)
  next
    case (Inr obj)
    then obtain man where "HeadObject M fails bucket key sy = Inr (obj, man)"
      using assms rv by (cases "readVerifiedManifest M fails (oe_manifestUUID obj) (oe_manifestSHA256 obj) sy")
        (auto simp: headSyncDestination_def HeadObject_def exchange_def split: net.splits if_splits)
    then show ?thesis using assms Inr str_trim_quotes [of "oe_etag obj"]
      by (auto simp: headSyncDestination_def exchange_def current_def split: net.splits)
  qed
  then show "current bucket key sy = None \<longleftrightarrow> \<not> present"
    "current bucket key sy = Some e \<Longrightarrow> CHR 0x22 \<notin> set (oe_etag e) \<Longrightarrow> etag = oe_etag e" by auto
qed

lemma list_all2_chunk_descs:
  "list_all2 (desc_read Z fails s) (map chunk_desc ps) parts \<Longrightarrow> map chunk_ref parts = map chunk_ref ps \<and> length (concat parts) = length (concat ps)
     \<and> (\<forall>p \<in> set parts. casRead Z (fails (sha256 p)) (sha256 p) s = Inr p)"
  by (induction ps arbitrary: parts) (auto simp: list_all2_Cons1 desc_read_def chunk_desc_def chunk_ref_def)

section \<open>Samples\<close>

definition file_negotiate :: syncNegotiateRequest where
  "file_negotiate = \<lparr>nq_Protocol = zeros3SyncProtocolVersion, nq_CDC = zeros3SyncCDCFormat, nq_Hash = zeros3SyncHashAlgorithm,
     nq_Chunks = [chunk_desc [7]]\<rparr>"

definition file_commit :: syncCommitRequest where
  "file_commit = \<lparr>yc_Protocol = zeros3SyncProtocolVersion, yc_CDC = zeros3SyncCDCFormat, yc_Hash = zeros3SyncHashAlgorithm,
     yc_Bucket = ''b'', yc_Key = ''c'', yc_ContentType = ''text/plain'', yc_Metadata = fmempty, yc_Chunks = [chunk_desc [7]],
     yc_ExpectAbsent = True, yc_ExpectedETag = []\<rparr>"

definition file_codec :: sync_codec where
  "file_codec = \<lparr>sc_marshalNegotiate = (\<lambda>q. if q = file_negotiate then Some [1] else None),
     sc_unmarshalNegotiate = (\<lambda>b. if b = [1] then Some (coerce_negotiate file_negotiate) else None),
     sc_marshalCommit = (\<lambda>q. if q = file_commit then Some [2] else None),
     sc_unmarshalCommit = (\<lambda>b. if b = [2] then Some ((coerce_commit file_commit)\<lparr>yc_Metadata := fmempty\<rparr>) else None)\<rparr>"

lemma file_codec_ok [simp]: "sync_codec_ok file_codec"
  by (auto simp: sync_codec_ok_def file_codec_def)

definition v1_discovery :: syncDiscoveryResponse where
  "v1_discovery = \<lparr>di_Protocol = 1, di_CDC = ''gear-v1'', di_Hash = ''sha256'', di_DeltaSync = True, di_MaxHashesPerBatch = 1024,
     di_MaxBatchBytes = 262144, di_MaxChunkBytes = 262144, di_BulkProtocol = 0, di_MaxBulkChunks = 0, di_MaxBulkBytes = 0\<rparr>"

lemma cdc_one: "cdcChunks [7] = [[7]]"
proof -
  have "concat (cdcChunks [7]) = [7 :: byte]" "\<forall>p \<in> set (cdcChunks [7 :: byte]). p \<noteq> []"
    using cdcChunks_concat cdcChunks_sizes [of "[7]"] by (auto simp: list_all_iff)
  moreover have "concat ps = [x] \<Longrightarrow> \<forall>p \<in> set ps. p \<noteq> [] \<Longrightarrow> ps = [[x]]" for ps :: "byte list list" and x
    by (cases ps) (auto simp: append_eq_Cons_conv)
  ultimately show ?thesis by blast
qed

definition one_plan :: syncPlan where
  "one_plan = buildSyncPlan (local_chunks 0 [[7]]) 1"

lemma one_plan_fields:
  "yp_unique one_plan = [chunk_desc [7]]" "yp_ordered one_plan = local_chunks 0 [[7]]" "orderedChunks one_plan = [chunk_desc [7]]"
  by (simp_all add: one_plan_def buildSyncPlan_def chunk_desc_def orderedChunks_def)

lemma ascii_coerce: "utf8_coerce ''gear-v1'' = ''gear-v1''" "utf8_coerce ''sha256'' = ''sha256''" "utf8_coerce ''b'' = ''b''"
    "utf8_coerce ''c'' = ''c''" "utf8_coerce ''text/plain'' = ''text/plain''" "utf8_coerce [] = []"
  by (rule utf8_valid_ascii [unfolded utf8_valid_def]; simp)+

lemma file_codec_back: "coerce_negotiate file_negotiate = file_negotiate" "coerce_commit file_commit = file_commit"
  by (simp_all add: coerce_negotiate_def file_negotiate_def coerce_commit_def file_commit_def ascii_coerce zeros3SyncCDCFormat_def
      zeros3SyncHashAlgorithm_def)

lemma copy_sys_stat: "casStat False (sha256 [7]) (sy_cas copy_sys) = Inr 1"
  by (simp add: casStat_def casStatLocked_def copy_sys_def)

lemma calm_ask:
  assumes "casStat False (sha256 [7]) s = Inr 1"
  shows "askMissing file_codec NetOk (\<lambda>_. False) s [chunk_desc [7]] = Inr []"
proof -
  have h: "handleSyncNegotiate (sc_unmarshalNegotiate file_codec) (\<lambda>_. False) [1] s = Inr []"
    by (simp add: handleSyncNegotiate_def file_codec_def file_codec_back maxSyncBatchBytes_def)
      (simp add: file_negotiate_def validateSyncProtocolFields_def maxSyncBatchDescriptors_def chunk_desc_def normalizedSyncDigest_def
        maxSyncChunkBytes_def cdcMaxChunkSize_def assms)
  have "sc_marshalNegotiate file_codec \<lparr>nq_Protocol = zeros3SyncProtocolVersion, nq_CDC = zeros3SyncCDCFormat,
      nq_Hash = zeros3SyncHashAlgorithm, nq_Chunks = [chunk_desc [7]]\<rparr> = Some [1]"
    by (simp add: file_codec_def file_negotiate_def)
  then show ?thesis by (simp add: askMissing_def exchange_def h)
qed

end
