(* ===== verification/Bulk.thy ===== *)
theory Bulk
  imports SyncClient
begin

text \<open>
  The bulk transport of the sync protocol (\<^verbatim>\<open>zeros3.go\<close>, section 15b-ter): the frame format, its incremental reader, the
  handlers that negotiate, fetch and upload in frames, and the client's planning of batches. Shown here:
  the reader accepts exactly the frames of well-formed records, a fetch sends a prefix of the frame of
  verified chunks, which the client accepts only when it is whole, and an upload stores all its chunks or
  loses none.
\<close>

section \<open>The format\<close>

definition zeros3BulkProtocolVersion :: int where
  "zeros3BulkProtocolVersion = 2"

definition maxBulkRecords :: nat where
  "maxBulkRecords = 4096"

definition maxBulkBytes :: nat where
  "maxBulkBytes = 64 * 2 ^ 20"

definition bulkMagic :: bytes where
  "bulkMagic = bytes_of_string ''ZS3B''"

definition bulkHeaderLen :: nat where
  "bulkHeaderLen = 20"

definition bulkDescLen :: nat where
  "bulkDescLen = 36"

definition bulkKindNegotiate :: byte where
  "bulkKindNegotiate = 1"

definition bulkKindMissing :: byte where
  "bulkKindMissing = 2"

definition bulkKindFetch :: byte where
  "bulkKindFetch = 3"

definition bulkKindData :: byte where
  "bulkKindData = 4"

definition bulkMaxControlBytes :: nat where
  "bulkMaxControlBytes = bulkHeaderLen + maxBulkRecords * bulkDescLen"

definition bulkMaxFrameBytes :: nat where
  "bulkMaxFrameBytes = bulkMaxControlBytes + maxBulkBytes"

datatype bulk_error = BulkFraming | BulkTooLarge | BulkDigest

record bulkLimits =
  bl_maxRecords :: nat
  bl_maxBytes :: nat
  bl_allowEmpty :: bool
  bl_allowDup :: bool

definition bulkNegotiateLimits :: bulkLimits where
  "bulkNegotiateLimits = \<lparr>bl_maxRecords = maxBulkRecords, bl_maxBytes = 0, bl_allowEmpty = False, bl_allowDup = True\<rparr>"

definition bulkBatchLimits :: bulkLimits where
  "bulkBatchLimits = \<lparr>bl_maxRecords = maxBulkRecords, bl_maxBytes = maxBulkBytes, bl_allowEmpty = False, bl_allowDup = False\<rparr>"

definition appendBulkHeader :: "bytes \<Rightarrow> byte \<Rightarrow> nat \<Rightarrow> nat \<Rightarrow> bytes" where
  "appendBulkHeader b kind cnt tot =
     b @ bulkMagic @ [word_of_int zeros3BulkProtocolVersion, kind, 0, 0] @ put_be 4 (word_of_nat cnt :: u32) @ put_be 8 (word_of_nat tot :: u64)"

definition appendBulkDesc :: "bytes \<Rightarrow> digest \<Rightarrow> nat \<Rightarrow> bytes" where
  "appendBulkDesc b dg len = b @ digest_bytes dg @ put_be 4 (word_of_nat len :: u32)"

definition bulkDescriptorBytes :: "syncChunkDescriptor list \<Rightarrow> int" where
  "bulkDescriptorBytes descs = (\<Sum>d \<leftarrow> descs. cd_Length d)"

definition bulkFrameSize :: "byte \<Rightarrow> syncChunkDescriptor list \<Rightarrow> int" where
  "bulkFrameSize kind descs =
     (let n = int (bulkHeaderLen + bulkDescLen * length descs) in if kind = bulkKindData then n + bulkDescriptorBytes descs else n)"

fun encodeDescLoop :: "syncChunkDescriptor list \<Rightarrow> bytes \<Rightarrow> bytes option" where
  "encodeDescLoop [] b = Some b"
| "encodeDescLoop (d # ds) b =
     (case normalizedSyncDigest (cd_SHA256 d) (cd_Length d) of
        None \<Rightarrow> None
      | Some (dg, _) \<Rightarrow> encodeDescLoop ds (appendBulkDesc b dg (nat (cd_Length d))))"

definition encodeBulkDescriptors :: "byte \<Rightarrow> syncChunkDescriptor list \<Rightarrow> bytes option" where
  "encodeBulkDescriptors kind descs = encodeDescLoop descs (appendBulkHeader [] kind (length descs) (nat (bulkDescriptorBytes descs)))"

section \<open>The reader\<close>

text \<open>What is left of a body, and whether reading past it fails instead of reporting the end.\<close>

record bodyStream =
  bs_rest :: bytes
  bs_fails :: bool

definition readFull :: "nat \<Rightarrow> bodyStream \<Rightarrow> (bytes \<times> bodyStream) option" where
  "readFull n st = (if length (bs_rest st) < n then None else Some (take n (bs_rest st), st\<lparr>bs_rest := drop n (bs_rest st)\<rparr>))"

text \<open>\<^verbatim>\<open>io.LimitReader\<close>: the end is reported after \<open>n\<close> bytes, whatever the underlying body would do next.\<close>

definition limitReader :: "nat \<Rightarrow> bodyStream \<Rightarrow> bodyStream" where
  "limitReader n st = \<lparr>bs_rest = take n (bs_rest st), bs_fails = (bs_fails st \<and> length (bs_rest st) < n)\<rparr>"

record bulkReader =
  br_r :: bodyStream
  br_lim :: bulkLimits
  br_data :: bool
  br_left :: nat
  br_total :: nat
  br_sum :: nat
  br_seen :: "(digest, nat) fmap"

record bulkRecord =
  rec_sum :: digest
  rec_length :: nat
  rec_payload :: bytes
  rec_dup :: bool

text \<open>
  Counts and sums are naturals: a count is at most \<open>maxRecords\<close> before anything is multiplied, and the total at most
  that many times the size of a chunk, far below \<open>2 ^ 64\<close>.
\<close>

definition newBulkReader :: "bodyStream \<Rightarrow> byte \<Rightarrow> bulkLimits \<Rightarrow> bulk_error + bulkReader" where
  "newBulkReader r kind lim =
     (case readFull bulkHeaderLen r of
        None \<Rightarrow> Inl BulkFraming
      | Some (h, r') \<Rightarrow>
          if take 4 h \<noteq> bulkMagic then Inl BulkFraming
          else if h ! 4 \<noteq> word_of_int zeros3BulkProtocolVersion then Inl BulkFraming
          else if h ! 5 \<noteq> kind then Inl BulkFraming
          else if h ! 6 \<noteq> 0 \<or> h ! 7 \<noteq> 0 then Inl BulkFraming
          else
            let cnt = unat (get_be (take 4 (drop 8 h)) :: u32); tot = unat (get_be (take 8 (drop 12 h)) :: u64) in
            if cnt > bl_maxRecords lim then Inl BulkTooLarge
            else if cnt = 0 \<and> (\<not> bl_allowEmpty lim \<or> tot \<noteq> 0) then Inl BulkFraming
            else if tot < cnt \<or> tot > cnt * cdcMaxChunkSize then Inl BulkFraming
            else if bl_maxBytes lim > 0 \<and> tot > bl_maxBytes lim then Inl BulkTooLarge
            else Inr \<lparr>br_r = r', br_lim = lim, br_data = (kind = bulkKindData), br_left = cnt, br_total = tot, br_sum = 0,
                      br_seen = fmempty\<rparr>)"

text \<open>\<open>Inr None\<close> is \<^verbatim>\<open>io.EOF\<close> after the last declared record.\<close>

definition bulk_next :: "bulkReader \<Rightarrow> bulk_error + (bulkRecord \<times> bulkReader) option" where
  "bulk_next b =
     (if br_left b = 0 then Inr None
      else case readFull bulkDescLen (br_r b) of
        None \<Rightarrow> Inl BulkFraming
      | Some (d, r1) \<Rightarrow>
          let len = unat (get_be (drop 32 d) :: u32); dg = digest_of_bytes (take 32 d) in
          if len < 1 \<or> len > cdcMaxChunkSize then Inl BulkFraming
          else if br_sum b + len > br_total b then Inl BulkFraming
          else if (case fmlookup (br_seen b) dg of None \<Rightarrow> False | Some prev \<Rightarrow> prev \<noteq> len \<or> \<not> bl_allowDup (br_lim b)) then Inl BulkFraming
          else
            let dup = (fmlookup (br_seen b) dg \<noteq> None);
                seen = (if dup then br_seen b else fmupd dg len (br_seen b));
                b' = b\<lparr>br_r := r1, br_left := br_left b - 1, br_sum := br_sum b + len, br_seen := seen\<rparr> in
            if br_data b then
              (case readFull len r1 of
                 None \<Rightarrow> Inl BulkFraming
               | Some (payload, r2) \<Rightarrow>
                   if sha256 payload \<noteq> dg then Inl BulkDigest
                   else Inr (Some (\<lparr>rec_sum = dg, rec_length = len, rec_payload = payload, rec_dup = dup\<rparr>, b'\<lparr>br_r := r2\<rparr>)))
            else Inr (Some (\<lparr>rec_sum = dg, rec_length = len, rec_payload = [], rec_dup = dup\<rparr>, b')))"

definition bulk_finish :: "bulkReader \<Rightarrow> bulk_error + unit" where
  "bulk_finish b =
     (if br_left b \<noteq> 0 \<or> br_sum b \<noteq> br_total b then Inl BulkFraming
      else if bs_rest (br_r b) \<noteq> [] \<or> bs_fails (br_r b) then Inl BulkFraming
      else Inr ())"

lemma bulk_next_left: "bulk_next b = Inr (Some (rec, b')) \<Longrightarrow> br_left b = Suc (br_left b')"
  by (auto simp: bulk_next_def Let_def split: if_splits option.splits)

function bulkRecords :: "bulkReader \<Rightarrow> bulkRecord list \<Rightarrow> bulk_error + bulkRecord list \<times> bulkReader" where
  "bulkRecords b recs =
     (case bulk_next b of
        Inl e \<Rightarrow> Inl e
      | Inr None \<Rightarrow> Inr (recs, b)
      | Inr (Some (rec, b')) \<Rightarrow> bulkRecords b' (recs @ [rec]))"
  by pat_completeness auto
termination by (relation "measure (\<lambda>(b, _). br_left b)") (auto dest: bulk_next_left)

declare bulkRecords.simps [simp del]

section \<open>The server\<close>

definition bulkParseError :: "bulk_error \<Rightarrow> sync_error" where
  "bulkParseError e = (case e of BulkTooLarge \<Rightarrow> BatchTooLarge | BulkDigest \<Rightarrow> DigestMismatch | BulkFraming \<Rightarrow> MalformedRequest)"

definition readAllLimited :: "bodyStream \<Rightarrow> nat \<Rightarrow> bytes option" where
  "readAllLimited r limit =
     (let l = limitReader (limit + 1) r in if bs_fails l \<or> length (bs_rest l) > limit then None else Some (bs_rest l))"

definition verifyBytes :: "payloadCheck \<Rightarrow> bytes \<Rightarrow> check_error + unit" where
  "verifyBytes check body =
     payloadCheck_verify check (if ck_sha256 check \<noteq> [] then sha256 body else 0) (if ck_md5 check \<noteq> None then md5 body else replicate 16 0)
       (if ck_hasCRC32 check then crc32 crc_ieee body else 0)"

definition readBulkDescriptors :: "bodyStream \<Rightarrow> payloadCheck \<Rightarrow> byte \<Rightarrow> bulkLimits \<Rightarrow> sync_error + bulkRecord list" where
  "readBulkDescriptors r check kind lim =
     (case readAllLimited r bulkMaxControlBytes of
        None \<Rightarrow> Inl BatchTooLarge
      | Some body \<Rightarrow>
          (case verifyBytes check body of
             Inl e \<Rightarrow> Inl (RequestCheckFailed e)
           | Inr _ \<Rightarrow>
               (case newBulkReader \<lparr>bs_rest = body, bs_fails = False\<rparr> kind lim of
                  Inl e \<Rightarrow> Inl (bulkParseError e)
                | Inr br \<Rightarrow>
                    (case bulkRecords br [] of
                       Inl e \<Rightarrow> Inl (bulkParseError e)
                     | Inr (recs, br') \<Rightarrow>
                         (case bulk_finish br' of Inl e \<Rightarrow> Inl (bulkParseError e) | Inr _ \<Rightarrow> Inr recs)))))"

fun bulkMissing :: "(digest \<Rightarrow> bool) \<Rightarrow> casState \<Rightarrow> bulkRecord list \<Rightarrow> bulkRecord list" where
  "bulkMissing fails s [] = []"
| "bulkMissing fails s (r # rs) =
     (if rec_dup r then bulkMissing fails s rs
      else case casStat (fails (rec_sum r)) (rec_sum r) s of
        Inl _ \<Rightarrow> r # bulkMissing fails s rs
      | Inr _ \<Rightarrow> bulkMissing fails s rs)"

definition handleBulkNegotiate :: "(digest \<Rightarrow> bool) \<Rightarrow> bodyStream \<Rightarrow> payloadCheck \<Rightarrow> casState \<Rightarrow> sync_error + bytes" where
  "handleBulkNegotiate fails r check s =
     (case readBulkDescriptors r check bulkKindNegotiate bulkNegotiateLimits of
        Inl e \<Rightarrow> Inl e
      | Inr recs \<Rightarrow>
          let missing = bulkMissing fails s recs in
          Inr (foldl (\<lambda>out r. appendBulkDesc out (rec_sum r) (rec_length r))
                 (appendBulkHeader [] bulkKindMissing (length missing) (\<Sum>r \<leftarrow> missing. rec_length r)) missing))"

text \<open>The checks of a fetch before its status line: every chunk is there with the requested length.\<close>

fun fetchStats :: "(digest \<Rightarrow> bool) \<Rightarrow> casState \<Rightarrow> bulkRecord list \<Rightarrow> nat \<Rightarrow> sync_error + nat" where
  "fetchStats fails s [] tot = Inr tot"
| "fetchStats fails s (r # rs) tot =
     (case casStat (fails (rec_sum r)) (rec_sum r) s of
        Inl _ \<Rightarrow> Inl NoSuchChunk
      | Inr n \<Rightarrow> if n \<noteq> rec_length r then Inl LengthMismatch else fetchStats fails s rs (tot + n))"

text \<open>
  The streaming loop. \<open>first\<close> is the chunk that was read before the status line; \<open>wr k\<close> says that the \<open>k\<close>-th write to the
  client fails (nothing of it is counted as sent). The flag tells whether the loop ran to its end.
\<close>

fun fetchLoop ::
  "flate_codec \<Rightarrow> (digest \<Rightarrow> bool) \<Rightarrow> (nat \<Rightarrow> bool) \<Rightarrow> casState \<Rightarrow> bytes option \<Rightarrow> bulkRecord list \<Rightarrow> nat \<Rightarrow> bytes \<Rightarrow> bytes \<times> bool" where
  "fetchLoop Z fails wr s first [] k sent = (sent, True)"
| "fetchLoop Z fails wr s first (r # rs) k sent =
     (case (case first of
              Some data \<Rightarrow> Some data
            | None \<Rightarrow> (case casRead Z (fails (rec_sum r)) (rec_sum r) s of
                 Inl _ \<Rightarrow> None | Inr data \<Rightarrow> if length data \<noteq> rec_length r then None else Some data)) of
        None \<Rightarrow> (sent, False)
      | Some data \<Rightarrow>
          if wr k then (sent, False)
          else if wr (Suc k) then (appendBulkDesc sent (rec_sum r) (rec_length r), False)
          else fetchLoop Z fails wr s None rs (k + 2) (appendBulkDesc sent (rec_sum r) (rec_length r) @ data))"

record fetchResponse =
  fr_contentLength :: int
  fr_body :: bytes
  fr_complete :: bool

definition handleBulkFetch ::
  "flate_codec \<Rightarrow> (digest \<Rightarrow> bool) \<Rightarrow> (digest \<Rightarrow> bool) \<Rightarrow> (nat \<Rightarrow> bool) \<Rightarrow> bodyStream \<Rightarrow> payloadCheck \<Rightarrow> casState
    \<Rightarrow> sync_error + fetchResponse" where
  "handleBulkFetch Z statFails readFails wr r check s =
     (case readBulkDescriptors r check bulkKindFetch bulkBatchLimits of
        Inl e \<Rightarrow> Inl e
      | Inr recs \<Rightarrow>
          (case fetchStats statFails s recs 0 of
             Inl e \<Rightarrow> Inl e
           | Inr tot \<Rightarrow>
               (case casRead Z (readFails (rec_sum (recs ! 0))) (rec_sum (recs ! 0)) s of
                  Inl _ \<Rightarrow> Inl NoSuchChunk
                | Inr data \<Rightarrow>
                    let len = int (bulkHeaderLen + bulkDescLen * length recs) + int tot in
                    if wr 0 then Inr \<lparr>fr_contentLength = len, fr_body = [], fr_complete = False\<rparr>
                    else (case fetchLoop Z readFails wr s (Some data) recs 1 (appendBulkHeader [] bulkKindData (length recs) tot) of
                        (body, ok) \<Rightarrow> Inr \<lparr>fr_contentLength = len, fr_body = body, fr_complete = ok\<rparr>))))"

text \<open>
  The loop of an upload: each chunk is verified and staged before the next is read. The number in the
  result counts the chunks.
\<close>

function uploadLoop ::
  "(nat \<Rightarrow> cas_io) \<Rightarrow> bulkReader \<Rightarrow> nat \<Rightarrow> casBatch \<Rightarrow> casState \<Rightarrow> (sync_error + nat \<times> bulkReader) \<times> casBatch \<times> casState" where
  "uploadLoop ios br n batch s =
     (case bulk_next br of
        Inl e \<Rightarrow> (Inl (bulkParseError e), batch, s)
      | Inr None \<Rightarrow> (Inr (n, br), batch, s)
      | Inr (Some (rec, br')) \<Rightarrow>
          (case batch_add (ios n) (rec_sum rec) (rec_payload rec) batch s of
             (Inl _, batch', s') \<Rightarrow> (Inl InternalError, batch', s')
           | (Inr _, batch', s') \<Rightarrow> uploadLoop ios br' (Suc n) batch' s'))"
  by pat_completeness auto
termination by (relation "measure (\<lambda>(_, br, _). br_left br)") (auto dest: bulk_next_left)

declare uploadLoop.simps [simp del]

record syncBulkUploadResponse =
  bu_Chunks :: nat
  bu_Bytes :: nat

text \<open>The hashes of the request see what was read of the limited body; at the end that is all of it.\<close>

definition handleBulkUpload ::
  "(nat \<Rightarrow> cas_io) \<Rightarrow> cas_io \<Rightarrow> int \<Rightarrow> bodyStream \<Rightarrow> payloadCheck \<Rightarrow> casState \<Rightarrow> (sync_error + syncBulkUploadResponse) \<times> casState" where
  "handleBulkUpload ios iof contentLength r check s =
     (if contentLength > int bulkMaxFrameBytes then (Inl BatchTooLarge, s)
      else
        let body = limitReader (bulkMaxFrameBytes + 1) r in
        (case newBulkReader body bulkKindData bulkBatchLimits of
           Inl e \<Rightarrow> (Inl (bulkParseError e), s)
         | Inr br \<Rightarrow>
             (case uploadLoop ios br 0 newCASBatch s of
                (Inl e, batch, s1) \<Rightarrow> (Inl e, snd (batch_Abort batch s1))
              | (Inr (n, br'), batch, s1) \<Rightarrow>
                  (case bulk_finish br' of
                     Inl e \<Rightarrow> (Inl (bulkParseError e), snd (batch_Abort batch s1))
                   | Inr _ \<Rightarrow>
                       let read = take (length (bs_rest body) - length (bs_rest (br_r br'))) (bs_rest body) in
                       (case verifyBytes check read of
                          Inl e \<Rightarrow> (Inl (RequestCheckFailed e), snd (batch_Abort batch s1))
                        | Inr _ \<Rightarrow>
                            (case batch_Flush iof batch s1 of
                               (Inl _, batch', s2) \<Rightarrow> (Inl InternalError, snd (batch_Abort batch' s2))
                             | (Inr _, batch', s2) \<Rightarrow> (Inr \<lparr>bu_Chunks = n, bu_Bytes = br_sum br'\<rparr>, snd (batch_Abort batch' s2))))))))"

section \<open>The client\<close>

record bulkCaps =
  bc_maxRecords :: nat
  bc_maxBytes :: int

definition bulkCapsOf :: "syncDiscoveryResponse \<Rightarrow> bulkCaps option" where
  "bulkCapsOf d =
     (if di_BulkProtocol d \<noteq> zeros3BulkProtocolVersion \<or> di_MaxBulkChunks d < 1 \<or> di_MaxBulkBytes d < maxSyncChunkBytes then None
      else Some \<lparr>bc_maxRecords = nat (min (di_MaxBulkChunks d) (int maxBulkRecords)), bc_maxBytes = min (di_MaxBulkBytes d) (int maxBulkBytes)\<rparr>)"

record bulkPolicy =
  bp_maxRecords :: nat
  bp_targetBytes :: int

definition bulkPolicyFor :: "int \<Rightarrow> bulkCaps list \<Rightarrow> bulkPolicy" where
  "bulkPolicyFor target caps =
     foldl (\<lambda>p c. \<lparr>bp_maxRecords = min (bp_maxRecords p) (bc_maxRecords c), bp_targetBytes = min (bp_targetBytes p) (bc_maxBytes c)\<rparr>)
       \<lparr>bp_maxRecords = maxBulkRecords, bp_targetBytes = target\<rparr> caps"

text \<open>\<open>cur\<close> is the batch that is being filled, and \<open>bytes'\<close> the sum of its lengths.\<close>

fun planLoopBulk ::
  "bulkPolicy \<Rightarrow> syncChunkDescriptor list \<Rightarrow> syncChunkDescriptor list \<Rightarrow> int \<Rightarrow> syncChunkDescriptor list list \<Rightarrow> syncChunkDescriptor list list" where
  "planLoopBulk p [] cur bytes' out = (if cur \<noteq> [] then out @ [cur] else out)"
| "planLoopBulk p (d # ds) cur bytes' out =
     (if cur \<noteq> [] \<and> (length cur \<ge> bp_maxRecords p \<or> bytes' + cd_Length d > bp_targetBytes p)
      then planLoopBulk p ds [d] (cd_Length d) (out @ [cur])
      else planLoopBulk p ds (cur @ [d]) (bytes' + cd_Length d) out)"

definition planBulkBatches :: "syncChunkDescriptor list \<Rightarrow> bulkPolicy \<Rightarrow> syncChunkDescriptor list list" where
  "planBulkBatches descs p = planLoopBulk p descs [] 0 []"

text \<open>
  \<^verbatim>\<open>fetchBulkChunks\<close> on the response: identity, order and length of every record, and the exact end. The
  result lists what \<^verbatim>\<open>emit\<close> has seen.
\<close>

fun fetchEmit :: "bulkReader \<Rightarrow> syncChunkDescriptor list \<Rightarrow> bytes list \<Rightarrow> (bulk_error + bulkReader) \<times> bytes list" where
  "fetchEmit br [] got = (Inr br, got)"
| "fetchEmit br (d # ds) got =
     (case bulk_next br of
        Inl e \<Rightarrow> (Inl e, got)
      | Inr None \<Rightarrow> (Inl BulkFraming, got)
      | Inr (Some (rec, br')) \<Rightarrow>
          if hex_encode (digest_bytes (rec_sum rec)) \<noteq> map ascii_lower (cd_SHA256 d) \<or> int (rec_length rec) \<noteq> cd_Length d
          then (Inl BulkFraming, got)
          else fetchEmit br' ds (got @ [rec_payload rec]))"

definition fetchBulkChunks :: "syncChunkDescriptor list \<Rightarrow> bodyStream \<Rightarrow> (bulk_error + unit) \<times> bytes list" where
  "fetchBulkChunks descs response =
     (case newBulkReader (limitReader (nat (bulkFrameSize bulkKindData descs) + 1) response) bulkKindData bulkBatchLimits of
        Inl e \<Rightarrow> (Inl e, [])
      | Inr br \<Rightarrow>
          if br_left br \<noteq> length descs \<or> int (br_total br) \<noteq> bulkDescriptorBytes descs then (Inl BulkFraming, [])
          else (case fetchEmit br descs [] of
              (Inl e, got) \<Rightarrow> (Inl e, got)
            | (Inr br', got) \<Rightarrow> (bulk_finish br', got)))"

text \<open>The frame of an upload: every chunk is re-read and hashed before it is part of it.\<close>

fun frameLoop :: "bytes option \<Rightarrow> syncPlan \<Rightarrow> syncChunkDescriptor list \<Rightarrow> bytes \<Rightarrow> sync_failure + bytes" where
  "frameLoop file plan [] frame = Inr frame"
| "frameLoop file plan (d # ds) frame =
     (case normalizedSyncDigest (cd_SHA256 d) (cd_Length d) of
        None \<Rightarrow> Inl SyncMarshal
      | Some (dg, _) \<Rightarrow>
          (case readSyncFileRange file (case fmlookup (yp_offsetBySHA plan) (cd_SHA256 d) of None \<Rightarrow> 0 | Some x \<Rightarrow> x) (cd_Length d) of
             None \<Rightarrow> Inl SyncLocalMutation
           | Some data \<Rightarrow>
               if sha256 data \<noteq> dg then Inl SyncLocalMutation
               else frameLoop file plan ds (appendBulkDesc frame dg (nat (cd_Length d)) @ data)))"

definition bulkUploadFrame :: "bytes option \<Rightarrow> syncPlan \<Rightarrow> syncChunkDescriptor list \<Rightarrow> sync_failure + bytes" where
  "bulkUploadFrame file plan batch =
     frameLoop file plan batch (appendBulkHeader [] bulkKindData (length batch) (nat (bulkDescriptorBytes batch)))"


section \<open>Headers\<close>

lemma length_bulkMagic [simp]: "length bulkMagic = 4"
  by (simp add: bulkMagic_def)

lemma length_appendBulkHeader [simp]: "length (appendBulkHeader b kind n tot) = length b + 20"
  by (simp add: appendBulkHeader_def)

lemma appendBulkHeader_prefix: "appendBulkHeader b kind n tot = b @ appendBulkHeader [] kind n tot"
  by (simp add: appendBulkHeader_def)

lemma header_parts:
  fixes kind n tot defines "h \<equiv> appendBulkHeader [] kind n tot"
  shows "take 4 h = bulkMagic" "h ! 4 = word_of_int zeros3BulkProtocolVersion" "h ! 5 = kind" "h ! 6 = 0" "h ! 7 = 0"
    "take 4 (drop 8 h) = put_be 4 (word_of_nat n :: u32)" "take 8 (drop 12 h) = put_be 8 (word_of_nat tot :: u64)"
  by (simp_all add: h_def appendBulkHeader_def nth_append)

lemma header_rebuilt:
  assumes "length h = 20" "take 4 h = bulkMagic" "h ! 4 = word_of_int zeros3BulkProtocolVersion" "h ! 5 = kind" "h ! 6 = 0" "h ! 7 = 0"
  shows "h = appendBulkHeader [] kind (unat (get_be (take 4 (drop 8 h)) :: u32)) (unat (get_be (take 8 (drop 12 h)) :: u64))"
proof -
  have "h = take 4 h @ take 4 (drop 4 h) @ take 4 (drop 8 h) @ take 8 (drop 12 h)"
    using assms(1) by (simp add: list_eq_iff_nth_eq nth_append)
  moreover have "take 4 (drop 4 h) = [h ! 4, h ! 5, h ! 6, h ! 7]"
    using assms(1) by (simp add: list_eq_iff_nth_eq nth_Cons' eval_nat_numeral less_Suc_eq)
  moreover have "put_be 4 (get_be (take 4 (drop 8 h)) :: u32) = take 4 (drop 8 h)" "put_be 8 (get_be (take 8 (drop 12 h)) :: u64) = take 8 (drop 12 h)"
    using assms(1) put_get_be [where 'a = 32, of "take 4 (drop 8 h)"] put_get_be [where 'a = 64, of "take 8 (drop 12 h)"] by simp_all
  ultimately show ?thesis using assms(2-) by (simp add: appendBulkHeader_def)
qed

definition limits_ok :: "bulkLimits \<Rightarrow> nat \<Rightarrow> nat \<Rightarrow> bool" where
  "limits_ok lim n tot \<longleftrightarrow> n \<le> bl_maxRecords lim \<and> (n = 0 \<longrightarrow> bl_allowEmpty lim) \<and> n \<le> tot \<and> tot \<le> n * cdcMaxChunkSize
     \<and> (bl_maxBytes lim > 0 \<longrightarrow> tot \<le> bl_maxBytes lim)"

definition reader_of :: "byte \<Rightarrow> bulkLimits \<Rightarrow> nat \<Rightarrow> nat \<Rightarrow> bodyStream \<Rightarrow> bulkReader" where
  "reader_of kind lim n tot r = \<lparr>br_r = r, br_lim = lim, br_data = (kind = bulkKindData), br_left = n, br_total = tot, br_sum = 0, br_seen = fmempty\<rparr>"

lemma newBulkReader_sound:
  assumes "newBulkReader r kind lim = Inr br"
  shows "\<exists>n tot rest. bs_rest r = appendBulkHeader [] kind n tot @ rest \<and> limits_ok lim n tot
    \<and> br = reader_of kind lim n tot (r\<lparr>bs_rest := rest\<rparr>)"
proof -
  obtain h r' where f: "readFull bulkHeaderLen r = Some (h, r')" using assms by (auto simp: newBulkReader_def split: option.splits)
  then have h: "h = take 20 (bs_rest r)" "length h = 20" "r' = r\<lparr>bs_rest := drop 20 (bs_rest r)\<rparr>"
    by (auto simp: readFull_def bulkHeaderLen_def split: if_splits)
  let ?n = "unat (get_be (take 4 (drop 8 h)) :: u32)" and ?t = "unat (get_be (take 8 (drop 12 h)) :: u64)"
  have c: "take 4 h = bulkMagic" "h ! 4 = word_of_int zeros3BulkProtocolVersion" "h ! 5 = kind" "h ! 6 = 0" "h ! 7 = 0"
    using assms f by (auto simp: newBulkReader_def split: if_splits)
  have "limits_ok lim ?n ?t" "br = reader_of kind lim ?n ?t r'"
    using assms f c by (auto simp: newBulkReader_def limits_ok_def reader_of_def Let_def split: if_splits)
  moreover have "bs_rest r = appendBulkHeader [] kind ?n ?t @ drop 20 (bs_rest r)"
    using header_rebuilt [OF h(2) c] h(1) by (metis append_take_drop_id)
  ultimately show ?thesis using h(3) by blast
qed

lemma newBulkReader_complete:
  assumes "bs_rest r = appendBulkHeader [] kind n tot @ rest" "limits_ok lim n tot" "n < 2 ^ 32" "tot < 2 ^ 64"
  shows "newBulkReader r kind lim = Inr (reader_of kind lim n tot (r\<lparr>bs_rest := rest\<rparr>))"
proof -
  let ?h = "appendBulkHeader [] kind n tot"
  have f: "readFull bulkHeaderLen r = Some (?h, r\<lparr>bs_rest := rest\<rparr>)"
    using assms(1) by (simp add: readFull_def bulkHeaderLen_def)
  have n: "unat (word_of_nat n :: u32) = n" "unat (word_of_nat tot :: u64) = tot"
    using assms(3,4) by (simp_all add: unat_of_nat)
  show ?thesis
    using assms(2) unfolding newBulkReader_def f
    by (cases "n = 0") (auto simp: header_parts n Let_def limits_ok_def reader_of_def)
qed

section \<open>Records\<close>

definition enc_record :: "bool \<Rightarrow> bulkRecord \<Rightarrow> bytes" where
  "enc_record dat r = appendBulkDesc [] (rec_sum r) (rec_length r) @ (if dat then rec_payload r else [])"

definition record_ok :: "bool \<Rightarrow> bulkRecord \<Rightarrow> bool" where
  "record_ok dat r \<longleftrightarrow> 0 < rec_length r \<and> rec_length r \<le> cdcMaxChunkSize
     \<and> (if dat then length (rec_payload r) = rec_length r \<and> sha256 (rec_payload r) = rec_sum r else rec_payload r = [])"

text \<open>A digest that was seen before has the same length, is allowed to repeat, and is marked.\<close>

definition seen_ok :: "bool \<Rightarrow> (digest, nat) fmap \<Rightarrow> bulkRecord \<Rightarrow> bool" where
  "seen_ok dups seen r \<longleftrightarrow> (case fmlookup seen (rec_sum r) of
     None \<Rightarrow> \<not> rec_dup r | Some prev \<Rightarrow> prev = rec_length r \<and> dups \<and> rec_dup r)"

definition see :: "bulkRecord \<Rightarrow> (digest, nat) fmap \<Rightarrow> (digest, nat) fmap" where
  "see r seen = (if fmlookup seen (rec_sum r) \<noteq> None then seen else fmupd (rec_sum r) (rec_length r) seen)"

definition advance :: "bulkRecord \<Rightarrow> bodyStream \<Rightarrow> bulkReader \<Rightarrow> bulkReader" where
  "advance r st b = b\<lparr>br_r := st, br_left := br_left b - 1, br_sum := br_sum b + rec_length r, br_seen := see r (br_seen b)\<rparr>"

lemma length_appendBulkDesc [simp]: "length (appendBulkDesc b dg n) = length b + 36"
  by (simp add: appendBulkDesc_def)

lemma appendBulkDesc_prefix: "appendBulkDesc b dg n = b @ appendBulkDesc [] dg n"
  by (simp add: appendBulkDesc_def)

lemma bulk_next_sound:
  assumes "bulk_next b = Inr (Some (r, b'))"
  shows "0 < br_left b \<and> (\<exists>rest. bs_rest (br_r b) = enc_record (br_data b) r @ rest \<and> b' = advance r ((br_r b)\<lparr>bs_rest := rest\<rparr>) b)
    \<and> record_ok (br_data b) r \<and> br_sum b + rec_length r \<le> br_total b \<and> seen_ok (bl_allowDup (br_lim b)) (br_seen b) r"
proof -
  obtain d r1 where f: "readFull bulkDescLen (br_r b) = Some (d, r1)" and l: "0 < br_left b"
    using assms by (auto simp: bulk_next_def split: if_splits option.splits)
  then have d: "length d = 36" "bs_rest (br_r b) = d @ bs_rest r1" "r1 = (br_r b)\<lparr>bs_rest := bs_rest r1\<rparr>"
    by (auto simp: readFull_def bulkDescLen_def split: if_splits)
  let ?len = "unat (get_be (drop 32 d) :: u32)" and ?dg = "digest_of_bytes (take 32 d)"
  have enc: "appendBulkDesc [] ?dg ?len = d"
    using d(1) put_get_be [where 'a = 32, of "drop 32 d"] by (simp add: appendBulkDesc_def digest_bytes_of_bytes)
  have len: "0 < ?len" "?len \<le> cdcMaxChunkSize" "br_sum b + ?len \<le> br_total b"
    using assms f l by (auto simp: bulk_next_def Let_def split: if_splits)
  have sn: "\<not> (case fmlookup (br_seen b) ?dg of None \<Rightarrow> False | Some prev \<Rightarrow> prev \<noteq> ?len \<or> \<not> bl_allowDup (br_lim b))"
    using assms f l by (auto simp: bulk_next_def Let_def simp del: not_None_eq split: if_splits)
  show ?thesis
  proof (cases "br_data b")
    case False
    then have r: "r = \<lparr>rec_sum = ?dg, rec_length = ?len, rec_payload = [], rec_dup = (fmlookup (br_seen b) ?dg \<noteq> None)\<rparr>"
      and b': "b' = advance r r1 b"
      using assms f l by (auto simp: bulk_next_def Let_def advance_def see_def split: if_splits)
    have "bs_rest (br_r b) = enc_record (br_data b) r @ bs_rest r1" using False d(2) enc by (simp add: enc_record_def r)
    then show ?thesis using l len sn d(3) b' False
      by (auto simp: record_ok_def seen_ok_def r split: option.splits)
  next
    case True
    then obtain p r2 where f2: "readFull ?len r1 = Some (p, r2)" and p: "sha256 p = ?dg"
      and r: "r = \<lparr>rec_sum = ?dg, rec_length = ?len, rec_payload = p, rec_dup = (fmlookup (br_seen b) ?dg \<noteq> None)\<rparr>"
      and b': "b' = advance r r2 b"
      using assms f l by (auto simp: bulk_next_def Let_def advance_def see_def split: if_splits option.splits)
    then have r2: "length p = ?len" "bs_rest r1 = p @ bs_rest r2" "r2 = r1\<lparr>bs_rest := bs_rest r2\<rparr>"
      by (auto simp: readFull_def split: if_splits)
    have "bs_rest (br_r b) = enc_record (br_data b) r @ bs_rest r2" using True d(2) enc r2 by (simp add: enc_record_def r)
    moreover have "r2 = (br_r b)\<lparr>bs_rest := bs_rest r2\<rparr>" using d(3) r2(3) by (metis bodyStream.surjective bodyStream.update_convs(1))
    ultimately show ?thesis using l len sn b' True p r2(1)
      by (auto simp: record_ok_def seen_ok_def r split: option.splits)
  qed
qed

lemma bulk_next_complete:
  assumes "0 < br_left b" "bs_rest (br_r b) = enc_record (br_data b) r @ rest" "record_ok (br_data b) r"
    and "br_sum b + rec_length r \<le> br_total b" "seen_ok (bl_allowDup (br_lim b)) (br_seen b) r"
  shows "bulk_next b = Inr (Some (r, advance r ((br_r b)\<lparr>bs_rest := rest\<rparr>) b))"
proof -
  let ?d = "appendBulkDesc [] (rec_sum r) (rec_length r)"
  let ?pay = "if br_data b then rec_payload r else []"
  have len: "0 < rec_length r" "rec_length r \<le> cdcMaxChunkSize" using assms(3) by (simp_all add: record_ok_def)
  have f: "readFull bulkDescLen (br_r b) = Some (?d, (br_r b)\<lparr>bs_rest := ?pay @ rest\<rparr>)"
    using assms(2) by (simp add: readFull_def bulkDescLen_def enc_record_def)
  have d: "unat (get_be (drop 32 ?d) :: u32) = rec_length r" "digest_of_bytes (take 32 ?d) = rec_sum r"
    using len by (simp_all add: appendBulkDesc_def unat_of_nat cdcMaxChunkSize_def)
  show ?thesis
    unfolding bulk_next_def f
    using assms(1,3,4,5) len d
    by (cases r) (auto simp: Let_def record_ok_def seen_ok_def advance_def see_def readFull_def split: option.splits if_splits)
qed


fun records_ok :: "bool \<Rightarrow> bool \<Rightarrow> (digest, nat) fmap \<Rightarrow> bulkRecord list \<Rightarrow> bool" where
  "records_ok dups dat seen [] = True"
| "records_ok dups dat seen (r # rs) = (record_ok dat r \<and> seen_ok dups seen r \<and> records_ok dups dat (see r seen) rs)"

definition records_length :: "bulkRecord list \<Rightarrow> nat" where
  "records_length rs = (\<Sum>r \<leftarrow> rs. rec_length r)"

lemma records_length_simps [simp]: "records_length [] = 0" "records_length (r # rs) = rec_length r + records_length rs"
  by (simp_all add: records_length_def)

lemma advance_fields [simp]:
  "br_r (advance r st b) = st" "br_lim (advance r st b) = br_lim b" "br_data (advance r st b) = br_data b"
  "br_left (advance r st b) = br_left b - 1" "br_total (advance r st b) = br_total b"
  "br_sum (advance r st b) = br_sum b + rec_length r" "br_seen (advance r st b) = see r (br_seen b)"
  by (simp_all add: advance_def)

lemma bulk_next_end: "bulk_next b = Inr None \<longleftrightarrow> br_left b = 0"
  by (auto simp: bulk_next_def Let_def split: option.splits)

text \<open>A reader \<open>b'\<close> that has consumed the records \<open>rs\<close> from \<open>b\<close>.\<close>

definition consumed :: "bulkReader \<Rightarrow> bulkRecord list \<Rightarrow> bulkReader \<Rightarrow> bool" where
  "consumed b rs b' \<longleftrightarrow> records_ok (bl_allowDup (br_lim b)) (br_data b) (br_seen b) rs
     \<and> bs_rest (br_r b) = concat (map (enc_record (br_data b)) rs) @ bs_rest (br_r b') \<and> bs_fails (br_r b') = bs_fails (br_r b)
     \<and> br_left b = br_left b' + length rs \<and> br_total b' = br_total b \<and> br_sum b' = br_sum b + records_length rs"

lemma consumed_Nil [simp]: "consumed b [] b"
  by (simp add: consumed_def)

lemma consumed_step: "bulk_next b = Inr (Some (r, b1)) \<Longrightarrow> consumed b1 rs b' \<Longrightarrow> consumed b (r # rs) b'"
  using bulk_next_sound [of b r b1] by (auto simp: consumed_def)

lemma bulkRecords_sound:
  "bulkRecords b acc = Inr (recs, b') \<Longrightarrow> \<exists>rs. recs = acc @ rs \<and> consumed b rs b' \<and> br_left b' = 0"
proof (induction b acc rule: bulkRecords.induct)
  case (1 b acc)
  show ?case
  proof (cases "bulk_next b")
    case (Inl e)
    then show ?thesis using "1.prems" by (subst (asm) bulkRecords.simps) simp
  next
    case (Inr o')
    show ?thesis
    proof (cases o')
      case None
      then have "recs = acc" "b' = b" using "1.prems" Inr by (subst (asm) bulkRecords.simps; simp)+
      then show ?thesis using None Inr bulk_next_end [of b] by simp
    next
      case (Some p)
      obtain r b1 where p: "p = (r, b1)" by fastforce
      have "bulkRecords b1 (acc @ [r]) = Inr (recs, b')" using "1.prems" Inr Some p by (subst (asm) bulkRecords.simps) simp
      from "1.IH" [OF Inr Some p [symmetric] this] obtain rs where "recs = (acc @ [r]) @ rs" "consumed b1 rs b'" "br_left b' = 0" by blast
      with consumed_step [of b r b1] Inr Some p show ?thesis by (intro exI [of _ "r # rs"]) simp
    qed
  qed
qed

lemma bulkRecords_complete:
  "records_ok (bl_allowDup (br_lim b)) (br_data b) (br_seen b) rs \<Longrightarrow> br_left b = length rs
     \<Longrightarrow> bs_rest (br_r b) = concat (map (enc_record (br_data b)) rs) @ rest \<Longrightarrow> br_sum b + records_length rs \<le> br_total b
     \<Longrightarrow> \<exists>b'. bulkRecords b acc = Inr (acc @ rs, b') \<and> consumed b rs b' \<and> bs_rest (br_r b') = rest \<and> br_left b' = 0"
proof (induction rs arbitrary: b acc)
  case Nil
  then have "bulk_next b = Inr None" by (simp add: bulk_next_end)
  then show ?case using Nil by (subst bulkRecords.simps) simp
next
  case (Cons r rs)
  let ?b1 = "advance r ((br_r b)\<lparr>bs_rest := concat (map (enc_record (br_data b)) rs) @ rest\<rparr>) b"
  have n: "bulk_next b = Inr (Some (r, ?b1))"
    using Cons.prems by (intro bulk_next_complete) simp_all
  have "\<exists>b'. bulkRecords ?b1 (acc @ [r]) = Inr ((acc @ [r]) @ rs, b') \<and> consumed ?b1 rs b' \<and> bs_rest (br_r b') = rest \<and> br_left b' = 0"
    using Cons.prems by (intro Cons.IH) simp_all
  then show ?case using n consumed_step [OF n] by (subst bulkRecords.simps) auto
qed

section \<open>Frames\<close>

definition bulkFrame :: "byte \<Rightarrow> bulkRecord list \<Rightarrow> bytes" where
  "bulkFrame kind rs = appendBulkHeader [] kind (length rs) (records_length rs) @ concat (map (enc_record (kind = bulkKindData)) rs)"

text \<open>Reading a whole frame: the header, every record, and the exact end.\<close>

definition readBulkFrame :: "byte \<Rightarrow> bulkLimits \<Rightarrow> bodyStream \<Rightarrow> bulk_error + bulkRecord list" where
  "readBulkFrame kind lim r =
     bind_result (newBulkReader r kind lim) (\<lambda>br. bind_result (bulkRecords br []) (\<lambda>(recs, br'). bind_result (bulk_finish br') (\<lambda>_. Inr recs)))"

lemma reader_of_fields [simp]:
  "br_r (reader_of kind lim n tot r) = r" "br_lim (reader_of kind lim n tot r) = lim"
  "br_data (reader_of kind lim n tot r) = (kind = bulkKindData)" "br_left (reader_of kind lim n tot r) = n"
  "br_total (reader_of kind lim n tot r) = tot" "br_sum (reader_of kind lim n tot r) = 0" "br_seen (reader_of kind lim n tot r) = fmempty"
  by (simp_all add: reader_of_def)

lemma bulk_finish_ok: "bulk_finish b = Inr u \<longleftrightarrow> br_left b = 0 \<and> br_sum b = br_total b \<and> bs_rest (br_r b) = [] \<and> \<not> bs_fails (br_r b)"
  by (auto simp: bulk_finish_def)

lemma readBulkFrame_sound:
  assumes "readBulkFrame kind lim r = Inr rs"
  shows "bs_rest r = bulkFrame kind rs \<and> \<not> bs_fails r \<and> records_ok (bl_allowDup lim) (kind = bulkKindData) fmempty rs
    \<and> limits_ok lim (length rs) (records_length rs)"
proof -
  obtain br br' where n: "newBulkReader r kind lim = Inr br" and l: "bulkRecords br [] = Inr (rs, br')" and f: "bulk_finish br' = Inr ()"
    using assms by (cases "newBulkReader r kind lim") (auto simp: readBulkFrame_def)
  from newBulkReader_sound [OF n] obtain k tot rest where h: "bs_rest r = appendBulkHeader [] kind k tot @ rest" "limits_ok lim k tot"
    "br = reader_of kind lim k tot (r\<lparr>bs_rest := rest\<rparr>)" by blast
  from bulkRecords_sound [OF l] have c: "consumed br rs br'" "br_left br' = 0" by auto
  have f': "br_sum br' = br_total br'" "bs_rest (br_r br') = []" "\<not> bs_fails (br_r br')" using f by (simp_all add: bulk_finish_ok)
  have kt: "k = length rs" "tot = records_length rs" "rest = concat (map (enc_record (kind = bulkKindData)) rs)" "\<not> bs_fails r"
    "records_ok (bl_allowDup lim) (kind = bulkKindData) fmempty rs"
    using c f' by (simp_all add: consumed_def h(3))
  then show ?thesis using h by (simp add: bulkFrame_def)
qed

lemma readBulkFrame_complete:
  assumes "bs_rest r = bulkFrame kind rs" "\<not> bs_fails r" "records_ok (bl_allowDup lim) (kind = bulkKindData) fmempty rs"
    and "limits_ok lim (length rs) (records_length rs)" "bl_maxRecords lim \<le> maxBulkRecords"
  shows "readBulkFrame kind lim r = Inr rs"
proof -
  have n: "length rs \<le> 4096" using assms(4,5) by (simp add: limits_ok_def maxBulkRecords_def)
  have t: "records_length rs \<le> length rs * 262144" using assms(4) by (simp add: limits_ok_def cdcMaxChunkSize_def)
  let ?rest = "concat (map (enc_record (kind = bulkKindData)) rs)"
  have nr: "newBulkReader r kind lim = Inr (reader_of kind lim (length rs) (records_length rs) (r\<lparr>bs_rest := ?rest\<rparr>))"
    using assms(1,4) n t by (intro newBulkReader_complete) (simp_all add: bulkFrame_def)
  obtain b' where l: "bulkRecords (reader_of kind lim (length rs) (records_length rs) (r\<lparr>bs_rest := ?rest\<rparr>)) [] = Inr ([] @ rs, b')"
    and c: "consumed (reader_of kind lim (length rs) (records_length rs) (r\<lparr>bs_rest := ?rest\<rparr>)) rs b'" "bs_rest (br_r b') = []" "br_left b' = 0"
    using bulkRecords_complete [of "reader_of kind lim (length rs) (records_length rs) (r\<lparr>bs_rest := ?rest\<rparr>)" rs "[]" "[]"] assms(3) by auto
  have "bulk_finish b' = Inr ()" using c assms(2) by (simp add: bulk_finish_ok consumed_def)
  then show ?thesis using nr l by (simp add: readBulkFrame_def)
qed

lemma readBulkDescriptors_frame:
  assumes "readBulkDescriptors r check kind lim = Inr rs"
  shows "readBulkFrame kind lim \<lparr>bs_rest = bs_rest r, bs_fails = False\<rparr> = Inr rs \<and> \<not> bs_fails r \<and> verifyBytes check (bs_rest r) = Inr ()"
proof -
  obtain body where b: "readAllLimited r bulkMaxControlBytes = Some body"
    using assms by (auto simp: readBulkDescriptors_def split: option.splits)
  then have "body = bs_rest r" "\<not> bs_fails r"
    by (auto simp: readAllLimited_def limitReader_def Let_def split: if_splits)
  moreover have "readBulkFrame kind lim \<lparr>bs_rest = body, bs_fails = False\<rparr> = Inr rs" "verifyBytes check body = Inr ()"
    using assms b by (auto simp: readBulkDescriptors_def readBulkFrame_def split: sum.splits)
  ultimately show ?thesis by simp
qed


lemma length_enc_record: "record_ok dat r \<Longrightarrow> length (enc_record dat r) = 36 + (if dat then rec_length r else 0)"
  by (auto simp: enc_record_def record_ok_def split: if_splits)

lemma length_bulkFrame:
  assumes "records_ok dups (kind = bulkKindData) seen rs"
  shows "length (bulkFrame kind rs) = 20 + 36 * length rs + (if kind = bulkKindData then records_length rs else 0)"
proof -
  have "records_ok dups dat seen rs \<Longrightarrow> length (concat (map (enc_record dat) rs)) = 36 * length rs + (if dat then records_length rs else 0)" for dat
    by (induction rs arbitrary: seen) (auto simp: length_enc_record)
  then show ?thesis using assms by (simp add: bulkFrame_def)
qed

section \<open>Uploads\<close>

lemma uploadLoop_effect:
  "uploadLoop ios br n batch s = (out, batch', s') \<Longrightarrow> br_data br \<Longrightarrow> batch_inv batch s \<Longrightarrow> (\<And>k. order_ok (ios k)) \<Longrightarrow>
     grows Z s s' \<and> batch_inv batch' s'
     \<and> (\<forall>D m br'. accepted D batch s \<longrightarrow> out = Inr (m, br') \<longrightarrow>
          (\<exists>rs. consumed br rs br' \<and> br_left br' = 0 \<and> m = n + length rs \<and> accepted (D \<union> rec_sum ` set rs) batch' s'))"
proof (induction ios br n batch s rule: uploadLoop.induct)
  case (1 ios br n batch s)
  show ?case
  proof (cases "bulk_next br")
    case (Inl e)
    then show ?thesis using "1.prems" by (subst (asm) uploadLoop.simps) auto
  next
    case (Inr o')
    show ?thesis
    proof (cases o')
      case None
      then have "out = Inr (n, br)" "batch' = batch" "s' = s" using "1.prems"(1) Inr by (subst (asm) uploadLoop.simps; simp)+
      then show ?thesis using "1.prems"(3) None Inr bulk_next_end [of br] by (auto intro: exI [of _ "[]"])
    next
      case (Some p)
      obtain r br1 where p: "p = (r, br1)" by fastforce
      have nx: "bulk_next br = Inr (Some (r, br1))" using Inr Some p by simp
      note sound = bulk_next_sound [OF nx]
      have sh: "rec_sum r = sha256 (rec_payload r)" and dat: "br_data br1"
        using sound "1.prems"(2) by (auto simp: record_ok_def)
      obtain q b1 s1 where a: "batch_add (ios n) (rec_sum r) (rec_payload r) batch s = (q, b1, s1)" by (metis prod_cases3)
      note e = batch_add_effect [OF a [unfolded sh] "1.prems"(3,4)]
      show ?thesis
      proof (cases q)
        case (Inl x)
        then have "out = Inl InternalError" "batch' = b1" "s' = s1"
          using "1.prems"(1) nx a by (subst (asm) uploadLoop.simps; simp)+
        then show ?thesis using e by simp
      next
        case (Inr u)
        have "uploadLoop ios br1 (Suc n) b1 s1 = (out, batch', s')"
          using "1.prems"(1) nx a Inr by (subst (asm) uploadLoop.simps) simp
        from "1.IH" [OF \<open>bulk_next br = Inr o'\<close> Some p [symmetric] a [symmetric] Inr refl this dat e(2) "1.prems"(4)]
        have ih: "grows Z s1 s' \<and> batch_inv batch' s'
          \<and> (\<forall>D m br'. accepted D b1 s1 \<longrightarrow> out = Inr (m, br') \<longrightarrow>
            (\<exists>rs. consumed br1 rs br' \<and> br_left br' = 0 \<and> m = Suc n + length rs \<and> accepted (D \<union> rec_sum ` set rs) batch' s'))"
          by blast
        have "\<exists>rs. consumed br rs br' \<and> br_left br' = 0 \<and> m = n + length rs \<and> accepted (D \<union> rec_sum ` set rs) batch' s'"
          if "accepted D batch s" "out = Inr (m, br')" for D m br'
        proof -
          have "accepted (insert (rec_sum r) D) b1 s1" using e(3) [OF that(1)] Inr by (simp add: sh)
          with ih that(2) obtain rs where "consumed br1 rs br'" "br_left br' = 0" "m = Suc n + length rs"
            "accepted (insert (rec_sum r) D \<union> rec_sum ` set rs) batch' s'" by blast
          with consumed_step [OF nx] show ?thesis by (intro exI [of _ "r # rs"]) simp
        qed
        with ih e(1) grows_trans show ?thesis by blast
      qed
    qed
  qed
qed

lemma handleBulkUpload_effect:
  assumes h: "handleBulkUpload ios iof cl r check s = (out, s')" and ready: "store_ready Z s"
    and ord: "\<And>k. order_ok (ios k)" "order_ok iof"
  shows "store_ready Z s' \<and> (\<forall>dg. stored dg s \<longrightarrow> stored dg s')
    \<and> (\<forall>u. out = Inr u \<longrightarrow> (\<exists>rs. bs_rest r = bulkFrame bulkKindData rs \<and> \<not> bs_fails r \<and> verifyBytes check (bs_rest r) = Inr ()
         \<and> records_ok False True fmempty rs \<and> limits_ok bulkBatchLimits (length rs) (records_length rs)
         \<and> u = \<lparr>bu_Chunks = length rs, bu_Bytes = records_length rs\<rparr> \<and> (\<forall>x \<in> set rs. stored (rec_sum x) s')))"
proof -
  have i: "batch_inv newCASBatch s \<and> accepted {} newCASBatch s"
    using ready by (intro batch_new) (simp_all add: store_ready_def healthy_def)
  have done': "store_ready Z (snd (batch_Abort b t)) \<and> (\<forall>dg. stored dg t \<longrightarrow> stored dg (snd (batch_Abort b t)))"
    if "batch_inv b t" "grows Z s t" for b t
  proof -
    obtain b' t' where ab: "batch_Abort b t = (b', t')" by fastforce
    note e = batch_Abort_effect [OF ab that(1)]
    have "b' = newCASBatch" using ab by (auto simp: batch_Abort_def Let_def)
    then have "staged_ok [] t'" using e(2) by (simp add: batch_inv_def newCASBatch_def)
    then show ?thesis using e(1) [of Z] that(2) ready by (simp add: ab store_ready_def grows_def)
  qed
  let ?body = "limitReader (bulkMaxFrameBytes + 1) r"
  consider (stop) "s' = s" "\<not> is_ok out" | (go) br where "cl \<le> int bulkMaxFrameBytes" "newBulkReader ?body bulkKindData bulkBatchLimits = Inr br"
    using h by (cases "newBulkReader ?body bulkKindData bulkBatchLimits") (auto simp: handleBulkUpload_def Let_def split: if_splits)
  then show ?thesis
  proof cases
    case stop
    then show ?thesis using ready by auto
  next
    case go
    from newBulkReader_sound [OF go(2)] have dat: "br_data br" by auto
    obtain q b1 s1 where l: "uploadLoop ios br 0 newCASBatch s = (q, b1, s1)" by (metis prod_cases3)
    note e = uploadLoop_effect [OF l dat conjunct1 [OF i] ord(1), of Z]
    consider (bad) "s' = snd (batch_Abort b1 s1)" "\<not> is_ok out"
      | (flush) n br' where "q = Inr (n, br')" "bulk_finish br' = Inr ()"
        "verifyBytes check (take (length (bs_rest ?body) - length (bs_rest (br_r br'))) (bs_rest ?body)) = Inr ()"
      using h go l by (auto simp: handleBulkUpload_def Let_def split: sum.splits if_splits)
    then show ?thesis
    proof cases
      case bad
      then show ?thesis using e done' [of b1 s1] by (auto simp: grows_def)
    next
      case flush
      obtain w b2 s2 where f: "batch_Flush iof b1 s1 = (w, b2, s2)" by (metis prod_cases3)
      have inv: "batch_inv b1 s1" and g1: "grows Z s s1" using e by simp_all
      note fe = batch_Flush_effect [OF f inv ord(2)]
      have s': "s' = snd (batch_Abort b2 s2)" and out: "is_ok out \<longleftrightarrow> w = Inr ()"
        "w = Inr () \<Longrightarrow> out = Inr \<lparr>bu_Chunks = n, bu_Bytes = br_sum br'\<rparr>"
        using h go l flush f by (auto simp: handleBulkUpload_def Let_def split: sum.splits)
      have g2: "grows Z s s2" using g1 fe(1) grows_trans by blast
      note d = done' [OF fe(2) g2]
      from e i flush(1) obtain rs where c: "consumed br rs br'" "br_left br' = 0" "n = length rs" "accepted (rec_sum ` set rs) b1 s1"
        by fastforce
      from newBulkReader_sound [OF go(2)] obtain k tot rest where hd: "bs_rest ?body = appendBulkHeader [] bulkKindData k tot @ rest"
        "limits_ok bulkBatchLimits k tot" "br = reader_of bulkKindData bulkBatchLimits k tot (?body\<lparr>bs_rest := rest\<rparr>)" by blast
      have fin: "br_sum br' = br_total br'" "bs_rest (br_r br') = []" "\<not> bs_fails (br_r br')" using flush(2) by (simp_all add: bulk_finish_ok)
      have rs: "k = length rs" "tot = records_length rs" "rest = concat (map (enc_record True) rs)" "\<not> bs_fails ?body"
        "records_ok False True fmempty rs" "br_sum br' = records_length rs"
        using c fin by (simp_all add: consumed_def hd(3) bulkBatchLimits_def)
      have frame: "bs_rest ?body = bulkFrame bulkKindData rs" using hd(1) rs by (simp add: bulkFrame_def)
      have "length (bulkFrame bulkKindData rs) \<le> bulkMaxFrameBytes"
        using hd(2) rs(1,2) length_bulkFrame [of False bulkKindData fmempty rs] rs(5)
        by (simp add: limits_ok_def bulkBatchLimits_def bulkMaxFrameBytes_def bulkMaxControlBytes_def bulkHeaderLen_def
            bulkDescLen_def maxBulkBytes_def)
      then have "length (bs_rest ?body) \<le> bulkMaxFrameBytes" by (simp only: frame)
      then have whole: "bs_rest ?body = bs_rest r" "\<not> bs_fails r" using rs(4) by (auto simp: limitReader_def)
      have "stored (rec_sum x) s'" if "x \<in> set rs" "w = Inr ()" for x
        using fe(3) [OF c(4) that(2)] that(1) d s' by blast
      moreover have "verifyBytes check (bs_rest r) = Inr ()" using flush(3) fin(2) whole(1) by simp
      ultimately have "\<exists>rs. bs_rest r = bulkFrame bulkKindData rs \<and> \<not> bs_fails r \<and> verifyBytes check (bs_rest r) = Inr ()
         \<and> records_ok False True fmempty rs \<and> limits_ok bulkBatchLimits (length rs) (records_length rs)
         \<and> u = \<lparr>bu_Chunks = length rs, bu_Bytes = records_length rs\<rparr> \<and> (\<forall>x \<in> set rs. stored (rec_sum x) s')" if "out = Inr u" for u
        using that out rs frame whole hd(2) c(3) by (intro exI [of _ rs]) simp
      then show ?thesis using d g2 s' by (simp add: grows_def)
    qed
  qed
qed

section \<open>Fetches\<close>

lemma hex_lower: "map ascii_lower (hex_encode b) = hex_encode b"
proof (induction b)
  case (Cons x b)
  have d: "ascii_lower (hex_digit n) = hex_digit n" if "n < 16" for n
    using that by (simp add: hex_digit_def ascii_lower_def Let_def)
  have "unat x < 256" by simp
  then have "unat x div 16 < 16" "unat x mod 16 < 16" by linarith+
  with Cons show ?case by (simp add: d)
qed simp

text \<open>A chunk that answers a descriptor.\<close>

definition answers :: "syncChunkDescriptor \<Rightarrow> bytes \<Rightarrow> bool" where
  "answers d p \<longleftrightarrow> map ascii_lower (cd_SHA256 d) = hex_encode (digest_bytes (sha256 p)) \<and> cd_Length d = int (length p)"

lemma fetchEmit_sound:
  "fetchEmit br ds got = (out, got') \<Longrightarrow> br_data br \<Longrightarrow>
     \<exists>ps. got' = got @ ps \<and> length ps \<le> length ds \<and> list_all2 answers (take (length ps) ds) ps
       \<and> (\<forall>br'. out = Inr br' \<longrightarrow> length ps = length ds)"
proof (induction br ds got rule: fetchEmit.induct)
  case (2 br d ds got)
  show ?case
  proof (cases "\<exists>r br1. bulk_next br = Inr (Some (r, br1)) \<and> hex_encode (digest_bytes (rec_sum r)) = map ascii_lower (cd_SHA256 d)
      \<and> int (rec_length r) = cd_Length d")
    case False
    then have "got' = got" "\<not> is_ok out" using "2.prems"(1) by (auto split: sum.splits option.splits if_splits)
    then show ?thesis by auto
  next
    case True
    then obtain r br1 where n: "bulk_next br = Inr (Some (r, br1))"
      and m: "hex_encode (digest_bytes (rec_sum r)) = map ascii_lower (cd_SHA256 d)" "int (rec_length r) = cd_Length d" by blast
    note s = bulk_next_sound [OF n]
    have a: "answers d (rec_payload r)" and dat: "br_data br1"
      using s m "2.prems"(2) by (auto simp: answers_def record_ok_def)
    have "fetchEmit br1 ds (got @ [rec_payload r]) = (out, got')" using "2.prems"(1) n m by simp
    with "2.IH" [OF n refl refl] m dat obtain ps where "got' = (got @ [rec_payload r]) @ ps" "length ps \<le> length ds"
      "list_all2 answers (take (length ps) ds) ps" "\<forall>br'. out = Inr br' \<longrightarrow> length ps = length ds" by fastforce
    with a show ?thesis by (intro exI [of _ "rec_payload r # ps"]) simp
  qed
qed simp

lemma fetchBulkChunks_sound:
  assumes "fetchBulkChunks descs response = (out, got)"
  shows "length got \<le> length descs \<and> list_all2 answers (take (length got) descs) got \<and> (is_ok out \<longrightarrow> length got = length descs)"
proof (cases "newBulkReader (limitReader (nat (bulkFrameSize bulkKindData descs) + 1) response) bulkKindData bulkBatchLimits")
  case (Inl e)
  then show ?thesis using assms by (auto simp: fetchBulkChunks_def)
next
  case (Inr br)
  from newBulkReader_sound [OF this] have dat: "br_data br" by auto
  show ?thesis
  proof (cases "br_left br \<noteq> length descs \<or> int (br_total br) \<noteq> bulkDescriptorBytes descs")
    case True
    then show ?thesis using assms Inr by (auto simp: fetchBulkChunks_def)
  next
    case False
    obtain o' g where f: "fetchEmit br descs [] = (o', g)" by fastforce
    have "got = g" "is_ok out \<longrightarrow> is_ok o'" using assms Inr False f by (auto simp: fetchBulkChunks_def split: sum.splits)
    then show ?thesis using fetchEmit_sound [OF f dat] by auto
  qed
qed


lemma records_ok_each: "records_ok dups dat seen rs \<Longrightarrow> \<forall>r \<in> set rs. record_ok dat r"
  by (induction rs arbitrary: seen) auto

text \<open>What an accepted response consists of: the records emitted, one after the other.\<close>

lemma fetchEmit_consumed:
  "fetchEmit br ds got = (Inr br', got') \<Longrightarrow> \<exists>rs. consumed br rs br' \<and> got' = got @ map rec_payload rs"
proof (induction br ds got rule: fetchEmit.induct)
  case (1 br got)
  then show ?case by (auto intro: exI [of _ "[]"])
next
  case (2 br d ds got)
  obtain r br1 where n: "bulk_next br = Inr (Some (r, br1))"
    and m: "\<not> (hex_encode (digest_bytes (rec_sum r)) \<noteq> map ascii_lower (cd_SHA256 d) \<or> int (rec_length r) \<noteq> cd_Length d)"
    and k: "fetchEmit br1 ds (got @ [rec_payload r]) = (Inr br', got')"
    using "2.prems" by (auto split: sum.splits option.splits if_splits)
  from "2.IH" [OF n refl refl m k] obtain rs where "consumed br1 rs br'" "got' = (got @ [rec_payload r]) @ map rec_payload rs"
    by blast
  with consumed_step [OF n] show ?case by (intro exI [of _ "r # rs"]) simp
qed

text \<open>The records of a request and of a response for given chunks.\<close>

definition desc_record :: "bytes \<Rightarrow> bulkRecord" where
  "desc_record p = \<lparr>rec_sum = sha256 p, rec_length = length p, rec_payload = [], rec_dup = False\<rparr>"

definition chunk_record :: "bytes \<Rightarrow> bulkRecord" where
  "chunk_record p = \<lparr>rec_sum = sha256 p, rec_length = length p, rec_payload = p, rec_dup = False\<rparr>"

lemma record_fields [simp]:
  "rec_sum (desc_record p) = sha256 p" "rec_length (desc_record p) = length p" "rec_payload (desc_record p) = []" "\<not> rec_dup (desc_record p)"
  "rec_sum (chunk_record p) = sha256 p" "rec_length (chunk_record p) = length p" "rec_payload (chunk_record p) = p" "\<not> rec_dup (chunk_record p)"
  by (simp_all add: desc_record_def chunk_record_def)

lemma records_length_chunks [simp]:
  "records_length (map desc_record ps) = length (concat ps)" "records_length (map chunk_record ps) = length (concat ps)"
  by (induction ps) simp_all

lemma data_frame_chunks:
  assumes "\<forall>r \<in> set rs. record_ok True r"
  shows "bulkFrame bulkKindData rs = bulkFrame bulkKindData (map chunk_record (map rec_payload rs))"
proof -
  have "rec_length r = length (rec_payload r) \<and> enc_record True r = enc_record True (chunk_record (rec_payload r))"
    if "r \<in> set rs" for r
    using assms that by (simp add: record_ok_def enc_record_def)
  then have a: "map rec_length rs = map rec_length (map chunk_record (map rec_payload rs))"
    and b: "map (enc_record True) rs = map (enc_record True) (map chunk_record (map rec_payload rs))" by simp_all
  show ?thesis by (simp only: bulkFrame_def records_length_def a b length_map simp_thms)
qed

lemma answers_bytes: "list_all2 answers ds ps \<Longrightarrow> bulkDescriptorBytes ds = int (length (concat ps))"
  by (induction ds ps rule: list_all2_induct) (auto simp: bulkDescriptorBytes_def answers_def)

text \<open>A response that is accepted is one data frame of the emitted chunks, to its last byte.\<close>

lemma fetchBulkChunks_whole:
  assumes "fetchBulkChunks descs response = (Inr u, got)"
  shows "bs_rest response = bulkFrame bulkKindData (map chunk_record got) \<and> \<not> bs_fails response"
proof -
  let ?n = "nat (bulkFrameSize bulkKindData descs)"
  let ?in = "limitReader (?n + 1) response"
  obtain br br' where n: "newBulkReader ?in bulkKindData bulkBatchLimits = Inr br"
    and e: "fetchEmit br descs [] = (Inr br', got)" and fin: "bulk_finish br' = Inr ()"
    using assms by (auto simp: fetchBulkChunks_def split: sum.splits if_splits prod.splits)
  obtain k tot rest where h: "bs_rest ?in = appendBulkHeader [] bulkKindData k tot @ rest"
    "br = reader_of bulkKindData bulkBatchLimits k tot (?in\<lparr>bs_rest := rest\<rparr>)"
    using newBulkReader_sound [OF n] by blast
  obtain rs where c: "consumed br rs br'" and got: "got = map rec_payload rs" using fetchEmit_consumed [OF e] by auto
  have d: "br_left br' = 0" "br_sum br' = br_total br'" "bs_rest (br_r br') = []" "\<not> bs_fails (br_r br')"
    using fin by (simp_all add: bulk_finish_ok)
  have kt: "k = length rs" "tot = records_length rs" "rest = concat (map (enc_record True) rs)" "records_ok False True fmempty rs"
    and nf: "\<not> bs_fails ?in"
    using c d by (simp_all add: consumed_def h(2) bulkBatchLimits_def)
  have body: "take (?n + 1) (bs_rest response) = bulkFrame bulkKindData rs"
    using h(1) by (simp add: kt(1-3) bulkFrame_def limitReader_def)
  note F = fetchBulkChunks_sound [OF assms]
  then have l: "length rs = length descs" "bulkDescriptorBytes descs = int (records_length rs)"
    using answers_bytes [of descs got] records_ok_each [OF kt(4)] data_frame_chunks [of rs]
    by (auto simp: got records_length_def record_ok_def length_concat comp_def cong: map_cong)
  have "length (bulkFrame bulkKindData rs) = ?n"
    using length_bulkFrame [of False bulkKindData fmempty rs] kt(4) l
    by (simp add: bulkFrameSize_def bulkHeaderLen_def bulkDescLen_def Let_def)
  then have "length (take (?n + 1) (bs_rest response)) = ?n" unfolding body .
  then have "length (bs_rest response) = ?n" by simp
  then show ?thesis using body nf data_frame_chunks [OF records_ok_each [OF kt(4)]] got by (simp add: limitReader_def)
qed

lemma bulkDescriptorBytes_chunks [simp]: "bulkDescriptorBytes (map chunk_desc ps) = int (length (concat ps))"
  by (induction ps) (simp_all add: bulkDescriptorBytes_def chunk_desc_def)

lemma chunk_desc_fields [simp]: "cd_SHA256 (chunk_desc p) = hex_encode (digest_bytes (sha256 p))" "cd_Length (chunk_desc p) = int (length p)"
  by (simp_all add: chunk_desc_def)

lemma encodeDescLoop_chunks:
  "encodeDescLoop (map chunk_desc ps) b = Some b' \<Longrightarrow>
     b' = b @ concat (map (enc_record False) (map desc_record ps)) \<and> (\<forall>p \<in> set ps. 0 < length p \<and> length p \<le> cdcMaxChunkSize)"
proof (induction ps arbitrary: b)
  case (Cons p ps)
  have sz: "0 < length p \<and> length p \<le> cdcMaxChunkSize" and k: "encodeDescLoop (map chunk_desc ps) (appendBulkDesc b (sha256 p) (length p)) = Some b'"
    using Cons.prems by (auto simp: normalizedSyncDigest_def maxSyncChunkBytes_def split: if_splits)
  from Cons.IH [OF k] sz show ?case
    by (simp add: appendBulkDesc_prefix [of b] enc_record_def)
qed simp

lemma encodeBulkDescriptors_chunks:
  assumes "encodeBulkDescriptors kind (map chunk_desc ps) = Some b" "kind \<noteq> bulkKindData"
  shows "b = bulkFrame kind (map desc_record ps)" "\<forall>p \<in> set ps. 0 < length p \<and> length p \<le> cdcMaxChunkSize"
  using encodeDescLoop_chunks [OF assms(1) [unfolded encodeBulkDescriptors_def]] assms(2)
  by (simp_all add: bulkFrame_def)

lemma appendBulkDesc_inj:
  assumes "appendBulkDesc [] a m = appendBulkDesc [] b n" "m \<le> cdcMaxChunkSize" "n \<le> cdcMaxChunkSize"
  shows "a = b \<and> m = n"
proof -
  have "digest_bytes a = digest_bytes b" "put_be 4 (word_of_nat m :: u32) = put_be 4 (word_of_nat n :: u32)"
    using assms(1) by (auto simp: appendBulkDesc_def)
  then have "a = b" "(word_of_nat m :: u32) = word_of_nat n" by (metis digest_of_digest_bytes, metis get_put_be32)
  moreover have "unat (word_of_nat m :: u32) = m" "unat (word_of_nat n :: u32) = n"
    using assms(2,3) by (simp_all add: cdcMaxChunkSize_def unat_of_nat)
  ultimately show ?thesis by metis
qed

lemma length_enc_descs [simp]: "length (enc_record False r) = 36" "length (concat (map (enc_record False) rs)) = 36 * length rs"
proof -
  show l: "length (enc_record False r) = 36" for r by (simp add: enc_record_def)
  show "length (concat (map (enc_record False) rs)) = 36 * length rs" by (induction rs) (simp_all add: l)
qed

lemma desc_records_inj:
  "records_ok False False seen rs \<Longrightarrow> length rs = length ps \<Longrightarrow> \<forall>p \<in> set ps. length p \<le> cdcMaxChunkSize
     \<Longrightarrow> concat (map (enc_record False) rs) = concat (map (enc_record False) (map desc_record ps)) \<Longrightarrow> rs = map desc_record ps"
proof (induction rs arbitrary: seen ps)
  case (Cons r rs)
  then obtain p qs where ps: "ps = p # qs" by (cases ps) auto
  have ok: "record_ok False r" "seen_ok False seen r" using Cons.prems(1) by simp_all
  have e: "enc_record False r = enc_record False (desc_record p)" "concat (map (enc_record False) rs) = concat (map (enc_record False) (map desc_record qs))"
    using Cons.prems(4) append_eq_append_conv [of "enc_record False r" "enc_record False (desc_record p)"] by (simp_all add: ps)
  have "rec_sum r = sha256 p \<and> rec_length r = length p"
    using e(1) ok(1) Cons.prems(3) by (intro appendBulkDesc_inj) (simp_all add: ps enc_record_def record_ok_def)
  moreover have "rec_payload r = []" "\<not> rec_dup r" using ok by (auto simp: record_ok_def seen_ok_def split: option.splits)
  ultimately have "r = desc_record p" by (simp add: desc_record_def)
  moreover have "rs = map desc_record qs"
    by (rule Cons.IH [OF _ _ _ e(2)]) (use Cons.prems(1-3) ps in auto)
  ultimately show ?case by (simp add: ps)
qed simp

lemma bulkFrame_rest: "drop 20 (bulkFrame kind rs) = concat (map (enc_record (kind = bulkKindData)) rs)"
  by (simp add: bulkFrame_def)

lemma read_request:
  assumes "encodeBulkDescriptors kind (map chunk_desc ps) = Some b" "kind \<noteq> bulkKindData"
    and "readBulkDescriptors \<lparr>bs_rest = b, bs_fails = False\<rparr> check kind lim = Inr rs" "\<not> bl_allowDup lim"
  shows "rs = map desc_record ps \<and> records_ok False False fmempty rs \<and> limits_ok lim (length ps) (length (concat ps))"
proof -
  note E = encodeBulkDescriptors_chunks [OF assms(1,2)]
  have "readBulkFrame kind lim \<lparr>bs_rest = b, bs_fails = False\<rparr> = Inr rs" using readBulkDescriptors_frame [OF assms(3)] by simp
  from readBulkFrame_sound [OF this] assms(2,4)
  have f: "b = bulkFrame kind rs" "records_ok False False fmempty rs" "limits_ok lim (length rs) (records_length rs)" by simp_all
  have c: "concat (map (enc_record False) rs) = concat (map (enc_record False) (map desc_record ps))"
    using f(1) E(1) assms(2) bulkFrame_rest [of kind] by metis
  moreover have "length rs = length ps" using arg_cong [OF c, of length] by (simp del: map_map)
  ultimately have "rs = map desc_record ps" using desc_records_inj [OF f(2)] E(2) by auto
  with f show ?thesis by simp
qed

lemma fetchStats_total: "fetchStats fails s rs t = Inr tot \<Longrightarrow> tot = t + records_length rs"
  by (induction fails s rs t rule: fetchStats.induct) (auto split: sum.splits if_splits)

lemma fetchLoop_sound:
  assumes "\<And>p fl d. p \<in> set ps \<Longrightarrow> casRead Z fl (sha256 p) s = Inr d \<Longrightarrow> d = p"
    and "\<And>p qs d. ps = p # qs \<Longrightarrow> first = Some d \<Longrightarrow> d = p"
  shows "fetchLoop Z fails wr s first (map desc_record ps) k sent = (body, ok) \<Longrightarrow>
    (\<exists>t. body @ t = sent @ concat (map (enc_record True) (map chunk_record ps)))
    \<and> (ok \<longrightarrow> body = sent @ concat (map (enc_record True) (map chunk_record ps)))"
  using assms
proof (induction ps arbitrary: first k sent)
  case (Cons p ps)
  let ?sent = "appendBulkDesc sent (sha256 p) (length p)"
  let ?got = "case first of Some data \<Rightarrow> Some data | None \<Rightarrow> (case casRead Z (fails (sha256 p)) (sha256 p) s of
                 Inl _ \<Rightarrow> None | Inr data \<Rightarrow> if length data \<noteq> length p then None else Some data)"
  have enc: "sent @ enc_record True (chunk_record p) = ?sent @ p"
    by (simp add: enc_record_def appendBulkDesc_def)
  have got: "?got = Some d \<Longrightarrow> d = p" for d
    using Cons.prems(2) [of p] Cons.prems(3) [of p ps] by (auto split: option.splits sum.splits if_splits)
  have "fetchLoop Z fails wr s first (map desc_record (p # ps)) k sent = (case ?got of None \<Rightarrow> (sent, False)
      | Some data \<Rightarrow> if wr k then (sent, False) else if wr (Suc k) then (?sent, False)
          else fetchLoop Z fails wr s None (map desc_record ps) (k + 2) (?sent @ data))"
    by (simp only: list.map fetchLoop.simps record_fields)
  note st = this [unfolded Cons.prems(1), symmetric]
  show ?case
  proof (cases ?got)
    case None
    then have "body = sent" "\<not> ok" using st by simp_all
    then show ?thesis by simp
  next
    case (Some d)
    then have d: "?got = Some p" using got by blast
    consider "wr k" "body = sent" "\<not> ok" | "wr (Suc k)" "body = ?sent" "\<not> ok"
      | "fetchLoop Z fails wr s None (map desc_record ps) (k + 2) (?sent @ p) = (body, ok)"
      using st d by (cases "wr k"; cases "wr (Suc k)") simp_all
    then show ?thesis
    proof cases
      case 1
      then show ?thesis by simp
    next
      case 2
      have "body @ (p @ concat (map (enc_record True) (map chunk_record ps))) = sent @ concat (map (enc_record True) (map chunk_record (p # ps)))"
        using enc 2(2) by simp
      with 2(3) show ?thesis by blast
    next
      case 3
      have "(\<exists>t. body @ t = (?sent @ p) @ concat (map (enc_record True) (map chunk_record ps)))
        \<and> (ok \<longrightarrow> body = (?sent @ p) @ concat (map (enc_record True) (map chunk_record ps)))"
        using Cons.prems(2) by (intro Cons.IH [OF 3]) auto
      then show ?thesis using enc by (metis append_assoc concat.simps(2) list.simps(9))
    qed
  qed
qed simp

lemma chunk_records_ok:
  "records_ok False False seen (map desc_record ps) \<Longrightarrow> records_ok False True seen (map chunk_record ps)"
proof (induction ps arbitrary: seen)
  case (Cons p ps)
  have "see (chunk_record p) seen = see (desc_record p) seen" "seen_ok False seen (chunk_record p) = seen_ok False seen (desc_record p)"
    by (auto simp: see_def seen_ok_def split: option.splits)
  with Cons show ?case by (simp add: record_ok_def)
qed simp

lemma fetchEmit_complete:
  "br_data br \<Longrightarrow> records_ok (bl_allowDup (br_lim br)) True (br_seen br) (map chunk_record ps) \<Longrightarrow> br_left br = length ps
     \<Longrightarrow> bs_rest (br_r br) = concat (map (enc_record True) (map chunk_record ps)) @ rest
     \<Longrightarrow> br_sum br + length (concat ps) \<le> br_total br
     \<Longrightarrow> \<exists>br'. fetchEmit br (map chunk_desc ps) got = (Inr br', got @ ps) \<and> consumed br (map chunk_record ps) br' \<and> bs_rest (br_r br') = rest"
proof (induction ps arbitrary: br got)
  case Nil
  then show ?case by simp
next
  case (Cons p ps)
  let ?b1 = "advance (chunk_record p) ((br_r br)\<lparr>bs_rest := concat (map (enc_record True) (map chunk_record ps)) @ rest\<rparr>) br"
  have n: "bulk_next br = Inr (Some (chunk_record p, ?b1))"
    using Cons.prems by (intro bulk_next_complete) simp_all
  have "\<exists>br'. fetchEmit ?b1 (map chunk_desc ps) (got @ [p]) = (Inr br', (got @ [p]) @ ps) \<and> consumed ?b1 (map chunk_record ps) br'
      \<and> bs_rest (br_r br') = rest"
    using Cons.prems by (intro Cons.IH) simp_all
  then obtain br' where b: "fetchEmit ?b1 (map chunk_desc ps) (got @ [p]) = (Inr br', (got @ [p]) @ ps)"
    "consumed ?b1 (map chunk_record ps) br'" "bs_rest (br_r br') = rest" by blast
  have "fetchEmit br (map chunk_desc (p # ps)) got = fetchEmit ?b1 (map chunk_desc ps) (got @ [p])"
    by (simp add: n hex_lower)
  with b consumed_step [OF n b(2)] show ?case by auto
qed

lemma fetchBulkChunks_complete:
  assumes "records_ok False True fmempty (map chunk_record ps)" "limits_ok bulkBatchLimits (length ps) (length (concat ps))"
  shows "fetchBulkChunks (map chunk_desc ps) \<lparr>bs_rest = bulkFrame bulkKindData (map chunk_record ps), bs_fails = False\<rparr> = (Inr (), ps)"
proof -
  let ?f = "bulkFrame bulkKindData (map chunk_record ps)"
  let ?rest = "concat (map (enc_record True) (map chunk_record ps))"
  let ?br = "reader_of bulkKindData bulkBatchLimits (length ps) (length (concat ps)) \<lparr>bs_rest = ?rest, bs_fails = False\<rparr>"
  have len: "length ?f = 20 + 36 * length ps + length (concat ps)"
    using length_bulkFrame [of False bulkKindData fmempty "map chunk_record ps"] assms(1) by simp
  have "nat (bulkFrameSize bulkKindData (map chunk_desc ps)) = length ?f"
    by (simp only: len) (simp add: bulkFrameSize_def bulkHeaderLen_def bulkDescLen_def nat_plus_as_int)
  then have lim: "limitReader (nat (bulkFrameSize bulkKindData (map chunk_desc ps)) + 1) \<lparr>bs_rest = ?f, bs_fails = False\<rparr>
      = \<lparr>bs_rest = ?f, bs_fails = False\<rparr>" by (simp add: limitReader_def)
  have n: "length ps \<le> 4096" "length (concat ps) \<le> 67108864"
    using assms(2) by (simp_all add: limits_ok_def bulkBatchLimits_def maxBulkRecords_def maxBulkBytes_def)
  have nr: "newBulkReader \<lparr>bs_rest = ?f, bs_fails = False\<rparr> bulkKindData bulkBatchLimits = Inr ?br"
    using newBulkReader_complete [of "\<lparr>bs_rest = ?f, bs_fails = False\<rparr>" bulkKindData "length ps" "length (concat ps)" ?rest bulkBatchLimits]
      n assms(2) by (simp add: bulkFrame_def)
  obtain br' where e: "fetchEmit ?br (map chunk_desc ps) [] = (Inr br', [] @ ps)" "consumed ?br (map chunk_record ps) br'" "bs_rest (br_r br') = []"
    using fetchEmit_complete [of ?br ps "[]" "[]"] assms(1) by (auto simp: bulkBatchLimits_def)
  have "bulk_finish br' = Inr ()" using e(2,3) by (simp add: bulk_finish_ok consumed_def)
  then show ?thesis using lim nr e(1) by (simp add: fetchBulkChunks_def)
qed

lemma handleBulkFetch_spec:
  assumes "encodeBulkDescriptors bulkKindFetch (map chunk_desc ps) = Some req"
    and h: "handleBulkFetch Z sf rf wr \<lparr>bs_rest = req, bs_fails = False\<rparr> check s = Inr resp" and faith: "faithful Z s ps"
  shows "fr_contentLength resp = int (length (bulkFrame bulkKindData (map chunk_record ps)))
    \<and> (\<exists>t. fr_body resp @ t = bulkFrame bulkKindData (map chunk_record ps))
    \<and> (fr_complete resp \<longrightarrow> fr_body resp = bulkFrame bulkKindData (map chunk_record ps)
         \<and> fetchBulkChunks (map chunk_desc ps) \<lparr>bs_rest = fr_body resp, bs_fails = False\<rparr> = (Inr (), ps))"
proof -
  have kd: "bulkKindFetch \<noteq> bulkKindData" "\<not> bl_allowDup bulkBatchLimits"
    by (simp_all add: bulkKindFetch_def bulkKindData_def bulkBatchLimits_def)
  obtain recs where r: "readBulkDescriptors \<lparr>bs_rest = req, bs_fails = False\<rparr> check bulkKindFetch bulkBatchLimits = Inr recs"
    using h by (auto simp: handleBulkFetch_def split: sum.splits)
  note R = read_request [OF assms(1) kd(1) r kd(2)]
  have recs: "recs = map desc_record ps" "records_ok False False fmempty (map desc_record ps)"
    and lim: "limits_ok bulkBatchLimits (length ps) (length (concat ps))" using R by (metis, metis, blast)
  obtain p qs where ps: "ps = p # qs" using lim by (cases ps) (simp_all add: limits_ok_def bulkBatchLimits_def)
  have rd: "d = q" if "q \<in> set ps" "casRead Z fl (sha256 q) s = Inr d" for q fl d
    using faith casRead_served [OF that(2)] that(1) by (simp add: faithful_def)
  have ok: "records_ok False True fmempty (map chunk_record ps)" using recs chunk_records_ok by simp
  obtain tot where t: "fetchStats sf s recs 0 = Inr tot" using h r by (auto simp: handleBulkFetch_def split: sum.splits)
  then have tot: "tot = length (concat ps)" using fetchStats_total [OF t] recs by simp
  have r0: "rec_sum (recs ! 0) = sha256 p" by (simp add: recs ps)
  obtain d where d: "casRead Z (rf (sha256 p)) (sha256 p) s = Inr d"
    using h r t by (auto simp: handleBulkFetch_def r0 split: sum.splits)
  then have dp: "d = p" using rd [of p] ps by simp
  let ?hdr = "appendBulkHeader [] bulkKindData (length ps) (length (concat ps))"
  let ?frame = "bulkFrame bulkKindData (map chunk_record ps)"
  have frame: "?frame = ?hdr @ concat (map (enc_record True) (map chunk_record ps))" by (simp add: bulkFrame_def)
  have len: "int (bulkHeaderLen + bulkDescLen * length recs) + int tot = int (length ?frame)"
    using length_bulkFrame [of False bulkKindData fmempty "map chunk_record ps"] ok tot recs
    by (simp add: bulkHeaderLen_def bulkDescLen_def)
  have cl: "length recs = length ps" by (simp add: recs)
  show ?thesis
  proof (cases "wr 0")
    case True
    then have "resp = \<lparr>fr_contentLength = int (bulkHeaderLen + bulkDescLen * length recs) + int tot, fr_body = [], fr_complete = False\<rparr>"
      using h r t d by (simp add: handleBulkFetch_def r0 Let_def)
    then have "resp = \<lparr>fr_contentLength = int (length ?frame), fr_body = [], fr_complete = False\<rparr>" by (simp only: len)
    then show ?thesis by simp
  next
    case False
    obtain body ok' where l: "fetchLoop Z rf wr s (Some p) (map desc_record ps) 1 ?hdr = (body, ok')" by fastforce
    have "fetchLoop Z rf wr s (Some d) recs 1 (appendBulkHeader [] bulkKindData (length recs) tot) = (body, ok')"
      using l by (simp only: dp recs(1) tot length_map)
    then have "resp = \<lparr>fr_contentLength = int (bulkHeaderLen + bulkDescLen * length recs) + int tot, fr_body = body, fr_complete = ok'\<rparr>"
      using h r t d False by (simp add: handleBulkFetch_def r0 Let_def)
    then have resp: "resp = \<lparr>fr_contentLength = int (length ?frame), fr_body = body, fr_complete = ok'\<rparr>" by (simp only: len)
    have "(\<exists>t. body @ t = ?hdr @ concat (map (enc_record True) (map chunk_record ps)))
      \<and> (ok' \<longrightarrow> body = ?hdr @ concat (map (enc_record True) (map chunk_record ps)))"
      by (rule fetchLoop_sound [OF _ _ l]) (use rd ps in auto)
    then show ?thesis using fetchBulkChunks_complete [OF ok lim] frame by (auto simp: resp)
  qed
qed


lemma uploadLoop_live:
  "br_data br \<Longrightarrow> records_ok (bl_allowDup (br_lim br)) True (br_seen br) rs \<Longrightarrow> br_left br = length rs
     \<Longrightarrow> bs_rest (br_r br) = concat (map (enc_record True) rs) @ rest \<Longrightarrow> br_sum br + records_length rs \<le> br_total br
     \<Longrightarrow> batch_inv batch s \<Longrightarrow> quiet_flight (cb_flight batch) \<Longrightarrow> (\<And>k. quiet (ios k))
     \<Longrightarrow> \<exists>m br' batch' s'. uploadLoop ios br n batch s = (Inr (m, br'), batch', s') \<and> quiet_flight (cb_flight batch')
           \<and> consumed br rs br' \<and> bs_rest (br_r br') = rest \<and> br_left br' = 0"
proof (induction rs arbitrary: br n batch s)
  case Nil
  then have "bulk_next br = Inr None" by (simp add: bulk_next_end)
  then show ?case using Nil by (subst uploadLoop.simps) simp
next
  case (Cons r rs)
  let ?b1 = "advance r ((br_r br)\<lparr>bs_rest := concat (map (enc_record True) rs) @ rest\<rparr>) br"
  have n: "bulk_next br = Inr (Some (r, ?b1))"
    using Cons.prems by (intro bulk_next_complete) simp_all
  obtain q b1 s1 where a: "batch_add (ios n) (rec_sum r) (rec_payload r) batch s = (q, b1, s1)" by (metis prod_cases3)
  have sh: "rec_sum r = sha256 (rec_payload r)" using Cons.prems(2) by (simp add: record_ok_def)
  note qa = batch_add_quiet [OF a [unfolded sh] Cons.prems(6,7,8)]
  have inv: "batch_inv b1 s1"
    using batch_add_effect(2) [OF a [unfolded sh] Cons.prems(6)] Cons.prems(8) by (simp add: quiet_def)
  have "\<exists>m br' batch' s'. uploadLoop ios ?b1 (Suc n) b1 s1 = (Inr (m, br'), batch', s') \<and> quiet_flight (cb_flight batch')
           \<and> consumed ?b1 rs br' \<and> bs_rest (br_r br') = rest \<and> br_left br' = 0"
    using Cons.prems qa inv by (intro Cons.IH) simp_all
  moreover have "uploadLoop ios br n batch s = uploadLoop ios ?b1 (Suc n) b1 s1"
    using n a qa by (subst uploadLoop.simps) simp
  ultimately show ?case using consumed_step [OF n] by metis
qed

lemma handleBulkUpload_live:
  assumes "bs_rest r = bulkFrame bulkKindData rs" "\<not> bs_fails r" "verifyBytes check (bs_rest r) = Inr ()"
    and ok: "records_ok False True fmempty rs" and lim: "limits_ok bulkBatchLimits (length rs) (records_length rs)"
    and "cl \<le> int bulkMaxFrameBytes" "store_ready Z s" "\<And>k. quiet (ios k)" "quiet iof"
  shows "is_ok (fst (handleBulkUpload ios iof cl r check s))"
proof -
  let ?rest = "concat (map (enc_record True) rs)"
  let ?br = "reader_of bulkKindData bulkBatchLimits (length rs) (records_length rs) (r\<lparr>bs_rest := ?rest\<rparr>)"
  have n: "length rs \<le> 4096" "records_length rs \<le> 67108864"
    using lim by (simp_all add: limits_ok_def bulkBatchLimits_def maxBulkRecords_def maxBulkBytes_def)
  then have "length (bulkFrame bulkKindData rs) \<le> bulkMaxFrameBytes"
    using length_bulkFrame [of False bulkKindData fmempty rs] ok
    by (simp add: bulkMaxFrameBytes_def bulkMaxControlBytes_def bulkHeaderLen_def bulkDescLen_def maxBulkRecords_def maxBulkBytes_def)
  then have body: "limitReader (bulkMaxFrameBytes + 1) r = r" using assms(1,2) by (simp add: limitReader_def)
  have nr: "newBulkReader r bulkKindData bulkBatchLimits = Inr ?br"
    using newBulkReader_complete [of r bulkKindData "length rs" "records_length rs" ?rest bulkBatchLimits] n lim assms(1) by (simp add: bulkFrame_def)
  have i: "batch_inv newCASBatch s" using assms(7) batch_new [of s] by (simp add: store_ready_def healthy_def)
  have "\<exists>m br' batch' s'. uploadLoop ios ?br 0 newCASBatch s = (Inr (m, br'), batch', s') \<and> quiet_flight (cb_flight batch')
           \<and> consumed ?br rs br' \<and> bs_rest (br_r br') = [] \<and> br_left br' = 0"
    using ok i assms(8) by (intro uploadLoop_live) (simp_all add: bulkBatchLimits_def newCASBatch_def)
  then obtain m br' batch' s1 where u: "uploadLoop ios ?br 0 newCASBatch s = (Inr (m, br'), batch', s1)" "quiet_flight (cb_flight batch')"
    "consumed ?br rs br'" "bs_rest (br_r br') = []" "br_left br' = 0" by blast
  have fin: "bulk_finish br' = Inr ()" using u assms(2) by (simp add: bulk_finish_ok consumed_def)
  have "order_ok (ios k)" for k using assms(8) by (simp add: quiet_def)
  then have inv: "batch_inv batch' s1" using uploadLoop_effect [OF u(1) _ i] by simp
  obtain w b2 s2 where f: "batch_Flush iof batch' s1 = (w, b2, s2)" by (metis prod_cases3)
  have "w = Inr ()" by (rule batch_Flush_quiet [OF f inv u(2) assms(9)])
  have "take (length (bs_rest r) - length (bs_rest (br_r br'))) (bs_rest r) = bs_rest r" using u(4) by simp
  with f \<open>w = Inr ()\<close> assms(3,6) show ?thesis
    unfolding handleBulkUpload_def body Let_def nr by (simp add: u(1) fin)
qed

section \<open>Plans\<close>

definition batch_fits :: "bulkPolicy \<Rightarrow> syncChunkDescriptor list \<Rightarrow> bool" where
  "batch_fits p c \<longleftrightarrow> c \<noteq> [] \<and> length c \<le> bp_maxRecords p \<and> (length c = 1 \<or> bulkDescriptorBytes c \<le> bp_targetBytes p)"

lemma planLoopBulk_ok:
  "1 \<le> bp_maxRecords p \<Longrightarrow> cur = [] \<or> batch_fits p cur \<Longrightarrow> tot' = bulkDescriptorBytes cur \<Longrightarrow> \<forall>c \<in> set out. batch_fits p c
     \<Longrightarrow> concat (planLoopBulk p ds cur tot' out) = concat out @ cur @ ds \<and> (\<forall>c \<in> set (planLoopBulk p ds cur tot' out). batch_fits p c)"
proof (induction p ds cur tot' out rule: planLoopBulk.induct)
  case (2 p d ds cur tot' out)
  show ?case
  proof (cases "cur \<noteq> [] \<and> (length cur \<ge> bp_maxRecords p \<or> tot' + cd_Length d > bp_targetBytes p)")
    case True
    have "[d] = [] \<or> batch_fits p [d]" "\<forall>c \<in> set (out @ [cur]). batch_fits p c" "cd_Length d = bulkDescriptorBytes [d]"
      using "2.prems" True by (auto simp: batch_fits_def bulkDescriptorBytes_def)
    with "2.IH"(1) [OF True "2.prems"(1)] True show ?thesis by simp
  next
    case False
    have f: "batch_fits p (cur @ [d])"
    proof (cases "cur = []")
      case True
      then show ?thesis using "2.prems"(1) by (simp add: batch_fits_def)
    next
      case ne: False
      then show ?thesis using False "2.prems"(3) by (simp add: batch_fits_def bulkDescriptorBytes_def)
    qed
    have "tot' + cd_Length d = bulkDescriptorBytes (cur @ [d])" using "2.prems"(3) by (simp add: bulkDescriptorBytes_def)
    with "2.IH"(2) [OF False "2.prems"(1) disjI2 [OF f] _ "2.prems"(4)] False show ?thesis by auto
  qed
qed auto

lemma bulkPolicyFor_ok:
  assumes "\<forall>c \<in> set caps. \<exists>d. bulkCapsOf d = Some c" "target \<le> int maxBulkBytes"
  shows "1 \<le> bp_maxRecords (bulkPolicyFor target caps) \<and> bp_maxRecords (bulkPolicyFor target caps) \<le> maxBulkRecords
    \<and> bp_targetBytes (bulkPolicyFor target caps) \<le> int maxBulkBytes"
proof -
  have "\<forall>c \<in> set caps. 1 \<le> bc_maxRecords c" using assms(1) by (fastforce simp: bulkCapsOf_def maxBulkRecords_def split: if_splits)
  then have "\<forall>p. 1 \<le> bp_maxRecords p \<and> bp_maxRecords p \<le> maxBulkRecords \<and> bp_targetBytes p \<le> int maxBulkBytes \<longrightarrow>
    (let q = foldl (\<lambda>p c. \<lparr>bp_maxRecords = min (bp_maxRecords p) (bc_maxRecords c), bp_targetBytes = min (bp_targetBytes p) (bc_maxBytes c)\<rparr>) p caps
     in 1 \<le> bp_maxRecords q \<and> bp_maxRecords q \<le> maxBulkRecords \<and> bp_targetBytes q \<le> int maxBulkBytes)"
    by (induction caps) (auto simp: Let_def min_le_iff_disj)
  then show ?thesis using assms(2) by (simp add: bulkPolicyFor_def Let_def maxBulkRecords_def)
qed

lemma batch_fits_limits:
  assumes "batch_fits p c" "bp_maxRecords p \<le> maxBulkRecords" "bp_targetBytes p \<le> int maxBulkBytes" "\<forall>d \<in> set c. desc_ok d"
  shows "limits_ok bulkBatchLimits (length c) (nat (bulkDescriptorBytes c))"
proof -
  have len: "\<forall>d \<in> set c. 0 < cd_Length d \<and> cd_Length d \<le> int cdcMaxChunkSize"
    using assms(4) by (auto simp: desc_ok_def normalizedSyncDigest_def maxSyncChunkBytes_def split: option.splits if_splits)
  then have "int (length c) \<le> bulkDescriptorBytes c \<and> bulkDescriptorBytes c \<le> int (length c) * int cdcMaxChunkSize"
    by (induction c) (auto simp: bulkDescriptorBytes_def algebra_simps)
  moreover have "bulkDescriptorBytes c \<le> int maxBulkBytes"
  proof (cases "length c = 1")
    case True
    then obtain d where "c = [d]" by (auto simp: length_Suc_conv)
    then show ?thesis using len by (simp add: bulkDescriptorBytes_def cdcMaxChunkSize_def maxBulkBytes_def)
  qed (use assms in \<open>auto simp: batch_fits_def\<close>)
  ultimately show ?thesis using assms(1,2)
    by (auto simp: limits_ok_def bulkBatchLimits_def batch_fits_def nat_le_iff le_nat_iff)
qed


lemma readBulkDescriptors_exact:
  assumes "kind \<noteq> bulkKindData" and "bl_maxRecords lim \<le> maxBulkRecords"
  shows "readBulkDescriptors r check kind lim = Inr rs \<longleftrightarrow>
    bs_rest r = bulkFrame kind rs \<and> \<not> bs_fails r \<and> verifyBytes check (bs_rest r) = Inr ()
    \<and> records_ok (bl_allowDup lim) False fmempty rs \<and> limits_ok lim (length rs) (records_length rs)"
proof
  assume h: "readBulkDescriptors r check kind lim = Inr rs"
  from readBulkDescriptors_frame [OF this] readBulkFrame_sound [of kind lim "\<lparr>bs_rest = bs_rest r, bs_fails = False\<rparr>" rs] assms(1)
  show "bs_rest r = bulkFrame kind rs \<and> \<not> bs_fails r \<and> verifyBytes check (bs_rest r) = Inr ()
    \<and> records_ok (bl_allowDup lim) False fmempty rs \<and> limits_ok lim (length rs) (records_length rs)" by simp
next
  assume f: "bs_rest r = bulkFrame kind rs \<and> \<not> bs_fails r \<and> verifyBytes check (bs_rest r) = Inr ()
    \<and> records_ok (bl_allowDup lim) False fmempty rs \<and> limits_ok lim (length rs) (records_length rs)"
  have "length (bs_rest r) \<le> bulkMaxControlBytes"
    using f assms length_bulkFrame [of "bl_allowDup lim" kind fmempty rs]
    by (simp add: bulkMaxControlBytes_def bulkHeaderLen_def bulkDescLen_def limits_ok_def)
  then have b: "readAllLimited r bulkMaxControlBytes = Some (bs_rest r)"
    using f by (simp add: readAllLimited_def limitReader_def)
  have "readBulkFrame kind lim \<lparr>bs_rest = bs_rest r, bs_fails = False\<rparr> = Inr rs"
    using f assms by (intro readBulkFrame_complete) simp_all
  then obtain br br' where "newBulkReader \<lparr>bs_rest = bs_rest r, bs_fails = False\<rparr> kind lim = Inr br" "bulkRecords br [] = Inr (rs, br')"
    "bulk_finish br' = Inr ()"
    by (cases "newBulkReader \<lparr>bs_rest = bs_rest r, bs_fails = False\<rparr> kind lim") (auto simp: readBulkFrame_def)
  moreover have "verifyBytes check (bs_rest r) = Inr ()" using f by blast
  ultimately show "readBulkDescriptors r check kind lim = Inr rs" unfolding readBulkDescriptors_def b by simp
qed

section \<open>Properties\<close>

text \<open>
  C36: A bulk request is read exactly. \<open>readBulkDescriptors\<close> accepts a body if and only if it is the frame of the
  records it returns: right header, counts and total, every length in bounds, no repeated digest unless the
  request may repeat them (then with one length, and marked), nothing before, between or after, and the
  checksums of the request hold.
\<close>

theorem bulk_requests_are_exact:
  assumes "kind \<noteq> bulkKindData" and "bl_maxRecords lim \<le> maxBulkRecords"
  shows "readBulkDescriptors r check kind lim = Inr rs \<longleftrightarrow>
    bs_rest r = bulkFrame kind rs \<and> \<not> bs_fails r \<and> verifyBytes check (bs_rest r) = Inr ()
    \<and> records_ok (bl_allowDup lim) False fmempty rs \<and> limits_ok lim (length rs) (records_length rs)"
  using assms by (rule readBulkDescriptors_exact)

lemma verify_no_check [simp]: "verifyBytes no_check b = Inr ()"
  by (simp add: verifyBytes_def no_check_def payloadCheck_verify_def)

lemma one_record:
  "records_ok d False fmempty [desc_record [7]]" "records_ok d True fmempty [chunk_record [7]]"
  "limits_ok bulkBatchLimits 1 1" "limits_ok bulkNegotiateLimits 1 1"
  by (simp_all add: record_ok_def seen_ok_def cdcMaxChunkSize_def limits_ok_def bulkBatchLimits_def bulkNegotiateLimits_def
      maxBulkRecords_def maxBulkBytes_def)

theorem bulk_requests_are_exact_witness:
  "readBulkDescriptors \<lparr>bs_rest = bulkFrame bulkKindNegotiate [desc_record [7]], bs_fails = False\<rparr> no_check bulkKindNegotiate
     bulkNegotiateLimits = Inr [desc_record [7]]"
proof -
  have k: "bulkKindNegotiate \<noteq> bulkKindData" "bl_maxRecords bulkNegotiateLimits \<le> maxBulkRecords"
    by (simp_all add: bulkKindNegotiate_def bulkKindData_def bulkNegotiateLimits_def)
  show ?thesis unfolding bulk_requests_are_exact [OF k] using one_record by (simp del: records_ok.simps)
qed

text \<open>
  C37: A bulk fetch delivers what was asked for, or visibly less. When the server answers a client's
  request for chunks, it announces the length of their data frame and sends a prefix of it,
  whatever reads or writes fail on the way; a response that was sent to its end is the whole frame, and
  the client's \<open>fetchBulkChunks\<close> accepts it and emits exactly the chunks.
\<close>

theorem bulk_fetch_delivers:
  assumes "encodeBulkDescriptors bulkKindFetch (map chunk_desc ps) = Some req"
    and "handleBulkFetch Z sf rf wr \<lparr>bs_rest = req, bs_fails = False\<rparr> check s = Inr resp" and "faithful Z s ps"
  shows "fr_contentLength resp = int (length (bulkFrame bulkKindData (map chunk_record ps)))
    \<and> (\<exists>t. fr_body resp @ t = bulkFrame bulkKindData (map chunk_record ps))
    \<and> (fr_complete resp \<longrightarrow> fr_body resp = bulkFrame bulkKindData (map chunk_record ps)
         \<and> fetchBulkChunks (map chunk_desc ps) \<lparr>bs_rest = fr_body resp, bs_fails = False\<rparr> = (Inr (), ps))"
  using assms by (rule handleBulkFetch_spec)

theorem bulk_fetch_delivers_witness:
  "\<exists>req resp. encodeBulkDescriptors bulkKindFetch [chunk_desc [7]] = Some req
     \<and> handleBulkFetch stored_flate (\<lambda>_. False) (\<lambda>_. False) (\<lambda>_. False) \<lparr>bs_rest = req, bs_fails = False\<rparr> no_check (sy_cas copy_sys) = Inr resp
     \<and> fetchBulkChunks [chunk_desc [7]] \<lparr>bs_rest = fr_body resp, bs_fails = False\<rparr> = (Inr (), [[7]])"
proof -
  have k: "bulkKindFetch \<noteq> bulkKindData" "bl_maxRecords bulkBatchLimits \<le> maxBulkRecords" "\<not> bl_allowDup bulkBatchLimits"
    by (simp_all add: bulkKindFetch_def bulkKindData_def bulkBatchLimits_def)
  obtain req where e: "encodeBulkDescriptors bulkKindFetch (map chunk_desc [[7]]) = Some req"
    by (simp add: encodeBulkDescriptors_def normalizedSyncDigest_def maxSyncChunkBytes_def cdcMaxChunkSize_def)
  have "req = bulkFrame bulkKindFetch [desc_record [7]]" using encodeBulkDescriptors_chunks(1) [OF e k(1)] by simp
  then have r: "readBulkDescriptors \<lparr>bs_rest = req, bs_fails = False\<rparr> no_check bulkKindFetch bulkBatchLimits = Inr [desc_record [7]]"
    unfolding readBulkDescriptors_exact [OF k(1,2)] using one_record k(3) by (simp del: records_ok.simps)
  obtain resp where h: "handleBulkFetch stored_flate (\<lambda>_. False) (\<lambda>_. False) (\<lambda>_. False) \<lparr>bs_rest = req, bs_fails = False\<rparr> no_check
      (sy_cas copy_sys) = Inr resp" and c: "fr_complete resp"
    by (simp add: handleBulkFetch_def r copy_sys_stat copy_sys_read Let_def)
  have f: "faithful stored_flate (sy_cas copy_sys) [[7]]"
    by (auto simp: faithful_def served_def copy_sys_def empty_cas_def appendLocs_def)
  from bulk_fetch_delivers [OF e h f] e h c show ?thesis by auto
qed

text \<open>
  C38: A client trusts no server. Whatever bytes a server or the network answers to \<open>fetchBulkChunks\<close>, the chunks it
  emits are, in order, the first of those it asked for, each with the requested SHA-256 and length. It
  reports success only when it has emitted all of them and the response was exactly the one data frame of these
  chunks, with not a byte before, between or after them, and ended without an error.
\<close>

theorem bulk_fetch_trusts_nothing:
  assumes "fetchBulkChunks descs response = (out, got)"
  shows "length got \<le> length descs \<and> list_all2 answers (take (length got) descs) got
    \<and> (is_ok out \<longrightarrow> length got = length descs
         \<and> bs_rest response = bulkFrame bulkKindData (map chunk_record got) \<and> \<not> bs_fails response)"
  using fetchBulkChunks_sound [OF assms] fetchBulkChunks_whole assms by blast

theorem bulk_fetch_trusts_nothing_witness:
  "fetchBulkChunks [chunk_desc [7]] \<lparr>bs_rest = bulkFrame bulkKindData [chunk_record [7]], bs_fails = False\<rparr> = (Inr (), [[7]])
   \<and> answers (chunk_desc [7]) [7]"
proof -
  have f: "fetchBulkChunks [chunk_desc [7]] \<lparr>bs_rest = bulkFrame bulkKindData [chunk_record [7]], bs_fails = False\<rparr> = (Inr (), [[7]])"
    using fetchBulkChunks_complete [of "[[7]]"] one_record by (simp del: records_ok.simps)
  from bulk_fetch_trusts_nothing [OF f] f show ?thesis by simp
qed

text \<open>
  C39: A bulk upload is verified before it is acknowledged, and harmless when it fails. On every outcome
  and for every body the store stays in order and no stored chunk is lost. A success means that the body was one
  whole well-formed frame with the checksums of the request, that the counts of the answer are its own, and
  that every chunk of it is stored. A well-formed frame is accepted when no call of the file system fails.
\<close>

theorem bulk_upload_is_safe:
  assumes "handleBulkUpload ios iof cl r check s = (out, s')" and "store_ready Z s"
    and "\<And>k. order_ok (ios k)" and "order_ok iof"
  shows "store_ready Z s' \<and> (\<forall>dg. stored dg s \<longrightarrow> stored dg s')
    \<and> (\<forall>u. out = Inr u \<longrightarrow> (\<exists>rs. bs_rest r = bulkFrame bulkKindData rs \<and> \<not> bs_fails r \<and> verifyBytes check (bs_rest r) = Inr ()
         \<and> records_ok False True fmempty rs \<and> limits_ok bulkBatchLimits (length rs) (records_length rs)
         \<and> u = \<lparr>bu_Chunks = length rs, bu_Bytes = records_length rs\<rparr> \<and> (\<forall>x \<in> set rs. stored (rec_sum x) s')))
    \<and> (\<forall>rs. bs_rest r = bulkFrame bulkKindData rs \<longrightarrow> \<not> bs_fails r \<longrightarrow> verifyBytes check (bs_rest r) = Inr ()
         \<longrightarrow> records_ok False True fmempty rs \<longrightarrow> limits_ok bulkBatchLimits (length rs) (records_length rs)
         \<longrightarrow> cl \<le> int bulkMaxFrameBytes \<longrightarrow> (\<forall>k. quiet (ios k)) \<longrightarrow> quiet iof \<longrightarrow> is_ok out)"
proof -
  have "is_ok out" if "bs_rest r = bulkFrame bulkKindData rs" "\<not> bs_fails r" "verifyBytes check (bs_rest r) = Inr ()"
    "records_ok False True fmempty rs" "limits_ok bulkBatchLimits (length rs) (records_length rs)" "cl \<le> int bulkMaxFrameBytes"
    "\<forall>k. quiet (ios k)" "quiet iof" for rs
    using handleBulkUpload_live [OF that(1-6) assms(2), of ios iof] that(7,8) assms(1) by simp
  with handleBulkUpload_effect [OF assms] show ?thesis by blast
qed

lemma empty_ready: "store_ready Z empty_cas"
  by (auto simp: store_ready_def healthy_def dirs_ok_def staged_ok_def stored_def empty_cas_def ps_lookup_def ps_best_def)

theorem bulk_upload_is_safe_witness:
  "\<exists>s'. handleBulkUpload (\<lambda>_. no_failure) no_failure 57 \<lparr>bs_rest = bulkFrame bulkKindData [chunk_record [7]], bs_fails = False\<rparr> no_check empty_cas
     = (Inr \<lparr>bu_Chunks = 1, bu_Bytes = 1\<rparr>, s') \<and> store_ready stored_flate s'"
proof -
  let ?r = "\<lparr>bs_rest = bulkFrame bulkKindData [chunk_record [7]], bs_fails = False\<rparr>"
  obtain out s' where h: "handleBulkUpload (\<lambda>_. no_failure) no_failure 57 ?r no_check empty_cas = (out, s')" by fastforce
  have q: "quiet no_failure" by (simp add: quiet_def no_failure_def order_ok_def)
  have o: "order_ok no_failure" using q by (simp add: quiet_def)
  note S = bulk_upload_is_safe [OF h empty_ready [of stored_flate] o o]
  have "(57 :: int) \<le> int bulkMaxFrameBytes"
    by (simp add: bulkMaxFrameBytes_def bulkMaxControlBytes_def bulkHeaderLen_def bulkDescLen_def maxBulkRecords_def maxBulkBytes_def)
  then have "is_ok out" using S [THEN conjunct2, THEN conjunct2, THEN conjunct2, THEN spec, of "[chunk_record [7]]"] one_record q
    by (simp del: records_ok.simps)
  then obtain u where u: "out = Inr u" by blast
  from S [THEN conjunct2, THEN conjunct2, THEN conjunct1, THEN spec, THEN mp, OF u]
  obtain rs where rs: "bulkFrame bulkKindData [chunk_record [7]] = bulkFrame bulkKindData rs" "records_ok False True fmempty rs"
    "limits_ok bulkBatchLimits (length rs) (records_length rs)" "u = \<lparr>bu_Chunks = length rs, bu_Bytes = records_length rs\<rparr>" by auto
  have "readBulkFrame bulkKindData bulkBatchLimits ?r = Inr rs'" if "bulkFrame bulkKindData [chunk_record [7]] = bulkFrame bulkKindData rs'"
    "records_ok False True fmempty rs'" "limits_ok bulkBatchLimits (length rs') (records_length rs')" for rs'
    by (rule readBulkFrame_complete) (use that in \<open>simp_all add: bulkBatchLimits_def\<close>)
  note R = this
  have "readBulkFrame bulkKindData bulkBatchLimits ?r = Inr rs" by (rule R [OF rs(1-3)])
  moreover have "readBulkFrame bulkKindData bulkBatchLimits ?r = Inr [chunk_record [7]]"
    by (rule R [OF refl]) (use one_record in \<open>simp_all del: records_ok.simps\<close>)
  ultimately have one: "rs = [chunk_record [7]]" by (metis sum.inject(2))
  have "u = \<lparr>bu_Chunks = 1, bu_Bytes = 1\<rparr>" unfolding rs(4) one by simp
  with h u S show ?thesis by blast
qed

text \<open>
  A client plans only batches that a server accepts. Under the policy a client derives from any
  advertised limits, the planned batches are the chunks in their order, none is empty, and the record
  count and the total of each are within the limits that the server's reader enforces.
\<close>

theorem planned_batches_fit:
  assumes "\<forall>c \<in> set caps. \<exists>d. bulkCapsOf d = Some c" and "target \<le> int maxBulkBytes" and "\<forall>d \<in> set descs. desc_ok d"
  shows "concat (planBulkBatches descs (bulkPolicyFor target caps)) = descs
    \<and> (\<forall>b \<in> set (planBulkBatches descs (bulkPolicyFor target caps)). b \<noteq> []
         \<and> limits_ok bulkBatchLimits (length b) (nat (bulkDescriptorBytes b)))"
proof -
  note p = bulkPolicyFor_ok [OF assms(1,2)]
  have "concat (planBulkBatches descs (bulkPolicyFor target caps)) = descs
    \<and> (\<forall>b \<in> set (planBulkBatches descs (bulkPolicyFor target caps)). batch_fits (bulkPolicyFor target caps) b)"
    using planLoopBulk_ok [of "bulkPolicyFor target caps" "[]" 0 "[]" descs] p
    by (simp add: planBulkBatches_def bulkDescriptorBytes_def)
  moreover from this have "desc_ok d" if "b \<in> set (planBulkBatches descs (bulkPolicyFor target caps))" "d \<in> set b" for b d
    using that assms(3) by (metis UN_I set_concat)
  moreover have "limits_ok bulkBatchLimits (length b) (nat (bulkDescriptorBytes b)) \<and> b \<noteq> []"
    if "batch_fits (bulkPolicyFor target caps) b" "\<forall>d \<in> set b. desc_ok d" for b
    using batch_fits_limits [OF that(1) _ _ that(2)] p that(1) by (simp add: batch_fits_def)
  ultimately show ?thesis by blast
qed

definition v2_discovery :: syncDiscoveryResponse where
  "v2_discovery = v1_discovery\<lparr>di_BulkProtocol := 2, di_MaxBulkChunks := 1, di_MaxBulkBytes := 262144\<rparr>"

theorem planned_batches_fit_witness:
  "concat (planBulkBatches [chunk_desc [7], chunk_desc [8]] (bulkPolicyFor 262144 [\<lparr>bc_maxRecords = 1, bc_maxBytes = 262144\<rparr>]))
     = [chunk_desc [7], chunk_desc [8]]"
proof -
  have c: "bulkCapsOf v2_discovery = Some \<lparr>bc_maxRecords = 1, bc_maxBytes = 262144\<rparr>"
    by (simp add: bulkCapsOf_def v2_discovery_def v1_discovery_def zeros3BulkProtocolVersion_def maxSyncChunkBytes_def cdcMaxChunkSize_def
        maxBulkRecords_def maxBulkBytes_def)
  have d: "\<forall>d \<in> set [chunk_desc [7], chunk_desc [8]]. desc_ok d"
    by (simp add: desc_ok_def normalizedSyncDigest_def maxSyncChunkBytes_def cdcMaxChunkSize_def)
  from planned_batches_fit [of "[\<lparr>bc_maxRecords = 1, bc_maxBytes = 262144\<rparr>]" 262144, OF _ _ d] c show ?thesis
    by (auto simp: maxBulkBytes_def)
qed

end
