(* ===== verification/SyncFile.thy ===== *)
theory SyncFile
  imports Bulk
begin

text \<open>
  The whole sync of a file (\<^verbatim>\<open>zeros3.go\<close>, sections 15b and 15b-ter): the client sides of negotiation and upload over the bulk
  transport, the choice between the two transports, the discovery with its fallback to a plain PUT, and \<^verbatim>\<open>syncFile\<close>. Other clients of the server may act between
  any two phases, and every request, response and body can be lost or cut short. The locale \<open>transport\<close> is what a
  sync needs of a transport; both versions and the choice between them are interpretations of it. Shown
  here: a sync that reports success has made the destination exactly the local file, by a commit that only happens if the ETag of the
  destination is still the one observed, or by an unconditional PUT if the endpoint did not answer the discovery; and what
  a sync transferred is enough for the commit.
\<close>

section \<open>Negotiation in frames\<close>

text \<open>A signed request names the SHA-256 of its body, which the server checks. A body that is cut short ends in an error.\<close>

definition bulkCheck :: "bytes \<Rightarrow> payloadCheck" where
  "bulkCheck body = \<lparr>ck_sha256 = hex_encode (digest_bytes (sha256 body)), ck_crc32 = 0, ck_hasCRC32 = False, ck_md5 = None\<rparr>"

definition streamed :: "nat option \<Rightarrow> bytes \<Rightarrow> bodyStream" where
  "streamed trunc body =
     (case trunc of None \<Rightarrow> \<lparr>bs_rest = body, bs_fails = False\<rparr> | Some n \<Rightarrow> \<lparr>bs_rest = take n body, bs_fails = True\<rparr>)"

definition wantLengths :: "syncChunkDescriptor list \<Rightarrow> (string, int) fmap" where
  "wantLengths batch = foldl (\<lambda>m d. fmupd (map ascii_lower (cd_SHA256 d)) (cd_Length d) m) fmempty batch"

function missingLoop :: "(string, int) fmap \<Rightarrow> bulkReader \<Rightarrow> string list \<Rightarrow> sync_failure + string list \<times> bulkReader" where
  "missingLoop wanted br missing =
     (case bulk_next br of
        Inl _ \<Rightarrow> Inl SyncResponse
      | Inr None \<Rightarrow> Inr (missing, br)
      | Inr (Some (rec, br')) \<Rightarrow>
          let sha = hex_encode (digest_bytes (rec_sum rec)) in
          if fmlookup wanted sha \<noteq> Some (int (rec_length rec)) then Inl SyncResponse
          else missingLoop wanted br' (missing @ [sha]))"
  by pat_completeness auto
termination by (relation "measure (\<lambda>(_, br, _). br_left br)") (auto dest: bulk_next_left)

declare missingLoop.simps [simp del]

definition negotiateBulkBatch ::
  "net \<Rightarrow> nat option \<Rightarrow> (digest \<Rightarrow> bool) \<Rightarrow> casState \<Rightarrow> syncChunkDescriptor list \<Rightarrow> sync_failure + string list" where
  "negotiateBulkBatch n trunc fails s batch =
     (case encodeBulkDescriptors bulkKindNegotiate batch of
        None \<Rightarrow> Inl SyncMarshal
      | Some req \<Rightarrow>
          (case fst (exchange n (\<lambda>s. (handleBulkNegotiate fails \<lparr>bs_rest = req, bs_fails = False\<rparr> (bulkCheck req) s, s)) s) of
             None \<Rightarrow> Inl SyncTransport
           | Some (Inl e) \<Rightarrow> Inl (SyncStatus e)
           | Some (Inr body) \<Rightarrow>
               (case newBulkReader (limitReader (nat (bulkFrameSize bulkKindMissing batch) + 1) (streamed trunc body)) bulkKindMissing
                       \<lparr>bl_maxRecords = length batch, bl_maxBytes = 0, bl_allowEmpty = True, bl_allowDup = False\<rparr> of
                  Inl _ \<Rightarrow> Inl SyncResponse
                | Inr br \<Rightarrow>
                    (case missingLoop (wantLengths batch) br [] of
                       Inl e \<Rightarrow> Inl e
                     | Inr (missing, br') \<Rightarrow> (case bulk_finish br' of Inl _ \<Rightarrow> Inl SyncResponse | Inr _ \<Rightarrow> Inr missing)))))"

definition negotiateBulkMissing ::
  "(nat \<Rightarrow> net) \<Rightarrow> (nat \<Rightarrow> nat option) \<Rightarrow> (digest \<Rightarrow> bool) \<Rightarrow> bulkCaps \<Rightarrow> syncChunkDescriptor list \<Rightarrow> casState
    \<Rightarrow> sync_failure + string set" where
  "negotiateBulkMissing nets cuts fails caps unique s =
     negotiateBatches (\<lambda>n. negotiateBulkBatch (nets n) (cuts n) fails s) (bc_maxRecords caps) 0 unique {}"

definition negotiateSyncMissing ::
  "sync_codec \<Rightarrow> (nat \<Rightarrow> net) \<Rightarrow> (nat \<Rightarrow> nat option) \<Rightarrow> (digest \<Rightarrow> bool) \<Rightarrow> syncDiscoveryResponse \<Rightarrow> syncChunkDescriptor list
    \<Rightarrow> casState \<Rightarrow> sync_failure + string set" where
  "negotiateSyncMissing C nets cuts fails discovery unique s =
     (case bulkCapsOf discovery of
        Some caps \<Rightarrow> negotiateBulkMissing nets cuts fails caps unique s
      | None \<Rightarrow> negotiateV1 C nets fails discovery unique s)"

section \<open>Uploads in frames\<close>

definition uploadBulkFrame ::
  "net \<Rightarrow> nat option \<Rightarrow> (nat \<Rightarrow> cas_io) \<Rightarrow> cas_io \<Rightarrow> bytes \<Rightarrow> casState \<Rightarrow> (sync_failure + unit) \<times> casState" where
  "uploadBulkFrame n trunc ios iof frame s =
     (case exchange n (handleBulkUpload ios iof (int (length frame)) (streamed trunc frame) (bulkCheck frame)) s of
        (None, s') \<Rightarrow> (Inl SyncTransport, s')
      | (Some (Inl e), s') \<Rightarrow> (Inl (SyncStatus e), s')
      | (Some (Inr _), s') \<Rightarrow> (Inr (), s'))"

text \<open>
  One batch of an upload. Waiting for the byte budget ends in a cancellation or has no effect; the first is an item
  that did not run.
\<close>

definition uploadBatch ::
  "net \<Rightarrow> nat option \<Rightarrow> (nat \<Rightarrow> cas_io) \<Rightarrow> cas_io \<Rightarrow> bytes option \<Rightarrow> syncPlan \<Rightarrow> syncChunkDescriptor list \<Rightarrow> casState
    \<Rightarrow> (sync_failure + unit) \<times> casState" where
  "uploadBatch n trunc ios iof file plan batch s =
     (if file = None then (Inl SyncLocalMutation, s)
      else case bulkUploadFrame file plan batch of
        Inl e \<Rightarrow> (Inl e, s)
      | Inr frame \<Rightarrow> uploadBulkFrame n trunc ios iof frame s)"

definition uploadMissingSyncChunksBulk ::
  "(nat \<Rightarrow> net) \<Rightarrow> (nat \<Rightarrow> nat option) \<Rightarrow> (nat \<Rightarrow> nat \<Rightarrow> cas_io) \<Rightarrow> (nat \<Rightarrow> cas_io) \<Rightarrow> (nat \<Rightarrow> bytes option) \<Rightarrow> nat list \<Rightarrow> bulkPolicy
    \<Rightarrow> syncPlan \<Rightarrow> string set \<Rightarrow> casState \<Rightarrow> (sync_failure + int) \<times> casState" where
  "uploadMissingSyncChunksBulk nets cuts ios iofs files sched pol plan missing s =
     (let wanted = filter (\<lambda>d. cd_SHA256 d \<in> missing) (yp_unique plan); batches = planBulkBatches wanted pol in
      case runTransferWorkers (\<lambda>i. uploadBatch (nets i) (cuts i) (ios i) (iofs i) (files i) plan (batches ! i)) (length batches) sched s of
        (results, s') \<Rightarrow>
          (case firstTransferError results of
             Some e \<Rightarrow> (Inl e, s')
           | None \<Rightarrow> (Inr (\<Sum>d \<leftarrow> wanted. cd_Length d), s')))"

section \<open>The whole sync\<close>

record syncStats =
  ys_LogicalBytes :: int
  ys_TotalChunks :: nat
  ys_ChunksReused :: int
  ys_MissingChunkOccur :: nat
  ys_UniqueChunksUploaded :: nat
  ys_UploadedBytes :: int
  ys_BytesAvoided :: int
  ys_FellBackToPlainPut :: bool

text \<open>
  What the world decides during a sync: the fate of each request and response, where bodies are cut short, the
  failures of the two file systems, the contents of the local file at each re-read, the schedule of the
  workers, the configured size of a batch, whether size and modification time of the file are still the same
  before the commit, and what other clients do between the phases.
\<close>

record sync_world =
  w_headNet :: net
  w_negotiateNets :: "nat \<Rightarrow> net"
  w_negotiateCuts :: "nat \<Rightarrow> nat option"
  w_putNets :: "nat \<Rightarrow> net"
  w_putCuts :: "nat \<Rightarrow> nat option"
  w_commitNet :: net
  w_manFails :: "string \<Rightarrow> bool"
  w_statFails :: "digest \<Rightarrow> bool"
  w_readFails :: "digest \<Rightarrow> bool"
  w_ios :: "nat \<Rightarrow> nat \<Rightarrow> cas_io"
  w_iosFlush :: "nat \<Rightarrow> cas_io"
  w_files :: "nat \<Rightarrow> bytes option"
  w_sched :: "nat list"
  w_bulkTargetBytes :: int
  w_unchanged :: bool
  w_other :: "nat \<Rightarrow> system \<Rightarrow> system"

definition transferMissingSyncChunks ::
  "sync_world \<Rightarrow> syncDiscoveryResponse \<Rightarrow> syncPlan \<Rightarrow> string set \<Rightarrow> casState \<Rightarrow> (sync_failure + int) \<times> casState" where
  "transferMissingSyncChunks W discovery plan missing s =
     (case bulkCapsOf discovery of
        Some caps \<Rightarrow>
          uploadMissingSyncChunksBulk (w_putNets W) (w_putCuts W) (w_ios W) (w_iosFlush W) (w_files W) (w_sched W)
            (bulkPolicyFor (w_bulkTargetBytes W) [caps]) plan missing s
      | None \<Rightarrow>
          uploadMissingSyncChunks (w_putNets W) (\<lambda>i. w_ios W i 0) (w_iosFlush W) (w_files W) (w_sched W) plan missing s)"

text \<open>
  \<^verbatim>\<open>syncFile\<close> once the endpoint has answered the discovery, up to the check that the local file has not changed; the
  system in the result is the one that the commit will meet.
\<close>

definition syncPrepare ::
  "sync_codec \<Rightarrow> man_codec \<Rightarrow> sync_world \<Rightarrow> syncDiscoveryResponse \<Rightarrow> 'r reader \<Rightarrow> 'r \<Rightarrow> string \<Rightarrow> string \<Rightarrow> system
    \<Rightarrow> ((sync_failure + syncPlan \<times> syncPrecondition \<times> string set \<times> int) \<times> system) option" where
  "syncPrepare C M W discovery rd r bucket key sy =
     (case headSyncDestination (w_headNet W) M (w_manFails W) bucket key sy of
        Inl e \<Rightarrow> Some (Inl e, sy)
      | Inr (present, etag) \<Rightarrow>
          (case scanLocalFileForSync rd r of
             None \<Rightarrow> None
           | Some (Inl _) \<Rightarrow> Some (Inl SyncScan, sy)
           | Some (Inr (chunks, logical)) \<Rightarrow>
               let plan = buildSyncPlan chunks logical; sy1 = w_other W 0 sy in
               (case negotiateSyncMissing C (w_negotiateNets W) (w_negotiateCuts W) (w_statFails W) discovery (yp_unique plan) (sy_cas sy1) of
                  Inl e \<Rightarrow> Some (Inl e, sy1)
                | Inr missing \<Rightarrow>
                    let sy2 = w_other W 1 sy1 in
                    (case transferMissingSyncChunks W discovery plan missing (sy_cas sy2) of
                       (Inl e, s3) \<Rightarrow> Some (Inl e, sy2\<lparr>sy_cas := s3\<rparr>)
                     | (Inr uploaded, s3) \<Rightarrow>
                         let sy3 = w_other W 2 (sy2\<lparr>sy_cas := s3\<rparr>) in
                         if \<not> w_unchanged W then Some (Inl SyncLocalMutation, sy3)
                         else Some (Inr (plan, \<lparr>yq_expectAbsent = \<not> present, yq_expectedETag = etag\<rparr>, missing, uploaded), sy3)))))"

definition syncDelta ::
  "sync_codec \<Rightarrow> json_codec \<Rightarrow> man_codec \<Rightarrow> flate_codec \<Rightarrow> put_env \<Rightarrow> sync_world \<Rightarrow> syncDiscoveryResponse \<Rightarrow> 'r reader \<Rightarrow> 'r
    \<Rightarrow> string \<Rightarrow> string \<Rightarrow> string \<Rightarrow> (string, string) fmap \<Rightarrow> system \<Rightarrow> ((sync_failure + syncStats) \<times> system) option" where
  "syncDelta C J M Z pe W discovery rd r bucket key ct md sy =
     (case syncPrepare C M W discovery rd r bucket key sy of
        None \<Rightarrow> None
      | Some (Inl e, sy3) \<Rightarrow> Some (Inl e, sy3)
      | Some (Inr (plan, pre, missing, uploaded), sy3) \<Rightarrow>
          (case commitSyncObject C J M Z (w_readFails W) pe (w_commitNet W) bucket key ct md plan pre sy3 of
             (Inl e, sy4) \<Rightarrow> Some (Inl e, sy4)
           | (Inr _, sy4) \<Rightarrow>
               let missingOccur = length (filter (\<lambda>c. lc_SHA256 c \<in> missing) (yp_ordered plan)) in
               Some (Inr \<lparr>ys_LogicalBytes = yp_logicalBytes plan, ys_TotalChunks = length (yp_ordered plan),
                          ys_ChunksReused = int (length (yp_ordered plan)) - int missingOccur,
                          ys_MissingChunkOccur = missingOccur, ys_UniqueChunksUploaded = card missing,
                          ys_UploadedBytes = uploaded, ys_BytesAvoided = yp_logicalBytes plan - uploaded,
                          ys_FellBackToPlainPut = False\<rparr>, sy4)))"

section \<open>Discovery and the fallback\<close>

text \<open>What the discovery request brings back: nothing, another status than 200, a body that is not understood, or an answer.\<close>

datatype discovery_reply = DiscoveryLost | DiscoveryStatus | DiscoveryUnparsed | DiscoveryAnswer syncDiscoveryResponse

definition discoverZeroS3Sync :: "discovery_reply \<Rightarrow> sync_failure + syncDiscoveryResponse" where
  "discoverZeroS3Sync reply =
     (case reply of
        DiscoveryLost \<Rightarrow> Inl SyncTransport
      | DiscoveryStatus \<Rightarrow> Inl SyncDiscoveryStatus
      | DiscoveryUnparsed \<Rightarrow> Inl SyncResponse
      | DiscoveryAnswer d \<Rightarrow>
          if \<not> di_DeltaSync d then Inl SyncNoDelta
          else if \<not> validateSyncProtocolFields (di_Protocol d) (di_CDC d) (di_Hash d) then Inl SyncIncompatible
          else Inr d)"

text \<open>
  What else the world decides at the start of a sync, and for the plain PUT that replaces it when the discovery
  fails: whether the local file can be looked up, its contents when it is read whole, the fate of the PUT, and the metadata
  that the server finds in the \<^verbatim>\<open>x-amz-meta-\<close> headers, whose names HTTP does not keep apart by case.
\<close>

record sync_start =
  st_statFails :: bool
  st_discovery :: discovery_reply
  st_file :: "bytes option"
  st_putNet :: net
  st_headers :: "(string, string) fmap"

text \<open>
  \<^verbatim>\<open>doPlainPutFallback\<close> against a server of this program: a PUT without a precondition. The reader is the body as it arrives
  there, which may break off.
\<close>

definition doPlainPutFallback ::
  "json_codec \<Rightarrow> man_codec \<Rightarrow> flate_codec \<Rightarrow> flate_codec option \<Rightarrow> put_env \<Rightarrow> sync_start \<Rightarrow> 'q reader \<Rightarrow> 'q
    \<Rightarrow> string \<Rightarrow> string \<Rightarrow> string \<Rightarrow> system \<Rightarrow> ((sync_failure + syncStats) \<times> system) option" where
  "doPlainPutFallback J M Z cmp pe S rd r bucket key ct sy =
     (case st_file S of
        None \<Rightarrow> Some (Inl SyncReadFile, sy)
      | Some data \<Rightarrow>
          if st_putNet S = NetRequestLost then Some (Inl SyncTransport, sy)
          else
            let contentType = (if ct = [] then ''application/octet-stream'' else ct) in
            (case putObject J M Z cmp pe rd r data (int (length data)) (bulkCheck data)
                    \<lparr>pc_ifNoneMatchStar = False, pc_ifMatchETag = []\<rparr> bucket key contentType (st_headers S) sy of
               None \<Rightarrow> None
             | Some answer \<Rightarrow>
                 (case exchange (st_putNet S) (\<lambda>_. answer) sy of
                    (None, sy') \<Rightarrow> Some (Inl SyncTransport, sy')
                  | (Some (Inl e), sy') \<Rightarrow> Some (Inl (SyncPut e), sy')
                  | (Some (Inr _), sy') \<Rightarrow>
                      Some (Inr \<lparr>ys_LogicalBytes = int (length data), ys_TotalChunks = 0, ys_ChunksReused = 0,
                                 ys_MissingChunkOccur = 0, ys_UniqueChunksUploaded = 0, ys_UploadedBytes = int (length data),
                                 ys_BytesAvoided = 0, ys_FellBackToPlainPut = True\<rparr>, sy'))))"

definition syncFile ::
  "sync_codec \<Rightarrow> json_codec \<Rightarrow> man_codec \<Rightarrow> flate_codec \<Rightarrow> flate_codec option \<Rightarrow> put_env \<Rightarrow> sync_start \<Rightarrow> sync_world \<Rightarrow> 'r reader \<Rightarrow> 'r
    \<Rightarrow> 'q reader \<Rightarrow> 'q \<Rightarrow> string \<Rightarrow> string \<Rightarrow> string \<Rightarrow> (string, string) fmap \<Rightarrow> system
    \<Rightarrow> ((sync_failure + syncStats) \<times> system) option" where
  "syncFile C J M Z cmp pe S W rd r body q bucket key ct md sy =
     (if st_statFails S then Some (Inl SyncStat, sy)
      else case discoverZeroS3Sync (st_discovery S) of
        Inl _ \<Rightarrow> doPlainPutFallback J M Z cmp pe S body q bucket key ct (w_other W 0 sy)
      | Inr discovery \<Rightarrow> syncDelta C J M Z pe W discovery rd r bucket key ct md sy)"

section \<open>Frames determine their records\<close>

lemma enc_records_inj:
  "\<forall>r \<in> set rs. record_ok dat r \<Longrightarrow> \<forall>q \<in> set qs. record_ok dat q
     \<Longrightarrow> concat (map (enc_record dat) rs) = concat (map (enc_record dat) qs) \<Longrightarrow> map rec_sum rs = map rec_sum qs"
proof (induction rs arbitrary: qs)
  case Nil
  show ?case
  proof (cases qs)
    case (Cons q qs')
    with Nil.prems(3) have "length (enc_record dat q) = 0" by simp
    then show ?thesis using length_enc_record [of dat q] Nil.prems(2) Cons by simp
  qed simp
next
  case (Cons r rs)
  have "length (enc_record dat r) \<noteq> 0" using length_enc_record [of dat r] Cons.prems(1) by simp
  then obtain q qs' where qs: "qs = q # qs'" using Cons.prems(3) by (cases qs) auto
  have ok: "record_ok dat r" "record_ok dat q" using Cons.prems(1,2) by (simp_all add: qs)
  let ?d = "\<lambda>r. appendBulkDesc [] (rec_sum r) (rec_length r)" and ?p = "\<lambda>r. if dat then rec_payload r else []"
  have e: "?d r @ ?p r @ concat (map (enc_record dat) rs) = ?d q @ ?p q @ concat (map (enc_record dat) qs')"
    using Cons.prems(3) enc_record_def [of dat r] enc_record_def [of dat q] by (simp add: qs)
  then have d: "?d r = ?d q" and rest: "?p r @ concat (map (enc_record dat) rs) = ?p q @ concat (map (enc_record dat) qs')"
    using append_eq_append_conv [of "?d r" "?d q"] by simp_all
  have same: "rec_sum r = rec_sum q \<and> rec_length r = rec_length q"
    by (rule appendBulkDesc_inj [OF d]) (use ok in \<open>simp_all add: record_ok_def\<close>)
  have "length (?p r) = length (?p q)" using ok same by (simp add: record_ok_def split: if_splits)
  then have "concat (map (enc_record dat) rs) = concat (map (enc_record dat) qs')"
    using rest append_eq_append_conv by blast
  with Cons.IH [of qs'] Cons.prems(1,2) same show ?case by (simp add: qs)
qed

lemma first_occurrence:
  "records_ok dups dat seen rs \<Longrightarrow> x \<in> set rs \<Longrightarrow> fmlookup seen (rec_sum x) = None
     \<Longrightarrow> \<exists>y \<in> set rs. rec_sum y = rec_sum x \<and> \<not> rec_dup y"
proof (induction rs arbitrary: seen)
  case (Cons r rs)
  show ?case
  proof (cases "rec_sum r = rec_sum x")
    case True
    then show ?thesis using Cons.prems by (auto simp: seen_ok_def)
  next
    case False
    then have "fmlookup (see r seen) (rec_sum x) = None" using Cons.prems(3) by (simp add: see_def)
    with Cons False show ?thesis by auto
  qed
qed simp

lemma bulkMissing_rec: "y \<in> set rs \<Longrightarrow> \<not> rec_dup y \<Longrightarrow> stored (rec_sum y) s \<or> y \<in> set (bulkMissing fails s rs)"
proof (induction fails s rs rule: bulkMissing.induct)
  case (2 fails s r rs)
  have "stored (rec_sum r) s" if "casStat (fails (rec_sum r)) (rec_sum r) s = Inr n" for n
    using that casStatLocked_ok [of "fails (rec_sum r)" "rec_sum r" s] by (auto simp: casStat_def split: if_splits)
  with 2 show ?case by (auto split: sum.splits)
qed simp

lemma bulkMissing_subset: "set (bulkMissing fails s rs) \<subseteq> set rs"
  by (induction fails s rs rule: bulkMissing.induct) (auto split: sum.splits)

lemma streamed_fields [simp]:
  "bs_fails (streamed trunc b) \<longleftrightarrow> trunc \<noteq> None" "bs_rest (streamed None b) = b"
  by (auto simp: streamed_def split: option.splits)

text \<open>What a limited reader accepts as a frame that fits under the limit was sent whole.\<close>

lemma limited_frame:
  assumes "readBulkFrame kind lim (limitReader (Suc n) (streamed trunc body)) = Inr rs" "length (bulkFrame kind rs) \<le> n"
  shows "trunc = None \<and> body = bulkFrame kind rs"
proof -
  note S = readBulkFrame_sound [OF assms(1)]
  have b: "take (Suc n) (bs_rest (streamed trunc body)) = bulkFrame kind rs" using S by (simp add: limitReader_def)
  then have "length (take (Suc n) (bs_rest (streamed trunc body))) \<le> n" using assms(2) by simp
  then have l: "length (bs_rest (streamed trunc body)) \<le> n" by (simp add: min_def split: if_splits)
  then have "trunc = None" using S by (simp add: limitReader_def)
  with b l show ?thesis by simp
qed

section \<open>What a negotiation reports\<close>

lemma missingLoop_records:
  "missingLoop wanted br acc = Inr (missing, br') \<Longrightarrow>
     \<exists>rs. bulkRecords br got = Inr (got @ rs, br') \<and> missing = acc @ map (\<lambda>r. hex_encode (digest_bytes (rec_sum r))) rs"
proof (induction wanted br acc arbitrary: got rule: missingLoop.induct)
  case (1 wanted br acc)
  show ?case
  proof (cases "bulk_next br")
    case (Inl e)
    then show ?thesis using "1.prems" by (subst (asm) missingLoop.simps) simp
  next
    case (Inr o')
    show ?thesis
    proof (cases o')
      case None
      then have "missing = acc" "br' = br" using "1.prems" Inr by (subst (asm) missingLoop.simps; simp)+
      then show ?thesis using None Inr by (subst bulkRecords.simps) simp
    next
      case (Some p)
      obtain r br1 where p: "p = (r, br1)" by fastforce
      let ?h = "hex_encode (digest_bytes (rec_sum r))"
      have "missingLoop wanted br acc = (if fmlookup wanted ?h \<noteq> Some (int (rec_length r)) then Inl SyncResponse
          else missingLoop wanted br1 (acc @ [?h]))"
        using Inr Some p by (subst missingLoop.simps) (simp add: Let_def)
      then have w: "\<not> fmlookup wanted ?h \<noteq> Some (int (rec_length r))" and k: "missingLoop wanted br1 (acc @ [?h]) = Inr (missing, br')"
        using "1.prems" by (simp_all split: if_splits)
      from "1.IH" [OF Inr Some p [symmetric] refl w k, of "got @ [r]"] obtain rs where
        "bulkRecords br1 (got @ [r]) = Inr ((got @ [r]) @ rs, br')" "missing = (acc @ [?h]) @ map (\<lambda>r. hex_encode (digest_bytes (rec_sum r))) rs"
        by blast
      then show ?thesis using Inr Some p by (intro exI [of _ "r # rs"]) (subst bulkRecords.simps, simp)
    qed
  qed
qed

lemma missing_frame:
  "foldl (\<lambda>out r. appendBulkDesc out (rec_sum r) (rec_length r)) b rs = b @ concat (map (enc_record False) rs)"
proof (induction rs arbitrary: b)
  case (Cons r rs)
  have "appendBulkDesc b (rec_sum r) (rec_length r) = b @ enc_record False r"
    unfolding enc_record_def by (subst appendBulkDesc_prefix) simp
  with Cons show ?case by simp
qed simp

lemma handleBulkNegotiate_frame:
  assumes "handleBulkNegotiate fails r check s = Inr body"
  obtains recs where "readBulkDescriptors r check bulkKindNegotiate bulkNegotiateLimits = Inr recs"
    "body = bulkFrame bulkKindMissing (bulkMissing fails s recs)"
  using assms
  by (auto simp: handleBulkNegotiate_def Let_def missing_frame bulkFrame_def records_length_def bulkKindMissing_def bulkKindData_def
      split: sum.splits)

lemma negotiateBulkBatch_sound:
  assumes h: "negotiateBulkBatch n trunc fails s (map chunk_desc ps) = Inr m" and p: "p \<in> set ps"
  shows "stored (sha256 p) s \<or> cd_SHA256 (chunk_desc p) \<in> set m"
proof -
  let ?lim = "\<lparr>bl_maxRecords = length ps, bl_maxBytes = 0, bl_allowEmpty = True, bl_allowDup = False\<rparr>"
  let ?L = "nat (bulkFrameSize bulkKindMissing (map chunk_desc ps))"
  have kd: "bulkKindNegotiate \<noteq> bulkKindData" "bulkKindMissing \<noteq> bulkKindData"
    by (simp_all add: bulkKindNegotiate_def bulkKindMissing_def bulkKindData_def)
  obtain req where req: "encodeBulkDescriptors bulkKindNegotiate (map chunk_desc ps) = Some req"
    using h by (auto simp: negotiateBulkBatch_def split: option.splits)
  obtain body where hb: "handleBulkNegotiate fails \<lparr>bs_rest = req, bs_fails = False\<rparr> (bulkCheck req) s = Inr body"
    using h req by (auto simp: negotiateBulkBatch_def exchange_def split: net.splits sum.splits)
  obtain br br' where nr: "newBulkReader (limitReader (Suc ?L) (streamed trunc body)) bulkKindMissing ?lim = Inr br"
    and ml: "missingLoop (wantLengths (map chunk_desc ps)) br [] = Inr (m, br')" and fin: "bulk_finish br' = Inr ()"
    using h req hb by (auto simp: negotiateBulkBatch_def exchange_def split: net.splits sum.splits)
  from missingLoop_records [OF ml, of "[]"] obtain rs where rs: "bulkRecords br [] = Inr (rs, br')"
    "m = map (\<lambda>r. hex_encode (digest_bytes (rec_sum r))) rs" by auto
  have rf: "readBulkFrame bulkKindMissing ?lim (limitReader (Suc ?L) (streamed trunc body)) = Inr rs"
    using nr rs(1) fin by (simp add: readBulkFrame_def)
  note S = readBulkFrame_sound [OF rf]
  have "length (bulkFrame bulkKindMissing rs) \<le> ?L"
    using S length_bulkFrame [of False bulkKindMissing fmempty rs] kd(2)
    by (simp add: limits_ok_def bulkFrameSize_def bulkHeaderLen_def bulkDescLen_def nat_add_distrib nat_mult_distrib)
  then have body: "body = bulkFrame bulkKindMissing rs" using limited_frame [OF rf] by blast
  obtain recs where recs: "readBulkDescriptors \<lparr>bs_rest = req, bs_fails = False\<rparr> (bulkCheck req) bulkKindNegotiate bulkNegotiateLimits = Inr recs"
    and bm: "body = bulkFrame bulkKindMissing (bulkMissing fails s recs)" by (rule handleBulkNegotiate_frame [OF hb])
  have "readBulkFrame bulkKindNegotiate bulkNegotiateLimits \<lparr>bs_rest = req, bs_fails = False\<rparr> = Inr recs"
    using readBulkDescriptors_frame [OF recs] by simp
  from readBulkFrame_sound [OF this] kd(1) have R: "req = bulkFrame bulkKindNegotiate recs"
    "records_ok (bl_allowDup bulkNegotiateLimits) False fmempty recs" by simp_all
  note E = encodeBulkDescriptors_chunks [OF req kd(1)]
  note each = records_ok_each [OF R(2)]
  have "map rec_sum recs = map rec_sum (map desc_record ps)"
  proof (rule enc_records_inj [OF each])
    show "\<forall>q \<in> set (map desc_record ps). record_ok False q" using E(2) by (auto simp: record_ok_def)
    show "concat (map (enc_record False) recs) = concat (map (enc_record False) (map desc_record ps))"
      using R(1) E(1) kd(1) bulkFrame_rest [of bulkKindNegotiate] by metis
  qed
  then have "sha256 p \<in> set (map rec_sum recs)" using p by auto
  then obtain x where "x \<in> set recs" "rec_sum x = sha256 p" by auto
  with first_occurrence [OF R(2)] obtain y where y: "y \<in> set recs" "rec_sum y = sha256 p" "\<not> rec_dup y" by fastforce
  have "map rec_sum rs = map rec_sum (bulkMissing fails s recs)"
  proof (rule enc_records_inj [where dat = False])
    show "\<forall>r \<in> set rs. record_ok False r" using S kd(2) records_ok_each by fastforce
    show "\<forall>r \<in> set (bulkMissing fails s recs). record_ok False r" using each bulkMissing_subset by blast
    show "concat (map (enc_record False) rs) = concat (map (enc_record False) (bulkMissing fails s recs))"
      using body bm kd(2) bulkFrame_rest [of bulkKindMissing] by metis
  qed
  then have "y \<in> set (bulkMissing fails s recs) \<Longrightarrow> sha256 p \<in> rec_sum ` set rs"
    using y(2) by (metis image_eqI list.set_map)
  moreover have "set m = (\<lambda>dg. hex_encode (digest_bytes dg)) ` rec_sum ` set rs" by (simp add: rs(2) image_image)
  ultimately show ?thesis using bulkMissing_rec [OF y(1,3), of s fails] y(2) by auto
qed


section \<open>What an upload stores\<close>

lemma planLoopBulk_concat: "concat (planLoopBulk p ds cur n out) = concat out @ cur @ ds"
  by (induction p ds cur n out rule: planLoopBulk.induct) auto

lemma planBulkBatches_concat [simp]: "concat (planBulkBatches ds p) = ds"
  by (simp add: planBulkBatches_def planLoopBulk_concat)

lemma frameLoop_records:
  "frameLoop file plan (map chunk_desc qs) frame = Inr f \<Longrightarrow>
     \<exists>ps. f = frame @ concat (map (enc_record True) (map chunk_record ps)) \<and> map sha256 ps = map sha256 qs
       \<and> (\<forall>p \<in> set ps. record_ok True (chunk_record p))"
proof (induction qs arbitrary: frame)
  case Nil
  then show ?case by (intro exI [of _ "[]"]) simp
next
  case (Cons q qs)
  let ?f1 = "\<lambda>p. appendBulkDesc frame (sha256 q) (length q) @ p"
  obtain p where ok: "0 < length q \<and> length q \<le> cdcMaxChunkSize" and sh: "sha256 p = sha256 q"
    and rd: "\<exists>off. readSyncFileRange file off (int (length q)) = Some p"
    and k: "frameLoop file plan (map chunk_desc qs) (?f1 p) = Inr f"
    using Cons.prems by (auto simp: normalizedSyncDigest_def maxSyncChunkBytes_def split: if_splits option.splits)
  then have len: "length p = length q" by (auto simp: readSyncFileRange_def split: option.splits if_splits)
  from Cons.IH [OF k] obtain ps where ps: "f = ?f1 p @ concat (map (enc_record True) (map chunk_record ps))"
    "map sha256 ps = map sha256 qs" "\<forall>p \<in> set ps. record_ok True (chunk_record p)" by blast
  have "?f1 p = frame @ enc_record True (chunk_record p)"
    using len sh by (subst appendBulkDesc_prefix) (simp add: enc_record_def)
  then show ?case using ps ok len sh by (intro exI [of _ "p # ps"]) (auto simp: record_ok_def)
qed

lemma uploadBatch_effect:
  assumes u: "uploadBatch n trunc ios iof file plan batch s = (r, s')" and ready: "store_ready Z s"
    and ord: "\<And>k. order_ok (ios k)" "order_ok iof"
  shows "store_ready Z s' \<and> (\<forall>dg. stored dg s \<longrightarrow> stored dg s')
    \<and> (\<forall>qs. is_ok r \<longrightarrow> batch = map chunk_desc qs \<longrightarrow> (\<forall>q \<in> set qs. stored (sha256 q) s'))"
proof -
  consider "s' = s" "\<not> is_ok r"
    | frame where "bulkUploadFrame file plan batch = Inr frame" "uploadBulkFrame n trunc ios iof frame s = (r, s')"
    using u by (auto simp: uploadBatch_def split: sum.splits if_splits)
  then show ?thesis
  proof cases
    case 1
    then show ?thesis using ready by auto
  next
    case 2
    obtain out s1 where h: "handleBulkUpload ios iof (int (length frame)) (streamed trunc frame) (bulkCheck frame) s = (out, s1)" by fastforce
    note e = handleBulkUpload_effect [OF h ready ord]
    have c: "s' = s \<and> \<not> is_ok r \<or> s' = s1 \<and> (is_ok r \<longrightarrow> is_ok out)"
      using 2(2) h by (auto simp: uploadBulkFrame_def exchange_def split: net.splits sum.splits)
    have "stored (sha256 q) s1" if ok: "is_ok out" and b: "batch = map chunk_desc qs" and q: "q \<in> set qs" for qs q
    proof -
      obtain rs where rs: "bs_rest (streamed trunc frame) = bulkFrame bulkKindData rs" "\<not> bs_fails (streamed trunc frame)"
        "records_ok False True fmempty rs" "\<forall>x \<in> set rs. stored (rec_sum x) s1" using e ok by blast
      then have f: "frame = bulkFrame bulkKindData rs" by auto
      from frameLoop_records [OF 2(1) [unfolded bulkUploadFrame_def b]] obtain ps where
        ps: "frame = appendBulkHeader [] bulkKindData (length (map chunk_desc qs)) (nat (bulkDescriptorBytes (map chunk_desc qs)))
          @ concat (map (enc_record True) (map chunk_record ps))" "map sha256 ps = map sha256 qs"
          "\<forall>p \<in> set ps. record_ok True (chunk_record p)" by blast
      have "map rec_sum rs = map rec_sum (map chunk_record ps)"
      proof (rule enc_records_inj [where dat = True])
        show "\<forall>r \<in> set rs. record_ok True r" using records_ok_each [OF rs(3)] .
        show "\<forall>q \<in> set (map chunk_record ps). record_ok True q" using ps(3) by simp
        have "drop 20 frame = concat (map (enc_record True) (map chunk_record ps))" using ps(1) by simp
        moreover have "drop 20 frame = concat (map (enc_record True) rs)" by (simp add: f bulkFrame_rest)
        ultimately show "concat (map (enc_record True) rs) = concat (map (enc_record True) (map chunk_record ps))" by metis
      qed
      then have "map rec_sum rs = map sha256 qs" using ps(2) by (simp add: comp_def)
      then have "sha256 q \<in> rec_sum ` set rs" using q by (metis image_eqI list.set_map)
      then show ?thesis using rs(4) by auto
    qed
    then show ?thesis using c e ready by auto
  qed
qed

lemma uploadBulk_effect:
  assumes u: "uploadMissingSyncChunksBulk nets truncs ios iofs files sched pol plan missing s = (r, s')" and ready: "store_ready Z s"
    and ord: "\<And>i k. order_ok (ios i k)" "\<And>i. order_ok (iofs i)"
  shows "store_ready Z s' \<and> (\<forall>dg. stored dg s \<longrightarrow> stored dg s')
    \<and> (is_ok r \<longrightarrow> (\<forall>d \<in> set (yp_unique plan). \<exists>p. d = chunk_desc p) \<longrightarrow> (\<forall>d \<in> set (yp_unique plan). cd_SHA256 d \<in> missing \<longrightarrow>
         (\<exists>dg. cd_SHA256 d = hex_encode (digest_bytes dg) \<and> stored dg s')))"
proof -
  define wanted where "wanted = filter (\<lambda>d. cd_SHA256 d \<in> missing) (yp_unique plan)"
  define batches where "batches = planBulkBatches wanted pol"
  define Q where "Q dgs t \<longleftrightarrow> (\<forall>dg \<in> dgs. stored dg t)" for dgs :: "digest set" and t
  let ?f = "\<lambda>i. {sha256 q | q qs. batches ! i = map chunk_desc qs \<and> q \<in> set qs}"
  obtain results where w: "runTransferWorkers (\<lambda>i. uploadBatch (nets i) (truncs i) (ios i) (iofs i) (files i) plan (batches ! i))
      (length batches) sched s = (results, s')" and ok: "is_ok r \<longleftrightarrow> firstTransferError results = None"
    using u by (auto simp: uploadMissingSyncChunksBulk_def wanted_def batches_def Let_def split: prod.splits option.splits)
  have inv: "store_ready Z s' \<and> (\<forall>x. Q x s \<longrightarrow> Q x s') \<and> ((\<forall>r \<in> set results. is_ok r) \<longrightarrow> (\<forall>i < length batches. Q (?f i) s'))"
  proof (rule runTransferWorkers_inv [where I = "store_ready Z" and Q = Q and f = ?f, OF w ready])
    fix i t r t'
    assume "store_ready Z t" "uploadBatch (nets i) (truncs i) (ios i) (iofs i) (files i) plan (batches ! i) t = (r, t')"
    from uploadBatch_effect [OF this(2,1) ord]
    show "store_ready Z t' \<and> (\<forall>x. Q x t \<longrightarrow> Q x t') \<and> (is_ok r \<longrightarrow> Q (?f i) t')"
      unfolding Q_def by blast
  qed
  have "\<forall>dg. stored dg s \<longrightarrow> stored dg s'" using inv [THEN conjunct2, THEN conjunct1] by (metis Q_def singletonD singletonI)
  moreover have "\<exists>dg. cd_SHA256 d = hex_encode (digest_bytes dg) \<and> stored dg s'"
    if r: "is_ok r" and all: "\<forall>d \<in> set (yp_unique plan). \<exists>p. d = chunk_desc p" and d: "d \<in> set (yp_unique plan)" "cd_SHA256 d \<in> missing" for d
  proof -
    have "d \<in> set (concat batches)" using d by (simp add: batches_def wanted_def)
    then obtain b where "b \<in> set batches" "d \<in> set b" by auto
    then obtain i where i: "i < length batches" "d \<in> set (batches ! i)" by (metis in_set_conv_nth)
    have "set (batches ! i) \<subseteq> set (concat batches)" using nth_mem [OF i(1)] by auto
    then have "\<forall>e \<in> set (batches ! i). \<exists>p. e = chunk_desc p" using all by (auto simp: batches_def wanted_def)
    then obtain qs where qs: "batches ! i = map chunk_desc qs" by (metis ex_map_conv)
    then obtain q where q: "q \<in> set qs" "d = chunk_desc q" using i(2) by auto
    have "\<forall>r \<in> set results. is_ok r" using r ok by (simp add: firstTransferError_None)
    then have "Q (?f i) s'" using inv i(1) by blast
    then have "stored (sha256 q) s'" using qs q(1) by (auto simp: Q_def)
    then show ?thesis by (auto simp: q(2))
  qed
  ultimately show ?thesis using inv by blast
qed

section \<open>The contract of a transport\<close>

text \<open>
  What a sync needs of a transport, under the circumstances \<open>ok\<close>: a chunk that negotiation does not report as missing is
  stored; an upload keeps the store in order and loses nothing, and when it succeeds, it has stored every
  chunk that was reported.
\<close>

locale transport =
  fixes Z :: flate_codec and ok :: "'w \<Rightarrow> bool"
    and negotiate :: "'w \<Rightarrow> syncChunkDescriptor list \<Rightarrow> casState \<Rightarrow> sync_failure + string set"
    and upload :: "'w \<Rightarrow> syncPlan \<Rightarrow> string set \<Rightarrow> casState \<Rightarrow> (sync_failure + int) \<times> casState"
  assumes negotiate_sound: "negotiate w unique s = Inr missing \<Longrightarrow> ok w \<Longrightarrow> \<forall>d \<in> set unique. \<exists>p. d = chunk_desc p
      \<Longrightarrow> chunk_desc p \<in> set unique \<Longrightarrow> stored (sha256 p) s \<or> cd_SHA256 (chunk_desc p) \<in> missing"
    and upload_keeps: "upload w plan missing s = (r, s') \<Longrightarrow> ok w \<Longrightarrow> store_ready Z s
      \<Longrightarrow> store_ready Z s' \<and> (\<forall>dg. stored dg s \<longrightarrow> stored dg s')"
    and upload_stores: "upload w plan missing s = (Inr n, s') \<Longrightarrow> ok w \<Longrightarrow> store_ready Z s
      \<Longrightarrow> \<forall>d \<in> set (yp_unique plan). \<exists>p. d = chunk_desc p \<Longrightarrow> d \<in> set (yp_unique plan) \<Longrightarrow> cd_SHA256 d \<in> missing
      \<Longrightarrow> \<exists>dg. cd_SHA256 d = hex_encode (digest_bytes dg) \<and> stored dg s'"
begin

lemma transfer_complete:
  assumes "negotiate w (yp_unique plan) s0 = Inr missing" and "upload w plan missing s1 = (Inr n, s')" and "ok w" and "store_ready Z s1"
    and more: "\<forall>dg. stored dg s0 \<longrightarrow> stored dg s1" and all: "\<forall>d \<in> set (yp_unique plan). \<exists>p. d = chunk_desc p"
    and p: "cd_SHA256 (chunk_desc p) \<in> cd_SHA256 ` set (yp_unique plan)"
  shows "stored (sha256 p) s'"
proof -
  obtain d where d: "d \<in> set (yp_unique plan)" "cd_SHA256 d = cd_SHA256 (chunk_desc p)" using p by force
  then obtain q where q: "d = chunk_desc q" using all by blast
  then have sq: "sha256 q = sha256 p" using d(2) by (metis chunk_desc_fields(1) decodeHexSHA256_encode option.inject)
  have in_q: "chunk_desc q \<in> set (yp_unique plan)" using d(1) q by simp
  from negotiate_sound [OF assms(1,3) all in_q] consider "stored (sha256 q) s0" | "cd_SHA256 d \<in> missing"
    by (auto simp: q)
  then show ?thesis
  proof cases
    case 1
    then show ?thesis using more upload_keeps [OF assms(2-4)] by (simp add: sq)
  next
    case 2
    from upload_stores [OF assms(2-4) all d(1) this] d(2) show ?thesis by (metis chunk_desc_fields(1) decodeHexSHA256_encode option.inject)
  qed
qed

end

definition world_ok :: "sync_codec \<times> sync_world \<times> syncDiscoveryResponse \<Rightarrow> bool" where
  "world_ok = (\<lambda>(C, W, _). sync_codec_ok C \<and> (\<forall>i k. order_ok (w_ios W i k)) \<and> (\<forall>i. order_ok (w_iosFlush W i)))"

definition v1_negotiate :: "sync_codec \<times> sync_world \<times> syncDiscoveryResponse \<Rightarrow> syncChunkDescriptor list \<Rightarrow> casState \<Rightarrow> sync_failure + string set" where
  "v1_negotiate = (\<lambda>(C, W, discovery). negotiateV1 C (w_negotiateNets W) (w_statFails W) discovery)"

definition v1_upload :: "sync_codec \<times> sync_world \<times> syncDiscoveryResponse \<Rightarrow> syncPlan \<Rightarrow> string set \<Rightarrow> casState \<Rightarrow> (sync_failure + int) \<times> casState" where
  "v1_upload = (\<lambda>(C, W, _). uploadMissingSyncChunks (w_putNets W) (\<lambda>i. w_ios W i 0) (w_iosFlush W) (w_files W) (w_sched W))"

interpretation v1: transport Z world_ok v1_negotiate v1_upload for Z
proof (unfold_locales, goal_cases)
  case (1 w unique s missing p)
  then show ?case by (auto simp: v1_negotiate_def world_ok_def dest: negotiateV1_sound split: prod.splits)
next
  case (2 w plan missing s r s')
  then show ?case by (auto simp: v1_upload_def world_ok_def dest!: uploadMissing_effect split: prod.splits)
next
  case (3 w plan missing s n s' d)
  then show ?case by (auto simp: v1_upload_def world_ok_def dest!: uploadMissing_effect split: prod.splits)
qed

text \<open>The bulk transport of an endpoint that has advertised the limits \<open>caps\<close>.\<close>

definition v2_negotiate :: "bulkCaps \<Rightarrow> sync_codec \<times> sync_world \<times> syncDiscoveryResponse \<Rightarrow> syncChunkDescriptor list \<Rightarrow> casState
    \<Rightarrow> sync_failure + string set" where
  "v2_negotiate caps = (\<lambda>(C, W, _). negotiateBulkMissing (w_negotiateNets W) (w_negotiateCuts W) (w_statFails W) caps)"

definition v2_upload :: "bulkCaps \<Rightarrow> sync_codec \<times> sync_world \<times> syncDiscoveryResponse \<Rightarrow> syncPlan \<Rightarrow> string set \<Rightarrow> casState
    \<Rightarrow> (sync_failure + int) \<times> casState" where
  "v2_upload caps = (\<lambda>(C, W, _). uploadMissingSyncChunksBulk (w_putNets W) (w_putCuts W) (w_ios W) (w_iosFlush W) (w_files W) (w_sched W)
     (bulkPolicyFor (w_bulkTargetBytes W) [caps]))"

lemma negotiateBulkMissing_sound:
  assumes "negotiateBulkMissing nets truncs fails caps unique s = Inr missing" and "0 < bc_maxRecords caps"
    and "\<forall>d \<in> set unique. \<exists>p. d = chunk_desc p" and "chunk_desc p \<in> set unique"
  shows "stored (sha256 p) s \<or> cd_SHA256 (chunk_desc p) \<in> missing"
proof -
  have "\<forall>d \<in> set unique. (\<forall>q. d = chunk_desc q \<longrightarrow> stored (sha256 q) s) \<or> cd_SHA256 d \<in> missing"
  proof (rule conjunct2 [OF negotiateBatches_sound [OF _ assms(1) [unfolded negotiateBulkMissing_def] assms(2) order_refl]])
    fix n ds m d
    assume h: "negotiateBulkBatch (nets n) (truncs n) fails s ds = Inr m" and sub: "set ds \<subseteq> set unique" and d: "d \<in> set ds"
    from sub assms(3) obtain ps where ps: "ds = map chunk_desc ps" by (metis ex_map_conv subsetD)
    then obtain p where p: "p \<in> set ps" "d = chunk_desc p" using d by auto
    from negotiateBulkBatch_sound [OF h [unfolded ps] p(1)]
    show "(\<forall>q. d = chunk_desc q \<longrightarrow> stored (sha256 q) s) \<or> cd_SHA256 d \<in> set m"
      by (metis chunk_desc_fields(1) decodeHexSHA256_encode option.inject p(2))
  qed
  then show ?thesis using assms(4) by blast
qed

interpretation v2: transport Z "\<lambda>w. world_ok w \<and> 0 < bc_maxRecords caps" "v2_negotiate caps" "v2_upload caps" for Z caps
proof (unfold_locales, goal_cases)
  case (1 w unique s missing p)
  then show ?case by (auto simp: v2_negotiate_def dest: negotiateBulkMissing_sound split: prod.splits)
next
  case (2 w plan missing s r s')
  then show ?case by (auto simp: v2_upload_def world_ok_def dest!: uploadBulk_effect split: prod.splits)
next
  case (3 w plan missing s n s' d)
  then show ?case by (auto simp: v2_upload_def world_ok_def dest!: uploadBulk_effect split: prod.splits)
qed

text \<open>The choice between them is a transport as well.\<close>

definition any_negotiate :: "sync_codec \<times> sync_world \<times> syncDiscoveryResponse \<Rightarrow> syncChunkDescriptor list \<Rightarrow> casState
    \<Rightarrow> sync_failure + string set" where
  "any_negotiate = (\<lambda>(C, W, discovery). negotiateSyncMissing C (w_negotiateNets W) (w_negotiateCuts W) (w_statFails W) discovery)"

definition any_upload :: "sync_codec \<times> sync_world \<times> syncDiscoveryResponse \<Rightarrow> syncPlan \<Rightarrow> string set \<Rightarrow> casState
    \<Rightarrow> (sync_failure + int) \<times> casState" where
  "any_upload = (\<lambda>(_, W, discovery). transferMissingSyncChunks W discovery)"

lemma any_cases:
  obtains "any_negotiate w = v1_negotiate w" "any_upload w = v1_upload w"
    | caps where "any_negotiate w = v2_negotiate caps w" "any_upload w = v2_upload caps w" "0 < bc_maxRecords caps"
proof -
  obtain C W discovery where w: "w = (C, W, discovery)" by (cases w)
  show thesis
  proof (cases "bulkCapsOf discovery")
    case None
    then show ?thesis
      by (intro that(1) ext) (simp_all add: w any_negotiate_def any_upload_def v1_negotiate_def v1_upload_def negotiateSyncMissing_def
          transferMissingSyncChunks_def)
  next
    case (Some caps)
    then have "0 < bc_maxRecords caps" by (auto simp: bulkCapsOf_def maxBulkRecords_def split: if_splits)
    with Some show ?thesis
      by (intro that(2) [of caps] ext) (simp_all add: w any_negotiate_def any_upload_def v2_negotiate_def v2_upload_def negotiateSyncMissing_def
          transferMissingSyncChunks_def)
  qed
qed

interpretation any: transport Z world_ok any_negotiate any_upload for Z
proof (unfold_locales, goal_cases)
  case (1 w unique s missing p)
  note h = this
  show ?case
  proof (cases w rule: any_cases)
    case 1
    show ?thesis by (rule v1.negotiate_sound [OF _ h(2-4)]) (use h(1) 1 in simp)
  next
    case (2 caps)
    show ?thesis by (rule v2.negotiate_sound [where caps = caps, OF _ _ h(3,4)]) (use h(1,2) 2 in simp_all)
  qed
next
  case (2 w plan missing s r s')
  note h = this
  show ?case
  proof (cases w rule: any_cases)
    case 1
    show ?thesis by (rule v1.upload_keeps [OF _ h(2,3)]) (use h(1) 1 in simp)
  next
    case (2 caps)
    show ?thesis by (rule v2.upload_keeps [where caps = caps, OF _ _ h(3)]) (use h(1,2) 2 in simp_all)
  qed
next
  case (3 w plan missing s n s' d)
  note h = this
  show ?case
  proof (cases w rule: any_cases)
    case 1
    show ?thesis by (rule v1.upload_stores [OF _ h(2-6)]) (use h(1) 1 in simp)
  next
    case (2 caps)
    show ?thesis by (rule v2.upload_stores [where caps = caps, OF _ _ h(3-6)]) (use h(1,2) 2 in simp_all)
  qed
qed

section \<open>The sync\<close>

text \<open>Other clients never take a chunk away and leave the chunk store in order.\<close>

definition others_keep :: "flate_codec \<Rightarrow> sync_world \<Rightarrow> bool" where
  "others_keep Z W \<longleftrightarrow> (\<forall>k t. store_ready Z (sy_cas t) \<longrightarrow> store_ready Z (sy_cas (w_other W k t))
     \<and> (\<forall>dg. stored dg (sy_cas t) \<longrightarrow> stored dg (sy_cas (w_other W k t))))"

lemma syncPrepare_plan:
  assumes "syncPrepare C M W discovery rd r bucket key sy = Some (Inr (plan, pre, missing, uploaded), sy3)" "delivers rd r xs"
  obtains present etag s3 where "headSyncDestination (w_headNet W) M (w_manFails W) bucket key sy = Inr (present, etag)"
    "pre = \<lparr>yq_expectAbsent = \<not> present, yq_expectedETag = etag\<rparr>"
    "plan = buildSyncPlan (local_chunks 0 (cdcChunks xs)) (int (length xs))"
    "negotiateSyncMissing C (w_negotiateNets W) (w_negotiateCuts W) (w_statFails W) discovery (yp_unique plan) (sy_cas (w_other W 0 sy)) = Inr missing"
    "transferMissingSyncChunks W discovery plan missing
       (sy_cas (w_other W 1 (w_other W 0 sy))) = (Inr uploaded, s3)"
    "sy3 = w_other W 2 (w_other W 1 (w_other W 0 sy)\<lparr>sy_cas := s3\<rparr>)"
  using assms(1) scanLocalFileForSync_correct [OF assms(2)]
  by (auto simp: syncPrepare_def Let_def split: sum.splits prod.splits if_splits)

lemma syncPrepare_complete:
  assumes p: "syncPrepare C M W discovery rd r bucket key sy = Some (Inr (plan, pre, missing, uploaded), sy3)" and "delivers rd r xs"
    and "store_ready Z (sy_cas sy)" and "others_keep Z W" and ok: "world_ok (C, W, discovery)"
    and "faithful Z (sy_cas sy3) (cdcChunks xs)"
  shows "orderedChunks plan = map chunk_desc (cdcChunks xs) \<and> store_ready Z (sy_cas sy3)
    \<and> commitChunks Z (\<lambda>_. False) (sy_cas sy3) (orderedChunks plan) [] 0 [] = Inr (xs, int (length xs), map chunk_ref (cdcChunks xs))"
proof -
  from syncPrepare_plan [OF assms(1,2)] obtain s3
    where plan: "plan = buildSyncPlan (local_chunks 0 (cdcChunks xs)) (int (length xs))"
    and neg: "negotiateSyncMissing C (w_negotiateNets W) (w_negotiateCuts W) (w_statFails W) discovery (yp_unique plan)
      (sy_cas (w_other W 0 sy)) = Inr missing"
    and up: "transferMissingSyncChunks W discovery plan missing (sy_cas (w_other W 1 (w_other W 0 sy))) = (Inr uploaded, s3)"
    and sy3: "sy3 = w_other W 2 (w_other W 1 (w_other W 0 sy)\<lparr>sy_cas := s3\<rparr>)" by blast
  note B = buildSyncPlan_ok [of xs "int (length xs)", folded plan]
  have neg': "any_negotiate (C, W, discovery) (yp_unique plan) (sy_cas (w_other W 0 sy)) = Inr missing"
    and up': "any_upload (C, W, discovery) plan missing (sy_cas (w_other W 1 (w_other W 0 sy))) = (Inr uploaded, s3)"
    using neg up by (simp_all add: any_negotiate_def any_upload_def)
  have ok0: "store_ready Z (sy_cas (w_other W 0 sy))" using assms(3,4) by (simp add: others_keep_def)
  then have ok1: "store_ready Z (sy_cas (w_other W 1 (w_other W 0 sy)))"
    and more: "\<forall>dg. stored dg (sy_cas (w_other W 0 sy)) \<longrightarrow> stored dg (sy_cas (w_other W 1 (w_other W 0 sy)))"
    using assms(4) by (simp_all add: others_keep_def)
  have ready: "store_ready Z s3" using any.upload_keeps [OF up' ok ok1] by simp
  have last: "store_ready Z (sy_cas sy3) \<and> (\<forall>dg. stored dg s3 \<longrightarrow> stored dg (sy_cas sy3))"
    using assms(4) ready unfolding sy3 others_keep_def by (metis system.simps(2) system.surjective system.update_convs(2))
  have all: "\<forall>d \<in> set (yp_unique plan). \<exists>p. d = chunk_desc p" using B(1) by (fastforce simp: plan_ok_def)
  have "desc_read Z (\<lambda>_. False) (sy_cas sy3) (chunk_desc p) p" if "p \<in> set (cdcChunks xs)" for p
  proof -
    have "cd_SHA256 (chunk_desc p) \<in> cd_SHA256 ` set (yp_unique plan)" using that B(2) by simp
    from any.transfer_complete [OF neg' up' ok ok1 more all this]
    have "good_copy Z (sha256 p) (sy_cas sy3)" using last by (simp add: store_ready_def healthy_def)
    from good_copy_read [OF this] obtain d where "casRead Z False (sha256 p) (sy_cas sy3) = Inr d" by blast
    moreover from this have "d = p" using casRead_served assms(6) that by (fastforce simp: faithful_def)
    ultimately show ?thesis using cdcChunks_sizes [of xs] that by (simp add: list_all_iff desc_read_def chunk_desc_def maxSyncChunkBytes_def)
  qed
  then have "list_all2 (desc_read Z (\<lambda>_. False) (sy_cas sy3)) (map chunk_desc (cdcChunks xs)) (cdcChunks xs)"
    by (simp add: list_all2_map1 list.rel_refl_strong)
  from commitChunks_succeeds [OF this, of "[]" 0 "[]"] B(3) last show ?thesis by (simp add: cdcChunks_concat)
qed

text \<open>
  What a successful commit has made of the state \<open>sy\<close> it met: one key shows a new object, whose verified manifest lists
  the chunks of the request, each of which was read back.
\<close>

definition object_made ::
  "man_codec \<Rightarrow> flate_codec \<Rightarrow> (digest \<Rightarrow> bool) \<Rightarrow> string \<Rightarrow> string \<Rightarrow> string \<Rightarrow> syncChunkDescriptor list \<Rightarrow> system \<Rightarrow> system \<Rightarrow> bool" where
  "object_made M Z fails uuid bucket key ds sy sy' \<longleftrightarrow> manifests_kept sy sy' \<and> sy_cas sy' = sy_cas sy
     \<and> (\<exists>entry parts. list_all2 (desc_read Z fails (sy_cas sy)) ds parts
        \<and> (\<forall>bk k. lookupObject bk k (sy_store sy') = (if (bk, k) = (bucket, key) then Inr entry else lookupObject bk k (sy_store sy)))
        \<and> oe_size entry = int (length (concat parts)) \<and> oe_etag entry = hex_encode (md5 (concat parts))
        \<and> (\<forall>mf. \<not> mf uuid \<longrightarrow> (\<exists>man. HeadObject M mf bucket key sy' = Inr (entry, man)
              \<and> man_Chunks man = map chunk_ref parts \<and> man_TotalLength man = int (length (concat parts)))))"

lemma commitSyncObject_success:
  assumes cs: "commitSyncObject C J M Z fails pe n bucket key ct md plan pre sy = (Inr rs, sy')" and "sync_codec_ok C" and "man_ok M"
    and "utf8_valid bucket" and "utf8_valid key" and "fmlookup (sy_manifests sy) (e_uuid (pe_build pe)) = None"
  shows "object_made M Z fails (e_uuid (pe_build pe)) bucket key (map coerce_desc (orderedChunks plan)) sy sy'"
    and "yq_expectAbsent pre \<Longrightarrow> current bucket key sy = None"
    and "\<not> yq_expectAbsent pre \<Longrightarrow> utf8_coerce (yq_expectedETag pre) \<noteq> [] \<Longrightarrow>
      \<exists>e. current bucket key sy = Some e \<and> oe_etag e = utf8_coerce (yq_expectedETag pre)"
proof -
  define req where "req = \<lparr>yc_Protocol = zeros3SyncProtocolVersion, yc_CDC = zeros3SyncCDCFormat, yc_Hash = zeros3SyncHashAlgorithm,
    yc_Bucket = bucket, yc_Key = key, yc_ContentType = (if ct = [] then ''application/octet-stream'' else ct), yc_Metadata = md,
    yc_Chunks = orderedChunks plan, yc_ExpectAbsent = yq_expectAbsent pre, yc_ExpectedETag = yq_expectedETag pre\<rparr>"
  obtain body where m: "sc_marshalCommit C req = Some body"
    and hc: "handleSyncCommit J M Z (sc_unmarshalCommit C) fails pe body sy = (Inr rs, sy')"
    using cs by (auto simp: commitSyncObject_def req_def [symmetric] exchange_def split: option.splits net.splits prod.splits sum.splits)
  obtain md' where um: "sc_unmarshalCommit C body = Some ((coerce_commit req)\<lparr>yc_Metadata := md'\<rparr>)"
    using assms(2) m unfolding sync_codec_ok_def by blast
  let ?req = "(coerce_commit req)\<lparr>yc_Metadata := md'\<rparr>"
  have rq: "yc_Bucket ?req = bucket" "yc_Key ?req = key" "yc_Chunks ?req = map coerce_desc (orderedChunks plan)"
    "yc_ExpectAbsent ?req = yq_expectAbsent pre" "yc_ExpectedETag ?req = utf8_coerce (yq_expectedETag pre)"
    using assms(4,5) by (simp_all add: coerce_commit_def req_def utf8_valid_def)
  note E = handleSyncCommit_spec [OF hc assms(6,3), unfolded um commit_effect_def]
  have keep: "manifests_kept sy sy'" "sy_cas sy' = sy_cas sy" using E by simp_all
  from E [THEN conjunct2, THEN conjunct2, THEN conjunct2, THEN spec, THEN mp, OF refl]
  obtain parts entry where parts: "list_all2 (desc_read Z fails (sy_cas sy)) (yc_Chunks ?req) parts"
    and held: "sync_condition_held ?req (current (yc_Bucket ?req) (yc_Key ?req) sy)"
    and lk: "\<forall>bk k. lookupObject bk k (sy_store sy')
               = (if (bk, k) = (yc_Bucket ?req, yc_Key ?req) then Inr entry else lookupObject bk k (sy_store sy))"
    and ent: "oe_size entry = int (length (concat parts))" "oe_etag entry = hex_encode (md5 (concat parts))"
    and head: "\<forall>mf. \<not> mf (e_uuid (pe_build pe)) \<longrightarrow> (\<exists>man. HeadObject M mf (yc_Bucket ?req) (yc_Key ?req) sy' = Inr (entry, man)
                \<and> man_Chunks man = map chunk_ref parts \<and> man_TotalLength man = int (length (concat parts))
                \<and> man_ObjectSHA256 man = hex_encode (digest_bytes (sha256 (concat parts))))"
    by (elim exE conjE) (simp only: option.inject, blast)
  have "\<forall>mf. \<not> mf (e_uuid (pe_build pe)) \<longrightarrow> (\<exists>man. HeadObject M mf bucket key sy' = Inr (entry, man)
              \<and> man_Chunks man = map chunk_ref parts \<and> man_TotalLength man = int (length (concat parts)))"
    using head unfolding rq by blast
  then show "object_made M Z fails (e_uuid (pe_build pe)) bucket key (map coerce_desc (orderedChunks plan)) sy sy'"
    unfolding object_made_def using keep ent lk [unfolded rq] parts [unfolded rq]
    by (intro conjI exI [of _ entry] exI [of _ parts])
  show "yq_expectAbsent pre \<Longrightarrow> current bucket key sy = None" using held unfolding sync_condition_held_def rq by blast
  show "\<not> yq_expectAbsent pre \<Longrightarrow> utf8_coerce (yq_expectedETag pre) \<noteq> [] \<Longrightarrow>
      \<exists>e. current bucket key sy = Some e \<and> oe_etag e = utf8_coerce (yq_expectedETag pre)"
    using held unfolding sync_condition_held_def rq by blast
qed

lemma commitSyncObject_conflict:
  assumes cs: "commitSyncObject C J M Z fails pe n bucket key ct md plan pre sy = (Inl SyncRemoteConflict, sy')" and "man_ok M"
    and "fmlookup (sy_manifests sy) (e_uuid (pe_build pe)) = None"
  shows "s_ns (sy_store sy') = s_ns (sy_store sy)"
proof -
  obtain body where "handleSyncCommit J M Z (sc_unmarshalCommit C) fails pe body sy = (Inl SyncPreconditionFailed, sy')"
    using cs by (auto simp: commitSyncObject_def exchange_def split: option.splits net.splits prod.splits sum.splits if_splits)
  from handleSyncCommit_spec [OF this assms(3,2)] show ?thesis by (simp add: commit_effect_def)
qed

lemma syncDelta_success:
  assumes p: "syncPrepare C M W discovery rd r bucket key sy = Some (Inr (plan, pre, missing, uploaded), sy3)"
    and f: "syncDelta C J M Z pe W discovery rd r bucket key ct md sy = Some (Inr stats, sy')"
    and "delivers rd r xs" and "sync_codec_ok C" and "man_ok M" and "utf8_valid bucket" and "utf8_valid key"
    and "fmlookup (sy_manifests sy3) (e_uuid (pe_build pe)) = None"
  shows "unchanged_since (current bucket key sy) (current bucket key sy3) \<and> manifests_kept sy3 sy' \<and> sy_cas sy' = sy_cas sy3
    \<and> ys_LogicalBytes stats = int (length xs)
    \<and> (\<exists>entry parts. map chunk_ref parts = map chunk_ref (cdcChunks xs)
        \<and> (\<forall>q \<in> set parts. casRead Z (w_readFails W (sha256 q)) (sha256 q) (sy_cas sy') = Inr q)
        \<and> (\<forall>bk k. lookupObject bk k (sy_store sy') = (if (bk, k) = (bucket, key) then Inr entry else lookupObject bk k (sy_store sy3)))
        \<and> oe_size entry = int (length xs) \<and> oe_etag entry = hex_encode (md5 (concat parts))
        \<and> (\<forall>mf. \<not> mf (e_uuid (pe_build pe)) \<longrightarrow> (\<exists>man. HeadObject M mf bucket key sy' = Inr (entry, man)
              \<and> man_Chunks man = map chunk_ref (cdcChunks xs) \<and> man_TotalLength man = int (length xs))))"
proof -
  obtain present etag
    where h: "headSyncDestination (w_headNet W) M (w_manFails W) bucket key sy = Inr (present, etag)"
    and pre: "pre = \<lparr>yq_expectAbsent = \<not> present, yq_expectedETag = etag\<rparr>"
    and plan: "plan = buildSyncPlan (local_chunks 0 (cdcChunks xs)) (int (length xs))"
    by (rule syncPrepare_plan [OF p assms(3)])
  note B = buildSyncPlan_ok [of xs "int (length xs)", folded plan]
  obtain rs where cs: "commitSyncObject C J M Z (w_readFails W) pe (w_commitNet W) bucket key ct md plan pre sy3 = (Inr rs, sy')"
    and logical: "ys_LogicalBytes stats = yp_logicalBytes plan"
    using f p by (auto simp: syncDelta_def Let_def split: prod.splits sum.splits)
  note S = commitSyncObject_success [OF cs assms(4-8)]
  have cd: "map coerce_desc (orderedChunks plan) = map chunk_desc (cdcChunks xs)" using B(3) by simp
  have "unchanged_since (current bucket key sy) (current bucket key sy3)"
    using S(2,3) headSyncDestination_current [OF h]
    by (cases present) (auto simp: pre unchanged_since_def etag_plain_def utf8_valid_def)
  moreover from S(1) obtain entry parts where made: "manifests_kept sy3 sy'" "sy_cas sy' = sy_cas sy3"
    "list_all2 (desc_read Z (w_readFails W) (sy_cas sy3)) (map chunk_desc (cdcChunks xs)) parts"
    "\<forall>bk k. lookupObject bk k (sy_store sy') = (if (bk, k) = (bucket, key) then Inr entry else lookupObject bk k (sy_store sy3))"
    "oe_size entry = int (length (concat parts))" "oe_etag entry = hex_encode (md5 (concat parts))"
    "\<forall>mf. \<not> mf (e_uuid (pe_build pe)) \<longrightarrow> (\<exists>man. HeadObject M mf bucket key sy' = Inr (entry, man)
              \<and> man_Chunks man = map chunk_ref parts \<and> man_TotalLength man = int (length (concat parts)))"
    unfolding object_made_def cd by blast
  note L = list_all2_chunk_descs [OF made(3)]
  have len: "length (concat parts) = length xs" using L by (simp add: cdcChunks_concat)
  have "yp_logicalBytes plan = int (length xs)" unfolding plan by (simp add: buildSyncPlan_def)
  moreover have "\<forall>mf. \<not> mf (e_uuid (pe_build pe)) \<longrightarrow> (\<exists>man. HeadObject M mf bucket key sy' = Inr (entry, man)
              \<and> man_Chunks man = map chunk_ref (cdcChunks xs) \<and> man_TotalLength man = int (length xs))"
    using made(7) L len by simp
  ultimately show ?thesis
    using made L logical len by (intro conjI exI [of _ entry] exI [of _ parts]) (simp_all)
qed

lemma syncFile_delta:
  assumes f: "syncFile C J M Z cmp pe S W rd r body q bucket key ct md sy = Some (Inr stats, sy')"
    and d: "discoverZeroS3Sync (st_discovery S) = Inr d"
  shows "\<not> ys_FellBackToPlainPut stats \<and> syncDelta C J M Z pe W d rd r bucket key ct md sy = Some (Inr stats, sy')
    \<and> (\<exists>plan pre missing uploaded sy3. syncPrepare C M W d rd r bucket key sy = Some (Inr (plan, pre, missing, uploaded), sy3))"
proof -
  have s: "syncDelta C J M Z pe W d rd r bucket key ct md sy = Some (Inr stats, sy')"
    using f d by (simp add: syncFile_def split: if_splits)
  then show ?thesis by (auto simp: syncDelta_def Let_def split: option.splits prod.splits sum.splits)
qed

lemma syncFile_fallback:
  assumes f: "syncFile C J M Z cmp pe S W rd r body q bucket key ct md sy = Some (Inr stats, sy')"
    and d: "discoverZeroS3Sync (st_discovery S) = Inl e"
  shows "\<exists>data entry. st_file S = Some data \<and> ys_FellBackToPlainPut stats \<and> ys_LogicalBytes stats = int (length data)
    \<and> putObject J M Z cmp pe body q data (int (length data)) (bulkCheck data)
        \<lparr>pc_ifNoneMatchStar = False, pc_ifMatchETag = []\<rparr> bucket key (if ct = [] then ''application/octet-stream'' else ct)
        (st_headers S) (w_other W 0 sy) = Some (Inr entry, sy')"
proof -
  have "doPlainPutFallback J M Z cmp pe S body q bucket key ct (w_other W 0 sy) = Some (Inr stats, sy')"
    using f d by (simp add: syncFile_def split: if_splits)
  then show ?thesis
    by (auto simp: doPlainPutFallback_def exchange_def Let_def split: option.splits if_splits net.splits prod.splits sum.splits)
qed


section \<open>Properties\<close>

text \<open>
  C34: What a sync transfers is enough. Whatever chunks the server had, whichever transport it speaks, however
  negotiation and uploads are batched, and in whatever order the workers ran, when negotiation and uploads succeed, the chunk store holds
  every chunk of the file: a commit reads back the file, byte for byte, and the references of its chunks.
  Other clients may add to the store in between.
\<close>

theorem sync_transfers_the_file:
  assumes "syncPrepare C M W discovery rd r bucket key sy = Some (Inr (plan, pre, missing, uploaded), sy3)" and "delivers rd r xs"
    and "store_ready Z (sy_cas sy)" and "others_keep Z W" and "world_ok (C, W, discovery)"
    and "faithful Z (sy_cas sy3) (cdcChunks xs)"
  shows "orderedChunks plan = map chunk_desc (cdcChunks xs) \<and> store_ready Z (sy_cas sy3)
    \<and> commitChunks Z (\<lambda>_. False) (sy_cas sy3) (orderedChunks plan) [] 0 [] = Inr (xs, int (length xs), map chunk_ref (cdcChunks xs))"
  using assms by (rule syncPrepare_complete)

text \<open>
  C35: A sync that reports success has made the destination the local file, whatever was lost on the way and whatever
  other clients did between its phases. If the endpoint answered the discovery, the destination still had the ETag that the sync
  had observed at its start (if it is one that the quotes of the header leave as it is, as every digest does), or was still absent; no other key changed, and the verified manifest of the new object lists exactly the
  chunks of the scanned file, each of which was read back in the store. If the discovery failed, the report says
  so, and the destination is the file as it was read whole, stored by an ordinary PUT without a precondition: that replaces
  whatever was there.
\<close>

theorem sync_success_means_synced:
  assumes f: "syncFile C J M Z cmp pe S W rd r body q bucket key ct md sy = Some (Inr stats, sy')"
    and scan: "delivers rd r xs" and codecs: "sync_codec_ok C" "man_ok M" and names: "utf8_valid bucket" "utf8_valid key"
    and fresh: "\<forall>d res sy3. syncPrepare C M W d rd r bucket key sy = Some (res, sy3)
      \<longrightarrow> fmlookup (sy_manifests sy3) (e_uuid (pe_build pe)) = None"
    and put: "\<forall>e data. discoverZeroS3Sync (st_discovery S) = Inl e \<longrightarrow> st_file S = Some data
      \<longrightarrow> put_request cmp B pe body q data whole (int (length data)) (w_other W 0 sy)
        \<and> healthy Z (sy_cas (w_other W 0 sy)) \<and> staged_ok [] (sy_cas (w_other W 0 sy))"
  shows "case discoverZeroS3Sync (st_discovery S) of
      Inl _ \<Rightarrow> \<exists>data entry. st_file S = Some data \<and> ys_FellBackToPlainPut stats \<and> ys_LogicalBytes stats = int (length data)
        \<and> put_effect M Z pe data (bulkCheck data) \<lparr>pc_ifNoneMatchStar = False, pc_ifMatchETag = []\<rparr> bucket key
            (w_other W 0 sy) (Inr entry) sy'
    | Inr d \<Rightarrow> \<exists>plan pre missing uploaded sy3. syncPrepare C M W d rd r bucket key sy = Some (Inr (plan, pre, missing, uploaded), sy3)
        \<and> \<not> ys_FellBackToPlainPut stats
        \<and> unchanged_since (current bucket key sy) (current bucket key sy3) \<and> manifests_kept sy3 sy' \<and> sy_cas sy' = sy_cas sy3
        \<and> ys_LogicalBytes stats = int (length xs)
        \<and> (\<exists>entry parts. map chunk_ref parts = map chunk_ref (cdcChunks xs)
            \<and> (\<forall>q \<in> set parts. casRead Z (w_readFails W (sha256 q)) (sha256 q) (sy_cas sy') = Inr q)
            \<and> (\<forall>bk k. lookupObject bk k (sy_store sy') = (if (bk, k) = (bucket, key) then Inr entry else lookupObject bk k (sy_store sy3)))
            \<and> oe_size entry = int (length xs) \<and> oe_etag entry = hex_encode (md5 (concat parts))
            \<and> (\<forall>mf. \<not> mf (e_uuid (pe_build pe)) \<longrightarrow> (\<exists>man. HeadObject M mf bucket key sy' = Inr (entry, man)
                  \<and> man_Chunks man = map chunk_ref (cdcChunks xs) \<and> man_TotalLength man = int (length xs))))"
proof (cases "discoverZeroS3Sync (st_discovery S)")
  case (Inl e)
  from syncFile_fallback [OF f Inl] obtain data entry where F: "st_file S = Some data" "ys_FellBackToPlainPut stats"
    "ys_LogicalBytes stats = int (length data)"
    and p: "putObject J M Z cmp pe body q data (int (length data)) (bulkCheck data)
        \<lparr>pc_ifNoneMatchStar = False, pc_ifMatchETag = []\<rparr> bucket key (if ct = [] then ''application/octet-stream'' else ct)
        (st_headers S) (w_other W 0 sy) = Some (Inr entry, sy')" by blast
  have "put_effect M Z pe data (bulkCheck data) \<lparr>pc_ifNoneMatchStar = False, pc_ifMatchETag = []\<rparr> bucket key
      (w_other W 0 sy) (Inr entry) sy'"
    using putObject_request [OF _ _ _ codecs(2) p] put Inl F(1) by blast
  then show ?thesis unfolding Inl sum.case using F by blast
next
  case (Inr d)
  from syncFile_delta [OF f Inr] obtain plan pre missing uploaded sy3
    where p: "syncPrepare C M W d rd r bucket key sy = Some (Inr (plan, pre, missing, uploaded), sy3)"
    and D: "\<not> ys_FellBackToPlainPut stats" "syncDelta C J M Z pe W d rd r bucket key ct md sy = Some (Inr stats, sy')" by blast
  from fresh p have "fmlookup (sy_manifests sy3) (e_uuid (pe_build pe)) = None" by blast
  note made = syncDelta_success [OF p D(2) scan codecs names this]
  show ?thesis unfolding Inr sum.case
    by (rule exI [of _ plan], rule exI [of _ pre], rule exI [of _ missing], rule exI [of _ uploaded], rule exI [of _ sy3],
        rule conjI [OF p], rule conjI [OF D(1)], rule made)
qed


definition calm_world :: sync_world where
  "calm_world = \<lparr>w_headNet = NetOk, w_negotiateNets = (\<lambda>_. NetOk), w_negotiateCuts = (\<lambda>_. None), w_putNets = (\<lambda>_. NetOk),
     w_putCuts = (\<lambda>_. None), w_commitNet = NetOk,
     w_manFails = (\<lambda>_. False), w_statFails = (\<lambda>_. False), w_readFails = (\<lambda>_. False), w_ios = (\<lambda>_ _. no_failure),
     w_iosFlush = (\<lambda>_. no_failure), w_files = (\<lambda>_. Some [7]), w_sched = [], w_bulkTargetBytes = 4194304, w_unchanged = True, w_other = (\<lambda>_ t. t)\<rparr>"

lemma calm_negotiation:
  "casStat False (sha256 [7]) s = Inr 1 \<Longrightarrow>
     negotiateSyncMissing file_codec (\<lambda>_. NetOk) (\<lambda>_. None) (\<lambda>_. False) v1_discovery [chunk_desc [7]] s = Inr {}"
  by (simp add: negotiateSyncMissing_def bulkCapsOf_def zeros3BulkProtocolVersion_def negotiateV1_def v1_discovery_def negotiateBatchSize_def maxSyncBatchDescriptors_def
      negotiateBatches.simps calm_ask)

lemma calm_prepare:
  assumes "sy_store sy = sy_store copy_sys" "casStat False (sha256 [7]) (sy_cas sy) = Inr 1"
  shows "syncPrepare file_codec (sample_codec source_man) calm_world v1_discovery frag_read [[7]] ''b'' ''c'' sy
     = Some (Inr (one_plan, \<lparr>yq_expectAbsent = True, yq_expectedETag = []\<rparr>, {}, 0), sy)"
proof -
  have sc: "scanLocalFileForSync frag_read [[7]] = Some (Inr (local_chunks 0 [[7]], 1))"
    using scanLocalFileForSync_correct [OF frag_delivers [of "[[7]]"]] by (simp add: cdc_one del: local_chunks.simps)
  have hd: "headSyncDestination NetOk (sample_codec source_man) (\<lambda>_. False) ''b'' ''c'' sy = Inr (False, [])"
    using assms(1) by (simp add: headSyncDestination_def exchange_def HeadObject_def lookupObject_def copy_sys_def)
  have up: "transferMissingSyncChunks W v1_discovery one_plan {} s = (Inr 0, s)" for W s
    by (simp add: transferMissingSyncChunks_def bulkCapsOf_def v1_discovery_def zeros3BulkProtocolVersion_def uploadMissingSyncChunks_def
        runTransferWorkers_def firstTransferError_def)
  show ?thesis
    unfolding syncPrepare_def calm_world_def sync_world.simps hd sum.case prod.case sc option.case one_plan_def [symmetric]
      Let_def one_plan_fields calm_negotiation [OF assms(2)] up
    by simp
qed

lemma calm_commit:
  "\<exists>rs sy'. handleSyncCommit (sample_json ''c'' source_man) (sample_codec source_man) stored_flate (sc_unmarshalCommit file_codec)
     (\<lambda>_. False) sample_pe [2] copy_sys = (Inr rs, sy')"
proof -
  have f: "file_commit\<lparr>yc_Metadata := fmempty\<rparr> = sample_commit_request"
    by (simp add: file_commit_def sample_commit_request_def chunk_desc_def zeros3SyncProtocolVersion_def
        zeros3SyncCDCFormat_def zeros3SyncHashAlgorithm_def)
  have "sc_unmarshalCommit file_codec [2] = Some sample_commit_request" by (simp add: file_codec_def file_codec_back f)
  then have "handleSyncCommit J M Z (sc_unmarshalCommit file_codec) fails pe [2] sy
      = handleSyncCommit J M Z (\<lambda>_. Some sample_commit_request) fails pe [] sy" for J M Z fails pe sy
    by (simp add: handleSyncCommit_def)
  then show ?thesis using sample_commit_succeeds by simp
qed

definition calm_start :: "discovery_reply \<Rightarrow> sync_start" where
  "calm_start reply = \<lparr>st_statFails = False, st_discovery = reply, st_file = Some [], st_putNet = NetOk, st_headers = fmempty\<rparr>"

lemma v1_discovery_ok: "discoverZeroS3Sync (DiscoveryAnswer v1_discovery) = Inr v1_discovery"
  by (simp add: discoverZeroS3Sync_def v1_discovery_def validateSyncProtocolFields_def zeros3SyncProtocolVersion_def
      zeros3SyncCDCFormat_def zeros3SyncHashAlgorithm_def)

lemma calm_sync:
  "\<exists>stats sy'. syncFile file_codec (sample_json ''c'' source_man) (sample_codec source_man) stored_flate None sample_pe
     (calm_start (DiscoveryAnswer v1_discovery)) calm_world frag_read [[7]] frag_read [[]] ''b'' ''c'' ''text/plain'' fmempty copy_sys
     = Some (Inr stats, sy')"
proof -
  obtain rs sy' where c: "handleSyncCommit (sample_json ''c'' source_man) (sample_codec source_man) stored_flate
      (sc_unmarshalCommit file_codec) (\<lambda>_. False) sample_pe [2] copy_sys = (Inr rs, sy')" using calm_commit by blast
  have m: "sc_marshalCommit file_codec \<lparr>yc_Protocol = zeros3SyncProtocolVersion, yc_CDC = zeros3SyncCDCFormat,
      yc_Hash = zeros3SyncHashAlgorithm, yc_Bucket = ''b'', yc_Key = ''c'', yc_ContentType = ''text/plain'', yc_Metadata = fmempty,
      yc_Chunks = [chunk_desc [7]], yc_ExpectAbsent = True, yc_ExpectedETag = []\<rparr> = Some [2]"
    by (simp add: file_codec_def file_commit_def)
  have w: "w_readFails calm_world = (\<lambda>_. False)" "w_commitNet calm_world = NetOk" by (simp_all add: calm_world_def)
  have "commitSyncObject file_codec (sample_json ''c'' source_man) (sample_codec source_man) stored_flate (\<lambda>_. False) sample_pe NetOk
      ''b'' ''c'' ''text/plain'' fmempty one_plan \<lparr>yq_expectAbsent = True, yq_expectedETag = []\<rparr> copy_sys = (Inr rs, sy')"
    by (simp add: commitSyncObject_def one_plan_fields m exchange_def c)
  then show ?thesis by (simp add: syncFile_def syncDelta_def calm_start_def v1_discovery_ok calm_prepare copy_sys_stat w Let_def)
qed

definition tidy_sys :: system where
  "tidy_sys = copy_sys\<lparr>sy_cas := empty_cas\<lparr>cs_loose := fmupd (sha256 [7]) [7] fmempty,
     cs_dirs := {shardDir (sha256 [7]), butlast (shardDir (sha256 [7]))}\<rparr>\<rparr>"

lemma tidy_ready: "store_ready stored_flate (sy_cas tidy_sys)" "faithful stored_flate (sy_cas tidy_sys) [[7]]"
proof -
  have st: "stored dg (sy_cas tidy_sys) \<longleftrightarrow> dg = sha256 [7]" for dg
    by (auto simp: stored_def tidy_sys_def empty_cas_def ps_lookup_def ps_best_def)
  have g: "good_copy stored_flate (sha256 [7]) (sy_cas tidy_sys)"
    by (simp add: good_copy_def loose_good_def tidy_sys_def)
  have "dirs_ok (sy_cas tidy_sys)" by (simp add: dirs_ok_def tidy_sys_def empty_cas_def)
  then show "store_ready stored_flate (sy_cas tidy_sys)"
    using g st by (simp add: store_ready_def healthy_def) (simp add: staged_ok_def tidy_sys_def empty_cas_def)
  show "faithful stored_flate (sy_cas tidy_sys) [[7]]"
    by (auto simp: faithful_def served_def tidy_sys_def empty_cas_def appendLocs_def)
qed

theorem sync_transfers_the_file_witness:
  "commitChunks stored_flate (\<lambda>_. False) (sy_cas tidy_sys) (orderedChunks one_plan) [] 0 [] = Inr ([7], 1, [chunk_ref [7]])"
proof -
  have p: "syncPrepare file_codec (sample_codec source_man) calm_world v1_discovery frag_read [[7]] ''b'' ''c'' tidy_sys
     = Some (Inr (one_plan, \<lparr>yq_expectAbsent = True, yq_expectedETag = []\<rparr>, {}, 0), tidy_sys)"
    by (rule calm_prepare) (simp_all add: tidy_sys_def casStat_def casStatLocked_def)
  have o: "others_keep stored_flate calm_world" by (simp add: others_keep_def calm_world_def)
  have f: "faithful stored_flate (sy_cas tidy_sys) (cdcChunks [7])" using tidy_ready(2) by (simp add: cdc_one)
  have ok: "world_ok (file_codec, calm_world, v1_discovery)"
    by (simp add: world_ok_def calm_world_def order_ok_def no_failure_def)
  have d: "delivers frag_read [[7]] [7]" using frag_delivers [of "[[7]]"] by simp
  from sync_transfers_the_file [OF p d tidy_ready(1) o ok f] show ?thesis by (elim conjE) (simp add: cdc_one del: commitChunks.simps)
qed

lemma calm_manifests:
  "syncPrepare C M calm_world d rd r bucket key sy = Some (res, sy3) \<Longrightarrow> sy_manifests sy3 = sy_manifests sy"
  by (auto simp: syncPrepare_def calm_world_def Let_def split: sum.splits option.splits prod.splits if_splits)

lemma calm_fallback:
  "\<exists>stats sy'. syncFile file_codec (sample_json ''k'' (sample_man [7, 8, 9])) (sample_codec (sample_man [7, 8, 9])) stored_flate None sample_pe
     ((calm_start DiscoveryLost)\<lparr>st_file := Some [7, 8, 9]\<rparr>) calm_world frag_read [[7, 8, 9]] frag_read [[7, 8, 9]] ''b'' ''k'' [] fmempty sample_sys
     = Some (Inr stats, sy')"
proof -
  have check: "payloadCheck_verify (bulkCheck [7, 8, 9]) (sha256 [7, 8, 9]) m c = Inr ()" for m c
    by (simp add: bulkCheck_def payloadCheck_verify_def)
  obtain entry sy' where "putObject (sample_json ''k'' (sample_man [7, 8, 9])) (sample_codec (sample_man [7, 8, 9])) stored_flate None sample_pe
      frag_read [[7, 8, 9]] [7, 8, 9] 3 (bulkCheck [7, 8, 9]) no_condition ''b'' ''k'' ''application/octet-stream'' fmempty sample_sys
      = Some (Inr entry, sy')"
    using sample_put_checked [OF _ check, of "''application/octet-stream''"] by auto
  then show ?thesis
    by (simp add: syncFile_def doPlainPutFallback_def calm_start_def discoverZeroS3Sync_def calm_world_def exchange_def
        no_condition_def)
qed

theorem sync_success_means_synced_witness:
  "(\<exists>stats sy' entry. syncFile file_codec (sample_json ''c'' source_man) (sample_codec source_man) stored_flate None sample_pe
      (calm_start (DiscoveryAnswer v1_discovery)) calm_world frag_read [[7]] frag_read [[]] ''b'' ''c'' ''text/plain'' fmempty copy_sys
      = Some (Inr stats, sy')
    \<and> lookupObject ''b'' ''c'' (sy_store sy') = Inr entry \<and> oe_size entry = 1)
   \<and> (\<exists>stats sy' entry. syncFile file_codec (sample_json ''k'' (sample_man [7, 8, 9])) (sample_codec (sample_man [7, 8, 9])) stored_flate None
      sample_pe ((calm_start DiscoveryLost)\<lparr>st_file := Some [7, 8, 9]\<rparr>) calm_world frag_read [[7, 8, 9]] frag_read [[7, 8, 9]]
      ''b'' ''k'' [] fmempty sample_sys = Some (Inr stats, sy')
    \<and> ys_FellBackToPlainPut stats \<and> lookupObject ''b'' ''k'' (sy_store sy') = Inr entry \<and> oe_size entry = 3)"
proof
  let ?S = "calm_start (DiscoveryAnswer v1_discovery)"
  have dd: "discoverZeroS3Sync (st_discovery ?S) = Inr v1_discovery" by (simp add: calm_start_def v1_discovery_ok)
  obtain stats sy' where f: "syncFile file_codec (sample_json ''c'' source_man) (sample_codec source_man) stored_flate None sample_pe
      ?S calm_world frag_read [[7]] frag_read [[]] ''b'' ''c'' ''text/plain'' fmempty copy_sys = Some (Inr stats, sy')"
    using calm_sync by blast
  have u: "utf8_valid ''b''" "utf8_valid ''c''" by (rule utf8_valid_ascii; simp)+
  have d: "delivers frag_read [[7]] [7]" using frag_delivers [of "[[7]]"] by simp
  have fresh: "\<forall>d res sy3. syncPrepare file_codec (sample_codec source_man) calm_world d frag_read [[7]] ''b'' ''c'' copy_sys = Some (res, sy3)
      \<longrightarrow> fmlookup (sy_manifests sy3) (e_uuid (pe_build sample_pe)) = None"
    by (auto dest!: calm_manifests simp: copy_sys_def sample_pe_def sample_env_def)
  have put: "\<forall>e data. discoverZeroS3Sync (st_discovery ?S) = Inl e \<longrightarrow> st_file ?S = Some data
      \<longrightarrow> put_request None {} sample_pe frag_read [[]] data True (int (length data)) (w_other calm_world 0 copy_sys)
        \<and> healthy stored_flate (sy_cas (w_other calm_world 0 copy_sys)) \<and> staged_ok [] (sy_cas (w_other calm_world 0 copy_sys))"
    unfolding dd by simp
  from sync_success_means_synced [OF f d file_codec_ok sample_codec_ok u fresh put, unfolded dd sum.case]
  obtain entry and sy3 :: system where "\<forall>bk k. lookupObject bk k (sy_store sy') = (if (bk, k) = (''b'', ''c'') then Inr entry else lookupObject bk k (sy_store sy3))"
    "oe_size entry = int (length [7 :: byte])" by (elim exE conjE) (rule that, assumption+)
  with f show "\<exists>stats sy' entry. syncFile file_codec (sample_json ''c'' source_man) (sample_codec source_man) stored_flate None sample_pe
      ?S calm_world frag_read [[7]] frag_read [[]] ''b'' ''c'' ''text/plain'' fmempty copy_sys
      = Some (Inr stats, sy') \<and> lookupObject ''b'' ''c'' (sy_store sy') = Inr entry \<and> oe_size entry = 1" by auto
next
  let ?S = "(calm_start DiscoveryLost)\<lparr>st_file := Some [7, 8, 9]\<rparr>" and ?m = "sample_man [7, 8, 9]"
  have dd: "discoverZeroS3Sync (st_discovery ?S) = Inl SyncTransport" "st_file ?S = Some [7, 8, 9]"
    by (simp_all add: calm_start_def discoverZeroS3Sync_def)
  obtain stats sy' where f: "syncFile file_codec (sample_json ''k'' ?m) (sample_codec ?m) stored_flate None sample_pe ?S calm_world
      frag_read [[7, 8, 9]] frag_read [[7, 8, 9]] ''b'' ''k'' [] fmempty sample_sys = Some (Inr stats, sy')"
    using calm_fallback by blast
  have u: "utf8_valid ''b''" "utf8_valid ''k''" by (rule utf8_valid_ascii; simp)+
  have d: "delivers frag_read [[7, 8, 9]] [7, 8, 9]" using frag_delivers [of "[[7, 8, 9]]"] by simp
  have w: "w_other calm_world 0 sample_sys = sample_sys" by (simp add: calm_world_def)
  have fresh: "\<forall>d res sy3. syncPrepare file_codec (sample_codec ?m) calm_world d frag_read [[7, 8, 9]] ''b'' ''k'' sample_sys = Some (res, sy3)
      \<longrightarrow> fmlookup (sy_manifests sy3) (e_uuid (pe_build sample_pe)) = None"
    by (auto dest!: calm_manifests simp: sample_sys_def)
  have put: "\<forall>e data. discoverZeroS3Sync (st_discovery ?S) = Inl e \<longrightarrow> st_file ?S = Some data
      \<longrightarrow> put_request None {} sample_pe frag_read [[7, 8, 9]] data True (int (length data)) (w_other calm_world 0 sample_sys)
        \<and> healthy stored_flate (sy_cas (w_other calm_world 0 sample_sys)) \<and> staged_ok [] (sy_cas (w_other calm_world 0 sample_sys))"
    unfolding w dd using sample_outside [of "[7, 8, 9]"] sample_cas by simp
  from sync_success_means_synced [OF f d file_codec_ok sample_codec_ok u fresh put, unfolded dd sum.case]
  obtain entry where "ys_FellBackToPlainPut stats"
    "\<forall>bk k. lookupObject bk k (sy_store sy') = (if (bk, k) = (''b'', ''k'') then Inr entry else lookupObject bk k (sy_store sample_sys))"
    "oe_size entry = 3" unfolding w put_effect_def by auto
  with f show "\<exists>stats sy' entry. syncFile file_codec (sample_json ''k'' ?m) (sample_codec ?m) stored_flate None sample_pe ?S calm_world
      frag_read [[7, 8, 9]] frag_read [[7, 8, 9]] ''b'' ''k'' [] fmempty sample_sys = Some (Inr stats, sy')
    \<and> ys_FellBackToPlainPut stats \<and> lookupObject ''b'' ''k'' (sy_store sy') = Inr entry \<and> oe_size entry = 3" by auto
qed

end
