(* ===== verification/Snapshots.thy ===== *)
theory Snapshots
  imports Objects
begin

text \<open>
  Durable namespace snapshots (\<^verbatim>\<open>zeros3.go\<close>, section 15h): the descriptor format, the capture of a
  bucket or prefix, publication, and the catalog operations scan, list, read, describe and
  delete. Shown here: what a created snapshot shows to every reader, and that a damaged
  descriptor is never read.
\<close>

section \<open>The descriptor\<close>

record snapshotEntryV1 =
  se_Key :: string
  se_ManifestUUID :: string
  se_ManifestSHA256 :: string
  se_Size :: int
  se_ETag :: string
  se_ContentType :: string

record snapshotDescriptorV1 =
  sd_SnapshotFormatVersion :: int
  sd_SnapshotID :: string
  sd_CreatedAt :: time
  sd_SourceBucket :: string
  sd_SourcePrefix :: string
  sd_Entries :: "snapshotEntryV1 list"

record snap_codec =
  sc_marshal :: "snapshotDescriptorV1 \<Rightarrow> bytes option"
  sc_unmarshal :: "bytes \<Rightarrow> snapshotDescriptorV1 option"

text \<open>As for journal payloads and manifests, JSON replaces invalid UTF-8 and keeps everything else.\<close>

definition coerce_entry :: "snapshotEntryV1 \<Rightarrow> snapshotEntryV1" where
  "coerce_entry e = e\<lparr>se_Key := utf8_coerce (se_Key e), se_ManifestUUID := utf8_coerce (se_ManifestUUID e),
     se_ManifestSHA256 := utf8_coerce (se_ManifestSHA256 e), se_ETag := utf8_coerce (se_ETag e),
     se_ContentType := utf8_coerce (se_ContentType e)\<rparr>"

definition coerce_descriptor :: "snapshotDescriptorV1 \<Rightarrow> snapshotDescriptorV1" where
  "coerce_descriptor d = d\<lparr>sd_SnapshotID := utf8_coerce (sd_SnapshotID d), sd_SourceBucket := utf8_coerce (sd_SourceBucket d),
     sd_SourcePrefix := utf8_coerce (sd_SourcePrefix d), sd_Entries := map coerce_entry (sd_Entries d)\<rparr>"

definition snap_ok :: "snap_codec \<Rightarrow> bool" where
  "snap_ok K \<longleftrightarrow> (\<forall>d b. sc_marshal K d = Some b \<longrightarrow> sc_unmarshal K b = Some (coerce_descriptor d))"

definition snapshotFormatVersion :: u16 where "snapshotFormatVersion = 1"
definition snapshotMagic :: bytes where "snapshotMagic = [0x5A, 0x53, 0x53, 0x31]"
definition snapshotHeaderSize :: nat where "snapshotHeaderSize = 10"
definition maxSnapshotPayload :: nat where "maxSnapshotPayload = 256 * 1024 * 1024"
definition maxSnapshotEntries :: nat where "maxSnapshotEntries = 4000000"

definition lower_hex :: "char \<Rightarrow> bool" where
  "lower_hex c \<longleftrightarrow> CHR ''0'' \<le> c \<and> c \<le> CHR ''9'' \<or> CHR ''a'' \<le> c \<and> c \<le> CHR ''f''"

definition validSnapshotID :: "string \<Rightarrow> bool" where
  "validSnapshotID i \<longleftrightarrow> length i = 36
     \<and> list_all (\<lambda>k. if k \<in> {8, 13, 18, 23} then i ! k = CHR ''-'' else lower_hex (i ! k)) [0..<36]"

datatype snap_error =
    SnapTruncated | SnapBadMagic | SnapBadVersion | SnapPayloadTooLong | SnapLengthMismatch | SnapCrcMismatch
  | SnapJson | SnapBadPayloadVersion | SnapTooManyEntries | SnapEmptyKey nat | SnapUnsortedKey string
  | SnapBadManifestUUID string | SnapBadManifestSHA string | SnapNegativeSize string | SnapIDMismatch
  | InvalidSnapshotID | NoSuchSnapshot | SnapIssues nat | SnapMarshal | SnapIO | SnapStore err | SnapBucketRequired
  | SnapKeyRequired | SnapNoSuchKey | SnapContentUnavailable

definition snapshotFrame :: "bytes \<Rightarrow> bytes" where
  "snapshotFrame payload =
     (let frame = snapshotMagic @ put_be 2 snapshotFormatVersion @ put_be 4 (word_of_nat (length payload) :: u32) @ payload
      in frame @ put_be 4 (crc32c frame))"

definition encodeSnapshotDescriptor :: "snap_codec \<Rightarrow> snapshotDescriptorV1 \<Rightarrow> snap_error + bytes" where
  "encodeSnapshotDescriptor K d =
     (case sc_marshal K d of
        None \<Rightarrow> Inl SnapMarshal
      | Some payload \<Rightarrow> if length payload > maxSnapshotPayload then Inl SnapPayloadTooLong else Inr (snapshotFrame payload))"

text \<open>The loop over the entries; \<open>prev\<close> is the key of the entry before, if there is one.\<close>

fun checkEntries :: "nat \<Rightarrow> string option \<Rightarrow> snapshotEntryV1 list \<Rightarrow> snap_error + unit" where
  "checkEntries i prev [] = Inr ()"
| "checkEntries i prev (e # es) =
     (if se_Key e = [] then Inl (SnapEmptyKey i)
      else if (case prev of None \<Rightarrow> False | Some k \<Rightarrow> se_Key e \<le> k) then Inl (SnapUnsortedKey (se_Key e))
      else if \<not> validSnapshotID (se_ManifestUUID e) then Inl (SnapBadManifestUUID (se_Key e))
      else if decodeHexSHA256 (se_ManifestSHA256 e) = None then Inl (SnapBadManifestSHA (se_Key e))
      else if se_Size e < 0 then Inl (SnapNegativeSize (se_Key e))
      else checkEntries (Suc i) (Some (se_Key e)) es)"

definition checkDescriptor :: "snapshotDescriptorV1 \<Rightarrow> snap_error + snapshotDescriptorV1" where
  "checkDescriptor d =
     (if sd_SnapshotFormatVersion d \<noteq> uint snapshotFormatVersion then Inl SnapBadPayloadVersion
      else if \<not> validSnapshotID (sd_SnapshotID d) then Inl InvalidSnapshotID
      else if length (sd_Entries d) > maxSnapshotEntries then Inl SnapTooManyEntries
      else bind_result (checkEntries 0 None (sd_Entries d)) (\<lambda>_. Inr d))"

definition decodeSnapshotDescriptor :: "snap_codec \<Rightarrow> bytes \<Rightarrow> snap_error + snapshotDescriptorV1" where
  "decodeSnapshotDescriptor K data =
     (if length data < snapshotHeaderSize + 4 then Inl SnapTruncated
      else if take 4 data \<noteq> snapshotMagic then Inl SnapBadMagic
      else if (get_be (take 2 (drop 4 data)) :: u16) \<noteq> snapshotFormatVersion then Inl SnapBadVersion
      else
        let n = unat (get_be (take 4 (drop 6 data)) :: u32) in
        if n > maxSnapshotPayload then Inl SnapPayloadTooLong
        else if length data \<noteq> snapshotHeaderSize + n + 4 then Inl SnapLengthMismatch
        else
          let payload = take n (drop snapshotHeaderSize data);
              wantCRC = (get_be (drop (snapshotHeaderSize + n) data) :: u32) in
          if crc32c (take (snapshotHeaderSize + n) data) \<noteq> wantCRC then Inl SnapCrcMismatch
          else case sc_unmarshal K payload of None \<Rightarrow> Inl SnapJson | Some d \<Rightarrow> checkDescriptor d)"

section \<open>Capture and publication\<close>

definition captureSnapshotEntries :: "string \<Rightarrow> string \<Rightarrow> store \<Rightarrow> err + snapshotEntryV1 list" where
  "captureSnapshotEntries bucket pre s =
     (let listPrefix = (if pre \<noteq> [] then pre @ ''/'' else []) in
      case fmlookup (ns_buckets (s_ns s)) bucket of
        None \<Rightarrow> Inl ErrNoSuchBucket
      | Some b \<Rightarrow>
          Inr (map (\<lambda>k. let e = the (fmlookup (be_objects b) k) in
                 \<lparr>se_Key = k, se_ManifestUUID = oe_manifestUUID e, se_ManifestSHA256 = hex_encode (digest_bytes (oe_manifestSHA256 e)),
                  se_Size = oe_size e, se_ETag = oe_etag e, se_ContentType = oe_contentType e\<rparr>)
               (filter (\<lambda>k. has_prefix k listPrefix) (sorted_keys (be_objects b)))))"

text \<open>The catalog is the directory \<^verbatim>\<open>store/snapshots\<close>: files, or anything else, by name.\<close>

datatype dirent = DirFile bytes | DirSub

type_synonym catalog = "(string, dirent) fmap"

definition snapshotPath :: "string \<Rightarrow> string" where
  "snapshotPath i = i @ ''.snap''"

datatype snap_io = SnapWriteFails | SnapDirSyncFails | SnapWriteOk

definition publishSnapshotFrame :: "snap_io \<Rightarrow> string \<Rightarrow> bytes \<Rightarrow> catalog \<Rightarrow> (snap_error + unit) \<times> catalog" where
  "publishSnapshotFrame io i data files =
     (case writeFileDurable (io = SnapWriteFails) (snapshotPath i) (DirFile data) files of
        (Inl _, files1) \<Rightarrow> (Inl SnapIO, files1)
      | (Inr _, files1) \<Rightarrow> (if io = SnapDirSyncFails then Inl SnapIO else Inr (), files1))"

definition publishSnapshot :: "snap_codec \<Rightarrow> snap_io \<Rightarrow> snapshotDescriptorV1 \<Rightarrow> catalog \<Rightarrow> (snap_error + unit) \<times> catalog" where
  "publishSnapshot K io d files =
     (case encodeSnapshotDescriptor K d of
        Inl e \<Rightarrow> (Inl e, files)
      | Inr data \<Rightarrow> publishSnapshotFrame io (sd_SnapshotID d) data files)"

record snapshotSummary =
  ss_SnapshotID :: string
  ss_CreatedAt :: time
  ss_SourceBucket :: string
  ss_SourcePrefix :: string
  ss_ObjectCount :: nat
  ss_LogicalBytes :: int

definition summarizeSnapshot :: "snapshotDescriptorV1 \<Rightarrow> snapshotSummary" where
  "summarizeSnapshot d =
     \<lparr>ss_SnapshotID = sd_SnapshotID d, ss_CreatedAt = sd_CreatedAt d, ss_SourceBucket = sd_SourceBucket d,
      ss_SourcePrefix = sd_SourcePrefix d, ss_ObjectCount = length (sd_Entries d),
      ss_LogicalBytes = foldl (\<lambda>n e. n + se_Size e) 0 (sd_Entries d)\<rparr>"

definition handleSnapshotCreate ::
  "snap_codec \<Rightarrow> snap_io \<Rightarrow> env \<Rightarrow> string \<Rightarrow> string \<Rightarrow> store \<Rightarrow> catalog \<Rightarrow> (snap_error + snapshotSummary) \<times> catalog" where
  "handleSnapshotCreate K io ev bucket pre0 s files =
     (if bucket = [] then (Inl SnapBucketRequired, files)
      else
        let pre = str_trim ''/'' pre0 in
        case captureSnapshotEntries bucket pre s of
          Inl e \<Rightarrow> (Inl (SnapStore e), files)
        | Inr entries \<Rightarrow>
            let desc = \<lparr>sd_SnapshotFormatVersion = uint snapshotFormatVersion, sd_SnapshotID = e_uuid ev, sd_CreatedAt = e_now ev,
                        sd_SourceBucket = bucket, sd_SourcePrefix = pre, sd_Entries = entries\<rparr> in
            (case publishSnapshot K io desc files of
               (Inl e, files1) \<Rightarrow> (Inl e, files1)
             | (Inr _, files1) \<Rightarrow> (Inr (summarizeSnapshot desc), files1)))"

section \<open>The catalog\<close>

text \<open>Integrity problems as \<^verbatim>\<open>verify\<close> and the reachability scan report them; the detail text is left out.\<close>

datatype issue_kind = IssueMissing | IssueCorrupt | IssueInvalid

record VerifyIssue =
  vi_Kind :: issue_kind
  vi_Subject :: string

definition has_suffix :: "string \<Rightarrow> string \<Rightarrow> bool" where
  "has_suffix s t \<longleftrightarrow> has_prefix (rev s) (rev t)"

definition trim_suffix :: "string \<Rightarrow> string \<Rightarrow> string" where
  "trim_suffix s t = (if has_suffix s t then take (length s - length t) s else s)"

definition scanSnapshot :: "snap_codec \<Rightarrow> (string \<Rightarrow> bool) \<Rightarrow> string \<Rightarrow> dirent \<Rightarrow> VerifyIssue + snapshotDescriptorV1" where
  "scanSnapshot K fails name ent =
     (case ent of
        DirSub \<Rightarrow> Inl \<lparr>vi_Kind = IssueInvalid, vi_Subject = ''snapshots/'' @ name\<rparr>
      | DirFile data \<Rightarrow>
          let i = trim_suffix name ''.snap'' in
          if \<not> has_suffix name ''.snap'' \<or> \<not> validSnapshotID i then Inl \<lparr>vi_Kind = IssueInvalid, vi_Subject = ''snapshots/'' @ name\<rparr>
          else if fails name then Inl \<lparr>vi_Kind = IssueMissing, vi_Subject = ''snapshot:'' @ i\<rparr>
          else (case decodeSnapshotDescriptor K data of
              Inl _ \<Rightarrow> Inl \<lparr>vi_Kind = IssueCorrupt, vi_Subject = ''snapshot:'' @ i\<rparr>
            | Inr d \<Rightarrow> if sd_SnapshotID d \<noteq> i then Inl \<lparr>vi_Kind = IssueCorrupt, vi_Subject = ''snapshot:'' @ i\<rparr> else Inr d))"

definition scanResults :: "snap_codec \<Rightarrow> (string \<Rightarrow> bool) \<Rightarrow> catalog \<Rightarrow> (VerifyIssue + snapshotDescriptorV1) list" where
  "scanResults K fails files = map (\<lambda>name. scanSnapshot K fails name (the (fmlookup files name))) (sorted_keys files)"

text \<open>\<^verbatim>\<open>rdir\<close>: reading the directory fails.\<close>

definition scanSnapshots ::
  "snap_codec \<Rightarrow> bool \<Rightarrow> (string \<Rightarrow> bool) \<Rightarrow> catalog \<Rightarrow> snapshotDescriptorV1 list \<times> VerifyIssue list" where
  "scanSnapshots K rdir fails files =
     (if rdir then ([], [\<lparr>vi_Kind = IssueInvalid, vi_Subject = ''snapshots/''\<rparr>])
      else let rs = scanResults K fails files in
        (sort_key sd_SnapshotID (List.map_filter (\<lambda>r. case r of Inr d \<Rightarrow> Some d | Inl _ \<Rightarrow> None) rs),
         List.map_filter (\<lambda>r. case r of Inl i \<Rightarrow> Some i | Inr _ \<Rightarrow> None) rs))"

definition listSnapshots :: "snap_codec \<Rightarrow> bool \<Rightarrow> (string \<Rightarrow> bool) \<Rightarrow> catalog \<Rightarrow> snap_error + snapshotDescriptorV1 list" where
  "listSnapshots K rdir fails files =
     (case scanSnapshots K rdir fails files of (valid, issues) \<Rightarrow>
        if issues \<noteq> [] then Inl (SnapIssues (length issues)) else Inr valid)"

definition readSnapshotFrame :: "snap_codec \<Rightarrow> (string \<Rightarrow> bool) \<Rightarrow> string \<Rightarrow> catalog \<Rightarrow> snap_error + snapshotDescriptorV1 \<times> bytes" where
  "readSnapshotFrame K fails i files =
     (if \<not> validSnapshotID i then Inl InvalidSnapshotID
      else if fails (snapshotPath i) then Inl SnapIO
      else case fmlookup files (snapshotPath i) of
        None \<Rightarrow> Inl NoSuchSnapshot
      | Some DirSub \<Rightarrow> Inl SnapIO
      | Some (DirFile data) \<Rightarrow>
          bind_result (decodeSnapshotDescriptor K data) (\<lambda>d.
            if sd_SnapshotID d \<noteq> i then Inl SnapIDMismatch else Inr (d, data)))"

definition readSnapshot :: "snap_codec \<Rightarrow> (string \<Rightarrow> bool) \<Rightarrow> string \<Rightarrow> catalog \<Rightarrow> snap_error + snapshotDescriptorV1" where
  "readSnapshot K fails i files = bind_result (readSnapshotFrame K fails i files) (\<lambda>(d, _). Inr d)"

datatype unlink_io = UnlinkStatFails | UnlinkFails | UnlinkSyncFails | UnlinkOk

definition deleteSnapshot :: "unlink_io \<Rightarrow> string \<Rightarrow> catalog \<Rightarrow> (snap_error + unit) \<times> catalog" where
  "deleteSnapshot io i files =
     (if \<not> validSnapshotID i then (Inl InvalidSnapshotID, files)
      else if io = UnlinkStatFails then (Inl SnapIO, files)
      else if fmlookup files (snapshotPath i) = None then (Inl NoSuchSnapshot, files)
      else if io = UnlinkFails then (Inl SnapIO, files)
      else let files1 = fmdrop (snapshotPath i) files in
        if io = UnlinkSyncFails then (Inl SnapIO, files1) else (Inr (), files1))"

text \<open>\<^verbatim>\<open>sort.Search\<close>, the binary search of the standard library.\<close>

function sort_search :: "(nat \<Rightarrow> bool) \<Rightarrow> nat \<Rightarrow> nat \<Rightarrow> nat" where
  "sort_search p i j =
     (if i < j then (let h = (i + j) div 2 in if \<not> p h then sort_search p (h + 1) j else sort_search p i h) else i)"
  by pat_completeness auto
termination
  by (relation "measure (\<lambda>(p, i, j). j - i)") auto

declare sort_search.simps [simp del]

text \<open>\<^verbatim>\<open>handleSnapshotDescribeObject\<close>: the manifest a snapshot captured for a key.\<close>

definition describeSnapshotObject ::
  "snap_codec \<Rightarrow> man_codec \<Rightarrow> (string \<Rightarrow> bool) \<Rightarrow> (string \<Rightarrow> bool) \<Rightarrow> string \<Rightarrow> string \<Rightarrow> system \<Rightarrow> catalog \<Rightarrow> snap_error + manifestV1" where
  "describeSnapshotObject K M sfails mfails i key sy files =
     (if key = [] then Inl SnapKeyRequired
      else bind_result (readSnapshot K sfails i files) (\<lambda>d.
        let es = sd_Entries d; n = sort_search (\<lambda>k. se_Key (es ! k) \<ge> key) 0 (length es) in
        if n \<ge> length es \<or> se_Key (es ! n) \<noteq> key then Inl SnapNoSuchKey
        else case decodeHexSHA256 (se_ManifestSHA256 (es ! n)) of
          None \<Rightarrow> Inl (SnapBadManifestSHA key)
        | Some dg \<Rightarrow>
            (case readVerifiedManifest M mfails (se_ManifestUUID (es ! n)) dg sy of
               Inl _ \<Rightarrow> Inl SnapContentUnavailable
             | Inr man \<Rightarrow> Inr man)))"


section \<open>A frame reads back, a damaged one never does\<close>

lemma frame_parts:
  assumes "length p \<le> maxSnapshotPayload"
  shows "decodeSnapshotDescriptor K (snapshotFrame p) = (case sc_unmarshal K p of None \<Rightarrow> Inl SnapJson | Some d \<Rightarrow> checkDescriptor d)"
proof -
  define h where "h = snapshotMagic @ put_be 2 snapshotFormatVersion @ put_be 4 (word_of_nat (length p) :: u32)"
  have n: "unat (word_of_nat (length p) :: u32) = length p"
    using assms by (simp add: maxSnapshotPayload_def unat_of_nat take_bit_nat_eq_self)
  have m: "length snapshotMagic = 4" by (simp add: snapshotMagic_def)
  have h: "length h = 10" by (simp add: h_def m)
  have f: "snapshotFrame p = h @ p @ put_be 4 (crc32c (h @ p))" by (simp add: snapshotFrame_def Let_def h_def)
  have "take 4 h = snapshotMagic" "take 2 (drop 4 h) = put_be 2 snapshotFormatVersion"
    "take 4 (drop 6 h) = put_be 4 (word_of_nat (length p) :: u32)"
    by (simp_all add: h_def m)
  then have "take 4 (snapshotFrame p) = snapshotMagic" "take 2 (drop 4 (snapshotFrame p)) = put_be 2 snapshotFormatVersion"
    "take 4 (drop 6 (snapshotFrame p)) = put_be 4 (word_of_nat (length p) :: u32)"
    by (simp_all add: f h)
  moreover have "drop 10 (snapshotFrame p) = p @ put_be 4 (crc32c (h @ p))" "take (10 + length p) (snapshotFrame p) = h @ p"
    "drop (10 + length p) (snapshotFrame p) = put_be 4 (crc32c (h @ p))"
    by (simp_all add: f h)
  moreover have "length (snapshotFrame p) = 14 + length p" by (simp add: f h)
  ultimately show ?thesis
    using assms n by (simp add: decodeSnapshotDescriptor_def snapshotHeaderSize_def Let_def)
qed

text \<open>What an accepted file looks like: each refused branch is passed.\<close>

lemma if_Inl_D: "(if c then Inl e else r) = Inr d \<Longrightarrow> \<not> c \<and> r = Inr d"
  by (cases c) simp_all

lemma decode_shape:
  assumes "decodeSnapshotDescriptor K data = Inr d" and n: "n = unat (get_be (take 4 (drop 6 data)) :: u32)"
  shows "length data = 14 + n" "take 4 data = snapshotMagic" "crc32c (take (10 + n) data) = (get_be (drop (10 + n) data) :: u32)"
proof -
  note c1 = if_Inl_D [OF assms(1) [unfolded decodeSnapshotDescriptor_def snapshotHeaderSize_def Let_def, folded n]]
  note c2 = if_Inl_D [OF conjunct2 [OF c1]]
  note c3 = if_Inl_D [OF conjunct2 [OF c2]]
  note c4 = if_Inl_D [OF conjunct2 [OF c3]]
  note c5 = if_Inl_D [OF conjunct2 [OF c4]]
  note c6 = if_Inl_D [OF conjunct2 [OF c5]]
  show "length data = 14 + n" "take 4 data = snapshotMagic" "crc32c (take (10 + n) data) = (get_be (drop (10 + n) data) :: u32)"
    using conjunct1 [OF c2] conjunct1 [OF c5] conjunct1 [OF c6] by simp_all
qed

lemma decode_crc:
  assumes "decodeSnapshotDescriptor K data = Inr d"
  shows "14 \<le> length data" "crc32c (take (length data - 4) data) = (get_be (drop (length data - 4) data) :: u32)"
proof -
  define n where "n = unat (get_be (take 4 (drop 6 data)) :: u32)"
  note S = decode_shape [OF assms n_def]
  from S(1) show "14 \<le> length data" by linarith
  from S(1) have "length data - 4 = 10 + n" by linarith
  then show "crc32c (take (length data - 4) data) = (get_be (drop (length data - 4) data) :: u32)" using S(3) by simp
qed

lemma decode_damaged:
  assumes "decodeSnapshotDescriptor K data = Inr d" "i < length data" "c \<noteq> data ! i"
  shows "decodeSnapshotDescriptor K (data[i := c]) \<noteq> Inr d'"
proof
  assume bad: "decodeSnapshotDescriptor K (data[i := c]) = Inr d'"
  define n where "n = length data - 4"
  note A = decode_crc [OF assms(1), folded n_def] and B = decode_crc(2) [OF bad, unfolded length_list_update, folded n_def]
  have n: "n \<le> length data" "length data - n = 4" using A(1) by (simp_all add: n_def)
  show False
  proof (cases "i < n")
    case True
    have "crc32c ((take n data)[i := c]) \<noteq> crc32c (take n data)"
      using True n assms(3) by (intro crc32c_update) simp_all
    then show False using A(2) B True by (simp add: take_update_swap)
  next
    case False
    then have "(get_be ((drop n data)[i - n := c]) :: u32) = get_be (drop n data)"
      using A(2) B by (simp add: drop_update_swap)
    then have "(drop n data)[i - n := c] = drop n data" using n by (intro get_be32_inj) simp_all
    then have "(drop n data)[i - n := c] ! (i - n) = drop n data ! (i - n)" by simp
    then show False using False assms(2,3) n by simp
  qed
qed

section \<open>What a snapshot shows\<close>

text \<open>The keys of a well-formed bucket are what a snapshot can hold.\<close>

definition capturable :: "string \<Rightarrow> store \<Rightarrow> bool" where
  "capturable bucket s \<longleftrightarrow> (\<forall>b. fmlookup (ns_buckets (s_ns s)) bucket = Some b \<longrightarrow>
     fcard (fmdom (be_objects b)) \<le> maxSnapshotEntries
     \<and> (\<forall>k e. fmlookup (be_objects b) k = Some e \<longrightarrow> k \<noteq> [] \<and> utf8_valid k \<and> validSnapshotID (oe_manifestUUID e)
          \<and> 0 \<le> oe_size e \<and> entry_utf8 e))"

definition entry_of :: "string \<Rightarrow> objectEntry \<Rightarrow> snapshotEntryV1" where
  "entry_of k e = \<lparr>se_Key = k, se_ManifestUUID = oe_manifestUUID e, se_ManifestSHA256 = hex_encode (digest_bytes (oe_manifestSHA256 e)),
     se_Size = oe_size e, se_ETag = oe_etag e, se_ContentType = oe_contentType e\<rparr>"

definition under :: "string \<Rightarrow> string \<Rightarrow> bool" where
  "under pre k \<longleftrightarrow> pre = [] \<or> has_prefix k (pre @ ''/'')"

lemma capture_entries:
  assumes "captureSnapshotEntries bucket pre s = Inr es"
  obtains b where "fmlookup (ns_buckets (s_ns s)) bucket = Some b"
    and "es = map (\<lambda>k. entry_of k (the (fmlookup (be_objects b) k))) (filter (under pre) (sorted_keys (be_objects b)))"
proof -
  have "has_prefix k (if pre \<noteq> [] then pre @ ''/'' else []) = under pre k" for k
    by (simp add: under_def has_prefix_def)
  then show thesis using assms that
    by (auto simp: captureSnapshotEntries_def Let_def entry_of_def split: option.splits)
qed

lemma checkEntries_ok:
  assumes "sorted_wrt (<) (map se_Key es)" "\<forall>k. prev = Some k \<longrightarrow> (\<forall>e \<in> set es. k < se_Key e)"
    and "\<forall>e \<in> set es. se_Key e \<noteq> [] \<and> validSnapshotID (se_ManifestUUID e) \<and> decodeHexSHA256 (se_ManifestSHA256 e) \<noteq> None \<and> 0 \<le> se_Size e"
  shows "checkEntries i prev es = Inr ()"
  using assms by (induction i prev es rule: checkEntries.induct) (auto split: option.splits)

lemma sorted_keys_strict: "sorted_wrt (<) (sorted_keys m)"
  using sorted_sorted_keys distinct_sorted_keys by (simp add: strict_sorted_iff)

lemma checkDescriptor_capture:
  assumes "captureSnapshotEntries bucket pre s = Inr es" "capturable bucket s"
    and "sd_SnapshotFormatVersion d = uint snapshotFormatVersion" "validSnapshotID (sd_SnapshotID d)" "sd_Entries d = es"
  shows "checkDescriptor d = Inr d" "map coerce_entry es = es" "sorted_wrt (<) (map se_Key es)"
proof -
  obtain b where b: "fmlookup (ns_buckets (s_ns s)) bucket = Some b"
    and es: "es = map (\<lambda>k. entry_of k (the (fmlookup (be_objects b) k))) (filter (under pre) (sorted_keys (be_objects b)))"
    by (rule capture_entries [OF assms(1)])
  have ok: "se_Key x \<noteq> [] \<and> validSnapshotID (se_ManifestUUID x) \<and> decodeHexSHA256 (se_ManifestSHA256 x) \<noteq> None \<and> 0 \<le> se_Size x
      \<and> coerce_entry x = x" if "x \<in> set es" for x
  proof -
    obtain k e where "fmlookup (be_objects b) k = Some e" "x = entry_of k e"
      using \<open>x \<in> set es\<close> by (auto simp: es fmlookup_dom_iff)
    then show ?thesis using assms(2) b
      by (auto simp: capturable_def entry_of_def coerce_entry_def entry_utf8_def utf8_valid_def utf8_valid_hex [unfolded utf8_valid_def])
  qed
  show s: "sorted_wrt (<) (map se_Key es)"
    unfolding es by (simp add: entry_of_def o_def sorted_wrt_filter sorted_keys_strict)
  have "length es \<le> fcard (fmdom (be_objects b))"
    unfolding es by (simp add: sorted_keys_def fcard.rep_eq sorted_list_of_fset.rep_eq)
       (metis length_filter_le length_sorted_list_of_set)
  then have "length es \<le> maxSnapshotEntries" using assms(2) b by (fastforce simp: capturable_def)
  moreover have "checkEntries 0 None es = Inr ()" using ok by (intro checkEntries_ok s) auto
  ultimately show "checkDescriptor d = Inr d" using assms(3-5) by (simp add: checkDescriptor_def)
  show "map coerce_entry es = es" using ok by (intro map_idI) blast
qed

lemma sort_search_spec:
  assumes "i \<le> j" "\<And>a b. a \<le> b \<Longrightarrow> b < j \<Longrightarrow> p a \<Longrightarrow> p b"
  shows "i \<le> sort_search p i j \<and> sort_search p i j \<le> j \<and> (\<forall>k. i \<le> k \<longrightarrow> k < sort_search p i j \<longrightarrow> \<not> p k)
    \<and> (sort_search p i j < j \<longrightarrow> p (sort_search p i j))"
  using assms
proof (induction p i j rule: sort_search.induct)
  case (1 p i j)
  let ?h = "(i + j) div 2"
  show ?case
  proof (cases "i < j")
    case False
    then have "sort_search p i j = i" "i = j" using "1.prems"(1) by (simp_all add: sort_search.simps)
    then show ?thesis by auto
  next
    case lt: True
    then have h: "i \<le> ?h" "?h < j" by linarith+
    show ?thesis
    proof (cases "p ?h")
      case True
      have m: "\<And>a b. a \<le> b \<Longrightarrow> b < ?h \<Longrightarrow> p a \<Longrightarrow> p b" using "1.prems"(2) h by (meson less_trans)
      have r: "sort_search p i j = sort_search p i ?h" using True lt by (subst sort_search.simps) (simp add: Let_def)
      have I: "i \<le> sort_search p i ?h \<and> sort_search p i ?h \<le> ?h \<and> (\<forall>k. i \<le> k \<longrightarrow> k < sort_search p i ?h \<longrightarrow> \<not> p k)
          \<and> (sort_search p i ?h < ?h \<longrightarrow> p (sort_search p i ?h))"
      proof (rule "1.IH"(2) [OF lt refl _ h(1)])
        show "\<not> \<not> p ?h" using True by simp
      qed (rule m)
      then have "p (sort_search p i ?h)" using True by (cases "sort_search p i ?h = ?h") auto
      with I h show ?thesis unfolding r by auto
    next
      case False
      have r: "sort_search p i j = sort_search p (?h + 1) j" using False lt by (subst sort_search.simps) (simp add: Let_def)
      have le: "?h + 1 \<le> j" using h by simp
      have low: "\<not> p k" if "k \<le> ?h" for k using False "1.prems"(2) [OF that h(2)] by blast
      have I: "?h + 1 \<le> sort_search p (?h + 1) j \<and> sort_search p (?h + 1) j \<le> j
          \<and> (\<forall>k. ?h + 1 \<le> k \<longrightarrow> k < sort_search p (?h + 1) j \<longrightarrow> \<not> p k)
          \<and> (sort_search p (?h + 1) j < j \<longrightarrow> p (sort_search p (?h + 1) j))"
        by (rule "1.IH"(1) [OF lt refl False le "1.prems"(2)])
      have "\<not> p k" if "k < sort_search p (?h + 1) j" for k
        using I low [of k] that by (cases "k \<le> ?h") auto
      with I h show ?thesis unfolding r by auto
    qed
  qed
qed

lemma lower_hex_ascii: "c = CHR ''-'' \<or> lower_hex c \<Longrightarrow> of_char c < (128 :: nat)"
  by (auto simp: lower_hex_def less_eq_char_def)

lemma validSnapshotID_utf8:
  assumes "validSnapshotID i"
  shows "utf8_coerce i = i"
proof -
  have "of_char (i ! k) < (128 :: nat)" if "k < 36" for k
  proof (rule lower_hex_ascii)
    have "k \<in> set [0..<36]" using that by (simp del: upt_rec_numeral)
    then have "if k \<in> {8, 13, 18, 23} then i ! k = CHR ''-'' else lower_hex (i ! k)"
      using assms unfolding validSnapshotID_def list_all_iff by blast
    then show "i ! k = CHR ''-'' \<or> lower_hex (i ! k)" by presburger
  qed
  then have "list_all (\<lambda>c. of_char c < (128 :: nat)) i"
    using assms unfolding validSnapshotID_def by (simp add: list_all_length del: upt_rec_numeral)
  then show ?thesis using utf8_valid_ascii [of i] by (simp add: utf8_valid_def)
qed

lemma describe_entry:
  assumes "readSnapshot K sf i files = Inr d" "sorted_wrt (<) (map se_Key (sd_Entries d))" "key \<noteq> []"
  shows "describeSnapshotObject K M sf mf i key sy files =
    (case find (\<lambda>e. se_Key e = key) (sd_Entries d) of
       None \<Rightarrow> Inl SnapNoSuchKey
     | Some e \<Rightarrow> (case decodeHexSHA256 (se_ManifestSHA256 e) of None \<Rightarrow> Inl (SnapBadManifestSHA key)
         | Some dg \<Rightarrow> (case readVerifiedManifest M mf (se_ManifestUUID e) dg sy of Inl _ \<Rightarrow> Inl SnapContentUnavailable | Inr man \<Rightarrow> Inr man)))"
proof -
  let ?es = "sd_Entries d"
  let ?p = "\<lambda>k. se_Key (?es ! k) \<ge> key"
  define n where "n = sort_search ?p 0 (length ?es)"
  have mono: "se_Key (?es ! a) < se_Key (?es ! b)" if "a < b" "b < length ?es" for a b
    using assms(2) that by (auto simp: sorted_wrt_iff_nth_less)
  have pm: "?p a \<Longrightarrow> ?p b" if "a \<le> b" "b < length ?es" for a b
    using mono [of a b] that by (cases "a = b") auto
  have "0 \<le> n \<and> n \<le> length ?es \<and> (\<forall>k. 0 \<le> k \<longrightarrow> k < n \<longrightarrow> \<not> ?p k) \<and> (n < length ?es \<longrightarrow> ?p n)"
    unfolding n_def by (rule sort_search_spec) (simp, rule pm)
  then have S: "n \<le> length ?es" "\<And>k. k < n \<Longrightarrow> \<not> ?p k" "n < length ?es \<Longrightarrow> ?p n" by simp_all
  have f: "find (\<lambda>e. se_Key e = key) ?es = (if n < length ?es \<and> se_Key (?es ! n) = key then Some (?es ! n) else None)"
  proof (cases "n < length ?es \<and> se_Key (?es ! n) = key")
    case True
    have "\<not> (\<exists>j < n. se_Key (?es ! j) = key)" using S(2) by auto
    then show ?thesis using True by (auto simp: find_Some_iff)
  next
    case False
    have "se_Key (?es ! k) \<noteq> key" if "k < length ?es" for k
    proof
      assume k: "se_Key (?es ! k) = key"
      then have "n \<le> k" using S(2) [of k] by (meson eq_refl not_le)
      then have "n < k" using False k \<open>k < length ?es\<close> by (metis le_neq_implies_less)
      then show False using S(3) mono [of n k] k \<open>k < length ?es\<close> by auto
    qed
    then show ?thesis using False by (auto simp: find_None_iff in_set_conv_nth)
  qed
  show ?thesis
    using assms(1,3) S(1) unfolding describeSnapshotObject_def
    by (auto simp: Let_def f n_def [symmetric] split: option.splits)
qed


lemma find_entry_of:
  assumes "distinct ks"
  shows "find (\<lambda>e. se_Key e = key) (map (\<lambda>k. entry_of k (f k)) ks) = (if key \<in> set ks then Some (entry_of key (f key)) else None)"
  using assms by (induction ks) (auto simp: entry_of_def)

lemma foldl_sum_list: "foldl (\<lambda>n x. n + f x) z xs = z + (\<Sum>x \<leftarrow> xs. f x :: int)"
  by (induction xs arbitrary: z) simp_all

text \<open>What a creation leaves in the catalog, on every outcome.\<close>

definition descriptor_of :: "env \<Rightarrow> string \<Rightarrow> string \<Rightarrow> snapshotEntryV1 list \<Rightarrow> snapshotDescriptorV1" where
  "descriptor_of ev bucket pre es =
     \<lparr>sd_SnapshotFormatVersion = uint snapshotFormatVersion, sd_SnapshotID = e_uuid ev, sd_CreatedAt = e_now ev,
      sd_SourceBucket = bucket, sd_SourcePrefix = pre, sd_Entries = es\<rparr>"

lemma create_written:
  assumes "snap_ok K" "capturable bucket s" "validSnapshotID (e_uuid ev)"
    and "captureSnapshotEntries bucket pre s = Inr es" "publishSnapshot K io (descriptor_of ev bucket pre es) files = (r, files')"
  shows "files' = files \<and> r \<noteq> Inr () \<or> (\<exists>d. readSnapshot K (\<lambda>_. False) (e_uuid ev) files' = Inr d \<and> sd_Entries d = es
      \<and> (\<forall>name. name \<noteq> snapshotPath (e_uuid ev) \<longrightarrow> fmlookup files' name = fmlookup files name))"
proof (cases "encodeSnapshotDescriptor K (descriptor_of ev bucket pre es)")
  case (Inl e)
  then show ?thesis using assms(5) by (auto simp: publishSnapshot_def)
next
  case (Inr data)
  let ?d = "descriptor_of ev bucket pre es" and ?i = "e_uuid ev"
  obtain p where p: "sc_marshal K ?d = Some p" "length p \<le> maxSnapshotPayload" "data = snapshotFrame p"
    using Inr by (auto simp: encodeSnapshotDescriptor_def split: option.splits if_splits)
  have "map coerce_entry es = es"
    by (rule checkDescriptor_capture(2) [OF assms(4,2), of ?d]) (simp_all add: descriptor_of_def assms(3))
  then have cd: "sd_Entries (coerce_descriptor ?d) = es" "sd_SnapshotID (coerce_descriptor ?d) = ?i"
    using validSnapshotID_utf8 [OF assms(3)] by (simp_all add: coerce_descriptor_def descriptor_of_def)
  have c: "checkDescriptor (coerce_descriptor ?d) = Inr (coerce_descriptor ?d)"
    by (rule checkDescriptor_capture(1) [OF assms(4,2)]) (simp_all add: cd assms(3), simp add: coerce_descriptor_def descriptor_of_def)
  have dec: "decodeSnapshotDescriptor K data = Inr (coerce_descriptor ?d)"
    using assms(1) p c by (simp add: frame_parts snap_ok_def)
  have id: "sd_SnapshotID ?d = ?i" by (simp add: descriptor_of_def)
  show ?thesis
  proof (cases "io = SnapWriteFails")
    case True
    then show ?thesis using assms(5) Inr by (auto simp: publishSnapshot_def publishSnapshotFrame_def writeFileDurable_def)
  next
    case False
    then have f: "files' = fmupd (snapshotPath ?i) (DirFile data) files"
      using assms(5) Inr by (simp add: publishSnapshot_def publishSnapshotFrame_def writeFileDurable_def id)
    have "readSnapshot K (\<lambda>_. False) ?i files' = Inr (coerce_descriptor ?d)"
      using assms(3) dec cd(2) by (simp add: f readSnapshot_def readSnapshotFrame_def)
    with cd(1) f show ?thesis by auto
  qed
qed

section \<open>Properties\<close>

text \<open>
  C25: A snapshot of a capturable bucket is a frozen view. A bucket is \<open>capturable\<close> when it has at
  most \<open>maxSnapshotEntries\<close> (4,000,000) keys, every key is non-empty and valid UTF-8, and every entry has a canonical
  manifest UUID, a size that is not negative and valid UTF-8 strings; the server does not check this when it
  creates a snapshot, and \<open>snapshot_with_merging_keys_is_unreadable\<close> shows what happens to keys that are not
  valid UTF-8. Then, if creating a snapshot of the bucket or of a prefix of it reports success, its descriptor
  reads back, its summary counts the captured objects and their bytes, and from then on, whatever
  happens to the namespace, describing a key in it yields the manifest that was current when it
  was taken, re-read and verified, for exactly the keys under the prefix at that moment. No other
  catalog file changes; a failed creation leaves the catalog as it was or with one complete
  descriptor.
\<close>

theorem snapshot_is_a_frozen_view:
  assumes "snap_ok K" and "capturable bucket s" and "validSnapshotID (e_uuid ev)"
    and "handleSnapshotCreate K io ev bucket pre0 s files = (r, files')"
  defines "pre \<equiv> str_trim ''/'' pre0"
  shows "(\<forall>name. name \<noteq> snapshotPath (e_uuid ev) \<longrightarrow> fmlookup files' name = fmlookup files name)
    \<and> (\<forall>e. r = Inl e \<longrightarrow> files' = files \<or> (\<exists>d. readSnapshot K (\<lambda>_. False) (e_uuid ev) files' = Inr d))
    \<and> (\<forall>sm. r = Inr sm \<longrightarrow> (\<exists>d b ks. readSnapshot K (\<lambda>_. False) (e_uuid ev) files' = Inr d
        \<and> fmlookup (ns_buckets (s_ns s)) bucket = Some b \<and> set ks = {k. under pre k \<and> fmlookup (be_objects b) k \<noteq> None} \<and> distinct ks
        \<and> ss_ObjectCount sm = length ks \<and> ss_LogicalBytes sm = (\<Sum>k \<leftarrow> ks. oe_size (the (fmlookup (be_objects b) k)))
        \<and> (\<forall>M mf sy key. key \<noteq> [] \<longrightarrow> describeSnapshotObject K M (\<lambda>_. False) mf (e_uuid ev) key sy files' =
             (if key \<notin> set ks then Inl SnapNoSuchKey
              else let e = the (fmlookup (be_objects b) key) in
                case readVerifiedManifest M mf (oe_manifestUUID e) (oe_manifestSHA256 e) sy of
                  Inl _ \<Rightarrow> Inl SnapContentUnavailable | Inr man \<Rightarrow> Inr man))))"
proof (cases "bucket = [] \<or> (\<exists>e. captureSnapshotEntries bucket pre s = Inl e)")
  case True
  then have "(\<exists>e. r = Inl e) \<and> files' = files"
    using assms(4) unfolding handleSnapshotCreate_def Let_def pre_def [symmetric] by (auto split: if_split_asm)
  then show ?thesis by auto
next
  case False
  then obtain es where es: "captureSnapshotEntries bucket pre s = Inr es" "bucket \<noteq> []"
    by (cases "captureSnapshotEntries bucket pre s") auto
  let ?d = "descriptor_of ev bucket pre es"
  obtain q files1 where q: "publishSnapshot K io ?d files = (q, files1)" by fastforce
  have r: "files' = files1" "r = (case q of Inl e \<Rightarrow> Inl e | Inr _ \<Rightarrow> Inr (summarizeSnapshot ?d))"
    using assms(4) es q [unfolded descriptor_of_def]
    by (auto simp: handleSnapshotCreate_def pre_def [symmetric] descriptor_of_def split: sum.splits)
  from create_written [OF assms(1-3) es(1) q] show ?thesis
  proof (elim disjE conjE exE)
    assume "files1 = files" "q \<noteq> Inr ()"
    then show ?thesis using r by (auto split: sum.splits)
  next
    fix d assume d: "readSnapshot K (\<lambda>_. False) (e_uuid ev) files1 = Inr d" "sd_Entries d = es"
      "\<forall>name. name \<noteq> snapshotPath (e_uuid ev) \<longrightarrow> fmlookup files1 name = fmlookup files name"
    obtain b where b: "fmlookup (ns_buckets (s_ns s)) bucket = Some b"
      and e: "es = map (\<lambda>k. entry_of k (the (fmlookup (be_objects b) k))) (filter (under pre) (sorted_keys (be_objects b)))"
      by (rule capture_entries [OF es(1)])
    define ks where "ks = filter (under pre) (sorted_keys (be_objects b))"
    have ks: "set ks = {k. under pre k \<and> fmlookup (be_objects b) k \<noteq> None}" "distinct ks"
      by (auto simp: ks_def fmlookup_dom_iff)
    have srt: "sorted_wrt (<) (map se_Key (sd_Entries d))"
      using checkDescriptor_capture(3) [OF es(1) assms(2), of ?d] assms(3) by (simp add: d(2) descriptor_of_def)
    have de: "describeSnapshotObject K M (\<lambda>_. False) mf (e_uuid ev) key sy files1 =
        (if key \<notin> set ks then Inl SnapNoSuchKey
         else let e = the (fmlookup (be_objects b) key) in
           case readVerifiedManifest M mf (oe_manifestUUID e) (oe_manifestSHA256 e) sy of
             Inl _ \<Rightarrow> Inl SnapContentUnavailable | Inr man \<Rightarrow> Inr man)" if "key \<noteq> []" for M mf sy key
      unfolding describe_entry [OF d(1) srt that] d(2) e ks_def [symmetric] find_entry_of [OF ks(2)]
      by (simp add: entry_of_def Let_def)
    have sm: "ss_ObjectCount (summarizeSnapshot ?d) = length ks"
      "ss_LogicalBytes (summarizeSnapshot ?d) = (\<Sum>k \<leftarrow> ks. oe_size (the (fmlookup (be_objects b) k)))"
      by (simp_all add: summarizeSnapshot_def descriptor_of_def e ks_def [symmetric] entry_of_def o_def foldl_sum_list)
    show ?thesis using r d(1,3) b ks de sm by (auto split: sum.splits intro!: exI [of _ d] exI [of _ b] exI [of _ ks])
  qed
qed

text \<open>
  C26: A damaged descriptor is never read. Changing any single byte of a readable snapshot
  file, be it in the magic, version, length, payload or checksum, makes decoding it fail, so
  reading the snapshot, listing the catalog and the scan for garbage collection all report it.
\<close>

theorem snapshot_damage_detected:
  assumes "readSnapshotFrame K fails sid files = Inr (d, data)" and "i < length data" and "c \<noteq> data ! i"
  defines "files' \<equiv> fmupd (snapshotPath sid) (DirFile (data[i := c])) files"
  shows "\<not> is_ok (decodeSnapshotDescriptor K (data[i := c])) \<and> \<not> is_ok (readSnapshot K fails sid files')
    \<and> \<not> is_ok (listSnapshots K rdir fails files') \<and> snd (scanSnapshots K rdir fails files') \<noteq> []"
proof -
  have v: "validSnapshotID sid" "\<not> fails (snapshotPath sid)" "decodeSnapshotDescriptor K data = Inr d"
    using assms(1) by (auto simp: readSnapshotFrame_def split: if_splits option.splits dirent.splits sum.splits)
  then obtain e where e: "decodeSnapshotDescriptor K (data[i := c]) = Inl e"
    using decode_damaged [OF v(3) assms(2,3)] by (cases "decodeSnapshotDescriptor K (data[i := c])") auto
  have path: "has_suffix (snapshotPath sid) ''.snap''" "trim_suffix (snapshotPath sid) ''.snap'' = sid"
    by (simp_all add: has_suffix_def trim_suffix_def snapshotPath_def has_prefix_def)
  have "scanSnapshot K fails (snapshotPath sid) (DirFile (data[i := c])) = Inl \<lparr>vi_Kind = IssueCorrupt, vi_Subject = ''snapshot:'' @ sid\<rparr>"
    using v e by (simp add: scanSnapshot_def path Let_def)
  moreover have "snapshotPath sid \<in> set (sorted_keys files')" by (simp add: files'_def)
  ultimately have mem: "Inl \<lparr>vi_Kind = IssueCorrupt, vi_Subject = ''snapshot:'' @ sid\<rparr> \<in> set (scanResults K fails files')"
    by (force simp: scanResults_def files'_def)
  have iss: "snd (scanSnapshots K rdir fails files') \<noteq> []"
  proof (cases rdir)
    case False
    have "\<lparr>vi_Kind = IssueCorrupt, vi_Subject = ''snapshot:'' @ sid\<rparr> \<in> set (snd (scanSnapshots K rdir fails files'))"
      using False mem by (force simp: scanSnapshots_def Let_def List.map_filter_def)
    then show ?thesis by auto
  qed (simp add: scanSnapshots_def)
  then have "\<not> is_ok (listSnapshots K rdir fails files')"
    by (auto simp: listSnapshots_def split: prod.splits)
  moreover have "\<not> is_ok (readSnapshot K fails sid files')"
    using v e by (simp add: readSnapshot_def readSnapshotFrame_def files'_def)
  ultimately show ?thesis using e iss by simp
qed

definition sample_id :: string where
  "sample_id = ''01890a5d-ac96-774b-bcce-b302099a8057''"

definition one_descriptor :: "snapshotDescriptorV1 \<Rightarrow> snap_codec" where
  "one_descriptor d = \<lparr>sc_marshal = (\<lambda>x. if x = d then Some [1] else None),
                       sc_unmarshal = (\<lambda>b. if b = [1] then Some (coerce_descriptor d) else None)\<rparr>"

definition snapshot_env :: env where
  "snapshot_env = \<lparr>e_now = 7, e_uuid = sample_id, e_io = AppendOk\<rparr>"

definition snapshot_entry :: objectEntry where
  "snapshot_entry = \<lparr>oe_manifestUUID = sample_id, oe_manifestSHA256 = sha256 [1], oe_size = 3, oe_etag = [], oe_contentType = [], oe_seq = 1\<rparr>"

definition snapshot_store :: store where
  "snapshot_store = (sy_store sample_sys)\<lparr>s_ns := empty_namespace\<lparr>ns_buckets := fmupd ''b''
     \<lparr>be_name = ''b'', be_createdAt = 7, be_objects = fmupd ''k'' snapshot_entry fmempty\<rparr> fmempty\<rparr>\<rparr>"

lemma sample_id_valid: "validSnapshotID sample_id"
  by code_simp

lemma one_descriptor_ok: "snap_ok (one_descriptor d)"
  by (simp add: snap_ok_def one_descriptor_def)

lemma utf8_nil: "utf8_valid []"
  by (rule utf8_valid_ascii) simp

lemma utf8_k: "utf8_valid ''k''"
  by (rule utf8_valid_ascii) simp

lemma snapshot_store_capturable: "capturable ''b'' snapshot_store"
  using sample_id_valid validSnapshotID_utf8 [OF sample_id_valid]
  by (auto simp: capturable_def snapshot_store_def snapshot_entry_def entry_utf8_def utf8_valid_def maxSnapshotEntries_def fcard.rep_eq
      utf8_nil [unfolded utf8_valid_def] utf8_k [unfolded utf8_valid_def] split: if_splits)

theorem snapshot_is_a_frozen_view_witness:
  "\<exists>sm files'. handleSnapshotCreate (one_descriptor (descriptor_of snapshot_env ''b'' [] [entry_of ''k'' snapshot_entry])) SnapWriteOk
       snapshot_env ''b'' [] snapshot_store fmempty = (Inr sm, files')
     \<and> ss_LogicalBytes sm = 3 \<and> describeSnapshotObject (one_descriptor (descriptor_of snapshot_env ''b'' [] [entry_of ''k'' snapshot_entry]))
         (sample_codec source_man) (\<lambda>_. False) (\<lambda>_. False) sample_id ''x'' sample_sys files' = Inl SnapNoSuchKey"
proof -
  let ?K = "one_descriptor (descriptor_of snapshot_env ''b'' [] [entry_of ''k'' snapshot_entry])"
  have k: "sorted_keys (fmupd ''k'' snapshot_entry fmempty) = [''k'']"
    by (simp add: sorted_keys_def sorted_list_of_fset.rep_eq)
  have tr: "str_trim ''/'' [] = []" by (simp add: str_trim_def)
  have "captureSnapshotEntries ''b'' [] snapshot_store = Inr [entry_of ''k'' snapshot_entry]"
    by (simp add: captureSnapshotEntries_def snapshot_store_def k has_prefix_def entry_of_def Let_def)
  then obtain sm files' where c: "handleSnapshotCreate ?K SnapWriteOk snapshot_env ''b'' [] snapshot_store fmempty = (Inr sm, files')"
    by (simp add: handleSnapshotCreate_def tr publishSnapshot_def encodeSnapshotDescriptor_def one_descriptor_def descriptor_of_def
        publishSnapshotFrame_def writeFileDurable_def maxSnapshotPayload_def Let_def)
  have v: "validSnapshotID (e_uuid snapshot_env)" "e_uuid snapshot_env = sample_id" using sample_id_valid by (simp_all add: snapshot_env_def)
  have bk: "fmlookup (ns_buckets (s_ns snapshot_store)) ''b'' = Some \<lparr>be_name = ''b'', be_createdAt = 7,
      be_objects = fmupd ''k'' snapshot_entry fmempty\<rparr>" by (simp add: snapshot_store_def)
  from snapshot_is_a_frozen_view [OF one_descriptor_ok snapshot_store_capturable v(1) c] bk obtain ks where
    ks: "set ks = {k. under [] k \<and> fmlookup (fmupd ''k'' snapshot_entry fmempty) k \<noteq> None}" "distinct ks"
    and sm: "ss_LogicalBytes sm = (\<Sum>k \<leftarrow> ks. oe_size (the (fmlookup (fmupd ''k'' snapshot_entry fmempty) k)))"
    and de: "\<forall>M mf sy key. key \<noteq> [] \<longrightarrow> key \<notin> set ks
      \<longrightarrow> describeSnapshotObject ?K M (\<lambda>_. False) mf sample_id key sy files' = Inl SnapNoSuchKey"
    unfolding tr v(2) by auto
  have "set ks = {''k''}" using ks(1) by (auto simp: under_def split: if_splits)
  then have "ks = [''k'']" using ks(2) by (cases ks) (auto simp: subset_singleton_iff)
  then show ?thesis using c sm de by (auto simp: snapshot_entry_def)
qed

theorem snapshot_damage_detected_witness:
  "\<not> is_ok (decodeSnapshotDescriptor (one_descriptor (descriptor_of snapshot_env ''b'' [] [])) ((snapshotFrame [1])[0 := 0]))"
proof -
  let ?d = "descriptor_of snapshot_env ''b'' [] []"
  have "utf8_coerce ''b'' = ''b''" "utf8_coerce [] = []"
    using utf8_nil utf8_valid_ascii [of "''b''"] by (simp_all add: utf8_valid_def)
  then have c: "coerce_descriptor ?d = ?d"
    using validSnapshotID_utf8 [OF sample_id_valid] by (simp add: coerce_descriptor_def descriptor_of_def snapshot_env_def)
  have "checkDescriptor ?d = Inr ?d" using sample_id_valid
    by (simp add: checkDescriptor_def descriptor_of_def snapshot_env_def maxSnapshotEntries_def)
  then have "decodeSnapshotDescriptor (one_descriptor ?d) (snapshotFrame [1]) = Inr ?d"
    by (simp add: frame_parts maxSnapshotPayload_def one_descriptor_def c)
  then have r: "readSnapshotFrame (one_descriptor ?d) (\<lambda>_. False) sample_id (fmupd (snapshotPath sample_id) (DirFile (snapshotFrame [1])) fmempty)
      = Inr (?d, snapshotFrame [1])"
    using sample_id_valid by (simp add: readSnapshotFrame_def descriptor_of_def snapshot_env_def)
  have z: "0 < length (snapshotFrame [1])" "(0 :: byte) \<noteq> snapshotFrame [1] ! 0"
    by (simp_all add: snapshotFrame_def snapshotMagic_def Let_def)
  from snapshot_damage_detected [OF r z] show ?thesis by simp
qed

text \<open>
  Keys that are not valid UTF-8 break a snapshot: if two captured keys become equal when JSON
  replaces their invalid bytes, creation reports success, but the descriptor can never be read
  back, and the scan for garbage collection reports it until the snapshot is deleted.
\<close>

lemma checkEntries_sorted:
  "checkEntries i prev es = Inr u \<Longrightarrow> sorted_wrt (<) (map se_Key es) \<and> (\<forall>k. prev = Some k \<longrightarrow> (\<forall>e \<in> set es. k < se_Key e))"
proof (induction i prev es rule: checkEntries.induct)
  case (2 i prev e es)
  from "2.prems" have "checkEntries (Suc i) (Some (se_Key e)) es = Inr u" "\<forall>k. prev = Some k \<longrightarrow> k < se_Key e"
    by (auto split: if_splits option.splits)
  with "2.IH" "2.prems" show ?case by (auto split: if_splits dest: less_trans)
qed simp

theorem snapshot_with_merging_keys_is_unreadable:
  assumes "snap_ok K" and "validSnapshotID (e_uuid ev)"
    and "handleSnapshotCreate K io ev bucket pre s files = (Inr sm, files')"
    and "fmlookup (ns_buckets (s_ns s)) bucket = Some b" and "k1 \<noteq> k2" and "utf8_coerce k1 = utf8_coerce k2"
    and "\<forall>k \<in> {k1, k2}. under (str_trim ''/'' pre) k \<and> fmlookup (be_objects b) k \<noteq> None"
  shows "\<not> is_ok (readSnapshot K (\<lambda>_. False) (e_uuid ev) files') \<and> snd (scanSnapshots K False (\<lambda>_. False) files') \<noteq> []"
proof -
  define ks where "ks = filter (under (str_trim ''/'' pre)) (sorted_keys (be_objects b))"
  obtain es where es: "captureSnapshotEntries bucket (str_trim ''/'' pre) s = Inr es" "bucket \<noteq> []"
    using assms(3) by (auto simp: handleSnapshotCreate_def Let_def split: if_splits sum.splits)
  have e: "map se_Key es = ks"
  proof (rule capture_entries [OF es(1)])
    fix b' assume "fmlookup (ns_buckets (s_ns s)) bucket = Some b'"
      "es = map (\<lambda>k. entry_of k (the (fmlookup (be_objects b') k))) (filter (under (str_trim ''/'' pre)) (sorted_keys (be_objects b')))"
    then show ?thesis using assms(4) by (simp add: ks_def entry_of_def o_def)
  qed
  let ?d = "descriptor_of ev bucket (str_trim ''/'' pre) es" and ?p = "snapshotPath (e_uuid ev)"
  obtain u where "publishSnapshot K io ?d files = (Inr u, files')"
    using assms(3) es by (auto simp: handleSnapshotCreate_def Let_def descriptor_of_def split: if_splits sum.splits prod.splits)
  then obtain p where p: "sc_marshal K ?d = Some p" "length p \<le> maxSnapshotPayload" "fmlookup files' ?p = Some (DirFile (snapshotFrame p))"
    by (auto simp: publishSnapshot_def encodeSnapshotDescriptor_def publishSnapshotFrame_def writeFileDurable_def descriptor_of_def
        split: sum.splits option.splits if_splits)
  have "\<not> distinct (map utf8_coerce ks)"
    using assms(5-7) by (auto simp: distinct_map ks_def inj_on_def fmlookup_dom_iff)
  have "\<not> sorted_wrt (<) (map se_Key (map coerce_entry es))"
  proof -
    have "map se_Key (map coerce_entry es) = map utf8_coerce (map se_Key es)" by (simp add: coerce_entry_def)
    then show ?thesis using \<open>\<not> distinct (map utf8_coerce ks)\<close> e by (simp only: strict_sorted_iff) simp
  qed
  then have bad: "checkDescriptor (coerce_descriptor ?d) \<noteq> Inr x" for x
    using checkEntries_sorted [of 0 None "map coerce_entry es"]
    by (cases "checkEntries 0 None (map coerce_entry es)") (auto simp: checkDescriptor_def coerce_descriptor_def descriptor_of_def)
  have dec: "decodeSnapshotDescriptor K (snapshotFrame p) = checkDescriptor (coerce_descriptor ?d)"
    using assms(1) p by (simp add: frame_parts snap_ok_def)
  then obtain err where err: "decodeSnapshotDescriptor K (snapshotFrame p) = Inl err" using bad by (cases "checkDescriptor (coerce_descriptor ?d)") auto
  then have r: "\<not> is_ok (readSnapshot K (\<lambda>_. False) (e_uuid ev) files')"
    using p(3) by (simp add: readSnapshot_def readSnapshotFrame_def)
  have path: "has_suffix ?p ''.snap''" "trim_suffix ?p ''.snap'' = e_uuid ev"
    by (simp_all add: has_suffix_def trim_suffix_def snapshotPath_def has_prefix_def)
  have "scanSnapshot K (\<lambda>_. False) ?p (DirFile (snapshotFrame p)) = Inl \<lparr>vi_Kind = IssueCorrupt, vi_Subject = ''snapshot:'' @ e_uuid ev\<rparr>"
    using assms(2) err by (simp add: scanSnapshot_def path Let_def)
  moreover have "?p \<in> set (sorted_keys files')" using p(3) by (simp add: fmlookup_dom_iff)
  ultimately have "Inl \<lparr>vi_Kind = IssueCorrupt, vi_Subject = ''snapshot:'' @ e_uuid ev\<rparr> \<in> set (scanResults K (\<lambda>_. False) files')"
    using p(3) by (force simp: scanResults_def)
  then have "\<lparr>vi_Kind = IssueCorrupt, vi_Subject = ''snapshot:'' @ e_uuid ev\<rparr> \<in> set (snd (scanSnapshots K False (\<lambda>_. False) files'))"
    by (force simp: scanSnapshots_def Let_def List.map_filter_def)
  with r show ?thesis by auto
qed

end
