(* ===== verification/Reach.thy ===== *)
theory Reach
  imports Snapshots "HOL-Library.Multiset" "HOL-Library.Product_Lexorder"
begin

text \<open>
  Authoritative reachability (\<^verbatim>\<open>zeros3.go\<close>, section 12a): the one scan that statistics, verify,
  garbage collection and compaction rest on. It walks four kinds of live roots, checks each
  root's manifest against the hash the root records, collects the chunks they reference and
  checks that every one is present. Shown here: what a clean result means.
\<close>

section \<open>Results\<close>

datatype rootScope = ScopeCurrent | ScopeHistory | ScopeSnapshot | ScopeMultipart

text \<open>
  The journal file, the manifests and the chunks are in the system state, the snapshot catalog
  beside it. The issue list keeps kind and subject. What an observer is told, in order, is
  \<open>rr_Observed\<close>. Optional structured representations are not modelled: no root of one exists. The frame count of a
  journal that fails to replay is left at zero.
\<close>

record site =
  st_sys :: system
  st_snaps :: catalog

record reachabilityResult =
  rr_Missing :: nat
  rr_Corrupt :: nat
  rr_Invalid :: nat
  rr_Issues :: "VerifyIssue list"
  rr_JournalFramesChecked :: nat
  rr_JournalOK :: bool
  rr_CurrentRootCount :: nat
  rr_HistoricalRootCount :: nat
  rr_MultipartRootCount :: nat
  rr_SnapshotRootCount :: nat
  rr_ManifestsChecked :: nat
  rr_ChunksChecked :: nat
  rr_ReferencedManifests :: "string set"
  rr_ReferencedChunks :: "string set"
  rr_ChunkLength :: "(string, int) fmap"
  rr_ValidChunks :: "string set"
  rr_Observed :: "(rootScope \<times> string \<times> string \<times> chunkRef list) list"

definition empty_result :: reachabilityResult where
  "empty_result = \<lparr>rr_Missing = 0, rr_Corrupt = 0, rr_Invalid = 0, rr_Issues = [], rr_JournalFramesChecked = 0, rr_JournalOK = False,
     rr_CurrentRootCount = 0, rr_HistoricalRootCount = 0, rr_MultipartRootCount = 0, rr_SnapshotRootCount = 0,
     rr_ManifestsChecked = 0, rr_ChunksChecked = 0, rr_ReferencedManifests = {}, rr_ReferencedChunks = {},
     rr_ChunkLength = fmempty, rr_ValidChunks = {}, rr_Observed = []\<rparr>"

definition addIssue :: "issue_kind \<Rightarrow> string \<Rightarrow> reachabilityResult \<Rightarrow> reachabilityResult" where
  "addIssue kind subject res =
     (let res1 = (case kind of
          IssueMissing \<Rightarrow> res\<lparr>rr_Missing := rr_Missing res + 1\<rparr>
        | IssueCorrupt \<Rightarrow> res\<lparr>rr_Corrupt := rr_Corrupt res + 1\<rparr>
        | IssueInvalid \<Rightarrow> res\<lparr>rr_Invalid := rr_Invalid res + 1\<rparr>)
      in res1\<lparr>rr_Issues := rr_Issues res @ [\<lparr>vi_Kind = kind, vi_Subject = subject\<rparr>]\<rparr>)"

definition tracker_ok :: "reachabilityResult \<Rightarrow> bool" where
  "tracker_ok res \<longleftrightarrow> rr_Missing res = 0 \<and> rr_Corrupt res = 0 \<and> rr_Invalid res = 0"

definition reach_OK :: "reachabilityResult \<Rightarrow> bool" where
  "reach_OK res \<longleftrightarrow> tracker_ok res \<and> rr_JournalOK res"

section \<open>Roots\<close>

definition snapshotNamespace :: "namespace \<Rightarrow> (string \<times> string \<times> objectEntry) list" where
  "snapshotNamespace ns =
     concat (map (\<lambda>bn. let b = the (fmlookup (ns_buckets ns) bn) in
       map (\<lambda>k. (bn, k, the (fmlookup (be_objects b) k))) (sorted_keys (be_objects b))) (sorted_keys (ns_buckets ns)))"

definition snapshotHistory :: "namespace \<Rightarrow> (string \<times> string \<times> historyVersionEntry) list" where
  "snapshotHistory ns =
     concat (map (\<lambda>bn. let ks = the (fmlookup (ns_history ns) bn) in
       concat (map (\<lambda>k. map (\<lambda>e. (bn, k, e)) (the (fmlookup ks k))) (sorted_keys ks))) (sorted_keys (ns_history ns)))"

definition snapshotUploads :: "namespace \<Rightarrow> multipartUpload list" where
  "snapshotUploads ns = map (\<lambda>i. the (fmlookup (ns_uploads ns) i)) (sorted_keys (ns_uploads ns))"

text \<open>
  Which calls of a scan fail, and in which order the Go maps are ranged over when nobody
  observes the scan.
\<close>

record reach_io =
  rc_open :: bool
  rc_journal :: "nat \<Rightarrow> bool"
  rc_man :: "string \<Rightarrow> bool"
  rc_snapdir :: bool
  rc_snap :: "string \<Rightarrow> bool"
  rc_stat :: "digest \<Rightarrow> bool"
  rc_read :: "digest \<Rightarrow> bool"
  rc_objects :: "(string \<times> string \<times> objectEntry) list \<Rightarrow> (string \<times> string \<times> objectEntry) list"
  rc_uploads :: "multipartUpload list \<Rightarrow> multipartUpload list"
  rc_history :: "(string \<times> string \<times> historyVersionEntry) list \<Rightarrow> (string \<times> string \<times> historyVersionEntry) list"
  rc_chunks :: "string list \<Rightarrow> string list"

definition orders_ok :: "reach_io \<Rightarrow> bool" where
  "orders_ok io \<longleftrightarrow> (\<forall>xs. mset (rc_objects io xs) = mset xs) \<and> (\<forall>xs. mset (rc_uploads io xs) = mset xs)
     \<and> (\<forall>xs. mset (rc_history io xs) = mset xs) \<and> (\<forall>xs. mset (rc_chunks io xs) = mset xs)"

section \<open>One root\<close>

text \<open>
  The cache entry of a manifest: the hash of its file, and its content if it is structurally
  sound. Sums of lengths are 64-bit and wrap.
\<close>

record verifiedManifestCacheEntry =
  vc_sha :: digest
  vc_man :: "manifestV1 option"

definition add64 :: "int \<Rightarrow> int \<Rightarrow> int" where
  "add64 a b = sint (word_of_int (a + b) :: 64 word)"

fun checkRefs :: "string \<Rightarrow> chunkRef list \<Rightarrow> int \<Rightarrow> bool \<Rightarrow> reachabilityResult \<Rightarrow> int \<times> bool \<times> reachabilityResult" where
  "checkRefs subject [] n valid res = (n, valid, res)"
| "checkRefs subject (c # cs) n valid res =
     (if decodeHexSHA256 (cr_SHA256 c) = None then checkRefs subject cs n False (addIssue IssueInvalid subject res)
      else if cr_Length c < 0 then checkRefs subject cs n False (addIssue IssueInvalid subject res)
      else checkRefs subject cs (add64 n (cr_Length c)) valid res)"

definition supported_manifest :: "manifestV1 \<Rightarrow> bool" where
  "supported_manifest man \<longleftrightarrow> man_ManifestFormatVersion man = 1 \<and> man_CDCFormatVersion man = 1 \<and> man_HashAlgorithm man = ''sha256''"

definition loadForCheck :: "man_codec \<Rightarrow> string \<Rightarrow> bytes \<Rightarrow> reachabilityResult \<Rightarrow> verifiedManifestCacheEntry \<times> reachabilityResult" where
  "loadForCheck M subject data res =
     (case mc_unmarshal M data of
        None \<Rightarrow> (\<lparr>vc_sha = sha256 data, vc_man = None\<rparr>, addIssue IssueInvalid subject res)
      | Some man \<Rightarrow>
          if \<not> supported_manifest man then (\<lparr>vc_sha = sha256 data, vc_man = None\<rparr>, addIssue IssueInvalid subject res)
          else (case checkRefs subject (man_Chunks man) 0 True res of (n, valid, res1) \<Rightarrow>
            if \<not> valid then (\<lparr>vc_sha = sha256 data, vc_man = None\<rparr>, res1)
            else if n \<noteq> man_TotalLength man then (\<lparr>vc_sha = sha256 data, vc_man = None\<rparr>, addIssue IssueInvalid subject res1)
            else (\<lparr>vc_sha = sha256 data, vc_man = Some man\<rparr>, res1)))"

type_synonym reach_state = "(string, verifiedManifestCacheEntry) fmap \<times> reachabilityResult"

definition checkRoot ::
  "man_codec \<Rightarrow> reach_io \<Rightarrow> (string, bytes) fmap \<Rightarrow> string \<Rightarrow> string \<Rightarrow> digest \<Rightarrow> reach_state \<Rightarrow> manifestV1 option \<times> reach_state" where
  "checkRoot M io files subject manUUID manSHA st =
     (case st of (cache, res) \<Rightarrow>
      let found = (case fmlookup cache manUUID of
          Some c \<Rightarrow> Inr (c, cache, res)
        | None \<Rightarrow>
            (case (if rc_man io manUUID then Inl IssueInvalid
                   else case fmlookup files manUUID of None \<Rightarrow> Inl IssueMissing | Some data \<Rightarrow> Inr data) of
               Inl kind \<Rightarrow> Inl (fmupd manUUID \<lparr>vc_sha = 0, vc_man = None\<rparr> cache, addIssue kind subject res)
             | Inr data \<Rightarrow>
                 (case loadForCheck M subject data res of (c, res1) \<Rightarrow>
                    Inr (c, fmupd manUUID c cache, res1\<lparr>rr_ManifestsChecked := rr_ManifestsChecked res1 + 1\<rparr>))))
      in case found of
           Inl st1 \<Rightarrow> (None, st1)
         | Inr (c, cache1, res1) \<Rightarrow>
             if vc_sha c \<noteq> manSHA then (None, cache1, addIssue IssueCorrupt subject res1)
             else (case vc_man c of
                None \<Rightarrow> (None, cache1, res1)
              | Some man \<Rightarrow> (Some man, cache1, res1\<lparr>rr_ReferencedManifests := insert manUUID (rr_ReferencedManifests res1)\<rparr>)))"

definition want :: "rootScope \<Rightarrow> string \<Rightarrow> string \<Rightarrow> chunkRef list \<Rightarrow> reachabilityResult \<Rightarrow> reachabilityResult" where
  "want scope bucket key chunks res =
     res\<lparr>rr_ChunkLength := fold (\<lambda>c m. fmupd (cr_SHA256 c) (cr_Length c) m) chunks (rr_ChunkLength res),
         rr_Observed := rr_Observed res @ [(scope, bucket, key, chunks)]\<rparr>"

definition manifestRoot ::
  "man_codec \<Rightarrow> reach_io \<Rightarrow> (string, bytes) fmap \<Rightarrow> rootScope \<Rightarrow> string \<Rightarrow> string \<Rightarrow> string \<Rightarrow> string \<Rightarrow> digest \<Rightarrow> reach_state \<Rightarrow> reach_state" where
  "manifestRoot M io files scope bucket key subject manUUID manSHA st =
     (case checkRoot M io files subject manUUID manSHA st of
        (None, st1) \<Rightarrow> st1
      | (Some man, cache, res) \<Rightarrow> (cache, want scope bucket key (man_Chunks man) res))"

section \<open>The four categories\<close>

definition currentRoot :: "man_codec \<Rightarrow> reach_io \<Rightarrow> (string, bytes) fmap \<Rightarrow> string \<times> string \<times> objectEntry \<Rightarrow> reach_state \<Rightarrow> reach_state" where
  "currentRoot M io files ob st =
     (case (ob, st) of ((bucket, key, e), cache, res) \<Rightarrow>
        manifestRoot M io files ScopeCurrent bucket key (bucket @ ''/'' @ key) (oe_manifestUUID e) (oe_manifestSHA256 e)
          (cache, res\<lparr>rr_CurrentRootCount := rr_CurrentRootCount res + 1\<rparr>))"

definition historyRoot :: "man_codec \<Rightarrow> reach_io \<Rightarrow> (string, bytes) fmap \<Rightarrow> string \<times> string \<times> historyVersionEntry \<Rightarrow> reach_state \<Rightarrow> reach_state" where
  "historyRoot M io files ob st =
     (case (ob, st) of ((bucket, key, e), cache, res) \<Rightarrow>
        manifestRoot M io files ScopeHistory bucket key (''history:'' @ bucket @ ''/'' @ key @ ''@'' @ hv_versionID e)
          (hv_manifestUUID e) (hv_manifestSHA256 e)
          (cache, res\<lparr>rr_HistoricalRootCount := rr_HistoricalRootCount res + 1\<rparr>))"

definition snapshotRoot :: "man_codec \<Rightarrow> reach_io \<Rightarrow> (string, bytes) fmap \<Rightarrow> snapshotDescriptorV1 \<Rightarrow> snapshotEntryV1 \<Rightarrow> reach_state \<Rightarrow> reach_state" where
  "snapshotRoot M io files d e st =
     (case st of (cache, res) \<Rightarrow>
        let res1 = res\<lparr>rr_SnapshotRootCount := rr_SnapshotRootCount res + 1\<rparr>;
            subject = ''snapshot:'' @ sd_SnapshotID d @ '':'' @ se_Key e in
        case decodeHexSHA256 (se_ManifestSHA256 e) of
          None \<Rightarrow> (cache, addIssue IssueInvalid subject res1)
        | Some dg \<Rightarrow> manifestRoot M io files ScopeSnapshot (sd_SourceBucket d) (se_Key e) subject (se_ManifestUUID e) dg (cache, res1))"

definition partSubject :: "multipartUpload \<Rightarrow> multipartPart \<Rightarrow> string" where
  "partSubject up p = ''multipart:'' @ mu_uploadID up @ ''/part'' @ (if mp_partNumber p < 0 then ''-'' else []) @ itoa (nat \<bar>mp_partNumber p\<bar>)"

fun validPartChunks :: "string \<Rightarrow> chunkRef list \<Rightarrow> reachabilityResult \<Rightarrow> chunkRef list \<times> reachabilityResult" where
  "validPartChunks subject [] res = ([], res)"
| "validPartChunks subject (c # cs) res =
     (if decodeHexSHA256 (cr_SHA256 c) = None then validPartChunks subject cs (addIssue IssueInvalid subject res)
      else (case validPartChunks subject cs res of (valid, res1) \<Rightarrow> (c # valid, res1)))"

definition partRoot :: "multipartUpload \<Rightarrow> multipartPart \<Rightarrow> reachabilityResult \<Rightarrow> reachabilityResult" where
  "partRoot up p res =
     (case validPartChunks (partSubject up p) (mp_chunks p) (res\<lparr>rr_MultipartRootCount := rr_MultipartRootCount res + 1\<rparr>) of
        (valid, res1) \<Rightarrow> want ScopeMultipart (mu_bucket up) (mu_key up) valid res1)"

definition uploadRoots :: "multipartUpload \<Rightarrow> reachabilityResult \<Rightarrow> reachabilityResult" where
  "uploadRoots up res = fold (\<lambda>pn. partRoot up (the (fmlookup (mu_parts up) pn))) (sorted_keys (mu_parts up)) res"

section \<open>The chunk pass\<close>

text \<open>The verdict on one referenced chunk: no issue, or the kind of the issue.\<close>

definition chunkVerdict :: "flate_codec \<Rightarrow> reach_io \<Rightarrow> bool \<Rightarrow> casState \<Rightarrow> digest \<Rightarrow> int \<Rightarrow> issue_kind option" where
  "chunkVerdict Z io deep cas dg len =
     (let deepVerdict = (if deep then (case casRead Z (rc_read io dg) dg cas of
              Inr _ \<Rightarrow> None | Inl e \<Rightarrow> Some (if e = CasNotExist then IssueMissing else IssueCorrupt)) else None) in
      case ps_lookup (cs_packs cas) dg of
        Some loc \<Rightarrow>
          if int (unat (pl_logical loc)) = len then deepVerdict
          else if rc_stat io dg then Some IssueInvalid
          else (case fmlookup (cs_loose cas) dg of
              None \<Rightarrow> Some IssueMissing
            | Some data \<Rightarrow> if int (length data) \<noteq> len then Some IssueCorrupt else deepVerdict)
      | None \<Rightarrow>
          if rc_stat io dg then Some IssueInvalid
          else (case fmlookup (cs_loose cas) dg of
              None \<Rightarrow> Some IssueMissing
            | Some data \<Rightarrow> if int (length data) \<noteq> len then Some IssueCorrupt else deepVerdict))"

definition checkChunk :: "flate_codec \<Rightarrow> reach_io \<Rightarrow> bool \<Rightarrow> casState \<Rightarrow> string \<Rightarrow> reachabilityResult \<times> string list \<Rightarrow> reachabilityResult \<times> string list" where
  "checkChunk Z io deep cas sha st =
     (case st of (res0, invalid) \<Rightarrow>
        let res = res0\<lparr>rr_ReferencedChunks := insert sha (rr_ReferencedChunks res0)\<rparr> in
        case decodeHexSHA256 sha of
          None \<Rightarrow> (res, invalid @ [sha])
        | Some dg \<Rightarrow>
            let res1 = res\<lparr>rr_ChunksChecked := rr_ChunksChecked res + 1\<rparr> in
            (case chunkVerdict Z io deep cas dg (the (fmlookup (rr_ChunkLength res0) sha)) of
               None \<Rightarrow> (res1, invalid)
             | Some kind \<Rightarrow> (addIssue kind (''chunk '' @ sha) res1, invalid @ [sha])))"

section \<open>The scan\<close>

definition scanOrder :: "bool \<Rightarrow> ('a list \<Rightarrow> 'a list) \<Rightarrow> ('a \<Rightarrow> 'k::linorder) \<Rightarrow> 'a list \<Rightarrow> 'a list" where
  "scanOrder obs order key xs = (if obs then sort_key key xs else order xs)"

definition computeReachabilityObserved ::
  "man_codec \<Rightarrow> snap_codec \<Rightarrow> flate_codec \<Rightarrow> reach_io \<Rightarrow> bool \<Rightarrow> bool \<Rightarrow> site \<Rightarrow> err + reachabilityResult" where
  "computeReachabilityObserved M K Z io deep obs s =
     (if rc_open io then Inl ErrIO
      else
        let sy = st_sys s; ns = s_ns (sy_store sy); files = sy_manifests sy;
            res0 = (case replayJournal (rc_journal io) (j_f (s_journal (sy_store sy))) of
                Inl _ \<Rightarrow> addIssue IssueCorrupt ''journal/visibility.log'' empty_result
              | Inr (_, _, records) \<Rightarrow> empty_result\<lparr>rr_JournalFramesChecked := length records, rr_JournalOK := True\<rparr>);
            (cache1, res1) = fold (currentRoot M io files)
              (scanOrder obs (rc_objects io) (\<lambda>(b, k, e). (b, k)) (snapshotNamespace ns)) (fmempty, res0);
            res2 = fold uploadRoots (scanOrder obs (rc_uploads io) (\<lambda>up. (mu_bucket up, mu_key up, mu_uploadID up)) (snapshotUploads ns)) res1;
            (snaps, issues) = scanSnapshots K (rc_snapdir io) (rc_snap io) (st_snaps s);
            res3 = fold (\<lambda>i. addIssue (vi_Kind i) (vi_Subject i)) issues res2;
            st4 = fold (\<lambda>d. fold (snapshotRoot M io files d) (sd_Entries d)) snaps (cache1, res3);
            (cache5, res5) = fold (historyRoot M io files)
              (scanOrder obs (rc_history io) (\<lambda>(b, k, e). (b, k, - uint (hv_seq e))) (snapshotHistory ns)) st4;
            (res6, invalid) = fold (checkChunk Z io deep (sy_cas sy)) (rc_chunks io (sorted_keys (rr_ChunkLength res5))) (res5, [])
        in Inr (res6\<lparr>rr_ValidChunks := rr_ReferencedChunks res6 - set invalid\<rparr>))"

definition computeReachability ::
  "man_codec \<Rightarrow> snap_codec \<Rightarrow> flate_codec \<Rightarrow> reach_io \<Rightarrow> bool \<Rightarrow> site \<Rightarrow> err + reachabilityResult" where
  "computeReachability M K Z io deep s = computeReachabilityObserved M K Z io deep False s"


section \<open>Issues only accumulate\<close>

text \<open>\<open>noted\<close>: a step that at most records issues, and when it does, the result is no longer clean.\<close>

definition noted :: "reachabilityResult \<Rightarrow> reachabilityResult \<Rightarrow> bool" where
  "noted res res' \<longleftrightarrow> rr_ChunkLength res' = rr_ChunkLength res \<and> rr_ReferencedManifests res' = rr_ReferencedManifests res
     \<and> rr_ReferencedChunks res' = rr_ReferencedChunks res \<and> rr_JournalOK res' = rr_JournalOK res
     \<and> (tracker_ok res' \<longrightarrow> tracker_ok res)"

lemma noted_refl [simp]: "noted res res" and noted_trans: "noted a b \<Longrightarrow> noted b c \<Longrightarrow> noted a c"
  by (auto simp: noted_def)

lemma addIssue_noted [simp]: "noted res (addIssue kind subject res)" and addIssue_not_ok [simp]: "\<not> tracker_ok (addIssue kind subject res)"
  by (cases kind; simp add: addIssue_def noted_def tracker_ok_def Let_def)+

lemma noted_issue:
  assumes "noted (addIssue kind subject res) res'"
  shows "noted res res'" and "\<not> tracker_ok res'"
proof -
  show "noted res res'" using noted_trans [OF addIssue_noted] assms by blast
  show "\<not> tracker_ok res'" using assms addIssue_not_ok by (auto simp del: addIssue_not_ok simp: noted_def)
qed

definition ref_ok :: "chunkRef \<Rightarrow> bool" where
  "ref_ok c \<longleftrightarrow> decodeHexSHA256 (cr_SHA256 c) \<noteq> None \<and> 0 \<le> cr_Length c"

lemma checkRefs_spec:
  assumes "checkRefs subject cs n valid res = (n', v', res')"
  shows "noted res res' \<and> v' = (valid \<and> (\<forall>c \<in> set cs. ref_ok c))
    \<and> ((\<forall>c \<in> set cs. ref_ok c) \<longrightarrow> n' = foldl add64 n (map cr_Length cs) \<and> res' = res)
    \<and> (tracker_ok res' \<longrightarrow> (\<forall>c \<in> set cs. ref_ok c))"
  using assms
proof (induction subject cs n valid res rule: checkRefs.induct)
  case (2 subject c cs n valid res)
  consider (bad) "decodeHexSHA256 (cr_SHA256 c) = None" | (neg) "decodeHexSHA256 (cr_SHA256 c) \<noteq> None" "cr_Length c < 0"
    | (fine) "decodeHexSHA256 (cr_SHA256 c) \<noteq> None" "\<not> cr_Length c < 0" by blast
  then show ?case
  proof cases
    case bad
    have "noted (addIssue IssueInvalid subject res) res' \<and> v' = False" using "2.IH"(1) [OF bad] "2.prems" bad by simp
    then have "noted res res'" "\<not> tracker_ok res'" "\<not> v'" by (auto dest: noted_issue)
    then show ?thesis using bad by (auto simp: ref_ok_def)
  next
    case neg
    have "noted (addIssue IssueInvalid subject res) res' \<and> v' = False" using "2.IH"(2) [OF neg] "2.prems" neg by simp
    then have "noted res res'" "\<not> tracker_ok res'" "\<not> v'" by (auto dest: noted_issue)
    then show ?thesis using neg by (auto simp: ref_ok_def)
  next
    case fine
    then show ?thesis using "2.IH"(3) [OF fine] "2.prems" by (auto simp: ref_ok_def)
  qed
qed simp

lemma validPartChunks_spec:
  assumes "validPartChunks subject cs res = (valid, res')"
  shows "noted res res' \<and> set valid = {c \<in> set cs. decodeHexSHA256 (cr_SHA256 c) \<noteq> None}
    \<and> (tracker_ok res' \<longrightarrow> (\<forall>c \<in> set cs. decodeHexSHA256 (cr_SHA256 c) \<noteq> None))"
  using assms
proof (induction subject cs res arbitrary: valid res' rule: validPartChunks.induct)
  case (2 subject c cs res)
  show ?case
  proof (cases "decodeHexSHA256 (cr_SHA256 c) = None")
    case True
    from "2.IH"(1) [OF True] "2.prems" True
    have I: "noted (addIssue IssueInvalid subject res) res'" "set valid = {c \<in> set cs. decodeHexSHA256 (cr_SHA256 c) \<noteq> None}" by auto
    then have "\<not> tracker_ok res'" by (auto simp: noted_def)
    then show ?thesis using I noted_trans [OF addIssue_noted I(1)] True by auto
  next
    case False
    obtain v r where v: "validPartChunks subject cs res = (v, r)" by fastforce
    show ?thesis using "2.IH"(2) [OF False v] "2.prems" False v by auto
  qed
qed simp

section \<open>What a scan has established\<close>

definition sound_manifest :: "manifestV1 \<Rightarrow> bool" where
  "sound_manifest man \<longleftrightarrow> supported_manifest man \<and> (\<forall>c \<in> set (man_Chunks man). ref_ok c)
     \<and> foldl add64 0 (map cr_Length (man_Chunks man)) = man_TotalLength man"

definition rooted :: "man_codec \<Rightarrow> (string, bytes) fmap \<Rightarrow> string \<Rightarrow> digest \<Rightarrow> manifestV1 \<Rightarrow> bool" where
  "rooted M files u sha man \<longleftrightarrow> (\<exists>data. fmlookup files u = Some data \<and> sha256 data = sha \<and> mc_unmarshal M data = Some man)
     \<and> sound_manifest man"

lemma rooted_unique: "rooted M files u sha man \<Longrightarrow> rooted M files u sha' man' \<Longrightarrow> sha' = sha \<and> man' = man"
  by (auto simp: rooted_def)

text \<open>
  \<open>D\<close> are the manifest roots seen so far, \<open>P\<close> the chunk references of the parts seen so far.
\<close>

definition rooted_chunks :: "man_codec \<Rightarrow> (string, bytes) fmap \<Rightarrow> (string \<times> digest) set \<Rightarrow> string set" where
  "rooted_chunks M files D = {cr_SHA256 c | u sha man c. (u, sha) \<in> D \<and> rooted M files u sha man \<and> c \<in> set (man_Chunks man)}"

definition scanned :: "man_codec \<Rightarrow> (string, bytes) fmap \<Rightarrow> (string \<times> digest) set \<Rightarrow> chunkRef set \<Rightarrow> reach_state \<Rightarrow> bool" where
  "scanned M files D P st \<longleftrightarrow> (case st of (cache, res) \<Rightarrow> rr_ReferencedChunks res = {} \<and> (tracker_ok res \<longrightarrow>
     (\<forall>u e. fmlookup cache u = Some e \<longrightarrow> (\<exists>man. vc_man e = Some man \<and> rooted M files u (vc_sha e) man))
     \<and> rr_ReferencedManifests res = fst ` D \<and> fmdom' (rr_ChunkLength res) = rooted_chunks M files D \<union> cr_SHA256 ` P
     \<and> (\<forall>u sha. (u, sha) \<in> D \<longrightarrow> (\<exists>man. rooted M files u sha man))
     \<and> (\<forall>c \<in> P. decodeHexSHA256 (cr_SHA256 c) \<noteq> None)))"

lemma scanned_noted: "scanned M files D P (cache, res) \<Longrightarrow> noted res res' \<Longrightarrow> scanned M files D P (cache, res')"
  by (auto simp: scanned_def noted_def)

lemma scanned_bad: "rr_ReferencedChunks res = {} \<Longrightarrow> \<not> tracker_ok res \<Longrightarrow> scanned M files D P (cache, res)"
  by (simp add: scanned_def)

lemma rooted_chunks_insert:
  "rooted_chunks M files (insert (u, sha) D) = rooted_chunks M files D \<union> {cr_SHA256 c | man c. rooted M files u sha man \<and> c \<in> set (man_Chunks man)}"
  by (auto simp: rooted_chunks_def)

lemma loadForCheck_spec:
  assumes "loadForCheck M subject data res = (c, res')"
  shows "noted res res' \<and> vc_sha c = sha256 data
    \<and> (\<forall>man. vc_man c = Some man \<longleftrightarrow> mc_unmarshal M data = Some man \<and> sound_manifest man)
    \<and> (tracker_ok res' \<longrightarrow> vc_man c \<noteq> None)"
proof (cases "mc_unmarshal M data")
  case None
  then show ?thesis using assms by (auto simp: loadForCheck_def)
next
  case (Some man)
  obtain n v r where r: "checkRefs subject (man_Chunks man) 0 True res = (n, v, r)" by (cases "checkRefs subject (man_Chunks man) 0 True res") auto
  note R = checkRefs_spec [OF r]
  consider "\<not> supported_manifest man" | "supported_manifest man" "\<not> v" | "supported_manifest man" "v" "n \<noteq> man_TotalLength man"
    | "supported_manifest man" "v" "n = man_TotalLength man" by blast
  then show ?thesis
  proof cases
    case 1
    then show ?thesis using assms Some by (auto simp: loadForCheck_def sound_manifest_def)
  next
    case 2
    then show ?thesis using assms Some r R by (auto simp: loadForCheck_def sound_manifest_def)
  next
    case 3
    then have "res' = addIssue IssueInvalid subject r" "c = \<lparr>vc_sha = sha256 data, vc_man = None\<rparr>"
      using assms Some r by (simp_all add: loadForCheck_def)
    then show ?thesis using 3 Some R by (auto simp: sound_manifest_def)
  next
    case 4
    then have "res' = r" "c = \<lparr>vc_sha = sha256 data, vc_man = Some man\<rparr>"
      using assms Some r by (simp_all add: loadForCheck_def)
    then show ?thesis using 4 Some R by (auto simp: sound_manifest_def)
  qed
qed

lemma dom_want: "fmdom' (rr_ChunkLength (want scope bucket key chunks res)) = fmdom' (rr_ChunkLength res) \<union> cr_SHA256 ` set chunks"
proof -
  have "fmdom' (fold (\<lambda>c m. fmupd (cr_SHA256 c) (cr_Length c) m) chunks m) = fmdom' m \<union> cr_SHA256 ` set chunks" for m
    by (induction chunks arbitrary: m) auto
  then show ?thesis by (simp add: want_def)
qed

lemma want_frame [simp]:
  "rr_ReferencedManifests (want scope bucket key chunks res) = rr_ReferencedManifests res"
  "rr_ReferencedChunks (want scope bucket key chunks res) = rr_ReferencedChunks res"
  "tracker_ok (want scope bucket key chunks res) = tracker_ok res"
  "rr_JournalOK (want scope bucket key chunks res) = rr_JournalOK res"
  by (simp_all add: want_def tracker_ok_def)

text \<open>One root: if the result is still clean, the root's manifest is sound and its chunks are wanted.\<close>

lemma checkRoot_spec:
  assumes "scanned M files D P (cache, res)" "checkRoot M io files subject u sha (cache, res) = (mo, cache', res')"
  shows "rr_ReferencedChunks res' = {} \<and> rr_ChunkLength res' = rr_ChunkLength res \<and> (tracker_ok res' \<longrightarrow> tracker_ok res \<and> (\<exists>man. mo = Some man
     \<and> rooted M files u sha man) \<and> rr_ReferencedManifests res' = insert u (rr_ReferencedManifests res)
     \<and> (\<forall>v e. fmlookup cache' v = Some e \<longrightarrow> (\<exists>man. vc_man e = Some man \<and> rooted M files v (vc_sha e) man)))"
proof (cases "fmlookup cache u")
  case (Some c)
  show ?thesis
  proof (cases "vc_sha c = sha")
    case False
    then show ?thesis using assms Some addIssue_noted [of res IssueCorrupt subject]
      by (auto simp: checkRoot_def scanned_def noted_def)
  next
    case True
    then have run: "(mo, cache', res') = (case vc_man c of None \<Rightarrow> (None, cache, res)
        | Some man \<Rightarrow> (Some man, cache, res\<lparr>rr_ReferencedManifests := insert u (rr_ReferencedManifests res)\<rparr>))"
      using assms(2) Some by (simp add: checkRoot_def)
    have sound: "tracker_ok res \<Longrightarrow> \<exists>man. vc_man c = Some man \<and> rooted M files u sha man"
      using assms(1) Some True by (auto simp: scanned_def)
    show ?thesis
    proof (cases "vc_man c")
      case None
      then show ?thesis using run sound assms(1) by (auto simp: scanned_def)
    next
      case (Some man)
      then show ?thesis using run sound assms(1) by (auto simp: scanned_def tracker_ok_def)
    qed
  qed
next
  case None
  show ?thesis
  proof (cases "rc_man io u \<or> fmlookup files u = None")
    case True
    then have "\<not> tracker_ok res' \<and> noted res res'" using assms(2) None by (auto simp: checkRoot_def split: if_splits)
    then show ?thesis using assms(1) by (auto simp: scanned_def noted_def)
  next
    case False
    then obtain data where data: "\<not> rc_man io u" "fmlookup files u = Some data" by auto
    obtain c res1 where l: "loadForCheck M subject data res = (c, res1)" by fastforce
    note L = loadForCheck_spec [OF l]
    let ?res2 = "res1\<lparr>rr_ManifestsChecked := rr_ManifestsChecked res1 + 1\<rparr>"
    have n2: "noted res ?res2" "tracker_ok ?res2 = tracker_ok res1" using L by (simp_all add: noted_def tracker_ok_def)
    have run: "checkRoot M io files subject u sha (cache, res) = (if vc_sha c \<noteq> sha then (None, fmupd u c cache, addIssue IssueCorrupt subject ?res2)
        else case vc_man c of None \<Rightarrow> (None, fmupd u c cache, ?res2)
          | Some man \<Rightarrow> (Some man, fmupd u c cache, ?res2\<lparr>rr_ReferencedManifests := insert u (rr_ReferencedManifests ?res2)\<rparr>))"
      using None data l by (cases "vc_man c") (simp_all add: checkRoot_def)
    show ?thesis
    proof (cases "vc_sha c = sha")
      case False
      then have "noted ?res2 res'" "\<not> tracker_ok res'" using run assms(2) by auto
      then show ?thesis using noted_trans [OF n2(1)] assms(1) by (auto simp: noted_def scanned_def)
    next
      case True
      show ?thesis
      proof (cases "vc_man c")
        case None
        then have "res' = ?res2" "\<not> tracker_ok res'" using run assms(2) True L n2(2) by auto
        then show ?thesis using n2(1) assms(1) by (auto simp: noted_def scanned_def)
      next
        case (Some man)
        then have r: "mo = Some man" "cache' = fmupd u c cache" "res' = ?res2\<lparr>rr_ReferencedManifests := insert u (rr_ReferencedManifests ?res2)\<rparr>"
          using run assms(2) True by auto
        have "rooted M files u (vc_sha c) man" using L Some data by (auto simp: rooted_def)
        then show ?thesis using r n2 assms(1) True Some by (auto simp: noted_def scanned_def tracker_ok_def)
      qed
    qed
  qed
qed

lemma manifestRoot_step:
  assumes "scanned M files D P st"
  shows "scanned M files (insert (u, sha) D) P (manifestRoot M io files scope bucket key subject u sha st)"
proof -
  obtain cache res where st: "st = (cache, res)" by fastforce
  obtain mo cache' res' where c: "checkRoot M io files subject u sha (cache, res) = (mo, cache', res')"
    by (cases "checkRoot M io files subject u sha (cache, res)") auto
  note C = checkRoot_spec [OF assms [unfolded st] c]
  have e: "manifestRoot M io files scope bucket key subject u sha st
      = (case mo of None \<Rightarrow> (cache', res') | Some man \<Rightarrow> (cache', want scope bucket key (man_Chunks man) res'))"
    by (cases mo) (simp_all add: manifestRoot_def st c)
  show ?thesis
  proof (cases "tracker_ok res'")
    case False
    then show ?thesis using C unfolding e by (auto intro!: scanned_bad split: option.split)
  next
    case True
    then obtain man where m: "mo = Some man" "rooted M files u sha man" "tracker_ok res"
      "rr_ReferencedManifests res' = insert u (rr_ReferencedManifests res)"
      "\<forall>v e. fmlookup cache' v = Some e \<longrightarrow> (\<exists>man. vc_man e = Some man \<and> rooted M files v (vc_sha e) man)"
      using C by auto
    have "{cr_SHA256 c | man' c. rooted M files u sha man' \<and> c \<in> set (man_Chunks man')} = cr_SHA256 ` set (man_Chunks man)"
      using m(2) rooted_unique by blast
    then have d: "rooted_chunks M files (insert (u, sha) D) = rooted_chunks M files D \<union> cr_SHA256 ` set (man_Chunks man)"
      by (simp add: rooted_chunks_insert)
    have i: "rr_ReferencedManifests res = fst ` D" "fmdom' (rr_ChunkLength res) = rooted_chunks M files D \<union> cr_SHA256 ` P"
      "\<forall>u sha. (u, sha) \<in> D \<longrightarrow> (\<exists>man. rooted M files u sha man)" "\<forall>c \<in> P. decodeHexSHA256 (cr_SHA256 c) \<noteq> None"
      using assms m(3) unfolding st by (simp_all add: scanned_def)
    have "fmdom' (rr_ChunkLength (want scope bucket key (man_Chunks man) res'))
        = rooted_chunks M files (insert (u, sha) D) \<union> cr_SHA256 ` P"
      using C i(2) by (simp add: dom_want d Un_ac)
    moreover have "\<forall>v s. (v, s) \<in> insert (u, sha) D \<longrightarrow> (\<exists>man. rooted M files v s man)" using i(3) m(2) by blast
    ultimately show ?thesis using C i m(4,5) unfolding e m(1) by (simp add: scanned_def)
  qed
qed


section \<open>The walk over the live roots\<close>

lemma scanned_count:
  assumes "scanned M files D P (cache, res)"
  shows "scanned M files D P (cache, res\<lparr>rr_CurrentRootCount := n1\<rparr>)"
    and "scanned M files D P (cache, res\<lparr>rr_HistoricalRootCount := n2\<rparr>)"
    and "scanned M files D P (cache, res\<lparr>rr_SnapshotRootCount := n3\<rparr>)"
    and "scanned M files D P (cache, res\<lparr>rr_MultipartRootCount := n4\<rparr>)"
  using assms by (simp_all add: scanned_def tracker_ok_def)

lemma scanned_fold:
  assumes "\<And>x D st. scanned M files D P st \<Longrightarrow> scanned M files (R x \<union> D) P (step x st)" "scanned M files D P st"
  shows "scanned M files (\<Union> (R ` set xs) \<union> D) P (fold step xs st)"
  using assms(2)
proof (induction xs arbitrary: D st)
  case (Cons x xs)
  from Cons.IH [OF assms(1) [OF Cons.prems]] show ?case by (simp add: Un_ac)
qed simp

definition current_root :: "string \<times> string \<times> objectEntry \<Rightarrow> string \<times> digest" where
  "current_root = (\<lambda>(b, k, e). (oe_manifestUUID e, oe_manifestSHA256 e))"

definition history_root :: "string \<times> string \<times> historyVersionEntry \<Rightarrow> string \<times> digest" where
  "history_root = (\<lambda>(b, k, e). (hv_manifestUUID e, hv_manifestSHA256 e))"

definition entry_roots :: "snapshotEntryV1 \<Rightarrow> (string \<times> digest) set" where
  "entry_roots e = {(se_ManifestUUID e, dg) | dg. decodeHexSHA256 (se_ManifestSHA256 e) = Some dg}"

lemma currentRoot_step: "scanned M files D P st \<Longrightarrow> scanned M files ({current_root x} \<union> D) P (currentRoot M io files x st)"
  by (cases x; cases st) (auto simp: currentRoot_def current_root_def intro!: manifestRoot_step scanned_count)

lemma historyRoot_step: "scanned M files D P st \<Longrightarrow> scanned M files ({history_root x} \<union> D) P (historyRoot M io files x st)"
  by (cases x; cases st) (auto simp: historyRoot_def history_root_def intro!: manifestRoot_step scanned_count)

lemma snapshotRoot_step: "scanned M files D P st \<Longrightarrow> scanned M files (entry_roots e \<union> D) P (snapshotRoot M io files d e st)"
proof (cases "decodeHexSHA256 (se_ManifestSHA256 e)")
  case None
  assume "scanned M files D P st"
  then show ?thesis using None
    by (cases st) (auto simp: snapshotRoot_def entry_roots_def Let_def intro: scanned_noted [OF scanned_count(3) addIssue_noted])
next
  case (Some dg)
  assume "scanned M files D P st"
  then show ?thesis using Some
    by (cases st) (auto simp: snapshotRoot_def entry_roots_def Let_def intro!: manifestRoot_step scanned_count)
qed

lemma partRoot_step:
  assumes "scanned M files D P (cache, res)"
  shows "scanned M files D (set (mp_chunks p) \<union> P) (cache, partRoot up p res)"
proof -
  let ?res1 = "res\<lparr>rr_MultipartRootCount := rr_MultipartRootCount res + 1\<rparr>"
  obtain valid r where v: "validPartChunks (partSubject up p) (mp_chunks p) ?res1 = (valid, r)"
    by (cases "validPartChunks (partSubject up p) (mp_chunks p) ?res1") auto
  note V = validPartChunks_spec [OF v]
  have s: "scanned M files D P (cache, r)" using scanned_noted [OF scanned_count(4) [OF assms]] V by blast
  have run: "partRoot up p res = want ScopeMultipart (mu_bucket up) (mu_key up) valid r" using v by (simp add: partRoot_def)
  show ?thesis
  proof (cases "tracker_ok r")
    case False
    then show ?thesis using s unfolding run by (simp add: scanned_def)
  next
    case True
    then have "set valid = set (mp_chunks p)" using V by blast
    then show ?thesis using s True V unfolding run by (auto simp: scanned_def dom_want)
  qed
qed

lemma partRoots_step:
  assumes "scanned M files D P (cache, res)"
  shows "scanned M files D ((\<Union>n \<in> set ns. set (mp_chunks (f n))) \<union> P) (cache, fold (\<lambda>n. partRoot up (f n)) ns res)"
  using assms
proof (induction ns arbitrary: P res)
  case (Cons n ns)
  from Cons.IH [OF partRoot_step [OF Cons.prems]] show ?case by (simp add: Un_ac)
qed simp

definition upload_refs :: "multipartUpload \<Rightarrow> chunkRef set" where
  "upload_refs up = {c | n p c. fmlookup (mu_parts up) n = Some p \<and> c \<in> set (mp_chunks p)}"

lemma uploadRoots_step:
  assumes "scanned M files D P (cache, res)"
  shows "scanned M files D (\<Union> (upload_refs ` set ups) \<union> P) (cache, fold uploadRoots ups res)"
  using assms
proof (induction ups arbitrary: P res)
  case (Cons up ups)
  have "(\<Union>n \<in> set (sorted_keys (mu_parts up)). set (mp_chunks (the (fmlookup (mu_parts up) n)))) = upload_refs up"
    by (force simp: upload_refs_def fmlookup_dom_iff)
  then have "scanned M files D (upload_refs up \<union> P) (cache, uploadRoots up res)"
    using partRoots_step [OF Cons.prems, where ns = "sorted_keys (mu_parts up)" and f = "\<lambda>n. the (fmlookup (mu_parts up) n)" and up = up]
    by (simp add: uploadRoots_def)
  from Cons.IH [OF this] show ?case by (simp add: Un_ac)
qed simp

lemma issues_step: "scanned M files D P (cache, res) \<Longrightarrow> scanned M files D P (cache, fold (\<lambda>i. addIssue (vi_Kind i) (vi_Subject i)) is res)"
proof (induction "is" arbitrary: res)
  case (Cons i "is")
  from Cons.IH [OF scanned_noted [OF Cons.prems addIssue_noted]] show ?case by simp
qed simp

lemma issues_clean:
  assumes "tracker_ok (fold (\<lambda>i. addIssue (vi_Kind i) (vi_Subject i)) is res)"
  shows "is = [] \<and> tracker_ok res"
proof -
  have n: "tracker_ok (fold (\<lambda>i. addIssue (vi_Kind i) (vi_Subject i)) is r) \<Longrightarrow> tracker_ok r" for r "is"
  proof (induction "is" arbitrary: r)
    case (Cons i "is")
    from Cons.IH [of "addIssue (vi_Kind i) (vi_Subject i) r"] Cons.prems show ?case by simp
  qed simp
  show ?thesis
  proof (cases "is")
    case Nil
    then show ?thesis using assms by simp
  next
    case (Cons i js)
    then show ?thesis using assms n [of js "addIssue (vi_Kind i) (vi_Subject i) res"] by simp
  qed
qed

section \<open>The chunk pass\<close>

lemma checkChunk_step:
  assumes "checkChunk Z io deep cas sha (res, bad) = (res', bad')"
  shows "rr_ReferencedChunks res' = insert sha (rr_ReferencedChunks res) \<and> rr_ChunkLength res' = rr_ChunkLength res
    \<and> rr_ReferencedManifests res' = rr_ReferencedManifests res \<and> rr_JournalOK res' = rr_JournalOK res
    \<and> (tracker_ok res' \<longrightarrow> tracker_ok res \<and> (\<forall>dg. decodeHexSHA256 sha = Some dg \<longrightarrow>
        bad' = bad \<and> chunkVerdict Z io deep cas dg (the (fmlookup (rr_ChunkLength res) sha)) = None))"
proof -
  note A = addIssue_noted [of "res\<lparr>rr_ReferencedChunks := insert sha (rr_ReferencedChunks res), rr_ChunksChecked := rr_ChunksChecked res + 1\<rparr>"]
  show ?thesis
  proof (cases "decodeHexSHA256 sha")
    case None
    then show ?thesis using assms by (auto simp: checkChunk_def Let_def tracker_ok_def)
  next
    case (Some dg)
    show ?thesis
    proof (cases "chunkVerdict Z io deep cas dg (the (fmlookup (rr_ChunkLength res) sha))")
      case None
      then show ?thesis using assms Some by (auto simp: checkChunk_def Let_def tracker_ok_def)
    next
      case (Some kind)
      then have "res' = addIssue kind (''chunk '' @ sha)
          (res\<lparr>rr_ReferencedChunks := insert sha (rr_ReferencedChunks res), rr_ChunksChecked := rr_ChunksChecked res + 1\<rparr>)"
        using assms \<open>decodeHexSHA256 sha = Some dg\<close> by (simp add: checkChunk_def Let_def)
      then show ?thesis using A [of kind "''chunk '' @ sha"] by (auto simp: noted_def)
    qed
  qed
qed

lemma checkChunks:
  assumes "fold (checkChunk Z io deep cas) xs (res, bad) = (res', bad')"
  shows "rr_ReferencedChunks res' = set xs \<union> rr_ReferencedChunks res \<and> rr_ReferencedManifests res' = rr_ReferencedManifests res
    \<and> rr_JournalOK res' = rr_JournalOK res
    \<and> (tracker_ok res' \<longrightarrow> tracker_ok res \<and> ((\<forall>sha \<in> set xs. decodeHexSHA256 sha \<noteq> None) \<longrightarrow>
        bad' = bad \<and> (\<forall>sha \<in> set xs. chunkVerdict Z io deep cas (the (decodeHexSHA256 sha)) (the (fmlookup (rr_ChunkLength res) sha)) = None)))"
  using assms
proof (induction xs arbitrary: res bad)
  case (Cons x xs)
  obtain r i where c: "checkChunk Z io deep cas x (res, bad) = (r, i)" by (cases "checkChunk Z io deep cas x (res, bad)") auto
  note S = checkChunk_step [OF c]
  have "fold (checkChunk Z io deep cas) xs (r, i) = (res', bad')" using Cons.prems c by simp
  note I = Cons.IH [OF this]
  show ?case using S I by auto
qed simp

text \<open>A chunk the pass accepts is in a valid pack or in the loose area; a deep pass has read and verified it.\<close>

definition chunk_present :: "flate_codec \<Rightarrow> reach_io \<Rightarrow> bool \<Rightarrow> casState \<Rightarrow> digest \<Rightarrow> bool" where
  "chunk_present Z io deep cas dg \<longleftrightarrow> (ps_lookup (cs_packs cas) dg \<noteq> None \<or> fmlookup (cs_loose cas) dg \<noteq> None)
     \<and> (deep \<longrightarrow> is_ok (casRead Z (rc_read io dg) dg cas))"

lemma chunkVerdict_present: "chunkVerdict Z io deep cas dg len = None \<Longrightarrow> chunk_present Z io deep cas dg"
  by (cases "casRead Z (rc_read io dg) dg cas")
    (auto simp: chunkVerdict_def chunk_present_def Let_def split: option.splits if_splits)

section \<open>The live roots\<close>

definition live_roots :: "snap_codec \<Rightarrow> site \<Rightarrow> (string \<times> digest) set" where
  "live_roots K s = (let ns = s_ns (sy_store (st_sys s)) in
     {(oe_manifestUUID e, oe_manifestSHA256 e) | bn b k e. fmlookup (ns_buckets ns) bn = Some b \<and> fmlookup (be_objects b) k = Some e}
     \<union> {(hv_manifestUUID e, hv_manifestSHA256 e) | bn ks k es e. fmlookup (ns_history ns) bn = Some ks \<and> fmlookup ks k = Some es \<and> e \<in> set es}
     \<union> {r. \<exists>i d e. readSnapshot K (\<lambda>_. False) i (st_snaps s) = Inr d \<and> e \<in> set (sd_Entries d) \<and> r \<in> entry_roots e})"

definition live_refs :: "site \<Rightarrow> chunkRef set" where
  "live_refs s = \<Union> {upload_refs up | i up. fmlookup (ns_uploads (s_ns (sy_store (st_sys s)))) i = Some up}"

lemma set_snapshotNamespace:
  "set (snapshotNamespace ns) = {(bn, k, e) | bn b k e. fmlookup (ns_buckets ns) bn = Some b \<and> fmlookup (be_objects b) k = Some e}"
  by (force simp: snapshotNamespace_def Let_def fmlookup_dom_iff)

lemma set_snapshotHistory:
  "set (snapshotHistory ns) = {(bn, k, e) | bn ks k es e. fmlookup (ns_history ns) bn = Some ks \<and> fmlookup ks k = Some es \<and> e \<in> set es}"
  by (force simp: snapshotHistory_def Let_def fmlookup_dom_iff)

lemma set_snapshotUploads: "set (snapshotUploads ns) = {up. \<exists>i. fmlookup (ns_uploads ns) i = Some up}"
  by (force simp: snapshotUploads_def fmlookup_dom_iff)

lemma set_scanOrder:
  assumes "\<forall>xs. mset (order xs) = mset xs"
  shows "set (scanOrder obs order key xs) = set xs"
  using assms mset_eq_setD [of "order xs" xs] by (auto simp: scanOrder_def)

lemma trim_snapshotPath: "has_suffix name ''.snap'' \<Longrightarrow> snapshotPath (trim_suffix name ''.snap'') = name"
proof -
  assume "has_suffix name ''.snap''"
  then obtain zs where "rev name = rev ''.snap'' @ zs" by (auto simp: has_suffix_def has_prefix_iff)
  then have "name = rev zs @ ''.snap''" by (metis rev_append rev_rev_ident)
  with \<open>has_suffix name ''.snap''\<close> show ?thesis by (simp only: snapshotPath_def trim_suffix_def if_True) simp
qed

lemma snapshotPath_trim: "has_suffix (snapshotPath i) ''.snap''" "trim_suffix (snapshotPath i) ''.snap'' = i"
  by (simp_all add: snapshotPath_def trim_suffix_def has_suffix_def has_prefix_def)

text \<open>A catalog scan without issues returns exactly the snapshots that can be read.\<close>

lemma scanSnapshots_clean:
  assumes "scanSnapshots K rdir fails files = (valid, [])"
  shows "set valid = {d. \<exists>i. readSnapshot K (\<lambda>_. False) i files = Inr d}"
proof -
  define rs where "rs = scanResults K fails files"
  have rd: "\<not> rdir" using assms by (auto simp: scanSnapshots_def split: if_splits)
  then have p: "set valid = set (List.map_filter (\<lambda>r. case r of Inr d \<Rightarrow> Some d | Inl _ \<Rightarrow> None) rs)"
    "List.map_filter (\<lambda>r. case r of Inl i \<Rightarrow> Some i | Inr _ \<Rightarrow> None) rs = []"
    using assms by (auto simp: scanSnapshots_def Let_def rs_def [symmetric])
  have all: "is_ok r" if "r \<in> set rs" for r
  proof (rule ccontr)
    assume "\<not> is_ok r"
    then obtain i where "r = Inl i" by (cases r) auto
    with that have "i \<in> set (List.map_filter (\<lambda>r. case r of Inl i \<Rightarrow> Some i | Inr _ \<Rightarrow> None) rs)"
      by (force simp: List.map_filter_def)
    then show False by (simp add: p(2))
  qed
  have v: "set valid = {d. Inr d \<in> set rs}" unfolding p(1) by (force simp: List.map_filter_def split: sum.splits)
  show ?thesis
  proof (intro set_eqI iffI)
    fix d assume "d \<in> set valid"
    then obtain name ent where n: "fmlookup files name = Some ent" "scanSnapshot K fails name ent = Inr d"
      using v by (auto simp: scanResults_def rs_def fmlookup_dom_iff)
    define i where "i = trim_suffix name ''.snap''"
    obtain data where c: "ent = DirFile data" "has_suffix name ''.snap''" "validSnapshotID i"
      "decodeSnapshotDescriptor K data = Inr d" "sd_SnapshotID d = i"
      using n(2) by (auto simp: scanSnapshot_def Let_def i_def split: dirent.splits if_splits sum.splits)
    then show "d \<in> {d. \<exists>i. readSnapshot K (\<lambda>_. False) i files = Inr d}"
      using n(1) trim_snapshotPath [OF c(2)] by (auto simp: readSnapshot_def readSnapshotFrame_def i_def intro!: exI [of _ i])
  next
    fix d assume "d \<in> {d. \<exists>i. readSnapshot K (\<lambda>_. False) i files = Inr d}"
    then obtain i data where c: "validSnapshotID i" "fmlookup files (snapshotPath i) = Some (DirFile data)"
      "decodeSnapshotDescriptor K data = Inr d" "sd_SnapshotID d = i"
      by (auto simp: readSnapshot_def readSnapshotFrame_def split: if_splits option.splits dirent.splits sum.splits)
    have "scanSnapshot K fails (snapshotPath i) (DirFile data) \<in> set rs"
      using c(2) by (force simp: rs_def scanResults_def fmlookup_dom_iff)
    moreover have "scanSnapshot K fails (snapshotPath i) (DirFile data) = (if fails (snapshotPath i) then Inl \<lparr>vi_Kind = IssueMissing, vi_Subject = ''snapshot:'' @ i\<rparr> else Inr d)"
      using c by (simp add: scanSnapshot_def snapshotPath_trim Let_def)
    ultimately show "d \<in> set valid" using v all [of "scanSnapshot K fails (snapshotPath i) (DirFile data)"] by (auto split: if_splits)
  qed
qed


section \<open>A clean scan covers everything live\<close>

lemma current_root_image:
  "current_root ` {(bn, k, e) | bn b k e. P bn b k e} = {(oe_manifestUUID e, oe_manifestSHA256 e) | bn b k e. P bn b k e}"
proof -
  have "(oe_manifestUUID e, oe_manifestSHA256 e) \<in> current_root ` {(bn, k, e) | bn b k e. P bn b k e}" if "P bn b k e" for bn b k e
    using that by (intro image_eqI [of _ _ "(bn, k, e)"]) (auto simp: current_root_def)
  then show ?thesis by (auto simp: current_root_def)
qed

lemma history_root_image:
  "history_root ` {(bn, k, e) | bn ks k es e. P bn ks k es e} = {(hv_manifestUUID e, hv_manifestSHA256 e) | bn ks k es e. P bn ks k es e}"
proof -
  have "(hv_manifestUUID e, hv_manifestSHA256 e) \<in> history_root ` {(bn, k, e) | bn ks k es e. P bn ks k es e}" if "P bn ks k es e" for bn ks k es e
    using that by (intro image_eqI [of _ _ "(bn, k, e)"]) (auto simp: history_root_def)
  then show ?thesis by (auto simp: history_root_def) blast
qed

lemma clean_scan:
  assumes "orders_ok io" "computeReachabilityObserved M K Z io deep obs s = Inr rr" "reach_OK rr"
  shows "(\<forall>(u, sha) \<in> live_roots K s. \<exists>man. rooted M (sy_manifests (st_sys s)) u sha man)
    \<and> rr_ReferencedManifests rr = fst ` live_roots K s
    \<and> rr_ReferencedChunks rr = rooted_chunks M (sy_manifests (st_sys s)) (live_roots K s) \<union> cr_SHA256 ` live_refs s
    \<and> rr_ValidChunks rr = rr_ReferencedChunks rr
    \<and> (\<forall>sha \<in> rr_ReferencedChunks rr. \<exists>dg. decodeHexSHA256 sha = Some dg \<and> chunk_present Z io deep (sy_cas (st_sys s)) dg)
    \<and> is_ok (replayJournal (rc_journal io) (j_f (s_journal (sy_store (st_sys s)))))"
proof -
  define sy where "sy = st_sys s"
  define ns where "ns = s_ns (sy_store sy)"
  define files where "files = sy_manifests sy"
  define res0 where "res0 = (case replayJournal (rc_journal io) (j_f (s_journal (sy_store sy))) of
      Inl _ \<Rightarrow> addIssue IssueCorrupt ''journal/visibility.log'' empty_result
    | Inr (_, _, records) \<Rightarrow> empty_result\<lparr>rr_JournalFramesChecked := length records, rr_JournalOK := True\<rparr>)"
  define os where "os = scanOrder obs (rc_objects io) (\<lambda>(b, k, e). (b, k)) (snapshotNamespace ns)"
  define us where "us = scanOrder obs (rc_uploads io) (\<lambda>up. (mu_bucket up, mu_key up, mu_uploadID up)) (snapshotUploads ns)"
  define hs where "hs = scanOrder obs (rc_history io) (\<lambda>(b, k, e). (b, k, - uint (hv_seq e))) (snapshotHistory ns)"
  obtain cache1 res1 where s1: "fold (currentRoot M io files) os (fmempty, res0) = (cache1, res1)" by fastforce
  define res2 where "res2 = fold uploadRoots us res1"
  obtain snaps issues where sn: "scanSnapshots K (rc_snapdir io) (rc_snap io) (st_snaps s) = (snaps, issues)" by fastforce
  define res3 where "res3 = fold (\<lambda>i. addIssue (vi_Kind i) (vi_Subject i)) issues res2"
  define st4 where "st4 = fold (\<lambda>d. fold (snapshotRoot M io files d) (sd_Entries d)) snaps (cache1, res3)"
  obtain cache5 res5 where s5: "fold (historyRoot M io files) hs st4 = (cache5, res5)" by fastforce
  define cs where "cs = rc_chunks io (sorted_keys (rr_ChunkLength res5))"
  obtain res6 bad where s6: "fold (checkChunk Z io deep (sy_cas sy)) cs (res5, []) = (res6, bad)" by fastforce
  have rr: "rr = res6\<lparr>rr_ValidChunks := rr_ReferencedChunks res6 - set bad\<rparr>"
    using assms(2) unfolding computeReachabilityObserved_def Let_def sy_def [symmetric] ns_def [symmetric] files_def [symmetric]
      res0_def [symmetric] os_def [symmetric] us_def [symmetric] hs_def [symmetric] s1 sn
    by (simp add: res2_def [symmetric] res3_def [symmetric] st4_def [symmetric] s5 cs_def [symmetric] s6 split: if_split_asm)
  then have ok6: "tracker_ok res6" "rr_JournalOK res6" using assms(3) by (simp_all add: reach_OK_def tracker_ok_def)
  note C = checkChunks [OF s6]
  have walk1: "scanned M files (current_root ` set os \<union> D) (\<Union> (upload_refs ` set us) \<union> P) (cache1, res3)"
    if "scanned M files D P (fmempty, res0)" for D P
  proof -
    from scanned_fold [where R = "\<lambda>x. {current_root x}" and step = "currentRoot M io files" and xs = os, OF currentRoot_step that]
    have "scanned M files (current_root ` set os \<union> D) P (cache1, res1)" by (simp add: s1 UNION_singleton_eq_range)
    from issues_step [OF uploadRoots_step [OF this]] show ?thesis by (simp add: res2_def res3_def)
  qed
  have walk2: "scanned M files (history_root ` set hs \<union> (\<Union>d \<in> set snaps. \<Union> (entry_roots ` set (sd_Entries d))) \<union> D) P (cache5, res5)"
    if i: "scanned M files D P (cache1, res3)" for D P
  proof -
    have "scanned M files (\<Union> (entry_roots ` set (sd_Entries d)) \<union> D') P' (fold (snapshotRoot M io files d) (sd_Entries d) st)"
      if "scanned M files D' P' st" for d D' P' st
      by (rule scanned_fold [where R = entry_roots, OF snapshotRoot_step that])
    from scanned_fold [where R = "\<lambda>d. \<Union> (entry_roots ` set (sd_Entries d))" and xs = snaps, OF this i]
    have "scanned M files ((\<Union>d \<in> set snaps. \<Union> (entry_roots ` set (sd_Entries d))) \<union> D) P st4" by (simp add: st4_def)
    from scanned_fold [where R = "\<lambda>x. {history_root x}" and step = "historyRoot M io files" and xs = hs, OF historyRoot_step this] show ?thesis
      by (simp add: s5 UNION_singleton_eq_range Un_ac)
  qed
  have ok5: "tracker_ok res5" using C ok6(1) by blast
  let ?D = "{([], 0), ([], 1)} :: (string \<times> digest) set"
  have clash: "\<not> tracker_ok res" if "scanned M files D P (cache, res)" "?D \<subseteq> D" for D P cache res
    using that rooted_unique [of M files "[]" 0 _ 1] by (force simp: scanned_def)
  have r0: "rr_ReferencedChunks res0 = {}"
    by (auto simp: res0_def empty_result_def addIssue_def Let_def split: sum.split issue_kind.split)
  have z: "scanned M files {} {} (fmempty, res0) \<and> is_ok (replayJournal (rc_journal io) (j_f (s_journal (sy_store sy))))" if "tracker_ok res0"
    using that r0 by (auto simp: res0_def empty_result_def scanned_def rooted_chunks_def split: sum.split_asm prod.split_asm)
  have "\<exists>D P. scanned M files D P (cache1, res3)" using walk1 z scanned_bad [OF r0] by blast
  then have r3: "rr_ReferencedChunks res3 = {}" by (auto simp: scanned_def)
  have ok3: "tracker_ok res3" using walk2 [OF scanned_bad [OF r3, where D = "?D"]] clash ok5 by blast
  have ok0: "tracker_ok res0" using walk1 [OF scanned_bad [OF r0, where D = "?D"]] clash ok3 by blast
  have clean: "issues = []" using issues_clean [of issues res2] ok3 by (simp add: res3_def)
  let ?R = "history_root ` set hs \<union> (\<Union>d \<in> set snaps. \<Union> (entry_roots ` set (sd_Entries d))) \<union> current_root ` set os"
  let ?P = "\<Union> (upload_refs ` set us)"
  have W: "scanned M files ?R ?P (cache5, res5)" using walk2 [OF walk1 [OF conjunct1 [OF z [OF ok0]]]] by simp
  note orders = assms(1) [unfolded orders_ok_def]
  then have so: "set os = set (snapshotNamespace ns)" and sh: "set hs = set (snapshotHistory ns)"
    and su: "set us = set (snapshotUploads ns)"
    unfolding os_def hs_def us_def by (blast intro!: set_scanOrder)+
  have cur: "current_root ` set os = {(oe_manifestUUID e, oe_manifestSHA256 e) | bn b k e.
      fmlookup (ns_buckets ns) bn = Some b \<and> fmlookup (be_objects b) k = Some e}"
    unfolding so set_snapshotNamespace by (rule current_root_image)
  have hist: "history_root ` set hs = {(hv_manifestUUID e, hv_manifestSHA256 e) | bn ks k es e.
      fmlookup (ns_history ns) bn = Some ks \<and> fmlookup ks k = Some es \<and> e \<in> set es}"
    unfolding sh set_snapshotHistory by (rule history_root_image)
  have snap: "(\<Union>d \<in> set snaps. \<Union> (entry_roots ` set (sd_Entries d)))
      = {r. \<exists>i d e. readSnapshot K (\<lambda>_. False) i (st_snaps s) = Inr d \<and> e \<in> set (sd_Entries d) \<and> r \<in> entry_roots e}"
    using scanSnapshots_clean [OF sn [unfolded clean]] by blast
  have roots: "?R = live_roots K s"
    unfolding cur hist snap live_roots_def Let_def by (simp add: sy_def ns_def Un_ac)
  have refs: "?P = live_refs s"
    unfolding su by (simp add: live_refs_def set_snapshotUploads sy_def [symmetric] ns_def [symmetric]) blast
  have cs: "set cs = fset (fmdom (rr_ChunkLength res5))"
    using assms(1) mset_eq_setD [of cs "sorted_keys (rr_ChunkLength res5)"] by (simp add: cs_def orders_ok_def)
  have inv: "rr_ReferencedManifests res5 = fst ` live_roots K s"
    "set cs = rooted_chunks M files (live_roots K s) \<union> cr_SHA256 ` live_refs s"
    "\<And>u sha. (u, sha) \<in> live_roots K s \<Longrightarrow> \<exists>man. rooted M files u sha man"
    "\<And>c. c \<in> live_refs s \<Longrightarrow> decodeHexSHA256 (cr_SHA256 c) \<noteq> None" "rr_ReferencedChunks res5 = {}"
    using W ok5 unfolding roots refs by (auto simp: scanned_def cs fmdom'_alt_def)
  have hexs: "\<forall>sha \<in> set cs. decodeHexSHA256 sha \<noteq> None"
    using inv(2,4) by (auto simp: rooted_chunks_def rooted_def sound_manifest_def ref_ok_def)
  have bad: "bad = []" and pres: "\<forall>sha \<in> set cs. \<exists>dg. decodeHexSHA256 sha = Some dg \<and> chunk_present Z io deep (sy_cas sy) dg"
    using C ok6(1) hexs chunkVerdict_present by fastforce+
  have chunks: "rr_ReferencedChunks rr = set cs" "rr_ValidChunks rr = set cs" "rr_ReferencedManifests rr = rr_ReferencedManifests res5"
    using C inv(5) by (simp_all add: rr bad)
  show ?thesis
    using inv(1-3) pres z [OF ok0] unfolding chunks sy_def [symmetric] files_def [symmetric] by blast
qed

text \<open>C24: A scan that reports no issue has found exactly what is live. Every current object,
  every history version and every entry of every readable snapshot names a manifest file whose
  hash is the recorded one and which is structurally sound; the referenced manifests are exactly
  those, the referenced chunks are exactly the ones these manifests and the parts of all uploads
  in progress name. Every one of them is present (a deep scan has read and verified its bytes),
  is in the set of valid chunks, and the journal replays.\<close>

theorem clean_scan_covers_live_data:
  assumes "orders_ok io" "computeReachabilityObserved M K Z io deep obs s = Inr rr" "reach_OK rr"
  shows "(\<forall>(u, sha) \<in> live_roots K s. \<exists>man. rooted M (sy_manifests (st_sys s)) u sha man)
    \<and> rr_ReferencedManifests rr = fst ` live_roots K s
    \<and> rr_ReferencedChunks rr = rooted_chunks M (sy_manifests (st_sys s)) (live_roots K s) \<union> cr_SHA256 ` live_refs s
    \<and> rr_ValidChunks rr = rr_ReferencedChunks rr
    \<and> (\<forall>sha \<in> rr_ReferencedChunks rr. \<exists>dg. decodeHexSHA256 sha = Some dg \<and> chunk_present Z io deep (sy_cas (st_sys s)) dg)
    \<and> is_ok (replayJournal (rc_journal io) (j_f (s_journal (sy_store (st_sys s)))))"
  by (rule clean_scan [OF assms])


text \<open>A site with one object of one byte, whose chunk is a loose file.\<close>

definition live_man :: manifestV1 where
  "live_man = \<lparr>man_ManifestFormatVersion = 1, man_CDCFormatVersion = 1, man_HashAlgorithm = ''sha256'', man_ManifestUUID = sample_id,
     man_TotalLength = 1, man_Chunks = [chunk_ref [65]], man_ObjectSHA256 = hex_encode (digest_bytes (sha256 [65])), man_ETag = [], man_ContentType = [], man_Metadata = [],
     man_CreatedAt = 7, man_VersionID = []\<rparr>"

definition live_codec :: man_codec where
  "live_codec = \<lparr>mc_marshal = (\<lambda>_. None), mc_unmarshal = (\<lambda>b. if b = [1] then Some live_man else None)\<rparr>"

definition no_snapshots :: snap_codec where
  "no_snapshots = \<lparr>sc_marshal = (\<lambda>_. None), sc_unmarshal = (\<lambda>_. None)\<rparr>"

definition live_site :: site where
  "live_site = \<lparr>st_sys = \<lparr>sy_store = snapshot_store, sy_cas = empty_cas\<lparr>cs_loose := fmupd (sha256 [65]) [65] fmempty\<rparr>,
     sy_manifests = fmupd sample_id [1] fmempty\<rparr>, st_snaps = fmempty\<rparr>"

definition quiet_io :: reach_io where
  "quiet_io = \<lparr>rc_open = False, rc_journal = (\<lambda>_. False), rc_man = (\<lambda>_. False), rc_snapdir = False, rc_snap = (\<lambda>_. False),
     rc_stat = (\<lambda>_. False), rc_read = (\<lambda>_. False), rc_objects = id, rc_uploads = id, rc_history = id, rc_chunks = id\<rparr>"

lemma quiet_orders: "orders_ok quiet_io"
  by (simp add: orders_ok_def quiet_io_def)

lemma sorted_keys_one [simp]: "sorted_keys (fmupd k v fmempty) = [k]" and sorted_keys_none [simp]: "sorted_keys fmempty = []"
  by (simp_all add: sorted_keys_def sorted_list_of_fset.rep_eq)

lemma replay_empty: "replayJournal (\<lambda>_. False) [] = Inr (0, 0, [])"
  by (subst replayJournal_def, subst replayLoop.simps) (simp add: read_at_def journalHeaderSize_def)

lemma live_scan:
  "\<exists>rr. computeReachability live_codec no_snapshots stored_flate quiet_io True live_site = Inr rr \<and> reach_OK rr"
proof -
  let ?files = "sy_manifests (st_sys live_site)" and ?res = "empty_result\<lparr>rr_JournalFramesChecked := 0, rr_JournalOK := True\<rparr>"
  have ns: "snapshotNamespace (s_ns snapshot_store) = [(''b'', ''k'', snapshot_entry)]"
    "snapshotHistory (s_ns snapshot_store) = []" "snapshotUploads (s_ns snapshot_store) = []"
    by (simp_all add: snapshotNamespace_def snapshotHistory_def snapshotUploads_def snapshot_store_def empty_namespace_def)
  have l: "loadForCheck live_codec subj [1] r = (\<lparr>vc_sha = sha256 [1], vc_man = Some live_man\<rparr>, r)" for subj r
    by (simp add: loadForCheck_def live_codec_def live_man_def supported_manifest_def chunk_ref_def add64_def)
  obtain res1 where c1: "currentRoot live_codec quiet_io ?files (''b'', ''k'', snapshot_entry) (fmempty, ?res)
      = (fmupd sample_id \<lparr>vc_sha = sha256 [1], vc_man = Some live_man\<rparr> fmempty, res1)"
    "rr_ChunkLength res1 = fmupd (cr_SHA256 (chunk_ref [65])) 1 fmempty" "tracker_ok res1" "rr_JournalOK res1"
    by (simp add: currentRoot_def manifestRoot_def checkRoot_def live_site_def quiet_io_def l snapshot_entry_def want_def live_man_def
        tracker_ok_def empty_result_def chunk_ref_def)
  have rd: "chunkVerdict stored_flate quiet_io True (sy_cas (st_sys live_site)) (sha256 [65]) 1 = None"
    by (simp add: chunkVerdict_def live_site_def empty_cas_def ps_lookup_def ps_best_def quiet_io_def casRead_def casReadExcluding_def appendLocs_def
        readLooseCopy_def)
  have sc: "scanSnapshots no_snapshots False (\<lambda>_. False) fmempty = ([], [])"
    by (simp add: scanSnapshots_def scanResults_def List.map_filter_def)
  obtain res2 bad where c2: "checkChunk stored_flate quiet_io True (sy_cas (st_sys live_site)) (cr_SHA256 (chunk_ref [65])) (res1, [])
      = (res2, bad)" "tracker_ok res2" "rr_JournalOK res2"
    using c1 rd by (simp add: checkChunk_def chunk_ref_def tracker_ok_def)
  have site: "j_f (s_journal (sy_store (st_sys live_site))) = []" "s_ns (sy_store (st_sys live_site)) = s_ns snapshot_store"
    "st_snaps live_site = fmempty"
    by (simp_all add: live_site_def snapshot_store_def sample_sys_def empty_journal_def)
  have quiet: "\<not> rc_open quiet_io" "rc_journal quiet_io = (\<lambda>_. False)" "\<not> rc_snapdir quiet_io" "rc_snap quiet_io = (\<lambda>_. False)"
    "rc_objects quiet_io = id" "rc_uploads quiet_io = id" "rc_history quiet_io = id" "rc_chunks quiet_io = id"
    by (simp_all add: quiet_io_def)
  have "computeReachability live_codec no_snapshots stored_flate quiet_io True live_site
      = Inr (res2\<lparr>rr_ValidChunks := rr_ReferencedChunks res2 - set bad\<rparr>)"
    using c1(1,2) c2(1) by (simp add: computeReachability_def computeReachabilityObserved_def quiet site ns sc replay_empty scanOrder_def)
  then show ?thesis using c2 by (simp add: reach_OK_def tracker_ok_def)
qed

theorem clean_scan_covers_live_data_witness:
  "\<exists>rr. computeReachabilityObserved live_codec no_snapshots stored_flate quiet_io True False live_site = Inr rr
     \<and> sample_id \<in> rr_ReferencedManifests rr \<and> hex_encode (digest_bytes (sha256 [65])) \<in> rr_ValidChunks rr"
proof -
  obtain rr where rr: "computeReachabilityObserved live_codec no_snapshots stored_flate quiet_io True False live_site = Inr rr" "reach_OK rr"
    using live_scan by (auto simp: computeReachability_def)
  note T = clean_scan_covers_live_data [OF quiet_orders rr]
  have r: "(sample_id, sha256 [1]) \<in> live_roots no_snapshots live_site"
    by (force simp: live_roots_def live_site_def snapshot_store_def snapshot_entry_def)
  with T obtain man where m: "rooted live_codec (sy_manifests (st_sys live_site)) sample_id (sha256 [1]) man" by blast
  then have "man = live_man" by (auto simp: rooted_def live_site_def live_codec_def)
  then have c: "chunk_ref [65] \<in> set (man_Chunks man)" by (simp add: live_man_def)
  have "cr_SHA256 (chunk_ref [65]) \<in> rooted_chunks live_codec (sy_manifests (st_sys live_site)) (live_roots no_snapshots live_site)"
    unfolding rooted_chunks_def using r m c by blast
  moreover have e: "rr_ValidChunks rr = rr_ReferencedChunks rr" "rr_ReferencedManifests rr = fst ` live_roots no_snapshots live_site"
    "rr_ReferencedChunks rr = rooted_chunks live_codec (sy_manifests (st_sys live_site)) (live_roots no_snapshots live_site)
      \<union> cr_SHA256 ` live_refs live_site"
    using T by blast+
  ultimately have "cr_SHA256 (chunk_ref [65]) \<in> rr_ValidChunks rr" by blast
  then have "hex_encode (digest_bytes (sha256 [65])) \<in> rr_ValidChunks rr" by (simp add: chunk_ref_def)
  moreover have "sample_id \<in> rr_ReferencedManifests rr" using e(2) r by force
  ultimately show ?thesis using rr by blast
qed

end
