(* ===== verification/PackLoad.thy ===== *)
theory PackLoad
  imports Ingest
begin

text \<open>
  Opening the packs of a store (\<^verbatim>\<open>zeros3.go\<close>, section 4b, \<open>loadPackState\<close>): the packs directories
  of the tiers are listed, every published pack contributes the entries of its index, and one
  locator is built from all of them. Shown here: the rebuilt snapshot knows exactly the entries
  on disk, so a chunk can be read after a reopen if and only if a good copy of it is on disk.
\<close>

section \<open>Discovery\<close>

text \<open>Which calls fail: listing a directory, reading the footer for the hint, loading a pack.\<close>

record load_io =
  li_dir :: "tier \<Rightarrow> bool"
  li_hint :: "string \<Rightarrow> bool"
  li_open :: "string \<Rightarrow> bool"

datatype load_error = LoadReadDir tier | LoadLocator locator_error

definition packRecordBytes :: nat where
  "packRecordBytes = packRecordHeaderSize + packIndexEntrySize"

definition packRecordHint :: "bool \<Rightarrow> bytes \<Rightarrow> nat" where
  "packRecordHint fails f =
     (if fails \<or> length f < packHeaderSize + packFooterSize then 0
      else min (unat (get_le (take 8 (drop (length f - packFooterSize + 8) f)) :: u64)) (length f div packRecordBytes))"

text \<open>The names of a tier's packs directory, sorted, as \<^verbatim>\<open>os.ReadDir\<close> lists them.\<close>

definition tierFiles :: "casState \<Rightarrow> tier \<Rightarrow> string list" where
  "tierFiles s t =
     (let dir = tierPackDir (cs_root s) t @ ''/'' in
      filter isPackFileName (map (drop (length dir)) (filter (\<lambda>p. has_prefix p dir) (sorted_keys (cs_packFiles s)))))"

definition scannedTiers :: "int \<Rightarrow> tier list" where
  "scannedTiers format = (if format < storeFormatVersionTiers then [TierHot] else [TierHot, TierWarm, TierCold])"

definition foundPacks :: "casState \<Rightarrow> (tier \<times> string) list" where
  "foundPacks s = concat (map (\<lambda>t. map (Pair t) (tierFiles s t)) (scannedTiers (cs_format s)))"

definition foundPath :: "casState \<Rightarrow> tier \<times> string \<Rightarrow> string" where
  "foundPath s f = tierPackDir (cs_root s) (fst f) @ ''/'' @ snd f"

definition tierString :: "tier \<Rightarrow> string" where
  "tierString t = (case t of TierHot \<Rightarrow> ''hot'' | TierWarm \<Rightarrow> ''warm'' | TierCold \<Rightarrow> ''cold'')"

section \<open>Loading and indexing\<close>

definition loadFound :: "load_io \<Rightarrow> casState \<Rightarrow> tier \<times> string \<Rightarrow> pack_error + packInfo \<times> packEntry list" where
  "loadFound io s f =
     (if li_open io (foundPath s f) then Inl PackOpen
      else loadPackFile (foundPath s f) (snd f) (the (fmlookup (cs_packFiles s) (foundPath s f))))"

fun loadPacks ::
  "load_io \<Rightarrow> casState \<Rightarrow> (tier \<times> string) list \<Rightarrow> packState \<Rightarrow> locRec list \<Rightarrow> load_error + packState \<times> locRec list" where
  "loadPacks io s [] st recs = Inr (st, recs)"
| "loadPacks io s (f # fs) st recs =
     (case loadFound io s f of
        Inl e \<Rightarrow> loadPacks io s fs
          (st\<lparr>ps_bad := ps_bad st @ [(if fst f = TierHot then snd f else tierString (fst f) @ ''/'' @ snd f, e)]\<rparr>) recs
      | Inr (info, entries) \<Rightarrow>
          if length (ps_packs st) \<ge> unat packIdxMask then Inl (LoadLocator LocatorTooManyPacks)
          else
            let idx = word_of_nat (length (ps_packs st)) :: u32;
                recs1 = recs @ map (\<lambda>e. mkLocRec e idx (fst f)) entries in
            if length recs1 \<ge> 4294967295 then Inl (LoadLocator LocatorTooManyRecords)
            else loadPacks io s fs (st\<lparr>ps_packs := ps_packs st @ [info\<lparr>pi_tier := fst f\<rparr>]\<rparr>) recs1)"

definition locRecOrder :: "locRec \<Rightarrow> u32 \<times> u64" where
  "locRecOrder r = (lr_pack r, lr_off r)"

definition ps_index :: "locRec list \<Rightarrow> packState \<Rightarrow> load_error + packState" where
  "ps_index recs st =
     (case buildLocIndex recs of
        None \<Rightarrow> Inl (LoadLocator LocatorPanic)
      | Some (ix, clashes) \<Rightarrow>
          Inr (st\<lparr>ps_clash := ps_clash st @ sort_key (\<lambda>c. locRecOrder (snd c)) clashes,
                  ps_levels := (if ix_size ix > 0 then [ix] else ps_levels st)\<rparr>))"

definition loadPackState :: "load_io \<Rightarrow> casState \<Rightarrow> load_error + packState" where
  "loadPackState io s =
     (case filter (li_dir io) (scannedTiers (cs_format s)) of
        t # _ \<Rightarrow> Inl (LoadReadDir t)
      | [] \<Rightarrow>
          let files = foundPacks s;
              hint = sum_list (map (\<lambda>f. packRecordHint (li_hint io (foundPath s f)) (the (fmlookup (cs_packFiles s) (foundPath s f)))) files) in
          if hint \<ge> 4294967295 then Inl (LoadLocator LocatorTooManyRecords)
          else bind_result (loadPacks io s files \<lparr>ps_packs = [], ps_levels = [], ps_bad = [], ps_clash = []\<rparr> [])
                 (\<lambda>(st, recs). ps_index recs st))"

text \<open>\<open>reloadPacks\<close>: a failed rebuild leaves the previous state serving.\<close>

definition reloadPacks :: "load_io \<Rightarrow> casState \<Rightarrow> (load_error + unit) \<times> casState" where
  "reloadPacks io s =
     (case loadPackState io s of
        Inl e \<Rightarrow> (Inl e, s)
      | Inr st \<Rightarrow> (Inr (), s\<lparr>cs_packs := st\<rparr>))"


section \<open>The entries on disk\<close>

definition entries_at :: "casState \<Rightarrow> string \<Rightarrow> packEntry list" where
  "entries_at s path =
     (case fmlookup (cs_packFiles s) path of
        None \<Rightarrow> []
      | Some f \<Rightarrow> (case readPackLayout f of Inl _ \<Rightarrow> [] | Inr (es, _) \<Rightarrow> es))"

definition pack_copies :: "casState \<Rightarrow> packInfo list \<Rightarrow> digest \<Rightarrow> packLoc set" where
  "pack_copies s ps dg = {entry_loc i (pi_tier (ps ! i)) e | i e. i < length ps \<and> e \<in> set (entries_at s (pi_path (ps ! i))) \<and> pe_sha e = dg}"

text \<open>The locator of an exact state knows the index entries of its packs, and nothing else.\<close>

definition exact :: "casState \<Rightarrow> bool" where
  "exact s \<longleftrightarrow> snapshot_ok (cs_packs s) \<and> (\<forall>dg. set (appendLocs (cs_packs s) dg) = pack_copies s (ps_packs (cs_packs s)) dg)"

text \<open>
  A published pack is a file that carries the name its own footer gives it. No two entries of
  published packs give different lengths for one digest, and pack files have 63-bit lengths.
\<close>

definition published :: "casState \<Rightarrow> tier \<Rightarrow> bytes \<Rightarrow> packEntry list \<Rightarrow> bool" where
  "published s t f es \<longleftrightarrow> (\<exists>bs. fmlookup (cs_packFiles s) (packPath (cs_root s) t (hex_encode (digest_bytes bs))) = Some f
     \<and> readPackLayout f = Inr (es, bs))"

definition uniform_disk :: "casState \<Rightarrow> bool" where
  "uniform_disk s \<longleftrightarrow> (\<forall>t f es u g ds. published s t f es \<longrightarrow> published s u g ds \<longrightarrow>
     (\<forall>e \<in> set es. \<forall>d \<in> set ds. pe_sha e = pe_sha d \<longrightarrow> pe_logical e = pe_logical d))"

definition small_files :: "casState \<Rightarrow> bool" where
  "small_files s \<longleftrightarrow> (\<forall>p f. fmlookup (cs_packFiles s) p = Some f \<longrightarrow> length f < 2 ^ 63)"

lemma entries_at_sound:
  assumes "small_files s"
  shows "list_all entry_ok (entries_at s p) \<and> distinct (map pe_sha (entries_at s p))"
proof (cases "fmlookup (cs_packFiles s) p")
  case (Some f)
  then have "length f < 2 ^ 63" using assms by (auto simp: small_files_def)
  then show ?thesis using Some readPackLayout_sound [of f]
    by (auto simp: entries_at_def split: sum.split)
qed (simp add: entries_at_def)

lemma entry_ok_logical: "entry_ok e \<Longrightarrow> unat (pe_logical e) \<le> maxPackedChunkBytes"
  by (auto simp: entry_ok_def checkPackLengths_def Let_def split: if_splits)

lemma entries_at_logical: "small_files s \<Longrightarrow> e \<in> set (entries_at s p) \<Longrightarrow> unat (pe_logical e) \<le> maxPackedChunkBytes"
  using entries_at_sound [of s p] entry_ok_logical by (auto simp: list_all_iff)

definition pack_recs :: "casState \<Rightarrow> packInfo list \<Rightarrow> locRec list" where
  "pack_recs s ps = concat (map (\<lambda>i. map (\<lambda>e. mkLocRec e (word_of_nat i) (pi_tier (ps ! i))) (entries_at s (pi_path (ps ! i)))) [0..<length ps])"

lemma pack_recs_snoc:
  "pack_recs s (ps @ [p]) = pack_recs s ps @ map (\<lambda>e. mkLocRec e (word_of_nat (length ps)) (pi_tier p)) (entries_at s (pi_path p))"
proof -
  have "map (\<lambda>i. map (\<lambda>e. mkLocRec e (word_of_nat i) (pi_tier ((ps @ [p]) ! i))) (entries_at s (pi_path ((ps @ [p]) ! i)))) [0..<length ps]
      = map (\<lambda>i. map (\<lambda>e. mkLocRec e (word_of_nat i) (pi_tier (ps ! i))) (entries_at s (pi_path (ps ! i)))) [0..<length ps]"
    by (rule map_cong) (auto simp: nth_append)
  then have "concat (map (\<lambda>i. map (\<lambda>e. mkLocRec e (word_of_nat i) (pi_tier ((ps @ [p]) ! i))) (entries_at s (pi_path ((ps @ [p]) ! i)))) [0..<length ps])
      = pack_recs s ps" by (simp only: pack_recs_def)
  then show ?thesis unfolding pack_recs_def [of s "ps @ [p]"] by simp
qed

lemma set_pack_recs:
  "set (pack_recs s ps) = {mkLocRec e (word_of_nat i) (pi_tier (ps ! i)) | i e. i < length ps \<and> e \<in> set (entries_at s (pi_path (ps ! i)))}"
  by (auto simp: pack_recs_def) blast

section \<open>Loading finds every entry\<close>

definition loaded :: "load_io \<Rightarrow> casState \<Rightarrow> tier \<times> string \<Rightarrow> packInfo option" where
  "loaded io s f = (case loadFound io s f of Inl _ \<Rightarrow> None | Inr (info, _) \<Rightarrow> Some (info\<lparr>pi_tier := fst f\<rparr>))"

lemma loadFound_entries:
  assumes "loadFound io s f = Inr (info, es)" "fmlookup (cs_packFiles s) (foundPath s f) \<noteq> None"
  shows "pi_path info = foundPath s f" "entries_at s (foundPath s f) = es" "pi_id info @ packFileSuffix = snd f"
proof -
  obtain data where d: "fmlookup (cs_packFiles s) (foundPath s f) = Some data" using assms(2) by auto
  then obtain bs where "readPackLayout data = Inr (es, bs)" and
    info: "info = newPackInfo (hex_encode (digest_bytes bs)) (foundPath s f) (length data) es" "pi_id info @ packFileSuffix = snd f"
    using assms(1) by (auto simp: loadFound_def loadPackFile_def statPackFile_def split: if_splits)
  then show "pi_path info = foundPath s f" "entries_at s (foundPath s f) = es" "pi_id info @ packFileSuffix = snd f"
    using d by (simp_all add: entries_at_def newPackInfo_def)
qed

lemma packPath_found: "packPath (cs_root s) t i = foundPath s (t, i @ packFileSuffix)"
  by (simp add: packPath_def foundPath_def)

lemma loaded_published:
  assumes "loaded io s f = Some p" "fmlookup (cs_packFiles s) (foundPath s f) \<noteq> None"
  shows "pi_path p = packPath (cs_root s) (pi_tier p) (pi_id p)" "pi_path p = foundPath s f"
    "\<exists>g bs. fmlookup (cs_packFiles s) (pi_path p) = Some g \<and> readPackLayout g = Inr (entries_at s (pi_path p), bs)
       \<and> pi_id p = hex_encode (digest_bytes bs) \<and> published s (pi_tier p) g (entries_at s (pi_path p))"
proof -
  obtain info es where l: "loadFound io s f = Inr (info, es)" "p = info\<lparr>pi_tier := fst f\<rparr>"
    using assms(1) by (auto simp: loaded_def split: sum.splits)
  note E = loadFound_entries [OF l(1) assms(2)]
  have path: "pi_path p = packPath (cs_root s) (pi_tier p) (pi_id p)" "pi_path p = foundPath s f"
    using E(1,3) l(2) by (simp_all add: packPath_found)
  then show "pi_path p = packPath (cs_root s) (pi_tier p) (pi_id p)" "pi_path p = foundPath s f" by simp_all
  obtain g where g: "fmlookup (cs_packFiles s) (foundPath s f) = Some g" using assms(2) by auto
  then obtain bs where b: "readPackLayout g = Inr (es, bs)" "pi_id info = hex_encode (digest_bytes bs)"
    using l(1) by (auto simp: loadFound_def loadPackFile_def statPackFile_def newPackInfo_def split: if_splits)
  show "\<exists>g bs. fmlookup (cs_packFiles s) (pi_path p) = Some g \<and> readPackLayout g = Inr (entries_at s (pi_path p), bs)
       \<and> pi_id p = hex_encode (digest_bytes bs) \<and> published s (pi_tier p) g (entries_at s (pi_path p))"
    using g b E(2) path l(2) by (auto simp: published_def)
qed

lemma loadPacks_spec:
  assumes "loadPacks io s fs st recs = Inr (st', recs')" "\<forall>f \<in> set fs. fmlookup (cs_packFiles s) (foundPath s f) \<noteq> None"
    and "recs = pack_recs s (ps_packs st)" "length (ps_packs st) \<le> unat packIdxMask"
  shows "ps_packs st' = ps_packs st @ List.map_filter (loaded io s) fs \<and> recs' = pack_recs s (ps_packs st')
    \<and> ps_levels st' = ps_levels st \<and> length (ps_packs st') \<le> unat packIdxMask"
  using assms
proof (induction io s fs st recs rule: loadPacks.induct)
  case (2 io s f fs st recs)
  show ?case
  proof (cases "loadFound io s f")
    case (Inl e)
    then have run: "loadPacks io s fs
        (st\<lparr>ps_bad := ps_bad st @ [(if fst f = TierHot then snd f else tierString (fst f) @ ''/'' @ snd f, e)]\<rparr>) recs = Inr (st', recs')"
      using "2.prems"(1) by simp
    have "loaded io s f = None" using Inl by (simp add: loaded_def)
    then have m: "List.map_filter (loaded io s) (f # fs) = List.map_filter (loaded io s) fs" by (simp add: List.map_filter_simps)
    have "\<forall>f \<in> set fs. fmlookup (cs_packFiles s) (foundPath s f) \<noteq> None" using "2.prems"(2) by simp
    note I = "2.IH"(1) [OF Inl run this]
    obtain st1 where st1: "st1 = st\<lparr>ps_bad := ps_bad st @ [(if fst f = TierHot then snd f else tierString (fst f) @ ''/'' @ snd f, e)]\<rparr>" by simp
    then have q: "ps_packs st1 = ps_packs st" "ps_levels st1 = ps_levels st" by simp_all
    show ?thesis using I [folded st1, unfolded q] "2.prems"(3,4) unfolding m by blast
  next
    case (Inr r)
    obtain info es where r: "r = (info, es)" by fastforce
    note E = loadFound_entries [OF Inr [unfolded r]]
    have lim: "\<not> length (ps_packs st) \<ge> unat packIdxMask"
      "\<not> length (recs @ map (\<lambda>e. mkLocRec e (word_of_nat (length (ps_packs st))) (fst f)) es) \<ge> 4294967295"
      using "2.prems"(1) Inr r by (auto simp: Let_def split: if_splits)
    have run: "loadPacks io s fs (st\<lparr>ps_packs := ps_packs st @ [info\<lparr>pi_tier := fst f\<rparr>]\<rparr>)
        (recs @ map (\<lambda>e. mkLocRec e (word_of_nat (length (ps_packs st))) (fst f)) es) = Inr (st', recs')"
      using "2.prems"(1) Inr r lim by (simp add: Let_def)
    obtain st1 where st1: "st1 = st\<lparr>ps_packs := ps_packs st @ [info\<lparr>pi_tier := fst f\<rparr>]\<rparr>" by simp
    then have q: "ps_packs st1 = ps_packs st @ [info\<lparr>pi_tier := fst f\<rparr>]" "ps_levels st1 = ps_levels st" by simp_all
    have rq: "recs @ map (\<lambda>e. mkLocRec e (word_of_nat (length (ps_packs st))) (fst f)) es = pack_recs s (ps_packs st1)"
      using "2.prems"(2,3) E by (simp add: pack_recs_snoc q)
    have fq: "\<forall>f \<in> set fs. fmlookup (cs_packFiles s) (foundPath s f) \<noteq> None" using "2.prems"(2) by simp
    have lq: "length (ps_packs st1) \<le> unat packIdxMask" using lim(1) by (simp add: q)
    note I = "2.IH"(2) [OF Inr r [symmetric] lim(1) refl refl lim(2) run, folded st1, OF fq rq lq, unfolded q]
    have "loaded io s f = Some (info\<lparr>pi_tier := fst f\<rparr>)" using Inr r by (simp add: loaded_def)
    then have m: "List.map_filter (loaded io s) (f # fs) = info\<lparr>pi_tier := fst f\<rparr> # List.map_filter (loaded io s) fs"
      by (simp add: List.map_filter_simps)
    have "(ps_packs st @ [info\<lparr>pi_tier := fst f\<rparr>]) @ List.map_filter (loaded io s) fs = ps_packs st @ List.map_filter (loaded io s) (f # fs)"
      unfolding m by simp
    then show ?thesis using I by metis
  qed
qed (simp add: List.map_filter_simps)

lemma in_tierFiles:
  "name \<in> set (tierFiles s t) \<longleftrightarrow> isPackFileName name \<and> fmlookup (cs_packFiles s) (tierPackDir (cs_root s) t @ ''/'' @ name) \<noteq> None"
proof -
  let ?dir = "tierPackDir (cs_root s) t @ ''/''"
  have "name \<in> drop (length ?dir) ` {p \<in> fset (fmdom (cs_packFiles s)). has_prefix p ?dir}
      \<longleftrightarrow> ?dir @ name \<in> fset (fmdom (cs_packFiles s))"
    by (force simp: has_prefix_iff image_iff)
  then show ?thesis by (auto simp: tierFiles_def Let_def fmlookup_dom_iff)
qed

lemma in_foundPacks:
  "(t, name) \<in> set (foundPacks s) \<longleftrightarrow> t \<in> set (scannedTiers (cs_format s)) \<and> isPackFileName name
     \<and> fmlookup (cs_packFiles s) (foundPath s (t, name)) \<noteq> None"
  by (auto simp: foundPacks_def in_tierFiles foundPath_def image_iff)

lemma found_files: "\<forall>f \<in> set (foundPacks s). fmlookup (cs_packFiles s) (foundPath s f) \<noteq> None"
  using in_foundPacks by auto

lemma pack_recs_loc:
  assumes "small_files s" "length ps \<le> unat packIdxMask" "i < length ps" "e \<in> set (entries_at s (pi_path (ps ! i)))"
  shows "lr_loc (mkLocRec e (word_of_nat i) (pi_tier (ps ! i))) = entry_loc i (pi_tier (ps ! i)) e"
  using assms entries_at_logical [OF assms(1,4)] by (intro mkLocRec_entry_loc) simp_all

lemma loadPackState_exact:
  assumes "loadPackState io s = Inr st" "uniform_disk s" "small_files s"
  shows "exact (s\<lparr>cs_packs := st\<rparr>) \<and> ps_packs st = List.map_filter (loaded io s) (foundPacks s)"
proof -
  let ?st0 = "\<lparr>ps_packs = [], ps_levels = [], ps_bad = [], ps_clash = []\<rparr>"
  obtain st1 recs where l: "loadPacks io s (foundPacks s) ?st0 [] = Inr (st1, recs)" "ps_index recs st1 = Inr st"
    using assms(1) by (auto simp: loadPackState_def Let_def split: list.splits if_splits)
  have "[] = pack_recs s (ps_packs ?st0)" by (simp add: pack_recs_def)
  from loadPacks_spec [OF l(1) found_files this, simplified append_Nil packState.select_convs list.size, OF le0]
  have L: "ps_packs st1 = List.map_filter (loaded io s) (foundPacks s)" "recs = pack_recs s (ps_packs st1)" "ps_levels st1 = []"
    "length (ps_packs st1) \<le> unat packIdxMask" by blast+
  have lg: "lr_logical r = pl_logical (lr_loc r)" for r by (simp add: lr_loc_def)
  have pub: "\<exists>g. published s (pi_tier (ps_packs st1 ! i)) g (entries_at s (pi_path (ps_packs st1 ! i)))" if "i < length (ps_packs st1)" for i
  proof -
    have "ps_packs st1 ! i \<in> set (List.map_filter (loaded io s) (foundPacks s))" using that L(1) nth_mem by metis
    then obtain f where "f \<in> set (foundPacks s)" "loaded io s f = Some (ps_packs st1 ! i)" by (auto simp: List.map_filter_def)
    then show ?thesis using loaded_published(3) found_files by blast
  qed
  have recD: "\<exists>i e. i < length (ps_packs st1) \<and> r = mkLocRec e (word_of_nat i) (pi_tier (ps_packs st1 ! i)) \<and> e \<in> set (entries_at s (pi_path (ps_packs st1 ! i)))
      \<and> lr_sum r = pe_sha e \<and> lr_loc r = entry_loc i (pi_tier (ps_packs st1 ! i)) e" if "r \<in> set recs" for r
  proof -
    obtain i e where i: "r = mkLocRec e (word_of_nat i) (pi_tier (ps_packs st1 ! i))" "i < length (ps_packs st1)"
      "e \<in> set (entries_at s (pi_path (ps_packs st1 ! i)))" using \<open>r \<in> set recs\<close> unfolding L(2) set_pack_recs by blast
    have "lr_sum r = pe_sha e" unfolding i(1) by (simp add: mkLocRec_def)
    then show ?thesis using i pack_recs_loc [OF assms(3) L(4) i(2,3)] by blast
  qed
  have "uniform (set recs)"
    unfolding uniform_def
  proof (intro ballI impI)
    fix r q assume r: "r \<in> set recs" and q: "q \<in> set recs" and s: "lr_sum r = lr_sum q"
    obtain i e where i: "i < length (ps_packs st1)" "e \<in> set (entries_at s (pi_path (ps_packs st1 ! i)))" "lr_sum r = pe_sha e"
      "lr_loc r = entry_loc i (pi_tier (ps_packs st1 ! i)) e" using recD [OF r] by blast
    obtain j d where j: "j < length (ps_packs st1)" "d \<in> set (entries_at s (pi_path (ps_packs st1 ! j)))" "lr_sum q = pe_sha d"
      "lr_loc q = entry_loc j (pi_tier (ps_packs st1 ! j)) d" using recD [OF q] by blast
    have "pe_sha e = pe_sha d" using i(3) j(3) s by simp
    moreover note pub [OF i(1)] pub [OF j(1)]
    ultimately have "pe_logical e = pe_logical d" using assms(2) i(2) j(2) unfolding uniform_disk_def by metis
    then show "lr_logical r = lr_logical q" unfolding lg i(4) j(4) by (simp add: entry_loc_def)
  qed
  from buildLocIndex_uniform [OF this] obtain ix where ix: "buildLocIndex recs = Some (ix, [])" "level_sorted ix" "level_recs ix = set recs" by blast
  have st: "st = st1\<lparr>ps_levels := (if ix_size ix > 0 then [ix] else ps_levels st1)\<rparr>"
    using l(2) ix(1) by (simp add: ps_index_def)
  have recs: "all_recs st = set recs" using ix(3) by (auto simp: st L(3) all_recs_def ix_size_def level_recs_def)
  have sn: "snapshot_ok st" unfolding snapshot_ok_def recs using \<open>uniform (set recs)\<close> ix(2) by (simp add: st L(3))
  have "set (appendLocs st dg) = pack_copies s (ps_packs st1) dg" for dg
  proof -
    have "lr_loc ` {r \<in> set recs. lr_sum r = dg} = pack_copies s (ps_packs st1) dg"
    proof (intro equalityI subsetI)
      fix l assume "l \<in> lr_loc ` {r \<in> set recs. lr_sum r = dg}"
      then obtain r where "r \<in> set recs" "lr_sum r = dg" "l = lr_loc r" by blast
      then show "l \<in> pack_copies s (ps_packs st1) dg" using recD [of r] unfolding pack_copies_def by force
    next
      fix l assume "l \<in> pack_copies s (ps_packs st1) dg"
      then obtain i e where i: "l = entry_loc i (pi_tier (ps_packs st1 ! i)) e" "i < length (ps_packs st1)"
        "e \<in> set (entries_at s (pi_path (ps_packs st1 ! i)))" "pe_sha e = dg" unfolding pack_copies_def by blast
      let ?r = "mkLocRec e (word_of_nat i) (pi_tier (ps_packs st1 ! i))"
      have "?r \<in> set recs" using i(2,3) unfolding L(2) set_pack_recs by blast
      moreover have "lr_sum ?r = dg" using i(4) by (simp add: mkLocRec_def)
      moreover have "l = lr_loc ?r" using i(1) pack_recs_loc [OF assms(3) L(4) i(2,3)] by simp
      ultimately show "l \<in> lr_loc ` {r \<in> set recs. lr_sum r = dg}" by blast
    qed
    then show ?thesis by (simp add: appendLocs_set [OF sn] recs)
  qed
  moreover have "pack_copies (s\<lparr>cs_packs := st\<rparr>) ps dg = pack_copies s ps dg" for ps dg
    by (simp add: pack_copies_def entries_at_def)
  ultimately show ?thesis using sn L(1) by (simp add: exact_def st)
qed

lemma hex_digit_lower: "n < 16 \<Longrightarrow> let k = of_char (hex_digit n) :: nat in 48 \<le> k \<and> k \<le> 57 \<or> 97 \<le> k \<and> k \<le> 102"
  by (auto simp: hex_digit_def Let_def)

lemma isPackFileName_hex: "isPackFileName (hex_encode (digest_bytes dg) @ packFileSuffix)"
proof -
  have "list_all (\<lambda>c. let k = of_char c :: nat in 48 \<le> k \<and> k \<le> 57 \<or> 97 \<le> k \<and> k \<le> 102) (hex_encode bs)" for bs
  proof (induction bs)
    case (Cons b bs)
    have "unat b < 2 ^ LENGTH(8)" by (rule unsigned_less)
    then have "unat b < 256" by simp
    then have "unat b div 16 < 16" by (simp add: div_less_iff_less_mult)
    then show ?case using Cons hex_digit_lower [of "unat b div 16"] hex_digit_lower [of "unat b mod 16"] by simp
  qed simp
  then show ?thesis by (simp add: isPackFileName_def Let_def packFileSuffix_def)
qed

section \<open>What can be read\<close>

text \<open>
  \<open>disk_good\<close>: some published pack or the loose area holds a good copy, whatever the locator in
  memory says. \<open>tiers_ok\<close>: warm and cold packs exist only in a store of the tiered format.
\<close>

definition disk_good :: "flate_codec \<Rightarrow> digest \<Rightarrow> casState \<Rightarrow> bool" where
  "disk_good Z dg s \<longleftrightarrow> loose_good dg s
     \<or> (\<exists>t f es. published s t f es \<and> (\<exists>e \<in> set es. pe_sha e = dg \<and> is_ok (readPackRecord Z f e)))"

definition tiers_ok :: "casState \<Rightarrow> bool" where
  "tiers_ok s \<longleftrightarrow> (\<forall>t i. t \<noteq> TierHot \<longrightarrow> fmlookup (cs_packFiles s) (packPath (cs_root s) t i) \<noteq> None
     \<longrightarrow> storeFormatVersionTiers \<le> cs_format s)"

text \<open>A linked state: an exact locator whose packs are published packs under different paths.\<close>

definition linked :: "casState \<Rightarrow> bool" where
  "linked s \<longleftrightarrow> exact s \<and> distinct (map pi_path (ps_packs (cs_packs s)))
     \<and> (\<forall>p \<in> set (ps_packs (cs_packs s)). pi_path p = packPath (cs_root s) (pi_tier p) (pi_id p)
          \<and> (\<exists>f bs. fmlookup (cs_packFiles s) (pi_path p) = Some f \<and> readPackLayout f = Inr (entries_at s (pi_path p), bs)
               \<and> pi_id p = hex_encode (digest_bytes bs)))"

lemma packed_good_exact:
  assumes "exact s"
  shows "packed_good Z skip dg s \<longleftrightarrow> (\<exists>i e f. i < length (ps_packs (cs_packs s)) \<and> i \<notin> skip
     \<and> fmlookup (cs_packFiles s) (pi_path (ps_packs (cs_packs s) ! i)) = Some f
     \<and> e \<in> set (entries_at s (pi_path (ps_packs (cs_packs s) ! i))) \<and> pe_sha e = dg \<and> is_ok (readPackRecord Z f e))"
proof -
  let ?ps = "ps_packs (cs_packs s)"
  have pk: "pl_pack (entry_loc i t e) = i" for i t e by (simp add: entry_loc_def)
  have rd: "is_ok (readPacked Z dg (entry_loc i t e) s) \<longleftrightarrow> (\<exists>f. fmlookup (cs_packFiles s) (pi_path (?ps ! i)) = Some f \<and> is_ok (readPackRecord Z f e))"
    if "i < length ?ps" "pe_sha e = dg" for i t e
    using that by (cases e) (auto simp: readPacked_def entry_loc_def split: option.splits)
  have "packed_good Z skip dg s \<longleftrightarrow> (\<exists>i e. i < length ?ps \<and> e \<in> set (entries_at s (pi_path (?ps ! i))) \<and> pe_sha e = dg \<and> i \<notin> skip
      \<and> is_ok (readPacked Z dg (entry_loc i (pi_tier (?ps ! i)) e) s))"
  proof -
    have "pack_copies s ?ps dg = (\<lambda>(i, e). entry_loc i (pi_tier (?ps ! i)) e) ` {(i, e). i < length ?ps \<and> e \<in> set (entries_at s (pi_path (?ps ! i))) \<and> pe_sha e = dg}"
      by (force simp: pack_copies_def)
    moreover have "set (appendLocs (cs_packs s) dg) = pack_copies s ?ps dg" using assms by (simp add: exact_def)
    ultimately show ?thesis by (auto simp: packed_good_def pk)
  qed
  also have "\<dots> \<longleftrightarrow> (\<exists>i e f. i < length ?ps \<and> i \<notin> skip \<and> fmlookup (cs_packFiles s) (pi_path (?ps ! i)) = Some f
     \<and> e \<in> set (entries_at s (pi_path (?ps ! i))) \<and> pe_sha e = dg \<and> is_ok (readPackRecord Z f e))"
    using rd by blast
  finally show ?thesis .
qed

definition packed_on_disk :: "flate_codec \<Rightarrow> digest \<Rightarrow> casState \<Rightarrow> bool" where
  "packed_on_disk Z dg s \<longleftrightarrow>
     (\<exists>t f es. published s t f es \<and> (\<exists>e \<in> set es. pe_sha e = dg \<and> is_ok (readPackRecord Z f e)))"

lemma linked_packed_on_disk:
  assumes "linked s" "packed_good Z skip dg s"
  shows "packed_on_disk Z dg s"
proof -
  let ?ps = "ps_packs (cs_packs s)"
  obtain i e f where i: "i < length ?ps" "fmlookup (cs_packFiles s) (pi_path (?ps ! i)) = Some f"
    "e \<in> set (entries_at s (pi_path (?ps ! i)))" "pe_sha e = dg" "is_ok (readPackRecord Z f e)"
    using assms packed_good_exact by (auto simp: linked_def)
  obtain bs where "readPackLayout f = Inr (entries_at s (pi_path (?ps ! i)), bs)" "pi_id (?ps ! i) = hex_encode (digest_bytes bs)"
    "pi_path (?ps ! i) = packPath (cs_root s) (pi_tier (?ps ! i)) (pi_id (?ps ! i))"
    using assms(1) i(1,2) nth_mem [OF i(1)] unfolding linked_def by force
  then have "published s (pi_tier (?ps ! i)) f (entries_at s (pi_path (?ps ! i)))" using i(2) by (auto simp: published_def)
  then show ?thesis unfolding packed_on_disk_def using i(3-5) by blast
qed

lemma linked_packed_disk: "linked s \<Longrightarrow> packed_good Z skip dg s \<Longrightarrow> disk_good Z dg s"
  using linked_packed_on_disk unfolding disk_good_def packed_on_disk_def by metis

lemma distinct_foundPacks: "distinct (map (foundPath s) (foundPacks s))"
proof -
  have inj: "inj_on (foundPath s) (set (foundPacks s))"
  proof (rule inj_onI)
    fix x y assume x: "x \<in> set (foundPacks s)" and y: "y \<in> set (foundPacks s)" and e: "foundPath s x = foundPath s y"
    obtain t i where xi: "x = (t, i)" by fastforce
    obtain u j where yj: "y = (u, j)" by fastforce
    have "isPackFileName i" "isPackFileName j" using x y xi yj by (simp_all add: in_foundPacks)
    then have "drop (length i - length packFileSuffix) i = packFileSuffix" "drop (length j - length packFileSuffix) j = packFileSuffix"
      unfolding isPackFileName_def Let_def by blast+
    then obtain i0 j0 where ij: "i = i0 @ packFileSuffix" "j = j0 @ packFileSuffix" by (metis append_take_drop_id)
    have "packPath (cs_root s) t i0 = packPath (cs_root s) u j0" using e unfolding xi yj ij packPath_found .
    then show "x = y" unfolding packPath_inj xi yj ij by simp
  qed
  have "distinct (tierFiles s t)" for t
  proof -
    let ?dir = "tierPackDir (cs_root s) t @ ''/''"
    have "inj_on (drop (length ?dir)) {p. has_prefix p ?dir}" by (rule inj_onI) (auto simp: has_prefix_iff)
    then have "distinct (map (drop (length ?dir)) (filter (\<lambda>p. has_prefix p ?dir) (sorted_keys (cs_packFiles s))))"
      by (auto simp: distinct_map intro: inj_on_subset)
    then show ?thesis by (simp add: tierFiles_def Let_def)
  qed
  then have "distinct (foundPacks s)" by (auto simp: foundPacks_def scannedTiers_def distinct_map inj_on_def)
  then show ?thesis using inj by (simp add: distinct_map)
qed

lemma reopen_linked:
  assumes "loadPackState io s = Inr st" "uniform_disk s" "small_files s"
  shows "linked (s\<lparr>cs_packs := st\<rparr>)"
proof -
  note E = loadPackState_exact [OF assms]
  have ent: "entries_at (s\<lparr>cs_packs := st\<rparr>) p = entries_at s p" for p by (simp add: entries_at_def)
  have mem: "\<exists>f \<in> set (foundPacks s). loaded io s f = Some p" if "p \<in> set (ps_packs st)" for p
    using that E by (auto simp: List.map_filter_def)
  have "distinct (map pi_path (List.map_filter (loaded io s) fs))"
    if "distinct (map (foundPath s) fs)" "\<forall>f \<in> set fs. fmlookup (cs_packFiles s) (foundPath s f) \<noteq> None" for fs
    using that
  proof (induction fs)
    case (Cons f fs)
    show ?case
    proof (cases "loaded io s f")
      case None
      then show ?thesis using Cons by (simp add: List.map_filter_simps)
    next
      case (Some p)
      have "pi_path q \<in> foundPath s ` set fs" if "q \<in> set (List.map_filter (loaded io s) fs)" for q
        using that loaded_published(2) Cons.prems(2) by (force simp: List.map_filter_def)
      then have "pi_path p \<notin> pi_path ` set (List.map_filter (loaded io s) fs)"
        using loaded_published(2) [OF Some] Cons.prems by auto
      then show ?thesis using Some Cons by (simp add: List.map_filter_simps)
    qed
  qed (simp add: List.map_filter_simps)
  then have "distinct (map pi_path (ps_packs st))" using E distinct_foundPacks found_files by simp
  then show ?thesis using E mem loaded_published found_files by (fastforce simp: linked_def ent)
qed

lemma reopen_packed:
  assumes "loadPackState io s = Inr st" "uniform_disk s" "small_files s" "tiers_ok s" "\<And>p. \<not> li_open io p"
    and "published s t f es" "e \<in> set es" "is_ok (readPackRecord Z f e)"
  shows "packed_good Z {} (pe_sha e) (s\<lparr>cs_packs := st\<rparr>)"
proof -
  note E = loadPackState_exact [OF assms(1-3)]
  obtain bs where b: "fmlookup (cs_packFiles s) (packPath (cs_root s) t (hex_encode (digest_bytes bs))) = Some f"
    "readPackLayout f = Inr (es, bs)" using assms(6) by (auto simp: published_def)
  let ?g = "(t, hex_encode (digest_bytes bs) @ packFileSuffix)"
  have path: "foundPath s ?g = packPath (cs_root s) t (hex_encode (digest_bytes bs))" by (simp add: packPath_found)
  have "t \<in> set (scannedTiers (cs_format s))" using assms(4) b(1) by (cases t) (auto simp: tiers_ok_def scannedTiers_def)
  then have g: "?g \<in> set (foundPacks s)" using b(1) path isPackFileName_hex by (simp add: in_foundPacks)
  obtain p where p: "loaded io s ?g = Some p" using assms(5) b path
    by (simp add: loaded_def loadFound_def loadPackFile_def statPackFile_def newPackInfo_def)
  then have "p \<in> set (ps_packs st)" using E g by (force simp: List.map_filter_def)
  then obtain i where i: "i < length (ps_packs st)" "ps_packs st ! i = p" by (metis in_set_conv_nth)
  have f: "fmlookup (cs_packFiles s) (pi_path p) = Some f" "entries_at s (pi_path p) = es"
    using loaded_published(2) [OF p] g found_files b path by (auto simp: entries_at_def)
  have "exact (s\<lparr>cs_packs := st\<rparr>)" using E by blast
  then show ?thesis unfolding packed_good_exact [OF \<open>exact (s\<lparr>cs_packs := st\<rparr>)\<close>]
    using i f assms(7,8) by (intro exI [of _ i] exI [of _ e] exI [of _ f]) (simp add: entries_at_def)
qed

text \<open>C27: Opening a store serves exactly what is on disk. When the packs of the tiers can be listed and
  opened, the rebuilt locator knows every entry of every published pack and nothing else, under
  distinct paths, and a chunk can be read if and only if the loose area or a published pack holds
  a good copy of it. Damaged or misnamed files in the directories are skipped.\<close>

theorem reopen_serves_what_is_on_disk:
  assumes "loadPackState io s = Inr st" "uniform_disk s" "small_files s" "tiers_ok s" "\<And>p. \<not> li_open io p"
  shows "linked (s\<lparr>cs_packs := st\<rparr>) \<and> (is_ok (casRead Z False dg (s\<lparr>cs_packs := st\<rparr>)) \<longleftrightarrow> disk_good Z dg s)"
proof -
  note L = reopen_linked [OF assms(1-3)]
  have d: "disk_good Z dg (s\<lparr>cs_packs := st\<rparr>) = disk_good Z dg s" by (simp add: disk_good_def loose_good_def published_def)
  have "is_ok (casRead Z False dg (s\<lparr>cs_packs := st\<rparr>)) \<longleftrightarrow> loose_good dg s \<or> packed_good Z {} dg (s\<lparr>cs_packs := st\<rparr>)"
    unfolding casRead_def casReadExcluding_ok by (simp add: loose_good_def)
  also have "\<dots> \<longleftrightarrow> disk_good Z dg s"
  proof
    assume "loose_good dg s \<or> packed_good Z {} dg (s\<lparr>cs_packs := st\<rparr>)"
    then show "disk_good Z dg s" using linked_packed_disk [OF L, of Z "{}" dg] d by (auto simp: disk_good_def)
  next
    assume "disk_good Z dg s"
    then show "loose_good dg s \<or> packed_good Z {} dg (s\<lparr>cs_packs := st\<rparr>)"
      unfolding disk_good_def using reopen_packed [OF assms] by metis
  qed
  finally show ?thesis using L by blast
qed


text \<open>A store whose only chunk is the one record of a published pack.\<close>

definition one_pack_file :: bytes where
  "one_pack_file = built None [[7, 8, 9]]"

definition one_pack :: casState where
  "one_pack = empty_cas\<lparr>cs_packFiles := fmupd (packPath ''store'' TierHot (packFileID one_pack_file)) one_pack_file fmempty\<rparr>"

definition load_all :: load_io where
  "load_all = \<lparr>li_dir = (\<lambda>_. False), li_hint = (\<lambda>_. False), li_open = (\<lambda>_. False)\<rparr>"

lemma one_pack_layout:
  obtains e where "readPackLayout one_pack_file = Inr ([e], sha256 (take (length one_pack_file - packFooterSize) one_pack_file))"
    "pe_sha e = sha256 [7, 8, 9]" "readPackRecord stored_flate one_pack_file e = Inr [7, 8, 9]" "length one_pack_file < 200"
    "is_ok (verifyPackFile stored_flate path one_pack_file)"
proof -
  obtain f es where f: "packBuilder_Finish False (packBuild None [[7, 8, 9]]) = Some (f, es)" "es = pb_entries (packBuild None [[7, 8, 9]])"
    by (auto simp: packBuilder_Finish_def Let_def)
  have b: "one_pack_file = f" by (simp add: one_pack_file_def built_def f)
  have len: "length f < 200"
    using f by (auto simp: packBuilder_Finish_def packBuild_def packBuilder_Add_def newPackBuilder_def packEncode_def
        packFooterSize_def packIndexEntrySize_def Let_def)
  have "map pe_sha es = [sha256 [7, 8, 9]]" unfolding f(2) packBuild_shas by simp
  then obtain e where e: "es = [e]" "pe_sha e = sha256 [7, 8, 9]" by auto
  have "readPackLayout f = Inr (es, sha256 (take (length f - packFooterSize) f)) \<and> is_ok (verifyPackFile stored_flate path f)
      \<and> map (readPackRecord stored_flate f) es = map Inr [[7, 8, 9]]"
    by (rule packBuild_valid [OF stored_flate_ok _ _ _ f(1)]) (use len in \<open>simp_all add: packable_def maxPackedChunkBytes_def cdcMaxChunkSize_def\<close>)
  then show ?thesis using that [of e] e len unfolding b by simp
qed

lemma one_pack_published: "published one_pack t f es \<longleftrightarrow> t = TierHot \<and> f = one_pack_file \<and> (\<exists>bs. readPackLayout one_pack_file = Inr (es, bs))"
proof -
  obtain e where lay: "readPackLayout one_pack_file = Inr ([e], sha256 (take (length one_pack_file - packFooterSize) one_pack_file))"
    by (rule one_pack_layout)
  show ?thesis using lay
    by (auto simp: published_def one_pack_def empty_cas_def packPath_inj packFileID_def split: if_splits)
qed

lemma one_pack_disk: "uniform_disk one_pack" "small_files one_pack" "tiers_ok one_pack"
proof -
  obtain e where e: "readPackLayout one_pack_file = Inr ([e], sha256 (take (length one_pack_file - packFooterSize) one_pack_file))"
    "length one_pack_file < 200" by (rule one_pack_layout)
  then show "uniform_disk one_pack" by (auto simp: uniform_disk_def one_pack_published)
  show "small_files one_pack" using e by (auto simp: small_files_def one_pack_def empty_cas_def split: if_splits)
  show "tiers_ok one_pack" by (auto simp: tiers_ok_def one_pack_def empty_cas_def packPath_inj split: if_splits)
qed

lemma one_pack_opens: "\<exists>st. loadPackState load_all one_pack = Inr st"
proof -
  obtain e where e: "readPackLayout one_pack_file = Inr ([e], sha256 (take (length one_pack_file - packFooterSize) one_pack_file))"
    "length one_pack_file < 200" by (rule one_pack_layout)
  let ?n = "packFileID one_pack_file @ packFileSuffix" and ?p = "packPath ''store'' TierHot (packFileID one_pack_file)"
  have p: "?p = tierPackDir ''store'' TierHot @ ''/'' @ ?n" by (simp add: packPath_def)
  have nm: "isPackFileName ?n" unfolding packFileID_def by (rule isPackFileName_hex)
  have "sorted_keys (cs_packFiles one_pack) = [tierPackDir ''store'' TierHot @ ''/'' @ ?n]"
    by (simp add: one_pack_def empty_cas_def sorted_keys_def sorted_list_of_fset.rep_eq p)
  then have "tierFiles one_pack TierHot = [?n]"
    using nm by (simp add: tierFiles_def has_prefix_def one_pack_def empty_cas_def Let_def)
  then have f: "foundPacks one_pack = [(TierHot, ?n)]"
    by (simp add: foundPacks_def scannedTiers_def one_pack_def empty_cas_def storeFormatVersionTiers_def)
  have path: "foundPath one_pack (TierHot, ?n) = ?p" by (simp add: foundPath_def p one_pack_def empty_cas_def)
  have data: "fmlookup (cs_packFiles one_pack) ?p = Some one_pack_file" by (simp add: one_pack_def empty_cas_def)
  have i: "pi_id (newPackInfo i q k es) = i" for i q k es by (simp add: newPackInfo_def)
  have "statPackFile ?p one_pack_file = Inr (newPackInfo (packFileID one_pack_file) ?p (length one_pack_file) [e], [e])"
    using e(1) by (simp add: statPackFile_def packFileID_def)
  then have "loadPackFile ?p ?n one_pack_file = Inr (newPackInfo (packFileID one_pack_file) ?p (length one_pack_file) [e], [e])"
    by (simp add: loadPackFile_def i)
  then have l: "loadFound load_all one_pack (TierHot, ?n) = Inr (newPackInfo (packFileID one_pack_file) ?p (length one_pack_file) [e], [e])"
    by (simp only: loadFound_def path data option.sel snd_conv load_all_def load_io.select_convs if_False)
  have h: "packRecordHint False one_pack_file < 200"
    using e(2) by (auto simp: packRecordHint_def intro: le_less_trans [OF min.cobounded2 le_less_trans [OF div_le_dividend]])
  obtain st recs where lp: "loadPacks load_all one_pack [(TierHot, ?n)] \<lparr>ps_packs = [], ps_levels = [], ps_bad = [], ps_clash = []\<rparr> [] = Inr (st, recs)"
    using l by (simp add: unat_packIdxMask Let_def)
  obtain ix c where "buildLocIndex recs = Some (ix, c)" using buildLocIndex_level by blast
  then show ?thesis using h lp
    by (simp add: loadPackState_def f path data load_all_def scannedTiers_def ps_index_def Let_def)
qed

theorem reopen_serves_what_is_on_disk_witness:
  "\<exists>st. loadPackState load_all one_pack = Inr st
     \<and> is_ok (casRead stored_flate False (sha256 [7, 8, 9]) (one_pack\<lparr>cs_packs := st\<rparr>))"
proof -
  obtain st where st: "loadPackState load_all one_pack = Inr st" using one_pack_opens by blast
  obtain e where e: "readPackLayout one_pack_file = Inr ([e], sha256 (take (length one_pack_file - packFooterSize) one_pack_file))"
    "pe_sha e = sha256 [7, 8, 9]" "readPackRecord stored_flate one_pack_file e = Inr [7, 8, 9]" by (rule one_pack_layout)
  have "disk_good stored_flate (sha256 [7, 8, 9]) one_pack"
    unfolding disk_good_def using e one_pack_published [of TierHot one_pack_file "[e]"] by auto
  then show ?thesis using reopen_serves_what_is_on_disk [OF st one_pack_disk] st by (simp add: load_all_def)
qed

end
