(* ===== verification/Repack.thy ===== *)
theory Repack
  imports PackLoad
begin

text \<open>
  Pack usage and replacement (\<^verbatim>\<open>zeros3.go\<close>, sections 4b, 13c and 13d): \<open>packUsages\<close> classifies the
  records of every pack against the referenced chunks, and \<open>replacePacksTo\<close> removes packs after
  republishing every live chunk that has no verified copy elsewhere. Shown here: whatever call
  fails, no referenced chunk loses its last good copy.
\<close>

section \<open>Usage\<close>

text \<open>The utilization is a floating-point number and left out; sizes are natural numbers or integers.\<close>

record packUsage =
  pu_idx :: nat
  pu_tier :: tier
  pu_ID :: string
  pu_Size :: nat
  pu_Records :: nat
  pu_CompressedRecs :: nat
  pu_LogicalBytes :: nat
  pu_LiveRecords :: nat
  pu_LiveBytes :: nat
  pu_LiveLogicalBytes :: nat
  pu_DeadRecords :: int
  pu_DeadBytes :: int
  pu_Reclaimable :: int

definition packFixedBytes :: nat where
  "packFixedBytes = packHeaderSize + packFooterSize"

definition livePhysical :: "packUsage \<Rightarrow> nat" where
  "livePhysical u = (if pu_LiveRecords u = 0 then 0 else packFixedBytes + pu_LiveBytes u + pu_LiveRecords u * packRecordBytes)"

definition fullyDead :: "packUsage \<Rightarrow> bool" where
  "fullyDead u \<longleftrightarrow> pu_Records u > 0 \<and> pu_LiveRecords u = 0"

definition partiallyDead :: "packUsage \<Rightarrow> bool" where
  "partiallyDead u \<longleftrightarrow> pu_LiveRecords u > 0 \<and> pu_DeadRecords u > 0"

definition hexDigest :: "digest \<Rightarrow> string" where
  "hexDigest dg = hex_encode (digest_bytes dg)"

definition packUsages :: "string set \<Rightarrow> packState \<Rightarrow> packUsage list" where
  "packUsages referenced st =
     map (\<lambda>i.
       let p = ps_packs st ! i;
           live = map snd (filter (\<lambda>(dg, loc). pl_pack loc = i \<and> hexDigest dg \<in> referenced) (primaries st));
           u = \<lparr>pu_idx = i, pu_tier = pi_tier p, pu_ID = pi_id p, pu_Size = pi_size p, pu_Records = pi_records p,
                pu_CompressedRecs = pi_deflated p, pu_LogicalBytes = pi_logical p, pu_LiveRecords = length live,
                pu_LiveBytes = sum_list (map (\<lambda>l. unat (pl_stored l)) live),
                pu_LiveLogicalBytes = sum_list (map (\<lambda>l. unat (pl_logical l)) live),
                pu_DeadRecords = 0, pu_DeadBytes = 0, pu_Reclaimable = 0\<rparr>
       in u\<lparr>pu_DeadRecords := int (pu_Records u) - int (pu_LiveRecords u),
            pu_DeadBytes := int (pu_Size u) - int packFixedBytes - int (pu_Records u * packRecordBytes) - int (pu_LiveBytes u),
            pu_Reclaimable := int (pu_Size u) - int (livePhysical u)\<rparr>) [0..<length (ps_packs st)]"

record PackSummary =
  sm_PackCount :: nat
  sm_PackedChunkCount :: nat
  sm_PackFileBytes :: nat
  sm_PackedRawRecords :: int
  sm_PackedCompressedRecs :: nat
  sm_PackedLogicalBytes :: nat
  sm_PackedStoredBytes :: int
  sm_PackCompressionSaved :: int
  sm_PackedLiveChunkCount :: nat
  sm_PackedLiveBytes :: nat
  sm_PackedLiveLogicalBytes :: nat
  sm_PackedDeadChunkCount :: int
  sm_PackedDeadBytes :: int
  sm_PacksFullyDead :: nat
  sm_PacksPartiallyDead :: nat
  sm_PackWholeReclaimBytes :: nat
  sm_PackRepackReclaimBytes :: int

definition sumUsage :: "packUsage \<Rightarrow> PackSummary \<Rightarrow> PackSummary" where
  "sumUsage u sm =
     (let sm1 = sm\<lparr>sm_PackCount := sm_PackCount sm + 1,
            sm_PackedChunkCount := sm_PackedChunkCount sm + pu_Records u,
            sm_PackFileBytes := sm_PackFileBytes sm + pu_Size u,
            sm_PackedCompressedRecs := sm_PackedCompressedRecs sm + pu_CompressedRecs u,
            sm_PackedLogicalBytes := sm_PackedLogicalBytes sm + pu_LogicalBytes u,
            sm_PackedStoredBytes := sm_PackedStoredBytes sm + (int (pu_Size u) - int packFixedBytes - int (pu_Records u * packRecordBytes)),
            sm_PackedLiveChunkCount := sm_PackedLiveChunkCount sm + pu_LiveRecords u,
            sm_PackedLiveBytes := sm_PackedLiveBytes sm + pu_LiveBytes u,
            sm_PackedLiveLogicalBytes := sm_PackedLiveLogicalBytes sm + pu_LiveLogicalBytes u,
            sm_PackedDeadChunkCount := sm_PackedDeadChunkCount sm + pu_DeadRecords u,
            sm_PackedDeadBytes := sm_PackedDeadBytes sm + pu_DeadBytes u\<rparr> in
      if fullyDead u then sm1\<lparr>sm_PacksFullyDead := sm_PacksFullyDead sm1 + 1,
            sm_PackWholeReclaimBytes := sm_PackWholeReclaimBytes sm1 + pu_Size u\<rparr>
      else if partiallyDead u then sm1\<lparr>sm_PacksPartiallyDead := sm_PacksPartiallyDead sm1 + 1,
            sm_PackRepackReclaimBytes := sm_PackRepackReclaimBytes sm1 + pu_Reclaimable u\<rparr>
      else sm1)"

definition summarizePacks :: "packUsage list \<Rightarrow> PackSummary" where
  "summarizePacks us =
     (let sm = fold sumUsage us \<lparr>sm_PackCount = 0, sm_PackedChunkCount = 0, sm_PackFileBytes = 0, sm_PackedRawRecords = 0,
            sm_PackedCompressedRecs = 0, sm_PackedLogicalBytes = 0, sm_PackedStoredBytes = 0, sm_PackCompressionSaved = 0,
            sm_PackedLiveChunkCount = 0, sm_PackedLiveBytes = 0, sm_PackedLiveLogicalBytes = 0, sm_PackedDeadChunkCount = 0,
            sm_PackedDeadBytes = 0, sm_PacksFullyDead = 0, sm_PacksPartiallyDead = 0, sm_PackWholeReclaimBytes = 0,
            sm_PackRepackReclaimBytes = 0\<rparr>
      in sm\<lparr>sm_PackedRawRecords := int (sm_PackedChunkCount sm) - int (sm_PackedCompressedRecs sm),
            sm_PackCompressionSaved := int (sm_PackedLogicalBytes sm) - sm_PackedStoredBytes sm\<rparr>)"

section \<open>Planning and staging\<close>

record compactCandidate =
  cc_sum :: digest
  cc_size :: int
  cc_rank :: nat

fun planLoop ::
  "int \<Rightarrow> compactCandidate list \<Rightarrow> compactCandidate list \<Rightarrow> int \<Rightarrow> compactCandidate list list
    \<Rightarrow> compactCandidate list list \<times> compactCandidate list \<times> int" where
  "planLoop target [] cur curBytes batches = (batches, cur, curBytes)"
| "planLoop target (c # cs) cur curBytes batches =
     (let cur1 = cur @ [c]; n = curBytes + cc_size c + int packRecordHeaderSize in
      if n \<ge> target then planLoop target cs [] 0 (batches @ [cur1]) else planLoop target cs cur1 n batches)"

definition planPackBatches :: "compactCandidate list \<Rightarrow> int \<Rightarrow> int \<Rightarrow> compactCandidate list list \<times> compactCandidate list" where
  "planPackBatches cands target mn =
     (case planLoop target cands [] 0 [] of (batches, cur, curBytes) \<Rightarrow>
        if cur = [] then (batches, [])
        else if curBytes \<ge> mn then (batches @ [cur], [])
        else if batches \<noteq> [] then (butlast batches @ [last batches @ cur], [])
        else (batches, cur))"

text \<open>
  \<open>stagePack\<close>: \<open>skip\<close> decides whether an unreadable chunk is left out or the pack abandoned. The
  candidates left out are returned beside the staged file.
\<close>

fun stageLoop ::
  "(digest \<Rightarrow> 'r + bytes) \<Rightarrow> (compactCandidate \<Rightarrow> 'r \<Rightarrow> 'e option) \<Rightarrow> compactCandidate list
    \<Rightarrow> packBuilder \<Rightarrow> (compactCandidate \<times> 'r) list \<Rightarrow> 'e + packBuilder \<times> (compactCandidate \<times> 'r) list" where
  "stageLoop rd skip [] b out = Inr (b, out)"
| "stageLoop rd skip (c # cs) b out =
     (case rd (cc_sum c) of
        Inl e \<Rightarrow> (case skip c e of Some err \<Rightarrow> Inl err | None \<Rightarrow> stageLoop rd skip cs b (out @ [(c, e)]))
      | Inr data \<Rightarrow> stageLoop rd skip cs (packBuilder_Add (cc_sum c) data b) out)"

definition stagePack ::
  "'e \<Rightarrow> bool \<Rightarrow> bool \<Rightarrow> flate_codec option \<Rightarrow> (digest \<Rightarrow> 'r + bytes) \<Rightarrow> (compactCandidate \<Rightarrow> 'r \<Rightarrow> 'e option)
    \<Rightarrow> compactCandidate list \<Rightarrow> 'e + (bytes \<times> packEntry list) option \<times> (compactCandidate \<times> 'r) list" where
  "stagePack ioerr createFails finishFails cmp rd skip batch =
     (if createFails then Inl ioerr
      else bind_result (stageLoop rd skip batch (newPackBuilder cmp) []) (\<lambda>(b, out).
        if pb_entries b = [] then Inr (None, out)
        else (case packBuilder_Finish finishFails b of
            None \<Rightarrow> Inl ioerr
          | Some staged \<Rightarrow> Inr (Some staged, out))))"


section \<open>Replacing packs\<close>

text \<open>Which calls of a replacement fail; reads are numbered by phase, packs by the order they are staged in.\<close>

record repack_io =
  rp_load :: "string \<Rightarrow> bool"
  rp_read :: "nat \<Rightarrow> digest \<Rightarrow> bool"
  rp_create :: "nat \<Rightarrow> bool"
  rp_finish :: "nat \<Rightarrow> bool"
  rp_pub :: "nat \<Rightarrow> cas_io"
  rp_remove :: "string \<Rightarrow> bool"
  rp_sync :: "string \<Rightarrow> bool"
  rp_reload :: load_io

datatype repack_error =
    RepackPackChanged string | RepackNoCopy digest cas_error | RepackStaging | RepackPublish cas_error
  | RepackNotReadable digest | RepackRemove string | RepackSync string | RepackReload load_error
  | RepackOptions | RepackUnsafe | RepackClash

record repackOptions =
  ro_Tier :: "tier option"
  ro_TargetBytes :: int
  ro_MaxLivePercent :: int
  ro_DryRun :: bool
  ro_Compress :: bool

record RepackResult =
  rk_DryRun :: bool
  rk_LiveSetOK :: bool
  rk_PackCount :: nat
  rk_PackedChunkCount :: nat
  rk_PackFileBytes :: nat
  rk_PacksSelected :: nat
  rk_PacksFullyDead :: nat
  rk_PacksRewritten :: nat
  rk_Selected :: "packUsage list"
  rk_RecordsCopied :: nat
  rk_BytesRead :: nat
  rk_PacksWritten :: int
  rk_BytesWritten :: int
  rk_RawRecords :: int
  rk_CompressedRecords :: nat
  rk_LogicalBytes :: nat
  rk_StoredBytes :: nat
  rk_PacksDeleted :: nat
  rk_BytesDeleted :: nat
  rk_BytesReclaimed :: int

definition empty_repack :: RepackResult where
  "empty_repack = \<lparr>rk_DryRun = False, rk_LiveSetOK = False, rk_PackCount = 0, rk_PackedChunkCount = 0, rk_PackFileBytes = 0,
     rk_PacksSelected = 0, rk_PacksFullyDead = 0, rk_PacksRewritten = 0, rk_Selected = [], rk_RecordsCopied = 0, rk_BytesRead = 0,
     rk_PacksWritten = 0, rk_BytesWritten = 0, rk_RawRecords = 0, rk_CompressedRecords = 0, rk_LogicalBytes = 0, rk_StoredBytes = 0,
     rk_PacksDeleted = 0, rk_BytesDeleted = 0, rk_BytesReclaimed = 0\<rparr>"

text \<open>\<^verbatim>\<open>filepath.Base\<close> of a path that does not end in a slash.\<close>

definition filepath_Base :: "string \<Rightarrow> string" where
  "filepath_Base p = rev (takeWhile (\<lambda>c. c \<noteq> CHR ''/'') (rev p))"

definition filepath_Dir :: "string \<Rightarrow> string" where
  "filepath_Dir p = rev (drop 1 (dropWhile (\<lambda>c. c \<noteq> CHR ''/'') (rev p)))"

text \<open>\<open>copyAtTier\<close>: the first packed error, if there was one, and no loose copy either.\<close>

definition copyAtTier :: "flate_codec \<Rightarrow> bool \<Rightarrow> digest \<Rightarrow> tier \<Rightarrow> nat set \<Rightarrow> casState \<Rightarrow> pack_error option + unit" where
  "copyAtTier Z fails dg t skip s =
     (let reads = map (\<lambda>loc. readPacked Z dg loc s)
            (filter (\<lambda>loc. pl_tier loc = tier_num t \<and> pl_pack loc \<notin> skip) (appendLocs (cs_packs s) dg)) in
      if (\<exists>r \<in> set reads. is_ok r) then Inr ()
      else if t = TierHot \<and> is_ok (readLooseCopy fails dg s) then Inr ()
      else Inl (case reads of Inl e # _ \<Rightarrow> Some e | _ \<Rightarrow> None))"

fun carryEntries ::
  "string set \<Rightarrow> (digest \<Rightarrow> tier) option \<Rightarrow> tier \<Rightarrow> packEntry list \<Rightarrow> digest set \<times> (tier \<times> compactCandidate) list
    \<Rightarrow> digest set \<times> (tier \<times> compactCandidate) list" where
  "carryEntries referenced dest t [] acc = acc"
| "carryEntries referenced dest t (e # es) (seen, required) =
     (if hexDigest (pe_sha e) \<in> referenced \<and> pe_sha e \<notin> seen then
        let to = (case dest of None \<Rightarrow> t | Some d \<Rightarrow> d (pe_sha e)) in
        carryEntries referenced dest t es
          (insert (pe_sha e) seen, required @ [(to, \<lparr>cc_sum = pe_sha e, cc_size = int (unat (pe_logical e)), cc_rank = 0\<rparr>)])
      else carryEntries referenced dest t es (seen, required))"

fun gatherDoomed ::
  "repack_io \<Rightarrow> casState \<Rightarrow> string set \<Rightarrow> (digest \<Rightarrow> tier) option \<Rightarrow> packUsage list
    \<Rightarrow> digest set \<times> (tier \<times> compactCandidate) list \<Rightarrow> repack_error + digest set \<times> (tier \<times> compactCandidate) list" where
  "gatherDoomed io s referenced dest [] acc = Inr acc"
| "gatherDoomed io s referenced dest (u # us) acc =
     (let path = pi_path (ps_packs (cs_packs s) ! pu_idx u) in
      case (if rp_load io path then Inl PackOpen
            else case fmlookup (cs_packFiles s) path of
              None \<Rightarrow> Inl PackOpen
            | Some f \<Rightarrow> loadPackFile path (filepath_Base path) f) of
        Inl _ \<Rightarrow> Inl (RepackPackChanged (pu_ID u))
      | Inr (info, entries) \<Rightarrow>
          if pi_id info \<noteq> pu_ID u then Inl (RepackPackChanged (pu_ID u))
          else gatherDoomed io s referenced dest us (carryEntries referenced dest (pu_tier u) entries acc))"

text \<open>Whether a live chunk has the verified copy it needs outside the packs in \<open>skip\<close>; \<open>k\<close> is the phase of the read.\<close>

definition copyElsewhere ::
  "flate_codec \<Rightarrow> repack_io \<Rightarrow> nat \<Rightarrow> (digest \<Rightarrow> tier) option \<Rightarrow> nat set \<Rightarrow> casState \<Rightarrow> tier \<times> compactCandidate \<Rightarrow> bool" where
  "copyElsewhere Z io k dest skip s tc =
     (case dest of
        None \<Rightarrow> is_ok (casReadExcluding Z (rp_read io k (cc_sum (snd tc))) (cc_sum (snd tc)) skip s)
      | Some _ \<Rightarrow> is_ok (copyAtTier Z (rp_read io k (cc_sum (snd tc))) (cc_sum (snd tc)) (fst tc) skip s))"

definition tierBatches :: "int \<Rightarrow> (tier \<times> compactCandidate) list \<Rightarrow> tier \<Rightarrow> (tier \<times> compactCandidate list) list" where
  "tierBatches target need t =
     (case planPackBatches (map snd (filter (\<lambda>tc. fst tc = t) need)) target (target div int packMinFraction) of
        (batches, tail) \<Rightarrow> map (Pair t) (if tail \<noteq> [] then batches @ [tail] else batches))"

text \<open>Every replacement is staged before any is published.\<close>

fun stageAll ::
  "flate_codec \<Rightarrow> repack_io \<Rightarrow> flate_codec option \<Rightarrow> casState \<Rightarrow> nat \<Rightarrow> (tier \<times> compactCandidate list) list
    \<Rightarrow> repack_error + (tier \<times> bytes \<times> packEntry list) list" where
  "stageAll Z io cmp s n [] = Inr []"
| "stageAll Z io cmp s n ((t, batch) # bs) =
     (case stagePack RepackStaging (rp_create io n) (rp_finish io n) cmp
             (\<lambda>dg. casReadExcluding Z (rp_read io 1 dg) dg {} s) (\<lambda>c e. Some (RepackNoCopy (cc_sum c) e)) batch of
        Inl e \<Rightarrow> Inl e
      | Inr (staged, _) \<Rightarrow>
          bind_result (stageAll Z io cmp s (Suc n) bs) (\<lambda>more.
            Inr ((t, (case staged of None \<Rightarrow> ([], []) | Some fe \<Rightarrow> fe)) # more)))"

definition countPack :: "packInfo \<Rightarrow> packEntry list \<Rightarrow> RepackResult \<Rightarrow> RepackResult" where
  "countPack info entries res =
     res\<lparr>rk_PacksWritten := rk_PacksWritten res + 1,
         rk_BytesWritten := rk_BytesWritten res + int (pi_size info),
         rk_RecordsCopied := rk_RecordsCopied res + length entries,
         rk_RawRecords := rk_RawRecords res + (int (pi_records info) - int (pi_deflated info)),
         rk_CompressedRecords := rk_CompressedRecords res + pi_deflated info,
         rk_LogicalBytes := rk_LogicalBytes res + pi_logical info,
         rk_StoredBytes := rk_StoredBytes res + pi_stored info,
         rk_BytesRead := rk_BytesRead res + pi_logical info\<rparr>"

text \<open>A replacement identical to a doomed pack is that pack: it leaves the doomed list and \<open>skip\<close>.\<close>

fun spareIdentical :: "packInfo \<Rightarrow> tier \<Rightarrow> packUsage list \<Rightarrow> nat set \<Rightarrow> packUsage list \<times> nat set" where
  "spareIdentical info t [] skip = ([], skip)"
| "spareIdentical info t (u # us) skip =
     (if pu_ID u = pi_id info \<and> pu_tier u = t \<and> pu_idx u \<in> skip then (us, skip - {pu_idx u})
      else (case spareIdentical info t us skip of (us1, skip1) \<Rightarrow> (u # us1, skip1)))"

fun publishAll ::
  "flate_codec \<Rightarrow> repack_io \<Rightarrow> nat \<Rightarrow> (tier \<times> bytes \<times> packEntry list) list \<Rightarrow> packUsage list \<Rightarrow> nat set \<Rightarrow> RepackResult \<Rightarrow> casState
    \<Rightarrow> (repack_error + packUsage list \<times> nat set) \<times> RepackResult \<times> casState" where
  "publishAll Z io n [] doomed skip res s = (Inr (doomed, skip), res, s)"
| "publishAll Z io n ((t, f, entries) # sps) doomed skip res s =
     (case publishPack Z (rp_pub io n) t f entries s of
        (Inl e, s1) \<Rightarrow> (Inl (RepackPublish e), res, s1)
      | (Inr info, s1) \<Rightarrow>
          (case spareIdentical info t doomed skip of (doomed1, skip1) \<Rightarrow>
             publishAll Z io (Suc n) sps doomed1 skip1 (countPack info entries res) s1))"

fun removePacks :: "repack_io \<Rightarrow> packUsage list \<Rightarrow> RepackResult \<Rightarrow> casState \<Rightarrow> (repack_error + unit) \<times> RepackResult \<times> casState" where
  "removePacks io [] res s = (Inr (), res, s)"
| "removePacks io (u # us) res s =
     (let path = pi_path (ps_packs (cs_packs s) ! pu_idx u) in
      if rp_remove io path then (Inl (RepackRemove (pu_ID u)), res, s)
      else removePacks io us
        (res\<lparr>rk_PacksDeleted := rk_PacksDeleted res + 1, rk_BytesDeleted := rk_BytesDeleted res + pu_Size u\<rparr>)
        (s\<lparr>cs_packFiles := fmdrop path (cs_packFiles s)\<rparr>))"

definition newCompressor :: "flate_codec \<Rightarrow> bool \<Rightarrow> flate_codec option" where
  "newCompressor Z compress = (if compress then Some Z else None)"

definition replacePacksTo ::
  "flate_codec \<Rightarrow> repack_io \<Rightarrow> packUsage list \<Rightarrow> string set \<Rightarrow> (digest \<Rightarrow> tier) option \<Rightarrow> int \<Rightarrow> bool \<Rightarrow> RepackResult \<Rightarrow> casState
    \<Rightarrow> (repack_error + unit) \<times> RepackResult \<times> casState" where
  "replacePacksTo Z io doomed0 referenced dest target compress res s =
     (if doomed0 = [] then (Inr (), res, s)
      else
        let doomed = sort_key (\<lambda>u. (tier_num (pu_tier u), pu_idx u)) doomed0;
            skip = pu_idx ` set doomed in
        case gatherDoomed io s referenced dest doomed ({}, []) of
          Inl e \<Rightarrow> (Inl e, res, s)
        | Inr (_, required) \<Rightarrow>
            let need = concat (map (\<lambda>t. filter (\<lambda>tc. fst tc = t \<and> \<not> copyElsewhere Z io 0 dest skip s tc) required)
                  [TierHot, TierWarm, TierCold]) in
            (case stageAll Z io (newCompressor Z compress) s 0 (concat (map (tierBatches target need) [TierHot, TierWarm, TierCold])) of
               Inl e \<Rightarrow> (Inl e, res, s)
             | Inr staged \<Rightarrow>
                 (case publishAll Z io 0 staged doomed skip res s of
                    (Inl e, res1, s1) \<Rightarrow> (Inl e, res1, s1)
                  | (Inr (doomed1, skip1), res1, s1) \<Rightarrow>
                      (case find (\<lambda>tc. \<not> copyElsewhere Z io 2 dest skip1 s1 tc) need of
                         Some tc \<Rightarrow> (Inl (RepackNotReadable (cc_sum (snd tc))), res1, s1)
                       | None \<Rightarrow>
                           let doomed2 = sort_key (\<lambda>u. (tier_num (pu_tier u), pu_ID u)) doomed1;
                               dirs = remdups (map (\<lambda>u. filepath_Dir (pi_path (ps_packs (cs_packs s1) ! pu_idx u))) doomed2) in
                           (case removePacks io doomed2 res1 s1 of
                              (Inl e, res2, s2) \<Rightarrow> (Inl e, res2, s2)
                            | (Inr _, res2, s2) \<Rightarrow>
                                (case find (rp_sync io) (sort dirs) of
                                   Some dir \<Rightarrow> (Inl (RepackSync dir), res2, s2)
                                 | None \<Rightarrow>
                                     (case reloadPacks (rp_reload io) s2 of
                                        (Inl e, s3) \<Rightarrow> (Inl (RepackReload e), res2, s3)
                                      | (Inr _, s3) \<Rightarrow> (Inr (), res2, s3))))))))"

definition replacePacks ::
  "flate_codec \<Rightarrow> repack_io \<Rightarrow> packUsage list \<Rightarrow> string set \<Rightarrow> int \<Rightarrow> bool \<Rightarrow> RepackResult \<Rightarrow> casState
    \<Rightarrow> (repack_error + unit) \<times> RepackResult \<times> casState" where
  "replacePacks Z io doomed referenced target compress res s = replacePacksTo Z io doomed referenced None target compress res s"

text \<open>\<open>low\<close> is the floating-point test that a partly dead pack is below the threshold.\<close>

definition selectRepackPacks :: "(packUsage \<Rightarrow> int \<Rightarrow> bool) \<Rightarrow> packUsage list \<Rightarrow> int \<Rightarrow> packUsage list" where
  "selectRepackPacks low us maxLivePercent =
     filter (\<lambda>u. fullyDead u \<or> partiallyDead u \<and> low u maxLivePercent) us"

text \<open>\<open>ok\<close> and \<open>referenced\<close> are the verdict and the chunks of the reachability scan.\<close>

definition repack ::
  "flate_codec \<Rightarrow> repack_io \<Rightarrow> (packUsage \<Rightarrow> int \<Rightarrow> bool) \<Rightarrow> bool \<Rightarrow> string set \<Rightarrow> repackOptions \<Rightarrow> casState
    \<Rightarrow> (repack_error + unit) \<times> RepackResult \<times> casState" where
  "repack Z io low ok referenced opt s =
     (let res = empty_repack\<lparr>rk_DryRun := ro_DryRun opt, rk_LiveSetOK := ok\<rparr> in
      if ro_TargetBytes opt \<le> 0 \<or> ro_MaxLivePercent opt < 0 \<or> ro_MaxLivePercent opt > 100 then (Inl RepackOptions, res, s)
      else
        let us = packUsages referenced (cs_packs s); sm = summarizePacks us;
            sel0 = selectRepackPacks low us (ro_MaxLivePercent opt);
            sel = (case ro_Tier opt of None \<Rightarrow> sel0 | Some t \<Rightarrow> filter (\<lambda>u. pu_tier u = t) sel0);
            part = filter (\<lambda>u. \<not> fullyDead u) sel;
            liveRecords = sum_list (map pu_LiveRecords part);
            res1 = res\<lparr>rk_PackCount := sm_PackCount sm, rk_PackedChunkCount := sm_PackedChunkCount sm, rk_PackFileBytes := sm_PackFileBytes sm,
                       rk_Selected := sel, rk_PacksSelected := length sel, rk_PacksFullyDead := length (filter fullyDead sel),
                       rk_PacksRewritten := length part\<rparr> in
        if ro_DryRun opt then
          let written = int (sum_list (map pu_LiveBytes part)) + int (liveRecords * packRecordBytes) + int packFixedBytes;
              packs = (written + ro_TargetBytes opt - 1) div ro_TargetBytes opt;
              res2 = (if liveRecords > 0 then res1\<lparr>rk_RecordsCopied := liveRecords, rk_BytesRead := sum_list (map pu_LiveLogicalBytes part),
                        rk_PacksWritten := packs, rk_BytesWritten := written + (packs - 1) * int packFixedBytes\<rparr> else res1);
              oldBytes = sum_list (map pu_Size sel) in
          (Inr (), res2\<lparr>rk_PacksDeleted := length sel, rk_BytesDeleted := oldBytes,
                        rk_BytesReclaimed := int oldBytes - rk_BytesWritten res2\<rparr>, s)
        else if \<not> ok then (Inl RepackUnsafe, res1, s)
        else if ps_clash (cs_packs s) \<noteq> [] then (Inl RepackClash, res1, s)
        else (case replacePacks Z io sel referenced (ro_TargetBytes opt) (ro_Compress opt) res1 s of
            (Inl e, res2, s1) \<Rightarrow> (Inl e, res2, s1)
          | (Inr _, res2, s1) \<Rightarrow> (Inr (), res2\<lparr>rk_BytesReclaimed := int (rk_BytesDeleted res2) - rk_BytesWritten res2\<rparr>, s1)))"


section \<open>Pack stores\<close>

text \<open>
  \<open>pack_set B\<close>: a set of pack files on which naming by the hash of the body works, and whose
  entries do not contradict each other. \<open>pack_store B s\<close>: the published packs of \<open>s\<close> are among
  them and the locator in memory is linked to them.
\<close>

definition pack_set :: "bytes set \<Rightarrow> bool" where
  "pack_set B \<longleftrightarrow> pack_names B \<and> (\<forall>f \<in> B. \<forall>es bs. readPackLayout f = Inr (es, bs) \<longrightarrow> packFileID f = hexDigest bs)
     \<and> (\<forall>f \<in> B. \<forall>g \<in> B. \<forall>es bs ds cs. readPackLayout f = Inr (es, bs) \<longrightarrow> readPackLayout g = Inr (ds, cs) \<longrightarrow>
          (\<forall>e \<in> set es. \<forall>d \<in> set ds. pe_sha e = pe_sha d \<longrightarrow> pe_logical e = pe_logical d))"

definition disk_ok :: "bytes set \<Rightarrow> casState \<Rightarrow> bool" where
  "disk_ok B s \<longleftrightarrow> pack_set B \<and> (\<forall>t f es. published s t f es \<longrightarrow> f \<in> B) \<and> tiers_ok s \<and> small_files s"

definition pack_store :: "bytes set \<Rightarrow> casState \<Rightarrow> bool" where
  "pack_store B s \<longleftrightarrow> disk_ok B s \<and> linked s"

lemma disk_uniform: "disk_ok B s \<Longrightarrow> uniform_disk s"
  unfolding disk_ok_def uniform_disk_def pack_set_def published_def by blast

lemma published_named:
  assumes "disk_ok B s" "published s t f es"
  shows "f \<in> B" "fmlookup (cs_packFiles s) (packPath (cs_root s) t (packFileID f)) = Some f"
  using assms by (auto simp: disk_ok_def published_def pack_set_def hexDigest_def)

lemma linked_pack:
  assumes "linked s" "i < length (ps_packs (cs_packs s))"
  obtains f bs where "fmlookup (cs_packFiles s) (pi_path (ps_packs (cs_packs s) ! i)) = Some f"
    "readPackLayout f = Inr (entries_at s (pi_path (ps_packs (cs_packs s) ! i)), bs)" "pi_id (ps_packs (cs_packs s) ! i) = hexDigest bs"
    "pi_path (ps_packs (cs_packs s) ! i) = packPath (cs_root s) (pi_tier (ps_packs (cs_packs s) ! i)) (pi_id (ps_packs (cs_packs s) ! i))"
    "published s (pi_tier (ps_packs (cs_packs s) ! i)) f (entries_at s (pi_path (ps_packs (cs_packs s) ! i)))"
proof -
  let ?p = "ps_packs (cs_packs s) ! i"
  have "?p \<in> set (ps_packs (cs_packs s))" using assms(2) by simp
  then obtain f bs where f: "fmlookup (cs_packFiles s) (pi_path ?p) = Some f" "readPackLayout f = Inr (entries_at s (pi_path ?p), bs)"
    "pi_id ?p = hexDigest bs" "pi_path ?p = packPath (cs_root s) (pi_tier ?p) (pi_id ?p)"
    using assms(1) unfolding linked_def hexDigest_def by blast
  then have "published s (pi_tier ?p) f (entries_at s (pi_path ?p))" by (auto simp: published_def hexDigest_def)
  with f show ?thesis by (rule that)
qed

lemma pack_store_packs_ok:
  assumes "pack_store B s"
  shows "packs_ok B s"
proof -
  have L: "linked s" and D: "disk_ok B s" using assms by (simp_all add: pack_store_def)
  have sn: "snapshot_ok (cs_packs s)" using L by (simp add: linked_def exact_def)
  have "pack_ok B s p" if p: "p \<in> set (ps_packs (cs_packs s))" for p
  proof -
    obtain i where i: "i < length (ps_packs (cs_packs s))" "p = ps_packs (cs_packs s) ! i" using p by (metis in_set_conv_nth)
    obtain f bs where f: "fmlookup (cs_packFiles s) (pi_path p) = Some f" "readPackLayout f = Inr (entries_at s (pi_path p), bs)"
      "pi_id p = hexDigest bs" "pi_path p = packPath (cs_root s) (pi_tier p) (pi_id p)" "published s (pi_tier p) f (entries_at s (pi_path p))"
      using linked_pack [OF L i(1)] unfolding i(2) by blast
    have B: "f \<in> B" using published_named(1) [OF D f(5)] .
    then have "pi_id p = packFileID f" using D f(2,3) by (auto simp: disk_ok_def pack_set_def)
    moreover have "pe_sha e \<in> indexed (cs_packs s)" if "e \<in> set (entries_at s (pi_path p))" for e
    proof (rule ccontr)
      assume "pe_sha e \<notin> indexed (cs_packs s)"
      then have "set (appendLocs (cs_packs s) (pe_sha e)) = {}" by (rule appendLocs_empty [OF sn])
      moreover have "set (appendLocs (cs_packs s) (pe_sha e)) = pack_copies s (ps_packs (cs_packs s)) (pe_sha e)"
        using L unfolding linked_def exact_def by blast
      ultimately have "pack_copies s (ps_packs (cs_packs s)) (pe_sha e) = {}" by simp
      then show False using i that by (auto simp: pack_copies_def)
    qed
    ultimately show ?thesis using f B by (auto simp: pack_ok_def)
  qed
  then show ?thesis using sn by (simp add: packs_ok_def)
qed

lemma publishPack_cases:
  assumes "publishPack Z io t f entries s = (r, s')"
  obtains (none) "\<not> is_ok r" "s' = s"
  | (format) v where "\<not> is_ok r" "s' = s\<lparr>cs_format := v\<rparr>" "cs_format s \<le> v"
  | (written) info v s2 where "\<not> is_ok r" "s' = s2" "verifyPackFile Z ''staged'' f = Inr (info, entries)" "cs_format s \<le> v"
      "t \<noteq> TierHot \<longrightarrow> storeFormatVersionTiers \<le> v"
      "s2 = s\<lparr>cs_format := v, cs_packFiles := fmupd (packPath (cs_root s) t (pi_id info)) f (cs_packFiles s)\<rparr>"
  | (added) info v s2 p where "verifyPackFile Z ''staged'' f = Inr (info, entries)" "cs_format s \<le> v"
      "t \<noteq> TierHot \<longrightarrow> storeFormatVersionTiers \<le> v"
      "s2 = s\<lparr>cs_format := v, cs_packFiles := fmupd (packPath (cs_root s) t (pi_id info)) f (cs_packFiles s)\<rparr>"
      "p = info\<lparr>pi_path := packPath (cs_root s) t (pi_id info), pi_tier := t\<rparr>"
      "(case addPack p entries s2 of (Inl e, s3) \<Rightarrow> (Inl e, s3) | (Inr _, s3) \<Rightarrow> (Inr p, s3)) = (r, s')"
proof (cases "\<not> io_pack io PackVerify \<and> (\<exists>info. verifyPackFile Z ''staged'' f = Inr (info, entries))
    \<and> \<not> (cs_format s < packFormatNeeded t entries \<and> io_pack io PackFormat)")
  case False
  then have "\<not> is_ok r \<and> s' = s"
    using assms by (auto simp: publishPack_def Let_def split: if_splits sum.splits prod.splits)
  then show ?thesis using none by blast
next
  case True
  then obtain info where v: "verifyPackFile Z ''staged'' f = Inr (info, entries)" by blast
  note vi = verified_info [OF v]
  let ?need = "packFormatNeeded t entries"
  define v1 where "v1 = (if cs_format s \<ge> ?need then cs_format s else ?need)"
  have fv: "cs_format s \<le> v1" "t \<noteq> TierHot \<longrightarrow> storeFormatVersionTiers \<le> v1"
    by (auto simp: v1_def packFormatNeeded_def Let_def storeFormatVersionTiers_def)
  have s1: "(if cs_format s \<ge> ?need then s else s\<lparr>cs_format := ?need\<rparr>) = s\<lparr>cs_format := v1\<rparr>" by (simp add: v1_def)
  let ?final = "packPath (cs_root s) t (pi_id info)"
  define s2 where "s2 = s\<lparr>cs_format := v1, cs_packFiles := fmupd ?final f (cs_packFiles s)\<rparr>"
  define p where "p = info\<lparr>pi_path := ?final, pi_tier := t\<rparr>"
  consider "\<not> is_ok r" "s' = s\<lparr>cs_format := v1\<rparr>" | "\<not> is_ok r" "s' = s2"
    | "(case addPack p entries s2 of (Inl e, s3) \<Rightarrow> (Inl e, s3) | (Inr _, s3) \<Rightarrow> (Inr p, s3)) = (r, s')"
    using assms True v vi(3) [of ?final]
    by (auto simp: publishPack_def Let_def s1 s2_def [symmetric] p_def [symmetric] split: if_splits)
  then show ?thesis
  proof cases
    case 1
    then show ?thesis using format fv by blast
  next
    case 2
    then show ?thesis using written [OF _ _ v fv s2_def] by blast
  next
    case 3
    then show ?thesis using added [OF v fv s2_def p_def] by blast
  qed
qed

text \<open>What publication keeps: the packs before it, their files, and every good copy.\<close>

definition extends :: "flate_codec \<Rightarrow> casState \<Rightarrow> casState \<Rightarrow> bool" where
  "extends Z s s' \<longleftrightarrow> cs_loose s' = cs_loose s \<and> cs_root s' = cs_root s
     \<and> (\<exists>ext. ps_packs (cs_packs s') = ps_packs (cs_packs s) @ ext)
     \<and> (\<forall>t f es. published s t f es \<longrightarrow> published s' t f es)
     \<and> (\<forall>skip dg. packed_good Z skip dg s \<longrightarrow> packed_good Z skip dg s')"

lemma extends_refl [simp]: "extends Z s s" and extends_trans: "extends Z s t \<Longrightarrow> extends Z t u \<Longrightarrow> extends Z s u"
  by (auto simp: extends_def)

lemma extends_disk_good: "extends Z s s' \<Longrightarrow> disk_good Z dg s \<Longrightarrow> disk_good Z dg s'"
  unfolding extends_def disk_good_def loose_good_def by metis

text \<open>Writing a pack of \<open>B\<close> under its name: nothing that was published changes.\<close>

lemma write_published:
  assumes D: "disk_ok B s" and f: "f \<in> B" "readPackLayout f = Inr (es, bs)"
    and v: "cs_format s \<le> v" "t \<noteq> TierHot \<longrightarrow> storeFormatVersionTiers \<le> v"
    and s2: "s2 = s\<lparr>cs_format := v, cs_packFiles := fmupd (packPath (cs_root s) t (packFileID f)) f (cs_packFiles s)\<rparr>"
  shows "disk_ok B s2" "published s u g ds \<Longrightarrow> published s2 u g ds" "published s2 t f es"
proof -
  have ps: "pack_set B" using D by (simp add: disk_ok_def)
  have id: "packFileID f = hexDigest bs" using ps f by (auto simp: pack_set_def)
  show pub: "published s2 u g ds" if p: "published s u g ds" for u g ds
  proof -
    obtain cs where c: "fmlookup (cs_packFiles s) (packPath (cs_root s) u (hexDigest cs)) = Some g" "readPackLayout g = Inr (ds, cs)"
      using p by (auto simp: published_def hexDigest_def)
    have g: "g \<in> B" using published_named(1) [OF D p] .
    have gid: "packFileID g = hexDigest cs" using ps g c(2) by (auto simp: pack_set_def)
    have "fmlookup (cs_packFiles s2) (packPath (cs_root s) u (hexDigest cs)) = Some g"
    proof (cases "u = t \<and> packFileID f = packFileID g")
      case True
      then have "f = g" using ps f(1) g by (auto simp: pack_set_def pack_names_def dest: inj_onD)
      then show ?thesis using True gid by (simp add: s2)
    next
      case False
      then show ?thesis using c(1) gid by (auto simp: s2 packPath_inj)
    qed
    then show ?thesis using c(2) by (auto simp: published_def hexDigest_def s2)
  qed
  show "published s2 t f es" using f(2) id by (auto simp: published_def hexDigest_def s2)
  have "g \<in> B" if p: "published s2 u g ds" for u g ds
  proof -
    obtain cs where c: "fmlookup (cs_packFiles s2) (packPath (cs_root s) u (hexDigest cs)) = Some g" "readPackLayout g = Inr (ds, cs)"
      using p by (auto simp: published_def hexDigest_def s2)
    show ?thesis
    proof (cases "packPath (cs_root s) u (hexDigest cs) = packPath (cs_root s) t (packFileID f)")
      case True
      then show ?thesis using c(1) f(1) by (simp add: s2)
    next
      case False
      then have "published s u g ds" using c by (auto simp: published_def hexDigest_def s2)
      then show ?thesis using published_named(1) [OF D] by blast
    qed
  qed
  moreover have "tiers_ok s2"
    unfolding tiers_ok_def
  proof (intro allI impI)
    fix u i assume u: "u \<noteq> TierHot" "fmlookup (cs_packFiles s2) (packPath (cs_root s2) u i) \<noteq> None"
    show "storeFormatVersionTiers \<le> cs_format s2"
    proof (cases "u = t")
      case True
      then show ?thesis using u(1) v(2) by (simp add: s2)
    next
      case False
      then have "fmlookup (cs_packFiles s) (packPath (cs_root s) u i) \<noteq> None" using u(2) by (simp add: s2 packPath_inj)
      then show ?thesis using D u(1) v(1) by (force simp: disk_ok_def tiers_ok_def s2)
    qed
  qed
  moreover have "small_files s2" using D f(1) by (auto simp: disk_ok_def small_files_def pack_set_def pack_names_def s2)
  ultimately show "disk_ok B s2" using ps by (auto simp: disk_ok_def)
qed

text \<open>A state with the same locator in which the published packs stayed is still linked.\<close>

lemma linked_frame:
  assumes L: "linked s" and st: "cs_packs s' = cs_packs s" "cs_root s' = cs_root s"
    and fl: "\<And>p. p \<in> set (ps_packs (cs_packs s)) \<Longrightarrow> fmlookup (cs_packFiles s') (pi_path p) = fmlookup (cs_packFiles s) (pi_path p)"
  shows "linked s'" "packed_good Z skip dg s \<Longrightarrow> packed_good Z skip dg s'"
proof -
  have ent: "entries_at s' (pi_path p) = entries_at s (pi_path p)" if "p \<in> set (ps_packs (cs_packs s))" for p
    using fl [OF that] by (simp add: entries_at_def)
  have "pack_copies s' (ps_packs (cs_packs s)) dg = pack_copies s (ps_packs (cs_packs s)) dg" for dg
    using ent unfolding pack_copies_def by (metis (no_types, lifting) nth_mem)
  then have ex: "exact s'" using L st by (simp add: linked_def exact_def)
  show "linked s'"
    unfolding linked_def st
  proof (intro conjI ballI ex)
    show "distinct (map pi_path (ps_packs (cs_packs s)))" using L by (simp add: linked_def)
  next
    fix p assume p: "p \<in> set (ps_packs (cs_packs s))"
    show "pi_path p = packPath (cs_root s) (pi_tier p) (pi_id p)" using L p by (auto simp: linked_def)
    show "\<exists>f bs. fmlookup (cs_packFiles s') (pi_path p) = Some f \<and> readPackLayout f = Inr (entries_at s' (pi_path p), bs)
        \<and> pi_id p = hex_encode (digest_bytes bs)"
      using L p unfolding ent [OF p] fl [OF p] linked_def by blast
  qed
  show "packed_good Z skip dg s'" if "packed_good Z skip dg s"
  proof -
    have "exact s" using L by (simp add: linked_def)
    with that obtain i e f where i: "i < length (ps_packs (cs_packs s))" "i \<notin> skip"
      "fmlookup (cs_packFiles s) (pi_path (ps_packs (cs_packs s) ! i)) = Some f"
      "e \<in> set (entries_at s (pi_path (ps_packs (cs_packs s) ! i)))" "pe_sha e = dg" "is_ok (readPackRecord Z f e)"
      unfolding packed_good_exact [OF \<open>exact s\<close>] by blast
    then show ?thesis unfolding packed_good_exact [OF ex] st
      using ent [of "ps_packs (cs_packs s) ! i"] fl [of "ps_packs (cs_packs s) ! i"]
      by (intro exI [of _ i] exI [of _ e] exI [of _ f]) simp
  qed
qed

lemma write_linked:
  assumes S: "pack_store B s" and f: "f \<in> B" "readPackLayout f = Inr (es, bs)"
    and v: "cs_format s \<le> v" "t \<noteq> TierHot \<longrightarrow> storeFormatVersionTiers \<le> v"
    and s2: "s2 = s\<lparr>cs_format := v, cs_packFiles := fmupd (packPath (cs_root s) t (packFileID f)) f (cs_packFiles s)\<rparr>"
  shows "pack_store B s2" "extends Z s s2"
proof -
  have D: "disk_ok B s" and L: "linked s" using S by (simp_all add: pack_store_def)
  note W = write_published [OF D f v s2]
  have fl: "fmlookup (cs_packFiles s2) (pi_path p) = fmlookup (cs_packFiles s) (pi_path p)" if "p \<in> set (ps_packs (cs_packs s))" for p
    using pack_file_same [OF pack_store_packs_ok [OF S] _ f(1) refl that, of t] D by (simp add: s2 disk_ok_def pack_set_def)
  have st: "cs_packs s2 = cs_packs s" "cs_root s2 = cs_root s" by (simp_all add: s2)
  note F = linked_frame [OF L st fl]
  show "pack_store B s2" using W(1) F(1) by (simp add: pack_store_def)
  show "extends Z s s2" using W(2) F(2) by (simp add: extends_def s2)
qed

lemma publishPack_linked:
  assumes run: "publishPack Z io t f entries s = (r, s')" and S: "pack_store B s"
    and B: "\<And>path. is_ok (verifyPackFile Z path f) \<Longrightarrow> f \<in> B"
  shows "pack_store B s' \<and> extends Z s s'"
  using run
proof (cases rule: publishPack_cases)
  case none
  then show ?thesis using S by simp
next
  case (format v)
  have st: "cs_packs s' = cs_packs s" "cs_root s' = cs_root s" "cs_packFiles s' = cs_packFiles s" using format(2) by simp_all
  have L: "linked s" and D: "disk_ok B s" using S by (simp_all add: pack_store_def)
  note F = linked_frame [OF L st(1,2), simplified st(3)]
  have p: "published s' u g ds = published s u g ds" for u g ds using st by (simp add: published_def)
  have "disk_ok B s'" using D format(3) unfolding disk_ok_def p by (force simp: tiers_ok_def small_files_def format(2))
  then show ?thesis using F p format(2) by (auto simp: pack_store_def extends_def)
next
  case (written info v s2)
  obtain bs where lay: "readPackLayout f = Inr (entries, bs)" using verified_info(2) [OF written(3)] by blast
  have f: "f \<in> B" using B written(3) by blast
  have "s2 = s\<lparr>cs_format := v, cs_packFiles := fmupd (packPath (cs_root s) t (packFileID f)) f (cs_packFiles s)\<rparr>"
    using written(6) verified_info(1) [OF written(3)] by simp
  from write_linked [OF S f lay written(4,5) this] show ?thesis using written(2) by simp
next
  case (added info v s2 p)
  note ver = added(1)
  obtain bs where lay: "readPackLayout f = Inr (entries, bs)" using verified_info(2) [OF ver] by blast
  have f: "f \<in> B" using B ver by blast
  have id: "pi_id info = packFileID f" using verified_info(1) [OF ver] .
  have s2: "s2 = s\<lparr>cs_format := v, cs_packFiles := fmupd (packPath (cs_root s) t (packFileID f)) f (cs_packFiles s)\<rparr>"
    using added(4) id by simp
  note W = write_linked [OF S f lay added(2,3) s2]
  have D2: "disk_ok B s2" and L2: "linked s2" using W(1) by (simp_all add: pack_store_def)
  have pub2: "published s2 t f entries" using write_published(3) [OF _ f lay added(2,3) s2] S by (simp add: pack_store_def)
  have ps: "pack_set B" using D2 by (simp add: disk_ok_def)
  obtain r2 where ad: "addPack p entries s2 = (r2, s')" using added(6) by (cases "addPack p entries s2") (auto split: sum.splits)
  have p: "pi_path p = packPath (cs_root s2) t (packFileID f)" "pi_tier p = t" "pi_id p = packFileID f"
    using added(5) id s2 by simp_all
  let ?ps = "ps_packs (cs_packs s2)"
  show ?thesis
  proof (cases "withPack p entries (cs_packs s2)")
    case (Inl e)
    then have "s' = s2" using ad by (simp add: addPack_def)
    then show ?thesis using W by simp
  next
    case (Inr st)
    then have s': "s' = s2\<lparr>cs_packs := st\<rparr>" using ad by (simp add: addPack_def)
    consider "st = cs_packs s2" | (new) "\<not> (\<exists>q \<in> set ?ps. pi_id q = pi_id p \<and> pi_tier q = pi_tier p)"
      "length ?ps < unat packIdxMask" "length entries + sum_list (map ix_size (ps_levels (cs_packs s2))) < 4294967295"
      using withPack_Inr [OF Inr] by blast
    then show ?thesis
    proof cases
      case 1
      then show ?thesis using W s' by simp
    next
      case new
      have sn: "snapshot_ok (cs_packs s2)" using L2 by (simp add: linked_def exact_def)
      have len: "length f < 2 ^ 63" using ps f by (simp add: pack_set_def pack_names_def)
      note vp = verified_pack [OF ver len]
      obtain st' where w: "withPack p entries (cs_packs s2) = Inr st'" "snapshot_ok st'" "ps_packs st' = ?ps @ [p]"
        and locs: "\<forall>dg. set (appendLocs st' dg) = set (appendLocs (cs_packs s2) dg)
           \<union> {entry_loc (length ?ps) (pi_tier p) e | e. e \<in> set entries \<and> pe_sha e = dg \<and> agrees (cs_packs s2) e}"
        using withPack_locs [OF sn new(1-3) vp(2)] vp(3) by blast
      have st: "st' = st" using w(1) Inr by simp
      have ent: "entries_at s' q = entries_at s2 q" for q by (simp add: s' entries_at_def)
      have fp: "fmlookup (cs_packFiles s2) (pi_path p) = Some f" "entries_at s2 (pi_path p) = entries"
        using p(1) lay by (simp_all add: s2 entries_at_def)
      have ag: "agrees (cs_packs s2) e" if e: "e \<in> set entries" for e
        unfolding agrees_def
      proof
        fix l assume "l \<in> set (appendLocs (cs_packs s2) (pe_sha e))"
        then have "l \<in> pack_copies s2 ?ps (pe_sha e)" using L2 by (auto simp: linked_def exact_def)
        then obtain i d where i: "i < length ?ps" "d \<in> set (entries_at s2 (pi_path (?ps ! i)))" "pe_sha d = pe_sha e"
          "l = entry_loc i (pi_tier (?ps ! i)) d" unfolding pack_copies_def by blast
        obtain g where "published s2 (pi_tier (?ps ! i)) g (entries_at s2 (pi_path (?ps ! i)))" using linked_pack [OF L2 i(1)] by metis
        then have "pe_logical d = pe_logical e" using disk_uniform [OF D2] pub2 i(2,3) e unfolding uniform_disk_def by metis
        then show "pl_logical l = pe_logical e" by (simp add: i(4) entry_loc_def)
      qed
      have copies: "pack_copies s' (?ps @ [p]) dg = pack_copies s2 ?ps dg \<union> {entry_loc (length ?ps) (pi_tier p) e | e. e \<in> set entries \<and> pe_sha e = dg}" for dg
      proof -
        have "(i < length (?ps @ [p]) \<and> e \<in> set (entries_at s2 (pi_path ((?ps @ [p]) ! i))) \<and> pe_sha e = dg)
            \<longleftrightarrow> i < length ?ps \<and> e \<in> set (entries_at s2 (pi_path (?ps ! i))) \<and> pe_sha e = dg \<or> i = length ?ps \<and> e \<in> set entries \<and> pe_sha e = dg"
          for i e using fp(2) by (cases "i < length ?ps") (auto simp: nth_append)
        then have "pack_copies s' (?ps @ [p]) dg = {entry_loc i (pi_tier ((?ps @ [p]) ! i)) e | i e.
            i < length ?ps \<and> e \<in> set (entries_at s2 (pi_path (?ps ! i))) \<and> pe_sha e = dg}
            \<union> {entry_loc i (pi_tier ((?ps @ [p]) ! i)) e | i e. i = length ?ps \<and> e \<in> set entries \<and> pe_sha e = dg}"
          unfolding pack_copies_def ent by blast
        also have "{entry_loc i (pi_tier ((?ps @ [p]) ! i)) e | i e. i < length ?ps \<and> e \<in> set (entries_at s2 (pi_path (?ps ! i))) \<and> pe_sha e = dg}
            = pack_copies s2 ?ps dg" unfolding pack_copies_def by (metis (no_types, lifting) nth_append)
        finally show ?thesis by simp
      qed
      have ex: "exact s'"
        unfolding exact_def s' using w(2,3) locs ag L2 copies [unfolded s'] st by (auto simp: linked_def exact_def)
      have "pi_path p \<noteq> pi_path q" if "q \<in> set ?ps" for q
        using new(1) that p L2 unfolding linked_def by (metis packPath_inj)
      then have "linked s'"
        using ex L2 w(3) st p lay fp ps f unfolding linked_def ent by (auto simp: s' pack_set_def hexDigest_def)
      moreover have pb: "published s' u g ds = published s2 u g ds" for u g ds by (simp add: s' published_def)
      moreover have "disk_ok B s'" using D2 unfolding disk_ok_def pb by (simp add: s' tiers_ok_def small_files_def)
      moreover have "packed_good Z skip dg s'" if g: "packed_good Z skip dg s2" for skip dg
      proof -
        have e2: "exact s2" using L2 by (simp add: linked_def)
        obtain i e h where i: "i < length ?ps" "i \<notin> skip" "fmlookup (cs_packFiles s2) (pi_path (?ps ! i)) = Some h"
          "e \<in> set (entries_at s2 (pi_path (?ps ! i)))" "pe_sha e = dg" "is_ok (readPackRecord Z h e)"
          using g unfolding packed_good_exact [OF e2] by blast
        then show ?thesis unfolding packed_good_exact [OF ex] ent
          by (intro exI [of _ i] exI [of _ e] exI [of _ h]) (simp add: s' w(3) [unfolded st] nth_append)
      qed
      ultimately have "pack_store B s'" "extends Z s2 s'" using w(3) st by (auto simp: pack_store_def extends_def s')
      then show ?thesis using W(2) extends_trans by blast
    qed
  qed
qed


section \<open>Planning and staging lose nothing\<close>

lemma planLoop_concat:
  "planLoop target cs cur n bs = (bs', cur', n') \<Longrightarrow> concat bs' @ cur' = concat bs @ cur @ cs"
  by (induction target cs cur n bs rule: planLoop.induct) (auto simp: Let_def split: if_splits)

lemma planPackBatches_concat:
  assumes "planPackBatches cs target mn = (batches, tail)"
  shows "concat batches @ tail = cs"
proof -
  obtain bs cur n where l: "planLoop target cs [] 0 [] = (bs, cur, n)" by (metis prod_cases3)
  have c: "concat bs @ cur = cs" using planLoop_concat [OF l] by simp
  have "bs \<noteq> [] \<Longrightarrow> concat (butlast bs) @ last bs = concat bs"
    by (metis append_butlast_last_id concat.simps(1) concat.simps(2) concat_append self_append_conv)
  then show ?thesis using assms l c by (auto simp: planPackBatches_def split: if_splits)
qed

text \<open>Every chunk to carry over is in exactly one batch of its tier.\<close>

lemma tierBatches_covers:
  "concat (map snd (tierBatches target need t)) = map snd (filter (\<lambda>tc. fst tc = t) need)"
proof -
  obtain bs tail where p: "planPackBatches (map snd (filter (\<lambda>tc. fst tc = t) need)) target (target div int packMinFraction) = (bs, tail)"
    by fastforce
  have "map snd (map (Pair t) xs) = xs" for xs :: "compactCandidate list list" by (simp add: comp_def)
  then have "concat (map snd (tierBatches target need t)) = concat bs @ tail" by (simp add: tierBatches_def p)
  then show ?thesis using planPackBatches_concat [OF p] by simp
qed

lemma distinct_batch:
  "distinct (map g (concat bs)) \<Longrightarrow> b \<in> set bs \<Longrightarrow> distinct (map g b)"
  by (induction bs) auto

text \<open>A staged pack is one of the packs that the contents readable in \<open>s\<close> can form.\<close>

definition held :: "flate_codec \<Rightarrow> casState \<Rightarrow> bytes set" where
  "held Z s = {data. fmlookup (cs_loose s) (sha256 data) = Some data
     \<or> (\<exists>loc \<in> set (appendLocs (cs_packs s) (sha256 data)). readPacked Z (sha256 data) loc s = Inr data)}"

definition new_packs :: "flate_codec option \<Rightarrow> bytes set \<Rightarrow> bytes set" where
  "new_packs cmp C = {built cmp ds | ds. ds \<noteq> [] \<and> set ds \<subseteq> C \<and> distinct (map sha256 ds)}"

lemma casReadExcluding_sound: "casReadExcluding Z fails dg skip s = Inr data \<Longrightarrow> sha256 data = dg"
  unfolding casReadExcluding_def by (rule readCopies_sound)

lemma readCopies_origin:
  "readCopies Z fails dg skip s le pe locs = Inr data
    \<Longrightarrow> readLooseCopy fails dg s = Inr data \<or> (\<exists>loc \<in> set locs. readPacked Z dg loc s = Inr data)"
proof (induction Z fails dg skip s le pe locs rule: readCopies.induct)
  case 1
  then show ?case by (auto split: option.splits sum.splits if_splits)
next
  case 2
  then show ?case by (auto split: sum.splits if_splits)
qed

lemma read_held:
  assumes "casReadExcluding Z fails dg skip s = Inr data"
  shows "data \<in> held Z s"
proof -
  have dg: "dg = sha256 data" using casReadExcluding_sound [OF assms] by simp
  have "readLooseCopy fails dg s = Inr data \<Longrightarrow> fmlookup (cs_loose s) dg = Some data"
    by (simp add: readLooseCopy_def split: if_splits option.splits)
  then show ?thesis using readCopies_origin [OF assms [unfolded casReadExcluding_def]] unfolding held_def dg by blast
qed

lemma stageLoop_builds:
  assumes "stageLoop rd (\<lambda>c e. Some (err c e)) batch (packBuild cmp ds) out = Inr (b, out')"
    and "\<And>dg data. rd dg = Inr data \<Longrightarrow> sha256 data = dg \<and> data \<in> C"
  shows "\<exists>ds'. b = packBuild cmp (ds @ ds') \<and> map sha256 ds' = map cc_sum batch \<and> set ds' \<subseteq> C"
  using assms(1)
proof (induction batch arbitrary: ds)
  case (Cons c cs)
  then obtain data where d: "rd (cc_sum c) = Inr data" by (cases "rd (cc_sum c)") auto
  then have s: "sha256 data = cc_sum c" "data \<in> C" using assms(2) by auto
  have "stageLoop rd (\<lambda>c e. Some (err c e)) cs (packBuild cmp (ds @ [data])) out = Inr (b, out')"
    using Cons.prems d s(1) packBuild_snoc [of data cmp ds] by simp
  from Cons.IH [OF this] obtain ds' where "b = packBuild cmp ((ds @ [data]) @ ds')" "map sha256 ds' = map cc_sum cs" "set ds' \<subseteq> C" by blast
  then show ?case using s by (intro exI [of _ "data # ds'"]) simp
qed simp

lemma stagePack_staged:
  assumes "stagePack err cf ff cmp (\<lambda>dg. casReadExcluding Z (fails dg) dg {} s) (\<lambda>c e. Some (err2 c e)) batch = Inr (staged, out)"
    and "distinct (map cc_sum batch)" "new_packs cmp (held Z s) \<subseteq> B"
  shows "staged = None \<or> (\<exists>f es. staged = Some (f, es) \<and> f \<in> B)"
proof -
  have nb: "newPackBuilder cmp = packBuild cmp []" by (simp add: packBuild_def)
  obtain b out2 where l: "stageLoop (\<lambda>dg. casReadExcluding Z (fails dg) dg {} s) (\<lambda>c e. Some (err2 c e)) batch (packBuild cmp []) [] = Inr (b, out2)"
    and st: "staged = None \<or> pb_entries b \<noteq> [] \<and> (\<exists>f es. packBuilder_Finish ff b = Some (f, es) \<and> staged = Some (f, es))"
    using assms(1) by (auto simp: stagePack_def nb split: if_splits option.splits)
  have "\<exists>ds'. b = packBuild cmp ([] @ ds') \<and> map sha256 ds' = map cc_sum batch \<and> set ds' \<subseteq> held Z s"
    by (rule stageLoop_builds [OF l]) (auto simp: read_held casReadExcluding_sound)
  then obtain ds where ds: "b = packBuild cmp ds" "map sha256 ds = map cc_sum batch" "set ds \<subseteq> held Z s" by auto
  have "built cmp ds \<in> B" if "pb_entries b \<noteq> []"
  proof -
    have "ds \<noteq> []" using that ds(1) by (auto simp: packBuild_def newPackBuilder_def)
    then have "built cmp ds \<in> new_packs cmp (held Z s)"
      unfolding new_packs_def using assms(2) ds(2,3) by (intro CollectI exI [of _ ds]) simp
    then show ?thesis using assms(3) by blast
  qed
  moreover have "f = built cmp ds" if "packBuilder_Finish ff b = Some (f, es)" for f es
    using that by (auto simp: packBuilder_Finish_def built_def ds(1) Let_def split: if_splits)
  ultimately show ?thesis using st by blast
qed

lemma empty_not_verified: "\<not> is_ok (verifyPackFile Z path [])"
  by (simp add: verifyPackFile_def statPackFile_def readPackLayout_def Let_def pack_size_defs)

lemma stageAll_staged:
  assumes "stageAll Z io cmp s n bs = Inr staged" "\<And>t b. (t, b) \<in> set bs \<Longrightarrow> distinct (map cc_sum b)"
    and "new_packs cmp (held Z s) \<subseteq> B"
  shows "\<forall>x \<in> set staged. \<forall>path. is_ok (verifyPackFile Z path (fst (snd x))) \<longrightarrow> fst (snd x) \<in> B"
  using assms(1,2)
proof (induction bs arbitrary: n staged)
  case (Cons tb bs)
  obtain t batch where tb: "tb = (t, batch)" by (cases tb)
  obtain st out where sp: "stagePack RepackStaging (rp_create io n) (rp_finish io n) cmp
      (\<lambda>dg. casReadExcluding Z (rp_read io 1 dg) dg {} s) (\<lambda>c e. Some (RepackNoCopy (cc_sum c) e)) batch = Inr (st, out)"
    using Cons.prems(1) unfolding tb stageAll.simps by (auto split: sum.splits)
  obtain more where m: "stageAll Z io cmp s (Suc n) bs = Inr more"
    "staged = (t, (case st of None \<Rightarrow> ([], []) | Some fe \<Rightarrow> fe)) # more"
    using Cons.prems(1) unfolding tb stageAll.simps sp by (cases "stageAll Z io cmp s (Suc n) bs") auto
  have d: "distinct (map cc_sum batch)" by (rule Cons.prems(2) [of t]) (simp add: tb)
  have "\<forall>x \<in> set more. \<forall>path. is_ok (verifyPackFile Z path (fst (snd x))) \<longrightarrow> fst (snd x) \<in> B"
    by (rule Cons.IH [OF m(1)]) (erule Cons.prems(2) [OF list.set_intros(2)])
  moreover have "\<forall>path. is_ok (verifyPackFile Z path (fst (case st of None \<Rightarrow> ([], []) | Some fe \<Rightarrow> fe))) \<longrightarrow> fst (case st of None \<Rightarrow> ([], []) | Some fe \<Rightarrow> fe) \<in> B"
    using stagePack_staged [OF sp d assms(3)] empty_not_verified [of Z]
    by (cases st) auto
  ultimately show ?case by (simp add: m(2))
qed simp

section \<open>Gathering and removing\<close>

abbreviation sum_of :: "tier \<times> compactCandidate \<Rightarrow> digest" where
  "sum_of tc \<equiv> cc_sum (snd tc)"

lemma carryEntries_spec:
  assumes "carryEntries referenced dest t es (seen, req) = (seen', req')" "seen = sum_of ` set req" "distinct (map sum_of req)"
  shows "seen' = sum_of ` set req' \<and> distinct (map sum_of req') \<and> set req \<subseteq> set req'
    \<and> (\<forall>e \<in> set es. hexDigest (pe_sha e) \<in> referenced \<longrightarrow> pe_sha e \<in> seen')"
  using assms
proof (induction es arbitrary: seen req)
  case (Cons e es)
  show ?case
  proof (cases "hexDigest (pe_sha e) \<in> referenced \<and> pe_sha e \<notin> seen")
    case True
    let ?c = "((case dest of None \<Rightarrow> t | Some d \<Rightarrow> d (pe_sha e)), \<lparr>cc_sum = pe_sha e, cc_size = int (unat (pe_logical e)), cc_rank = 0\<rparr>)"
    have run: "carryEntries referenced dest t es (insert (pe_sha e) seen, req @ [?c]) = (seen', req')"
      using Cons.prems(1) True by (simp add: Let_def)
    have pre: "insert (pe_sha e) seen = sum_of ` set (req @ [?c])" "distinct (map sum_of (req @ [?c]))"
      using Cons.prems(2,3) True by auto
    have I: "seen' = sum_of ` set req' \<and> distinct (map sum_of req') \<and> set (req @ [?c]) \<subseteq> set req'
      \<and> (\<forall>e \<in> set es. hexDigest (pe_sha e) \<in> referenced \<longrightarrow> pe_sha e \<in> seen')" by (rule Cons.IH [OF run pre])
    then have "?c \<in> set req'" by simp
    then have "pe_sha e \<in> sum_of ` set req'" by (force simp: image_iff)
    then have "pe_sha e \<in> seen'" using I by blast
    moreover have "seen' = sum_of ` set req'" "distinct (map sum_of req')" "set req \<subseteq> set req'"
      "\<forall>e \<in> set es. hexDigest (pe_sha e) \<in> referenced \<longrightarrow> pe_sha e \<in> seen'" using I by auto
    ultimately show ?thesis by (metis set_ConsD)
  next
    case False
    then have run: "carryEntries referenced dest t es (seen, req) = (seen', req')"
      using Cons.prems(1) unfolding carryEntries.simps by (simp only: if_False)
    have I: "seen' = sum_of ` set req' \<and> distinct (map sum_of req') \<and> set req \<subseteq> set req'
      \<and> (\<forall>e \<in> set es. hexDigest (pe_sha e) \<in> referenced \<longrightarrow> pe_sha e \<in> seen')" by (rule Cons.IH [OF run Cons.prems(2,3)])
    then have "seen \<subseteq> seen'" using Cons.prems(2) by (simp add: image_mono)
    then show ?thesis using I False by auto
  qed
qed simp

lemma gatherDoomed_step:
  assumes "gatherDoomed io s referenced dest (u # us) acc = Inr out"
  obtains es where "entries_at s (pi_path (ps_packs (cs_packs s) ! pu_idx u)) = es"
    "gatherDoomed io s referenced dest us (carryEntries referenced dest (pu_tier u) es acc) = Inr out"
proof -
  let ?path = "pi_path (ps_packs (cs_packs s) ! pu_idx u)"
  show ?thesis
  proof (cases "fmlookup (cs_packFiles s) ?path")
    case None
    then show ?thesis using assms by (simp add: Let_def split: if_splits)
  next
    case (Some f)
    show ?thesis
    proof (cases "loadPackFile ?path (filepath_Base ?path) f")
      case (Inl e)
      then show ?thesis using assms Some by (simp add: Let_def split: if_splits)
    next
      case (Inr ies)
      obtain info es where ies: "ies = (info, es)" by (cases ies)
      have "entries_at s ?path = es"
        using Some Inr ies by (auto simp: entries_at_def loadPackFile_def statPackFile_def Let_def split: if_splits sum.splits)
      moreover have "gatherDoomed io s referenced dest us (carryEntries referenced dest (pu_tier u) es acc) = Inr out"
        using assms Some Inr ies by (simp add: Let_def split: if_splits)
      ultimately show ?thesis using that by blast
    qed
  qed
qed

lemma gatherDoomed_spec:
  assumes "gatherDoomed io s referenced dest us (seen, req) = Inr (seen', req')" "seen = sum_of ` set req" "distinct (map sum_of req)"
  shows "seen' = sum_of ` set req' \<and> distinct (map sum_of req') \<and> seen \<subseteq> seen'
    \<and> (\<forall>u \<in> set us. \<forall>e \<in> set (entries_at s (pi_path (ps_packs (cs_packs s) ! pu_idx u))). hexDigest (pe_sha e) \<in> referenced \<longrightarrow> pe_sha e \<in> seen')"
  using assms
proof (induction us arbitrary: seen req)
  case (Cons u us)
  obtain es where es: "entries_at s (pi_path (ps_packs (cs_packs s) ! pu_idx u)) = es"
    and run: "gatherDoomed io s referenced dest us (carryEntries referenced dest (pu_tier u) es (seen, req)) = Inr (seen', req')"
    by (rule gatherDoomed_step [OF Cons.prems(1)])
  obtain seen1 req1 where c: "carryEntries referenced dest (pu_tier u) es (seen, req) = (seen1, req1)" by fastforce
  have C: "seen1 = sum_of ` set req1 \<and> distinct (map sum_of req1) \<and> set req \<subseteq> set req1
    \<and> (\<forall>e \<in> set es. hexDigest (pe_sha e) \<in> referenced \<longrightarrow> pe_sha e \<in> seen1)" by (rule carryEntries_spec [OF c Cons.prems(2,3)])
  have "seen1 = sum_of ` set req1" "distinct (map sum_of req1)" using C by blast+
  from Cons.IH [OF run [unfolded c] this]
  have I: "seen' = sum_of ` set req' \<and> distinct (map sum_of req') \<and> seen1 \<subseteq> seen'
    \<and> (\<forall>u \<in> set us. \<forall>e \<in> set (entries_at s (pi_path (ps_packs (cs_packs s) ! pu_idx u))). hexDigest (pe_sha e) \<in> referenced \<longrightarrow> pe_sha e \<in> seen')" .
  have "seen \<subseteq> seen1" using C Cons.prems(2) by (metis image_mono)
  then show ?case using I C es by (metis set_ConsD subset_iff)
qed simp

lemma spareIdentical_other:
  "spareIdentical info t us skip = (us1, skip1) \<Longrightarrow> i \<in> skip \<Longrightarrow> i \<notin> pu_idx ` set us \<Longrightarrow> i \<in> skip1"
  by (induction us arbitrary: us1) (auto split: if_splits prod.splits)

lemma spareIdentical_spec:
  assumes "spareIdentical info t us skip = (us1, skip1)" "distinct (map pu_idx us)" "pu_idx ` set us \<subseteq> skip"
  shows "set us1 \<subseteq> set us \<and> distinct (map pu_idx us1) \<and> pu_idx ` set us1 \<subseteq> skip1 \<and> skip1 \<subseteq> skip"
  using assms
proof (induction us arbitrary: us1)
  case (Cons u us)
  show ?case
  proof (cases "pu_ID u = pi_id info \<and> pu_tier u = t \<and> pu_idx u \<in> skip")
    case True
    then have e: "us1 = us" "skip1 = skip - {pu_idx u}" using Cons.prems(1) by simp_all
    moreover have "pu_idx u \<notin> pu_idx ` set us" using Cons.prems(2) by simp
    moreover have "pu_idx ` set us \<subseteq> skip" using Cons.prems(3) by simp
    ultimately have "pu_idx ` set us \<subseteq> skip - {pu_idx u}" by blast
    moreover have "set us \<subseteq> set (u # us)" "distinct (map pu_idx us)" using Cons.prems(2) by auto
    ultimately show ?thesis unfolding e by blast
  next
    case False
    obtain vs where v: "spareIdentical info t us skip = (vs, skip1)" "us1 = u # vs"
      using Cons.prems(1) False by (cases "spareIdentical info t us skip") (simp split: if_splits)
    have I: "set vs \<subseteq> set us \<and> distinct (map pu_idx vs) \<and> pu_idx ` set vs \<subseteq> skip1 \<and> skip1 \<subseteq> skip"
      using Cons.IH [OF v(1)] Cons.prems(2,3) by simp
    have n: "pu_idx u \<notin> pu_idx ` set vs" using I Cons.prems(2) by auto
    have "pu_idx u \<in> skip1"
      by (rule spareIdentical_other [OF v(1)]) (use Cons.prems(2,3) in auto)
    then show ?thesis using I n v(2) by auto
  qed
qed simp

text \<open>Publishing the staged packs loses no pack and no copy.\<close>

lemma publishAll_extends:
  assumes "publishAll Z io n staged doomed skip res s = (r, res', s')" "pack_store B s"
    and "\<forall>x \<in> set staged. \<forall>path. is_ok (verifyPackFile Z path (fst (snd x))) \<longrightarrow> fst (snd x) \<in> B"
    and "distinct (map pu_idx doomed)" "pu_idx ` set doomed \<subseteq> skip"
  shows "pack_store B s' \<and> extends Z s s' \<and> (\<forall>doomed1 skip1. r = Inr (doomed1, skip1) \<longrightarrow>
    set doomed1 \<subseteq> set doomed \<and> pu_idx ` set doomed1 \<subseteq> skip1 \<and> skip1 \<subseteq> skip)"
  using assms
proof (induction staged arbitrary: n doomed skip res s)
  case (Cons x staged)
  obtain t f es where x: "x = (t, f, es)" by (cases x) auto
  obtain q s1 where pb: "publishPack Z (rp_pub io n) t f es s = (q, s1)" by fastforce
  have f: "\<forall>path. is_ok (verifyPackFile Z path f) \<longrightarrow> f \<in> B" using Cons.prems(3) by (simp add: x)
  have "pack_store B s1 \<and> extends Z s s1" using publishPack_linked [OF pb Cons.prems(2)] f by blast
  then have P: "pack_store B s1" "extends Z s s1" by blast+
  show ?case
  proof (cases q)
    case (Inl e)
    then have "r = Inl (RepackPublish e)" "s' = s1" using Cons.prems(1) by (simp_all add: x pb)
    then show ?thesis using P by simp
  next
    case (Inr info)
    obtain d1 k1 where sp: "spareIdentical info t doomed skip = (d1, k1)" by fastforce
    note S = spareIdentical_spec [OF sp Cons.prems(4,5)]
    have run: "publishAll Z io (Suc n) staged d1 k1 (countPack info es res) s1 = (r, res', s')"
      using Cons.prems(1) by (simp add: x pb Inr sp)
    have "\<forall>x \<in> set staged. \<forall>path. is_ok (verifyPackFile Z path (fst (snd x))) \<longrightarrow> fst (snd x) \<in> B" using Cons.prems(3) by simp
    from Cons.IH [OF run P(1) this] S
    have I: "pack_store B s'" "extends Z s1 s'" "\<forall>doomed1 skip1. r = Inr (doomed1, skip1) \<longrightarrow>
      set doomed1 \<subseteq> set d1 \<and> pu_idx ` set doomed1 \<subseteq> skip1 \<and> skip1 \<subseteq> k1" by simp_all
    have "extends Z s s'" using extends_trans [OF P(2) I(2)] .
    moreover have "\<forall>doomed1 skip1. r = Inr (doomed1, skip1) \<longrightarrow>
      set doomed1 \<subseteq> set doomed \<and> pu_idx ` set doomed1 \<subseteq> skip1 \<and> skip1 \<subseteq> skip"
    proof (intro allI impI)
      fix doomed1 skip1
      assume "r = Inr (doomed1, skip1)"
      from I(3) [rule_format, OF this] show "set doomed1 \<subseteq> set doomed \<and> pu_idx ` set doomed1 \<subseteq> skip1 \<and> skip1 \<subseteq> skip"
        using S by blast
    qed
    ultimately show ?thesis using I(1) by simp
  qed
qed auto

definition doomedPath :: "casState \<Rightarrow> packUsage \<Rightarrow> string" where
  "doomedPath s u = pi_path (ps_packs (cs_packs s) ! pu_idx u)"

lemma removePacks_spec:
  assumes "removePacks io us res s = (r, res', s')"
  shows "cs_loose s' = cs_loose s \<and> cs_root s' = cs_root s \<and> cs_packs s' = cs_packs s \<and> cs_format s' = cs_format s
    \<and> (\<forall>p. p \<notin> doomedPath s ` set us \<longrightarrow> fmlookup (cs_packFiles s') p = fmlookup (cs_packFiles s) p)
    \<and> (\<forall>p. fmlookup (cs_packFiles s') p \<noteq> None \<longrightarrow> fmlookup (cs_packFiles s') p = fmlookup (cs_packFiles s) p)
    \<and> (is_ok r \<longrightarrow> (\<forall>u \<in> set us. fmlookup (cs_packFiles s') (doomedPath s u) = None))"
  using assms
proof (induction us arbitrary: res s)
  case (Cons u us)
  show ?case
  proof (cases "rp_remove io (doomedPath s u)")
    case True
    then show ?thesis using Cons.prems by (auto simp: Let_def doomedPath_def)
  next
    case False
    let ?s = "s\<lparr>cs_packFiles := fmdrop (doomedPath s u) (cs_packFiles s)\<rparr>"
    have path: "doomedPath ?s = doomedPath s" by (simp add: doomedPath_def fun_eq_iff)
    have run: "removePacks io us (res\<lparr>rk_PacksDeleted := rk_PacksDeleted res + 1, rk_BytesDeleted := rk_BytesDeleted res + pu_Size u\<rparr>) ?s = (r, res', s')"
      using Cons.prems False by (simp add: Let_def doomedPath_def)
    note I = Cons.IH [OF run, unfolded path]
    have f: "fmlookup (cs_packFiles ?s) p = (if p = doomedPath s u then None else fmlookup (cs_packFiles s) p)" for p by simp
    have "fmlookup (cs_packFiles s') (doomedPath s u) = None" using I unfolding f by metis
    moreover have "\<forall>p. fmlookup (cs_packFiles s') p \<noteq> None \<longrightarrow> fmlookup (cs_packFiles s') p = fmlookup (cs_packFiles s) p"
      using I calculation unfolding f by metis
    ultimately show ?thesis using I unfolding f by simp
  qed
qed simp

lemma copyElsewhere_ok:
  assumes "copyElsewhere Z io k dest skip s tc"
  shows "loose_good (sum_of tc) s \<or> packed_good Z skip (sum_of tc) s"
proof (cases dest)
  case None
  then show ?thesis using assms casReadExcluding_ok by (auto simp: copyElsewhere_def)
next
  case (Some d)
  let ?reads = "map (\<lambda>loc. readPacked Z (sum_of tc) loc s)
    (filter (\<lambda>loc. pl_tier loc = tier_num (fst tc) \<and> pl_pack loc \<notin> skip) (appendLocs (cs_packs s) (sum_of tc)))"
  have "(\<exists>r \<in> set ?reads. is_ok r) \<or> is_ok (readLooseCopy (rp_read io k (sum_of tc)) (sum_of tc) s)"
    using assms Some by (auto simp: copyElsewhere_def copyAtTier_def Let_def split: if_splits)
  then show ?thesis by (auto simp: packed_good_def readLooseCopy_iff)
qed

lemma packed_good_skip: "packed_good Z skip dg s \<Longrightarrow> skip1 \<subseteq> skip \<Longrightarrow> packed_good Z skip1 dg s"
  by (auto simp: packed_good_def)

text \<open>
  Removing the packs of \<open>us\<close> from a linked store: what is published outside them stays, and a
  copy that a read finds outside their indices stays on disk.
\<close>

lemma removed_store:
  assumes run: "removePacks io us res s = (r, res', s')" and S: "pack_store B s"
    and us: "\<And>u. u \<in> set us \<Longrightarrow> pu_idx u < length (ps_packs (cs_packs s))" "pu_idx ` set us \<subseteq> skip"
  shows "disk_ok B s'" "loose_good dg s' = loose_good dg s"
    "published s t f es \<Longrightarrow> packPath (cs_root s) t (packFileID f) \<notin> doomedPath s ` set us \<Longrightarrow> published s' t f es"
    "packed_good Z skip dg s \<Longrightarrow> disk_good Z dg s'"
proof -
  note R = removePacks_spec [OF run]
  have D: "disk_ok B s" and L: "linked s" using S by (simp_all add: pack_store_def)
  have old: "published s t f es" if "published s' t f es" for t f es using that R unfolding published_def by (metis option.discI)
  show "disk_ok B s'" using D old R unfolding disk_ok_def tiers_ok_def small_files_def by (metis option.discI)
  show "loose_good dg s' = loose_good dg s" using R by (simp add: loose_good_def)
  show keep: "published s' t f es" if p: "published s t f es" "packPath (cs_root s) t (packFileID f) \<notin> doomedPath s ` set us" for t f es
  proof -
    obtain bs where b: "fmlookup (cs_packFiles s) (packPath (cs_root s) t (hexDigest bs)) = Some f" "readPackLayout f = Inr (es, bs)"
      using p(1) by (auto simp: published_def hexDigest_def)
    have "packFileID f = hexDigest bs" using published_named(1) [OF D p(1)] b(2) D by (auto simp: disk_ok_def pack_set_def)
    then show ?thesis using R p(2) b unfolding published_def hexDigest_def by metis
  qed
  show "disk_good Z dg s'" if g: "packed_good Z skip dg s"
  proof -
    let ?ps = "ps_packs (cs_packs s)"
    have "exact s" using L by (simp add: linked_def)
    then obtain i e f where i: "i < length ?ps" "i \<notin> skip" "fmlookup (cs_packFiles s) (pi_path (?ps ! i)) = Some f"
      "e \<in> set (entries_at s (pi_path (?ps ! i)))" "pe_sha e = dg" "is_ok (readPackRecord Z f e)"
      using g unfolding packed_good_exact [OF \<open>exact s\<close>] by blast
    obtain g bs where g: "fmlookup (cs_packFiles s) (pi_path (?ps ! i)) = Some g"
      "pi_path (?ps ! i) = packPath (cs_root s) (pi_tier (?ps ! i)) (pi_id (?ps ! i))"
      "readPackLayout g = Inr (entries_at s (pi_path (?ps ! i)), bs)" "pi_id (?ps ! i) = hexDigest bs"
      "published s (pi_tier (?ps ! i)) g (entries_at s (pi_path (?ps ! i)))" using linked_pack [OF L i(1)] by metis
    have f: "g = f" using g(1) i(3) by simp
    have "packFileID f = hexDigest bs" using published_named(1) [OF D g(5)] g(3) D f by (auto simp: disk_ok_def pack_set_def)
    then have path: "packPath (cs_root s) (pi_tier (?ps ! i)) (packFileID f) = map pi_path ?ps ! i" using g(2,4) i(1) by simp
    have "packPath (cs_root s) (pi_tier (?ps ! i)) (packFileID f) \<notin> doomedPath s ` set us"
    proof
      assume "packPath (cs_root s) (pi_tier (?ps ! i)) (packFileID f) \<in> doomedPath s ` set us"
      then obtain u where u: "u \<in> set us" "map pi_path ?ps ! i = map pi_path ?ps ! pu_idx u" using us(1) path by (auto simp: doomedPath_def)
      have "i = pu_idx u"
        by (rule nth_eq_iff_index_eq [THEN iffD1, OF _ _ _ u(2)]) (use L i(1) us(1) [OF u(1)] in \<open>simp_all add: linked_def\<close>)
      then show False using u(1) us(2) i(2) by blast
    qed
    then have "published s' (pi_tier (?ps ! i)) f (entries_at s (pi_path (?ps ! i)))" using keep g(5) f by blast
    then show ?thesis using i(4-6) by (auto simp: disk_good_def)
  qed
qed

lemma mem_phases:
  "tc \<in> set (concat (map (\<lambda>t. filter (\<lambda>tc. fst tc = t \<and> P tc) xs) [TierHot, TierWarm, TierCold])) \<longleftrightarrow> tc \<in> set xs \<and> P tc"
  by (cases tc, cases "fst tc") auto


section \<open>Replacement is safe\<close>

text \<open>The stages of a replacement, as far as it came.\<close>

lemma replacePacksTo_cases:
  assumes "replacePacksTo Z io doomed0 referenced dest target compress res s = (r, res', s')"
  obtains (stopped) "s' = s" "r = Inr () \<longrightarrow> doomed0 = []"
  | (published) seen required need staged r1 res1 where
      "doomed0 \<noteq> []"
      "gatherDoomed io s referenced dest (sort_key (\<lambda>u. (tier_num (pu_tier u), pu_idx u)) doomed0) ({}, []) = Inr (seen, required)"
      "need = concat (map (\<lambda>t. filter (\<lambda>tc. fst tc = t \<and> \<not> copyElsewhere Z io 0 dest (pu_idx ` set doomed0) s tc) required)
                  [TierHot, TierWarm, TierCold])"
      "stageAll Z io (newCompressor Z compress) s 0 (concat (map (tierBatches target need) [TierHot, TierWarm, TierCold])) = Inr staged"
      "publishAll Z io 0 staged (sort_key (\<lambda>u. (tier_num (pu_tier u), pu_idx u)) doomed0) (pu_idx ` set doomed0) res s = (r1, res1, s')"
      "\<not> is_ok r"
  | (removed) seen required need staged doomed1 skip1 res1 s1 r2 res2 s2 where
      "doomed0 \<noteq> []"
      "gatherDoomed io s referenced dest (sort_key (\<lambda>u. (tier_num (pu_tier u), pu_idx u)) doomed0) ({}, []) = Inr (seen, required)"
      "need = concat (map (\<lambda>t. filter (\<lambda>tc. fst tc = t \<and> \<not> copyElsewhere Z io 0 dest (pu_idx ` set doomed0) s tc) required)
                  [TierHot, TierWarm, TierCold])"
      "stageAll Z io (newCompressor Z compress) s 0 (concat (map (tierBatches target need) [TierHot, TierWarm, TierCold])) = Inr staged"
      "publishAll Z io 0 staged (sort_key (\<lambda>u. (tier_num (pu_tier u), pu_idx u)) doomed0) (pu_idx ` set doomed0) res s
         = (Inr (doomed1, skip1), res1, s1)"
      "\<forall>tc \<in> set need. copyElsewhere Z io 2 dest skip1 s1 tc"
      "removePacks io (sort_key (\<lambda>u. (tier_num (pu_tier u), pu_ID u)) doomed1) res1 s1 = (r2, res2, s2)"
      "s' = s2 \<and> \<not> is_ok r \<or> (\<exists>st. loadPackState (rp_reload io) s2 = Inr st \<and> s' = s2\<lparr>cs_packs := st\<rparr> \<and> is_ok r2)"
proof (cases "doomed0 = []")
  case True
  then show ?thesis using assms stopped by (simp add: replacePacksTo_def)
next
  case False
  let ?doomed = "sort_key (\<lambda>u. (tier_num (pu_tier u), pu_idx u)) doomed0"
  let ?skip = "pu_idx ` set doomed0"
  show ?thesis
  proof (cases "gatherDoomed io s referenced dest ?doomed ({}, [])")
    case (Inl e)
    then have "s' = s" "r = Inl e" using assms False by (simp_all add: replacePacksTo_def Let_def)
    then show ?thesis using stopped by simp
  next
    case (Inr sr)
    obtain seen required where g: "gatherDoomed io s referenced dest ?doomed ({}, []) = Inr (seen, required)" using Inr by (cases sr) simp
    define need where need: "need = concat (map (\<lambda>t. filter (\<lambda>tc. fst tc = t \<and> \<not> copyElsewhere Z io 0 dest ?skip s tc) required)
                  [TierHot, TierWarm, TierCold])"
    let ?batches = "concat (map (tierBatches target need) [TierHot, TierWarm, TierCold])"
    show ?thesis
    proof (cases "stageAll Z io (newCompressor Z compress) s 0 ?batches")
      case (Inl e)
      then have "s' = s" "r = Inl e" using assms False g unfolding replacePacksTo_def Let_def set_sort by (simp_all only: g need [symmetric] sum.case prod.case if_False, simp_all)
      then show ?thesis using stopped by simp
    next
      case (Inr staged)
      obtain r1 res1 s1 where p: "publishAll Z io 0 staged ?doomed ?skip res s = (r1, res1, s1)" by (metis prod_cases3)
      have run: "(case (r1, res1, s1) of
                    (Inl e, res1, s1) \<Rightarrow> (Inl e, res1, s1)
                  | (Inr (doomed1, skip1), res1, s1) \<Rightarrow>
                      (case find (\<lambda>tc. \<not> copyElsewhere Z io 2 dest skip1 s1 tc) need of
                         Some tc \<Rightarrow> (Inl (RepackNotReadable (cc_sum (snd tc))), res1, s1)
                       | None \<Rightarrow>
                           let doomed2 = sort_key (\<lambda>u. (tier_num (pu_tier u), pu_ID u)) doomed1;
                               dirs = remdups (map (\<lambda>u. filepath_Dir (pi_path (ps_packs (cs_packs s1) ! pu_idx u))) doomed2) in
                           (case removePacks io doomed2 res1 s1 of
                              (Inl e, res2, s2) \<Rightarrow> (Inl e, res2, s2)
                            | (Inr _, res2, s2) \<Rightarrow>
                                (case find (rp_sync io) (sort dirs) of
                                   Some dir \<Rightarrow> (Inl (RepackSync dir), res2, s2)
                                 | None \<Rightarrow>
                                     (case reloadPacks (rp_reload io) s2 of
                                        (Inl e, s3) \<Rightarrow> (Inl (RepackReload e), res2, s3)
                                      | (Inr _, s3) \<Rightarrow> (Inr (), res2, s3)))))) = (r, res', s')"
        using assms False Inr unfolding replacePacksTo_def Let_def set_sort by (simp only: g need [symmetric] p sum.case prod.case if_False)
      show ?thesis
      proof (cases r1)
        case (Inl e)
        then have "s1 = s'" "\<not> is_ok r" using run by auto
        then show ?thesis using published [OF False g need Inr p [unfolded \<open>s1 = s'\<close>]] by blast
      next
        case r1: (Inr ds)
        obtain doomed1 skip1 where ds: "r1 = Inr (doomed1, skip1)" using r1 by (cases ds) simp
        show ?thesis
        proof (cases "find (\<lambda>tc. \<not> copyElsewhere Z io 2 dest skip1 s1 tc) need")
          case (Some tc)
          then have "s1 = s'" "\<not> is_ok r" using run by (auto simp: ds)
          then show ?thesis using published [OF False g need Inr p [unfolded \<open>s1 = s'\<close>]] by blast
        next
          case None
          let ?d2 = "sort_key (\<lambda>u. (tier_num (pu_tier u), pu_ID u)) doomed1"
          obtain r2 res2 s2 where m: "removePacks io ?d2 res1 s1 = (r2, res2, s2)" by (metis prod_cases3)
          have all: "\<forall>tc \<in> set need. copyElsewhere Z io 2 dest skip1 s1 tc" using None by (auto simp: find_None_iff)
          have "s' = s2 \<and> \<not> is_ok r \<or> (\<exists>st. loadPackState (rp_reload io) s2 = Inr st \<and> s' = s2\<lparr>cs_packs := st\<rparr> \<and> is_ok r2)"
            using run None by (auto simp: ds Let_def m reloadPacks_def split: sum.splits option.splits)
          then show ?thesis using removed [OF False g need Inr p [unfolded ds] all m] by blast
        qed
      qed
    qed
  qed
qed

text \<open>Whatever the doomed packs hold of the chunk \<open>dg\<close> and is still referenced, a replacement keeps.\<close>

lemma tierBatches_distinct:
  assumes "distinct (map sum_of required)" "(t, b) \<in> set (concat (map (tierBatches target (concat (map (\<lambda>t. filter (\<lambda>tc. fst tc = t \<and> P tc) required) ts))) us))"
    and "distinct ts"
  shows "distinct (map cc_sum b)"
proof -
  let ?need = "concat (map (\<lambda>t. filter (\<lambda>tc. fst tc = t \<and> P tc) required) ts)"
  have "distinct (map sum_of (filter (\<lambda>tc. fst tc = u) ?need))" for u
  proof -
    have "filter (\<lambda>tc. fst tc = u) ?need = (if u \<in> set ts then filter (\<lambda>tc. fst tc = u \<and> P tc) required else [])"
      using assms(3) by (induction ts) (auto simp: conj_commute intro: filter_cong filter_False)
    then show ?thesis using assms(1) by (simp add: distinct_map_filter)
  qed
  then have "distinct (map cc_sum (map snd (filter (\<lambda>tc. fst tc = u) ?need)))" for u by (simp add: comp_def)
  then have d: "distinct (map cc_sum (concat (map snd (tierBatches target ?need u))))" for u by (simp only: tierBatches_covers)
  obtain u where "(t, b) \<in> set (tierBatches target ?need u)" using assms(2) by auto
  then have "b \<in> set (map snd (tierBatches target ?need u))" by force
  then show ?thesis using distinct_batch [OF d] by blast
qed

lemma reload_frame:
  "published (s\<lparr>cs_packs := st\<rparr>) = published s" "disk_good Z dg (s\<lparr>cs_packs := st\<rparr>) = disk_good Z dg s"
  "disk_ok B (s\<lparr>cs_packs := st\<rparr>) = disk_ok B s"
proof -
  show p: "published (s\<lparr>cs_packs := st\<rparr>) = published s" by (simp add: published_def fun_eq_iff)
  show "disk_good Z dg (s\<lparr>cs_packs := st\<rparr>) = disk_good Z dg s" unfolding disk_good_def p by (simp add: loose_good_def)
  show "disk_ok B (s\<lparr>cs_packs := st\<rparr>) = disk_ok B s" unfolding disk_ok_def p by (simp add: tiers_ok_def small_files_def)
qed

lemma replaced_store:
  assumes run: "replacePacksTo Z io doomed referenced dest target compress res s = (r, res', s')" and S: "pack_store B s"
    and B: "new_packs (newCompressor Z compress) (held Z s) \<subseteq> B"
    and idx: "\<forall>u \<in> set doomed. pu_idx u < length (ps_packs (cs_packs s))" "distinct (map pu_idx doomed)"
  shows "disk_ok B s' \<and> cs_loose s' = cs_loose s
    \<and> (\<forall>t f es. published s t f es \<longrightarrow> packPath (cs_root s) t (packFileID f) \<notin> doomedPath s ` set doomed \<longrightarrow> published s' t f es)
    \<and> (\<forall>dg. hexDigest dg \<in> referenced \<longrightarrow> disk_good Z dg s \<longrightarrow> disk_good Z dg s')
    \<and> (r = Inr () \<longrightarrow> linked s')"
  using run
proof (cases rule: replacePacksTo_cases)
  case stopped
  then show ?thesis using S by (simp add: pack_store_def)
next
  case (published seen required need staged r1 res1)
  note G = gatherDoomed_spec [OF published(2), simplified]
  have "distinct (map cc_sum b)" if "(t, b) \<in> set (concat (map (tierBatches target need) [TierHot, TierWarm, TierCold]))" for t b
    by (rule tierBatches_distinct [OF _ that [unfolded published(3)]]) (use G in simp_all)
  from stageAll_staged [OF published(4) this B] 
  have st: "\<forall>x \<in> set staged. \<forall>path. is_ok (verifyPackFile Z path (fst (snd x))) \<longrightarrow> fst (snd x) \<in> B" .
  have P: "pack_store B s'" "extends Z s s'"
    using publishAll_extends [OF published(5) S st] idx(2) by (auto simp: distinct_map)
  then show ?thesis using published(6) extends_disk_good [OF P(2)] by (auto simp: pack_store_def extends_def)
next
  case (removed seen required need staged doomed1 skip1 res1 s1 r2 res2 s2)
  let ?skip = "pu_idx ` set doomed"
  note G = gatherDoomed_spec [OF removed(2), simplified]
  have "distinct (map cc_sum b)" if "(t, b) \<in> set (concat (map (tierBatches target need) [TierHot, TierWarm, TierCold]))" for t b
    by (rule tierBatches_distinct [OF _ that [unfolded removed(3)]]) (use G in simp_all)
  from stageAll_staged [OF removed(4) this B]
  have st: "\<forall>x \<in> set staged. \<forall>path. is_ok (verifyPackFile Z path (fst (snd x))) \<longrightarrow> fst (snd x) \<in> B" .
  have P: "pack_store B s1" "extends Z s s1"
    and K: "set doomed1 \<subseteq> set doomed" "pu_idx ` set doomed1 \<subseteq> skip1" "skip1 \<subseteq> ?skip"
    using publishAll_extends [OF removed(5) S st] idx(2) by (auto simp: distinct_map)
  obtain ext where ext: "ps_packs (cs_packs s1) = ps_packs (cs_packs s) @ ext" using P(2) by (auto simp: extends_def)
  have path: "doomedPath s1 u = doomedPath s u" "pu_idx u < length (ps_packs (cs_packs s1))" if "u \<in> set doomed1" for u
    using subsetD [OF K(1) that] idx(1) by (auto simp: doomedPath_def ext nth_append intro: trans_less_add1)
  note M = removed_store [OF removed(7) P(1), simplified]
  have root: "cs_root s1 = cs_root s" "cs_loose s1 = cs_loose s" using P(2) by (simp_all add: extends_def)
  note R = removePacks_spec [OF removed(7)]
  have keep: "published s2 t f es" if "published s t f es" "packPath (cs_root s) t (packFileID f) \<notin> doomedPath s ` set doomed1" for t f es
    using M(3) [OF path(2) K(2)] that path(1) P(2) root by (metis (no_types, lifting) extends_def image_cong)
  have live: "disk_good Z dg s2" if dg: "hexDigest dg \<in> referenced" "disk_good Z dg s" for dg
  proof -
    have good: "disk_good Z dg s2" if g: "loose_good dg s \<or> packed_good Z skip1 dg s1"
      using g
    proof
      assume "loose_good dg s"
      then have "loose_good dg s2" using M(2) [OF path(2) K(2)] root(2) by (simp add: loose_good_def)
      then show ?thesis by (simp add: disk_good_def)
    next
      assume "packed_good Z skip1 dg s1"
      then show ?thesis using removed_store(4) [OF removed(7) P(1), where skip = skip1 and Z = Z and dg = dg] path(2) K(2) by simp
    qed
    consider "loose_good dg s" | t f es e where "published s t f es" "e \<in> set es" "pe_sha e = dg" "is_ok (readPackRecord Z f e)"
      using dg(2) unfolding disk_good_def by blast
    then show ?thesis
    proof cases
      case 1
      then show ?thesis using good by blast
    next
      case (2 t f es e)
      show ?thesis
      proof (cases "packPath (cs_root s) t (packFileID f) \<in> doomedPath s ` set doomed1")
        case False
        then show ?thesis using keep 2 unfolding disk_good_def by blast
      next
        case True
        then obtain u where u: "u \<in> set doomed" "packPath (cs_root s) t (packFileID f) = doomedPath s u" using K(1) by blast
        have "fmlookup (cs_packFiles s) (doomedPath s u) = Some f"
          using published_named(2) [of B, OF _ 2(1)] S u(2) by (simp add: pack_store_def)
        then have "entries_at s (doomedPath s u) = es" using 2(1) by (auto simp: entries_at_def published_def)
        then have "dg \<in> seen" using G u(1) 2(2,3) dg(1) by (auto simp: doomedPath_def)
        then obtain tc where tc: "tc \<in> set required" "sum_of tc = dg" using G by auto
        show ?thesis
        proof (cases "copyElsewhere Z io 0 dest ?skip s tc")
          case True
          then have "loose_good dg s \<or> packed_good Z ?skip dg s" using copyElsewhere_ok tc(2) by blast
          then show ?thesis using good packed_good_skip [OF _ K(3)] P(2) unfolding extends_def by blast
        next
          case False
          then have "tc \<in> set need" using tc(1) unfolding removed(3) mem_phases by blast
          then have "loose_good dg s1 \<or> packed_good Z skip1 dg s1" using removed(6) copyElsewhere_ok tc(2) by blast
          then show ?thesis using good root(2) by (auto simp: loose_good_def)
        qed
      qed
    qed
  qed
  have D: "disk_ok B s2" using M(1) [OF path(2) K(2)] .
  have fr: "published s' t f es = published s2 t f es" "disk_good Z dg s' = disk_good Z dg s2" "cs_loose s' = cs_loose s2" "disk_ok B s' = disk_ok B s2" for t f es dg
    using removed(8) reload_frame by auto
  have "linked s'" if "r = Inr ()"
    using removed(8) that reopen_linked [OF _ disk_uniform [OF D]] D by (auto simp: disk_ok_def)
  moreover have "published s2 t f es" if "published s t f es" "packPath (cs_root s) t (packFileID f) \<notin> doomedPath s ` set doomed" for t f es
    using keep that K(1) by blast
  ultimately show ?thesis using D live R root unfolding fr by simp
qed


text \<open>C28: Replacing packs keeps every live chunk. Whichever call fails and wherever the run stops, the
  loose chunks and the packs that are not replaced stay, and a referenced chunk of which the disk held a good copy
  still has one: its doomed pack is removed only after another copy was read back. After a run that
  succeeds the locator in memory matches the disk.\<close>

theorem replacement_keeps_live_chunks:
  assumes run: "replacePacksTo Z io doomed referenced dest target compress res s = (r, res', s')" and S: "pack_store B s"
    and B: "new_packs (newCompressor Z compress) (held Z s) \<subseteq> B"
    and idx: "\<forall>u \<in> set doomed. pu_idx u < length (ps_packs (cs_packs s))" "distinct (map pu_idx doomed)"
  shows "disk_ok B s' \<and> cs_loose s' = cs_loose s
    \<and> (\<forall>t f es. published s t f es \<longrightarrow> packPath (cs_root s) t (packFileID f) \<notin> doomedPath s ` set doomed \<longrightarrow> published s' t f es)
    \<and> (\<forall>dg. hexDigest dg \<in> referenced \<longrightarrow> disk_good Z dg s \<longrightarrow> disk_good Z dg s')
    \<and> (r = Inr () \<longrightarrow> linked s')"
  by (rule replaced_store [OF assms])

lemma packUsages_idx: "map pu_idx (packUsages referenced st) = [0..<length (ps_packs st)]"
  by (simp add: packUsages_def Let_def comp_def)

lemma packUsages_valid:
  "u \<in> set (packUsages referenced st) \<Longrightarrow> pu_idx u < length (ps_packs st)" "distinct (map pu_idx (packUsages referenced st))"
  using packUsages_idx [of referenced st] by (auto simp del: set_map simp add: set_map [symmetric]) (metis atLeastLessThan_iff imageI set_map set_upt)

lemma one_pack_set: "pack_set {one_pack_file}"
proof -
  obtain e where e: "readPackLayout one_pack_file = Inr ([e], sha256 (take (length one_pack_file - packFooterSize) one_pack_file))"
    "length one_pack_file < 200" by (rule one_pack_layout)
  then show ?thesis by (auto simp: pack_set_def pack_names_def packFileID_def hexDigest_def)
qed

lemma one_pack_store:
  assumes "loadPackState load_all one_pack = Inr st"
  shows "pack_store {one_pack_file} (one_pack\<lparr>cs_packs := st\<rparr>)"
proof -
  have "disk_ok {one_pack_file} one_pack" using one_pack_set one_pack_disk by (auto simp: disk_ok_def one_pack_published)
  then show ?thesis using reopen_linked [OF assms one_pack_disk(1,2)] unfolding pack_store_def reload_frame by blast
qed

lemma one_pack_held:
  assumes "loadPackState load_all one_pack = Inr st"
  shows "new_packs None (held stored_flate (one_pack\<lparr>cs_packs := st\<rparr>)) \<subseteq> {one_pack_file}" "0 < length (ps_packs st)"
    "disk_good stored_flate (sha256 [7, 8, 9]) one_pack"
proof -
  let ?s = "one_pack\<lparr>cs_packs := st\<rparr>"
  obtain e where e: "readPackLayout one_pack_file = Inr ([e], sha256 (take (length one_pack_file - packFooterSize) one_pack_file))"
    "pe_sha e = sha256 [7, 8, 9]" "readPackRecord stored_flate one_pack_file e = Inr [7, 8, 9]" by (rule one_pack_layout)
  have pub: "published one_pack TierHot one_pack_file [e]" using e(1) by (auto simp: one_pack_published)
  then show "disk_good stored_flate (sha256 [7, 8, 9]) one_pack" unfolding disk_good_def using e by auto
  have "packed_good stored_flate {} (pe_sha e) ?s"
    by (rule reopen_packed [OF assms one_pack_disk _ pub]) (use e in \<open>simp_all add: load_all_def\<close>)
  moreover have L: "linked ?s" by (rule reopen_linked [OF assms one_pack_disk(1,2)])
  ultimately show "0 < length (ps_packs st)" using packed_good_exact by (auto simp: linked_def)
  have one: "data = [7, 8, 9]" if "data \<in> held stored_flate ?s" for data
  proof -
    have "\<exists>loc \<in> set (appendLocs st (sha256 data)). readPacked stored_flate (sha256 data) loc ?s = Inr data"
      using \<open>data \<in> held stored_flate ?s\<close> by (simp add: held_def one_pack_def empty_cas_def)
    then obtain loc where loc: "loc \<in> set (appendLocs st (sha256 data))" "readPacked stored_flate (sha256 data) loc ?s = Inr data" by blast
    then have "loc \<in> pack_copies ?s (ps_packs st) (sha256 data)" using L by (auto simp: linked_def exact_def)
    then obtain i d where i: "i < length (ps_packs st)" "d \<in> set (entries_at ?s (pi_path (ps_packs st ! i)))" "pe_sha d = sha256 data"
      "loc = entry_loc i (pi_tier (ps_packs st ! i)) d" unfolding pack_copies_def by blast
    obtain g where g: "fmlookup (cs_packFiles ?s) (pi_path (ps_packs st ! i)) = Some g"
      "published ?s (pi_tier (ps_packs st ! i)) g (entries_at ?s (pi_path (ps_packs st ! i)))"
      by (rule linked_pack [OF L, of i]) (simp_all add: i(1))
    then have "g = one_pack_file" "entries_at ?s (pi_path (ps_packs st ! i)) = [e]" using e(1) unfolding reload_frame one_pack_published by auto
    then have "g = one_pack_file" "d = e" using i(2) by simp_all
    then show ?thesis using loc(2) i g(1) e(3) by (cases e) (simp add: readPacked_def entry_loc_def)
  qed
  then have "held stored_flate ?s \<subseteq> {[7, 8, 9]}" by blast
  moreover have "ds = [[7, 8, 9]]" if "set ds \<subseteq> {[7, 8, 9]}" "distinct (map sha256 ds)" "ds \<noteq> []" for ds
  proof -
    have d: "distinct ds" using that(2) by (simp add: distinct_map)
    have "set ds = {[7, 8, 9]}" using that(1,3) by (cases ds) auto
    then have "length ds = 1" using distinct_card [OF d] by simp
    then show ?thesis using that(1) by (cases ds) auto
  qed
  ultimately show "new_packs None (held stored_flate ?s) \<subseteq> {one_pack_file}"
    unfolding new_packs_def one_pack_file_def by blast
qed

text \<open>The only pack is replaced while its chunk is still referenced: the chunk survives every failure.\<close>

theorem replacement_keeps_live_chunks_witness:
  "\<exists>st. loadPackState load_all one_pack = Inr st
     \<and> (\<forall>io. disk_good stored_flate (sha256 [7, 8, 9])
          (snd (snd (replacePacksTo stored_flate io (packUsages {} st) {hexDigest (sha256 [7, 8, 9])} None 4096 False empty_repack
             (one_pack\<lparr>cs_packs := st\<rparr>)))))"
proof -
  obtain st where st: "loadPackState load_all one_pack = Inr st" using one_pack_opens by blast
  let ?s = "one_pack\<lparr>cs_packs := st\<rparr>"
  have "disk_good stored_flate (sha256 [7, 8, 9])
          (snd (snd (replacePacksTo stored_flate io (packUsages {} st) {hexDigest (sha256 [7, 8, 9])} None 4096 False empty_repack ?s)))" for io
  proof -
    obtain r res' s' where run: "replacePacksTo stored_flate io (packUsages {} st) {hexDigest (sha256 [7, 8, 9])} None 4096 False empty_repack ?s
      = (r, res', s')" by (metis prod_cases3)
    have "new_packs (newCompressor stored_flate False) (held stored_flate ?s) \<subseteq> {one_pack_file}"
      using one_pack_held(1) [OF st] by (simp add: newCompressor_def)
    from replacement_keeps_live_chunks [OF run one_pack_store [OF st] this]
    show ?thesis using one_pack_held(3) [OF st] run packUsages_valid by (simp add: reload_frame)
  qed
  then show ?thesis using st by blast
qed


lemma selected_packs:
  assumes "sel = (case t of None \<Rightarrow> selectRepackPacks low (packUsages referenced st) n
      | Some t \<Rightarrow> filter (\<lambda>u. pu_tier u = t) (selectRepackPacks low (packUsages referenced st) n))"
  shows "set sel \<subseteq> set (selectRepackPacks low (packUsages referenced st) n)"
    "\<forall>u \<in> set sel. pu_idx u < length (ps_packs st)" "distinct (map pu_idx sel)"
  using assms packUsages_valid
  by (auto simp: selectRepackPacks_def distinct_map_filter split: option.splits)

lemma packUsages_tier:
  "u \<in> set (packUsages referenced st) \<Longrightarrow> pu_tier u = pi_tier (ps_packs st ! pu_idx u)"
  by (auto simp: packUsages_def Let_def)

lemma published_path_tier:
  assumes "linked s" "u \<in> set (packUsages referenced (cs_packs s))" "doomedPath s u = packPath (cs_root s) t i"
  shows "pu_tier u = t"
proof -
  let ?p = "ps_packs (cs_packs s) ! pu_idx u"
  have "?p \<in> set (ps_packs (cs_packs s))" using packUsages_valid(1) [OF assms(2)] by simp
  then have "pi_path ?p = packPath (cs_root s) (pi_tier ?p) (pi_id ?p)" using assms(1) by (simp add: linked_def)
  with assms(3) packUsages_tier [OF assms(2)] show ?thesis by (simp add: doomedPath_def packPath_inj)
qed

text \<open>C29: The repack operation is safe. A target size or a live percentage out of range is refused, and
  changes nothing; nor does a dry run, an unreliable live set or an index with contradicting records.
  Otherwise, whatever fails, every referenced chunk that had a good copy on disk keeps one, no loose
  file is touched, and a published pack that is gone was selected: it is of the tier asked for, if
  one was, and it is fully dead, or partly dead and below the live percentage of the options.\<close>

theorem repack_is_safe:
  assumes run: "repack Z io low ok referenced opt s = (r, res', s')" and S: "pack_store B s"
    and B: "new_packs (newCompressor Z (ro_Compress opt)) (held Z s) \<subseteq> B"
  shows "(ro_TargetBytes opt \<le> 0 \<or> ro_MaxLivePercent opt < 0 \<or> 100 < ro_MaxLivePercent opt
        \<longrightarrow> r = Inl RepackOptions \<and> s' = s)
    \<and> (ro_DryRun opt \<or> \<not> ok \<or> ps_clash (cs_packs s) \<noteq> [] \<longrightarrow> s' = s)
    \<and> cs_loose s' = cs_loose s
    \<and> (\<forall>t f es. published s t f es \<longrightarrow> \<not> published s' t f es \<longrightarrow>
          (ro_Tier opt = None \<or> ro_Tier opt = Some t)
          \<and> (\<exists>u \<in> set (packUsages referenced (cs_packs s)). doomedPath s u = packPath (cs_root s) t (packFileID f)
               \<and> pu_tier u = t \<and> (fullyDead u \<or> partiallyDead u \<and> low u (ro_MaxLivePercent opt))))
    \<and> (\<forall>dg. hexDigest dg \<in> referenced \<longrightarrow> disk_good Z dg s \<longrightarrow> disk_good Z dg s')
    \<and> (r = Inr () \<longrightarrow> linked s')"
proof -
  define sel where sel: "sel = (case ro_Tier opt of None \<Rightarrow> selectRepackPacks low (packUsages referenced (cs_packs s)) (ro_MaxLivePercent opt)
      | Some t \<Rightarrow> filter (\<lambda>u. pu_tier u = t) (selectRepackPacks low (packUsages referenced (cs_packs s)) (ro_MaxLivePercent opt)))"
  note V = selected_packs [OF sel]
  have L: "linked s" using S by (simp add: pack_store_def)
  let ?range = "ro_TargetBytes opt \<le> 0 \<or> ro_MaxLivePercent opt < 0 \<or> ro_MaxLivePercent opt > 100"
  consider (same) "s' = s" "?range \<longrightarrow> r = Inl RepackOptions"
    | (ran) res1 r2 res2 where "\<not> ?range" "\<not> ro_DryRun opt" ok "ps_clash (cs_packs s) = []"
        "replacePacksTo Z io sel referenced None (ro_TargetBytes opt) (ro_Compress opt) res1 s = (r2, res2, s')" "r = Inr () \<longrightarrow> r2 = Inr ()"
    using run unfolding repack_def Let_def sel [symmetric] replacePacks_def by (fastforce split: if_splits sum.splits prod.splits)
  then show ?thesis
  proof cases
    case same
    then show ?thesis using L by simp
  next
    case ran
    note R = replaced_store [OF ran(5) S B V(2,3)]
    have gone: "(ro_Tier opt = None \<or> ro_Tier opt = Some t)
        \<and> (\<exists>u \<in> set (packUsages referenced (cs_packs s)). doomedPath s u = packPath (cs_root s) t (packFileID f)
             \<and> pu_tier u = t \<and> (fullyDead u \<or> partiallyDead u \<and> low u (ro_MaxLivePercent opt)))"
      if p: "published s t f es" "\<not> published s' t f es" for t f es
    proof -
      have "packPath (cs_root s) t (packFileID f) \<in> doomedPath s ` set sel" using R p by blast
      then obtain u where u: "u \<in> set sel" "doomedPath s u = packPath (cs_root s) t (packFileID f)" by auto
      have m: "u \<in> set (packUsages referenced (cs_packs s))" "fullyDead u \<or> partiallyDead u \<and> low u (ro_MaxLivePercent opt)"
        using V(1) u(1) by (auto simp: selectRepackPacks_def)
      have t: "pu_tier u = t" by (rule published_path_tier [OF L m(1) u(2)])
      moreover have "ro_Tier opt = None \<or> ro_Tier opt = Some (pu_tier u)" using u(1) sel by (auto split: option.splits)
      ultimately show ?thesis using u(2) m by blast
    qed
    show ?thesis using R ran(1-4,6) gone by (intro conjI) blast+
  qed
qed

theorem repack_is_safe_witness:
  "\<exists>st. loadPackState load_all one_pack = Inr st
     \<and> (\<forall>io low. disk_good stored_flate (sha256 [7, 8, 9])
          (snd (snd (repack stored_flate io low True {hexDigest (sha256 [7, 8, 9])}
             \<lparr>ro_Tier = None, ro_TargetBytes = 4096, ro_MaxLivePercent = 100, ro_DryRun = False, ro_Compress = False\<rparr> (one_pack\<lparr>cs_packs := st\<rparr>)))))"
proof -
  obtain st where st: "loadPackState load_all one_pack = Inr st" using one_pack_opens by blast
  let ?s = "one_pack\<lparr>cs_packs := st\<rparr>"
  let ?opt = "\<lparr>ro_Tier = None, ro_TargetBytes = 4096, ro_MaxLivePercent = 100, ro_DryRun = False, ro_Compress = False\<rparr>"
  have "disk_good stored_flate (sha256 [7, 8, 9]) (snd (snd (repack stored_flate io low True {hexDigest (sha256 [7, 8, 9])} ?opt ?s)))" for io low
  proof -
    obtain r res' s' where run: "repack stored_flate io low True {hexDigest (sha256 [7, 8, 9])} ?opt ?s = (r, res', s')" by (metis prod_cases3)
    have "new_packs (newCompressor stored_flate (ro_Compress ?opt)) (held stored_flate ?s) \<subseteq> {one_pack_file}"
      using one_pack_held(1) [OF st] by (simp add: newCompressor_def)
    from repack_is_safe [OF run one_pack_store [OF st] this]
    show ?thesis using one_pack_held(3) [OF st] run by (simp add: reload_frame)
  qed
  then show ?thesis using st by blast
qed

end
