(* ===== verification/Gc.thy ===== *)
theory Gc
  imports Reach Repack
begin

text \<open>
  Offline garbage collection (\<^verbatim>\<open>zeros3.go\<close>, section 13b): \<open>gcCollect\<close> scans for reachability, reports,
  and with \<open>apply\<close> removes loose chunks, manifests and staging files that no live root names and
  the packs that hold no live record. Shown here: it never loses live data, whatever fails, and a
  pass that completes leaves no unreferenced file.
\<close>

section \<open>The pass\<close>

text \<open>
  The store is open and owned exclusively. Which calls fail: the two directory walks, the size of the
  staging area, each removal. A staging file that cannot be removed stays. There are no optional
  representation roots, so the loop over orphan roots is empty.
\<close>

record gc_io =
  gi_walkChunks :: bool
  gi_walkManifests :: bool
  gi_tmpBytes :: bool
  gi_chunk :: "digest \<Rightarrow> bool"
  gi_manifest :: "string \<Rightarrow> bool"
  gi_keepTmp :: "nat \<Rightarrow> bool"
  gi_packs :: repack_io

datatype gc_error =
    GCReach err | GCScanChunks | GCScanManifests | GCScanTmp | GCUnsafe | GCRemoveChunk digest | GCRemoveManifest string
  | GCPacks repack_error

record GCResult =
  gc_Applied :: bool
  gc_CurrentRootCount :: nat
  gc_HistoricalRootCount :: nat
  gc_MultipartRootCount :: nat
  gc_SnapshotRootCount :: nat
  gc_LiveSetOK :: bool
  gc_Issues :: "VerifyIssue list"
  gc_ChunksScanned :: nat
  gc_ChunksReachable :: nat
  gc_ChunksUnreachable :: nat
  gc_ManifestsScanned :: nat
  gc_ManifestsUnreachable :: nat
  gc_ReachablePayloadBytes :: nat
  gc_ReclaimablePayloadBytes :: nat
  gc_ReclaimableDiskBytes :: nat
  gc_PackSummary :: PackSummary
  gc_ChunksDeleted :: nat
  gc_ManifestsDeleted :: nat
  gc_PacksDeleted :: nat
  gc_BytesDeleted :: nat

definition defaultPackTargetBytes :: int where
  "defaultPackTargetBytes = 64 * 2 ^ 20"

definition fileBytes :: "('k, bytes) fmap \<Rightarrow> 'k list \<Rightarrow> nat" where
  "fileBytes files ks = sum_list (map (\<lambda>k. length (the (fmlookup files k))) ks)"

definition tmpBytes :: "casState \<Rightarrow> nat" where
  "tmpBytes cas = fileBytes (cs_tmp cas) (sorted_keys (cs_tmp cas))"

definition gcReport :: "reachabilityResult \<Rightarrow> GCResult" where
  "gcReport rr =
     \<lparr>gc_Applied = False, gc_CurrentRootCount = rr_CurrentRootCount rr, gc_HistoricalRootCount = rr_HistoricalRootCount rr,
      gc_MultipartRootCount = rr_MultipartRootCount rr, gc_SnapshotRootCount = rr_SnapshotRootCount rr, gc_LiveSetOK = reach_OK rr,
      gc_Issues = rr_Issues rr, gc_ChunksScanned = 0, gc_ChunksReachable = 0, gc_ChunksUnreachable = 0, gc_ManifestsScanned = 0,
      gc_ManifestsUnreachable = 0, gc_ReachablePayloadBytes = 0, gc_ReclaimablePayloadBytes = 0, gc_ReclaimableDiskBytes = 0,
      gc_PackSummary = summarizePacks [], gc_ChunksDeleted = 0, gc_ManifestsDeleted = 0, gc_PacksDeleted = 0, gc_BytesDeleted = 0\<rparr>"

definition gcChunks :: "reachabilityResult \<Rightarrow> casState \<Rightarrow> GCResult \<Rightarrow> digest list \<times> GCResult" where
  "gcChunks rr cas res =
     (let all = sorted_keys (cs_loose cas);
          live = filter (\<lambda>dg. hexDigest dg \<in> rr_ReferencedChunks rr) all;
          dead = filter (\<lambda>dg. hexDigest dg \<notin> rr_ReferencedChunks rr) all in
      (dead, res\<lparr>gc_ChunksScanned := length all, gc_ChunksReachable := length live, gc_ChunksUnreachable := length dead,
                 gc_ReachablePayloadBytes := fileBytes (cs_loose cas) live,
                 gc_ReclaimablePayloadBytes := gc_ReclaimablePayloadBytes res + fileBytes (cs_loose cas) dead\<rparr>))"

definition gcManifests :: "reachabilityResult \<Rightarrow> (string, bytes) fmap \<Rightarrow> GCResult \<Rightarrow> string list \<times> GCResult" where
  "gcManifests rr files res =
     (let all = sorted_keys files; dead = filter (\<lambda>u. u \<notin> rr_ReferencedManifests rr) all in
      (dead, res\<lparr>gc_ManifestsScanned := length all, gc_ManifestsUnreachable := length dead,
                 gc_ReclaimablePayloadBytes := gc_ReclaimablePayloadBytes res + fileBytes files dead\<rparr>))"

text \<open>Files removed one after the other: the first that cannot be removed, the number removed, the files left.\<close>

fun removeFiles :: "('k \<Rightarrow> bool) \<Rightarrow> 'k list \<Rightarrow> nat \<Rightarrow> ('k, bytes) fmap \<Rightarrow> 'k option \<times> nat \<times> ('k, bytes) fmap" where
  "removeFiles fails [] n files = (None, n, files)"
| "removeFiles fails (k # ks) n files =
     (if fails k then (Some k, n, files) else removeFiles fails ks (n + 1) (fmdrop k files))"

definition with_loose :: "(digest, bytes) fmap \<Rightarrow> site \<Rightarrow> site" where
  "with_loose m s = s\<lparr>st_sys := (st_sys s)\<lparr>sy_cas := (sy_cas (st_sys s))\<lparr>cs_loose := m\<rparr>\<rparr>\<rparr>"

definition with_manifests :: "(string, bytes) fmap \<Rightarrow> site \<Rightarrow> site" where
  "with_manifests m s = s\<lparr>st_sys := (st_sys s)\<lparr>sy_manifests := m\<rparr>\<rparr>"

definition with_cas :: "casState \<Rightarrow> site \<Rightarrow> site" where
  "with_cas cas s = s\<lparr>st_sys := (st_sys s)\<lparr>sy_cas := cas\<rparr>\<rparr>"

definition gcPacks ::
  "flate_codec \<Rightarrow> gc_io \<Rightarrow> reachabilityResult \<Rightarrow> packUsage list \<Rightarrow> GCResult \<Rightarrow> site \<Rightarrow> (gc_error + unit) \<times> GCResult \<times> site" where
  "gcPacks Z io rr usages res s =
     (case replacePacks Z (gi_packs io) (filter fullyDead usages) (rr_ReferencedChunks rr) defaultPackTargetBytes True empty_repack
             (sy_cas (st_sys s)) of
        (r, packRes, cas1) \<Rightarrow>
          (case r of Inl e \<Rightarrow> Inl (GCPacks e) | Inr _ \<Rightarrow> Inr (),
           res\<lparr>gc_PacksDeleted := rk_PacksDeleted packRes, gc_BytesDeleted := gc_BytesDeleted res + rk_BytesDeleted packRes\<rparr>,
           with_cas cas1 s))"

definition gcApply ::
  "flate_codec \<Rightarrow> gc_io \<Rightarrow> reachabilityResult \<Rightarrow> digest list \<Rightarrow> string list \<Rightarrow> packUsage list \<Rightarrow> nat \<Rightarrow> GCResult \<Rightarrow> site
    \<Rightarrow> (gc_error + unit) \<times> GCResult \<times> site" where
  "gcApply Z io rr deadChunks deadManifests usages tmp res s =
     (case removeFiles (gi_chunk io) deadChunks 0 (cs_loose (sy_cas (st_sys s))) of
        (Some dg, n, loose) \<Rightarrow> (Inl (GCRemoveChunk dg), res\<lparr>gc_ChunksDeleted := n\<rparr>, with_loose loose s)
      | (None, n, loose) \<Rightarrow>
          let res1 = res\<lparr>gc_ChunksDeleted := n\<rparr>; s1 = with_loose loose s in
          (case removeFiles (gi_manifest io) deadManifests 0 (sy_manifests (st_sys s1)) of
             (Some u, k, files) \<Rightarrow> (Inl (GCRemoveManifest u), res1\<lparr>gc_ManifestsDeleted := k\<rparr>, with_manifests files s1)
           | (None, k, files) \<Rightarrow>
               let s2 = with_manifests files s1; cas = sy_cas (st_sys s2);
                   s3 = with_cas (cas\<lparr>cs_tmp := fmfilter (gi_keepTmp io) (cs_tmp cas)\<rparr>) s2;
                   res2 = res1\<lparr>gc_ManifestsDeleted := k, gc_BytesDeleted := gc_ReclaimablePayloadBytes res1 + tmp\<rparr> in
               gcPacks Z io rr usages res2 s3))"

definition gcCollect ::
  "man_codec \<Rightarrow> snap_codec \<Rightarrow> flate_codec \<Rightarrow> reach_io \<Rightarrow> gc_io \<Rightarrow> bool \<Rightarrow> site \<Rightarrow> (gc_error + unit) \<times> GCResult option \<times> site" where
  "gcCollect M K Z rio io apply_it s =
     (case computeReachability M K Z rio False s of
        Inl e \<Rightarrow> (Inl (GCReach e), None, s)
      | Inr rr \<Rightarrow>
          let cas = sy_cas (st_sys s); res0 = gcReport rr in
          if gi_walkChunks io then (Inl GCScanChunks, Some res0, s)
          else case gcChunks rr cas res0 of (deadChunks, res1) \<Rightarrow>
            if gi_walkManifests io then (Inl GCScanManifests, Some res1, s)
            else case gcManifests rr (sy_manifests (st_sys s)) res1 of (deadManifests, res2) \<Rightarrow>
              let usages = packUsages (rr_ReferencedChunks rr) (cs_packs cas);
                  res3 = res2\<lparr>gc_PackSummary := summarizePacks usages\<rparr> in
              if gi_tmpBytes io then (Inl GCScanTmp, Some res3, s)
              else
                let res4 = res3\<lparr>gc_ReclaimableDiskBytes := gc_ReclaimablePayloadBytes res3 + tmpBytes cas
                                  + sm_PackWholeReclaimBytes (gc_PackSummary res3), gc_Applied := apply_it\<rparr> in
                if \<not> apply_it then (Inr (), Some res4, s)
                else if \<not> reach_OK rr then (Inl GCUnsafe, Some res4, s)
                else case gcApply Z io rr deadChunks deadManifests usages (tmpBytes cas) res4 s of
                  (r, res5, s5) \<Rightarrow> (r, Some res5, s5))"

section \<open>Files that are removed\<close>

lemma removeFiles_spec:
  assumes "removeFiles fails ks n files = (r, n', files')"
  shows "(\<forall>k. k \<notin> set ks \<longrightarrow> fmlookup files' k = fmlookup files k) \<and> (\<forall>k. fmlookup files' k \<noteq> None \<longrightarrow> fmlookup files' k = fmlookup files k)
    \<and> (r = None \<longrightarrow> (\<forall>k \<in> set ks. fmlookup files' k = None) \<and> n' = n + length ks)"
  using assms
proof (induction ks arbitrary: n files)
  case (Cons k ks)
  show ?case
  proof (cases "fails k")
    case True
    then show ?thesis using Cons.prems by auto
  next
    case False
    then have run: "removeFiles fails ks (n + 1) (fmdrop k files) = (r, n', files')" using Cons.prems by simp
    note I = Cons.IH [OF run]
    have f: "fmlookup (fmdrop k files) j = (if j = k then None else fmlookup files j)" for j by simp
    have "fmlookup files' k = None" using I unfolding f by metis
    moreover from this have "\<forall>j. fmlookup files' j \<noteq> None \<longrightarrow> fmlookup files' j = fmlookup files j" using I unfolding f by metis
    ultimately show ?thesis using I unfolding f by simp
  qed
qed simp

text \<open>Removing loose files and staging files leaves the packs as they were.\<close>

definition fewer_loose :: "casState \<Rightarrow> casState \<Rightarrow> bool" where
  "fewer_loose cas cas' \<longleftrightarrow> cs_packs cas' = cs_packs cas \<and> cs_packFiles cas' = cs_packFiles cas \<and> cs_root cas' = cs_root cas
     \<and> cs_format cas' = cs_format cas \<and> (\<forall>dg. fmlookup (cs_loose cas') dg \<noteq> None \<longrightarrow> fmlookup (cs_loose cas') dg = fmlookup (cs_loose cas) dg)"

lemma fewer_loose_facts:
  assumes "fewer_loose cas cas'"
  shows "published cas' = published cas" "disk_ok B cas' = disk_ok B cas" "pack_store B cas' = pack_store B cas" "held Z cas' \<subseteq> held Z cas"
    "loose_good dg cas' \<Longrightarrow> loose_good dg cas"
proof -
  note F = assms [unfolded fewer_loose_def]
  show p: "published cas' = published cas" using F by (simp add: published_def fun_eq_iff)
  show d: "disk_ok B cas' = disk_ok B cas" using F p by (simp add: disk_ok_def tiers_ok_def small_files_def)
  have "entries_at cas' = entries_at cas" using F by (simp add: entries_at_def fun_eq_iff)
  then have "linked cas' = linked cas" using F by (simp add: linked_def exact_def pack_copies_def)
  then show "pack_store B cas' = pack_store B cas" using d by (simp add: pack_store_def)
  have "readPacked Z dg loc cas' = readPacked Z dg loc cas" for dg loc using F by (simp add: readPacked_def)
  then show "held Z cas' \<subseteq> held Z cas" using F by (auto simp: held_def)
  show "loose_good dg cas' \<Longrightarrow> loose_good dg cas" using F by (auto simp: loose_good_def)
qed

lemma new_packs_mono: "C \<subseteq> D \<Longrightarrow> new_packs cmp C \<subseteq> new_packs cmp D"
  by (auto simp: new_packs_def)

section \<open>A collection keeps what is live\<close>

lemma dead_packs:
  "\<forall>u \<in> set (filter fullyDead (packUsages referenced st)). pu_idx u < length (ps_packs st)"
  "distinct (map pu_idx (filter fullyDead (packUsages referenced st)))"
  using packUsages_valid by (auto simp: distinct_map_filter)

text \<open>
  \<open>kept\<close>: against a referenced set of chunks and manifests, the site \<open>s'\<close> lost nothing that is
  referenced and the rest of the state is the same.
\<close>

definition kept :: "flate_codec \<Rightarrow> bytes set \<Rightarrow> string set \<Rightarrow> string set \<Rightarrow> site \<Rightarrow> site \<Rightarrow> bool" where
  "kept Z B chunks mans s s' \<longleftrightarrow> sy_store (st_sys s') = sy_store (st_sys s) \<and> st_snaps s' = st_snaps s
     \<and> disk_ok B (sy_cas (st_sys s'))
     \<and> (\<forall>u \<in> mans. fmlookup (sy_manifests (st_sys s')) u = fmlookup (sy_manifests (st_sys s)) u)
     \<and> (\<forall>dg. hexDigest dg \<in> chunks \<longrightarrow> fmlookup (cs_loose (sy_cas (st_sys s'))) dg = fmlookup (cs_loose (sy_cas (st_sys s))) dg)
     \<and> (\<forall>dg. hexDigest dg \<in> chunks \<longrightarrow> disk_good Z dg (sy_cas (st_sys s)) \<longrightarrow> disk_good Z dg (sy_cas (st_sys s')))"

lemma gcApply_kept:
  assumes run: "gcApply Z io rr deadChunks deadManifests (packUsages (rr_ReferencedChunks rr) (cs_packs (sy_cas (st_sys s)))) tmp res s = (r, res', s')"
    and S: "pack_store B (sy_cas (st_sys s))" and B: "new_packs (Some Z) (held Z (sy_cas (st_sys s))) \<subseteq> B"
    and dead: "\<forall>dg \<in> set deadChunks. hexDigest dg \<notin> rr_ReferencedChunks rr" "set deadManifests \<inter> rr_ReferencedManifests rr = {}"
  shows "kept Z B (rr_ReferencedChunks rr) (rr_ReferencedManifests rr) s s'
    \<and> (r = Inr () \<longrightarrow> linked (sy_cas (st_sys s')) \<and> (\<forall>dg \<in> set deadChunks. fmlookup (cs_loose (sy_cas (st_sys s'))) dg = None)
         \<and> (\<forall>dg. fmlookup (cs_loose (sy_cas (st_sys s'))) dg \<noteq> None \<longrightarrow> fmlookup (cs_loose (sy_cas (st_sys s))) dg \<noteq> None)
         \<and> (\<forall>u \<in> set deadManifests. fmlookup (sy_manifests (st_sys s')) u = None)
         \<and> (\<forall>u. fmlookup (sy_manifests (st_sys s')) u \<noteq> None \<longrightarrow> fmlookup (sy_manifests (st_sys s)) u \<noteq> None))"
proof -
  let ?cas = "sy_cas (st_sys s)"
  obtain cr n loose where rc: "removeFiles (gi_chunk io) deadChunks 0 (cs_loose ?cas) = (cr, n, loose)" by (metis prod_cases3)
  obtain mr k files where rm: "removeFiles (gi_manifest io) deadManifests 0 (sy_manifests (st_sys s)) = (mr, k, files)" by (metis prod_cases3)
  note C = removeFiles_spec [OF rc] and M = removeFiles_spec [OF rm]
  have fl: "fewer_loose ?cas (?cas\<lparr>cs_loose := loose, cs_tmp := t\<rparr>)" for t using C by (simp add: fewer_loose_def)
  have lk: "hexDigest dg \<in> rr_ReferencedChunks rr \<Longrightarrow> fmlookup loose dg = fmlookup (cs_loose ?cas) dg" for dg using C dead(1) by blast
  have mk: "u \<in> rr_ReferencedManifests rr \<Longrightarrow> fmlookup files u = fmlookup (sy_manifests (st_sys s)) u" for u using M dead(2) by blast
  have D: "disk_ok B ?cas" using S by (simp add: pack_store_def)
  have good: "disk_good Z dg (?cas\<lparr>cs_loose := loose, cs_tmp := t\<rparr>)" if "hexDigest dg \<in> rr_ReferencedChunks rr" "disk_good Z dg ?cas" for dg t
    using that(2) lk [OF that(1)] unfolding disk_good_def fewer_loose_facts(1) [OF fl] by (simp add: loose_good_def)
  have fl0: "fewer_loose ?cas (?cas\<lparr>cs_loose := loose\<rparr>)" using C by (simp add: fewer_loose_def)
  have good0: "disk_good Z dg (?cas\<lparr>cs_loose := loose\<rparr>)" if "hexDigest dg \<in> rr_ReferencedChunks rr" "disk_good Z dg ?cas" for dg
    using that(2) lk [OF that(1)] unfolding disk_good_def fewer_loose_facts(1) [OF fl0] by (simp add: loose_good_def)
  consider (chunk) dg where "cr = Some dg" | (man) u where "cr = None" "mr = Some u" | (packs) "cr = None" "mr = None" by (cases cr; cases mr) auto
  then show ?thesis
  proof cases
    case chunk
    then have s': "s' = with_loose loose s" "r \<noteq> Inr ()" using run by (auto simp: gcApply_def rc)
    have "disk_ok B (?cas\<lparr>cs_loose := loose\<rparr>)" unfolding fewer_loose_facts(2) [OF fl0] by (rule D)
    moreover have "\<forall>dg. hexDigest dg \<in> rr_ReferencedChunks rr \<longrightarrow> disk_good Z dg ?cas \<longrightarrow> disk_good Z dg (?cas\<lparr>cs_loose := loose\<rparr>)"
      using good0 by blast
    ultimately show ?thesis using s' lk by (simp add: kept_def with_loose_def)
  next
    case man
    then have s': "s' = with_manifests files (with_loose loose s)" "r \<noteq> Inr ()"
      using run by (auto simp: gcApply_def rc with_loose_def rm Let_def)
    have "disk_ok B (?cas\<lparr>cs_loose := loose\<rparr>)" unfolding fewer_loose_facts(2) [OF fl0] by (rule D)
    moreover have "\<forall>dg. hexDigest dg \<in> rr_ReferencedChunks rr \<longrightarrow> disk_good Z dg ?cas \<longrightarrow> disk_good Z dg (?cas\<lparr>cs_loose := loose\<rparr>)"
      using good0 by blast
    ultimately show ?thesis using s' lk mk by (simp add: kept_def with_loose_def with_manifests_def)
  next
    case packs
    define t where "t = fmfilter (gi_keepTmp io) (cs_tmp ?cas)"
    define cas1 where "cas1 = ?cas\<lparr>cs_loose := loose, cs_tmp := t\<rparr>"
    define dp where "dp = filter fullyDead (packUsages (rr_ReferencedChunks rr) (cs_packs ?cas))"
    obtain q packRes cas2 where rp: "replacePacksTo Z (gi_packs io) dp (rr_ReferencedChunks rr) None defaultPackTargetBytes True empty_repack cas1
      = (q, packRes, cas2)" by (metis prod_cases3)
    have site: "with_cas (?cas\<lparr>cs_loose := loose\<rparr>\<lparr>cs_tmp := t\<rparr>) (with_manifests files (with_loose loose s)) = with_cas cas1 (with_manifests files s)"
      by (simp add: cas1_def with_cas_def with_manifests_def with_loose_def)
    have sel: "sy_manifests (st_sys (with_loose loose s)) = sy_manifests (st_sys s)"
      "sy_cas (st_sys (with_manifests files (with_loose loose s))) = ?cas\<lparr>cs_loose := loose\<rparr>" "sy_cas (st_sys (with_cas cas1 s1)) = cas1" for s1
      by (simp_all add: with_loose_def with_manifests_def with_cas_def)
    have ct: "cs_tmp (?cas\<lparr>cs_loose := loose\<rparr>) = cs_tmp ?cas" by simp
    have step: "sy_cas (st_sys (with_manifests files (with_loose loose s))) = c \<Longrightarrow>
      \<exists>res2. gcPacks Z io rr (packUsages (rr_ReferencedChunks rr) (cs_packs ?cas)) res2
        (with_cas (c\<lparr>cs_tmp := fmfilter (gi_keepTmp io) (cs_tmp c)\<rparr>) (with_manifests files (with_loose loose s))) = (r, res', s')" for c
      using run by (auto simp: gcApply_def rc packs sel(1) rm Let_def)
    obtain res2 where "gcPacks Z io rr (packUsages (rr_ReferencedChunks rr) (cs_packs ?cas)) res2 (with_cas cas1 (with_manifests files s)) = (r, res', s')"
      using step [OF sel(2), unfolded ct, folded t_def] unfolding site by blast
    then have s': "s' = with_cas cas2 (with_manifests files s)" "r = Inr () \<longrightarrow> q = Inr ()"
      unfolding gcPacks_def replacePacks_def dp_def [symmetric] sel(3) rp by (auto simp: with_cas_def split: sum.split_asm)
    note F = fewer_loose_facts [OF fl [of t, folded cas1_def]]
    have st: "cs_packs cas1 = cs_packs ?cas" by (simp add: cas1_def)
    have "pack_store B cas1" using S F(3) by simp
    moreover have "new_packs (newCompressor Z True) (held Z cas1) \<subseteq> B"
      using new_packs_mono [OF F(4)] B by (auto simp: newCompressor_def)
    moreover have "\<forall>u \<in> set dp. pu_idx u < length (ps_packs (cs_packs cas1))" "distinct (map pu_idx dp)"
      unfolding dp_def st by (rule dead_packs)+
    ultimately have R: "disk_ok B cas2" "cs_loose cas2 = loose" "q = Inr () \<longrightarrow> linked cas2"
      "\<forall>dg. hexDigest dg \<in> rr_ReferencedChunks rr \<longrightarrow> disk_good Z dg cas1 \<longrightarrow> disk_good Z dg cas2"
      using replaced_store [OF rp] by (simp_all add: cas1_def)
    have "\<forall>dg. hexDigest dg \<in> rr_ReferencedChunks rr \<longrightarrow> disk_good Z dg ?cas \<longrightarrow> disk_good Z dg cas2"
      using R(4) good unfolding cas1_def by blast
    then have "kept Z B (rr_ReferencedChunks rr) (rr_ReferencedManifests rr) s s'"
      using s'(1) R(1,2) lk mk by (simp add: kept_def with_cas_def with_manifests_def)
    moreover have "cs_loose (sy_cas (st_sys s')) = loose" "sy_manifests (st_sys s') = files" "sy_cas (st_sys s') = cas2"
      using s'(1) R(2) by (simp_all add: with_cas_def with_manifests_def)
    ultimately show ?thesis using s'(2) R(3) C M packs by auto
  qed
qed


section \<open>Collection\<close>

lemma gcCollect_cases:
  assumes "gcCollect M K Z rio io apply_it s = (r, res, s')"
  obtains (same) "s' = s" "apply_it \<longrightarrow> r \<noteq> Inr ()"
  | (ran) rr deadChunks deadManifests tmp res4 res5 where "apply_it" "computeReachability M K Z rio False s = Inr rr" "reach_OK rr"
      "deadChunks = filter (\<lambda>dg. hexDigest dg \<notin> rr_ReferencedChunks rr) (sorted_keys (cs_loose (sy_cas (st_sys s))))"
      "deadManifests = filter (\<lambda>u. u \<notin> rr_ReferencedManifests rr) (sorted_keys (sy_manifests (st_sys s)))"
      "gcApply Z io rr deadChunks deadManifests (packUsages (rr_ReferencedChunks rr) (cs_packs (sy_cas (st_sys s)))) tmp res4 s = (r, res5, s')"
proof (cases "computeReachability M K Z rio False s")
  case (Inl e)
  then show ?thesis using assms same by (auto simp: gcCollect_def)
next
  case (Inr rr)
  show ?thesis
  proof (cases "gi_walkChunks io \<or> gi_walkManifests io \<or> gi_tmpBytes io \<or> \<not> apply_it \<or> \<not> reach_OK rr")
    case True
    then have "s' = s \<and> (apply_it \<longrightarrow> r \<noteq> Inr ())"
      using assms Inr by (auto simp: gcCollect_def gcChunks_def gcManifests_def Let_def split: if_split_asm)
    then show ?thesis using same by blast
  next
    case False
    have "\<exists>tmp res4 res5. gcApply Z io rr (filter (\<lambda>dg. hexDigest dg \<notin> rr_ReferencedChunks rr) (sorted_keys (cs_loose (sy_cas (st_sys s)))))
        (filter (\<lambda>u. u \<notin> rr_ReferencedManifests rr) (sorted_keys (sy_manifests (st_sys s))))
        (packUsages (rr_ReferencedChunks rr) (cs_packs (sy_cas (st_sys s)))) tmp res4 s = (r, res5, s') \<and> res = Some res5"
      using assms Inr False by (auto simp: gcCollect_def gcChunks_def gcManifests_def Let_def split: prod.split_asm)
    then show ?thesis using ran [OF _ Inr _ refl refl] False by blast
  qed
qed

text \<open>The chunks and manifests that the live roots and the uploads in progress name.\<close>

definition live_chunks :: "man_codec \<Rightarrow> snap_codec \<Rightarrow> site \<Rightarrow> string set" where
  "live_chunks M K s = rooted_chunks M (sy_manifests (st_sys s)) (live_roots K s) \<union> cr_SHA256 ` live_refs s"

text \<open>C30: Garbage collection never loses live data. For every outcome of the scan and every failing call
  the namespace, the snapshots and the manifests of all live roots stay, and every chunk they
  reference of which the disk held a good copy still has one. A dry run changes nothing. A pass that
  completes leaves a locator that matches the disk, no loose chunk that is not referenced and no
  manifest that is not live. Chunks are meant by the lower-case name of their digest.\<close>

theorem collection_keeps_live_data:
  assumes "orders_ok rio" and run: "gcCollect M K Z rio io apply_it s = (r, res, s')"
    and S: "pack_store B (sy_cas (st_sys s))" and B: "new_packs (Some Z) (held Z (sy_cas (st_sys s))) \<subseteq> B"
  shows "(\<not> apply_it \<longrightarrow> s' = s)
    \<and> sy_store (st_sys s') = sy_store (st_sys s) \<and> st_snaps s' = st_snaps s \<and> disk_ok B (sy_cas (st_sys s'))
    \<and> (\<forall>u sha man. (u, sha) \<in> live_roots K s \<longrightarrow> rooted M (sy_manifests (st_sys s)) u sha man \<longrightarrow> rooted M (sy_manifests (st_sys s')) u sha man)
    \<and> (\<forall>dg. hexDigest dg \<in> live_chunks M K s \<longrightarrow> disk_good Z dg (sy_cas (st_sys s)) \<longrightarrow> disk_good Z dg (sy_cas (st_sys s')))
    \<and> (apply_it \<and> r = Inr () \<longrightarrow> linked (sy_cas (st_sys s'))
         \<and> (\<forall>dg. fmlookup (cs_loose (sy_cas (st_sys s'))) dg \<noteq> None \<longrightarrow> hexDigest dg \<in> live_chunks M K s)
         \<and> (\<forall>u. fmlookup (sy_manifests (st_sys s')) u \<noteq> None \<longrightarrow> u \<in> fst ` live_roots K s))"
  using run
proof (cases rule: gcCollect_cases)
  case same
  then show ?thesis using S by (auto simp: pack_store_def)
next
  case (ran rr deadChunks deadManifests tmp res4 res5)
  have scan: "computeReachabilityObserved M K Z rio False False s = Inr rr" using ran(2) by (simp add: computeReachability_def)
  have refs: "rr_ReferencedChunks rr = live_chunks M K s" "rr_ReferencedManifests rr = fst ` live_roots K s"
    using clean_scan [OF assms(1) scan ran(3)] by (simp_all add: live_chunks_def)
  have dead: "set deadChunks = {dg. fmlookup (cs_loose (sy_cas (st_sys s))) dg \<noteq> None \<and> hexDigest dg \<notin> live_chunks M K s}"
    "set deadManifests = {u. fmlookup (sy_manifests (st_sys s)) u \<noteq> None \<and> u \<notin> fst ` live_roots K s}"
    by (auto simp: ran(4,5) refs fmlookup_dom_iff)
  have "kept Z B (rr_ReferencedChunks rr) (rr_ReferencedManifests rr) s s'
    \<and> (r = Inr () \<longrightarrow> linked (sy_cas (st_sys s')) \<and> (\<forall>dg \<in> set deadChunks. fmlookup (cs_loose (sy_cas (st_sys s'))) dg = None)
         \<and> (\<forall>dg. fmlookup (cs_loose (sy_cas (st_sys s'))) dg \<noteq> None \<longrightarrow> fmlookup (cs_loose (sy_cas (st_sys s))) dg \<noteq> None)
         \<and> (\<forall>u \<in> set deadManifests. fmlookup (sy_manifests (st_sys s')) u = None)
         \<and> (\<forall>u. fmlookup (sy_manifests (st_sys s')) u \<noteq> None \<longrightarrow> fmlookup (sy_manifests (st_sys s)) u \<noteq> None))"
    by (rule gcApply_kept [OF ran(6) S B]) (use dead refs in auto)
  note G = this [unfolded refs dead]
  then have K: "kept Z B (live_chunks M K s) (fst ` live_roots K s) s s'" by (rule conjunct1)
  have E: "r = Inr () \<longrightarrow> linked (sy_cas (st_sys s')) \<and> (\<forall>dg. fmlookup (cs_loose (sy_cas (st_sys s'))) dg \<noteq> None \<longrightarrow> hexDigest dg \<in> live_chunks M K s)
       \<and> (\<forall>u. fmlookup (sy_manifests (st_sys s')) u \<noteq> None \<longrightarrow> u \<in> fst ` live_roots K s)"
  proof
    assume r: "r = Inr ()"
    note H = conjunct2 [OF G, rule_format, OF r]
    have "hexDigest dg \<in> live_chunks M K s" if g: "fmlookup (cs_loose (sy_cas (st_sys s'))) dg \<noteq> None" for dg
    proof (rule ccontr)
      assume "hexDigest dg \<notin> live_chunks M K s"
      moreover have "fmlookup (cs_loose (sy_cas (st_sys s))) dg \<noteq> None" using H g by blast
      ultimately have "dg \<in> {dg. fmlookup (cs_loose (sy_cas (st_sys s))) dg \<noteq> None \<and> hexDigest dg \<notin> live_chunks M K s}" by simp
      then have "fmlookup (cs_loose (sy_cas (st_sys s'))) dg = None" using H by blast
      then show False using g by simp
    qed
    moreover have "u \<in> fst ` live_roots K s" if g: "fmlookup (sy_manifests (st_sys s')) u \<noteq> None" for u
    proof (rule ccontr)
      assume "u \<notin> fst ` live_roots K s"
      moreover have "fmlookup (sy_manifests (st_sys s)) u \<noteq> None" using H g by blast
      ultimately have "u \<in> {u. fmlookup (sy_manifests (st_sys s)) u \<noteq> None \<and> u \<notin> fst ` live_roots K s}" by simp
      then have "fmlookup (sy_manifests (st_sys s')) u = None" using H by blast
      then show False using g by simp
    qed
    ultimately show "linked (sy_cas (st_sys s')) \<and> (\<forall>dg. fmlookup (cs_loose (sy_cas (st_sys s'))) dg \<noteq> None \<longrightarrow> hexDigest dg \<in> live_chunks M K s)
       \<and> (\<forall>u. fmlookup (sy_manifests (st_sys s')) u \<noteq> None \<longrightarrow> u \<in> fst ` live_roots K s)" using H by blast
  qed
  have "rooted M (sy_manifests (st_sys s')) u sha man" if "(u, sha) \<in> live_roots K s" "rooted M (sy_manifests (st_sys s)) u sha man" for u sha man
    using that K by (force simp: rooted_def kept_def)
  then show ?thesis using K E ran(1) unfolding kept_def by blast
qed

section \<open>Samples\<close>

lemma singleton_lists: "set ds \<subseteq> {x} \<Longrightarrow> distinct (map f ds) \<Longrightarrow> ds \<noteq> [] \<Longrightarrow> ds = [x]"
proof -
  assume d: "set ds \<subseteq> {x}" "distinct (map f ds)" "ds \<noteq> []"
  have "set ds = {x}" using d(1,3) by (cases ds) auto
  then have "length ds = 1" using distinct_card [of ds] d(2) by (simp add: distinct_map)
  then show "ds = [x]" using d(1) by (cases ds) auto
qed

definition flate_file :: bytes where
  "flate_file = built (Some stored_flate) [[65]]"

lemma flate_pack_set: "pack_set {flate_file}"
proof -
  obtain f es where f: "packBuilder_Finish False (packBuild (Some stored_flate) [[65]]) = Some (f, es)" "es = pb_entries (packBuild (Some stored_flate) [[65]])"
    by (auto simp: packBuilder_Finish_def Let_def)
  have b: "flate_file = f" by (simp add: flate_file_def built_def f)
  have len: "length f < 200"
    using f by (auto simp: packBuilder_Finish_def packBuild_def packBuilder_Add_def newPackBuilder_def packEncode_def stored_flate_def
        packFooterSize_def packIndexEntrySize_def Let_def split: if_splits)
  have "map pe_sha es = [sha256 [65]]" unfolding f(2) packBuild_shas by simp
  then obtain e where e: "es = [e]" by auto
  have "readPackLayout f = Inr (es, sha256 (take (length f - packFooterSize) f)) \<and> is_ok (verifyPackFile stored_flate path f)
      \<and> map (readPackRecord stored_flate f) es = map Inr [[65]]" for path
    by (rule packBuild_valid [OF stored_flate_ok _ _ _ f(1)]) (use len in \<open>simp_all add: packable_def maxPackedChunkBytes_def cdcMaxChunkSize_def\<close>)
  then have "readPackLayout f = Inr ([e], sha256 (take (length f - packFooterSize) f))" unfolding e by blast
  then show ?thesis using len by (auto simp: b pack_set_def pack_names_def packFileID_def hexDigest_def)
qed

lemma live_site_store: "pack_store {flate_file} (sy_cas (st_sys live_site))"
  "new_packs (Some stored_flate) (held stored_flate (sy_cas (st_sys live_site))) \<subseteq> {flate_file}"
proof -
  let ?c = "sy_cas (st_sys live_site)"
  have e: "cs_packs ?c = \<lparr>ps_packs = [], ps_levels = [], ps_bad = [], ps_clash = []\<rparr>" "cs_packFiles ?c = fmempty"
    by (simp_all add: live_site_def empty_cas_def)
  have "linked ?c"
    by (simp add: linked_def exact_def e pack_copies_def snapshot_ok_def all_recs_def uniform_def appendLocs_def)
  then show "pack_store {flate_file} ?c"
    using flate_pack_set by (simp add: pack_store_def disk_ok_def published_def tiers_ok_def small_files_def e)
  have "held stored_flate ?c \<subseteq> {[65]}" by (auto simp: held_def live_site_def empty_cas_def appendLocs_def split: if_splits)
  then show "new_packs (Some stored_flate) (held stored_flate ?c) \<subseteq> {flate_file}"
    using singleton_lists [of _ "[65]" sha256] unfolding new_packs_def flate_file_def by (auto dest: subset_trans)
qed

theorem collection_keeps_live_data_witness:
  "\<forall>io. disk_good stored_flate (sha256 [65]) (sy_cas (st_sys (snd (snd (gcCollect live_codec no_snapshots stored_flate quiet_io io True live_site)))))"
proof
  fix io
  let ?q = "gcCollect live_codec no_snapshots stored_flate quiet_io io True live_site"
  obtain r res s' where run: "?q = (r, res, s')" by (metis prod_cases3)
  have man: "rooted live_codec (sy_manifests (st_sys live_site)) sample_id (sha256 [1]) live_man"
    by (simp add: rooted_def live_site_def live_codec_def live_man_def sound_manifest_def supported_manifest_def ref_ok_def chunk_ref_def add64_def)
  have root: "(sample_id, sha256 [1]) \<in> live_roots no_snapshots live_site"
    by (force simp: live_roots_def live_site_def snapshot_store_def snapshot_entry_def)
  have "chunk_ref [65] \<in> set (man_Chunks live_man)" by (simp add: live_man_def)
  then have "cr_SHA256 (chunk_ref [65]) \<in> live_chunks live_codec no_snapshots live_site"
    unfolding live_chunks_def rooted_chunks_def using root man by blast
  then have live: "hexDigest (sha256 [65]) \<in> live_chunks live_codec no_snapshots live_site" by (simp add: chunk_ref_def hexDigest_def)
  have good: "disk_good stored_flate (sha256 [65]) (sy_cas (st_sys live_site))" by (simp add: disk_good_def loose_good_def live_site_def)
  show "disk_good stored_flate (sha256 [65]) (sy_cas (st_sys (snd (snd ?q))))"
    using collection_keeps_live_data [OF quiet_orders run live_site_store] live good by (simp add: run)
qed

end
