(* ===== verification/Compact.thy ===== *)
theory Compact
  imports Gc
begin

text \<open>
  Offline compaction (\<^verbatim>\<open>zeros3.go\<close>, section 13c): loose chunks that a live root references are written
  into packs, in digest order or in the order in which the roots first reference them, and unlinked
  only when a verified packed copy is indexed. Shown here: the locality order is the order of first
  references, and whatever fails, every chunk that could be read still can.
\<close>

section \<open>Options and results\<close>

datatype packLayout = LayoutDigest | LayoutLocality

fun layoutString :: "packLayout \<Rightarrow> string" where
  "layoutString LayoutDigest = ''digest''"
| "layoutString LayoutLocality = ''locality''"

definition parseLayoutFlag :: "string \<Rightarrow> packLayout option" where
  "parseLayoutFlag v = (if v = ''digest'' then Some LayoutDigest else if v = ''locality'' then Some LayoutLocality else None)"

definition parseCompressionFlag :: "string \<Rightarrow> bool option" where
  "parseCompressionFlag v = (if v = ''auto'' then Some True else if v = ''off'' then Some False else None)"

record compactOptions =
  co_Tier :: tier
  co_TargetBytes :: int
  co_MinBytes :: int
  co_DryRun :: bool
  co_Compress :: bool
  co_Layout :: packLayout

definition defaultCompactOptions :: compactOptions where
  "defaultCompactOptions = \<lparr>co_Tier = TierHot, co_TargetBytes = defaultPackTargetBytes,
     co_MinBytes = defaultPackTargetBytes div int packMinFraction, co_DryRun = False, co_Compress = True, co_Layout = LayoutLocality\<rparr>"

record CompactResult =
  cp_DryRun :: bool
  cp_Tier :: string
  cp_Layout :: string
  cp_LocalityRanked :: nat
  cp_LooseChunks :: nat
  cp_UnreachableLoose :: nat
  cp_Skipped :: nat
  cp_DeferredChunks :: nat
  cp_ChunksPacked :: nat
  cp_PacksWritten :: nat
  cp_PackBytes :: int
  cp_RawRecords :: int
  cp_CompressedRecords :: nat
  cp_LogicalBytes :: nat
  cp_StoredBytes :: nat
  cp_LooseRemoved :: nat
  cp_LooseBytesRemoved :: int
  cp_Issues :: "VerifyIssue list"

definition empty_compact :: CompactResult where
  "empty_compact = \<lparr>cp_DryRun = False, cp_Tier = [], cp_Layout = [], cp_LocalityRanked = 0, cp_LooseChunks = 0, cp_UnreachableLoose = 0,
     cp_Skipped = 0, cp_DeferredChunks = 0, cp_ChunksPacked = 0, cp_PacksWritten = 0, cp_PackBytes = 0, cp_RawRecords = 0,
     cp_CompressedRecords = 0, cp_LogicalBytes = 0, cp_StoredBytes = 0, cp_LooseRemoved = 0, cp_LooseBytesRemoved = 0, cp_Issues = []\<rparr>"

section \<open>Locality order\<close>

text \<open>
  The references of the walked roots in the order of the walk. \<open>cands\<close> is in digest order, so the
  position that the binary search of the standard library gives is the number of smaller digests.
\<close>

definition searchCand :: "compactCandidate list \<Rightarrow> digest \<Rightarrow> nat \<times> bool" where
  "searchCand cs dg = (let i = length (takeWhile (\<lambda>c. cc_sum c < dg) cs) in (i, i < length cs \<and> cc_sum (cs ! i) = dg))"

fun rankRefs :: "chunkRef list \<Rightarrow> compactCandidate list \<Rightarrow> nat \<Rightarrow> compactCandidate list \<times> nat" where
  "rankRefs [] cs next_rank = (cs, next_rank)"
| "rankRefs (r # rs) cs next_rank =
     (if next_rank = length cs then (cs, next_rank)
      else case decodeHexSHA256 (cr_SHA256 r) of
        None \<Rightarrow> rankRefs rs cs next_rank
      | Some dg \<Rightarrow>
          (case searchCand cs dg of (i, ok) \<Rightarrow>
             if ok \<and> cc_rank (cs ! i) = 0 then rankRefs rs (cs[i := (cs ! i)\<lparr>cc_rank := next_rank + 1\<rparr>]) (next_rank + 1)
             else rankRefs rs cs next_rank))"

definition localityKey :: "compactCandidate \<Rightarrow> bool \<times> nat \<times> digest" where
  "localityKey c = (cc_rank c = 0, cc_rank c, cc_sum c)"

definition localityOrder :: "compactCandidate list \<Rightarrow> chunkRef list \<Rightarrow> compactCandidate list \<times> nat" where
  "localityOrder cands refs =
     (case rankRefs refs (map (\<lambda>c. c\<lparr>cc_rank := 0\<rparr>) (sort_key cc_sum cands)) 0 of
        (cs, n) \<Rightarrow> (sort_key localityKey cs, n))"

section \<open>Compaction\<close>

text \<open>
  Which calls fail; packs are numbered in the order of the batches. A loose file that has gone is not an
  error of its removal. Empty shard directories are removed in the order of a Go map, and a removal of
  a directory that fails is ignored.
\<close>

record compact_io =
  cm_walk :: bool
  cm_loose :: "digest \<Rightarrow> bool"
  cm_create :: "nat \<Rightarrow> bool"
  cm_finish :: "nat \<Rightarrow> bool"
  cm_pub :: "nat \<Rightarrow> cas_io"
  cm_remove :: "digest \<Rightarrow> bool"
  cm_dirs :: "bytes list \<Rightarrow> bytes list"
  cm_keepDir :: "bytes \<Rightarrow> bool"

datatype compact_error =
    CompactOptions | CompactScan | CompactLocality err | CompactRemoving digest | CompactStaging | CompactPublish cas_error | CompactReach err

definition chunkSubject :: "digest \<Rightarrow> string" where
  "chunkSubject dg = ''chunk '' @ hexDigest dg"

definition readLoose :: "bool \<Rightarrow> digest \<Rightarrow> casState \<Rightarrow> cas_error + bytes" where
  "readLoose fails dg s =
     (if fails then Inl CasIO
      else case fmlookup (cs_loose s) dg of
        None \<Rightarrow> Inl CasNotExist
      | Some data \<Rightarrow> if sha256 data \<noteq> dg \<or> length data < 1 \<or> length data > maxPackedChunkBytes then Inl CasCorrupt else Inr data)"

definition candidate :: "casState \<Rightarrow> digest \<Rightarrow> compactCandidate" where
  "candidate s dg = \<lparr>cc_sum = dg, cc_size = int (length (the (fmlookup (cs_loose s) dg))), cc_rank = 0\<rparr>"

definition packable_size :: "compactCandidate \<Rightarrow> bool" where
  "packable_size c \<longleftrightarrow> 1 \<le> cc_size c \<and> cc_size c \<le> int maxPackedChunkBytes"

text \<open>The scan of the loose area: redundant chunks, candidates, and what is counted.\<close>

definition compactScan :: "string set \<Rightarrow> CompactResult \<Rightarrow> casState \<Rightarrow> compactCandidate list \<times> compactCandidate list \<times> CompactResult" where
  "compactScan referenced res s =
     (let all = sorted_keys (cs_loose s);
          live = filter (\<lambda>dg. hexDigest dg \<in> referenced) all;
          packed = filter (\<lambda>dg. ps_lookup (cs_packs s) dg \<noteq> None) live;
          loose = map (candidate s) (filter (\<lambda>dg. ps_lookup (cs_packs s) dg = None) live) in
      (map (candidate s) packed, filter packable_size loose,
       res\<lparr>cp_LooseChunks := length all, cp_UnreachableLoose := length all - length live,
           cp_Skipped := length (filter (\<lambda>c. \<not> packable_size c) loose)\<rparr>))"

definition dropLoose :: "digest \<Rightarrow> casState \<Rightarrow> casState" where
  "dropLoose dg s = s\<lparr>cs_loose := fmdrop dg (cs_loose s)\<rparr>"

fun compactRedundant ::
  "flate_codec \<Rightarrow> compact_io \<Rightarrow> compactCandidate list \<Rightarrow> CompactResult \<Rightarrow> casState \<Rightarrow> (compact_error + unit) \<times> CompactResult \<times> casState" where
  "compactRedundant Z io [] res s = (Inr (), res, s)"
| "compactRedundant Z io (c # cs) res s =
     (case (case ps_lookup (cs_packs s) (cc_sum c) of None \<Rightarrow> Inl PackOpen | Some loc \<Rightarrow> readPacked Z (cc_sum c) loc s) of
        Inl _ \<Rightarrow> compactRedundant Z io cs
          (res\<lparr>cp_Skipped := cp_Skipped res + 1,
               cp_Issues := cp_Issues res @ [\<lparr>vi_Kind = IssueCorrupt, vi_Subject = chunkSubject (cc_sum c)\<rparr>]\<rparr>) s
      | Inr _ \<Rightarrow>
          if cm_remove io (cc_sum c) then (Inl (CompactRemoving (cc_sum c)), res, s)
          else compactRedundant Z io cs
            (res\<lparr>cp_LooseRemoved := cp_LooseRemoved res + 1, cp_LooseBytesRemoved := cp_LooseBytesRemoved res + cc_size c\<rparr>)
            (dropLoose (cc_sum c) s))"

fun removePacked :: "compact_io \<Rightarrow> packEntry list \<Rightarrow> CompactResult \<Rightarrow> casState \<Rightarrow> (compact_error + unit) \<times> CompactResult \<times> casState" where
  "removePacked io [] res s = (Inr (), res, s)"
| "removePacked io (e # es) res s =
     (if cm_remove io (pe_sha e) then (Inl (CompactRemoving (pe_sha e)), res, s)
      else removePacked io es
        (res\<lparr>cp_LooseRemoved := cp_LooseRemoved res + 1, cp_LooseBytesRemoved := cp_LooseBytesRemoved res + int (unat (pe_logical e))\<rparr>)
        (dropLoose (pe_sha e) s))"

definition removeShard :: "compact_io \<Rightarrow> bytes \<Rightarrow> casState \<Rightarrow> casState" where
  "removeShard io d s =
     (if cm_keepDir io d \<or> \<not> dirEmpty d s then s
      else if cm_keepDir io (butlast d) then removeDir d s
      else removeDir (butlast d) (removeDir d s))"

definition skipped :: "(compactCandidate \<times> cas_error) list \<Rightarrow> CompactResult \<Rightarrow> CompactResult" where
  "skipped out res =
     res\<lparr>cp_Skipped := cp_Skipped res + length out,
         cp_Issues := cp_Issues res @ map (\<lambda>(c, e). \<lparr>vi_Kind = (if e = CasCorrupt then IssueCorrupt else IssueInvalid),
                                                   vi_Subject = chunkSubject (cc_sum c)\<rparr>) out\<rparr>"

definition compactBatch ::
  "flate_codec \<Rightarrow> compact_io \<Rightarrow> nat \<Rightarrow> tier \<Rightarrow> flate_codec option \<Rightarrow> compactCandidate list \<Rightarrow> CompactResult \<Rightarrow> casState
    \<Rightarrow> (compact_error + unit) \<times> CompactResult \<times> casState" where
  "compactBatch Z io n t cmp batch res s =
     (let res1 = (if cm_create io n then res
                  else skipped (List.map_filter (\<lambda>c. case readLoose (cm_loose io (cc_sum c)) (cc_sum c) s of
                                                     Inl e \<Rightarrow> Some (c, e) | Inr _ \<Rightarrow> None) batch) res) in
      case stagePack CompactStaging (cm_create io n) (cm_finish io n) cmp (\<lambda>dg. readLoose (cm_loose io dg) dg s) (\<lambda>c e. None) batch of
        Inl e \<Rightarrow> (Inl e, res1, s)
      | Inr (staged, _) \<Rightarrow>
          (case staged of
             None \<Rightarrow> (Inr (), res1, s)
           | Some (f, entries) \<Rightarrow>
               if entries = [] then (Inr (), res1, s)
               else (case publishPack Z (cm_pub io n) t f entries s of
                  (Inl e, s1) \<Rightarrow> (Inl (CompactPublish e), res1, s1)
                | (Inr info, s1) \<Rightarrow>
                    let res2 = res1\<lparr>cp_PacksWritten := cp_PacksWritten res1 + 1, cp_PackBytes := cp_PackBytes res1 + int (pi_size info),
                                    cp_ChunksPacked := cp_ChunksPacked res1 + length entries,
                                    cp_RawRecords := cp_RawRecords res1 + (int (pi_records info) - int (pi_deflated info)),
                                    cp_CompressedRecords := cp_CompressedRecords res1 + pi_deflated info,
                                    cp_LogicalBytes := cp_LogicalBytes res1 + pi_logical info,
                                    cp_StoredBytes := cp_StoredBytes res1 + pi_stored info\<rparr> in
                    (case removePacked io entries res2 s1 of
                       (Inl e, res3, s2) \<Rightarrow> (Inl e, res3, s2)
                     | (Inr _, res3, s2) \<Rightarrow>
                         (Inr (), res3, fold (removeShard io) (cm_dirs io (remdups (map (\<lambda>e. shardDir (pe_sha e)) entries))) s2)))))"

fun compactBatches ::
  "flate_codec \<Rightarrow> compact_io \<Rightarrow> nat \<Rightarrow> tier \<Rightarrow> flate_codec option \<Rightarrow> compactCandidate list list \<Rightarrow> CompactResult \<Rightarrow> casState
    \<Rightarrow> (compact_error + unit) \<times> CompactResult \<times> casState" where
  "compactBatches Z io n t cmp [] res s = (Inr (), res, s)"
| "compactBatches Z io n t cmp (b # bs) res s =
     (case compactBatch Z io n t cmp b res s of
        (Inl e, res1, s1) \<Rightarrow> (Inl e, res1, s1)
      | (Inr _, res1, s1) \<Rightarrow> compactBatches Z io (Suc n) t cmp bs res1 s1)"

definition dryRun :: "compactCandidate list list \<Rightarrow> compactCandidate list \<Rightarrow> CompactResult \<Rightarrow> CompactResult" where
  "dryRun batches redundant res =
     res\<lparr>cp_PacksWritten := length batches, cp_ChunksPacked := length (concat batches),
         cp_PackBytes := sum_list (map (\<lambda>c. cc_size c + int packRecordHeaderSize) (concat batches)), cp_LooseRemoved := length redundant\<rparr>"

text \<open>\<open>walk\<close> is the outcome of the observed reachability scan, which the locality layout runs.\<close>

definition compact ::
  "flate_codec \<Rightarrow> compact_io \<Rightarrow> string set \<Rightarrow> (err + chunkRef list) \<Rightarrow> compactOptions \<Rightarrow> casState
    \<Rightarrow> (compact_error + unit) \<times> CompactResult \<times> casState" where
  "compact Z io referenced walk opt s =
     (let res = empty_compact\<lparr>cp_DryRun := co_DryRun opt, cp_Tier := tierString (co_Tier opt)\<rparr> in
      if co_TargetBytes opt \<le> 0 then (Inl CompactOptions, res, s)
      else if cm_walk io then (Inl CompactScan, res, s)
      else case compactScan referenced res s of (redundant, cands, res1) \<Rightarrow>
        let res2 = res1\<lparr>cp_Layout := layoutString (co_Layout opt)\<rparr> in
        (case (if co_Layout opt = LayoutLocality \<and> length cands > 1
               then (case walk of Inl e \<Rightarrow> Inl e | Inr refs \<Rightarrow> Inr (localityOrder cands refs))
               else Inr (cands, 0)) of
           Inl e \<Rightarrow> (Inl (CompactLocality e), res2, s)
         | Inr (ordered, ranked) \<Rightarrow>
             (case planPackBatches ordered (co_TargetBytes opt) (co_MinBytes opt) of (batches, deferred) \<Rightarrow>
                let res3 = res2\<lparr>cp_LocalityRanked := ranked, cp_DeferredChunks := length deferred\<rparr> in
                if co_DryRun opt then (Inr (), dryRun batches redundant res3, s)
                else (case compactRedundant Z io redundant res3 s of
                   (Inl e, res4, s1) \<Rightarrow> (Inl e, res4, s1)
                 | (Inr _, res4, s1) \<Rightarrow> compactBatches Z io 0 (co_Tier opt) (newCompressor Z (co_Compress opt)) batches res4 s1))))"

definition compactStore ::
  "man_codec \<Rightarrow> snap_codec \<Rightarrow> flate_codec \<Rightarrow> reach_io \<Rightarrow> reach_io \<Rightarrow> compact_io \<Rightarrow> compactOptions \<Rightarrow> site
    \<Rightarrow> (compact_error + unit) \<times> CompactResult \<times> site" where
  "compactStore M K Z rio rio2 io opt s =
     (case computeReachability M K Z rio False s of
        Inl e \<Rightarrow> (Inl (CompactReach e), empty_compact, s)
      | Inr rr \<Rightarrow>
          let walk = (case computeReachabilityObserved M K Z rio2 False True s of
                Inl e \<Rightarrow> Inl e
              | Inr rr2 \<Rightarrow> Inr (concat (map (\<lambda>(_, _, _, chunks). chunks) (rr_Observed rr2)))) in
          (case compact Z io (rr_ReferencedChunks rr) walk opt (sy_cas (st_sys s)) of
             (r, res, cas) \<Rightarrow> (r, res, with_cas cas s)))"


section \<open>The locality order\<close>

text \<open>The reference order: each candidate where it is referenced first.\<close>

fun firstRefs :: "digest set \<Rightarrow> chunkRef list \<Rightarrow> digest list \<Rightarrow> digest list" where
  "firstRefs S [] seen = seen"
| "firstRefs S (r # rs) seen =
     (case decodeHexSHA256 (cr_SHA256 r) of
        None \<Rightarrow> firstRefs S rs seen
      | Some dg \<Rightarrow> firstRefs S rs (if dg \<in> S \<and> dg \<notin> set seen then seen @ [dg] else seen))"

lemma firstRefs_set: "distinct seen \<Longrightarrow> set seen \<subseteq> S \<Longrightarrow> distinct (firstRefs S rs seen) \<and> set (firstRefs S rs seen) \<subseteq> S"
  by (induction S rs seen rule: firstRefs.induct) (auto split: option.splits)

lemma firstRefs_full: "set seen = S \<Longrightarrow> firstRefs S rs seen = seen"
  by (induction rs) (auto split: option.splits)

definition posn :: "'a list \<Rightarrow> 'a \<Rightarrow> nat" where
  "posn xs x = length (takeWhile (\<lambda>y. y \<noteq> x) xs)"

lemma posn_snoc: "posn (xs @ [x]) y = (if y \<in> set xs then posn xs y else if y = x then length xs else Suc (length xs))"
  by (induction xs) (auto simp: posn_def)

lemma posn_nth: "distinct xs \<Longrightarrow> i < length xs \<Longrightarrow> posn xs (xs ! i) = i"
proof (induction xs arbitrary: i)
  case (Cons x xs)
  then show ?case by (cases i) (auto simp: posn_def)
qed simp

definition ranked :: "compactCandidate list \<Rightarrow> digest list \<Rightarrow> bool" where
  "ranked cs seen \<longleftrightarrow> distinct seen \<and> set seen \<subseteq> cc_sum ` set cs
     \<and> (\<forall>c \<in> set cs. cc_rank c = (if cc_sum c \<in> set seen then Suc (posn seen (cc_sum c)) else 0))"

lemma searchCand_spec:
  assumes "sorted (map cc_sum cs)" "searchCand cs dg = (i, ok)"
  shows "ok \<longleftrightarrow> dg \<in> cc_sum ` set cs" "ok \<Longrightarrow> i < length cs \<and> cc_sum (cs ! i) = dg"
proof -
  have i: "i = length (takeWhile (\<lambda>c. cc_sum c < dg) cs)" "ok \<longleftrightarrow> i < length cs \<and> cc_sum (cs ! i) = dg"
    using assms(2) by (auto simp: searchCand_def Let_def)
  show "ok \<Longrightarrow> i < length cs \<and> cc_sum (cs ! i) = dg" using i by simp
  have "ok" if "c \<in> set cs" "cc_sum c = dg" for c
  proof -
    obtain j where j: "j < length cs" "cs ! j = c" using \<open>c \<in> set cs\<close> by (metis in_set_conv_nth)
    have ij: "i \<le> j"
    proof (rule ccontr)
      assume "\<not> i \<le> j"
      then have "j < length (takeWhile (\<lambda>c. cc_sum c < dg) cs)" using i(1) by simp
      then have "cc_sum (cs ! j) < dg" using nth_mem takeWhile_nth set_takeWhileD by metis
      then show False using j that by simp
    qed
    then have il: "i < length cs" using j by simp
    then have "\<not> cc_sum (cs ! i) < dg" using i(1) nth_length_takeWhile by blast
    moreover have "cc_sum (cs ! i) \<le> cc_sum (cs ! j)" using assms(1) ij j(1) by (simp add: sorted_iff_nth_mono)
    ultimately show ?thesis using i(2) il j that by simp
  qed
  then show "ok \<longleftrightarrow> dg \<in> cc_sum ` set cs" using i(2) nth_mem by blast
qed

lemma map_update_same: "f x = f (xs ! i) \<Longrightarrow> map f (xs[i := x]) = map f xs"
  by (metis list_update_id map_update)

lemma rankRefs_spec:
  assumes "sorted (map cc_sum cs)" "distinct (map cc_sum cs)" "ranked cs seen" "rankRefs rs cs (length seen) = (cs', n)"
  shows "ranked cs' (firstRefs (cc_sum ` set cs) rs seen) \<and> n = length (firstRefs (cc_sum ` set cs) rs seen)
    \<and> map cc_sum cs' = map cc_sum cs \<and> map cc_size cs' = map cc_size cs"
  using assms
proof (induction rs arbitrary: cs seen)
  case (Cons r rs)
  let ?S = "cc_sum ` set cs"
  show ?case
  proof (cases "length seen = length cs")
    case True
    have "distinct seen" "set seen \<subseteq> ?S" using Cons.prems(3) by (simp_all add: ranked_def)
    moreover have "card ?S = length cs" using distinct_card [OF Cons.prems(2)] by simp
    ultimately have "set seen = ?S" using True by (metis List.finite_set card_subset_eq distinct_card finite_imageI)
    then have full: "firstRefs ?S (r # rs) seen = seen" by (rule firstRefs_full)
    have "cs' = cs" "n = length seen" using Cons.prems(4) True by auto
    then show ?thesis unfolding full using Cons.prems(3) by simp
  next
    case False
    show ?thesis
    proof (cases "decodeHexSHA256 (cr_SHA256 r)")
      case None
      then show ?thesis using Cons.IH [OF Cons.prems(1-3)] Cons.prems(4) False by simp
    next
      case (Some dg)
      obtain i ok where s: "searchCand cs dg = (i, ok)" by fastforce
      note S = searchCand_spec [OF Cons.prems(1) s]
      have rk: "cc_rank (cs ! i) = 0 \<longleftrightarrow> dg \<notin> set seen" if ok
        using S(2) [OF that] Cons.prems(3) nth_mem [of i cs] by (fastforce simp: ranked_def)
      show ?thesis
      proof (cases "dg \<in> ?S \<and> dg \<notin> set seen")
        case False
        then have "rankRefs rs cs (length seen) = (cs', n)" using Cons.prems(4) \<open>length seen \<noteq> length cs\<close> Some s S(1) rk by auto
        moreover have "firstRefs ?S (r # rs) seen = firstRefs ?S rs seen" using False Some by auto
        ultimately show ?thesis using Cons.IH [OF Cons.prems(1-3)] by (simp only:)
      next
        case True
        then have ok: "ok" and i: "i < length cs" "cc_sum (cs ! i) = dg" using S by auto
        let ?c = "(cs ! i)\<lparr>cc_rank := length seen + 1\<rparr>"
        let ?cs = "cs[i := ?c]"
        have run: "rankRefs rs ?cs (length (seen @ [dg])) = (cs', n)"
          using Cons.prems(4) \<open>length seen \<noteq> length cs\<close> Some s ok rk [OF ok] True by simp
        have m: "map cc_sum ?cs = map cc_sum cs" "map cc_size ?cs = map cc_size cs" by (rule map_update_same, simp)+
        then have set: "cc_sum ` set ?cs = ?S" by (metis set_map)
        have "ranked ?cs (seen @ [dg])"
          unfolding ranked_def set
        proof (intro conjI ballI)
          show "distinct (seen @ [dg])" "set (seen @ [dg]) \<subseteq> ?S" using Cons.prems(3) True by (auto simp: ranked_def)
          fix c assume "c \<in> set ?cs"
          then obtain j where j: "j < length cs" "?cs ! j = c" by (metis in_set_conv_nth length_list_update)
          show "cc_rank c = (if cc_sum c \<in> set (seen @ [dg]) then Suc (posn (seen @ [dg]) (cc_sum c)) else 0)"
          proof (cases "j = i")
            case True
            then have "cc_sum c = dg" "cc_rank c = length seen + 1" using j i by auto
            then show ?thesis using \<open>dg \<in> ?S \<and> dg \<notin> set seen\<close> by (simp add: posn_snoc)
          next
            case False
            then have c: "c = cs ! j" using j by simp
            have "cc_sum c \<noteq> dg" using False c i j(1) Cons.prems(2) nth_eq_iff_index_eq [of "map cc_sum cs" j i] by auto
            then show ?thesis using Cons.prems(3) c j(1) by (auto simp: ranked_def posn_snoc)
          qed
        qed
        from Cons.IH [OF _ _ this run, unfolded m set] Cons.prems(1,2)
        show ?thesis using True Some m by simp
      qed
    qed
  qed
qed simp

lemma localityOrder_spec:
  assumes "distinct (map cc_sum cands)" "localityOrder cands refs = (out, n)"
  shows "map cc_sum out = firstRefs (cc_sum ` set cands) refs []
      @ sort (filter (\<lambda>dg. dg \<notin> set (firstRefs (cc_sum ` set cands) refs [])) (map cc_sum cands))
    \<and> n = length (firstRefs (cc_sum ` set cands) refs [])"
proof -
  let ?cs0 = "map (\<lambda>c. c\<lparr>cc_rank := 0\<rparr>) (sort_key cc_sum cands)"
  let ?S = "cc_sum ` set cands" and ?F = "firstRefs (cc_sum ` set cands) refs []"
  let ?rest = "sort (filter (\<lambda>dg. dg \<notin> set ?F) (map cc_sum cands))"
  obtain cs where run: "rankRefs refs ?cs0 (length ([] :: digest list)) = (cs, n)" and out: "out = sort_key localityKey cs"
    using assms(2) by (auto simp: localityOrder_def split: prod.split_asm)
  have m0: "map cc_sum ?cs0 = map cc_sum (sort_key cc_sum cands)" by (simp add: comp_def)
  have set0: "cc_sum ` set ?cs0 = ?S" by (metis m0 set_map set_sort)
  have d0: "distinct (map cc_sum ?cs0)" unfolding m0 using assms(1)
    by (metis (no_types, lifting) distinct_map distinct_sort set_sort)
  have "sorted (map cc_sum ?cs0)" unfolding m0 by simp
  from rankRefs_spec [OF this d0 _ run, unfolded set0]
  have R: "ranked cs ?F" "n = length ?F" "map cc_sum cs = map cc_sum ?cs0" by (simp_all add: ranked_def)
  have sums: "cc_sum ` set cs = ?S" using R(3) set0 by (metis set_map)
  have dc: "distinct (map cc_sum cs)" using R(3) d0 by simp
  have dF: "distinct ?F" "set ?F \<subseteq> ?S" using R(1) sums by (auto simp: ranked_def)
  let ?k = "\<lambda>dg. (dg \<notin> set ?F, if dg \<in> set ?F then Suc (posn ?F dg) else 0, dg)"
  have key: "localityKey c = ?k (cc_sum c)" if "c \<in> set cs" for c
    using R(1) that by (auto simp: localityKey_def ranked_def)
  have mk: "map localityKey out = map ?k (map cc_sum out)" using key by (simp add: out)
  have "sorted (map ?k (?F @ ?rest))"
  proof -
    have "sorted (map ?k ?F)"
      by (auto simp: sorted_iff_nth_mono posn_nth [OF dF(1)]) (metis le_neq_implies_less order_refl)
    moreover have "sorted (map ?k ?rest)"
      unfolding sorted_map by (rule sorted_wrt_mono_rel [OF _ sorted_sort]) auto
    ultimately show ?thesis by (auto simp: sorted_append)
  qed
  moreover have "distinct (map ?k (?F @ ?rest))"
  proof -
    have "inj_on ?k X" for X by (rule inj_onI) simp
    moreover have "distinct (?F @ ?rest)" using dF(1) assms(1) by (auto simp: distinct_map_filter)
    ultimately show ?thesis by (simp only: distinct_map)
  qed
  moreover have "sorted (map localityKey out)" by (simp add: out)
  moreover have "distinct (map localityKey out)"
  proof -
    have "inj_on localityKey (set cs)" using dc by (auto simp: localityKey_def distinct_map inj_on_def)
    moreover have "distinct cs" using dc by (simp add: distinct_map)
    ultimately show ?thesis by (simp add: distinct_map out)
  qed
  moreover have "set (map localityKey out) = set (map ?k (?F @ ?rest))"
  proof -
    have "set (map localityKey out) = ?k ` ?S" unfolding mk set_map using sums by (simp only: out set_sort)
    moreover have "set (?F @ ?rest) = ?S" using dF(2) by auto
    ultimately show ?thesis unfolding set_map by (simp only:)
  qed
  ultimately have "map localityKey out = map ?k (?F @ ?rest)" by (intro sorted_distinct_set_unique)
  then have "map (snd \<circ> snd) (map ?k (map cc_sum out)) = map (snd \<circ> snd) (map ?k (?F @ ?rest))" unfolding mk by simp
  then have "map cc_sum out = ?F @ ?rest" by (simp add: comp_def)
  then show ?thesis using R(2) by simp
qed

section \<open>Compaction keeps every chunk readable\<close>

definition readable :: "flate_codec \<Rightarrow> digest \<Rightarrow> casState \<Rightarrow> bool" where
  "readable Z dg s \<longleftrightarrow> loose_good dg s \<or> packed_good Z {} dg s"

lemma readable_read: "is_ok (casRead Z False dg s) \<longleftrightarrow> readable Z dg s"
  by (simp only: casRead_def casReadExcluding_ok readable_def) simp

text \<open>The contents of the loose files: what can get into a pack.\<close>

definition loose_contents :: "casState \<Rightarrow> bytes set" where
  "loose_contents s = {data. fmlookup (cs_loose s) (sha256 data) = Some data}"

text \<open>\<open>compacted\<close>: readable chunks stay readable; loose files only go, and only referenced ones
  of which a published pack has a copy that reads back.\<close>

definition compacted :: "flate_codec \<Rightarrow> bytes set \<Rightarrow> string set \<Rightarrow> casState \<Rightarrow> casState \<Rightarrow> bool" where
  "compacted Z B referenced s s' \<longleftrightarrow> pack_store B s' \<and> (\<forall>dg. readable Z dg s \<longrightarrow> readable Z dg s')
     \<and> (\<forall>t f es. published s t f es \<longrightarrow> published s' t f es)
     \<and> (\<forall>dg. fmlookup (cs_loose s') dg \<noteq> None \<longrightarrow> fmlookup (cs_loose s') dg = fmlookup (cs_loose s) dg)
     \<and> (\<forall>dg. hexDigest dg \<notin> referenced \<longrightarrow> fmlookup (cs_loose s') dg = fmlookup (cs_loose s) dg)
     \<and> (\<forall>dg. fmlookup (cs_loose s') dg \<noteq> fmlookup (cs_loose s) dg \<longrightarrow> packed_on_disk Z dg s')"

lemma compacted_refl: "pack_store B s \<Longrightarrow> compacted Z B referenced s s"
  by (simp add: compacted_def)

lemma compacted_trans:
  assumes "compacted Z B referenced s t" "compacted Z B referenced t u"
  shows "compacted Z B referenced s u"
proof -
  note A = assms(1) [unfolded compacted_def] and C = assms(2) [unfolded compacted_def]
  have "packed_on_disk Z dg u" if "fmlookup (cs_loose u) dg \<noteq> fmlookup (cs_loose s) dg" for dg
  proof (cases "fmlookup (cs_loose u) dg = fmlookup (cs_loose t) dg")
    case True
    then have "packed_on_disk Z dg t" using A that by simp
    then show ?thesis using C unfolding packed_on_disk_def by metis
  next
    case False
    then show ?thesis using C by blast
  qed
  moreover have "fmlookup (cs_loose u) dg = fmlookup (cs_loose s) dg" if "fmlookup (cs_loose u) dg \<noteq> None" for dg
    using A C that by metis
  ultimately show ?thesis unfolding compacted_def using A C by simp
qed

lemma compacted_contents: "compacted Z B referenced s t \<Longrightarrow> loose_contents t \<subseteq> loose_contents s"
  unfolding compacted_def loose_contents_def by (metis (mono_tags, lifting) Collect_mono option.distinct(1))

lemma packed_good_same:
  "cs_packs s' = cs_packs s \<Longrightarrow> cs_packFiles s' = cs_packFiles s \<Longrightarrow> packed_good Z skip dg s' = packed_good Z skip dg s"
  by (simp add: packed_good_def readPacked_def)

lemma fewer_compacted:
  assumes "fewer_loose s s'" "pack_store B s"
    and "\<And>dg. fmlookup (cs_loose s') dg \<noteq> fmlookup (cs_loose s) dg \<Longrightarrow> packed_good Z {} dg s \<and> hexDigest dg \<in> referenced"
  shows "compacted Z B referenced s s'"
proof -
  note F = assms(1) [unfolded fewer_loose_def]
  have "readable Z dg s'" if "readable Z dg s" for dg
    using that assms(3) [of dg] F packed_good_same [of s' s Z "{}" dg]
    by (cases "fmlookup (cs_loose s') dg = fmlookup (cs_loose s) dg") (auto simp: readable_def loose_good_def)
  moreover have "packed_on_disk Z dg s'" if "fmlookup (cs_loose s') dg \<noteq> fmlookup (cs_loose s) dg" for dg
  proof -
    have "linked s" using assms(2) by (simp add: pack_store_def)
    from linked_packed_on_disk [OF this] have "packed_on_disk Z dg s" using assms(3) [OF that] by blast
    then show ?thesis using fewer_loose_facts(1) [OF assms(1)] by (simp add: packed_on_disk_def)
  qed
  ultimately show ?thesis
    using fewer_loose_facts(1,3) [OF assms(1)] assms(2,3) F unfolding compacted_def by auto
qed

lemma dropLoose_compacted:
  assumes "pack_store B s" "packed_good Z {} dg s" "hexDigest dg \<in> referenced"
  shows "compacted Z B referenced s (dropLoose dg s)"
proof (rule fewer_compacted [OF _ assms(1)])
  show "fewer_loose s (dropLoose dg s)" by (simp add: fewer_loose_def dropLoose_def)
  show "packed_good Z {} d s \<and> hexDigest d \<in> referenced" if "fmlookup (cs_loose (dropLoose dg s)) d \<noteq> fmlookup (cs_loose s) d" for d
    using that assms(2,3) by (auto simp: dropLoose_def split: if_splits)
qed

lemma lookup_packed:
  assumes "linked s" "ps_lookup (cs_packs s) dg = Some loc" "is_ok (readPacked Z dg loc s)"
  shows "packed_good Z {} dg s"
proof -
  have sn: "snapshot_ok (cs_packs s)" using assms(1) by (simp add: linked_def exact_def)
  obtain r where "ps_best (cs_packs s) dg = Some r" "loc = lr_loc r" using assms(2) by (auto simp: ps_lookup_def)
  then have "loc \<in> set (appendLocs (cs_packs s) dg)" using ps_best_all_recs(1) [OF sn] appendLocs_set [OF sn] by auto
  then show ?thesis using assms(3) by (auto simp: packed_good_def)
qed

lemma compactRedundant_compacted:
  assumes "compactRedundant Z io cs res s = (r, res', s')" "pack_store B s" "\<forall>c \<in> set cs. hexDigest (cc_sum c) \<in> referenced"
  shows "compacted Z B referenced s s'"
  using assms
proof (induction cs arbitrary: res s)
  case Nil
  then show ?case by (simp add: compacted_refl)
next
  case (Cons c cs)
  let ?read = "case ps_lookup (cs_packs s) (cc_sum c) of None \<Rightarrow> Inl PackOpen | Some loc \<Rightarrow> readPacked Z (cc_sum c) loc s"
  have ref: "\<forall>c \<in> set cs. hexDigest (cc_sum c) \<in> referenced" "hexDigest (cc_sum c) \<in> referenced" using Cons.prems(3) by simp_all
  show ?case
  proof (cases ?read)
    case (Inl e)
    show ?thesis by (rule Cons.IH [OF _ Cons.prems(2) ref(1)]) (use Cons.prems(1) Inl in simp)
  next
    case (Inr data)
    have good: "packed_good Z {} (cc_sum c) s"
      using Inr lookup_packed Cons.prems(2) by (auto simp: pack_store_def split: option.splits)
    show ?thesis
    proof (cases "cm_remove io (cc_sum c)")
      case True
      then have "s' = s" using Cons.prems(1) Inr by simp
      then show ?thesis using compacted_refl [OF Cons.prems(2)] by simp
    next
      case False
      note step = dropLoose_compacted [OF Cons.prems(2) good ref(2)]
      then have "pack_store B (dropLoose (cc_sum c) s)" by (simp add: compacted_def)
      from Cons.IH [OF _ this ref(1)] have "compacted Z B referenced (dropLoose (cc_sum c) s) s'" using Cons.prems(1) Inr False by simp
      then show ?thesis using compacted_trans step by blast
    qed
  qed
qed

lemma removePacked_compacted:
  assumes "removePacked io es res s = (r, res', s')" "pack_store B s"
    and "\<forall>e \<in> set es. packed_good Z {} (pe_sha e) s \<and> hexDigest (pe_sha e) \<in> referenced"
  shows "compacted Z B referenced s s'"
  using assms
proof (induction es arbitrary: res s)
  case Nil
  then show ?case by (simp add: compacted_refl)
next
  case (Cons e es)
  show ?case
  proof (cases "cm_remove io (pe_sha e)")
    case True
    then have "s' = s" using Cons.prems(1) by simp
    then show ?thesis using compacted_refl [OF Cons.prems(2)] by simp
  next
    case False
    have step: "compacted Z B referenced s (dropLoose (pe_sha e) s)"
      by (rule dropLoose_compacted [OF Cons.prems(2)]) (use Cons.prems(3) in simp_all)
    then have "pack_store B (dropLoose (pe_sha e) s)" by (simp add: compacted_def)
    moreover have "\<forall>e' \<in> set es. packed_good Z {} (pe_sha e') (dropLoose (pe_sha e) s) \<and> hexDigest (pe_sha e') \<in> referenced"
      using Cons.prems(3) packed_good_same [of "dropLoose (pe_sha e) s" s] by (simp add: dropLoose_def)
    ultimately have "compacted Z B referenced (dropLoose (pe_sha e) s) s'" using Cons.IH Cons.prems(1) False by simp
    then show ?thesis using compacted_trans step by blast
  qed
qed

text \<open>A pack that was published is in the locator, and every entry of it reads back.\<close>

lemma withPack_has: "withPack info es st = Inr st' \<Longrightarrow> \<exists>q \<in> set (ps_packs st'). pi_id q = pi_id info \<and> pi_tier q = pi_tier info"
  by (auto simp: withPack_def Let_def split: if_splits option.splits prod.splits)

lemma publishPack_serves:
  assumes run: "publishPack Z io t f entries s = (Inr info, s')" and S: "pack_store B s"
    and B: "f \<in> B"
  shows "pack_store B s'" "extends Z s s'" "e \<in> set entries \<Longrightarrow> packed_good Z {} (pe_sha e) s'"
proof -
  show S': "pack_store B s'" and "extends Z s s'" using publishPack_linked [OF run S B] by blast+
  show "packed_good Z {} (pe_sha e) s'" if e: "e \<in> set entries"
    using run
  proof (cases rule: publishPack_cases)
    case (added inf v s2 p)
    have L: "linked s'" and f: "f \<in> B" using S' B added(1) by (auto simp: pack_store_def)
    have len: "length f < 2 ^ 63" using S f by (auto simp: pack_store_def disk_ok_def pack_set_def pack_names_def)
    obtain bs where lay: "readPackLayout f = Inr (entries, bs)" using verified_info(2) [OF added(1)] by blast
    have w: "\<exists>st. withPack p entries (cs_packs s2) = Inr st \<and> s' = s2\<lparr>cs_packs := st\<rparr>"
      using added(6) by (auto simp: addPack_def split: sum.splits prod.splits)
    then obtain st where st: "withPack p entries (cs_packs s2) = Inr st" "s' = s2\<lparr>cs_packs := st\<rparr>" by blast
    obtain q where q: "q \<in> set (ps_packs (cs_packs s'))" "pi_id q = pi_id inf" "pi_tier q = t"
      using withPack_has [OF st(1)] st(2) added(5) by auto
    then obtain i where i: "i < length (ps_packs (cs_packs s'))" "ps_packs (cs_packs s') ! i = q" by (metis in_set_conv_nth)
    have "pi_path q = packPath (cs_root s') (pi_tier q) (pi_id q)" using L q(1) by (simp add: linked_def)
    then have fl: "fmlookup (cs_packFiles s') (pi_path q) = Some f" using q st(2) added(4) by simp
    then have "entries_at s' (pi_path q) = entries" using lay by (simp add: entries_at_def)
    moreover have "exact s'" using L by (simp add: linked_def)
    ultimately have "\<exists>d g. i < length (ps_packs (cs_packs s')) \<and> i \<notin> {} \<and> fmlookup (cs_packFiles s') (pi_path (ps_packs (cs_packs s') ! i)) = Some g
        \<and> d \<in> set (entries_at s' (pi_path (ps_packs (cs_packs s') ! i))) \<and> pe_sha d = pe_sha e \<and> is_ok (readPackRecord Z g d)"
      using i fl e verified_pack(4) [OF added(1) len e] by (intro exI [of _ e] exI [of _ f]) simp
    then show ?thesis unfolding packed_good_exact [OF \<open>exact s'\<close>] by blast
  qed auto
qed

lemma stageLoop_skips:
  assumes "stageLoop rd (\<lambda>c e. None :: 'e option) batch (packBuild cmp ds) out = Inr (b, out')"
    and "\<And>dg data. rd dg = Inr data \<Longrightarrow> sha256 data = dg \<and> data \<in> C" "distinct (map cc_sum batch)"
  shows "\<exists>ds'. b = packBuild cmp (ds @ ds') \<and> distinct (map sha256 ds') \<and> sha256 ` set ds' \<subseteq> cc_sum ` set batch \<and> set ds' \<subseteq> C"
  using assms(1,3)
proof (induction batch arbitrary: ds out)
  case (Cons c cs)
  show ?case
  proof (cases "rd (cc_sum c)")
    case (Inl e)
    then have "stageLoop rd (\<lambda>c e. None :: 'e option) cs (packBuild cmp ds) (out @ [(c, e)]) = Inr (b, out')" using Cons.prems(1) by simp
    from Cons.IH [OF this] Cons.prems(2) obtain ds' where ds': "b = packBuild cmp (ds @ ds')" "distinct (map sha256 ds')"
      "sha256 ` set ds' \<subseteq> cc_sum ` set cs" "set ds' \<subseteq> C" by auto
    then show ?thesis by (intro exI [of _ ds']) auto
  next
    case (Inr data)
    then have s: "sha256 data = cc_sum c" "data \<in> C" using assms(2) by auto
    have "stageLoop rd (\<lambda>c e. None :: 'e option) cs (packBuild cmp (ds @ [data])) out = Inr (b, out')"
      using Cons.prems(1) Inr s(1) packBuild_snoc [of data cmp ds] by simp
    from Cons.IH [OF this] Cons.prems(2) obtain ds' where ds': "b = packBuild cmp ((ds @ [data]) @ ds')" "distinct (map sha256 ds')"
      "sha256 ` set ds' \<subseteq> cc_sum ` set cs" "set ds' \<subseteq> C" by auto
    have "sha256 data \<notin> sha256 ` set ds'" using ds'(3) s(1) Cons.prems(2) by auto
    then show ?thesis using ds' s by (intro exI [of _ "data # ds'"]) auto
  qed
qed simp

lemma stagePack_compact:
  assumes "stagePack err cf ff cmp rd (\<lambda>c e. None :: 'e option) batch = Inr (Some (f, es), out)"
    and "\<And>dg data. rd dg = Inr data \<Longrightarrow> sha256 data = dg \<and> data \<in> C" "distinct (map cc_sum batch)" "new_packs cmp C \<subseteq> B"
  shows "f \<in> B" "pe_sha ` set es \<subseteq> cc_sum ` set batch"
proof -
  have nb: "newPackBuilder cmp = packBuild cmp []" by (simp add: packBuild_def)
  obtain b out2 where l: "stageLoop rd (\<lambda>c e. None :: 'e option) batch (packBuild cmp []) [] = Inr (b, out2)"
    and st: "pb_entries b \<noteq> []" "packBuilder_Finish ff b = Some (f, es)"
    using assms(1) by (auto simp: stagePack_def nb split: if_splits option.splits sum.splits) 
  obtain ds where ds: "b = packBuild cmp ds" "distinct (map sha256 ds)" "sha256 ` set ds \<subseteq> cc_sum ` set batch" "set ds \<subseteq> C"
    using stageLoop_skips [OF l assms(2,3)] by auto
  have ne: "ds \<noteq> []" using st(1) ds(1) by (auto simp: packBuild_def newPackBuilder_def)
  have fin: "f = built cmp ds \<and> es = pb_entries b"
    using st(2) by (auto simp: packBuilder_Finish_def built_def ds(1) Let_def split: if_splits)
  have "built cmp ds \<in> new_packs cmp C" unfolding new_packs_def using ne ds(2,4) by (intro CollectI exI [of _ ds]) simp
  then show "f \<in> B" using assms(4) fin by blast
  have "pe_sha ` set es = sha256 ` set ds" using packBuild_shas [of cmp ds] fin ds(1) by (metis set_map)
  then show "pe_sha ` set es \<subseteq> cc_sum ` set batch" using ds(3) by simp
qed

lemma removeShard_compacted: "pack_store B s \<Longrightarrow> compacted Z B referenced s (removeShard io d s)"
proof -
  assume S: "pack_store B s"
  have "fewer_loose s (removeShard io d s)" "cs_loose (removeShard io d s) = cs_loose s"
    by (simp_all add: removeShard_def removeDir_def fewer_loose_def)
  then show ?thesis by (intro fewer_compacted [OF _ S]) simp_all
qed

lemma removeShards_compacted: "pack_store B s \<Longrightarrow> compacted Z B referenced s (fold (removeShard io) ds s)"
proof (induction ds arbitrary: s)
  case (Cons d ds)
  have "compacted Z B referenced s (removeShard io d s)" by (rule removeShard_compacted [OF Cons.prems])
  moreover from this have "pack_store B (removeShard io d s)" by (simp add: compacted_def)
  ultimately show ?case using Cons.IH compacted_trans by fastforce
qed (simp add: compacted_refl)

lemma extends_compacted: "extends Z s s' \<Longrightarrow> pack_store B s' \<Longrightarrow> compacted Z B referenced s s'"
  by (auto simp: compacted_def extends_def readable_def loose_good_def)

lemma compactBatch_compacted:
  assumes run: "compactBatch Z io n t cmp batch res s = (r, res', s')" and S: "pack_store B s"
    and C: "new_packs cmp (loose_contents s) \<subseteq> B" "distinct (map cc_sum batch)" "\<forall>c \<in> set batch. hexDigest (cc_sum c) \<in> referenced"
  shows "compacted Z B referenced s s'"
proof -
  let ?st = "stagePack CompactStaging (cm_create io n) (cm_finish io n) cmp (\<lambda>dg. readLoose (cm_loose io dg) dg s) (\<lambda>c e. None) batch"
  have rd: "sha256 data = dg \<and> data \<in> loose_contents s" if "readLoose fails dg s = Inr data" for fails dg data
    using that by (auto simp: readLoose_def loose_contents_def split: if_splits option.splits)
  show ?thesis
  proof (cases "\<exists>f es out info s1. ?st = Inr (Some (f, es), out) \<and> es \<noteq> [] \<and> publishPack Z (cm_pub io n) t f es s = (Inr info, s1)")
    case True
    then obtain f es out info s1 where st: "?st = Inr (Some (f, es), out)" "es \<noteq> []" "publishPack Z (cm_pub io n) t f es s = (Inr info, s1)" by blast
    note P = stagePack_compact [OF st(1) rd C(2,1)]
    note Q = publishPack_serves [OF st(3) S P(1)]
    have "\<forall>e \<in> set es. packed_good Z {} (pe_sha e) s1 \<and> hexDigest (pe_sha e) \<in> referenced" using Q(3) P(2) C(3) by fastforce
    note R = removePacked_compacted [OF _ Q(1) this]
    obtain q res2 s2 res1 where rp: "removePacked io es res1 s1 = (q, res2, s2)"
      and s': "s' = s2 \<or> s' = fold (removeShard io) (cm_dirs io (remdups (map (\<lambda>e. shardDir (pe_sha e)) es))) s2"
      using run st by (auto simp: compactBatch_def Let_def split: prod.split_asm sum.split_asm)
    have "compacted Z B referenced s s2"
      by (rule compacted_trans [OF extends_compacted [OF Q(2,1)] R [OF rp]])
    moreover from this have "pack_store B s2" by (simp add: compacted_def)
    ultimately show ?thesis using s' compacted_trans [OF _ removeShards_compacted] by metis
  next
    case False
    have "s' = s \<or> (\<exists>f es out e. ?st = Inr (Some (f, es), out) \<and> publishPack Z (cm_pub io n) t f es s = (Inl e, s'))"
      using run False by (auto simp: compactBatch_def Let_def split: sum.split_asm option.split_asm prod.split_asm if_split_asm)
    then show ?thesis
    proof
      assume "s' = s"
      then show ?thesis using compacted_refl [OF S] by simp
    next
      assume "\<exists>f es out e. ?st = Inr (Some (f, es), out) \<and> publishPack Z (cm_pub io n) t f es s = (Inl e, s')"
      then obtain f es out e where st: "?st = Inr (Some (f, es), out)" "publishPack Z (cm_pub io n) t f es s = (Inl e, s')" by blast
      have "f \<in> B" by (rule stagePack_compact(1) [OF st(1) rd C(2,1)])
      from publishPack_linked [OF st(2) S this] show ?thesis using extends_compacted by blast
    qed
  qed
qed

lemma compactBatches_compacted:
  assumes "compactBatches Z io n t cmp bs res s = (r, res', s')" "pack_store B s" "new_packs cmp (loose_contents s) \<subseteq> B"
    and "\<forall>b \<in> set bs. distinct (map cc_sum b) \<and> (\<forall>c \<in> set b. hexDigest (cc_sum c) \<in> referenced)"
  shows "compacted Z B referenced s s'"
  using assms
proof (induction bs arbitrary: n res s)
  case Nil
  then show ?case by (simp add: compacted_refl)
next
  case (Cons b bs)
  obtain q res1 s1 where b: "compactBatch Z io n t cmp b res s = (q, res1, s1)" by (metis prod_cases3)
  have C: "compacted Z B referenced s s1" by (rule compactBatch_compacted [OF b Cons.prems(2,3)]) (use Cons.prems(4) in simp_all)
  show ?case
  proof (cases q)
    case (Inl e)
    then show ?thesis using Cons.prems(1) b C by simp
  next
    case (Inr u)
    have "new_packs cmp (loose_contents s1) \<subseteq> B" using new_packs_mono [OF compacted_contents [OF C]] Cons.prems(3) by blast
    moreover have "pack_store B s1" using C by (simp add: compacted_def)
    ultimately have "compacted Z B referenced s1 s'" using Cons.IH Cons.prems(1,4) b Inr by simp
    then show ?thesis using C compacted_trans by blast
  qed
qed

lemma compactScan_spec:
  assumes "compactScan referenced res s = (redundant, cands, res')"
  shows "\<forall>c \<in> set redundant \<union> set cands. hexDigest (cc_sum c) \<in> referenced" "distinct (map cc_sum cands)"
proof -
  let ?live = "filter (\<lambda>dg. hexDigest dg \<in> referenced) (sorted_keys (cs_loose s))"
  have e: "redundant = map (candidate s) (filter (\<lambda>dg. ps_lookup (cs_packs s) dg \<noteq> None) ?live)"
    "cands = filter packable_size (map (candidate s) (filter (\<lambda>dg. ps_lookup (cs_packs s) dg = None) ?live))"
    using assms by (simp_all add: compactScan_def Let_def)
  have k: "cc_sum (candidate s dg) = dg" for dg by (simp add: candidate_def)
  show "\<forall>c \<in> set redundant \<union> set cands. hexDigest (cc_sum c) \<in> referenced" by (auto simp: e k)
  have "map cc_sum (map (candidate s) ds) = ds" for ds by (simp add: k comp_def)
  then have "distinct (map cc_sum (map (candidate s) (filter (\<lambda>dg. ps_lookup (cs_packs s) dg = None) ?live)))"
    by (simp only: distinct_filter distinct_sorted_keys)
  then show "distinct (map cc_sum cands)" unfolding e(2) by (rule distinct_map_filter)
qed

lemma planned_batches:
  assumes "planPackBatches cs target mn = (batches, deferred)" "distinct (map cc_sum cs)" "\<forall>c \<in> set cs. P (cc_sum c)"
  shows "\<forall>b \<in> set batches. distinct (map cc_sum b) \<and> (\<forall>c \<in> set b. P (cc_sum c))"
proof -
  have "concat batches @ deferred = cs" by (rule planPackBatches_concat [OF assms(1)])
  then have d: "distinct (map cc_sum (concat batches))" "\<forall>c \<in> set (concat batches). P (cc_sum c)" using assms(2,3) by auto
  then show ?thesis using distinct_batch [OF d(1)] by auto
qed

lemma ordered_candidates:
  assumes "localityOrder cands refs = (out, n)" "distinct (map cc_sum cands)"
  shows "distinct (map cc_sum out)" "cc_sum ` set out = cc_sum ` set cands"
proof -
  let ?F = "firstRefs (cc_sum ` set cands) refs []"
  have F: "distinct ?F" "set ?F \<subseteq> cc_sum ` set cands" using firstRefs_set [of "[]" "cc_sum ` set cands" refs] by simp_all
  have m: "map cc_sum out = ?F @ sort (filter (\<lambda>dg. dg \<notin> set ?F) (map cc_sum cands))" using localityOrder_spec [OF assms(2,1)] by blast
  then show "distinct (map cc_sum out)" using F(1) assms(2) by auto
  have "set (map cc_sum out) = cc_sum ` set cands" unfolding m using F(2) by auto
  then show "cc_sum ` set out = cc_sum ` set cands" by simp
qed

lemma compact_cases:
  assumes "compact Z io referenced walk opt s = (r, res, s')"
  obtains (same) "s' = s"
  | (ran) redundant cands res1 ordered ranked batches deferred res3 r4 res4 s1 where "\<not> co_DryRun opt"
      "compactScan referenced (empty_compact\<lparr>cp_DryRun := co_DryRun opt, cp_Tier := tierString (co_Tier opt)\<rparr>) s = (redundant, cands, res1)"
      "(\<exists>refs. localityOrder cands refs = (ordered, ranked)) \<or> ordered = cands"
      "planPackBatches ordered (co_TargetBytes opt) (co_MinBytes opt) = (batches, deferred)"
      "compactRedundant Z io redundant res3 s = (r4, res4, s1)"
      "s' = s1 \<or> compactBatches Z io 0 (co_Tier opt) (newCompressor Z (co_Compress opt)) batches res4 s1 = (r, res, s')"
proof (cases "co_TargetBytes opt \<le> 0 \<or> cm_walk io \<or> co_DryRun opt")
  case True
  then have "s' = s" using assms by (auto simp: compact_def Let_def split: if_split_asm sum.split_asm prod.split_asm)
  then show ?thesis by (rule same)
next
  case False
  obtain redundant cands res1 where sc: "compactScan referenced (empty_compact\<lparr>cp_DryRun := co_DryRun opt, cp_Tier := tierString (co_Tier opt)\<rparr>) s
    = (redundant, cands, res1)" by (metis prod_cases3)
  let ?ord = "if co_Layout opt = LayoutLocality \<and> length cands > 1
    then (case walk of Inl e \<Rightarrow> Inl e | Inr refs \<Rightarrow> Inr (localityOrder cands refs)) else Inr (cands, 0)"
  show ?thesis
  proof (cases ?ord)
    case (Inl e)
    then have "s' = s" using assms False sc by (simp add: compact_def Let_def)
    then show ?thesis by (rule same)
  next
    case (Inr onr)
    obtain ordered rk where o: "?ord = Inr (ordered, rk)" using Inr by (cases onr) auto
    obtain batches deferred where pl: "planPackBatches ordered (co_TargetBytes opt) (co_MinBytes opt) = (batches, deferred)" by fastforce
    have ord: "(\<exists>refs. localityOrder cands refs = (ordered, rk)) \<or> ordered = cands" using o by (auto split: if_split_asm sum.split_asm)
    let ?res3 = "res1\<lparr>cp_Layout := layoutString (co_Layout opt)\<rparr>\<lparr>cp_LocalityRanked := rk, cp_DeferredChunks := length deferred\<rparr>"
    obtain r4 res4 s1 where cr: "compactRedundant Z io redundant ?res3 s = (r4, res4, s1)" by (metis prod_cases3)
    have "s' = s1 \<or> compactBatches Z io 0 (co_Tier opt) (newCompressor Z (co_Compress opt)) batches res4 s1 = (r, res, s')"
      using assms False sc o pl cr unfolding compact_def Let_def by (simp split: sum.split_asm)
    then show ?thesis using ran [OF _ sc ord pl cr] False by blast
  qed
qed

lemma compact_compacted:
  assumes run: "compact Z io referenced walk opt s = (r, res, s')" and S: "pack_store B s"
    and B: "new_packs (newCompressor Z (co_Compress opt)) (loose_contents s) \<subseteq> B"
  shows "compacted Z B referenced s s'"
  using run
proof (cases rule: compact_cases)
  case same
  then show ?thesis using compacted_refl [OF S] by simp
next
  case (ran redundant cands res1 ordered ranked batches deferred res3 r4 res4 s1)
  note C = compactScan_spec [OF ran(2)]
  have R: "compacted Z B referenced s s1" by (rule compactRedundant_compacted [OF ran(5) S]) (use C(1) in blast)
  have "distinct (map cc_sum ordered) \<and> cc_sum ` set ordered = cc_sum ` set cands"
    using ran(3)
  proof
    assume "\<exists>refs. localityOrder cands refs = (ordered, ranked)"
    then obtain refs where o: "localityOrder cands refs = (ordered, ranked)" by blast
    show ?thesis using ordered_candidates [OF o C(2)] by simp
  next
    assume "ordered = cands"
    then show ?thesis using C(2) by simp
  qed
  moreover from this have "\<forall>c \<in> set ordered. hexDigest (cc_sum c) \<in> referenced" using C(1) by (metis UnCI imageE imageI)
  ultimately have bs: "\<forall>b \<in> set batches. distinct (map cc_sum b) \<and> (\<forall>c \<in> set b. hexDigest (cc_sum c) \<in> referenced)"
    using planned_batches [OF ran(4), where P = "\<lambda>dg. hexDigest dg \<in> referenced"] by blast
  show ?thesis
    using ran(6)
  proof
    assume "s' = s1"
    then show ?thesis using R by simp
  next
    assume b: "compactBatches Z io 0 (co_Tier opt) (newCompressor Z (co_Compress opt)) batches res4 s1 = (r, res, s')"
    have "new_packs (newCompressor Z (co_Compress opt)) (loose_contents s1) \<subseteq> B" using new_packs_mono [OF compacted_contents [OF R]] B by blast
    moreover have "pack_store B s1" using R by (simp add: compacted_def)
    ultimately have "compacted Z B referenced s1 s'" using compactBatches_compacted [OF b] bs by blast
    then show ?thesis using compacted_trans [OF R] by blast
  qed
qed

section \<open>Properties\<close>

text \<open>C32: Locality layout is the order of first references. Of candidates with different digests, those
  that a walked root references come first, each where the walk meets it first, and the others follow
  in digest order; the count is that of the referenced ones. References that are not digests or
  name no candidate have no effect.\<close>

theorem locality_is_first_reference_order:
  assumes "distinct (map cc_sum cands)" "localityOrder cands refs = (out, n)"
  shows "map cc_sum out = firstRefs (cc_sum ` set cands) refs []
      @ sort (filter (\<lambda>dg. dg \<notin> set (firstRefs (cc_sum ` set cands) refs [])) (map cc_sum cands))
    \<and> n = length (firstRefs (cc_sum ` set cands) refs [])"
  using assms by (rule localityOrder_spec)

theorem locality_is_first_reference_order_witness:
  "map cc_sum (fst (localityOrder [\<lparr>cc_sum = 5, cc_size = 1, cc_rank = 0\<rparr>, \<lparr>cc_sum = 3, cc_size = 1, cc_rank = 0\<rparr>, \<lparr>cc_sum = 9, cc_size = 1, cc_rank = 0\<rparr>]
      [\<lparr>cr_SHA256 = hexDigest 9, cr_Length = 1\<rparr>, \<lparr>cr_SHA256 = hexDigest 7, cr_Length = 1\<rparr>, \<lparr>cr_SHA256 = hexDigest 9, cr_Length = 1\<rparr>])) = [9, 3, 5]"
proof -
  let ?cands = "[\<lparr>cc_sum = 5, cc_size = 1, cc_rank = 0\<rparr>, \<lparr>cc_sum = 3, cc_size = 1, cc_rank = 0\<rparr>, \<lparr>cc_sum = 9, cc_size = 1, cc_rank = 0\<rparr>]"
  let ?refs = "[\<lparr>cr_SHA256 = hexDigest 9, cr_Length = 1\<rparr>, \<lparr>cr_SHA256 = hexDigest 7, cr_Length = 1\<rparr>, \<lparr>cr_SHA256 = hexDigest 9, cr_Length = 1\<rparr>]"
  obtain out n where run: "localityOrder ?cands ?refs = (out, n)" by fastforce
  have "distinct (map cc_sum ?cands)" by simp
  from locality_is_first_reference_order [OF this run] show ?thesis unfolding run fst_conv by (simp add: hexDigest_def)
qed

text \<open>C31: Compaction loses nothing. For every option, layout and failing call, a chunk that could be read can still be
  read, from the loose area or an indexed pack; the locator matches the packs on disk and no published pack goes. A loose
  file, good or corrupt, is only removed if its chunk is referenced and a published pack has a copy of it that reads back with its
  digest; every other loose file is left as it is. A dry run changes nothing.\<close>

theorem compaction_keeps_chunks_readable:
  assumes "compact Z io referenced walk opt s = (r, res, s')" "pack_store B s"
    and "new_packs (newCompressor Z (co_Compress opt)) (loose_contents s) \<subseteq> B"
  shows "pack_store B s' \<and> (\<forall>dg. is_ok (casRead Z False dg s) \<longrightarrow> is_ok (casRead Z False dg s'))
    \<and> (\<forall>t f es. published s t f es \<longrightarrow> published s' t f es)
    \<and> (\<forall>dg. fmlookup (cs_loose s') dg \<noteq> fmlookup (cs_loose s) dg \<longrightarrow>
         fmlookup (cs_loose s') dg = None \<and> hexDigest dg \<in> referenced
         \<and> (\<exists>t f es e d. published s' t f es \<and> e \<in> set es \<and> pe_sha e = dg \<and> readPackRecord Z f e = Inr d \<and> sha256 d = dg))
    \<and> (co_DryRun opt \<longrightarrow> s' = s)"
proof -
  have dry: "s' = s" if "co_DryRun opt"
    using assms(1)
  proof (cases rule: compact_cases)
    case ran
    then show ?thesis using that by blast
  qed
  note C = compact_compacted [OF assms, unfolded compacted_def]
  have "\<exists>t f es e d. published s' t f es \<and> e \<in> set es \<and> pe_sha e = dg \<and> readPackRecord Z f e = Inr d \<and> sha256 d = dg"
    if "packed_on_disk Z dg s'" for dg
    using that readPackRecord_sound unfolding packed_on_disk_def by metis
  then show ?thesis using dry C unfolding readable_read by blast
qed

theorem compaction_keeps_chunks_readable_witness:
  "\<forall>io walk. is_ok (casRead stored_flate False (sha256 [65])
     (snd (snd (compact stored_flate io {hexDigest (sha256 [65])} walk (defaultCompactOptions\<lparr>co_MinBytes := 1\<rparr>) (sy_cas (st_sys live_site))))))"
proof (intro allI)
  fix io walk
  let ?s = "sy_cas (st_sys live_site)"
  obtain r res s' where run: "compact stored_flate io {hexDigest (sha256 [65])} walk (defaultCompactOptions\<lparr>co_MinBytes := 1\<rparr>) ?s = (r, res, s')"
    by (metis prod_cases3)
  have "loose_contents ?s \<subseteq> held stored_flate ?s" by (auto simp: loose_contents_def held_def)
  moreover have "newCompressor stored_flate (co_Compress (defaultCompactOptions\<lparr>co_MinBytes := 1\<rparr>)) = Some stored_flate"
    by (simp add: newCompressor_def defaultCompactOptions_def)
  ultimately have "new_packs (newCompressor stored_flate (co_Compress (defaultCompactOptions\<lparr>co_MinBytes := 1\<rparr>))) (loose_contents ?s) \<subseteq> {flate_file}"
    using new_packs_mono live_site_store(2) subset_trans by metis
  from compaction_keeps_chunks_readable [OF run live_site_store(1) this]
  have "is_ok (casRead stored_flate False (sha256 [65]) ?s) \<longrightarrow> is_ok (casRead stored_flate False (sha256 [65]) s')" by blast
  moreover have "is_ok (casRead stored_flate False (sha256 [65]) ?s)"
    unfolding readable_read by (simp add: readable_def loose_good_def live_site_def)
  ultimately show "is_ok (casRead stored_flate False (sha256 [65]) (snd (snd (compact stored_flate io {hexDigest (sha256 [65])} walk
      (defaultCompactOptions\<lparr>co_MinBytes := 1\<rparr>) ?s))))" by (simp add: run)
qed

end
