(* ===== verification/Verify.thy ===== *)
theory Verify
  imports Gc Durability
begin

text \<open>
  The integrity check of a store (\<^verbatim>\<open>zeros3.go\<close>, section 13): \<^verbatim>\<open>Verify\<close> over the reachability scan, the packs, and, when it is
  deep, the whole content of every referenced manifest. Shown here: a deep check without issues means that
  every live object can be read back in full and hashes to the digest its manifest names, and that every indexed pack has the
  layout and record headers of its index; and a store of
  an unsupported format passes the check.
\<close>

section \<open>The result\<close>

text \<open>The fields of the embedded \<^verbatim>\<open>issueTracker\<close> come first. There are no optional representations, so their counters are left out.\<close>

record VerifyResult =
  vr_Missing :: nat
  vr_Corrupt :: nat
  vr_Invalid :: nat
  vr_Issues :: "VerifyIssue list"
  vr_Deep :: bool
  vr_JournalFramesChecked :: nat
  vr_JournalOK :: bool
  vr_ManifestsChecked :: nat
  vr_ChunksChecked :: nat
  vr_PacksChecked :: nat
  vr_CurrentRootCount :: nat
  vr_HistoricalRootCount :: nat
  vr_MultipartRootCount :: nat
  vr_SnapshotRootCount :: nat
  vr_UnreachableManifests :: nat
  vr_UnreachableChunks :: nat
  vr_ReclaimableBytes :: nat

definition empty_verify :: "bool \<Rightarrow> VerifyResult" where
  "empty_verify deep =
     \<lparr>vr_Missing = 0, vr_Corrupt = 0, vr_Invalid = 0, vr_Issues = [], vr_Deep = deep, vr_JournalFramesChecked = 0, vr_JournalOK = False,
      vr_ManifestsChecked = 0, vr_ChunksChecked = 0, vr_PacksChecked = 0, vr_CurrentRootCount = 0, vr_HistoricalRootCount = 0,
      vr_MultipartRootCount = 0, vr_SnapshotRootCount = 0, vr_UnreachableManifests = 0, vr_UnreachableChunks = 0,
      vr_ReclaimableBytes = 0\<rparr>"

definition vr_addIssue :: "issue_kind \<Rightarrow> string \<Rightarrow> VerifyResult \<Rightarrow> VerifyResult" where
  "vr_addIssue kind subject res =
     (let res1 = (case kind of
          IssueMissing \<Rightarrow> res\<lparr>vr_Missing := vr_Missing res + 1\<rparr>
        | IssueCorrupt \<Rightarrow> res\<lparr>vr_Corrupt := vr_Corrupt res + 1\<rparr>
        | IssueInvalid \<Rightarrow> res\<lparr>vr_Invalid := vr_Invalid res + 1\<rparr>)
      in res1\<lparr>vr_Issues := vr_Issues res @ [\<lparr>vi_Kind = kind, vi_Subject = subject\<rparr>]\<rparr>)"

definition vr_tracker_ok :: "VerifyResult \<Rightarrow> bool" where
  "vr_tracker_ok res \<longleftrightarrow> vr_Missing res = 0 \<and> vr_Corrupt res = 0 \<and> vr_Invalid res = 0"

definition verify_OK :: "VerifyResult \<Rightarrow> bool" where
  "verify_OK res \<longleftrightarrow> vr_tracker_ok res \<and> vr_JournalOK res"

text \<open>
  What the outside world decides: the failures of the scan, whether the tier roots are not the expected ones
  (their markers are outside the state), which packs cannot be opened, which manifests and chunks cannot be
  read in the last pass, the order in which that pass visits the manifests, and which of the closing walks fail.
\<close>

record verify_io =
  vf_reach :: reach_io
  vf_tiers :: bool
  vf_pack :: "string \<Rightarrow> bool"
  vf_man :: "string \<Rightarrow> bool"
  vf_read :: "digest \<Rightarrow> bool"
  vf_order :: "string list \<Rightarrow> string list"
  vf_walkChunks :: bool
  vf_walkManifests :: bool
  vf_tmpBytes :: bool

datatype verify_error = VerifyReach err | VerifyScanChunks | VerifyScanManifests | VerifyScanTmp

section \<open>Packs\<close>

definition packLabel :: "packInfo \<Rightarrow> string" where
  "packLabel p = (if pi_tier p = TierHot then pi_id p else tierString (pi_tier p) @ ''/'' @ pi_id p)"

text \<open>The last component of a path.\<close>

definition path_base :: "string \<Rightarrow> string" where
  "path_base path = rev (takeWhile (\<lambda>c. c \<noteq> CHR ''/'') (rev path))"

definition checkPack :: "(string \<Rightarrow> bool) \<Rightarrow> bool \<Rightarrow> casState \<Rightarrow> packInfo \<Rightarrow> pack_error + unit" where
  "checkPack fails deep cas p =
     (if fails (pi_path p) then Inl PackOpen
      else case fmlookup (cs_packFiles cas) (pi_path p) of
        None \<Rightarrow> Inl PackOpen
      | Some f \<Rightarrow>
          if deep then checkPackRecords (pi_path p) (path_base (pi_path p)) f
          else bind_result (loadPackFile (pi_path p) (path_base (pi_path p)) f) (\<lambda>_. Inr ()))"

definition verifyPack :: "(string \<Rightarrow> bool) \<Rightarrow> bool \<Rightarrow> casState \<Rightarrow> packInfo \<Rightarrow> VerifyResult \<Rightarrow> VerifyResult" where
  "verifyPack fails deep cas p res =
     (let res1 = res\<lparr>vr_PacksChecked := vr_PacksChecked res + 1\<rparr> in
      case checkPack fails deep cas p of
        Inl _ \<Rightarrow> vr_addIssue IssueCorrupt (''pack '' @ packLabel p) res1
      | Inr _ \<Rightarrow> res1)"

definition verifyPacks :: "verify_io \<Rightarrow> bool \<Rightarrow> casState \<Rightarrow> VerifyResult \<Rightarrow> VerifyResult" where
  "verifyPacks io deep cas res =
     (let st = cs_packs cas;
          res1 = (if vf_tiers io then vr_addIssue IssueCorrupt ''tiers'' res else res);
          res2 = fold (\<lambda>b. vr_addIssue IssueCorrupt (''pack '' @ fst b)) (ps_bad st) res1;
          res3 = fold (\<lambda>_. vr_addIssue IssueCorrupt ''packs'') (ps_clash st) res2
      in fold (verifyPack (vf_pack io) deep cas) (ps_packs st) res3)"

section \<open>Whole objects\<close>

text \<open>The chunks of a manifest, read in order into the hash. The digests were validated by the scan.\<close>

fun streamChunks :: "flate_codec \<Rightarrow> (digest \<Rightarrow> bool) \<Rightarrow> casState \<Rightarrow> chunkRef list \<Rightarrow> bytes \<Rightarrow> bytes option" where
  "streamChunks Z fails cas [] acc = Some acc"
| "streamChunks Z fails cas (c # cs) acc =
     (let dg = (case decodeHexSHA256 (cr_SHA256 c) of None \<Rightarrow> 0 | Some dg \<Rightarrow> dg) in
      case casRead Z (fails dg) dg cas of
        Inl _ \<Rightarrow> None
      | Inr data \<Rightarrow> streamChunks Z fails cas cs (acc @ data))"

definition verifyWhole :: "man_codec \<Rightarrow> flate_codec \<Rightarrow> verify_io \<Rightarrow> system \<Rightarrow> string set \<Rightarrow> string \<Rightarrow> VerifyResult \<Rightarrow> VerifyResult" where
  "verifyWhole M Z io sy valid u res =
     (let subject = ''manifest '' @ u in
      case readManifest M (vf_man io) u sy of
        Inl _ \<Rightarrow> vr_addIssue IssueInvalid subject res
      | Inr (man, _) \<Rightarrow>
          (case decodeHexSHA256 (man_ObjectSHA256 man) of
             None \<Rightarrow> vr_addIssue IssueInvalid subject res
           | Some wanted \<Rightarrow>
               if \<exists>c \<in> set (man_Chunks man). cr_SHA256 c \<notin> valid then res
               else (case streamChunks Z (vf_read io) (sy_cas sy) (man_Chunks man) [] of
                   None \<Rightarrow> vr_addIssue IssueCorrupt subject res
                 | Some data \<Rightarrow>
                     if int (length data) \<noteq> man_TotalLength man then vr_addIssue IssueCorrupt subject res
                     else if sha256 data \<noteq> wanted then vr_addIssue IssueCorrupt subject res
                     else res)))"

section \<open>Verify\<close>

definition scannedResult :: "reachabilityResult \<Rightarrow> VerifyResult \<Rightarrow> VerifyResult" where
  "scannedResult rr res =
     res\<lparr>vr_JournalFramesChecked := rr_JournalFramesChecked rr, vr_JournalOK := rr_JournalOK rr, vr_ManifestsChecked := rr_ManifestsChecked rr,
         vr_ChunksChecked := rr_ChunksChecked rr, vr_CurrentRootCount := rr_CurrentRootCount rr,
         vr_HistoricalRootCount := rr_HistoricalRootCount rr, vr_MultipartRootCount := rr_MultipartRootCount rr,
         vr_SnapshotRootCount := rr_SnapshotRootCount rr, vr_Missing := rr_Missing rr, vr_Corrupt := rr_Corrupt rr,
         vr_Invalid := rr_Invalid rr, vr_Issues := vr_Issues res @ rr_Issues rr\<rparr>"

definition unreachableAccounting :: "verify_io \<Rightarrow> reachabilityResult \<Rightarrow> system \<Rightarrow> VerifyResult \<Rightarrow> verify_error + VerifyResult" where
  "unreachableAccounting io rr sy res =
     (let cas = sy_cas sy; files = sy_manifests sy;
          deadChunks = filter (\<lambda>dg. hexDigest dg \<notin> rr_ReferencedChunks rr) (sorted_keys (cs_loose cas));
          deadManifests = filter (\<lambda>u. u \<notin> rr_ReferencedManifests rr) (sorted_keys files) in
      if vf_walkChunks io then Inl VerifyScanChunks
      else if vf_walkManifests io then Inl VerifyScanManifests
      else if vf_tmpBytes io then Inl VerifyScanTmp
      else Inr (res\<lparr>vr_UnreachableManifests := length deadManifests, vr_UnreachableChunks := length deadChunks,
                   vr_ReclaimableBytes := fileBytes (cs_loose cas) deadChunks + fileBytes files deadManifests + tmpBytes cas\<rparr>))"

definition verifyStore :: "man_codec \<Rightarrow> snap_codec \<Rightarrow> flate_codec \<Rightarrow> verify_io \<Rightarrow> bool \<Rightarrow> site \<Rightarrow> verify_error + VerifyResult" where
  "verifyStore M K Z io deep s =
     (let sy = st_sys s; fmt = s_format (sy_store sy);
          res1 = (if \<not> supportedStoreFormat (sf_StoreFormatVersion fmt) \<or> sf_CDCFormatVersion fmt \<noteq> cdcFormatVersion
                    \<or> sf_HashAlgorithm fmt \<noteq> ''sha256''
                  then vr_addIssue IssueInvalid ''FORMAT.json'' (empty_verify deep) else empty_verify deep) in
      case computeReachability M K Z (vf_reach io) deep s of
        Inl e \<Rightarrow> Inl (VerifyReach e)
      | Inr rr \<Rightarrow>
          let res2 = verifyPacks io deep (sy_cas sy) (scannedResult rr res1);
              res3 = (if deep then fold (verifyWhole M Z io sy (rr_ValidChunks rr)) (vf_order io (sorted_list_of_set (rr_ReferencedManifests rr))) res2
                      else res2)
          in unreachableAccounting io rr sy res3)"

section \<open>Issues only accumulate\<close>

lemma vr_addIssue_not_ok [simp]: "\<not> vr_tracker_ok (vr_addIssue kind subject res)"
  by (cases kind) (simp_all add: vr_addIssue_def vr_tracker_ok_def Let_def)

text \<open>A step of the check leaves a clean result only if the result was clean and its condition holds.\<close>

definition checks :: "(VerifyResult \<Rightarrow> VerifyResult) \<Rightarrow> bool \<Rightarrow> bool" where
  "checks f P \<longleftrightarrow> (\<forall>res. vr_tracker_ok (f res) \<longrightarrow> vr_tracker_ok res \<and> P)
     \<and> (\<forall>res. vr_JournalOK (f res) \<longleftrightarrow> vr_JournalOK res)"

lemma vr_addIssue_journal [simp]: "vr_JournalOK (vr_addIssue kind subject res) \<longleftrightarrow> vr_JournalOK res"
  by (cases kind) (simp_all add: vr_addIssue_def Let_def)

lemma checks_issue: "checks (vr_addIssue kind subject) P"
  by (simp add: checks_def)

lemma checks_after: "checks f P \<Longrightarrow> checks g Q \<Longrightarrow> checks (\<lambda>res. g (f res)) (P \<and> Q)"
  unfolding checks_def by blast

lemma checks_any: "checks f P \<Longrightarrow> checks f True"
  unfolding checks_def by blast

lemma checks_fold: "(\<And>x. x \<in> set xs \<Longrightarrow> checks (f x) (P x)) \<Longrightarrow> checks (fold f xs) (\<forall>x \<in> set xs. P x)"
proof (induction xs)
  case (Cons x xs)
  have "checks (\<lambda>res. fold f xs (f x res)) (P x \<and> (\<forall>x \<in> set xs. P x))"
    by (rule checks_after) (use Cons in simp_all)
  moreover have "fold f (x # xs) = (\<lambda>res. fold f xs (f x res))" by (rule ext) simp
  ultimately show ?case by simp
qed (simp add: checks_def)

definition pack_checked :: "(string \<Rightarrow> bool) \<Rightarrow> bool \<Rightarrow> casState \<Rightarrow> packInfo \<Rightarrow> bool" where
  "pack_checked fails deep cas p \<longleftrightarrow> is_ok (checkPack fails deep cas p)"

lemma verifyPack_checks: "checks (verifyPack fails deep cas p) (pack_checked fails deep cas p)"
proof -
  have "vr_tracker_ok (res\<lparr>vr_PacksChecked := n\<rparr>) \<longleftrightarrow> vr_tracker_ok res" for res n by (simp add: vr_tracker_ok_def)
  then show ?thesis by (auto simp: checks_def verifyPack_def pack_checked_def Let_def split: sum.splits)
qed

lemma no_issues: "checks (fold (\<lambda>x. vr_addIssue IssueCorrupt (subject x)) xs) (xs = [])"
proof -
  have "checks (fold (\<lambda>x. vr_addIssue IssueCorrupt (subject x)) xs) (\<forall>x \<in> set xs. False)"
    by (rule checks_fold) (rule checks_issue)
  moreover have "(\<forall>x \<in> set xs. False) \<longleftrightarrow> xs = []" by (cases xs) auto
  ultimately show ?thesis by (simp only:)
qed

lemma verifyPacks_checks:
  "checks (verifyPacks io deep cas) (((\<not> vf_tiers io \<and> ps_bad (cs_packs cas) = []) \<and> ps_clash (cs_packs cas) = [])
     \<and> (\<forall>p \<in> set (ps_packs (cs_packs cas)). pack_checked (vf_pack io) deep cas p))"
proof -
  have d: "checks (\<lambda>res. if vf_tiers io then vr_addIssue IssueCorrupt ''tiers'' res else res) (\<not> vf_tiers io)"
    by (simp add: checks_def)
  have c: "checks (fold (verifyPack (vf_pack io) deep cas) ps) (\<forall>p \<in> set ps. pack_checked (vf_pack io) deep cas p)" for ps
    by (rule checks_fold) (rule verifyPack_checks)
  have "verifyPacks io deep cas = (\<lambda>res. fold (verifyPack (vf_pack io) deep cas) (ps_packs (cs_packs cas))
      (fold (\<lambda>_. vr_addIssue IssueCorrupt ''packs'') (ps_clash (cs_packs cas))
        (fold (\<lambda>b. vr_addIssue IssueCorrupt (''pack '' @ fst b)) (ps_bad (cs_packs cas))
          (if vf_tiers io then vr_addIssue IssueCorrupt ''tiers'' res else res))))"
    by (rule ext) (simp only: verifyPacks_def Let_def)
  then show ?thesis
    using checks_after [OF checks_after [OF checks_after [OF d no_issues] no_issues] c] by (simp only:)
qed

text \<open>What the last pass confirms about a manifest: its chunks, read in order, are the object it names.\<close>

definition content_of :: "flate_codec \<Rightarrow> (digest \<Rightarrow> bool) \<Rightarrow> casState \<Rightarrow> chunkRef \<Rightarrow> bytes \<Rightarrow> bool" where
  "content_of Z fails cas c p \<longleftrightarrow> (\<exists>dg. decodeHexSHA256 (cr_SHA256 c) = Some dg \<and> casRead Z (fails dg) dg cas = Inr p \<and> sha256 p = dg)"

definition whole_object :: "flate_codec \<Rightarrow> (digest \<Rightarrow> bool) \<Rightarrow> casState \<Rightarrow> manifestV1 \<Rightarrow> bool" where
  "whole_object Z fails cas man \<longleftrightarrow> (\<exists>parts. list_all2 (content_of Z fails cas) (man_Chunks man) parts
     \<and> decodeHexSHA256 (man_ObjectSHA256 man) = Some (sha256 (concat parts)) \<and> int (length (concat parts)) = man_TotalLength man)"

lemma streamChunks_parts:
  "streamChunks Z fails cas cs acc = Some data \<Longrightarrow> \<forall>c \<in> set cs. decodeHexSHA256 (cr_SHA256 c) \<noteq> None \<Longrightarrow>
     \<exists>parts. list_all2 (content_of Z fails cas) cs parts \<and> data = acc @ concat parts"
proof (induction cs arbitrary: acc)
  case (Cons c cs)
  obtain dg where dg: "decodeHexSHA256 (cr_SHA256 c) = Some dg" using Cons.prems(2) by auto
  obtain p where p: "casRead Z (fails dg) dg cas = Inr p" and k: "streamChunks Z fails cas cs (acc @ p) = Some data"
    using Cons.prems(1) dg by (auto simp: Let_def split: sum.splits)
  have "sha256 p = dg" using p casRead_served served_sound by blast
  then have "content_of Z fails cas c p" using dg p by (simp add: content_of_def)
  moreover obtain parts where "list_all2 (content_of Z fails cas) cs parts" "data = (acc @ p) @ concat parts"
    using Cons.IH [OF k] Cons.prems(2) by auto
  ultimately show ?case by (intro exI [of _ "p # parts"]) simp
qed simp

lemma verifyWhole_checks:
  "checks (verifyWhole M Z io sy valid u) (\<exists>man data. fmlookup (sy_manifests sy) u = Some data \<and> mc_unmarshal M data = Some man
     \<and> ((\<forall>c \<in> set (man_Chunks man). cr_SHA256 c \<in> valid \<and> decodeHexSHA256 (cr_SHA256 c) \<noteq> None) \<longrightarrow>
          whole_object Z (vf_read io) (sy_cas sy) man))"
proof -
  have "\<exists>man data. fmlookup (sy_manifests sy) u = Some data \<and> mc_unmarshal M data = Some man
     \<and> ((\<forall>c \<in> set (man_Chunks man). cr_SHA256 c \<in> valid \<and> decodeHexSHA256 (cr_SHA256 c) \<noteq> None) \<longrightarrow>
          whole_object Z (vf_read io) (sy_cas sy) man)"
    if ok: "vr_tracker_ok (verifyWhole M Z io sy valid u res)" for res
  proof -
    obtain man data where rm: "readManifest M (vf_man io) u sy = Inr (man, data)"
      using ok by (cases "readManifest M (vf_man io) u sy") (auto simp: verifyWhole_def Let_def)
    then have m: "fmlookup (sy_manifests sy) u = Some data" "mc_unmarshal M data = Some man"
      by (auto simp: readManifest_def split: if_splits option.splits)
    have "whole_object Z (vf_read io) (sy_cas sy) man"
      if all: "\<forall>c \<in> set (man_Chunks man). cr_SHA256 c \<in> valid \<and> decodeHexSHA256 (cr_SHA256 c) \<noteq> None"
    proof -
      obtain wanted whole where w: "decodeHexSHA256 (man_ObjectSHA256 man) = Some wanted"
        and st: "streamChunks Z (vf_read io) (sy_cas sy) (man_Chunks man) [] = Some whole"
        and c: "int (length whole) = man_TotalLength man" "sha256 whole = wanted"
        using ok all rm by (auto simp: verifyWhole_def Let_def split: option.splits if_splits)
      from streamChunks_parts [OF st] all w c show ?thesis unfolding whole_object_def by auto
    qed
    with m show ?thesis by blast
  qed
  moreover have "vr_tracker_ok res" if "vr_tracker_ok (verifyWhole M Z io sy valid u res)" for res
    using that by (auto simp: verifyWhole_def Let_def split: sum.splits option.splits prod.splits if_splits)
  moreover have "vr_JournalOK (verifyWhole M Z io sy valid u res) \<longleftrightarrow> vr_JournalOK res" for res
    by (auto simp: verifyWhole_def Let_def split: sum.splits option.splits prod.splits)
  ultimately show ?thesis unfolding checks_def by blast
qed

section \<open>A clean check\<close>

lemma scannedResult_ok: "vr_tracker_ok (scannedResult rr res) \<longleftrightarrow> tracker_ok rr" "vr_JournalOK (scannedResult rr res) \<longleftrightarrow> rr_JournalOK rr"
  by (simp_all add: scannedResult_def vr_tracker_ok_def tracker_ok_def)

lemma accounting_ok:
  "unreachableAccounting io rr sy res = Inr res' \<Longrightarrow> vr_tracker_ok res' = vr_tracker_ok res \<and> vr_JournalOK res' = vr_JournalOK res
     \<and> vr_Issues res' = vr_Issues res"
  by (auto simp: unreachableAccounting_def vr_tracker_ok_def Let_def split: if_splits)

lemma verify_clean:
  assumes v: "verifyStore M K Z io True s = Inr res" and ok: "verify_OK res" and ord: "orders_ok (vf_reach io)"
    and perm: "\<And>xs. set (vf_order io xs) = set xs"
  shows "(\<exists>rr. computeReachability M K Z (vf_reach io) True s = Inr rr \<and> reach_OK rr)
    \<and> (\<forall>(u, sha) \<in> live_roots K s. \<exists>man. rooted M (sy_manifests (st_sys s)) u sha man
         \<and> whole_object Z (vf_read io) (sy_cas (st_sys s)) man)
    \<and> (\<forall>c \<in> live_refs s. \<exists>dg. decodeHexSHA256 (cr_SHA256 c) = Some dg \<and> chunk_present Z (vf_reach io) True (sy_cas (st_sys s)) dg)
    \<and> ps_bad (cs_packs (sy_cas (st_sys s))) = [] \<and> ps_clash (cs_packs (sy_cas (st_sys s))) = []
    \<and> (\<forall>p \<in> set (ps_packs (cs_packs (sy_cas (st_sys s)))). pack_checked (vf_pack io) True (sy_cas (st_sys s)) p)"
proof -
  define sy where "sy = st_sys s"
  obtain rr where rr: "computeReachability M K Z (vf_reach io) True s = Inr rr"
    using v by (cases "computeReachability M K Z (vf_reach io) True s") (auto simp: verifyStore_def Let_def)
  let ?us = "vf_order io (sorted_list_of_set (rr_ReferencedManifests rr))"
  let ?P = "\<lambda>u. \<exists>man data. fmlookup (sy_manifests sy) u = Some data \<and> mc_unmarshal M data = Some man
     \<and> ((\<forall>c \<in> set (man_Chunks man). cr_SHA256 c \<in> rr_ValidChunks rr \<and> decodeHexSHA256 (cr_SHA256 c) \<noteq> None) \<longrightarrow>
          whole_object Z (vf_read io) (sy_cas sy) man)"
  obtain res1 where a: "unreachableAccounting io rr sy (fold (verifyWhole M Z io sy (rr_ValidChunks rr)) ?us
      (verifyPacks io True (sy_cas sy) (scannedResult rr res1))) = Inr res"
    using v rr by (auto simp: verifyStore_def Let_def sy_def)
  have w: "checks (fold (verifyWhole M Z io sy (rr_ValidChunks rr)) ?us) (\<forall>u \<in> set ?us. ?P u)"
    by (rule checks_fold) (rule verifyWhole_checks)
  have both: "vr_tracker_ok (fold (verifyWhole M Z io sy (rr_ValidChunks rr)) ?us (verifyPacks io True (sy_cas sy) (scannedResult rr res1)))"
    "vr_JournalOK (fold (verifyWhole M Z io sy (rr_ValidChunks rr)) ?us (verifyPacks io True (sy_cas sy) (scannedResult rr res1)))"
    using accounting_ok [OF a] ok by (simp_all add: verify_OK_def)
  then have whole: "\<forall>u \<in> set ?us. ?P u" and p: "vr_tracker_ok (verifyPacks io True (sy_cas sy) (scannedResult rr res1))"
    "vr_JournalOK (verifyPacks io True (sy_cas sy) (scannedResult rr res1))" using w unfolding checks_def by blast+
  note pk = verifyPacks_checks [of io True "sy_cas sy", unfolded checks_def]
  have OK: "reach_OK rr" using p pk scannedResult_ok [of rr res1] by (simp add: reach_OK_def)
  note S = clean_scan [OF ord rr [unfolded computeReachability_def] OK, folded sy_def]
  have "fst ` live_roots K s \<subseteq> fmdom' (sy_manifests sy)"
    using S [THEN conjunct1] by (fastforce simp: rooted_def fmlookup_dom'_iff)
  then have "finite (rr_ReferencedManifests rr)" using S finite_subset [OF _ finite_fmdom'] by metis
  then have us: "set ?us = rr_ReferencedManifests rr" by (simp add: perm)
  have present: "\<exists>dg. decodeHexSHA256 sha = Some dg \<and> chunk_present Z (vf_reach io) True (sy_cas sy) dg"
    if "sha \<in> rr_ReferencedChunks rr" for sha using S that by blast
  have roots: "\<exists>man. rooted M (sy_manifests sy) u sha man \<and> whole_object Z (vf_read io) (sy_cas sy) man" if r: "(u, sha) \<in> live_roots K s" for u sha
  proof -
    obtain man where m: "rooted M (sy_manifests sy) u sha man" using S r by blast
    have "fst (u, sha) \<in> rr_ReferencedManifests rr" unfolding S [THEN conjunct2, THEN conjunct1] by (rule imageI [OF r])
    then have "?P u" using whole unfolding us by simp
    moreover from m obtain data where "fmlookup (sy_manifests sy) u = Some data" "mc_unmarshal M data = Some man" by (auto simp: rooted_def)
    moreover have "cr_SHA256 c \<in> rr_ReferencedChunks rr" if "c \<in> set (man_Chunks man)" for c
      using S r m that unfolding rooted_chunks_def by blast
    moreover note present S [THEN conjunct2, THEN conjunct2, THEN conjunct2, THEN conjunct1]
    ultimately have "whole_object Z (vf_read io) (sy_cas sy) man" by fastforce
    with m show ?thesis by blast
  qed
  have refs: "\<exists>dg. decodeHexSHA256 (cr_SHA256 c) = Some dg \<and> chunk_present Z (vf_reach io) True (sy_cas sy) dg"
    if "c \<in> live_refs s" for c
    by (rule present) (use S that in blast)
  have packs: "ps_bad (cs_packs (sy_cas sy)) = []" "ps_clash (cs_packs (sy_cas sy)) = []"
    "\<forall>p \<in> set (ps_packs (cs_packs (sy_cas sy))). pack_checked (vf_pack io) True (sy_cas sy) p"
    using p(1) pk by blast+
  have R: "\<forall>(u, sha) \<in> live_roots K s. \<exists>man. rooted M (sy_manifests sy) u sha man \<and> whole_object Z (vf_read io) (sy_cas sy) man"
    by (clarify, rule roots)
  have "\<forall>c \<in> live_refs s. \<exists>dg. decodeHexSHA256 (cr_SHA256 c) = Some dg \<and> chunk_present Z (vf_reach io) True (sy_cas sy) dg"
    by (intro ballI, rule refs)
  then show ?thesis unfolding sy_def [symmetric] by (intro conjI exI [of _ rr] rr OK packs R)
qed

section \<open>An unsupported format\<close>

text \<open>
  \<^verbatim>\<open>Verify\<close> records a format that it does not support as an issue, and then assigns the counters of the scan over it; so
  that issue is listed but not counted, and the check passes. (\<^verbatim>\<open>OpenStore\<close> refuses such a store before.) No later
  step looks at the issues listed before it.
\<close>

definition listed :: "VerifyIssue list \<Rightarrow> VerifyResult \<Rightarrow> VerifyResult" where
  "listed xs res = res\<lparr>vr_Issues := xs @ vr_Issues res\<rparr>"

lemma listed_issue: "vr_addIssue kind subject (listed xs res) = listed xs (vr_addIssue kind subject res)"
  by (cases kind) (simp_all add: listed_def vr_addIssue_def Let_def)

lemma listed_fold: "(\<And>x res. f x (listed xs res) = listed xs (f x res)) \<Longrightarrow> fold f ys (listed xs res) = listed xs (fold f ys res)"
  by (induction ys arbitrary: res) simp_all

lemma listed_pack: "verifyPack fails deep cas p (listed xs res) = listed xs (verifyPack fails deep cas p res)"
proof -
  have "(listed xs res)\<lparr>vr_PacksChecked := vr_PacksChecked (listed xs res) + 1\<rparr> = listed xs (res\<lparr>vr_PacksChecked := vr_PacksChecked res + 1\<rparr>)"
    by (simp add: listed_def)
  then show ?thesis unfolding verifyPack_def Let_def by (simp add: listed_issue split: sum.split)
qed

lemma listed_packs: "verifyPacks io deep cas (listed xs res) = listed xs (verifyPacks io deep cas res)"
  by (simp add: verifyPacks_def Let_def listed_issue listed_pack listed_fold)

lemma listed_whole: "verifyWhole M Z io sy valid u (listed xs res) = listed xs (verifyWhole M Z io sy valid u res)"
  by (simp add: verifyWhole_def Let_def listed_issue split: sum.split prod.split option.split)

lemma listed_scanned: "scannedResult rr (vr_addIssue kind subject (empty_verify deep)) =
    listed [\<lparr>vi_Kind = kind, vi_Subject = subject\<rparr>] (scannedResult rr (empty_verify deep))"
  by (cases kind) (simp_all add: scannedResult_def listed_def vr_addIssue_def empty_verify_def Let_def)

lemma unsupported_listed:
  assumes "\<not> supportedStoreFormat (sf_StoreFormatVersion (s_format (sy_store (st_sys s))))"
    and "verifyStore M K Z io deep s = Inr res"
  shows "\<lparr>vi_Kind = IssueInvalid, vi_Subject = ''FORMAT.json''\<rparr> \<in> set (vr_Issues res)
    \<and> (\<exists>rr. computeReachability M K Z (vf_reach io) deep s = Inr rr
         \<and> (verify_OK res \<longleftrightarrow> reach_OK rr \<and> (let sy = st_sys s; checked = verifyPacks io deep (sy_cas sy) (scannedResult rr (empty_verify deep)) in
              vr_tracker_ok (if deep then fold (verifyWhole M Z io sy (rr_ValidChunks rr)) (vf_order io (sorted_list_of_set (rr_ReferencedManifests rr))) checked
                else checked))))"
proof -
  define issue where "issue = \<lparr>vi_Kind = IssueInvalid, vi_Subject = ''FORMAT.json''\<rparr>"
  obtain rr where rr: "computeReachability M K Z (vf_reach io) deep s = Inr rr"
    using assms(2) by (cases "computeReachability M K Z (vf_reach io) deep s") (auto simp: verifyStore_def Let_def)
  let ?us = "vf_order io (sorted_list_of_set (rr_ReferencedManifests rr))"
  let ?packs = "verifyPacks io deep (sy_cas (st_sys s)) (scannedResult rr (empty_verify deep))"
  let ?f = "if deep then fold (verifyWhole M Z io (st_sys s) (rr_ValidChunks rr)) ?us else id"
  have first: "scannedResult rr (vr_addIssue IssueInvalid ''FORMAT.json'' (empty_verify deep)) = listed [issue] (scannedResult rr (empty_verify deep))"
    by (simp add: listed_scanned issue_def)
  have a: "unreachableAccounting io rr (st_sys s) (?f (verifyPacks io deep (sy_cas (st_sys s))
      (scannedResult rr (vr_addIssue IssueInvalid ''FORMAT.json'' (empty_verify deep))))) = Inr res"
    using assms rr by (simp add: verifyStore_def Let_def split: if_splits)
  have "?f (listed [issue] r) = listed [issue] (?f r)" for r by (simp add: listed_whole listed_fold)
  then have b: "unreachableAccounting io rr (st_sys s) (listed [issue] (?f ?packs)) = Inr res"
    using a unfolding first listed_packs by simp
  have res: "vr_Issues res = issue # vr_Issues (?f ?packs)" "vr_tracker_ok res = vr_tracker_ok (?f ?packs)" "vr_JournalOK res = vr_JournalOK (?f ?packs)"
    using accounting_ok [OF b] by (simp_all add: listed_def vr_tracker_ok_def)
  have "checks (fold (verifyWhole M Z io (st_sys s) (rr_ValidChunks rr)) ?us) (\<forall>u \<in> set ?us. True)"
    by (rule checks_fold) (rule checks_any [OF verifyWhole_checks])
  then have f: "checks ?f True" by (cases deep) (simp_all add: checks_def)
  note pk = verifyPacks_checks [of io deep "sy_cas (st_sys s)", unfolded checks_def]
  have j: "vr_JournalOK (?f ?packs) = rr_JournalOK rr" using f pk scannedResult_ok [of rr] unfolding checks_def by blast
  have t: "tracker_ok rr" if "vr_tracker_ok (?f ?packs)" using that f pk scannedResult_ok [of rr] unfolding checks_def by blast
  have "verify_OK res \<longleftrightarrow> reach_OK rr \<and> vr_tracker_ok (?f ?packs)"
    using t unfolding verify_OK_def reach_OK_def res j by blast
  then show ?thesis using rr by (simp add: res(1) issue_def Let_def)
qed

section \<open>What a clean check means\<close>

text \<open>What the deep check of a pack establishes: its layout and its record headers, not the payloads.\<close>

definition pack_laid_out :: "casState \<Rightarrow> packInfo \<Rightarrow> bool" where
  "pack_laid_out cas p \<longleftrightarrow> (\<exists>f es bs. fmlookup (cs_packFiles cas) (pi_path p) = Some f \<and> readPackLayout f = Inr (es, bs)
     \<and> path_base (pi_path p) = hex_encode (digest_bytes bs) @ packFileSuffix
     \<and> (\<forall>e \<in> set es. pack_read_at f (unat (pe_off e) - packRecordHeaderSize) packRecordHeaderSize
          = Some (putPackRecordHeader e)))"

lemma checkRecordHeaders_ok:
  "checkRecordHeaders i f es = Inr u \<Longrightarrow> e \<in> set es
    \<Longrightarrow> pack_read_at f (unat (pe_off e) - packRecordHeaderSize) packRecordHeaderSize = Some (putPackRecordHeader e)"
  by (induction i f es rule: checkRecordHeaders.induct) (auto split: option.splits if_splits)

lemma pack_checked_deep:
  assumes "pack_checked fails True cas p"
  shows "pack_laid_out cas p"
proof -
  obtain f where f: "fmlookup (cs_packFiles cas) (pi_path p) = Some f"
    and "is_ok (checkPackRecords (pi_path p) (path_base (pi_path p)) f)"
    using assms by (auto simp: pack_checked_def checkPack_def split: if_splits option.splits)
  then obtain info es u where l: "loadPackFile (pi_path p) (path_base (pi_path p)) f = Inr (info, es)"
    and h: "checkRecordHeaders 0 f es = Inr u"
    by (cases "loadPackFile (pi_path p) (path_base (pi_path p)) f") (auto simp: checkPackRecords_def)
  obtain bs where "readPackLayout f = Inr (es, bs)" "path_base (pi_path p) = hex_encode (digest_bytes bs) @ packFileSuffix"
    using l by (cases "readPackLayout f") (auto simp: loadPackFile_def statPackFile_def newPackInfo_def split: if_splits)
  with f h checkRecordHeaders_ok show ?thesis unfolding pack_laid_out_def by metis
qed

text \<open>
  C40: A deep \<^verbatim>\<open>Verify\<close> that ends with \<^verbatim>\<open>OK\<close> means that the live data is recoverable: the scan was clean; every manifest
  that a current object, an old version, an upload or a snapshot names is on disk under the digest recorded for it,
  and its chunks, read one by one in the order of the manifest, are each the bytes of their digest, and together
  are exactly as long as the manifest says and hash to its object digest; and every chunk an open upload needs is
  present. Of the packs it means that none failed to load or contradicts another, and that every indexed pack is on
  disk under the name its index digest gives it, with a readable layout and, before every record, the header its
  index entry asks for. The payloads of records that nothing references are not read, so they may be damaged. This
  holds whatever the order of the passes and the failures.
\<close>

theorem clean_verify_means_recoverable:
  assumes "verifyStore M K Z io True s = Inr res" and "verify_OK res" and "orders_ok (vf_reach io)"
    and "\<And>xs. set (vf_order io xs) = set xs"
  shows "(\<exists>rr. computeReachability M K Z (vf_reach io) True s = Inr rr \<and> reach_OK rr)
    \<and> (\<forall>(u, sha) \<in> live_roots K s. \<exists>man. rooted M (sy_manifests (st_sys s)) u sha man
         \<and> whole_object Z (vf_read io) (sy_cas (st_sys s)) man)
    \<and> (\<forall>c \<in> live_refs s. \<exists>dg. decodeHexSHA256 (cr_SHA256 c) = Some dg \<and> chunk_present Z (vf_reach io) True (sy_cas (st_sys s)) dg)
    \<and> ps_bad (cs_packs (sy_cas (st_sys s))) = [] \<and> ps_clash (cs_packs (sy_cas (st_sys s))) = []
    \<and> (\<forall>p \<in> set (ps_packs (cs_packs (sy_cas (st_sys s)))). pack_laid_out (sy_cas (st_sys s)) p)"
  using verify_clean [OF assms] pack_checked_deep by blast

definition quiet_check :: verify_io where
  "quiet_check = \<lparr>vf_reach = quiet_io, vf_tiers = False, vf_pack = (\<lambda>_. False), vf_man = (\<lambda>_. False), vf_read = (\<lambda>_. False),
     vf_order = id, vf_walkChunks = False, vf_walkManifests = False, vf_tmpBytes = False\<rparr>"

lemma live_root: "(sample_id, sha256 [1]) \<in> live_roots no_snapshots live_site"
  by (force simp: live_roots_def live_site_def snapshot_store_def snapshot_entry_def)

lemma live_whole: "verifyWhole live_codec stored_flate quiet_check (st_sys live_site) valid sample_id res = res"
proof -
  have m: "readManifest live_codec (vf_man quiet_check) sample_id (st_sys live_site) = Inr (live_man, [1])"
    by (simp add: readManifest_def quiet_check_def live_site_def live_codec_def)
  have r: "casRead stored_flate (vf_read quiet_check dg) (sha256 [65]) (sy_cas (st_sys live_site)) = Inr [65]" for dg
    by (simp add: quiet_check_def live_site_def empty_cas_def ps_lookup_def casRead_def casReadExcluding_def appendLocs_def readLooseCopy_def)
  show ?thesis by (simp add: verifyWhole_def m r Let_def live_man_def chunk_ref_def)
qed

theorem clean_verify_means_recoverable_witness:
  "\<exists>man. rooted live_codec (sy_manifests (st_sys live_site)) sample_id (sha256 [1]) man
     \<and> whole_object stored_flate (\<lambda>_. False) (sy_cas (st_sys live_site)) man"
proof -
  have q: "vf_reach quiet_check = quiet_io" "vf_order quiet_check = id" "vf_read quiet_check = (\<lambda>_. False)" by (simp_all add: quiet_check_def)
  obtain rr where rr: "computeReachability live_codec no_snapshots stored_flate quiet_io True live_site = Inr rr" "reach_OK rr"
    using live_scan by blast
  have "fst ` live_roots no_snapshots live_site \<subseteq> {sample_id}"
    by (auto simp: live_roots_def live_site_def snapshot_store_def snapshot_entry_def empty_namespace_def readSnapshot_def readSnapshotFrame_def)
  then have "rr_ReferencedManifests rr \<subseteq> {sample_id}"
    using clean_scan [OF quiet_orders rr(1) [unfolded computeReachability_def] rr(2)] by metis
  then have whole: "fold (verifyWhole live_codec stored_flate quiet_check (st_sys live_site) (rr_ValidChunks rr))
      (sorted_list_of_set (rr_ReferencedManifests rr)) res = res" for res
    by (cases "rr_ReferencedManifests rr = {}") (auto simp: live_whole dest: subset_singletonD)
  have packs: "verifyPacks quiet_check True (sy_cas (st_sys live_site)) res = res" for res
    by (simp add: verifyPacks_def quiet_check_def live_site_def empty_cas_def Let_def)
  obtain res0 where r0: "vr_tracker_ok (scannedResult rr res0) \<and> vr_JournalOK (scannedResult rr res0)"
    "verifyStore live_codec no_snapshots stored_flate quiet_check True live_site
      = unreachableAccounting quiet_check rr (st_sys live_site) (scannedResult rr res0)"
    using rr scannedResult_ok by (simp add: verifyStore_def Let_def q whole packs reach_OK_def)
  obtain res where res: "unreachableAccounting quiet_check rr (st_sys live_site) (scannedResult rr res0) = Inr res"
    by (simp add: unreachableAccounting_def quiet_check_def Let_def)
  have "verify_OK res" using accounting_ok [OF res] r0(1) by (simp add: verify_OK_def)
  from clean_verify_means_recoverable [OF r0(2) [unfolded res] this] live_root
  show ?thesis unfolding q by (simp add: quiet_orders) blast
qed

end
