(* ===== verification/Spec2Isabelle.thy ===== *)
theory Spec2Isabelle
  imports Durability Listing SyncFile Compact Verify
begin

text \<open>
  A verification library of zeros3, an S3-compatible object store in one Go file
  (\<^verbatim>\<open>src/zeros3.go\<close>; the section numbers below are those of its comments).

  \<^bold>\<open>The program.\<close> An object is a list of content-defined chunks. Chunks live in a
  content-addressed store, as loose files in shard directories or as records of immutable
  packs that a locator indexes. An immutable manifest lists the chunks of an object. Which
  manifest a key shows, its history and the multipart uploads in progress are the namespace,
  an in-memory map whose only durable form is an append-only journal: every mutation appends
  one checksummed frame and then changes the maps, and opening a store replays the journal.
  A PUT runs the stream through the chunker into a sink (loose batches or direct packs) and
  commits a root; a GET looks the root up and streams the chunks of a byte range.

  \<^bold>\<open>Theories, in the order of their imports.\<close>

  \<^item> \<open>Prelude\<close>, \<open>Crypto\<close>: bytes, fixed-width integers in both byte orders, hexadecimal, result
    types; SHA-256, MD5 and CRC-32C written out as the standard library computes them.
  \<^item> \<open>Journal\<close> (section 6): frames, \<open>appendFrame\<close> with every failing write and sync, replay,
    \<open>openJournal\<close>. Round trip, torn tails, poisoning, detected and undetected corruption.
  \<^item> \<open>Namespace\<close>, \<open>Store\<close> (sections 5-7): the record payloads, \<open>applyRecord\<close>, bucket and object
    operations. \<open>Multipart\<close> (11b): parts, completion, abort. \<open>History\<close> (7c, 7d): retention.
  \<^item> \<open>Durability\<close>: lists of operations on a fresh store (\<open>operation\<close>, \<open>perform\<close>). If all their strings are valid
    UTF-8, reopening the store gives back exactly the namespace that was visible; after a failed append it gives that or the
    namespace of the very operation whose append failed (\<open>track\<close>). An invalid key is renamed.
  \<^item> \<open>Chunking\<close> (section 3): gear table, boundary scan, the refilling buffer over any
    \<^verbatim>\<open>io.Reader\<close>. The chunks do not depend on how the stream is fragmented, their bounds,
    locality, and readers that break off before their end.
  \<^item> \<open>Pack\<close>, \<open>PackVerify\<close> (section 4b): the pack format, layout checks, record reads, full
    verification, the builder. Round trip, verified reads, and that a verified pack serves
    every record of its index.
  \<^item> \<open>Locator\<close>, \<open>Copies\<close> (section 4b): record packing, the counting group sort, index levels,
    lookup, all copies of a digest, primaries, publication of a pack into the snapshot.
  \<^item> \<open>Cas\<close>, \<open>Batch\<close> (section 4): lookups, verified reads with fallback, staged publication with
    rollback, batches with one flush in the background, \<open>casWrite\<close>.
  \<^item> \<open>Ingest\<close> (sections 4, 13c): \<open>publishPack\<close>, the two sinks behind the locales \<open>chunk_sink\<close> and
    \<open>live_sink\<close>, and \<open>ingestStream\<close>, also for a reader that breaks off.
  \<^item> \<open>Read\<close> (sections 4c, 14): ranges, coalesced pack runs, the manifest reader, \<open>streamObject\<close>.
  \<^item> \<open>Paging\<close>, \<open>Listing\<close> (7b, 9b, 11b): continuation tokens, the page loop, \<open>ListObjectsV2\<close>,
    \<open>ListMultipartUploads\<close> and \<open>ListParts\<close>; the locale \<open>paged\<close> is the contract of a cursor, and its
    interpretations show that walking the pages yields every entry once.
  \<^item> \<open>Objects\<close> (5, 7, 7c, 10-11): manifest files, conditional requests, payload checks, and the
    handlers that put the parts together: PUT, GET, \<open>CopyObject\<close> and \<open>RestoreObjectVersion\<close> on one
    \<open>system\<close> state (namespace with journal, chunk store, manifest files).
  \<^item> \<open>Snapshots\<close> (15h): the descriptor codec, capture, publication, the catalog and its readers.
  \<^item> \<open>Reach\<close> (12a): the reachability scan over current objects, history versions, snapshots and
    uploads in progress, and what a scan without issues means.
  \<^item> \<open>PackLoad\<close> (4b): discovery of the published packs of all tiers and the locator built from them;
    a reopened store serves exactly what is on disk (\<open>disk_good\<close>).
  \<^item> \<open>Repack\<close> (4b, 13d): pack usage, planning, staging and the replacement of packs; \<open>pack_store\<close> is
    the invariant, and no failure loses the last good copy of a referenced chunk. \<open>new_packs\<close> are the packs
    that the readable chunks can form, a finite set on which pack names are asked not to collide.
  \<^item> \<open>Gc\<close> (13b): the eligibility checks of a collection, the dead loose chunks and manifests, the
    affected packs and their replacement. Whatever fails, every chunk that a clean scan reaches stays
    readable (\<open>collection_keeps_live_data\<close>).
  \<^item> \<open>Verify\<close> (13): the integrity check over the scan, the packs and the whole content of every live object;
    a clean deep check means that all of it can be read back, and that the packs are laid out as their indexes say.
    Payloads of records that nothing references are not read.
  \<^item> \<open>Compact\<close> (13c): the locality order, the plan of complete packs, the publication of each pack and
    the removal of the loose files whose packed copy a verified read has confirmed.
  \<^item> \<open>Sync\<close> (15): the handlers of version 1 of the sync protocol: describe, download, negotiate, upload and
    the commit that reads every named chunk back. \<open>SyncClient\<close> (15b): the client's scan, plan, batched
    negotiation and concurrent uploads in version 1, and the commit.
  \<^item> \<open>Bulk\<close> (15b-ter): the framed transport of version 2: codec, incremental reader, handlers, batch
    planning, and the client sides of fetch and upload.
  \<^item> \<open>SyncFile\<close> (15b, 15b-ter): \<open>syncFile\<close>: the discovery, the plain PUT when it fails (\<open>doPlainPutFallback\<close>), and the
    sync over either transport when it succeeds (\<open>syncDelta\<close>). The locale \<open>transport\<close> is the contract that the
    sync uses; requests, responses and bodies may be lost or cut short, and other clients may act between
    any two phases.

  \<^bold>\<open>State and effects.\<close> State is passed explicitly: \<open>journal\<close>, \<open>store\<close>, \<open>casState\<close>, \<open>casBatch\<close>,
  \<open>manifestReader\<close> are records with the fields of the Go structs. A file is its bytes, a
  directory tree a map. Every system call that the code checks can fail: the environments
  \<open>append_io\<close>, \<open>env\<close>, \<open>cas_io\<close> and \<open>read_io\<close> say which calls fail, in which order a Go map is
  ranged over and when a background flush lands, and the theorems hold for all of them.
  Errors are values of sum types. Operations that hold a lock exclusively are one step.

  \<^bold>\<open>Parameters.\<close> Two standard packages whose output the code treats as opaque are parameters:
  \<open>json_codec\<close>, \<open>man_codec\<close>, \<open>snap_codec\<close> and \<open>sync_codec\<close> (\<^verbatim>\<open>encoding/json\<close> for journal payloads, manifests,
  snapshot descriptors and sync requests, with \<open>json_ok\<close>, \<open>man_ok\<close>, \<open>snap_ok\<close> and \<open>sync_codec_ok\<close>: decoding an encoded value gives it back with invalid UTF-8 replaced) and \<open>flate_codec\<close> (\<^verbatim>\<open>compress/flate\<close>, with \<open>flate_ok\<close>: inflating a
  deflated payload gives it back). A stream is any function that satisfies \<open>delivers\<close>, the
  contract of \<^verbatim>\<open>io.Reader\<close>, or \<open>breaks_off\<close>, that of one that ends in an error. SHA-256 is the real function, so no statement assumes that it has
  no collisions: reads are stated up to digests, or relative to a store that is \<open>faithful\<close> to
  given parts, and \<open>pack_names\<close> asks that the pack files at hand have different names.

  \<^bold>\<open>Termination.\<close> Loops over files, buffers and chunk lists are total functions with a measure.
  The three loops that end only if the reader does (\<open>chunkLoop\<close>, \<open>ingestLoop\<close>, \<open>scanLoop\<close>) are partial
  functions in the option type, and the theorems prove that they return. There is no fuel.

  \<^bold>\<open>Bounds.\<close> Lengths and offsets inside files are natural numbers or words of the code's width;
  the statements that depend on it carry the limits of the format (\<open>maxJournalPayload\<close>, pack
  files below \<open>2 ^ 63\<close> bytes, at most \<open>2 ^ 30\<close> packs). Signed 64-bit conversions of pack offsets
  are modelled without wrap-around, since an accepted pack has offsets inside its file.

  \<^bold>\<open>Not modelled.\<close> HTTP routing, XML and SigV4 (sections 8-10), statistics (12),
  the movement of packs between tiers and its policy (13e, 13f), the transport of the sync client and its directory
  walk (15b, 15c), replication, repair and fork (15d-15g),
  the restore of a snapshot (15i), bundles, structured representations and their codecs (16d), and the command
  line. Of a directory walk that fails half-way the counters of the result are left out, and staging
  files of unpublished packs are not part of the state, since nothing reads them. Concurrency between requests is modelled only where the code interleaves work inside
  one operation (the background flush); operations under the store's mutex are atomic.
\<close>

end
